(* ===== verification/Pd_Prelude.thy ===== *)
theory Pd_Prelude
  imports Main "HOL-Library.Word" "HOL-Library.Monad_Syntax"
begin

text \<open>
  The prelude of the development: how C memory is read and written, and the
  lemmas on lists, options and bytes that the components share.

  \<^item> A C object of bytes is a list; a pointer into it is the object and an index, or the
    suffix of the object that starts at the pointer.
  \<^item> A computation has type \<open>'a option\<close>. \<open>None\<close> stands for undefined behaviour or for an
    abort: an access outside an object, a dereference of a null or freed pointer, a failed
    \<open>PDNSD_ASSERT\<close>. A theorem that a function returns \<open>Some\<close> is therefore a memory-safety
    theorem. Errors the code handles (return codes, null results, failed allocations) are
    ordinary values under the \<open>Some\<close>.
\<close>

unbundle bit_operations_syntax

type_synonym byte = "8 word"
type_synonym u16 = "16 word"
type_synonym u32 = "32 word"

named_theorems mem_defs \<open>definitions of the memory accesses\<close>
named_theorems name_simps \<open>what the name routines return on encoded names\<close>

subsection \<open>Bounds-checked accesses\<close>

definition rd :: "'a list \<Rightarrow> nat \<Rightarrow> 'a option" where
  "rd xs i = (if i < length xs then Some (xs ! i) else None)"

definition wr :: "'a list \<Rightarrow> nat \<Rightarrow> 'a \<Rightarrow> 'a list option" where
  "wr xs i v = (if i < length xs then Some (xs[i := v]) else None)"

definition rdn :: "'a list \<Rightarrow> nat \<Rightarrow> nat \<Rightarrow> 'a list option" where
  "rdn xs i n = (if i + n \<le> length xs then Some (take n (drop i xs)) else None)"

definition wrn :: "'a list \<Rightarrow> nat \<Rightarrow> 'a list \<Rightarrow> 'a list option" where
  "wrn xs i vs =
     (if i + length vs \<le> length xs
      then Some (take i xs @ vs @ drop (i + length vs) xs) else None)"

definition must :: "bool \<Rightarrow> unit option" where
  "must b = (if b then Some () else None)"

lemmas [mem_defs] = rd_def wr_def rdn_def wrn_def must_def

lemma must_simps [simp]: "must True = Some ()" "must False = None"
  by (simp_all add: must_def)

lemma must_Some_iff [simp]: "(must b = Some u) = b"
  by (simp add: must_def)

lemma bind_must [simp]: "(Option.bind (must b) f = Some y) = (b \<and> f () = Some y)"
  by (cases b) simp_all

lemma rd_Some_iff: "(rd xs i = Some v) = (i < length xs \<and> xs ! i = v)"
  by (auto simp: rd_def)

lemma rd_None_iff: "(rd xs i = None) = (length xs \<le> i)"
  by (auto simp: rd_def)

lemma rd_nth: "i < length xs \<Longrightarrow> rd xs i = Some (xs ! i)"
  by (simp add: rd_def)

lemma rd_append_len [simp]: "i = length xs \<Longrightarrow> rd (xs @ y # ys) i = Some y"
  by (simp add: rd_def)

lemma rd_append_add: "rd (xs @ ys) (length xs + i) = rd ys i"
  by (simp add: rd_def)

lemma rd_append_add1: "rd (x # xs @ ys) (Suc (length xs + i)) = rd ys i"
  by (simp add: rd_def)

lemma rd_Cons_0 [simp]: "rd (x # xs) 0 = Some x"
  by (simp add: rd_def)

lemma rd_Cons_Suc [simp]: "rd (x # xs) (Suc i) = rd xs i"
  by (simp add: rd_def)

lemma rd_Nil [simp]: "rd [] i = None"
  by (simp add: rd_def)

lemma rd_map [simp]: "rd (map f xs) i = map_option f (rd xs i)"
  by (simp add: rd_def)

lemma wr_Some_iff: "(wr xs i v = Some ys) = (i < length xs \<and> ys = xs[i := v])"
  by (auto simp: wr_def)

lemma wr_length: "wr xs i v = Some ys \<Longrightarrow> length ys = length xs"
  by (auto simp: wr_Some_iff)

lemma wr_nth: "i < length xs \<Longrightarrow> wr xs i v = Some (xs[i := v])"
  by (simp add: wr_def)

lemma wr_append_len [simp]: "i = length xs \<Longrightarrow> wr (xs @ y # ys) i v = Some (xs @ v # ys)"
  by (simp add: wr_def)

lemma wrn_length: "wrn xs i vs = Some ys \<Longrightarrow> length ys = length xs"
  by (auto simp: wrn_def split: if_splits)

lemma rdn_length: "rdn xs i n = Some ys \<Longrightarrow> length ys = n"
  by (auto simp: rdn_def split: if_splits)

lemma rdn_append_mid [simp]: "rdn (xs @ ys @ zs) (length xs) (length ys) = Some ys"
  by (simp add: rdn_def)

lemma rdn_append_mid2: "n = length ys \<Longrightarrow> i = length xs \<Longrightarrow> rdn (xs @ ys @ zs) i n = Some ys"
  by simp

text \<open>A stretch of a buffer replaced: what successive writes amount to.\<close>

definition splice :: "'a list \<Rightarrow> nat \<Rightarrow> 'a list \<Rightarrow> 'a list" where
  "splice xs i vs = take i xs @ vs @ drop (i + length vs) xs"

lemma splice_length [simp]: "i + length vs \<le> length xs \<Longrightarrow> length (splice xs i vs) = length xs"
  by (simp add: splice_def)

lemma splice_Nil [simp]: "splice xs i [] = xs"
  by (simp add: splice_def)

lemma wrn_splice: "i + length vs \<le> length xs \<Longrightarrow> wrn xs i vs = Some (splice xs i vs)"
  by (simp add: wrn_def splice_def)

lemma wr_splice: "i < length xs \<Longrightarrow> wr xs i v = Some (splice xs i [v])"
  by (simp add: wr_def splice_def upd_conv_take_nth_drop)

lemma splice_splice:
  assumes "j = i + length vs" "j + length ws \<le> length xs"
  shows "splice (splice xs i vs) j ws = splice xs i (vs @ ws)"
proof -
  have "take j (splice xs i vs) = take i xs @ vs"
    using assms by (simp add: splice_def)
  moreover have "drop (j + length ws) (splice xs i vs) = drop (i + length (vs @ ws)) xs"
    using assms by (simp add: splice_def add.commute add.left_commute)
  ultimately show ?thesis by (simp add: splice_def)
qed

subsection \<open>Options and lists\<close>

lemma bind_Some_iff: "(Option.bind m f = Some y) = (\<exists>x. m = Some x \<and> f x = Some y)"
  by (cases m) auto

lemma bind_None_iff: "(Option.bind m f = None) = (m = None \<or> (\<exists>x. m = Some x \<and> f x = None))"
  by (cases m) auto

lemma list_update_append_len [simp]: "(xs @ y # ys)[length xs := v] = xs @ v # ys"
  by (simp add: list_update_append)

lemma take_Suc_nth: "i < length xs \<Longrightarrow> take (Suc i) xs = take i xs @ [xs ! i]"
  by (simp add: take_Suc_conv_app_nth)

lemma sum_list_update_nat:
  fixes xs :: "nat list"
  shows "i < length xs \<Longrightarrow> sum_list (xs[i := v]) + xs ! i = sum_list xs + v"
  by (induction xs arbitrary: i) (auto split: nat.split)

subsection \<open>Bytes\<close>

lemma unat_byte_lt [simp]: "unat (b :: byte) < 256"
  proof -
  have "unat b < 2 ^ LENGTH(8)" by (rule unsigned_less)
  then show ?thesis by simp
qed

lemma unat_byte_le [simp]: "unat (b :: byte) \<le> 255"
  using unat_byte_lt [of b] by linarith

lemma unat_byte_of_nat [simp]: "n < 256 \<Longrightarrow> unat (word_of_nat n :: byte) = n"
  by (simp add: unat_of_nat take_bit_eq_mod)

lemma byte_of_nat_eq_0 [simp]: "n < 256 \<Longrightarrow> ((word_of_nat n :: byte) = 0) = (n = 0)"
  by (metis unat_byte_of_nat unat_eq_zero)

lemma byte_of_nat_inj: "m < 256 \<Longrightarrow> n < 256 \<Longrightarrow> ((word_of_nat m :: byte) = word_of_nat n) = (m = n)"
  by (metis unat_byte_of_nat)

text \<open>The character classification of \<open>ctype.h\<close>, in the \<open>C\<close> locale: pdnsd never calls
  \<open>setlocale\<close>.\<close>

definition tolower_c :: "byte \<Rightarrow> byte" where
  "tolower_c c = (if 65 \<le> c \<and> c \<le> 90 then c + 32 else c)"

definition toupper_c :: "byte \<Rightarrow> byte" where
  "toupper_c c = (if 97 \<le> c \<and> c \<le> 122 then c - 32 else c)"

definition isgraph_c :: "byte \<Rightarrow> bool" where
  "isgraph_c c = (33 \<le> c \<and> c \<le> 126)"

definition isprint_c :: "byte \<Rightarrow> bool" where
  "isprint_c c = (32 \<le> c \<and> c \<le> 126)"

definition isspace_c :: "byte \<Rightarrow> bool" where
  "isspace_c c = (c = 32 \<or> (9 \<le> c \<and> c \<le> 13))"

lemma tolower_eq_imp_toupper_eq: "tolower_c a = tolower_c b \<Longrightarrow> toupper_c a = toupper_c b"
proof -
  assume a: "tolower_c a = tolower_c b"
  have u: "unat (tolower_c c) = (if 65 \<le> unat c \<and> unat c \<le> 90 then unat c + 32 else unat c)" for c
    using unat_byte_lt [of c]
    by (auto simp: tolower_c_def word_le_nat_alt unat_word_ariths)
  have v: "unat (toupper_c c) = (if 97 \<le> unat c \<and> unat c \<le> 122 then unat c - 32 else unat c)" for c
    using unat_byte_lt [of c]
    by (auto simp: toupper_c_def word_le_nat_alt unat_sub)
  have "unat (toupper_c a) = unat (toupper_c b)"
    using arg_cong [OF a, of unat] unfolding u v by (auto split: if_splits)
  then show ?thesis by (rule word_unat_eq_iff [THEN iffD2])
qed


subsection \<open>Integers in memory\<close>

text \<open>Little-endian storage of 16-bit and 32-bit integers.\<close>

definition le16 :: "u16 \<Rightarrow> byte list" where
  "le16 x = [ucast x, ucast (drop_bit 8 x)]"

definition le32 :: "u32 \<Rightarrow> byte list" where
  "le32 x = [ucast x, ucast (drop_bit 8 x), ucast (drop_bit 16 x), ucast (drop_bit 24 x)]"

definition un_le16 :: "byte list \<Rightarrow> u16" where
  "un_le16 bs = ucast (bs ! 0) OR push_bit 8 (ucast (bs ! 1))"

definition un_le32 :: "byte list \<Rightarrow> u32" where
  "un_le32 bs = ucast (bs ! 0) OR push_bit 8 (ucast (bs ! 1)) OR push_bit 16 (ucast (bs ! 2)) OR
     push_bit 24 (ucast (bs ! 3))"

lemma le_lengths [simp]: "length (le16 x) = 2" "length (le32 y) = 4"
  by (simp_all add: le16_def le32_def)

lemma un_le16_le16 [simp]: "un_le16 (le16 x) = x"
  unfolding un_le16_def le16_def
  by (rule bit_word_eqI) (auto simp: bit_simps)

lemma un_le32_le32 [simp]: "un_le32 (le32 x) = x"
proof (rule bit_word_eqI)
  fix n assume "n < LENGTH(32)"
  then consider "n < 8" | "8 \<le> n" "n < 16" | "16 \<le> n" "n < 24" | "24 \<le> n" "n < 32" by fastforce
  then show "bit (un_le32 (le32 x)) n = bit x n"
    by cases (auto simp: un_le32_def le32_def bit_simps)
qed

end
