(* ===== verification/Pd_Types.thy ===== *)
theory Pd_Types
  imports Pd_Prelude
begin

text \<open>
  The resource-record types pdnsd knows (\<open>rr_types.h\<close>, \<open>rr_types.c\<close>): the type codes, the
  table that maps a type to the index of its RR set in a cache entry, the lists that iterate
  over a cache entry by ascending type, the names, and the table of types that exclude one
  another, with the lookup by name and the facts that make the tables consistent.
\<close>

subsection \<open>Type codes\<close>

text \<open>RR types are C \<open>int\<close>s here; types beyond \<open>T_MAX\<close> are never cached.\<close>

abbreviation (input) T_A :: int where "T_A \<equiv> 1"
abbreviation (input) T_NS :: int where "T_NS \<equiv> 2"
abbreviation (input) T_MD :: int where "T_MD \<equiv> 3"
abbreviation (input) T_MF :: int where "T_MF \<equiv> 4"
abbreviation (input) T_CNAME :: int where "T_CNAME \<equiv> 5"
abbreviation (input) T_SOA :: int where "T_SOA \<equiv> 6"
abbreviation (input) T_MB :: int where "T_MB \<equiv> 7"
abbreviation (input) T_MG :: int where "T_MG \<equiv> 8"
abbreviation (input) T_MR :: int where "T_MR \<equiv> 9"
abbreviation (input) T_NULL :: int where "T_NULL \<equiv> 10"
abbreviation (input) T_WKS :: int where "T_WKS \<equiv> 11"
abbreviation (input) T_PTR :: int where "T_PTR \<equiv> 12"
abbreviation (input) T_HINFO :: int where "T_HINFO \<equiv> 13"
abbreviation (input) T_MINFO :: int where "T_MINFO \<equiv> 14"
abbreviation (input) T_MX :: int where "T_MX \<equiv> 15"
abbreviation (input) T_TXT :: int where "T_TXT \<equiv> 16"
abbreviation (input) T_RP :: int where "T_RP \<equiv> 17"
abbreviation (input) T_AFSDB :: int where "T_AFSDB \<equiv> 18"
abbreviation (input) T_X25 :: int where "T_X25 \<equiv> 19"
abbreviation (input) T_ISDN :: int where "T_ISDN \<equiv> 20"
abbreviation (input) T_RT :: int where "T_RT \<equiv> 21"
abbreviation (input) T_NSAP :: int where "T_NSAP \<equiv> 22"
abbreviation (input) T_NSAP_PTR :: int where "T_NSAP_PTR \<equiv> 23"
abbreviation (input) T_SIG :: int where "T_SIG \<equiv> 24"
abbreviation (input) T_KEY :: int where "T_KEY \<equiv> 25"
abbreviation (input) T_PX :: int where "T_PX \<equiv> 26"
abbreviation (input) T_GPOS :: int where "T_GPOS \<equiv> 27"
abbreviation (input) T_AAAA :: int where "T_AAAA \<equiv> 28"
abbreviation (input) T_LOC :: int where "T_LOC \<equiv> 29"
abbreviation (input) T_NXT :: int where "T_NXT \<equiv> 30"
abbreviation (input) T_EID :: int where "T_EID \<equiv> 31"
abbreviation (input) T_NIMLOC :: int where "T_NIMLOC \<equiv> 32"
abbreviation (input) T_SRV :: int where "T_SRV \<equiv> 33"
abbreviation (input) T_ATMA :: int where "T_ATMA \<equiv> 34"
abbreviation (input) T_NAPTR :: int where "T_NAPTR \<equiv> 35"
abbreviation (input) T_KX :: int where "T_KX \<equiv> 36"
abbreviation (input) T_CERT :: int where "T_CERT \<equiv> 37"
abbreviation (input) T_A6 :: int where "T_A6 \<equiv> 38"
abbreviation (input) T_DNAME :: int where "T_DNAME \<equiv> 39"
abbreviation (input) T_SINK :: int where "T_SINK \<equiv> 40"
abbreviation (input) T_OPT :: int where "T_OPT \<equiv> 41"
abbreviation (input) T_APL :: int where "T_APL \<equiv> 42"
abbreviation (input) T_DS :: int where "T_DS \<equiv> 43"
abbreviation (input) T_SSHFP :: int where "T_SSHFP \<equiv> 44"
abbreviation (input) T_IPSECKEY :: int where "T_IPSECKEY \<equiv> 45"
abbreviation (input) T_RRSIG :: int where "T_RRSIG \<equiv> 46"
abbreviation (input) T_NSEC :: int where "T_NSEC \<equiv> 47"
abbreviation (input) T_DNSKEY :: int where "T_DNSKEY \<equiv> 48"
abbreviation (input) T_DHCID :: int where "T_DHCID \<equiv> 49"
abbreviation (input) T_NSEC3 :: int where "T_NSEC3 \<equiv> 50"
abbreviation (input) T_NSEC3PARAM :: int where "T_NSEC3PARAM \<equiv> 51"

abbreviation (input) T_MIN :: int where "T_MIN \<equiv> 1"
abbreviation (input) T_MAX :: int where "T_MAX \<equiv> 51"
abbreviation (input) T_NUM :: nat where "T_NUM \<equiv> 51"

text \<open>The number of most used types, of the other cached types, and of both.\<close>

abbreviation (input) NRRMU :: nat where "NRRMU \<equiv> 8"
abbreviation (input) NRREXT :: nat where "NRREXT \<equiv> 39"
abbreviation (input) NRRTOT :: nat where "NRRTOT \<equiv> 47"

subsection \<open>Tables\<close>

definition rrlkuptab :: "nat list" where
  "rrlkuptab =
   [0, 1, 8, 9, 2, 3, 10, 11, 12, 13, 14, 4, 15, 16, 5, 6, 17, 18, 19, 20, 21, 22, 23, 24,
    25, 26, 27, 7, 28, 29, 30, 31, 32, 33, 34, 35, 36, 47, 48, 49, 50, 37, 38, 39, 40, 41,
    42, 43, 44, 45, 46]"

definition rrmuiterlist :: "int list" where
  "rrmuiterlist =
   [T_A, T_NS, T_CNAME, T_SOA, T_PTR, T_MX, T_TXT, T_AAAA]"

definition rrcachiterlist :: "int list" where
  "rrcachiterlist =
   [T_A, T_NS, T_MD, T_MF, T_CNAME, T_SOA, T_MB, T_MG, T_MR, T_NULL, T_WKS, T_PTR, T_HINFO,
    T_MINFO, T_MX, T_TXT, T_RP, T_AFSDB, T_X25, T_ISDN, T_RT, T_NSAP, T_NSAP_PTR, T_SIG,
    T_KEY, T_PX, T_GPOS, T_AAAA, T_LOC, T_NXT, T_EID, T_NIMLOC, T_SRV, T_ATMA, T_NAPTR,
    T_KX, T_CERT, T_APL, T_DS, T_SSHFP, T_IPSECKEY, T_RRSIG, T_NSEC, T_DNSKEY, T_DHCID,
    T_NSEC3, T_NSEC3PARAM]"

definition rrnames :: "string list" where
  "rrnames =
   [''A'', ''NS'', ''MD'', ''MF'', ''CNAME'', ''SOA'', ''MB'', ''MG'', ''MR'', ''NULL'',
    ''WKS'', ''PTR'', ''HINFO'', ''MINFO'', ''MX'', ''TXT'', ''RP'', ''AFSDB'', ''X25'',
    ''ISDN'', ''RT'', ''NSAP'', ''NSAP_PTR'', ''SIG'', ''KEY'', ''PX'', ''GPOS'', ''AAAA'',
    ''LOC'', ''NXT'', ''EID'', ''NIMLOC'', ''SRV'', ''ATMA'', ''NAPTR'', ''KX'', ''CERT'',
    ''A6'', ''DNAME'', ''SINK'', ''OPT'', ''APL'', ''DS'', ''SSHFP'', ''IPSECKEY'',
    ''RRSIG'', ''NSEC'', ''DNSKEY'', ''DHCID'', ''NSEC3'', ''NSEC3PARAM'']"

text \<open>\<open>struct rr_infos\<close>: the class of a type and the classes it cannot coexist with.\<close>

record rr_infos =
  ri_class :: nat
  ri_excludes :: nat

definition RRCL_ALIAS :: nat where "RRCL_ALIAS = 1"
definition RRCL_RECORD :: nat where "RRCL_RECORD = 2"
definition RRCL_IDEM :: nat where "RRCL_IDEM = 4"
definition RRCL_PTR :: nat where "RRCL_PTR = 8"

definition rri_alias :: rr_infos where
  "rri_alias = \<lparr>ri_class = RRCL_ALIAS, ri_excludes = RRCL_RECORD OR RRCL_PTR\<rparr>"

definition rri_record :: rr_infos where
  "rri_record = \<lparr>ri_class = RRCL_RECORD, ri_excludes = RRCL_ALIAS OR RRCL_PTR\<rparr>"

definition rri_idem :: rr_infos where
  "rri_idem = \<lparr>ri_class = RRCL_IDEM, ri_excludes = 0\<rparr>"

definition rri_ptr :: rr_infos where
  "rri_ptr = \<lparr>ri_class = RRCL_PTR, ri_excludes = RRCL_ALIAS OR RRCL_RECORD\<rparr>"

definition rr_info :: "rr_infos list" where
  "rr_info =
   [rri_record, rri_idem, rri_alias, rri_idem, rri_ptr, rri_idem, rri_idem, rri_record,
    rri_idem, rri_idem, rri_idem, rri_idem, rri_idem, rri_idem, rri_record, rri_record,
    rri_idem, rri_record, rri_record, rri_record, rri_record, rri_record, rri_record,
    rri_ptr, rri_idem, rri_idem, rri_idem, rri_record, rri_record, rri_idem, rri_record,
    rri_record, rri_record, rri_record, rri_record, rri_record, rri_record, rri_idem,
    rri_idem, rri_idem, rri_idem, rri_idem, rri_idem, rri_idem, rri_idem, rri_idem, rri_idem]"

subsection \<open>Lookups\<close>

text \<open>\<open>rrlkuptab[tp-T_MIN]\<close>: \<open>None\<close> is an access outside the table.\<close>

definition rrlkup :: "int \<Rightarrow> nat option" where
  "rrlkup tp = (if tp < T_MIN then None else rd rrlkuptab (nat (tp - T_MIN)))"

text \<open>The macro \<open>PDNSD_NOT_CACHED_TYPE\<close>; its table access is guarded by the range test.\<close>

definition PDNSD_NOT_CACHED_TYPE :: "int \<Rightarrow> bool" where
  "PDNSD_NOT_CACHED_TYPE tp =
     (tp < T_MIN \<or> tp > T_MAX \<or> (case rrlkup tp of None \<Rightarrow> True | Some idx \<Rightarrow> idx \<ge> NRRTOT))"

text \<open>The test for two RR-set indices that may not coexist, as \<open>cr_check_add\<close> writes it twice.\<close>

definition rr_conflict :: "nat \<Rightarrow> nat \<Rightarrow> bool" where
  "rr_conflict idx i =
     (ri_class (rr_info ! idx) AND ri_excludes (rr_info ! i) \<noteq> 0 \<or>
      ri_excludes (rr_info ! idx) AND ri_class (rr_info ! i) \<noteq> 0)"

fun rr_tp_byname_loop :: "string \<Rightarrow> string list \<Rightarrow> int \<Rightarrow> int" where
  "rr_tp_byname_loop name [] i = -1"
| "rr_tp_byname_loop name (n # ns) i =
     (if name = n then i + T_MIN else rr_tp_byname_loop name ns (i + 1))"

definition rr_tp_byname :: "string \<Rightarrow> int" where
  "rr_tp_byname name = rr_tp_byname_loop name rrnames 0"

definition getrrtpname :: "int \<Rightarrow> string" where
  "getrrtpname tp =
     (if tp \<ge> T_MIN \<and> tp \<le> T_MAX then rrnames ! nat (tp - T_MIN) else ''[unknown]'')"

text \<open>The names of classes, query types and return codes of the debug messages (\<open>dns.c\<close>).\<close>

definition get_cname :: "int \<Rightarrow> string" where
  "get_cname tid =
     (if tid \<ge> 1 \<and> tid \<le> 4 then [''IN'', ''CS'', ''CH'', ''HS''] ! nat (tid - 1)
      else if tid = 255 then ''*'' else ''[unknown]'')"

definition get_tname :: "int \<Rightarrow> string" where
  "get_tname tid =
     (if tid \<ge> T_MIN \<and> tid \<le> T_MAX then rrnames ! nat (tid - T_MIN)
      else if tid \<ge> 251 \<and> tid \<le> 255
      then [''IXFR'', ''AXFR'', ''MAILB'', ''MAILA'', ''*''] ! nat (tid - 251)
      else ''[unknown]'')"

definition e_names :: "string list" where
  "e_names =
   [''no error'', ''query format error'', ''server failed'', ''non-existent domain'',
    ''not supported'', ''query refused'', ''name exists when it should not'',
    ''RR set exists when it should not'', ''RR set that should exist does not'',
    ''server not authoritative for zone'', ''name not contained in zone'',
    ''11'', ''12'', ''13'', ''14'', ''15'', ''bad OPT version'']"

definition get_ename :: "int \<Rightarrow> string" where
  "get_ename tid = (if tid \<ge> 0 \<and> tid < 17 then e_names ! nat tid else ''[unknown]'')"

subsection \<open>Consistency of the tables\<close>

lemma rrlkuptab_length [simp]: "length rrlkuptab = T_NUM"
  by (simp add: rrlkuptab_def)

lemma rrnames_length [simp]: "length rrnames = T_NUM"
  by (simp add: rrnames_def)

lemma rr_info_length [simp]: "length rr_info = NRRTOT"
  by (simp add: rr_info_def)

lemma rrlkup_Some: "T_MIN \<le> tp \<Longrightarrow> tp \<le> T_MAX \<Longrightarrow> rrlkup tp = Some (rrlkuptab ! nat (tp - T_MIN))"
  by (simp add: rrlkup_def rd_def)

lemma rrlkup_range: "rrlkup tp = Some idx \<Longrightarrow> T_MIN \<le> tp \<and> tp \<le> T_MAX"
  by (auto simp: rrlkup_def rd_def split: if_splits)

lemma rrlkuptab_distinct: "distinct rrlkuptab"
  by code_simp

lemma rrlkuptab_permutation: "sort rrlkuptab = [0..<T_NUM]"
  by code_simp

lemma rrlkup_inj: "rrlkup s = Some i \<Longrightarrow> rrlkup t = Some i \<Longrightarrow> s = t"
proof -
  assume s: "rrlkup s = Some i" and t: "rrlkup t = Some i"
  then have "nat (s - T_MIN) = nat (t - T_MIN)"
    using rrlkuptab_distinct
    by (auto simp: rrlkup_def rd_def nth_eq_iff_index_eq split: if_splits)
  then show "s = t"
    using rrlkup_range [OF s] rrlkup_range [OF t] by arith
qed

text \<open>
  The three iteration tables agree. The types of \<open>rrcachiterlist\<close> (the ones
  \<open>RRITERLIST\<close> walks to write or dump a cache entry) are strictly ascending and are exactly
  the types whose index in \<open>rrlkuptab\<close> is a slot of a cache entry, so a walk visits every
  slot once; \<open>rrmuiterlist\<close> likewise for the slots of the most used types.
\<close>

theorem iterlists_cover_slots:
  "sorted_wrt (<) rrcachiterlist \<and>
   rrcachiterlist = filter (\<lambda>tp. \<not> PDNSD_NOT_CACHED_TYPE tp) [T_MIN..T_MAX] \<and>
   sort (map (\<lambda>tp. the (rrlkup tp)) rrcachiterlist) = [0..<NRRTOT] \<and>
   sorted_wrt (<) rrmuiterlist \<and>
   map (\<lambda>tp. the (rrlkup tp)) rrmuiterlist = [0..<NRRMU]"
  by code_simp

lemma rr_info_kinds: "set rr_info \<subseteq> {rri_alias, rri_record, rri_idem, rri_ptr}"
  by (simp add: rr_info_def)

lemmas rr_class_defs =
  rri_alias_def rri_record_def rri_idem_def rri_ptr_def
  RRCL_ALIAS_def RRCL_RECORD_def RRCL_IDEM_def RRCL_PTR_def

text \<open>
  The exclusion table is symmetric, as \<open>rr_types.h\<close> says it should be: for every two
  RR-set indices the two halves of the conflict test of \<open>cr_check_add\<close> agree, and no type
  excludes itself.
\<close>

theorem rr_exclusion_symmetric:
  "list_all (\<lambda>i. list_all (\<lambda>j.
     (ri_class (rr_info ! i) AND ri_excludes (rr_info ! j) \<noteq> 0) =
     (ri_excludes (rr_info ! i) AND ri_class (rr_info ! j) \<noteq> 0)) [0..<NRRTOT] \<and>
     \<not> rr_conflict i i) [0..<NRRTOT]"
proof -
  have kinds: "rr_info ! i \<in> {rri_alias, rri_record, rri_idem, rri_ptr}" if "i < NRRTOT" for i
  proof -
    have "rr_info ! i \<in> set rr_info" by (rule nth_mem) (simp add: that)
    then show ?thesis using rr_info_kinds by blast
  qed
  have sym: "(ri_class a AND ri_excludes b \<noteq> 0) = (ri_excludes a AND ri_class b \<noteq> 0) \<and>
      ri_class a AND ri_excludes a = 0 \<and> ri_excludes a AND ri_class a = 0"
    if "a \<in> {rri_alias, rri_record, rri_idem, rri_ptr}" "b \<in> {rri_alias, rri_record, rri_idem, rri_ptr}"
    for a b
    using that by (elim insertE; simp add: rr_class_defs)
  have "(ri_class (rr_info ! i) AND ri_excludes (rr_info ! j) \<noteq> 0) =
      (ri_excludes (rr_info ! i) AND ri_class (rr_info ! j) \<noteq> 0) \<and> \<not> rr_conflict i i"
    if "i < NRRTOT" "j < NRRTOT" for i j
    using sym [OF kinds [OF that(1)] kinds [OF that(2)]] sym [OF kinds [OF that(1)] kinds [OF that(1)]]
    by (simp add: rr_conflict_def)
  then show ?thesis
    unfolding list_all_iff by auto
qed

lemma rr_tp_byname_loop_nth:
  "distinct ns \<Longrightarrow> k < length ns \<Longrightarrow> rr_tp_byname_loop (ns ! k) ns i = i + int k + T_MIN"
proof (induction ns arbitrary: i k)
  case Nil
  then show ?case by simp
next
  case (Cons n ns)
  then show ?case by (cases k) auto
qed

lemma rr_tp_byname_loop_unknown: "name \<notin> set ns \<Longrightarrow> rr_tp_byname_loop name ns i = -1"
  by (induction ns arbitrary: i) auto

lemma rrnames_distinct: "distinct rrnames"
  by code_simp

text \<open>
  Looking a type up by the name that is printed for it gives the type back, and a string
  that names no type gives -1.
\<close>

theorem rr_tp_byname_getrrtpname:
  "(T_MIN \<le> tp \<and> tp \<le> T_MAX \<longrightarrow> rr_tp_byname (getrrtpname tp) = tp) \<and>
   (name \<notin> set rrnames \<longrightarrow> rr_tp_byname name = -1)"
  using rr_tp_byname_loop_nth [OF rrnames_distinct, of "nat (tp - T_MIN)" 0]
  by (auto simp: rr_tp_byname_def getrrtpname_def rr_tp_byname_loop_unknown)

theorem rr_tp_byname_getrrtpname_witness:
  "rr_tp_byname (getrrtpname T_SRV) = T_SRV \<and> rr_tp_byname ''FOO'' = -1"
  using rr_tp_byname_getrrtpname [of T_SRV "''FOO''"] by (simp add: rrnames_def)

end
