(* ===== verification/Pd_Consts.thy ===== *)
theory Pd_Consts
  imports Pd_Types "HOL-Library.List_Lexorder" "HOL-Library.Char_ord"
begin

text \<open>
  The keyword constants of the configuration file (\<open>consts.h\<close>, \<open>consts.c\<close>): the dictionary,
  its binary search with C's \<open>strncmp\<close> semantics, and the reverse table of names. The search
  is proved to find exactly the dictionary's entries.
\<close>

subsection \<open>Constants and dictionaries\<close>

abbreviation (input) C_ERR :: int where "C_ERR \<equiv> 0"
abbreviation (input) C_ON :: int where "C_ON \<equiv> 1"
abbreviation (input) C_OFF :: int where "C_OFF \<equiv> 2"
abbreviation (input) C_DEFAULT :: int where "C_DEFAULT \<equiv> 3"
abbreviation (input) C_DISCOVER :: int where "C_DISCOVER \<equiv> 4"
abbreviation (input) C_NONE :: int where "C_NONE \<equiv> 5"
abbreviation (input) C_IF :: int where "C_IF \<equiv> 6"
abbreviation (input) C_EXEC :: int where "C_EXEC \<equiv> 7"
abbreviation (input) C_PING :: int where "C_PING \<equiv> 8"
abbreviation (input) C_QUERY :: int where "C_QUERY \<equiv> 9"
abbreviation (input) C_ONQUERY :: int where "C_ONQUERY \<equiv> 10"
abbreviation (input) C_ONTIMEOUT :: int where "C_ONTIMEOUT \<equiv> 11"
abbreviation (input) UDP_ONLY :: int where "UDP_ONLY \<equiv> 12"
abbreviation (input) TCP_ONLY :: int where "TCP_ONLY \<equiv> 13"
abbreviation (input) TCP_UDP :: int where "TCP_UDP \<equiv> 14"
abbreviation (input) UDP_TCP :: int where "UDP_TCP \<equiv> 15"
abbreviation (input) C_DEV :: int where "C_DEV \<equiv> 16"
abbreviation (input) C_DIALD :: int where "C_DIALD \<equiv> 17"
abbreviation (input) C_INCLUDED :: int where "C_INCLUDED \<equiv> 18"
abbreviation (input) C_EXCLUDED :: int where "C_EXCLUDED \<equiv> 19"
abbreviation (input) C_SIMPLE_ONLY :: int where "C_SIMPLE_ONLY \<equiv> 20"
abbreviation (input) C_FQDN_ONLY :: int where "C_FQDN_ONLY \<equiv> 21"
abbreviation (input) C_AUTH :: int where "C_AUTH \<equiv> 22"
abbreviation (input) C_DOMAIN :: int where "C_DOMAIN \<equiv> 23"
abbreviation (input) C_FAIL :: int where "C_FAIL \<equiv> 24"
abbreviation (input) C_NEGATE :: int where "C_NEGATE \<equiv> 25"

type_synonym namevalue = "string \<times> int"

definition const_dic :: "namevalue list" where
  "const_dic =
   [(''auth'', C_AUTH), (''default'', C_DEFAULT), (''dev'', C_DEV), (''diald'', C_DIALD),
    (''discover'', C_DISCOVER), (''domain'', C_DOMAIN), (''excluded'', C_EXCLUDED),
    (''exec'', C_EXEC), (''fail'', C_FAIL), (''false'', C_OFF),
    (''fqdn_only'', C_FQDN_ONLY), (''if'', C_IF), (''included'', C_INCLUDED),
    (''negate'', C_NEGATE), (''no'', C_OFF), (''none'', C_NONE), (''off'', C_OFF),
    (''on'', C_ON), (''onquery'', C_ONQUERY), (''ontimeout'', C_ONTIMEOUT),
    (''ping'', C_PING), (''query'', C_QUERY), (''simple_only'', C_SIMPLE_ONLY),
    (''tcp_only'', TCP_ONLY), (''tcp_udp'', TCP_UDP), (''true'', C_ON),
    (''udp_only'', UDP_ONLY), (''udp_tcp'', UDP_TCP), (''yes'', C_ON)]"

definition const_names :: "string list" where
  "const_names =
   [''error'', ''on'', ''off'', ''default'', ''discover'', ''none'', ''if'', ''exec'',
    ''ping'', ''query'', ''onquery'', ''ontimeout'', ''udp_only'', ''tcp_only'',
    ''tcp_udp'', ''udp_tcp'', ''dev'', ''diald'', ''included'', ''excluded'',
    ''simple_only'', ''fqdn_only'', ''auth'', ''domain'', ''fail'', ''negate'']"

subsection \<open>The search\<close>

text \<open>
  \<open>strncmp(key1,key2,len)\<close> of a string of \<open>len\<close> characters without a null character against a
  null-terminated one: the sign of the first difference within the first \<open>len\<close> characters, where
  the end of \<open>key2\<close> counts as the null character. \<open>keyncmp\<close> then compares the end of \<open>key1\<close>
  with \<open>key2[len]\<close>, so that a proper prefix of an entry is smaller than the entry.
\<close>

fun strncmp_c :: "string \<Rightarrow> string \<Rightarrow> int" where
  "strncmp_c [] ys = 0"
| "strncmp_c (x # xs) [] = int (of_char x)"
| "strncmp_c (x # xs) (y # ys) =
     (if x = y then strncmp_c xs ys else int (of_char x) - int (of_char y))"

definition keyncmp :: "string \<Rightarrow> string \<Rightarrow> int" where
  "keyncmp key1 key2 =
     (let cmp = strncmp_c key1 key2
      in if cmp \<noteq> 0 then cmp
         else if length key1 < length key2 then - int (of_char (key2 ! length key1)) else 0)"

function binsearch_loop :: "string \<Rightarrow> namevalue list \<Rightarrow> nat \<Rightarrow> nat \<Rightarrow> int" where
  "binsearch_loop name dic i j =
     (if i < j then
        let k = (i + j) div 2; cmp = keyncmp name (fst (dic ! k))
        in if cmp < 0 then binsearch_loop name dic i k
           else if cmp > 0 then binsearch_loop name dic (k + 1) j
           else snd (dic ! k)
      else 0)"
  by pat_completeness auto
termination
  by (relation "measure (\<lambda>(name, dic, i, j). j - i)") auto

declare binsearch_loop.simps [simp del]

definition binsearch_keyword :: "string \<Rightarrow> namevalue list \<Rightarrow> nat \<Rightarrow> int" where
  "binsearch_keyword name dic rng = binsearch_loop name dic 0 rng"

definition lookup_const :: "string \<Rightarrow> int" where
  "lookup_const name = binsearch_keyword name const_dic (length const_dic)"

definition const_name :: "int \<Rightarrow> string" where
  "const_name c =
     (if c \<ge> 0 \<and> nat c < length const_names then const_names ! nat c else ''ILLEGAL!'')"


subsection \<open>The comparison is the lexicographic order\<close>

definition nul_free :: "string \<Rightarrow> bool" where
  "nul_free s = (CHR 0x00 \<notin> set s)"

lemma nul_free_simps [simp]: "nul_free []" "nul_free (x # xs) = (x \<noteq> CHR 0x00 \<and> nul_free xs)"
  by (auto simp: nul_free_def)

lemma of_char_pos: "x \<noteq> CHR 0x00 \<Longrightarrow> (0::nat) < of_char x"
proof -
  assume "x \<noteq> CHR 0x00"
  then have "of_char x \<noteq> (of_char (CHR 0x00) :: nat)"
    using of_char_eq_iff by blast
  then show ?thesis by simp
qed

lemma char_less_nat: "(x < y) = ((of_char x :: nat) < of_char y)"
  by (simp add: less_char_def)

lemma keyncmp_Cons:
  "keyncmp (x # xs) (y # ys) = (if x = y then keyncmp xs ys else int (of_char x) - int (of_char y))"
  by (auto simp: keyncmp_def Let_def)

lemma keyncmp_sign:
  "nul_free xs \<Longrightarrow> nul_free ys \<Longrightarrow>
   (keyncmp xs ys < 0) = (xs < ys) \<and> (keyncmp xs ys > 0) = (ys < xs)"
proof (induction xs ys rule: strncmp_c.induct)
  case (1 ys)
  then show ?case
    by (cases ys) (auto simp: keyncmp_def Let_def of_char_pos)
next
  case (2 x xs)
  then show ?case by (auto simp: keyncmp_def Let_def of_char_pos)
next
  case (3 x xs y ys)
  then show ?case by (auto simp: keyncmp_Cons char_less_nat)
qed

subsection \<open>The binary search\<close>

lemma sorted_keys_nth_less:
  "sorted_wrt (<) (map fst dic) \<Longrightarrow> a < b \<Longrightarrow> b < length dic \<Longrightarrow>
   fst (dic ! a) < fst (dic ! b)"
  using sorted_wrt_nth_less [of "(<)" "map fst dic" a b] by simp

lemma sorted_keys_nth_lessD:
  fixes dic :: "namevalue list"
  assumes "sorted_wrt (<) (map fst dic)" "a < length dic" "b < length dic"
    and "fst (dic ! a) < fst (dic ! b)"
  shows "a < b"
proof (rule ccontr)
  assume "\<not> a < b"
  then consider "a = b" | "b < a" by linarith
  then show False
  proof cases
    case 1
    with assms(4) show ?thesis by simp
  next
    case 2
    from sorted_keys_nth_less [OF assms(1) 2 assms(2)] assms(4) show ?thesis by (rule order_less_asym)
  qed
qed

lemma binsearch_loop_correct:
  assumes "sorted_wrt (<) (map fst dic)" "list_all (\<lambda>(n, v). nul_free n) dic" "nul_free name"
    and "j \<le> length dic"
    and "\<And>m. m < length dic \<Longrightarrow> fst (dic ! m) = name \<Longrightarrow> i \<le> m \<and> m < j"
  shows "binsearch_loop name dic i j = (case map_of dic name of None \<Rightarrow> 0 | Some v \<Rightarrow> v)"
  using assms
proof (induction name dic i j rule: binsearch_loop.induct)
  case (1 name dic i j)
  show ?case
  proof (cases "i < j")
    case False
    have "name \<notin> fst ` set dic"
    proof
      assume "name \<in> fst ` set dic"
      then obtain m where "m < length dic" "fst (dic ! m) = name"
        by (metis image_iff in_set_conv_nth)
      from "1.prems"(5) [OF this] False show False by linarith
    qed
    then have "map_of dic name = None" by (simp add: map_of_eq_None_iff)
    with False show ?thesis by (simp add: binsearch_loop.simps [of name dic i j])
  next
    case True
    define k where "k = (i + j) div 2"
    have k: "i \<le> k" "k < j" "k < length dic" using True "1.prems"(4) by (auto simp: k_def)
    have nf: "nul_free (fst (dic ! k))"
      using "1.prems"(2) nth_mem [OF k(3)] by (auto simp: list_all_iff case_prod_beta)
    note sg = keyncmp_sign [OF "1.prems"(3) nf]
    consider (lt) "name < fst (dic ! k)" | (gt) "fst (dic ! k) < name" | (eq) "name = fst (dic ! k)"
      by fastforce
    then show ?thesis
    proof cases
      case lt
      have "i \<le> m \<and> m < k" if "m < length dic" "fst (dic ! m) = name" for m
        using "1.prems"(5) [OF that] sorted_keys_nth_lessD [OF "1.prems"(1) that(1) k(3)] that lt
        by simp
      then show ?thesis
        using "1.IH"(1) [OF True k_def refl] "1.prems"(1,2,3) lt sg True k
        by (simp add: binsearch_loop.simps [of name dic i j] k_def [symmetric] Let_def)
    next
      case gt
      have "k + 1 \<le> m \<and> m < j" if "m < length dic" "fst (dic ! m) = name" for m
        using "1.prems"(5) [OF that] sorted_keys_nth_lessD [OF "1.prems"(1) k(3) that(1)] that gt
        by simp
      moreover have "\<not> keyncmp name (fst (dic ! k)) < 0" "keyncmp name (fst (dic ! k)) > 0"
        using gt sg by auto
      ultimately show ?thesis
        using "1.IH"(2) [OF True k_def refl] "1.prems"(1,2,3,4) True
        by (simp add: binsearch_loop.simps [of name dic i j] k_def [symmetric] Let_def)
    next
      case eq
      have "distinct (map fst dic)"
        using "1.prems"(1) strict_sorted_iff by blast
      then have "map_of dic name = Some (snd (dic ! k))"
        using eq k(3) by (metis map_of_eq_Some_iff nth_mem prod.collapse)
      moreover have "keyncmp name (fst (dic ! k)) = 0"
        using sg eq by (metis linorder_neqE_linordered_idom order_less_irrefl)
      ultimately show ?thesis
        using True by (simp add: binsearch_loop.simps [of name dic i j] k_def [symmetric] Let_def)
    qed
  qed
qed

text \<open>
  Over any dictionary in strictly ascending order of its keywords the binary search is a
  lookup: it returns the value of the keyword, and 0 for a name that is no keyword.
\<close>

theorem binsearch_keyword_correct:
  assumes "sorted_wrt (<) (map fst dic)" "list_all (\<lambda>(n, v). nul_free n) dic" "nul_free name"
  shows "binsearch_keyword name dic (length dic) =
    (case map_of dic name of None \<Rightarrow> 0 | Some v \<Rightarrow> v)"
  unfolding binsearch_keyword_def
  by (rule binsearch_loop_correct) (use assms in auto)

theorem binsearch_keyword_correct_witness:
  "binsearch_keyword ''no'' [(''no'', 7), (''off'', 2), (''yes'', 5)] 3 = 7 \<and>
   binsearch_keyword ''of'' [(''no'', 7), (''off'', 2), (''yes'', 5)] 3 = 0"
  using binsearch_keyword_correct [of "[(''no'', 7), (''off'', 2), (''yes'', 5)]" "''no''"]
    binsearch_keyword_correct [of "[(''no'', 7), (''off'', 2), (''yes'', 5)]" "''of''"]
  by (simp add: nul_free_def numeral_3_eq_3)

lemma const_dic_sorted: "sorted_wrt (<) (map fst const_dic)"
  by code_simp

lemma const_dic_nul_free: "list_all (\<lambda>(n, v). nul_free n) const_dic"
  by (simp add: const_dic_def nul_free_def)

text \<open>
  The keyword dictionary of the source is in the order its binary search needs, so
  \<open>lookup_const\<close> is the dictionary; and every constant but \<open>C_ERR\<close> is found again under the name
  \<open>const_name\<close> gives it.
\<close>

theorem lookup_const_correct:
  "(nul_free name \<longrightarrow>
      lookup_const name = (case map_of const_dic name of None \<Rightarrow> C_ERR | Some v \<Rightarrow> v)) \<and>
   list_all (\<lambda>c. lookup_const (const_name c) = c) [C_ON..C_NEGATE]"
proof
  show "nul_free name \<longrightarrow>
      lookup_const name = (case map_of const_dic name of None \<Rightarrow> C_ERR | Some v \<Rightarrow> v)"
    unfolding lookup_const_def binsearch_keyword_def
    using binsearch_loop_correct [OF const_dic_sorted const_dic_nul_free]
    by auto
  show "list_all (\<lambda>c. lookup_const (const_name c) = c) [C_ON..C_NEGATE]"
    by code_simp
qed

theorem lookup_const_correct_witness:
  "nul_free ''udp_only'' \<and> lookup_const ''udp_only'' = UDP_ONLY"
  using lookup_const_correct [of "''udp_only''"] by (simp add: const_dic_def nul_free_def)

end
