(* ===== verification/Pd_Names.thy ===== *)
theory Pd_Names
  imports Pd_Prelude
begin

text \<open>
  Domain names in transport format (\<open>helpers.c\<close>, \<open>helpers.h\<close>): a sequence of labels, each a
  length byte and that many bytes, ended by a zero byte. A \<open>const unsigned char *\<close> into such a
  name is the list of the bytes from the pointer to the end of the object it points into; an
  output buffer is the list of its bytes. The abstract view of a name is its list of labels,
  \<open>enc\<close> its encoding, and every routine is characterised on encoded names.
\<close>

abbreviation (input) DNSNAMEBUFSIZE :: nat where "DNSNAMEBUFSIZE \<equiv> 256"

type_synonym name = "byte list"
type_synonym label = "byte list"

subsection \<open>Scanning a name\<close>

text \<open>Advancing a pointer: past the end of the object it is undefined.\<close>

definition adv :: "name \<Rightarrow> nat \<Rightarrow> name option" where
  "adv nm n = (if n \<le> length nm then Some (drop n nm) else None)"

lemma adv_Some_iff: "(adv nm n = Some nm') = (n \<le> length nm \<and> nm' = drop n nm)"
  by (auto simp: adv_def)

function rhnlen_from :: "name \<Rightarrow> nat \<Rightarrow> nat option" where
  "rhnlen_from rhn i =
     do {
       lb \<leftarrow> rd rhn i;
       if lb = 0 then Some (i + 1) else rhnlen_from rhn (i + 1 + unat lb)
     }"
  by pat_completeness auto
termination
  by (relation "measure (\<lambda>(rhn, i). length rhn - i)") (auto simp: rd_Some_iff)

definition rhnlen :: "name \<Rightarrow> nat option" where
  "rhnlen rhn = rhnlen_from rhn 0"

fun skipsegs :: "name \<Rightarrow> nat \<Rightarrow> name option" where
  "skipsegs nm 0 = Some nm"
| "skipsegs nm (Suc k) =
     do {
       lb \<leftarrow> rd nm 0;
       if lb = 0 then Some nm else do { nm' \<leftarrow> adv nm (unat lb + 1); skipsegs nm' k }
     }"

function skiprhn :: "name \<Rightarrow> name option" where
  "skiprhn rhn =
     do {
       lb \<leftarrow> rd rhn 0;
       rhn1 \<leftarrow> adv rhn 1;
       if lb = 0 then Some rhn1 else do { rhn2 \<leftarrow> adv rhn1 (unat lb); skiprhn rhn2 }
     }"
  by pat_completeness auto
termination
  by (relation "measure length") (auto simp: rd_Some_iff adv_Some_iff)

function rhnsegcnt_from :: "name \<Rightarrow> nat \<Rightarrow> nat option" where
  "rhnsegcnt_from rhn res =
     do {
       lb \<leftarrow> rd rhn 0;
       if lb = 0 then Some res
       else do { rhn' \<leftarrow> adv rhn (unat lb + 1); rhnsegcnt_from rhn' (res + 1) }
     }"
  by pat_completeness auto
termination
  by (relation "measure (\<lambda>(rhn, res). length rhn)") (auto simp: rd_Some_iff adv_Some_iff)

definition rhnsegcnt :: "name \<Rightarrow> nat option" where
  "rhnsegcnt rhn = rhnsegcnt_from rhn 0"

text \<open>\<open>rhncpy\<close> returns the length and the destination buffer.\<close>

definition rhncpy :: "byte list \<Rightarrow> name \<Rightarrow> (nat \<times> byte list) option" where
  "rhncpy dst src =
     do {
       len \<leftarrow> rhnlen src;
       must (len \<le> DNSNAMEBUFSIZE);
       bs \<leftarrow> rdn src 0 (if len > DNSNAMEBUFSIZE then DNSNAMEBUFSIZE else len);
       dst' \<leftarrow> wrn dst 0 bs;
       Some (len, dst')
     }"

function isnormalenc_from :: "name \<Rightarrow> nat \<Rightarrow> nat \<Rightarrow> bool option" where
  "isnormalenc_from rhn maxlen i =
     (if i \<ge> maxlen then Some False
      else do {
        lb \<leftarrow> rd rhn i;
        if lb = 0 then Some True
        else if lb > 0x3f then Some False
        else isnormalenc_from rhn maxlen (i + 1 + unat lb)
      })"
  by pat_completeness auto
termination
  by (relation "measure (\<lambda>(rhn, maxlen, i). maxlen - i)") auto

definition isnormalencdomname :: "name \<Rightarrow> nat \<Rightarrow> bool option" where
  "isnormalencdomname rhn maxlen =
     isnormalenc_from rhn (if maxlen > DNSNAMEBUFSIZE then DNSNAMEBUFSIZE else maxlen) 0"

subsection \<open>Comparing names\<close>

fun rhnicmp_lab :: "name \<Rightarrow> name \<Rightarrow> nat \<Rightarrow> nat \<Rightarrow> bool option" where
  "rhnicmp_lab a b i 0 = Some True"
| "rhnicmp_lab a b i (Suc n) =
     do {
       x \<leftarrow> rd a i;
       y \<leftarrow> rd b i;
       if tolower_c x \<noteq> tolower_c y then Some False else rhnicmp_lab a b (i + 1) n
     }"

function rhnicmp_from :: "name \<Rightarrow> name \<Rightarrow> nat \<Rightarrow> bool option" where
  "rhnicmp_from a b i =
     do {
       lb \<leftarrow> rd a i;
       lb' \<leftarrow> rd b i;
       if lb \<noteq> lb' then Some False
       else if lb = 0 then Some True
       else do {
         ok \<leftarrow> rhnicmp_lab a b (i + 1) (unat lb);
         if ok then rhnicmp_from a b (i + 1 + unat lb) else Some False
       }
     }"
  by pat_completeness auto
termination
  by (relation "measure (\<lambda>(a, b, i). length a - i)") (auto simp: rd_Some_iff)

definition rhnicmp :: "name \<Rightarrow> name \<Rightarrow> bool option" where
  "rhnicmp a b = rhnicmp_from a b 0"

declare rhnlen_from.simps [simp del] skiprhn.simps [simp del] rhnsegcnt_from.simps [simp del]
  isnormalenc_from.simps [simp del] rhnicmp_from.simps [simp del]

subsection \<open>The abstract view: lists of labels\<close>

text \<open>
  \<open>name_label\<close> is what the scanning routines accept (they do not validate), \<open>wire_label\<close> what
  the parsers and \<open>isnormalencdomname\<close> produce and check.
\<close>

definition name_label :: "label \<Rightarrow> bool" where
  "name_label l = (l \<noteq> [] \<and> length l < 256)"

definition wire_label :: "label \<Rightarrow> bool" where
  "wire_label l = (l \<noteq> [] \<and> length l < 64)"

fun enc :: "label list \<Rightarrow> name" where
  "enc [] = [0]"
| "enc (l # ls) = word_of_nat (length l) # l @ enc ls"

definition wire_name :: "label list \<Rightarrow> bool" where
  "wire_name ls = (list_all wire_label ls \<and> length (enc ls) \<le> DNSNAMEBUFSIZE)"

definition ci_eq :: "label list \<Rightarrow> label list \<Rightarrow> bool" where
  "ci_eq = list_all2 (\<lambda>a b. map tolower_c a = map tolower_c b)"

lemma wire_name_label: "wire_label l \<Longrightarrow> name_label l"
  by (auto simp: wire_label_def name_label_def)

lemma wire_name_labels: "wire_name ls \<Longrightarrow> list_all name_label ls"
  by (auto simp: wire_name_def list_all_iff intro: wire_name_label)

lemma enc_not_Nil [simp]: "enc ls \<noteq> []"
  by (cases ls) auto

lemma length_enc: "length (enc ls) = Suc (\<Sum>l\<leftarrow>ls. Suc (length l))"
  by (induction ls) auto

lemma length_enc_pos [simp]: "0 < length (enc ls)"
  by (simp add: length_enc)

lemma length_enc_append: "length (enc (ks @ ls)) = (\<Sum>l\<leftarrow>ks. Suc (length l)) + length (enc ls)"
  by (simp add: length_enc)

definition enc_labels :: "label list \<Rightarrow> name" where
  "enc_labels ls = concat (map (\<lambda>l. word_of_nat (length l) # l) ls)"

lemma enc_labels_simps [simp]:
  "enc_labels [] = []"
  "enc_labels (l # ls) = word_of_nat (length l) # l @ enc_labels ls"
  "enc_labels (ks @ ls) = enc_labels ks @ enc_labels ls"
  by (simp_all add: enc_labels_def)

lemma enc_append: "enc (ks @ ls) = enc_labels ks @ enc ls"
  by (induction ks) auto

lemma enc_eq_enc_labels: "enc ls = enc_labels ls @ [0]"
  using enc_append [of ls "[]"] by simp

lemma length_enc_labels: "length (enc_labels ls) = (\<Sum>l\<leftarrow>ls. Suc (length l))"
  by (induction ls) auto

lemma name_label_len [simp]:
  "name_label l \<Longrightarrow> unat (word_of_nat (length l) :: byte) = length l"
  "name_label l \<Longrightarrow> (word_of_nat (length l) :: byte) \<noteq> 0"
  by (auto simp: name_label_def)


subsection \<open>The scanning routines on encoded names\<close>

lemma rhnlen_from_enc:
  "list_all name_label ls \<Longrightarrow>
   rhnlen_from (pre @ enc ls @ r) (length pre) = Some (length pre + length (enc ls))"
proof (induction ls arbitrary: pre)
  case Nil
  then show ?case by (simp add: rhnlen_from.simps [of _ "length pre"])
next
  case (Cons l ls)
  have "rhnlen_from ((pre @ word_of_nat (length l) # l) @ enc ls @ r)
          (length (pre @ (word_of_nat (length l) :: byte) # l)) =
        Some (length (pre @ (word_of_nat (length l) :: byte) # l) + length (enc ls))"
    by (rule Cons.IH) (use Cons.prems in simp)
  then show ?case
    using Cons.prems by (simp add: rhnlen_from.simps [of _ "length pre"])
qed

lemma rhnlen_enc [name_simps]:
  "list_all name_label ls \<Longrightarrow> rhnlen (enc ls @ r) = Some (length (enc ls))"
  using rhnlen_from_enc [of ls "[]" r] by (simp add: rhnlen_def)

lemma rhnlen_enc0 [name_simps]: "list_all name_label ls \<Longrightarrow> rhnlen (enc ls) = Some (length (enc ls))"
  using rhnlen_enc [of ls "[]"] by simp

lemma rhnlen_fromD:
  "rhnlen_from bs i = Some n \<Longrightarrow>
   \<exists>ls r. list_all name_label ls \<and> drop i bs = enc ls @ r \<and> n = i + length (enc ls)"
proof (induction bs i rule: rhnlen_from.induct)
  case (1 bs i)
  from "1.prems" obtain lb where lb: "rd bs i = Some lb"
    by (subst (asm) rhnlen_from.simps) (auto simp: bind_Some_iff)
  then have d: "drop i bs = lb # drop (Suc i) bs"
    by (metis rd_Some_iff Cons_nth_drop_Suc)
  show ?case
  proof (cases "lb = 0")
    case True
    then have "drop i bs = enc [] @ drop (Suc i) bs" "n = i + length (enc [])"
      using d "1.prems" lb by (simp_all add: rhnlen_from.simps [of bs i])
    then show ?thesis by (intro exI [of _ "[]"] exI [of _ "drop (Suc i) bs"]) simp
  next
    case False
    then have "rhnlen_from bs (i + 1 + unat lb) = Some n"
      using "1.prems" lb by (simp add: rhnlen_from.simps [of bs i])
    from "1.IH" [OF lb False this] obtain ls r where
      ls: "list_all name_label ls" "drop (i + 1 + unat lb) bs = enc ls @ r"
          "n = i + 1 + unat lb + length (enc ls)"
      by blast
    define l where "l = take (unat lb) (drop (Suc i) bs)"
    have "i + 1 + unat lb < length bs"
      using ls(2) by (metis drop_all append_is_Nil_conv enc_not_Nil not_le)
    then have len: "length l = unat lb" by (simp add: l_def)
    have "drop (Suc i) bs = l @ enc ls @ r"
      using ls(2) append_take_drop_id [of "unat lb" "drop (Suc i) bs"]
      by (simp add: l_def add.commute add.left_commute)
    moreover have "name_label l"
      using len False unat_byte_lt [of lb] unat_eq_zero [of lb] by (auto simp: name_label_def)
    moreover have "word_of_nat (length l) = lb" by (simp add: len)
    ultimately have "list_all name_label (l # ls) \<and> drop i bs = enc (l # ls) @ r \<and>
        n = i + length (enc (l # ls))"
      using d ls len by simp
    then show ?thesis by blast
  qed
qed

lemma rhnlenD:
  "rhnlen bs = Some n \<Longrightarrow> \<exists>ls r. list_all name_label ls \<and> bs = enc ls @ r \<and> n = length (enc ls)"
  using rhnlen_fromD [of bs 0 n] by (simp add: rhnlen_def)

lemma enc_prefix_inj:
  "list_all name_label ks \<Longrightarrow> list_all name_label ls \<Longrightarrow> enc ks @ r = enc ls @ s \<Longrightarrow> ks = ls \<and> r = s"
proof (induction ks arbitrary: ls)
  case Nil
  then show ?case by (cases ls) (auto dest: name_label_len(2))
next
  case (Cons k ks)
  from Cons.prems have "ls \<noteq> []"
    by (auto dest: name_label_len(2))
  then obtain l ls' where ls: "ls = l # ls'" by (cases ls) auto
  have "length k = length l"
    using Cons.prems ls by (auto simp: name_label_def byte_of_nat_inj)
  then show ?case using Cons ls by auto
qed

lemma skipsegs_enc [name_simps]:
  "list_all name_label ls \<Longrightarrow> skipsegs (enc ls @ r) k = Some (enc (drop k ls) @ r)"
proof (induction k arbitrary: ls)
  case 0
  then show ?case by simp
next
  case (Suc k)
  then show ?case by (cases ls) (auto simp: adv_def)
qed

lemma skiprhn_enc [name_simps]: "list_all name_label ls \<Longrightarrow> skiprhn (enc ls @ r) = Some r"
proof (induction ls)
  case Nil
  then show ?case by (simp add: skiprhn.simps [of "0 # r"] adv_def)
next
  case (Cons l ls)
  then show ?case by (simp add: skiprhn.simps [of "_ # _"] adv_def)
qed

lemma rhnsegcnt_from_enc:
  "list_all name_label ls \<Longrightarrow> rhnsegcnt_from (enc ls @ r) n = Some (n + length ls)"
proof (induction ls arbitrary: n)
  case Nil
  then show ?case by (simp add: rhnsegcnt_from.simps [of "0 # r"])
next
  case (Cons l ls)
  then show ?case by (simp add: rhnsegcnt_from.simps [of "_ # _"] adv_def)
qed

lemma rhnsegcnt_enc [name_simps]:
  "list_all name_label ls \<Longrightarrow> rhnsegcnt (enc ls @ r) = Some (length ls)"
  by (simp add: rhnsegcnt_def rhnsegcnt_from_enc)

lemma rhncpy_enc [name_simps]:
  "list_all name_label ls \<Longrightarrow> length (enc ls) \<le> DNSNAMEBUFSIZE \<Longrightarrow> length (enc ls) \<le> length dst \<Longrightarrow>
   rhncpy dst (enc ls @ r) = Some (length (enc ls), enc ls @ drop (length (enc ls)) dst)"
  by (simp add: rhncpy_def rhnlen_enc rdn_def wrn_def)

lemma rhnicmp_lab_eq:
  "length k = length l \<Longrightarrow> length p = length q \<Longrightarrow>
   rhnicmp_lab (p @ k @ r) (q @ l @ s) (length p) (length k) =
     Some (map tolower_c k = map tolower_c l)"
proof (induction k l arbitrary: p q rule: list_induct2)
  case Nil
  then show ?case by simp
next
  case (Cons x xs y ys)
  then show ?case
    using Cons.IH [of "p @ [x]" "q @ [y]"] Cons.prems by simp
qed

lemma rhnicmp_from_enc:
  "list_all name_label ks \<Longrightarrow> list_all name_label ls \<Longrightarrow> length p = length q \<Longrightarrow>
   rhnicmp_from (p @ enc ks @ r) (q @ enc ls @ s) (length p) = Some (ci_eq ks ls)"
proof (induction ks arbitrary: ls p q)
  case Nil
  then show ?case
    by (cases ls) (auto simp: rhnicmp_from.simps [of _ _ "length q"] ci_eq_def)
next
  case (Cons k ks)
  show ?case
  proof (cases ls)
    case Nil
    then show ?thesis using Cons.prems
      by (auto simp: rhnicmp_from.simps [of _ _ "length q"] ci_eq_def)
  next
    case ls: (Cons l ls')
    show ?thesis
    proof (cases "length k = length l")
      case False
      then have "(word_of_nat (length k) :: byte) \<noteq> word_of_nat (length l)"
        using Cons.prems ls by (auto simp: name_label_def byte_of_nat_inj)
      moreover have "map tolower_c k \<noteq> map tolower_c l" using False by (metis length_map)
      ultimately show ?thesis using Cons.prems ls
        by (simp add: rhnicmp_from.simps [of _ _ "length q"] ci_eq_def)
    next
      case True
      let ?b = "word_of_nat (length l) :: byte"
      have "rhnicmp_lab ((p @ [?b]) @ k @ enc ks @ r) ((q @ [?b]) @ l @ enc ls' @ s)
              (length (p @ [?b])) (length k) = Some (map tolower_c k = map tolower_c l)"
        by (rule rhnicmp_lab_eq) (use True Cons.prems in auto)
      moreover have "rhnicmp_from ((p @ ?b # k) @ enc ks @ r) ((q @ ?b # l) @ enc ls' @ s)
              (length (p @ ?b # k)) = Some (ci_eq ks ls')"
        by (rule Cons.IH) (use True Cons.prems ls in auto)
      ultimately show ?thesis using Cons.prems ls True
        by (auto simp: rhnicmp_from.simps [of _ _ "length q"] ci_eq_def)
    qed
  qed
qed

lemma rhnicmp_enc [name_simps]:
  "list_all name_label ks \<Longrightarrow> list_all name_label ls \<Longrightarrow>
   rhnicmp (enc ks @ r) (enc ls @ s) = Some (ci_eq ks ls)"
  using rhnicmp_from_enc [of ks ls "[]" "[]" r s] by (simp add: rhnicmp_def)


subsection \<open>The validity check\<close>

lemma wire_label_len [simp]:
  "wire_label l \<Longrightarrow> unat (word_of_nat (length l) :: byte) = length l"
  "wire_label l \<Longrightarrow> (word_of_nat (length l) :: byte) \<noteq> 0"
  "wire_label l \<Longrightarrow> \<not> 63 < (word_of_nat (length l) :: byte)"
  by (auto simp: wire_label_def word_less_nat_alt)

lemma isnormalenc_from_enc:
  "list_all wire_label ls \<Longrightarrow> length pre + length (enc ls) \<le> m \<Longrightarrow>
   isnormalenc_from (pre @ enc ls @ r) m (length pre) = Some True"
proof (induction ls arbitrary: pre)
  case Nil
  then show ?case by (simp add: isnormalenc_from.simps [of _ _ "length pre"])
next
  case (Cons l ls)
  let ?p = "pre @ word_of_nat (length l) # l"
  have "isnormalenc_from (?p @ enc ls @ r) m (length ?p) = Some True"
    by (rule Cons.IH) (use Cons.prems in simp_all)
  then show ?case
    using Cons.prems by (simp add: isnormalenc_from.simps [of _ _ "length pre"])
qed

lemma isnormalenc_fromD:
  "isnormalenc_from bs m i = Some True \<Longrightarrow>
   \<exists>ls r. list_all wire_label ls \<and> drop i bs = enc ls @ r \<and> i + length (enc ls) \<le> m"
proof (induction bs m i rule: isnormalenc_from.induct)
  case (1 bs m i)
  from "1.prems" obtain lb where i: "i < m" and lb: "rd bs i = Some lb"
    by (subst (asm) isnormalenc_from.simps) (auto simp: bind_Some_iff split: if_splits)
  have d: "drop i bs = lb # drop (Suc i) bs"
    using lb by (metis rd_Some_iff Cons_nth_drop_Suc)
  show ?case
  proof (cases "lb = 0")
    case True
    then show ?thesis
      using d i by (intro exI [of _ "[]"] exI [of _ "drop (Suc i) bs"]) simp
  next
    case False
    with "1.prems" i lb have le: "\<not> 0x3f < lb"
      and *: "isnormalenc_from bs m (i + 1 + unat lb) = Some True"
      by (auto simp: isnormalenc_from.simps [of bs m i] split: if_splits)
    from "1.IH" [OF _ lb False le *] i obtain ls r where
      ls: "list_all wire_label ls" "drop (i + 1 + unat lb) bs = enc ls @ r"
          "i + 1 + unat lb + length (enc ls) \<le> m"
      by auto
    define l where "l = take (unat lb) (drop (Suc i) bs)"
    have "i + 1 + unat lb < length bs"
      using ls(2) by (metis drop_all append_is_Nil_conv enc_not_Nil not_le)
    then have len: "length l = unat lb" by (simp add: l_def)
    have "drop (Suc i) bs = l @ enc ls @ r"
      using ls(2) append_take_drop_id [of "unat lb" "drop (Suc i) bs"]
      by (simp add: l_def add.commute add.left_commute)
    moreover have "wire_label l"
      using len False le unat_eq_zero [of lb]
      by (auto simp: wire_label_def word_less_nat_alt)
    ultimately have "list_all wire_label (l # ls) \<and> drop i bs = enc (l # ls) @ r \<and>
        i + length (enc (l # ls)) \<le> m"
      using d ls len by simp
    then show ?thesis by blast
  qed
qed

lemma isnormalencdomname_bounded: "maxlen \<le> length bs \<Longrightarrow> isnormalencdomname bs maxlen \<noteq> None"
proof -
  have "isnormalenc_from bs m i \<noteq> None" if "m \<le> length bs" for m i
    using that
  proof (induction bs m i rule: isnormalenc_from.induct)
    case (1 bs m i)
    then show ?case
      by (subst isnormalenc_from.simps) (auto simp: rd_def simp del: not_None_eq)
  qed
  then show "maxlen \<le> length bs \<Longrightarrow> isnormalencdomname bs maxlen \<noteq> None"
    by (auto simp: isnormalencdomname_def simp del: not_None_eq)
qed

lemma isnormalencdomname_True:
  "(isnormalencdomname bs maxlen = Some True) =
      (\<exists>ls r. bs = enc ls @ r \<and> wire_name ls \<and> length (enc ls) \<le> maxlen)" (is "?l = ?r")
proof -
  let ?m = "if maxlen > DNSNAMEBUFSIZE then DNSNAMEBUFSIZE else maxlen"
  have ?r if ?l
  proof -
    from that obtain ls r where "list_all wire_label ls" "drop 0 bs = enc ls @ r" "length (enc ls) \<le> ?m"
      using isnormalenc_fromD [of bs ?m 0] by (auto simp: isnormalencdomname_def simp del: drop_0)
    then show ?r by (auto simp: wire_name_def split: if_splits)
  qed
  moreover have ?l if ?r
  proof -
    from that obtain ls r where "bs = enc ls @ r" "wire_name ls" "length (enc ls) \<le> maxlen"
      by blast
    then show ?l
      using isnormalenc_from_enc [of ls "[]" ?m r] by (auto simp: isnormalencdomname_def wire_name_def)
  qed
  ultimately show ?thesis by blast
qed

text \<open>
  \<open>isnormalencdomname\<close> accepts exactly the names that are uncompressed, have labels of one
  to 63 bytes, are at most \<open>DNSNAMEBUFSIZE\<close> bytes long and end within \<open>maxlen\<close> bytes; and it
  reads nothing beyond those \<open>maxlen\<close> bytes.
\<close>

theorem isnormalencdomname_iff:
  "(isnormalencdomname bs maxlen = Some True) =
     (\<exists>ls r. bs = enc ls @ r \<and> wire_name ls \<and> length (enc ls) \<le> maxlen) \<and>
   (maxlen \<le> length bs \<longrightarrow> isnormalencdomname bs maxlen \<noteq> None)"
  using isnormalencdomname_True isnormalencdomname_bounded by blast

theorem isnormalencdomname_iff_witness:
  "isnormalencdomname [1, 97, 2, 98, 99, 0] 6 = Some True \<and>
   (6 :: nat) \<le> length [1, 97, 2, 98, 99, (0 :: byte)]"
proof -
  have "isnormalencdomname [1, 97, 2, 98, 99, 0] 6 = Some True"
    by (rule isnormalencdomname_iff [THEN conjunct1, THEN iffD2])
       (intro exI [of _ "[[97], [98, 99]]"] exI [of _ "[]"], simp add: wire_name_def wire_label_def)
  then show ?thesis by simp
qed

end
