(* ===== verification/Pd_Text.thy ===== *)
theory Pd_Text
  imports Pd_Names
begin

text \<open>
  Names and byte strings as text (\<open>helpers.c\<close>): \<open>str2rhn\<close> and \<open>parsestr2rhn\<close> read a dotted name
  into transport format, \<open>rhn2str\<close> prints one, \<open>escapestr\<close> and \<open>hexdump\<close> print arbitrary data.
  A C string is a byte list with a zero byte; the output buffers are returned updated, and no
  routine is given more of a buffer than the source assumes (\<open>DNSNAMEBUFSIZE\<close> bytes, or \<open>sz\<close>).
\<close>

subsection \<open>Reading a dotted name\<close>

text \<open>The inner loop of \<open>str2rhn\<close>: copies one label; \<open>None\<close> in the result is \<open>return 0\<close>.\<close>

function str2rhn_lab :: "byte list \<Rightarrow> nat \<Rightarrow> nat \<Rightarrow> byte list \<Rightarrow> (nat option \<times> byte list) option" where
  "str2rhn_lab str jlim j rhn =
     do {
       c \<leftarrow> rd str j;
       if c = 0 \<or> c = 46 then Some (Some j, rhn)
       else if j \<ge> jlim then Some (None, rhn)
       else do { rhn' \<leftarrow> wr rhn (j + 1) c; str2rhn_lab str jlim (j + 1) rhn' }
     }"
  by pat_completeness auto
termination
  by (relation "measure (\<lambda>(str, jlim, j, rhn). length str - j)") (auto simp: rd_Some_iff)

definition label_limit :: "nat \<Rightarrow> nat" where
  "label_limit i = (let jlim = i + 63 in if jlim > DNSNAMEBUFSIZE - 2 then DNSNAMEBUFSIZE - 2 else jlim)"

function str2rhn_loop :: "byte list \<Rightarrow> nat \<Rightarrow> byte list \<Rightarrow> (bool \<times> byte list) option" where
  "str2rhn_loop str i rhn =
     do {
       (res, rhn1) \<leftarrow> str2rhn_lab str (label_limit i) i rhn;
       case res of
         None \<Rightarrow> Some (False, rhn1)
       | Some j \<Rightarrow> do {
           c \<leftarrow> rd str j;
           if c = 0 then do {
             rhn2 \<leftarrow> wr rhn1 i 0;
             Some (\<not> (j > i \<or> i = 0), rhn2)
           }
           else if j \<le> i then Some (False, rhn1)
           else do {
             rhn2 \<leftarrow> wr rhn1 i (word_of_nat (j - i));
             str2rhn_loop str (j + 1) rhn2
           }
         }
     }"
  by pat_completeness auto
termination
  by (relation "measure (\<lambda>(str, i, rhn). length str - i)") (auto simp: rd_Some_iff)

definition str2rhn :: "byte list \<Rightarrow> byte list \<Rightarrow> (bool \<times> byte list) option" where
  "str2rhn str rhn =
     do {
       c0 \<leftarrow> rd str 0;
       root \<leftarrow> (if c0 = 46 then do { c1 \<leftarrow> rd str 1; Some (c1 = 0) } else Some False);
       if root then do { rhn' \<leftarrow> wr rhn 0 0; Some (True, rhn') }
       else str2rhn_loop str 0 rhn
     }"

text \<open>\<open>parsestr2rhn\<close> looks at no more than \<open>len\<close> characters, tolerates a missing final dot, and
  returns an error message or a null pointer.\<close>

function parsestr2rhn_lab ::
    "byte list \<Rightarrow> nat \<Rightarrow> nat \<Rightarrow> nat \<Rightarrow> byte list \<Rightarrow> (nat option \<times> byte list) option" where
  "parsestr2rhn_lab str len jlim j rhn =
     (if j < len then
        do {
          c \<leftarrow> rd str j;
          if c = 0 \<or> c = 46 then Some (Some j, rhn)
          else if j \<ge> jlim then Some (None, rhn)
          else do { rhn' \<leftarrow> wr rhn (j + 1) c; parsestr2rhn_lab str len jlim (j + 1) rhn' }
        }
      else Some (Some j, rhn))"
  by pat_completeness auto
termination
  by (relation "measure (\<lambda>(str, len, jlim, j, rhn). len - j)") auto

text \<open>The test \<open>j<len && str[j]\<close>.\<close>

definition more_chars :: "byte list \<Rightarrow> nat \<Rightarrow> nat \<Rightarrow> bool option" where
  "more_chars str len j = (if j < len then do { c \<leftarrow> rd str j; Some (c \<noteq> 0) } else Some False)"

text \<open>What follows the loop of \<open>parsestr2rhn\<close>.\<close>

definition parsestr2rhn_end :: "nat \<Rightarrow> byte list \<Rightarrow> (string option \<times> byte list) option" where
  "parsestr2rhn_end i rhn =
     do {
       rhn' \<leftarrow> wr rhn i 0;
       Some (if i = 0 then Some ''Empty domain name not allowed'' else None, rhn')
     }"

function parsestr2rhn_loop ::
    "byte list \<Rightarrow> nat \<Rightarrow> nat \<Rightarrow> byte list \<Rightarrow> (string option \<times> byte list) option" where
  "parsestr2rhn_loop str len i rhn =
     do {
       (res, rhn1) \<leftarrow> parsestr2rhn_lab str len (label_limit i) i rhn;
       case res of
         None \<Rightarrow> Some (Some ''Domain name element too long'', rhn1)
       | Some j \<Rightarrow> do {
           more \<leftarrow> more_chars str len j;
           if j \<le> i then
             (if more then Some (Some ''Empty name element in domain name'', rhn1)
              else parsestr2rhn_end i rhn1)
           else do {
             rhn2 \<leftarrow> wr rhn1 i (word_of_nat (j - i));
             if more then parsestr2rhn_loop str len (j + 1) rhn2
             else parsestr2rhn_end (j + 1) rhn2
           }
         }
     }"
  by pat_completeness auto
termination
  by (relation "measure (\<lambda>(str, len, i, rhn). len - i)")
     (auto simp: more_chars_def split: if_split_asm)

definition parsestr2rhn :: "byte list \<Rightarrow> nat \<Rightarrow> byte list \<Rightarrow> (string option \<times> byte list) option" where
  "parsestr2rhn str len rhn =
     do {
       root \<leftarrow> (if len > 0 then
                 do {
                   c0 \<leftarrow> rd str 0;
                   if c0 = 46 then (if len = 1 then Some True else do { c1 \<leftarrow> rd str 1; Some (c1 = 0) })
                   else Some False
                 }
               else Some False);
       if root then do { rhn' \<leftarrow> wr rhn 0 0; Some (None, rhn') }
       else parsestr2rhn_loop str len 0 rhn
     }"

declare str2rhn_lab.simps [simp del] str2rhn_loop.simps [simp del]
  parsestr2rhn_lab.simps [simp del] parsestr2rhn_loop.simps [simp del]

subsection \<open>Printing a name\<close>

text \<open>\<open>snprintf\<close> of a formatted string into \<open>rem\<close> bytes of a buffer: what fits, and a zero byte.\<close>

definition snprintf_wr :: "byte list \<Rightarrow> nat \<Rightarrow> nat \<Rightarrow> byte list \<Rightarrow> byte list option" where
  "snprintf_wr buf j rem s = (if rem = 0 then Some buf else wrn buf j (take (rem - 1) s @ [0]))"

definition oct_escape :: "byte \<Rightarrow> byte list" where
  "oct_escape c =
     [92, 48 + word_of_nat (unat c div 64), 48 + word_of_nat (unat c div 8 mod 8),
      48 + word_of_nat (unat c mod 8)]"

definition special_c :: "byte \<Rightarrow> bool" where
  "special_c c = (c = 46 \<or> c = 92 \<or> c = 34)"

text \<open>The loop over one label; the first component of the result is false after an overflow.\<close>

fun rhn2str_lab ::
    "name \<Rightarrow> nat \<Rightarrow> nat \<Rightarrow> nat \<Rightarrow> byte list \<Rightarrow> nat \<Rightarrow> (bool \<times> nat \<times> nat \<times> byte list) option" where
  "rhn2str_lab rhn sz i j str 0 = Some (True, i, j, str)"
| "rhn2str_lab rhn sz i j str (Suc n) =
     (if j + 2 \<ge> sz then Some (False, i, j, str)
      else do {
        c \<leftarrow> rd rhn i;
        if isgraph_c c then
          (if special_c c then do {
             str1 \<leftarrow> wr str j 92;
             if j + 1 + 2 \<ge> sz then Some (False, i + 1, j + 1, str1)
             else do { str2 \<leftarrow> wr str1 (j + 1) c; rhn2str_lab rhn sz (i + 1) (j + 2) str2 n }
           }
           else do { str1 \<leftarrow> wr str j c; rhn2str_lab rhn sz (i + 1) (j + 1) str1 n })
        else do {
          let rem = sz - 1 - j;
          str1 \<leftarrow> snprintf_wr str j rem (oct_escape c);
          if 4 \<ge> rem then do { str2 \<leftarrow> wr str1 j 46; Some (False, i + 1, j + 1, str2) }
          else rhn2str_lab rhn sz (i + 1) (j + 4) str1 n
        }
      })"

lemma rhn2str_lab_index:
  "rhn2str_lab rhn sz i j str n = Some (True, i', j', str') \<Longrightarrow> i' = i + n"
proof (induction n arbitrary: i j str)
  case 0
  then show ?case by simp
next
  case (Suc n)
  then obtain j2 str2 where "rhn2str_lab rhn sz (i + 1) j2 str2 n = Some (True, i', j', str')"
    by (simp add: bind_Some_iff Let_def split: if_split_asm) blast+
  from Suc.IH [OF this] show ?case by simp
qed

function rhn2str_loop ::
    "name \<Rightarrow> nat \<Rightarrow> nat \<Rightarrow> nat \<Rightarrow> byte list \<Rightarrow> byte \<Rightarrow> (bool \<times> nat \<times> byte list) option" where
  "rhn2str_loop rhn sz i j str lb =
     do {
       (ok, i1, j1, str1) \<leftarrow> rhn2str_lab rhn sz i j str (unat lb);
       if \<not> ok then Some (False, j1, str1)
       else do {
         str2 \<leftarrow> wr str1 j1 46;
         lb' \<leftarrow> rd rhn i1;
         if lb' = 0 then Some (True, j1 + 1, str2)
         else rhn2str_loop rhn sz (i1 + 1) (j1 + 1) str2 lb'
       }
     }"
  by pat_completeness auto
termination
  by (relation "measure (\<lambda>(rhn, sz, i, j, str, lb). length rhn - i)")
     (auto simp: rd_Some_iff dest!: rhn2str_lab_index)

declare rhn2str_loop.simps [simp del]

text \<open>The label \<open>overflow\<close>: a zero byte and up to three dots at the end of the buffer.\<close>

definition rhn2str_overflow :: "nat \<Rightarrow> byte list \<Rightarrow> byte list option" where
  "rhn2str_overflow sz str =
     do {
       str1 \<leftarrow> wr str (sz - 1) 0;
       if sz - 1 > 0 then do {
         str2 \<leftarrow> wr str1 (sz - 2) 46;
         if sz - 2 > 0 then do {
           str3 \<leftarrow> wr str2 (sz - 3) 46;
           if sz - 3 > 0 then wr str3 (sz - 4) 46 else Some str3
         } else Some str2
       } else Some str1
     }"

definition rhn2str :: "name \<Rightarrow> byte list \<Rightarrow> nat \<Rightarrow> (bool \<times> byte list) option" where
  "rhn2str rhn str sz =
     (if sz = 0 then Some (False, str)
      else do {
        lb \<leftarrow> rd rhn 0;
        if lb = 0 then do {
          (j, str1) \<leftarrow> (if sz \<ge> 2 then do { s \<leftarrow> wr str 0 46; Some (1, s) } else Some (0, str));
          str2 \<leftarrow> wr str1 j 0;
          Some (True, str2)
        }
        else do {
          (ok, j, str1) \<leftarrow> rhn2str_loop rhn sz 1 0 str lb;
          str2 \<leftarrow> (if ok then wr str1 j 0 else rhn2str_overflow sz str1);
          Some (True, str2)
        }
      })"

subsection \<open>What the parsers accept\<close>

text \<open>
  The labels that can be written in dotted notation (the parsers know no escapes), the
  notation of a list of labels, and of a name.
\<close>

definition text_label :: "label \<Rightarrow> bool" where
  "text_label l = (wire_label l \<and> 0 \<notin> set l \<and> 46 \<notin> set l)"

fun dotted :: "label list \<Rightarrow> byte list" where
  "dotted [] = []"
| "dotted (l # ls) = l @ 46 # dotted ls"

definition name_text :: "label list \<Rightarrow> byte list" where
  "name_text ls = (if ls = [] then [46] else dotted ls)"

text \<open>What both parsers leave in the buffer, and which labels they accept after the part \<open>q\<close>
  of the buffer is filled.\<close>

definition fits :: "byte list \<Rightarrow> label list \<Rightarrow> bool" where
  "fits q ls = (list_all text_label ls \<and> length q + length (enc ls) \<le> DNSNAMEBUFSIZE \<and>
                (q = [] \<longrightarrow> ls \<noteq> []))"

definition filled :: "byte list \<Rightarrow> label list \<Rightarrow> byte list \<Rightarrow> byte list" where
  "filled q ls w = q @ enc ls @ drop (length (enc ls)) w"

lemma str2rhn_lab_spec:
  "0 \<notin> set l \<Longrightarrow> 46 \<notin> set l \<Longrightarrow> c = 0 \<or> c = 46 \<Longrightarrow> length q = length p + 1 \<Longrightarrow>
   jlim < length (q @ w) \<Longrightarrow>
   str2rhn_lab (p @ l @ c # r) jlim (length p) (q @ w) =
     (if l = [] \<or> length p + length l \<le> jlim
      then Some (Some (length p + length l), q @ l @ drop (length l) w)
      else Some (None, q @ take (jlim - length p) l @ drop (jlim - length p) w))"
proof (induction l arbitrary: p q w)
  case Nil
  then show ?case by (auto simp: str2rhn_lab.simps [of _ _ "length p"])
next
  case (Cons x l)
  have x: "x \<noteq> 0" "x \<noteq> 46" using Cons.prems by auto
  show ?case
  proof (cases "jlim \<le> length p")
    case True
    then show ?thesis using x by (simp add: str2rhn_lab.simps [of _ _ "length p"])
  next
    case False
    then obtain w0 w' where w: "w = w0 # w'"
      using Cons.prems by (cases w) auto
    have "str2rhn_lab ((p @ [x]) @ l @ c # r) jlim (length (p @ [x])) ((q @ [x]) @ w') =
      (if l = [] \<or> length (p @ [x]) + length l \<le> jlim
       then Some (Some (length (p @ [x]) + length l), (q @ [x]) @ l @ drop (length l) w')
       else Some (None, (q @ [x]) @ take (jlim - length (p @ [x])) l @ drop (jlim - length (p @ [x])) w'))"
      by (rule Cons.IH) (use Cons.prems w in simp_all)
    moreover have "jlim - length p = Suc (jlim - length (p @ [x]))" using False by simp
    ultimately show ?thesis
      using False x Cons.prems w by (simp add: str2rhn_lab.simps [of _ _ "length p"])
  qed
qed

lemma label_limit_simps: "i + n \<le> label_limit i \<longleftrightarrow> n \<le> 63 \<and> i + n \<le> 254"
  by (auto simp: label_limit_def Let_def)

lemma label_limit_le: "label_limit i \<le> 254"
  by (auto simp: label_limit_def Let_def)

lemma split_label:
  obtains (last) "46 \<notin> set s"
  | (dot) l t where "s = l @ 46 # t" "46 \<notin> set l"
  by (metis split_list_first)

lemma dotted_no_dot: "46 \<notin> set s \<Longrightarrow> (s = dotted ls) = (s = [] \<and> ls = [])"
  by (cases ls) auto

lemma append_dot_eq:
  "46 \<notin> set a \<Longrightarrow> 46 \<notin> set b \<Longrightarrow> (a @ (46 :: byte) # x = b @ 46 # y) = (a = b \<and> x = y)"
  by (auto simp: append_eq_append_conv2 append_eq_Cons_conv Cons_eq_append_conv)

lemma dotted_dot:
  "46 \<notin> set l \<Longrightarrow> list_all text_label ls \<Longrightarrow>
   (l @ 46 # t = dotted ls) = (\<exists>ls'. ls = l # ls' \<and> t = dotted ls')"
  by (cases ls) (auto simp: text_label_def append_dot_eq)

lemma str2rhn_lab_head:
  assumes "0 \<notin> set l" "46 \<notin> set l" "c = 0 \<or> c = 46" "length q = length p"
    "length q \<le> 255" "256 \<le> length (q @ w0 # w)"
  shows "\<exists>w'. length w' = length w \<and>
    str2rhn_lab (p @ l @ c # r) (label_limit (length p)) (length p) (q @ w0 # w) =
      Some (if l = [] \<or> wire_label l \<and> length p + length l \<le> 254
            then (Some (length p + length l), q @ w0 # l @ drop (length l) w)
            else (None, q @ w0 # w'))"
proof -
  let ?j = "label_limit (length p)"
  have "?j < length ((q @ [w0]) @ w)" using label_limit_le [of "length p"] assms(6) by simp
  from str2rhn_lab_spec [OF assms(1-3) _ this, of p r] assms(4)
  have *: "str2rhn_lab (p @ l @ c # r) ?j (length p) (q @ w0 # w) =
      (if l = [] \<or> length p + length l \<le> ?j
       then Some (Some (length p + length l), q @ w0 # l @ drop (length l) w)
       else Some (None, q @ w0 # take (?j - length p) l @ drop (?j - length p) w))"
    by simp
  have "length (take (?j - length p) l @ drop (?j - length p) w) = length w"
    if "\<not> (l = [] \<or> length p + length l \<le> ?j)"
    using that assms(4-6) label_limit_le [of "length p"] by auto
  moreover have "length p + length l \<le> ?j \<longleftrightarrow> length l \<le> 63 \<and> length p + length l \<le> 254"
    by (rule label_limit_simps)
  ultimately show ?thesis
    unfolding * by (auto simp: wire_label_def)
qed

lemma str2rhn_loop_last:
  assumes "0 \<notin> set s" "46 \<notin> set s" "length q = length p" "length q \<le> 255" "256 \<le> length (q @ w)"
  shows "\<exists>rhn'. str2rhn_loop (p @ s @ 0 # r) (length p) (q @ w) = Some (s = [] \<and> p \<noteq> [], rhn') \<and>
    length rhn' = length (q @ w) \<and> (s = [] \<longrightarrow> rhn' = filled q [] w)"
proof -
  obtain w0 w1 where w: "w = w0 # w1" using assms by (cases w) auto
  from str2rhn_lab_head [OF assms(1,2) _ assms(3,4), of 0 w0 w1 r] assms(5) w
  obtain w' where "length w' = length w1" and
    *: "str2rhn_lab (p @ s @ 0 # r) (label_limit (length p)) (length p) (q @ w0 # w1) =
      Some (if s = [] \<or> wire_label s \<and> length p + length s \<le> 254
            then (Some (length p + length s), q @ w0 # s @ drop (length s) w1)
            else (None, q @ w0 # w'))"
    by auto
  moreover have "rd (p @ s @ 0 # r) (length p + length s) = Some 0"
    using rd_append_len [of "length p + length s" "p @ s" 0 r] by simp
  moreover have "length s \<le> length w1" if "length p + length s \<le> 254"
    using that assms w by simp
  moreover have "wr (q @ w0 # x) (length p) 0 = Some (q @ 0 # x)" for x
    using assms(3) by simp
  ultimately show ?thesis
    by (auto simp: w filled_def str2rhn_loop.simps [of _ "length p"])
qed

lemma str2rhn_loop_dot:
  assumes "0 \<notin> set l" "46 \<notin> set l" "length q = length p" "length q \<le> 255" "256 \<le> length (q @ w)"
  shows "\<exists>w'. length w' = length w \<and> str2rhn_loop (p @ l @ 46 # t) (length p) (q @ w) =
    (if wire_label l \<and> length p + length l \<le> 254
     then str2rhn_loop ((p @ l @ [46]) @ t) (length (p @ l @ [46]))
            ((q @ word_of_nat (length l) # l) @ drop (length l) (tl w))
     else Some (False, q @ w'))"
proof -
  obtain w0 w1 where w: "w = w0 # w1" using assms by (cases w) auto
  from str2rhn_lab_head [OF assms(1,2) _ assms(3,4), of 46 w0 w1 t] assms(5) w
  obtain w' where "length w' = length w1" and
    *: "str2rhn_lab (p @ l @ 46 # t) (label_limit (length p)) (length p) (q @ w0 # w1) =
      Some (if l = [] \<or> wire_label l \<and> length p + length l \<le> 254
            then (Some (length p + length l), q @ w0 # l @ drop (length l) w1)
            else (None, q @ w0 # w'))"
    by auto
  moreover have "rd (p @ l @ 46 # t) (length p + length l) = Some 46"
    using rd_append_len [of "length p + length l" "p @ l" 46 t] by simp
  moreover have "wr (q @ w0 # x) (length p) y = Some (q @ y # x)" for x y
    using assms(3) by simp
  moreover have "wire_label l \<longleftrightarrow> l \<noteq> [] \<and> wire_label l" by (auto simp: wire_label_def)
  ultimately show ?thesis
    by (cases "wire_label l \<and> length p + length l \<le> 254"; cases "l = []")
       (auto simp: w str2rhn_loop.simps [of _ "length p"] intro: exI [of _ "w0 # w'"])
qed

lemma fits_Nil: "fits q [] = (q \<noteq> [] \<and> length q \<le> 255)"
  by (auto simp: fits_def)

lemma fits_Cons:
  "fits q (l # ls) = (text_label l \<and> length q + length l \<le> 254 \<and>
                      fits (q @ word_of_nat (length l) # l) ls)"
proof -
  obtain n where "length (enc ls) = Suc n" by (metis length_enc)
  then show ?thesis by (auto simp: fits_def)
qed

lemma filled_Cons:
  "w \<noteq> [] \<Longrightarrow> filled q (l # ls) w = filled (q @ word_of_nat (length l) # l) ls (drop (length l) (tl w))"
  by (cases w) (simp_all add: filled_def add.commute)

lemma fits_dotted_dot:
  assumes "s = l @ 46 # t" "0 \<notin> set l" "46 \<notin> set l" "length q = length p"
  shows "(\<exists>ls. fits q ls \<and> s = dotted ls \<and> P ls) =
    (wire_label l \<and> length p + length l \<le> 254 \<and>
     (\<exists>ls. fits (q @ word_of_nat (length l) # l) ls \<and> t = dotted ls \<and> P (l # ls)))" (is "?L = ?R")
proof
  assume ?L
  then obtain ls where ls: "fits q ls" "s = dotted ls" "P ls" by blast
  moreover from ls(1) have "list_all text_label ls" by (simp add: fits_def)
  moreover have "l @ 46 # t = dotted ls" using ls(2) assms(1) by simp
  ultimately obtain ls' where ls': "ls = l # ls'" "t = dotted ls'"
    using dotted_dot [OF assms(3), of ls t] by auto
  then have "fits (q @ word_of_nat (length l) # l) ls' \<and> t = dotted ls' \<and> P (l # ls')"
    using ls by (simp add: fits_Cons)
  moreover have "wire_label l \<and> length p + length l \<le> 254"
    using ls(1) ls'(1) assms(4) by (simp add: fits_Cons text_label_def)
  ultimately show ?R by blast
next
  assume ?R
  then obtain ls where "wire_label l" "length p + length l \<le> 254"
    "fits (q @ word_of_nat (length l) # l) ls" "t = dotted ls" "P (l # ls)" by blast
  then show ?L using assms by (intro exI [of _ "l # ls"]) (simp add: fits_Cons text_label_def)
qed

lemma str2rhn_loop_spec:
  assumes "0 \<notin> set s" "length q = length p" "length q \<le> 255" "256 \<le> length (q @ w)"
  shows "\<exists>ok rhn'. str2rhn_loop (p @ s @ 0 # r) (length p) (q @ w) = Some (ok, rhn') \<and>
    length rhn' = length (q @ w) \<and>
    (ok \<longrightarrow> (\<exists>ls. fits q ls \<and> s = dotted ls \<and> rhn' = filled q ls w)) \<and>
    ((\<exists>ls. fits q ls \<and> s = dotted ls) \<longrightarrow> ok)"
  using assms
proof (induction "length s" arbitrary: s p q w rule: less_induct)
  case less
  show ?case
  proof (cases rule: split_label [of s])
    case last
    obtain rhn' where "str2rhn_loop (p @ s @ 0 # r) (length p) (q @ w) = Some (s = [] \<and> p \<noteq> [], rhn')"
      "length rhn' = length (q @ w)" "s = [] \<longrightarrow> rhn' = filled q [] w"
      using str2rhn_loop_last [OF less.prems(1) last less.prems(2-4)] by blast
    then show ?thesis
      using last less.prems(2,3)
      by (intro exI [of _ "s = [] \<and> p \<noteq> []"] exI [of _ rhn'])
         (auto simp: dotted_no_dot fits_Nil intro!: exI [of _ "[]"])
  next
    case (dot l t)
    then have l: "0 \<notin> set l" and t: "0 \<notin> set t" "length t < length s"
      using less.prems(1) by auto
    obtain w' where w': "length w' = length w" and
      *: "str2rhn_loop (p @ l @ 46 # (t @ 0 # r)) (length p) (q @ w) =
        (if wire_label l \<and> length p + length l \<le> 254
         then str2rhn_loop ((p @ l @ [46]) @ (t @ 0 # r)) (length (p @ l @ [46]))
                ((q @ word_of_nat (length l) # l) @ drop (length l) (tl w))
         else Some (False, q @ w'))"
      using str2rhn_loop_dot [OF l dot(2) less.prems(2-4)] by blast
    note fits = fits_dotted_dot [OF dot(1) l dot(2) less.prems(2)]
    show ?thesis
    proof (cases "wire_label l \<and> length p + length l \<le> 254")
      case False
      then show ?thesis
        using * dot w' fits [of "\<lambda>_. True"] by (intro exI [of _ False] exI [of _ "q @ w'"]) auto
    next
      case True
      let ?q = "q @ word_of_nat (length l) # l" and ?w = "drop (length l) (tl w)"
      have w: "w \<noteq> []" using less.prems(3,4) by auto
      have len: "length (?q @ ?w) = length (q @ w)"
        using True less.prems(2-4) by simp
      from less.hyps [OF t(2) t(1), of ?q "p @ l @ [46]" ?w] True less.prems(2,4) len
      obtain ok rhn' where
        r: "str2rhn_loop ((p @ l @ [46]) @ t @ 0 # r) (length (p @ l @ [46])) (?q @ ?w) = Some (ok, rhn')"
          "length rhn' = length (?q @ ?w)"
          "ok \<longrightarrow> (\<exists>ls. fits ?q ls \<and> t = dotted ls \<and> rhn' = filled ?q ls ?w)"
          "(\<exists>ls. fits ?q ls \<and> t = dotted ls) \<longrightarrow> ok"
        by auto
      show ?thesis
        using * dot True r len fits [of "\<lambda>_. True"] fits [of "\<lambda>ls. rhn' = filled q ls w"]
        by (intro exI [of _ ok] exI [of _ rhn']) (auto simp: filled_Cons [OF w])
    qed
  qed
qed

definition text_name :: "label list \<Rightarrow> bool" where
  "text_name ls = (list_all text_label ls \<and> length (enc ls) \<le> DNSNAMEBUFSIZE)"

lemma text_name_wire: "text_name ls \<Longrightarrow> wire_name ls"
  by (auto simp: text_name_def wire_name_def text_label_def list_all_iff)

lemma fits_text_name: "fits [] ls = (text_name ls \<and> ls \<noteq> [])"
  by (auto simp: fits_def text_name_def)

lemma dotted_inj:
  "list_all text_label ks \<Longrightarrow> list_all text_label ls \<Longrightarrow> dotted ks = dotted ls \<Longrightarrow> ks = ls"
proof (induction ks arbitrary: ls)
  case Nil
  then show ?case by (cases ls) auto
next
  case (Cons k ks)
  have k: "46 \<notin> set k" and e: "k @ 46 # dotted ks = dotted ls"
    using Cons.prems by (auto simp: text_label_def)
  from e dotted_dot [OF k Cons.prems(2), of "dotted ks"] obtain ls' where "ls = k # ls'" "dotted ks = dotted ls'"
    by blast
  then show ?case using Cons.IH [of ls'] Cons.prems by simp
qed

lemma dotted_not_dot: "list_all text_label ls \<Longrightarrow> dotted ls \<noteq> 46 # x"
  by (cases ls) (auto simp: text_label_def wire_label_def Cons_eq_append_conv neq_Nil_conv)

lemma dotted_eq_Nil: "(dotted ls = []) = (ls = [])"
  by (cases ls) auto

lemma name_text_inj: "text_name ks \<Longrightarrow> text_name ls \<Longrightarrow> name_text ks = name_text ls \<Longrightarrow> ks = ls"
  using dotted_inj [of ks ls] dotted_not_dot [of ks "[]"] dotted_not_dot [of ls "[]"]
  by (auto simp: name_text_def text_name_def dotted_eq_Nil split: if_splits)

lemma str2rhn_root: "str2rhn (46 # 0 # r) (w0 # w) = Some (True, 0 # w)"
  by (simp add: str2rhn_def wr_def)

lemma str2rhn_not_root: "s \<noteq> [46] \<Longrightarrow> 0 \<notin> set s \<Longrightarrow> str2rhn (s @ 0 # r) rhn = str2rhn_loop (s @ 0 # r) 0 rhn"
  by (cases s; cases "tl s") (auto simp: str2rhn_def)

lemma str2rhn_spec:
  assumes "0 \<notin> set s" "DNSNAMEBUFSIZE \<le> length rhn"
  shows "\<exists>ok rhn'. str2rhn (s @ 0 # r) rhn = Some (ok, rhn') \<and> length rhn' = length rhn \<and>
    ok = (\<exists>ls. text_name ls \<and> s = name_text ls) \<and>
    (\<forall>ls. text_name ls \<longrightarrow> s = name_text ls \<longrightarrow> rhn' = enc ls @ drop (length (enc ls)) rhn)"
proof (cases "s = [46]")
  case True
  obtain w0 w where w: "rhn = w0 # w" using assms(2) by (cases rhn) auto
  have n: "text_name []" "name_text [] = [46]" by (simp_all add: text_name_def name_text_def)
  have "str2rhn (s @ 0 # r) rhn = Some (True, 0 # w)"
    unfolding True w using str2rhn_root [of r w0 w] by simp
  moreover have "True = (\<exists>ls. text_name ls \<and> s = name_text ls)" using n True by metis
  moreover have "\<forall>ls. text_name ls \<longrightarrow> s = name_text ls \<longrightarrow> 0 # w = enc ls @ drop (length (enc ls)) rhn"
  proof (intro allI impI)
    fix ls assume "text_name ls" "s = name_text ls"
    then have "ls = []" using name_text_inj [of ls "[]"] n True by metis
    then show "0 # w = enc ls @ drop (length (enc ls)) rhn" using w by simp
  qed
  ultimately show ?thesis by (intro exI [of _ True] exI [of _ "0 # w"]) (simp add: w)
next
  case False
  from assms(2) have "DNSNAMEBUFSIZE \<le> length ([] @ rhn)" by simp
  from str2rhn_loop_spec [OF assms(1) _ _ this, of "[]" r, simplified]
  obtain ok rhn' where *: "str2rhn_loop (s @ 0 # r) 0 rhn = Some (ok, rhn')" "length rhn' = length rhn"
    "ok \<longrightarrow> (\<exists>ls. fits [] ls \<and> s = dotted ls \<and> rhn' = filled [] ls rhn)"
    "(\<exists>ls. fits [] ls \<and> s = dotted ls) \<longrightarrow> ok"
    by blast
  have eq: "text_name ls \<and> s = name_text ls \<longleftrightarrow> fits [] ls \<and> s = dotted ls" for ls
    using False by (auto simp: fits_text_name name_text_def)
  have "\<forall>ls. text_name ls \<longrightarrow> s = name_text ls \<longrightarrow> rhn' = enc ls @ drop (length (enc ls)) rhn"
  proof (intro allI impI)
    fix ls assume ls: "text_name ls" "s = name_text ls"
    have "fits [] ls \<and> s = dotted ls" using eq [of ls] ls by blast
    with *(3,4) obtain ks where ks: "fits [] ks" "s = dotted ks" "rhn' = filled [] ks rhn"
      by blast
    have "text_name ks" "s = name_text ks" using eq [of ks] ks(1,2) by blast+
    then have "ks = ls" using name_text_inj [of ks ls] ls by metis
    with ks show "rhn' = enc ls @ drop (length (enc ls)) rhn" by (simp add: filled_def)
  qed
  moreover have "ok = (\<exists>ls. text_name ls \<and> s = name_text ls)" using eq *(3,4) by blast
  ultimately show ?thesis
    using *(1,2) str2rhn_not_root [OF False assms(1), of r rhn] by (intro exI [of _ ok] exI [of _ rhn'] conjI) simp_all
qed

text \<open>
  C39. \<open>str2rhn\<close> on any C string, with an output buffer of \<open>DNSNAMEBUFSIZE\<close> bytes: it stays inside
  the string and the buffer, it succeeds exactly on the dotted notation (final dot included) of
  the names with labels of 1 to 63 bytes and at most \<open>DNSNAMEBUFSIZE\<close> bytes of encoding, and
  then the buffer holds the encoding of that name, the rest of it untouched.
\<close>

theorem str2rhn_correct:
  assumes "0 \<notin> set s" "DNSNAMEBUFSIZE \<le> length rhn"
  shows "\<exists>ok rhn'. str2rhn (s @ 0 # r) rhn = Some (ok, rhn') \<and> length rhn' = length rhn \<and>
    ok = (\<exists>ls. text_name ls \<and> s = name_text ls) \<and>
    (\<forall>ls. text_name ls \<longrightarrow> s = name_text ls \<longrightarrow> rhn' = enc ls @ drop (length (enc ls)) rhn)"
  by (rule str2rhn_spec [OF assms])

theorem str2rhn_correct_witness:
  "\<exists>rhn'. str2rhn [97, 46, 0] (replicate 256 7) = Some (True, rhn') \<and>
     rhn' = [1, 97, 0] @ drop 3 (replicate 256 7)"
proof -
  have "text_name [[97]]" "name_text [[97]] = [97, 46]"
    by (simp_all add: text_name_def text_label_def wire_label_def name_text_def)
  with str2rhn_correct [of "[97, 46]" "replicate 256 7" "[]"] show ?thesis by fastforce
qed

text \<open>What \<open>parsestr2rhn\<close> looks at: the characters before the end of the string or the limit.\<close>

definition sees :: "byte list \<Rightarrow> nat \<Rightarrow> byte list \<Rightarrow> bool" where
  "sees str len s = (0 \<notin> set s \<and>
     (\<exists>t. str = s @ t \<and> (length s = len \<or> length s < len \<and> (\<exists>r. t = 0 # r))))"

lemma sees_rd: "sees str len s \<Longrightarrow> j < len \<Longrightarrow> j \<le> length s \<Longrightarrow> rd str j = rd (s @ [0]) j"
  by (auto simp: sees_def rd_def nth_append less_Suc_eq)

lemma sees_len: "sees str len s \<Longrightarrow> length s \<le> len"
  by (auto simp: sees_def)

lemma parsestr2rhn_lab_eq:
  "sees str len s \<Longrightarrow> j \<le> length s \<Longrightarrow>
   parsestr2rhn_lab str len jlim j rhn = str2rhn_lab (s @ [0]) jlim j rhn"
proof (induction "length s - j" arbitrary: j rhn)
  case 0
  then have j: "j = length s" by simp
  note [simp] = parsestr2rhn_lab.simps [of _ _ _ "length s"] str2rhn_lab.simps [of _ _ "length s"]
  show ?case
  proof (cases "j < len")
    case True
    then show ?thesis using 0 j sees_rd [of str len s j] by simp
  next
    case False
    then show ?thesis using 0 j by simp
  qed
next
  case (Suc n)
  then have j: "j < length s" "j < len" using sees_len by fastforce+
  have IH: "parsestr2rhn_lab str len jlim (j + 1) = str2rhn_lab (s @ [0]) jlim (j + 1)"
    using Suc.hyps(1) [of "j + 1"] Suc.hyps(2) Suc.prems j by (intro ext) simp
  show ?case
    using j Suc.prems sees_rd [of str len s j] IH
    by (cases "rd (s @ [0]) j") (simp_all add: parsestr2rhn_lab.simps [of _ _ _ j] str2rhn_lab.simps [of _ _ j])
qed

lemma more_chars_eq: "sees str len s \<Longrightarrow> j \<le> length s \<Longrightarrow> more_chars str len j = Some (j < length s)"
proof -
  assume a: "sees str len s" "j \<le> length s"
  show ?thesis
  proof (cases "j < len")
    case True
    moreover have "rd (s @ [0]) j = Some (if j < length s then s ! j else 0)"
      using a(2) by (auto simp: rd_def nth_append)
    moreover have "j < length s \<Longrightarrow> s ! j \<noteq> 0" using a(1) by (auto simp: sees_def dest: nth_mem)
    ultimately show ?thesis using sees_rd [OF a(1) _ a(2)] by (simp add: more_chars_def)
  next
    case False
    then show ?thesis using a sees_len [OF a(1)] by (simp add: more_chars_def)
  qed
qed

lemma parsestr2rhn_end_eq: "parsestr2rhn_end (length q) (q @ x # w) =
    Some (if q = [] then Some ''Empty domain name not allowed'' else None, q @ 0 # w)"
  by (simp add: parsestr2rhn_end_def)

text \<open>The names whose notation is \<open>s\<close>, where the final dot may be missing.\<close>

definition denotes :: "byte list \<Rightarrow> label list \<Rightarrow> bool" where
  "denotes s ls = (s = dotted ls \<or> ls \<noteq> [] \<and> s @ [46] = dotted ls)"

lemma denotes_no_dot:
  "46 \<notin> set s \<Longrightarrow> list_all text_label ls \<Longrightarrow>
   denotes s ls = (s = [] \<and> ls = [] \<or> s \<noteq> [] \<and> ls = [s])"
proof -
  assume a: "46 \<notin> set s" "list_all text_label ls"
  have nil: "[] = dotted ls' \<longleftrightarrow> ls' = []" for ls' using dotted_eq_Nil [of ls'] by metis
  have 1: "s @ [46] = dotted ls \<longleftrightarrow> ls = [s]"
    unfolding dotted_dot [OF a, of "[]"] nil by blast
  have 2: "s \<noteq> []" if "ls = [s]" using that a(2) by (simp add: text_label_def wire_label_def)
  show ?thesis
    unfolding denotes_def 1 dotted_no_dot [OF a(1)] using 2 by blast
qed

lemma denotes_dot:
  "46 \<notin> set l \<Longrightarrow> list_all text_label ls \<Longrightarrow>
   denotes (l @ 46 # t) ls = (\<exists>ls'. ls = l # ls' \<and> denotes t ls')"
  using dotted_dot [of l ls t] dotted_dot [of l ls "t @ [46]"]
  by (auto simp: denotes_def dotted_eq_Nil)

lemma fits_denotes_dot:
  assumes "s = l @ 46 # t" "0 \<notin> set l" "46 \<notin> set l" "length q = length p"
  shows "(\<exists>ls. fits q ls \<and> denotes s ls \<and> P ls) =
    (wire_label l \<and> length p + length l \<le> 254 \<and>
     (\<exists>ls. fits (q @ word_of_nat (length l) # l) ls \<and> denotes t ls \<and> P (l # ls)))" (is "?L = ?R")
proof
  assume ?L
  then obtain ls where ls: "fits q ls" "denotes (l @ 46 # t) ls" "P ls" using assms(1) by blast
  moreover from ls(1) have "list_all text_label ls" by (simp add: fits_def)
  ultimately obtain ls' where ls': "ls = l # ls'" "denotes t ls'"
    using denotes_dot [OF assms(3), of ls t] by auto
  then have "fits (q @ word_of_nat (length l) # l) ls' \<and> denotes t ls' \<and> P (l # ls')"
    using ls by (simp add: fits_Cons)
  moreover have "wire_label l \<and> length p + length l \<le> 254"
    using ls(1) ls'(1) assms(4) by (simp add: fits_Cons text_label_def)
  ultimately show ?R by blast
next
  assume ?R
  then obtain ls where ls: "wire_label l" "length p + length l \<le> 254"
    "fits (q @ word_of_nat (length l) # l) ls" "denotes t ls" "P (l # ls)" by blast
  then have "fits q (l # ls)" using assms by (simp add: fits_Cons text_label_def)
  moreover from this have "denotes (l @ 46 # t) (l # ls)"
    using denotes_dot [OF assms(3), of "l # ls" t] ls(4) by (simp add: fits_def)
  ultimately show ?L using ls(5) assms(1) by blast
qed

lemma parsestr2rhn_loop_spec:
  assumes "sees str len (p @ s)" "length q = length p" "length q \<le> 255" "256 \<le> length (q @ w)"
  shows "\<exists>err rhn'. parsestr2rhn_loop str len (length p) (q @ w) = Some (err, rhn') \<and>
    length rhn' = length (q @ w) \<and>
    (err = None \<longrightarrow> (\<exists>ls. fits q ls \<and> denotes s ls \<and> rhn' = filled q ls w)) \<and>
    ((\<exists>ls. fits q ls \<and> denotes s ls) \<longrightarrow> err = None)"
  using assms
proof (induction "length s" arbitrary: s p q w rule: less_induct)
  case less
  obtain w0 w1 where w: "w = w0 # w1" using less.prems by (cases w) auto
  have nz: "0 \<notin> set s" using less.prems(1) by (auto simp: sees_def)
  have wr0: "wr (q @ w0 # x) (length p) y = Some (q @ y # x)" for x y
    using less.prems(2) by simp
  have lab: "parsestr2rhn_lab str len (label_limit (length p)) (length p) (q @ w) =
      str2rhn_lab (p @ s @ [0]) (label_limit (length p)) (length p) (q @ w)"
    using parsestr2rhn_lab_eq [OF less.prems(1), of "length p"] by simp
  show ?case
  proof (cases rule: split_label [of s])
    case last
    from str2rhn_lab_head [OF nz last _ less.prems(2,3), of 0 w0 w1 "[]"] less.prems(4) w
    obtain w' where w': "length w' = length w1" and
      *: "str2rhn_lab (p @ s @ [0]) (label_limit (length p)) (length p) (q @ w) =
        Some (if s = [] \<or> wire_label s \<and> length p + length s \<le> 254
              then (Some (length p + length s), q @ w0 # s @ drop (length s) w1)
              else (None, q @ w0 # w'))"
      by auto
    have more: "more_chars str len (length p + length s) = Some False"
      using more_chars_eq [OF less.prems(1)] by simp
    have den: "fits q ls \<and> denotes s ls \<longleftrightarrow>
        (if s = [] then ls = [] \<and> q \<noteq> [] else ls = [s] \<and> wire_label s \<and> length p + length s \<le> 254)" for ls
      using denotes_no_dot [OF last, of ls] last nz less.prems(2,3)
      by (auto simp: fits_def text_label_def)
    show ?thesis
    proof (cases "s = []")
      case True
      have "parsestr2rhn_loop str len (length p) (q @ w) = parsestr2rhn_end (length q) (q @ w0 # w1)"
        using lab * more True less.prems(2) by (simp add: parsestr2rhn_loop.simps [of _ _ "length p"])
      moreover have "filled q [] w = q @ 0 # w1" by (simp add: filled_def w)
      ultimately show ?thesis
        unfolding parsestr2rhn_end_eq using den [of "[]"] den True w
        by (cases "q = []") (simp_all, metis)
    next
      case False
      show ?thesis
      proof (cases "wire_label s \<and> length p + length s \<le> 254")
        case False
        then have "parsestr2rhn_loop str len (length p) (q @ w) =
            Some (Some ''Domain name element too long'', q @ w0 # w')"
          using lab * \<open>s \<noteq> []\<close>
          by (simp add: parsestr2rhn_loop.simps [of _ _ "length p"] if_not_P del: if_split cong: if_weak_cong)
        then show ?thesis using den False \<open>s \<noteq> []\<close> w w' by auto
      next
        case True
        then obtain w2 w3 where w2: "drop (length s) w1 = w2 # w3"
          using less.prems(2,4) w by (cases "drop (length s) w1") auto
        have "parsestr2rhn_loop str len (length p) (q @ w) =
            parsestr2rhn_end (length (q @ word_of_nat (length s) # s)) ((q @ word_of_nat (length s) # s) @ w2 # w3)"
          using lab * more True \<open>s \<noteq> []\<close> less.prems(2) wr0 w2
          by (simp add: parsestr2rhn_loop.simps [of _ _ "length p"])
        then have "parsestr2rhn_loop str len (length p) (q @ w) =
            Some (None, (q @ word_of_nat (length s) # s) @ 0 # w3)"
          unfolding parsestr2rhn_end_eq by simp
        moreover have "w3 = drop (Suc (length s)) w1" using w2 by (metis drop_Suc list.sel(3) tl_drop)
        then have "filled q [s] w = (q @ word_of_nat (length s) # s) @ 0 # w3"
          by (simp add: filled_def w)
        moreover have "length ((q @ word_of_nat (length s) # s) @ 0 # w3) = length (q @ w)"
          using arg_cong [OF w2, of length] w by simp
        moreover have "fits q [s] \<and> denotes s [s]" using den [of "[s]"] True \<open>s \<noteq> []\<close> by simp
        ultimately show ?thesis by metis
      qed
    qed
  next
    case (dot l t)
    then have l: "0 \<notin> set l" and t: "length t < length s" using nz by auto
    note fits = fits_denotes_dot [OF dot(1) l dot(2) less.prems(2)]
    from str2rhn_lab_head [OF l dot(2) _ less.prems(2,3), of 46 w0 w1 "t @ [0]"] less.prems(4) w
    obtain w' where w': "length w' = length w1" and
      *: "str2rhn_lab (p @ s @ [0]) (label_limit (length p)) (length p) (q @ w) =
        Some (if l = [] \<or> wire_label l \<and> length p + length l \<le> 254
              then (Some (length p + length l), q @ w0 # l @ drop (length l) w1)
              else (None, q @ w0 # w'))"
      by (auto simp: dot(1))
    have more: "more_chars str len (length p + length l) = Some True"
      using more_chars_eq [OF less.prems(1)] dot(1) by simp
    show ?thesis
    proof (cases "wire_label l \<and> length p + length l \<le> 254")
      case False
      then have "\<exists>e w'. parsestr2rhn_loop str len (length p) (q @ w) = Some (Some e, q @ w') \<and> length w' = length w"
        using lab * more w w' by (cases "l = []") (auto simp: parsestr2rhn_loop.simps [of _ _ "length p"])
      then show ?thesis using fits [of "\<lambda>_. True"] False by auto
    next
      case True
      let ?q = "q @ word_of_nat (length l) # l" and ?w = "drop (length l) w1"
      have ne: "l \<noteq> []" using True by (auto simp: wire_label_def)
      have step: "parsestr2rhn_loop str len (length p) (q @ w) =
          parsestr2rhn_loop str len (length (p @ l @ [46])) (?q @ ?w)"
        using lab * more True ne wr0 by (simp add: parsestr2rhn_loop.simps [of _ _ "length p"])
      have len: "length (?q @ ?w) = length (q @ w)"
        using True less.prems(2-4) w by simp
      from less.hyps [OF t, of "p @ l @ [46]" ?q ?w] True less.prems(1,2,4) len
      obtain err rhn' where
        r: "parsestr2rhn_loop str len (length (p @ l @ [46])) (?q @ ?w) = Some (err, rhn')"
          "length rhn' = length (?q @ ?w)"
          "err = None \<longrightarrow> (\<exists>ls. fits ?q ls \<and> denotes t ls \<and> rhn' = filled ?q ls ?w)"
          "(\<exists>ls. fits ?q ls \<and> denotes t ls) \<longrightarrow> err = None"
        by (auto simp: dot(1))
      have f: "filled q (l # ls) w = filled ?q ls ?w" for ls
        using filled_Cons [of w q l ls] w by simp
      have "err = None \<longrightarrow> (\<exists>ls. fits q ls \<and> denotes s ls \<and> rhn' = filled q ls w)"
        using fits [of "\<lambda>ls. rhn' = filled q ls w"] True r(3) unfolding f by blast
      moreover have "(\<exists>ls. fits q ls \<and> denotes s ls) \<longrightarrow> err = None"
        using fits [of "\<lambda>_. True"] r(4) by blast
      ultimately show ?thesis
        using step r(1,2) len by (intro exI [of _ err] exI [of _ rhn'] conjI) simp_all
    qed
  qed
qed

text \<open>
  \<open>parsestr2rhn\<close> reads the characters \<open>s\<close> up to the limit \<open>len\<close> or the end of the string and
  nothing else: it stays inside the buffer of \<open>DNSNAMEBUFSIZE\<close> bytes, it accepts the notation of
  exactly the names \<open>str2rhn\<close> accepts, with or without the final dot, and stores their encoding.
\<close>

theorem parsestr2rhn_correct:
  assumes "sees str len s" "DNSNAMEBUFSIZE \<le> length rhn"
  shows "\<exists>err rhn'. parsestr2rhn str len rhn = Some (err, rhn') \<and> length rhn' = length rhn \<and>
    (err = None) = (\<exists>ls. text_name ls \<and> s \<in> {name_text ls, butlast (name_text ls)} \<and> s \<noteq> [] \<and>
                         rhn' = enc ls @ drop (length (enc ls)) rhn)"
proof -
  have nz: "0 \<notin> set s" using assms(1) by (simp add: sees_def)
  obtain w0 w where w: "rhn = w0 # w" using assms(2) by (cases rhn) auto
  have bl: "butlast (dotted ls) = s \<longleftrightarrow> s @ [46] = dotted ls" if "ls \<noteq> []" for ls
  proof -
    have "\<exists>x. dotted ls = x @ [46]" using that
    proof (induction ls)
      case (Cons l ls)
      then show ?case by (cases "ls = []") auto
    qed simp
    then show ?thesis by auto
  qed
  show ?thesis
  proof (cases "s = [46]")
    case True
    then obtain t where "str = 46 # t" "len = 1 \<or> len > 1 \<and> (\<exists>r. t = 0 # r)"
      using assms(1) by (auto simp: sees_def)
    then have "parsestr2rhn str len rhn = Some (None, 0 # w)"
      using w by (auto simp: parsestr2rhn_def wr_def)
    moreover have "\<exists>ls. text_name ls \<and> s \<in> {name_text ls, butlast (name_text ls)} \<and> s \<noteq> [] \<and>
        0 # w = enc ls @ drop (length (enc ls)) rhn"
      using True w by (intro exI [of _ "[]"]) (simp add: text_name_def name_text_def)
    ultimately show ?thesis using w by (intro exI [of _ None] exI [of _ "0 # w"]) simp
  next
    case False
    have loop: "parsestr2rhn str len rhn = parsestr2rhn_loop str len 0 rhn"
    proof (cases s)
      case Nil
      then show ?thesis using assms(1) by (auto simp: sees_def parsestr2rhn_def)
    next
      case (Cons c s')
      then show ?thesis using assms(1) False nz
        by (cases s') (auto simp: sees_def parsestr2rhn_def)
    qed
    from parsestr2rhn_loop_spec [of str len "[]" s "[]" rhn] assms
    obtain err rhn' where *: "parsestr2rhn_loop str len 0 rhn = Some (err, rhn')"
      "length rhn' = length rhn"
      "err = None \<longrightarrow> (\<exists>ls. fits [] ls \<and> denotes s ls \<and> rhn' = filled [] ls rhn)"
      "(\<exists>ls. fits [] ls \<and> denotes s ls) \<longrightarrow> err = None"
      by auto
    have eq: "text_name ls \<and> s \<in> {name_text ls, butlast (name_text ls)} \<and> s \<noteq> [] \<longleftrightarrow>
        fits [] ls \<and> denotes s ls" for ls
      using False bl [of ls] dotted_not_dot [of ls "[]"]
      by (cases "ls = []") (auto simp: fits_text_name name_text_def denotes_def text_name_def)
    show ?thesis
      using *(1,2) loop *(3,4) eq by (intro exI [of _ err] exI [of _ rhn'] conjI) (simp_all add: filled_def, blast)
  qed
qed

theorem parsestr2rhn_correct_witness:
  "\<exists>rhn'. parsestr2rhn [97, 98] 1 (replicate 256 7) = Some (None, rhn') \<and> rhn' = [1, 97, 0] @ replicate 253 7"
proof -
  have "sees [97, 98] 1 [97]" by (simp add: sees_def)
  with parsestr2rhn_correct [of "[97, 98]" 1 "[97]" "replicate 256 7"] obtain err rhn' where
    *: "parsestr2rhn [97, 98] 1 (replicate 256 7) = Some (err, rhn')"
    and iff: "(err = None) = (\<exists>ls. text_name ls \<and> [97] \<in> {name_text ls, butlast (name_text ls)} \<and>
       [97 :: byte] \<noteq> [] \<and> rhn' = enc ls @ drop (length (enc ls)) (replicate 256 7))"
    by auto
  have "parsestr2rhn [97, 98] 1 (replicate 256 7) = Some (None, [1, 97, 0] @ replicate 253 7)"
    by code_simp
  with * show ?thesis by simp
qed

subsection \<open>What the printer writes\<close>

definition esc_c :: "byte \<Rightarrow> byte list" where
  "esc_c c = (if isgraph_c c then (if special_c c then [92, c] else [c]) else oct_escape c)"

definition esc_name :: "label list \<Rightarrow> byte list" where
  "esc_name ls = (if ls = [] then [46] else concat (map (\<lambda>l. concat (map esc_c l) @ [46]) ls))"

text \<open>Only the first \<open>n\<close> elements of a buffer changed.\<close>

definition kept :: "nat \<Rightarrow> 'a list \<Rightarrow> 'a list \<Rightarrow> bool" where
  "kept n xs ys = (length ys = length xs \<and> drop n ys = drop n xs)"

lemma kept_refl [simp]: "kept n xs xs"
  by (simp add: kept_def)

lemma kept_trans: "kept n xs ys \<Longrightarrow> kept n ys zs \<Longrightarrow> kept n xs zs"
  by (simp add: kept_def)

lemma kept_wr: "i < n \<Longrightarrow> n \<le> length xs \<Longrightarrow> \<exists>ys. wr xs i v = Some ys \<and> kept n xs ys"
  by (simp add: wr_def kept_def)

lemma kept_wrn:
  assumes "i + length vs \<le> n" "n \<le> length xs"
  shows "\<exists>ys. wrn xs i vs = Some ys \<and> kept n xs ys"
proof -
  let ?a = "take i xs @ vs"
  have l: "length ?a = i + length vs" using assms by simp
  have "drop n (?a @ drop (i + length vs) xs) = drop (n - length ?a) (drop (i + length vs) xs)"
    using assms l by simp
  also have "\<dots> = drop n xs" using assms l by simp
  finally show ?thesis using assms by (simp add: wrn_def kept_def)
qed

lemma kept_snprintf:
  "j + rem \<le> n \<Longrightarrow> n \<le> length xs \<Longrightarrow> \<exists>ys. snprintf_wr xs j rem s = Some ys \<and> kept n xs ys"
  using kept_wrn [of j "take (rem - 1) s @ [0]" n xs] by (auto simp: snprintf_wr_def)

lemma rhn2str_lab_kept:
  "i + n \<le> length rhn \<Longrightarrow> sz \<le> length str \<Longrightarrow>
   \<exists>ok i' j' str'. rhn2str_lab rhn sz i j str n = Some (ok, i', j', str') \<and> kept sz str str' \<and>
     (ok \<longrightarrow> i' = i + n \<and> (if n = 0 then j' = j else j' + 2 \<le> sz))"
proof (induction n arbitrary: i j str)
  case 0
  then show ?case by (intro exI [of _ True]) simp
next
  case (Suc n)
  have IH: "\<exists>ok i' j' str'. rhn2str_lab rhn sz (i + 1) k s n = Some (ok, i', j', str') \<and> kept sz str str' \<and>
     (ok \<longrightarrow> i' = i + Suc n \<and> j' + 2 \<le> sz)" if "kept sz str s" "k + 2 \<le> sz" for k s
  proof -
    have "sz \<le> length s" using that Suc.prems by (simp add: kept_def)
    with Suc.IH [of "i + 1" s k] Suc.prems obtain ok i' j' str' where
      "rhn2str_lab rhn sz (i + 1) k s n = Some (ok, i', j', str')" "kept sz s str'"
      "ok \<longrightarrow> i' = i + 1 + n \<and> (if n = 0 then j' = k else j' + 2 \<le> sz)"
      by auto
    with that show ?thesis by (auto intro: kept_trans split: if_splits)
  qed
  obtain c where c: "rd rhn i = Some c" using Suc.prems by (simp add: rd_def)
  show ?case
  proof (cases "j + 2 \<ge> sz")
    case True
    then show ?thesis by (intro exI [of _ False]) simp
  next
    case j: False
    consider (sp) "isgraph_c c" "special_c c" | (pl) "isgraph_c c" "\<not> special_c c" | (oct) "\<not> isgraph_c c"
      by blast
    then show ?thesis
    proof cases
      case sp
      obtain s1 where s1: "wr str j 92 = Some s1" "kept sz str s1"
        using kept_wr [of j sz str] j Suc.prems by auto
      then obtain s2 where s2: "wr s1 (j + 1) c = Some s2" "kept sz s1 s2"
        using kept_wr [of "j + 1" sz s1] j Suc.prems by (auto simp: kept_def)
      show ?thesis
        using IH [of s2 "j + 2"] kept_trans [OF s1(2) s2(2)] j c sp s1 s2
        by (cases "sz \<le> j + 3") (auto intro: exI [of _ False])
    next
      case pl
      obtain s1 where s1: "wr str j c = Some s1" "kept sz str s1"
        using kept_wr [of j sz str] j Suc.prems by auto
      then show ?thesis using IH [of s1 "j + 1"] j c pl by simp
    next
      case oct
      obtain s1 where s1: "snprintf_wr str j (sz - 1 - j) (oct_escape c) = Some s1" "kept sz str s1"
        using kept_snprintf [of j "sz - 1 - j" sz str] j Suc.prems by auto
      then obtain s2 where s2: "wr s1 j 46 = Some s2" "kept sz s1 s2"
        using kept_wr [of j sz s1] j Suc.prems by (auto simp: kept_def)
      show ?thesis
        using IH [of s1 "j + 4"] kept_trans [OF s1(2) s2(2)] j c oct s1 s2
        by (cases "sz - Suc j \<le> 4") (auto simp: Let_def intro: exI [of _ False])
    qed
  qed
qed

lemma rhn2str_loop_kept:
  "list_all name_label (l # ls) \<Longrightarrow> sz \<le> length str \<Longrightarrow>
   \<exists>ok j' str'. rhn2str_loop (pre @ l @ enc ls @ r) sz (length pre) j str (word_of_nat (length l)) =
       Some (ok, j', str') \<and> kept sz str str' \<and> (ok \<longrightarrow> j' < sz)"
proof (induction ls arbitrary: l pre j str)
  case Nil
  then have l: "l \<noteq> []" by (simp add: name_label_def)
  obtain ok i' j' s1 where lab:
    "rhn2str_lab (pre @ l @ 0 # r) sz (length pre) j str (length l) = Some (ok, i', j', s1)" "kept sz str s1"
    "ok \<longrightarrow> i' = length pre + length l \<and> j' + 2 \<le> sz"
    using rhn2str_lab_kept [of "length pre" "length l" "pre @ l @ 0 # r" sz str j] l Nil.prems by auto
  have rd0: "rd (pre @ l @ 0 # r) (length pre + length l) = Some 0"
    using rd_append_len [of "length pre + length l" "pre @ l" 0 r] by simp
  show ?case
  proof (cases ok)
    case False
    then show ?thesis using lab Nil.prems
      by (auto simp: rhn2str_loop.simps [of _ _ "length pre"] intro: exI [of _ False])
  next
    case True
    obtain s2 where "wr s1 j' 46 = Some s2" "kept sz s1 s2"
      using kept_wr [of j' sz s1 46] lab True Nil.prems by (auto simp: kept_def)
    then show ?thesis
      using lab True Nil.prems rd0
      by (auto simp: rhn2str_loop.simps [of _ _ "length pre"] intro: kept_trans)
  qed
next
  case (Cons k ks)
  let ?rhn = "pre @ l @ enc (k # ks) @ r"
  have l: "l \<noteq> []" using Cons.prems by (simp add: name_label_def)
  obtain ok i' j' s1 where lab:
    "rhn2str_lab ?rhn sz (length pre) j str (length l) = Some (ok, i', j', s1)" "kept sz str s1"
    "ok \<longrightarrow> i' = length pre + length l \<and> j' + 2 \<le> sz"
    using rhn2str_lab_kept [of "length pre" "length l" ?rhn sz str j] l Cons.prems by auto
  show ?case
  proof (cases ok)
    case False
    then show ?thesis using lab Cons.prems
      by (auto simp: rhn2str_loop.simps [of _ _ "length pre"] intro: exI [of _ False])
  next
    case True
    have rd: "rd ?rhn (length pre + length l) = Some (word_of_nat (length k))"
      using rd_append_len [of "length pre + length l" "pre @ l" "word_of_nat (length k)" "k @ enc ks @ r"] by simp
    obtain s2 where s2: "wr s1 j' 46 = Some s2" "kept sz s1 s2"
      using kept_wr [of j' sz s1 46] lab True Cons.prems by (auto simp: kept_def)
    have "sz \<le> length s2" using s2 lab Cons.prems by (simp add: kept_def)
    with Cons.IH [of k s2 "pre @ l @ [word_of_nat (length k)]" "j' + 1"] Cons.prems
    obtain ok j2 s3 where "rhn2str_loop ?rhn sz (length pre + length l + 1) (j' + 1) s2 (word_of_nat (length k)) =
       Some (ok, j2, s3)" "kept sz s2 s3" "ok \<longrightarrow> j2 < sz"
      by auto
    then show ?thesis
      using lab True rd s2 Cons.prems
      by (auto simp: rhn2str_loop.simps [of _ _ "length pre"] intro: kept_trans)
  qed
qed

lemma rhn2str_overflow_kept:
  assumes "0 < sz" "sz \<le> length str"
  shows "\<exists>str'. rhn2str_overflow sz str = Some str' \<and> kept sz str str' \<and> str' ! (sz - 1) = 0"
  using assms by (auto simp: rhn2str_overflow_def wr_def kept_def nth_list_update)

lemma zero_in_take: "k < n \<Longrightarrow> n \<le> length xs \<Longrightarrow> xs ! k = 0 \<Longrightarrow> 0 \<in> set (take n xs)"
  by (metis in_set_conv_nth length_take min.absorb2 nth_take)

text \<open>
  C40. \<open>rhn2str\<close> prints any name, printable or not, into a buffer of any positive size: it reads
  only the name, writes only the first \<open>sz\<close> bytes, and leaves a terminated string in them.
\<close>

theorem rhn2str_safe:
  assumes "list_all name_label ls" "0 < sz" "sz \<le> length str"
  shows "\<exists>str'. rhn2str (enc ls @ r) str sz = Some (True, str') \<and> kept sz str str' \<and> 0 \<in> set (take sz str')"
proof (cases ls)
  case Nil
  show ?thesis
  proof (cases "sz \<ge> 2")
    case True
    then show ?thesis using assms Nil
      by (auto simp: rhn2str_def wr_def kept_def intro!: zero_in_take [of 1])
  next
    case False
    then show ?thesis using assms Nil
      by (auto simp: rhn2str_def wr_def kept_def intro!: zero_in_take [of 0])
  qed
next
  case (Cons l ls')
  have lab: "list_all name_label (l # ls')" and nz: "(word_of_nat (length l) :: byte) \<noteq> 0"
    using assms(1) Cons by simp_all
  obtain ok j s1 where *: "rhn2str_loop (enc ls @ r) sz 1 0 str (word_of_nat (length l)) = Some (ok, j, s1)"
    "kept sz str s1" "ok \<longrightarrow> j < sz"
    using rhn2str_loop_kept [OF lab assms(3), of "[word_of_nat (length l)]" r 0] Cons by auto
  have len: "sz \<le> length s1" using *(2) assms(3) by (simp add: kept_def)
  show ?thesis
  proof (cases ok)
    case True
    then obtain s2 where "wr s1 j 0 = Some s2" "kept sz s1 s2" "s2 ! j = 0" "sz \<le> length s2"
      using * len kept_wr [of j sz s1 0] by (auto simp: wr_Some_iff kept_def)
    then show ?thesis
      using * True Cons nz by (auto simp: rhn2str_def intro: kept_trans zero_in_take [of j])
  next
    case False
    obtain s2 where "rhn2str_overflow sz s1 = Some s2" "kept sz s1 s2" "s2 ! (sz - 1) = 0"
      using rhn2str_overflow_kept [OF assms(2) len] by blast
    moreover from this have "sz \<le> length s2" using len by (simp add: kept_def)
    ultimately show ?thesis
      using * False Cons nz assms(2) by (auto simp: rhn2str_def intro: kept_trans zero_in_take [of "sz - 1"])
  qed
qed

theorem rhn2str_safe_witness:
  "\<exists>str'. rhn2str [2, 97, 200, 0] (replicate 8 7) 6 = Some (True, str') \<and> drop 6 str' = [7, 7]"
  using rhn2str_safe [of "[[97, 200]]" 6 "replicate 8 7" "[]"]
  by (auto simp: name_label_def kept_def eval_nat_numeral)

lemma wrn_append: "i = length o1 \<Longrightarrow> length vs \<le> length u \<Longrightarrow>
    wrn (o1 @ u) i vs = Some (o1 @ vs @ drop (length vs) u)"
  by (simp add: wrn_def)

lemma oct_escape_len [simp]: "length (oct_escape c) = 4"
  by (simp add: oct_escape_def)

lemma rhn2str_lab_exact:
  "length o1 + length (concat (map esc_c l)) + 2 \<le> sz \<Longrightarrow> sz \<le> length (o1 @ u) \<Longrightarrow>
   \<exists>u'. rhn2str_lab (p @ l @ r) sz (length p) (length o1) (o1 @ u) (length l) =
     Some (True, length p + length l, length o1 + length (concat (map esc_c l)),
           o1 @ concat (map esc_c l) @ u') \<and>
     length u' + length (concat (map esc_c l)) = length u"
proof (induction l arbitrary: p o1 u)
  case Nil
  then show ?case by simp
next
  case (Cons c l)
  have j: "\<not> length o1 + 2 \<ge> sz" using Cons.prems
    by (auto simp: esc_c_def split: if_splits)
  have c: "rd (p @ (c # l) @ r) (length p) = Some c" by simp
  have IH: "\<exists>u'. rhn2str_lab ((p @ [c]) @ l @ r) sz (length (p @ [c])) (length (o1 @ esc_c c))
        ((o1 @ esc_c c) @ v) (length l) =
      Some (True, length (p @ [c]) + length l, length (o1 @ esc_c c) + length (concat (map esc_c l)),
            (o1 @ esc_c c) @ concat (map esc_c l) @ u') \<and>
      length u' + length (concat (map esc_c l)) = length v"
    if "length v + length (esc_c c) = length u" for v
    by (rule Cons.IH) (use that Cons.prems in simp_all)
  consider (sp) "isgraph_c c" "special_c c" | (pl) "isgraph_c c" "\<not> special_c c" | (oct) "\<not> isgraph_c c"
    by blast
  then show ?case
  proof cases
    case sp
    then have e: "esc_c c = [92, c]" by (simp add: esc_c_def)
    obtain u0 u1 v where u: "u = u0 # u1 # v" using Cons.prems e by (cases u; cases "tl u") auto
    have "wr (o1 @ u0 # u1 # v) (length o1) 92 = Some (o1 @ 92 # u1 # v)" by simp
    moreover have "wr (o1 @ 92 # u1 # v) (length o1 + 1) c = Some (o1 @ 92 # c # v)"
      using wr_append_len [of "length o1 + 1" "o1 @ [92]" u1 v c] by simp
    ultimately show ?thesis
      using j c sp e IH [of v] Cons.prems(1) u by simp
  next
    case pl
    then have e: "esc_c c = [c]" by (simp add: esc_c_def)
    obtain u0 v where u: "u = u0 # v" using Cons.prems e by (cases u) auto
    then show ?thesis using j c pl e IH [of v] by simp
  next
    case oct
    then have e: "esc_c c = oct_escape c" by (simp add: esc_c_def)
    have n: "snprintf_wr (o1 @ u) (length o1) (sz - 1 - length o1) (oct_escape c) =
        Some (o1 @ (oct_escape c @ [0]) @ drop 5 u)" "\<not> sz - Suc (length o1) \<le> 4" "5 \<le> length u"
      using Cons.prems e by (simp_all add: snprintf_wr_def wrn_append)
    then have "length (0 # drop 5 u) + length (esc_c c) = length u" using e by simp
    from IH [OF this] e obtain u' where
      "rhn2str_lab (p @ c # l @ r) sz (Suc (length p)) (length o1 + 4) (o1 @ oct_escape c @ 0 # drop 5 u)
         (length l) =
       Some (True, Suc (length p + length l), length o1 + (4 + length (concat (map esc_c l))),
             o1 @ oct_escape c @ concat (map esc_c l) @ u')"
      "length u' + (4 + length (concat (map esc_c l))) = length u"
      using n(3) by (auto simp: add.assoc)
    then show ?thesis using j c oct e n by (auto simp: Let_def)
  qed
qed

lemma rhn2str_loop_exact:
  "list_all name_label (l # ls) \<Longrightarrow> length o1 + length (esc_name (l # ls)) + 1 \<le> sz \<Longrightarrow> sz \<le> length (o1 @ u) \<Longrightarrow>
   \<exists>u'. rhn2str_loop (pre @ l @ enc ls @ r) sz (length pre) (length o1) (o1 @ u) (word_of_nat (length l)) =
       Some (True, length o1 + length (esc_name (l # ls)), o1 @ esc_name (l # ls) @ u') \<and>
     length u' + length (esc_name (l # ls)) = length u"
proof (induction ls arbitrary: l pre o1 u)
  case Nil
  let ?e = "concat (map esc_c l)"
  obtain u1 where u1: "rhn2str_lab (pre @ l @ 0 # r) sz (length pre) (length o1) (o1 @ u) (length l) =
      Some (True, length pre + length l, length o1 + length ?e, o1 @ ?e @ u1)" "length u1 + length ?e = length u"
    using rhn2str_lab_exact [of o1 l sz u pre "0 # r"] Nil.prems by (auto simp: esc_name_def)
  then obtain x v where v: "u1 = x # v" using Nil.prems by (cases u1) (auto simp: esc_name_def)
  have "rd (pre @ l @ 0 # r) (length pre + length l) = Some 0"
    using rd_append_len [of "length pre + length l" "pre @ l" 0 r] by simp
  moreover have "wr (o1 @ ?e @ x # v) (length o1 + length ?e) 46 = Some (o1 @ ?e @ 46 # v)"
    using wr_append_len [of "length o1 + length ?e" "o1 @ ?e" x v 46] by simp
  ultimately show ?case
    using u1 v Nil.prems by (simp add: rhn2str_loop.simps [of _ _ "length pre"] esc_name_def)
next
  case (Cons k ks)
  let ?e = "concat (map esc_c l)" and ?rhn = "pre @ l @ enc (k # ks) @ r"
  have esc: "esc_name (l # k # ks) = ?e @ 46 # esc_name (k # ks)" by (simp add: esc_name_def)
  obtain u1 where u1: "rhn2str_lab ?rhn sz (length pre) (length o1) (o1 @ u) (length l) =
      Some (True, length pre + length l, length o1 + length ?e, o1 @ ?e @ u1)" "length u1 + length ?e = length u"
    using rhn2str_lab_exact [of o1 l sz u pre "enc (k # ks) @ r"] Cons.prems esc by auto
  then obtain x v where v: "u1 = x # v" using Cons.prems esc by (cases u1) auto
  have rd: "rd ?rhn (length pre + length l) = Some (word_of_nat (length k))"
    using rd_append_len [of "length pre + length l" "pre @ l" "word_of_nat (length k)" "k @ enc ks @ r"] by simp
  have wr: "wr (o1 @ ?e @ x # v) (length o1 + length ?e) 46 = Some (o1 @ ?e @ 46 # v)"
    using wr_append_len [of "length o1 + length ?e" "o1 @ ?e" x v 46] by simp
  have "list_all name_label (k # ks)"
    "length (o1 @ ?e @ [46]) + length (esc_name (k # ks)) + 1 \<le> sz" "sz \<le> length ((o1 @ ?e @ [46]) @ v)"
    using Cons.prems esc u1(2) v by simp_all
  from Cons.IH [OF this, of "pre @ l @ [word_of_nat (length k)]"] obtain u' where
    "rhn2str_loop ?rhn sz (length pre + length l + 1) (length o1 + length ?e + 1) (o1 @ ?e @ 46 # v)
       (word_of_nat (length k)) =
     Some (True, length o1 + length ?e + 1 + length (esc_name (k # ks)), o1 @ ?e @ 46 # esc_name (k # ks) @ u')"
    "length u' + length (esc_name (k # ks)) = length v"
    by auto
  then show ?case
    using u1 v rd wr Cons.prems esc by (simp add: rhn2str_loop.simps [of _ _ "length pre"])
qed

text \<open>
  Where the escaped notation of a name and its terminating zero fit into the \<open>sz\<close> bytes, \<open>rhn2str\<close>
  writes exactly that: printable characters as they are, dots, backslashes and quotes of a label
  behind a backslash, every other byte as a backslash and three octal digits.
\<close>

theorem rhn2str_exact:
  assumes "list_all name_label ls" "length (esc_name ls) < sz" "sz \<le> length str"
  shows "\<exists>r'. rhn2str (enc ls @ r) str sz = Some (True, esc_name ls @ 0 # r')"
proof (cases ls)
  case Nil
  then obtain a b v where "str = a # b # v"
    using assms by (cases str; cases "tl str") (auto simp: esc_name_def)
  then show ?thesis using Nil assms(2) by (auto simp: rhn2str_def wr_def esc_name_def)
next
  case (Cons l ls')
  have lab: "list_all name_label (l # ls')" and nz: "(word_of_nat (length l) :: byte) \<noteq> 0"
    using assms(1) Cons by simp_all
  have "length ([] :: byte list) + length (esc_name (l # ls')) + 1 \<le> sz" "sz \<le> length ([] @ str)"
    using assms Cons by simp_all
  from rhn2str_loop_exact [OF lab this, of "[word_of_nat (length l)]" r] obtain u' where
    *: "rhn2str_loop (enc ls @ r) sz 1 0 str (word_of_nat (length l)) =
       Some (True, length (esc_name ls), esc_name ls @ u')" "length u' + length (esc_name ls) = length str"
    using Cons by auto
  then obtain x v where "u' = x # v" using assms by (cases u') auto
  then show ?thesis using * Cons nz assms(2) by (simp add: rhn2str_def)
qed

theorem rhn2str_exact_witness:
  "\<exists>r'. rhn2str [2, 97, 200, 0] (replicate 8 7) 8 = Some (True, [97, 92, 51, 49, 48, 46] @ 0 # r')"
  using rhn2str_exact [of "[[97, 200]]" 8 "replicate 8 7" "[]"]
  by (simp add: name_label_def esc_name_def esc_c_def oct_escape_def isgraph_c_def special_c_def)

text \<open>The names that \<open>rhn2str\<close> prints without an escape.\<close>

definition plain_label :: "label \<Rightarrow> bool" where
  "plain_label l = (wire_label l \<and> list_all (\<lambda>c. isgraph_c c \<and> \<not> special_c c) l)"

lemma plain_text_label: "plain_label l \<Longrightarrow> text_label l"
  by (auto simp: plain_label_def text_label_def list_all_iff isgraph_c_def special_c_def)

lemma plain_esc: "list_all (\<lambda>c. isgraph_c c \<and> \<not> special_c c) l \<Longrightarrow> concat (map esc_c l) = l"
  by (induction l) (auto simp: esc_c_def)

lemma plain_esc_name: "list_all plain_label ls \<Longrightarrow> esc_name ls = name_text ls"
proof -
  have "list_all plain_label ls \<Longrightarrow> concat (map (\<lambda>l. concat (map esc_c l) @ [46]) ls) = dotted ls"
    by (induction ls) (auto simp: plain_esc plain_label_def)
  then show "list_all plain_label ls \<Longrightarrow> esc_name ls = name_text ls"
    by (auto simp: esc_name_def name_text_def)
qed

lemma dotted_length: "length (dotted ls) + 1 = length (enc ls)"
  by (induction ls) auto

text \<open>
  Printing and reading back: a name whose labels are printable and free of dots, backslashes
  and quotes, printed by \<open>rhn2str\<close> into \<open>DNSNAMEBUFSIZE\<close> bytes, is read back by \<open>str2rhn\<close> as the
  same encoding.
\<close>

theorem rhn2str_str2rhn_roundtrip:
  assumes "list_all plain_label ls" "length (enc ls) \<le> DNSNAMEBUFSIZE"
    "DNSNAMEBUFSIZE \<le> length str" "DNSNAMEBUFSIZE \<le> length rhn"
  shows "\<exists>str'. rhn2str (enc ls @ r) str DNSNAMEBUFSIZE = Some (True, str') \<and>
    str2rhn str' rhn = Some (True, enc ls @ drop (length (enc ls)) rhn)"
proof -
  have tl: "list_all text_label ls" using assms(1) plain_text_label by (auto simp: list_all_iff)
  have tn: "text_name ls" using tl assms(2) by (simp add: text_name_def)
  have nl: "list_all name_label ls"
    by (rule wire_name_labels) (rule text_name_wire [OF tn])
  have "length (name_text ls) < DNSNAMEBUFSIZE"
    using dotted_length [of ls] assms(2) by (auto simp: name_text_def)
  then obtain r' where pr: "rhn2str (enc ls @ r) str DNSNAMEBUFSIZE = Some (True, name_text ls @ 0 # r')"
    using rhn2str_exact [OF nl _ assms(3), of r] plain_esc_name [OF assms(1)] by auto
  have "0 \<notin> set (dotted ls)" using tl by (induction ls) (auto simp: text_label_def)
  then have "0 \<notin> set (name_text ls)" by (auto simp: name_text_def)
  from str2rhn_correct [OF this assms(4), of r'] obtain ok rhn' where
    s: "str2rhn (name_text ls @ 0 # r') rhn = Some (ok, rhn')"
    and ok: "ok = (\<exists>ks. text_name ks \<and> name_text ls = name_text ks)"
    and res: "\<forall>ks. text_name ks \<longrightarrow> name_text ls = name_text ks \<longrightarrow>
                rhn' = enc ks @ drop (length (enc ks)) rhn"
    by (elim exE conjE) (rule that)
  have ok1: "ok" unfolding ok by (intro exI [of _ ls] conjI tn refl)
  have "rhn' = enc ls @ drop (length (enc ls)) rhn" by (rule res [rule_format, OF tn refl])
  with s ok1 pr show ?thesis by (intro exI [of _ "name_text ls @ 0 # r'"] conjI) simp_all
qed

theorem rhn2str_str2rhn_roundtrip_witness:
  "\<exists>str'. rhn2str [1, 97, 0] (replicate 256 7) 256 = Some (True, str') \<and>
     str2rhn str' (replicate 256 9) = Some (True, [1, 97, 0] @ drop 3 (replicate 256 9))"
proof -
  have "list_all plain_label [[97]]"
    by (simp add: plain_label_def wire_label_def isgraph_c_def special_c_def)
  from rhn2str_str2rhn_roundtrip [OF this _ _ _, of "replicate 256 7" "replicate 256 9" "[]"]
  show ?thesis by (simp only: length_replicate enc.simps append_Nil append_Cons append_Nil2 list.size) simp
qed

subsection \<open>Escaping arbitrary data\<close>

text \<open>The loop of \<open>escapestr\<close>; the C function takes a signed size, the model a natural one. The
  result is the length written, or \<open>None\<close> for the return value -1.\<close>

fun escapestr_loop :: "byte list \<Rightarrow> nat \<Rightarrow> nat \<Rightarrow> byte list \<Rightarrow> (nat option \<times> byte list) option" where
  "escapestr_loop [] sz j str = do { str' \<leftarrow> wr str j 0; Some (Some j, str') }"
| "escapestr_loop (c # cs) sz j str =
     (if j + 1 \<ge> sz then Some (None, str)
      else if \<not> isprint_c c then do {
        let rem = sz - j;
        str1 \<leftarrow> snprintf_wr str j rem (oct_escape c);
        if 4 \<ge> rem then Some (None, str1) else escapestr_loop cs sz (j + 4) str1
      }
      else if c = 92 \<or> c = 34 then do {
        str1 \<leftarrow> wr str j 92;
        if j + 2 \<ge> sz then Some (None, str1)
        else do { str2 \<leftarrow> wr str1 (j + 1) c; escapestr_loop cs sz (j + 2) str2 }
      }
      else do { str1 \<leftarrow> wr str j c; escapestr_loop cs sz (j + 1) str1 })"

definition escapestr :: "byte list \<Rightarrow> nat \<Rightarrow> byte list \<Rightarrow> nat \<Rightarrow> (nat option \<times> byte list) option" where
  "escapestr inp ilen str sz =
     do {
       cs \<leftarrow> rdn inp 0 ilen;
       escapestr_loop cs sz 0 str
     }"

definition esc_print :: "byte \<Rightarrow> byte list" where
  "esc_print c = (if \<not> isprint_c c then oct_escape c else if c = 92 \<or> c = 34 then [92, c] else [c])"

lemma escapestr_loop_spec:
  "length o1 < sz \<Longrightarrow> sz \<le> length (o1 @ u) \<Longrightarrow>
   \<exists>u'. length u' = length u \<and> escapestr_loop cs sz (length o1) (o1 @ u) =
     (let e = concat (map esc_print cs) in
      if length o1 + length e < sz
      then Some (Some (length o1 + length e), o1 @ e @ 0 # drop (length e + 1) u')
      else Some (None, o1 @ u'))"
proof (induction cs arbitrary: o1 u)
  case Nil
  then obtain x v where "u = x # v" by (cases u) auto
  then show ?case using Nil by (intro exI [of _ u]) (simp add: Let_def)
next
  case (Cons c cs)
  let ?E = "concat (map esc_print cs)"
  have IH: "\<exists>u'. length u' = length u \<and> escapestr_loop cs sz (length o1 + length (esc_print c)) (o1 @ esc_print c @ v) =
      (let e = concat (map esc_print (c # cs)) in
       if length o1 + length e < sz
       then Some (Some (length o1 + length e), o1 @ e @ 0 # drop (length e + 1) u')
       else Some (None, o1 @ u'))"
    if "length v + length (esc_print c) = length u" "length o1 + length (esc_print c) < sz" for v
  proof -
    from Cons.IH [of "o1 @ esc_print c" v] that Cons.prems obtain v' where
      "length v' = length v" "escapestr_loop cs sz (length o1 + length (esc_print c)) (o1 @ esc_print c @ v) =
      (if length o1 + (length (esc_print c) + length ?E) < sz
       then Some (Some (length o1 + (length (esc_print c) + length ?E)),
                  o1 @ esc_print c @ ?E @ 0 # drop (length ?E + 1) v')
       else Some (None, o1 @ esc_print c @ v'))"
      by (auto simp: Let_def add.assoc)
    then show ?thesis using that by (intro exI [of _ "esc_print c @ v'"]) (auto simp: add.assoc Let_def)
  qed
  have stop: "\<exists>u'. length u' = length u \<and> X = (let e = concat (map esc_print (c # cs)) in
      if length o1 + length e < sz
      then Some (Some (length o1 + length e), o1 @ e @ 0 # drop (length e + 1) u')
      else Some (None, o1 @ u'))"
    if "X = Some (None, o1 @ v)" "length v = length u" "sz \<le> length o1 + length (esc_print c)" for X v
    using that by (intro exI [of _ v]) (simp add: Let_def)
  obtain u0 v where u: "u = u0 # v" using Cons.prems by (cases u) auto
  consider (oct) "\<not> isprint_c c" | (sp) "isprint_c c" "c = 92 \<or> c = 34" | (pl) "isprint_c c" "\<not> (c = 92 \<or> c = 34)"
    by blast
  then show ?case
  proof cases
    case oct
    then have e: "esc_print c = oct_escape c" by (simp add: esc_print_def)
    show ?thesis
    proof (cases "length o1 + 4 < sz")
      case True
      then have "snprintf_wr (o1 @ u) (length o1) (sz - length o1) (oct_escape c) =
          Some (o1 @ oct_escape c @ 0 # drop 5 u)" "\<not> 4 \<ge> sz - length o1" "\<not> length o1 + 1 \<ge> sz"
        using Cons.prems by (simp_all add: snprintf_wr_def wrn_append)
      then have eq: "escapestr_loop (c # cs) sz (length o1) (o1 @ u) =
          escapestr_loop cs sz (length o1 + length (esc_print c)) (o1 @ esc_print c @ 0 # drop 5 u)"
        using oct e by (simp add: Let_def)
      have "length (0 # drop 5 u) + length (esc_print c) = length u"
        using True Cons.prems e by simp
      then show ?thesis unfolding eq by (rule IH) (use True e in simp)
    next
      case False
      show ?thesis
      proof (cases "length o1 + 1 \<ge> sz")
        case True
        then show ?thesis using e by (intro stop [of _ u]) simp_all
      next
        case F: False
        let ?t = "take (sz - length o1 - 1) (oct_escape c) @ [0]"
        have t: "length ?t \<le> length u" using Cons.prems False by simp
        have "snprintf_wr (o1 @ u) (length o1) (sz - length o1) (oct_escape c) =
            Some (o1 @ (?t @ drop (length ?t) u))"
          using wrn_append [OF refl t, of o1] F by (simp add: snprintf_wr_def)
        moreover have "length (?t @ drop (length ?t) u) = length u" using t by simp
        moreover have "sz - length o1 \<le> 4" using False by simp
        ultimately show ?thesis using False F oct e
          by (intro stop [of _ "?t @ drop (length ?t) u"]) (simp_all add: Let_def)
      qed
    qed
  next
    case sp
    then have e: "esc_print c = [92, c]" by (simp add: esc_print_def)
    have w1: "wr (o1 @ u) (length o1) 92 = Some (o1 @ 92 # v)" using u by simp
    show ?thesis
    proof (cases "length o1 + 2 < sz")
      case True
      then obtain v0 v' where v: "v = v0 # v'" using Cons.prems u by (cases v) auto
      have "wr (o1 @ 92 # v0 # v') (length o1 + 1) c = Some (o1 @ 92 # c # v')"
        using wr_append_len [of "length o1 + 1" "o1 @ [92]" v0 v' c] by simp
      then have eq: "escapestr_loop (c # cs) sz (length o1) (o1 @ u) =
          escapestr_loop cs sz (length o1 + length (esc_print c)) (o1 @ esc_print c @ v')"
        using sp w1 True v e by auto
      show ?thesis unfolding eq by (rule IH) (use True e u v in simp_all)
    next
      case False
      show ?thesis
      proof (cases "length o1 + 1 \<ge> sz")
        case True
        then show ?thesis using e by (intro stop [of _ u]) simp_all
      next
        case F: False
        then show ?thesis using False sp w1 e u by (intro stop [of _ "92 # v"]) auto
      qed
    qed
  next
    case pl
    then have e: "esc_print c = [c]" by (simp add: esc_print_def)
    show ?thesis
    proof (cases "length o1 + 1 < sz")
      case True
      then have eq: "escapestr_loop (c # cs) sz (length o1) (o1 @ u) =
          escapestr_loop cs sz (length o1 + length (esc_print c)) (o1 @ esc_print c @ v)"
        using pl u e by simp
      show ?thesis unfolding eq by (rule IH) (use True e u in simp_all)
    next
      case False
      then show ?thesis using e by (intro stop [of _ u]) simp_all
    qed
  qed
qed

text \<open>
  \<open>escapestr\<close> stores the escaped form of the \<open>ilen\<close> bytes and returns its length when it fits
  with its terminating zero into the \<open>sz\<close> bytes of the buffer, and returns -1 otherwise; it never
  touches a byte beyond them.
\<close>

theorem escapestr_correct:
  assumes "ilen \<le> length inp" "0 < sz" "sz \<le> length str"
  defines "e \<equiv> concat (map esc_print (take ilen inp))"
  shows "\<exists>u. length u = length str \<and> escapestr inp ilen str sz =
    (if length e < sz then Some (Some (length e), e @ 0 # drop (length e + 1) u) else Some (None, u))"
  using escapestr_loop_spec [of "[]" sz str "take ilen inp"] assms
  by (auto simp: escapestr_def rdn_def Let_def)

theorem escapestr_correct_witness:
  "\<exists>u. length u = 5 \<and> escapestr [97, 34, 98] 2 (replicate 5 7) 4 = Some (Some 3, [97, 92, 34] @ 0 # drop 4 u)"
proof -
  have e: "concat (map esc_print (take 2 [97, 34, 98])) = [97, 92, 34]"
    by (simp add: esc_print_def isprint_c_def)
  have "length [97, 34, 98 :: byte] = 3" "length [97, 92, 34 :: byte] = 3" by simp_all
  with escapestr_correct [of 2 "[97, 34, 98]" 4 "replicate 5 7", unfolded e] show ?thesis
    by (simp add: eval_nat_numeral)
qed

end
