(* ===== verification/Pd_Dns.thy ===== *)
theory Pd_Dns
  imports Pd_Text Pd_Types
begin

text \<open>
  Names inside a DNS message (\<open>dns.c\<close>): \<open>decompress_name\<close> expands a possibly compressed name,
  \<open>domain_match\<close> finds the longest common suffix of two names, \<open>compress_name\<close> replaces a suffix
  that already occurs in the message by a pointer. A message is the list of its bytes, a pointer
  into it an index. The list \<open>*cb\<close> of the names stored so far is a list of pairs of the field
  \<open>index\<close> and the name \<open>s\<close>, the empty list standing for the null pointer.
\<close>

abbreviation (input) RC_OK :: int where "RC_OK \<equiv> 0"
abbreviation (input) RC_FORMAT :: int where "RC_FORMAT \<equiv> 1"
abbreviation (input) RC_SERVFAIL :: int where "RC_SERVFAIL \<equiv> 2"
abbreviation (input) RC_TRUNC :: int where "RC_TRUNC \<equiv> 0xfffe"

subsection \<open>\<open>decompress_name\<close>\<close>

text \<open>Where the loops of the function end: at one of its error labels, at the end of the name
  with the new \<open>newsz\<close>, \<open>tpos\<close> and buffer, or (first loop only) at \<open>goto jumped\<close>.\<close>

datatype dn_res =
    DnErr int "byte list"
  | DnDone nat nat "byte list"
  | DnJump nat nat nat "byte list"

text \<open>\<open>((lb&0x3f)<<8)|(*lptr)\<close>\<close>

definition ptr_offs :: "byte \<Rightarrow> byte \<Rightarrow> nat" where
  "ptr_offs lb b = unat (lb AND 0x3f) * 256 + unat b"

function dn_direct :: "byte list \<Rightarrow> nat \<Rightarrow> nat \<Rightarrow> nat \<Rightarrow> byte list \<Rightarrow> dn_res option" where
  "dn_direct msg lptr newsz tpos tgt =
     do {
       lb \<leftarrow> rd msg lptr;
       let lptr = lptr + 1;
       let newsz = newsz - 1;
       if lb > 0x3f then
         (if lb < 0xc0 then Some (DnErr RC_FORMAT tgt)
          else if newsz = 0 then Some (DnErr RC_TRUNC tgt)
          else if lptr \<ge> length msg then Some (DnErr RC_FORMAT tgt)
          else do {
            b \<leftarrow> rd msg lptr;
            if ptr_offs lb b \<ge> length msg then Some (DnErr RC_FORMAT tgt)
            else Some (DnJump (ptr_offs lb b) (newsz - 1) tpos tgt)
          })
       else do {
         tgt1 \<leftarrow> wr tgt tpos lb;
         let tpos = tpos + 1;
         if lb = 0 then Some (DnDone newsz tpos tgt1)
         else if newsz \<le> unat lb then Some (DnErr RC_TRUNC tgt1)
         else if lptr + unat lb \<ge> length msg then Some (DnErr RC_FORMAT tgt1)
         else if tpos + unat lb > DNSNAMEBUFSIZE - 1 then Some (DnErr RC_FORMAT tgt1)
         else do {
           bs \<leftarrow> rdn msg lptr (unat lb);
           tgt2 \<leftarrow> wrn tgt1 tpos bs;
           dn_direct msg (lptr + unat lb) (newsz - unat lb) (tpos + unat lb) tgt2
         }
       }
     }"
  by pat_completeness auto
termination
  by (relation "measure (\<lambda>(msg, lptr, newsz, tpos, tgt). length msg - lptr)") (auto simp: rd_Some_iff)

text \<open>The inner \<open>while(lb>0x3f)\<close> after a jump: follows pointers until a label; \<open>Inl\<close> is an error.\<close>

function dn_ptrs :: "byte list \<Rightarrow> nat \<Rightarrow> nat \<Rightarrow> byte \<Rightarrow> (int + nat \<times> nat \<times> byte) option" where
  "dn_ptrs msg hops lptr lb =
     (if lb > 0x3f then
        (if lb < 0xc0 then Some (Inl RC_FORMAT)
         else if lptr \<ge> length msg then Some (Inl RC_FORMAT)
         else if hops + 1 > 255 then Some (Inl RC_FORMAT)
         else do {
           b \<leftarrow> rd msg lptr;
           if ptr_offs lb b \<ge> length msg then Some (Inl RC_FORMAT)
           else do { lb' \<leftarrow> rd msg (ptr_offs lb b); dn_ptrs msg (hops + 1) (ptr_offs lb b + 1) lb' }
         })
      else Some (Inr (hops, lptr, lb)))"
  by pat_completeness auto
termination
  by (relation "measure (\<lambda>(msg, hops, lptr, lb). 256 - hops)") auto

function dn_jumped :: "byte list \<Rightarrow> nat \<Rightarrow> nat \<Rightarrow> nat \<Rightarrow> nat \<Rightarrow> byte list \<Rightarrow> dn_res option" where
  "dn_jumped msg newsz hops lptr tpos tgt =
     do {
       lb0 \<leftarrow> rd msg lptr;
       r \<leftarrow> dn_ptrs msg hops (lptr + 1) lb0;
       case r of
         Inl rc \<Rightarrow> Some (DnErr rc tgt)
       | Inr (hops, lptr, lb) \<Rightarrow> do {
           tgt1 \<leftarrow> wr tgt tpos lb;
           let tpos = tpos + 1;
           if lb = 0 then Some (DnDone newsz tpos tgt1)
           else if lptr + unat lb \<ge> length msg then Some (DnErr RC_FORMAT tgt1)
           else if tpos + unat lb > DNSNAMEBUFSIZE - 1 then Some (DnErr RC_FORMAT tgt1)
           else do {
             bs \<leftarrow> rdn msg lptr (unat lb);
             tgt2 \<leftarrow> wrn tgt1 tpos bs;
             dn_jumped msg newsz hops (lptr + unat lb) (tpos + unat lb) tgt2
           }
         }
     }"
  by pat_completeness auto
termination
  by (relation "measure (\<lambda>(msg, newsz, hops, lptr, tpos, tgt). 256 - tpos)") auto

declare dn_direct.simps [simp del] dn_ptrs.simps [simp del] dn_jumped.simps [simp del]

text \<open>The return value, \<open>*src\<close> and \<open>*sz\<close> after the call, the buffer, and \<open>*len\<close> where it is set.\<close>

definition decompress_name ::
    "byte list \<Rightarrow> nat \<Rightarrow> nat \<Rightarrow> byte list \<Rightarrow> (int \<times> nat \<times> nat \<times> byte list \<times> nat option) option" where
  "decompress_name msg src sz tgt =
     (if sz = 0 then Some (RC_TRUNC, src, sz, tgt, None)
      else if src \<ge> length msg then Some (RC_FORMAT, src, sz, tgt, None)
      else do {
        r1 \<leftarrow> dn_direct msg src sz 0 tgt;
        r2 \<leftarrow> (case r1 of DnJump lptr newsz tpos tgt1 \<Rightarrow> dn_jumped msg newsz 1 lptr tpos tgt1 | _ \<Rightarrow> Some r1);
        case r2 of
          DnErr rc tgt' \<Rightarrow> Some (rc, src, sz, tgt', None)
        | DnDone newsz tpos tgt' \<Rightarrow> Some (RC_OK, src + (sz - newsz), newsz, tgt', Some tpos)
        | DnJump _ _ _ _ \<Rightarrow> None
      })"

subsection \<open>\<open>domain_match\<close>\<close>

text \<open>Collecting the length bytes of a name, at most 128 of them.\<close>

function seg_lens :: "name \<Rightarrow> nat \<Rightarrow> byte list \<Rightarrow> (nat \<times> byte list) option" where
  "seg_lens ms i ls =
     do {
       lb \<leftarrow> rd ms i;
       if lb = 0 then Some (i, ls)
       else do { must (length ls < 128); seg_lens ms (i + unat lb + 1) (ls @ [lb]) }
     }"
  by pat_completeness auto
termination
  by (relation "measure (\<lambda>(ms, i, ls). length ms - i)") (auto simp: rd_Some_iff)

text \<open>Comparing one label back to front; the first component is false on a mismatch.\<close>

fun match_lab :: "name \<Rightarrow> name \<Rightarrow> nat \<Rightarrow> nat \<Rightarrow> nat \<Rightarrow> (bool \<times> nat \<times> nat) option" where
  "match_lab ms md i j 0 = Some (True, i, j)"
| "match_lab ms md i j (Suc n) =
     do {
       must (0 < i \<and> 0 < j);
       x \<leftarrow> rd ms (i - 1);
       y \<leftarrow> rd md (j - 1);
       if tolower_c x \<noteq> tolower_c y then Some (False, i - 1, j - 1)
       else match_lab ms md (i - 1) (j - 1) n
     }"

function match_loop ::
    "name \<Rightarrow> name \<Rightarrow> byte list \<Rightarrow> byte list \<Rightarrow> nat \<Rightarrow> nat \<Rightarrow> nat \<Rightarrow> nat \<Rightarrow> (nat \<times> nat \<times> nat) option" where
  "match_loop ms md ls ld n k i j =
     (if k \<le> n then
        do {
          lb \<leftarrow> rd ls (length ls - k);
          lb' \<leftarrow> rd ld (length ld - k);
          if lb \<noteq> lb' then Some (k - 1, i, j)
          else do {
            (ok, i', j') \<leftarrow> match_lab ms md i j (unat lb);
            if \<not> ok then Some (k - 1, i, j)
            else do { must (0 < i' \<and> 0 < j'); match_loop ms md ls ld n (k + 1) (i' - 1) (j' - 1) }
          }
        }
      else Some (k - 1, i, j))"
  by pat_completeness auto
termination
  by (relation "measure (\<lambda>(ms, md, ls, ld, n, k, i, j). n + 1 - k)") auto

declare seg_lens.simps [simp del] match_loop.simps [simp del]

text \<open>The return value and the two offsets.\<close>

definition domain_match :: "name \<Rightarrow> name \<Rightarrow> (nat \<times> nat \<times> nat) option" where
  "domain_match ms md =
     do {
       (i, ls) \<leftarrow> seg_lens ms 0 [];
       (j, ld) \<leftarrow> seg_lens md 0 [];
       let n = (if length ls > length ld then length ld else length ls);
       match_loop ms md ls ld n 1 i j
     }"

subsection \<open>\<open>compress_name\<close>\<close>

type_synonym compel = "nat \<times> name"

text \<open>The search for the longest match; the state is \<open>longest\<close>, \<open>lrem\<close> and \<open>coffs\<close>.\<close>

fun comp_search :: "name \<Rightarrow> compel list \<Rightarrow> nat \<times> nat \<times> nat \<Rightarrow> (nat \<times> nat \<times> nat) option" where
  "comp_search inp [] s = Some s"
| "comp_search inp ((idx, nm) # cs) (longest, lrem, coffs) =
     do {
       (rv, rem, to) \<leftarrow> domain_match inp nm;
       comp_search inp cs
         (if rv > longest then
            (let newoffs = idx + to in
             if newoffs \<le> 0x3fff then (rv, rem, newoffs) else (longest, lrem, coffs))
          else (longest, lrem, coffs))
     }"

text \<open>The two bytes of a pointer.\<close>

definition ptr_bytes :: "nat \<Rightarrow> byte list" where
  "ptr_bytes coffs = [0xc0 OR word_of_nat (coffs div 256 mod 64), word_of_nat (coffs mod 256)]"

text \<open>\<open>alloc\<close> is the outcome of the allocation in \<open>dlist_grow\<close>, which frees the list when it
  fails. The result is the return value, the output buffer and the new list.\<close>

definition compress_name ::
    "name \<Rightarrow> byte list \<Rightarrow> nat \<Rightarrow> compel list \<Rightarrow> bool \<Rightarrow> (nat \<times> byte list \<times> compel list) option" where
  "compress_name inp out offs cb alloc =
     do {
       ilen \<leftarrow> rhnlen inp;
       must (ilen \<le> DNSNAMEBUFSIZE);
       (longest, lrem, coffs) \<leftarrow> comp_search inp cb (0, 0, 0);
       (rl, add, out') \<leftarrow>
         (if longest > 0 then do {
            must (lrem + 2 \<le> ilen);
            bs \<leftarrow> rdn inp 0 lrem;
            out1 \<leftarrow> wrn out 0 bs;
            out2 \<leftarrow> wrn out1 lrem (ptr_bytes coffs);
            Some (lrem + 2, lrem \<noteq> 0, out2)
          }
          else do {
            bs \<leftarrow> rdn inp 0 ilen;
            out1 \<leftarrow> wrn out 0 bs;
            Some (ilen, True, out1)
          });
       if add then
         (if \<not> alloc then Some (0, out', [])
          else do {
            s \<leftarrow> rdn inp 0 ilen;
            Some (rl, out', cb @ [(offs, s)])
          })
       else Some (rl, out', cb)
     }"

subsection \<open>What a compressed name denotes\<close>

text \<open>
  \<open>name_at msg i ls h n\<close>: at index \<open>i\<close> of the message stands a name with labels \<open>ls\<close>, which
  takes \<open>n\<close> bytes there and leads through \<open>h\<close> compression pointers (RFC 1035, 4.1.4).
\<close>

inductive name_at :: "byte list \<Rightarrow> nat \<Rightarrow> label list \<Rightarrow> nat \<Rightarrow> nat \<Rightarrow> bool" for msg where
  name_end: "i < length msg \<Longrightarrow> msg ! i = 0 \<Longrightarrow> name_at msg i [] 0 1"
| name_lab: "wire_label l \<Longrightarrow> i < length msg \<Longrightarrow> msg ! i = word_of_nat (length l) \<Longrightarrow>
    take (length l) (drop (i + 1) msg) = l \<Longrightarrow> name_at msg (i + 1 + length l) ls h n \<Longrightarrow>
    name_at msg i (l # ls) h (n + 1 + length l)"
| name_ptr: "i + 1 < length msg \<Longrightarrow> msg ! i \<ge> 0xc0 \<Longrightarrow>
    name_at msg (ptr_offs (msg ! i) (msg ! (i + 1))) ls h n \<Longrightarrow> name_at msg i ls (Suc h) 2"

lemma name_at_bound: "name_at msg i ls h n \<Longrightarrow> i < length msg"
  by (induction rule: name_at.induct) auto

lemma name_at_labels: "name_at msg i ls h n \<Longrightarrow> list_all wire_label ls"
  by (induction rule: name_at.induct) auto

lemma byte_gt_not_le: "(0x3f < (b :: byte)) = (63 < unat b)" "((b :: byte) < 0xc0) = (unat b < 192)"
  by (simp_all add: word_less_nat_alt)

lemma name_at_zero: "i < length msg \<Longrightarrow> msg ! i = 0 \<Longrightarrow> name_at msg i ls h n = (ls = [] \<and> h = 0 \<and> n = 1)"
  by (subst name_at.simps) (auto simp: word_le_nat_alt)

lemma name_at_label:
  assumes "i < length msg" "msg ! i \<noteq> 0" "\<not> 0x3f < msg ! i"
  shows "name_at msg i ls h n =
    (\<exists>ls' n'. ls = take (unat (msg ! i)) (drop (i + 1) msg) # ls' \<and> n = n' + 1 + unat (msg ! i) \<and>
       name_at msg (i + 1 + unat (msg ! i)) ls' h n')" (is "?L = ?R")
proof
  assume ?L
  then show ?R using assms
    by (cases rule: name_at.cases) (auto simp: word_le_nat_alt byte_gt_not_le)
next
  assume ?R
  then obtain ls' n' where *: "ls = take (unat (msg ! i)) (drop (i + 1) msg) # ls'"
    "n = n' + 1 + unat (msg ! i)" "name_at msg (i + 1 + unat (msg ! i)) ls' h n'" by blast
  let ?l = "take (unat (msg ! i)) (drop (i + 1) msg)"
  have len: "length ?l = unat (msg ! i)" using name_at_bound [OF *(3)] by simp
  moreover have "unat (msg ! i) \<noteq> 0" using assms(2) by (simp add: unat_eq_zero)
  ultimately have "wire_label ?l"
    using assms by (auto simp: wire_label_def byte_gt_not_le simp del: length_take)
  from name_lab [OF this assms(1), of ls' h n'] * len show ?L by (simp del: length_take)
qed

lemma name_at_ptr:
  assumes "i < length msg" "0x3f < msg ! i"
  shows "name_at msg i ls h n =
    (i + 1 < length msg \<and> \<not> msg ! i < 0xc0 \<and> n = 2 \<and>
     (\<exists>h' n'. h = Suc h' \<and> name_at msg (ptr_offs (msg ! i) (msg ! (i + 1))) ls h' n'))" (is "?L = ?R")
proof
  assume ?L
  then show ?R using assms
    by (cases rule: name_at.cases) (auto simp: word_le_nat_alt byte_gt_not_le wire_label_def)
next
  assume ?R
  then show ?L using name_ptr [of i msg ls] by (auto simp: not_less)
qed

text \<open>The loop over pointers.\<close>

lemma dn_ptrs_spec:
  assumes "p < length msg" "hops \<le> 255"
  shows "\<exists>r. dn_ptrs msg hops (p + 1) (msg ! p) = Some r \<and>
    (case r of
       Inl rc \<Rightarrow> rc = RC_FORMAT \<and> (\<forall>ls h n. name_at msg p ls h n \<longrightarrow> 255 < hops + h)
     | Inr (hops', lptr, lb) \<Rightarrow> \<exists>p'. lptr = p' + 1 \<and> p' < length msg \<and> msg ! p' = lb \<and> \<not> 0x3f < lb \<and>
         hops \<le> hops' \<and> hops' \<le> 255 \<and>
         (\<forall>ls h. (\<exists>n. name_at msg p ls h n) = (hops' - hops \<le> h \<and> (\<exists>n. name_at msg p' ls (h - (hops' - hops)) n))))"
  using assms
proof (induction "255 - hops" arbitrary: hops p rule: less_induct)
  case less
  note [simp] = dn_ptrs.simps [of msg hops]
  show ?case
  proof (cases "0x3f < msg ! p")
    case False
    then show ?thesis using less.prems by (auto intro!: exI [of _ p])
  next
    case big: True
    note iff = name_at_ptr [OF less.prems(1) big]
    show ?thesis
    proof (cases "msg ! p < 0xc0 \<or> length msg \<le> p + 1")
      case True
      then show ?thesis using big iff by auto
    next
      case False
      let ?o = "ptr_offs (msg ! p) (msg ! (p + 1))"
      have rd: "rd msg (p + 1) = Some (msg ! (p + 1))" using False by (simp add: rd_def)
      show ?thesis
      proof (cases "hops + 1 > 255 \<or> length msg \<le> ?o")
        case True
        have "255 < hops + h" if "name_at msg p ls h n" for ls h n
          using that True less.prems(2) by (auto simp: iff dest: name_at_bound)
        then show ?thesis using big False True rd by auto
      next
        case ok: False
        then have lt: "255 - (hops + 1) < 255 - hops" "?o < length msg" "hops + 1 \<le> 255" by auto
        obtain r where r: "dn_ptrs msg (hops + 1) (?o + 1) (msg ! ?o) = Some r" and
          c: "case r of
             Inl rc \<Rightarrow> rc = RC_FORMAT \<and> (\<forall>ls h n. name_at msg ?o ls h n \<longrightarrow> 255 < hops + 1 + h)
           | Inr (hops', lptr, lb) \<Rightarrow> \<exists>p'. lptr = p' + 1 \<and> p' < length msg \<and> msg ! p' = lb \<and> \<not> 0x3f < lb \<and>
               hops + 1 \<le> hops' \<and> hops' \<le> 255 \<and>
               (\<forall>ls h. (\<exists>n. name_at msg ?o ls h n) =
                 (hops' - (hops + 1) \<le> h \<and> (\<exists>n. name_at msg p' ls (h - (hops' - (hops + 1))) n)))"
          using less.hyps [OF lt] by auto
        have step: "dn_ptrs msg hops (p + 1) (msg ! p) = Some r"
          using big False ok rd r lt(2) by (simp add: rd_def)
        show ?thesis
        proof (cases r)
          case (Inl rc)
          then have rc: "rc = RC_FORMAT" and c': "\<And>ls h n. name_at msg ?o ls h n \<Longrightarrow> 255 < hops + 1 + h"
            using c by auto
          have "255 < hops + h" if "name_at msg p ls h n" for ls h n
          proof -
            from that obtain h' n' where "h = Suc h'" "name_at msg ?o ls h' n'" unfolding iff by blast
            with c' [of ls h' n'] show ?thesis by simp
          qed
          then show ?thesis using step Inl rc by (simp del: dn_ptrs.simps)
        next
          case (Inr x)
          then obtain hops' lptr lb where x: "r = Inr (hops', lptr, lb)" by (cases x) auto
          with c obtain p' where p': "lptr = p' + 1" "p' < length msg" "msg ! p' = lb" "\<not> 0x3f < lb"
            "hops + 1 \<le> hops'" "hops' \<le> 255"
            and eq: "\<And>ls h. (\<exists>n. name_at msg ?o ls h n) =
                 (hops' - (hops + 1) \<le> h \<and> (\<exists>n. name_at msg p' ls (h - (hops' - (hops + 1))) n))"
            by auto
          have "(\<exists>n. name_at msg p ls h n) =
              (hops' - hops \<le> h \<and> (\<exists>n. name_at msg p' ls (h - (hops' - hops)) n))" for ls h
          proof (cases h)
            case 0
            then show ?thesis using iff p'(5) by auto
          next
            case (Suc h0)
            then have "(\<exists>n. name_at msg p ls h n) = (\<exists>n. name_at msg ?o ls h0 n)"
              using iff False by auto
            then show ?thesis unfolding eq using Suc p'(5) by (auto simp: Suc_diff_le)
          qed
          then show ?thesis using step x p' by auto
        qed
      qed
    qed
  qed
qed

text \<open>Copying one label, as both loops do, when the name fits so far.\<close>

lemma copy_label:
  assumes "tpos < length tgt" "length lab = unat lb" "tpos + 1 + unat lb \<le> length tgt"
    "i + unat lb \<le> length msg" "lab = take (unat lb) (drop i msg)"
  shows "rdn msg i (unat lb) = Some lab" "wr tgt tpos lb = Some (splice tgt tpos [lb])"
    "wrn (splice tgt tpos [lb]) (tpos + 1) lab = Some (splice tgt tpos (lb # lab))"
proof -
  show "rdn msg i (unat lb) = Some lab" using assms by (simp add: rdn_def)
  show "wr tgt tpos lb = Some (splice tgt tpos [lb])" using assms by (simp add: wr_splice)
  have "wrn (splice tgt tpos [lb]) (tpos + 1) lab = Some (splice (splice tgt tpos [lb]) (tpos + 1) lab)"
    using assms by (intro wrn_splice) simp
  then show "wrn (splice tgt tpos [lb]) (tpos + 1) lab = Some (splice tgt tpos (lb # lab))"
    using assms by (simp add: splice_splice)
qed

lemma label_enc:
  assumes "unat (lb :: byte) = length lab" "lb \<noteq> 0"
  shows "lb # lab @ enc ls = enc (lab # ls)" "length (enc (lab # ls)) = 1 + unat lb + length (enc ls)"
  using assms by (simp_all flip: assms(1))

text \<open>The name at \<open>lptr\<close> is complete in the buffer; there is no name there that could be.\<close>

definition dn_done :: "byte list \<Rightarrow> nat \<Rightarrow> nat \<Rightarrow> nat \<Rightarrow> byte list \<Rightarrow> nat \<Rightarrow> byte list \<Rightarrow> bool" where
  "dn_done msg lptr hops tpos tgt tpos' tgt' =
     (\<exists>ls h n. name_at msg lptr ls h n \<and> hops + h \<le> 255 \<and> tpos' = tpos + length (enc ls) \<and>
        tpos' \<le> 256 \<and> tgt' = splice tgt tpos (enc ls))"

definition dn_fail :: "byte list \<Rightarrow> nat \<Rightarrow> nat \<Rightarrow> nat \<Rightarrow> bool" where
  "dn_fail msg lptr hops tpos =
     (\<forall>ls h n. name_at msg lptr ls h n \<longrightarrow> \<not> (hops + h \<le> 255 \<and> tpos + length (enc ls) \<le> 256))"

lemma dn_doneI:
  "name_at msg lptr ls h n \<Longrightarrow> hops + h \<le> 255 \<Longrightarrow> tpos' = tpos + length (enc ls) \<Longrightarrow> tpos' \<le> 256 \<Longrightarrow>
   tgt' = splice tgt tpos (enc ls) \<Longrightarrow> dn_done msg lptr hops tpos tgt tpos' tgt'"
  unfolding dn_done_def by blast

lemma dn_doneE:
  assumes "dn_done msg lptr hops tpos tgt tpos' tgt'"
  obtains ls h n where "name_at msg lptr ls h n" "hops + h \<le> 255" "tpos' = tpos + length (enc ls)"
    "tpos' \<le> 256" "tgt' = splice tgt tpos (enc ls)"
  using assms unfolding dn_done_def by blast

lemma dn_jumped_spec:
  assumes "lptr < length msg" "hops \<le> 255" "tpos \<le> 255" "256 \<le> length tgt"
  shows "\<exists>r. dn_jumped msg newsz hops lptr tpos tgt = Some r \<and>
    (case r of
       DnErr rc tgt' \<Rightarrow> rc = RC_FORMAT \<and> length tgt' = length tgt \<and>
         dn_fail msg lptr hops tpos
     | DnDone newsz' tpos' tgt' \<Rightarrow> newsz' = newsz \<and> dn_done msg lptr hops tpos tgt tpos' tgt'
     | DnJump _ _ _ _ \<Rightarrow> False)"
  using assms
proof (induction "255 - tpos" arbitrary: hops lptr tpos tgt rule: less_induct)
  case less
  note [simp] = dn_jumped.simps [of _ _ _ _ tpos]
  obtain r where r: "dn_ptrs msg hops (lptr + 1) (msg ! lptr) = Some r" and
    c: "case r of
       Inl rc \<Rightarrow> rc = RC_FORMAT \<and> (\<forall>ls h n. name_at msg lptr ls h n \<longrightarrow> 255 < hops + h)
     | Inr (hops', lp, lb) \<Rightarrow> \<exists>p'. lp = p' + 1 \<and> p' < length msg \<and> msg ! p' = lb \<and> \<not> 0x3f < lb \<and>
         hops \<le> hops' \<and> hops' \<le> 255 \<and>
         (\<forall>ls h. (\<exists>n. name_at msg lptr ls h n) = (hops' - hops \<le> h \<and> (\<exists>n. name_at msg p' ls (h - (hops' - hops)) n)))"
    using dn_ptrs_spec [OF less.prems(1,2)] by blast
  have rd0: "rd msg lptr = Some (msg ! lptr)" using less.prems by (simp add: rd_def)
  show ?case
  proof (cases r)
    case (Inl rc)
    then have "dn_fail msg lptr hops tpos" "rc = RC_FORMAT"
      using c by (auto simp: dn_fail_def not_le)
    then show ?thesis using r Inl rd0 by simp
  next
    case (Inr x)
    then obtain hops' lp lb where x: "r = Inr (hops', lp, lb)" by (cases x) auto
    with c obtain p' where p': "lp = p' + 1" "p' < length msg" "msg ! p' = lb" "\<not> 0x3f < lb"
      "hops \<le> hops'" "hops' \<le> 255"
      and eq: "\<And>ls h. (\<exists>n. name_at msg lptr ls h n) =
           (hops' - hops \<le> h \<and> (\<exists>n. name_at msg p' ls (h - (hops' - hops)) n))"
      by auto
    have wr: "wr tgt tpos lb = Some (splice tgt tpos [lb])"
      using less.prems by (simp add: wr_splice)
    show ?thesis
    proof (cases "lb = 0")
      case True
      then have "name_at msg p' [] 0 1" using name_end p' by metis
      then have "\<exists>n. name_at msg lptr [] (hops' - hops) n" unfolding eq using p'(5) by auto
      then obtain n where "name_at msg lptr [] (hops' - hops) n" by blast
      then have "dn_done msg lptr hops tpos tgt (tpos + 1) (splice tgt tpos [0])"
        by (rule dn_doneI) (use p' less.prems(3) in simp_all)
      then show ?thesis using r rd0 x wr True by simp
    next
      case nz: False
      note lab = name_at_label [of p' msg, unfolded p'(3), OF p'(2) nz p'(4)]
      have ln: "\<not> (hops + h \<le> 255 \<and> tpos + length (enc ls) \<le> 256)"
        if "length msg \<le> p' + 1 + unat lb \<or> tpos + 1 + unat lb > 255" "name_at msg lptr ls h n" for ls h n
      proof -
        from that(2) eq obtain n' where "name_at msg p' ls (h - (hops' - hops)) n'" by metis
        then obtain ls' n'' where *: "ls = take (unat lb) (drop (p' + 1) msg) # ls'"
          "name_at msg (p' + 1 + unat lb) ls' (h - (hops' - hops)) n''" unfolding lab by blast
        from name_at_bound [OF *(2)] that(1) * show ?thesis
          using length_enc [of ls'] by auto
      qed
      show ?thesis
      proof (cases "length msg \<le> p' + 1 + unat lb \<or> tpos + 1 + unat lb > 255")
        case True
        have "dn_fail msg lptr hops tpos" unfolding dn_fail_def using ln [OF True] by blast
        then show ?thesis using True r rd0 x wr nz p' less.prems by auto
      next
        case False
        let ?lab = "take (unat lb) (drop (p' + 1) msg)"
        have len: "length ?lab = unat lb" using False by auto
        have nz': "unat lb \<noteq> 0" using nz by (simp add: unat_eq_zero)
        note cp = copy_label [of tpos tgt ?lab lb "p' + 1" msg, OF _ len]
        have lt: "255 - (tpos + 1 + unat lb) < 255 - tpos" "p' + 1 + unat lb < length msg"
          "tpos + 1 + unat lb \<le> 255" "256 \<le> length (splice tgt tpos (lb # ?lab))"
          using False nz' less.prems len by (auto simp del: length_take)
        obtain r2 where r2: "dn_jumped msg newsz hops' (p' + 1 + unat lb) (tpos + 1 + unat lb)
            (splice tgt tpos (lb # ?lab)) = Some r2" and
          c2: "case r2 of
             DnErr rc tgt' \<Rightarrow> rc = RC_FORMAT \<and> length tgt' = length (splice tgt tpos (lb # ?lab)) \<and>
               dn_fail msg (p' + 1 + unat lb) hops' (tpos + 1 + unat lb)
           | DnDone newsz' tpos' tgt' \<Rightarrow> newsz' = newsz \<and>
               dn_done msg (p' + 1 + unat lb) hops' (tpos + 1 + unat lb)
                 (splice tgt tpos (lb # ?lab)) tpos' tgt'
           | DnJump _ _ _ _ \<Rightarrow> False"
          using less.hyps [OF lt(1,2) p'(6) lt(3,4)] by blast
        have step: "dn_jumped msg newsz hops lptr tpos tgt = Some r2"
          using r rd0 x wr nz p' False less.prems cp r2 by (simp add: add.assoc)
        have slen: "length (splice tgt tpos (lb # ?lab)) = length tgt"
          using False less.prems len by (simp del: length_take)
        show ?thesis
        proof (cases r2)
          case (DnErr rc tgt')
          have "\<not> (hops + h \<le> 255 \<and> tpos + length (enc ls) \<le> 256)" if n: "name_at msg lptr ls h n" for ls h n
          proof -
            from n eq obtain n' where h: "hops' - hops \<le> h" "name_at msg p' ls (h - (hops' - hops)) n'" by metis
            then obtain ls' n'' where *: "ls = ?lab # ls'"
              "name_at msg (p' + 1 + unat lb) ls' (h - (hops' - hops)) n''" unfolding lab by blast
            have "\<not> (hops' + (h - (hops' - hops)) \<le> 255 \<and> tpos + 1 + unat lb + length (enc ls') \<le> 256)"
              using c2 DnErr *(2) unfolding dn_fail_def by auto
            then show ?thesis using h p'(5) * len label_enc(2) [of lb ?lab ls'] nz by (auto simp del: length_take enc.simps)
          qed
          then have "dn_fail msg lptr hops tpos" unfolding dn_fail_def by blast
          then show ?thesis using step DnErr c2 slen by (simp del: dn_jumped.simps)
        next
          case (DnDone newsz' tpos' tgt')
          then have nsz: "newsz' = newsz" and
            "dn_done msg (p' + 1 + unat lb) hops' (tpos + 1 + unat lb) (splice tgt tpos (lb # ?lab)) tpos' tgt'"
            using c2 by simp_all
          then obtain ls h n where d: "name_at msg (p' + 1 + unat lb) ls h n" "hops' + h \<le> 255"
            "tpos' = tpos + 1 + unat lb + length (enc ls)" "tpos' \<le> 256"
            "tgt' = splice (splice tgt tpos (lb # ?lab)) (tpos + 1 + unat lb) (enc ls)"
            by (elim dn_doneE)
          have "name_at msg p' (?lab # ls) h (n + 1 + unat lb)" unfolding lab using d(1) by blast
          then have "\<exists>n. name_at msg lptr (?lab # ls) (h + (hops' - hops)) n" unfolding eq by auto
          then obtain n' where "name_at msg lptr (?lab # ls) (h + (hops' - hops)) n'" by blast
          moreover have "tgt' = splice tgt tpos (enc (?lab # ls))"
            using d(3-5) less.prems len label_enc(1) [of lb ?lab ls] nz
            by (simp add: splice_splice del: length_take enc.simps)
          moreover have "tpos' = tpos + length (enc (?lab # ls))"
            using d(3) label_enc(2) [of lb ?lab ls] nz len by (simp del: length_take enc.simps)
          moreover have "hops + (h + (hops' - hops)) \<le> 255" using d(2) p'(5) by simp
          ultimately have "dn_done msg lptr hops tpos tgt tpos' tgt'"
            using d(4) by (intro dn_doneI)
          then show ?thesis using step DnDone nsz by (simp del: dn_jumped.simps)
        next
          case DnJump
          then show ?thesis using c2 by simp
        qed
      qed
    qed
  qed
qed

text \<open>The same for the first loop, where \<open>newsz\<close> bytes of the data field are left.\<close>

definition dd_fail :: "byte list \<Rightarrow> nat \<Rightarrow> nat \<Rightarrow> nat \<Rightarrow> bool" where
  "dd_fail msg lptr newsz tpos =
     (\<forall>ls h n. name_at msg lptr ls h n \<longrightarrow> \<not> (n \<le> newsz \<and> tpos + length (enc ls) \<le> 256))"

definition dd_done :: "byte list \<Rightarrow> nat \<Rightarrow> nat \<Rightarrow> nat \<Rightarrow> byte list \<Rightarrow> nat \<Rightarrow> nat \<Rightarrow> byte list \<Rightarrow> bool" where
  "dd_done msg lptr newsz tpos tgt newsz' tpos' tgt' =
     (\<exists>ls n. name_at msg lptr ls 0 n \<and> n \<le> newsz \<and> newsz' = newsz - n \<and> tpos' = tpos + length (enc ls) \<and>
        tpos' \<le> 256 \<and> tgt' = splice tgt tpos (enc ls))"

definition dd_jump ::
    "byte list \<Rightarrow> nat \<Rightarrow> nat \<Rightarrow> nat \<Rightarrow> byte list \<Rightarrow> nat \<Rightarrow> nat \<Rightarrow> nat \<Rightarrow> byte list \<Rightarrow> bool" where
  "dd_jump msg lptr newsz tpos tgt off newsz' tpos' tgt' =
     (\<exists>pre m. off < length msg \<and> m \<le> newsz \<and> newsz' = newsz - m \<and> tpos' = tpos + length (enc_labels pre) \<and>
        tpos' \<le> 255 \<and> tgt' = splice tgt tpos (enc_labels pre) \<and>
        (\<forall>ls h n. name_at msg lptr ls h n =
           (n = m \<and> (\<exists>ls' h' n'. ls = pre @ ls' \<and> h = Suc h' \<and> name_at msg off ls' h' n'))))"

lemma dn_direct_spec:
  assumes "lptr < length msg" "0 < newsz" "tpos \<le> 255" "256 \<le> length tgt"
  shows "\<exists>r. dn_direct msg lptr newsz tpos tgt = Some r \<and>
    (case r of
       DnErr rc tgt' \<Rightarrow> rc \<in> {RC_FORMAT, RC_TRUNC} \<and> length tgt' = length tgt \<and> dd_fail msg lptr newsz tpos
     | DnDone newsz' tpos' tgt' \<Rightarrow> dd_done msg lptr newsz tpos tgt newsz' tpos' tgt'
     | DnJump off newsz' tpos' tgt' \<Rightarrow> dd_jump msg lptr newsz tpos tgt off newsz' tpos' tgt')"
  using assms
proof (induction "length msg - lptr" arbitrary: lptr newsz tpos tgt rule: less_induct)
  case less
  let ?lb = "msg ! lptr"
  note unfold = dn_direct.simps [of _ lptr]
  have rd0: "rd msg lptr = Some ?lb" using less.prems by (simp add: rd_def)
  have wr: "wr tgt tpos ?lb = Some (splice tgt tpos [?lb])"
    using less.prems by (simp add: wr_splice)
  show ?case
  proof (cases "0x3f < ?lb")
    case big: True
    note iff = name_at_ptr [OF less.prems(1) big]
    show ?thesis
    proof (cases "?lb < 0xc0 \<or> newsz - 1 = 0 \<or> length msg \<le> lptr + 1 \<or>
        length msg \<le> ptr_offs ?lb (msg ! (lptr + 1))")
      case True
      have "dd_fail msg lptr newsz tpos"
        unfolding dd_fail_def iff using True by (auto dest: name_at_bound)
      moreover have "rd msg (lptr + 1) = (if length msg \<le> lptr + 1 then None else Some (msg ! (lptr + 1)))"
        by (simp add: rd_def)
      ultimately show ?thesis using True big rd0 by (auto simp: unfold Let_def)
    next
      case False
      let ?o = "ptr_offs ?lb (msg ! (lptr + 1))"
      have "dd_jump msg lptr newsz tpos tgt ?o (newsz - 2) tpos tgt"
        unfolding dd_jump_def iff using False less.prems
        by (intro exI [of _ "[]"] exI [of _ 2]) auto
      moreover have "dn_direct msg lptr newsz tpos tgt = Some (DnJump ?o (newsz - 2) tpos tgt)"
        using False big rd0 by (auto simp: unfold rd_def numeral_2_eq_2)
      ultimately show ?thesis by simp
    qed
  next
    case small: False
    show ?thesis
    proof (cases "?lb = 0")
      case True
      have "dd_done msg lptr newsz tpos tgt (newsz - 1) (tpos + 1) (splice tgt tpos [0])"
        unfolding dd_done_def using True less.prems
        by (intro exI [of _ "[]"] exI [of _ 1]) (auto simp: name_at_zero)
      then show ?thesis using True rd0 wr by (simp add: unfold Let_def)
    next
      case nz: False
      note lab = name_at_label [OF less.prems(1) nz small]
      show ?thesis
      proof (cases "newsz - 1 \<le> unat ?lb \<or> length msg \<le> lptr + 1 + unat ?lb \<or> tpos + 1 + unat ?lb > 255")
        case True
        have "\<not> (n \<le> newsz \<and> tpos + length (enc ls) \<le> 256)" if "name_at msg lptr ls h n" for ls h n
        proof -
          from that obtain ls' n' where *: "ls = take (unat ?lb) (drop (lptr + 1) msg) # ls'"
            "n = n' + 1 + unat ?lb" "name_at msg (lptr + 1 + unat ?lb) ls' h n'" unfolding lab by blast
          moreover have "0 < n'" using *(3) by (cases rule: name_at.cases) auto
          ultimately show ?thesis using True name_at_bound [OF *(3)] length_enc [of ls'] by auto
        qed
        then have "dd_fail msg lptr newsz tpos" unfolding dd_fail_def by blast
        then show ?thesis using True rd0 wr nz small less.prems by (auto simp: unfold Let_def)
      next
        case False
        let ?lab = "take (unat ?lb) (drop (lptr + 1) msg)"
        let ?l = "lptr + 1 + unat ?lb" and ?t = "tpos + 1 + unat ?lb" and ?z = "newsz - 1 - unat ?lb"
        let ?tgt = "splice tgt tpos (?lb # ?lab)"
        have len: "length ?lab = unat ?lb" using False by auto
        have slen: "length ?tgt = length tgt" using False less.prems len by (simp del: length_take)
        have pre: "length msg - ?l < length msg - lptr" "?l < length msg" "0 < ?z" "?t \<le> 255" "256 \<le> length ?tgt"
          using False less.prems slen by auto
        note cp = copy_label [of tpos tgt ?lab ?lb "lptr + 1" msg, OF _ len]
        obtain r where r: "dn_direct msg ?l ?z ?t ?tgt = Some r" and
          c: "case r of
             DnErr rc tgt' \<Rightarrow> rc \<in> {RC_FORMAT, RC_TRUNC} \<and> length tgt' = length ?tgt \<and> dd_fail msg ?l ?z ?t
           | DnDone newsz' tpos' tgt' \<Rightarrow> dd_done msg ?l ?z ?t ?tgt newsz' tpos' tgt'
           | DnJump off newsz' tpos' tgt' \<Rightarrow> dd_jump msg ?l ?z ?t ?tgt off newsz' tpos' tgt'"
          using less.hyps [OF pre] by blast
        have step: "dn_direct msg lptr newsz tpos tgt = Some r"
          using rd0 wr nz small False less.prems cp r by (simp add: unfold Let_def add.assoc)
        have enc: "enc_labels (?lab # ls) = ?lb # ?lab @ enc_labels ls" for ls
          using len by (simp del: length_take)
        have enc': "?lb # ?lab @ enc ls = enc (?lab # ls)" "length (enc (?lab # ls)) = 1 + unat ?lb + length (enc ls)" for ls
          using label_enc [of ?lb ?lab ls] len nz by (simp_all del: length_take enc.simps)
        show ?thesis
        proof (cases r)
          case (DnErr rc tgt')
          have "\<not> (n \<le> newsz \<and> tpos + length (enc ls) \<le> 256)" if "name_at msg lptr ls h n" for ls h n
          proof -
            from that obtain ls' n' where *: "ls = ?lab # ls'" "n = n' + 1 + unat ?lb" "name_at msg ?l ls' h n'"
              unfolding lab by blast
            with c DnErr have "\<not> (n' \<le> ?z \<and> ?t + length (enc ls') \<le> 256)"
              unfolding dd_fail_def by auto
            then show ?thesis using * enc'(2) [of ls'] by (auto simp del: length_take enc.simps)
          qed
          then have "dd_fail msg lptr newsz tpos" unfolding dd_fail_def by blast
          then show ?thesis using step DnErr c slen by simp
        next
          case (DnDone newsz' tpos' tgt')
          with c obtain ls n where d: "name_at msg ?l ls 0 n" "n \<le> ?z" "newsz' = ?z - n"
            "tpos' = ?t + length (enc ls)" "tpos' \<le> 256" "tgt' = splice ?tgt ?t (enc ls)"
            unfolding dd_done_def by auto
          have "name_at msg lptr (?lab # ls) 0 (n + 1 + unat ?lb)" unfolding lab using d(1) by blast
          moreover have "tgt' = splice tgt tpos (enc (?lab # ls))"
            using d(4-6) less.prems len by (simp add: splice_splice flip: enc'(1) del: length_take)
          moreover have "n + 1 + unat ?lb \<le> newsz" "newsz' = newsz - (n + 1 + unat ?lb)"
            using d(2,3) pre(3) by linarith+
          moreover have "tpos' = tpos + length (enc (?lab # ls))"
            using d(4) unfolding enc'(2) by simp
          ultimately have "dd_done msg lptr newsz tpos tgt newsz' tpos' tgt'"
            unfolding dd_done_def using d(5)
            by (intro exI [of _ "?lab # ls"] exI [of _ "n + 1 + unat ?lb"] conjI)
          then show ?thesis using step DnDone by simp
        next
          case (DnJump off newsz' tpos' tgt')
          with c obtain ks m where d: "off < length msg" "m \<le> ?z" "newsz' = ?z - m"
            "tpos' = ?t + length (enc_labels ks)" "tpos' \<le> 255" "tgt' = splice ?tgt ?t (enc_labels ks)"
            and iff: "\<And>ls h n. name_at msg ?l ls h n =
               (n = m \<and> (\<exists>ls' h' n'. ls = ks @ ls' \<and> h = Suc h' \<and> name_at msg off ls' h' n'))"
            unfolding dd_jump_def by auto
          have tgt: "tgt' = splice tgt tpos (enc_labels (?lab # ks))"
            unfolding enc using d(4-6) less.prems len by (simp add: splice_splice del: length_take)
          have tpos: "tpos' = tpos + length (enc_labels (?lab # ks))"
            unfolding enc using d(4) len by (simp del: length_take)
          have "name_at msg lptr ls h n = (n = m + 1 + unat ?lb \<and>
              (\<exists>ls' h' n'. ls = (?lab # ks) @ ls' \<and> h = Suc h' \<and> name_at msg off ls' h' n'))" for ls h n
            unfolding lab iff by auto
          moreover have "m + 1 + unat ?lb \<le> newsz" "newsz' = newsz - (m + 1 + unat ?lb)"
            using d(2,3) pre(3) by linarith+
          ultimately have "dd_jump msg lptr newsz tpos tgt off newsz' tpos' tgt'"
            unfolding dd_jump_def using d(1,5) tgt tpos
            by (intro exI [of _ "?lab # ks"] exI [of _ "m + 1 + unat ?lb"] conjI allI)
          then show ?thesis using step DnJump by simp
        qed
      qed
    qed
  qed
qed

lemma decompress_name_spec:
  assumes "DNSNAMEBUFSIZE \<le> length tgt"
  shows "\<exists>rc src' sz' tgt' len. decompress_name msg src sz tgt = Some (rc, src', sz', tgt', len) \<and>
    length tgt' = length tgt \<and>
    (if \<exists>ls h n. name_at msg src ls h n \<and> h \<le> 255 \<and> n \<le> sz \<and> length (enc ls) \<le> DNSNAMEBUFSIZE
     then rc = RC_OK \<and> (\<exists>ls h n. name_at msg src ls h n \<and> wire_name ls \<and> n \<le> sz \<and>
            src' = src + n \<and> sz' = sz - n \<and> len = Some (length (enc ls)) \<and>
            tgt' = enc ls @ drop (length (enc ls)) tgt)
     else rc \<in> {RC_FORMAT, RC_TRUNC} \<and> src' = src \<and> sz' = sz \<and> len = None)"
    (is "\<exists>rc src' sz' tgt' len. _ \<and> _ \<and> (if ?ok then _ else _)")
proof -
  have ok: ?thesis if "decompress_name msg src sz tgt = Some (RC_OK, src + n, sz - n, tgt', Some (length (enc ls)))"
    "name_at msg src ls h n" "h \<le> 255" "n \<le> sz" "length (enc ls) \<le> 256" "tgt' = splice tgt 0 (enc ls)" for ls h n tgt'
  proof -
    have ?ok using that by blast
    moreover have "wire_name ls" using that name_at_labels [OF that(2)] by (simp add: wire_name_def)
    ultimately show ?thesis using that assms
      by (auto simp: splice_def intro!: exI [of _ ls])
  qed
  have err: ?thesis if "decompress_name msg src sz tgt = Some (rc, src, sz, tgt', None)"
    "rc \<in> {RC_FORMAT, RC_TRUNC}" "length tgt' = length tgt"
    "\<And>ls h n. name_at msg src ls h n \<Longrightarrow> h \<le> 255 \<Longrightarrow> n \<le> sz \<Longrightarrow> length (enc ls) \<le> 256 \<Longrightarrow> False" for rc tgt'
  proof -
    have "\<not> ?ok" using that(4) by blast
    then show ?thesis using that(1-3) by auto
  qed
  show ?thesis
  proof (cases "sz = 0 \<or> length msg \<le> src")
    case True
    have "name_at msg src ls h n \<Longrightarrow> 0 < n \<and> src < length msg" for ls h n
      by (cases rule: name_at.cases) (auto dest: name_at_bound)
    then show ?thesis using True
      by (intro err [of "if sz = 0 then RC_TRUNC else RC_FORMAT" tgt]) (auto simp: decompress_name_def)
  next
    case False
    then have "src < length msg" "0 < sz" "(0 :: nat) \<le> 255" by auto
    from dn_direct_spec [OF this assms] obtain r where r: "dn_direct msg src sz 0 tgt = Some r" and
      c: "case r of
         DnErr rc tgt' \<Rightarrow> rc \<in> {RC_FORMAT, RC_TRUNC} \<and> length tgt' = length tgt \<and> dd_fail msg src sz 0
       | DnDone newsz' tpos' tgt' \<Rightarrow> dd_done msg src sz 0 tgt newsz' tpos' tgt'
       | DnJump off newsz' tpos' tgt' \<Rightarrow> dd_jump msg src sz 0 tgt off newsz' tpos' tgt'" by blast
    note call = decompress_name_def [of msg src sz tgt]
    show ?thesis
    proof (cases r)
      case (DnErr rc tgt')
      then show ?thesis using c False r
        by (intro err [of rc tgt']) (auto simp: call dd_fail_def)
    next
      case (DnDone newsz tpos tgt')
      with c obtain ls n where d: "name_at msg src ls 0 n" "n \<le> sz" "newsz = sz - n" "tpos = length (enc ls)"
        "tpos \<le> 256" "tgt' = splice tgt 0 (enc ls)" by (auto simp: dd_done_def)
      then show ?thesis using False r DnDone
        by (intro ok [of n tgt' ls 0]) (auto simp: call)
    next
      case (DnJump off newsz tpos tgt1)
      with c obtain ks m where d: "off < length msg" "m \<le> sz" "newsz = sz - m" "tpos = length (enc_labels ks)"
        "tpos \<le> 255" "tgt1 = splice tgt 0 (enc_labels ks)"
        and iff: "\<And>ls h n. name_at msg src ls h n =
           (n = m \<and> (\<exists>ls' h' n'. ls = ks @ ls' \<and> h = Suc h' \<and> name_at msg off ls' h' n'))"
        by (auto simp: dd_jump_def)
      have len1: "length tgt1 = length tgt" using d assms by simp
      then have "256 \<le> length tgt1" using assms by simp
      with dn_jumped_spec [OF d(1) _ d(5), of 1 tgt1 newsz] obtain r2 where
        r2: "dn_jumped msg newsz 1 off tpos tgt1 = Some r2" and
        c2: "case r2 of
           DnErr rc tgt' \<Rightarrow> rc = RC_FORMAT \<and> length tgt' = length tgt1 \<and> dn_fail msg off 1 tpos
         | DnDone newsz' tpos' tgt' \<Rightarrow> newsz' = newsz \<and> dn_done msg off 1 tpos tgt1 tpos' tgt'
         | DnJump _ _ _ _ \<Rightarrow> False" by auto
      show ?thesis
      proof (cases r2)
        case (DnErr rc tgt')
        have "False" if "name_at msg src ls h n" "h \<le> 255" "n \<le> sz" "length (enc ls) \<le> 256" for ls h n
        proof -
          from that(1) iff obtain ls' h' n' where *: "ls = ks @ ls'" "h = Suc h'" "name_at msg off ls' h' n'"
            by blast
          have "\<not> (1 + h' \<le> 255 \<and> tpos + length (enc ls') \<le> 256)"
            using c2 DnErr *(3) by (auto simp: dn_fail_def)
          then show False using that * d(4) by (simp add: enc_append)
        qed
        then show ?thesis using False r DnJump r2 DnErr c2 len1
          by (intro err [of rc tgt']) (auto simp: call)
      next
        case (DnDone newsz' tpos' tgt')
        with c2 have nz: "newsz' = newsz" and "dn_done msg off 1 tpos tgt1 tpos' tgt'" by simp_all
        then obtain ls h n where e: "name_at msg off ls h n" "1 + h \<le> 255" "tpos' = tpos + length (enc ls)"
          "tpos' \<le> 256" "tgt' = splice tgt1 tpos (enc ls)" by (elim dn_doneE)
        have "name_at msg src (ks @ ls) (Suc h) m" unfolding iff using e(1) by blast
        moreover have "tgt' = splice tgt 0 (enc (ks @ ls))"
          using e d(4,6) assms by (simp add: splice_splice enc_append)
        ultimately show ?thesis using False r DnJump r2 DnDone nz d e
          by (intro ok [of m tgt' "ks @ ls" "Suc h"]) (simp_all add: call enc_append)
      next
        case (DnJump a b c d)
        then show ?thesis using c2 by simp
      qed
    qed
  qed
qed

text \<open>
  C33. \<open>decompress_name\<close> on any message and any source position, with a buffer of
  \<open>DNSNAMEBUFSIZE\<close> bytes: it always returns, reads only the message and writes only the buffer.
  It succeeds exactly when a name stands there that lies within the data field, is at most
  \<open>DNSNAMEBUFSIZE\<close> bytes long and is reached through at most 255 pointers; then the buffer starts
  with the encoding of that name, \<open>*len\<close> is its length, and \<open>*src\<close> and \<open>*sz\<close> have moved past the
  bytes it takes. Otherwise it returns \<open>RC_FORMAT\<close> or \<open>RC_TRUNC\<close> and leaves \<open>*src\<close> and \<open>*sz\<close> alone.
\<close>

theorem decompress_name_correct:
  assumes "DNSNAMEBUFSIZE \<le> length tgt"
  shows "\<exists>rc src' sz' tgt' len. decompress_name msg src sz tgt = Some (rc, src', sz', tgt', len) \<and>
    length tgt' = length tgt \<and>
    (if \<exists>ls h n. name_at msg src ls h n \<and> h \<le> 255 \<and> n \<le> sz \<and> length (enc ls) \<le> DNSNAMEBUFSIZE
     then rc = RC_OK \<and> (\<exists>ls h n. name_at msg src ls h n \<and> wire_name ls \<and> n \<le> sz \<and>
            src' = src + n \<and> sz' = sz - n \<and> len = Some (length (enc ls)) \<and>
            tgt' = enc ls @ drop (length (enc ls)) tgt)
     else rc \<in> {RC_FORMAT, RC_TRUNC} \<and> src' = src \<and> sz' = sz \<and> len = None)"
  using assms by (rule decompress_name_spec)

theorem decompress_name_correct_witness:
  "\<exists>src' sz' tgt' len. decompress_name [1, 97, 0, 1, 98, 0xc0, 0] 3 4 (replicate 256 7) =
     Some (RC_OK, src', sz', tgt', len)"
proof -
  let ?m = "[1, 97, 0, 1, 98, 0xc0, 0 :: byte]"
  have 0: "name_at ?m 2 [] 0 1" by (rule name_end) simp_all
  have 1: "name_at ?m 0 [[97]] 0 3"
    using name_lab [of "[97]" 0 ?m "[]" 0 1] 0 by (simp add: wire_label_def numeral_2_eq_2 numeral_3_eq_3)
  have 2: "name_at ?m 5 [[97]] 1 2"
    using name_ptr [of 5 ?m "[[97]]" 0 3] 1 by (simp add: ptr_offs_def)
  have "name_at ?m 3 [[98], [97]] 1 4"
    using name_lab [of "[98]" 3 ?m "[[97]]" 1 2] 2 by (simp add: wire_label_def numeral_eq_Suc)
  then have "\<exists>ls h n. name_at ?m 3 ls h n \<and> h \<le> 255 \<and> n \<le> 4 \<and> length (enc ls) \<le> 256"
    by (intro exI [of _ "[[98], [97]]"] exI [of _ 1] exI [of _ 4]) simp
  with decompress_name_correct [of "replicate 256 7" ?m 3 4] show ?thesis by auto
qed

subsection \<open>The longest common suffix\<close>

definition lab_eq :: "label \<Rightarrow> label \<Rightarrow> bool" where
  "lab_eq a b = (map tolower_c a = map tolower_c b)"

fun cpre :: "label list \<Rightarrow> label list \<Rightarrow> nat" where
  "cpre (x # xs) (y # ys) = (if lab_eq x y then Suc (cpre xs ys) else 0)"
| "cpre _ _ = 0"

definition csuf :: "label list \<Rightarrow> label list \<Rightarrow> nat" where
  "csuf ks ls = cpre (rev ks) (rev ls)"

lemma csuf_simps [simp]:
  "csuf [] ls = 0" "csuf ks [] = 0"
  "csuf (ks @ [k]) (ls @ [l]) = (if lab_eq k l then Suc (csuf ks ls) else 0)"
  by (cases ks) (simp_all add: csuf_def)

lemma lab_eq_length: "lab_eq a b \<Longrightarrow> length a = length b"
  unfolding lab_eq_def by (metis length_map)

lemma seg_lens_enc:
  "list_all name_label ls \<Longrightarrow> length acc + length ls \<le> 128 \<Longrightarrow>
   seg_lens (p @ enc ls @ r) (length p) acc =
     Some (length p + length (enc_labels ls), acc @ map (\<lambda>l. word_of_nat (length l)) ls)"
proof (induction ls arbitrary: p acc)
  case Nil
  then show ?case by (simp add: seg_lens.simps [of _ "length p"])
next
  case (Cons l ls)
  have "seg_lens ((p @ word_of_nat (length l) # l) @ enc ls @ r)
      (length (p @ (word_of_nat (length l) :: byte) # l)) (acc @ [word_of_nat (length l)]) =
    Some (length (p @ (word_of_nat (length l) :: byte) # l) + length (enc_labels ls),
      (acc @ [word_of_nat (length l)]) @ map (\<lambda>l. word_of_nat (length l)) ls)"
    by (rule Cons.IH) (use Cons.prems in simp_all)
  then show ?case using Cons.prems by (simp add: seg_lens.simps [of _ "length p"])
qed

lemma match_lab_eq:
  "length a = length b \<Longrightarrow>
   \<exists>i j. match_lab (p @ a @ r) (q @ b @ s) (length p + length a) (length q + length b) (length a) =
     Some (lab_eq a b, i, j) \<and> (lab_eq a b \<longrightarrow> i = length p \<and> j = length q)"
proof (induction a b arbitrary: r s rule: rev_induct2)
  case 1
  then show ?case by (simp add: lab_eq_def)
next
  case (4 x a y b)
  have "rd (p @ (a @ [x]) @ r) (length p + length a) = Some x"
    "rd (q @ (b @ [y]) @ s) (length q + length b) = Some y"
    using rd_append_len [of "length p + length a" "p @ a" x r]
      rd_append_len [of "length q + length b" "q @ b" y s] by simp_all
  then show ?case using 4(1) [of "x # r" "y # s"] 4(2) by (auto simp: lab_eq_def)
qed simp_all

lemma match_loop_enc:
  assumes "list_all name_label (ks1 @ ks2)" "list_all name_label (ls1 @ ls2)" "length ks2 = length ls2"
  defines "lens \<equiv> map (\<lambda>l. word_of_nat (length l))"
  shows "match_loop (enc (ks1 @ ks2) @ r) (enc (ls1 @ ls2) @ s) (lens (ks1 @ ks2)) (lens (ls1 @ ls2))
      (min (length (ks1 @ ks2)) (length (ls1 @ ls2))) (length ks2 + 1)
      (length (enc_labels ks1)) (length (enc_labels ls1)) =
    Some (length ks2 + csuf ks1 ls1,
      length (enc_labels (take (length ks1 - csuf ks1 ls1) ks1)),
      length (enc_labels (take (length ls1 - csuf ks1 ls1) ls1)))"
  using assms(1-3)
proof (induction ks1 ls1 arbitrary: ks2 ls2 rule: rev_induct2)
  case (4 x ks y ls)
  have [simp]: "length (lens xs) = length xs" for xs by (simp add: lens_def)
  let ?bx = "word_of_nat (length x) :: byte" and ?by = "word_of_nat (length y) :: byte"
  have rd: "rd (lens ((ks @ [x]) @ ks2)) (length ks) = Some ?bx" "rd (lens ((ls @ [y]) @ ls2)) (length ls) = Some ?by"
    by (simp_all add: lens_def rd_nth nth_append)
  have iff: "?bx = ?by \<longleftrightarrow> length x = length y"
    using "4.prems" by (auto simp: name_label_def byte_of_nat_inj)
  show ?case
  proof (cases "length x = length y")
    case False
    then have "\<not> lab_eq x y" using lab_eq_length by blast
    then show ?thesis using False iff rd "4.prems"
      by (simp add: match_loop.simps [of _ _ _ _ _ "Suc (length ls2)"])
  next
    case True
    let ?ms = "enc ((ks @ [x]) @ ks2) @ r" and ?md = "enc ((ls @ [y]) @ ls2) @ s"
    have ms: "?ms = (enc_labels ks @ [?bx]) @ x @ enc ks2 @ r" "?md = (enc_labels ls @ [?by]) @ y @ enc ls2 @ s"
      by (simp_all add: enc_append)
    obtain i j where m: "match_lab ?ms ?md (length (enc_labels (ks @ [x]))) (length (enc_labels (ls @ [y]))) (length x) =
        Some (lab_eq x y, i, j)" "lab_eq x y \<longrightarrow> i = Suc (length (enc_labels ks)) \<and> j = Suc (length (enc_labels ls))"
      using match_lab_eq [OF True, of "enc_labels ks @ [?bx]" "enc ks2 @ r" "enc_labels ls @ [?by]" "enc ls2 @ s"]
      unfolding ms by auto
    have ux: "unat ?by = length x" using True "4.prems" by simp
    have le: "Suc (length ls2) \<le> min (length ((ks @ [x]) @ ks2)) (length ((ls @ [y]) @ ls2))"
      using "4.prems" by simp
    show ?thesis
    proof (cases "lab_eq x y")
      case False
      then show ?thesis using True iff rd "4.prems" m ux
        by (simp add: match_loop.simps [of _ _ _ _ _ "Suc (length ls2)"])
    next
      case eq: True
      have "match_loop ?ms ?md (lens ((ks @ [x]) @ ks2)) (lens ((ls @ [y]) @ ls2))
          (min (length ((ks @ [x]) @ ks2)) (length ((ls @ [y]) @ ls2))) (length (x # ks2) + 1)
          (length (enc_labels ks)) (length (enc_labels ls)) =
        Some (length (x # ks2) + csuf ks ls, length (enc_labels (take (length ks - csuf ks ls) ks)),
          length (enc_labels (take (length ls - csuf ks ls) ls)))"
        using "4.IH" [of "x # ks2" "y # ls2"] "4.prems" by simp
      then show ?thesis using True iff rd "4.prems" m ux eq
        by (simp add: match_loop.simps [of _ _ _ _ _ "Suc (length ls2)"])
    qed
  qed
qed (simp_all add: match_loop.simps [of _ _ _ _ _ "Suc (length ls2)" for ls2])

lemma domain_match_enc:
  assumes "list_all name_label ks" "list_all name_label ls" "length ks \<le> 128" "length ls \<le> 128"
  shows "domain_match (enc ks @ r) (enc ls @ s) =
    Some (csuf ks ls, length (enc_labels (take (length ks - csuf ks ls) ks)),
      length (enc_labels (take (length ls - csuf ks ls) ls)))"
  using match_loop_enc [of ks "[]" ls "[]" r s] seg_lens_enc [of ks "[]" "[]" r] seg_lens_enc [of ls "[]" "[]" s] assms
  by (cases "length ls < length ks") (simp_all add: domain_match_def min_def)

text \<open>
  \<open>domain_match\<close> on two names of at most 128 labels returns the number of labels of their
  longest common suffix, compared without regard to case, and the offsets at which that suffix
  starts in either name.
\<close>

theorem domain_match_correct:
  assumes "list_all name_label ks" "list_all name_label ls" "length ks \<le> 128" "length ls \<le> 128"
  shows "domain_match (enc ks @ r) (enc ls @ s) =
    Some (csuf ks ls, length (enc_labels (take (length ks - csuf ks ls) ks)),
      length (enc_labels (take (length ls - csuf ks ls) ls)))"
  using assms by (rule domain_match_enc)

theorem domain_match_correct_witness:
  "domain_match [1, 98, 2, 65, 97, 0] [2, 97, 97, 0] = Some (1, 2, 0)"
  using domain_match_correct [of "[[98], [65, 97]]" "[[97, 97]]" "[]" "[]"]
  by (simp add: name_label_def csuf_def lab_eq_def tolower_c_def)

text \<open>What \<open>csuf\<close> is: the length of a common suffix, and no common suffix is longer.\<close>

lemma csuf_le: "csuf ks ls \<le> length ks" "csuf ks ls \<le> length ls"
  by (induction ks ls rule: rev_induct2) auto

lemma cpre_take: "list_all2 lab_eq (take (cpre xs ys) xs) (take (cpre xs ys) ys)"
  by (induction xs ys rule: cpre.induct) auto

lemma cpre_max: "list_all2 lab_eq (take m xs) (take m ys) \<Longrightarrow> m \<le> length xs \<Longrightarrow> m \<le> length ys \<Longrightarrow> m \<le> cpre xs ys"
proof (induction xs ys arbitrary: m rule: cpre.induct)
  case (1 x xs y ys)
  then show ?case by (cases m) auto
qed auto

lemma ci_eq_lab_eq: "ci_eq = list_all2 lab_eq"
  unfolding ci_eq_def lab_eq_def by (rule refl)

lemma ci_eq_length: "ci_eq ks ls \<Longrightarrow> length ks = length ls"
  by (simp add: ci_eq_def list_all2_lengthD)

lemma ci_eq_refl [simp]: "ci_eq ks ks"
  by (simp add: ci_eq_def list_all2_same)

lemma ci_eq_sym: "ci_eq ks ls \<Longrightarrow> ci_eq ls ks"
  by (simp add: ci_eq_def list_all2_conv_all_nth)

lemma ci_eq_trans: "ci_eq ks ls \<Longrightarrow> ci_eq ls ms \<Longrightarrow> ci_eq ks ms"
  by (simp add: ci_eq_def list_all2_conv_all_nth)

lemma ci_eq_append: "ci_eq as bs \<Longrightarrow> ci_eq ks ls \<Longrightarrow> ci_eq (as @ ks) (bs @ ls)"
  unfolding ci_eq_def by (rule list_all2_appendI)

lemma ci_eq_drop: "ci_eq ks ls \<Longrightarrow> ci_eq (drop n ks) (drop n ls)"
  by (simp add: ci_eq_def)

lemma ci_eq_enc_len: "ci_eq ks ls \<Longrightarrow> length (enc ks) = length (enc ls)"
  unfolding ci_eq_def by (induction rule: list_all2_induct) (auto dest: map_eq_imp_length_eq)

lemma csuf_eq: "ci_eq (drop (length ks - csuf ks ls) ks) (drop (length ls - csuf ks ls) ls)"
proof -
  have "list_all2 lab_eq (take (csuf ks ls) (rev ks)) (take (csuf ks ls) (rev ls))"
    unfolding csuf_def by (rule cpre_take)
  then show ?thesis
    by (simp add: take_rev ci_eq_lab_eq)
qed

lemma csuf_max:
  "ci_eq (drop m ks) (drop n ls) \<Longrightarrow> m \<le> length ks \<Longrightarrow> n \<le> length ls \<Longrightarrow> length ks - m \<le> csuf ks ls"
proof -
  assume a: "ci_eq (drop m ks) (drop n ls)" "m \<le> length ks" "n \<le> length ls"
  have l: "length ks - m = length ls - n" using ci_eq_length [OF a(1)] by simp
  have "list_all2 lab_eq (take (length ks - m) (rev ks)) (take (length ks - m) (rev ls))"
  proof -
    have "length ks - (length ks - m) = m" "length ls - (length ks - m) = n" using a l by auto
    then show ?thesis using a(1) by (simp add: take_rev ci_eq_lab_eq)
  qed
  then show ?thesis
    using cpre_max [of "length ks - m" "rev ks" "rev ls"] l by (simp add: csuf_def)
qed

subsection \<open>Names in a growing message\<close>

lemma name_at_append: "name_at msg i ls h n \<Longrightarrow> name_at (msg @ x) i ls h n"
proof (induction rule: name_at.induct)
  case (name_end i)
  then show ?case by (intro name_at.name_end) (auto simp: nth_append)
next
  case (name_lab l i ls h n)
  have "i + 1 + length l < length msg" using name_at_bound [OF name_lab.hyps(5)] .
  then show ?case using name_lab by (intro name_at.name_lab) (auto simp: nth_append)
next
  case (name_ptr i ls h n)
  then show ?case by (intro name_at.name_ptr) (auto simp: nth_append)
qed

lemma name_at_unique:
  "name_at msg i ls h n \<Longrightarrow> name_at msg i ls' h' n' \<Longrightarrow> ls' = ls \<and> h' = h \<and> n' = n"
proof (induction arbitrary: ls' h' n' rule: name_at.induct)
  case (name_end i)
  then show ?case by (simp add: name_at_zero)
next
  case (name_lab l i ls h n)
  have nz: "msg ! i \<noteq> 0" "\<not> 0x3f < msg ! i" "unat (msg ! i) = length l"
    using name_lab.hyps by simp_all
  from name_lab.prems obtain ks m where k: "ls' = take (unat (msg ! i)) (drop (i + 1) msg) # ks"
    "n' = m + 1 + unat (msg ! i)" "name_at msg (i + 1 + unat (msg ! i)) ks h' m"
    unfolding name_at_label [OF name_lab.hyps(2) nz(1,2)] by blast
  have "name_at msg (i + 1 + length l) ks h' m" using k(3) unfolding nz(3) .
  from name_lab.IH [OF this] show ?case using k(1,2) name_lab.hyps(4) unfolding nz(3) by simp
next
  case (name_ptr i ls h n)
  then have "i < length msg" "0x3f < msg ! i" by (auto simp: word_le_nat_alt word_less_nat_alt)
  with name_ptr.prems obtain h0 n0 where k: "h' = Suc h0" "n' = 2"
    "name_at msg (ptr_offs (msg ! i) (msg ! (i + 1))) ls' h0 n0"
    using name_at_ptr [of i msg ls' h' n'] by blast
  from name_ptr.IH [OF k(3)] show ?case using k(1,2) by simp
qed

lemma name_at_labels_prefix:
  "list_all wire_label qs \<Longrightarrow> name_at (pre @ enc_labels qs @ x) (length (pre @ enc_labels qs)) ls h n \<Longrightarrow>
   name_at (pre @ enc_labels qs @ x) (length pre) (qs @ ls) h (length (enc_labels qs) + n)"
proof (induction qs arbitrary: pre)
  case Nil
  then show ?case by simp
next
  case (Cons q qs)
  let ?p = "pre @ word_of_nat (length q) # q"
  have "name_at (?p @ enc_labels qs @ x) (length ?p) (qs @ ls) h (length (enc_labels qs) + n)"
    by (rule Cons.IH) (use Cons.prems in simp_all)
  then have "name_at (pre @ enc_labels (q # qs) @ x) (length pre + 1 + length q) (qs @ ls) h (length (enc_labels qs) + n)"
    by simp
  from name_lab [OF _ _ _ _ this] Cons.prems show ?case
    by (simp add: add.commute add.left_commute)
qed

lemma name_at_enc:
  "list_all wire_label qs \<Longrightarrow> name_at (pre @ enc qs @ x) (length pre) qs 0 (length (enc qs))"
  using name_at_labels_prefix [of qs pre "0 # x" "[]" 0 1] name_end [of "length (pre @ enc_labels qs)" "pre @ enc_labels qs @ 0 # x"]
  by (simp add: enc_eq_enc_labels nth_append)

lemma ptr_bytes_offs:
  assumes "coffs \<le> 0x3fff"
  shows "ptr_bytes coffs = [a, b] \<Longrightarrow> ptr_offs a b = coffs \<and> a \<ge> 0xc0"
proof -
  assume "ptr_bytes coffs = [a, b]"
  then have a: "a = 0xc0 OR word_of_nat (coffs div 256 mod 64)" and b: "b = word_of_nat (coffs mod 256)"
    by (simp_all add: ptr_bytes_def)
  have d: "coffs div 256 < 64" using assms by simp
  have "\<forall>k<64. (0xc0 OR (word_of_nat k :: byte)) AND 0x3f = word_of_nat k \<and> 0xc0 \<le> (0xc0 OR (word_of_nat k :: byte))"
    by code_simp
  with d have "a AND 0x3f = word_of_nat (coffs div 256)" "0xc0 \<le> a" unfolding a by auto
  moreover have "unat (word_of_nat (coffs div 256) :: byte) = coffs div 256" using d by simp
  ultimately show ?thesis by (simp add: ptr_offs_def b)
qed

text \<open>The position of the suffix of a stored name after \<open>m\<close> labels, and when the message really
  has that suffix there, spelled out at least in part.\<close>

definition suf_pos :: "nat \<times> label list \<Rightarrow> nat \<Rightarrow> nat" where
  "suf_pos e m = fst e + length (enc_labels (take m (snd e)))"

definition suf_good :: "byte list \<Rightarrow> nat \<times> label list \<Rightarrow> nat \<Rightarrow> bool" where
  "suf_good msg e m = (m < length (snd e) \<and>
     (\<exists>ls h n. name_at msg (suf_pos e m) ls h n \<and> ci_eq ls (drop m (snd e)) \<and> h < length ls))"

text \<open>The invariant of the list: the suffix of an entry need not stand where its offset says
  (the entry may have been compressed itself), but then an earlier entry has it, no further on.\<close>

definition cb_ok :: "byte list \<Rightarrow> (nat \<times> label list) list \<Rightarrow> bool" where
  "cb_ok msg es = (\<forall>p < length es. wire_name (snd (es ! p)) \<and>
     (\<forall>m < length (snd (es ! p)). suf_pos (es ! p) m \<le> 0x3fff \<longrightarrow>
        (\<exists>p' \<le> p. \<exists>m'. suf_good msg (es ! p') m' \<and> suf_pos (es ! p') m' \<le> suf_pos (es ! p) m \<and>
           ci_eq (drop m' (snd (es ! p'))) (drop m (snd (es ! p))))))"

definition cb_mem :: "(nat \<times> label list) list \<Rightarrow> compel list" where
  "cb_mem es = map (\<lambda>(i, ls). (i, enc ls)) es"

lemma suf_good_append: "suf_good msg e m \<Longrightarrow> suf_good (msg @ x) e m"
  unfolding suf_good_def using name_at_append by blast

lemma suf_good_bound: "suf_good msg e m \<Longrightarrow> suf_pos e m < length msg"
  unfolding suf_good_def by (auto dest: name_at_bound)

lemma suf_pos_mono: "m \<le> m' \<Longrightarrow> suf_pos e m \<le> suf_pos e m'"
proof -
  assume "m \<le> m'"
  then have "take m (snd e) = take m (take m' (snd e))" by (simp add: min_def)
  then have "take m' (snd e) = take m (snd e) @ drop m (take m' (snd e))" by (metis append_take_drop_id)
  then show ?thesis unfolding suf_pos_def by (metis enc_labels_simps(3) add_left_mono le_add1 length_append)
qed

lemma wire_name_count: "wire_name ls \<Longrightarrow> length ls \<le> 128"
proof -
  assume w: "wire_name ls"
  have "list_all wire_label ls \<Longrightarrow> 2 * length ls + 1 \<le> length (enc ls)"
    by (induction ls) (auto simp: wire_label_def Suc_le_eq neq_Nil_conv)
  with w show ?thesis by (simp add: wire_name_def)
qed

text \<open>The match of a stored name with \<open>ks\<close>: where in the stored name it starts.\<close>

definition match_pos :: "label list \<Rightarrow> nat \<times> label list \<Rightarrow> nat" where
  "match_pos ks e = suf_pos e (length (snd e) - csuf ks (snd e))"

text \<open>The result of the search over \<open>es\<close>: either no match at an offset that fits into a pointer,
  or the first entry with a match of that length.\<close>

definition found :: "label list \<Rightarrow> (nat \<times> label list) list \<Rightarrow> nat \<times> nat \<times> nat \<Rightarrow> bool" where
  "found ks es s = (case s of (longest, lrem, coffs) \<Rightarrow>
     (\<forall>e \<in> set es. match_pos ks e \<le> 0x3fff \<longrightarrow> csuf ks (snd e) \<le> longest) \<and>
     (longest > 0 \<longrightarrow> (\<exists>p < length es. csuf ks (snd (es ! p)) = longest \<and> coffs = match_pos ks (es ! p) \<and>
        coffs \<le> 0x3fff \<and> lrem = length (enc_labels (take (length ks - longest) ks)) \<and>
        (\<forall>p' < p. match_pos ks (es ! p') \<le> 0x3fff \<longrightarrow> csuf ks (snd (es ! p')) < longest))))"

lemma found_snoc:
  assumes "found ks es (longest, lrem, coffs)"
  shows "found ks (es @ [e])
    (if csuf ks (snd e) > longest then
       (if match_pos ks e \<le> 0x3fff
        then (csuf ks (snd e), length (enc_labels (take (length ks - csuf ks (snd e)) ks)), match_pos ks e)
        else (longest, lrem, coffs))
     else (longest, lrem, coffs))"
proof -
  have max: "\<And>e. e \<in> set es \<Longrightarrow> match_pos ks e \<le> 0x3fff \<Longrightarrow> csuf ks (snd e) \<le> longest"
    using assms by (auto simp: found_def)
  show ?thesis
  proof (cases "csuf ks (snd e) > longest \<and> match_pos ks e \<le> 0x3fff")
    case True
    have "\<forall>p' < length es. match_pos ks ((es @ [e]) ! p') \<le> 0x3fff \<longrightarrow> csuf ks (snd ((es @ [e]) ! p')) < csuf ks (snd e)"
      using max [OF nth_mem] True by (auto simp: nth_append intro: le_less_trans)
    moreover have "\<forall>x \<in> set (es @ [e]). match_pos ks x \<le> 0x3fff \<longrightarrow> csuf ks (snd x) \<le> csuf ks (snd e)"
      using max True by fastforce
    ultimately show ?thesis using True
      unfolding found_def by (auto intro!: exI [of _ "length es"])
  next
    case False
    have "found ks (es @ [e]) (longest, lrem, coffs)"
    proof (cases "longest > 0")
      case True
      then obtain p where "p < length es" "csuf ks (snd (es ! p)) = longest" "coffs = match_pos ks (es ! p)"
        "coffs \<le> 0x3fff" "lrem = length (enc_labels (take (length ks - longest) ks))"
        "\<forall>p' < p. match_pos ks (es ! p') \<le> 0x3fff \<longrightarrow> csuf ks (snd (es ! p')) < longest"
        using assms by (auto simp: found_def)
      then show ?thesis using max False
        unfolding found_def by (auto simp: nth_append intro!: exI [of _ p])
    next
      case lng: False
      then show ?thesis using max False by (auto simp: found_def)
    qed
    then show ?thesis using False by auto
  qed
qed

lemma comp_search_spec:
  assumes "wire_name ks" "\<forall>e \<in> set es'. wire_name (snd e)" "found ks es s"
  shows "\<exists>s'. comp_search (enc ks @ r) (cb_mem es') s = Some s' \<and> found ks (es @ es') s'"
  using assms(2,3)
proof (induction es' arbitrary: es s)
  case Nil
  then show ?case by (simp add: cb_mem_def)
next
  case (Cons e es')
  obtain longest lrem coffs where s: "s = (longest, lrem, coffs)" by (cases s) auto
  obtain i ls where e: "e = (i, ls)" by (cases e) auto
  have w: "wire_name ls" using Cons.prems e by simp
  have dm: "domain_match (enc ks @ r) (enc ls) = Some (csuf ks ls,
      length (enc_labels (take (length ks - csuf ks ls) ks)), length (enc_labels (take (length ls - csuf ks ls) ls)))"
    using domain_match_enc [of ks ls r "[]"] wire_name_labels wire_name_count assms(1) w by simp
  have pos: "match_pos ks e = i + length (enc_labels (take (length ls - csuf ks ls) ls))"
    by (simp add: match_pos_def suf_pos_def e)
  let ?s = "if csuf ks (snd e) > longest then
       (if match_pos ks e \<le> 0x3fff
        then (csuf ks (snd e), length (enc_labels (take (length ks - csuf ks (snd e)) ks)), match_pos ks e)
        else (longest, lrem, coffs))
     else (longest, lrem, coffs)"
  have f: "found ks (es @ [e]) ?s" using found_snoc [of ks es longest lrem coffs e] Cons.prems(2) s by simp
  have step: "comp_search (enc ks @ r) (cb_mem (e # es')) s = comp_search (enc ks @ r) (cb_mem es') ?s"
    using dm pos by (simp add: s e cb_mem_def Let_def)
  from Cons.IH [OF _ f] Cons.prems(1) obtain s' where
    "comp_search (enc ks @ r) (cb_mem es') ?s = Some s'" "found ks ((es @ [e]) @ es') s'" by auto
  then show ?case using step by auto
qed

lemma found_Nil: "found ks [] (0, 0, 0)"
  by (simp add: found_def)

text \<open>The first longest match is one the message really has.\<close>

lemma found_good:
  assumes "cb_ok msg es" "found ks es (longest, lrem, coffs)" "0 < longest"
  obtains p m where "p < length es" "suf_good msg (es ! p) m" "coffs = suf_pos (es ! p) m" "coffs \<le> 0x3fff"
    "ci_eq (drop (length ks - longest) ks) (drop m (snd (es ! p)))" "longest \<le> length ks"
    "longest = length (snd (es ! p)) - m" "lrem = length (enc_labels (take (length ks - longest) ks))"
proof -
  obtain p where p: "p < length es" "csuf ks (snd (es ! p)) = longest" "coffs = match_pos ks (es ! p)"
    "coffs \<le> 0x3fff" "lrem = length (enc_labels (take (length ks - longest) ks))"
    and first: "\<And>p'. p' < p \<Longrightarrow> match_pos ks (es ! p') \<le> 0x3fff \<Longrightarrow> csuf ks (snd (es ! p')) < longest"
    using assms(2,3) by (auto simp: found_def)
  let ?ls = "snd (es ! p)"
  let ?m = "length ?ls - longest"
  have m: "?m < length ?ls" using csuf_le(2) [of ks ?ls] p(2) assms(3) by simp
  have eq: "ci_eq (drop (length ks - longest) ks) (drop ?m ?ls)"
    using csuf_eq [of ks ?ls] p(2) by simp
  have pos: "suf_pos (es ! p) ?m = coffs" using p(2,3) by (simp add: match_pos_def)
  with assms(1) p(1,4) m obtain p' m' where p': "p' \<le> p" "suf_good msg (es ! p') m'"
    "suf_pos (es ! p') m' \<le> coffs" "ci_eq (drop m' (snd (es ! p'))) (drop ?m ?ls)"
    unfolding cb_ok_def by metis
  have le: "longest \<le> length ks" using csuf_le(1) [of ks ?ls] p(2) by simp
  have m': "m' < length (snd (es ! p'))" using p'(2) by (simp add: suf_good_def)
  have len: "length (snd (es ! p')) - m' = longest"
    using ci_eq_length [OF p'(4)] m p(2) csuf_le(2) [of ks ?ls] by simp
  have ceq: "ci_eq (drop (length ks - longest) ks) (drop m' (snd (es ! p')))"
    using ci_eq_trans [OF eq ci_eq_sym [OF p'(4)]] .
  have "p' = p"
  proof (rule ccontr)
    assume "p' \<noteq> p"
    then have lt: "p' < p" using p'(1) by simp
    have c: "longest \<le> csuf ks (snd (es ! p'))"
      using csuf_max [OF ceq] le m' by simp
    have "match_pos ks (es ! p') \<le> suf_pos (es ! p') m'"
      unfolding match_pos_def using c len by (intro suf_pos_mono) simp
    then have "match_pos ks (es ! p') \<le> 0x3fff" using p'(3) p(4) by simp
    from first [OF lt this] c show False by simp
  qed
  moreover have "m' = ?m" using len m' \<open>p' = p\<close> by simp
  ultimately show ?thesis
    using that [OF p(1)] p'(2) pos p(4,5) eq le len by simp
qed

lemma take_match_len:
  assumes "ci_eq ks ls"
  shows "length (enc_labels (take n ks)) = length (enc_labels (take n ls))"
proof -
  have "ci_eq (take n ks) (take n ls)" using assms unfolding ci_eq_def by (rule list_all2_takeI)
  then show ?thesis using ci_eq_enc_len by (simp add: enc_eq_enc_labels)
qed

lemma suf_pos_split: "m0 \<le> m \<Longrightarrow>
    suf_pos e m = suf_pos e m0 + length (enc_labels (take (m - m0) (drop m0 (snd e))))"
proof -
  assume "m0 \<le> m"
  then have "take m (snd e) = take m0 (snd e) @ take (m - m0) (drop m0 (snd e))"
    using take_add [of m0 "m - m0" "snd e"] by simp
  then show ?thesis by (simp add: suf_pos_def)
qed

text \<open>Extending the message and the list keeps the invariant.\<close>

lemma cb_ok_append: "cb_ok msg es \<Longrightarrow> cb_ok (msg @ x) es"
  unfolding cb_ok_def using suf_good_append by metis

lemma cb_ok_snoc:
  assumes "cb_ok msg es" "wire_name ks"
    "\<And>m. m < length ks \<Longrightarrow> suf_pos (length msg0, ks) m \<le> 0x3fff \<Longrightarrow>
      suf_good msg (length msg0, ks) m \<or>
      (\<exists>p < length es. \<exists>m'. suf_good msg (es ! p) m' \<and> suf_pos (es ! p) m' \<le> suf_pos (length msg0, ks) m \<and>
         ci_eq (drop m' (snd (es ! p))) (drop m ks))"
  shows "cb_ok msg (es @ [(length msg0, ks)])"
  unfolding cb_ok_def
proof (intro allI impI conjI)
  fix p assume p: "p < length (es @ [(length msg0, ks)])"
  show "wire_name (snd ((es @ [(length msg0, ks)]) ! p))"
    using assms(1,2) p by (auto simp: cb_ok_def nth_append)
  fix m assume m: "m < length (snd ((es @ [(length msg0, ks)]) ! p))"
    "suf_pos ((es @ [(length msg0, ks)]) ! p) m \<le> 0x3fff"
  show "\<exists>p' \<le> p. \<exists>m'. suf_good msg ((es @ [(length msg0, ks)]) ! p') m' \<and>
      suf_pos ((es @ [(length msg0, ks)]) ! p') m' \<le> suf_pos ((es @ [(length msg0, ks)]) ! p) m \<and>
      ci_eq (drop m' (snd ((es @ [(length msg0, ks)]) ! p'))) (drop m (snd ((es @ [(length msg0, ks)]) ! p)))"
  proof (cases "p < length es")
    case True
    then obtain p' m' where "p' \<le> p" "suf_good msg (es ! p') m'" "suf_pos (es ! p') m' \<le> suf_pos (es ! p) m"
      "ci_eq (drop m' (snd (es ! p'))) (drop m (snd (es ! p)))"
      using assms(1) m unfolding cb_ok_def by (simp add: nth_append) blast
    then show ?thesis using True
      by (intro exI [of _ p'] conjI exI [of _ m']) (simp_all add: nth_append)
  next
    case False
    then have pe: "p = length es" using p by simp
    then have "m < length ks" "suf_pos (length msg0, ks) m \<le> 0x3fff" using m by simp_all
    from assms(3) [OF this] show ?thesis
    proof
      assume "suf_good msg (length msg0, ks) m"
      then show ?thesis using pe by (intro exI [of _ p] conjI exI [of _ m]) simp_all
    next
      assume "\<exists>p < length es. \<exists>m'. suf_good msg (es ! p) m' \<and> suf_pos (es ! p) m' \<le> suf_pos (length msg0, ks) m \<and>
         ci_eq (drop m' (snd (es ! p))) (drop m ks)"
      then obtain q m' where "q < length es" "suf_good msg (es ! q) m'"
        "suf_pos (es ! q) m' \<le> suf_pos (length msg0, ks) m" "ci_eq (drop m' (snd (es ! q))) (drop m ks)" by blast
      then show ?thesis using pe
        by (intro exI [of _ q] conjI exI [of _ m']) (simp_all add: nth_append)
    qed
  qed
qed

text \<open>A name written out in full.\<close>

lemma cb_ok_plain:
  assumes "cb_ok msg es" "wire_name ks"
  shows "cb_ok (msg @ enc ks) (es @ [(length msg, ks)])"
proof (rule cb_ok_snoc [OF cb_ok_append [OF assms(1)] assms(2)])
  fix m assume m: "m < length ks"
  have w: "list_all wire_label (drop m ks)" using assms(2)
    by (auto simp: wire_name_def list_all_iff dest: in_set_dropD)
  have "enc ks = enc_labels (take m ks) @ enc (drop m ks)" by (metis append_take_drop_id enc_append)
  then have "name_at (msg @ enc ks) (length (msg @ enc_labels (take m ks))) (drop m ks) 0 (length (enc (drop m ks)))"
    using name_at_enc [OF w, of "msg @ enc_labels (take m ks)" "[]"] by simp
  then have "suf_good (msg @ enc ks) (length msg, ks) m"
    unfolding suf_good_def suf_pos_def using m by (auto intro!: exI [of _ "drop m ks"])
  then show "suf_good (msg @ enc ks) (length msg, ks) m \<or> (\<exists>p < length es. \<exists>m'. suf_good (msg @ enc ks) (es ! p) m' \<and>
     suf_pos (es ! p) m' \<le> suf_pos (length msg, ks) m \<and> ci_eq (drop m' (snd (es ! p))) (drop m ks))" ..
qed

text \<open>A name whose last labels are replaced by a pointer to a good suffix.\<close>

lemma name_at_compressed:
  assumes "suf_good msg e m0" "suf_pos e m0 = coffs" "coffs \<le> 0x3fff" "list_all wire_label qs"
  obtains ls h n where "ci_eq ls (drop m0 (snd e))" "h < length ls"
    "\<And>m. m \<le> length qs \<Longrightarrow>
      name_at (msg @ enc_labels qs @ ptr_bytes coffs) (length msg + length (enc_labels (take m qs)))
        (drop m qs @ ls) (Suc h) (length (enc_labels (drop m qs)) + 2)"
proof -
  obtain ls h n where ls: "name_at msg coffs ls h n" "ci_eq ls (drop m0 (snd e))" "h < length ls"
    using assms(1,2) by (auto simp: suf_good_def)
  obtain a b where ab: "ptr_bytes coffs = [a, b]" by (simp add: ptr_bytes_def)
  let ?msg = "msg @ enc_labels qs @ ptr_bytes coffs"
  have "name_at ?msg (length msg + length (enc_labels (take m qs))) (drop m qs @ ls) (Suc h)
      (length (enc_labels (drop m qs)) + 2)" if m: "m \<le> length qs" for m
  proof -
    have s: "enc_labels qs = enc_labels (take m qs) @ enc_labels (drop m qs)"
      by (metis append_take_drop_id enc_labels_simps(3))
    have po: "ptr_offs a b = coffs" "a \<ge> 0xc0" using ptr_bytes_offs [OF assms(3) ab] by simp_all
    have "name_at ?msg (length (msg @ enc_labels qs)) ls (Suc h) 2"
    proof (rule name_ptr)
      show "length (msg @ enc_labels qs) + 1 < length ?msg" using ab by simp
      have nth: "?msg ! length (msg @ enc_labels qs) = a" "?msg ! (length (msg @ enc_labels qs) + 1) = b"
        using ab by (simp_all add: nth_append)
      show "0xc0 \<le> ?msg ! length (msg @ enc_labels qs)" unfolding nth by (rule po)
      show "name_at ?msg (ptr_offs (?msg ! length (msg @ enc_labels qs)) (?msg ! (length (msg @ enc_labels qs) + 1))) ls h n"
        unfolding nth po using name_at_append [OF ls(1)] .
    qed
    moreover have "list_all wire_label (drop m qs)" using assms(4)
      by (auto simp: list_all_iff dest: in_set_dropD)
    ultimately have "name_at ((msg @ enc_labels (take m qs)) @ enc_labels (drop m qs) @ ptr_bytes coffs)
        (length (msg @ enc_labels (take m qs))) (drop m qs @ ls) (Suc h) (length (enc_labels (drop m qs)) + 2)"
      using name_at_labels_prefix [of "drop m qs" "msg @ enc_labels (take m qs)" "ptr_bytes coffs" ls "Suc h" 2]
      by (simp add: s)
    then show ?thesis by (simp add: s)
  qed
  with that [OF ls(2,3)] show ?thesis by blast
qed

lemma cb_ok_compressed:
  assumes "cb_ok msg es" "wire_name ks" "p < length es" "suf_good msg (es ! p) m0" "suf_pos (es ! p) m0 = coffs"
    "coffs \<le> 0x3fff" "a \<le> length ks" "ci_eq (drop a ks) (drop m0 (snd (es ! p)))"
  shows "cb_ok (msg @ enc_labels (take a ks) @ ptr_bytes coffs) (es @ [(length msg, ks)])"
proof (rule cb_ok_snoc [OF cb_ok_append [OF assms(1)] assms(2)])
  let ?msg = "msg @ enc_labels (take a ks) @ ptr_bytes coffs"
  fix m assume m: "m < length ks" "suf_pos (length msg, ks) m \<le> 0x3fff"
  have w: "list_all wire_label (take a ks)"
    using assms(2) by (auto simp: wire_name_def list_all_iff dest: in_set_takeD)
  show "suf_good ?msg (length msg, ks) m \<or> (\<exists>p < length es. \<exists>m'. suf_good ?msg (es ! p) m' \<and>
     suf_pos (es ! p) m' \<le> suf_pos (length msg, ks) m \<and> ci_eq (drop m' (snd (es ! p))) (drop m ks))"
  proof (cases "m < a")
    case True
    obtain ls h n where ls: "ci_eq ls (drop m0 (snd (es ! p)))" "h < length ls"
      "\<And>m. m \<le> length (take a ks) \<Longrightarrow>
        name_at ?msg (length msg + length (enc_labels (take m (take a ks))))
          (drop m (take a ks) @ ls) (Suc h) (length (enc_labels (drop m (take a ks))) + 2)"
      using name_at_compressed [OF assms(4,5,6) w] by blast
    have "name_at ?msg (suf_pos (length msg, ks) m) (drop m (take a ks) @ ls) (Suc h)
        (length (enc_labels (drop m (take a ks))) + 2)"
      using ls(3) [of m] True m(1) by (simp add: suf_pos_def min_def)
    moreover have "ci_eq (drop m (take a ks) @ ls) (drop m ks)"
    proof -
      have "drop m ks = drop m (take a ks) @ drop a ks"
        using True assms(7) by (metis append_take_drop_id drop_append diff_is_0_eq drop_0 length_take less_imp_le min.absorb2)
      moreover have "ci_eq ls (drop a ks)" using ci_eq_trans [OF ls(1) ci_eq_sym [OF assms(8)]] .
      ultimately show ?thesis using ci_eq_append [OF ci_eq_refl] by metis
    qed
    moreover have "Suc h < length (drop m (take a ks) @ ls)" using ls(2) True assms(7) by simp
    ultimately have "suf_good ?msg (length msg, ks) m" unfolding suf_good_def using m(1)
      unfolding snd_conv by blast
    then show ?thesis ..
  next
    case False
    let ?e = "es ! p" and ?m = "m0 + (m - a)"
    have len: "length ks - a = length (snd ?e) - m0" using ci_eq_length [OF assms(8)] by simp
    have m0: "m0 < length (snd ?e)" using assms(4) by (simp add: suf_good_def)
    have m2: "?m < length (snd ?e)" using len m0 m(1) False assms(7) by simp
    have pos: "suf_pos ?e ?m = coffs + length (enc_labels (take (m - a) (drop m0 (snd ?e))))"
      using suf_pos_split [of m0 ?m ?e] assms(5) by simp
    have "suf_pos (length msg, ks) m = suf_pos (length msg, ks) a + length (enc_labels (take (m - a) (drop a ks)))"
      using suf_pos_split [of a m "(length msg, ks)"] False by simp
    moreover have "coffs < suf_pos (length msg, ks) a"
      using suf_good_bound [OF assms(4)] assms(5) by (simp add: suf_pos_def)
    moreover have "length (enc_labels (take (m - a) (drop a ks))) = length (enc_labels (take (m - a) (drop m0 (snd ?e))))"
      by (rule take_match_len [OF assms(8)])
    ultimately have le: "suf_pos ?e ?m \<le> suf_pos (length msg, ks) m" using pos by simp
    then have "suf_pos ?e ?m \<le> 0x3fff" using m(2) by simp
    with assms(1,3) m2 obtain p' m' where p': "p' \<le> p" "suf_good msg (es ! p') m'"
      "suf_pos (es ! p') m' \<le> suf_pos ?e ?m" "ci_eq (drop m' (snd (es ! p'))) (drop ?m (snd ?e))"
      unfolding cb_ok_def by metis
    have "ci_eq (drop (m - a) (drop a ks)) (drop (m - a) (drop m0 (snd ?e)))"
      by (rule ci_eq_drop [OF assms(8)])
    then have "ci_eq (drop m ks) (drop ?m (snd ?e))" using False by (simp add: add.commute)
    from ci_eq_trans [OF p'(4) ci_eq_sym [OF this]]
    have "ci_eq (drop m' (snd (es ! p'))) (drop m ks)" .
    moreover have "suf_good ?msg (es ! p') m'" using suf_good_append [OF p'(2)] .
    moreover have "suf_pos (es ! p') m' \<le> suf_pos (length msg, ks) m" using p'(3) le by simp
    moreover have "p' < length es" using p'(1) assms(3) by simp
    ultimately show ?thesis by (intro disjI2 exI [of _ p'] conjI exI [of _ m'])
  qed
qed

text \<open>Reading back a name of the message.\<close>

lemma decompress_nameI:
  assumes "name_at msg src ls h n" "h \<le> 255" "n \<le> sz" "length (enc ls) \<le> DNSNAMEBUFSIZE" "DNSNAMEBUFSIZE \<le> length tgt"
  shows "decompress_name msg src sz tgt =
    Some (RC_OK, src + n, sz - n, enc ls @ drop (length (enc ls)) tgt, Some (length (enc ls)))"
proof -
  have ex: "\<exists>ls h n. name_at msg src ls h n \<and> h \<le> 255 \<and> n \<le> sz \<and> length (enc ls) \<le> DNSNAMEBUFSIZE"
    using assms by blast
  from decompress_name_spec [OF assms(5), of msg src sz] obtain rc src' sz' tgt' len where
    d: "decompress_name msg src sz tgt = Some (rc, src', sz', tgt', len)" "rc = RC_OK" and
    e: "\<exists>ls h n. name_at msg src ls h n \<and> wire_name ls \<and> n \<le> sz \<and>
            src' = src + n \<and> sz' = sz - n \<and> len = Some (length (enc ls)) \<and>
            tgt' = enc ls @ drop (length (enc ls)) tgt"
    unfolding if_P [OF ex] by blast
  from e obtain ls' h' n' where "name_at msg src ls' h' n'" "src' = src + n'" "sz' = sz - n'"
    "len = Some (length (enc ls'))" "tgt' = enc ls' @ drop (length (enc ls')) tgt" by blast
  with name_at_unique [OF assms(1), of ls' h' n'] d show ?thesis by simp
qed

lemma wrn_wrn_app:
  assumes "length as + length bs \<le> length out"
  shows "wrn out 0 as = Some (splice out 0 as)"
    "wrn (splice out 0 as) (length as) bs = Some (as @ bs @ drop (length as + length bs) out)"
proof -
  show "wrn out 0 as = Some (splice out 0 as)" using assms by (intro wrn_splice) simp
  have "wrn (splice out 0 as) (length as) bs = Some (splice (splice out 0 as) (length as) bs)"
    using assms by (intro wrn_splice) simp
  then show "wrn (splice out 0 as) (length as) bs = Some (as @ bs @ drop (length as + length bs) out)"
    using assms by (simp add: splice_splice) (simp add: splice_def)
qed

text \<open>What \<open>compress_name\<close> does: it appends bytes \<open>bs\<close> and perhaps a name to the list, which depends
  on the list only; when the list was valid for a message, it stays so and the name stands there.\<close>

lemma compress_name_spec:
  assumes "\<forall>e \<in> set es. wire_name (snd e)" "wire_name ks" "length (enc ks) \<le> length out"
  shows "\<exists>bs add. 0 < length bs \<and> length bs \<le> length (enc ks) \<and>
    (\<forall>alloc. compress_name (enc ks @ r) out offs (cb_mem es) alloc = Some
      (if add \<and> \<not> alloc then (0, bs @ drop (length bs) out, [])
       else (length bs, bs @ drop (length bs) out, cb_mem (if add then es @ [(offs, ks)] else es)))) \<and>
    (\<forall>msg. length msg = offs \<longrightarrow> cb_ok msg es \<longrightarrow>
      cb_ok (msg @ bs) (if add then es @ [(offs, ks)] else es) \<and>
      (\<exists>ls h. name_at (msg @ bs) offs ls h (length bs) \<and> ci_eq ls ks \<and> h \<le> 255))"
proof -
  have nl: "list_all name_label ks" by (rule wire_name_labels [OF assms(2)])
  have le: "length (enc ks) \<le> DNSNAMEBUFSIZE" using assms(2) by (simp add: wire_name_def)
  obtain longest lrem coffs where search: "comp_search (enc ks @ r) (cb_mem es) (0, 0, 0) = Some (longest, lrem, coffs)"
    and f: "found ks es (longest, lrem, coffs)"
    using comp_search_spec [OF assms(2,1) found_Nil, of r] by auto
  note len = rhnlen_enc [OF nl, of r]
  have full: "rdn (enc ks @ r) 0 (length (enc ks)) = Some (enc ks)" by (simp add: rdn_def)
  have mem: "cb_mem es @ [(offs, enc ks)] = cb_mem (es @ [(offs, ks)])" by (simp add: cb_mem_def)
  show ?thesis
  proof (cases "0 < longest")
    case False
    have c: "compress_name (enc ks @ r) out offs (cb_mem es) alloc = Some
        (if \<not> alloc then (0, enc ks @ drop (length (enc ks)) out, [])
         else (length (enc ks), enc ks @ drop (length (enc ks)) out, cb_mem (es @ [(offs, ks)])))" for alloc
      using False search len full le assms(3) mem by (simp add: compress_name_def wrn_def)
    have st: "cb_ok (msg @ enc ks) (es @ [(offs, ks)]) \<and>
        (\<exists>ls h. name_at (msg @ enc ks) offs ls h (length (enc ks)) \<and> ci_eq ls ks \<and> h \<le> 255)"
      if m: "length msg = offs" "cb_ok msg es" for msg
    proof -
      have "name_at (msg @ enc ks) (length msg) ks 0 (length (enc ks))"
        using name_at_enc [of ks msg "[]"] assms(2) by (simp add: wire_name_def)
      then show ?thesis using cb_ok_plain [OF m(2) assms(2)] m(1) ci_eq_refl by blast
    qed
    show ?thesis using c st
      by (intro exI [of _ "enc ks"] exI [of _ True]) simp
  next
    case True
    let ?a = "length ks - longest"
    have lng: "longest \<le> length ks" "lrem = length (enc_labels (take ?a ks))"
      using f True csuf_le by (auto simp: found_def)
    let ?q = "enc_labels (take ?a ks)" and ?bs = "enc_labels (take ?a ks) @ ptr_bytes coffs"
    have w: "list_all wire_label (take ?a ks)" "list_all wire_label (drop ?a ks)"
      using assms(2) by (auto simp: wire_name_def list_all_iff dest: in_set_takeD in_set_dropD)
    have split: "enc ks = ?q @ enc (drop ?a ks)" by (metis append_take_drop_id enc_append)
    obtain d ds where d: "drop ?a ks = d # ds" using True lng(1) by (cases "drop ?a ks") auto
    then have ge: "3 \<le> length (enc (drop ?a ks))"
      using w(2) by (cases d) (auto simp: wire_label_def Suc_le_eq)
    have lrem: "lrem + 2 \<le> length (enc ks)" "length ?bs = lrem + 2" "length ?bs \<le> length out"
      using split ge lng(2) assms(3) by (simp_all add: ptr_bytes_def)
    have rd: "rdn (enc ks @ r) 0 lrem = Some ?q" using split lng(2) by (simp add: rdn_def)
    have wr: "wrn out 0 ?q = Some (splice out 0 ?q)"
      "wrn (splice out 0 ?q) lrem (ptr_bytes coffs) = Some (?bs @ drop (length ?bs) out)"
      using wrn_wrn_app [of ?q "ptr_bytes coffs" out] lrem(3) lng(2) by simp_all
    let ?es = "if lrem \<noteq> 0 then es @ [(offs, ks)] else es"
    have c: "compress_name (enc ks @ r) out offs (cb_mem es) alloc = Some
        (if lrem \<noteq> 0 \<and> \<not> alloc then (0, ?bs @ drop (length ?bs) out, [])
         else (length ?bs, ?bs @ drop (length ?bs) out, cb_mem ?es))" for alloc
      using True search len full le mem rd wr lrem by (simp add: compress_name_def)
    have st: "cb_ok (msg @ ?bs) ?es \<and> (\<exists>ls h. name_at (msg @ ?bs) offs ls h (length ?bs) \<and> ci_eq ls ks \<and> h \<le> 255)"
      if m: "length msg = offs" "cb_ok msg es" for msg
    proof -
      obtain p m0 where g: "p < length es" "suf_good msg (es ! p) m0" "coffs = suf_pos (es ! p) m0" "coffs \<le> 0x3fff"
        "ci_eq (drop ?a ks) (drop m0 (snd (es ! p)))"
        using found_good [OF m(2) f True] by metis
      have ok: "cb_ok (msg @ ?bs) ?es"
        using cb_ok_compressed [OF m(2) assms(2) g(1,2) g(3)[symmetric] g(4) _ g(5)] cb_ok_append [OF m(2)] m(1) by simp
      obtain ls h n where ls: "ci_eq ls (drop m0 (snd (es ! p)))" "h < length ls"
        and at: "\<And>m. m \<le> length (take ?a ks) \<Longrightarrow>
          name_at (msg @ ?bs) (length msg + length (enc_labels (take m (take ?a ks))))
            (drop m (take ?a ks) @ ls) (Suc h) (length (enc_labels (drop m (take ?a ks))) + 2)"
        using name_at_compressed [OF g(2) g(3)[symmetric] g(4) w(1)] by blast
      have eq: "ci_eq (take ?a ks @ ls) ks"
        using ci_eq_append [OF ci_eq_refl [of "take ?a ks"] ci_eq_trans [OF ls(1) ci_eq_sym [OF g(5)]]] by simp
      have "length ls \<le> length ks" using ci_eq_length [OF eq] by simp
      then have h: "Suc h \<le> 255" using ls(2) wire_name_count [OF assms(2)] by simp
      have n: "name_at (msg @ ?bs) offs (take ?a ks @ ls) (Suc h) (length ?bs)"
        using at [of 0] m(1) by (simp add: ptr_bytes_def)
      show ?thesis using ok n eq h by blast
    qed
    have "0 < length ?bs" "length ?bs \<le> length (enc ks)" using lrem by simp_all
    then show ?thesis using c st
      by (intro exI [of _ ?bs] exI [of _ "lrem \<noteq> 0"]) simp
  qed
qed

lemma cb_ok_names: "cb_ok msg es \<Longrightarrow> \<forall>e \<in> set es. wire_name (snd e)"
  unfolding cb_ok_def by (metis in_set_conv_nth)

text \<open>
  C34. Compressing and decompressing: when every stored name is really in the message (\<open>cb_ok\<close>),
  \<open>compress_name\<close> terminates within its assertions, writes at most as many bytes as the name has,
  keeps the stored names valid for the extended message, and what it wrote is read back by
  \<open>decompress_name\<close>, wherever the message ends, as the same name up to the case of its letters.
\<close>

theorem compress_name_roundtrip:
  assumes "cb_ok msg es" "wire_name ks" "length (enc ks) \<le> length out"
  shows "\<exists>rl out' es' ls. compress_name (enc ks @ r) out (length msg) (cb_mem es) True = Some (rl, out', cb_mem es') \<and>
    0 < rl \<and> rl \<le> length (enc ks) \<and> length out' = length out \<and> drop rl out' = drop rl out \<and>
    cb_ok (msg @ take rl out') es' \<and> ci_eq ls ks \<and>
    (\<forall>x sz tgt. rl \<le> sz \<longrightarrow> DNSNAMEBUFSIZE \<le> length tgt \<longrightarrow>
      decompress_name (msg @ take rl out' @ x) (length msg) sz tgt =
        Some (RC_OK, length msg + rl, sz - rl, enc ls @ drop (length (enc ls)) tgt, Some (length (enc ls))))"
proof -
  have le: "length (enc ks) \<le> DNSNAMEBUFSIZE" using assms(2) by (simp add: wire_name_def)
  obtain bs add where bs: "0 < length bs" "length bs \<le> length (enc ks)" and
    c: "\<forall>alloc. compress_name (enc ks @ r) out (length msg) (cb_mem es) alloc = Some
      (if add \<and> \<not> alloc then (0, bs @ drop (length bs) out, [])
       else (length bs, bs @ drop (length bs) out, cb_mem (if add then es @ [(length msg, ks)] else es)))" and
    st: "\<forall>m. length m = length msg \<longrightarrow> cb_ok m es \<longrightarrow>
      cb_ok (m @ bs) (if add then es @ [(length msg, ks)] else es) \<and>
      (\<exists>ls h. name_at (m @ bs) (length msg) ls h (length bs) \<and> ci_eq ls ks \<and> h \<le> 255)"
    using compress_name_spec [OF cb_ok_names [OF assms(1)] assms(2,3), of r "length msg"]
    by (elim exE conjE) (rule that)
  obtain ls h where n: "name_at (msg @ bs) (length msg) ls h (length bs)" "ci_eq ls ks" "h \<le> 255"
    and ok: "cb_ok (msg @ bs) (if add then es @ [(length msg, ks)] else es)" using st assms(1) by blast
  have read: "decompress_name (msg @ bs @ x) (length msg) sz tgt =
      Some (RC_OK, length msg + length bs, sz - length bs, enc ls @ drop (length (enc ls)) tgt, Some (length (enc ls)))"
    if "length bs \<le> sz" "DNSNAMEBUFSIZE \<le> length tgt" for x sz tgt
    using decompress_nameI [OF name_at_append [OF n(1)] n(3) that(1) _ that(2), of x]
      ci_eq_enc_len [OF n(2)] le by simp
  have c1: "compress_name (enc ks @ r) out (length msg) (cb_mem es) True =
      Some (length bs, bs @ drop (length bs) out, cb_mem (if add then es @ [(length msg, ks)] else es))"
    using c [rule_format, of True] by simp
  have e: "take (length bs) (bs @ drop (length bs) out) = bs"
    "drop (length bs) (bs @ drop (length bs) out) = drop (length bs) out"
    "length (bs @ drop (length bs) out) = length out" using bs assms(3) by simp_all
  show ?thesis
    using c1 bs ok n(2) read
    by (intro exI [of _ "length bs"] exI [of _ "bs @ drop (length bs) out"]
        exI [of _ "if add then es @ [(length msg, ks)] else es"] exI [of _ ls] conjI allI impI)
      (simp_all only: e append_assoc)
qed

theorem compress_name_roundtrip_witness:
  "\<exists>rl out' cb'. compress_name [1, 98, 1, 65, 0] (replicate 9 0) 3 [(0, [1, 97, 0])] True = Some (rl, out', cb') \<and>
     0 < rl \<and> rl \<le> 5 \<and> length out' = 9"
proof -
  have w: "wire_name [[97]]" "wire_name [[98], [65]]" by (simp_all add: wire_name_def wire_label_def)
  have "cb_ok [] []" by (simp add: cb_ok_def)
  from cb_ok_plain [OF this w(1)] have ok: "cb_ok [1, 97, 0] [(0, [[97]])]" by simp
  have "length (enc [[98], [65]]) \<le> length (replicate 9 (0 :: byte))" by simp
  from compress_name_roundtrip [OF ok w(2) this, of "[]"] show ?thesis
    by (auto simp: cb_mem_def numeral_3_eq_3 eval_nat_numeral)
qed

subsection \<open>\<open>a2ptrstr\<close>\<close>

text \<open>Decimal and hexadecimal digits as \<open>snprintf\<close> prints \<open>%u\<close> of a byte and \<open>%x\<close> of a nibble.\<close>

definition dec_byte :: "byte \<Rightarrow> byte list" where
  "dec_byte b =
     (let n = unat b in
      if n < 10 then [word_of_nat (48 + n)]
      else if n < 100 then [word_of_nat (48 + n div 10), word_of_nat (48 + n mod 10)]
      else [word_of_nat (48 + n div 100), word_of_nat (48 + n div 10 mod 10), word_of_nat (48 + n mod 10)])"

definition hex_nibble :: "byte \<Rightarrow> byte" where
  "hex_nibble d = (let n = unat (d AND 0xf) in if n < 10 then word_of_nat (48 + n) else word_of_nat (87 + n))"

definition in_addr_arpa :: "byte list" where
  "in_addr_arpa = [46, 105, 110, 45, 97, 100, 100, 114, 46, 97, 114, 112, 97, 46]"

definition ip6_arpa :: "byte list" where
  "ip6_arpa = [105, 112, 54, 46, 97, 114, 112, 97, 46]"

text \<open>\<open>strncp\<close> of a C string \<open>src\<close> (given without its zero byte): \<open>strncpy\<close> pads with zeros.\<close>

definition strncp :: "byte list \<Rightarrow> nat \<Rightarrow> byte list \<Rightarrow> nat \<Rightarrow> (bool \<times> byte list) option" where
  "strncp dst i src dstsz =
     do {
       dst1 \<leftarrow> wrn dst i (take dstsz (src @ replicate dstsz 0));
       if length src < dstsz then Some (True, dst1)
       else do { must (0 < dstsz); dst2 \<leftarrow> wr dst1 (i + dstsz - 1) 0; Some (False, dst2) }
     }"

text \<open>The loop over the bytes of an IPv6 address, from the last to the first.\<close>

fun a2ptrstr_aaaa :: "byte list \<Rightarrow> nat \<Rightarrow> byte list \<Rightarrow> (bool \<times> nat \<times> byte list) option" where
  "a2ptrstr_aaaa [] offs buf = Some (True, offs, buf)"
| "a2ptrstr_aaaa (bt # bts) offs buf =
     do {
       buf1 \<leftarrow> snprintf_wr buf offs (DNSNAMEBUFSIZE - offs)
                [hex_nibble (bt AND 0xf), 46, hex_nibble (drop_bit 4 bt AND 0xf), 46];
       if offs + 4 \<ge> DNSNAMEBUFSIZE then Some (False, offs + 4, buf1)
       else a2ptrstr_aaaa bts (offs + 4) buf1
     }"

text \<open>\<open>addr\<close> holds the bytes of the address in network order.\<close>

definition a2ptrstr :: "byte list \<Rightarrow> int \<Rightarrow> byte list \<Rightarrow> (bool \<times> byte list) option" where
  "a2ptrstr addr tp buf =
     (if tp = T_A then do {
        p \<leftarrow> rdn addr 0 4;
        let s = dec_byte (p ! 3) @ 46 # dec_byte (p ! 2) @ 46 # dec_byte (p ! 1) @ 46 # dec_byte (p ! 0) @ in_addr_arpa;
        buf1 \<leftarrow> snprintf_wr buf 0 DNSNAMEBUFSIZE s;
        Some (\<not> length s \<ge> DNSNAMEBUFSIZE, buf1)
      }
      else if tp = T_AAAA then do {
        p \<leftarrow> rdn addr 0 16;
        (ok, offs, buf1) \<leftarrow> a2ptrstr_aaaa (rev p) 0 buf;
        if \<not> ok then Some (False, buf1) else strncp buf1 offs ip6_arpa (DNSNAMEBUFSIZE - offs)
      }
      else Some (False, buf))"

text \<open>The labels of the name of an address (RFC 1035, 3.5, and RFC 3596, 2.5).\<close>

definition ptr_labels4 :: "byte list \<Rightarrow> label list" where
  "ptr_labels4 addr = map dec_byte (rev (take 4 addr)) @
     [[105, 110, 45, 97, 100, 100, 114], [97, 114, 112, 97]]"

definition nibble_labels :: "byte list \<Rightarrow> label list" where
  "nibble_labels bs = concat (map (\<lambda>b. [[hex_nibble (b AND 0xf)], [hex_nibble (drop_bit 4 b AND 0xf)]]) bs)"

definition ptr_labels6 :: "byte list \<Rightarrow> label list" where
  "ptr_labels6 addr = nibble_labels (rev (take 16 addr)) @ [[105, 112, 54], [97, 114, 112, 97]]"

lemma digit_text:
  assumes "48 \<le> n" "n < 256"
  shows "0 \<noteq> (word_of_nat n :: byte)" "46 \<noteq> (word_of_nat n :: byte)" "(word_of_nat n :: byte) \<noteq> 46"
proof -
  have u: "unat (word_of_nat n :: byte) = n" using assms by simp
  show "0 \<noteq> (word_of_nat n :: byte)"
  proof
    assume "0 = (word_of_nat n :: byte)"
    from arg_cong [OF this, of unat] show False using u assms by simp
  qed
  show 46: "46 \<noteq> (word_of_nat n :: byte)"
  proof
    assume "46 = (word_of_nat n :: byte)"
    from arg_cong [OF this, of unat] show False using u assms by simp
  qed
  show "(word_of_nat n :: byte) \<noteq> 46" using 46 by (rule not_sym)
qed

lemma dec_byte_text: "text_label (dec_byte b)" "length (dec_byte b) \<le> 3"
proof -
  have "unat b div 100 \<le> 2" "unat b div 10 mod 10 < 10" "unat b mod 10 < 10" "unat b div 10 \<le> 25"
    using unat_byte_le [of b] by linarith+
  then show "text_label (dec_byte b)" "length (dec_byte b) \<le> 3"
    by (auto simp: dec_byte_def text_label_def wire_label_def Let_def digit_text simp del: of_nat_add)
qed

lemma nibble_lt: "unat (b AND 0xf :: byte) < 16"
proof -
  have "b AND 0xf \<le> (0xf :: byte)" by (rule word_and_le1)
  then show ?thesis by (simp add: word_le_nat_alt)
qed

lemma hex_nibble_text: "text_label [hex_nibble b]"
  using nibble_lt [of b]
  by (auto simp: hex_nibble_def text_label_def wire_label_def Let_def digit_text simp del: of_nat_add)

lemma dotted_append: "dotted (ks @ ls) = dotted ks @ dotted ls"
  by (induction ks) simp_all

lemma nibble_text: "list_all text_label (nibble_labels bs)"
  by (induction bs) (simp_all add: nibble_labels_def hex_nibble_text)

lemma nibble_dotted_len: "length (dotted (nibble_labels bs)) = 4 * length bs"
  by (induction bs) (simp_all add: nibble_labels_def)

lemma snprintf_fits:
  "length s < rem \<Longrightarrow> j + rem \<le> length buf \<Longrightarrow>
   snprintf_wr buf j rem s = Some (splice buf j (s @ [0]))"
  by (simp add: snprintf_wr_def wrn_splice)

lemma splice_over:
  "i + length vs + length ws \<le> length xs \<Longrightarrow> length us \<le> length ws \<Longrightarrow>
   splice (splice xs i (vs @ us)) (i + length vs) ws = splice xs i (vs @ ws)"
  by (simp add: splice_def drop_drop ac_simps)

lemma a2ptrstr_aaaa_spec:
  "offs + 4 * length bs < 250 \<Longrightarrow> 256 \<le> length buf \<Longrightarrow>
   \<exists>u. length u \<le> 1 \<and> a2ptrstr_aaaa bs offs buf =
     Some (True, offs + 4 * length bs, splice buf offs (dotted (nibble_labels bs) @ u))"
proof (induction bs arbitrary: offs buf)
  case Nil
  then show ?case by (auto simp: nibble_labels_def intro!: exI [of _ "[]"])
next
  case (Cons b bs)
  let ?s = "[hex_nibble (b AND 0xf), 46, hex_nibble (drop_bit 4 b AND 0xf), 46]"
  have s: "dotted (nibble_labels (b # bs)) = ?s @ dotted (nibble_labels bs)"
    by (simp add: nibble_labels_def)
  let ?buf = "splice buf offs (?s @ [0])"
  have w: "snprintf_wr buf offs (256 - offs) ?s = Some ?buf"
    using Cons.prems by (intro snprintf_fits) simp_all
  have "length ?buf = length buf" using Cons.prems by simp
  with Cons.IH [of "offs + 4" ?buf] Cons.prems obtain u where
    u: "length u \<le> 1" "a2ptrstr_aaaa bs (offs + 4) ?buf =
      Some (True, offs + 4 + 4 * length bs, splice ?buf (offs + 4) (dotted (nibble_labels bs) @ u))"
    by auto
  show ?case
  proof (cases "dotted (nibble_labels bs) @ u = []")
    case True
    then show ?thesis using u w s Cons.prems
      by (intro exI [of _ "[0]"]) simp
  next
    case False
    then have "length [0 :: byte] \<le> length (dotted (nibble_labels bs) @ u)" by (simp add: Suc_le_eq)
    moreover have "offs + length ?s + length (dotted (nibble_labels bs) @ u) \<le> length buf"
      using Cons.prems u(1) nibble_dotted_len [of bs] by simp
    ultimately have "splice ?buf (offs + length ?s) (dotted (nibble_labels bs) @ u) =
        splice buf offs (?s @ dotted (nibble_labels bs) @ u)"
      by (intro splice_over)
    moreover have l4: "length ?s = 4" by simp
    ultimately have e: "splice ?buf (offs + 4) (dotted (nibble_labels bs) @ u) =
        splice buf offs (?s @ dotted (nibble_labels bs) @ u)"
      unfolding l4 by simp
    have "a2ptrstr_aaaa (b # bs) offs buf = a2ptrstr_aaaa bs (offs + 4) ?buf"
      using w Cons.prems by simp
    also have "\<dots> = Some (True, offs + 4 * length (b # bs), splice buf offs (dotted (nibble_labels (b # bs)) @ u))"
      using u(2) e s by simp
    finally show ?thesis using u(1) by (intro exI [of _ u]) simp
  qed
qed

lemma a2ptrstr_spec:
  assumes "tp = T_A \<and> length addr = 4 \<and> ls = ptr_labels4 addr \<or> tp = T_AAAA \<and> length addr = 16 \<and> ls = ptr_labels6 addr"
    "DNSNAMEBUFSIZE \<le> length buf"
  shows "text_name ls \<and> (\<exists>r. a2ptrstr addr tp buf = Some (True, name_text ls @ 0 # r))"
  using assms(1)
proof
  assume a: "tp = T_A \<and> length addr = 4 \<and> ls = ptr_labels4 addr"
  then obtain a0 a1 a2 a3 where addr: "addr = [a0, a1, a2, a3]"
    by (auto simp: length_Suc_conv eval_nat_numeral)
  then have ls: "ls = [dec_byte a3, dec_byte a2, dec_byte a1, dec_byte a0,
      [105, 110, 45, 97, 100, 100, 114], [97, 114, 112, 97]]"
    using a by (simp add: ptr_labels4_def)
  let ?s = "dec_byte a3 @ 46 # dec_byte a2 @ 46 # dec_byte a1 @ 46 # dec_byte a0 @ in_addr_arpa"
  have t: "name_text ls = ?s" by (simp add: ls name_text_def in_addr_arpa_def)
  have "length ?s \<le> 29"
    using dec_byte_text(2) [of a0] dec_byte_text(2) [of a1] dec_byte_text(2) [of a2] dec_byte_text(2) [of a3]
    by (simp add: in_addr_arpa_def)
  moreover have "name_text ls = dotted ls" by (simp add: ls name_text_def)
  then have "length (enc ls) = length ?s + 1"
    using dotted_length [of ls] t by metis
  moreover have "list_all text_label ls"
    by (simp add: ls dec_byte_text) (simp add: text_label_def wire_label_def)
  ultimately have "text_name ls" by (simp add: text_name_def)
  moreover have "a2ptrstr addr tp buf = Some (True, ?s @ 0 # drop (length ?s + 1) buf)"
    using a addr assms(2) \<open>length ?s \<le> 29\<close>
    by (simp add: a2ptrstr_def rdn_def Let_def snprintf_fits numeral_eq_Suc splice_def del: append_assoc)
  ultimately show ?thesis using t by auto
next
  assume a: "tp = T_AAAA \<and> length addr = 16 \<and> ls = ptr_labels6 addr"
  let ?bs = "rev addr"
  let ?d = "dotted (nibble_labels ?bs)"
  have ls: "ls = nibble_labels ?bs @ [[105, 112, 54], [97, 114, 112, 97]]"
    using a by (simp add: ptr_labels6_def)
  have t: "name_text ls = ?d @ ip6_arpa"
    by (simp add: ls name_text_def dotted_append ip6_arpa_def)
  have d: "length ?d = 64" using nibble_dotted_len [of ?bs] a by simp
  have "length (enc ls) = 74" using dotted_length [of ls] d by (simp add: ls dotted_append)
  moreover have "list_all text_label ls"
    using nibble_text [of ?bs] by (simp add: ls) (simp add: text_label_def wire_label_def)
  ultimately have "text_name ls" by (simp add: text_name_def)
  obtain u where u: "length u \<le> 1" "a2ptrstr_aaaa ?bs 0 buf = Some (True, 64, splice buf 0 (?d @ u))"
    using a2ptrstr_aaaa_spec [of 0 ?bs buf] a assms(2) by auto
  let ?w = "ip6_arpa @ replicate 183 0"
  have w: "length ?w = 192" by (simp add: ip6_arpa_def)
  have "wrn (splice buf 0 (?d @ u)) 64 ?w = Some (splice buf 0 (?d @ ?w))"
    using splice_over [of 0 ?d ?w buf u] w d u(1) assms(2) by (simp add: wrn_splice)
  moreover have "take 192 (ip6_arpa @ replicate 192 0) = ?w" by (simp add: ip6_arpa_def)
  ultimately have "strncp (splice buf 0 (?d @ u)) 64 ip6_arpa 192 = Some (True, splice buf 0 (?d @ ?w))"
    unfolding strncp_def by (simp add: ip6_arpa_def)
  then have "a2ptrstr addr tp buf = Some (True, splice buf 0 (?d @ ?w))"
    using a u(2) by (simp add: a2ptrstr_def rdn_def)
  moreover have "splice buf 0 (?d @ ?w) = (?d @ ip6_arpa) @ 0 # (replicate 182 0 @ drop 256 buf)"
    using d w by (simp add: splice_def) (simp add: ip6_arpa_def eval_nat_numeral)
  ultimately show ?thesis using t \<open>text_name ls\<close> by auto
qed

text \<open>
  C35. \<open>a2ptrstr\<close> turns an IPv4 or IPv6 address into the domain name of its reverse lookup, in
  dotted notation with the terminating zero: the decimal bytes, or the hexadecimal nibbles, in
  reverse order under \<open>in-addr.arpa\<close> or \<open>ip6.arpa\<close>; \<open>str2rhn\<close> accepts that text.
\<close>

theorem a2ptrstr_correct:
  assumes "tp = T_A \<and> length addr = 4 \<and> ls = ptr_labels4 addr \<or> tp = T_AAAA \<and> length addr = 16 \<and> ls = ptr_labels6 addr"
    "DNSNAMEBUFSIZE \<le> length buf"
  shows "text_name ls \<and> (\<exists>r. a2ptrstr addr tp buf = Some (True, name_text ls @ 0 # r))"
  by (rule a2ptrstr_spec [OF assms])

theorem a2ptrstr_correct_witness:
  "\<exists>ls r. a2ptrstr [127, 0, 0, 1] T_A (replicate 256 7) = Some (True, name_text ls @ 0 # r)"
  using a2ptrstr_correct [of T_A "[127, 0, 0, 1]" "ptr_labels4 [127, 0, 0, 1]" "replicate 256 7"] by auto

end
