(* ===== verification/Pd_Hash.thy ===== *)
theory Pd_Hash
  imports Pd_Names
begin

text \<open>
  The hash table of names (\<open>hash.c\<close>): 1024 buckets, each a chain ordered by a second, 32-bit
  hash. A \<open>dns_hash_ent_t\<close> is a pair of its \<open>rhash\<close> and its \<open>data\<close> pointer, the address of a cache
  entry; a chain linked by \<open>next\<close> is a list, and a location \<open>dns_hash_ent_t **pos\<close> in it the number
  of the bucket and of the elements passed. The names of the entries, \<open>he->data->qname\<close>, are read
  through \<open>qn\<close>, which gives the name of the entry at an address while it is allocated. The hashes
  have the width they have on the 32-bit targets the application is built for.
\<close>

subsection \<open>The hash function\<close>

abbreviation (input) HASH_SZ :: nat where "HASH_SZ \<equiv> 10"
abbreviation (input) HASH_NUM_BUCKETS :: nat where "HASH_NUM_BUCKETS \<equiv> 1024"

text \<open>One byte added to both hashes at position \<open>i\<close>.\<close>

definition hash_byte :: "nat \<Rightarrow> byte \<Rightarrow> u32 \<times> u32 \<Rightarrow> u32 \<times> u32" where
  "hash_byte i c sr = (case sr of (s, r) \<Rightarrow>
     (s + push_bit (i mod (HASH_SZ - 5)) (ucast c), r + push_bit (i mod (8 * 4 - 7)) (ucast c)))"

fun dns_hash_lab :: "name \<Rightarrow> nat \<Rightarrow> nat \<Rightarrow> u32 \<times> u32 \<Rightarrow> (nat \<times> u32 \<times> u32) option" where
  "dns_hash_lab str i 0 sr = Some (i, sr)"
| "dns_hash_lab str i (Suc n) sr =
     do {
       c \<leftarrow> rd str i;
       dns_hash_lab str (i + 1) n (hash_byte i (toupper_c c) sr)
     }"

lemma dns_hash_lab_index: "dns_hash_lab str i n sr = Some (i', sr') \<Longrightarrow> i' = i + n"
proof (induction n arbitrary: i sr)
  case 0
  then show ?case by simp
next
  case (Suc n)
  then obtain sr2 where "dns_hash_lab str (i + 1) n sr2 = Some (i', sr')"
    unfolding dns_hash_lab.simps(2) bind_Some_iff by blast
  from Suc.IH [OF this] show ?case by simp
qed

function dns_hash_loop :: "name \<Rightarrow> nat \<Rightarrow> u32 \<times> u32 \<Rightarrow> (u32 \<times> u32) option" where
  "dns_hash_loop str i sr =
     do {
       lb \<leftarrow> rd str i;
       if lb = 0 then Some sr
       else do {
         (i', sr') \<leftarrow> dns_hash_lab str (i + 1) (unat lb) (hash_byte i lb sr);
         dns_hash_loop str i' sr'
       }
     }"
  by pat_completeness auto
termination
  by (relation "measure (\<lambda>(str, i, sr). length str - i)") (auto simp: rd_Some_iff dest!: dns_hash_lab_index)

declare dns_hash_loop.simps [simp del]

definition fold_hash :: "u32 \<Rightarrow> u32" where
  "fold_hash s = (s AND 1023) + drop_bit HASH_SZ (s AND NOT 1023)"

definition dns_hash :: "name \<Rightarrow> (nat \<times> u32) option" where
  "dns_hash str =
     do {
       (s, r) \<leftarrow> dns_hash_loop str 0 (0, 0);
       Some (unat (fold_hash (fold_hash s) AND 1023), r)
     }"

subsection \<open>The table\<close>

type_synonym hent = "u32 \<times> nat"
type_synonym htable = "hent list list"
type_synonym hloc = "nat \<times> nat \<times> u32"

definition mk_dns_hash :: htable where
  "mk_dns_hash = replicate HASH_NUM_BUCKETS []"

text \<open>The loop of \<open>dns_lookup\<close> and \<open>del_dns_hash\<close> over a chain: how many elements it passes and
  the entry it stops at, if that one has the name.\<close>

fun chain_find :: "(nat \<Rightarrow> name option) \<Rightarrow> name \<Rightarrow> u32 \<Rightarrow> hent list \<Rightarrow> nat \<Rightarrow> (nat option \<times> nat) option" where
  "chain_find qn key rh [] pos = Some (None, pos)"
| "chain_find qn key rh ((rhash, a) # hs) pos =
     (if rhash \<le> rh then
        do {
          eq \<leftarrow> (if rhash = rh then do { nm \<leftarrow> qn a; rhnicmp key nm } else Some False);
          if eq then Some (Some a, pos) else chain_find qn key rh hs (pos + 1)
        }
      else Some (None, pos))"

definition dns_lookup :: "(nat \<Rightarrow> name option) \<Rightarrow> htable \<Rightarrow> name \<Rightarrow> (nat option \<times> hloc) option" where
  "dns_lookup qn t key =
     do {
       (idx, rh) \<leftarrow> dns_hash key;
       chain \<leftarrow> rd t idx;
       (res, pos) \<leftarrow> chain_find qn key rh chain 0;
       Some (res, (idx, pos, rh))
     }"

text \<open>Inserting at a location; \<open>alloc\<close> is the outcome of the allocation.\<close>

definition add_dns_hash :: "htable \<Rightarrow> nat \<Rightarrow> hloc \<Rightarrow> bool \<Rightarrow> (bool \<times> htable) option" where
  "add_dns_hash t a loc alloc = (case loc of (idx, pos, rh) \<Rightarrow>
     if \<not> alloc then Some (False, t)
     else do {
       chain \<leftarrow> rd t idx;
       must (pos \<le> length chain);
       t' \<leftarrow> wr t idx (take pos chain @ (rh, a) # drop pos chain);
       Some (True, t')
     })"

definition del_dns_hash_ent :: "htable \<Rightarrow> hloc \<Rightarrow> (nat \<times> htable) option" where
  "del_dns_hash_ent t loc = (case loc of (idx, pos, rh) \<Rightarrow>
     do {
       chain \<leftarrow> rd t idx;
       he \<leftarrow> rd chain pos;
       t' \<leftarrow> wr t idx (take pos chain @ drop (pos + 1) chain);
       Some (snd he, t')
     })"

definition del_dns_hash :: "(nat \<Rightarrow> name option) \<Rightarrow> htable \<Rightarrow> name \<Rightarrow> (nat option \<times> htable) option" where
  "del_dns_hash qn t key =
     do {
       (idx, rh) \<leftarrow> dns_hash key;
       chain \<leftarrow> rd t idx;
       (res, pos) \<leftarrow> chain_find qn key rh chain 0;
       case res of
         None \<Rightarrow> Some (None, t)
       | Some a \<Rightarrow> do {
           t' \<leftarrow> wr t idx (take pos chain @ drop (pos + 1) chain);
           Some (Some a, t')
         }
     }"

text \<open>Iteration: a position is the bucket and what is left of its chain.\<close>

type_synonym hpos = "nat \<times> hent list"

fun fetch_from :: "hent list list \<Rightarrow> nat \<Rightarrow> (nat \<times> hpos) option" where
  "fetch_from [] i = None"
| "fetch_from (c # cs) i = (case c of [] \<Rightarrow> fetch_from cs (i + 1) | (rh, a) # hs \<Rightarrow> Some (a, (i, hs)))"

definition fetch_first :: "htable \<Rightarrow> (nat \<times> hpos) option" where
  "fetch_first t = fetch_from t 0"

definition fetch_next :: "htable \<Rightarrow> hpos \<Rightarrow> (nat \<times> hpos) option" where
  "fetch_next t pos = (case pos of (b, hs) \<Rightarrow>
     case hs of (rh, a) # hs' \<Rightarrow> Some (a, (b, hs')) | [] \<Rightarrow> fetch_from (drop (b + 1) t) (b + 1))"

subsection \<open>The hash of a name\<close>

text \<open>The labels of a name in transport format, and its key: what \<open>rhnicmp\<close> compares.\<close>

function unenc :: "name \<Rightarrow> label list" where
  "unenc nm = (case nm of [] \<Rightarrow> [] | lb # r \<Rightarrow>
     if lb = 0 then [] else take (unat lb) r # unenc (drop (unat lb) r))"
  by pat_completeness auto
termination
  by (relation "measure length") auto

declare unenc.simps [simp del]

lemma unenc_enc [simp]: "list_all name_label ls \<Longrightarrow> unenc (enc ls @ r) = ls"
  by (induction ls) (simp_all add: unenc.simps [of "0 # r"] unenc.simps [of "_ # _"])

lemma unenc_enc0 [simp]: "list_all name_label ls \<Longrightarrow> unenc (enc ls) = ls"
  using unenc_enc [of ls "[]"] by simp

type_synonym key = "label list"

definition canon :: "label list \<Rightarrow> key" where
  "canon = map (map tolower_c)"

definition key_of :: "name \<Rightarrow> key" where
  "key_of nm = canon (unenc nm)"

definition valid_name :: "name \<Rightarrow> bool" where
  "valid_name nm = (wire_name (unenc nm) \<and> nm = enc (unenc nm))"

lemma valid_nameE:
  assumes "valid_name nm"
  obtains ls where "wire_name ls" "nm = enc ls" "key_of nm = canon ls" "list_all name_label ls"
  using assms wire_name_labels unfolding valid_name_def key_of_def by metis

lemma valid_name_enc: "wire_name ls \<Longrightarrow> valid_name (enc ls)"
  by (simp add: valid_name_def wire_name_labels)

lemma ci_eq_canon: "ci_eq ks ls = (canon ks = canon ls)"
  unfolding ci_eq_def canon_def by (simp add: list_all2_map1 list_all2_map2 list_all2_eq flip: list.rel_eq)

fun hash_bytes :: "nat \<Rightarrow> byte list \<Rightarrow> u32 \<times> u32 \<Rightarrow> u32 \<times> u32" where
  "hash_bytes i [] sr = sr"
| "hash_bytes i (c # cs) sr = hash_bytes (i + 1) cs (hash_byte i c sr)"

definition upper :: "label list \<Rightarrow> byte list" where
  "upper ls = concat (map (\<lambda>l. word_of_nat (length l) # map toupper_c l) ls)"

lemma hash_bytes_append: "hash_bytes i (as @ bs) sr = hash_bytes (i + length as) bs (hash_bytes i as sr)"
  by (induction as arbitrary: i sr) simp_all

lemma dns_hash_lab_eq:
  "dns_hash_lab (p @ l @ r) (length p) (length l) sr =
     Some (length p + length l, hash_bytes (length p) (map toupper_c l) sr)"
proof (induction l arbitrary: p sr)
  case Nil
  then show ?case by simp
next
  case (Cons c l)
  then show ?case using Cons.IH [of "p @ [c]"] by simp
qed

lemma dns_hash_loop_eq:
  "list_all name_label ls \<Longrightarrow>
   dns_hash_loop (p @ enc ls @ r) (length p) sr = Some (hash_bytes (length p) (upper ls) sr)"
proof (induction ls arbitrary: p sr)
  case Nil
  then show ?case by (simp add: dns_hash_loop.simps [of _ "length p"] upper_def)
next
  case (Cons l ls)
  let ?b = "word_of_nat (length l) :: byte"
  have "dns_hash_lab ((p @ [?b]) @ l @ enc ls @ r) (length (p @ [?b])) (length l) (hash_byte (length p) ?b sr) =
      Some (length (p @ [?b]) + length l, hash_bytes (length (p @ [?b])) (map toupper_c l) (hash_byte (length p) ?b sr))"
    by (rule dns_hash_lab_eq)
  moreover have "dns_hash_loop ((p @ ?b # l) @ enc ls @ r) (length (p @ ?b # l)) sr' =
      Some (hash_bytes (length (p @ ?b # l)) (upper ls) sr')" for sr'
    by (rule Cons.IH) (use Cons.prems in simp)
  ultimately show ?case using Cons.prems
    by (simp add: dns_hash_loop.simps [of _ "length p"] upper_def hash_bytes_append)
qed

definition name_hash :: "label list \<Rightarrow> nat \<times> u32" where
  "name_hash ls = (case hash_bytes 0 (upper ls) (0, 0) of (s, r) \<Rightarrow> (unat (fold_hash (fold_hash s) AND 1023), r))"

lemma dns_hash_enc: "list_all name_label ls \<Longrightarrow> dns_hash (enc ls @ r) = Some (name_hash ls)"
  using dns_hash_loop_eq [of ls "[]" r "(0, 0)"] by (simp add: dns_hash_def name_hash_def split: prod.split)

lemma name_hash_lt: "fst (name_hash ls) < HASH_NUM_BUCKETS"
proof -
  have "unat (x AND 1023 :: u32) < 1024" for x
  proof -
    have "x AND 1023 \<le> (1023 :: u32)" by (rule word_and_le1)
    then show ?thesis by (simp add: word_le_nat_alt)
  qed
  then show ?thesis by (simp add: name_hash_def split: prod.split)
qed

lemma upper_canon: "canon ks = canon ls \<Longrightarrow> upper ks = upper ls"
proof (induction ks arbitrary: ls)
  case Nil
  then show ?case by (simp add: canon_def)
next
  case (Cons k ks)
  then obtain l ls' where ls: "ls = l # ls'" by (cases ls) (auto simp: canon_def)
  have eq: "map tolower_c k = map tolower_c l" using Cons.prems ls by (simp add: canon_def)
  then have "length k = length l" by (metis length_map)
  moreover from eq have "map toupper_c k = map toupper_c l"
    by (auto simp: list_eq_iff_nth_eq intro: tolower_eq_imp_toupper_eq)
  ultimately show ?case using Cons.IH [of ls'] Cons.prems ls by (simp add: upper_def canon_def)
qed

lemma tolower_idem [simp]: "tolower_c (tolower_c c) = tolower_c c"
proof -
  have "unat (c + 32) = unat c + 32" if "65 \<le> c" "c \<le> 90"
    using that by (simp add: word_le_nat_alt unat_word_ariths)
  then show ?thesis by (auto simp: tolower_c_def word_le_nat_alt)
qed

lemma canon_canon [simp]: "canon (canon ls) = canon ls"
  by (simp add: canon_def)

lemma name_hash_canon: "name_hash (canon ls) = name_hash ls"
  using upper_canon [of "canon ls" ls] by (simp add: name_hash_def)

lemma dns_hash_valid: "valid_name nm \<Longrightarrow> dns_hash nm = Some (name_hash (key_of nm))"
  using dns_hash_enc [of _ "[]"] by (auto elim!: valid_nameE simp: name_hash_canon)

lemma rhnicmp_valid: "valid_name a \<Longrightarrow> valid_name b \<Longrightarrow> rhnicmp a b = Some (key_of a = key_of b)"
  using rhnicmp_enc [of _ _ "[]" "[]"] by (elim valid_nameE) (simp add: ci_eq_canon)

lemma rhnicmp_from_len:
  "rhnicmp_from a b i = Some True \<Longrightarrow> (\<exists>n. rhnlen_from a i = Some n) \<and> (\<exists>n. rhnlen_from b i = Some n)"
proof (induction a b i rule: rhnicmp_from.induct)
  case (1 a b i)
  from "1.prems" obtain lb where lb: "rd a i = Some lb" "rd b i = Some lb"
    and r: "lb \<noteq> 0 \<Longrightarrow> rhnicmp_lab a b (i + 1) (unat lb) = Some True \<and> rhnicmp_from a b (i + 1 + unat lb) = Some True"
    by (subst (asm) rhnicmp_from.simps) (auto simp: bind_Some_iff split: if_split_asm)
  show ?case
  proof (cases "lb = 0")
    case True
    then show ?thesis using lb by (simp add: rhnlen_from.simps [of _ i])
  next
    case False
    then show ?thesis using lb r "1.IH" [OF lb(1,2)] by (simp add: rhnlen_from.simps [of _ i])
  qed
qed

text \<open>
  Names that \<open>rhnicmp\<close> takes for the same, whatever the case of their letters and whatever
  follows them in memory, have the same bucket and the same long hash, and the bucket exists.
\<close>

theorem dns_hash_respects_rhnicmp:
  assumes "rhnicmp a b = Some True"
  shows "\<exists>idx rh. dns_hash a = Some (idx, rh) \<and> dns_hash b = Some (idx, rh) \<and> idx < HASH_NUM_BUCKETS"
proof -
  from rhnicmp_from_len [of a b 0] assms obtain m n where "rhnlen a = Some m" "rhnlen b = Some n"
    by (auto simp: rhnicmp_def rhnlen_def)
  then obtain ks ls r s where n: "list_all name_label ks" "a = enc ks @ r" "list_all name_label ls" "b = enc ls @ s"
    by (auto dest!: rhnlenD)
  with assms have "canon ks = canon ls" by (simp add: rhnicmp_enc ci_eq_canon)
  then have "name_hash ks = name_hash ls" by (metis name_hash_canon)
  then show ?thesis using dns_hash_enc [of ks r] dns_hash_enc [of ls s] n name_hash_lt [of ls]
    by (cases "name_hash ls") simp
qed

theorem dns_hash_respects_rhnicmp_witness:
  "\<exists>idx rh. dns_hash [2, 65, 98, 0] = Some (idx, rh) \<and> dns_hash [2, 97, 66, 0, 9] = Some (idx, rh)"
proof -
  have "rhnicmp [2, 65, 98, 0] [2, 97, 66, 0, 9] = Some True" by code_simp
  from dns_hash_respects_rhnicmp [OF this] show ?thesis by blast
qed

subsection \<open>The table as a map\<close>

text \<open>
  The invariant: every entry holds a valid name whose hashes are its bucket and its \<open>rhash\<close>, the
  chains are ordered by \<open>rhash\<close>, and no two entries have the same name. The abstract view of the
  table is the map from keys to addresses.
\<close>

definition ent_ok :: "(nat \<Rightarrow> name option) \<Rightarrow> nat \<Rightarrow> hent \<Rightarrow> bool" where
  "ent_ok qn i e = (case qn (snd e) of None \<Rightarrow> False
     | Some nm \<Rightarrow> valid_name nm \<and> name_hash (key_of nm) = (i, fst e))"

definition ent_key :: "(nat \<Rightarrow> name option) \<Rightarrow> hent \<Rightarrow> key" where
  "ent_key qn e = (case qn (snd e) of None \<Rightarrow> [] | Some nm \<Rightarrow> key_of nm)"

definition chain_ok :: "(nat \<Rightarrow> name option) \<Rightarrow> nat \<Rightarrow> hent list \<Rightarrow> bool" where
  "chain_ok qn i c = (list_all (ent_ok qn i) c \<and> sorted (map fst c) \<and> distinct (map (ent_key qn) c))"

definition wf_table :: "(nat \<Rightarrow> name option) \<Rightarrow> htable \<Rightarrow> bool" where
  "wf_table qn t = (length t = HASH_NUM_BUCKETS \<and> (\<forall>i < length t. chain_ok qn i (t ! i)))"

definition chain_map :: "(nat \<Rightarrow> name option) \<Rightarrow> hent list \<Rightarrow> key \<rightharpoonup> nat" where
  "chain_map qn c = map_of (map (\<lambda>e. (ent_key qn e, snd e)) c)"

definition tab_map :: "(nat \<Rightarrow> name option) \<Rightarrow> htable \<Rightarrow> key \<rightharpoonup> nat" where
  "tab_map qn t k = chain_map qn (t ! fst (name_hash k)) k"

definition tab_addrs :: "htable \<Rightarrow> nat set" where
  "tab_addrs t = (\<Union>c \<in> set t. snd ` set c)"

lemma chain_ok_Cons: "chain_ok qn i (e # c) \<Longrightarrow> chain_ok qn i c"
  by (simp add: chain_ok_def)

lemma ent_okE:
  assumes "ent_ok qn i e"
  obtains nm where "qn (snd e) = Some nm" "valid_name nm" "ent_key qn e = key_of nm"
    "name_hash (ent_key qn e) = (i, fst e)"
  using assms by (auto simp: ent_ok_def ent_key_def split: option.splits)

lemma chain_map_simps [simp]:
  "chain_map qn [] = Map.empty"
  "chain_map qn (e # c) = (chain_map qn c)(ent_key qn e \<mapsto> snd e)"
  by (simp_all add: chain_map_def)

lemma chain_map_None: "(chain_map qn c k = None) = (k \<notin> ent_key qn ` set c)"
  by (simp add: chain_map_def map_of_eq_None_iff image_image)

lemma chain_map_mem: "chain_map qn c k = Some a \<Longrightarrow> \<exists>e \<in> set c. ent_key qn e = k \<and> snd e = a"
  unfolding chain_map_def by (drule map_of_SomeD) auto

lemma chain_map_append: "chain_map qn (xs @ ys) = chain_map qn ys ++ chain_map qn xs"
  by (simp add: chain_map_def)

definition chain_pos :: "u32 \<Rightarrow> hent list \<Rightarrow> nat option \<Rightarrow> nat \<Rightarrow> bool" where
  "chain_pos rh c res pos = (pos \<le> length c \<and> (\<forall>j < pos. fst (c ! j) \<le> rh) \<and>
     (case res of None \<Rightarrow> (\<forall>j. pos \<le> j \<and> j < length c \<longrightarrow> rh < fst (c ! j))
      | Some a \<Rightarrow> pos < length c \<and> c ! pos = (rh, a)))"

lemma chain_find_spec:
  assumes "chain_ok qn i c" "valid_name nm" "name_hash (key_of nm) = (i, rh)"
  shows "\<exists>pos. chain_find qn nm rh c n = Some (chain_map qn c (key_of nm), n + pos) \<and>
    chain_pos rh c (chain_map qn c (key_of nm)) pos"
  using assms(1)
proof (induction c arbitrary: n)
  case Nil
  then show ?case by (simp add: chain_pos_def)
next
  case (Cons e c)
  obtain rhash a where e: "e = (rhash, a)" by (cases e) auto
  have "ent_ok qn i e" using Cons.prems by (simp add: chain_ok_def)
  then obtain nm' where nm': "qn a = Some nm'" "valid_name nm'" "ent_key qn e = key_of nm'"
    "name_hash (key_of nm') = (i, rhash)"
    by (elim ent_okE) (simp add: e)
  have cmp: "rhnicmp nm nm' = Some (key_of nm = key_of nm')" by (rule rhnicmp_valid [OF assms(2) nm'(2)])
  have srt: "\<forall>e' \<in> set c. rhash \<le> fst e'" using Cons.prems e by (auto simp: chain_ok_def)
  show ?case
  proof (cases "rhash \<le> rh")
    case le: True
    show ?thesis
    proof (cases "key_of nm = key_of nm'")
      case True
      then show ?thesis using le nm' assms(3) cmp e by (simp add: chain_pos_def)
    next
      case False
      obtain pos where pos: "chain_find qn nm rh c (n + 1) = Some (chain_map qn c (key_of nm), n + 1 + pos)"
        "chain_pos rh c (chain_map qn c (key_of nm)) pos"
        using Cons.IH [OF chain_ok_Cons [OF Cons.prems], of "n + 1"] by blast
      have "chain_pos rh (e # c) (chain_map qn c (key_of nm)) (Suc pos)"
        using pos(2) le e by (auto simp: chain_pos_def nth_Cons split: option.splits nat.splits)
      then show ?thesis using pos(1) le False cmp nm' e
        by (intro exI [of _ "Suc pos"]) auto
    qed
  next
    case False
    have "key_of nm \<notin> ent_key qn ` set (e # c)"
    proof
      assume "key_of nm \<in> ent_key qn ` set (e # c)"
      then obtain e' where "e' \<in> set (e # c)" "ent_key qn e' = key_of nm" by (metis imageE)
      moreover from this Cons.prems have "name_hash (key_of nm) = (i, fst e')"
        by (auto simp: chain_ok_def list_all_iff elim!: ent_okE)
      ultimately show False using srt False assms(3) e by auto
    qed
    then have "chain_map qn (e # c) (key_of nm) = None" unfolding chain_map_None .
    moreover have "\<forall>j. j < length (e # c) \<longrightarrow> rh < fst ((e # c) ! j)"
      using srt False e by (auto simp: nth_Cons not_le split: nat.splits dest: less_le_trans)
    ultimately show ?thesis using False e by (auto simp: chain_pos_def simp del: chain_map_simps)
  qed
qed

lemma chain_ok_insert:
  assumes "chain_ok qn i c" "ent_ok qn i (rh, a)" "chain_pos rh c None pos"
    "chain_map qn c (ent_key qn (rh, a)) = None"
  shows "chain_ok qn i (take pos c @ (rh, a) # drop pos c)"
    "chain_map qn (take pos c @ (rh, a) # drop pos c) = (chain_map qn c)(ent_key qn (rh, a) \<mapsto> a)"
proof -
  have s: "sorted (map fst (take pos c))" "sorted (map fst (drop pos c))"
    using assms(1) by (simp_all add: chain_ok_def sorted_wrt_take sorted_wrt_drop flip: take_map drop_map)
  have le: "\<forall>x \<in> set (take pos c). fst x \<le> rh" "\<forall>x \<in> set (drop pos c). rh \<le> fst x"
  proof -
    show "\<forall>x \<in> set (take pos c). fst x \<le> rh"
      using assms(3) by (fastforce simp: chain_pos_def in_set_conv_nth)
    show "\<forall>x \<in> set (drop pos c). rh \<le> fst x"
    proof
      fix x assume "x \<in> set (drop pos c)"
      then obtain i where "i < length c - pos" "x = c ! (pos + i)"
        using assms(3) by (auto simp: in_set_conv_nth chain_pos_def)
      then have "pos \<le> pos + i \<and> pos + i < length c" "x = c ! (pos + i)" by auto
      then show "rh \<le> fst x" using assms(3) by (auto simp: chain_pos_def less_imp_le)
    qed
  qed
  have "sorted (map fst (take pos c @ (rh, a) # drop pos c))"
    using s le by (fastforce simp: sorted_append intro: order_trans)
  moreover have nk: "ent_key qn (rh, a) \<notin> ent_key qn ` set c" using assms(4) by (simp add: chain_map_None)
  have "distinct (map (ent_key qn) (take pos c) @ map (ent_key qn) (drop pos c))"
    using assms(1) unfolding map_append [symmetric] append_take_drop_id by (simp add: chain_ok_def)
  then have "distinct (map (ent_key qn) (take pos c @ (rh, a) # drop pos c))"
    using nk by (auto dest: in_set_takeD in_set_dropD)
  moreover have "list_all (ent_ok qn i) (take pos c @ (rh, a) # drop pos c)"
    using assms(1,2) by (auto simp: chain_ok_def list_all_iff dest: in_set_takeD in_set_dropD)
  ultimately show "chain_ok qn i (take pos c @ (rh, a) # drop pos c)" by (simp only: chain_ok_def)
  have nk': "ent_key qn (rh, a) \<notin> dom (chain_map qn (take pos c))"
    using nk by (auto simp: chain_map_None dom_def dest: in_set_takeD)
  have "chain_map qn c = chain_map qn (drop pos c) ++ chain_map qn (take pos c)"
    using chain_map_append [of qn "take pos c" "drop pos c"] by simp
  then show "chain_map qn (take pos c @ (rh, a) # drop pos c) = (chain_map qn c)(ent_key qn (rh, a) \<mapsto> a)"
    using nk' by (simp add: chain_map_append map_add_upd_left)
qed

lemma chain_ok_delete:
  assumes "chain_ok qn i c" "pos < length c"
  shows "chain_ok qn i (take pos c @ drop (pos + 1) c)"
    "chain_map qn (take pos c @ drop (pos + 1) c) = (chain_map qn c)(ent_key qn (c ! pos) := None)"
proof -
  have c: "c = take pos c @ c ! pos # drop (pos + 1) c" using assms(2) by (simp add: id_take_nth_drop)
  from assms(1) have ok: "chain_ok qn i (take pos c @ c ! pos # drop (pos + 1) c)" using c by simp
  then show "chain_ok qn i (take pos c @ drop (pos + 1) c)"
    by (auto simp: chain_ok_def sorted_append)
  let ?k = "ent_key qn (c ! pos)"
  have "distinct (map (ent_key qn) (take pos c @ c ! pos # drop (pos + 1) c))" using ok by (simp add: chain_ok_def)
  then have nk: "?k \<notin> ent_key qn ` set (take pos c)" "?k \<notin> ent_key qn ` set (drop (pos + 1) c)" by auto
  have "chain_map qn (take pos c @ c ! pos # drop (pos + 1) c) =
      (chain_map qn (drop (pos + 1) c))(?k \<mapsto> snd (c ! pos)) ++ chain_map qn (take pos c)"
    by (simp add: chain_map_append)
  moreover have "chain_map qn (take pos c) ?k = None" "chain_map qn (drop (pos + 1) c) ?k = None"
    using nk by (simp_all add: chain_map_None)
  ultimately have "chain_map qn (take pos c @ drop (pos + 1) c) =
      (chain_map qn (take pos c @ c ! pos # drop (pos + 1) c))(?k := None)"
    by (intro ext) (auto simp: chain_map_append map_add_def split: option.splits)
  then show "chain_map qn (take pos c @ drop (pos + 1) c) = (chain_map qn c)(?k := None)"
    using c by simp
qed

lemma wf_tableD:
  assumes "wf_table qn t" "valid_name nm"
  obtains idx rh where "name_hash (key_of nm) = (idx, rh)" "dns_hash nm = Some (idx, rh)" "idx < length t"
    "rd t idx = Some (t ! idx)" "chain_ok qn idx (t ! idx)" "tab_map qn t (key_of nm) = chain_map qn (t ! idx) (key_of nm)"
proof -
  obtain idx rh where h: "name_hash (key_of nm) = (idx, rh)" by (cases "name_hash (key_of nm)")
  moreover from this have "idx < length t" using name_hash_lt [of "key_of nm"] assms(1) by (simp add: wf_table_def)
  ultimately show ?thesis
    using that dns_hash_valid [OF assms(2)] assms(1) by (simp add: wf_table_def rd_def tab_map_def)
qed

lemma tab_map_update:
  assumes "idx < length t"
  shows "tab_map qn (t[idx := c]) k = (if fst (name_hash k) = idx then chain_map qn c k else tab_map qn t k)"
  using assms by (simp add: tab_map_def)

lemma wf_table_update: "wf_table qn t \<Longrightarrow> idx < length t \<Longrightarrow> chain_ok qn idx c \<Longrightarrow> wf_table qn (t[idx := c])"
  by (auto simp: wf_table_def nth_list_update)

lemma tab_map_valid:
  assumes "wf_table qn t" "tab_map qn t k = Some a"
  shows "\<exists>nm. qn a = Some nm \<and> valid_name nm \<and> key_of nm = k"
proof -
  let ?i = "fst (name_hash k)"
  have "?i < length t" using name_hash_lt [of k] assms(1) by (simp add: wf_table_def)
  then have ok: "chain_ok qn ?i (t ! ?i)" using assms(1) by (simp add: wf_table_def)
  obtain e where e: "e \<in> set (t ! ?i)" "ent_key qn e = k" "snd e = a"
    using chain_map_mem assms(2) unfolding tab_map_def by metis
  with ok have "ent_ok qn ?i e" by (simp add: chain_ok_def list_all_iff)
  then show ?thesis using e by (elim ent_okE) auto
qed

lemma tab_map_inj: "wf_table qn t \<Longrightarrow> tab_map qn t k = Some a \<Longrightarrow> tab_map qn t k' = Some a \<Longrightarrow> k = k'"
  using tab_map_valid [of qn t k a] tab_map_valid [of qn t k' a] by auto

lemma tab_addrs_map:
  assumes "wf_table qn t"
  shows "tab_addrs t = ran (tab_map qn t)"
proof
  show "tab_addrs t \<subseteq> ran (tab_map qn t)"
  proof
    fix a assume "a \<in> tab_addrs t"
    then obtain c e where ce: "c \<in> set t" "e \<in> set c" "snd e = a" unfolding tab_addrs_def by blast
    then obtain i where i: "i < length t" "e \<in> set (t ! i)" "snd e = a" by (auto simp: in_set_conv_nth [of c])
    have ok: "chain_ok qn i (t ! i)" using assms i(1) by (simp add: wf_table_def)
    then have "ent_ok qn i e" using i(2) by (simp add: chain_ok_def list_all_iff)
    then have h: "name_hash (ent_key qn e) = (i, fst e)" by (elim ent_okE)
    have "distinct (map (ent_key qn) (t ! i))" using ok by (simp add: chain_ok_def)
    then have "chain_map qn (t ! i) (ent_key qn e) = Some a"
      unfolding chain_map_def using i by (intro map_of_is_SomeI) (auto simp: comp_def)
    then have "tab_map qn t (ent_key qn e) = Some a" using h by (simp add: tab_map_def)
    then show "a \<in> ran (tab_map qn t)" by (rule ranI)
  qed
  show "ran (tab_map qn t) \<subseteq> tab_addrs t"
  proof
    fix a assume "a \<in> ran (tab_map qn t)"
    then obtain k where k: "tab_map qn t k = Some a" by (auto simp: ran_def)
    let ?i = "fst (name_hash k)"
    have i: "?i < length t" using name_hash_lt [of k] assms by (simp add: wf_table_def)
    obtain e where "e \<in> set (t ! ?i)" "snd e = a" using chain_map_mem k unfolding tab_map_def by metis
    then show "a \<in> tab_addrs t" using i unfolding tab_addrs_def by (auto intro!: bexI [of _ "t ! ?i"])
  qed
qed

lemma dns_lookup_spec:
  assumes "wf_table qn t" "valid_name nm"
  shows "\<exists>idx pos rh. dns_lookup qn t nm = Some (tab_map qn t (key_of nm), (idx, pos, rh)) \<and>
    name_hash (key_of nm) = (idx, rh) \<and> chain_pos rh (t ! idx) (tab_map qn t (key_of nm)) pos"
proof -
  from assms obtain idx rh where h: "name_hash (key_of nm) = (idx, rh)" "dns_hash nm = Some (idx, rh)" "idx < length t"
    "rd t idx = Some (t ! idx)" "chain_ok qn idx (t ! idx)" "tab_map qn t (key_of nm) = chain_map qn (t ! idx) (key_of nm)"
    by (rule wf_tableD)
  from chain_find_spec [OF h(5) assms(2) h(1), of 0] h show ?thesis
    by (auto simp: dns_lookup_def)
qed

lemma mk_dns_hash_ok: "wf_table qn mk_dns_hash" "tab_map qn mk_dns_hash = Map.empty"
  using name_hash_lt by (auto simp: wf_table_def mk_dns_hash_def chain_ok_def tab_map_def)

lemma add_dns_hash_spec:
  assumes "wf_table qn t" "valid_name nm" "dns_lookup qn t nm = Some (None, loc)" "qn a = Some nm"
  shows "\<exists>t'. add_dns_hash t a loc True = Some (True, t') \<and> wf_table qn t' \<and>
    tab_map qn t' = (tab_map qn t)(key_of nm \<mapsto> a)"
proof -
  from dns_lookup_spec [OF assms(1,2)] assms(3) obtain idx pos rh where l: "loc = (idx, pos, rh)"
    "tab_map qn t (key_of nm) = None" "name_hash (key_of nm) = (idx, rh)" "chain_pos rh (t ! idx) None pos"
    by auto
  from assms(1,2) obtain idx' rh' where "name_hash (key_of nm) = (idx', rh')" "idx' < length t"
    "rd t idx' = Some (t ! idx')" "chain_ok qn idx' (t ! idx')" by (rule wf_tableD)
  with l(3) have h: "idx < length t" "rd t idx = Some (t ! idx)" "chain_ok qn idx (t ! idx)" by simp_all
  have e: "ent_ok qn idx (rh, a)" "ent_key qn (rh, a) = key_of nm"
    using assms(2,4) l(3) by (simp_all add: ent_ok_def ent_key_def)
  have "chain_map qn (t ! idx) (key_of nm) = None" using l(2,3) by (simp add: tab_map_def)
  note ins = chain_ok_insert [OF h(3) e(1) l(4)] 
  let ?c = "take pos (t ! idx) @ (rh, a) # drop pos (t ! idx)"
  have c: "chain_ok qn idx ?c" "chain_map qn ?c = (chain_map qn (t ! idx))(key_of nm \<mapsto> a)"
    using ins \<open>chain_map qn (t ! idx) (key_of nm) = None\<close> e(2) by simp_all
  have "tab_map qn (t[idx := ?c]) = (tab_map qn t)(key_of nm \<mapsto> a)"
    using c(2) l(3) h(1) by (auto simp: tab_map_update fun_eq_iff) (auto simp: tab_map_def)
  moreover have "add_dns_hash t a loc True = Some (True, t[idx := ?c])"
    using l(1,4) h by (simp add: add_dns_hash_def wr_def chain_pos_def)
  ultimately show ?thesis using wf_table_update [OF assms(1) h(1) c(1)] by blast
qed

lemma tab_delete:
  assumes "wf_table qn t" "valid_name nm" "name_hash (key_of nm) = (idx, rh)" "tab_map qn t (key_of nm) = Some a"
    "chain_pos rh (t ! idx) (Some a) pos"
  shows "rd t idx = Some (t ! idx)" "rd (t ! idx) pos = Some (rh, a)"
    "\<exists>t'. wr t idx (take pos (t ! idx) @ drop (pos + 1) (t ! idx)) = Some t' \<and> wf_table qn t' \<and>
       tab_map qn t' = (tab_map qn t)(key_of nm := None)"
proof -
  from assms(1,2) obtain idx' rh' where "name_hash (key_of nm) = (idx', rh')" "idx' < length t"
    "rd t idx' = Some (t ! idx')" "chain_ok qn idx' (t ! idx')" by (rule wf_tableD)
  with assms(3) have h: "idx < length t" "rd t idx = Some (t ! idx)" "chain_ok qn idx (t ! idx)" by simp_all
  show "rd t idx = Some (t ! idx)" by (rule h)
  have p: "pos < length (t ! idx)" "(t ! idx) ! pos = (rh, a)" using assms(5) by (simp_all add: chain_pos_def)
  then show "rd (t ! idx) pos = Some (rh, a)" by (simp add: rd_def)
  obtain nm' where "qn a = Some nm'" "key_of nm' = key_of nm" using tab_map_valid [OF assms(1,4)] by blast
  then have k: "ent_key qn ((t ! idx) ! pos) = key_of nm" using p by (simp add: ent_key_def)
  let ?c = "take pos (t ! idx) @ drop (pos + 1) (t ! idx)"
  have c: "chain_ok qn idx ?c" "chain_map qn ?c = (chain_map qn (t ! idx))(key_of nm := None)"
    using chain_ok_delete [OF h(3) p(1)] k by simp_all
  have "tab_map qn (t[idx := ?c]) = (tab_map qn t)(key_of nm := None)"
    using c(2) assms(3) h(1) by (auto simp: tab_map_update fun_eq_iff) (auto simp: tab_map_def)
  then show "\<exists>t'. wr t idx ?c = Some t' \<and> wf_table qn t' \<and> tab_map qn t' = (tab_map qn t)(key_of nm := None)"
    using wf_table_update [OF assms(1) h(1) c(1)] h(1) by (simp add: wr_def)
qed

lemma del_dns_hash_ent_spec:
  assumes "wf_table qn t" "valid_name nm" "dns_lookup qn t nm = Some (Some a, loc)"
  shows "\<exists>t'. del_dns_hash_ent t loc = Some (a, t') \<and> wf_table qn t' \<and> tab_map qn t' = (tab_map qn t)(key_of nm := None)"
proof -
  from dns_lookup_spec [OF assms(1,2)] assms(3) obtain idx pos rh where l: "loc = (idx, pos, rh)"
    "tab_map qn t (key_of nm) = Some a" "name_hash (key_of nm) = (idx, rh)" "chain_pos rh (t ! idx) (Some a) pos"
    by auto
  from tab_delete [OF assms(1,2) l(3,2,4)] show ?thesis by (auto simp: del_dns_hash_ent_def l(1))
qed

lemma del_dns_hash_spec:
  assumes "wf_table qn t" "valid_name nm"
  shows "\<exists>t'. del_dns_hash qn t nm = Some (tab_map qn t (key_of nm), t') \<and> wf_table qn t' \<and>
    tab_map qn t' = (tab_map qn t)(key_of nm := None)"
proof -
  from assms obtain idx rh where h: "name_hash (key_of nm) = (idx, rh)" "dns_hash nm = Some (idx, rh)" "idx < length t"
    "rd t idx = Some (t ! idx)" "chain_ok qn idx (t ! idx)" "tab_map qn t (key_of nm) = chain_map qn (t ! idx) (key_of nm)"
    by (rule wf_tableD)
  from chain_find_spec [OF h(5) assms(2) h(1), of 0] obtain pos where
    f: "chain_find qn nm rh (t ! idx) 0 = Some (tab_map qn t (key_of nm), pos)"
    "chain_pos rh (t ! idx) (tab_map qn t (key_of nm)) pos" using h(6) by auto
  show ?thesis
  proof (cases "tab_map qn t (key_of nm)")
    case None
    then show ?thesis using f h assms(1) by (simp add: del_dns_hash_def fun_upd_idem)
  next
    case (Some a)
    with f(2) have "chain_pos rh (t ! idx) (Some a) pos" by simp
    from tab_delete [OF assms h(1) Some this] f Some h show ?thesis by (auto simp: del_dns_hash_def)
  qed
qed

lemma wf_table_frame:
  assumes "wf_table qn t" "\<And>a. a \<in> tab_addrs t \<Longrightarrow> qn' a = qn a"
  shows "wf_table qn' t \<and> tab_map qn' t = tab_map qn t"
proof -
  have e: "ent_ok qn' i e = ent_ok qn i e \<and> ent_key qn' e = ent_key qn e" if "c \<in> set t" "e \<in> set c" for c e i
  proof -
    have "snd e \<in> tab_addrs t" using that by (auto simp: tab_addrs_def)
    then show ?thesis using assms(2) by (simp add: ent_ok_def ent_key_def)
  qed
  have c: "chain_ok qn' i c = chain_ok qn i c \<and> chain_map qn' c = chain_map qn c" if "c \<in> set t" for c i
  proof -
    have "map (ent_key qn') c = map (ent_key qn) c" "list_all (ent_ok qn' i) c = list_all (ent_ok qn i) c"
      "map (\<lambda>e. (ent_key qn' e, snd e)) c = map (\<lambda>e. (ent_key qn e, snd e)) c"
      using e [OF that] by (auto simp: list_all_iff)
    then show ?thesis unfolding chain_ok_def chain_map_def by metis
  qed
  have "tab_map qn' t k = tab_map qn t k" for k
    using c [of "t ! fst (name_hash k)"] name_hash_lt [of k] assms(1) by (simp add: tab_map_def wf_table_def)
  then show ?thesis using assms(1) c by (auto simp: wf_table_def)
qed

lemma chain_find_frame:
  "(\<And>e. e \<in> set c \<Longrightarrow> qn' (snd e) = qn (snd e)) \<Longrightarrow> chain_find qn' nm rh c n = chain_find qn nm rh c n"
proof (induction c arbitrary: n)
  case (Cons e c)
  then have "qn' (snd e) = qn (snd e)" by simp
  moreover have "chain_find qn' nm rh c (n + 1) = chain_find qn nm rh c (n + 1)"
    by (rule Cons.IH) (use Cons.prems in simp)
  ultimately show ?case by (cases e) (simp only: chain_find.simps snd_conv)
qed simp

lemma dns_lookup_frame:
  assumes "wf_table qn t" "\<And>a. a \<in> tab_addrs t \<Longrightarrow> qn' a = qn a" "valid_name nm"
  shows "dns_lookup qn' t nm = dns_lookup qn t nm"
proof -
  from assms(1,3) obtain idx rh where h: "name_hash (key_of nm) = (idx, rh)" "dns_hash nm = Some (idx, rh)"
    "idx < length t" "rd t idx = Some (t ! idx)" "chain_ok qn idx (t ! idx)"
    "tab_map qn t (key_of nm) = chain_map qn (t ! idx) (key_of nm)" by (rule wf_tableD)
  have "chain_find qn' nm rh (t ! idx) 0 = chain_find qn nm rh (t ! idx) 0"
  proof (rule chain_find_frame)
    fix e assume "e \<in> set (t ! idx)"
    then have "snd e \<in> tab_addrs t" using h(3) by (auto simp: tab_addrs_def intro!: bexI [of _ "t ! idx"])
    then show "qn' (snd e) = qn (snd e)" by (rule assms(2))
  qed
  then show ?thesis using h by (simp add: dns_lookup_def)
qed

subsection \<open>The contract of the table\<close>

text \<open>
  What the cache relies on: \<open>wf\<close> is the invariant of a table whose entries have the names \<open>qn\<close>
  gives, \<open>view\<close> the map it stands for.
\<close>

locale name_table =
  fixes wf :: "(nat \<Rightarrow> name option) \<Rightarrow> 't \<Rightarrow> bool"
    and view :: "(nat \<Rightarrow> name option) \<Rightarrow> 't \<Rightarrow> key \<rightharpoonup> nat"
    and look :: "(nat \<Rightarrow> name option) \<Rightarrow> 't \<Rightarrow> name \<Rightarrow> (nat option \<times> 'l) option"
    and ins :: "'t \<Rightarrow> nat \<Rightarrow> 'l \<Rightarrow> bool \<Rightarrow> (bool \<times> 't) option"
    and del_at :: "'t \<Rightarrow> 'l \<Rightarrow> (nat \<times> 't) option"
    and del :: "(nat \<Rightarrow> name option) \<Rightarrow> 't \<Rightarrow> name \<Rightarrow> (nat option \<times> 't) option"
  assumes view_valid: "wf qn t \<Longrightarrow> view qn t k = Some a \<Longrightarrow> \<exists>nm. qn a = Some nm \<and> valid_name nm \<and> key_of nm = k"
    and look_view: "wf qn t \<Longrightarrow> valid_name nm \<Longrightarrow> \<exists>loc. look qn t nm = Some (view qn t (key_of nm), loc)"
    and ins_view: "wf qn t \<Longrightarrow> valid_name nm \<Longrightarrow> look qn t nm = Some (None, loc) \<Longrightarrow> qn a = Some nm \<Longrightarrow>
      \<exists>t'. ins t a loc True = Some (True, t') \<and> wf qn t' \<and> view qn t' = (view qn t)(key_of nm \<mapsto> a)"
    and ins_fail: "ins t a loc False = Some (False, t)"
    and del_at_view: "wf qn t \<Longrightarrow> valid_name nm \<Longrightarrow> look qn t nm = Some (Some a, loc) \<Longrightarrow>
      \<exists>t'. del_at t loc = Some (a, t') \<and> wf qn t' \<and> view qn t' = (view qn t)(key_of nm := None)"
    and del_view: "wf qn t \<Longrightarrow> valid_name nm \<Longrightarrow>
      \<exists>t'. del qn t nm = Some (view qn t (key_of nm), t') \<and> wf qn t' \<and> view qn t' = (view qn t)(key_of nm := None)"
    and frame: "wf qn t \<Longrightarrow> (\<And>a. a \<in> ran (view qn t) \<Longrightarrow> qn' a = qn a) \<Longrightarrow> 
      wf qn' t \<and> view qn' t = view qn t \<and> (valid_name nm \<longrightarrow> look qn' t nm = look qn t nm)"
begin

lemma view_inj: "wf qn t \<Longrightarrow> view qn t k = Some a \<Longrightarrow> view qn t k' = Some a \<Longrightarrow> k = k'"
  using view_valid [of qn t k a] view_valid [of qn t k' a] by auto

text \<open>A new entry under a fresh address: the allocation of the entry itself does not disturb the
  table, and afterwards the new name is found, every other one as before.\<close>

lemma look_after_ins:
  assumes "wf qn t" "valid_name nm" "look qn t nm = Some (None, loc)" "a \<notin> ran (view qn t)"
  shows "\<exists>t'. ins t a loc True = Some (True, t') \<and> wf (qn(a \<mapsto> nm)) t' \<and>
    view (qn(a \<mapsto> nm)) t' = (view qn t)(key_of nm \<mapsto> a) \<and>
    (\<forall>nm'. valid_name nm' \<longrightarrow> (\<exists>loc'. look (qn(a \<mapsto> nm)) t' nm' =
       Some (if key_of nm' = key_of nm then Some a else view qn t (key_of nm'), loc')))"
proof -
  let ?qn = "qn(a \<mapsto> nm)"
  have f: "wf ?qn t" "view ?qn t = view qn t" "look ?qn t nm = look qn t nm"
  proof -
    have "\<And>x. x \<in> ran (view qn t) \<Longrightarrow> ?qn x = qn x" using assms(4) by auto
    from frame [OF assms(1) this, of nm] assms(2)
    show "wf ?qn t" "view ?qn t = view qn t" "look ?qn t nm = look qn t nm" by blast+
  qed
  have l: "look ?qn t nm = Some (None, loc)" using f(3) assms(3) by simp
  have "?qn a = Some nm" by simp
  from ins_view [OF f(1) assms(2) l this] obtain t' where
    t': "ins t a loc True = Some (True, t')" "wf ?qn t'" "view ?qn t' = (view qn t)(key_of nm \<mapsto> a)"
    unfolding f(2) by blast
  have "\<forall>nm'. valid_name nm' \<longrightarrow> (\<exists>loc'. look ?qn t' nm' =
       Some (if key_of nm' = key_of nm then Some a else view qn t (key_of nm'), loc'))"
    using look_view [OF t'(2)] t'(3) by auto
  with t' show ?thesis by blast
qed

lemma look_after_del:
  assumes "wf qn t" "valid_name nm"
  shows "\<exists>t'. del qn t nm = Some (view qn t (key_of nm), t') \<and> wf qn t' \<and>
    (\<forall>nm'. valid_name nm' \<longrightarrow> (\<exists>loc. look qn t' nm' =
       Some (if key_of nm' = key_of nm then None else view qn t (key_of nm'), loc)))"
proof -
  obtain t' where t': "del qn t nm = Some (view qn t (key_of nm), t')" "wf qn t'"
    "view qn t' = (view qn t)(key_of nm := None)" using del_view [OF assms] by blast
  then show ?thesis using look_view [OF t'(2)] by (intro exI [of _ t']) auto
qed

end

interpretation ht: name_table wf_table tab_map dns_lookup add_dns_hash del_dns_hash_ent del_dns_hash
proof unfold_locales
  show "wf_table qn t \<Longrightarrow> tab_map qn t k = Some a \<Longrightarrow> \<exists>nm. qn a = Some nm \<and> valid_name nm \<and> key_of nm = k" for qn t k a
    by (rule tab_map_valid)
  show "wf_table qn t \<Longrightarrow> valid_name nm \<Longrightarrow> \<exists>loc. dns_lookup qn t nm = Some (tab_map qn t (key_of nm), loc)" for qn t nm
    using dns_lookup_spec by blast
  show "wf_table qn t \<Longrightarrow> valid_name nm \<Longrightarrow> dns_lookup qn t nm = Some (None, loc) \<Longrightarrow> qn a = Some nm \<Longrightarrow>
      \<exists>t'. add_dns_hash t a loc True = Some (True, t') \<and> wf_table qn t' \<and> tab_map qn t' = (tab_map qn t)(key_of nm \<mapsto> a)"
    for qn t nm loc a by (rule add_dns_hash_spec)
  show "add_dns_hash t a loc False = Some (False, t)" for t a loc
    by (simp add: add_dns_hash_def split: prod.split)
  show "wf_table qn t \<Longrightarrow> valid_name nm \<Longrightarrow> dns_lookup qn t nm = Some (Some a, loc) \<Longrightarrow>
      \<exists>t'. del_dns_hash_ent t loc = Some (a, t') \<and> wf_table qn t' \<and> tab_map qn t' = (tab_map qn t)(key_of nm := None)"
    for qn t nm a loc by (rule del_dns_hash_ent_spec)
  show "wf_table qn t \<Longrightarrow> valid_name nm \<Longrightarrow>
      \<exists>t'. del_dns_hash qn t nm = Some (tab_map qn t (key_of nm), t') \<and> wf_table qn t' \<and>
        tab_map qn t' = (tab_map qn t)(key_of nm := None)" for qn t nm by (rule del_dns_hash_spec)
  show "wf_table qn t \<Longrightarrow> (\<And>a. a \<in> ran (tab_map qn t) \<Longrightarrow> qn' a = qn a) \<Longrightarrow>
      wf_table qn' t \<and> tab_map qn' t = tab_map qn t \<and> (valid_name nm \<longrightarrow> dns_lookup qn' t nm = dns_lookup qn t nm)"
    for qn t qn' nm using wf_table_frame [of qn t qn'] dns_lookup_frame [of qn t qn' nm] by (simp add: tab_addrs_map)
qed

text \<open>
  C36. Adding an entry at the location \<open>dns_lookup\<close> returned for a name that is not in the table:
  the invariant holds again (chains ordered by long hash, each name once, in its bucket), the
  name is found afterwards, in any spelling of its letters, and every other name as before.
\<close>

theorem add_dns_hash_correct:
  assumes "wf_table qn t" "valid_name nm" "dns_lookup qn t nm = Some (None, loc)" "a \<notin> ran (tab_map qn t)"
  shows "\<exists>t'. add_dns_hash t a loc True = Some (True, t') \<and> wf_table (qn(a \<mapsto> nm)) t' \<and>
    tab_map (qn(a \<mapsto> nm)) t' = (tab_map qn t)(key_of nm \<mapsto> a) \<and>
    (\<forall>nm'. valid_name nm' \<longrightarrow> (\<exists>loc'. dns_lookup (qn(a \<mapsto> nm)) t' nm' =
       Some (if key_of nm' = key_of nm then Some a else tab_map qn t (key_of nm'), loc')))"
  using assms by (rule ht.look_after_ins)

theorem add_dns_hash_correct_witness:
  "\<exists>loc t'. add_dns_hash mk_dns_hash 7 loc True = Some (True, t') \<and> wf_table [7 \<mapsto> [1, 97, 0]] t' \<and>
     (\<exists>loc'. dns_lookup [7 \<mapsto> [1, 97, 0]] t' [1, 65, 0] = Some (Some 7, loc'))"
proof -
  have v: "valid_name (enc [[97]])" "valid_name (enc [[65]])"
    by (rule valid_name_enc, simp add: wire_name_def wire_label_def)+
  have k: "key_of (enc [[65]]) = key_of (enc [[97]])"
    unfolding key_of_def by (subst (1 2) unenc_enc0) (simp_all add: name_label_def canon_def tolower_c_def)
  obtain loc where "dns_lookup Map.empty mk_dns_hash (enc [[97]]) = Some (None, loc)"
    using ht.look_view [where qn = Map.empty, OF mk_dns_hash_ok(1) v(1)] mk_dns_hash_ok(2) by auto
  from add_dns_hash_correct [OF mk_dns_hash_ok(1) v(1) this, of 7] obtain t' where
    t': "add_dns_hash mk_dns_hash 7 loc True = Some (True, t')" "wf_table [7 \<mapsto> enc [[97]]] t'" and
    l: "\<forall>nm'. valid_name nm' \<longrightarrow> (\<exists>loc'. dns_lookup [7 \<mapsto> enc [[97]]] t' nm' =
       Some (if key_of nm' = key_of (enc [[97]]) then Some 7 else tab_map Map.empty mk_dns_hash (key_of nm'), loc'))"
    by (auto simp: mk_dns_hash_ok(2))
  from l [rule_format, OF v(2)] k obtain loc' where
    "dns_lookup [7 \<mapsto> enc [[97]]] t' (enc [[65]]) = Some (Some 7, loc')" by auto
  with t' show ?thesis by (intro exI [of _ loc] exI [of _ t'] conjI exI [of _ loc']) simp_all
qed

text \<open>
  C37. Deleting a name: \<open>del_dns_hash\<close> returns the entry of the name, if any, takes it out of its
  chain and nothing else; the invariant holds again, the name is not found afterwards and every
  other one as before.
\<close>

theorem del_dns_hash_correct:
  assumes "wf_table qn t" "valid_name nm"
  shows "\<exists>t'. del_dns_hash qn t nm = Some (tab_map qn t (key_of nm), t') \<and> wf_table qn t' \<and>
    (\<forall>nm'. valid_name nm' \<longrightarrow> (\<exists>loc. dns_lookup qn t' nm' =
       Some (if key_of nm' = key_of nm then None else tab_map qn t (key_of nm'), loc)))"
  using assms by (rule ht.look_after_del)

theorem del_dns_hash_correct_witness:
  "\<exists>t'. del_dns_hash Map.empty mk_dns_hash [1, 97, 0] = Some (None, t') \<and> wf_table Map.empty t'"
proof -
  have "valid_name (enc [[97]])" by (rule valid_name_enc) (simp add: wire_name_def wire_label_def)
  from del_dns_hash_correct [OF mk_dns_hash_ok(1) this] show ?thesis by (auto simp: mk_dns_hash_ok(2))
qed

end
