(* ===== verification/Pd_RrList.thy ===== *)
theory Pd_RrList
  imports Pd_Prelude "HOL-Library.Multiset"
begin

text \<open>
  The list \<open>rrset_l\<close> of the cache (\<open>cache.c\<close>): a doubly linked list of \<open>rr_lent_t\<close> nodes, ordered
  by time stamp while \<open>insert_sort\<close> is set, with \<open>insert_rrl\<close>, \<open>remove_rrl\<close> and the merge sort
  \<open>sort_rrl\<close>. The nodes live in a memory that maps an address to the node allocated there. The
  field \<open>rrset\<close> of a node is represented by its \<open>idx\<close> in the entry \<open>cent\<close>, \<open>None\<close> standing for the
  null pointer with index -1; \<open>get_rrlent_ts\<close> is a parameter \<open>tsf\<close> here, given by the cache.
\<close>

subsection \<open>Nodes and links\<close>

record lnode =
  ln_next :: "nat option"
  ln_prev :: "nat option"
  ln_cent :: nat
  ln_idx :: "nat option"

record rrlist =
  rl_mem :: "nat \<rightharpoonup> lnode"
  rl_first :: "nat option"
  rl_last :: "nat option"

definition rrl_empty :: rrlist where
  "rrl_empty = \<lparr> rl_mem = Map.empty, rl_first = None, rl_last = None \<rparr>"

text \<open>\<open>p->next=q\<close>, or \<open>rrset_l=q\<close> when \<open>p\<close> is null, and the same for \<open>prev\<close> and the tail.\<close>

definition set_next :: "nat option \<Rightarrow> nat option \<Rightarrow> rrlist \<Rightarrow> rrlist option" where
  "set_next p q L = (case p of
     None \<Rightarrow> Some (L\<lparr> rl_first := q \<rparr>)
   | Some a \<Rightarrow> do { n \<leftarrow> rl_mem L a; Some (L\<lparr> rl_mem := (rl_mem L)(a \<mapsto> n\<lparr> ln_next := q \<rparr>) \<rparr>) })"

definition set_prev :: "nat option \<Rightarrow> nat option \<Rightarrow> rrlist \<Rightarrow> rrlist option" where
  "set_prev p q L = (case p of
     None \<Rightarrow> Some (L\<lparr> rl_last := q \<rparr>)
   | Some a \<Rightarrow> do { n \<leftarrow> rl_mem L a; Some (L\<lparr> rl_mem := (rl_mem L)(a \<mapsto> n\<lparr> ln_prev := q \<rparr>) \<rparr>) })"

definition remove_rrl :: "nat \<Rightarrow> rrlist \<Rightarrow> rrlist option" where
  "remove_rrl le L =
     do {
       n \<leftarrow> rl_mem L le;
       L1 \<leftarrow> set_prev (ln_next n) (ln_prev n) L;
       L2 \<leftarrow> set_next (ln_prev n) (ln_next n) L1;
       Some (L2\<lparr> rl_mem := (rl_mem L2)(le := None) \<rparr>)
     }"

text \<open>The search from the tail for a node that is not newer; a walk along \<open>prev\<close>, which would not
  return on a cyclic list.\<close>

partial_function (option) scan_back ::
    "(nat \<rightharpoonup> lnode) \<Rightarrow> (nat \<Rightarrow> nat option \<Rightarrow> int option) \<Rightarrow> int \<Rightarrow> nat option \<Rightarrow> nat option option" where
  "scan_back mem tsf ts le =
     (if le = None then Some None
      else do {
        n \<leftarrow> mem (the le);
        t \<leftarrow> tsf (ln_cent n) (ln_idx n);
        if ts \<ge> t then Some le else scan_back mem tsf ts (ln_prev n)
      })"

declare scan_back.simps [code]

text \<open>Linking the allocated node \<open>ne\<close> at address \<open>a\<close> behind the node \<open>le\<close> or at the start.\<close>

definition link_behind :: "nat option \<Rightarrow> nat \<Rightarrow> lnode \<Rightarrow> rrlist \<Rightarrow> rrlist option" where
  "link_behind le a ne L =
     do {
       nx \<leftarrow> (case le of None \<Rightarrow> Some (rl_first L) | Some p \<Rightarrow> do { n \<leftarrow> rl_mem L p; Some (ln_next n) });
       let ne' = ne\<lparr> ln_next := nx, ln_prev := le \<rparr>;
       let L0 = L\<lparr> rl_mem := (rl_mem L)(a \<mapsto> ne') \<rparr>;
       L1 \<leftarrow> set_prev nx (Some a) L0;
       set_next le (Some a) L1
     }"

text \<open>Appending: the branch taken while the list is read from disk.\<close>

definition link_last :: "nat \<Rightarrow> lnode \<Rightarrow> rrlist \<Rightarrow> rrlist option" where
  "link_last a ne L =
     do {
       let ne' = ne\<lparr> ln_next := None, ln_prev := rl_last L \<rparr>;
       L1 \<leftarrow> set_next (rl_last L) (Some a) (L\<lparr> rl_mem := (rl_mem L)(a \<mapsto> ne') \<rparr>);
       Some (L1\<lparr> rl_last := Some a \<rparr>)
     }"

definition link_node :: "(nat \<Rightarrow> nat option \<Rightarrow> int option) \<Rightarrow> bool \<Rightarrow> nat \<Rightarrow> lnode \<Rightarrow> rrlist \<Rightarrow> rrlist option" where
  "link_node tsf insert_sort a ne L =
     (if insert_sort then
        do {
          ts \<leftarrow> tsf (ln_cent ne) (ln_idx ne);
          le \<leftarrow> scan_back (rl_mem L) tsf ts (rl_last L);
          link_behind le a ne L
        }
      else link_last a ne L)"

subsection \<open>Merge sort\<close>

text \<open>A chain of nodes linked by \<open>next\<close> is a list of addresses; \<open>key\<close> gives their time stamps.\<close>

fun listmerge :: "(nat \<Rightarrow> int) \<Rightarrow> nat list \<Rightarrow> nat list \<Rightarrow> nat list" where
  "listmerge key [] q = q"
| "listmerge key p [] = p"
| "listmerge key (x # p) (y # q) =
     (if key x \<le> key y then x # listmerge key p (y # q) else y # listmerge key (x # p) q)"

text \<open>The loop that merges a carry into the array \<open>tmp\<close>, a null pointer being the empty list: the
  list holds the elements from \<open>counter\<close> up to \<open>fill\<close>, which moves when \<open>counter\<close> reaches it.\<close>

fun sort_carry :: "(nat \<Rightarrow> int) \<Rightarrow> nat list list \<Rightarrow> nat list \<Rightarrow> nat list list" where
  "sort_carry key [] carry = [carry]"
| "sort_carry key (t # tmp) carry =
     (if t = [] then carry # tmp else [] # sort_carry key tmp (listmerge key t carry))"

definition NTMPSORT :: nat where "NTMPSORT = 32"

fun sort_fill :: "(nat \<Rightarrow> int) \<Rightarrow> nat list \<Rightarrow> nat list list \<Rightarrow> nat list list option" where
  "sort_fill key [] tmp = Some tmp"
| "sort_fill key (x # rem) tmp =
     do {
       let tmp' = sort_carry key tmp [x];
       must (length tmp' \<le> NTMPSORT);
       sort_fill key rem tmp'
     }"

definition sort_merge :: "(nat \<Rightarrow> int) \<Rightarrow> nat list list \<Rightarrow> nat list" where
  "sort_merge key tmp = (case tmp of [] \<Rightarrow> [] | t # ts \<Rightarrow> fold (listmerge key) ts t)"

text \<open>Following the \<open>next\<close> pointers, and writing a chain back with both links.\<close>

partial_function (option) chain_from :: "(nat \<rightharpoonup> lnode) \<Rightarrow> nat option \<Rightarrow> nat list option" where
  "chain_from mem p =
     (if p = None then Some []
      else do { n \<leftarrow> mem (the p); as \<leftarrow> chain_from mem (ln_next n); Some (the p # as) })"

declare chain_from.simps [code]

fun relink :: "nat option \<Rightarrow> nat list \<Rightarrow> (nat \<rightharpoonup> lnode) \<Rightarrow> (nat \<rightharpoonup> lnode) option" where
  "relink q [] mem = Some mem"
| "relink q (a # as) mem =
     do {
       n \<leftarrow> mem a;
       relink (Some a) as
         (mem(a \<mapsto> n\<lparr> ln_next := (case as of [] \<Rightarrow> None | b # _ \<Rightarrow> Some b), ln_prev := q \<rparr>))
     }"

text \<open>The time stamps of the nodes, read before the sort: a lookup that fails is undefined.\<close>

fun node_times :: "(nat \<rightharpoonup> lnode) \<Rightarrow> (nat \<Rightarrow> nat option \<Rightarrow> int option) \<Rightarrow> nat list \<Rightarrow> (nat \<Rightarrow> int) option" where
  "node_times mem tsf [] = Some (\<lambda>_. 0)"
| "node_times mem tsf (a # as) =
     do { n \<leftarrow> mem a; t \<leftarrow> tsf (ln_cent n) (ln_idx n); f \<leftarrow> node_times mem tsf as; Some (f(a := t)) }"

definition sort_rrl :: "(nat \<Rightarrow> nat option \<Rightarrow> int option) \<Rightarrow> rrlist \<Rightarrow> rrlist option" where
  "sort_rrl tsf L =
     do {
       as \<leftarrow> chain_from (rl_mem L) (rl_first L);
       if length as \<ge> 2 then do {
         key \<leftarrow> node_times (rl_mem L) tsf as;
         tmp \<leftarrow> sort_fill key as [];
         let as' = sort_merge key tmp;
         mem' \<leftarrow> relink None as' (rl_mem L);
         Some \<lparr> rl_mem = mem',
                rl_first = (case as' of [] \<Rightarrow> None | b # _ \<Rightarrow> Some b),
                rl_last = (if as' = [] then None else Some (last as')) \<rparr>
       }
       else Some L
     }"

subsection \<open>The list a pointer structure stands for\<close>

definition hd_or :: "nat list \<Rightarrow> nat option \<Rightarrow> nat option" where
  "hd_or xs d = (case xs of [] \<Rightarrow> d | x # _ \<Rightarrow> Some x)"

definition last_or :: "nat list \<Rightarrow> nat option \<Rightarrow> nat option" where
  "last_or xs d = (if xs = [] then d else Some (last xs))"

lemma hd_or_simps [simp]: "hd_or [] d = d" "hd_or (x # xs) d = Some x"
  by (simp_all add: hd_or_def)

lemma last_or_simps [simp]: "last_or [] d = d" "last_or (xs @ [x]) d = Some x" "last_or (x # xs) d = last_or xs (Some x)"
  by (simp_all add: last_or_def)

lemma last_or_append [simp]: "last_or (xs @ ys) d = last_or ys (last_or xs d)"
  by (simp add: last_or_def)

lemma hd_or_append [simp]: "hd_or (xs @ ys) d = hd_or xs (hd_or ys d)"
  by (cases xs) simp_all

fun lseg :: "(nat \<rightharpoonup> lnode) \<Rightarrow> nat option \<Rightarrow> nat list \<Rightarrow> nat option \<Rightarrow> bool" where
  "lseg m p [] nx = True"
| "lseg m p (x # xs) nx = (case m x of None \<Rightarrow> False
     | Some n \<Rightarrow> ln_prev n = p \<and> ln_next n = hd_or xs nx \<and> lseg m (Some x) xs nx)"

lemma lseg_append [simp]:
  "lseg m p (xs @ ys) nx = (lseg m p xs (hd_or ys nx) \<and> lseg m (last_or xs p) ys nx)"
  by (induction xs arbitrary: p) (auto split: option.splits)

lemma lseg_frame: "(\<And>x. x \<in> set xs \<Longrightarrow> m' x = m x) \<Longrightarrow> lseg m' p xs nx = lseg m p xs nx"
  by (induction xs arbitrary: p) (auto split: option.splits)

lemma lseg_upd [simp]: "x \<notin> set xs \<Longrightarrow> lseg (m(x := v)) p xs nx = lseg m p xs nx"
  by (rule lseg_frame) auto

lemma lseg_node: "lseg m p xs nx \<Longrightarrow> x \<in> set xs \<Longrightarrow> \<exists>n. m x = Some n"
  by (induction xs arbitrary: p) (auto split: option.splits)

text \<open>An item: the address of its node, its entry and its index.\<close>

type_synonym item = "nat \<times> nat \<times> nat option"

definition node_item :: "nat \<Rightarrow> lnode \<Rightarrow> item" where
  "node_item a n = (a, ln_cent n, ln_idx n)"

definition rrl_rep :: "rrlist \<Rightarrow> item list \<Rightarrow> bool" where
  "rrl_rep L its = (distinct (map fst its) \<and> lseg (rl_mem L) None (map fst its) None \<and>
     rl_first L = hd_or (map fst its) None \<and> rl_last L = last_or (map fst its) None \<and>
     dom (rl_mem L) = set (map fst its) \<and>
     (\<forall>it \<in> set its. \<exists>n. rl_mem L (fst it) = Some n \<and> node_item (fst it) n = it))"

lemma rrl_repD:
  assumes "rrl_rep L its"
  shows "distinct (map fst its)" "lseg (rl_mem L) None (map fst its) None"
    "rl_first L = hd_or (map fst its) None" "rl_last L = last_or (map fst its) None"
    "dom (rl_mem L) = fst ` set its"
    "\<And>it. it \<in> set its \<Longrightarrow> \<exists>n. rl_mem L (fst it) = Some n \<and> node_item (fst it) n = it"
  using assms by (auto simp: rrl_rep_def)

lemma rrl_empty_rep: "rrl_rep rrl_empty []"
  by (simp add: rrl_rep_def rrl_empty_def)

text \<open>Changing the links does not change the items.\<close>

lemma set_next_spec:
  assumes "lseg (rl_mem L) q xs nx" "distinct xs" "p = last_or xs None" "q = None"
  shows "\<exists>L'. set_next p v L = Some L' \<and> lseg (rl_mem L') None xs v \<and>
    rl_first L' = (if xs = [] then v else rl_first L) \<and> rl_last L' = rl_last L \<and>
    dom (rl_mem L') = dom (rl_mem L) \<and> (\<forall>x. x \<notin> set xs \<longrightarrow> rl_mem L' x = rl_mem L x) \<and>
    (\<forall>x. map_option (node_item x) (rl_mem L' x) = map_option (node_item x) (rl_mem L x))"
proof (cases xs rule: rev_cases)
  case Nil
  then show ?thesis using assms by (auto simp: set_next_def)
next
  case (snoc as a)
  then obtain n where n: "rl_mem L a = Some n" "ln_prev n = last_or as None"
    using assms by (auto split: option.splits)
  show ?thesis using snoc n assms
    by (auto simp: set_next_def node_item_def split: option.splits)
qed

lemma set_prev_spec:
  assumes "lseg (rl_mem L) q xs None" "distinct xs" "p = hd_or xs None"
  shows "\<exists>L'. set_prev p v L = Some L' \<and> lseg (rl_mem L') v xs None \<and>
    rl_last L' = (if xs = [] then v else rl_last L) \<and> rl_first L' = rl_first L \<and>
    dom (rl_mem L') = dom (rl_mem L) \<and> (\<forall>x. x \<notin> set xs \<longrightarrow> rl_mem L' x = rl_mem L x) \<and>
    (\<forall>x. map_option (node_item x) (rl_mem L' x) = map_option (node_item x) (rl_mem L x))"
proof (cases xs)
  case Nil
  then show ?thesis using assms by (auto simp: set_prev_def)
next
  case (Cons a as)
  then obtain n where n: "rl_mem L a = Some n" "ln_next n = hd_or as None"
    using assms by (auto split: option.splits)
  show ?thesis using Cons n assms
    by (auto simp: set_prev_def node_item_def split: option.splits)
qed

lemma node_item_some: "map_option (node_item x) v = Some it \<Longrightarrow> \<exists>n. v = Some n \<and> node_item x n = it"
  by (cases v) auto

lemma rrl_rep_splitD:
  assumes "rrl_rep L (xs @ ys)"
  shows "distinct (map fst xs)" "distinct (map fst ys)" "fst ` set xs \<inter> fst ` set ys = {}"
    "lseg (rl_mem L) None (map fst xs) (hd_or (map fst ys) None)"
    "lseg (rl_mem L) (last_or (map fst xs) None) (map fst ys) None"
  using assms by (simp_all add: rrl_rep_def)

lemma remove_rrl_split:
  assumes "rrl_rep L (xs @ (le, c, i) # ys)"
  shows "\<exists>L'. remove_rrl le L = Some L' \<and> rrl_rep L' (xs @ ys)"
proof -
  let ?A = "map fst xs" and ?B = "map fst ys"
  from assms have d: "distinct (?A @ le # ?B)" and seg: "lseg (rl_mem L) None (?A @ le # ?B) None"
    and fl: "rl_first L = hd_or (?A @ le # ?B) None" "rl_last L = last_or (?A @ le # ?B) None"
    and dom: "dom (rl_mem L) = set (?A @ le # ?B)"
    by (simp_all add: rrl_rep_def)
  from seg obtain n where n: "rl_mem L le = Some n" "ln_prev n = last_or ?A None" "ln_next n = hd_or ?B None"
    and A: "lseg (rl_mem L) None ?A (Some le)" and B: "lseg (rl_mem L) (Some le) ?B None"
    by (auto split: option.splits)
  have dB: "distinct ?B" and dA: "distinct ?A" using d by auto
  from set_prev_spec [OF B dB refl, of "ln_prev n"] obtain L1 where
    L1: "set_prev (hd_or ?B None) (ln_prev n) L = Some L1" "lseg (rl_mem L1) (ln_prev n) ?B None"
      "rl_last L1 = (if ?B = [] then ln_prev n else rl_last L)" "rl_first L1 = rl_first L"
      "dom (rl_mem L1) = dom (rl_mem L)" "\<And>x. x \<notin> set ?B \<Longrightarrow> rl_mem L1 x = rl_mem L x"
      "\<And>x. map_option (node_item x) (rl_mem L1 x) = map_option (node_item x) (rl_mem L x)" by blast
  have disj: "\<And>x. x \<in> set ?A \<Longrightarrow> x \<notin> set ?B" using d by auto
  have "lseg (rl_mem L1) None ?A (Some le) = lseg (rl_mem L) None ?A (Some le)"
    by (rule lseg_frame, rule L1(6), rule disj)
  then have A1: "lseg (rl_mem L1) None ?A (Some le)" using A by blast
  from set_next_spec [OF A1 dA refl refl, of "ln_next n"] obtain L2 where
    L2: "set_next (last_or ?A None) (ln_next n) L1 = Some L2" "lseg (rl_mem L2) None ?A (ln_next n)"
      "rl_first L2 = (if ?A = [] then ln_next n else rl_first L1)" "rl_last L2 = rl_last L1"
      "dom (rl_mem L2) = dom (rl_mem L1)" "\<And>x. x \<notin> set ?A \<Longrightarrow> rl_mem L2 x = rl_mem L1 x"
      "\<And>x. map_option (node_item x) (rl_mem L2 x) = map_option (node_item x) (rl_mem L1 x)" by blast
  have "lseg (rl_mem L2) (ln_prev n) ?B None = lseg (rl_mem L1) (ln_prev n) ?B None"
    by (rule lseg_frame, rule L2(6)) (use disj in blast)
  then have B2: "lseg (rl_mem L2) (ln_prev n) ?B None" using L1(2) by blast
  let ?L' = "L2\<lparr> rl_mem := (rl_mem L2)(le := None) \<rparr>"
  have le: "le \<notin> set ?A" "le \<notin> set ?B" using d by auto
  have seg': "lseg (rl_mem ?L') None (?A @ ?B) None"
    using L2(2) B2 le n(2,3) by simp
  have rem: "remove_rrl le L = Some ?L'"
    using n L1(1) L2(1) by (simp add: remove_rrl_def)
  have items: "\<exists>n. rl_mem ?L' (fst it) = Some n \<and> node_item (fst it) n = it" if "it \<in> set (xs @ ys)" for it
  proof -
    have "map_option (node_item (fst it)) (rl_mem L (fst it)) = Some it"
      using assms that by (fastforce simp: rrl_rep_def)
    then have "map_option (node_item (fst it)) (rl_mem L2 (fst it)) = Some it" using L1(7) L2(7) by metis
    moreover have "fst it \<noteq> le" using that le by auto
    ultimately show ?thesis using node_item_some by simp
  qed
  have "rrl_rep ?L' (xs @ ys)"
    unfolding rrl_rep_def
    using seg' items d fl L1(3,4,5) L2(3,4,5) dom n(2,3)
    by (auto simp: hd_or_def last_or_def split: list.splits)
  with rem show ?thesis by blast
qed

lemma link_behind_split:
  assumes "rrl_rep L (xs @ ys)" "a \<notin> dom (rl_mem L)" "le = last_or (map fst xs) None"
  shows "\<exists>L'. link_behind le a ne L = Some L' \<and> rrl_rep L' (xs @ (a, ln_cent ne, ln_idx ne) # ys)"
proof -
  let ?A = "map fst xs" and ?B = "map fst ys"
  let ?nx = "hd_or ?B None"
  let ?ne = "ne\<lparr> ln_next := ?nx, ln_prev := le \<rparr>"
  let ?L0 = "L\<lparr> rl_mem := (rl_mem L)(a \<mapsto> ?ne) \<rparr>"
  have seg: "lseg (rl_mem L) None ?A ?nx" "lseg (rl_mem L) le ?B None"
    using rrl_rep_splitD(4,5) [OF assms(1)] assms(3) by simp_all
  have dom: "dom (rl_mem L) = set ?A \<union> set ?B" using rrl_repD(5) [OF assms(1)] by auto
  then have a: "a \<notin> set ?A" "a \<notin> set ?B" using assms(2) by auto
  have d: "distinct ?A" "distinct ?B" and disj: "\<And>x. x \<in> set ?A \<Longrightarrow> x \<notin> set ?B"
    using rrl_rep_splitD(1,2,3) [OF assms(1)] by auto
  have nx: "(case le of None \<Rightarrow> Some (rl_first L) | Some p \<Rightarrow> do { n \<leftarrow> rl_mem L p; Some (ln_next n) }) = Some ?nx"
  proof (cases xs rule: rev_cases)
    case Nil
    then show ?thesis using assms(1,3) by (simp add: rrl_rep_def)
  next
    case (snoc zs z)
    then show ?thesis using seg(1) assms(3) by (auto split: option.splits)
  qed
  have B0: "lseg (rl_mem ?L0) le ?B None" using seg(2) a(2) by simp
  from set_prev_spec [OF B0 d(2) refl, of "Some a"] obtain L1 where
    L1: "set_prev ?nx (Some a) ?L0 = Some L1" "lseg (rl_mem L1) (Some a) ?B None"
      "rl_last L1 = (if ?B = [] then Some a else rl_last L)" "rl_first L1 = rl_first L"
      "dom (rl_mem L1) = dom (rl_mem ?L0)" "\<And>x. x \<notin> set ?B \<Longrightarrow> rl_mem L1 x = rl_mem ?L0 x"
      "\<And>x. map_option (node_item x) (rl_mem L1 x) = map_option (node_item x) (rl_mem ?L0 x)" by auto
  have "lseg (rl_mem L1) None ?A ?nx = lseg (rl_mem L) None ?A ?nx"
    by (rule lseg_frame) (use L1(6) disj a(1) in auto)
  then have A1: "lseg (rl_mem L1) None ?A ?nx" using seg(1) by blast
  from set_next_spec [OF A1 d(1) assms(3) refl, of "Some a"] obtain L2 where
    L2: "set_next le (Some a) L1 = Some L2" "lseg (rl_mem L2) None ?A (Some a)"
      "rl_first L2 = (if ?A = [] then Some a else rl_first L1)" "rl_last L2 = rl_last L1"
      "dom (rl_mem L2) = dom (rl_mem L1)" "\<And>x. x \<notin> set ?A \<Longrightarrow> rl_mem L2 x = rl_mem L1 x"
      "\<And>x. map_option (node_item x) (rl_mem L2 x) = map_option (node_item x) (rl_mem L1 x)" by auto
  have "lseg (rl_mem L2) (Some a) ?B None = lseg (rl_mem L1) (Some a) ?B None"
    by (rule lseg_frame, rule L2(6)) (use disj in blast)
  then have B2: "lseg (rl_mem L2) (Some a) ?B None" using L1(2) by blast
  have na: "rl_mem L2 a = Some ?ne" using L2(6) [OF a(1)] L1(6) [OF a(2)] by simp
  have link: "link_behind le a ne L = Some L2"
    unfolding link_behind_def nx using L1(1) L2(1) by (simp add: Let_def)
  have seg': "lseg (rl_mem L2) None (?A @ a # ?B) None"
    using L2(2) B2 na assms(3) by simp
  have items: "\<exists>n. rl_mem L2 (fst it) = Some n \<and> node_item (fst it) n = it"
    if "it \<in> set (xs @ (a, ln_cent ne, ln_idx ne) # ys)" for it
  proof (cases "it = (a, ln_cent ne, ln_idx ne)")
    case True
    then show ?thesis using na by (simp add: node_item_def)
  next
    case False
    then have it: "it \<in> set (xs @ ys)" using that by auto
    then have "map_option (node_item (fst it)) (rl_mem L (fst it)) = Some it"
      using assms(1) by (fastforce simp: rrl_rep_def)
    moreover have "fst it \<noteq> a" using it a by auto
    ultimately have "map_option (node_item (fst it)) (rl_mem L2 (fst it)) = Some it" using L1(7) L2(7) by simp
    then show ?thesis by (rule node_item_some)
  qed
  have fl: "rl_first L = hd_or (?A @ ?B) None" "rl_last L = last_or (?A @ ?B) None"
    using assms(1) by (simp_all add: rrl_rep_def)
  have "rl_first L2 = hd_or (?A @ a # ?B) None"
    using L2(3) L1(4) fl(1) by (cases ?A) auto
  moreover have "rl_last L2 = last_or (?A @ a # ?B) None"
    using L2(4) L1(3) fl(2) by (auto simp: last_or_def)
  moreover have "dom (rl_mem L2) = set (?A @ a # ?B)" using L2(5) L1(5) dom by simp
  moreover have "distinct (?A @ a # ?B)" using d disj a by auto
  ultimately have "rrl_rep L2 (xs @ (a, ln_cent ne, ln_idx ne) # ys)"
    unfolding rrl_rep_def using seg' items by simp
  with link show ?thesis by blast
qed

lemma link_last_rep:
  assumes "rrl_rep L xs" "a \<notin> dom (rl_mem L)"
  shows "\<exists>L'. link_last a ne L = Some L' \<and> rrl_rep L' (xs @ [(a, ln_cent ne, ln_idx ne)])"
proof -
  have nx: "(case rl_last L of None \<Rightarrow> Some (rl_first L) | Some p \<Rightarrow> do { n \<leftarrow> rl_mem L p; Some (ln_next n) }) = Some None"
  proof (cases xs rule: rev_cases)
    case Nil
    then show ?thesis using assms(1) by (simp add: rrl_rep_def)
  next
    case (snoc zs z)
    then show ?thesis using assms(1) by (auto simp: rrl_rep_def split: option.splits)
  qed
  have last: "rl_last L = last_or (map fst xs) None" using assms(1) by (simp add: rrl_rep_def)
  have "link_last a ne L = link_behind (rl_last L) a ne L"
    unfolding link_behind_def link_last_def nx
    by (cases L) (auto simp: set_prev_def set_next_def Let_def split: option.splits)
  then show ?thesis using link_behind_split [of L xs "[]" a "rl_last L" ne] assms last by simp
qed

text \<open>The time stamps of the items.\<close>

definition has_times :: "(nat \<Rightarrow> nat option \<Rightarrow> int option) \<Rightarrow> (item \<Rightarrow> int) \<Rightarrow> item list \<Rightarrow> bool" where
  "has_times tsf key its = (\<forall>(a, c, i) \<in> set its. tsf c i = Some (key (a, c, i)))"

definition newer :: "(item \<Rightarrow> int) \<Rightarrow> int \<Rightarrow> item list \<Rightarrow> item list" where
  "newer key ts its = rev (takeWhile (\<lambda>it. ts < key it) (rev its))"

definition older :: "(item \<Rightarrow> int) \<Rightarrow> int \<Rightarrow> item list \<Rightarrow> item list" where
  "older key ts its = rev (dropWhile (\<lambda>it. ts < key it) (rev its))"

lemma older_newer: "older key ts its @ newer key ts its = its"
  unfolding older_def newer_def by (metis rev_append rev_rev_ident takeWhile_dropWhile_id)

lemma scan_back_spec:
  assumes "lseg m None (map fst its) nx" "has_times tsf key its"
    "\<And>it. it \<in> set its \<Longrightarrow> \<exists>n. m (fst it) = Some n \<and> node_item (fst it) n = it"
  shows "scan_back m tsf ts (last_or (map fst its) None) = Some (last_or (map fst (older key ts its)) None)"
  using assms
proof (induction its arbitrary: nx rule: rev_induct)
  case Nil
  then show ?case by (simp add: scan_back.simps older_def)
next
  case (snoc it its)
  obtain a c i where it: "it = (a, c, i)" by (cases it)
  obtain n where n: "m a = Some n" "ln_cent n = c" "ln_idx n = i"
    using snoc.prems(3) [of it] it by (auto simp: node_item_def)
  have t: "tsf c i = Some (key it)" using snoc.prems(2) it by (auto simp: has_times_def)
  have pv: "ln_prev n = last_or (map fst its) None" "lseg m None (map fst its) (Some a)"
    using snoc.prems(1) n it by (auto split: option.splits)
  have IH: "scan_back m tsf ts (last_or (map fst its) None) = Some (last_or (map fst (older key ts its)) None)"
    by (rule snoc.IH [OF pv(2)]) (use snoc.prems in \<open>auto simp: has_times_def\<close>)
  show ?case
  proof (cases "key it \<le> ts")
    case True
    then show ?thesis using n t it by (simp add: scan_back.simps older_def)
  next
    case False
    then have "older key ts (its @ [it]) = older key ts its" by (simp add: older_def)
    then show ?thesis using False n t it pv(1) IH by (simp add: scan_back.simps [of _ _ _ "Some a"])
  qed
qed

text \<open>Where a new item goes: behind the last one that is not newer.\<close>

definition insert_item :: "(item \<Rightarrow> int) \<Rightarrow> int \<Rightarrow> item \<Rightarrow> item list \<Rightarrow> item list" where
  "insert_item key ts it its = older key ts its @ it # newer key ts its"

lemma link_node_sorted:
  assumes "rrl_rep L its" "a \<notin> dom (rl_mem L)" "has_times tsf key its" "tsf (ln_cent ne) (ln_idx ne) = Some ts"
  shows "\<exists>L'. link_node tsf True a ne L = Some L' \<and> rrl_rep L' (insert_item key ts (a, ln_cent ne, ln_idx ne) its)"
proof -
  have "scan_back (rl_mem L) tsf ts (rl_last L) = Some (last_or (map fst (older key ts its)) None)"
    using scan_back_spec [of "rl_mem L" its None tsf key ts] rrl_repD [OF assms(1)] assms(3) by auto
  moreover have "rrl_rep L (older key ts its @ newer key ts its)" using assms(1) by (simp add: older_newer)
  ultimately show ?thesis
    using link_behind_split [OF _ assms(2) refl, of "older key ts its" "newer key ts its" ne] assms(4)
    by (auto simp: link_node_def insert_item_def)
qed

lemma insert_item_sorted:
  assumes "sorted (map key its)" "key it = ts"
  shows "sorted (map key (insert_item key ts it its))"
proof -
  have o: "sorted (map key (older key ts its @ newer key ts its))" using assms(1) by (simp add: older_newer)
  have n: "\<forall>x \<in> set (newer key ts its). ts < key x" by (auto simp: newer_def dest: set_takeWhileD)
  have "\<forall>x \<in> set (older key ts its). key x \<le> ts"
  proof (cases "older key ts its" rule: rev_cases)
    case Nil
    then show ?thesis by simp
  next
    case (snoc zs z)
    then have "dropWhile (\<lambda>it. ts < key it) (rev its) = z # rev zs"
      unfolding older_def by (metis rev.simps(2) rev_append rev_rev_ident rev_swap)
    then have "\<not> ts < key z" by (metis dropWhile_eq_Cons_conv)
    moreover have "\<forall>x \<in> set zs. key x \<le> key z" using o snoc by (auto simp: sorted_append)
    ultimately show ?thesis using snoc by auto
  qed
  then show ?thesis using o n assms(2)
    by (auto simp: insert_item_def sorted_append less_imp_le)
qed

subsection \<open>The sort\<close>

lemma sort_key_merge: "sort_key f (sort_key f xs @ sort_key f ys) = sort_key f (xs @ ys)"
proof (rule properties_for_sort_key)
  show "mset (sort_key f (xs @ ys)) = mset (sort_key f xs @ sort_key f ys)" by simp
  show "sorted (map f (sort_key f (xs @ ys)))" by simp
  fix k assume "k \<in> set (sort_key f (xs @ ys))"
  show "filter (\<lambda>x. f k = f x) (sort_key f (xs @ ys)) = filter (\<lambda>x. f k = f x) (sort_key f xs @ sort_key f ys)"
    using sort_key_stable [of f "f k"] by (simp add: eq_commute [of "f k"])
qed

lemma listmerge_mset: "mset (listmerge key p q) = mset p + mset q"
  by (induction key p q rule: listmerge.induct) auto

lemma listmerge_set: "set (listmerge key p q) = set p \<union> set q"
  by (induction key p q rule: listmerge.induct) auto

lemma listmerge_sorted: "sorted (map key p) \<Longrightarrow> sorted (map key q) \<Longrightarrow> sorted (map key (listmerge key p q))"
  by (induction key p q rule: listmerge.induct) (auto simp: listmerge_set)

lemma listmerge_filter:
  "sorted (map key p) \<Longrightarrow> sorted (map key q) \<Longrightarrow>
   filter (\<lambda>x. k = key x) (listmerge key p q) = filter (\<lambda>x. k = key x) p @ filter (\<lambda>x. k = key x) q"
proof (induction key p q rule: listmerge.induct)
  case (3 key x p y q)
  show ?case
  proof (cases "key x \<le> key y")
    case True
    then show ?thesis using 3 by auto
  next
    case False
    have "filter (\<lambda>z. k = key z) (x # p) = []" if "k = key y"
      using 3(3) False that by (auto simp: filter_empty_conv)
    then show ?thesis using 3 False by (cases "k = key y") auto
  qed
qed auto

lemma listmerge_sort: "listmerge key (sort_key key p) (sort_key key q) = sort_key key (p @ q)"
proof -
  have "sort_key key (sort_key key p @ sort_key key q) = listmerge key (sort_key key p) (sort_key key q)"
    by (rule properties_for_sort_key) (simp_all add: listmerge_mset listmerge_sorted listmerge_filter)
  then show ?thesis by (simp add: sort_key_merge)
qed

text \<open>The fragments in \<open>tmp\<close> are the sorted forms of chunks of the list, the oldest last.\<close>

definition frags :: "(nat \<Rightarrow> int) \<Rightarrow> nat list list \<Rightarrow> nat list list \<Rightarrow> bool" where
  "frags key tmp cs = (tmp = map (sort_key key) cs)"

lemma sort_carry_frags:
  "\<exists>cs'. sort_carry key (map (sort_key key) cs) (sort_key key c) = map (sort_key key) cs' \<and>
     concat (rev cs') = concat (rev cs) @ c"
proof (induction cs arbitrary: c)
  case Nil
  then show ?case by (intro exI [of _ "[c]"]) simp
next
  case (Cons d cs)
  show ?case
  proof (cases "sort_key key d = []")
    case True
    then have "d = []" by (metis length_0_conv length_sort)
    then show ?thesis by (intro exI [of _ "c # cs"]) simp
  next
    case False
    obtain cs' where "sort_carry key (map (sort_key key) cs) (sort_key key (d @ c)) = map (sort_key key) cs'"
      "concat (rev cs') = concat (rev cs) @ d @ c" using Cons.IH by blast
    then show ?thesis using False
      by (intro exI [of _ "[] # cs'"]) (simp add: listmerge_sort)
  qed
qed

text \<open>The sizes of the fragments: a binary counter, so 32 of them are enough.\<close>

definition counter :: "nat \<Rightarrow> nat list list \<Rightarrow> bool" where
  "counter k tmp = ((\<forall>i < length tmp. tmp ! i = [] \<or> length (tmp ! i) = 2 ^ (k + i)) \<and>
     (tmp \<noteq> [] \<longrightarrow> last tmp \<noteq> []))"

lemma sort_carry_counter:
  "counter k tmp \<Longrightarrow> length carry = 2 ^ k \<Longrightarrow> counter k (sort_carry key tmp carry)"
proof (induction tmp arbitrary: k carry)
  case Nil
  then show ?case by (auto simp: counter_def)
next
  case (Cons t tmp)
  have tl: "counter (Suc k) tmp"
    using Cons.prems(1) by (fastforce simp: counter_def)
  show ?case
  proof (cases "t = []")
    case True
    then show ?thesis using Cons.prems by (auto simp: counter_def nth_Cons split: nat.splits)
  next
    case False
    then have "length t = 2 ^ k" using Cons.prems(1) by (fastforce simp: counter_def)
    then have "length (listmerge key t carry) = 2 ^ Suc k"
      using Cons.prems(2) by (metis listmerge_mset size_mset size_union mult_2 power_Suc)
    from Cons.IH [OF tl this] have "counter (Suc k) (sort_carry key tmp (listmerge key t carry))" .
    moreover have "sort_carry key tmp c \<noteq> []" for c by (cases tmp) auto
    ultimately show ?thesis using False by (auto simp: counter_def nth_Cons split: nat.splits)
  qed
qed

lemma counter_bound:
  assumes "counter 0 tmp" "tmp \<noteq> []"
  shows "2 ^ (length tmp - 1) \<le> length (concat tmp)"
proof -
  have "last tmp = tmp ! (length tmp - 1)" using assms(2) by (rule last_conv_nth)
  moreover have "length tmp - 1 < length tmp" using assms(2) by simp
  moreover have "last tmp \<noteq> []" using assms by (simp add: counter_def)
  ultimately have "length (last tmp) = 2 ^ (length tmp - 1)"
    using assms(1) unfolding counter_def by (metis add_0)
  moreover have "length (last tmp) \<le> length (concat tmp)"
    using assms(2) by (metis append_butlast_last_id concat_append length_append le_add2 concat.simps append_Nil2)
  ultimately show ?thesis by simp
qed

lemma sort_fill_spec:
  "counter 0 (map (sort_key key) cs) \<Longrightarrow> length (concat cs) + length xs < 2 ^ 32 \<Longrightarrow>
   \<exists>cs'. sort_fill key xs (map (sort_key key) cs) = Some (map (sort_key key) cs') \<and>
     concat (rev cs') = concat (rev cs) @ xs"
proof (induction xs arbitrary: cs)
  case Nil
  then show ?case by auto
next
  case (Cons x xs)
  obtain cs' where cs': "sort_carry key (map (sort_key key) cs) (sort_key key [x]) = map (sort_key key) cs'"
    "concat (rev cs') = concat (rev cs) @ [x]" using sort_carry_frags by blast
  have c: "counter 0 (map (sort_key key) cs')"
    using sort_carry_counter [OF Cons.prems(1), of "[x]" key] cs'(1) by simp
  have ml: "length (concat (rev ds)) = length (concat ds)" "length (concat (map (sort_key key) ds)) = length (concat ds)"
    for ds :: "nat list list"
    by (induction ds) auto
  have len: "length (concat cs') = length (concat cs) + 1"
    using arg_cong [OF cs'(2), of length] by (simp add: ml)
  have "length cs' \<le> 32"
  proof (rule ccontr)
    assume "\<not> length cs' \<le> 32"
    then have "(2 :: nat) ^ 32 \<le> 2 ^ (length cs' - 1)" by (intro power_increasing) auto
    also have "\<dots> \<le> length (concat cs')"
      using counter_bound [OF c] \<open>\<not> length cs' \<le> 32\<close> ml(2) [of cs'] by fastforce
    finally show False using len Cons.prems(2) by simp
  qed
  moreover obtain ds where "sort_fill key xs (map (sort_key key) cs') = Some (map (sort_key key) ds)"
    "concat (rev ds) = concat (rev cs') @ xs"
    using Cons.IH [OF c] len Cons.prems(2) by auto
  ultimately show ?case using cs' by (intro exI [of _ ds]) (simp add: NTMPSORT_def)
qed

lemma sort_merge_spec: "sort_merge key (map (sort_key key) cs) = sort_key key (concat (rev cs))"
proof (cases cs)
  case Nil
  then show ?thesis by (simp add: sort_merge_def)
next
  case (Cons c cs')
  have "fold (listmerge key) (map (sort_key key) ds) (sort_key key d) = sort_key key (concat (rev ds) @ d)" for ds d
    by (induction ds arbitrary: d) (simp_all add: listmerge_sort)
  then show ?thesis using Cons by (simp add: sort_merge_def)
qed

lemma sort_fill_merge:
  assumes "length as < 2 ^ 32"
  shows "\<exists>tmp. sort_fill key as [] = Some tmp \<and> sort_merge key tmp = sort_key key as"
  using sort_fill_spec [of key "[]" as] assms by (auto simp: counter_def sort_merge_spec)

text \<open>Reading the chain and writing it back.\<close>

lemma chain_from_spec: "lseg m p xs None \<Longrightarrow> chain_from m (hd_or xs None) = Some xs"
proof (induction xs arbitrary: p)
  case Nil
  then show ?case by (simp add: chain_from.simps [of m None])
next
  case (Cons a xs)
  then obtain n where n: "m a = Some n" "ln_next n = hd_or xs None" "lseg m (Some a) xs None"
    by (auto split: option.splits)
  have "chain_from m (Some a) = Some (a # xs)"
    using n Cons.IH [OF n(3)] by (subst chain_from.simps) simp
  then show ?case by simp
qed

definition relinked :: "nat option \<Rightarrow> nat list \<Rightarrow> (nat \<rightharpoonup> lnode) \<Rightarrow> (nat \<rightharpoonup> lnode) \<Rightarrow> bool" where
  "relinked q as m m' = (lseg m' q as None \<and> dom m' = dom m \<and>
    (\<forall>x. x \<notin> set as \<longrightarrow> m' x = m x) \<and> (\<forall>x. map_option (node_item x) (m' x) = map_option (node_item x) (m x)))"

lemma relinked_Cons:
  assumes "m a = Some n" "a \<notin> set as"
    "relinked (Some a) as (m(a \<mapsto> n\<lparr> ln_next := hd_or as None, ln_prev := q \<rparr>)) m'"
  shows "relinked q (a # as) m m'"
  using assms unfolding relinked_def by (auto simp: node_item_def split: if_splits)

lemma relink_spec:
  assumes "distinct as" "set as \<subseteq> dom m"
  shows "\<exists>m'. relink q as m = Some m' \<and> relinked q as m m'"
  using assms
proof (induction as arbitrary: q m)
  case Nil
  then show ?case by (simp add: relinked_def)
next
  case (Cons a as)
  then obtain n where n: "m a = Some n" by auto
  let ?m = "m(a \<mapsto> n\<lparr> ln_next := hd_or as None, ln_prev := q \<rparr>)"
  have d: "distinct as" "a \<notin> set as" "set as \<subseteq> dom ?m" using Cons.prems by auto
  obtain m' where m': "relink (Some a) as ?m = Some m'" "relinked (Some a) as ?m m'"
    using Cons.IH [OF d(1,3)] by blast
  then show ?case
    using n relinked_Cons [OF n d(2) m'(2)] by (intro exI [of _ m']) (simp add: hd_or_def)
qed

lemma node_times_spec:
  assumes "\<And>it. it \<in> set its \<Longrightarrow> \<exists>n. m (fst it) = Some n \<and> node_item (fst it) n = it" "has_times tsf key its"
    "distinct (map fst its)"
  shows "\<exists>f. node_times m tsf (map fst its) = Some f \<and> (\<forall>it \<in> set its. f (fst it) = key it)"
  using assms
proof (induction its)
  case Nil
  then show ?case by simp
next
  case (Cons it its)
  obtain a c i where it: "it = (a, c, i)" by (cases it)
  then obtain n where n: "m a = Some n" "ln_cent n = c" "ln_idx n = i"
    using Cons.prems(1) [of it] by (auto simp: node_item_def)
  obtain f where f: "node_times m tsf (map fst its) = Some f" "\<forall>it \<in> set its. f (fst it) = key it"
    using Cons.IH Cons.prems by (auto simp: has_times_def)
  have "tsf c i = Some (key it)" using Cons.prems(2) it by (auto simp: has_times_def)
  moreover have "\<forall>x \<in> set its. (f(a := key it)) (fst x) = key x" using f(2) Cons.prems(3) it by force
  ultimately show ?case using n f it by (auto intro!: exI [of _ "f(a := key it)"])
qed

lemma sort_rrl_rep:
  assumes "rrl_rep L its" "has_times tsf key its" "length its < 2 ^ 32"
  shows "\<exists>L'. sort_rrl tsf L = Some L' \<and> rrl_rep L' (sort_key key its)"
proof -
  let ?as = "map fst its"
  have seg: "lseg (rl_mem L) None ?as None" and d: "distinct ?as" and dom: "dom (rl_mem L) = set ?as"
    and fl: "rl_first L = hd_or ?as None"
    using assms(1) by (simp_all add: rrl_rep_def)
  have its: "\<And>it. it \<in> set its \<Longrightarrow> \<exists>n. rl_mem L (fst it) = Some n \<and> node_item (fst it) n = it"
    by (rule rrl_repD(6) [OF assms(1)])
  have chain: "chain_from (rl_mem L) (rl_first L) = Some ?as" using chain_from_spec [OF seg] fl by simp
  show ?thesis
  proof (cases "length its \<ge> 2")
    case False
    then have "sort_key key its = its" by (cases its; cases "tl its") auto
    then show ?thesis using False chain assms(1) by (simp add: sort_rrl_def)
  next
    case True
    obtain f where f: "node_times (rl_mem L) tsf ?as = Some f" "\<forall>it \<in> set its. f (fst it) = key it"
      using node_times_spec [OF its assms(2) d] by blast
    obtain tmp where tmp: "sort_fill f ?as [] = Some tmp" "sort_merge f tmp = sort_key f ?as"
      using sort_fill_merge [of ?as f] assms(3) by auto
    have eq: "sort_key f ?as = map fst (sort_key key its)"
    proof (rule properties_for_sort_key)
      show "mset (map fst (sort_key key its)) = mset ?as" by simp
      have ff: "map f (map fst (sort_key key its)) = map key (sort_key key its)"
        using f(2) by simp
      show "sorted (map f (map fst (sort_key key its)))" unfolding ff by simp
      fix k assume "k \<in> set (map fst (sort_key key its))"
      then obtain it where "it \<in> set its" "k = fst it" by auto
      have "filter (\<lambda>x. f k = f x) (map fst (sort_key key its)) = map fst (filter (\<lambda>x. f k = f (fst x)) (sort_key key its))"
        by (simp add: filter_map comp_def)
      also have "filter (\<lambda>x. f k = f (fst x)) (sort_key key its) = filter (\<lambda>x. f k = key x) (sort_key key its)"
        using f(2) by (intro filter_cong) auto
      also have "\<dots> = filter (\<lambda>x. f k = key x) its" using sort_key_stable [of key "f k" its] by (simp add: eq_commute [of "f k"])
      also have "\<dots> = filter (\<lambda>x. f k = f (fst x)) its"
        using f(2) by (intro filter_cong) auto
      finally show "filter (\<lambda>x. f k = f x) (map fst (sort_key key its)) = filter (\<lambda>x. f k = f x) ?as"
        by (simp add: filter_map comp_def)
    qed
    let ?its = "sort_key key its" and ?bs = "map fst (sort_key key its)"
    have ne: "?bs \<noteq> []" using True by (metis length_map length_sort list.size(3) not_numeral_le_zero)
    have db: "distinct ?bs" using d
      by (metis eq distinct_sort)
    have "set ?bs \<subseteq> dom (rl_mem L)" using dom by auto
    from relink_spec [OF db this] obtain m' where
      m': "relink None ?bs (rl_mem L) = Some m'" "lseg m' None ?bs None" "dom m' = dom (rl_mem L)"
        "\<And>x. map_option (node_item x) (m' x) = map_option (node_item x) (rl_mem L x)" unfolding relinked_def by blast
    let ?L' = "\<lparr> rl_mem = m', rl_first = hd_or ?bs None, rl_last = last_or ?bs None \<rparr>"
    have "sort_rrl tsf L = Some ?L'"
      using True chain f tmp eq m'(1) ne by (simp add: sort_rrl_def hd_or_def last_or_def Let_def)
    moreover have "\<exists>n. m' (fst it) = Some n \<and> node_item (fst it) n = it" if "it \<in> set ?its" for it
    proof -
      have "map_option (node_item (fst it)) (rl_mem L (fst it)) = Some it" using its that by fastforce
      then show ?thesis using m'(4) node_item_some by metis
    qed
    then have "rrl_rep ?L' ?its" unfolding rrl_rep_def using m' db dom by simp
    ultimately show ?thesis by blast
  qed
qed

text \<open>A structure stands for one list of items only.\<close>

lemma lseg_unique: "lseg m p xs None \<Longrightarrow> lseg m p ys None \<Longrightarrow> hd_or xs None = hd_or ys None \<Longrightarrow> xs = ys"
proof (induction xs arbitrary: p ys)
  case Nil
  then show ?case by (cases ys) auto
next
  case (Cons x xs)
  then obtain zs where "ys = x # zs" by (cases ys) auto
  then show ?case using Cons by (auto split: option.splits)
qed

lemma rrl_rep_unique:
  assumes "rrl_rep L xs" "rrl_rep L ys"
  shows "xs = ys"
proof -
  have fst: "map fst xs = map fst ys" using lseg_unique [OF rrl_repD(2) [OF assms(1)] rrl_repD(2) [OF assms(2)]]
      rrl_repD(3) [OF assms(1)] rrl_repD(3) [OF assms(2)] by simp
  have "x = y" if "x \<in> set xs" "y \<in> set ys" "fst x = fst y" for x y
    using rrl_repD(6) [OF assms(1) that(1)] rrl_repD(6) [OF assms(2) that(2)] that(3) by auto
  moreover have "length xs = length ys" using fst by (metis length_map)
  moreover have "fst (xs ! i) = fst (ys ! i)" if "i < length xs" for i
    using fst that \<open>length xs = length ys\<close> by (metis nth_map)
  ultimately show ?thesis by (intro nth_equalityI) simp_all
qed

subsection \<open>The interface of the list\<close>

text \<open>What the cache relies on: a structure stands for one list of items with distinct addresses;
  removing an address takes its item out; linking a new node puts its item somewhere in between.\<close>

definition times_ok :: "(nat \<Rightarrow> nat option \<Rightarrow> int option) \<Rightarrow> item list \<Rightarrow> bool" where
  "times_ok tsf its = (\<forall>(a, c, i) \<in> set its. \<exists>t. tsf c i = Some t)"

locale node_list =
  fixes rep :: "'l \<Rightarrow> 'i list \<Rightarrow> bool"
    and adr :: "'i \<Rightarrow> nat"
    and rem :: "nat \<Rightarrow> 'l \<Rightarrow> 'l option"
    and ins :: "'t \<Rightarrow> nat \<Rightarrow> 'n \<Rightarrow> 'l \<Rightarrow> 'l option"
    and itm :: "nat \<Rightarrow> 'n \<Rightarrow> 'i"
    and timed :: "'t \<Rightarrow> 'i list \<Rightarrow> bool"
  assumes rep_inj: "rep L xs \<Longrightarrow> rep L ys \<Longrightarrow> xs = ys"
    and rep_distinct: "rep L xs \<Longrightarrow> distinct (map adr xs)"
    and adr_itm: "adr (itm a n) = a"
    and rem_split: "rep L (xs @ it # ys) \<Longrightarrow> \<exists>L'. rem (adr it) L = Some L' \<and> rep L' (xs @ ys)"
    and ins_split: "rep L its \<Longrightarrow> a \<notin> adr ` set its \<Longrightarrow> timed t (itm a n # its) \<Longrightarrow>
      \<exists>L' xs ys. ins t a n L = Some L' \<and> its = xs @ ys \<and> rep L' (xs @ itm a n # ys)"
begin

lemma rem_filter:
  assumes "rep L its" "it \<in> set its"
  shows "\<exists>L'. rem (adr it) L = Some L' \<and> rep L' (filter (\<lambda>x. adr x \<noteq> adr it) its)"
proof -
  obtain xs ys where its: "its = xs @ it # ys" using assms(2) by (meson split_list)
  have "distinct (map adr (xs @ it # ys))" using rep_distinct [OF assms(1)] its by simp
  then have "adr it \<notin> adr ` set xs" "adr it \<notin> adr ` set ys" by simp_all
  then have "filter (\<lambda>x. adr x \<noteq> adr it) xs = xs" "filter (\<lambda>x. adr x \<noteq> adr it) ys = ys"
    by (simp_all add: filter_id_conv rev_image_eqI) (metis image_eqI)+
  then have "filter (\<lambda>x. adr x \<noteq> adr it) its = xs @ ys" using its by simp
  then show ?thesis using rem_split [of L xs it ys] assms(1) its by simp
qed

lemma ins_then_rem:
  assumes "rep L its" "a \<notin> adr ` set its" "timed t (itm a n # its)" "ins t a n L = Some L1"
  shows "\<exists>L2. rem a L1 = Some L2 \<and> rep L2 its"
proof -
  obtain xs ys where "its = xs @ ys" "rep L1 (xs @ itm a n # ys)"
    using ins_split [OF assms(1-3)] assms(4) by auto
  then show ?thesis using rem_split [of L1 xs "itm a n" ys] by (simp add: adr_itm)
qed

lemma ins_set:
  assumes "rep L its" "a \<notin> adr ` set its" "timed t (itm a n # its)"
  shows "\<exists>L' its'. ins t a n L = Some L' \<and> rep L' its' \<and> set its' = insert (itm a n) (set its)"
  using ins_split [OF assms] by fastforce

text \<open>Removing several addresses one after the other.\<close>

lemma rem_all:
  assumes "rep L its" "distinct as" "set as \<subseteq> adr ` set its"
  shows "\<exists>L'. fold (\<lambda>a r. Option.bind r (rem a)) as (Some L) = Some L' \<and>
    rep L' (filter (\<lambda>x. adr x \<notin> set as) its)"
  using assms
proof (induction as arbitrary: L its)
  case Nil
  then show ?case by simp
next
  case (Cons a as)
  then obtain it where it: "it \<in> set its" "a = adr it" by auto
  obtain L1 where L1: "rem a L = Some L1" "rep L1 (filter (\<lambda>x. adr x \<noteq> a) its)"
    using rem_filter [OF Cons.prems(1) it(1)] it(2) by auto
  have "set as \<subseteq> adr ` set (filter (\<lambda>x. adr x \<noteq> a) its)"
  proof
    fix b assume b: "b \<in> set as"
    then obtain x where "x \<in> set its" "b = adr x" using Cons.prems(3) by auto
    moreover have "b \<noteq> a" using b Cons.prems(2) by auto
    ultimately show "b \<in> adr ` set (filter (\<lambda>x. adr x \<noteq> a) its)" by auto
  qed
  from Cons.IH [OF L1(2) _ this] Cons.prems(2) obtain L2 where
    "fold (\<lambda>a r. Option.bind r (rem a)) as (Some L1) = Some L2"
    "rep L2 (filter (\<lambda>x. adr x \<notin> set as) (filter (\<lambda>x. adr x \<noteq> a) its))" by auto
  moreover have "filter (\<lambda>x. adr x \<notin> set as) (filter (\<lambda>x. adr x \<noteq> a) its) = filter (\<lambda>x. adr x \<notin> set (a # as)) its"
    by (auto intro: filter_cong)
  ultimately show ?case using L1(1) by simp
qed

end

lemma times_ok_key: "times_ok tsf its = (\<exists>key. has_times tsf key its)"
proof
  assume "times_ok tsf its"
  then have "has_times tsf (\<lambda>(a, c, i). the (tsf c i)) its"
    by (fastforce simp: times_ok_def has_times_def)
  then show "\<exists>key. has_times tsf key its" by blast
qed (auto simp: times_ok_def has_times_def)

lemma rrl_rep_adrs: "rrl_rep L its \<Longrightarrow> dom (rl_mem L) = fst ` set its"
  by (simp add: rrl_rep_def)

lemma link_node_split:
  assumes "rrl_rep L its" "a \<notin> fst ` set its" "times_ok (fst t) (node_item a n # its)"
  shows "\<exists>L' xs ys. link_node (fst t) (snd t) a n L = Some L' \<and> its = xs @ ys \<and> rrl_rep L' (xs @ node_item a n # ys)"
proof (cases "snd t")
  case True
  obtain key where key: "has_times (fst t) key (node_item a n # its)"
    using assms(3) times_ok_key by blast
  then have h: "has_times (fst t) key its" "fst t (ln_cent n) (ln_idx n) = Some (key (node_item a n))"
    by (simp_all add: has_times_def node_item_def)
  from link_node_sorted [OF assms(1) _ h] assms(1,2) obtain L' where
    "link_node (fst t) True a n L = Some L'"
    "rrl_rep L' (insert_item key (key (node_item a n)) (node_item a n) its)"
    by (auto simp: rrl_rep_adrs node_item_def)
  then show ?thesis using True older_newer [of key "key (node_item a n)" its]
    unfolding insert_item_def by metis
next
  case False
  then show ?thesis using link_last_rep [of L its a n] assms(1,2)
    by (auto simp: link_node_def node_item_def rrl_rep_adrs intro!: exI [of _ its] exI [of _ "[]"])
qed

interpretation rl: node_list rrl_rep fst remove_rrl "\<lambda>t. link_node (fst t) (snd t)" node_item "\<lambda>t. times_ok (fst t)"
proof unfold_locales
  show "\<And>L xs ys. rrl_rep L xs \<Longrightarrow> rrl_rep L ys \<Longrightarrow> xs = ys" by (rule rrl_rep_unique)
  show "\<And>L xs. rrl_rep L xs \<Longrightarrow> distinct (map fst xs)" by (rule rrl_repD(1))
  show "\<And>a n. fst (node_item a n) = a" by (simp add: node_item_def)
  show "\<exists>L'. remove_rrl (fst it) L = Some L' \<and> rrl_rep L' (xs @ ys)" if "rrl_rep L (xs @ it # ys)" for L xs it ys
    using remove_rrl_split [of L xs "fst it" "fst (snd it)" "snd (snd it)" ys] that by simp
qed (rule link_node_split)


subsection \<open>Properties\<close>

definition item_time :: "(nat \<Rightarrow> nat option \<Rightarrow> int option) \<Rightarrow> item \<Rightarrow> int" where
  "item_time tsf it = (case it of (a, c, i) \<Rightarrow> the (tsf c i))"

lemma times_ok_item: "times_ok tsf its = has_times tsf (item_time tsf) its"
  by (fastforce simp: times_ok_def has_times_def item_time_def)

lemma sort_key_stable': "filter (\<lambda>x. k = f x) (sort_key f xs) = filter (\<lambda>x. k = f x) xs"
  using sort_key_stable [of f k xs] by (simp add: eq_commute [of k])

text \<open>C38. \<open>sort_rrl\<close>: the array of 32 fragments never overflows on a list of fewer than 2^32 nodes, no
  pointer is followed outside the list, and the links written back are those of a list of the same
  nodes in the order of their time stamps, nodes of the same time stamp keeping their order.\<close>

theorem sort_rrl_correct:
  assumes "rrl_rep L its" "times_ok tsf its" "length its < 2 ^ 32"
  shows "\<exists>L' its'. sort_rrl tsf L = Some L' \<and> rrl_rep L' its' \<and> mset its' = mset its \<and>
    sorted (map (item_time tsf) its') \<and>
    (\<forall>k. filter (\<lambda>it. k = item_time tsf it) its' = filter (\<lambda>it. k = item_time tsf it) its)"
proof -
  obtain L' where "sort_rrl tsf L = Some L'" "rrl_rep L' (sort_key (item_time tsf) its)"
    using sort_rrl_rep [OF assms(1) _ assms(3)] assms(2) by (auto simp: times_ok_item)
  then show ?thesis by (intro exI [of _ L'] exI [of _ "sort_key (item_time tsf) its"]) (simp add: sort_key_stable')
qed

definition ex_tsf :: "nat \<Rightarrow> nat option \<Rightarrow> int option" where
  "ex_tsf c i = Some (100 - 10 * int c)"

definition ex_list :: rrlist where
  "ex_list = \<lparr> rl_mem = [7 \<mapsto> \<lparr> ln_next = Some 8, ln_prev = None, ln_cent = 1, ln_idx = Some 0 \<rparr>,
      8 \<mapsto> \<lparr> ln_next = None, ln_prev = Some 7, ln_cent = 2, ln_idx = None \<rparr>],
    rl_first = Some 7, rl_last = Some 8 \<rparr>"

lemma ex_list_rep: "rrl_rep ex_list [(7, 1, Some 0), (8, 2, None)]"
  by (auto simp: rrl_rep_def ex_list_def node_item_def)

theorem sort_rrl_correct_witness:
  "\<exists>L' its'. sort_rrl ex_tsf ex_list = Some L' \<and> rrl_rep L' its' \<and>
     mset its' = mset [(7, 1, Some 0), (8, 2, None)] \<and>
     sorted (map (item_time ex_tsf) its')"
  using sort_rrl_correct [OF ex_list_rep, of ex_tsf] by (auto simp: times_ok_def ex_tsf_def)

text \<open>\<open>insert_rrl\<close> while \<open>insert_sort\<close> is set: into a list ordered by age the new node goes behind
  every node that is not newer and before every newer one, and both directions are linked.\<close>

theorem link_node_correct:
  assumes "rrl_rep L its" "times_ok tsf its" "sorted (map (item_time tsf) its)" "a \<notin> fst ` set its"
    "tsf (ln_cent n) (ln_idx n) = Some ts"
  shows "\<exists>L' xs ys. link_node tsf True a n L = Some L' \<and> its = xs @ ys \<and>
    rrl_rep L' (xs @ (a, ln_cent n, ln_idx n) # ys) \<and>
    (\<forall>it \<in> set xs. item_time tsf it \<le> ts) \<and> (\<forall>it \<in> set ys. ts < item_time tsf it)"
proof -
  let ?k = "item_time tsf" and ?it = "(a, ln_cent n, ln_idx n)"
  have a: "a \<notin> dom (rl_mem L)" using assms(1,4) by (simp add: rrl_rep_adrs)
  obtain L' where L': "link_node tsf True a n L = Some L'" "rrl_rep L' (insert_item ?k ts ?it its)"
    using link_node_sorted [OF assms(1) a assms(2) [unfolded times_ok_item] assms(5)] by blast
  have kt: "?k ?it = ts" using assms(5) by (simp add: item_time_def)
  have "sorted (map ?k (insert_item ?k ts ?it its))" by (rule insert_item_sorted [OF assms(3) kt])
  then have "\<forall>it \<in> set (older ?k ts its). ?k it \<le> ts"
    using kt by (auto simp: insert_item_def sorted_append)
  moreover have "\<forall>it \<in> set (newer ?k ts its). ts < ?k it" by (auto simp: newer_def dest: set_takeWhileD)
  ultimately show ?thesis using L' older_newer [of ?k ts its]
    unfolding insert_item_def by metis
qed

theorem link_node_correct_witness:
  "\<exists>L' xs ys. link_node (\<lambda>c i. Some (10 * int c)) True 9 \<lparr> ln_next = None, ln_prev = None, ln_cent = 1, ln_idx = None \<rparr> ex_list = Some L' \<and>
     [(7, 1, Some 0), (8, 2, None)] = xs @ ys \<and> rrl_rep L' (xs @ (9, 1, None) # ys)"
  using link_node_correct [OF ex_list_rep, of "\<lambda>c i. Some (10 * int c)" 9
      "\<lparr> ln_next = None, ln_prev = None, ln_cent = 1, ln_idx = None \<rparr>" 10]
  by (auto simp: times_ok_def item_time_def)

text \<open>\<open>remove_rrl\<close> takes out its node and nothing else, wherever it is in the list; every other
  node keeps its place.\<close>

theorem remove_rrl_correct:
  assumes "rrl_rep L its" "(le, c, i) \<in> set its"
  shows "\<exists>L'. remove_rrl le L = Some L' \<and> rrl_rep L' (filter (\<lambda>x. fst x \<noteq> le) its)"
  using rl.rem_filter [OF assms] by simp

theorem remove_rrl_correct_witness:
  "\<exists>L'. remove_rrl 7 ex_list = Some L' \<and> rrl_rep L' [(8, 2, None)]"
  using remove_rrl_correct [OF ex_list_rep, of 7 1 "Some 0"] by simp

end
