(* ===== verification/Pd_Cent.thy ===== *)
theory Pd_Cent
  imports Pd_RrList Pd_Types Pd_Hash
begin

text \<open>
  Cache entries (\<open>dns_cent_t\<close>) and RR sets (\<open>rr_set_t\<close>) of \<open>cache.h\<close> and \<open>cache.c\<close>, and the
  operations on one entry: creation, adding and deleting RR sets and records, negation, freeing and
  copying. The state of the cache is declared here as well, since these operations take nodes out
  of the list of RR sets and allocate memory.

  The linked list of the records of an RR set is the list of their data. Sizes are those of the
  32-bit targets: 8 bytes for a record without its data, 20 for an RR set, 52 for an entry. Flags
  are 16-bit words; times are integers, sums of times being assumed not to overflow.
\<close>

subsection \<open>Data\<close>

record rr_set =
  rs_lent :: "nat option"
  rs_ttl :: int
  rs_ts :: int
  rs_flags :: u16
  rs_rrs :: "byte list list"

text \<open>The union of a cache entry: \<open>neg\<close>, or \<open>rr\<close> with its arrays \<open>rrmu\<close> and \<open>rrext\<close>. Reading the
  member that was not written last is undefined.\<close>

datatype cent_body =
  NegBody "nat option" int int
| RRBody "rr_set option list" "rr_set option list option"

record dns_cent =
  ce_qname :: name
  ce_cs :: int
  ce_num :: int
  ce_flags :: u16
  ce_body :: cent_body
  ce_ns :: byte
  ce_soa :: byte

definition cundef :: byte where "cundef = 0xff"

abbreviation (input) CF_NEGATIVE :: u16 where "CF_NEGATIVE \<equiv> 1"
abbreviation (input) CF_LOCAL :: u16 where "CF_LOCAL \<equiv> 2"
abbreviation (input) CF_AUTH :: u16 where "CF_AUTH \<equiv> 4"
abbreviation (input) CF_NOCACHE :: u16 where "CF_NOCACHE \<equiv> 8"
abbreviation (input) CF_ADDITIONAL :: u16 where "CF_ADDITIONAL \<equiv> 16"
abbreviation (input) CF_NOPURGE :: u16 where "CF_NOPURGE \<equiv> 32"
abbreviation (input) CF_ROOTSERV :: u16 where "CF_ROOTSERV \<equiv> 64"
abbreviation (input) DF_NEGATIVE :: u16 where "DF_NEGATIVE \<equiv> 1"
abbreviation (input) DF_LOCAL :: u16 where "DF_LOCAL \<equiv> 2"
abbreviation (input) DF_AUTH :: u16 where "DF_AUTH \<equiv> 4"
abbreviation (input) DF_NOCACHE :: u16 where "DF_NOCACHE \<equiv> 8"
abbreviation (input) DF_WILD :: u16 where "DF_WILD \<equiv> 16"

text \<open>A flag test, \<open>flags&mask\<close> as a condition.\<close>

definition has :: "u16 \<Rightarrow> u16 \<Rightarrow> bool" where
  "has fl m = (fl AND m \<noteq> 0)"

abbreviation (input) CACHE_LAT :: int where "CACHE_LAT \<equiv> 120"

definition CLAT_ADJ :: "int \<Rightarrow> int" where
  "CLAT_ADJ ttl = (if ttl < CACHE_LAT then CACHE_LAT else ttl)"

definition timedout :: "int \<Rightarrow> rr_set \<Rightarrow> bool" where
  "timedout now rs = (rs_ts rs + CLAT_ADJ (rs_ttl rs) < now)"

definition timedout_nxdom :: "int \<Rightarrow> dns_cent \<Rightarrow> bool option" where
  "timedout_nxdom now c = (case ce_body c of
     NegBody _ ttl ts \<Rightarrow> Some (ts + CLAT_ADJ ttl < now)
   | RRBody _ _ \<Rightarrow> None)"

text \<open>Sizes.\<close>

definition sz_bucket :: int where "sz_bucket = 8"
definition sz_rrset :: int where "sz_rrset = 20"
definition sz_cent :: int where "sz_cent = 52"
definition sz_rrext :: int where "sz_rrext = 156"

subsection \<open>The state\<close>

text \<open>
  The file-level variables of \<open>cache.c\<close> and \<open>hash.c\<close>, the allocated entries under their addresses,
  the next address an allocation returns, and the outcomes of the coming allocations; when that
  list is used up allocations succeed.
\<close>

record cache =
  rrl :: rrlist
  cents :: "nat \<rightharpoonup> dns_cent"
  buckets :: htable
  cache_size :: int
  ent_num :: int
  insert_sort :: bool
  next_id :: nat
  mallocs :: "bool list"

definition malloc :: "cache \<Rightarrow> bool \<times> cache" where
  "malloc \<sigma> = (case mallocs \<sigma> of [] \<Rightarrow> (True, \<sigma>) | b # bs \<Rightarrow> (b, \<sigma>\<lparr> mallocs := bs \<rparr>))"

definition new_addr :: "cache \<Rightarrow> nat \<times> cache" where
  "new_addr \<sigma> = (next_id \<sigma>, \<sigma>\<lparr> next_id := next_id \<sigma> + 1 \<rparr>)"

subsection \<open>Access to the RR sets of an entry\<close>

definition RRARR_LEN :: "dns_cent \<Rightarrow> nat option" where
  "RRARR_LEN c = (if has (ce_flags c) DF_NEGATIVE then Some 0
     else case ce_body c of NegBody _ _ _ \<Rightarrow> None
          | RRBody _ ext \<Rightarrow> Some (if ext \<noteq> None then NRRTOT else NRRMU))"

definition RRARR_INDEX_TESTEXT :: "dns_cent \<Rightarrow> nat \<Rightarrow> rr_set option option" where
  "RRARR_INDEX_TESTEXT c i = (if has (ce_flags c) DF_NEGATIVE then Some None
     else case ce_body c of NegBody _ _ _ \<Rightarrow> None
          | RRBody mu ext \<Rightarrow> if i < NRRMU then rd mu i
              else (case ext of None \<Rightarrow> Some None | Some ex \<Rightarrow> rd ex (i - NRRMU)))"

definition RRARR_INDEX :: "dns_cent \<Rightarrow> nat \<Rightarrow> rr_set option option" where
  "RRARR_INDEX c i = (case ce_body c of NegBody _ _ _ \<Rightarrow> None
     | RRBody mu ext \<Rightarrow> if i < NRRMU then rd mu i
         else (case ext of None \<Rightarrow> None | Some ex \<Rightarrow> rd ex (i - NRRMU)))"

text \<open>Writing through \<open>RRARR_INDEX_PA\<close>.\<close>

definition set_rrarr :: "dns_cent \<Rightarrow> nat \<Rightarrow> rr_set option \<Rightarrow> dns_cent option" where
  "set_rrarr c i v = (case ce_body c of NegBody _ _ _ \<Rightarrow> None
     | RRBody mu ext \<Rightarrow>
         if i < NRRMU then do { mu' \<leftarrow> wr mu i v; Some (c\<lparr> ce_body := RRBody mu' ext \<rparr>) }
         else (case ext of None \<Rightarrow> None
               | Some ex \<Rightarrow> do { ex' \<leftarrow> wr ex (i - NRRMU) v; Some (c\<lparr> ce_body := RRBody mu (Some ex') \<rparr>) }))"

definition GET_RRSMU :: "dns_cent \<Rightarrow> nat \<Rightarrow> rr_set option option" where
  "GET_RRSMU c i = (if has (ce_flags c) DF_NEGATIVE then Some None
     else case ce_body c of NegBody _ _ _ \<Rightarrow> None | RRBody mu _ \<Rightarrow> rd mu i)"

definition getrrset_eff :: "dns_cent \<Rightarrow> int \<Rightarrow> rr_set option option" where
  "getrrset_eff c tp =
     do {
       idx \<leftarrow> rrlkup tp;
       if idx < NRRTOT then
         (case ce_body c of NegBody _ _ _ \<Rightarrow> None
          | RRBody mu ext \<Rightarrow> if idx < NRRMU then rd mu idx
              else (case ext of None \<Rightarrow> Some None | Some ex \<Rightarrow> rd ex (idx - NRRMU)))
       else Some None
     }"

definition getrrset :: "dns_cent \<Rightarrow> int \<Rightarrow> rr_set option option" where
  "getrrset c tp =
     (if has (ce_flags c) DF_NEGATIVE then Some None
      else if tp - T_MIN \<ge> 0 \<and> tp - T_MIN < int T_NUM then getrrset_eff c tp
      else Some None)"

definition have_rr :: "dns_cent \<Rightarrow> int \<Rightarrow> bool option" where
  "have_rr c tp =
     (if has (ce_flags c) DF_NEGATIVE then Some False
      else do { r \<leftarrow> getrrset_eff c tp; Some (case r of None \<Rightarrow> False | Some rs \<Rightarrow> rs_rrs rs \<noteq> []) })"

subsection \<open>Creation\<close>

text \<open>\<open>init_cent\<close> on an uninitialised entry: the result is the entry, or none when the allocation of
  the name failed.\<close>

definition init_cent :: "name \<Rightarrow> int \<Rightarrow> int \<Rightarrow> u16 \<Rightarrow> cache \<Rightarrow> (dns_cent option \<times> cache) option" where
  "init_cent qn ttl ts fl \<sigma> =
     do {
       namesz \<leftarrow> rhnlen qn;
       let (ok, \<sigma>1) = malloc \<sigma>;
       if \<not> ok then Some (None, \<sigma>1)
       else do {
         nm \<leftarrow> rdn qn 0 namesz;
         Some (Some \<lparr> ce_qname = nm, ce_cs = sz_cent + int namesz, ce_num = 0, ce_flags = fl,
                 ce_body = (if has fl DF_NEGATIVE then NegBody None ttl ts
                            else RRBody (replicate NRRMU None) None),
                 ce_ns = cundef, ce_soa = cundef \<rparr>, \<sigma>1)
       }
     }"

text \<open>Taking a node out of the list of RR sets, if there is one.\<close>

definition unlink :: "nat option \<Rightarrow> cache \<Rightarrow> cache option" where
  "unlink le \<sigma> = (case le of None \<Rightarrow> Some \<sigma>
     | Some a \<Rightarrow> do { L \<leftarrow> remove_rrl a (rrl \<sigma>); Some (\<sigma>\<lparr> rrl := L \<rparr>) })"

text \<open>The first part of \<open>add_cent_rrset_by_index\<close>: the entry is not negative any more.\<close>

definition cent_positive :: "dns_cent \<Rightarrow> cache \<Rightarrow> (dns_cent \<times> cache) option" where
  "cent_positive c \<sigma> =
     (if has (ce_flags c) DF_NEGATIVE then
        (case ce_body c of
           NegBody le _ _ \<Rightarrow> do {
             \<sigma>1 \<leftarrow> unlink le \<sigma>;
             Some (c\<lparr> ce_flags := ce_flags c AND NOT DF_NEGATIVE,
                      ce_body := RRBody (replicate NRRMU None) None \<rparr>, \<sigma>1) }
         | RRBody _ _ \<Rightarrow> None)
      else Some (c, \<sigma>))"

text \<open>The second part: the slot for the index, \<open>rrext\<close> being allocated when it is needed.\<close>

definition rrext_alloc :: "dns_cent \<Rightarrow> nat \<Rightarrow> cache \<Rightarrow> (bool \<times> dns_cent \<times> cache) option" where
  "rrext_alloc c idx \<sigma> = (case ce_body c of NegBody _ _ _ \<Rightarrow> None
     | RRBody mu ext \<Rightarrow>
         if idx < NRRMU then Some (True, c, \<sigma>)
         else do {
           must (idx - NRRMU < NRREXT);
           if ext = None then do {
             let (ok, \<sigma>1) = malloc \<sigma>;
             if \<not> ok then Some (False, c, \<sigma>1)
             else Some (True, c\<lparr> ce_body := RRBody mu (Some (replicate NRREXT None)),
                                 ce_cs := ce_cs c + sz_rrext \<rparr>, \<sigma>1)
           }
           else Some (True, c, \<sigma>)
         })"

definition add_cent_rrset_by_index ::
    "dns_cent \<Rightarrow> nat \<Rightarrow> int \<Rightarrow> int \<Rightarrow> u16 \<Rightarrow> cache \<Rightarrow> (bool \<times> dns_cent \<times> cache) option" where
  "add_cent_rrset_by_index c idx ttl ts fl \<sigma> =
     do {
       (c1, \<sigma>1) \<leftarrow> cent_positive c \<sigma>;
       (ok, c2, \<sigma>2) \<leftarrow> rrext_alloc c1 idx \<sigma>1;
       if \<not> ok then Some (False, c2, \<sigma>2)
       else do {
         let (ok', \<sigma>3) = malloc \<sigma>2;
         let rs = \<lparr> rs_lent = None, rs_ttl = ttl, rs_ts = ts, rs_flags = fl, rs_rrs = [] \<rparr>;
         c3 \<leftarrow> set_rrarr c2 idx (if ok' then Some rs else None);
         if \<not> ok' then Some (False, c3, \<sigma>3)
         else Some (True, c3\<lparr> ce_cs := ce_cs c3 + sz_rrset, ce_num := ce_num c3 + 1 \<rparr>, \<sigma>3)
       }
     }"

definition add_cent_rrset_by_type ::
    "dns_cent \<Rightarrow> int \<Rightarrow> int \<Rightarrow> int \<Rightarrow> u16 \<Rightarrow> cache \<Rightarrow> (bool \<times> dns_cent \<times> cache) option" where
  "add_cent_rrset_by_type c tp ttl ts fl \<sigma> =
     do {
       must (tp - T_MIN \<ge> 0 \<and> tp - T_MIN < int T_NUM);
       idx \<leftarrow> rrlkup tp;
       add_cent_rrset_by_index c idx ttl ts fl \<sigma>
     }"

text \<open>Adding a record. \<open>rtail\<close>, which points at a record of the set or is null, is the position of
  that record; the result has the new value of \<open>*rtail\<close>.\<close>

definition add_cent_rr_int ::
    "dns_cent \<Rightarrow> nat \<Rightarrow> int \<Rightarrow> int \<Rightarrow> u16 \<Rightarrow> byte list \<Rightarrow> nat option \<Rightarrow> cache \<Rightarrow>
     (bool \<times> nat option \<times> dns_cent \<times> cache) option" where
  "add_cent_rr_int c idx ttl ts fl data rtail \<sigma> =
     do {
       let (ok, \<sigma>1) = malloc \<sigma>;
       if \<not> ok then Some (False, rtail, c, \<sigma>1)
       else do {
         (ok', p, c1, \<sigma>2) \<leftarrow> (case rtail of
            None \<Rightarrow> do {
              r \<leftarrow> RRARR_INDEX_TESTEXT c idx;
              if r = None then do {
                (ok', c1, \<sigma>2) \<leftarrow> add_cent_rrset_by_index c idx ttl ts fl \<sigma>1;
                Some (ok', 0, c1, \<sigma>2)
              }
              else Some (True, 0, c, \<sigma>1)
            }
          | Some p \<Rightarrow> Some (True, p + 1, c, \<sigma>1));
         if \<not> ok' then Some (False, rtail, c1, \<sigma>2)
         else do {
           r \<leftarrow> RRARR_INDEX c1 idx;
           rs \<leftarrow> r;
           must (p \<le> length (rs_rrs rs));
           c2 \<leftarrow> set_rrarr c1 idx (Some (rs\<lparr> rs_rrs := take p (rs_rrs rs) @ data # drop p (rs_rrs rs) \<rparr>));
           Some (True, Some p, c2\<lparr> ce_cs := ce_cs c2 + (sz_bucket + int (length data)) \<rparr>, \<sigma>2)
         }
       }
     }"

definition add_cent_rr ::
    "dns_cent \<Rightarrow> int \<Rightarrow> int \<Rightarrow> int \<Rightarrow> u16 \<Rightarrow> byte list \<Rightarrow> cache \<Rightarrow> (bool \<times> dns_cent \<times> cache) option" where
  "add_cent_rr c tp ttl ts fl data \<sigma> =
     (if has (ce_flags c) DF_LOCAL \<and> \<not> has fl CF_LOCAL then Some (True, c, \<sigma>)
      else do {
        must (tp - T_MIN \<ge> 0 \<and> tp - T_MIN < int T_NUM);
        idx \<leftarrow> rrlkup tp;
        must (idx < NRRTOT);
        r \<leftarrow> RRARR_INDEX_TESTEXT c idx;
        case r of
          None \<Rightarrow> do {
            (ok, _, c1, \<sigma>1) \<leftarrow> add_cent_rr_int c idx ttl ts fl data None \<sigma>;
            Some (ok, c1, \<sigma>1)
          }
        | Some rs \<Rightarrow> do {
            c1 \<leftarrow> (if ttl < rs_ttl rs then set_rrarr c idx (Some (rs\<lparr> rs_ttl := ttl \<rparr>)) else Some c);
            if data \<in> set (rs_rrs rs) then Some (True, c1, \<sigma>)
            else do {
              let rtail = (if rs_rrs rs = [] then None else Some (length (rs_rrs rs) - 1));
              (ok, _, c2, \<sigma>1) \<leftarrow> add_cent_rr_int c1 idx ttl ts fl data rtail \<sigma>;
              Some (ok, c2, \<sigma>1)
            }
          }
      })"

subsection \<open>Deletion\<close>

definition rrs_size :: "byte list list \<Rightarrow> int" where
  "rrs_size rrs = sum_list (map (\<lambda>d. sz_bucket + int (length d)) rrs)"

definition rrset_size :: "rr_set \<Rightarrow> int" where
  "rrset_size rs = sz_rrset + rrs_size (rs_rrs rs)"

definition del_rrset :: "rr_set \<Rightarrow> cache \<Rightarrow> (int \<times> cache) option" where
  "del_rrset rs \<sigma> = do { \<sigma>1 \<leftarrow> unlink (rs_lent rs) \<sigma>; Some (rrset_size rs, \<sigma>1) }"

definition del_cent_rrset_by_index :: "dns_cent \<Rightarrow> nat \<Rightarrow> cache \<Rightarrow> (int \<times> dns_cent \<times> cache) option" where
  "del_cent_rrset_by_index c i \<sigma> =
     do {
       r \<leftarrow> RRARR_INDEX_TESTEXT c i;
       case r of
         None \<Rightarrow> Some (0, c, \<sigma>)
       | Some rs \<Rightarrow> do {
           (rv, \<sigma>1) \<leftarrow> del_rrset rs \<sigma>;
           c1 \<leftarrow> set_rrarr c i None;
           Some (rv, c1\<lparr> ce_num := ce_num c1 - 1, ce_cs := ce_cs c1 - rv,
                         ce_flags := ce_flags c1 AND NOT DF_AUTH \<rparr>, \<sigma>1)
         }
     }"

text \<open>The loops over \<open>rrmu\<close> and \<open>rrext\<close> that delete every RR set: the sum of the sizes.\<close>

fun del_slots :: "rr_set option list \<Rightarrow> cache \<Rightarrow> (int \<times> cache) option" where
  "del_slots [] \<sigma> = Some (0, \<sigma>)"
| "del_slots (None # xs) \<sigma> = del_slots xs \<sigma>"
| "del_slots (Some rs # xs) \<sigma> =
     do { (n, \<sigma>1) \<leftarrow> del_rrset rs \<sigma>; (m, \<sigma>2) \<leftarrow> del_slots xs \<sigma>1; Some (n + m, \<sigma>2) }"

definition free_cent :: "dns_cent \<Rightarrow> cache \<Rightarrow> cache option" where
  "free_cent c \<sigma> =
     (if has (ce_flags c) DF_NEGATIVE then
        (case ce_body c of NegBody le _ _ \<Rightarrow> unlink le \<sigma> | RRBody _ _ \<Rightarrow> None)
      else (case ce_body c of NegBody _ _ _ \<Rightarrow> None
        | RRBody mu ext \<Rightarrow> do {
            (_, \<sigma>1) \<leftarrow> del_slots mu \<sigma>;
            case ext of None \<Rightarrow> Some \<sigma>1
            | Some ex \<Rightarrow> do { (_, \<sigma>2) \<leftarrow> del_slots ex \<sigma>1; Some \<sigma>2 }
          }))"

definition negate_cent :: "dns_cent \<Rightarrow> int \<Rightarrow> int \<Rightarrow> cache \<Rightarrow> (dns_cent \<times> cache) option" where
  "negate_cent c ttl ts \<sigma> =
     (if \<not> has (ce_flags c) DF_NEGATIVE then
        (case ce_body c of NegBody _ _ _ \<Rightarrow> None
         | RRBody mu ext \<Rightarrow> do {
             (n, \<sigma>1) \<leftarrow> del_slots mu \<sigma>;
             (m, \<sigma>2) \<leftarrow> (case ext of None \<Rightarrow> Some (0, \<sigma>1)
                | Some ex \<Rightarrow> do { (k, \<sigma>2) \<leftarrow> del_slots ex \<sigma>1; Some (k + sz_rrext, \<sigma>2) });
             Some (c\<lparr> ce_cs := ce_cs c - n - m, ce_num := 0, ce_flags := ce_flags c OR DF_NEGATIVE,
                      ce_body := NegBody None ttl ts \<rparr>, \<sigma>2)
           })
      else (case ce_body c of
           NegBody le _ _ \<Rightarrow> Some (c\<lparr> ce_body := NegBody le ttl ts \<rparr>, \<sigma>)
         | RRBody _ _ \<Rightarrow> None))"

subsection \<open>Copies\<close>

text \<open>Copying records: those copied before an allocation fails, and whether none did.\<close>

fun copy_rrs :: "byte list list \<Rightarrow> cache \<Rightarrow> bool \<times> byte list list \<times> cache" where
  "copy_rrs [] \<sigma> = (True, [], \<sigma>)"
| "copy_rrs (d # ds) \<sigma> =
     (let (ok, \<sigma>1) = malloc \<sigma> in
      if \<not> ok then (False, [], \<sigma>1)
      else let (ok', ds', \<sigma>2) = copy_rrs ds \<sigma>1 in (ok', d # ds', \<sigma>2))"

definition copy_rrset :: "rr_set \<Rightarrow> cache \<Rightarrow> (rr_set option \<times> cache) option" where
  "copy_rrset rs \<sigma> =
     do {
       let (ok, \<sigma>1) = malloc \<sigma>;
       if \<not> ok then Some (None, \<sigma>1)
       else do {
         let (ok', rrs, \<sigma>2) = copy_rrs (rs_rrs rs) \<sigma>1;
         let rsc = rs\<lparr> rs_lent := None, rs_rrs := rrs \<rparr>;
         if ok' then Some (Some rsc, \<sigma>2)
         else do { (_, \<sigma>3) \<leftarrow> del_rrset rsc \<sigma>2; Some (None, \<sigma>3) }
       }
     }"

text \<open>The loop of \<open>copy_cent\<close> over the RR sets: the slots from \<open>i\<close> on of \<open>c\<close> are copied to \<open>copy\<close>.\<close>

fun copy_slots :: "nat list \<Rightarrow> dns_cent \<Rightarrow> dns_cent \<Rightarrow> cache \<Rightarrow> (bool \<times> dns_cent \<times> cache) option" where
  "copy_slots [] c cp \<sigma> = Some (True, cp, \<sigma>)"
| "copy_slots (i # is) c cp \<sigma> =
     do {
       r \<leftarrow> RRARR_INDEX c i;
       case r of
         None \<Rightarrow> copy_slots is c cp \<sigma>
       | Some rs \<Rightarrow> do {
           let (ok, \<sigma>1) = malloc \<sigma>;
           if \<not> ok then do { cp1 \<leftarrow> set_rrarr cp i None; Some (False, cp1, \<sigma>1) }
           else do {
             let (ok', rrs, \<sigma>2) = copy_rrs (rs_rrs rs) \<sigma>1;
             cp1 \<leftarrow> set_rrarr cp i (Some (rs\<lparr> rs_lent := None, rs_rrs := rrs \<rparr>));
             if ok' then copy_slots is c cp1 \<sigma>2 else Some (False, cp1, \<sigma>2)
           }
         }
     }"

definition copy_cent :: "dns_cent \<Rightarrow> cache \<Rightarrow> (dns_cent option \<times> cache) option" where
  "copy_cent c \<sigma> =
     do {
       let (ok, \<sigma>1) = malloc \<sigma>;
       if \<not> ok then Some (None, \<sigma>1)
       else do {
         namesz \<leftarrow> rhnlen (ce_qname c);
         let (ok1, \<sigma>2) = malloc \<sigma>1;
         if \<not> ok1 then Some (None, \<sigma>2)
         else do {
           nm \<leftarrow> rdn (ce_qname c) 0 namesz;
           if has (ce_flags c) DF_NEGATIVE then
             (case ce_body c of
                NegBody _ ttl ts \<Rightarrow> Some (Some (c\<lparr> ce_qname := nm, ce_body := NegBody None ttl ts \<rparr>), \<sigma>2)
              | RRBody _ _ \<Rightarrow> None)
           else (case ce_body c of
                NegBody _ _ _ \<Rightarrow> None
              | RRBody _ ext \<Rightarrow> do {
                  let cp = c\<lparr> ce_qname := nm, ce_body := RRBody (replicate NRRMU None) None \<rparr>;
                  let (ok2, \<sigma>3) = (if ext = None then (True, \<sigma>2) else malloc \<sigma>2);
                  if \<not> ok2 then do { \<sigma>4 \<leftarrow> free_cent cp \<sigma>3; Some (None, \<sigma>4) }
                  else do {
                    let cp1 = (if ext = None then cp
                      else cp\<lparr> ce_body := RRBody (replicate NRRMU None) (Some (replicate NRREXT None)) \<rparr>);
                    (ok3, cp2, \<sigma>4) \<leftarrow> copy_slots [0..<if ext = None then NRRMU else NRRTOT] c cp1 \<sigma>3;
                    if ok3 then Some (Some cp2, \<sigma>4)
                    else do { \<sigma>5 \<leftarrow> free_cent cp2 \<sigma>4; Some (None, \<sigma>5) }
                  }
                })
         }
       }
     }"


subsection \<open>Flags\<close>

lemma has_0 [simp]: "has 0 m = False" "has x 0 = False"
  by (simp_all add: has_def)

lemma has_or [simp]: "has (x OR y) m = (has x m \<or> has y m)"
proof -
  have "(a OR b = 0) = (a = 0 \<and> b = 0)" for a b :: u16
    by (metis or.left_neutral or.right_neutral word_bw_same(2) or_eq_0_iff)
  then show ?thesis by (simp add: has_def bit.conj_disj_distrib2)
qed

lemma has_and [simp]: "has (x AND k) m = has x (m AND k)"
  by (simp add: has_def and.assoc and.commute and.left_commute)

subsection \<open>The slots of an entry\<close>

text \<open>The RR sets of an entry as one array of 0, 8 or 47 slots.\<close>

definition rr_body :: "rr_set option list \<Rightarrow> cent_body" where
  "rr_body sl = RRBody (take NRRMU sl) (if length sl = NRRMU then None else Some (drop NRRMU sl))"

definition slots :: "dns_cent \<Rightarrow> rr_set option list" where
  "slots c = (case ce_body c of NegBody _ _ _ \<Rightarrow> []
     | RRBody mu ext \<Rightarrow> mu @ (case ext of None \<Rightarrow> [] | Some ex \<Rightarrow> ex))"

definition slot :: "dns_cent \<Rightarrow> nat \<Rightarrow> rr_set option" where
  "slot c i = (if i < length (slots c) then slots c ! i else None)"

definition slot_size :: "rr_set option \<Rightarrow> int" where
  "slot_size r = (case r of None \<Rightarrow> 0 | Some rs \<Rightarrow> rrset_size rs)"

definition slots_size :: "rr_set option list \<Rightarrow> int" where
  "slots_size sl = sum_list (map slot_size sl)"

definition slots_num :: "rr_set option list \<Rightarrow> int" where
  "slots_num sl = int (length (filter (\<lambda>r. r \<noteq> None) sl))"

definition cent_size :: "dns_cent \<Rightarrow> int" where
  "cent_size c = sz_cent + int (length (ce_qname c)) + slots_size (slots c) +
     (if length (slots c) > NRRMU then sz_rrext else 0)"

text \<open>The structural invariant of an entry.\<close>

definition cent_shape :: "dns_cent \<Rightarrow> bool" where
  "cent_shape c = (case ce_body c of NegBody _ _ _ \<Rightarrow> has (ce_flags c) DF_NEGATIVE
     | RRBody mu ext \<Rightarrow> \<not> has (ce_flags c) DF_NEGATIVE \<and> length mu = NRRMU \<and>
         (case ext of None \<Rightarrow> True | Some ex \<Rightarrow> length ex = NRREXT))"

definition cent_wf :: "dns_cent \<Rightarrow> bool" where
  "cent_wf c = (cent_shape c \<and> valid_name (ce_qname c) \<and> ce_num c = slots_num (slots c) \<and>
     ce_cs c = cent_size c)"

abbreviation (input) neg :: "dns_cent \<Rightarrow> bool" where
  "neg c \<equiv> has (ce_flags c) DF_NEGATIVE"

lemma slots_rr_body [simp]: "length sl \<ge> NRRMU \<Longrightarrow> slots (c\<lparr> ce_body := rr_body sl \<rparr>) = sl"
  by (simp add: slots_def rr_body_def)

lemma slots_NegBody [simp]: "slots (c\<lparr> ce_body := NegBody a b d \<rparr>) = []"
  by (simp add: slots_def)

lemma slots_update [simp]:
  "slots (c\<lparr> ce_cs := n \<rparr>) = slots c" "slots (c\<lparr> ce_num := n \<rparr>) = slots c"
  "slots (c\<lparr> ce_flags := fl \<rparr>) = slots c" "slots (c\<lparr> ce_ns := b \<rparr>) = slots c"
  "slots (c\<lparr> ce_soa := b \<rparr>) = slots c" "slots (c\<lparr> ce_qname := nm \<rparr>) = slots c"
  by (simp_all add: slots_def)

lemma cent_shapeE:
  assumes "cent_shape c"
  obtains (Neg) le ttl ts where "neg c" "ce_body c = NegBody le ttl ts" "slots c = []"
  | (RR) "\<not> neg c" "ce_body c = rr_body (slots c)" "length (slots c) = NRRMU \<or> length (slots c) = NRRTOT"
proof (cases "ce_body c")
  case (NegBody le ttl ts)
  then show ?thesis using assms Neg by (simp add: cent_shape_def slots_def)
next
  case (RRBody mu ext)
  then show ?thesis using assms RR
    by (cases ext) (auto simp: cent_shape_def slots_def rr_body_def)
qed

lemma cent_shape_rr:
  "\<not> neg c \<Longrightarrow> length sl = NRRMU \<or> length sl = NRRTOT \<Longrightarrow> cent_shape (c\<lparr> ce_body := rr_body sl \<rparr>)"
  by (auto simp: cent_shape_def rr_body_def)

lemma RRARR_LEN_eq: "cent_shape c \<Longrightarrow> RRARR_LEN c = Some (length (slots c))"
  by (erule cent_shapeE) (auto simp: RRARR_LEN_def rr_body_def)

lemma RRARR_TEST_eq: "cent_shape c \<Longrightarrow> i < NRRTOT \<Longrightarrow> RRARR_INDEX_TESTEXT c i = Some (slot c i)"
  by (erule cent_shapeE) (auto simp: RRARR_INDEX_TESTEXT_def rr_body_def slot_def rd_def)

lemma RRARR_INDEX_eq: "cent_shape c \<Longrightarrow> i < length (slots c) \<Longrightarrow> RRARR_INDEX c i = Some (slot c i)"
  by (erule cent_shapeE) (auto simp: RRARR_INDEX_def rr_body_def slot_def rd_def)

lemma set_rrarr_eq:
  "cent_shape c \<Longrightarrow> i < length (slots c) \<Longrightarrow>
   set_rrarr c i v = Some (c\<lparr> ce_body := rr_body ((slots c)[i := v]) \<rparr>)"
  by (erule cent_shapeE)
     (auto simp: set_rrarr_def rr_body_def wr_def take_update_swap drop_update_swap list_update_beyond)

lemma slot_None [simp]: "i \<ge> length (slots c) \<Longrightarrow> slot c i = None"
  by (simp add: slot_def)

lemma slot_SomeD: "slot c i = Some rs \<Longrightarrow> i < length (slots c) \<and> slots c ! i = Some rs"
  by (simp add: slot_def split: if_splits)

lemma slots_len_le: "cent_shape c \<Longrightarrow> length (slots c) \<le> NRRTOT"
  by (erule cent_shapeE) auto

lemma slots_size_update: "i < length sl \<Longrightarrow> slots_size (sl[i := v]) = slots_size sl - slot_size (sl ! i) + slot_size v"
proof (induction sl arbitrary: i)
  case (Cons x xs)
  then show ?case by (cases i) (auto simp: slots_size_def)
qed simp

lemma slots_num_update:
  "i < length sl \<Longrightarrow> slots_num (sl[i := v]) = slots_num sl - of_bool (sl ! i \<noteq> None) + of_bool (v \<noteq> None)"
proof (induction sl arbitrary: i)
  case (Cons x xs)
  then show ?case by (cases i) (auto simp: slots_num_def)
qed simp

lemma slots_size_append [simp]: "slots_size (xs @ ys) = slots_size xs + slots_size ys"
  by (simp add: slots_size_def)

lemma slots_num_append [simp]: "slots_num (xs @ ys) = slots_num xs + slots_num ys"
  by (simp add: slots_num_def)

lemma slots_replicate [simp]: "slots_size (replicate n None) = 0" "slots_num (replicate n None) = 0"
  by (induction n) (simp_all add: slots_size_def slots_num_def slot_size_def)

lemma slots_Nil [simp]: "slots_size [] = 0" "slots_num [] = 0"
  by (simp_all add: slots_size_def slots_num_def)

lemma slot_size_simps [simp]: "slot_size None = 0" "slot_size (Some rs) = rrset_size rs"
  by (simp_all add: slot_size_def)

lemma slots_num_0: "(slots_num sl = 0) = (\<forall>r \<in> set sl. r = None)"
  by (auto simp: slots_num_def filter_empty_conv)

lemma rrset_size_pos: "rrset_size rs > 0"
proof -
  have "rrs_size ds \<ge> 0" for ds by (induction ds) (simp_all add: rrs_size_def sz_bucket_def)
  from this [of "rs_rrs rs"] show ?thesis by (simp add: rrset_size_def sz_rrset_def)
qed

lemma slots_size_nonneg: "slots_size sl \<ge> 0"
  by (induction sl) (auto simp: slots_size_def slot_size_def less_imp_le [OF rrset_size_pos] split: option.splits)

subsection \<open>The items an entry has in the list\<close>

definition cent_items :: "nat \<Rightarrow> dns_cent \<Rightarrow> item set" where
  "cent_items a c = (case ce_body c of
     NegBody le _ _ \<Rightarrow> (case le of None \<Rightarrow> {} | Some n \<Rightarrow> {(n, a, None)})
   | RRBody _ _ \<Rightarrow> {(n, a, Some i) | n i. Option.bind (slot c i) rs_lent = Some n})"

text \<open>The list holds a set of items; \<open>nid\<close> bounds the addresses of its nodes.\<close>

definition rrl_ok :: "item set \<Rightarrow> rrlist \<Rightarrow> nat \<Rightarrow> bool" where
  "rrl_ok I L nid = (\<exists>its. rrl_rep L its \<and> set its = I \<and> (\<forall>it \<in> I. fst it < nid))"

lemma rrl_ok_inj: "rrl_ok I L nid \<Longrightarrow> x \<in> I \<Longrightarrow> y \<in> I \<Longrightarrow> fst x = fst y \<Longrightarrow> x = y"
  unfolding rrl_ok_def by (metis eq_key_imp_eq_value prod.collapse rl.rep_distinct)

lemma rrl_ok_remove:
  assumes "rrl_ok I L nid" "it \<in> I"
  shows "\<exists>L'. remove_rrl (fst it) L = Some L' \<and> rrl_ok (I - {it}) L' nid"
proof -
  obtain its where its: "rrl_rep L its" "set its = I" "\<forall>it \<in> I. fst it < nid" using assms(1) by (auto simp: rrl_ok_def)
  obtain L' where L': "remove_rrl (fst it) L = Some L'" "rrl_rep L' (filter (\<lambda>x. fst x \<noteq> fst it) its)"
    using rl.rem_filter [OF its(1)] assms(2) its(2) by blast
  have "set (filter (\<lambda>x. fst x \<noteq> fst it) its) = I - {it}"
    using its(2) rrl_ok_inj [OF assms(1) _ assms(2)] by auto
  then show ?thesis using L' its(3) unfolding rrl_ok_def by blast
qed

lemma rrl_ok_insert:
  assumes "rrl_ok I L nid" "n = \<lparr> ln_next = None, ln_prev = None, ln_cent = a, ln_idx = i \<rparr>"
    "\<And>m c j. (m, c, j) \<in> I \<Longrightarrow> \<exists>t. tsf c j = Some t" "\<exists>t. tsf a i = Some t"
  shows "\<exists>L'. link_node tsf s nid n L = Some L' \<and> rrl_ok (insert (nid, a, i) I) L' (nid + 1)"
proof -
  obtain its where its: "rrl_rep L its" "set its = I" "\<forall>it \<in> I. fst it < nid" using assms(1) by (auto simp: rrl_ok_def)
  have it: "node_item nid n = (nid, a, i)" using assms(2) by (simp add: node_item_def)
  have fr: "nid \<notin> fst ` set its" using its(2,3) by auto
  have tm: "times_ok (fst (tsf, s)) (node_item nid n # its)"
    using assms(3,4) its(2) it by (auto simp: times_ok_def)
  obtain L' its' where L': "link_node tsf s nid n L = Some L'" "rrl_rep L' its'"
    "set its' = insert (nid, a, i) (set its)"
    using rl.ins_set [OF its(1) fr tm] it by auto
  have "\<forall>it \<in> insert (nid, a, i) I. fst it < nid + 1" using its(3) by auto
  then show ?thesis using L' its(2) unfolding rrl_ok_def by blast
qed


subsection \<open>What the operations do\<close>

text \<open>Nodes have only been taken out of the list.\<close>

definition shrinks :: "rrlist \<Rightarrow> rrlist \<Rightarrow> bool" where
  "shrinks L L' = (\<forall>its. rrl_rep L its \<longrightarrow> (\<exists>P. rrl_rep L' (filter P its)))"

lemma shrinks_refl [simp, intro]: "shrinks L L"
  unfolding shrinks_def by (intro allI impI exI [of _ "\<lambda>_. True"]) simp

lemma shrinks_trans: "shrinks L L1 \<Longrightarrow> shrinks L1 L2 \<Longrightarrow> shrinks L L2"
  unfolding shrinks_def
proof (intro allI impI)
  fix its
  assume a: "\<forall>its. rrl_rep L its \<longrightarrow> (\<exists>P. rrl_rep L1 (filter P its))"
    "\<forall>its. rrl_rep L1 its \<longrightarrow> (\<exists>P. rrl_rep L2 (filter P its))" "rrl_rep L its"
  then obtain P where "rrl_rep L1 (filter P its)" by blast
  with a(2) obtain Q where "rrl_rep L2 (filter Q (filter P its))" by blast
  then show "\<exists>P. rrl_rep L2 (filter P its)" unfolding filter_filter by blast
qed

lemma shrinks_remove:
  assumes "remove_rrl a L = Some L'"
  shows "shrinks L L'"
  unfolding shrinks_def
proof (intro allI impI)
  fix its assume r: "rrl_rep L its"
  have "a \<in> dom (rl_mem L)" using assms by (auto simp: remove_rrl_def bind_Some_iff)
  then obtain it where it: "it \<in> set its" "fst it = a" using rrl_rep_adrs [OF r] by auto
  have "rrl_rep L' (filter (\<lambda>x. fst x \<noteq> fst it) its)" using rl.rem_filter [OF r it(1)] it(2) assms by auto
  then show "\<exists>P. rrl_rep L' (filter P its)" by blast
qed

text \<open>Only the list and the allocations to come have changed.\<close>

definition frame :: "cache \<Rightarrow> cache \<Rightarrow> bool" where
  "frame \<sigma> \<sigma>' = (\<sigma>' = \<sigma>\<lparr> rrl := rrl \<sigma>', mallocs := mallocs \<sigma>' \<rparr> \<and> shrinks (rrl \<sigma>) (rrl \<sigma>'))"

lemma frame_refl [simp, intro]: "frame \<sigma> \<sigma>"
  by (simp add: frame_def)

lemma frame_trans: "frame \<sigma> \<sigma>1 \<Longrightarrow> frame \<sigma>1 \<sigma>2 \<Longrightarrow> frame \<sigma> \<sigma>2"
  unfolding frame_def using shrinks_trans by (cases \<sigma>; cases \<sigma>1; cases \<sigma>2) auto

lemma frame_update [simp]: "shrinks (rrl \<sigma>) L \<Longrightarrow> frame \<sigma> (\<sigma>\<lparr> rrl := L \<rparr>)" "frame \<sigma> (\<sigma>\<lparr> mallocs := ms \<rparr>)"
  by (simp_all add: frame_def)

lemma frame_shrinks: "frame \<sigma> \<sigma>' \<Longrightarrow> shrinks (rrl \<sigma>) (rrl \<sigma>')"
  by (simp add: frame_def)

lemma frameD:
  assumes "frame \<sigma> \<sigma>'"
  shows "cents \<sigma>' = cents \<sigma>" "buckets \<sigma>' = buckets \<sigma>" "cache_size \<sigma>' = cache_size \<sigma>"
    "ent_num \<sigma>' = ent_num \<sigma>" "insert_sort \<sigma>' = insert_sort \<sigma>" "next_id \<sigma>' = next_id \<sigma>"
proof -
  have e: "\<sigma>' = \<sigma>\<lparr> rrl := rrl \<sigma>', mallocs := mallocs \<sigma>' \<rparr>" using assms by (simp add: frame_def)
  show "cents \<sigma>' = cents \<sigma>" "buckets \<sigma>' = buckets \<sigma>" "cache_size \<sigma>' = cache_size \<sigma>"
    "ent_num \<sigma>' = ent_num \<sigma>" "insert_sort \<sigma>' = insert_sort \<sigma>" "next_id \<sigma>' = next_id \<sigma>"
    by (subst e, simp)+
qed

lemma malloc_cases:
  obtains ok \<sigma>1 where "malloc \<sigma> = (ok, \<sigma>1)" "frame \<sigma> \<sigma>1" "rrl \<sigma>1 = rrl \<sigma>"
  by (cases "mallocs \<sigma>") (auto simp: malloc_def)

text \<open>The list holds the items of the entry \<open>c\<close> at \<open>a\<close>, and those of \<open>R\<close>, which are of other entries.\<close>

definition held :: "nat \<Rightarrow> dns_cent \<Rightarrow> item set \<Rightarrow> cache \<Rightarrow> bool" where
  "held a c R \<sigma> = (rrl_ok (cent_items a c \<union> R) (rrl \<sigma>) (next_id \<sigma>) \<and> (\<forall>x \<in> R. fst (snd x) \<noteq> a))"

lemma held_frame: "held a c R \<sigma> \<Longrightarrow> frame \<sigma> \<sigma>' \<Longrightarrow> rrl \<sigma>' = rrl \<sigma> \<Longrightarrow> held a c R \<sigma>'"
  by (simp add: held_def frameD)

lemma held_items: "held a c R \<sigma> \<Longrightarrow> cent_items a c' = cent_items a c \<Longrightarrow> held a c' R \<sigma>"
  by (simp add: held_def)

lemma cent_items_addr: "x \<in> cent_items a c \<Longrightarrow> fst (snd x) = a"
  by (auto simp: cent_items_def split: cent_body.splits option.splits)

lemma cent_items_rr:
  assumes "cent_shape c" "\<not> neg c"
  shows "cent_items a c = {(n, a, Some i) | n i. Option.bind (slot c i) rs_lent = Some n}"
  using assms by (elim cent_shapeE) (simp_all add: cent_items_def rr_body_def)

lemma cent_items_neg: "ce_body c = NegBody le ttl ts \<Longrightarrow> cent_items a c = (case le of None \<Rightarrow> {} | Some n \<Rightarrow> {(n, a, None)})"
  by (simp add: cent_items_def)

lemma slot_update [simp]:
  "slot (c\<lparr> ce_cs := n \<rparr>) i = slot c i" "slot (c\<lparr> ce_num := n \<rparr>) i = slot c i"
  "slot (c\<lparr> ce_flags := fl \<rparr>) i = slot c i" "slot (c\<lparr> ce_ns := b \<rparr>) i = slot c i"
  "slot (c\<lparr> ce_soa := b \<rparr>) i = slot c i"
  "length sl \<ge> NRRMU \<Longrightarrow> slot (c\<lparr> ce_body := rr_body sl \<rparr>) i = (if i < length sl then sl ! i else None)"
  by (simp_all add: slot_def)

lemma cent_items_update [simp]:
  "cent_items a (c\<lparr> ce_cs := n \<rparr>) = cent_items a c" "cent_items a (c\<lparr> ce_num := n \<rparr>) = cent_items a c"
  "cent_items a (c\<lparr> ce_flags := fl \<rparr>) = cent_items a c" "cent_items a (c\<lparr> ce_ns := b \<rparr>) = cent_items a c"
  "cent_items a (c\<lparr> ce_soa := b \<rparr>) = cent_items a c"
  by (simp_all add: cent_items_def slot_update split: cent_body.split)

lemma held_unlink:
  assumes "held a c R \<sigma>" "\<And>n. le = Some n \<Longrightarrow> (n, a, i) \<in> cent_items a c"
    "cent_items a c' = cent_items a c - (case le of None \<Rightarrow> {} | Some n \<Rightarrow> {(n, a, i)})"
  shows "\<exists>\<sigma>'. unlink le \<sigma> = Some \<sigma>' \<and> held a c' R \<sigma>' \<and> frame \<sigma> \<sigma>' \<and> mallocs \<sigma>' = mallocs \<sigma>"
proof (cases le)
  case None
  then show ?thesis using assms by (simp add: unlink_def held_def)
next
  case (Some n)
  have it: "(n, a, i) \<in> cent_items a c \<union> R" using assms(2) Some by simp
  obtain L where L: "remove_rrl n (rrl \<sigma>) = Some L" "rrl_ok (cent_items a c \<union> R - {(n, a, i)}) L (next_id \<sigma>)"
    using rrl_ok_remove [OF _ it, of "rrl \<sigma>" "next_id \<sigma>"] assms(1) unfolding held_def fst_conv by blast
  have "cent_items a c \<union> R - {(n, a, i)} = cent_items a c' \<union> R"
    using assms(1,3) Some by (auto simp: held_def)
  then show ?thesis using L Some assms(1) shrinks_remove [OF L(1)] by (simp add: unlink_def held_def)
qed

subsubsection \<open>Deleting one RR set\<close>

definition del_slot :: "dns_cent \<Rightarrow> nat \<Rightarrow> dns_cent" where
  "del_slot c i = (case slot c i of None \<Rightarrow> c
     | Some rs \<Rightarrow> c\<lparr> ce_body := rr_body ((slots c)[i := None]), ce_num := ce_num c - 1,
         ce_cs := ce_cs c - rrset_size rs, ce_flags := ce_flags c AND NOT DF_AUTH \<rparr>)"

lemma slot_Some_rr: "cent_shape c \<Longrightarrow> slot c i = Some rs \<Longrightarrow> \<not> neg c \<and> NRRMU \<le> length (slots c)"
  by (erule cent_shapeE) (auto dest: slot_SomeD)

lemma del_slot_props:
  assumes "cent_wf c"
  shows "cent_wf (del_slot c i)" "slots (del_slot c i) = (slots c)[i := None]"
    "slot (del_slot c i) j = (if j = i then None else slot c j)"
    "ce_qname (del_slot c i) = ce_qname c" "has (ce_flags (del_slot c i)) m = has (ce_flags c) (if slot c i = None then m else m AND NOT DF_AUTH)"
    "ce_ns (del_slot c i) = ce_ns c" "ce_soa (del_slot c i) = ce_soa c"
proof -
  have sh: "cent_shape c" using assms by (simp add: cent_wf_def)
  have n: "length (slots c) = NRRMU \<or> length (slots c) = NRRTOT" "NRRMU \<le> length (slots c)" "\<not> neg c"
    "i < length (slots c)" "slots c ! i = Some rs" if "slot c i = Some rs" for rs
    using that slot_Some_rr [OF sh that] cent_shapeE [OF sh] by (auto dest: slot_SomeD)
  show sl: "slots (del_slot c i) = (slots c)[i := None]"
  proof (cases "slot c i")
    case None
    then show ?thesis by (auto simp: del_slot_def slot_def list_update_beyond split: if_splits) (metis list_update_id)
  next
    case (Some rs)
    then show ?thesis using n(2) [OF Some] by (simp add: del_slot_def slots_def rr_body_def)
  qed
  show "slot (del_slot c i) j = (if j = i then None else slot c j)"
    by (simp add: slot_def sl)
  show "ce_qname (del_slot c i) = ce_qname c" "ce_ns (del_slot c i) = ce_ns c" "ce_soa (del_slot c i) = ce_soa c"
    by (simp_all add: del_slot_def split: option.split)
  have "has (ce_flags (del_slot c i)) m = has (ce_flags c) (m AND NOT DF_AUTH)" if "slot c i = Some rs" for rs
    using that by (simp add: del_slot_def)
  then show "has (ce_flags (del_slot c i)) m = has (ce_flags c) (if slot c i = None then m else m AND NOT DF_AUTH)"
    by (cases "slot c i") (simp_all add: del_slot_def)
  show "cent_wf (del_slot c i)"
  proof (cases "slot c i")
    case None
    then show ?thesis using assms by (simp add: del_slot_def)
  next
    case (Some rs)
    let ?c = "c\<lparr> ce_body := rr_body ((slots c)[i := None]), ce_num := ce_num c - 1,
         ce_cs := ce_cs c - rrset_size rs, ce_flags := ce_flags c AND NOT DF_AUTH \<rparr>"
    have e: "del_slot c i = ?c" using Some by (simp add: del_slot_def)
    have "cent_shape ?c" using n [OF Some]
      by (auto simp: cent_shape_def rr_body_def)
    moreover have "slots ?c = (slots c)[i := None]" using sl e by simp
    ultimately show ?thesis using assms n [OF Some] unfolding e
      by (simp add: cent_wf_def cent_size_def slots_size_update slots_num_update)
  qed
qed

lemma del_slot_items:
  assumes "cent_wf c"
  shows "cent_items a (del_slot c i) = cent_items a c -
    (case Option.bind (slot c i) rs_lent of None \<Rightarrow> {} | Some n \<Rightarrow> {(n, a, Some i)})"
proof (cases "slot c i")
  case None
  then show ?thesis by (simp add: del_slot_def)
next
  case (Some rs)
  have sh: "cent_shape c" "cent_shape (del_slot c i)"
    using assms del_slot_props(1) [OF assms, of i] by (simp_all add: cent_wf_def)
  have nn: "\<not> neg c" using slot_Some_rr [OF sh(1) Some] by simp
  then have "\<not> neg (del_slot c i)" using del_slot_props(5) [OF assms, of i] Some by simp
  moreover have "Option.bind (slot (del_slot c i) j) rs_lent = (if j = i then None else Option.bind (slot c j) rs_lent)" for j
    using del_slot_props(3) [OF assms, of i] by simp
  ultimately have "cent_items a (del_slot c i) = {(n, a, Some j) | n j. j \<noteq> i \<and> Option.bind (slot c j) rs_lent = Some n}"
    using cent_items_rr [OF sh(2)] by auto
  then show ?thesis using Some
    by (auto simp: cent_items_rr [OF sh(1) nn] split: option.splits)
qed

lemma del_cent_rrset_spec:
  assumes "cent_wf c" "held a c R \<sigma>" "i < NRRTOT"
  shows "\<exists>\<sigma>'. del_cent_rrset_by_index c i \<sigma> = Some (slot_size (slot c i), del_slot c i, \<sigma>') \<and>
    held a (del_slot c i) R \<sigma>' \<and> frame \<sigma> \<sigma>' \<and> mallocs \<sigma>' = mallocs \<sigma>"
proof (cases "slot c i")
  case None
  have "RRARR_INDEX_TESTEXT c i = Some None" using RRARR_TEST_eq assms None by (simp add: cent_wf_def)
  then show ?thesis using None assms(2) by (simp add: del_cent_rrset_by_index_def del_slot_def)
next
  case (Some rs)
  have sh: "cent_shape c" using assms(1) by (simp add: cent_wf_def)
  have t: "RRARR_INDEX_TESTEXT c i = Some (Some rs)" using RRARR_TEST_eq [OF sh assms(3)] Some by simp
  have i: "i < length (slots c)" using slot_SomeD [OF Some] by simp
  have nn: "\<not> neg c" using slot_Some_rr [OF sh Some] by simp
  have "\<exists>\<sigma>'. unlink (rs_lent rs) \<sigma> = Some \<sigma>' \<and> held a (del_slot c i) R \<sigma>' \<and> frame \<sigma> \<sigma>' \<and> mallocs \<sigma>' = mallocs \<sigma>"
  proof (rule held_unlink [OF assms(2)])
    show "(n, a, Some i) \<in> cent_items a c" if "rs_lent rs = Some n" for n
      using that Some by (simp add: cent_items_rr [OF sh nn])
  qed (use del_slot_items [OF assms(1)] Some in simp)
  then obtain \<sigma>' where "unlink (rs_lent rs) \<sigma> = Some \<sigma>'" "held a (del_slot c i) R \<sigma>'" "frame \<sigma> \<sigma>'" "mallocs \<sigma>' = mallocs \<sigma>"
    by blast
  then show ?thesis using t Some
    by (simp add: del_cent_rrset_by_index_def del_rrset_def set_rrarr_eq [OF sh i] del_slot_def)
qed


subsubsection \<open>Adding an RR set\<close>

definition no_fail :: "cache \<Rightarrow> bool" where
  "no_fail \<sigma> = (\<forall>b \<in> set (mallocs \<sigma>). b)"

lemma malloc_spec: "malloc \<sigma> = (ok, \<sigma>1) \<Longrightarrow> frame \<sigma> \<sigma>1 \<and> rrl \<sigma>1 = rrl \<sigma> \<and> (no_fail \<sigma> \<longrightarrow> ok \<and> no_fail \<sigma>1)"
  by (cases "mallocs \<sigma>") (auto simp: malloc_def no_fail_def)

lemma no_fail_frame: "mallocs \<sigma>' = mallocs \<sigma> \<Longrightarrow> no_fail \<sigma>' = no_fail \<sigma>"
  by (simp add: no_fail_def)

lemma rr_items_slots:
  assumes "cent_shape c" "\<not> neg c" "cent_shape c'" "\<not> neg c'" "\<And>j. slot c' j = slot c j"
  shows "cent_items a c' = cent_items a c"
  using assms by (simp add: cent_items_rr)

lemma body_rr: "cent_shape c \<Longrightarrow> \<not> neg c \<Longrightarrow> ce_body c = rr_body (slots c) \<and> (length (slots c) = NRRMU \<or> length (slots c) = NRRTOT)"
  by (erule cent_shapeE) auto

definition pos_cent :: "dns_cent \<Rightarrow> dns_cent" where
  "pos_cent c = (if neg c then c\<lparr> ce_flags := ce_flags c AND NOT DF_NEGATIVE, ce_body := rr_body (replicate NRRMU None) \<rparr> else c)"

lemma rr_body_8: "length sl = NRRMU \<Longrightarrow> rr_body sl = RRBody sl None"
  by (simp add: rr_body_def)

lemma pos_cent_props:
  assumes "cent_wf c"
  shows "cent_wf (pos_cent c)" "\<not> neg (pos_cent c)" "slot (pos_cent c) j = slot c j"
    "ce_qname (pos_cent c) = ce_qname c" "ce_ns (pos_cent c) = ce_ns c" "ce_soa (pos_cent c) = ce_soa c"
    "has (ce_flags (pos_cent c)) m = has (ce_flags c) (if neg c then m AND NOT DF_NEGATIVE else m)"
proof -
  have sh: "cent_shape c" using assms by (simp add: cent_wf_def)
  have nil: "slots c = []" if "neg c" using sh that by (elim cent_shapeE) simp_all
  have sl: "slots (pos_cent c) = (if neg c then replicate NRRMU None else slots c)"
    by (simp add: pos_cent_def)
  show "cent_wf (pos_cent c)"
  proof (cases "neg c")
    case True
    then have e: "pos_cent c = c\<lparr> ce_flags := ce_flags c AND NOT DF_NEGATIVE, ce_body := RRBody (replicate NRRMU None) None \<rparr>"
      by (simp add: pos_cent_def rr_body_8)
    have "cent_shape (pos_cent c)" unfolding e by (simp add: cent_shape_def)
    moreover have "ce_num c = 0" "ce_cs c = sz_cent + int (length (ce_qname c))"
      using assms nil [OF True] by (simp_all add: cent_wf_def cent_size_def)
    moreover have "slots_size (slots (pos_cent c)) = 0" "slots_num (slots (pos_cent c)) = 0" "length (slots (pos_cent c)) = NRRMU"
      using True by (simp_all add: sl del: replicate.simps)
    ultimately show ?thesis using assms e by (simp add: cent_wf_def cent_size_def)
  qed (simp add: pos_cent_def assms)
  show "\<not> neg (pos_cent c)" by (simp add: pos_cent_def)
  show "slot (pos_cent c) j = slot c j" using nil by (simp add: slot_def sl)
  show "ce_qname (pos_cent c) = ce_qname c" "ce_ns (pos_cent c) = ce_ns c" "ce_soa (pos_cent c) = ce_soa c"
    by (simp_all add: pos_cent_def)
  show "has (ce_flags (pos_cent c)) m = has (ce_flags c) (if neg c then m AND NOT DF_NEGATIVE else m)"
    by (simp add: pos_cent_def)
qed

lemma cent_positive_spec:
  assumes "cent_wf c" "held a c R \<sigma>"
  shows "\<exists>\<sigma>'. cent_positive c \<sigma> = Some (pos_cent c, \<sigma>') \<and> held a (pos_cent c) R \<sigma>' \<and> frame \<sigma> \<sigma>' \<and> mallocs \<sigma>' = mallocs \<sigma>"
proof (cases "neg c")
  case False
  then show ?thesis using assms by (simp add: cent_positive_def pos_cent_def)
next
  case True
  obtain le ttl ts where b: "ce_body c = NegBody le ttl ts"
    using assms(1) True by (auto simp: cent_wf_def elim: cent_shapeE)
  have "cent_items a (pos_cent c) = {}"
    using True by (auto simp: cent_items_def pos_cent_def rr_body_def slot_def slots_def nth_Cons split: nat.splits if_splits)
  then have it: "cent_items a (pos_cent c) = cent_items a c - (case le of None \<Rightarrow> {} | Some n \<Rightarrow> {(n, a, None)})"
    using cent_items_neg [OF b] by (cases le) auto
  have mem: "\<And>n. le = Some n \<Longrightarrow> (n, a, None) \<in> cent_items a c" using cent_items_neg [OF b] by simp
  obtain \<sigma>' where "unlink le \<sigma> = Some \<sigma>'" "held a (pos_cent c) R \<sigma>'" "frame \<sigma> \<sigma>'" "mallocs \<sigma>' = mallocs \<sigma>"
    using held_unlink [OF assms(2) mem it] by blast
  then show ?thesis using True b
    by (simp add: cent_positive_def pos_cent_def rr_body_8)
qed

definition ext_cent :: "dns_cent \<Rightarrow> nat \<Rightarrow> dns_cent" where
  "ext_cent c i = (if i < NRRMU \<or> length (slots c) = NRRTOT then c
     else c\<lparr> ce_body := rr_body (slots c @ replicate NRREXT None), ce_cs := ce_cs c + sz_rrext \<rparr>)"

lemma ext_cent_props:
  assumes "cent_wf c" "\<not> neg c" "i < NRRTOT"
  shows "cent_wf (ext_cent c i)" "slot (ext_cent c i) j = slot c j" "i < length (slots (ext_cent c i))"
    "ce_qname (ext_cent c i) = ce_qname c" "ce_ns (ext_cent c i) = ce_ns c" "ce_soa (ext_cent c i) = ce_soa c"
    "ce_flags (ext_cent c i) = ce_flags c"
proof -
  have sh: "cent_shape c" using assms(1) by (simp add: cent_wf_def)
  have b: "length (slots c) = NRRMU \<or> length (slots c) = NRRTOT" using body_rr [OF sh assms(2)] by simp
  let ?c = "c\<lparr> ce_body := rr_body (slots c @ replicate NRREXT None), ce_cs := ce_cs c + sz_rrext \<rparr>"
  have *: "cent_wf ?c" "slot ?c j = slot c j" "length (slots ?c) = NRRTOT"
    if "length (slots c) = NRRMU" for j
  proof -
    have sl: "slots ?c = slots c @ replicate NRREXT None" using that by (simp del: replicate.simps)
    show len: "length (slots ?c) = NRRTOT" using that sl by simp
    show "slot ?c j = slot c j" unfolding slot_def sl using that by (simp add: nth_append del: replicate.simps)
    have "cent_shape ?c" using assms(2) that by (simp add: cent_shape_def rr_body_def del: replicate.simps)
    then show "cent_wf ?c" using assms(1) that sl
      by (simp add: cent_wf_def cent_size_def del: replicate.simps)
  qed
  show "slot (ext_cent c i) j = slot c j" using *(2) [of j] b by (simp only: ext_cent_def split: if_split) blast
  show "cent_wf (ext_cent c i)" "i < length (slots (ext_cent c i))"
    using *(1,3) assms b by (auto simp: ext_cent_def)
  show "ce_qname (ext_cent c i) = ce_qname c" "ce_ns (ext_cent c i) = ce_ns c" "ce_soa (ext_cent c i) = ce_soa c"
    "ce_flags (ext_cent c i) = ce_flags c" by (simp_all add: ext_cent_def)
qed

lemma rrext_alloc_spec:
  assumes "cent_wf c" "\<not> neg c" "i < NRRTOT" "held a c R \<sigma>"
  shows "\<exists>ok \<sigma>'. rrext_alloc c i \<sigma> = Some (ok, if ok then ext_cent c i else c, \<sigma>') \<and>
    held a (if ok then ext_cent c i else c) R \<sigma>' \<and> frame \<sigma> \<sigma>' \<and> (no_fail \<sigma> \<longrightarrow> ok \<and> no_fail \<sigma>')"
proof -
  have sh: "cent_shape c" "cent_shape (ext_cent c i)"
    using assms(1) ext_cent_props(1) [OF assms(1-3)] by (simp_all add: cent_wf_def)
  have it: "cent_items a (ext_cent c i) = cent_items a c"
    by (rule rr_items_slots) (use sh assms(2) ext_cent_props [OF assms(1-3)] in simp_all)
  have b: "ce_body c = rr_body (slots c)" "length (slots c) = NRRMU \<or> length (slots c) = NRRTOT"
    using body_rr [OF sh(1) assms(2)] by simp_all
  show ?thesis
  proof (cases "i < NRRMU \<or> length (slots c) = NRRTOT")
    case True
    then have "rrext_alloc c i \<sigma> = Some (True, c, \<sigma>)" "ext_cent c i = c"
      using assms(3) b by (auto simp: rrext_alloc_def rr_body_def ext_cent_def)
    then show ?thesis using assms(4) by auto
  next
    case False
    obtain ok \<sigma>1 where m: "malloc \<sigma> = (ok, \<sigma>1)" by (cases "malloc \<sigma>")
    have len: "length (slots c) = NRRMU" using False b(2) by simp
    then have bb: "ce_body c = RRBody (slots c) None" using b(1) by (simp add: rr_body_def)
    have "rr_body (slots c @ replicate NRREXT None) = RRBody (slots c) (Some (replicate NRREXT None))"
      using len by (simp add: rr_body_def del: replicate.simps)
    moreover have "i - NRRMU < NRREXT" using False assms(3) by arith
    ultimately have "rrext_alloc c i \<sigma> = Some (ok, if ok then ext_cent c i else c, \<sigma>1)"
      using False m len by (simp add: rrext_alloc_def bb ext_cent_def Let_def del: replicate.simps)
    moreover have "held a c R \<sigma>1" using malloc_spec [OF m] held_frame [OF assms(4)] by blast
    ultimately show ?thesis using malloc_spec [OF m] held_items [OF _ it]
      by (intro exI [of _ ok] exI [of _ \<sigma>1]) simp
  qed
qed

definition put_slot :: "dns_cent \<Rightarrow> nat \<Rightarrow> rr_set \<Rightarrow> dns_cent" where
  "put_slot c i rs = c\<lparr> ce_body := rr_body ((slots c)[i := Some rs]), ce_cs := ce_cs c + rrset_size rs, ce_num := ce_num c + 1 \<rparr>"

lemma put_slot_props:
  assumes "cent_wf c" "\<not> neg c" "i < length (slots c)" "slot c i = None"
  shows "cent_wf (put_slot c i rs)" "slot (put_slot c i rs) j = (if j = i then Some rs else slot c j)"
    "length (slots (put_slot c i rs)) = length (slots c)"
    "ce_qname (put_slot c i rs) = ce_qname c" "ce_ns (put_slot c i rs) = ce_ns c" "ce_soa (put_slot c i rs) = ce_soa c"
    "ce_flags (put_slot c i rs) = ce_flags c"
proof -
  have sh: "cent_shape c" using assms(1) by (simp add: cent_wf_def)
  have b: "length (slots c) = NRRMU \<or> length (slots c) = NRRTOT" using body_rr [OF sh assms(2)] by simp
  then have sl: "slots (put_slot c i rs) = (slots c)[i := Some rs]" by (auto simp: put_slot_def slots_def rr_body_def)
  then show "length (slots (put_slot c i rs)) = length (slots c)" by simp
  show "slot (put_slot c i rs) j = (if j = i then Some rs else slot c j)"
    using assms(3) by (simp add: slot_def sl)
  have "cent_shape (put_slot c i rs)"
    using b assms(2) by (auto simp: put_slot_def cent_shape_def rr_body_def)
  then show "cent_wf (put_slot c i rs)"
    using assms sl by (simp add: cent_wf_def cent_size_def slots_size_update slots_num_update put_slot_def slot_def)
  show "ce_qname (put_slot c i rs) = ce_qname c" "ce_ns (put_slot c i rs) = ce_ns c" "ce_soa (put_slot c i rs) = ce_soa c"
    "ce_flags (put_slot c i rs) = ce_flags c" by (simp_all add: put_slot_def)
qed

lemma rr_body_id: "cent_shape c \<Longrightarrow> \<not> neg c \<Longrightarrow> i < length (slots c) \<Longrightarrow> slot c i = None \<Longrightarrow>
  c\<lparr> ce_body := rr_body ((slots c)[i := None]) \<rparr> = c"
proof -
  assume a: "cent_shape c" "\<not> neg c" "i < length (slots c)" "slot c i = None"
  then have "slots c ! i = None" by (simp add: slot_def)
  then have "(slots c)[i := None] = slots c" by (metis list_update_id)
  then show ?thesis using body_rr [OF a(1,2)] by (cases c) simp
qed

text \<open>The outcome of \<open>add_cent_rrset_by_index\<close>.\<close>

definition add_set_res :: "nat \<Rightarrow> item set \<Rightarrow> dns_cent \<Rightarrow> nat \<Rightarrow> rr_set \<Rightarrow> cache \<Rightarrow> bool \<Rightarrow> dns_cent \<Rightarrow> cache \<Rightarrow> bool" where
  "add_set_res a R c i rs \<sigma> ok c' \<sigma>' = (cent_wf c' \<and> \<not> neg c' \<and> held a c' R \<sigma>' \<and> frame \<sigma> \<sigma>' \<and>
     (\<forall>j. slot c' j = (if ok \<and> j = i then Some rs else slot c j)) \<and> (ok \<longrightarrow> i < length (slots c')) \<and>
     ce_qname c' = ce_qname c \<and> ce_ns c' = ce_ns c \<and> ce_soa c' = ce_soa c \<and>
     ce_flags c' = ce_flags (pos_cent c) \<and> (no_fail \<sigma> \<longrightarrow> ok \<and> no_fail \<sigma>'))"

lemma add_cent_rrset_spec:
  assumes "cent_wf c" "held a c R \<sigma>" "i < NRRTOT" "slot c i = None"
  shows "\<exists>ok c' \<sigma>'. add_cent_rrset_by_index c i ttl ts fl \<sigma> = Some (ok, c', \<sigma>') \<and>
    add_set_res a R c i \<lparr> rs_lent = None, rs_ttl = ttl, rs_ts = ts, rs_flags = fl, rs_rrs = [] \<rparr> \<sigma> ok c' \<sigma>'"
proof -
  let ?rs = "\<lparr> rs_lent = None, rs_ttl = ttl, rs_ts = ts, rs_flags = fl, rs_rrs = [] \<rparr>"
  let ?p = "pos_cent c"
  obtain \<sigma>1 where 1: "cent_positive c \<sigma> = Some (?p, \<sigma>1)" "held a ?p R \<sigma>1" "frame \<sigma> \<sigma>1" "mallocs \<sigma>1 = mallocs \<sigma>"
    using cent_positive_spec [OF assms(1,2)] by (elim exE conjE) (rule that)
  note p = pos_cent_props [OF assms(1)]
  obtain ok \<sigma>2 where 2: "rrext_alloc ?p i \<sigma>1 = Some (ok, if ok then ext_cent ?p i else ?p, \<sigma>2)"
    "held a (if ok then ext_cent ?p i else ?p) R \<sigma>2" "frame \<sigma>1 \<sigma>2" "no_fail \<sigma>1 \<longrightarrow> ok \<and> no_fail \<sigma>2"
    using rrext_alloc_spec [OF p(1,2) assms(3) 1(2)] by (elim exE conjE) (rule that)
  have nf: "no_fail \<sigma> = no_fail \<sigma>1" using no_fail_frame [OF 1(4)] by simp
  show ?thesis
  proof (cases ok)
    case False
    have "add_set_res a R c i ?rs \<sigma> False ?p \<sigma>2"
      using False 1 2 p nf frame_trans [OF 1(3) 2(3)] by (simp add: add_set_res_def)
    then show ?thesis using False 1(1) 2(1) by (auto simp: add_cent_rrset_by_index_def)
  next
    case True
    let ?e = "ext_cent ?p i"
    note e = ext_cent_props [OF p(1,2) assms(3)]
    have sh: "cent_shape ?e" using e(1) by (simp add: cent_wf_def)
    have ne: "\<not> neg ?e" using e(7) p(2) by simp
    have sn: "slot ?e i = None" using e(2) p(3) assms(4) by simp
    obtain ok' \<sigma>3 where m: "malloc \<sigma>2 = (ok', \<sigma>3)" by (cases "malloc \<sigma>2")
    note ms = malloc_spec [OF m]
    have fr: "frame \<sigma> \<sigma>3" using frame_trans [OF 1(3) frame_trans [OF 2(3)]] ms by blast
    have h3: "held a ?e R \<sigma>3" using held_frame [of a ?e R \<sigma>2 \<sigma>3] 2(2) True ms by simp
    note put = put_slot_props [OF e(1) ne e(3) sn, of ?rs]
    have run: "add_cent_rrset_by_index c i ttl ts fl \<sigma> = Some (ok', if ok' then put_slot ?e i ?rs else ?e, \<sigma>3)"
      using 1(1) 2(1) True m set_rrarr_eq [OF sh e(3)] rr_body_id [OF sh ne e(3) sn]
      by (cases ok') (simp_all add: add_cent_rrset_by_index_def Let_def put_slot_def rrset_size_def rrs_size_def)
    have it: "cent_items a (put_slot ?e i ?rs) = cent_items a ?e"
    proof -
      have "cent_shape (put_slot ?e i ?rs)" "\<not> neg (put_slot ?e i ?rs)" using put(1,7) ne by (simp_all add: cent_wf_def)
      moreover have "Option.bind (slot (put_slot ?e i ?rs) j) rs_lent = Option.bind (slot ?e j) rs_lent" for j
        using put(2) sn by simp
      ultimately show ?thesis using sh ne by (simp add: cent_items_rr)
    qed
    have "add_set_res a R c i ?rs \<sigma> ok' (if ok' then put_slot ?e i ?rs else ?e) \<sigma>3"
      unfolding add_set_res_def
    proof (intro conjI allI impI)
      show "held a (if ok' then put_slot ?e i ?rs else ?e) R \<sigma>3" using h3 held_items [OF h3 it] by simp
      show "no_fail \<sigma>3" ok' if "no_fail \<sigma>" using ms 2(4) nf that by blast+
      show "slot (if ok' then put_slot ?e i ?rs else ?e) j = (if ok' \<and> j = i then Some ?rs else slot c j)"
        for j using put(2) [of j] e(2) [of j] p(3) [of j] by (cases ok') simp_all
    qed (use fr put e ne p in simp_all)
    then show ?thesis using run by blast
  qed
qed

end
