(* ===== verification/Pd_Cache.thy ===== *)
theory Pd_Cache
  imports Pd_Cent Pd_Dns Pd_Consts
begin

text \<open>
  The cache of \<open>cache.c\<close>: the operations on the entries that are in the hash table, each run under
  the lock its C counterpart takes (\<open>Pd_Lock\<close> models the lock). An entry is referred to by its
  address; the pointers \<open>rr_set_t *\<close> the code passes around are the address and the index of the
  slot. The time an operation reads with \<open>time(NULL)\<close> is the parameter \<open>now\<close>, the fields of \<open>global\<close>
  it uses are the record \<open>cconf\<close>. Log messages are not modelled.
\<close>

record cconf =
  min_ttl :: int
  max_ttl :: int
  neg_ttl :: int
  perm_cache :: int

abbreviation (input) MCSZ :: int where "MCSZ \<equiv> 10240"
abbreviation (input) RRMUINDEX_NS :: nat where "RRMUINDEX_NS \<equiv> 1"
abbreviation (input) RRMUINDEX_SOA :: nat where "RRMUINDEX_SOA \<equiv> 3"

definition init_cache :: "bool list \<Rightarrow> cache" where
  "init_cache ms = \<lparr> rrl = rrl_empty, cents = Map.empty, buckets = mk_dns_hash, cache_size = 0,
     ent_num = 0, insert_sort = True, next_id = 0, mallocs = ms \<rparr>"

definition qn :: "cache \<Rightarrow> nat \<Rightarrow> name option" where
  "qn \<sigma> a = map_option ce_qname (cents \<sigma> a)"

text \<open>Looking a name up without keeping the location, and writing an entry back.\<close>

definition lookup :: "cache \<Rightarrow> name \<Rightarrow> nat option option" where
  "lookup \<sigma> nm = do { (r, _) \<leftarrow> dns_lookup (qn \<sigma>) (buckets \<sigma>) nm; Some r }"

definition put :: "nat \<Rightarrow> dns_cent \<Rightarrow> cache \<Rightarrow> cache" where
  "put a c \<sigma> = \<sigma>\<lparr> cents := (cents \<sigma>)(a \<mapsto> c) \<rparr>"

subsection \<open>The list of RR sets\<close>

definition get_rrlent_ts :: "(nat \<rightharpoonup> dns_cent) \<Rightarrow> nat \<Rightarrow> nat option \<Rightarrow> int option" where
  "get_rrlent_ts m a idx =
     do {
       c \<leftarrow> m a;
       case idx of
         None \<Rightarrow> (case ce_body c of NegBody _ _ ts \<Rightarrow> Some ts | RRBody _ _ \<Rightarrow> None)
       | Some i \<Rightarrow> do { r \<leftarrow> RRARR_INDEX c i; rs \<leftarrow> r; Some (rs_ts rs) }
     }"

text \<open>\<open>rrs->lent=ne\<close> or \<open>cent->neg.lent=ne\<close>.\<close>

definition set_lent :: "dns_cent \<Rightarrow> nat option \<Rightarrow> nat \<Rightarrow> dns_cent option" where
  "set_lent c idx ne = (case idx of
     None \<Rightarrow> (case ce_body c of NegBody _ ttl ts \<Rightarrow> Some (c\<lparr> ce_body := NegBody (Some ne) ttl ts \<rparr>)
              | RRBody _ _ \<Rightarrow> None)
   | Some i \<Rightarrow> do { r \<leftarrow> RRARR_INDEX c i; rs \<leftarrow> r; set_rrarr c i (Some (rs\<lparr> rs_lent := Some ne \<rparr>)) })"

text \<open>\<open>insert_rrl(rrs, cent, idx)\<close>; a null \<open>rrs\<close> is the index \<open>None\<close>.\<close>

definition insert_rrl :: "nat \<Rightarrow> nat option \<Rightarrow> cache \<Rightarrow> (bool \<times> cache) option" where
  "insert_rrl a idx \<sigma> =
     do {
       c \<leftarrow> cents \<sigma> a;
       loc \<leftarrow> (case idx of None \<Rightarrow> Some False
               | Some i \<Rightarrow> do { r \<leftarrow> RRARR_INDEX c i; rs \<leftarrow> r; Some (has (rs_flags rs) CF_LOCAL) });
       if loc \<or> has (ce_flags c) DF_LOCAL then Some (True, \<sigma>)
       else do {
         let (ok, \<sigma>1) = malloc \<sigma>;
         if \<not> ok then Some (False, \<sigma>1)
         else do {
           let (ne, \<sigma>2) = new_addr \<sigma>1;
           L \<leftarrow> link_node (get_rrlent_ts (cents \<sigma>2)) (insert_sort \<sigma>2) ne
                  \<lparr> ln_next = None, ln_prev = None, ln_cent = a, ln_idx = idx \<rparr> (rrl \<sigma>2);
           c' \<leftarrow> set_lent c idx ne;
           Some (True, put a c' (\<sigma>2\<lparr> rrl := L \<rparr>))
         }
       }
     }"

subsection \<open>Deleting entries\<close>

definition del_cent :: "nat \<Rightarrow> cache \<Rightarrow> cache option" where
  "del_cent a \<sigma> =
     do {
       c \<leftarrow> cents \<sigma> a;
       \<sigma>1 \<leftarrow> free_cent c (\<sigma>\<lparr> cache_size := cache_size \<sigma> - ce_cs c \<rparr>);
       Some (\<sigma>1\<lparr> cents := (cents \<sigma>1)(a := None), ent_num := ent_num \<sigma>1 - 1 \<rparr>)
     }"

text \<open>An entry that the hash table does not have, or has under another address, is only reported.\<close>

definition del_cache_ent :: "nat \<Rightarrow> hloc option \<Rightarrow> cache \<Rightarrow> cache option" where
  "del_cache_ent a loc \<sigma> =
     do {
       t \<leftarrow> (case loc of
          Some l \<Rightarrow> do { (_, t) \<leftarrow> del_dns_hash_ent (buckets \<sigma>) l; Some t }
        | None \<Rightarrow> do { nm \<leftarrow> qn \<sigma> a; (_, t) \<leftarrow> del_dns_hash (qn \<sigma>) (buckets \<sigma>) nm; Some t });
       del_cent a (\<sigma>\<lparr> buckets := t \<rparr>)
     }"

definition del_cache :: "name \<Rightarrow> cache \<Rightarrow> cache option" where
  "del_cache nm \<sigma> =
     do {
       (r, t) \<leftarrow> del_dns_hash (qn \<sigma>) (buckets \<sigma>) nm;
       case r of None \<Rightarrow> Some (\<sigma>\<lparr> buckets := t \<rparr>) | Some a \<Rightarrow> del_cent a (\<sigma>\<lparr> buckets := t \<rparr>)
     }"

subsection \<open>Purging\<close>

text \<open>The condition under which an RR set must go.\<close>

definition stale_set :: "int \<Rightarrow> rr_set \<Rightarrow> bool" where
  "stale_set now rs = (\<not> (has (rs_flags rs) CF_NOPURGE \<or> has (rs_flags rs) CF_LOCAL) \<and> timedout now rs)"

definition del_cached_rrset :: "nat \<Rightarrow> nat \<Rightarrow> cache \<Rightarrow> cache option" where
  "del_cached_rrset a i \<sigma> =
     do {
       c \<leftarrow> cents \<sigma> a;
       (rv, c1, \<sigma>1) \<leftarrow> del_cent_rrset_by_index c i \<sigma>;
       Some (put a c1 (\<sigma>1\<lparr> cache_size := cache_size \<sigma>1 - rv \<rparr>))
     }"

definition purge_rrset :: "int \<Rightarrow> nat \<Rightarrow> nat \<Rightarrow> bool \<Rightarrow> cache \<Rightarrow> (bool \<times> cache) option" where
  "purge_rrset now a idx test \<sigma> =
     do {
       c \<leftarrow> cents \<sigma> a;
       r \<leftarrow> RRARR_INDEX_TESTEXT c idx;
       if (case r of None \<Rightarrow> False | Some rs \<Rightarrow> stale_set now rs) then
         (if test then Some (True, \<sigma>) else do { \<sigma>1 \<leftarrow> del_cached_rrset a idx \<sigma>; Some (True, \<sigma>1) })
       else Some (False, \<sigma>)
     }"

text \<open>The loop of \<open>purge_all_rrsets\<close>; its counters are \<open>rv\<close>, \<open>numrrs\<close> and \<open>numrrext\<close>.\<close>

fun purge_loop :: "int \<Rightarrow> nat \<Rightarrow> bool \<Rightarrow> nat list \<Rightarrow> int \<times> int \<times> int \<Rightarrow> cache \<Rightarrow> ((int \<times> int \<times> int) \<times> cache) option" where
  "purge_loop now a test [] n \<sigma> = Some (n, \<sigma>)"
| "purge_loop now a test (i # is) (rv, nrr, next) \<sigma> =
     do {
       c \<leftarrow> cents \<sigma> a;
       r \<leftarrow> RRARR_INDEX c i;
       case r of
         None \<Rightarrow> purge_loop now a test is (rv, nrr, next) \<sigma>
       | Some rs \<Rightarrow>
           if stale_set now rs then do {
             \<sigma>1 \<leftarrow> (if test then Some \<sigma> else del_cached_rrset a i \<sigma>);
             purge_loop now a test is (rv + 1, nrr, next) \<sigma>1
           }
           else purge_loop now a test is (rv, nrr + 1, if i \<ge> NRRMU then next + 1 else next) \<sigma>
     }"

text \<open>The array of less frequently used RR sets is freed when it has become empty.\<close>

definition free_rrext :: "nat \<Rightarrow> bool \<Rightarrow> int \<Rightarrow> int \<Rightarrow> cache \<Rightarrow> (int \<times> cache) option" where
  "free_rrext a test numrrext rv \<sigma> =
     do {
       c \<leftarrow> cents \<sigma> a;
       case ce_body c of NegBody _ _ _ \<Rightarrow> None
       | RRBody mu ext \<Rightarrow>
           if ext \<noteq> None \<and> numrrext = 0 then
             Some (rv + 1, if test then \<sigma>
               else put a (c\<lparr> ce_body := RRBody mu None, ce_cs := ce_cs c - sz_rrext \<rparr>)
                      (\<sigma>\<lparr> cache_size := cache_size \<sigma> - sz_rrext \<rparr>))
           else Some (rv, \<sigma>)
     }"

definition purge_all_rrsets :: "int \<Rightarrow> nat \<Rightarrow> bool \<Rightarrow> cache \<Rightarrow> (int \<times> int \<times> cache) option" where
  "purge_all_rrsets now a test \<sigma> =
     do {
       c \<leftarrow> cents \<sigma> a;
       if has (ce_flags c) DF_NEGATIVE then Some (0, 0, \<sigma>)
       else do {
         ilim \<leftarrow> RRARR_LEN c;
         ((rv, numrrs, numrrext), \<sigma>1) \<leftarrow> purge_loop now a test [0..<ilim] (0, 0, 0) \<sigma>;
         (rv', \<sigma>2) \<leftarrow> free_rrext a test numrrext rv \<sigma>1;
         Some (rv', numrrs, \<sigma>2)
       }
     }"

text \<open>Whether the reference \<open>c_ns\<close> or \<open>c_soa\<close> of an entry, here \<open>cn\<close>, is to an NS or SOA set that is
  missing, empty or timed out; \<open>idx\<close> is the index of the set.\<close>

definition stale_ref :: "int \<Rightarrow> dns_cent \<Rightarrow> byte \<Rightarrow> nat \<Rightarrow> cache \<Rightarrow> bool option" where
  "stale_ref now c cn idx \<sigma> =
     do {
       scnt \<leftarrow> rhnsegcnt (ce_qname c);
       r \<leftarrow> (if unat cn = scnt then GET_RRSMU c idx
             else if unat cn < scnt then do {
               nm \<leftarrow> skipsegs (ce_qname c) (scnt - unat cn);
               e \<leftarrow> lookup \<sigma> nm;
               case e of None \<Rightarrow> Some None | Some b \<Rightarrow> do { c2 \<leftarrow> cents \<sigma> b; GET_RRSMU c2 idx }
             }
             else Some None);
       Some (case r of None \<Rightarrow> True
             | Some rs \<Rightarrow> rs_rrs rs = [] \<or> (\<not> has (rs_flags rs) CF_LOCAL \<and> timedout now rs))
     }"

definition purge_ns :: "int \<Rightarrow> nat \<Rightarrow> bool \<Rightarrow> int \<Rightarrow> cache \<Rightarrow> (int \<times> cache) option" where
  "purge_ns now a test n \<sigma> =
     do {
       c \<leftarrow> cents \<sigma> a;
       if ce_ns c = cundef then Some (n, \<sigma>)
       else do {
         s \<leftarrow> stale_ref now c (ce_ns c) RRMUINDEX_NS \<sigma>;
         Some (if s then (n + 1, if test then \<sigma> else put a (c\<lparr> ce_ns := cundef \<rparr>) \<sigma>) else (n, \<sigma>))
       }
     }"

definition purge_soa :: "int \<Rightarrow> nat \<Rightarrow> bool \<Rightarrow> int \<Rightarrow> cache \<Rightarrow> (int \<times> cache) option" where
  "purge_soa now a test n \<sigma> =
     do {
       c \<leftarrow> cents \<sigma> a;
       if ce_soa c = cundef then Some (n, \<sigma>)
       else do {
         s \<leftarrow> stale_ref now c (ce_soa c) RRMUINDEX_SOA \<sigma>;
         Some (if s then (n + 1, if test then \<sigma> else put a (c\<lparr> ce_soa := cundef \<rparr>) \<sigma>) else (n, \<sigma>))
       }
     }"

text \<open>The test of \<open>purge_cent\<close> and \<open>purge_cache\<close> for an entry without RR sets that is not needed.\<close>

definition cent_dead :: "int \<Rightarrow> dns_cent \<Rightarrow> bool option" where
  "cent_dead now c =
     (if \<not> has (ce_flags c) DF_NEGATIVE then Some True
      else if has (ce_flags c) DF_LOCAL then Some False
      else timedout_nxdom now c)"

definition purge_cent :: "int \<Rightarrow> nat \<Rightarrow> bool \<Rightarrow> bool \<Rightarrow> cache \<Rightarrow> (int \<times> cache) option" where
  "purge_cent now a delete test \<sigma> =
     do {
       (npurge, numrrs, \<sigma>1) \<leftarrow> purge_all_rrsets now a test \<sigma>;
       c \<leftarrow> cents \<sigma>1 a;
       dead \<leftarrow> (if delete \<and> numrrs = 0 then cent_dead now c else Some False);
       if dead then
         (if test then Some (-1, \<sigma>1) else do { \<sigma>2 \<leftarrow> del_cache_ent a None \<sigma>1; Some (-1, \<sigma>2) })
       else if has (ce_flags c) DF_LOCAL then Some (npurge, \<sigma>1)
       else do {
         (n1, \<sigma>2) \<leftarrow> purge_ns now a test npurge \<sigma>1;
         purge_soa now a test n1 \<sigma>2
       }
     }"

text \<open>The two walks of \<open>purge_cache\<close> along the list. The next node is read before the current one may
  be freed; a walk that would read a freed node, or not end, is undefined.\<close>

definition local_node :: "dns_cent \<Rightarrow> nat option \<Rightarrow> bool option" where
  "local_node c idx =
     do {
       loc \<leftarrow> (case idx of None \<Rightarrow> Some False
               | Some i \<Rightarrow> do { r \<leftarrow> RRARR_INDEX c i; rs \<leftarrow> r; Some (has (rs_flags rs) CF_LOCAL) });
       Some (loc \<or> has (ce_flags c) DF_LOCAL)
     }"

definition purge_timedout :: "int \<Rightarrow> lnode \<Rightarrow> cache \<Rightarrow> cache option" where
  "purge_timedout now n \<sigma> =
     do {
       let a = ln_cent n;
       c \<leftarrow> cents \<sigma> a;
       loc \<leftarrow> local_node c (ln_idx n);
       if loc then Some \<sigma>
       else do {
         \<sigma>1 \<leftarrow> (case ln_idx n of None \<Rightarrow> Some \<sigma>
                | Some i \<Rightarrow> do { (_, \<sigma>1) \<leftarrow> purge_rrset now a i False \<sigma>; Some \<sigma>1 });
         c1 \<leftarrow> cents \<sigma>1 a;
         dead \<leftarrow> (if ce_num c1 = 0 then cent_dead now c1 else Some False);
         if dead then del_cache_ent a None \<sigma>1 else Some \<sigma>1
       }
     }"

partial_function (option) purge_walk1 :: "int \<Rightarrow> int \<Rightarrow> bool \<Rightarrow> nat option \<Rightarrow> cache \<Rightarrow> cache option" where
  "purge_walk1 now sz lazy le \<sigma> =
     (if le = None \<or> \<not> (\<not> lazy \<or> cache_size \<sigma> > sz) then Some \<sigma>
      else do {
        n \<leftarrow> rl_mem (rrl \<sigma>) (the le);
        \<sigma>1 \<leftarrow> purge_timedout now n \<sigma>;
        purge_walk1 now sz lazy (ln_next n) \<sigma>1
      })"

declare purge_walk1.simps [code]

definition purge_oldest :: "lnode \<Rightarrow> cache \<Rightarrow> cache option" where
  "purge_oldest n \<sigma> =
     do {
       let a = ln_cent n;
       c \<leftarrow> cents \<sigma> a;
       loc \<leftarrow> local_node c (ln_idx n);
       if loc then Some \<sigma>
       else do {
         \<sigma>1 \<leftarrow> (case ln_idx n of None \<Rightarrow> Some \<sigma> | Some i \<Rightarrow> del_cached_rrset a i \<sigma>);
         c1 \<leftarrow> cents \<sigma>1 a;
         if ce_num c1 = 0 then del_cache_ent a None \<sigma>1 else Some \<sigma>1
       }
     }"

partial_function (option) purge_walk2 :: "int \<Rightarrow> nat option \<Rightarrow> cache \<Rightarrow> cache option" where
  "purge_walk2 sz le \<sigma> =
     (if le = None \<or> \<not> cache_size \<sigma> > sz then Some \<sigma>
      else do {
        n \<leftarrow> rl_mem (rrl \<sigma>) (the le);
        \<sigma>1 \<leftarrow> purge_oldest n \<sigma>;
        purge_walk2 sz (ln_next n) \<sigma>1
      })"

declare purge_walk2.simps [code]

definition sort_list :: "cache \<Rightarrow> cache option" where
  "sort_list \<sigma> =
     (if insert_sort \<sigma> then Some \<sigma>
      else do {
        L \<leftarrow> sort_rrl (get_rrlent_ts (cents \<sigma>)) (rrl \<sigma>);
        Some (\<sigma>\<lparr> rrl := L, insert_sort := True \<rparr>)
      })"

definition purge_cache :: "int \<Rightarrow> int \<Rightarrow> bool \<Rightarrow> cache \<Rightarrow> cache option" where
  "purge_cache now sz lazy \<sigma> =
     do {
       \<sigma>1 \<leftarrow> purge_walk1 now sz lazy (rl_first (rrl \<sigma>)) \<sigma>;
       if cache_size \<sigma>1 \<le> sz then Some \<sigma>1
       else do {
         \<sigma>2 \<leftarrow> sort_list \<sigma>1;
         purge_walk2 sz (rl_first (rrl \<sigma>2)) \<sigma>2
       }
     }"


subsection \<open>Adding to the cache\<close>

text \<open>The time to live, set when an entry enters the cache: the new value and flags.\<close>

definition adjusted_ttl :: "cconf \<Rightarrow> bool \<Rightarrow> int \<Rightarrow> int" where
  "adjusted_ttl conf negative ttl =
     (let mn = (if negative \<and> neg_ttl conf < min_ttl conf then neg_ttl conf else min_ttl conf) in
      if ttl < mn then mn else if ttl > max_ttl conf then max_ttl conf else ttl)"

definition adjust_ttl :: "cconf \<Rightarrow> rr_set \<Rightarrow> rr_set" where
  "adjust_ttl conf rs =
     (if has (rs_flags rs) CF_NOCACHE then
        rs\<lparr> rs_flags := rs_flags rs AND NOT CF_NOCACHE, rs_ttl := 0 \<rparr>
      else rs\<lparr> rs_ttl := adjusted_ttl conf (has (rs_flags rs) CF_NEGATIVE) (rs_ttl rs) \<rparr>)"

definition adjust_dom_ttl :: "cconf \<Rightarrow> dns_cent \<Rightarrow> dns_cent option" where
  "adjust_dom_ttl conf c = (case ce_body c of RRBody _ _ \<Rightarrow> None
     | NegBody le ttl ts \<Rightarrow>
         if has (ce_flags c) DF_NOCACHE then
           Some (c\<lparr> ce_flags := ce_flags c AND NOT DF_NOCACHE, ce_body := NegBody le 0 ts \<rparr>)
         else Some (c\<lparr> ce_body := NegBody le (adjusted_ttl conf True ttl) ts \<rparr>))"

text \<open>Conflict resolution. The first loop counts the conflicting RR sets and sums their remaining
  times to live; a local one ends it (\<open>None\<close> inside). The second loop deletes them.\<close>

definition conflicting :: "nat \<Rightarrow> nat \<Rightarrow> rr_set \<Rightarrow> bool" where
  "conflicting idx i rs = (\<not> has (rs_flags rs) CF_NEGATIVE \<and> rr_conflict idx i)"

fun cr_scan :: "int \<Rightarrow> dns_cent \<Rightarrow> nat \<Rightarrow> nat list \<Rightarrow> int \<times> int \<Rightarrow> (int \<times> int) option option" where
  "cr_scan now c idx [] s = Some (Some s)"
| "cr_scan now c idx (i # is) (ncf, nttl) =
     do {
       r \<leftarrow> RRARR_INDEX c i;
       case r of
         None \<Rightarrow> cr_scan now c idx is (ncf, nttl)
       | Some rs \<Rightarrow>
           if conflicting idx i rs then
             (if has (rs_flags rs) CF_LOCAL then Some None
              else let rttl = rs_ttl rs + rs_ts rs - now in
                cr_scan now c idx is (ncf + 1, if rttl > 0 then nttl + rttl else nttl))
           else cr_scan now c idx is (ncf, nttl)
     }"

fun cr_delete :: "nat \<Rightarrow> nat list \<Rightarrow> dns_cent \<Rightarrow> cache \<Rightarrow> (dns_cent \<times> cache) option" where
  "cr_delete idx [] c \<sigma> = Some (c, \<sigma>)"
| "cr_delete idx (i # is) c \<sigma> =
     do {
       r \<leftarrow> RRARR_INDEX c i;
       if (case r of None \<Rightarrow> False | Some rs \<Rightarrow> conflicting idx i rs) then do {
         (_, c1, \<sigma>1) \<leftarrow> del_cent_rrset_by_index c i \<sigma>;
         cr_delete idx is c1 \<sigma>1
       }
       else cr_delete idx is c \<sigma>
     }"

text \<open>What the checks before the deletion decide: \<open>Inl b\<close> is a return of \<open>b\<close>, \<open>Inr nttl\<close> goes on
  with the medium remaining time to live of the conflicting records.\<close>

definition cr_decide :: "int \<Rightarrow> dns_cent \<Rightarrow> nat \<Rightarrow> u16 \<Rightarrow> (bool + int) option" where
  "cr_decide now c idx fl =
     (if has fl CF_NEGATIVE then Some (Inl True)
      else do {
        must (idx < NRRTOT);
        if has fl CF_LOCAL then Some (Inr 0)
        else if has (ce_flags c) DF_LOCAL then Some (Inl False)
        else do {
          ilim \<leftarrow> RRARR_LEN c;
          s \<leftarrow> cr_scan now c idx [0..<ilim] (0, 0);
          Some (case s of None \<Rightarrow> Inl False
                | Some (ncf, nttl) \<Rightarrow> if ncf = 0 then Inl True else Inr (nttl div ncf))
        }
      })"

definition cr_check_add ::
    "int \<Rightarrow> dns_cent \<Rightarrow> nat \<Rightarrow> int \<Rightarrow> int \<Rightarrow> u16 \<Rightarrow> cache \<Rightarrow> (bool \<times> dns_cent \<times> cache) option" where
  "cr_check_add now c idx ttl ts fl \<sigma> =
     do {
       d \<leftarrow> cr_decide now c idx fl;
       case d of
         Inl b \<Rightarrow> Some (b, c, \<sigma>)
       | Inr nttl \<Rightarrow>
           if has fl CF_LOCAL \<or> ttl > nttl then do {
             ilim \<leftarrow> RRARR_LEN c;
             (c1, \<sigma>1) \<leftarrow> cr_delete idx [0..<ilim] c \<sigma>;
             Some (True, c1, \<sigma>1)
           }
           else Some (False, c, \<sigma>)
     }"

text \<open>The branch of \<open>add_cache\<close> for a name that is not in the cache: the RR sets of the copy enter the
  list one after the other, the copy enters the table. \<open>None\<close> inside stands for the exit that frees
  the copy when an allocation failed.\<close>

fun link_new :: "cconf \<Rightarrow> nat \<Rightarrow> nat list \<Rightarrow> cache \<Rightarrow> (bool \<times> cache) option" where
  "link_new conf a [] \<sigma> = Some (True, \<sigma>)"
| "link_new conf a (i # is) \<sigma> =
     do {
       c \<leftarrow> cents \<sigma> a;
       r \<leftarrow> RRARR_INDEX c i;
       case r of
         None \<Rightarrow> link_new conf a is \<sigma>
       | Some rs \<Rightarrow> do {
           c1 \<leftarrow> set_rrarr c i (Some (adjust_ttl conf rs));
           (ok, \<sigma>1) \<leftarrow> insert_rrl a (Some i) (put a c1 \<sigma>);
           if ok then link_new conf a is \<sigma>1 else Some (False, \<sigma>1)
         }
     }"

definition drop_new :: "nat \<Rightarrow> cache \<Rightarrow> cache option" where
  "drop_new a \<sigma> =
     do { c \<leftarrow> cents \<sigma> a; \<sigma>1 \<leftarrow> free_cent c \<sigma>; Some (\<sigma>1\<lparr> cents := (cents \<sigma>1)(a := None) \<rparr>) }"

definition add_new :: "cconf \<Rightarrow> dns_cent \<Rightarrow> hloc \<Rightarrow> cache \<Rightarrow> (nat option \<times> cache) option" where
  "add_new conf c loc \<sigma> =
     do {
       (cp, \<sigma>1) \<leftarrow> copy_cent c \<sigma>;
       case cp of
         None \<Rightarrow> Some (None, \<sigma>1)
       | Some ce \<Rightarrow> do {
           let (a, \<sigma>2) = new_addr \<sigma>1;
           (ok, \<sigma>3) \<leftarrow> (if \<not> has (ce_flags ce) DF_NEGATIVE then do {
               ilim \<leftarrow> RRARR_LEN ce;
               link_new conf a [0..<ilim] (put a ce \<sigma>2)
             }
             else do { ce1 \<leftarrow> adjust_dom_ttl conf ce; insert_rrl a None (put a ce1 \<sigma>2) });
           if \<not> ok then do { \<sigma>4 \<leftarrow> drop_new a \<sigma>3; Some (None, \<sigma>4) }
           else do {
             let (mok, \<sigma>4) = malloc \<sigma>3;
             (ok', t) \<leftarrow> add_dns_hash (buckets \<sigma>4) a loc mok;
             if \<not> ok' then do { \<sigma>5 \<leftarrow> drop_new a \<sigma>4; Some (None, \<sigma>5) }
             else Some (Some a, \<sigma>4\<lparr> buckets := t, ent_num := ent_num \<sigma>4 + 1 \<rparr>)
           }
         }
     }"

text \<open>The test whether the RR set \<open>old\<close> in the cache has precedence over the new one.\<close>

definition keep_old :: "int \<Rightarrow> rr_set \<Rightarrow> rr_set \<Rightarrow> bool" where
  "keep_old now new old =
     ((\<not> has (rs_flags new) CF_LOCAL \<and> has (rs_flags old) CF_LOCAL) \<or>
      (has (rs_flags new) CF_ADDITIONAL \<and>
         (\<not> has (rs_flags old) CF_ADDITIONAL \<or>
          (\<not> has (rs_flags new) CF_ROOTSERV \<and> has (rs_flags old) CF_ROOTSERV)) \<and>
       \<not> timedout now old))"

text \<open>The records of the new RR set are appended; on a failure the ones before stay.\<close>

fun add_rrs :: "nat \<Rightarrow> rr_set \<Rightarrow> byte list list \<Rightarrow> nat option \<Rightarrow> dns_cent \<Rightarrow> cache \<Rightarrow> (bool \<times> dns_cent \<times> cache) option" where
  "add_rrs i new [] rtail c \<sigma> = Some (True, c, \<sigma>)"
| "add_rrs i new (d # ds) rtail c \<sigma> =
     do {
       (ok, rtail', c1, \<sigma>1) \<leftarrow> add_cent_rr_int c i (rs_ttl new) (rs_ts new) (rs_flags new) d rtail \<sigma>;
       if ok then add_rrs i new ds rtail' c1 \<sigma>1 else Some (False, c1, \<sigma>1)
     }"

text \<open>\<open>cleanup_cent_unlock_cache_return\<close>: the half-built RR set is deleted.\<close>

definition cleanup_set :: "nat \<Rightarrow> nat \<Rightarrow> cache \<Rightarrow> (bool \<times> cache) option" where
  "cleanup_set a i \<sigma> =
     do {
       c \<leftarrow> cents \<sigma> a;
       (_, c1, \<sigma>1) \<leftarrow> del_cent_rrset_by_index c i \<sigma>;
       Some (False, put a c1 \<sigma>1)
     }"

definition replace_set :: "int \<Rightarrow> cconf \<Rightarrow> nat \<Rightarrow> nat \<Rightarrow> rr_set \<Rightarrow> cache \<Rightarrow> (bool \<times> cache) option" where
  "replace_set now conf a i new \<sigma> =
     do {
       ce \<leftarrow> cents \<sigma> a;
       (_, ce1, \<sigma>1) \<leftarrow> del_cent_rrset_by_index ce i \<sigma>;
       (ok, ce2, \<sigma>2) \<leftarrow> cr_check_add now ce1 i (rs_ttl new) (rs_ts new) (rs_flags new) \<sigma>1;
       if \<not> ok then Some (True, put a ce2 \<sigma>2)
       else do {
         (ok1, ce3, \<sigma>3) \<leftarrow> add_cent_rrset_by_index ce2 i (rs_ttl new) (rs_ts new) (rs_flags new) \<sigma>2;
         if \<not> ok1 then Some (False, put a ce3 \<sigma>3)
         else do {
           (ok2, ce4, \<sigma>4) \<leftarrow> add_rrs i new (rs_rrs new) None ce3 \<sigma>3;
           if \<not> ok2 then cleanup_set a i (put a ce4 \<sigma>4)
           else do {
             r \<leftarrow> RRARR_INDEX ce4 i;
             rs \<leftarrow> r;
             ce5 \<leftarrow> set_rrarr ce4 i (Some (adjust_ttl conf rs));
             (ok3, \<sigma>5) \<leftarrow> insert_rrl a (Some i) (put a ce5 \<sigma>4);
             if ok3 then Some (True, \<sigma>5) else cleanup_set a i \<sigma>5
           }
         }
       }
     }"

fun merge_sets :: "int \<Rightarrow> cconf \<Rightarrow> nat \<Rightarrow> dns_cent \<Rightarrow> nat list \<Rightarrow> cache \<Rightarrow> (bool \<times> cache) option" where
  "merge_sets now conf a c [] \<sigma> = Some (True, \<sigma>)"
| "merge_sets now conf a c (i # is) \<sigma> =
     do {
       r \<leftarrow> RRARR_INDEX c i;
       case r of
         None \<Rightarrow> merge_sets now conf a c is \<sigma>
       | Some new \<Rightarrow> do {
           ce \<leftarrow> cents \<sigma> a;
           old \<leftarrow> RRARR_INDEX_TESTEXT ce i;
           if (case old of None \<Rightarrow> False | Some rs \<Rightarrow> keep_old now new rs)
           then merge_sets now conf a c is \<sigma>
           else do {
             (ok, \<sigma>1) \<leftarrow> replace_set now conf a i new \<sigma>;
             if ok then merge_sets now conf a c is \<sigma>1 else Some (False, \<sigma>1)
           }
         }
     }"

text \<open>The new value of \<open>c_ns\<close> or \<open>c_soa\<close>, and the fields of the entry that are merged.\<close>

definition merge_ref :: "byte \<Rightarrow> byte \<Rightarrow> byte" where
  "merge_ref old new = (if new \<noteq> cundef \<and> (old = cundef \<or> old < new) then new else old)"

definition merge_fields :: "dns_cent \<Rightarrow> dns_cent \<Rightarrow> dns_cent" where
  "merge_fields ce c = ce\<lparr> ce_flags := ce_flags ce OR (ce_flags c AND (DF_AUTH OR DF_WILD)),
     ce_ns := merge_ref (ce_ns ce) (ce_ns c), ce_soa := merge_ref (ce_soa ce) (ce_soa c) \<rparr>"

text \<open>The branch for a name that is in the cache.\<close>

definition add_known :: "int \<Rightarrow> cconf \<Rightarrow> dns_cent \<Rightarrow> nat \<Rightarrow> cache \<Rightarrow> (bool \<times> cache) option" where
  "add_known now conf c a \<sigma> =
     do {
       (_, \<sigma>1) \<leftarrow> purge_cent now a False False \<sigma>;
       ce \<leftarrow> cents \<sigma>1 a;
       ilim \<leftarrow> RRARR_LEN c;
       (ok, \<sigma>2) \<leftarrow> merge_sets now conf a c [0..<ilim] (\<sigma>1\<lparr> cache_size := cache_size \<sigma>1 - ce_cs ce \<rparr>);
       ce1 \<leftarrow> cents \<sigma>2 a;
       if ok then do {
         let \<sigma>3 = put a (merge_fields ce1 c) \<sigma>2;
         Some (True, \<sigma>3\<lparr> cache_size := cache_size \<sigma>3 + ce_cs ce1 \<rparr>)
       }
       else Some (False, \<sigma>2\<lparr> cache_size := cache_size \<sigma>2 + ce_cs ce1 \<rparr>)
     }"

text \<open>Whether an entry has an RR set with a flag, in the loop that protects local records.\<close>

fun any_set :: "u16 \<Rightarrow> dns_cent \<Rightarrow> nat list \<Rightarrow> bool option" where
  "any_set m c [] = Some False"
| "any_set m c (i # is) =
     do {
       r \<leftarrow> RRARR_INDEX c i;
       if (case r of None \<Rightarrow> False | Some rs \<Rightarrow> has (rs_flags rs) m) then Some True else any_set m c is
     }"

definition purge_to_limit :: "int \<Rightarrow> cconf \<Rightarrow> cache \<Rightarrow> cache option" where
  "purge_to_limit now conf \<sigma> = purge_cache now (perm_cache conf * 1024 + MCSZ) True \<sigma>"

partial_function (option) add_cache :: "int \<Rightarrow> cconf \<Rightarrow> dns_cent \<Rightarrow> cache \<Rightarrow> cache option" where
  "add_cache now conf c \<sigma> =
     do {
       (r, loc) \<leftarrow> dns_lookup (qn \<sigma>) (buckets \<sigma>) (ce_qname c);
       if r = None then
         (if ce_num c = 0 \<and> \<not> has (ce_flags c) DF_NEGATIVE then purge_to_limit now conf \<sigma>
          else do {
            (a, \<sigma>1) \<leftarrow> add_new conf c loc \<sigma>;
            if a = None then Some \<sigma>1
            else do {
              ce \<leftarrow> cents \<sigma>1 (the a);
              purge_to_limit now conf (\<sigma>1\<lparr> cache_size := cache_size \<sigma>1 + ce_cs ce \<rparr>)
            }
          })
       else do {
         ce \<leftarrow> cents \<sigma> (the r);
         if has (ce_flags c) DF_NEGATIVE then do {
           ilim \<leftarrow> RRARR_LEN ce;
           loc_found \<leftarrow> any_set CF_LOCAL ce [0..<ilim];
           if loc_found then Some \<sigma>
           else do {
             \<sigma>1 \<leftarrow> del_cache_ent (the r) (Some loc) \<sigma>;
             add_cache now conf c \<sigma>1
           }
         }
         else do {
           (ok, \<sigma>1) \<leftarrow> add_known now conf c (the r) \<sigma>;
           if ok then purge_to_limit now conf \<sigma>1 else Some \<sigma>1
         }
       }
     }"

declare add_cache.simps [code]

text \<open>The reverse records of the addresses of an entry: for one address the entry of the PTR record is
  built and added; \<open>rrmu[NS]\<close> and \<open>rrmu[SOA]\<close> are shared with the entry while it is added.\<close>

definition share_ns_soa :: "dns_cent \<Rightarrow> dns_cent \<Rightarrow> dns_cent option" where
  "share_ns_soa ce c = (case (ce_body ce, ce_body c) of
     (RRBody mu ext, RRBody cmu _) \<Rightarrow>
       Some (ce\<lparr> ce_body := RRBody (mu[RRMUINDEX_NS := cmu ! RRMUINDEX_NS, RRMUINDEX_SOA := cmu ! RRMUINDEX_SOA]) ext \<rparr>)
   | _ \<Rightarrow> None)"

definition add_ptr :: "int \<Rightarrow> cconf \<Rightarrow> dns_cent \<Rightarrow> rr_set \<Rightarrow> int \<Rightarrow> byte list \<Rightarrow> cache \<Rightarrow> (bool \<times> cache) option" where
  "add_ptr now conf c rs tp addr \<sigma> =
     do {
       (ok, buf) \<leftarrow> a2ptrstr addr tp (replicate DNSNAMEBUFSIZE 0);
       if \<not> ok then Some (False, \<sigma>)
       else do {
         (ok1, rhn) \<leftarrow> str2rhn buf (replicate DNSNAMEBUFSIZE 0);
         if \<not> ok1 then Some (False, \<sigma>)
         else do {
           (r, \<sigma>1) \<leftarrow> init_cent rhn 0 0 (ce_flags c) \<sigma>;
           if r = None then Some (False, \<sigma>1)
           else do {
             len \<leftarrow> rhnlen (ce_qname c);
             nm \<leftarrow> rdn (ce_qname c) 0 len;
             (ok2, ce, \<sigma>2) \<leftarrow> add_cent_rr (the r) T_PTR (rs_ttl rs) (rs_ts rs) (rs_flags rs) nm \<sigma>1;
             if \<not> ok2 then do { \<sigma>3 \<leftarrow> free_cent ce \<sigma>2; Some (False, \<sigma>3) }
             else do {
               ce' \<leftarrow> share_ns_soa ce c;
               \<sigma>3 \<leftarrow> add_cache now conf ce' \<sigma>2;
               \<sigma>4 \<leftarrow> free_cent ce \<sigma>3;
               Some (True, \<sigma>4)
             }
           }
         }
       }
     }"

fun add_ptrs :: "int \<Rightarrow> cconf \<Rightarrow> dns_cent \<Rightarrow> rr_set \<Rightarrow> int \<Rightarrow> byte list list \<Rightarrow> cache \<Rightarrow> (bool \<times> cache) option" where
  "add_ptrs now conf c rs tp [] \<sigma> = Some (True, \<sigma>)"
| "add_ptrs now conf c rs tp (d # ds) \<sigma> =
     do {
       (ok, \<sigma>1) \<leftarrow> add_ptr now conf c rs tp d \<sigma>;
       if ok then add_ptrs now conf c rs tp ds \<sigma>1 else Some (False, \<sigma>1)
     }"

definition add_reverse_cache :: "int \<Rightarrow> cconf \<Rightarrow> dns_cent \<Rightarrow> cache \<Rightarrow> (bool \<times> cache) option" where
  "add_reverse_cache now conf c \<sigma> =
     do {
       r4 \<leftarrow> GET_RRSMU c 0;
       (ok, \<sigma>1) \<leftarrow> (case r4 of None \<Rightarrow> Some (True, \<sigma>) | Some rs \<Rightarrow> add_ptrs now conf c rs T_A (rs_rrs rs) \<sigma>);
       if \<not> ok then Some (False, \<sigma>1)
       else do {
         r6 \<leftarrow> GET_RRSMU c 7;
         (case r6 of None \<Rightarrow> Some (True, \<sigma>1) | Some rs \<Rightarrow> add_ptrs now conf c rs T_AAAA (rs_rrs rs) \<sigma>1)
       }
     }"


text \<open>\<open>add_host\<close> (\<open>dns.c\<close>): the records of one host of a hosts file. The result is 1, 0 when memory ran
  out, or -1 when there was a problem with the data.\<close>

definition add_host_cent ::
    "int \<Rightarrow> cconf \<Rightarrow> name \<Rightarrow> int \<Rightarrow> byte list \<Rightarrow> name \<Rightarrow> int \<Rightarrow> u16 \<Rightarrow> cache \<Rightarrow> (bool \<times> cache) option" where
  "add_host_cent now conf nm tp data rns ttl fl \<sigma> =
     do {
       (r, \<sigma>1) \<leftarrow> init_cent nm 0 0 fl \<sigma>;
       if r = None then Some (False, \<sigma>1)
       else do {
         (ok, ce, \<sigma>2) \<leftarrow> add_cent_rr (the r) tp ttl 0 CF_LOCAL data \<sigma>1;
         if \<not> ok then do { \<sigma>3 \<leftarrow> free_cent ce \<sigma>2; Some (False, \<sigma>3) }
         else do {
           len \<leftarrow> rhnlen rns;
           ns \<leftarrow> rdn rns 0 len;
           (ok1, ce1, \<sigma>3) \<leftarrow> add_cent_rr ce T_NS ttl 0 CF_LOCAL ns \<sigma>2;
           if \<not> ok1 then do { \<sigma>4 \<leftarrow> free_cent ce1 \<sigma>3; Some (False, \<sigma>4) }
           else do {
             \<sigma>4 \<leftarrow> add_cache now conf ce1 \<sigma>3;
             \<sigma>5 \<leftarrow> free_cent ce1 \<sigma>4;
             Some (True, \<sigma>5)
           }
         }
       }
     }"

definition add_host ::
    "int \<Rightarrow> cconf \<Rightarrow> name \<Rightarrow> name \<Rightarrow> byte list \<Rightarrow> int \<Rightarrow> nat \<Rightarrow> int \<Rightarrow> u16 \<Rightarrow> bool \<Rightarrow> cache \<Rightarrow> (int \<times> cache) option" where
  "add_host now conf pn rns addr tp a_sz ttl fl reverse \<sigma> =
     do {
       data \<leftarrow> rdn addr 0 a_sz;
       (ok, \<sigma>1) \<leftarrow> add_host_cent now conf pn tp data rns ttl fl \<sigma>;
       if \<not> ok then Some (0, \<sigma>1)
       else if \<not> reverse then Some (1, \<sigma>1)
       else do {
         (ok1, b2) \<leftarrow> a2ptrstr addr tp (replicate DNSNAMEBUFSIZE 0);
         if \<not> ok1 then Some (-1, \<sigma>1)
         else do {
           (ok2, rhn) \<leftarrow> str2rhn b2 (replicate DNSNAMEBUFSIZE 0);
           if \<not> ok2 then Some (-1, \<sigma>1)
           else do {
             len \<leftarrow> rhnlen pn;
             nm \<leftarrow> rdn pn 0 len;
             (ok3, \<sigma>2) \<leftarrow> add_host_cent now conf rhn T_PTR nm rns ttl fl \<sigma>1;
             Some (if ok3 then 1 else 0, \<sigma>2)
           }
         }
       }
     }"

subsection \<open>Changing entries in place\<close>

fun invalidate_slots :: "nat list \<Rightarrow> dns_cent \<Rightarrow> dns_cent option" where
  "invalidate_slots [] c = Some c"
| "invalidate_slots (i # is) c =
     do {
       r \<leftarrow> RRARR_INDEX c i;
       case r of
         None \<Rightarrow> invalidate_slots is c
       | Some rs \<Rightarrow> do {
           c1 \<leftarrow> set_rrarr c i (Some (rs\<lparr> rs_ts := 0, rs_flags := rs_flags rs AND NOT CF_AUTH \<rparr>));
           invalidate_slots is c1
         }
     }"

definition invalidate_record :: "name \<Rightarrow> cache \<Rightarrow> cache option" where
  "invalidate_record nm \<sigma> =
     do {
       r \<leftarrow> lookup \<sigma> nm;
       case r of None \<Rightarrow> Some \<sigma>
       | Some a \<Rightarrow> do {
           c \<leftarrow> cents \<sigma> a;
           c1 \<leftarrow> (if \<not> has (ce_flags c) DF_NEGATIVE then do { ilim \<leftarrow> RRARR_LEN c; invalidate_slots [0..<ilim] c }
                  else (case ce_body c of NegBody le ttl _ \<Rightarrow> Some (c\<lparr> ce_body := NegBody le ttl 0 \<rparr>)
                        | RRBody _ _ \<Rightarrow> None));
           Some (put a (c1\<lparr> ce_flags := ce_flags c1 AND NOT DF_AUTH \<rparr>) \<sigma>)
         }
     }"

definition set_cent_flags :: "name \<Rightarrow> u16 \<Rightarrow> cache \<Rightarrow> (bool \<times> cache) option" where
  "set_cent_flags nm fl \<sigma> =
     do {
       r \<leftarrow> lookup \<sigma> nm;
       case r of None \<Rightarrow> Some (False, \<sigma>)
       | Some a \<Rightarrow> do { c \<leftarrow> cents \<sigma> a; Some (True, put a (c\<lparr> ce_flags := ce_flags c OR fl \<rparr>) \<sigma>) }
     }"

subsection \<open>Looking up\<close>

text \<open>The walk up the name hierarchy of \<open>getlocalowner\<close>: the suffix of the name that is the owner.\<close>

function local_up :: "int \<Rightarrow> cache \<Rightarrow> name \<Rightarrow> name option option" where
  "local_up tp \<sigma> nm =
     do {
       lb \<leftarrow> rd nm 0;
       if lb = 0 then Some None
       else do {
         nm1 \<leftarrow> adv nm (unat lb + 1);
         lb1 \<leftarrow> rd nm1 0;
         if lb1 = 0 then Some None
         else do {
           r \<leftarrow> lookup \<sigma> nm1;
           case r of None \<Rightarrow> local_up tp \<sigma> nm1
           | Some a \<Rightarrow> do {
               c \<leftarrow> cents \<sigma> a;
               if \<not> has (ce_flags c) DF_LOCAL then Some None
               else do { h \<leftarrow> have_rr c tp; if h then Some (Some nm1) else local_up tp \<sigma> nm1 }
             }
         }
       }
     }"
  by pat_completeness auto
termination
  by (relation "measure (\<lambda>(tp, \<sigma>, nm). length nm)") (auto simp: adv_def rd_Some_iff split: if_splits)

declare local_up.simps [simp del]

definition getlocalowner :: "name \<Rightarrow> int \<Rightarrow> cache \<Rightarrow> name option option" where
  "getlocalowner nm tp \<sigma> = local_up tp \<sigma> nm"

abbreviation (input) w_wild :: int where "w_wild \<equiv> 1"
abbreviation (input) w_neg :: int where "w_neg \<equiv> 2"
abbreviation (input) w_locnerr :: int where "w_locnerr \<equiv> 3"

text \<open>The search up the hierarchy that \<open>lookup_cache\<close> makes when \<open>wild\<close> is not null and the name is not
  in the cache: the entry to use and the value of \<open>*wild\<close>.\<close>

definition wild_entry :: "cache \<Rightarrow> name \<Rightarrow> nat \<Rightarrow> (nat option \<times> int) option" where
  "wild_entry \<sigma> nm a =
     do {
       c \<leftarrow> cents \<sigma> a;
       if has (ce_flags c) DF_NEGATIVE then Some (Some a, w_neg)
       else if has (ce_flags c) DF_WILD then do {
         (_, rest) \<leftarrow> rhncpy (replicate (DNSNAMEBUFSIZE - 2) 0) nm;
         r \<leftarrow> lookup \<sigma> (1 # 42 # rest);
         Some (r, if r \<noteq> None then w_wild else 0)
       }
       else if has (ce_flags c) DF_LOCAL then Some (Some a, w_locnerr)
       else Some (None, 0)
     }"

function wild_up :: "cache \<Rightarrow> name \<Rightarrow> (nat option \<times> int) option" where
  "wild_up \<sigma> nm =
     do {
       lb \<leftarrow> rd nm 0;
       if lb = 0 then Some (None, 0)
       else do {
         nm1 \<leftarrow> adv nm (unat lb + 1);
         lb1 \<leftarrow> rd nm1 0;
         if lb1 = 0 then Some (None, 0)
         else do {
           r \<leftarrow> lookup \<sigma> nm1;
           case r of None \<Rightarrow> wild_up \<sigma> nm1 | Some a \<Rightarrow> wild_entry \<sigma> nm1 a
         }
       }
     }"
  by pat_completeness auto
termination
  by (relation "measure (\<lambda>(\<sigma>, nm). length nm)") (auto simp: adv_def rd_Some_iff split: if_splits)

declare wild_up.simps [simp del]

definition find_cent :: "name \<Rightarrow> bool \<Rightarrow> cache \<Rightarrow> (nat option \<times> int) option" where
  "find_cent nm wild \<sigma> =
     do {
       r \<leftarrow> lookup \<sigma> nm;
       if wild \<and> r = None then wild_up \<sigma> nm else Some (r, 0)
     }"

text \<open>The part under the read lock: either the copy to return (\<open>Inl\<close>), or there is something to
  purge and the part under the write lock has to do it.\<close>

definition lookup_read :: "int \<Rightarrow> name \<Rightarrow> bool \<Rightarrow> cache \<Rightarrow> ((dns_cent option + unit) \<times> int \<times> cache) option" where
  "lookup_read now nm wild \<sigma> =
     do {
       (r, w) \<leftarrow> find_cent nm wild \<sigma>;
       case r of
         None \<Rightarrow> Some (Inl None, w, \<sigma>)
       | Some a \<Rightarrow> do {
           (purge, _) \<leftarrow> purge_cent now a True True \<sigma>;
           if purge \<noteq> 0 then Some (Inr (), w, \<sigma>)
           else do {
             c \<leftarrow> cents \<sigma> a;
             (cp, \<sigma>1) \<leftarrow> copy_cent c \<sigma>;
             Some (Inl cp, w, \<sigma>1)
           }
         }
     }"

definition lookup_write :: "int \<Rightarrow> name \<Rightarrow> bool \<Rightarrow> cache \<Rightarrow> (dns_cent option \<times> int \<times> cache) option" where
  "lookup_write now nm wild \<sigma> =
     do {
       (r, w) \<leftarrow> find_cent nm wild \<sigma>;
       case r of
         None \<Rightarrow> Some (None, w, \<sigma>)
       | Some a \<Rightarrow> do {
           (purge, \<sigma>1) \<leftarrow> purge_cent now a True False \<sigma>;
           if purge < 0 then Some (None, w, \<sigma>1)
           else do {
             c \<leftarrow> cents \<sigma>1 a;
             (cp, \<sigma>2) \<leftarrow> copy_cent c \<sigma>1;
             Some (cp, w, \<sigma>2)
           }
         }
     }"

text \<open>Between the two parts the lock is free: \<open>others\<close> is what other threads do to the cache then.\<close>

definition lookup_cache ::
    "int \<Rightarrow> int \<Rightarrow> (cache \<Rightarrow> cache) \<Rightarrow> name \<Rightarrow> bool \<Rightarrow> cache \<Rightarrow> (dns_cent option \<times> int \<times> cache) option" where
  "lookup_cache t1 t2 others nm wild \<sigma> =
     do {
       (r, w, \<sigma>1) \<leftarrow> lookup_read t1 nm wild \<sigma>;
       case r of Inl cp \<Rightarrow> Some (cp, w, \<sigma>1) | Inr _ \<Rightarrow> lookup_write t2 nm wild (others \<sigma>1)
     }"

definition lookup_cache_local_rrset :: "name \<Rightarrow> int \<Rightarrow> cache \<Rightarrow> (rr_set option \<times> cache) option" where
  "lookup_cache_local_rrset nm tp \<sigma> =
     do {
       e \<leftarrow> lookup \<sigma> nm;
       case e of
         None \<Rightarrow> Some (None, \<sigma>)
       | Some a \<Rightarrow> do {
           c \<leftarrow> cents \<sigma> a;
           r \<leftarrow> getrrset c tp;
           case r of
             None \<Rightarrow> Some (None, \<sigma>)
           | Some rs \<Rightarrow> if has (rs_flags rs) CF_LOCAL then copy_rrset rs \<sigma> else Some (None, \<sigma>)
         }
     }"

subsection \<open>Emptying the cache\<close>

text \<open>The functions of \<open>hash.c\<close> that delete entries bucket by bucket.\<close>

fun free_chain :: "hent list \<Rightarrow> cache \<Rightarrow> cache option" where
  "free_chain [] \<sigma> = Some \<sigma>"
| "free_chain (he # hs) \<sigma> = do { \<sigma>1 \<leftarrow> del_cent (snd he) \<sigma>; free_chain hs \<sigma>1 }"

definition free_dns_hash_bucket :: "nat \<Rightarrow> cache \<Rightarrow> cache option" where
  "free_dns_hash_bucket i \<sigma> =
     do {
       chain \<leftarrow> rd (buckets \<sigma>) i;
       t \<leftarrow> wr (buckets \<sigma>) i [];
       free_chain chain (\<sigma>\<lparr> buckets := t \<rparr>)
     }"

text \<open>An element of an include/exclude list, and the decision of the list on a name.\<close>

record slist =
  sl_domain :: name
  sl_exact :: bool
  sl_rule :: int

fun slist_selects :: "name \<Rightarrow> slist list \<Rightarrow> bool option" where
  "slist_selects nm [] = Some False"
| "slist_selects nm (sl # sls) =
     do {
       (_, nrem, lrem) \<leftarrow> domain_match nm (sl_domain sl);
       if lrem = 0 \<and> (\<not> sl_exact sl \<or> nrem = 0) then Some (sl_rule sl = C_INCLUDED)
       else slist_selects nm sls
     }"

text \<open>The walk along a chain; \<open>pre\<close> are the elements passed, \<open>hep\<close> points at the next field of the last.\<close>

fun free_selected :: "nat \<Rightarrow> slist list \<Rightarrow> hent list \<Rightarrow> hent list \<Rightarrow> cache \<Rightarrow> cache option" where
  "free_selected i sla pre [] \<sigma> = Some \<sigma>"
| "free_selected i sla pre (he # hs) \<sigma> =
     do {
       nm \<leftarrow> qn \<sigma> (snd he);
       sel \<leftarrow> slist_selects nm sla;
       if sel then do {
         t \<leftarrow> wr (buckets \<sigma>) i (pre @ hs);
         \<sigma>1 \<leftarrow> del_cent (snd he) (\<sigma>\<lparr> buckets := t \<rparr>);
         free_selected i sla pre hs \<sigma>1
       }
       else free_selected i sla (pre @ [he]) hs \<sigma>
     }"

definition free_dns_hash_selected :: "nat \<Rightarrow> slist list \<Rightarrow> cache \<Rightarrow> cache option" where
  "free_dns_hash_selected i sla \<sigma> =
     do { chain \<leftarrow> rd (buckets \<sigma>) i; free_selected i sla [] chain \<sigma> }"

fun free_buckets :: "(nat \<Rightarrow> cache \<Rightarrow> cache option) \<Rightarrow> nat list \<Rightarrow> cache \<Rightarrow> cache option" where
  "free_buckets f [] \<sigma> = Some \<sigma>"
| "free_buckets f (i # is) \<sigma> = do { \<sigma>1 \<leftarrow> f i \<sigma>; free_buckets f is \<sigma>1 }"

definition free_dns_hash :: "cache \<Rightarrow> cache option" where
  "free_dns_hash = free_buckets free_dns_hash_bucket [0..<HASH_NUM_BUCKETS]"

text \<open>\<open>empty_cache\<close>: \<open>locked\<close> is the outcome of waiting for the lock, \<open>others\<close> what other threads do
  when the lock is yielded after a bucket.\<close>

fun empty_loop :: "slist list option \<Rightarrow> (cache \<Rightarrow> cache) \<Rightarrow> nat list \<Rightarrow> cache \<Rightarrow> cache option" where
  "empty_loop sla others [] \<sigma> = Some \<sigma>"
| "empty_loop sla others (i # is) \<sigma> =
     do {
       \<sigma>1 \<leftarrow> (case sla of Some l \<Rightarrow> free_dns_hash_selected i l \<sigma> | None \<Rightarrow> free_dns_hash_bucket i \<sigma>);
       if is = [] then Some \<sigma>1 else empty_loop sla others is (others \<sigma>1)
     }"

definition empty_cache :: "slist list option \<Rightarrow> bool \<Rightarrow> (cache \<Rightarrow> cache) \<Rightarrow> cache \<Rightarrow> (bool \<times> cache) option" where
  "empty_cache sla locked others \<sigma> =
     (if \<not> locked then Some (False, \<sigma>)
      else do { \<sigma>1 \<leftarrow> empty_loop sla others [0..<HASH_NUM_BUCKETS] \<sigma>; Some (True, \<sigma>1) })"

definition destroy_cache :: "bool \<Rightarrow> cache \<Rightarrow> cache option" where
  "destroy_cache locked \<sigma> = (if \<not> locked then Some \<sigma> else free_dns_hash \<sigma>)"

end
