(* ===== verification/Pd_Lock.thy ===== *)
theory Pd_Lock
  imports Pd_Prelude
begin

text \<open>
  The lock of the cache (\<open>cache.c\<close>): many readers or one writer, on top of a mutex and two condition
  variables, with the threshold that suspends new readers while many writers wait. What a routine
  does while it holds the mutex is one function on the variables of the lock; a step relation
  interleaves these sections for any number of threads. A thread that waits on a condition variable
  is asleep until it is woken, and then runs the test of its loop again.
\<close>

subsection \<open>The variables and the sections under the mutex\<close>

record lock =
  w_lock :: bool
  r_lock :: nat
  r_pend :: nat
  rw_pend :: nat
  r_susp :: bool

definition lock_init :: lock where
  "lock_init = \<lparr> w_lock = False, r_lock = 0, r_pend = 0, rw_pend = 0, r_susp = False \<rparr>"

definition SUSP_THRESH :: "nat \<Rightarrow> nat" where
  "SUSP_THRESH n = n div 2 + 2"

text \<open>The loop of \<open>lock_cache_r\<close>: the test, which may set \<open>r_susp\<close>, and taking the lock.\<close>

definition try_r :: "lock \<Rightarrow> bool \<times> lock" where
  "try_r L = (let L1 = (if rw_pend L > SUSP_THRESH (r_pend L) then L\<lparr> r_susp := True \<rparr> else L) in
     if r_susp L1 \<or> w_lock L1 then (False, L1)
     else (True, L1\<lparr> r_lock := r_lock L1 + 1, r_pend := r_pend L1 - 1 \<rparr>))"

definition lock_cache_r :: "lock \<Rightarrow> bool \<times> lock" where
  "lock_cache_r L = try_r (L\<lparr> r_pend := r_pend L + 1 \<rparr>)"

text \<open>Whom an unlocking routine wakes.\<close>

datatype wake = NoWake | SignalRW | BroadcastR

definition unlock_cache_r :: "lock \<Rightarrow> wake \<times> lock" where
  "unlock_cache_r L = (let L1 = (if r_lock L > 0 then L\<lparr> r_lock := r_lock L - 1 \<rparr> else L) in
     (if r_lock L1 = 0 then SignalRW else NoWake, L1))"

definition try_rw :: "lock \<Rightarrow> bool \<times> lock" where
  "try_rw L = (if w_lock L \<or> r_lock L > 0 then (False, L)
     else (True, L\<lparr> w_lock := True, rw_pend := rw_pend L - 1 \<rparr>))"

definition lock_cache_rw :: "lock \<Rightarrow> bool \<times> lock" where
  "lock_cache_rw L = try_rw (L\<lparr> rw_pend := rw_pend L + 1 \<rparr>)"

text \<open>A timed wait that gives up.\<close>

definition timedlock_giveup :: "lock \<Rightarrow> lock" where
  "timedlock_giveup L = L\<lparr> rw_pend := rw_pend L - 1 \<rparr>"

definition unlock_cache_rw :: "lock \<Rightarrow> wake \<times> lock" where
  "unlock_cache_rw L =
     (if r_pend L = 0 \<or> rw_pend L > SUSP_THRESH (r_pend L) then SignalRW else BroadcastR,
      L\<lparr> w_lock := False, r_susp := False \<rparr>)"

text \<open>\<open>yield_lock_cache_rw\<close> does nothing when nobody waits; otherwise it unlocks, sleeps, and locks.\<close>

definition yield_wanted :: "lock \<Rightarrow> bool" where
  "yield_wanted L = (\<not> (r_pend L = 0 \<and> rw_pend L = 0))"

text \<open>The soft routines of the exit path: one attempt under the mutex, and the loop of attempts. An
  element of the list says whether the mutex was obtained and what the other threads do during the
  sleep after a failed attempt.\<close>

definition softlock_r_try :: "lock \<Rightarrow> bool \<times> lock" where
  "softlock_r_try L = (if \<not> w_lock L then (True, L\<lparr> r_lock := r_lock L + 1 \<rparr>) else (False, L))"

definition softlock_rw_try :: "lock \<Rightarrow> bool \<times> lock" where
  "softlock_rw_try L = (if \<not> (w_lock L \<or> r_lock L > 0) then (True, L\<lparr> w_lock := True \<rparr>) else (False, L))"

definition softunlock_cache_r :: "lock \<Rightarrow> lock" where
  "softunlock_cache_r L = (if r_lock L > 0 then L\<lparr> r_lock := r_lock L - 1 \<rparr> else L)"

definition softunlock_cache_rw :: "lock \<Rightarrow> lock" where
  "softunlock_cache_rw L = L\<lparr> w_lock := False \<rparr>"

definition SOFTLOCK_MAXTRIES :: nat where "SOFTLOCK_MAXTRIES = 1000"

fun softlock_loop :: "(lock \<Rightarrow> bool \<times> lock) \<Rightarrow> nat \<Rightarrow> (bool \<times> (lock \<Rightarrow> lock)) list \<Rightarrow> lock \<Rightarrow> bool \<times> lock" where
  "softlock_loop try tr [] L = (False, L)"
| "softlock_loop try tr ((mutex, others) # env) L =
     (if \<not> mutex then (False, L)
      else case try L of
        (True, L1) \<Rightarrow> (True, L1)
      | (False, L1) \<Rightarrow> if tr + 1 \<ge> SOFTLOCK_MAXTRIES then (False, L1)
          else softlock_loop try (tr + 1) env (others L1))"

definition softlock_cache_r :: "(bool \<times> (lock \<Rightarrow> lock)) list \<Rightarrow> lock \<Rightarrow> bool \<times> lock" where
  "softlock_cache_r = softlock_loop softlock_r_try 0"

definition softlock_cache_rw :: "(bool \<times> (lock \<Rightarrow> lock)) list \<Rightarrow> lock \<Rightarrow> bool \<times> lock" where
  "softlock_cache_rw = softlock_loop softlock_rw_try 0"

subsection \<open>Threads\<close>

text \<open>What a thread is doing; \<open>Paused\<close> is the sleep inside \<open>yield_lock_cache_rw\<close>.\<close>

datatype phase = Idle | WaitR | WaitRW | WaitTimed | Reading | Writing | Paused

record sys =
  lk :: lock
  ph :: "nat \<Rightarrow> phase"
  asleep :: "nat set"

definition sys_init :: sys where
  "sys_init = \<lparr> lk = lock_init, ph = (\<lambda>_. Idle), asleep = {} \<rparr>"

definition sleepers :: "sys \<Rightarrow> phase set \<Rightarrow> nat set" where
  "sleepers s P = {t \<in> asleep s. ph s t \<in> P}"

text \<open>The possible sets of sleeping threads after a wake-up: a signal wakes one waiting writer, if there
  is one, a broadcast all waiting readers.\<close>

definition wakes :: "wake \<Rightarrow> sys \<Rightarrow> nat set \<Rightarrow> bool" where
  "wakes w s A = (case w of
     NoWake \<Rightarrow> A = asleep s
   | SignalRW \<Rightarrow> (if sleepers s {WaitRW, WaitTimed} = {} then A = asleep s
       else \<exists>u \<in> sleepers s {WaitRW, WaitTimed}. A = asleep s - {u})
   | BroadcastR \<Rightarrow> A = asleep s - sleepers s {WaitR})"

text \<open>The outcome of a section that tries to take the lock for thread \<open>t\<close>: it holds the lock in phase
  \<open>got\<close>, or waits in phase \<open>wt\<close>, asleep.\<close>

definition outcome :: "nat \<Rightarrow> phase \<Rightarrow> phase \<Rightarrow> sys \<Rightarrow> bool \<times> lock \<Rightarrow> sys" where
  "outcome t got wt s r = (case r of (ok, L) \<Rightarrow>
     s\<lparr> lk := L, ph := (ph s)(t := if ok then got else wt), asleep := (if ok then asleep s else insert t (asleep s)) \<rparr>)"

text \<open>The parameter \<open>full\<close> admits the timed waits of \<open>empty_cache\<close> and the soft routines used on exit.\<close>

inductive step :: "bool \<Rightarrow> sys \<Rightarrow> sys \<Rightarrow> bool" for full where
  enter_r: "ph s t = Idle \<Longrightarrow> step full s (outcome t Reading WaitR s (lock_cache_r (lk s)))"
| retry_r: "ph s t = WaitR \<Longrightarrow> t \<notin> asleep s \<Longrightarrow> step full s (outcome t Reading WaitR s (try_r (lk s)))"
| leave_r: "ph s t = Reading \<Longrightarrow> unlock_cache_r (lk s) = (w, L) \<Longrightarrow> wakes w s A \<Longrightarrow>
    step full s (s\<lparr> lk := L, ph := (ph s)(t := Idle), asleep := A \<rparr>)"
| enter_rw: "ph s t = Idle \<or> ph s t = Paused \<Longrightarrow> step full s (outcome t Writing WaitRW s (lock_cache_rw (lk s)))"
| retry_rw: "ph s t = WaitRW \<Longrightarrow> t \<notin> asleep s \<Longrightarrow> step full s (outcome t Writing WaitRW s (try_rw (lk s)))"
| leave_rw: "ph s t = Writing \<Longrightarrow> unlock_cache_rw (lk s) = (w, L) \<Longrightarrow> wakes w s A \<Longrightarrow>
    step full s (s\<lparr> lk := L, ph := (ph s)(t := Idle), asleep := A \<rparr>)"
| yield: "ph s t = Writing \<Longrightarrow> yield_wanted (lk s) \<Longrightarrow> unlock_cache_rw (lk s) = (w, L) \<Longrightarrow> wakes w s A \<Longrightarrow>
    step full s (s\<lparr> lk := L, ph := (ph s)(t := Paused), asleep := A \<rparr>)"
| spurious: "t \<in> asleep s \<Longrightarrow> step full s (s\<lparr> asleep := asleep s - {t} \<rparr>)"
| enter_timed: "full \<Longrightarrow> ph s t = Idle \<Longrightarrow> step full s (outcome t Writing WaitTimed s (lock_cache_rw (lk s)))"
| retry_timed: "full \<Longrightarrow> ph s t = WaitTimed \<Longrightarrow> t \<notin> asleep s \<Longrightarrow> step full s (outcome t Writing WaitTimed s (try_rw (lk s)))"
| giveup: "full \<Longrightarrow> ph s t = WaitTimed \<Longrightarrow> t \<in> asleep s \<Longrightarrow>
    step full s (s\<lparr> lk := timedlock_giveup (lk s), ph := (ph s)(t := Idle), asleep := asleep s - {t} \<rparr>)"
| soft_r: "full \<Longrightarrow> ph s t = Idle \<Longrightarrow> softlock_r_try (lk s) = (True, L) \<Longrightarrow>
    step full s (s\<lparr> lk := L, ph := (ph s)(t := Reading) \<rparr>)"
| soft_rw: "full \<Longrightarrow> ph s t = Idle \<Longrightarrow> softlock_rw_try (lk s) = (True, L) \<Longrightarrow>
    step full s (s\<lparr> lk := L, ph := (ph s)(t := Writing) \<rparr>)"
| soft_leave_r: "full \<Longrightarrow> ph s t = Reading \<Longrightarrow>
    step full s (s\<lparr> lk := softunlock_cache_r (lk s), ph := (ph s)(t := Idle) \<rparr>)"
| soft_leave_rw: "full \<Longrightarrow> ph s t = Writing \<Longrightarrow>
    step full s (s\<lparr> lk := softunlock_cache_rw (lk s), ph := (ph s)(t := Idle) \<rparr>)"

inductive reachable :: "bool \<Rightarrow> sys \<Rightarrow> bool" for full where
  reach_init: "reachable full sys_init"
| reach_step: "reachable full s \<Longrightarrow> step full s s' \<Longrightarrow> reachable full s'"

subsection \<open>The invariant\<close>

text \<open>The threads in a phase; the counters of the lock are their numbers.\<close>

definition thr :: "sys \<Rightarrow> phase set \<Rightarrow> nat set" where
  "thr s P = {t. ph s t \<in> P}"

definition lock_inv :: "sys \<Rightarrow> bool" where
  "lock_inv s = (finite {t. ph s t \<noteq> Idle} \<and>
     r_lock (lk s) = card (thr s {Reading}) \<and> card (thr s {Writing}) = (if w_lock (lk s) then 1 else 0) \<and>
     \<not> (w_lock (lk s) \<and> r_lock (lk s) > 0) \<and>
     r_pend (lk s) = card (thr s {WaitR}) \<and> rw_pend (lk s) = card (thr s {WaitRW, WaitTimed}) \<and>
     asleep s \<subseteq> thr s {WaitR, WaitRW, WaitTimed})"

lemma thr_finite: "finite {t. ph s t \<noteq> Idle} \<Longrightarrow> Idle \<notin> P \<Longrightarrow> finite (thr s P)"
  by (rule finite_subset [of _ "{t. ph s t \<noteq> Idle}"]) (auto simp: thr_def)

text \<open>How the number of threads in a phase changes when one thread changes its phase.\<close>

lemma card_thr_move:
  assumes "finite {u. ph s u \<noteq> Idle}" "Idle \<notin> P"
  shows "int (card {u. (if u = t then p else ph s u) \<in> P}) =
    int (card (thr s P)) - of_bool (ph s t \<in> P) + of_bool (p \<in> P)"
proof -
  have fin: "finite (thr s P)" by (rule thr_finite [OF assms])
  have e: "{u. (if u = t then p else ph s u) \<in> P} = (if p \<in> P then insert t (thr s P - {t}) else thr s P - {t})"
    by (auto simp: thr_def)
  have "card (thr s P - {t}) = card (thr s P) - of_bool (t \<in> thr s P)" using fin by simp
  moreover have "t \<in> thr s P \<Longrightarrow> card (thr s P) > 0" using fin by (auto simp: card_gt_0_iff)
  moreover have "card (insert t (thr s P - {t})) = card (thr s P - {t}) + 1" using fin by (simp add: card.insert_remove del: insert_Diff_single)
  ultimately show ?thesis unfolding e by (auto simp: thr_def simp del: insert_Diff_single)
qed

lemma finite_move: "finite {u. f u \<noteq> Idle} \<Longrightarrow> finite {u. (f(t := p)) u \<noteq> Idle}"
  by (rule finite_subset [of _ "insert t {u. f u \<noteq> Idle}"]) auto

lemma thr_move: "thr (s\<lparr> lk := L, ph := (ph s)(t := p), asleep := A \<rparr>) P = {u. (if u = t then p else ph s u) \<in> P}"
  by (auto simp: thr_def)

text \<open>Every section preserves the invariant: what the variables must be for a given move.\<close>

lemma lock_inv_move:
  assumes "lock_inv s" "ph s t = q" "s' = s\<lparr> lk := L, ph := (ph s)(t := p), asleep := A \<rparr>"
    "int (r_lock L) = int (r_lock (lk s)) - of_bool (q = Reading) + of_bool (p = Reading)"
    "of_bool (w_lock L) = (of_bool (w_lock (lk s)) - of_bool (q = Writing) + of_bool (p = Writing) :: int)"
    "int (r_pend L) = int (r_pend (lk s)) - of_bool (q = WaitR) + of_bool (p = WaitR)"
    "int (rw_pend L) = int (rw_pend (lk s)) - of_bool (q \<in> {WaitRW, WaitTimed}) + of_bool (p \<in> {WaitRW, WaitTimed})"
    "\<not> (w_lock L \<and> r_lock L > 0)" "A \<subseteq> insert t (asleep s)" "t \<in> A \<Longrightarrow> p \<in> {WaitR, WaitRW, WaitTimed}"
  shows "lock_inv s'"
proof -
  have fin: "finite {u. ph s u \<noteq> Idle}" using assms(1) by (simp add: lock_inv_def)
  note c = card_thr_move [OF fin, of _ t p, folded thr_move [where L = L and A = A], folded assms(3)]
  have "int (card (thr s' {Reading})) = int (r_lock L)"
    using c [of "{Reading}"] assms(1,2,4) by (simp add: lock_inv_def)
  moreover have "int (card (thr s' {Writing})) = of_bool (w_lock L)"
    using c [of "{Writing}"] assms(1,2,5) by (simp add: lock_inv_def)
  moreover have "int (card (thr s' {WaitR})) = int (r_pend L)"
    using c [of "{WaitR}"] assms(1,2,6) by (simp add: lock_inv_def)
  moreover have "int (card (thr s' {WaitRW, WaitTimed})) = int (rw_pend L)"
    using c [of "{WaitRW, WaitTimed}"] assms(1,2,7) by (simp add: lock_inv_def)
  moreover have "finite {u. ph s' u \<noteq> Idle}" using finite_move [OF fin, of t p] assms(3) by simp
  moreover have "asleep s' \<subseteq> thr s' {WaitR, WaitRW, WaitTimed}"
    using assms(1,3,9,10) by (auto simp: lock_inv_def thr_def)
  ultimately show ?thesis using assms(3,8) unfolding lock_inv_def by (cases "w_lock L") simp_all
qed

lemma inv_pos:
  assumes "lock_inv s"
  shows "ph s t = Reading \<Longrightarrow> r_lock (lk s) > 0 \<and> \<not> w_lock (lk s)"
    "ph s t = Writing \<Longrightarrow> w_lock (lk s) \<and> r_lock (lk s) = 0"
    "ph s t = WaitR \<Longrightarrow> r_pend (lk s) > 0" "ph s t \<in> {WaitRW, WaitTimed} \<Longrightarrow> rw_pend (lk s) > 0"
    "t \<in> asleep s \<Longrightarrow> ph s t \<in> {WaitR, WaitRW, WaitTimed}"
proof -
  have fin: "finite {u. ph s u \<noteq> Idle}" using assms by (simp add: lock_inv_def)
  have pos: "card (thr s P) > 0" if "ph s t \<in> P" "Idle \<notin> P" for P
    using thr_finite [OF fin that(2)] that(1) by (auto simp: card_gt_0_iff thr_def)
  show "ph s t = Reading \<Longrightarrow> r_lock (lk s) > 0 \<and> \<not> w_lock (lk s)"
    using pos [of "{Reading}"] assms by (auto simp: lock_inv_def)
  show "ph s t = Writing \<Longrightarrow> w_lock (lk s) \<and> r_lock (lk s) = 0"
    using pos [of "{Writing}"] assms by (auto simp: lock_inv_def split: if_splits)
  show "ph s t = WaitR \<Longrightarrow> r_pend (lk s) > 0" using pos [of "{WaitR}"] assms by (simp add: lock_inv_def)
  show "ph s t \<in> {WaitRW, WaitTimed} \<Longrightarrow> rw_pend (lk s) > 0"
    using pos [of "{WaitRW, WaitTimed}"] assms by (auto simp: lock_inv_def)
  show "t \<in> asleep s \<Longrightarrow> ph s t \<in> {WaitR, WaitRW, WaitTimed}" using assms by (auto simp: lock_inv_def thr_def)
qed

lemma wakes_subset: "wakes w s A \<Longrightarrow> A \<subseteq> asleep s"
  by (auto simp: wakes_def split: wake.splits if_splits)

lemmas lock_ops = try_r_def lock_cache_r_def unlock_cache_r_def try_rw_def lock_cache_rw_def
  timedlock_giveup_def unlock_cache_rw_def softlock_r_try_def softlock_rw_try_def
  softunlock_cache_r_def softunlock_cache_rw_def Let_def

lemma try_r_spec:
  "try_r L = (ok, L') \<Longrightarrow> w_lock L' = w_lock L \<and> rw_pend L' = rw_pend L \<and>
     (if ok then \<not> w_lock L \<and> r_lock L' = r_lock L + 1 \<and> r_pend L' = r_pend L - 1
      else r_lock L' = r_lock L \<and> r_pend L' = r_pend L)"
  by (auto simp: try_r_def Let_def split: if_splits)

lemma try_rw_spec:
  "try_rw L = (ok, L') \<Longrightarrow> r_lock L' = r_lock L \<and> r_pend L' = r_pend L \<and>
     (if ok then \<not> w_lock L \<and> r_lock L = 0 \<and> w_lock L' \<and> rw_pend L' = rw_pend L - 1
      else w_lock L' = w_lock L \<and> rw_pend L' = rw_pend L)"
  by (auto simp: try_rw_def split: if_splits)

lemma lock_inv_excl: "lock_inv s \<Longrightarrow> \<not> (w_lock (lk s) \<and> r_lock (lk s) > 0)"
  unfolding lock_inv_def by blast

lemma lock_inv_r:
  assumes "lock_inv s" "ph s t = q" "t \<notin> asleep s"
    "q \<in> {Idle, Paused} \<and> L0 = (lk s)\<lparr> r_pend := r_pend (lk s) + 1 \<rparr> \<or> q = WaitR \<and> L0 = lk s"
  shows "lock_inv (outcome t Reading WaitR s (try_r L0))"
proof -
  obtain ok L where r: "try_r L0 = (ok, L)" by (cases "try_r L0")
  note sp = try_r_spec [OF r] and pos = inv_pos(3) [OF assms(1), of t] and inv = lock_inv_excl [OF assms(1)]
  show ?thesis
    by (rule lock_inv_move [OF assms(1,2), where L = L and p = "if ok then Reading else WaitR"
          and A = "if ok then asleep s else insert t (asleep s)"])
      (use assms(2-4) r sp pos inv in \<open>auto simp: outcome_def split: if_splits\<close>)
qed

lemma lock_inv_rw:
  assumes "lock_inv s" "ph s t = q" "t \<notin> asleep s" "wt \<in> {WaitRW, WaitTimed}"
    "q \<in> {Idle, Paused} \<and> L0 = (lk s)\<lparr> rw_pend := rw_pend (lk s) + 1 \<rparr> \<or> q = wt \<and> L0 = lk s"
  shows "lock_inv (outcome t Writing wt s (try_rw L0))"
proof -
  obtain ok L where r: "try_rw L0 = (ok, L)" by (cases "try_rw L0")
  note sp = try_rw_spec [OF r] and pos = inv_pos(4) [OF assms(1), of t] and inv = lock_inv_excl [OF assms(1)]
  show ?thesis
    by (rule lock_inv_move [OF assms(1,2), where L = L and p = "if ok then Writing else wt"
          and A = "if ok then asleep s else insert t (asleep s)"])
      (use assms(2-5) r sp pos inv in \<open>auto simp: outcome_def split: if_splits\<close>)
qed

lemma lock_inv_leave_r:
  assumes "lock_inv s" "ph s t = Reading" "r_lock L = r_lock (lk s) - 1" "w_lock L = w_lock (lk s)"
    "r_pend L = r_pend (lk s)" "rw_pend L = rw_pend (lk s)" "A \<subseteq> asleep s"
  shows "lock_inv (s\<lparr> lk := L, ph := (ph s)(t := Idle), asleep := A \<rparr>)"
proof -
  have "t \<notin> asleep s" using inv_pos(5) [OF assms(1), of t] assms(2) by auto
  then show ?thesis
    by (intro lock_inv_move [OF assms(1,2) refl])
      (use assms(3-7) inv_pos(1) [OF assms(1,2)] lock_inv_excl [OF assms(1)] in auto)
qed

lemma lock_inv_leave_rw:
  assumes "lock_inv s" "ph s t = Writing" "r_lock L = r_lock (lk s)" "\<not> w_lock L"
    "r_pend L = r_pend (lk s)" "rw_pend L = rw_pend (lk s)" "A \<subseteq> asleep s" "p \<in> {Idle, Paused}"
  shows "lock_inv (s\<lparr> lk := L, ph := (ph s)(t := p), asleep := A \<rparr>)"
proof -
  have "t \<notin> asleep s" using inv_pos(5) [OF assms(1), of t] assms(2) by auto
  then show ?thesis
    by (intro lock_inv_move [OF assms(1,2) refl])
      (use assms(3-8) inv_pos(2) [OF assms(1,2)] in auto)
qed

lemma unlock_r_spec: "unlock_cache_r L = (w, L') \<Longrightarrow> r_lock L' = r_lock L - 1 \<and> w_lock L' = w_lock L \<and>
    r_pend L' = r_pend L \<and> rw_pend L' = rw_pend L \<and> r_susp L' = r_susp L \<and> w = (if r_lock L' = 0 then SignalRW else NoWake)"
  by (auto simp: unlock_cache_r_def Let_def split: if_splits)

lemma unlock_rw_spec: "unlock_cache_rw L = (w, L') \<Longrightarrow> r_lock L' = r_lock L \<and> \<not> w_lock L' \<and>
    r_pend L' = r_pend L \<and> rw_pend L' = rw_pend L \<and> \<not> r_susp L' \<and>
    w = (if r_pend L = 0 \<or> rw_pend L > SUSP_THRESH (r_pend L) then SignalRW else BroadcastR)"
  by (auto simp: unlock_cache_rw_def)

lemma idle_awake: "lock_inv s \<Longrightarrow> ph s t \<in> {Idle, Paused, Reading, Writing} \<Longrightarrow> t \<notin> asleep s"
  using inv_pos(5) [of s t] by auto

lemma lock_inv_step: "step full s s' \<Longrightarrow> lock_inv s \<Longrightarrow> lock_inv s'"
proof (induction rule: step.induct)
  case (enter_r s t)
  then show ?case unfolding lock_cache_r_def by (intro lock_inv_r) (auto simp: idle_awake)
next
  case (retry_r s t)
  then show ?case by (intro lock_inv_r) auto
next
  case (leave_r s t w L A)
  then show ?case using unlock_r_spec [of "lk s" w L] wakes_subset [of w s A] by (intro lock_inv_leave_r) auto
next
  case (enter_rw s t)
  then show ?case unfolding lock_cache_rw_def by (intro lock_inv_rw) (auto simp: idle_awake)
next
  case (retry_rw s t)
  then show ?case by (intro lock_inv_rw) auto
next
  case (leave_rw s t w L A)
  then show ?case using unlock_rw_spec [of "lk s" w L] wakes_subset [of w s A] by (intro lock_inv_leave_rw) auto
next
  case (yield s t w L A)
  then show ?case using unlock_rw_spec [of "lk s" w L] wakes_subset [of w s A] by (intro lock_inv_leave_rw) auto
next
  case (spurious t s)
  then show ?case by (auto simp: lock_inv_def thr_def)
next
  case (enter_timed s t)
  then show ?case unfolding lock_cache_rw_def by (intro lock_inv_rw) (auto simp: idle_awake)
next
  case (retry_timed s t)
  then show ?case by (intro lock_inv_rw) auto
next
  case (giveup s t)
  then show ?case
    using inv_pos(4) [of s t] lock_inv_excl [of s]
    by (intro lock_inv_move [OF giveup.prems giveup.hyps(2) refl]) (auto simp: timedlock_giveup_def)
next
  case (soft_r s t L)
  have "s\<lparr> lk := L, ph := (ph s)(t := Reading) \<rparr> = s\<lparr> lk := L, ph := (ph s)(t := Reading), asleep := asleep s \<rparr>" by simp
  from lock_inv_move [OF soft_r.prems soft_r.hyps(2) this] show ?case
    using soft_r.hyps idle_awake [OF soft_r.prems, of t] lock_inv_excl [OF soft_r.prems]
    by (auto simp: softlock_r_try_def subset_insertI split: if_splits)
next
  case (soft_rw s t L)
  have "s\<lparr> lk := L, ph := (ph s)(t := Writing) \<rparr> = s\<lparr> lk := L, ph := (ph s)(t := Writing), asleep := asleep s \<rparr>" by simp
  from lock_inv_move [OF soft_rw.prems soft_rw.hyps(2) this] show ?case
    using soft_rw.hyps idle_awake [OF soft_rw.prems, of t] lock_inv_excl [OF soft_rw.prems]
    by (auto simp: softlock_rw_try_def subset_insertI split: if_splits)
next
  case (soft_leave_r s t)
  have "lock_inv (s\<lparr> lk := softunlock_cache_r (lk s), ph := (ph s)(t := Idle), asleep := asleep s \<rparr>)"
    by (rule lock_inv_leave_r) (use soft_leave_r in \<open>auto simp: softunlock_cache_r_def\<close>)
  then show ?case by simp
next
  case (soft_leave_rw s t)
  have "lock_inv (s\<lparr> lk := softunlock_cache_rw (lk s), ph := (ph s)(t := Idle), asleep := asleep s \<rparr>)"
    by (rule lock_inv_leave_rw) (use soft_leave_rw in \<open>auto simp: softunlock_cache_rw_def\<close>)
  then show ?case by simp
qed

lemma lock_inv_init: "lock_inv sys_init"
  by (simp add: lock_inv_def sys_init_def lock_init_def thr_def)

lemma lock_inv_reachable: "reachable full s \<Longrightarrow> lock_inv s"
  by (induction rule: reachable.induct) (auto intro: lock_inv_init lock_inv_step)


subsection \<open>No wake-up is lost\<close>

text \<open>Without timed waits and the soft routines: while the lock is free and threads wait, one of them is
  awake and gets the lock when it runs.\<close>

definition susp_ok :: "sys \<Rightarrow> bool" where
  "susp_ok s = (r_susp (lk s) \<and> \<not> w_lock (lk s) \<longrightarrow> rw_pend (lk s) > 0)"

definition readers_ok :: "sys \<Rightarrow> bool" where
  "readers_ok s = ((\<exists>t \<in> asleep s. ph s t = WaitR) \<longrightarrow> w_lock (lk s) \<or> rw_pend (lk s) > 0)"

definition readers_turn :: "sys \<Rightarrow> bool" where
  "readers_turn s = (\<not> r_susp (lk s) \<and> rw_pend (lk s) \<le> SUSP_THRESH (r_pend (lk s)) \<and> r_pend (lk s) > 0 \<and>
     (\<forall>t \<in> asleep s. ph s t \<noteq> WaitR))"

definition writers_ok :: "sys \<Rightarrow> bool" where
  "writers_ok s = (\<not> w_lock (lk s) \<and> r_lock (lk s) = 0 \<and> rw_pend (lk s) > 0 \<longrightarrow>
     (\<exists>t. t \<notin> asleep s \<and> ph s t = WaitRW) \<or> readers_turn s)"

definition wake_inv :: "sys \<Rightarrow> bool" where
  "wake_inv s = (lock_inv s \<and> (\<forall>t. ph s t \<noteq> WaitTimed) \<and> susp_ok s \<and> readers_ok s \<and> writers_ok s)"

lemma try_r_block: "try_r L = (False, L') \<Longrightarrow> \<not> w_lock L \<Longrightarrow> r_susp L \<or> rw_pend L > SUSP_THRESH (r_pend L)"
  by (auto simp: try_r_def Let_def split: if_splits)

lemma try_r_susp: "try_r L = (ok, L') \<Longrightarrow> if ok then \<not> r_susp L' else r_susp L' \<longrightarrow> r_susp L \<or> rw_pend L > SUSP_THRESH (r_pend L)"
  by (auto simp: try_r_def Let_def split: if_splits)

lemma thresh_mono: "SUSP_THRESH m \<le> SUSP_THRESH (m + 1)"
  by (simp add: SUSP_THRESH_def div_le_mono)

lemma wake_inv_r:
  assumes "wake_inv s" "t \<notin> asleep s" "ph s t \<in> {Idle, WaitR}"
    "L0 = (lk s)\<lparr> r_pend := n \<rparr>" "n = r_pend (lk s) \<or> n = r_pend (lk s) + 1"
    "lock_inv (outcome t Reading WaitR s (try_r L0))"
  shows "wake_inv (outcome t Reading WaitR s (try_r L0))"
proof -
  obtain ok L where r: "try_r L0 = (ok, L)" by (cases "try_r L0")
  note sp = try_r_spec [OF r] and su = try_r_susp [OF r]
  have w: "susp_ok s" "readers_ok s" "writers_ok s" "\<forall>t. ph s t \<noteq> WaitTimed" using assms(1) by (auto simp: wake_inv_def)
  have th: "SUSP_THRESH (r_pend (lk s)) \<le> SUSP_THRESH n" using assms(5) thresh_mono by auto
  define s' where s': "s' = outcome t Reading WaitR s (try_r L0)"
  have l0: "w_lock L0 = w_lock (lk s)" "rw_pend L0 = rw_pend (lk s)" "r_lock L0 = r_lock (lk s)"
    "r_susp L0 = r_susp (lk s)" "r_pend L0 = n" using assms(4) by simp_all
  have "wake_inv s'"
  proof (cases ok)
    case True
    then have f: "lk s' = L" "asleep s' = asleep s" "ph s' = (ph s)(t := Reading)" by (simp_all add: s' outcome_def r)
    have "susp_ok s'" using True su by (simp add: susp_ok_def f)
    moreover have "readers_ok s'" using w(2) sp True assms(2) l0 by (auto simp: readers_ok_def f)
    moreover have "writers_ok s'" using sp True by (simp add: writers_ok_def f)
    ultimately show ?thesis using assms(6) [folded s'] w(4) by (simp add: wake_inv_def f)
  next
    case False
    then have f: "lk s' = L" "asleep s' = insert t (asleep s)" "ph s' = (ph s)(t := WaitR)" by (simp_all add: s' outcome_def r)
    have L: "w_lock L = w_lock (lk s)" "rw_pend L = rw_pend (lk s)" "r_lock L = r_lock (lk s)" "r_pend L = n"
      using sp False l0 by auto
    have bl: "rw_pend (lk s) > 0 \<and> (r_susp (lk s) \<or> rw_pend (lk s) > SUSP_THRESH n)" if "\<not> w_lock (lk s)"
    proof -
      have "r_susp (lk s) \<or> rw_pend (lk s) > SUSP_THRESH n" using try_r_block [of L0 L] r False that l0 by simp
      then show ?thesis using w(1) that by (auto simp: susp_ok_def)
    qed
    have "susp_ok s'" using bl L by (simp add: susp_ok_def f)
    moreover have "readers_ok s'" using bl L by (auto simp: readers_ok_def f)
    moreover have "writers_ok s'"
      unfolding writers_ok_def f
    proof (intro impI)
      assume a: "\<not> w_lock L \<and> r_lock L = 0 \<and> 0 < rw_pend L"
      then have "\<not> readers_turn s" using bl L th by (auto simp: readers_turn_def)
      then obtain u where u: "u \<notin> asleep s" "ph s u = WaitRW" using w(3) a L by (auto simp: writers_ok_def)
      have "u \<noteq> t" using u(2) assms(3) by auto
      then show "(\<exists>u. u \<notin> insert t (asleep s) \<and> ((ph s)(t := WaitR)) u = WaitRW) \<or> readers_turn s'"
        using u by (intro disjI1 exI [of _ u]) simp
    qed
    ultimately show ?thesis using assms(6) [folded s'] w(4) by (simp add: wake_inv_def f)
  qed
  then show ?thesis by (simp add: s')
qed

lemma wake_inv_rw:
  assumes "wake_inv s" "t \<notin> asleep s" "ph s t \<in> {Idle, Paused, WaitRW}"
    "L0 = (lk s)\<lparr> rw_pend := n \<rparr>" "n \<ge> rw_pend (lk s)"
    "lock_inv (outcome t Writing WaitRW s (try_rw L0))"
  shows "wake_inv (outcome t Writing WaitRW s (try_rw L0))"
proof -
  obtain ok L where r: "try_rw L0 = (ok, L)" by (cases "try_rw L0")
  have w: "susp_ok s" "readers_ok s" "writers_ok s" "\<forall>t. ph s t \<noteq> WaitTimed" using assms(1) by (auto simp: wake_inv_def)
  define s' where s': "s' = outcome t Writing WaitRW s (try_rw L0)"
  have l0: "w_lock L0 = w_lock (lk s)" "rw_pend L0 = n" "r_lock L0 = r_lock (lk s)"
    "r_susp L0 = r_susp (lk s)" "r_pend L0 = r_pend (lk s)" using assms(4) by simp_all
  have "wake_inv s'"
  proof (cases ok)
    case True
    then have f: "lk s' = L" "asleep s' = asleep s" "ph s' = (ph s)(t := Writing)" by (simp_all add: s' outcome_def r)
    have "w_lock L" using try_rw_spec [OF r] True by simp
    then show ?thesis using assms(6) [folded s'] w(4) by (simp add: wake_inv_def susp_ok_def readers_ok_def writers_ok_def f)
  next
    case False
    then have f: "lk s' = L" "asleep s' = insert t (asleep s)" "ph s' = (ph s)(t := WaitRW)" by (simp_all add: s' outcome_def r)
    have L: "L = L0" "w_lock L0 \<or> r_lock L0 > 0" using r False by (auto simp: try_rw_def split: if_splits)
    have "susp_ok s'" using w(1) L l0 assms(5) by (auto simp: susp_ok_def f)
    moreover have "readers_ok s'" using w(2) L l0 assms(3,5) by (auto simp: readers_ok_def f split: if_splits)
    moreover have "writers_ok s'" using L by (auto simp: writers_ok_def f)
    ultimately show ?thesis using assms(6) [folded s'] w(4) by (simp add: wake_inv_def f)
  qed
  then show ?thesis by (simp add: s')
qed

text \<open>After a signal, a waiting writer is awake.\<close>

lemma signal_awake:
  assumes "lock_inv s" "wakes SignalRW s A" "rw_pend (lk s) > 0" "\<forall>t. ph s t \<noteq> WaitTimed"
  shows "\<exists>u. u \<notin> A \<and> ph s u = WaitRW"
proof -
  have "card (thr s {WaitRW, WaitTimed}) > 0" using assms(1,3) by (simp add: lock_inv_def)
  then obtain v where v: "ph s v = WaitRW" using assms(4) by (auto simp: card_gt_0_iff thr_def)
  show ?thesis
  proof (cases "sleepers s {WaitRW, WaitTimed} = {}")
    case True
    then have "v \<notin> asleep s" using v by (auto simp: sleepers_def)
    then show ?thesis using True v assms(2) by (auto simp: wakes_def)
  next
    case False
    then obtain u where "u \<in> sleepers s {WaitRW, WaitTimed}" "A = asleep s - {u}" using assms(2) by (auto simp: wakes_def)
    then show ?thesis using assms(4) by (auto simp: sleepers_def)
  qed
qed

lemma wake_inv_leave:
  assumes "wake_inv s" "lock_inv s'" "wakes w s A" "s' = s\<lparr> lk := L, ph := (ph s)(t := p), asleep := A \<rparr>"
    "ph s t = Reading \<and> unlock_cache_r (lk s) = (w, L) \<or> ph s t = Writing \<and> unlock_cache_rw (lk s) = (w, L)"
    "p \<in> {Idle, Paused}"
  shows "wake_inv s'"
proof -
  have w: "susp_ok s" "readers_ok s" "\<forall>t. ph s t \<noteq> WaitTimed" "lock_inv s" using assms(1) by (auto simp: wake_inv_def)
  have f: "lk s' = L" "asleep s' = A" "ph s' = (ph s)(t := p)" using assms(4) by simp_all
  have A: "A \<subseteq> asleep s" by (rule wakes_subset [OF assms(3)])
  have L: "r_pend L = r_pend (lk s)" "rw_pend L = rw_pend (lk s)" "\<not> w_lock L"
    "ph s t = Writing \<or> r_susp L = r_susp (lk s) \<and> \<not> w_lock (lk s)" "ph s t = Writing \<Longrightarrow> \<not> r_susp L"
    using assms(5) unlock_r_spec [of "lk s" w L] unlock_rw_spec [of "lk s" w L] inv_pos(1) [OF w(4), of t] by auto
  have t: "ph s t \<noteq> WaitRW" "ph s t \<noteq> WaitR" using assms(5) by auto
  have sig: "\<exists>u. u \<notin> A \<and> ((ph s)(t := p)) u = WaitRW" if sg: "w = SignalRW" and pd: "rw_pend (lk s) > 0"
  proof -
    obtain u where "u \<notin> A" "ph s u = WaitRW" using signal_awake [OF w(4) _ pd w(3)] assms(3) sg by blast
    then show ?thesis using t by (intro exI [of _ u]) auto
  qed
  have no_readers: "ph s u \<noteq> WaitR" if "r_pend (lk s) = 0" for u using inv_pos(3) [OF w(4), of u] that by auto
  have bro: "\<forall>u \<in> A. ph s u \<noteq> WaitR" if "w = BroadcastR" using assms(3) that by (auto simp: wakes_def sleepers_def)
  have "susp_ok s'" using w(1) L by (auto simp: susp_ok_def f)
  moreover have "readers_ok s'"
  proof (cases "ph s t = Reading")
    case True
    then show ?thesis using w(2) L A assms(6) by (auto simp: readers_ok_def f)
  next
    case False
    then have "w = (if r_pend (lk s) = 0 \<or> rw_pend (lk s) > SUSP_THRESH (r_pend (lk s)) then SignalRW else BroadcastR)"
      using assms(5) unlock_rw_spec [of "lk s" w L] by auto
    then show ?thesis using no_readers bro assms(6) L(2) by (auto simp: readers_ok_def f split: if_splits)
  qed
  moreover have "writers_ok s'"
  proof (cases "ph s t = Reading")
    case True
    then have "w = (if r_lock L = 0 then SignalRW else NoWake)" using assms(5) unlock_r_spec [of "lk s" w L] by auto
    then show ?thesis using sig L(2) by (auto simp: writers_ok_def f)
  next
    case False
    then have wk: "w = (if r_pend (lk s) = 0 \<or> rw_pend (lk s) > SUSP_THRESH (r_pend (lk s)) then SignalRW else BroadcastR)"
      and ns: "\<not> r_susp L" using assms(5) unlock_rw_spec [of "lk s" w L] by auto
    show ?thesis
    proof (cases "w = SignalRW")
      case True
      then show ?thesis using sig L(2) by (auto simp: writers_ok_def f)
    next
      case False
      then have "readers_turn s'" using wk ns L(1,2) bro assms(6) by (auto simp: readers_turn_def f split: if_splits)
      then show ?thesis by (simp add: writers_ok_def)
    qed
  qed
  ultimately show ?thesis using assms(2,6) w(3) f(3) by (auto simp: wake_inv_def)
qed

lemma wake_inv_step: "step full s s' \<Longrightarrow> \<not> full \<Longrightarrow> wake_inv s \<Longrightarrow> wake_inv s'"
proof -
  assume st: "step full s s'" and nf: "\<not> full" and inv: "wake_inv s"
  have li: "lock_inv s" using inv by (simp add: wake_inv_def)
  have li': "lock_inv s'" by (rule lock_inv_step [OF st li])
  from st nf show ?thesis
  proof (cases rule: step.cases)
    case (enter_r t)
    then show ?thesis using li' inv idle_awake [OF li, of t] unfolding lock_cache_r_def
      by (auto intro!: wake_inv_r)
  next
    case (retry_r t)
    then show ?thesis using li' inv by (auto intro!: wake_inv_r [of s t _ "r_pend (lk s)"])
  next
    case (enter_rw t)
    then show ?thesis using li' inv idle_awake [OF li, of t] unfolding lock_cache_rw_def
      by (auto intro!: wake_inv_rw)
  next
    case (retry_rw t)
    then show ?thesis using li' inv by (auto intro!: wake_inv_rw [of s t _ "rw_pend (lk s)"])
  next
    case (leave_r t w L A)
    show ?thesis by (rule wake_inv_leave [OF inv li' leave_r(4) leave_r(1)]) (use leave_r in auto)
  next
    case (leave_rw t w L A)
    show ?thesis by (rule wake_inv_leave [OF inv li' leave_rw(4) leave_rw(1)]) (use leave_rw in auto)
  next
    case (yield t w L A)
    show ?thesis by (rule wake_inv_leave [OF inv li' yield(5) yield(1)]) (use yield in auto)
  next
    case (spurious t)
    then show ?thesis using inv li'
      by (auto simp: wake_inv_def susp_ok_def readers_ok_def writers_ok_def readers_turn_def)
  qed auto
qed

lemma wake_inv_reachable: "reachable False s \<Longrightarrow> wake_inv s"
proof (induction rule: reachable.induct)
  case reach_init
  show ?case using lock_inv_init
    by (simp add: wake_inv_def susp_ok_def readers_ok_def writers_ok_def) (simp add: sys_init_def lock_init_def)
qed (use wake_inv_step in blast)


subsection \<open>Properties\<close>

text \<open>C31. Mutual exclusion: in every reachable state, with timed waits, spurious wake-ups, yields and the
  soft routines of the exit path, at most one thread has the cache for writing, and none has it for
  reading then; the counters are the numbers of threads that read and wait.\<close>

theorem lock_mutual_exclusion:
  assumes "reachable full s"
  shows "(\<forall>t u. ph s t = Writing \<and> (ph s u = Writing \<or> ph s u = Reading) \<longrightarrow> t = u \<and> w_lock (lk s)) \<and>
    r_lock (lk s) = card {t. ph s t = Reading} \<and> r_pend (lk s) = card {t. ph s t = WaitR} \<and>
    rw_pend (lk s) = card {t. ph s t = WaitRW \<or> ph s t = WaitTimed}"
proof -
  have inv: "lock_inv s" by (rule lock_inv_reachable [OF assms])
  have one: "t = u" if "ph s t = Writing" "ph s u = Writing" for t u
  proof -
    have "card (thr s {Writing}) = 1" using inv inv_pos(2) [OF inv that(1)] by (simp add: lock_inv_def)
    then obtain v where "thr s {Writing} = {v}" by (auto simp: card_1_singleton_iff)
    moreover have "t \<in> thr s {Writing}" "u \<in> thr s {Writing}" using that by (simp_all add: thr_def)
    ultimately show ?thesis by simp
  qed
  have "t = u \<and> w_lock (lk s)" if "ph s t = Writing" "ph s u = Writing \<or> ph s u = Reading" for t u
    using that one [of t u] inv_pos(1) [OF inv, of u] inv_pos(2) [OF inv, of t] by auto
  then show ?thesis using inv by (auto simp: lock_inv_def thr_def)
qed

text \<open>A run for the witnesses: thread 1 writes, thread 2 waits to write, thread 1 leaves.\<close>

definition ex_s1 :: sys where
  "ex_s1 = \<lparr> lk = lock_init\<lparr> w_lock := True \<rparr>, ph = (\<lambda>_. Idle)(1 := Writing), asleep = {} \<rparr>"

definition ex_s2 :: sys where
  "ex_s2 = \<lparr> lk = lock_init\<lparr> w_lock := True, rw_pend := 1 \<rparr>, ph = (\<lambda>_. Idle)(1 := Writing, 2 := WaitRW), asleep = {2} \<rparr>"

definition ex_s3 :: sys where
  "ex_s3 = \<lparr> lk = lock_init\<lparr> rw_pend := 1 \<rparr>, ph = (\<lambda>_. Idle)(1 := Idle, 2 := WaitRW), asleep = {} \<rparr>"

lemma ex_run: "reachable full ex_s1" "reachable full ex_s2" "reachable full ex_s3"
proof -
  have "ex_s1 = outcome 1 Writing WaitRW sys_init (lock_cache_rw (lk sys_init))"
    by (simp add: ex_s1_def outcome_def sys_init_def lock_init_def lock_cache_rw_def try_rw_def)
  moreover have "step full sys_init (outcome 1 Writing WaitRW sys_init (lock_cache_rw (lk sys_init)))"
    by (rule step.enter_rw) (simp add: sys_init_def)
  ultimately show 1: "reachable full ex_s1" by (simp only: reach_step [OF reach_init])
  have "ex_s2 = outcome 2 Writing WaitRW ex_s1 (lock_cache_rw (lk ex_s1))"
    by (simp add: ex_s1_def ex_s2_def outcome_def lock_init_def lock_cache_rw_def try_rw_def)
  moreover have "step full ex_s1 (outcome 2 Writing WaitRW ex_s1 (lock_cache_rw (lk ex_s1)))"
    by (rule step.enter_rw) (simp add: ex_s1_def)
  ultimately show 2: "reachable full ex_s2" by (simp only: reach_step [OF 1])
  have "step full ex_s2 (ex_s2\<lparr> lk := lock_init\<lparr> rw_pend := 1 \<rparr>, ph := (ph ex_s2)(1 := Idle), asleep := {} \<rparr>)"
  proof (rule step.leave_rw)
    show "ph ex_s2 1 = Writing" by (simp add: ex_s2_def)
    show "unlock_cache_rw (lk ex_s2) = (SignalRW, lock_init\<lparr> rw_pend := 1 \<rparr>)"
      by (simp add: ex_s2_def unlock_cache_rw_def lock_init_def)
    have "sleepers ex_s2 {WaitRW, WaitTimed} = {2}" by (auto simp: sleepers_def ex_s2_def)
    then show "wakes SignalRW ex_s2 {}" by (simp add: wakes_def ex_s2_def)
  qed
  moreover have "ex_s2\<lparr> lk := lock_init\<lparr> rw_pend := 1 \<rparr>, ph := (ph ex_s2)(1 := Idle), asleep := {} \<rparr> = ex_s3"
    by (simp add: ex_s2_def ex_s3_def fun_upd_twist)
  ultimately show "reachable full ex_s3" by (simp only: reach_step [OF 2])
qed

theorem lock_mutual_exclusion_witness:
  "w_lock (lk ex_s2) \<and> r_lock (lk ex_s2) = card {t. ph ex_s2 t = Reading}"
proof -
  note th = lock_mutual_exclusion [OF ex_run(2) [of True]]
  have "ph ex_s2 1 = Writing" by (simp add: ex_s2_def)
  then have "w_lock (lk ex_s2)" using th by blast
  then show ?thesis using th by simp
qed

text \<open>C30. No wake-up is lost: as long as nobody gives up a timed wait or uses the soft routines, whenever
  the lock is free and threads wait for it, one of them is awake and gets the lock when it runs its
  test. So the suspension of readers cannot block the cache.\<close>

theorem lock_no_lost_wakeup:
  assumes "reachable False s" "\<forall>t. ph s t \<noteq> Reading \<and> ph s t \<noteq> Writing" "ph s u = WaitR \<or> ph s u = WaitRW"
  shows "\<exists>t. t \<notin> asleep s \<and> (ph s t = WaitRW \<and> fst (try_rw (lk s)) \<or> ph s t = WaitR \<and> fst (try_r (lk s)))"
proof -
  have w: "lock_inv s" "susp_ok s" "readers_ok s" "writers_ok s"
    using wake_inv_reachable [OF assms(1)] by (simp_all add: wake_inv_def)
  have free: "\<not> w_lock (lk s)" "r_lock (lk s) = 0"
    using w(1) assms(2) unfolding lock_inv_def thr_def by (simp_all split: if_splits)
  have tw: "fst (try_rw (lk s))" using free by (simp add: try_rw_def)
  have tr: "fst (try_r (lk s))" if "\<not> r_susp (lk s)" "rw_pend (lk s) \<le> SUSP_THRESH (r_pend (lk s))"
    using that free by (simp add: try_r_def Let_def)
  show ?thesis
  proof (cases "rw_pend (lk s) > 0")
    case True
    from w(4) free True consider (w) t where "t \<notin> asleep s" "ph s t = WaitRW" | (r) "readers_turn s"
      unfolding writers_ok_def by blast
    then show ?thesis
    proof cases
      case w
      then show ?thesis using tw by (intro exI [of _ t]) simp
    next
      case r
      then have "r_pend (lk s) > 0" "r_pend (lk s) = card (thr s {WaitR})"
        using w(1) unfolding readers_turn_def lock_inv_def by blast+
      then have "thr s {WaitR} \<noteq> {}" by auto
      then obtain v where v: "ph s v = WaitR" by (auto simp: thr_def)
      then have "v \<notin> asleep s" "fst (try_r (lk s))" using r tr by (auto simp: readers_turn_def)
      then show ?thesis using v by (intro exI [of _ v]) simp
    qed
  next
    case False
    then have "ph s u = WaitR" using assms(3) inv_pos(4) [OF w(1), of u] by auto
    moreover from this have "u \<notin> asleep s" using w(3) free False by (auto simp: readers_ok_def)
    moreover have "\<not> r_susp (lk s)" using w(2) free False by (simp add: susp_ok_def)
    ultimately show ?thesis using tr False by (intro exI [of _ u]) simp
  qed
qed

theorem lock_no_lost_wakeup_witness:
  "\<exists>t. t \<notin> asleep ex_s3 \<and> (ph ex_s3 t = WaitRW \<and> fst (try_rw (lk ex_s3)) \<or> ph ex_s3 t = WaitR \<and> fst (try_r (lk ex_s3)))"
  using lock_no_lost_wakeup [OF ex_run(3), of 2] by (auto simp: ex_s3_def)

end
