(* ===== verification/Pd_Disk.thy ===== *)
theory Pd_Disk
  imports Pd_Cache
begin

text \<open>
  The disk image of the cache (\<open>write_disk_cache\<close>, \<open>read_disk_cache\<close> and \<open>write_rrset\<close> of
  \<open>cache.c\<close>). A file is a list of bytes: the version identifier, the number of entries, and the
  entries with their packed headers, integers in little-endian order with the sizes of the 32-bit
  targets. Each \<open>fread\<close> takes the bytes it asks for or fails at the end of the file; each \<open>fwrite\<close>
  appends or fails, as the list of outcomes says.
\<close>

subsection \<open>Integers in the file\<close>

text \<open>A \<open>time_t\<close> is a signed 32-bit integer.\<close>

definition time_bytes :: "int \<Rightarrow> byte list" where
  "time_bytes t = le32 (word_of_int t)"

definition bytes_time :: "byte list \<Rightarrow> int" where
  "bytes_time bs = sint (un_le32 bs)"

definition cachverid :: "byte list" where
  "cachverid = [112, 100, 49, 51]"

subsection \<open>Writing\<close>

record wfile =
  wf_out :: "byte list"
  wf_oks :: "bool list"

definition fwrite :: "byte list \<Rightarrow> wfile \<Rightarrow> bool \<times> wfile" where
  "fwrite bs f = (case wf_oks f of
     [] \<Rightarrow> (True, f\<lparr> wf_out := wf_out f @ bs \<rparr>)
   | ok # oks \<Rightarrow> (ok, if ok then f\<lparr> wf_out := wf_out f @ bs, wf_oks := oks \<rparr> else f\<lparr> wf_oks := oks \<rparr>))"

text \<open>\<open>write_rrset\<close>: at most 255 records; the length of a record is cut to 16 bits.\<close>

fun write_rrs :: "byte list list \<Rightarrow> wfile \<Rightarrow> (bool \<times> wfile) option" where
  "write_rrs [] f = Some (True, f)"
| "write_rrs (d # ds) f =
     do {
       let rdlen = (word_of_nat (length d) :: u16);
       let (ok, f1) = fwrite (le16 rdlen) f;
       if \<not> ok then Some (False, f1)
       else if rdlen = 0 then write_rrs ds f1
       else do {
         data \<leftarrow> rdn d 0 (unat rdlen);
         let (ok1, f2) = fwrite data f1;
         if ok1 then write_rrs ds f2 else Some (False, f2)
       }
     }"

definition rrset_header :: "int \<Rightarrow> rr_set \<Rightarrow> byte list" where
  "rrset_header tp rs = [word_of_int tp, word_of_nat (min 255 (length (rs_rrs rs)))] @ le16 (rs_flags rs) @
     time_bytes (rs_ttl rs) @ time_bytes (rs_ts rs)"

definition write_rrset :: "int \<Rightarrow> rr_set \<Rightarrow> wfile \<Rightarrow> (bool \<times> wfile) option" where
  "write_rrset tp rs f =
     do {
       let (ok, f1) = fwrite (rrset_header tp rs) f;
       if ok then write_rrs (take 255 (rs_rrs rs)) f1 else Some (False, f1)
     }"

text \<open>Whether an entry is written: it is negative and not local, or has an RR set that is not local.\<close>

fun any_nonlocal :: "dns_cent \<Rightarrow> nat list \<Rightarrow> bool option" where
  "any_nonlocal c [] = Some False"
| "any_nonlocal c (i # is) =
     do {
       r \<leftarrow> RRARR_INDEX c i;
       if (case r of None \<Rightarrow> False | Some rs \<Rightarrow> \<not> has (rs_flags rs) CF_LOCAL) then Some True
       else any_nonlocal c is
     }"

definition cent_written :: "dns_cent \<Rightarrow> bool option" where
  "cent_written c =
     (if has (ce_flags c) DF_NEGATIVE then Some (\<not> has (ce_flags c) DF_LOCAL)
      else do { jlim \<leftarrow> RRARR_LEN c; any_nonlocal c [0..<jlim] })"

fun count_written :: "cache \<Rightarrow> nat list \<Rightarrow> nat option" where
  "count_written \<sigma> [] = Some 0"
| "count_written \<sigma> (a # as) =
     do { c \<leftarrow> cents \<sigma> a; w \<leftarrow> cent_written c; n \<leftarrow> count_written \<sigma> as; Some (if w then n + 1 else n) }"

fun count_nonlocal :: "dns_cent \<Rightarrow> nat list \<Rightarrow> nat option" where
  "count_nonlocal c [] = Some 0"
| "count_nonlocal c (i # is) =
     do {
       r \<leftarrow> RRARR_INDEX c i;
       n \<leftarrow> count_nonlocal c is;
       Some (if (case r of None \<Rightarrow> False | Some rs \<Rightarrow> \<not> has (rs_flags rs) CF_LOCAL) then n + 1 else n)
     }"

definition cent_header :: "dns_cent \<Rightarrow> nat \<Rightarrow> nat \<Rightarrow> byte list" where
  "cent_header c qlen nrrs = [word_of_nat qlen, word_of_nat nrrs] @ le16 (ce_flags c) @ [ce_ns c, ce_soa c]"

definition NRRITERLIST :: "dns_cent \<Rightarrow> int list option" where
  "NRRITERLIST c = (if has (ce_flags c) DF_NEGATIVE then Some []
     else case ce_body c of NegBody _ _ _ \<Rightarrow> None
          | RRBody _ ext \<Rightarrow> Some (if ext \<noteq> None then rrcachiterlist else rrmuiterlist))"

fun write_sets :: "dns_cent \<Rightarrow> int list \<Rightarrow> wfile \<Rightarrow> (bool \<times> wfile) option" where
  "write_sets c [] f = Some (True, f)"
| "write_sets c (tp # tps) f =
     do {
       r \<leftarrow> getrrset_eff c tp;
       case r of
         None \<Rightarrow> write_sets c tps f
       | Some rs \<Rightarrow>
           if has (rs_flags rs) CF_LOCAL then write_sets c tps f
           else do { (ok, f1) \<leftarrow> write_rrset tp rs f; if ok then write_sets c tps f1 else Some (False, f1) }
     }"

definition write_cent :: "dns_cent \<Rightarrow> wfile \<Rightarrow> (bool \<times> wfile) option" where
  "write_cent c f =
     do {
       nlen \<leftarrow> rhnlen (ce_qname c);
       jlim \<leftarrow> RRARR_LEN c;
       nrrs \<leftarrow> count_nonlocal c [0..<jlim];
       let qlen = nlen - 1;
       let (ok, f1) = fwrite (cent_header c qlen nrrs) f;
       if \<not> ok then Some (False, f1)
       else do {
         (ok1, f2) \<leftarrow> (if \<not> has (ce_flags c) DF_NEGATIVE then Some (True, f1)
            else (case ce_body c of RRBody _ _ \<Rightarrow> None
              | NegBody _ ttl ts \<Rightarrow> Some (fwrite (time_bytes ttl @ time_bytes ts) f1)));
         if \<not> ok1 then Some (False, f2)
         else do {
           nm \<leftarrow> rdn (ce_qname c) 0 qlen;
           let (ok2, f3) = (if qlen = 0 then (True, f2) else fwrite nm f2);
           if \<not> ok2 then Some (False, f3)
           else do { tps \<leftarrow> NRRITERLIST c; write_sets c tps f3 }
         }
       }
     }"

fun write_cents :: "cache \<Rightarrow> nat list \<Rightarrow> wfile \<Rightarrow> (bool \<times> wfile) option" where
  "write_cents \<sigma> [] f = Some (True, f)"
| "write_cents \<sigma> (a # as) f =
     do {
       c \<leftarrow> cents \<sigma> a;
       w \<leftarrow> cent_written c;
       if \<not> w then write_cents \<sigma> as f
       else do { (ok, f1) \<leftarrow> write_cent c f; if ok then write_cents \<sigma> as f1 else Some (False, f1) }
     }"

text \<open>The entries in the order in which \<open>fetch_first\<close> and \<open>fetch_next\<close> deliver them.\<close>

partial_function (option) fetch_all :: "htable \<Rightarrow> (nat \<times> hpos) option \<Rightarrow> nat list option" where
  "fetch_all t p =
     (if p = None then Some []
      else do { as \<leftarrow> fetch_all t (fetch_next t (snd (the p))); Some (fst (the p) # as) })"

declare fetch_all.simps [code]

text \<open>\<open>write_disk_cache\<close>: \<open>locked\<close> tells whether the locks were obtained, \<open>opened\<close> whether the file
  could be opened. The cache is purged to the permanent size first.\<close>

definition write_disk_cache ::
    "int \<Rightarrow> cconf \<Rightarrow> bool \<Rightarrow> bool \<Rightarrow> bool list \<Rightarrow> cache \<Rightarrow> (wfile option \<times> cache) option" where
  "write_disk_cache now conf locked opened oks \<sigma> =
     (if \<not> locked then Some (None, \<sigma>)
      else do {
        \<sigma>1 \<leftarrow> purge_cache now (perm_cache conf * 1024) False \<sigma>;
        if \<not> opened then Some (None, \<sigma>1)
        else do {
          let (ok, f1) = fwrite cachverid \<lparr> wf_out = [], wf_oks = oks \<rparr>;
          if \<not> ok then Some (Some f1, \<sigma>1)
          else do {
            as \<leftarrow> fetch_all (buckets \<sigma>1) (fetch_first (buckets \<sigma>1));
            en \<leftarrow> count_written \<sigma>1 as;
            let (ok1, f2) = fwrite (le32 (word_of_nat en)) f1;
            if \<not> ok1 then Some (Some f2, \<sigma>1)
            else do { (_, f3) \<leftarrow> write_cents \<sigma>1 as f2; Some (Some f3, \<sigma>1) }
          }
        }
      })"

subsection \<open>Reading\<close>

definition fread :: "nat \<Rightarrow> byte list \<Rightarrow> (byte list \<times> byte list) option" where
  "fread n bs = (if n \<le> length bs then Some (take n bs, drop n bs) else None)"

text \<open>How a part of the reading ends: it goes on, it stops after \<open>free_cent\<close>
  (\<open>free_cent_data_fclose\<close>), it stops without it (\<open>free_data_fclose\<close>), or memory ran out and the
  program exits.\<close>

datatype rstat = RdOk | RdStop | RdLeak | RdNoMem

fun read_rrs :: "nat \<Rightarrow> int \<Rightarrow> int \<Rightarrow> int \<Rightarrow> u16 \<Rightarrow> nat \<Rightarrow> byte list \<Rightarrow> dns_cent \<Rightarrow> cache \<Rightarrow>
    (rstat \<times> nat \<times> byte list \<times> dns_cent \<times> cache) option" where
  "read_rrs 0 tp ttl ts fl dtsz bs c \<sigma> = Some (RdOk, dtsz, bs, c, \<sigma>)"
| "read_rrs (Suc n) tp ttl ts fl dtsz bs c \<sigma> =
     (case fread 2 bs of None \<Rightarrow> Some (RdStop, dtsz, bs, c, \<sigma>)
      | Some (h, bs1) \<Rightarrow>
          let rdlen = unat (un_le16 h) in
          let (ok, \<sigma>1) = (if rdlen > dtsz then malloc \<sigma> else (True, \<sigma>)) in
          if \<not> ok then Some (RdNoMem, dtsz, bs1, c, \<sigma>1)
          else (case (if rdlen = 0 then Some ([], bs1) else fread rdlen bs1) of
             None \<Rightarrow> Some (RdStop, max dtsz rdlen, bs1, c, \<sigma>1)
           | Some (data, bs2) \<Rightarrow> do {
               (ok1, c1, \<sigma>2) \<leftarrow> add_cent_rr c tp ttl ts fl data \<sigma>1;
               if \<not> ok1 then Some (RdNoMem, max dtsz rdlen, bs2, c1, \<sigma>2)
               else read_rrs n tp ttl ts fl (max dtsz rdlen) bs2 c1 \<sigma>2
             }))"

fun read_sets :: "nat \<Rightarrow> int \<Rightarrow> nat \<Rightarrow> byte list \<Rightarrow> dns_cent \<Rightarrow> cache \<Rightarrow>
    (rstat \<times> nat \<times> byte list \<times> dns_cent \<times> cache) option" where
  "read_sets 0 prevtp dtsz bs c \<sigma> = Some (RdOk, dtsz, bs, c, \<sigma>)"
| "read_sets (Suc n) prevtp dtsz bs c \<sigma> =
     (case fread 12 bs of None \<Rightarrow> Some (RdStop, dtsz, bs, c, \<sigma>)
      | Some (sh, bs1) \<Rightarrow>
          let tp = uint (sh ! 0); num_rr = unat (sh ! 1); fl = un_le16 (take 2 (drop 2 sh));
              ttl = bytes_time (take 4 (drop 4 sh)); ts = bytes_time (take 4 (drop 8 sh)) in
          if PDNSD_NOT_CACHED_TYPE tp \<or> tp \<le> prevtp then Some (RdLeak, dtsz, bs1, c, \<sigma>)
          else do {
            (ok, c1, \<sigma>1) \<leftarrow> add_cent_rrset_by_type c tp ttl ts fl \<sigma>;
            if \<not> ok then Some (RdNoMem, dtsz, bs1, c1, \<sigma>1)
            else do {
              (st, dtsz1, bs2, c2, \<sigma>2) \<leftarrow> read_rrs num_rr tp ttl ts fl dtsz bs1 c1 \<sigma>1;
              if st = RdOk then read_sets n tp dtsz1 bs2 c2 \<sigma>2 else Some (st, dtsz1, bs2, c2, \<sigma>2)
            }
          })"

text \<open>The check of a domain name: every label has a length from 1 to 63 and the labels end where the
  name ends.\<close>

function check_dom :: "byte list \<Rightarrow> nat \<Rightarrow> bool" where
  "check_dom nb i =
     (if i < length nb then
        let lb = unat (nb ! i) in
        if lb = 0 \<or> lb > 63 \<or> i + lb + 1 > length nb then False else check_dom nb (i + lb + 1)
      else True)"
  by pat_completeness auto
termination
  by (relation "measure (\<lambda>(nb, i). length nb - i)") auto

declare check_dom.simps [simp del]

text \<open>One entry: its header, name and RR sets, after which it is added to the cache and freed.\<close>

definition read_body :: "int \<Rightarrow> cconf \<Rightarrow> byte list \<Rightarrow> int \<Rightarrow> int \<Rightarrow> byte list \<Rightarrow> nat \<Rightarrow> byte list \<Rightarrow> cache \<Rightarrow>
    (rstat \<times> nat \<times> byte list \<times> cache) option" where
  "read_body now conf fe ttl ts nb dtsz bs \<sigma> =
     do {
       (r, \<sigma>1) \<leftarrow> init_cent (nb @ [0]) ttl ts (un_le16 (take 2 (drop 2 fe))) \<sigma>;
       if r = None then Some (RdNoMem, dtsz, bs, \<sigma>1)
       else do {
         let ce = (the r)\<lparr> ce_ns := fe ! 4, ce_soa := fe ! 5 \<rparr>;
         (st, dtsz1, bs1, ce1, \<sigma>2) \<leftarrow> read_sets (unat (fe ! 1)) 0 dtsz bs ce \<sigma>1;
         if st = RdLeak then Some (RdLeak, dtsz1, bs1, \<sigma>2)
         else if st \<noteq> RdOk then do { \<sigma>3 \<leftarrow> free_cent ce1 \<sigma>2; Some (st, dtsz1, bs1, \<sigma>3) }
         else do {
           \<sigma>3 \<leftarrow> add_cache now conf ce1 \<sigma>2;
           \<sigma>4 \<leftarrow> free_cent ce1 \<sigma>3;
           Some (RdOk, dtsz1, bs1, \<sigma>4)
         }
       }
     }"

definition read_entry :: "int \<Rightarrow> cconf \<Rightarrow> nat \<Rightarrow> byte list \<Rightarrow> cache \<Rightarrow> (rstat \<times> nat \<times> byte list \<times> cache) option" where
  "read_entry now conf dtsz bs \<sigma> =
     (case fread 6 bs of None \<Rightarrow> Some (RdLeak, dtsz, bs, \<sigma>)
      | Some (fe, bs1) \<Rightarrow>
          let fl = un_le16 (take 2 (drop 2 fe)); qlen = unat (fe ! 0) in
          (case (if has fl DF_NEGATIVE then fread 8 bs1 else Some (replicate 8 0, bs1)) of
             None \<Rightarrow> Some (RdLeak, dtsz, bs1, \<sigma>)
           | Some (tt, bs2) \<Rightarrow>
               (case (if qlen > 0 then fread qlen bs2 else Some ([], bs2)) of
                  None \<Rightarrow> Some (RdLeak, dtsz, bs2, \<sigma>)
                | Some (nb, bs3) \<Rightarrow>
                    if \<not> check_dom nb 0 then Some (RdLeak, dtsz, bs3, \<sigma>)
                    else read_body now conf fe (bytes_time (take 4 tt)) (bytes_time (drop 4 tt)) nb dtsz bs3 \<sigma>)))"

fun read_entries :: "int \<Rightarrow> cconf \<Rightarrow> nat \<Rightarrow> nat \<Rightarrow> byte list \<Rightarrow> cache \<Rightarrow> (rstat \<times> cache) option" where
  "read_entries now conf 0 dtsz bs \<sigma> = Some (RdOk, \<sigma>)"
| "read_entries now conf (Suc n) dtsz bs \<sigma> =
     do {
       (st, dtsz1, bs1, \<sigma>1) \<leftarrow> read_entry now conf dtsz bs \<sigma>;
       if st = RdOk then read_entries now conf n dtsz1 bs1 \<sigma>1 else Some (st, \<sigma>1)
     }"

text \<open>\<open>read_disk_cache\<close>: the result tells whether the program goes on. \<open>file\<close> is the content of the
  file, if it could be opened. While entries are read they are appended to the list of RR sets;
  afterwards the list is sorted, whatever the file held.\<close>

definition read_contents :: "int \<Rightarrow> cconf \<Rightarrow> byte list \<Rightarrow> cache \<Rightarrow> (rstat \<times> cache) option" where
  "read_contents now conf bs \<sigma> =
     (case fread 4 bs of None \<Rightarrow> Some (RdStop, \<sigma>)
      | Some (v, bs1) \<Rightarrow>
          if v \<noteq> cachverid then Some (RdStop, \<sigma>)
          else (case fread 4 bs1 of None \<Rightarrow> Some (RdStop, \<sigma>)
            | Some (cnt, bs2) \<Rightarrow> read_entries now conf (unat (un_le32 cnt)) 512 bs2 \<sigma>))"

definition read_disk_cache :: "int \<Rightarrow> cconf \<Rightarrow> byte list option \<Rightarrow> cache \<Rightarrow> (bool \<times> cache) option" where
  "read_disk_cache now conf file \<sigma> = (case file of
     None \<Rightarrow> Some (True, \<sigma>)
   | Some bs \<Rightarrow> do {
       let (ok, \<sigma>1) = malloc \<sigma>;
       if \<not> ok then Some (False, \<sigma>1)
       else do {
         (st, \<sigma>2) \<leftarrow> read_contents now conf bs (\<sigma>1\<lparr> insert_sort := False \<rparr>);
         if st = RdNoMem then Some (False, \<sigma>2)
         else do { \<sigma>3 \<leftarrow> sort_list \<sigma>2; Some (True, \<sigma>3) }
       }
     })"

end
