(* ===== verification/Pd_Answer.thy ===== *)
theory Pd_Answer
  imports Pd_Cache Pd_Dns
begin

text \<open>
  Composing an answer (\<open>dns_answer.c\<close>): the records of the cache entries found for a query are put
  into a message that grows as needed, with compressed names; the name servers and their addresses
  follow in the authority and additional sections.

  The message is the allocated block from its header on, \<open>an_sz\<close> of its bytes being in use;
  \<open>allocsz\<close> counts the two bytes before the header as well. The lists \<open>cb\<close>, \<open>sva\<close> and \<open>ar\<close> are lists
  of their elements. What a fresh block holds, the results of \<open>random()\<close> and \<open>time()\<close>, and the
  outcome of every allocation are arbitrary; one outcome is drawn for each call that may allocate.
  \<open>dns_cached_resolve\<close> of \<open>dns_query.c\<close> is a parameter.
\<close>

subsection \<open>Data\<close>

abbreviation (input) dnsmsghdroffset :: nat where "dnsmsghdroffset \<equiv> 2"
abbreviation (input) sizeof_dns_hdr :: nat where "sizeof_dns_hdr \<equiv> 12"
abbreviation (input) sizeof_rr_hdr_t :: nat where "sizeof_rr_hdr_t \<equiv> 10"
abbreviation (input) sizeof_opt_pseudo_rr :: nat where "sizeof_opt_pseudo_rr \<equiv> 11"
abbreviation (input) ALLOCINITIALSIZE :: nat where "ALLOCINITIALSIZE \<equiv> 256"
abbreviation (input) MAX_HOPS :: nat where "MAX_HOPS \<equiv> 20"
abbreviation (input) UDP_BUFSIZE :: nat where "UDP_BUFSIZE \<equiv> 512"
abbreviation (input) QT_IXFR :: int where "QT_IXFR \<equiv> 251"
abbreviation (input) QT_AXFR :: int where "QT_AXFR \<equiv> 252"
abbreviation (input) QT_MAILB :: int where "QT_MAILB \<equiv> 253"
abbreviation (input) QT_MAILA :: int where "QT_MAILA \<equiv> 254"
abbreviation (input) QT_ALL :: int where "QT_ALL \<equiv> 255"
abbreviation (input) C_IN :: int where "C_IN \<equiv> 1"
abbreviation (input) QC_ALL :: int where "QC_ALL \<equiv> 255"
abbreviation (input) RC_NAMEERR :: int where "RC_NAMEERR \<equiv> 3"
abbreviation (input) RC_NOTSUPP :: int where "RC_NOTSUPP \<equiv> 4"
abbreviation (input) RC_BADVERS :: int where "RC_BADVERS \<equiv> 16"
abbreviation (input) RRETP_ADD :: int where "RRETP_ADD \<equiv> 0"

record queryel =
  q_type :: int
  q_class :: int
  q_name :: name

datatype sect_t = S_ANSWER | S_AUTHORITY | S_ADDITIONAL

text \<open>\<open>sva_t\<close> with the name and the data behind it, \<open>rr_ext_t\<close> with \<open>tnm\<close> and \<open>nm\<close>.\<close>

record sva_t =
  sv_tp :: int
  sv_dlen :: nat
  sv_nm :: "byte list"

record rr_ext =
  re_tp :: int
  re_tsz :: nat
  re_ttl :: u32
  re_tnm :: "byte list"

record edns_info =
  ed_udpsize :: nat
  ed_rcode :: nat
  ed_version :: nat
  ed_do :: bool

text \<open>The message being composed with the other variables of \<open>compose_answer\<close>, the cache, and the
  coming results of \<open>random()\<close> and \<open>time()\<close>.\<close>

record ans =
  an_buf :: "byte list"
  an_sz :: nat
  an_alloc :: nat
  an_cb :: "compel list"
  an_sva :: "sva_t list"
  an_ar :: "rr_ext list"
  an_aa :: bool
  an_rcode :: int
  an_cache :: cache
  an_random :: "nat list"
  an_clock :: "int list"

text \<open>What the code gets from outside: the contents of fresh memory, the settings \<open>rnd_recs\<close> and
  \<open>udpbufsize\<close>, what other threads do to the cache while a look-up waits for the write lock, and
  \<open>dns_cached_resolve\<close>: name, type, hops and time to return code, entry, \<open>*c_soa\<close> and cache.\<close>

record aenv =
  ev_fill :: "nat \<Rightarrow> byte"
  ev_rnd_recs :: bool
  ev_udpbufsize :: nat
  ev_others :: "cache \<Rightarrow> cache"
  ev_resolve :: "name \<Rightarrow> int \<Rightarrow> nat \<Rightarrow> int \<Rightarrow> cache \<Rightarrow> int \<times> dns_cent option \<times> byte \<times> cache"

definition an_malloc :: "ans \<Rightarrow> bool \<times> ans" where
  "an_malloc s = (let (ok, \<sigma>) = malloc (an_cache s) in (ok, s\<lparr> an_cache := \<sigma> \<rparr>))"

definition an_rand :: "ans \<Rightarrow> nat \<times> ans" where
  "an_rand s = (case an_random s of [] \<Rightarrow> (0, s) | r # rs \<Rightarrow> (r, s\<lparr> an_random := rs \<rparr>))"

definition an_time :: "ans \<Rightarrow> int \<times> ans" where
  "an_time s = (case an_clock s of [] \<Rightarrow> (0, s) | t # ts \<Rightarrow> (t, s\<lparr> an_clock := ts \<rparr>))"

definition fresh :: "aenv \<Rightarrow> nat \<Rightarrow> nat \<Rightarrow> byte list" where
  "fresh E a b = map (ev_fill E) [a..<b]"

text \<open>\<open>f(...) || return 0\<close>.\<close>

definition and_then :: "(bool \<times> ans) option \<Rightarrow> (ans \<Rightarrow> (bool \<times> ans) option) \<Rightarrow> (bool \<times> ans) option" where
  "and_then r k = do { (ok, s) \<leftarrow> r; if ok then k s else Some (False, s) }"

subsection \<open>Bytes of a message\<close>

definition be16 :: "u16 \<Rightarrow> byte list" where
  "be16 x = [ucast (drop_bit 8 x), ucast x]"

definition be32 :: "u32 \<Rightarrow> byte list" where
  "be32 x = [ucast (drop_bit 24 x), ucast (drop_bit 16 x), ucast (drop_bit 8 x), ucast x]"

definition get16 :: "byte list \<Rightarrow> nat \<Rightarrow> nat option" where
  "get16 m i = do { a \<leftarrow> rd m i; b \<leftarrow> rd m (i + 1); Some (unat a * 256 + unat b) }"

text \<open>\<open>htons(ntohs(x)+1)\<close> on a counter of the header.\<close>

definition inc16 :: "byte list \<Rightarrow> nat \<Rightarrow> byte list option" where
  "inc16 m i = do { n \<leftarrow> get16 m i; wrn m i (be16 (word_of_nat (n + 1))) }"

text \<open>The bit fields of the header.\<close>

definition hdr_byte2 :: "bool \<Rightarrow> byte \<Rightarrow> bool \<Rightarrow> bool \<Rightarrow> bool \<Rightarrow> byte" where
  "hdr_byte2 qr opcode aa tc rdes =
     push_bit 7 (of_bool qr) OR push_bit 3 (opcode AND 0xf) OR push_bit 2 (of_bool aa) OR
     push_bit 1 (of_bool tc) OR of_bool rdes"

definition hdr_byte3 :: "bool \<Rightarrow> bool \<Rightarrow> bool \<Rightarrow> bool \<Rightarrow> int \<Rightarrow> byte" where
  "hdr_byte3 ra z ad cd rcode =
     push_bit 7 (of_bool ra) OR push_bit 6 (of_bool z) OR push_bit 5 (of_bool ad) OR
     push_bit 4 (of_bool cd) OR (word_of_int rcode AND 0xf)"

definition hdr_qr :: "byte list \<Rightarrow> bool option" where
  "hdr_qr m = do { b \<leftarrow> rd m 2; Some (bit b 7) }"

definition hdr_opcode :: "byte list \<Rightarrow> byte option" where
  "hdr_opcode m = do { b \<leftarrow> rd m 2; Some (drop_bit 3 b AND 0xf) }"

definition hdr_tc :: "byte list \<Rightarrow> bool option" where
  "hdr_tc m = do { b \<leftarrow> rd m 2; Some (bit b 1) }"

definition hdr_rd :: "byte list \<Rightarrow> bool option" where
  "hdr_rd m = do { b \<leftarrow> rd m 2; Some (bit b 0) }"

definition hdr_z :: "byte list \<Rightarrow> bool option" where
  "hdr_z m = do { b \<leftarrow> rd m 3; Some (bit b 6) }"

definition hdr_rcode :: "byte list \<Rightarrow> byte option" where
  "hdr_rcode m = do { b \<leftarrow> rd m 3; Some (b AND 0xf) }"

definition set_rcode :: "int \<Rightarrow> ans \<Rightarrow> ans option" where
  "set_rcode rc s =
     do {
       b \<leftarrow> rd (an_buf s) 3;
       m \<leftarrow> wr (an_buf s) 3 ((b AND 0xf0) OR (word_of_int rc AND 0xf));
       Some (s\<lparr> an_buf := m, an_rcode := rc \<rparr>)
     }"

definition set_aa :: "ans \<Rightarrow> ans option" where
  "set_aa s =
     do { b \<leftarrow> rd (an_buf s) 2; m \<leftarrow> wr (an_buf s) 2 (b OR 4); Some (s\<lparr> an_buf := m \<rparr>) }"

subsection \<open>Growing the message\<close>

text \<open>The sizes are multiples of 128 bytes: \<open>(newsz+ALLOCCHUNKSIZEMASK)&(~ALLOCCHUNKSIZEMASK)\<close>.\<close>

definition chunk_size :: "nat \<Rightarrow> nat" where
  "chunk_size n = (n + 127) div 128 * 128"

definition grow_ans :: "aenv \<Rightarrow> nat \<Rightarrow> ans \<Rightarrow> bool \<times> ans" where
  "grow_ans E newsz s =
     (if newsz > an_alloc s then
        let (ok, s1) = an_malloc s in
        if \<not> ok then (False, s1)
        else (True, s1\<lparr> an_alloc := chunk_size newsz,
          an_buf := an_buf s @ fresh E (length (an_buf s)) (chunk_size newsz - dnsmsghdroffset) \<rparr>)
      else (True, s))"

text \<open>A name compressed into the message at its end, and bytes copied there; both advance \<open>*sz\<close>.\<close>

definition put_name :: "name \<Rightarrow> ans \<Rightarrow> (nat \<times> ans) option" where
  "put_name nm s =
     do {
       let (ok, s1) = an_malloc s;
       (n, out, cb) \<leftarrow> compress_name nm (drop (an_sz s) (an_buf s)) (an_sz s) (an_cb s) ok;
       must (an_sz s \<le> length (an_buf s));
       Some (n, s1\<lparr> an_buf := take (an_sz s) (an_buf s) @ out, an_cb := cb, an_sz := an_sz s + n \<rparr>)
     }"

definition put_bytes :: "byte list \<Rightarrow> ans \<Rightarrow> ans option" where
  "put_bytes bs s =
     do { m \<leftarrow> wrn (an_buf s) (an_sz s) bs; Some (s\<lparr> an_buf := m, an_sz := an_sz s + length bs \<rparr>) }"

subsection \<open>The data of a record\<close>

text \<open>The cases of \<open>add_rr\<close>: \<open>rdlen\<close>, or none where the function returns 0. The assertions that the
  data have not become longer are in the code.\<close>

type_synonym rd_res = "(nat option \<times> ans) option"

definition name_then :: "name \<Rightarrow> ans \<Rightarrow> (nat \<Rightarrow> ans \<Rightarrow> rd_res) \<Rightarrow> rd_res" where
  "name_then nm s k = do { (n, s1) \<leftarrow> put_name nm s; if n = 0 then Some (None, s1) else k n s1 }"

definition rdata_name :: "byte list \<Rightarrow> ans \<Rightarrow> rd_res" where
  "rdata_name data s =
     name_then data s (\<lambda>n s. do { must (n \<le> length data); Some (Some n, s) })"

definition rdata_two_names :: "byte list \<Rightarrow> ans \<Rightarrow> rd_res" where
  "rdata_two_names data s =
     name_then data s (\<lambda>n s. do {
       ilen \<leftarrow> rhnlen data;
       must (n \<le> ilen);
       name_then (drop ilen data) s (\<lambda>b s. do { must (n + b \<le> length data); Some (Some (n + b), s) })
     })"

text \<open>A fixed number of bytes followed by a name: 2 for \<open>T_MX\<close> and its like, 6 for \<open>T_SRV\<close>.\<close>

definition rdata_pref_name :: "nat \<Rightarrow> byte list \<Rightarrow> ans \<Rightarrow> rd_res" where
  "rdata_pref_name k data s =
     do {
       must (length data > k);
       bs \<leftarrow> rdn data 0 k;
       s1 \<leftarrow> put_bytes bs s;
       name_then (drop k data) s1 (\<lambda>b s. do { must (k + b \<le> length data); Some (Some (k + b), s) })
     }"

definition rdata_soa :: "byte list \<Rightarrow> ans \<Rightarrow> rd_res" where
  "rdata_soa data s =
     name_then data s (\<lambda>n s. do {
       ilen \<leftarrow> rhnlen data;
       must (n \<le> ilen);
       name_then (drop ilen data) s (\<lambda>b s. do {
         l2 \<leftarrow> rhnlen (drop ilen data);
         must (n + b \<le> ilen + l2);
         bs \<leftarrow> rdn data (ilen + l2) 20;
         s1 \<leftarrow> put_bytes bs s;
         must (n + b + 20 \<le> length data);
         Some (Some (n + b + 20), s1)
       })
     })"

definition rdata_px :: "byte list \<Rightarrow> ans \<Rightarrow> rd_res" where
  "rdata_px data s =
     do {
       must (length data > 2);
       bs \<leftarrow> rdn data 0 2;
       s1 \<leftarrow> put_bytes bs s;
       name_then (drop 2 data) s1 (\<lambda>b s. do {
         l \<leftarrow> rhnlen (drop 2 data);
         must (2 + b \<le> 2 + l);
         name_then (drop (2 + l) data) s (\<lambda>c s. do {
           must (2 + b + c \<le> length data);
           Some (Some (2 + b + c), s)
         })
       })
     }"

definition rdata_nxt :: "byte list \<Rightarrow> ans \<Rightarrow> rd_res" where
  "rdata_nxt data s =
     name_then data s (\<lambda>b s. do {
       ilen \<leftarrow> rhnlen data;
       must (b \<le> ilen);
       must (length data \<ge> ilen);
       if length data > ilen then do {
         bs \<leftarrow> rdn data ilen (length data - ilen);
         s1 \<leftarrow> put_bytes bs s;
         Some (Some (b + (length data - ilen)), s1)
       }
       else Some (Some b, s)
     })"

text \<open>The three strings of a \<open>T_NAPTR\<close> record.\<close>

fun naptr_skip :: "nat \<Rightarrow> byte list \<Rightarrow> nat \<Rightarrow> nat option" where
  "naptr_skip 0 data ilen = Some ilen"
| "naptr_skip (Suc j) data ilen =
     do {
       l \<leftarrow> rd data ilen;
       must (length data > ilen + unat l + 1);
       naptr_skip j data (ilen + unat l + 1)
     }"

definition rdata_naptr :: "byte list \<Rightarrow> ans \<Rightarrow> rd_res" where
  "rdata_naptr data s =
     do {
       must (length data > 4);
       ilen \<leftarrow> naptr_skip 3 data 4;
       bs \<leftarrow> rdn data 0 ilen;
       s1 \<leftarrow> put_bytes bs s;
       name_then (drop ilen data) s1 (\<lambda>b s. do { must (ilen + b \<le> length data); Some (Some (ilen + b), s) })
     }"

definition rdata_plain :: "byte list \<Rightarrow> ans \<Rightarrow> rd_res" where
  "rdata_plain data s = do { s1 \<leftarrow> put_bytes data s; Some (Some (length data), s1) }"

definition put_rdata :: "int \<Rightarrow> byte list \<Rightarrow> ans \<Rightarrow> rd_res" where
  "put_rdata tp data s =
     (if tp \<in> {T_CNAME, T_MB, T_MD, T_MF, T_MG, T_MR, T_NS, T_PTR} then rdata_name data s
      else if tp \<in> {T_MINFO, T_RP} then rdata_two_names data s
      else if tp \<in> {T_MX, T_AFSDB, T_RT, T_KX} then rdata_pref_name 2 data s
      else if tp = T_SOA then rdata_soa data s
      else if tp = T_PX then rdata_px data s
      else if tp = T_SRV then rdata_pref_name 6 data s
      else if tp = T_NXT then rdata_nxt data s
      else if tp = T_NAPTR then rdata_naptr data s
      else rdata_plain data s)"

subsection \<open>\<open>add_rr\<close>\<close>

definition count_offs :: "sect_t \<Rightarrow> nat" where
  "count_offs sect = (case sect of S_ANSWER \<Rightarrow> 6 | S_AUTHORITY \<Rightarrow> 8 | S_ADDITIONAL \<Rightarrow> 10)"

definition rr_header :: "int \<Rightarrow> u32 \<Rightarrow> nat \<Rightarrow> byte list" where
  "rr_header tp ttl rdlen = be16 (word_of_int tp) @ be16 (word_of_int C_IN) @ be32 ttl @ be16 (word_of_nat rdlen)"

text \<open>The owner name goes into a buffer of its own first, the message is grown, and the name copied.\<close>

definition put_owner :: "aenv \<Rightarrow> name \<Rightarrow> nat \<Rightarrow> ans \<Rightarrow> (bool \<times> ans) option" where
  "put_owner E rrn dlen s =
     do {
       let (ok, s1) = an_malloc s;
       (nlen, nbuf, cb) \<leftarrow> compress_name rrn (fresh E 0 DNSNAMEBUFSIZE) (an_sz s) (an_cb s) ok;
       let s2 = s1\<lparr> an_cb := cb \<rparr>;
       if nlen = 0 then Some (False, s2)
       else do {
         let (ok, s3) = grow_ans E (dnsmsghdroffset + an_sz s + nlen + sizeof_rr_hdr_t + dlen) s2;
         if \<not> ok then Some (False, s3)
         else do {
           bs \<leftarrow> rdn nbuf 0 nlen;
           s4 \<leftarrow> put_bytes bs s3;
           Some (True, s4)
         }
       }
     }"

definition add_rr ::
    "aenv \<Rightarrow> name \<Rightarrow> int \<Rightarrow> u32 \<Rightarrow> byte list \<Rightarrow> sect_t \<Rightarrow> nat option \<Rightarrow> ans \<Rightarrow> (bool \<times> ans) option" where
  "add_rr E rrn tp ttl data sect udp s =
     and_then (put_owner E rrn (length data) s) (\<lambda>s1. do {
       let rrht = an_sz s1;
       (r, s2) \<leftarrow> put_rdata tp data (s1\<lparr> an_sz := an_sz s1 + sizeof_rr_hdr_t \<rparr>);
       case r of
         None \<Rightarrow> Some (False, s2)
       | Some rdlen \<Rightarrow>
           if (case udp of None \<Rightarrow> False | Some u \<Rightarrow> an_sz s2 > u) \<and> sect = S_ADDITIONAL
           then Some (True, s2\<lparr> an_sz := an_sz s \<rparr>)
           else do {
             m \<leftarrow> wrn (an_buf s2) rrht (rr_header tp ttl rdlen);
             m1 \<leftarrow> inc16 m (count_offs sect);
             Some (True, s2\<lparr> an_buf := m1 \<rparr>)
           }
     })"

definition add_opt_pseudo_rr :: "aenv \<Rightarrow> nat \<Rightarrow> int \<Rightarrow> byte \<Rightarrow> u16 \<Rightarrow> ans \<Rightarrow> (bool \<times> ans) option" where
  "add_opt_pseudo_rr E udpsize rcode ednsver Zflags s =
     do {
       let (ok, s1) = grow_ans E (dnsmsghdroffset + an_sz s + sizeof_opt_pseudo_rr) s;
       if \<not> ok then Some (False, s1)
       else do {
         s2 \<leftarrow> put_bytes ([0] @ be16 (word_of_int T_OPT) @ be16 (word_of_nat udpsize) @
                 [word_of_int (rcode div 16), ednsver] @ be16 Zflags @ be16 0) s1;
         m \<leftarrow> inc16 (an_buf s2) 10;
         Some (True, s2\<lparr> an_buf := m \<rparr>)
       }
     }"

text \<open>The new size, 0 when there is no OPT record at the end, and the message.\<close>

definition remove_opt_pseudo_rr :: "byte list \<Rightarrow> nat \<Rightarrow> (nat \<times> byte list) option" where
  "remove_opt_pseudo_rr m sz =
     do {
       acnt \<leftarrow> get16 m 10;
       if \<not> (acnt > 0 \<and> sz \<ge> sizeof_dns_hdr + sizeof_opt_pseudo_rr) then Some (0, m)
       else do {
         b \<leftarrow> rd m (sz - sizeof_opt_pseudo_rr);
         if b \<noteq> 0 then Some (0, m)
         else do {
           tp \<leftarrow> get16 m (sz - sizeof_opt_pseudo_rr + 1);
           if int tp \<noteq> T_OPT then Some (0, m)
           else do {
             m1 \<leftarrow> wrn m 10 (be16 (word_of_nat (acnt - 1)));
             Some (sz - sizeof_opt_pseudo_rr, m1)
           }
         }
       }
     }"

end
