(* ===== verification/Pd_Compose.thy ===== *)
theory Pd_Compose
  imports Pd_Answer
begin

text \<open>
  The upper half of \<open>dns_answer.c\<close>: the RR sets of an entry become records of the message, the
  question is decoded, and \<open>process_query\<close> turns the bytes of a query into the bytes of an answer.
\<close>

subsection \<open>Marking what was added\<close>

text \<open>\<open>sva_add\<close> and \<open>add_ar\<close>: one more element of the list, which is lost when memory runs out.\<close>

definition sva_add :: "name \<Rightarrow> int \<Rightarrow> byte list \<Rightarrow> ans \<Rightarrow> (bool \<times> ans) option" where
  "sva_add rhn tp data s =
     do {
       rlen \<leftarrow> rhnlen rhn;
       let (ok, s1) = an_malloc s;
       if \<not> ok then Some (False, s1\<lparr> an_sva := [] \<rparr>)
       else do {
         nm \<leftarrow> rdn rhn 0 rlen;
         Some (True, s1\<lparr> an_sva := an_sva s @ [\<lparr> sv_tp = tp, sv_dlen = length data, sv_nm = nm @ data \<rparr>] \<rparr>)
       }
     }"

definition add_ar :: "int \<Rightarrow> byte list \<Rightarrow> name \<Rightarrow> u32 \<Rightarrow> ans \<Rightarrow> (bool \<times> ans) option" where
  "add_ar tp tnm nm ttl s =
     do {
       nmsz \<leftarrow> (if tp = T_NS \<or> tp = T_SOA then rhnlen nm else Some 0);
       let (ok, s1) = an_malloc s;
       if \<not> ok then Some (False, s1\<lparr> an_ar := [] \<rparr>)
       else do {
         bs \<leftarrow> rdn nm 0 nmsz;
         Some (True, s1\<lparr> an_ar := an_ar s @
           [\<lparr> re_tp = tp, re_tsz = length tnm, re_ttl = ttl, re_tnm = tnm @ bs \<rparr>] \<rparr>)
       }
     }"

definition ans_ttl :: "rr_set \<Rightarrow> int \<Rightarrow> int" where
  "ans_ttl rs queryts =
     (if has (rs_flags rs) CF_LOCAL then rs_ttl rs
      else let tpassed = queryts - rs_ts rs;
               tpassed = (if tpassed < 0 then 0 else tpassed);
               ttl = rs_ttl rs - tpassed
           in if ttl < 0 then 0 else ttl)"

text \<open>The first result tells whether there was a CNAME record, the second is the buffer.\<close>

definition follow_cname_chain :: "dns_cent \<Rightarrow> byte list \<Rightarrow> (bool \<times> byte list) option" where
  "follow_cname_chain c nm =
     do {
       r \<leftarrow> GET_RRSMU c 2;
       case r of
         None \<Rightarrow> Some (False, nm)
       | Some rs \<Rightarrow> (case rs_rrs rs of
           [] \<Rightarrow> Some (False, nm)
         | d # _ \<Rightarrow> do { must (length d \<le> DNSNAMEBUFSIZE); nm' \<leftarrow> wrn nm 0 d; Some (True, nm') })
     }"

subsection \<open>Adding RR sets\<close>

text \<open>The index of the record \<open>randrr\<close> selects.\<close>

definition randrr :: "byte list list \<Rightarrow> ans \<Rightarrow> nat \<times> ans" where
  "randrr rrs s = (if rrs = [] then (0, s) else let (r, s1) = an_rand s in (r mod length rrs, s1))"

text \<open>The loops that visit the records from \<open>first\<close> on, wrapping over at the end when they started at
  a random place. \<open>i\<close> is the place of the current record, \<open>first\<close> one of the list.\<close>

function rr_walk :: "(byte list \<Rightarrow> ans \<Rightarrow> (bool \<times> ans) option) \<Rightarrow> byte list list \<Rightarrow> bool \<Rightarrow> nat \<Rightarrow> nat \<Rightarrow>
    ans \<Rightarrow> (bool \<times> ans) option" where
  "rr_walk f rrs rnd first i s =
     (if \<not> i < length rrs then Some (True, s)
      else if rnd \<and> \<not> first < length rrs then None
      else and_then (f (rrs ! i) s) (\<lambda>s1.
          let i1 = i + 1 in
          if rnd then
            (let i2 = (if i1 \<ge> length rrs then 0 else i1) in
             if i2 = first then Some (True, s1) else rr_walk f rrs rnd first i2 s1)
          else rr_walk f rrs rnd first i1 s1))"
  by pat_completeness auto
termination
  by (relation "measure (\<lambda>(f, rrs, rnd, first, i, s).
        if rnd \<and> i < first then first - i else length rrs - i + (if rnd then first else 0))")
     (auto split: if_splits)

declare rr_walk.simps [simp del]

definition ar_recs :: "int list" where "ar_recs = [T_NS, T_MD, T_MF, T_MB, T_MX, T_SRV]"
definition ar_offs :: "nat list" where "ar_offs = [0, 0, 0, 0, 2, 6]"

definition mark_ar :: "int \<Rightarrow> byte list \<Rightarrow> ans \<Rightarrow> (bool \<times> ans) option" where
  "mark_ar tp data s = (case map_of (zip ar_recs ar_offs) tp of
     None \<Rightarrow> Some (True, s)
   | Some off \<Rightarrow> do {
       must (off \<le> length data);
       add_ar RRETP_ADD (drop off data) [0] 0 s
     })"

definition rrset_record ::
    "aenv \<Rightarrow> name \<Rightarrow> int \<Rightarrow> int \<Rightarrow> rr_set \<Rightarrow> nat option \<Rightarrow> byte list \<Rightarrow> ans \<Rightarrow> (bool \<times> ans) option" where
  "rrset_record E rrn tp queryts rs udp data s =
     and_then (add_rr E rrn tp (word_of_int (ans_ttl rs queryts)) data S_ANSWER udp s) (\<lambda>s1.
       and_then (if tp = T_NS \<or> tp = T_A \<or> tp = T_AAAA then sva_add rrn tp data s1 else Some (True, s1))
         (mark_ar tp data))"

definition add_rrset ::
    "aenv \<Rightarrow> name \<Rightarrow> int \<Rightarrow> int \<Rightarrow> dns_cent \<Rightarrow> nat option \<Rightarrow> ans \<Rightarrow> (bool \<times> ans) option" where
  "add_rrset E rrn tp queryts c udp s =
     do {
       r \<leftarrow> getrrset c tp;
       case r of
         None \<Rightarrow> Some (True, s)
       | Some rs \<Rightarrow>
           if rs_rrs rs = [] then Some (True, s)
           else let (first, s1) = (if ev_rnd_recs E then randrr (rs_rrs rs) s else (0, s)) in
             rr_walk (rrset_record E rrn tp queryts rs udp) (rs_rrs rs) (ev_rnd_recs E) first first s1
     }"

fun add_rrsets ::
    "aenv \<Rightarrow> name \<Rightarrow> int list \<Rightarrow> int \<Rightarrow> dns_cent \<Rightarrow> nat option \<Rightarrow> ans \<Rightarrow> (bool \<times> ans) option" where
  "add_rrsets E rrn [] queryts c udp s = Some (True, s)"
| "add_rrsets E rrn (tp # tps) queryts c udp s =
     and_then (add_rrset E rrn tp queryts c udp s) (add_rrsets E rrn tps queryts c udp)"

text \<open>\<open>qtype>=T_MIN && qtype<=T_MAX && have_rr(cached,qtype)\<close>.\<close>

definition have_qtype :: "dns_cent \<Rightarrow> int \<Rightarrow> bool option" where
  "have_qtype c qtype = (if qtype \<ge> T_MIN \<and> qtype \<le> T_MAX then have_rr c qtype else Some False)"

text \<open>The list over which \<open>QT_ALL\<close> iterates.\<close>

definition RRITERLIST :: "dns_cent \<Rightarrow> int list option" where
  "RRITERLIST c = (if has (ce_flags c) DF_NEGATIVE then Some []
     else case ce_body c of NegBody _ _ _ \<Rightarrow> None
          | RRBody _ ext \<Rightarrow> Some (if ext \<noteq> None then rrcachiterlist else rrmuiterlist))"

definition add_to_response ::
    "aenv \<Rightarrow> name \<Rightarrow> int \<Rightarrow> int \<Rightarrow> dns_cent \<Rightarrow> nat option \<Rightarrow> ans \<Rightarrow> (bool \<times> ans) option" where
  "add_to_response E rrn qtype queryts c udp s =
     do {
       cn \<leftarrow> (if qtype \<noteq> T_CNAME \<and> qtype \<noteq> QT_ALL
              then do { h \<leftarrow> have_qtype c qtype; Some (\<not> h) } else Some False);
       and_then (if cn then add_rrset E rrn T_CNAME queryts c udp s else Some (True, s)) (\<lambda>s1.
         if qtype = QT_AXFR \<or> qtype = QT_IXFR then Some (False, s1)
         else if qtype = QT_MAILB then add_rrsets E rrn [T_MB, T_MG, T_MR] queryts c udp s1
         else if qtype = QT_MAILA then add_rrsets E rrn [T_MD, T_MF] queryts c udp s1
         else if qtype = QT_ALL then do { l \<leftarrow> RRITERLIST c; add_rrsets E rrn l queryts c udp s1 }
         else if qtype \<ge> T_MIN \<and> qtype \<le> T_MAX then add_rrset E rrn qtype queryts c udp s1
         else Some (False, s1))
     }"

subsection \<open>Additional records\<close>

fun sva_member :: "sva_t list \<Rightarrow> name \<Rightarrow> int \<Rightarrow> byte list \<Rightarrow> bool option" where
  "sva_member [] rhn tp data = Some False"
| "sva_member (st # sva) rhn tp data =
     do {
       eq \<leftarrow> (if sv_tp st = tp then rhnicmp (sv_nm st) rhn else Some False);
       same \<leftarrow> (if eq \<and> sv_dlen st = length data then do {
           p \<leftarrow> skiprhn (sv_nm st);
           bs \<leftarrow> rdn p 0 (length data);
           Some (bs = data)
         } else Some False);
       if same then Some True else sva_member sva rhn tp data
     }"

definition add_additional_rr ::
    "aenv \<Rightarrow> name \<Rightarrow> int \<Rightarrow> u32 \<Rightarrow> byte list \<Rightarrow> sect_t \<Rightarrow> nat option \<Rightarrow> ans \<Rightarrow> (bool \<times> ans) option" where
  "add_additional_rr E rhn tp ttl data sect udp s =
     do {
       dup \<leftarrow> sva_member (an_sva s) rhn tp data;
       if dup then Some (True, s)
       else and_then (add_rr E rhn tp ttl data sect udp s) (sva_add rhn tp data)
     }"

definition add_additional_rrs ::
    "aenv \<Rightarrow> name \<Rightarrow> int \<Rightarrow> u32 \<Rightarrow> byte list list \<Rightarrow> sect_t \<Rightarrow> nat option \<Rightarrow> ans \<Rightarrow> (bool \<times> ans) option" where
  "add_additional_rrs E rhn tp ttl rrb sect udp s =
     (let (first, s1) = (if ev_rnd_recs E then randrr rrb s else (0, s)) in
      rr_walk (\<lambda>data. add_additional_rr E rhn tp ttl data sect udp) rrb (ev_rnd_recs E) first first s1)"

text \<open>Looking a name up in the cache and freeing the copy.\<close>

definition ans_lookup :: "aenv \<Rightarrow> name \<Rightarrow> ans \<Rightarrow> (dns_cent option \<times> ans) option" where
  "ans_lookup E nm s =
     do {
       let (t1, s1) = an_time s;
       let (t2, s2) = an_time s1;
       (r, _, \<sigma>) \<leftarrow> lookup_cache t1 t2 (ev_others E) nm False (an_cache s2);
       Some (r, s2\<lparr> an_cache := \<sigma> \<rparr>)
     }"

definition ans_free :: "dns_cent \<Rightarrow> ans \<Rightarrow> ans option" where
  "ans_free c s = do { \<sigma> \<leftarrow> free_cent c (an_cache s); Some (s\<lparr> an_cache := \<sigma> \<rparr>) }"

definition address_rrs ::
    "aenv \<Rightarrow> name \<Rightarrow> int \<Rightarrow> int \<Rightarrow> rr_set option \<Rightarrow> nat option \<Rightarrow> ans \<Rightarrow> (bool \<times> ans) option" where
  "address_rrs E rhn tp queryts r udp s = (case r of
     None \<Rightarrow> Some (True, s)
   | Some rs \<Rightarrow> if rs_rrs rs = [] then Some (True, s)
       else add_additional_rrs E rhn tp (word_of_int (ans_ttl rs queryts)) (rs_rrs rs) S_ADDITIONAL udp s)"

definition add_additional_a :: "aenv \<Rightarrow> name \<Rightarrow> int \<Rightarrow> nat option \<Rightarrow> ans \<Rightarrow> (bool \<times> ans) option" where
  "add_additional_a E rhn queryts udp s =
     do {
       (ae, s1) \<leftarrow> ans_lookup E rhn s;
       case ae of
         None \<Rightarrow> Some (True, s1)
       | Some c \<Rightarrow> do {
           a \<leftarrow> GET_RRSMU c 0;
           (ok, s2) \<leftarrow> and_then (address_rrs E rhn T_A queryts a udp s1)
             (\<lambda>s. do { q \<leftarrow> GET_RRSMU c 7; address_rrs E rhn T_AAAA queryts q udp s });
           s3 \<leftarrow> ans_free c s2;
           Some (ok, s3)
         }
     }"

subsection \<open>\<open>compose_answer\<close>\<close>

definition reply_header :: "byte list \<Rightarrow> byte \<Rightarrow> bool \<Rightarrow> int \<Rightarrow> byte list" where
  "reply_header i opcode rdes rcode =
     i @ [hdr_byte2 True opcode False False rdes, hdr_byte3 True False False False rcode] @ replicate 8 0"

text \<open>The new message with its header; \<open>None\<close> when there is no memory.\<close>

definition start_answer :: "aenv \<Rightarrow> byte list \<Rightarrow> ans \<Rightarrow> (bool \<times> ans) option" where
  "start_answer E q s =
     do {
       let (ok, s1) = an_malloc s;
       if \<not> ok then Some (False, s1)
       else do {
         i \<leftarrow> rdn q 0 2;
         rdes \<leftarrow> hdr_rd q;
         m \<leftarrow> wrn (fresh E 0 (ALLOCINITIALSIZE - dnsmsghdroffset)) 0 (reply_header i 0 rdes RC_OK);
         Some (True, s1\<lparr> an_buf := m, an_sz := sizeof_dns_hdr, an_alloc := ALLOCINITIALSIZE \<rparr>)
       }
     }"

text \<open>The question section.\<close>

definition add_query :: "aenv \<Rightarrow> queryel \<Rightarrow> ans \<Rightarrow> (bool \<times> ans) option" where
  "add_query E qe s =
     do {
       l \<leftarrow> rhnlen (q_name qe);
       let (ok, s1) = grow_ans E (dnsmsghdroffset + an_sz s + l + 4) s;
       if \<not> ok then Some (False, s1)
       else do {
         (qclen, s2) \<leftarrow> put_name (q_name qe) s1;
         if qclen = 0 then Some (False, s2)
         else do {
           s3 \<leftarrow> put_bytes (be16 (word_of_int (q_type qe)) @ be16 (word_of_int (q_class qe))) s2;
           m \<leftarrow> inc16 (an_buf s3) 4;
           Some (True, s3\<lparr> an_buf := m \<rparr>)
         }
       }
     }"

fun add_queries :: "aenv \<Rightarrow> queryel list \<Rightarrow> ans \<Rightarrow> (bool \<times> ans) option" where
  "add_queries E [] s = Some (True, s)"
| "add_queries E (qe # ql) s = and_then (add_query E qe s) (add_queries E ql)"

definition unsupported :: "queryel \<Rightarrow> bool" where
  "unsupported qe =
     ((PDNSD_NOT_CACHED_TYPE (q_type qe) \<and>
       (q_type qe \<noteq> QT_MAILB \<and> q_type qe \<noteq> QT_MAILA \<and> q_type qe \<noteq> QT_ALL)) \<or>
      (q_class qe \<noteq> C_IN \<and> q_class qe \<noteq> QC_ALL))"

text \<open>How a part of \<open>compose_answer\<close> ends: by going on, at \<open>cleanup_return\<close>, or at \<open>error_ans\<close>.\<close>

datatype flow = GoOn | CleanupReturn | ErrorAns

fun soa_records ::
    "aenv \<Rightarrow> name \<Rightarrow> u32 \<Rightarrow> byte list list \<Rightarrow> nat option \<Rightarrow> ans \<Rightarrow> (bool \<times> ans) option" where
  "soa_records E nm ttl [] udp s = Some (True, s)"
| "soa_records E nm ttl (d # ds) udp s =
     and_then (add_rr E nm T_SOA ttl d S_AUTHORITY udp s) (soa_records E nm ttl ds udp)"

text \<open>After a name error: a SOA record of the domain above that the resolver found.\<close>

definition nameerr_soa ::
    "aenv \<Rightarrow> name \<Rightarrow> byte \<Rightarrow> int \<Rightarrow> nat option \<Rightarrow> ans \<Rightarrow> (bool \<times> ans) option" where
  "nameerr_soa E qname c_soa queryts udp s =
     (if c_soa = cundef then Some (True, s)
      else do {
        scnt \<leftarrow> rhnsegcnt qname;
        if \<not> unat c_soa < scnt then Some (True, s)
        else do {
          nm \<leftarrow> skipsegs qname (scnt - unat c_soa);
          (r, s1) \<leftarrow> ans_lookup E nm s;
          case r of
            None \<Rightarrow> Some (True, s1)
          | Some c \<Rightarrow> do {
              rs \<leftarrow> GET_RRSMU c 3;
              (ok, s2) \<leftarrow> (case rs of
                 None \<Rightarrow> Some (True, s1)
               | Some rs \<Rightarrow> if has (rs_flags rs) CF_NEGATIVE then Some (True, s1)
                   else soa_records E (ce_qname c) (word_of_int (ans_ttl rs queryts)) (rs_rrs rs) udp s1);
              s3 \<leftarrow> ans_free c s2;
              Some (ok, s3)
            }
        }
      })"

definition query_failed ::
    "aenv \<Rightarrow> name \<Rightarrow> int \<Rightarrow> byte \<Rightarrow> bool \<Rightarrow> int \<Rightarrow> nat option \<Rightarrow> ans \<Rightarrow> (flow \<times> ans) option" where
  "query_failed E qname rc c_soa edns queryts udp s =
     do {
       s1 \<leftarrow> set_rcode rc s;
       if rc \<noteq> RC_NAMEERR then Some (CleanupReturn, s1)
       else do {
         (ok, s2) \<leftarrow> nameerr_soa E qname c_soa queryts udp s1;
         if \<not> ok then Some (ErrorAns, s2)
         else if edns then do {
           (ok, s3) \<leftarrow> add_opt_pseudo_rr E (ev_udpbufsize E) rc 0 0 s2;
           Some (if ok then CleanupReturn else ErrorAns, s3)
         }
         else Some (CleanupReturn, s2)
       }
     }"

text \<open>The type of the records to add to the authority section for an entry.\<close>

definition ref_type :: "dns_cent \<Rightarrow> int \<Rightarrow> int option" where
  "ref_type c qtype =
     do {
       h \<leftarrow> have_qtype c qtype;
       mb \<leftarrow> have_rr c T_MB; mg \<leftarrow> have_rr c T_MG; mr \<leftarrow> have_rr c T_MR;
       md \<leftarrow> have_rr c T_MD; mf \<leftarrow> have_rr c T_MF;
       Some (if (qtype \<ge> T_MIN \<and> qtype \<le> T_MAX \<and> \<not> h) \<or>
                (qtype = QT_MAILB \<and> \<not> mb \<and> \<not> mg \<and> \<not> mr) \<or>
                (qtype = QT_MAILA \<and> \<not> md \<and> \<not> mf)
             then T_SOA else T_NS)
     }"

definition positive_set :: "rr_set option \<Rightarrow> rr_set option" where
  "positive_set r = (case r of None \<Rightarrow> None | Some rs \<Rightarrow> if has (rs_flags rs) CF_NEGATIVE then None else Some rs)"

text \<open>The RR set to refer to, from the entry itself, from the domain above that \<open>c_ns\<close> or \<open>c_soa\<close>
  name, or from the owner of local data; and the entry it belongs to.\<close>

definition find_reference ::
    "aenv \<Rightarrow> int \<Rightarrow> dns_cent \<Rightarrow> ans \<Rightarrow> (rr_set option \<times> dns_cent option \<times> ans) option" where
  "find_reference E rretp c s =
     do {
       r \<leftarrow> getrrset c rretp;
       case positive_set r of
         Some rs \<Rightarrow> Some (Some rs, Some c, s)
       | None \<Rightarrow> do {
           scnt \<leftarrow> rhnsegcnt (ce_qname c);
           let tcnt = (if rretp = T_NS then ce_ns c else ce_soa c);
           nm \<leftarrow> (if tcnt \<noteq> cundef \<and> unat tcnt < scnt then skipsegs (ce_qname c) (scnt - unat tcnt)
                  else Some (ce_qname c));
           (c1, s1) \<leftarrow> ans_lookup E nm s;
           r1 \<leftarrow> (case c1 of None \<Rightarrow> Some None
                  | Some d \<Rightarrow> do { r \<leftarrow> getrrset d rretp; Some (positive_set r) });
           (r2, c2, s2) \<leftarrow>
             (if r1 = None \<and> has (ce_flags c) DF_LOCAL then do {
                 own \<leftarrow> getlocalowner (ce_qname c) rretp (an_cache s1);
                 case own of
                   None \<Rightarrow> Some (r1, c1, s1)
                 | Some nm \<Rightarrow> do {
                     s2 \<leftarrow> (case c1 of None \<Rightarrow> Some s1 | Some d \<Rightarrow> ans_free d s1);
                     (c2, s3) \<leftarrow> ans_lookup E nm s2;
                     r2 \<leftarrow> (case c2 of None \<Rightarrow> Some None | Some d \<Rightarrow> getrrset d rretp);
                     Some (r2, c2, s3)
                   }
               }
              else Some (r1, c1, s1));
           s3 \<leftarrow> ans_free c s2;
           Some (r2, c2, s3)
         }
     }"

fun add_refs :: "int \<Rightarrow> name \<Rightarrow> u32 \<Rightarrow> byte list list \<Rightarrow> ans \<Rightarrow> (bool \<times> ans) option" where
  "add_refs rretp nm ttl [] s = Some (True, s)"
| "add_refs rretp nm ttl (d # ds) s =
     and_then (add_ar rretp d nm ttl s) (add_refs rretp nm ttl ds)"

definition authority_refs :: "aenv \<Rightarrow> int \<Rightarrow> int \<Rightarrow> dns_cent \<Rightarrow> ans \<Rightarrow> (bool \<times> ans) option" where
  "authority_refs E qtype queryts c s =
     do {
       rretp \<leftarrow> ref_type c qtype;
       (r, cc, s1) \<leftarrow> find_reference E rretp c s;
       (ok, s2) \<leftarrow> (case r of
          None \<Rightarrow> Some (True, s1)
        | Some rs \<Rightarrow> do {
            d \<leftarrow> cc;
            add_refs rretp (ce_qname d) (word_of_int (ans_ttl rs queryts)) (rs_rrs rs) s1
          });
       s3 \<leftarrow> (case cc of None \<Rightarrow> Some s2 | Some d \<Rightarrow> ans_free d s2);
       Some (ok, s3)
     }"

text \<open>The loop over a chain of CNAME records; \<open>hops\<close> bounds the iterations that follow this one.\<close>

fun answer_query ::
    "aenv \<Rightarrow> int \<Rightarrow> bool \<Rightarrow> bool \<Rightarrow> int \<Rightarrow> nat option \<Rightarrow> nat \<Rightarrow> byte list \<Rightarrow> ans \<Rightarrow> (flow \<times> ans) option" where
  "answer_query E qtype rdes edns queryts udp hops qname s =
     do {
       let (rc, cached, c_soa, \<sigma>) = ev_resolve E qname qtype MAX_HOPS queryts (an_cache s);
       let s = s\<lparr> an_cache := \<sigma> \<rparr>;
       if rc \<noteq> RC_OK then query_failed E qname rc c_soa edns queryts udp s
       else do {
         c \<leftarrow> cached;
         let s = (if has (ce_flags c) DF_LOCAL then s else s\<lparr> an_aa := False \<rparr>);
         (ok, s) \<leftarrow> add_to_response E qname qtype queryts c udp s;
         if \<not> ok then do { s \<leftarrow> ans_free c s; Some (ErrorAns, s) }
         else do {
           h \<leftarrow> have_qtype c qtype;
           (fol, qname) \<leftarrow> (if rdes \<and> qtype \<noteq> T_CNAME \<and> qtype \<noteq> QT_ALL \<and> \<not> h
                             then follow_cname_chain c qname else Some (False, qname));
           if fol then do {
             s \<leftarrow> ans_free c s;
             case hops of
               0 \<Rightarrow> Some (GoOn, s)
             | Suc n \<Rightarrow> answer_query E qtype rdes edns queryts udp n qname s
           }
           else do {
             (ok, s) \<leftarrow> authority_refs E qtype queryts c s;
             Some (if ok then GoOn else ErrorAns, s)
           }
         }
       }
     }"

declare answer_query.simps [simp del]

fun answer_queries ::
    "aenv \<Rightarrow> bool \<Rightarrow> bool \<Rightarrow> int \<Rightarrow> nat option \<Rightarrow> queryel list \<Rightarrow> ans \<Rightarrow> (flow \<times> ans) option" where
  "answer_queries E rdes edns queryts udp [] s = Some (GoOn, s)"
| "answer_queries E rdes edns queryts udp (qe # ql) s =
     do {
       (_, qname) \<leftarrow> rhncpy (fresh E 0 DNSNAMEBUFSIZE) (q_name qe);
       (fl, s1) \<leftarrow> answer_query E (q_type qe) rdes edns queryts udp MAX_HOPS qname s;
       if fl = GoOn then answer_queries E rdes edns queryts udp ql s1 else Some (fl, s1)
     }"

text \<open>The authority section and the addresses, from the list \<open>ar\<close>.\<close>

fun add_authority :: "aenv \<Rightarrow> nat option \<Rightarrow> rr_ext list \<Rightarrow> ans \<Rightarrow> (bool \<times> ans) option" where
  "add_authority E udp [] s = Some (True, s)"
| "add_authority E udp (re # ar) s =
     and_then
       (if re_tp re = T_NS \<or> re_tp re = T_SOA then do {
          nm \<leftarrow> adv (re_tnm re) (re_tsz re);
          data \<leftarrow> rdn (re_tnm re) 0 (re_tsz re);
          add_additional_rr E nm (re_tp re) (re_ttl re) data S_AUTHORITY udp s
        }
        else Some (True, s))
       (add_authority E udp ar)"

fun add_addresses :: "aenv \<Rightarrow> int \<Rightarrow> nat option \<Rightarrow> rr_ext list \<Rightarrow> ans \<Rightarrow> (bool \<times> ans) option" where
  "add_addresses E queryts udp [] s = Some (True, s)"
| "add_addresses E queryts udp (re # ar) s =
     and_then
       (if re_tp re = T_NS \<or> re_tp re = RRETP_ADD then add_additional_a E (re_tnm re) queryts udp s
        else Some (True, s))
       (add_addresses E queryts udp ar)"

definition add_sections :: "aenv \<Rightarrow> bool \<Rightarrow> int \<Rightarrow> nat option \<Rightarrow> ans \<Rightarrow> (bool \<times> ans) option" where
  "add_sections E edns queryts udp s =
     and_then (add_authority E udp (an_ar s) s) (\<lambda>s1.
       if (case udp of None \<Rightarrow> False | Some u \<Rightarrow> an_sz s1 + sizeof_opt_pseudo_rr > u) then Some (True, s1)
       else and_then
         (if edns then add_opt_pseudo_rr E (ev_udpbufsize E) (an_rcode s1) 0 0 s1 else Some (True, s1))
         (add_addresses E queryts udp (an_ar s)))"

text \<open>The first result is false for the result \<open>NULL\<close>; \<open>q\<close> is the query message.\<close>

definition compose_answer ::
    "aenv \<Rightarrow> queryel list \<Rightarrow> byte list \<Rightarrow> bool \<Rightarrow> nat option \<Rightarrow> ans \<Rightarrow> (bool \<times> ans) option" where
  "compose_answer E ql q edns udp s0 =
     do {
       let (queryts, s1) = an_time s0;
       let s = s1\<lparr> an_cb := [], an_sva := [], an_ar := [], an_aa := True, an_rcode := RC_OK \<rparr>;
       and_then (start_answer E q s) (\<lambda>s. and_then (add_queries E ql s) (\<lambda>s.
         if list_ex unsupported ql then do { s \<leftarrow> set_rcode RC_NOTSUPP s; Some (True, s) }
         else do {
           rdes \<leftarrow> hdr_rd q;
           (fl, s) \<leftarrow> answer_queries E rdes edns queryts udp ql s;
           case fl of
             CleanupReturn \<Rightarrow> Some (True, s)
           | ErrorAns \<Rightarrow> Some (False, s)
           | GoOn \<Rightarrow> and_then (add_sections E edns queryts udp s) (\<lambda>s.
               if an_aa s then do { s \<leftarrow> set_aa s; Some (True, s) } else Some (True, s))
         }))
     }"

subsection \<open>Decoding a query\<close>

text \<open>The loop over the questions: return code, position, remaining size, list and state.\<close>

fun decode_query_loop ::
    "aenv \<Rightarrow> byte list \<Rightarrow> nat \<Rightarrow> nat \<Rightarrow> nat \<Rightarrow> queryel list \<Rightarrow> ans \<Rightarrow>
     (int \<times> nat \<times> nat \<times> queryel list \<times> ans) option" where
  "decode_query_loop E m 0 ptr sz q s = Some (RC_OK, ptr, sz, q, s)"
| "decode_query_loop E m (Suc n) ptr sz q s =
     do {
       (res, ptr, sz, qbuf, len) \<leftarrow> decompress_name m ptr sz (fresh E 0 DNSNAMEBUFSIZE);
       if res = RC_TRUNC then Some (res, ptr, sz, q, s)
       else if res \<noteq> RC_OK then Some (res, ptr, sz, [], s)
       else if sz < 4 then Some (RC_TRUNC, ptr, sz, q, s)
       else do {
         qlen \<leftarrow> len;
         let (ok, s) = an_malloc s;
         if \<not> ok then Some (RC_SERVFAIL, ptr, sz, [], s)
         else do {
           tp \<leftarrow> get16 m ptr;
           cl \<leftarrow> get16 m (ptr + 2);
           nm \<leftarrow> rdn qbuf 0 qlen;
           decode_query_loop E m n (ptr + 4) (sz - 4)
             (q @ [\<lparr> q_type = int tp, q_class = int cl, q_name = nm \<rparr>]) s
         }
       }
     }"

definition decode_query ::
    "aenv \<Rightarrow> byte list \<Rightarrow> ans \<Rightarrow> (int \<times> nat \<times> nat \<times> queryel list \<times> ans) option" where
  "decode_query E m s =
     do {
       must (length m \<ge> sizeof_dns_hdr);
       qdcount \<leftarrow> get16 m 4;
       decode_query_loop E m qdcount sizeof_dns_hdr (length m - sizeof_dns_hdr) [] s
     }"

text \<open>The additional section: return code, number of OPT records, and the data of the first.\<close>

fun decode_query_additional ::
    "aenv \<Rightarrow> byte list \<Rightarrow> nat \<Rightarrow> nat \<Rightarrow> nat \<Rightarrow> nat \<Rightarrow> edns_info \<Rightarrow> (int \<times> nat \<times> edns_info) option" where
  "decode_query_additional E m ptr sz 0 numopt ep = Some (RC_OK, numopt, ep)"
| "decode_query_additional E m ptr sz (Suc n) numopt ep =
     do {
       (res, ptr, sz, _, _) \<leftarrow> decompress_name m ptr sz (fresh E 0 DNSNAMEBUFSIZE);
       if res \<noteq> RC_OK then Some (res, numopt, ep)
       else if sz < sizeof_rr_hdr_t then Some (RC_TRUNC, numopt, ep)
       else do {
         let sz = sz - sizeof_rr_hdr_t;
         tp \<leftarrow> get16 m ptr;
         cl \<leftarrow> get16 m (ptr + 2);
         rdlen \<leftarrow> get16 m (ptr + 8);
         if sz < rdlen then Some (RC_TRUNC, numopt, ep)
         else do {
           (numopt, ep) \<leftarrow>
             (if int tp = T_OPT then
                (if numopt = 0 then do {
                   t0 \<leftarrow> rd m (ptr + 4); t1 \<leftarrow> rd m (ptr + 5); t2 \<leftarrow> rd m (ptr + 6);
                   rc \<leftarrow> hdr_rcode m;
                   Some (numopt + 1, \<lparr> ed_udpsize = cl, ed_rcode = unat t0 * 16 + unat rc,
                     ed_version = unat t1, ed_do = bit t2 7 \<rparr>)
                 }
                 else Some (numopt + 1, ep))
              else Some (numopt, ep));
           decode_query_additional E m (ptr + 10 + rdlen) (sz - rdlen) n numopt ep
         }
       }
     }"

subsection \<open>\<open>process_query\<close>\<close>

definition mk_error_reply :: "byte list \<Rightarrow> byte \<Rightarrow> int \<Rightarrow> byte list" where
  "mk_error_reply i opcode rescode = reply_header i opcode False rescode"

text \<open>The reply, with \<open>*rlenp\<close> bytes of it in use, \<open>*udp\<close> and \<open>*rcodep\<close> where they are set.\<close>

record reply =
  rp_msg :: "byte list option"
  rp_len :: nat
  rp_udp :: "nat option"
  rp_rcode :: "int option"

text \<open>A new message, for which no names and lists are recorded.\<close>

definition error_reply :: "aenv \<Rightarrow> byte list \<Rightarrow> int \<Rightarrow> nat option \<Rightarrow> ans \<Rightarrow> (reply \<times> ans) option" where
  "error_reply E m res udp s =
     do {
       let alloc = sizeof_dns_hdr + dnsmsghdroffset + (if res \<ge> 16 then sizeof_opt_pseudo_rr else 0);
       let (ok, s) = an_malloc s;
       if \<not> ok then Some (\<lparr> rp_msg = None, rp_len = sizeof_dns_hdr, rp_udp = udp, rp_rcode = Some res \<rparr>, s)
       else do {
         i \<leftarrow> rdn m 0 2;
         opcode \<leftarrow> (if length m \<ge> 3 then hdr_opcode m else Some 0);
         buf \<leftarrow> wrn (fresh E 0 (alloc - dnsmsghdroffset)) 0 (mk_error_reply i opcode res);
         let s = s\<lparr> an_buf := buf, an_sz := sizeof_dns_hdr, an_alloc := alloc,
           an_cb := [], an_sva := [], an_ar := [] \<rparr>;
         s \<leftarrow> (if res \<ge> 16 then do { (_, s) \<leftarrow> add_opt_pseudo_rr E (ev_udpbufsize E) res 0 0 s; Some s }
                else Some s);
         Some (\<lparr> rp_msg = Some (an_buf s), rp_len = an_sz s, rp_udp = udp, rp_rcode = Some res \<rparr>, s)
       }
     }"

text \<open>The checks on the header, before anything is decoded: \<open>Inl None\<close> for a message to discard,
  \<open>Inl\<close> of a code for an error reply.\<close>

definition check_header :: "byte list \<Rightarrow> (int option + unit) option" where
  "check_header m =
     (if length m < 2 then Some (Inl None)
      else if length m < sizeof_dns_hdr then Some (Inl (Some RC_FORMAT))
      else do {
        qr \<leftarrow> hdr_qr m; opcode \<leftarrow> hdr_opcode m; z \<leftarrow> hdr_z m; rcode \<leftarrow> hdr_rcode m;
        ancount \<leftarrow> get16 m 6; nscount \<leftarrow> get16 m 8;
        Some (if qr then Inl None
          else if opcode \<noteq> 0 then Inl (Some RC_NOTSUPP)
          else if z then Inl (Some RC_FORMAT)
          else if rcode \<noteq> 0 then Inl None
          else if ancount \<noteq> 0 \<or> nscount \<noteq> 0 then Inl (Some RC_FORMAT)
          else Inr ())
      })"

text \<open>The questions and the EDNS data; \<open>Inl\<close> is the code of an error reply.\<close>

definition no_edns :: edns_info where
  "no_edns = \<lparr> ed_udpsize = 0, ed_rcode = 0, ed_version = 0, ed_do = False \<rparr>"

definition decode_message :: "aenv \<Rightarrow> byte list \<Rightarrow> ans \<Rightarrow> ((int + queryel list \<times> edns_info option) \<times> ans) option" where
  "decode_message E m s =
     do {
       (res, ptr, sz, ql, s) \<leftarrow> decode_query E m s;
       tc \<leftarrow> hdr_tc m;
       arcount \<leftarrow> get16 m 10;
       if res \<noteq> RC_OK \<and> \<not> (res = RC_TRUNC \<and> tc \<and> ql \<noteq> [])
       then Some (Inl (if res = RC_TRUNC then RC_FORMAT else res), s)
       else if arcount = 0 then Some (Inr (ql, None), s)
       else if res = RC_TRUNC then Some (Inl RC_FORMAT, s)
       else do {
         (res, numopt, ep) \<leftarrow> decode_query_additional E m ptr sz arcount 0 no_edns;
         Some (if \<not> (res = RC_OK \<or> (res = RC_TRUNC \<and> tc)) then Inl RC_FORMAT
           else if numopt = 0 then Inr (ql, None)
           else if ed_version ep \<noteq> 0 then Inl RC_BADVERS
           else if ed_rcode ep \<noteq> 0 then Inl RC_FORMAT
           else Inr (ql, Some ep), s)
       }
     }"

definition udp_limit :: "aenv \<Rightarrow> edns_info option \<Rightarrow> nat option \<Rightarrow> nat option" where
  "udp_limit E ed udp = (case ed of
     None \<Rightarrow> udp
   | Some ep \<Rightarrow> if udp \<noteq> None \<and> ed_udpsize ep > UDP_BUFSIZE
       then Some (if ev_udpbufsize E > ed_udpsize ep then ed_udpsize ep else ev_udpbufsize E)
       else udp)"

definition process_query :: "aenv \<Rightarrow> byte list \<Rightarrow> nat option \<Rightarrow> ans \<Rightarrow> (reply \<times> ans) option" where
  "process_query E m udp s =
     do {
       h \<leftarrow> check_header m;
       case h of
         Inl None \<Rightarrow> Some (\<lparr> rp_msg = None, rp_len = length m, rp_udp = udp, rp_rcode = None \<rparr>, s)
       | Inl (Some res) \<Rightarrow> error_reply E m res udp s
       | Inr _ \<Rightarrow> do {
           (d, s) \<leftarrow> decode_message E m s;
           case d of
             Inl res \<Rightarrow> error_reply E m res udp s
           | Inr (ql, ed) \<Rightarrow>
               if ql = [] then error_reply E m RC_FORMAT (udp_limit E ed udp) s
               else do {
                 (ok, s) \<leftarrow> compose_answer E ql m (ed \<noteq> None) (udp_limit E ed udp) s;
                 if \<not> ok then error_reply E m RC_SERVFAIL (udp_limit E ed udp) s
                 else Some (\<lparr> rp_msg = Some (an_buf s), rp_len = an_sz s,
                        rp_udp = udp_limit E ed udp, rp_rcode = Some (an_rcode s) \<rparr>, s)
               }
         }
     }"

end
