(* ===== verification/Pd_Recv.thy ===== *)
theory Pd_Recv
  imports Pd_Compose
begin

text \<open>
  Reading the records of a reply (\<open>dns_query.c\<close>): the data of each record is checked and its names
  are decompressed, and the record is put into the cache entry with its owner name, in an array of
  entries that grows as needed.

  The array is a list of entries, or none for the null pointer; one allocation outcome is drawn from
  the state for each call that may allocate. The buffers on the stack start with arbitrary bytes. A
  decoder returns the error code or the data of the record.
\<close>

subsection \<open>Return codes and RR types\<close>

abbreviation (input) RC_REFUSED :: int where "RC_REFUSED \<equiv> 5"
abbreviation (input) RC_FATALERR :: int where "RC_FATALERR \<equiv> 0xffff"

text \<open>\<open>GETINT32\<close>.\<close>

definition get32 :: "byte list \<Rightarrow> nat \<Rightarrow> nat option" where
  "get32 m i = do { a \<leftarrow> get16 m i; b \<leftarrow> get16 m (i + 2); Some (a * 65536 + b) }"

text \<open>An \<open>uint32_t\<close> passed as a \<open>time_t\<close> of 32 bits.\<close>

definition as_time :: "nat \<Rightarrow> int" where
  "as_time n = sint (word_of_nat n :: u32)"

subsection \<open>Arrays of entries\<close>

type_synonym cent_array = "dns_cent list option"

definition ca_list :: "cent_array \<Rightarrow> dns_cent list" where
  "ca_list a = (case a of None \<Rightarrow> [] | Some cs \<Rightarrow> cs)"

fun free_cents :: "dns_cent list \<Rightarrow> cache \<Rightarrow> cache option" where
  "free_cents [] \<sigma> = Some \<sigma>"
| "free_cents (c # cs) \<sigma> = do { \<sigma>1 \<leftarrow> free_cent c \<sigma>; free_cents cs \<sigma>1 }"

text \<open>\<open>DA_GROW1_F(*centa,free_cent0)\<close>: the elements before the new, still uninitialised one.\<close>

definition ca_grow :: "cent_array \<Rightarrow> cache \<Rightarrow> (cent_array \<times> cache) option" where
  "ca_grow a \<sigma> =
     do {
       let k = length (ca_list a);
       if a = None \<or> (k \<noteq> 0 \<and> k mod 8 = 0) then do {
         let (ok, \<sigma>1) = malloc \<sigma>;
         if ok then Some (Some (ca_list a), \<sigma>1)
         else do { \<sigma>2 \<leftarrow> free_cents (ca_list a) \<sigma>1; Some (None, \<sigma>2) }
       }
       else Some (a, \<sigma>)
     }"

text \<open>\<open>DA_RESIZE(*centa,n)\<close> of an array of \<open>n+1\<close> elements, the last of them uninitialised. The block
  becomes smaller when this drops below a multiple of eight; should that fail, the array is gone.\<close>

definition ca_shrink :: "dns_cent list \<Rightarrow> cache \<Rightarrow> cent_array \<times> cache" where
  "ca_shrink cs \<sigma> =
     (if cs \<noteq> [] \<and> length cs mod 8 = 0
      then (let (ok, \<sigma>1) = malloc \<sigma> in (if ok then Some cs else None, \<sigma>1))
      else (Some cs, \<sigma>))"

text \<open>\<open>lookup_cent_array\<close>: the index of the first entry with this name, if any.\<close>

fun lookup_cent_array :: "dns_cent list \<Rightarrow> name \<Rightarrow> nat option option" where
  "lookup_cent_array [] nm = Some None"
| "lookup_cent_array (c # cs) nm =
     do {
       eq \<leftarrow> rhnicmp (ce_qname c) nm;
       if eq then Some (Some 0) else do { r \<leftarrow> lookup_cent_array cs nm; Some (map_option Suc r) }
     }"

definition rr_to_cache ::
    "cent_array \<Rightarrow> name \<Rightarrow> int \<Rightarrow> int \<Rightarrow> byte list \<Rightarrow> u16 \<Rightarrow> int \<Rightarrow> cache \<Rightarrow> (int \<times> cent_array \<times> cache) option" where
  "rr_to_cache centa oname tp ttl data fl queryts \<sigma> =
     do {
       r \<leftarrow> lookup_cent_array (ca_list centa) oname;
       case r of
         Some i \<Rightarrow> do {
           cent \<leftarrow> rd (ca_list centa) i;
           (ok, cent', \<sigma>1) \<leftarrow> add_cent_rr cent tp ttl queryts fl data \<sigma>;
           Some (if ok then RC_OK else RC_FATALERR, Some ((ca_list centa)[i := cent']), \<sigma>1)
         }
       | None \<Rightarrow> do {
           (centa1, \<sigma>1) \<leftarrow> ca_grow centa \<sigma>;
           case centa1 of
             None \<Rightarrow> Some (RC_FATALERR, None, \<sigma>1)
           | Some cs \<Rightarrow> do {
               (new, \<sigma>2) \<leftarrow> init_cent oname 0 0 0 \<sigma>1;
               case new of
                 None \<Rightarrow> (let (centa2, \<sigma>3) = ca_shrink cs \<sigma>2 in Some (RC_FATALERR, centa2, \<sigma>3))
               | Some cent \<Rightarrow> do {
                   (ok, cent', \<sigma>3) \<leftarrow> add_cent_rr cent tp ttl queryts fl data \<sigma>2;
                   Some (if ok then RC_OK else RC_FATALERR, Some (cs @ [cent']), \<sigma>3)
                 }
             }
         }
     }"

subsection \<open>The data of a record\<close>

type_synonym dec_res = "(int + byte list) option"

text \<open>Decompressing a name into the buffer \<open>db\<close> from \<open>off\<close> on; the continuation gets \<open>bptr\<close>, \<open>blcnt\<close>,
  the buffer and the length of the name.\<close>

definition name_into ::
    "byte list \<Rightarrow> nat \<Rightarrow> nat \<Rightarrow> byte list \<Rightarrow> nat \<Rightarrow> (nat \<Rightarrow> nat \<Rightarrow> byte list \<Rightarrow> nat \<Rightarrow> (int + 'a) option) \<Rightarrow> (int + 'a) option" where
  "name_into m bptr blcnt db off k =
     do {
       must (off \<le> length db);
       (rc, bptr', blcnt', tgt, len) \<leftarrow> decompress_name m bptr blcnt (drop off db);
       if rc \<noteq> RC_OK then Some (Inl (if rc = RC_TRUNC then RC_FORMAT else rc))
       else do { l \<leftarrow> len; k bptr' blcnt' (take off db @ tgt) l }
     }"

text \<open>What all decoders do at the end: no bytes may be left, and \<open>slen\<close> bytes of the buffer are used.\<close>

definition data_end :: "nat \<Rightarrow> byte list \<Rightarrow> nat \<Rightarrow> dec_res" where
  "data_end blcnt db slen =
     (if blcnt \<noteq> 0 then Some (Inl RC_FORMAT) else do { d \<leftarrow> rdn db 0 slen; Some (Inr d) })"

definition dec_name :: "aenv \<Rightarrow> byte list \<Rightarrow> nat \<Rightarrow> nat \<Rightarrow> dec_res" where
  "dec_name E m bptr blcnt =
     name_into m bptr blcnt (fresh E 0 DNSNAMEBUFSIZE) 0 (\<lambda>bptr blcnt db len. data_end blcnt db len)"

definition dec_two_names :: "aenv \<Rightarrow> byte list \<Rightarrow> nat \<Rightarrow> nat \<Rightarrow> dec_res" where
  "dec_two_names E m bptr blcnt =
     name_into m bptr blcnt (fresh E 0 (DNSNAMEBUFSIZE + DNSNAMEBUFSIZE)) 0 (\<lambda>bptr blcnt db slen.
     name_into m bptr blcnt db slen (\<lambda>bptr blcnt db len.
     data_end blcnt db (slen + len)))"

text \<open>\<open>n\<close> bytes followed by a name: 2 for \<open>T_MX\<close>, \<open>T_AFSDB\<close>, \<open>T_RT\<close> and \<open>T_KX\<close>, 6 for \<open>T_SRV\<close>.\<close>

definition dec_pref_name :: "aenv \<Rightarrow> nat \<Rightarrow> byte list \<Rightarrow> nat \<Rightarrow> nat \<Rightarrow> dec_res" where
  "dec_pref_name E n m bptr blcnt =
     (if blcnt < n then Some (Inl RC_FORMAT)
      else do {
        pre \<leftarrow> rdn m bptr n;
        db \<leftarrow> wrn (fresh E 0 (n + DNSNAMEBUFSIZE)) 0 pre;
        name_into m (bptr + n) (blcnt - n) db n (\<lambda>bptr blcnt db len. data_end blcnt db (n + len))
      })"

definition dec_soa :: "aenv \<Rightarrow> byte list \<Rightarrow> nat \<Rightarrow> nat \<Rightarrow> dec_res" where
  "dec_soa E m bptr blcnt =
     name_into m bptr blcnt (fresh E 0 (DNSNAMEBUFSIZE + DNSNAMEBUFSIZE + 20)) 0 (\<lambda>bptr blcnt db slen.
     name_into m bptr blcnt db slen (\<lambda>bptr blcnt db len.
     if blcnt < 20 then Some (Inl RC_FORMAT)
     else do {
       rest \<leftarrow> rdn m bptr 20;
       db \<leftarrow> wrn db (slen + len) rest;
       data_end (blcnt - 20) db (slen + len + 20)
     }))"

definition dec_px :: "aenv \<Rightarrow> byte list \<Rightarrow> nat \<Rightarrow> nat \<Rightarrow> dec_res" where
  "dec_px E m bptr blcnt =
     (if blcnt < 2 then Some (Inl RC_FORMAT)
      else do {
        pre \<leftarrow> rdn m bptr 2;
        db \<leftarrow> wrn (fresh E 0 (2 + DNSNAMEBUFSIZE + DNSNAMEBUFSIZE)) 0 pre;
        name_into m (bptr + 2) (blcnt - 2) db 2 (\<lambda>bptr blcnt db len1.
        name_into m bptr blcnt db (2 + len1) (\<lambda>bptr blcnt db len.
        data_end blcnt db (2 + len1 + len)))
      })"

text \<open>A name and the bytes after it, which are copied as they are.\<close>

definition dec_nxt :: "aenv \<Rightarrow> byte list \<Rightarrow> nat \<Rightarrow> nat \<Rightarrow> dec_res" where
  "dec_nxt E m bptr blcnt =
     name_into m bptr blcnt (fresh E 0 1040) 0 (\<lambda>bptr blcnt db len.
     if len + blcnt > 1040 then Some (Inl RC_FORMAT)
     else do {
       rest \<leftarrow> rdn m bptr blcnt;
       db \<leftarrow> wrn db len rest;
       data_end 0 db (len + blcnt)
     })"

text \<open>The length of the fixed part and the three strings of a \<open>T_NAPTR\<close> record.\<close>

fun naptr_len :: "nat \<Rightarrow> byte list \<Rightarrow> nat \<Rightarrow> nat \<Rightarrow> nat \<Rightarrow> nat option option" where
  "naptr_len 0 m bptr blcnt len = Some (if len > blcnt then None else Some len)"
| "naptr_len (Suc j) m bptr blcnt len =
     (if len \<ge> blcnt then Some None
      else do { l \<leftarrow> rd m (bptr + len); naptr_len j m bptr blcnt (len + unat l + 1) })"

definition dec_naptr :: "aenv \<Rightarrow> byte list \<Rightarrow> nat \<Rightarrow> nat \<Rightarrow> dec_res" where
  "dec_naptr E m bptr blcnt =
     do {
       r \<leftarrow> naptr_len 3 m bptr blcnt 4;
       case r of
         None \<Rightarrow> Some (Inl RC_FORMAT)
       | Some n \<Rightarrow> do {
           pre \<leftarrow> rdn m bptr n;
           db \<leftarrow> wrn (fresh E 0 (4 + 3 * 256 + DNSNAMEBUFSIZE)) 0 pre;
           name_into m (bptr + n) (blcnt - n) db n (\<lambda>bptr blcnt db len. data_end blcnt db (n + len))
         }
     }"

definition dec_plain :: "byte list \<Rightarrow> nat \<Rightarrow> nat \<Rightarrow> dec_res" where
  "dec_plain m bptr blcnt = do { d \<leftarrow> rdn m bptr blcnt; Some (Inr d) }"

text \<open>\<open>T_IPSECKEY\<close>, \<open>T_RRSIG\<close> and \<open>T_NSEC\<close>: a name that should not be compressed, after \<open>n\<close> bytes. If it
  is, it is decompressed nevertheless, in a block of memory for the new data.\<close>

definition dec_plain_name :: "aenv \<Rightarrow> nat \<Rightarrow> byte list \<Rightarrow> nat \<Rightarrow> nat \<Rightarrow> cache \<Rightarrow> ((int + byte list) \<times> cache) option" where
  "dec_plain_name E n m bptr blcnt \<sigma> =
     do {
       normal \<leftarrow> isnormalencdomname (drop (bptr + n) m) (blcnt - n);
       if normal then do { r \<leftarrow> dec_plain m bptr blcnt; Some (r, \<sigma>) }
       else do {
         (rc, bptr', blcnt', nmbuf, len) \<leftarrow> decompress_name m (bptr + n) (blcnt - n) (fresh E 0 DNSNAMEBUFSIZE);
         if rc \<noteq> RC_OK then Some (Inl (if rc = RC_TRUNC then RC_FORMAT else rc), \<sigma>)
         else do {
           l \<leftarrow> len;
           let (ok, \<sigma>1) = malloc \<sigma>;
           if \<not> ok then Some (Inl RC_FATALERR, \<sigma>1)
           else do {
             pre \<leftarrow> rdn m bptr n;
             nm \<leftarrow> rdn nmbuf 0 l;
             rest \<leftarrow> rdn m bptr' blcnt';
             Some (Inr (pre @ nm @ rest), \<sigma>1)
           }
         }
       }
     }"

definition dec_ipseckey :: "aenv \<Rightarrow> byte list \<Rightarrow> nat \<Rightarrow> nat \<Rightarrow> cache \<Rightarrow> ((int + byte list) \<times> cache) option" where
  "dec_ipseckey E m bptr blcnt \<sigma> =
     (if blcnt < 3 then Some (Inl RC_FORMAT, \<sigma>)
      else do {
        gwtp \<leftarrow> rd m (bptr + 1);
        if gwtp = 3 then dec_plain_name E 3 m bptr blcnt \<sigma>
        else if gwtp > 3 \<or> (gwtp = 1 \<and> blcnt - 3 < 4) \<or> (gwtp = 2 \<and> blcnt - 3 < 16)
        then Some (Inl RC_FORMAT, \<sigma>)
        else do { r \<leftarrow> dec_plain m bptr blcnt; Some (r, \<sigma>) }
      })"

text \<open>The \<open>switch\<close> on the type.\<close>

definition rr_data :: "aenv \<Rightarrow> int \<Rightarrow> byte list \<Rightarrow> nat \<Rightarrow> nat \<Rightarrow> cache \<Rightarrow> ((int + byte list) \<times> cache) option" where
  "rr_data E tp m bptr blcnt \<sigma> =
     (let pure = (\<lambda>r. do { x \<leftarrow> r; Some (x, \<sigma>) }) in
      if tp = T_A \<and> blcnt \<noteq> 4 \<or> tp = T_AAAA \<and> blcnt \<noteq> 16 then Some (Inl RC_FORMAT, \<sigma>)
      else if tp \<in> {T_CNAME, T_MB, T_MD, T_MF, T_MG, T_MR, T_NS, T_PTR} then pure (dec_name E m bptr blcnt)
      else if tp \<in> {T_MINFO, T_RP} then pure (dec_two_names E m bptr blcnt)
      else if tp \<in> {T_MX, T_AFSDB, T_RT, T_KX} then pure (dec_pref_name E 2 m bptr blcnt)
      else if tp = T_SOA then pure (dec_soa E m bptr blcnt)
      else if tp = T_PX then pure (dec_px E m bptr blcnt)
      else if tp = T_SRV then pure (dec_pref_name E 6 m bptr blcnt)
      else if tp = T_NXT then pure (dec_nxt E m bptr blcnt)
      else if tp = T_NAPTR then pure (dec_naptr E m bptr blcnt)
      else if tp = T_IPSECKEY then dec_ipseckey E m bptr blcnt \<sigma>
      else if tp = T_RRSIG then
        (if blcnt < 18 then Some (Inl RC_FORMAT, \<sigma>) else dec_plain_name E 18 m bptr blcnt \<sigma>)
      else if tp = T_NSEC then dec_plain_name E 0 m bptr blcnt \<sigma>
      else pure (dec_plain m bptr blcnt))"

subsection \<open>The records of a section\<close>

text \<open>The variables behind the pointers \<open>rrs2cent\<close> is given, and the cache.\<close>

record recv =
  rv_ptr :: nat
  rv_cnt :: nat
  rv_centa :: cent_array
  rv_numopt :: nat
  rv_ep :: edns_info
  rv_cache :: cache

text \<open>The data of the first OPT record.\<close>

definition opt_data :: "byte list \<Rightarrow> nat \<Rightarrow> nat \<Rightarrow> edns_info option" where
  "opt_data m ttlp cl =
     do {
       t0 \<leftarrow> rd m ttlp; t1 \<leftarrow> rd m (ttlp + 1); t2 \<leftarrow> rd m (ttlp + 2);
       rc \<leftarrow> hdr_rcode m;
       Some \<lparr> ed_udpsize = cl, ed_rcode = unat t0 * 16 + unat rc, ed_version = unat t1, ed_do = bit t2 7 \<rparr>
     }"

fun rrs2cent :: "aenv \<Rightarrow> byte list \<Rightarrow> nat \<Rightarrow> u16 \<Rightarrow> int \<Rightarrow> recv \<Rightarrow> (int \<times> recv) option" where
  "rrs2cent E m 0 fl queryts r = Some (RC_OK, r)"
| "rrs2cent E m (Suc n) fl queryts r =
     do {
       (rc, ptr, lcnt, obuf, len) \<leftarrow> decompress_name m (rv_ptr r) (rv_cnt r) (fresh E 0 DNSNAMEBUFSIZE);
       if rc \<noteq> RC_OK then Some (rc, r)
       else if lcnt < sizeof_rr_hdr_t then Some (RC_TRUNC, r\<lparr> rv_ptr := ptr, rv_cnt := lcnt \<rparr>)
       else do {
         olen \<leftarrow> len;
         oname \<leftarrow> rdn obuf 0 olen;
         tp \<leftarrow> get16 m ptr;
         cl \<leftarrow> get16 m (ptr + 2);
         ttl \<leftarrow> get32 m (ptr + 4);
         rdlength \<leftarrow> get16 m (ptr + 8);
         let lcnt = lcnt - sizeof_rr_hdr_t;
         let r1 = r\<lparr> rv_ptr := ptr + 10, rv_cnt := lcnt \<rparr>;
         if lcnt < rdlength then Some (RC_TRUNC, r1)
         else do {
           let r2 = r1\<lparr> rv_ptr := ptr + 10 + rdlength, rv_cnt := lcnt - rdlength \<rparr>;
           if int tp = T_OPT then do {
             ep \<leftarrow> (if rv_numopt r = 0 then opt_data m (ptr + 4) cl else Some (rv_ep r));
             rrs2cent E m n fl queryts (r2\<lparr> rv_numopt := rv_numopt r + 1, rv_ep := ep \<rparr>)
           }
           else if PDNSD_NOT_CACHED_TYPE (int tp) \<or> int cl \<noteq> C_IN then rrs2cent E m n fl queryts r2
           else do {
             (d, \<sigma>) \<leftarrow> rr_data E (int tp) m (ptr + 10) rdlength (rv_cache r);
             case d of
               Inl e \<Rightarrow> Some (e, r1\<lparr> rv_cache := \<sigma> \<rparr>)
             | Inr data \<Rightarrow> do {
                 (e, centa, \<sigma>1) \<leftarrow> rr_to_cache (rv_centa r) oname (int tp) (as_time ttl) data fl queryts \<sigma>;
                 if e = RC_FATALERR then Some (e, r1\<lparr> rv_centa := centa, rv_cache := \<sigma>1 \<rparr>)
                 else do {
                   (e2, r3) \<leftarrow> rrs2cent E m n fl queryts (r2\<lparr> rv_centa := centa, rv_cache := \<sigma>1 \<rparr>);
                   Some (if e2 = RC_OK then e else e2, r3)
                 }
               }
           }
         }
       }
     }"

end
