(* ===== verification/Pd_Reply.thy ===== *)
theory Pd_Reply
  imports Pd_Recv Pd_Consts
begin

text \<open>
  What \<open>p_exec_query\<close> of \<open>dns_query.c\<close> does with a message it has received: the checks of the header
  and of the question, the three sections, references to name servers and SOA records, addresses that
  are to be rejected, negative answers for names and RR sets, zones that only delegate, the list of
  name servers, and the records that go into the cache.

  Sending the query and waiting for the reply (\<open>p_query_sm\<close>) are not part of the model: a message is
  given as its bytes. The list \<open>*ns\<close> is a list of its items; the null pointer is the empty list.
\<close>

subsection \<open>Data\<close>

abbreviation (input) QT_MIN :: int where "QT_MIN \<equiv> 251"
abbreviation (input) QT_MAX :: int where "QT_MAX \<equiv> 255"

text \<open>\<open>rejectlist_t\<close>: the policy and the pairs of addresses and masks.\<close>

record rejectlist =
  rj_policy :: int
  rj_a4 :: "(byte list \<times> byte list) list"
  rj_a6 :: "(byte list \<times> byte list) list"

text \<open>The fields of \<open>query_stat_t\<close> that are used here; \<open>qs_msg\<close> is the query from its header on.\<close>

record query_stat =
  qs_flags :: u16
  qs_nocache :: bool
  qs_auth_serv :: int
  qs_lean_query :: bool
  qs_edns_query :: bool
  qs_trusted :: bool
  qs_aa :: bool
  qs_tc :: bool
  qs_ra :: bool
  qs_failed :: int
  qs_nsdomain :: "name option"
  qs_rejectlist :: "rejectlist option"
  qs_transl :: nat
  qs_msg :: "byte list"
  qs_myrid :: nat

text \<open>The options of \<open>global\<close> that are used here.\<close>

record rconf =
  rc_neg_ttl :: int
  rc_neg_domain_pol :: int
  rc_neg_rrs_pol :: int
  rc_deleg_only :: "name list"
  rc_cache :: cconf

text \<open>The variables of the function: the three sections, the list of name servers, \<open>*c_soa\<close> (none while
  nothing was written), the query, the cache, and the results of \<open>time()\<close> while records are added.\<close>

record qreply =
  rp_ans :: cent_array
  rp_auth :: cent_array
  rp_add :: cent_array
  rp_ns :: "byte list list"
  rp_csoa :: "byte option"
  rp_st :: query_stat
  rp_cache :: cache
  rp_clock :: "int list"

definition rp_time :: "qreply \<Rightarrow> int \<times> qreply" where
  "rp_time s = (case rp_clock s of [] \<Rightarrow> (0, s) | t # ts \<Rightarrow> (t, s\<lparr> rp_clock := ts \<rparr>))"

definition rp_malloc :: "qreply \<Rightarrow> bool \<times> qreply" where
  "rp_malloc s = (let (ok, \<sigma>) = malloc (rp_cache s) in (ok, s\<lparr> rp_cache := \<sigma> \<rparr>))"

subsection \<open>The header\<close>

text \<open>The checks of a reply to the query \<open>st\<close>: it is used, or the query is sent again as changed, or the
  reply is discarded with this return value. \<open>full\<close> tells that records are wanted (\<open>entp\<close> is not
  null); \<open>rid\<close> is the identifier of the next query.\<close>

datatype verdict = Use | Again | Discard int

definition hdr_ra :: "byte list \<Rightarrow> bool option" where
  "hdr_ra m = do { b \<leftarrow> rd m 3; Some (bit b 7) }"

definition hdr_aa :: "byte list \<Rightarrow> bool option" where
  "hdr_aa m = do { b \<leftarrow> rd m 2; Some (bit b 2) }"

text \<open>\<open>hdr.rd=0\<close>, and \<open>hdr.id=htons(myrid)\<close>.\<close>

definition clear_rd :: "byte list \<Rightarrow> byte list option" where
  "clear_rd m = do { b \<leftarrow> rd m 2; wr m 2 (b AND NOT 1) }"

definition new_id :: "nat \<Rightarrow> query_stat \<Rightarrow> query_stat option" where
  "new_id rid st = do {
     m \<leftarrow> wrn (qs_msg st) 0 (be16 (word_of_nat rid));
     Some (st\<lparr> qs_msg := m, qs_myrid := rid \<rparr>) }"

text \<open>The label \<open>try_withoutedns\<close>.\<close>

definition try_withoutedns :: "nat \<Rightarrow> int \<Rightarrow> query_stat \<Rightarrow> (verdict \<times> query_stat) option" where
  "try_withoutedns rid rcode st =
     do {
       (transl, m) \<leftarrow> remove_opt_pseudo_rr (qs_msg st) (qs_transl st);
       let st = st\<lparr> qs_msg := m \<rparr>;
       arcount \<leftarrow> get16 m 10;
       if transl \<noteq> 0 \<and> arcount = 0 then do {
         st \<leftarrow> new_id rid (st\<lparr> qs_transl := transl, qs_edns_query := False \<rparr>);
         Some (Again, st)
       }
       else Some (Discard rcode, st)
     }"

definition judge_reply :: "byte list \<Rightarrow> bool \<Rightarrow> nat \<Rightarrow> query_stat \<Rightarrow> (verdict \<times> query_stat) option" where
  "judge_reply m full rid st =
     (if length m < sizeof_dns_hdr then Some (Discard RC_SERVFAIL, st)
      else do {
        recvid \<leftarrow> get16 m 0;
        qr \<leftarrow> hdr_qr m;
        opcode \<leftarrow> hdr_opcode m;
        rc \<leftarrow> hdr_rcode m;
        z \<leftarrow> hdr_z m;
        ra \<leftarrow> hdr_ra m;
        ancount \<leftarrow> get16 m 6;
        let rcode = uint rc;
        if recvid \<noteq> qs_myrid st \<or> \<not> qr \<or> opcode \<noteq> 0 \<or> z then Some (Discard RC_SERVFAIL, st)
        else if rcode = RC_OK \<or> rcode = RC_NAMEERR then Some (Use, st)
        else if \<not> full then Some (Discard rcode, st)
        else do {
          rdes \<leftarrow> hdr_rd (qs_msg st);
          arcount \<leftarrow> get16 (qs_msg st) 10;
          if rcode \<in> {RC_SERVFAIL, RC_NOTSUPP, RC_REFUSED} then
            (if rdes \<and> \<not> ra then do {
               q \<leftarrow> clear_rd (qs_msg st);
               st \<leftarrow> new_id rid (st\<lparr> qs_msg := q \<rparr>);
               Some (Again, st)
             }
             else if rcode \<noteq> RC_SERVFAIL \<and> qs_edns_query st \<and> arcount \<noteq> 0 then try_withoutedns rid rcode st
             else if ancount \<noteq> 0 \<and> qs_auth_serv st = 2 then Some (Use, st\<lparr> qs_failed := 3 \<rparr>)
             else Some (Discard rcode, st))
          else if rcode = RC_FORMAT \<and> qs_edns_query st \<and> arcount \<noteq> 0 then try_withoutedns rid rcode st
          else Some (Discard rcode, st)
        }
      })"

text \<open>The question of the reply: it must be the one asked. The place after it, or none.\<close>

definition qtype_of :: "query_stat \<Rightarrow> int \<Rightarrow> int" where
  "qtype_of st thint = (if qs_lean_query st then thint else QT_ALL)"

definition reply_question :: "aenv \<Rightarrow> byte list \<Rightarrow> name \<Rightarrow> int \<Rightarrow> (nat \<times> nat) option option" where
  "reply_question E m nm qtype =
     do {
       qdcount \<leftarrow> get16 m 4;
       if qdcount \<noteq> 1 then Some None
       else do {
         (rc, rrp, lcnt, nbuf, _) \<leftarrow> decompress_name m sizeof_dns_hdr (length m - sizeof_dns_hdr) (fresh E 0 DNSNAMEBUFSIZE);
         if rc \<noteq> RC_OK then Some None
         else do {
           eq \<leftarrow> rhnicmp nbuf nm;
           if \<not> eq \<or> lcnt < 4 then Some None
           else do {
             qt \<leftarrow> get16 m rrp;
             if int qt \<noteq> qtype then Some None else Some (Some (rrp + 4, lcnt - 4))
           }
         }
       }
     }"

subsection \<open>The sections\<close>

text \<open>One section; \<open>*numoptrr\<close> starts at 0. The return value, \<open>numoptrr\<close>, and \<open>rrp\<close>, \<open>lcnt\<close> and \<open>ednsinfo\<close>
  afterwards.\<close>

definition read_section ::
    "aenv \<Rightarrow> byte list \<Rightarrow> nat \<Rightarrow> u16 \<Rightarrow> int \<Rightarrow> cent_array \<Rightarrow> nat \<times> nat \<times> edns_info \<Rightarrow> cache \<Rightarrow>
     (int \<times> nat \<times> cent_array \<times> (nat \<times> nat \<times> edns_info) \<times> cache) option" where
  "read_section E m n fl queryts sec pos \<sigma> =
     do {
       let (rrp, lcnt, ep) = pos;
       (rv, r) \<leftarrow> rrs2cent E m n fl queryts
         \<lparr> rv_ptr = rrp, rv_cnt = lcnt, rv_centa = sec, rv_numopt = 0, rv_ep = ep, rv_cache = \<sigma> \<rparr>;
       Some (rv, rv_numopt r, rv_centa r, (rv_ptr r, rv_cnt r, rv_ep r), rv_cache r)
     }"

text \<open>All sections: the return value, \<open>rcode\<close> with the bits of the OPT record, and the state.\<close>

definition read_sections ::
    "aenv \<Rightarrow> byte list \<Rightarrow> u16 \<Rightarrow> int \<Rightarrow> int \<Rightarrow> nat \<times> nat \<Rightarrow> qreply \<Rightarrow> (int \<times> int \<times> qreply) option" where
  "read_sections E m fl queryts rcode pos s =
     do {
       ancount \<leftarrow> get16 m 6;
       nscount \<leftarrow> get16 m 8;
       arcount \<leftarrow> get16 m 10;
       (rv, _, a, pos, \<sigma>) \<leftarrow> read_section E m ancount fl queryts (rp_ans s) (fst pos, snd pos, no_edns) (rp_cache s);
       let s = s\<lparr> rp_ans := a, rp_cache := \<sigma> \<rparr>;
       if rv \<noteq> RC_OK then Some (rv, rcode, s)
       else do {
         (rv, _, a, pos, \<sigma>) \<leftarrow> (if nscount = 0 then Some (RC_OK, 0, rp_auth s, pos, rp_cache s)
           else read_section E m nscount (fl OR CF_ADDITIONAL) queryts (rp_auth s) pos (rp_cache s));
         let s = s\<lparr> rp_auth := a, rp_cache := \<sigma> \<rparr>;
         if rv \<noteq> RC_OK \<or> arcount = 0 then Some (rv, rcode, s)
         else do {
           (rv, numoptrr, a, (_, _, ep), \<sigma>) \<leftarrow> read_section E m arcount (fl OR CF_ADDITIONAL) queryts (rp_add s) pos (rp_cache s);
           let s = s\<lparr> rp_add := a, rp_cache := \<sigma> \<rparr>;
           if numoptrr \<noteq> 0 \<and> rcode \<noteq> int (ed_rcode ep)
           then Some (rv, int (ed_rcode ep),
             s\<lparr> rp_st := (rp_st s)\<lparr> qs_failed := if qs_failed (rp_st s) = 0 then 1 else qs_failed (rp_st s) \<rparr> \<rparr>)
           else Some (rv, rcode, s)
         }
       }
     }"

subsection \<open>References to NS and SOA records\<close>

definition closer :: "byte \<Rightarrow> nat \<Rightarrow> byte" where
  "closer b ml = (if b = cundef \<or> unat b < ml then word_of_nat ml else b)"

fun match_auth :: "query_stat \<Rightarrow> dns_cent list \<Rightarrow> dns_cent \<Rightarrow> dns_cent option" where
  "match_auth st [] cent = Some cent"
| "match_auth st (ce # cs) cent =
     do {
       (ml, rem, _) \<leftarrow> domain_match (ce_qname ce) (ce_qname cent);
       if rem = 0 \<and> (ml \<noteq> 0 \<or> qs_auth_serv st \<noteq> 2) then do {
         ns \<leftarrow> GET_RRSMU ce 1;
         soa \<leftarrow> GET_RRSMU ce 3;
         match_auth st cs (cent\<lparr> ce_ns := if ns \<noteq> None then closer (ce_ns cent) ml else ce_ns cent,
           ce_soa := if soa \<noteq> None then closer (ce_soa cent) ml else ce_soa cent \<rparr>)
       }
       else match_auth st cs cent
     }"

definition mark_cent :: "query_stat \<Rightarrow> int \<Rightarrow> nat \<Rightarrow> dns_cent list \<Rightarrow> dns_cent \<Rightarrow> dns_cent option" where
  "mark_cent st qtype n auth cent =
     do {
       scnt \<leftarrow> rhnsegcnt (ce_qname cent);
       ns \<leftarrow> GET_RRSMU cent 1;
       soa \<leftarrow> GET_RRSMU cent 3;
       let cent = cent\<lparr> ce_ns := if ns \<noteq> None then word_of_nat scnt else ce_ns cent,
         ce_soa := if soa \<noteq> None then word_of_nat scnt else ce_soa cent \<rparr>;
       r \<leftarrow> (if QT_MIN \<le> qtype \<and> qtype \<le> QT_MAX then Some None else getrrset cent qtype);
       if QT_MIN \<le> qtype \<and> qtype \<le> QT_MAX \<or> r \<noteq> None \<or> (n = 1 \<and> ce_num cent = 0)
       then match_auth st auth cent else Some cent
     }"

fun mark_cents :: "query_stat \<Rightarrow> int \<Rightarrow> nat \<Rightarrow> dns_cent list \<Rightarrow> dns_cent list \<Rightarrow> dns_cent list option" where
  "mark_cents st qtype n auth [] = Some []"
| "mark_cents st qtype n auth (c # cs) =
     do { c' \<leftarrow> mark_cent st qtype n auth c; cs' \<leftarrow> mark_cents st qtype n auth cs; Some (c' # cs') }"

subsection \<open>Rejected addresses\<close>

text \<open>\<open>ADDR4MASK_EQUIV\<close> and \<open>ADDR6MASK_EQUIV\<close>: equal under the mask; all have \<open>n\<close> bytes.\<close>

definition addr_equiv :: "nat \<Rightarrow> byte list \<Rightarrow> byte list \<times> byte list \<Rightarrow> bool option" where
  "addr_equiv n data am =
     do {
       a \<leftarrow> rdn data 0 n;
       Some (list_all (\<lambda>(x, y, k). (x XOR y) AND k = 0) (zip a (zip (fst am) (snd am))))
     }"

fun any_equiv :: "nat \<Rightarrow> byte list \<Rightarrow> (byte list \<times> byte list) list \<Rightarrow> bool option" where
  "any_equiv n data [] = Some False"
| "any_equiv n data (am # ams) = do { e \<leftarrow> addr_equiv n data am; if e then Some True else any_equiv n data ams }"

fun any_data :: "nat \<Rightarrow> (byte list \<times> byte list) list \<Rightarrow> byte list list \<Rightarrow> bool option" where
  "any_data n ams [] = Some False"
| "any_data n ams (d # ds) = do { e \<leftarrow> any_equiv n d ams; if e then Some True else any_data n ams ds }"

definition set_rejected :: "nat \<Rightarrow> (byte list \<times> byte list) list \<Rightarrow> rr_set option \<Rightarrow> bool option" where
  "set_rejected n ams r = (case r of None \<Rightarrow> Some False
     | Some rs \<Rightarrow> if ams = [] then Some False else any_data n ams (rs_rrs rs))"

fun cents_rejected :: "rejectlist \<Rightarrow> dns_cent list \<Rightarrow> bool option" where
  "cents_rejected rl [] = Some False"
| "cents_rejected rl (c # cs) =
     do {
       r4 \<leftarrow> GET_RRSMU c 0;
       e4 \<leftarrow> set_rejected 4 (rj_a4 rl) r4;
       if e4 then Some True
       else do {
         r6 \<leftarrow> GET_RRSMU c 7;
         e6 \<leftarrow> set_rejected 16 (rj_a6 rl) r6;
         if e6 then Some True else cents_rejected rl cs
       }
     }"

definition reject_answer :: "qreply \<Rightarrow> bool option" where
  "reject_answer s = (case qs_rejectlist (rp_st s) of None \<Rightarrow> Some False
     | Some rl \<Rightarrow> cents_rejected rl (ca_list (rp_ans s) @ ca_list (rp_auth s) @ ca_list (rp_add s)))"

subsection \<open>Negative answers\<close>

definition soa_minimum :: "byte list \<Rightarrow> int option" where
  "soa_minimum d =
     do {
       p1 \<leftarrow> skiprhn d;
       p2 \<leftarrow> skiprhn p1;
       n \<leftarrow> get32 p2 16;
       Some (as_time n)
     }"

text \<open>The time to live an SOA record tells for a negative answer.\<close>

definition soa_ttl :: "rr_set option \<Rightarrow> int \<Rightarrow> int option" where
  "soa_ttl r ttl = (case r of None \<Rightarrow> Some ttl
     | Some rs \<Rightarrow> (case rs_rrs rs of [] \<Rightarrow> Some ttl
        | d # _ \<Rightarrow> do { mn \<leftarrow> soa_minimum d; Some (if rs_ttl rs > mn then mn else rs_ttl rs) }))"

text \<open>The SOA set of the entry in the authority section with this name.\<close>

definition auth_soa :: "qreply \<Rightarrow> name \<Rightarrow> rr_set option option" where
  "auth_soa s nm =
     do {
       i \<leftarrow> lookup_cent_array (ca_list (rp_auth s)) nm;
       case i of None \<Rightarrow> Some None
       | Some k \<Rightarrow> do { c \<leftarrow> rd (ca_list (rp_auth s)) k; GET_RRSMU c 3 }
     }"

definition set_ent :: "dns_cent \<Rightarrow> qreply \<Rightarrow> qreply" where
  "set_ent c s = s\<lparr> rp_ans := Some ((ca_list (rp_ans s))[0 := c]) \<rparr>"

text \<open>The label \<open>name_error\<close>: the entry becomes negative, or is freed; whether it was made negative.\<close>

definition name_error :: "rconf \<Rightarrow> name \<Rightarrow> int \<Rightarrow> qreply \<Rightarrow> (bool \<times> qreply) option" where
  "name_error R nm queryts s =
     do {
       ent \<leftarrow> rd (ca_list (rp_ans s)) 0;
       let pol = rc_neg_domain_pol R;
       if pol = C_ON \<or> (pol = C_AUTH \<and> qs_aa (rp_st s)) then do {
         scnt \<leftarrow> rhnsegcnt nm;
         ttl \<leftarrow> (if ce_soa ent \<noteq> cundef \<and> unat (ce_soa ent) < scnt then do {
             up \<leftarrow> skipsegs nm (scnt - unat (ce_soa ent));
             r \<leftarrow> auth_soa s up;
             soa_ttl r (rc_neg_ttl R)
           }
           else Some (rc_neg_ttl R));
         (ent, \<sigma>) \<leftarrow> negate_cent ent ttl queryts (rp_cache s);
         Some (True, set_ent (if qs_nocache (rp_st s) then ent\<lparr> ce_flags := ce_flags ent OR DF_NOCACHE \<rparr> else ent)
           (s\<lparr> rp_cache := \<sigma> \<rparr>))
       }
       else do {
         \<sigma> \<leftarrow> free_cent ent (rp_cache s);
         Some (False, s\<lparr> rp_csoa := Some (ce_soa ent), rp_cache := \<sigma> \<rparr>)
       }
     }"

subsection \<open>Zones that only delegate\<close>

text \<open>The first zone above the name, if any: \<open>rem\<close> of the match.\<close>

fun zone_above :: "name \<Rightarrow> name list \<Rightarrow> nat option option" where
  "zone_above nm [] = Some None"
| "zone_above nm (z # zs) =
     do {
       (k, rem, zrem) \<leftarrow> domain_match nm z;
       if k \<noteq> 0 \<and> zrem = 0 then Some (Some rem) else zone_above nm zs
     }"

text \<open>Looking for NS or SOA records of a name that is not itself such a zone: whether one was found, and
  \<open>authcnt\<close>.\<close>

fun find_deleg :: "name list \<Rightarrow> dns_cent list \<Rightarrow> nat \<Rightarrow> (bool \<times> nat) option" where
  "find_deleg zones [] cnt = Some (False, cnt)"
| "find_deleg zones (c # cs) cnt =
     do {
       ns \<leftarrow> GET_RRSMU c 1;
       soa \<leftarrow> GET_RRSMU c 3;
       if ns \<noteq> None \<or> soa \<noteq> None then do {
         z \<leftarrow> zone_above (ce_qname c) zones;
         if z = Some 0 then find_deleg zones cs (cnt + 1) else Some (True, cnt + 1)
       }
       else find_deleg zones cs cnt
     }"

text \<open>\<open>missingdelegation\<close> and \<open>authcnt\<close>.\<close>

definition missing_delegation :: "rconf \<Rightarrow> name \<Rightarrow> qreply \<Rightarrow> (bool \<times> nat) option" where
  "missing_delegation R nm s =
     (if rc_deleg_only R = [] \<or> qs_auth_serv (rp_st s) \<ge> 3 then Some (False, 0)
      else do {
        z \<leftarrow> zone_above nm (rc_deleg_only R);
        case z of None \<Rightarrow> Some (False, 0)
        | Some rem \<Rightarrow> if rem = 0 then Some (False, 0)
           else do {
             (found, cnt) \<leftarrow> find_deleg (rc_deleg_only R) (ca_list (rp_ans s) @ ca_list (rp_auth s)) 0;
             Some (\<not> found, cnt)
           }
      })"

subsection \<open>Negative RR sets\<close>

text \<open>No set of the wanted type came: it is stored as negative where the policy says so. The result is
  false when memory ran out.\<close>

definition negative_set :: "rconf \<Rightarrow> name \<Rightarrow> int \<Rightarrow> u16 \<Rightarrow> bool \<Rightarrow> int \<Rightarrow> qreply \<Rightarrow> (bool \<times> qreply) option" where
  "negative_set R nm thint fl aa queryts s =
     do {
       ent \<leftarrow> rd (ca_list (rp_ans s)) 0;
       let st = rp_st s;
       let pol = rc_neg_rrs_pol R;
       if \<not> (T_MIN \<le> thint \<and> thint \<le> T_MAX) then Some (True, s)
       else do {
         r \<leftarrow> getrrset ent thint;
         if r \<noteq> None \<or> qs_tc st \<or> qs_failed st > 1 \<or>
            \<not> (pol = C_ON \<or> (pol = C_AUTH \<and> aa) \<or> (pol = C_DEFAULT \<and> (aa \<or> qs_ra st)))
         then Some (True, s)
         else do {
           soa \<leftarrow> GET_RRSMU ent 3;
           ttl \<leftarrow> (if (case soa of None \<Rightarrow> False | Some rs \<Rightarrow> rs_rrs rs \<noteq> []) then soa_ttl soa (rc_neg_ttl R)
             else do {
               scnt \<leftarrow> rhnsegcnt nm;
               up \<leftarrow> (if ce_soa ent \<noteq> cundef \<and> unat (ce_soa ent) < scnt then skipsegs nm (scnt - unat (ce_soa ent)) else Some nm);
               r \<leftarrow> auth_soa s up;
               soa_ttl r (rc_neg_ttl R)
             });
           (ok, ent, \<sigma>) \<leftarrow> add_cent_rrset_by_type ent thint ttl queryts (CF_NEGATIVE OR fl) (rp_cache s);
           Some (ok, set_ent ent (s\<lparr> rp_cache := \<sigma> \<rparr>))
         }
       }
     }"

subsection \<open>The list of name servers\<close>

text \<open>Records for names a server is not responsible for are not believed.\<close>

definition in_nsdomain :: "query_stat \<Rightarrow> dns_cent \<Rightarrow> bool option" where
  "in_nsdomain st c =
     (case qs_nsdomain st of None \<Rightarrow> Some True
      | Some d \<Rightarrow> if qs_trusted st then Some True
          else do { (_, rem, _) \<leftarrow> domain_match d (ce_qname c); Some (rem = 0) })"

text \<open>Whether the list has the server already: an item is a name and a server, or \<open>0xff\<close> and a server.\<close>

fun has_server :: "byte list list \<Rightarrow> byte list \<Rightarrow> bool option" where
  "has_server [] d = Some False"
| "has_server (p # ps) d =
     do {
       b \<leftarrow> rd p 0;
       nm \<leftarrow> (if b = 0xff then Some (drop 1 p) else skiprhn p);
       eq \<leftarrow> rhnicmp nm d;
       if eq then Some True else has_server ps d
     }"

text \<open>The servers of one RR set; the result is false when memory ran out, and the number of new items.\<close>

fun ns_records :: "name \<Rightarrow> byte list list \<Rightarrow> bool \<Rightarrow> nat \<Rightarrow> qreply \<Rightarrow> (bool \<times> nat \<times> qreply) option" where
  "ns_records nm [] first num s = Some (True, num, s)"
| "ns_records nm (d # ds) first num s =
     do {
       dup \<leftarrow> has_server (rp_ns s) d;
       if dup then ns_records nm ds first num s
       else do {
         l1 \<leftarrow> rhnlen nm;
         l2 \<leftarrow> rhnlen d;
         let (ok, s) = rp_malloc s;
         if \<not> ok then Some (False, num, s\<lparr> rp_ns := [] \<rparr>)
         else do {
           n1 \<leftarrow> (if first then rdn nm 0 l1 else Some [0xff]);
           n2 \<leftarrow> rdn d 0 l2;
           ns_records nm ds False (num + 1) (s\<lparr> rp_ns := rp_ns s @ [n1 @ n2] \<rparr>)
         }
       }
     }"

fun ns_cents :: "dns_cent list \<Rightarrow> nat \<Rightarrow> qreply \<Rightarrow> (bool \<times> nat \<times> qreply) option" where
  "ns_cents [] num s = Some (True, num, s)"
| "ns_cents (c # cs) num s =
     do {
       b \<leftarrow> rd (ce_qname c) 0;
       dom \<leftarrow> (if b \<noteq> 0 \<or> qs_auth_serv (rp_st s) \<noteq> 2 then in_nsdomain (rp_st s) c else Some False);
       if \<not> dom \<or> b = 0xff then ns_cents cs num s
       else do {
         ns \<leftarrow> getrrset c T_NS;
         (ok, num, s) \<leftarrow> ns_records (ce_qname c) (case ns of None \<Rightarrow> [] | Some rs \<Rightarrow> rs_rrs rs) True num s;
         if \<not> ok then Some (False, num, s)
         else do {
           soa \<leftarrow> getrrset c T_SOA;
           (ok, num, s) \<leftarrow> ns_records (ce_qname c) (case soa of None \<Rightarrow> [] | Some rs \<Rightarrow> rs_rrs rs) True num s;
           if \<not> ok then Some (False, num, s) else ns_cents cs num s
         }
       }
     }"

subsection \<open>Records for the cache\<close>

fun add_cents :: "rconf \<Rightarrow> dns_cent list \<Rightarrow> qreply \<Rightarrow> qreply option" where
  "add_cents R [] s = Some s"
| "add_cents R (c # cs) s =
     do {
       b \<leftarrow> rd (ce_qname c) 0;
       dom \<leftarrow> (if b \<noteq> 0 \<or> qs_auth_serv (rp_st s) \<noteq> 2 then in_nsdomain (rp_st s) c else Some False);
       if dom then do {
         let (now, s) = rp_time s;
         \<sigma> \<leftarrow> add_cache now (rc_cache R) c (rp_cache s);
         add_cents R cs (s\<lparr> rp_cache := \<sigma> \<rparr>)
       }
       else add_cents R cs s
     }"

text \<open>The label \<open>add_additional\<close>; the first entry of the answer section is the answer itself.\<close>

definition add_additional :: "rconf \<Rightarrow> bool \<Rightarrow> bool \<Rightarrow> qreply \<Rightarrow> qreply option" where
  "add_additional R neg_ans reject_ans s =
     (if qs_failed (rp_st s) \<noteq> 0 \<or> reject_ans then Some s
      else add_cents R ((if neg_ans then [] else drop 1 (ca_list (rp_ans s))) @ ca_list (rp_auth s) @ ca_list (rp_add s)) s)"

subsection \<open>The end\<close>

text \<open>The labels \<open>free_centarrays_recvbuf_return\<close> and, with \<open>ent\<close>, \<open>free_ent_centarrays_recvbuf_return\<close>.\<close>

definition free_arrays :: "bool \<Rightarrow> qreply \<Rightarrow> qreply option" where
  "free_arrays ent s =
     do {
       \<sigma> \<leftarrow> free_cents (if ent then take 1 (ca_list (rp_ans s)) else []) (rp_cache s);
       \<sigma> \<leftarrow> free_cents (drop 1 (ca_list (rp_ans s)) @ ca_list (rp_auth s) @ ca_list (rp_add s)) \<sigma>;
       Some (s\<lparr> rp_cache := \<sigma> \<rparr>)
     }"

type_synonym reply_res = "(int \<times> dns_cent option \<times> qreply) option"

definition fail_ent :: "int \<Rightarrow> qreply \<Rightarrow> reply_res" where
  "fail_ent rv s = do { s \<leftarrow> free_arrays True s; Some (rv, None, s) }"

text \<open>The label \<open>cleanup_return_OK\<close>.\<close>

definition cleanup_ok :: "rconf \<Rightarrow> bool \<Rightarrow> bool \<Rightarrow> nat \<Rightarrow> qreply \<Rightarrow> reply_res" where
  "cleanup_ok R neg_ans reject_ans num_ns s =
     (if qs_failed (rp_st s) \<noteq> 0 \<and> neg_ans \<and> num_ns = 0 then fail_ent RC_SERVFAIL (s\<lparr> rp_ns := [] \<rparr>)
      else do {
        let (ok, s) = rp_malloc s;
        if \<not> ok then fail_ent RC_FATALERR (s\<lparr> rp_ns := [] \<rparr>)
        else do {
          ent \<leftarrow> rd (ca_list (rp_ans s)) 0;
          s \<leftarrow> add_additional R neg_ans reject_ans s;
          s \<leftarrow> free_arrays False s;
          Some (RC_OK, Some ent, s)
        }
      })"

definition end_name_error :: "rconf \<Rightarrow> name \<Rightarrow> int \<Rightarrow> bool \<Rightarrow> qreply \<Rightarrow> reply_res" where
  "end_name_error R nm queryts reject_ans s =
     do {
       (negated, s) \<leftarrow> name_error R nm queryts s;
       if negated then cleanup_ok R True reject_ans 0 s
       else do {
         s \<leftarrow> add_additional R True reject_ans s;
         s \<leftarrow> free_arrays False s;
         Some (RC_NAMEERR, None, s)
       }
     }"

text \<open>What follows when the sections have been read.\<close>

definition finish_reply :: "rconf \<Rightarrow> name \<Rightarrow> int \<Rightarrow> u16 \<Rightarrow> bool \<Rightarrow> int \<Rightarrow> int \<Rightarrow> qreply \<Rightarrow> reply_res" where
  "finish_reply R nm thint fl aa queryts rcode s =
     do {
       let ans = ca_list (rp_ans s);
       ans' \<leftarrow> mark_cents (rp_st s) (qtype_of (rp_st s) thint) (length ans) (ca_list (rp_auth s)) ans;
       let s = s\<lparr> rp_ans := map_option (\<lambda>_. ans') (rp_ans s) \<rparr>;
       reject_ans \<leftarrow> reject_answer s;
       if rcode = RC_NAMEERR then end_name_error R nm queryts reject_ans s
       else if reject_ans then
         (if map_option rj_policy (qs_rejectlist (rp_st s)) = Some C_NEGATE \<and> qs_failed (rp_st s) \<le> 1
          then end_name_error R nm queryts reject_ans s
          else fail_ent RC_SERVFAIL s)
       else do {
         (missing, authcnt) \<leftarrow> missing_delegation R nm s;
         if missing \<and> authcnt \<noteq> 0 \<and> qs_failed (rp_st s) \<le> 1 then end_name_error R nm queryts reject_ans s
         else if missing \<and> qs_auth_serv (rp_st s) < 2 then fail_ent RC_SERVFAIL s
         else do {
           ent \<leftarrow> rd (ca_list (rp_ans s)) 0;
           let neg_ans = (ce_num ent = 0);
           (ok, s) \<leftarrow> negative_set R nm thint fl aa queryts s;
           if \<not> ok then fail_ent RC_FATALERR s
           else if qs_failed (rp_st s) \<le> 1 then do {
             (ok, num_ns, s) \<leftarrow> ns_cents (ca_list (rp_ans s) @ ca_list (rp_auth s)) 0 s;
             if \<not> ok then fail_ent RC_FATALERR s else cleanup_ok R neg_ans reject_ans num_ns s
           }
           else cleanup_ok R neg_ans reject_ans 0 s
         }
       }
     }"

text \<open>The reply \<open>m\<close> to the query for \<open>nm\<close> and \<open>thint\<close>: the return value, the entry, and the state.\<close>

definition process_reply ::
    "aenv \<Rightarrow> rconf \<Rightarrow> name \<Rightarrow> int \<Rightarrow> int \<Rightarrow> byte list \<Rightarrow> qreply \<Rightarrow> reply_res" where
  "process_reply E R nm thint queryts m s =
     do {
       let qtype = qtype_of (rp_st s) thint;
       q \<leftarrow> reply_question E m nm qtype;
       case q of
         None \<Rightarrow> Some (RC_SERVFAIL, None, s)
       | Some pos \<Rightarrow> do {
           maa \<leftarrow> hdr_aa m; mtc \<leftarrow> hdr_tc m; mra \<leftarrow> hdr_ra m; rc \<leftarrow> hdr_rcode m;
           rdes \<leftarrow> hdr_rd (qs_msg (rp_st s));
           let st = rp_st s;
           let st = st\<lparr> qs_aa := maa \<and> qs_failed st = 0, qs_tc := mtc, qs_ra := rdes \<and> mra \<rparr>;
           let s = s\<lparr> rp_st := st, rp_ans := None, rp_auth := None, rp_add := None \<rparr>;
           let aa = (qs_aa st \<and> \<not> qs_tc st);
           let fl = (if aa then qs_flags st OR CF_AUTH else qs_flags st);
           (a, \<sigma>) \<leftarrow> ca_grow (rp_ans s) (rp_cache s);
           let s = s\<lparr> rp_cache := \<sigma> \<rparr>;
           if a = None then Some (RC_FATALERR, None, s)
           else do {
             (new, \<sigma>) \<leftarrow> init_cent nm 0 0 (if aa \<and> qtype = QT_ALL then DF_AUTH else 0) (rp_cache s);
             let s = s\<lparr> rp_cache := \<sigma> \<rparr>;
             case new of
               None \<Rightarrow> Some (RC_FATALERR, None, s)
             | Some c \<Rightarrow> do {
                 (rv, rcode, s) \<leftarrow> read_sections E m fl queryts (uint rc) pos (s\<lparr> rp_ans := Some [c] \<rparr>);
                 if \<not> (rv = RC_OK \<or> (rv = RC_TRUNC \<and> mtc))
                 then fail_ent (if rv = RC_FATALERR then rv else RC_SERVFAIL) s
                 else finish_reply R nm thint fl aa queryts rcode s
               }
           }
         }
     }"

end
