(* ===== verification/Pd_AnswerSpec.thy ===== *)
theory Pd_AnswerSpec
  imports Pd_Answer
begin

text \<open>
  What \<open>add_rr\<close> and the functions it uses do to a message: every write stays inside the block, and
  what is appended can be read back, whatever the header of the message and the bytes reserved for
  a record header hold meanwhile.
\<close>

subsection \<open>The invariant of a message\<close>

text \<open>The bytes in use; the block, its size and the list of names fit together.\<close>

definition used :: "ans \<Rightarrow> byte list" where
  "used s = take (an_sz s) (an_buf s)"

definition names_ok :: "compel list \<Rightarrow> bool" where
  "names_ok cb = (\<exists>es. cb = cb_mem es \<and> (\<forall>e \<in> set es. wire_name (snd e)))"

definition msg_wf :: "ans \<Rightarrow> bool" where
  "msg_wf s = (length (an_buf s) + 2 = an_alloc s \<and> 12 \<le> an_sz s \<and> an_sz s \<le> length (an_buf s) \<and>
     names_ok (an_cb s))"

text \<open>The list of names is valid for each of the messages \<open>M\<close>, all as long as the one in use.\<close>

definition cb_for :: "byte list set \<Rightarrow> ans \<Rightarrow> bool" where
  "cb_for M s = (\<exists>es. an_cb s = cb_mem es \<and> (\<forall>e \<in> set es. wire_name (snd e)) \<and>
     (\<forall>m \<in> M. length m = an_sz s \<and> cb_ok m es))"

text \<open>A name stands at a place of a message; the letters may differ in case.\<close>

definition nm_at :: "byte list \<Rightarrow> nat \<Rightarrow> label list \<Rightarrow> nat \<Rightarrow> bool" where
  "nm_at m i ks n = (\<exists>ls h. name_at m i ls h n \<and> ci_eq ls ks \<and> h \<le> 255)"

text \<open>Everything but the message is left alone, up to the outcomes of allocations.\<close>

definition keeps :: "ans \<Rightarrow> ans \<Rightarrow> bool" where
  "keeps s s' = (\<exists>ms. an_cache s' = (an_cache s)\<lparr> mallocs := ms \<rparr> \<and> an_sva s' = an_sva s \<and> an_ar s' = an_ar s \<and>
     an_aa s' = an_aa s \<and> an_rcode s' = an_rcode s \<and> an_random s' = an_random s \<and> an_clock s' = an_clock s \<and>
     (no_fail (an_cache s) \<longrightarrow> no_fail (an_cache s')))"

text \<open>The bytes \<open>x\<close> are appended.\<close>

definition extends :: "ans \<Rightarrow> byte list \<Rightarrow> ans \<Rightarrow> bool" where
  "extends s x s' = (keeps s s' \<and> msg_wf s' \<and> used s' = used s @ x \<and> an_sz s' = an_sz s + length x \<and>
     length (an_buf s) \<le> length (an_buf s'))"

definition app :: "byte list \<Rightarrow> byte list set \<Rightarrow> byte list set" where
  "app x M = (\<lambda>m. m @ x) ` M"

lemma app_app [simp]: "app y (app x M) = app (x @ y) M"
  by (auto simp: app_def image_iff)

lemma app_Nil [simp]: "app [] M = M"
  by (simp add: app_def)

lemma app_mem: "m \<in> M \<Longrightarrow> m @ x \<in> app x M"
  by (simp add: app_def)

lemma keeps_refl [simp]: "keeps s s"
  unfolding keeps_def by (intro exI [of _ "mallocs (an_cache s)"]) simp

lemma keeps_trans: "keeps s s1 \<Longrightarrow> keeps s1 s2 \<Longrightarrow> keeps s s2"
  unfolding keeps_def by (elim exE conjE, intro exI conjI) (assumption | simp)+

lemma keepsD: "keeps s s' \<Longrightarrow> no_fail (an_cache s) \<Longrightarrow> no_fail (an_cache s')"
  by (auto simp: keeps_def)

lemma keeps_upd [simp]:
  "keeps s (s'\<lparr> an_buf := b \<rparr>) = keeps s s'" "keeps s (s'\<lparr> an_sz := n \<rparr>) = keeps s s'"
  "keeps s (s'\<lparr> an_alloc := n \<rparr>) = keeps s s'" "keeps s (s'\<lparr> an_cb := c \<rparr>) = keeps s s'"
  "keeps (s\<lparr> an_sz := n \<rparr>) s' = keeps s s'"
  by (simp_all add: keeps_def)

lemma an_malloc_spec:
  assumes "an_malloc s = (ok, s')"
  shows "keeps s s'" "no_fail (an_cache s) \<longrightarrow> ok" "an_buf s' = an_buf s" "an_sz s' = an_sz s"
    "an_alloc s' = an_alloc s" "an_cb s' = an_cb s" "\<exists>ms. s' = s\<lparr> an_cache := (an_cache s)\<lparr> mallocs := ms \<rparr> \<rparr>"
proof -
  have "\<exists>ms. s' = s\<lparr> an_cache := (an_cache s)\<lparr> mallocs := ms \<rparr> \<rparr> \<and> (no_fail (an_cache s) \<longrightarrow> ok \<and> (\<forall>b \<in> set ms. b))"
  proof (cases "mallocs (an_cache s)")
    case Nil
    then show ?thesis using assms by (auto simp: an_malloc_def malloc_def no_fail_def intro!: exI [of _ "[]"])
  next
    case (Cons b bs)
    then show ?thesis using assms by (auto simp: an_malloc_def malloc_def no_fail_def intro!: exI [of _ bs])
  qed
  then obtain ms where "s' = s\<lparr> an_cache := (an_cache s)\<lparr> mallocs := ms \<rparr> \<rparr>" "no_fail (an_cache s) \<longrightarrow> ok \<and> (\<forall>b \<in> set ms. b)" by blast
  then show "keeps s s'" "no_fail (an_cache s) \<longrightarrow> ok" "an_buf s' = an_buf s" "an_sz s' = an_sz s"
    "an_alloc s' = an_alloc s" "an_cb s' = an_cb s" "\<exists>ms. s' = s\<lparr> an_cache := (an_cache s)\<lparr> mallocs := ms \<rparr> \<rparr>"
    by (auto simp: keeps_def no_fail_def)
qed

lemma extends_trans: "extends s x s1 \<Longrightarrow> extends s1 y s2 \<Longrightarrow> extends s (x @ y) s2"
  by (auto simp: extends_def intro: keeps_trans)

lemma used_length: "msg_wf s \<Longrightarrow> length (used s) = an_sz s"
  by (simp add: msg_wf_def used_def)

lemma cb_for_names: "cb_for M s \<Longrightarrow> names_ok (an_cb s)"
  by (auto simp: cb_for_def names_ok_def)

lemma cb_for_mono: "cb_for M s \<Longrightarrow> M' \<subseteq> M \<Longrightarrow> cb_for M' s"
  unfolding cb_for_def by blast

lemma cb_for_app:
  assumes "cb_for M s" "an_cb s' = an_cb s" "an_sz s' = an_sz s + length x"
  shows "cb_for (app x M) s'"
  using assms unfolding cb_for_def app_def by (auto intro: cb_ok_append)

lemma nm_at_append: "nm_at m i ks n \<Longrightarrow> nm_at (m @ x) i ks n"
  unfolding nm_at_def using name_at_append by blast

subsection \<open>Appending names and bytes\<close>

lemma cb_mem_inj:
  assumes "cb_mem es' = cb_mem es" "\<forall>e \<in> set es'. wire_name (snd e)" "\<forall>e \<in> set es. wire_name (snd e)"
  shows "es' = es"
proof -
  have "inj_on (\<lambda>(i, ls). (i, enc ls)) {(i, ls). wire_name ls}"
  proof (rule inj_onI, clarsimp)
    fix ks ls assume "wire_name ks" "wire_name ls" "enc ks = enc ls"
    then show "ks = ls" using enc_prefix_inj [of ks ls "[]" "[]"] wire_name_labels by auto
  qed
  then have "inj_on (\<lambda>(i, ls). (i, enc ls)) (set es' \<union> set es)"
    by (rule inj_on_subset) (use assms(2,3) in auto)
  then show ?thesis using assms(1) unfolding cb_mem_def by (metis map_inj_on)
qed

text \<open>What compressing a name at the end of the message yields.\<close>

lemma compress_at:
  assumes "names_ok (an_cb s)" "wire_name ks" "length (enc ks) \<le> length out"
  shows "\<exists>bs es' add. 0 < length bs \<and> length bs \<le> length (enc ks) \<and> (\<forall>e \<in> set es'. wire_name (snd e)) \<and>
    (\<forall>ok. compress_name (enc ks @ r) out (an_sz s) (an_cb s) ok = Some
      (if add \<and> \<not> ok then (0, bs @ drop (length bs) out, []) else (length bs, bs @ drop (length bs) out, cb_mem es'))) \<and>
    (\<forall>M. cb_for M s \<longrightarrow> (\<forall>m \<in> M. length m = an_sz s \<and> cb_ok (m @ bs) es' \<and> nm_at (m @ bs) (an_sz s) ks (length bs)))"
proof -
  obtain es where es: "an_cb s = cb_mem es" "\<forall>e \<in> set es. wire_name (snd e)"
    using assms(1) by (auto simp: names_ok_def)
  obtain bs add where bs: "0 < length bs" "length bs \<le> length (enc ks)" and
    c: "\<forall>alloc. compress_name (enc ks @ r) out (an_sz s) (cb_mem es) alloc = Some
      (if add \<and> \<not> alloc then (0, bs @ drop (length bs) out, [])
       else (length bs, bs @ drop (length bs) out, cb_mem (if add then es @ [(an_sz s, ks)] else es)))" and
    st: "\<forall>m. length m = an_sz s \<longrightarrow> cb_ok m es \<longrightarrow>
      cb_ok (m @ bs) (if add then es @ [(an_sz s, ks)] else es) \<and>
      (\<exists>ls h. name_at (m @ bs) (an_sz s) ls h (length bs) \<and> ci_eq ls ks \<and> h \<le> 255)"
    using compress_name_spec [OF es(2) assms(2,3), of r "an_sz s"] by (elim exE conjE) (rule that)
  let ?es = "if add then es @ [(an_sz s, ks)] else es"
  have M: "length m = an_sz s \<and> cb_ok (m @ bs) ?es \<and> nm_at (m @ bs) (an_sz s) ks (length bs)"
    if cf: "cb_for M s" "m \<in> M" for M m
  proof -
    obtain es' where e: "an_cb s = cb_mem es'" "\<forall>e \<in> set es'. wire_name (snd e)" "length m = an_sz s" "cb_ok m es'"
      using cf by (auto simp: cb_for_def)
    have "es' = es" by (rule cb_mem_inj [OF _ e(2) es(2)]) (rule trans [OF e(1)[symmetric] es(1)])
    then show ?thesis using st e(3,4) unfolding nm_at_def by blast
  qed
  have wn: "\<forall>e \<in> set ?es. wire_name (snd e)" using es(2) assms(2) by auto
  show ?thesis
  proof (rule exI [of _ bs], rule exI [of _ ?es], rule exI [of _ add], intro conjI)
    show "0 < length bs" "length bs \<le> length (enc ks)" by (rule bs)+
    show "\<forall>e \<in> set ?es. wire_name (snd e)" by (rule wn)
    show "\<forall>ok. compress_name (enc ks @ r) out (an_sz s) (an_cb s) ok = Some
      (if add \<and> \<not> ok then (0, bs @ drop (length bs) out, []) else (length bs, bs @ drop (length bs) out, cb_mem ?es))"
      unfolding es(1) by (rule c)
    show "\<forall>M. cb_for M s \<longrightarrow> (\<forall>m \<in> M. length m = an_sz s \<and> cb_ok (m @ bs) ?es \<and> nm_at (m @ bs) (an_sz s) ks (length bs))"
      using M by blast
  qed
qed

lemma put_name_spec:
  assumes "msg_wf s" "wire_name ks" "an_sz s + length (enc ks) \<le> length (an_buf s)"
  shows "\<exists>n s'. put_name (enc ks @ r) s = Some (n, s') \<and> keeps s s' \<and> (no_fail (an_cache s) \<longrightarrow> n \<noteq> 0) \<and>
    (n \<noteq> 0 \<longrightarrow> (\<exists>x. length x = n \<and> n \<le> length (enc ks) \<and> extends s x s' \<and>
      (\<forall>M. cb_for M s \<longrightarrow> cb_for (app x M) s' \<and> (\<forall>m \<in> M. nm_at (m @ x) (an_sz s) ks n))))"
proof -
  obtain ok s1 where m: "an_malloc s = (ok, s1)" by (cases "an_malloc s")
  note ms = an_malloc_spec [OF m]
  let ?out = "drop (an_sz s) (an_buf s)"
  have lo: "length (enc ks) \<le> length ?out" using assms(3) by simp
  have nm: "names_ok (an_cb s)" using assms(1) by (simp add: msg_wf_def)
  obtain bs es' add where bs: "0 < length bs" "length bs \<le> length (enc ks)" and wn: "\<forall>e \<in> set es'. wire_name (snd e)" and
    c: "\<forall>ok. compress_name (enc ks @ r) ?out (an_sz s) (an_cb s) ok = Some
      (if add \<and> \<not> ok then (0, bs @ drop (length bs) ?out, []) else (length bs, bs @ drop (length bs) ?out, cb_mem es'))" and
    st: "\<forall>M. cb_for M s \<longrightarrow> (\<forall>m \<in> M. length m = an_sz s \<and> cb_ok (m @ bs) es' \<and> nm_at (m @ bs) (an_sz s) ks (length bs))"
    using compress_at [OF nm assms(2) lo, of r] by (elim exE conjE) (rule that)
  have sz: "an_sz s \<le> length (an_buf s)" "12 \<le> an_sz s" "length (an_buf s) + 2 = an_alloc s"
    using assms(1) by (simp_all add: msg_wf_def)
  let ?buf = "take (an_sz s) (an_buf s) @ bs @ drop (length bs) ?out"
  show ?thesis
  proof (cases "add \<and> \<not> ok")
    case True
    then have "put_name (enc ks @ r) s = Some (0, s1\<lparr> an_buf := ?buf, an_cb := [], an_sz := an_sz s + 0 \<rparr>)"
      using m c sz by (simp add: put_name_def)
    then show ?thesis using ms(1,2) True by (intro exI conjI) (assumption | simp)+
  next
    case False
    let ?s = "s1\<lparr> an_buf := ?buf, an_cb := cb_mem es', an_sz := an_sz s + length bs \<rparr>"
    have c1: "compress_name (enc ks @ r) ?out (an_sz s) (an_cb s) ok = Some (length bs, bs @ drop (length bs) ?out, cb_mem es')"
      using c [rule_format, of ok] False by simp
    have p: "put_name (enc ks @ r) s = Some (length bs, ?s)"
      using m sz by (simp add: put_name_def c1)
    have lb: "length ?buf = length (an_buf s)" using bs lo sz by simp
    have u: "used ?s = used s @ bs" using sz by (simp add: used_def)
    have "an_sz s + length bs \<le> length ?buf" using bs lo sz by simp
    moreover have "names_ok (cb_mem es')" unfolding names_ok_def using wn by blast
    ultimately have "msg_wf ?s" using sz lb ms(5) by (simp add: msg_wf_def)
    then have ex: "extends s bs ?s" using u lb ms(1) by (simp add: extends_def)
    have cb: "cb_for (app bs M) ?s \<and> (\<forall>m \<in> M. nm_at (m @ bs) (an_sz s) ks (length bs))" if cf: "cb_for M s" for M
    proof -
      have "cb_for (app bs M) ?s" unfolding cb_for_def
        by (intro exI [of _ es'] conjI) (use st cf wn in \<open>auto simp: app_def\<close>)
      then show ?thesis using st cf by blast
    qed
    show ?thesis using p ms(1) bs ex cb
      by (intro exI [of _ "length bs"] exI [of _ ?s]) auto
  qed
qed

lemma put_bytes_spec:
  assumes "msg_wf s" "an_sz s + length bs \<le> length (an_buf s)"
  shows "\<exists>s'. put_bytes bs s = Some s' \<and> extends s bs s' \<and> an_cb s' = an_cb s"
proof -
  let ?s = "s\<lparr> an_buf := splice (an_buf s) (an_sz s) bs, an_sz := an_sz s + length bs \<rparr>"
  have "put_bytes bs s = Some ?s" using assms(2) by (simp add: put_bytes_def wrn_splice)
  moreover have "used ?s = used s @ bs" using assms by (simp add: used_def splice_def msg_wf_def)
  moreover have "msg_wf ?s" using assms by (simp add: msg_wf_def)
  ultimately show ?thesis using assms(2) by (simp add: extends_def)
qed

subsection \<open>The layout of the data\<close>

text \<open>The data of a record as a sequence of plain bytes and names.\<close>

datatype rpart = Raw "byte list" | Dom "label list"

fun enc_part :: "rpart \<Rightarrow> byte list" where
  "enc_part (Raw b) = b"
| "enc_part (Dom ks) = enc ks"

fun part_wf :: "rpart \<Rightarrow> bool" where
  "part_wf (Raw b) = True"
| "part_wf (Dom ks) = wire_name ks"

definition enc_parts :: "rpart list \<Rightarrow> byte list" where
  "enc_parts ps = concat (map enc_part ps)"

lemma enc_parts_simps [simp]: "enc_parts [] = []" "enc_parts (p # ps) = enc_part p @ enc_parts ps"
  by (simp_all add: enc_parts_def)

text \<open>Where the parts are in a message, names possibly compressed.\<close>

fun parts_at :: "byte list \<Rightarrow> nat \<Rightarrow> rpart list \<Rightarrow> nat \<Rightarrow> bool" where
  "parts_at m i [] j = (i = j)"
| "parts_at m i (Raw b # ps) j =
     (i + length b \<le> length m \<and> take (length b) (drop i m) = b \<and> parts_at m (i + length b) ps j)"
| "parts_at m i (Dom ks # ps) j = (\<exists>n. nm_at m i ks n \<and> parts_at m (i + n) ps j)"

lemma parts_at_append: "parts_at m i ps j \<Longrightarrow> parts_at (m @ x) i ps j"
  by (induction m i ps j rule: parts_at.induct) (auto intro: nm_at_append)

text \<open>The strings that precede the name of a \<open>T_NAPTR\<close> record.\<close>

fun naptr_strings :: "nat \<Rightarrow> byte list \<Rightarrow> bool" where
  "naptr_strings 0 b = (b = [])"
| "naptr_strings (Suc j) b =
     (case b of [] \<Rightarrow> False | l # r \<Rightarrow> unat l \<le> length r \<and> naptr_strings j (drop (unat l) r))"

definition layout :: "int \<Rightarrow> rpart list \<Rightarrow> bool" where
  "layout tp ps =
     (if tp \<in> {T_CNAME, T_MB, T_MD, T_MF, T_MG, T_MR, T_NS, T_PTR} then (\<exists>a. ps = [Dom a])
      else if tp \<in> {T_MINFO, T_RP} then (\<exists>a b. ps = [Dom a, Dom b])
      else if tp \<in> {T_MX, T_AFSDB, T_RT, T_KX} then (\<exists>p a. ps = [Raw p, Dom a] \<and> length p = 2)
      else if tp = T_SOA then (\<exists>a b n. ps = [Dom a, Dom b, Raw n] \<and> length n = 20)
      else if tp = T_PX then (\<exists>p a b. ps = [Raw p, Dom a, Dom b] \<and> length p = 2)
      else if tp = T_SRV then (\<exists>p a. ps = [Raw p, Dom a] \<and> length p = 6)
      else if tp = T_NXT then (\<exists>a b. ps = [Dom a, Raw b])
      else if tp = T_NAPTR then (\<exists>p a. ps = [Raw p, Dom a] \<and> 4 \<le> length p \<and> naptr_strings 3 (drop 4 p))
      else (\<exists>b. ps = [Raw b]))"

definition rdata_ok :: "int \<Rightarrow> byte list \<Rightarrow> bool" where
  "rdata_ok tp d = (length d < 65536 \<and> (\<exists>ps. layout tp ps \<and> list_all part_wf ps \<and> d = enc_parts ps))"

subsection \<open>Writing the data\<close>

text \<open>The result of writing \<open>ps\<close> when \<open>k\<close> bytes of the data are already there.\<close>

definition rd_post :: "ans \<Rightarrow> rpart list \<Rightarrow> nat \<Rightarrow> rd_res \<Rightarrow> bool" where
  "rd_post s ps k res = (\<exists>r s'. res = Some (r, s') \<and> keeps s s' \<and> (no_fail (an_cache s) \<longrightarrow> r \<noteq> None) \<and>
     (\<forall>n. r = Some n \<longrightarrow> (\<exists>x. n = k + length x \<and> length x \<le> length (enc_parts ps) \<and> extends s x s' \<and>
       (\<forall>M. cb_for M s \<longrightarrow> cb_for (app x M) s' \<and> (\<forall>m \<in> M. parts_at (m @ x) (an_sz s) ps (an_sz s'))))))"

lemma rd_post_ret:
  assumes "msg_wf s"
  shows "rd_post s [] k (Some (Some k, s))"
  unfolding rd_post_def using assms
  by (intro exI [of _ "Some k"] exI [of _ s]) (simp add: extends_def)

lemma rd_post_cons:
  assumes x: "extends s x s1" and k: "rd_post s1 ps (k + length x) res" and len: "length x \<le> length (enc_part p)"
    and M: "\<And>M. cb_for M s \<Longrightarrow> cb_for (app x M) s1"
    and at: "\<And>M m y j. cb_for M s \<Longrightarrow> m \<in> M \<Longrightarrow> parts_at (m @ x @ y) (an_sz s1) ps j \<Longrightarrow> parts_at (m @ x @ y) (an_sz s) (p # ps) j"
  shows "rd_post s (p # ps) k res"
proof -
  have ks: "keeps s s1" using x by (simp add: extends_def)
  obtain r s' where r: "res = Some (r, s')" "keeps s1 s'" "no_fail (an_cache s1) \<longrightarrow> r \<noteq> None"
    and ex: "\<forall>n. r = Some n \<longrightarrow> (\<exists>y. n = k + length x + length y \<and> length y \<le> length (enc_parts ps) \<and> extends s1 y s' \<and>
       (\<forall>M. cb_for M s1 \<longrightarrow> cb_for (app y M) s' \<and> (\<forall>m \<in> M. parts_at (m @ y) (an_sz s1) ps (an_sz s'))))"
    using k unfolding rd_post_def by blast
  have "\<exists>z. n = k + length z \<and> length z \<le> length (enc_parts (p # ps)) \<and> extends s z s' \<and>
      (\<forall>M. cb_for M s \<longrightarrow> cb_for (app z M) s' \<and> (\<forall>m \<in> M. parts_at (m @ z) (an_sz s) (p # ps) (an_sz s')))"
    if n: "r = Some n" for n
  proof -
    obtain y where y: "n = k + length x + length y" "length y \<le> length (enc_parts ps)" "extends s1 y s'"
      and My: "\<And>M. cb_for M s1 \<Longrightarrow> cb_for (app y M) s' \<and> (\<forall>m \<in> M. parts_at (m @ y) (an_sz s1) ps (an_sz s'))"
      using ex n by blast
    have "cb_for (app (x @ y) M) s' \<and> (\<forall>m \<in> M. parts_at (m @ x @ y) (an_sz s) (p # ps) (an_sz s'))"
      if cf: "cb_for M s" for M
    proof -
      have a: "cb_for (app y (app x M)) s'" "\<forall>m \<in> app x M. parts_at (m @ y) (an_sz s1) ps (an_sz s')"
        using My [OF M [OF cf]] by blast+
      have "parts_at (m @ x @ y) (an_sz s) (p # ps) (an_sz s')" if m: "m \<in> M" for m
        by (rule at [OF cf m]) (use a(2) app_mem [OF m, of x] in fastforce)
      then show ?thesis using a(1) by simp
    qed
    then show ?thesis using y len extends_trans [OF x y(3)]
      by (intro exI [of _ "x @ y"]) auto
  qed
  moreover have "keeps s s'" by (rule keeps_trans [OF ks r(2)])
  ultimately show ?thesis using r(1,3) keepsD [OF ks] unfolding rd_post_def by blast
qed

lemma put_bytes_post:
  assumes "msg_wf s" "an_sz s + length b \<le> length (an_buf s)"
    "\<And>s1. extends s b s1 \<Longrightarrow> rd_post s1 ps (k + length b) (f s1)"
  shows "rd_post s (Raw b # ps) k (Option.bind (put_bytes b s) f)"
proof -
  obtain s1 where s1: "put_bytes b s = Some s1" "extends s b s1" "an_cb s1 = an_cb s"
    using put_bytes_spec [OF assms(1,2)] by blast
  have sz: "an_sz s1 = an_sz s + length b" using s1(2) by (simp add: extends_def)
  have "rd_post s (Raw b # ps) k (f s1)"
  proof (rule rd_post_cons [OF s1(2) assms(3) [OF s1(2)]])
    show "cb_for (app b M) s1" if "cb_for M s" for M by (rule cb_for_app [OF that s1(3) sz])
    fix M m y j assume a: "cb_for M s" "m \<in> M" "parts_at (m @ b @ y) (an_sz s1) ps j"
    then have "length m = an_sz s" by (auto simp: cb_for_def)
    then show "parts_at (m @ b @ y) (an_sz s) (Raw b # ps) j" using a(3) sz by simp
  qed simp
  then show ?thesis using s1(1) by simp
qed

lemma name_then_post:
  assumes "msg_wf s" "wire_name ks" "an_sz s + length (enc ks) \<le> length (an_buf s)"
    "\<And>s1 x. extends s x s1 \<Longrightarrow> 0 < length x \<Longrightarrow> length x \<le> length (enc ks) \<Longrightarrow> rd_post s1 ps (k + length x) (f (length x) s1)"
  shows "rd_post s (Dom ks # ps) k (name_then (enc ks @ r) s f)"
proof -
  obtain n s1 where p: "put_name (enc ks @ r) s = Some (n, s1)" "keeps s s1" "no_fail (an_cache s) \<longrightarrow> n \<noteq> 0"
    and ex: "n \<noteq> 0 \<longrightarrow> (\<exists>x. length x = n \<and> n \<le> length (enc ks) \<and> extends s x s1 \<and>
      (\<forall>M. cb_for M s \<longrightarrow> cb_for (app x M) s1 \<and> (\<forall>m \<in> M. nm_at (m @ x) (an_sz s) ks n)))"
    using put_name_spec [OF assms(1-3), of r] by blast
  show ?thesis
  proof (cases "n = 0")
    case True
    then show ?thesis using p by (auto simp: name_then_def rd_post_def)
  next
    case False
    then obtain x where x: "length x = n" "n \<le> length (enc ks)" "extends s x s1"
      and M: "\<And>M. cb_for M s \<Longrightarrow> cb_for (app x M) s1 \<and> (\<forall>m \<in> M. nm_at (m @ x) (an_sz s) ks n)"
      using ex by blast
    have sz: "an_sz s1 = an_sz s + n" using x(1,3) by (simp add: extends_def)
    have "rd_post s (Dom ks # ps) k (f (length x) s1)"
    proof (rule rd_post_cons [OF x(3) assms(4) [OF x(3)]])
      fix M m y j assume a: "cb_for M s" "m \<in> M" "parts_at (m @ x @ y) (an_sz s1) ps j"
      have "nm_at (m @ x) (an_sz s) ks n" using M [OF a(1)] a(2) by blast
      from nm_at_append [OF this, of y] have "nm_at (m @ x @ y) (an_sz s) ks n" by simp
      then show "parts_at (m @ x @ y) (an_sz s) (Dom ks # ps) j" using a(3) sz by auto
    qed (use x False M in auto)
    then show ?thesis using p(1) False x(1) by (simp add: name_then_def)
  qed
qed

text \<open>Room for the rest of the data.\<close>

definition room :: "ans \<Rightarrow> nat \<Rightarrow> bool" where
  "room s n = (msg_wf s \<and> an_sz s + n \<le> length (an_buf s))"

lemma room_extends: "room s (a + b) \<Longrightarrow> extends s x s1 \<Longrightarrow> length x \<le> a \<Longrightarrow> room s1 b"
  by (auto simp: room_def extends_def)

lemma room_wf: "room s n \<Longrightarrow> msg_wf s"
  by (simp add: room_def)

lemma extends_wf: "extends s x s1 \<Longrightarrow> msg_wf s1"
  by (simp add: extends_def)

lemma name_post:
  assumes "room s (length (enc ks) + n)" "wire_name ks"
    "\<And>s1 (x :: byte list). room s1 n \<Longrightarrow> length x \<le> length (enc ks) \<Longrightarrow> rd_post s1 ps (k + length x) (f (length x) s1)"
  shows "rd_post s (Dom ks # ps) k (name_then (enc ks @ r) s f)"
proof (rule name_then_post)
  show "msg_wf s" "wire_name ks" "an_sz s + length (enc ks) \<le> length (an_buf s)"
    using assms(1,2) by (simp_all add: room_def)
  fix s1 x assume x: "extends s x s1" "length x \<le> length (enc ks)"
  show "rd_post s1 ps (k + length x) (f (length x) s1)"
    by (rule assms(3) [OF room_extends [OF assms(1) x] x(2)])
qed

lemma bytes_post:
  assumes "room s (length b + n)"
    "\<And>s1. room s1 n \<Longrightarrow> rd_post s1 ps (k + length b) (f s1)"
  shows "rd_post s (Raw b # ps) k (Option.bind (put_bytes b s) f)"
proof (rule put_bytes_post)
  show "msg_wf s" "an_sz s + length b \<le> length (an_buf s)" using assms(1) by (simp_all add: room_def)
  fix s1 assume x: "extends s b s1"
  show "rd_post s1 ps (k + length b) (f s1)" by (rule assms(2) [OF room_extends [OF assms(1) x order_refl]])
qed

lemma rdata_name_post:
  assumes "room s (length (enc a))" "wire_name a"
  shows "rd_post s [Dom a] 0 (rdata_name (enc a) s)"
proof -
  have "rd_post s [Dom a] 0 (name_then (enc a @ []) s (\<lambda>n s. do { must (n \<le> length (enc a)); Some (Some n, s) }))"
    apply (rule name_post [where n = 0])
    using assms apply simp_all
    subgoal premises p for s1 x
      using p(2) by (simp add: rd_post_ret [OF room_wf [OF p(1)]])
    done
  then show ?thesis by (simp add: rdata_name_def)
qed

lemma rdata_two_names_post:
  assumes "room s (length (enc a) + length (enc b))" "wire_name a" "wire_name b"
  shows "rd_post s [Dom a, Dom b] 0 (rdata_two_names (enc a @ enc b) s)"
  unfolding rdata_two_names_def
  apply (rule name_post [OF assms(1,2)])
  subgoal premises p for s1 x
  proof -
    have "rd_post s1 [Dom b] (length x) (name_then (enc b @ []) s1
        (\<lambda>m s. do { must (length x + m \<le> length (enc a @ enc b)); Some (Some (length x + m), s) }))"
      apply (rule name_post [where n = 0])
      using p(1) assms(3) apply simp_all
      subgoal premises q for s2 y
        using p(2) q(2) by (simp add: rd_post_ret [OF room_wf [OF q(1)]])
      done
    then show ?thesis using p(2) rhnlen_enc [OF wire_name_labels [OF assms(2)]] by simp
  qed
  done

lemma rdata_pref_name_post:
  assumes "room s (length p + length (enc a))" "wire_name a" "length p = k"
  shows "rd_post s [Raw p, Dom a] 0 (rdata_pref_name k (p @ enc a) s)"
proof -
  have "rd_post s [Raw p, Dom a] 0 (Option.bind (put_bytes p s) (\<lambda>s1. name_then (enc a @ []) s1
      (\<lambda>b s. do { must (k + b \<le> length (p @ enc a)); Some (Some (k + b), s) })))"
    apply (rule bytes_post [OF assms(1)])
    apply (rule name_post [where n = 0])
    using assms(2) apply simp_all
    subgoal premises q for s1 s2 x
      using assms(3) q(3) by (simp add: rd_post_ret [OF room_wf [OF q(2)]])
    done
  then show ?thesis using assms(3) by (simp add: rdata_pref_name_def rdn_def)
qed

lemma rdata_soa_post:
  assumes "room s (length (enc a) + (length (enc b) + length n))" "wire_name a" "wire_name b" "length n = 20"
  shows "rd_post s [Dom a, Dom b, Raw n] 0 (rdata_soa (enc a @ enc b @ n) s)"
  unfolding rdata_soa_def
  apply (rule name_post [OF assms(1,2)])
  subgoal premises p for s1 x
  proof -
    note la = rhnlen_enc [OF wire_name_labels [OF assms(2)], of "enc b @ n"]
    note lb = rhnlen_enc [OF wire_name_labels [OF assms(3)], of n]
    have "rd_post s1 [Dom b, Raw n] (length x) (name_then (enc b @ n) s1 (\<lambda>m s. do {
           l2 \<leftarrow> rhnlen (enc b @ n);
           must (length x + m \<le> length (enc a) + l2);
           bs \<leftarrow> rdn (enc a @ enc b @ n) (length (enc a) + l2) 20;
           s1 \<leftarrow> put_bytes bs s;
           must (length x + m + 20 \<le> length (enc a @ enc b @ n));
           Some (Some (length x + m + 20), s1)
         }))"
      apply (rule name_post [OF p(1) assms(3)])
      subgoal premises q for s2 y
      proof -
        have "rd_post s2 [Raw n] (length x + length y) (Option.bind (put_bytes n s2) (\<lambda>s1. do {
             must (length x + length y + 20 \<le> length (enc a @ enc b @ n));
             Some (Some (length x + length y + 20), s1) }))"
          apply (rule bytes_post [where n = 0])
          using q(1) apply simp
          subgoal premises t for s3
            using p(2) q(2) assms(4) by (simp add: rd_post_ret [OF room_wf [OF t]])
          done
        then show ?thesis using lb p(2) q(2) assms(4) by (simp add: rdn_def)
      qed
      done
    then show ?thesis using la p(2) by simp
  qed
  done

lemma rdata_px_post:
  assumes "room s (length p + (length (enc a) + length (enc b)))" "wire_name a" "wire_name b" "length p = 2"
  shows "rd_post s [Raw p, Dom a, Dom b] 0 (rdata_px (p @ enc a @ enc b) s)"
proof -
  let ?d = "p @ enc a @ enc b"
  note la = rhnlen_enc [OF wire_name_labels [OF assms(2)], of "enc b"]
  have "rd_post s [Raw p, Dom a, Dom b] 0 (Option.bind (put_bytes p s) (\<lambda>s1. name_then (enc a @ enc b) s1 (\<lambda>n s. do {
         l \<leftarrow> rhnlen (enc a @ enc b);
         must (2 + n \<le> 2 + l);
         name_then (drop (2 + l) ?d) s (\<lambda>c s. do {
           must (2 + n + c \<le> length ?d);
           Some (Some (2 + n + c), s)
         })
       })))"
    apply (rule bytes_post [OF assms(1)])
    apply (rule name_post [OF _ assms(2)], assumption)
    subgoal premises q for s1 s2 x
    proof -
      have "rd_post s2 [Dom b] (2 + length x) (name_then (enc b @ []) s2 (\<lambda>c s. do {
             must (2 + length x + c \<le> length ?d);
             Some (Some (2 + length x + c), s) }))"
        apply (rule name_post [where n = 0])
        using q(2) assms(3) apply simp_all
        subgoal premises t for s3 y
          using q(3) t(2) assms(4) by (simp add: rd_post_ret [OF room_wf [OF t(1)]])
        done
      then show ?thesis using la q(3) assms(4) by simp
    qed
    done
  then show ?thesis using assms(4) by (simp add: rdata_px_def rdn_def)
qed

lemma rdata_nxt_post:
  assumes "room s (length (enc a) + length b)" "wire_name a"
  shows "rd_post s [Dom a, Raw b] 0 (rdata_nxt (enc a @ b) s)"
  unfolding rdata_nxt_def
  apply (rule name_post [OF assms])
  subgoal premises p for s1 x
  proof -
    note la = rhnlen_enc [OF wire_name_labels [OF assms(2)], of b]
    have "rd_post s1 [Raw b] (length x) (Option.bind (put_bytes b s1) (\<lambda>s1. Some (Some (length x + length b), s1)))"
      apply (rule bytes_post [where n = 0])
      using p(1) apply simp
      subgoal premises t for s2
        by (rule rd_post_ret [OF room_wf [OF t]])
      done
    moreover have "rd_post s1 [Raw b] (length x) (Some (Some (length x), s1))" if b: "b = []"
    proof -
      have e: "extends s1 [] s1" using room_wf [OF p(1)] by (simp add: extends_def)
      show ?thesis
        by (rule rd_post_cons [OF e]) (use b rd_post_ret [OF room_wf [OF p(1)]] in \<open>auto simp: cb_for_def\<close>)
    qed
    ultimately show ?thesis using la p(2) by (auto simp: rdn_def)
  qed
  done

lemma naptr_skip_ok:
  "naptr_strings j b \<Longrightarrow> r \<noteq> [] \<Longrightarrow> naptr_skip j (pre @ b @ r) (length pre) = Some (length pre + length b)"
proof (induction j arbitrary: pre b)
  case (Suc j)
  then obtain l t where b: "b = l # t" "unat l \<le> length t" "naptr_strings j (drop (unat l) t)"
    by (auto split: list.splits)
  let ?p = "pre @ l # take (unat l) t"
  have e: "?p @ drop (unat l) t @ r = pre @ b @ r" using b(1) by simp
  have lp: "length ?p = length pre + unat l + 1" using b(2) by simp
  have "naptr_skip j (?p @ drop (unat l) t @ r) (length ?p) = Some (length ?p + length (drop (unat l) t))"
    by (rule Suc.IH) (use b(3) Suc.prems in auto)
  then have "naptr_skip j (pre @ b @ r) (length pre + unat l + 1) = Some (length pre + unat l + 1 + length (drop (unat l) t))"
    unfolding e lp .
  moreover have "rd (pre @ b @ r) (length pre) = Some l" using b(1) by simp
  moreover have "length (pre @ b @ r) > length pre + unat l + 1" using b(1,2) Suc.prems(2) by (cases r) auto
  ultimately show ?case using b(1,2) by simp
qed simp

lemma rdata_naptr_post:
  assumes "room s (length p + length (enc a))" "wire_name a" "4 \<le> length p" "naptr_strings 3 (drop 4 p)"
  shows "rd_post s [Raw p, Dom a] 0 (rdata_naptr (p @ enc a) s)"
proof -
  have e: "take 4 p @ drop 4 p @ enc a = p @ enc a" by (metis append_assoc append_take_drop_id)
  have l: "length (take 4 p) = 4" "4 + length (drop 4 p) = length p" using assms(3) by simp_all
  have sk: "naptr_skip 3 (p @ enc a) 4 = Some (length p)"
    using naptr_skip_ok [OF assms(4), of "enc a" "take 4 p"] unfolding e l by simp
  have "rd_post s [Raw p, Dom a] 0 (Option.bind (put_bytes p s) (\<lambda>s1. name_then (enc a @ []) s1
      (\<lambda>b s. do { must (length p + b \<le> length (p @ enc a)); Some (Some (length p + b), s) })))"
    apply (rule bytes_post [OF assms(1)])
    apply (rule name_post [where n = 0])
    using assms(2) apply simp_all
    subgoal premises q for s1 s2 x
      using q(3) by (simp add: rd_post_ret [OF room_wf [OF q(2)]])
    done
  moreover have "length (p @ enc a) > 4" unfolding length_append using assms(3) length_enc_pos [of a] by linarith
  ultimately show ?thesis using sk by (simp add: rdata_naptr_def rdn_def)
qed

lemma rdata_plain_post:
  assumes "room s (length b)"
  shows "rd_post s [Raw b] 0 (rdata_plain b s)"
  unfolding rdata_plain_def
  apply (rule bytes_post [where n = 0])
  using assms apply simp
  subgoal premises t for s2
    using rd_post_ret [OF room_wf [OF t], of "0 + length b"] by simp
  done

lemmas rdata_posts = rdata_name_post rdata_two_names_post rdata_pref_name_post rdata_soa_post rdata_px_post
  rdata_nxt_post rdata_naptr_post rdata_plain_post

lemma put_rdata_post:
  assumes "layout tp ps" "list_all part_wf ps" "room s (length (enc_parts ps))"
  shows "rd_post s ps 0 (put_rdata tp (enc_parts ps) s)"
  using assms unfolding layout_def put_rdata_def
  by (auto split: if_splits intro!: rdata_posts)

subsection \<open>Growing the message\<close>

lemma chunk_size_ge: "n \<le> chunk_size n"
proof -
  have "(n + 127) mod 128 < 128" by simp
  then show ?thesis using div_mult_mod_eq [of "n + 127" 128] unfolding chunk_size_def by linarith
qed

lemma fresh_length [simp]: "length (fresh E a b) = b - a"
  by (simp add: fresh_def)

lemma grow_ans_spec:
  assumes "msg_wf s"
  shows "\<exists>ok s'. grow_ans E newsz s = (ok, s') \<and> keeps s s' \<and> (no_fail (an_cache s) \<longrightarrow> ok) \<and>
    (ok \<longrightarrow> extends s [] s' \<and> an_cb s' = an_cb s \<and> newsz \<le> length (an_buf s') + 2)"
proof (cases "newsz > an_alloc s")
  case False
  then show ?thesis using assms
    by (intro exI [of _ True] exI [of _ s]) (simp add: grow_ans_def extends_def msg_wf_def)
next
  case True
  obtain ok s1 where m: "an_malloc s = (ok, s1)" by (cases "an_malloc s")
  note ms = an_malloc_spec [OF m]
  show ?thesis
  proof (cases ok)
    case False
    then show ?thesis using True m ms(1,2)
      by (intro exI [of _ False] exI [of _ s1]) (simp add: grow_ans_def)
  next
    case ok: True
    let ?n = "chunk_size newsz - 2"
    let ?s = "s1\<lparr> an_alloc := chunk_size newsz, an_buf := an_buf s @ fresh E (length (an_buf s)) ?n \<rparr>"
    have w: "length (an_buf s) + 2 = an_alloc s" "an_sz s \<le> length (an_buf s)" "12 \<le> an_sz s" "names_ok (an_cb s)"
      using assms by (simp_all add: msg_wf_def)
    have "length (an_buf s) \<le> ?n" "2 \<le> chunk_size newsz" using True w chunk_size_ge [of newsz] by linarith+
    then have l: "length (an_buf ?s) = ?n" "?n + 2 = chunk_size newsz" by simp_all
    have le: "an_sz s \<le> ?n" using \<open>length (an_buf s) \<le> ?n\<close> w(2) by linarith
    have "an_sz ?s = an_sz s" "an_cb ?s = an_cb s" "an_alloc ?s = chunk_size newsz" using ms(4,6) by simp_all
    then have "msg_wf ?s" unfolding msg_wf_def l(1) using w(3,4) l(2) le by simp
    moreover have "used ?s = used s" using w ms(4) by (simp add: used_def)
    ultimately have "extends s [] ?s" using ms(1,4) by (simp add: extends_def)
    moreover have "newsz \<le> length (an_buf ?s) + 2" unfolding l using chunk_size_ge by blast
    ultimately show ?thesis using True m ok ms(1,6)
      by (intro exI [of _ True] exI [of _ ?s]) (simp add: grow_ans_def)
  qed
qed

subsection \<open>\<open>add_rr\<close>\<close>

lemma put_owner_spec:
  assumes "msg_wf s" "wire_name ks"
  shows "\<exists>ok s'. put_owner E (enc ks @ r) dlen s = Some (ok, s') \<and> keeps s s' \<and> (no_fail (an_cache s) \<longrightarrow> ok) \<and>
    (ok \<longrightarrow> (\<exists>x. extends s x s' \<and> an_sz s' + 10 + dlen \<le> length (an_buf s') \<and> 0 < length x \<and>
      (\<forall>M. cb_for M s \<longrightarrow> cb_for (app x M) s' \<and> (\<forall>m \<in> M. nm_at (m @ x) (an_sz s) ks (length x)))))"
proof -
  obtain ok s1 where m: "an_malloc s = (ok, s1)" by (cases "an_malloc s")
  note ms = an_malloc_spec [OF m]
  let ?out = "fresh E 0 DNSNAMEBUFSIZE"
  have lo: "length (enc ks) \<le> length ?out" using assms(2) by (simp add: wire_name_def)
  have nm: "names_ok (an_cb s)" using assms(1) by (simp add: msg_wf_def)
  obtain bs es' add where bs: "0 < length bs" "length bs \<le> length (enc ks)" and wn: "\<forall>e \<in> set es'. wire_name (snd e)" and
    c: "\<forall>ok. compress_name (enc ks @ r) ?out (an_sz s) (an_cb s) ok = Some
      (if add \<and> \<not> ok then (0, bs @ drop (length bs) ?out, []) else (length bs, bs @ drop (length bs) ?out, cb_mem es'))" and
    st: "\<forall>M. cb_for M s \<longrightarrow> (\<forall>m \<in> M. length m = an_sz s \<and> cb_ok (m @ bs) es' \<and> nm_at (m @ bs) (an_sz s) ks (length bs))"
    using compress_at [OF nm assms(2) lo, of r] by (elim exE conjE) (rule that)
  show ?thesis
  proof (cases "add \<and> \<not> ok")
    case True
    then have "put_owner E (enc ks @ r) dlen s = Some (False, s1\<lparr> an_cb := [] \<rparr>)"
      using m c by (simp add: put_owner_def)
    moreover have "\<not> no_fail (an_cache s)" using ms(2) True by blast
    ultimately show ?thesis using ms(1) by (intro exI [of _ False] exI [of _ "s1\<lparr> an_cb := [] \<rparr>"]) simp
  next
    case False
    let ?s2 = "s1\<lparr> an_cb := cb_mem es' \<rparr>"
    have c1: "compress_name (enc ks @ r) ?out (an_sz s) (an_cb s) ok = Some (length bs, bs @ drop (length bs) ?out, cb_mem es')"
      using c [rule_format, of ok] False by simp
    have no: "names_ok (cb_mem es')" unfolding names_ok_def using wn by blast
    have w2: "msg_wf ?s2" using assms(1) ms(3-5) no by (simp add: msg_wf_def)
    let ?new = "dnsmsghdroffset + an_sz s + length bs + sizeof_rr_hdr_t + dlen"
    obtain ok2 s3 where g: "grow_ans E ?new ?s2 = (ok2, s3)" "keeps ?s2 s3" "no_fail (an_cache ?s2) \<longrightarrow> ok2"
      "ok2 \<longrightarrow> extends ?s2 [] s3 \<and> an_cb s3 = an_cb ?s2 \<and> ?new \<le> length (an_buf s3) + 2"
      using grow_ans_spec [OF w2, of E ?new] by blast
    have k2: "keeps s ?s2" using ms(1) by simp
    have k3: "keeps s s3" by (rule keeps_trans [OF k2 g(2)])
    show ?thesis
    proof (cases ok2)
      case False
      then have "put_owner E (enc ks @ r) dlen s = Some (False, s3)" using m c1 bs(1) g(1) by (simp add: put_owner_def)
      moreover have "\<not> no_fail (an_cache s)" using False g(3) keepsD [OF k2] by blast
      ultimately show ?thesis using k3 by (intro exI [of _ False] exI [of _ s3]) simp
    next
      case True
      then have g': "extends ?s2 [] s3" "an_cb s3 = cb_mem es'" "?new \<le> length (an_buf s3) + 2" using g(4) by simp_all
      have s3: "an_sz s3 = an_sz s" "msg_wf s3" "used s3 = used s" using g'(1) ms(3,4) by (auto simp: extends_def used_def)
      have "length (an_buf s) \<le> length (an_buf s3)" using g'(1) ms(3) by (simp add: extends_def)
      then have e3: "extends s [] s3" using k3 s3 by (simp add: extends_def)
      have room: "an_sz s3 + length bs \<le> length (an_buf s3)" using g'(3) s3(1) by simp
      obtain s4 where s4: "put_bytes bs s3 = Some s4" "extends s3 bs s4" "an_cb s4 = an_cb s3"
        using put_bytes_spec [OF s3(2) room] by blast
      have e4: "extends s bs s4" using extends_trans [OF e3 s4(2)] by simp
      have "rdn (bs @ drop (length bs) ?out) 0 (length bs) = Some bs" by (simp add: rdn_def)
      then have p: "put_owner E (enc ks @ r) dlen s = Some (True, s4)"
        using m c1 bs(1) g(1) True s4(1) by (simp add: put_owner_def)
      have sz: "an_sz s4 + 10 + dlen \<le> length (an_buf s4)" using s4(2) g'(3) s3(1) by (simp add: extends_def)
      have cb: "cb_for (app bs M) s4 \<and> (\<forall>m \<in> M. nm_at (m @ bs) (an_sz s) ks (length bs))" if cf: "cb_for M s" for M
      proof -
        have "an_sz s4 = an_sz s + length bs" using e4 by (simp add: extends_def)
        then have "cb_for (app bs M) s4" unfolding cb_for_def
          by (intro exI [of _ es'] conjI) (use st cf wn s4(3) g'(2) in \<open>auto simp: app_def\<close>)
        then show ?thesis using st cf by blast
      qed
      have "keeps s s4" using e4 by (simp add: extends_def)
      then show ?thesis using p e4 sz bs(1) cb by blast
    qed
  qed
qed

text \<open>A counter of the header incremented; the messages that differ from the one in use in the header
  only.\<close>

definition bump :: "nat \<Rightarrow> byte list \<Rightarrow> byte list" where
  "bump k h = (case get16 h k of None \<Rightarrow> h | Some n \<Rightarrow> splice h k (be16 (word_of_nat (n + 1))))"

definition hdrs :: "ans \<Rightarrow> byte list set" where
  "hdrs s = {h @ drop 12 (used s) | h. length h = 12}"

lemma be_lengths [simp]: "length (be16 x) = 2" "length (be32 y) = 4"
  by (simp_all add: be16_def be32_def)

lemma rr_header_length [simp]: "length (rr_header tp ttl n) = 10"
  by (simp add: rr_header_def)

lemma get16_Some: "i + 1 < length m \<Longrightarrow> get16 m i = Some (unat (m ! i) * 256 + unat (m ! (i + 1)))"
  by (simp add: get16_def rd_nth)

lemma inc16_bump:
  assumes "k + 2 \<le> 12" "12 \<le> length m"
  shows "inc16 m k = Some (bump k m)" "length (bump k m) = length m"
    "take 12 (bump k m) = bump k (take 12 m)" "drop 12 (bump k m) = drop 12 m"
proof -
  let ?n = "unat (m ! k) * 256 + unat (m ! (k + 1))"
  have g: "get16 m k = Some ?n" using assms by (intro get16_Some) simp
  have "get16 (take 12 m) k = Some (unat (take 12 m ! k) * 256 + unat (take 12 m ! (k + 1)))"
    using assms by (intro get16_Some) simp
  then have g': "get16 (take 12 m) k = Some ?n" using assms by simp
  show "inc16 m k = Some (bump k m)" using assms g by (simp add: inc16_def bump_def wrn_splice)
  show "length (bump k m) = length m" using assms g by (simp add: bump_def)
  have b: "bump k m = splice m k (be16 (word_of_nat (?n + 1)))" "bump k (take 12 m) = splice (take 12 m) k (be16 (word_of_nat (?n + 1)))"
    using g g' by (simp_all add: bump_def)
  show "take 12 (bump k m) = bump k (take 12 m)" "drop 12 (bump k m) = drop 12 m"
    unfolding b splice_def using assms by (simp_all add: take_drop min_def)
qed

lemma count_offs_le: "count_offs sect + 2 \<le> 12"
  by (cases sect) (simp_all add: count_offs_def)

definition rr_added :: "label list \<Rightarrow> int \<Rightarrow> u32 \<Rightarrow> rpart list \<Rightarrow> sect_t \<Rightarrow> ans \<Rightarrow> ans \<Rightarrow> bool" where
  "rr_added ks tp ttl ps sect s s' = (\<exists>x y. 0 < length x \<and> length y \<le> length (enc_parts ps) \<and>
     an_sz s' = an_sz s + length x + 10 + length y \<and>
     take 12 (used s') = bump (count_offs sect) (take 12 (used s)) \<and>
     drop 12 (used s') = drop 12 (used s) @ x @ rr_header tp ttl (length y) @ y \<and>
     (cb_for (hdrs s) s \<longrightarrow> cb_for (hdrs s') s' \<and>
       (\<forall>m \<in> hdrs s'. nm_at m (an_sz s) ks (length x) \<and> parts_at m (an_sz s + length x + 10) ps (an_sz s'))))"

lemma put_header:
  assumes "msg_wf s1" "used s2 = used s1 @ g @ y" "length g = 10" "msg_wf s2"
    "an_sz s1 = length (used s1)" "12 \<le> length (used s1)"
  shows "\<exists>m. wrn (an_buf s2) (an_sz s1) (rr_header tp ttl n) = Some m \<and> length m = length (an_buf s2) \<and>
    take (an_sz s2) m = used s1 @ rr_header tp ttl n @ y"
proof -
  have u2: "take (an_sz s2) (an_buf s2) = used s1 @ g @ y" "an_sz s2 \<le> length (an_buf s2)"
    using assms(2,4) by (simp_all add: used_def msg_wf_def)
  have "an_sz s2 = length (take (an_sz s2) (an_buf s2))" using u2(2) by simp
  then have l2: "an_sz s2 = length (used s1) + 10 + length y" unfolding u2(1) using assms(3) by simp
  have b: "an_buf s2 = (used s1 @ g @ y) @ drop (an_sz s2) (an_buf s2)" by (metis u2(1) append_take_drop_id)
  have "wrn ((used s1 @ g @ y) @ drop (an_sz s2) (an_buf s2)) (an_sz s1) (rr_header tp ttl n) =
      Some ((used s1 @ rr_header tp ttl n @ y) @ drop (an_sz s2) (an_buf s2))"
    using assms(3,5) by (simp add: wrn_def)
  then have "wrn (an_buf s2) (an_sz s1) (rr_header tp ttl n) =
      Some ((used s1 @ rr_header tp ttl n @ y) @ drop (an_sz s2) (an_buf s2))" using b by simp
  then show ?thesis using l2 u2(2) assms(3) by simp
qed

lemma add_rr_spec:
  assumes "msg_wf s" "wire_name ks" "layout tp ps" "list_all part_wf ps"
  shows "\<exists>ok s'. add_rr E (enc ks @ r) tp ttl (enc_parts ps) sect udp s = Some (ok, s') \<and> keeps s s' \<and>
    (no_fail (an_cache s) \<longrightarrow> ok) \<and> (ok \<longrightarrow> msg_wf s' \<and>
      (used s' = used s \<and> an_sz s' = an_sz s \<and> sect = S_ADDITIONAL \<and> udp \<noteq> None \<or>
       rr_added ks tp ttl ps sect s s' \<and> (sect = S_ADDITIONAL \<longrightarrow> (\<forall>u. udp = Some u \<longrightarrow> an_sz s' \<le> u))))"
proof -
  let ?d = "enc_parts ps"
  obtain ok s1 where 1: "put_owner E (enc ks @ r) (length ?d) s = Some (ok, s1)" "keeps s s1" "no_fail (an_cache s) \<longrightarrow> ok"
    "ok \<longrightarrow> (\<exists>x. extends s x s1 \<and> an_sz s1 + 10 + length ?d \<le> length (an_buf s1) \<and> 0 < length x \<and>
      (\<forall>M. cb_for M s \<longrightarrow> cb_for (app x M) s1 \<and> (\<forall>m \<in> M. nm_at (m @ x) (an_sz s) ks (length x))))"
    using put_owner_spec [OF assms(1,2), of E r "length ?d"] by blast
  show ?thesis
  proof (cases ok)
    case False
    then have "add_rr E (enc ks @ r) tp ttl ?d sect udp s = Some (False, s1)" using 1(1) by (simp add: add_rr_def and_then_def)
    then show ?thesis using 1(2,3) False by (intro exI [of _ False] exI [of _ s1]) simp
  next
    case True
    then obtain x where x: "extends s x s1" "an_sz s1 + 10 + length ?d \<le> length (an_buf s1)" "0 < length x"
      and Mx: "\<And>M. cb_for M s \<Longrightarrow> cb_for (app x M) s1 \<and> (\<forall>m \<in> M. nm_at (m @ x) (an_sz s) ks (length x))"
      using 1(4) by blast
    let ?s1 = "s1\<lparr> an_sz := an_sz s1 + 10 \<rparr>"
    let ?g = "take 10 (drop (an_sz s1) (an_buf s1))"
    have w1: "msg_wf s1" "used s1 = used s @ x" "an_sz s1 = an_sz s + length x" using x(1) by (simp_all add: extends_def)
    have ug: "used ?s1 = used s1 @ ?g" using take_add [of "an_sz s1" 10 "an_buf s1"] by (simp add: used_def)
    have lg: "length ?g = 10" using x(2) by simp
    have rm: "room ?s1 (length ?d)" using w1(1) x(2) by (simp add: room_def msg_wf_def)
    have lu: "length (used s) = an_sz s" "12 \<le> an_sz s" using used_length [OF assms(1)] assms(1) by (simp_all add: msg_wf_def)
    obtain res s2 where 2: "put_rdata tp ?d ?s1 = Some (res, s2)" "keeps ?s1 s2" "no_fail (an_cache ?s1) \<longrightarrow> res \<noteq> None"
      and P: "\<forall>n. res = Some n \<longrightarrow> (\<exists>y. n = 0 + length y \<and> length y \<le> length (enc_parts ps) \<and> extends ?s1 y s2 \<and>
       (\<forall>M. cb_for M ?s1 \<longrightarrow> cb_for (app y M) s2 \<and> (\<forall>m \<in> M. parts_at (m @ y) (an_sz ?s1) ps (an_sz s2))))"
      using put_rdata_post [OF assms(3,4) rm] unfolding rd_post_def by blast
    have k2: "keeps s s2" using keeps_trans [OF 1(2)] 2(2) by simp
    have nf: "no_fail (an_cache s) \<Longrightarrow> res \<noteq> None" using 2(3) keepsD [OF 1(2)] by simp
    show ?thesis
    proof (cases res)
      case None
      then have "add_rr E (enc ks @ r) tp ttl ?d sect udp s = Some (False, s2)" using 1(1) True 2(1) by (simp add: add_rr_def and_then_def)
      then show ?thesis using k2 nf None by (intro exI [of _ False] exI [of _ s2]) auto
    next
      case (Some n)
      then obtain y where y: "n = length y" "length y \<le> length ?d" "extends ?s1 y s2"
        and My: "\<And>M. cb_for M ?s1 \<Longrightarrow> cb_for (app y M) s2 \<and> (\<forall>m \<in> M. parts_at (m @ y) (an_sz ?s1) ps (an_sz s2))"
        using P by auto
      have w2: "msg_wf s2" "used s2 = used s1 @ ?g @ y" "an_sz s2 = an_sz s + length x + 10 + length y"
        using y(3) ug w1(3) by (simp_all add: extends_def)
      show ?thesis
      proof (cases "(case udp of None \<Rightarrow> False | Some u \<Rightarrow> an_sz s2 > u) \<and> sect = S_ADDITIONAL")
        case drop: True
        let ?s = "s2\<lparr> an_sz := an_sz s \<rparr>"
        have "add_rr E (enc ks @ r) tp ttl ?d sect udp s = Some (True, ?s)"
          using 1(1) True 2(1) Some drop by (simp add: add_rr_def and_then_def)
        moreover have "take (an_sz s) (take (an_sz s2) (an_buf s2)) = used s"
          using w2(2) w1(2) lu(1) by (simp add: used_def)
        then have "used ?s = used s" using w2(3) by (simp add: used_def min_def)
        moreover have "msg_wf ?s" using w2(1,3) lu(2) by (simp add: msg_wf_def)
        ultimately show ?thesis using k2 drop
          by (intro exI [of _ True] exI [of _ ?s]) (auto split: option.splits)
      next
        case keep: False
        let ?h = "rr_header tp ttl n" and ?k = "count_offs sect"
        obtain m where m: "wrn (an_buf s2) (an_sz s1) ?h = Some m" "length m = length (an_buf s2)"
          "take (an_sz s2) m = used s1 @ ?h @ y"
          using put_header [OF w1(1) w2(2) lg w2(1) used_length [OF w1(1), symmetric], of tp ttl n] used_length [OF w1(1)] w1(1)
          by (auto simp: msg_wf_def)
        have lm: "12 \<le> length m" "an_sz s2 \<le> length m" "12 \<le> an_sz s2" using m(2) w2(1) by (simp_all add: msg_wf_def)
        note b = inc16_bump [OF count_offs_le lm(1), of sect]
        let ?s = "s2\<lparr> an_buf := bump ?k m \<rparr>"
        have run: "add_rr E (enc ks @ r) tp ttl ?d sect udp s = Some (True, ?s)"
          using 1(1) True 2(1) Some m(1) b(1) by (simp add: add_rr_def and_then_def keep)
        have wf: "msg_wf ?s" using w2(1) b(2) m(2) by (simp add: msg_wf_def)
        have t12: "take 12 (used ?s) = take 12 (bump ?k m)" using lm by (simp add: used_def min_def)
        have "take 12 (used s1 @ ?h @ y) = take 12 (used s)" using w1(2) lu by simp
        then have "take 12 m = take 12 (used s)" using m(3) lm(3) by (metis min.absorb1 take_take)
        then have hd: "take 12 (used ?s) = bump ?k (take 12 (used s))" using t12 b(3) by simp
        have "drop 12 (used ?s) = drop 12 (take (an_sz s2) m)"
          using b(4) by (simp add: used_def drop_take)
        then have bd: "drop 12 (used ?s) = drop 12 (used s) @ x @ ?h @ y" using m(3) w1(2) lu by simp
        have good: "cb_for (hdrs ?s) ?s \<and> (\<forall>m \<in> hdrs ?s. nm_at m (an_sz s) ks (length x) \<and>
            parts_at m (an_sz s + length x + 10) ps (an_sz ?s))" if cf: "cb_for (hdrs s) s"
        proof -
          note X = Mx [OF cf]
          have "cb_for (app (x @ ?h) (hdrs s)) ?s1"
          proof -
            have "cb_for (app ?h (app x (hdrs s))) ?s1"
              by (rule cb_for_app [OF conjunct1 [OF X]]) simp_all
            then show ?thesis by simp
          qed
          note Y = My [OF this]
          have eq: "app y (app (x @ ?h) (hdrs s)) = hdrs ?s"
            unfolding hdrs_def bd app_def by auto
          have c: "cb_for (hdrs ?s) ?s" using conjunct1 [OF Y] unfolding eq cb_for_def by simp
          have "nm_at m' (an_sz s) ks (length x) \<and> parts_at m' (an_sz s + length x + 10) ps (an_sz ?s)"
            if m': "m' \<in> hdrs ?s" for m'
          proof -
            obtain m0 where m0: "m0 \<in> hdrs s" "m' = (m0 @ x @ ?h) @ y"
              using m' unfolding eq [symmetric] by (auto simp: app_def)
            have "nm_at (m0 @ x) (an_sz s) ks (length x)" using X m0(1) by blast
            from nm_at_append [OF this, of "?h @ y"] have n: "nm_at m' (an_sz s) ks (length x)" using m0(2) by simp
            have "m0 @ x @ ?h \<in> app (x @ ?h) (hdrs s)" using app_mem [OF m0(1)] by simp
            then have "parts_at m' (an_sz ?s1) ps (an_sz s2)" using Y m0(2) by blast
            then show ?thesis using n w1(3) by simp
          qed
          then show ?thesis using c by blast
        qed
        have "rr_added ks tp ttl ps sect s ?s" unfolding rr_added_def
          by (intro exI [of _ x] exI [of _ y] conjI impI)
            (use x(3) y(1,2) w2(3) hd bd good in \<open>simp_all del: length_greater_0_conv\<close>)
        then show ?thesis using run wf k2 keep
          by (intro exI [of _ True] exI [of _ ?s]) (auto split: option.splits)
      qed
    qed
  qed
qed

end
