(* ===== verification/Pd_Layout.thy ===== *)
theory Pd_Layout
  imports Pd_AnswerSpec
begin

text \<open>
  The layout of a message as RFC 1035 has it, questions first and records after them, and what the
  functions that write a message do to it.
\<close>

subsection \<open>The question section\<close>

text \<open>The questions \<open>qs\<close> are at the offsets from \<open>p\<close> to \<open>e\<close> of the message.\<close>

definition be_at :: "byte list \<Rightarrow> nat \<Rightarrow> nat" where
  "be_at m i = unat (m ! i) * 256 + unat (m ! (i + 1))"

definition quest :: "byte list \<Rightarrow> nat \<Rightarrow> label list \<Rightarrow> queryel" where
  "quest m i ls = \<lparr> q_type = int (be_at m i), q_class = int (be_at m (i + 2)), q_name = enc ls \<rparr>"

lemma quest_name [simp]: "q_name (quest m i ls) = enc ls"
  by (simp add: quest_def)

inductive quest_at :: "byte list \<Rightarrow> nat \<Rightarrow> queryel list \<Rightarrow> nat \<Rightarrow> bool" for m where
  quest_end: "quest_at m p [] p"
| quest_cons: "\<lbrakk>name_at m p ls h n; h \<le> 255; length (enc ls) \<le> DNSNAMEBUFSIZE; p + n + 4 \<le> length m;
    quest_at m (p + n + 4) qs e\<rbrakk> \<Longrightarrow>
    quest_at m p (quest m (p + n) ls # qs) e"

inductive_cases quest_at_ConsE: "quest_at m p (q # qs) e"
inductive_simps quest_at_Nil: "quest_at m p [] e"

lemma quest_at_snoc:
  "quest_at m p qs e \<Longrightarrow> quest_at m e qs' e' \<Longrightarrow> quest_at m p (qs @ qs') e'"
  by (induction rule: quest_at.induct) (auto intro: quest_cons)

lemma quest_at_unique:
  "quest_at m p qs e \<Longrightarrow> quest_at m p qs' e' \<Longrightarrow> length qs = length qs' \<Longrightarrow> qs = qs' \<and> e = e'"
proof (induction arbitrary: qs' e' rule: quest_at.induct)
  case (quest_end p)
  then show ?case by (simp add: quest_at_Nil)
next
  case (quest_cons p ls h n qs e)
  obtain q qs2 where q: "qs' = q # qs2" using quest_cons.prems(2) by (cases qs') auto
  from quest_cons.prems(1) [unfolded q] show ?case
  proof (rule quest_at_ConsE)
    fix ls' h' n'
    assume 1: "q = quest m (p + n') ls'"
      and nm: "name_at m p ls' h' n'" and 2: "quest_at m (p + n' + 4) qs2 e'"
    have eq: "ls' = ls" "n' = n" using name_at_unique [OF quest_cons.hyps(1) nm] by simp_all
    have "quest_at m (p + n + 4) qs2 e'" using 2 eq by simp
    moreover have "length qs = length qs2" using quest_cons.prems(2) q by simp
    ultimately have "qs = qs2 \<and> e = e'" by (rule quest_cons.IH)
    then show ?thesis using q 1 eq by simp
  qed
qed

subsection \<open>Records\<close>

text \<open>Records from offset \<open>p\<close> to \<open>e\<close>, given by the offsets of their fixed parts.\<close>

inductive recs_at :: "byte list \<Rightarrow> nat \<Rightarrow> nat list \<Rightarrow> nat \<Rightarrow> bool" for m where
  recs_end: "recs_at m p [] p"
| recs_cons: "\<lbrakk>name_at m p ls h n; h \<le> 255; length (enc ls) \<le> DNSNAMEBUFSIZE;
    p + n + 10 + be_at m (p + n + 8) \<le> length m; recs_at m (p + n + 10 + be_at m (p + n + 8)) os e\<rbrakk> \<Longrightarrow>
    recs_at m p ((p + n) # os) e"

inductive_cases recs_at_ConsE: "recs_at m p (i # os) e"
inductive_simps recs_at_Nil: "recs_at m p [] e"

lemma get16_at: "i + 1 < length m \<Longrightarrow> get16 m i = Some (be_at m i)"
  by (simp add: get16_Some be_at_def)

lemma quest_at_append: "quest_at m p qs e \<Longrightarrow> quest_at (m @ x) p qs e"
proof (induction rule: quest_at.induct)
  case (quest_cons p ls h n qs e)
  have q: "quest (m @ x) (p + n) ls = quest m (p + n) ls"
    using quest_cons.hyps(4) by (simp add: quest_def be_at_def nth_append)
  have "quest_at (m @ x) p (quest (m @ x) (p + n) ls # qs) e"
    by (rule quest_at.quest_cons [OF name_at_append [OF quest_cons.hyps(1)] quest_cons.hyps(2,3)])
      (use quest_cons.hyps(4) quest_cons.IH in simp_all)
  then show ?case unfolding q .
qed (rule quest_end)

lemma recs_at_append: "recs_at m p os e \<Longrightarrow> recs_at (m @ x) p os e"
proof (induction rule: recs_at.induct)
  case (recs_cons p ls h n os e)
  have b: "be_at (m @ x) (p + n + 8) = be_at m (p + n + 8)"
    using recs_cons.hyps(4) by (simp add: be_at_def nth_append)
  show ?case
    by (rule recs_at.recs_cons [OF name_at_append [OF recs_cons.hyps(1)] recs_cons.hyps(2,3)])
      (use recs_cons.hyps(4) recs_cons.IH b in simp_all)
qed (rule recs_end)

lemma recs_at_trans: "recs_at m p os e \<Longrightarrow> recs_at m e os' e' \<Longrightarrow> recs_at m p (os @ os') e'"
  by (induction rule: recs_at.induct) (auto intro: recs_cons)

lemma recs_at_le: "recs_at m p os e \<Longrightarrow> p \<le> length m \<Longrightarrow> e \<le> length m"
  by (induction rule: recs_at.induct) auto

text \<open>A message of \<open>q\<close> questions and \<open>k\<close> records.\<close>

definition laid :: "byte list \<Rightarrow> nat \<Rightarrow> nat \<Rightarrow> bool" where
  "laid m q k = (\<exists>qs os p. length qs = q \<and> quest_at m 12 qs p \<and> length os = k \<and> recs_at m p os (length m))"

lemma laid_rec:
  assumes "laid m q k" "m' = m @ x" "name_at m' (length m) ls h n" "h \<le> 255" "length (enc ls) \<le> DNSNAMEBUFSIZE"
    "length m' = length m + n + 10 + be_at m' (length m + n + 8)"
  shows "laid m' q (Suc k)"
proof -
  obtain qs os p where o: "length qs = q" "quest_at m 12 qs p" "length os = k" "recs_at m p os (length m)"
    using assms(1) unfolding laid_def by blast
  have "recs_at m' (length m) [length m + n] (length m')"
    using recs_cons [OF assms(3-5) _ recs_end] assms(6) by simp
  then have "recs_at m' p (os @ [length m + n]) (length m')"
    using recs_at_trans [OF recs_at_append [OF o(4)]] assms(2) by blast
  moreover have "quest_at m' 12 qs p" using quest_at_append [OF o(2)] assms(2) by simp
  ultimately show ?thesis unfolding laid_def using o(1,3)
    by (intro exI [of _ qs] exI [of _ "os @ [length m + n]"] exI [of _ p]) simp
qed

lemma laid_quest:
  assumes "laid m q 0" "m' = m @ x" "name_at m' (length m) ls h n" "h \<le> 255" "length (enc ls) \<le> DNSNAMEBUFSIZE"
    "length m' = length m + n + 4"
  shows "laid m' (Suc q) 0"
proof -
  obtain qs where o: "length qs = q" "quest_at m 12 qs (length m)"
    using assms(1) unfolding laid_def by (auto simp: recs_at_Nil)
  have "quest_at m' (length m) [quest m' (length m + n) ls] (length m')"
    using quest_cons [OF assms(3-5) _ quest_end] assms(6) by simp
  then have "quest_at m' 12 (qs @ [quest m' (length m + n) ls]) (length m')"
    using quest_at_snoc [OF quest_at_append [OF o(2)]] assms(2) by blast
  then show ?thesis unfolding laid_def using o(1)
    by (intro exI [of _ "qs @ [quest m' (length m + n) ls]"] exI [of _ "[]"] exI [of _ "length m'"])
      (simp add: recs_at_Nil)
qed

text \<open>The counters of the header.\<close>

lemma be16_unat: "unat (be16 x ! 0) * 256 + unat (be16 x ! 1) = unat x"
proof -
  have 1: "unat (ucast (drop_bit 8 x) :: byte) = unat x div 256 mod 256"
    by (simp add: unsigned_ucast_eq take_bit_eq_mod unat_drop_bit_eq drop_bit_eq_div [of 8 "unat x"])
  have 2: "unat (ucast x :: byte) = unat x mod 256"
    by (simp add: unsigned_ucast_eq take_bit_eq_mod)
  have "unat x < 65536" using unsigned_less [of x, where 'a = nat] by simp
  then show ?thesis using 1 2 by (simp add: be16_def)
qed

lemma bump_be_at:
  assumes "length h = 12" "k \<in> {4, 6, 8, 10}" "j \<in> {4, 6, 8, 10}"
  shows "be_at (bump k h) j = (if j = k then (be_at h k + 1) mod 65536 else be_at h j)"
proof -
  have g: "get16 h k = Some (be_at h k)" using assms by (intro get16_at) auto
  have b: "bump k h = splice h k (be16 (word_of_nat (be_at h k + 1)))" using g by (simp add: bump_def)
  have n: "splice h k x ! i = (if k \<le> i \<and> i < k + 2 then x ! (i - k) else h ! i)" if "length x = 2" "i < 12" for x :: "byte list" and i
    using that assms(1,2) by (auto simp: splice_def nth_append intro!: arg_cong [of _ _ "nth h"])
  have v: "unat (be16 (word_of_nat c) ! 0) * 256 + unat (be16 (word_of_nat c) ! 1) = c mod 65536" for c :: nat
    using be16_unat [of "word_of_nat c"] by (simp add: unsigned_of_nat take_bit_eq_mod)
  define x where "x = be16 (word_of_nat (be_at h k + 1))"
  have x: "length x = 2" "unat (x ! 0) * 256 + unat (x ! 1) = (be_at h k + 1) mod 65536"
    using v [of "be_at h k + 1"] by (simp_all add: x_def)
  have "be_at (splice h k x) j = (if j = k then unat (x ! 0) * 256 + unat (x ! 1) else be_at h j)"
    using n [OF x(1), of j] n [OF x(1), of "j + 1"] assms(2,3) by (auto simp: be_at_def)
  then show ?thesis unfolding b x_def [symmetric] using x(2) by simp
qed

definition hdr_counts :: "byte list \<Rightarrow> nat \<Rightarrow> nat \<Rightarrow> nat \<Rightarrow> nat \<Rightarrow> bool" where
  "hdr_counts m q a n r = (be_at m 4 = q mod 65536 \<and> be_at m 6 = a mod 65536 \<and>
     be_at m 8 = n mod 65536 \<and> be_at m 10 = r mod 65536)"

text \<open>The message in use is laid out as its header says, and so are all those that differ from it in the
  header only; the names that can be pointed to are in it.\<close>

definition body_ok :: "ans \<Rightarrow> bool" where
  "body_ok s = (cb_for (hdrs s) s \<and> (\<exists>q a n r. hdr_counts (used s) q a n r \<and> (\<forall>m \<in> hdrs s. laid m q (a + n + r))))"

lemma hdr_counts_take: "12 \<le> length m \<Longrightarrow> hdr_counts (take 12 m) q a n r = hdr_counts m q a n r"
  by (simp add: hdr_counts_def be_at_def)

lemma body_ok_same:
  assumes "body_ok s" "12 \<le> length (used s)" "12 \<le> length (used s')" "drop 12 (used s') = drop 12 (used s)"
    "an_cb s' = an_cb s" "an_sz s' = an_sz s" "\<And>i. 4 \<le> i \<Longrightarrow> i < 12 \<Longrightarrow> used s' ! i = used s ! i"
  shows "body_ok s'"
proof -
  have h: "hdrs s' = hdrs s" using assms(4) by (simp add: hdrs_def)
  have "hdr_counts (used s') q a n r = hdr_counts (used s) q a n r" for q a n r
    using assms(7) by (simp add: hdr_counts_def be_at_def)
  moreover have "cb_for (hdrs s) s' = cb_for (hdrs s) s" using assms(5,6) by (simp add: cb_for_def)
  ultimately show ?thesis using assms(1) h by (simp add: body_ok_def)
qed

lemma hdrs_length: "m \<in> hdrs s \<Longrightarrow> 12 \<le> length (used s) \<Longrightarrow> length m = length (used s)"
  by (auto simp: hdrs_def)

lemma hdrs_used: "12 \<le> length (used s) \<Longrightarrow> used s \<in> hdrs s"
  by (auto simp: hdrs_def intro!: exI [of _ "take 12 (used s)"])

text \<open>A message with the header of another.\<close>

lemma hdrs_extend:
  assumes "drop 12 (used s') = drop 12 (used s) @ x" "m' \<in> hdrs s'"
  obtains m where "m \<in> hdrs s" "m' = m @ x"
proof -
  obtain h where h: "m' = h @ drop 12 (used s) @ x" "length h = 12" using assms by (auto simp: hdrs_def)
  then have "h @ drop 12 (used s) \<in> hdrs s" by (auto simp: hdrs_def)
  then show thesis using that h(1) by simp
qed

lemma hdr_counts_bump:
  assumes "take 12 m' = bump k (take 12 m)" "12 \<le> length m" "12 \<le> length m'" "hdr_counts m q a n r" "k \<in> {4, 6, 8, 10}"
  shows "hdr_counts m' (if k = 4 then q + 1 else q) (if k = 6 then a + 1 else a) (if k = 8 then n + 1 else n)
    (if k = 10 then r + 1 else r)"
proof -
  have l: "length (take 12 m) = 12" using assms(2) by simp
  have c: "hdr_counts (take 12 m) q a n r" using assms(2,4) by (simp add: hdr_counts_take)
  have "hdr_counts (take 12 m') (if k = 4 then q + 1 else q) (if k = 6 then a + 1 else a) (if k = 8 then n + 1 else n)
    (if k = 10 then r + 1 else r)"
    unfolding assms(1) hdr_counts_def using c bump_be_at [OF l assms(5)] by (simp add: hdr_counts_def mod_Suc_eq)
  then show ?thesis using assms(3) by (simp add: hdr_counts_take)
qed

text \<open>One more record.\<close>

lemma body_ok_rec:
  assumes "body_ok s" "12 \<le> length (used s)" "take 12 (used s') = bump k (take 12 (used s))" "k \<in> {6, 8, 10}"
    "drop 12 (used s') = drop 12 (used s) @ x" "cb_for (hdrs s') s'"
    "\<And>m'. m' \<in> hdrs s' \<Longrightarrow> \<exists>ls h n. name_at m' (length (used s)) ls h n \<and> h \<le> 255 \<and> length (enc ls) \<le> DNSNAMEBUFSIZE \<and>
      length m' = length (used s) + n + 10 + be_at m' (length (used s) + n + 8)"
  shows "body_ok s'"
proof -
  obtain q a n r where b: "hdr_counts (used s) q a n r" "\<forall>m \<in> hdrs s. laid m q (a + n + r)"
    using assms(1) unfolding body_ok_def by blast
  have lt: "length (take 12 (used s)) = 12" using assms(2) by simp
  have "length (take 12 (used s')) = 12" unfolding assms(3) using assms(2,4) lt
    by (auto simp: bump_def get16_at)
  then have l: "12 \<le> length (used s')" by simp
  let ?a = "if k = 6 then a + 1 else a" and ?n = "if k = 8 then n + 1 else n" and ?r = "if k = 10 then r + 1 else r"
  have "k \<in> {4, 6, 8, 10}" using assms(4) by simp
  from hdr_counts_bump [OF assms(3) assms(2) l b(1) this] have c: "hdr_counts (used s') q ?a ?n ?r" using assms(4) by auto
  have "laid m' q (?a + ?n + ?r)" if m': "m' \<in> hdrs s'" for m'
  proof -
    obtain m where m: "m \<in> hdrs s" "m' = m @ x" using hdrs_extend [OF assms(5) m'] by blast
    have lm: "length m = length (used s)" using hdrs_length [OF m(1) assms(2)] .
    obtain ls h i where r: "name_at m' (length m) ls h i" "h \<le> 255" "length (enc ls) \<le> DNSNAMEBUFSIZE"
      "length m' = length m + i + 10 + be_at m' (length m + i + 8)" using assms(7) [OF m'] lm by auto
    have "laid m' q (Suc (a + n + r))" using laid_rec [OF bspec [OF b(2) m(1)] m(2) r] .
    moreover have "?a + ?n + ?r = Suc (a + n + r)" using assms(4) by auto
    ultimately show ?thesis by (simp only:)
  qed
  then show ?thesis unfolding body_ok_def using c assms(6) by blast
qed

lemma parts_at_le: "parts_at m i ps j \<Longrightarrow> i \<le> j"
  by (induction m i ps j rule: parts_at.induct) force+

lemma rr_header_len_at:
  assumes "x < 65536" "i = length m"
  shows "be_at (m @ rr_header tp ttl x @ y) (i + 8) = x"
proof -
  have "be16 (word_of_nat x) = [be16 (word_of_nat x) ! 0, be16 (word_of_nat x) ! 1]" by (simp add: be16_def)
  have h: "rr_header tp ttl x ! 8 = be16 (word_of_nat x) ! 0" "rr_header tp ttl x ! 9 = be16 (word_of_nat x) ! 1"
    by (simp_all add: rr_header_def be16_def be32_def)
  have n: "(m @ rr_header tp ttl x @ y) ! (i + 8) = rr_header tp ttl x ! 8"
    "(m @ rr_header tp ttl x @ y) ! (i + 9) = rr_header tp ttl x ! 9"
    using assms(2) by (simp_all add: nth_append)
  have "unat (word_of_nat x :: u16) = x" using assms(1) by (simp add: unat_of_nat)
  then show ?thesis using be16_unat [of "word_of_nat x"] n h by (simp add: be_at_def add.commute [of i])
qed

lemma nm_at_name:
  assumes "nm_at m i ks n" "wire_name ks"
  shows "\<exists>ls h. name_at m i ls h n \<and> h \<le> 255 \<and> length (enc ls) \<le> DNSNAMEBUFSIZE"
  using assms ci_eq_enc_len unfolding nm_at_def wire_name_def by metis

lemma body_ok_rr:
  assumes "body_ok s" "msg_wf s" "rr_added ks tp ttl ps sect s s'" "wire_name ks" "length (enc_parts ps) < 65536"
  shows "body_ok s'"
proof -
  obtain x y where r: "0 < length x" "length y \<le> length (enc_parts ps)"
     "an_sz s' = an_sz s + length x + 10 + length y"
     "take 12 (used s') = bump (count_offs sect) (take 12 (used s))"
     "drop 12 (used s') = drop 12 (used s) @ x @ rr_header tp ttl (length y) @ y"
     "cb_for (hdrs s) s \<longrightarrow> cb_for (hdrs s') s' \<and>
       (\<forall>m \<in> hdrs s'. nm_at m (an_sz s) ks (length x) \<and> parts_at m (an_sz s + length x + 10) ps (an_sz s'))"
    using assms(3) unfolding rr_added_def by blast
  have l: "12 \<le> length (used s)" "length (used s) = an_sz s" using assms(2) used_length [OF assms(2)] by (simp_all add: msg_wf_def)
  have cb: "cb_for (hdrs s') s'" "\<And>m. m \<in> hdrs s' \<Longrightarrow> nm_at m (an_sz s) ks (length x)"
    using r(6) assms(1) unfolding body_ok_def by blast+
  show ?thesis
  proof (rule body_ok_rec [OF assms(1) l(1) r(4) _ r(5) cb(1)])
    show "count_offs sect \<in> {6, 8, 10}" by (cases sect) (simp_all add: count_offs_def)
    fix m' assume m': "m' \<in> hdrs s'"
    obtain m where m: "m \<in> hdrs s" "m' = m @ x @ rr_header tp ttl (length y) @ y" using hdrs_extend [OF r(5) m'] by blast
    have lm: "length m = an_sz s" using hdrs_length [OF m(1) l(1)] l(2) by simp
    have "be_at ((m @ x) @ rr_header tp ttl (length y) @ y) (length (m @ x) + 8) = length y"
      by (rule rr_header_len_at) (use r(2) assms(5) in simp_all)
    then have "be_at m' (length (used s) + length x + 8) = length y" using m(2) lm l(2) by simp
    moreover have "length m' = length (used s) + length x + 10 + length y" using m(2) lm l(2) by simp
    ultimately show "\<exists>ls h n. name_at m' (length (used s)) ls h n \<and> h \<le> 255 \<and> length (enc ls) \<le> DNSNAMEBUFSIZE \<and>
      length m' = length (used s) + n + 10 + be_at m' (length (used s) + n + 8)"
      using nm_at_name [OF cb(2) [OF m'] assms(4)] l(2) by metis
  qed
qed

end
