(* ===== verification/Pd_CentSpec.thy ===== *)
theory Pd_CentSpec
  imports Pd_Cent
begin

text \<open>
  What the operations of \<open>Pd_Cent\<close> on one entry do, for a well-formed entry whose linked RR sets are
  in the list of the cache: the resulting entry in terms of its slots, and what is left of the list.
\<close>

subsection \<open>Freeing and negation\<close>

text \<open>The items of an array of slots whose first one has the index \<open>k\<close>.\<close>

definition slot_items :: "nat \<Rightarrow> nat \<Rightarrow> rr_set option list \<Rightarrow> item set" where
  "slot_items a k sl = {(n, a, Some (k + i)) | n i. i < length sl \<and> Option.bind (sl ! i) rs_lent = Some n}"

lemma slot_items_simps [simp]:
  "slot_items a k [] = {}"
  "slot_items a k (r # sl) =
     (case Option.bind r rs_lent of None \<Rightarrow> {} | Some n \<Rightarrow> {(n, a, Some k)}) \<union> slot_items a (Suc k) sl"
proof -
  show "slot_items a k [] = {}" by (simp add: slot_items_def)
  show "slot_items a k (r # sl) =
     (case Option.bind r rs_lent of None \<Rightarrow> {} | Some n \<Rightarrow> {(n, a, Some k)}) \<union> slot_items a (Suc k) sl" (is "?L = ?R")
  proof (rule set_eqI)
    fix x
    show "(x \<in> ?L) = (x \<in> ?R)"
    proof
      assume "x \<in> ?L"
      then obtain n i where "x = (n, a, Some (k + i))" "i < length (r # sl)" "Option.bind ((r # sl) ! i) rs_lent = Some n"
        unfolding slot_items_def by blast
      then show "x \<in> ?R" by (cases i) (auto simp: slot_items_def)
    next
      assume "x \<in> ?R"
      then consider n where "Option.bind r rs_lent = Some n" "x = (n, a, Some k)"
        | n i where "x = (n, a, Some (Suc k + i))" "i < length sl" "Option.bind (sl ! i) rs_lent = Some n"
        unfolding slot_items_def by (auto split: option.splits)
      then show "x \<in> ?L"
      proof cases
        case 1
        then show ?thesis unfolding slot_items_def by force
      next
        case 2
        then have "x = (n, a, Some (k + Suc i)) \<and> Suc i < length (r # sl) \<and> Option.bind ((r # sl) ! Suc i) rs_lent = Some n"
          by simp
        then show ?thesis unfolding slot_items_def by blast
      qed
    qed
  qed
qed

lemma slot_items_append: "slot_items a k (xs @ ys) = slot_items a k xs \<union> slot_items a (k + length xs) ys"
  by (induction xs arbitrary: k) (auto split: option.splits)

lemma slot_items_ge: "(n, b, i) \<in> slot_items a k sl \<Longrightarrow> b = a \<and> (\<exists>j. i = Some j \<and> k \<le> j \<and> j < k + length sl)"
  by (auto simp: slot_items_def)

lemma cent_items_slots:
  assumes "cent_shape c" "\<not> neg c"
  shows "cent_items a c = slot_items a 0 (slots c)"
  using assms by (auto simp: cent_items_rr slot_items_def slot_def)

lemma unlink_ok:
  assumes "rrl_ok (I \<union> R) (rrl \<sigma>) (next_id \<sigma>)" "I = (case le of None \<Rightarrow> {} | Some n \<Rightarrow> {(n, a, i)})" "I \<inter> R = {}"
  shows "\<exists>\<sigma>'. unlink le \<sigma> = Some \<sigma>' \<and> rrl_ok R (rrl \<sigma>') (next_id \<sigma>') \<and> frame \<sigma> \<sigma>' \<and> mallocs \<sigma>' = mallocs \<sigma>"
proof (cases le)
  case None
  then show ?thesis using assms by (simp add: unlink_def)
next
  case (Some n)
  have it: "(n, a, i) \<in> I \<union> R" using assms(2) Some by simp
  obtain L where L: "remove_rrl n (rrl \<sigma>) = Some L" "rrl_ok (I \<union> R - {(n, a, i)}) L (next_id \<sigma>)"
    using rrl_ok_remove [OF assms(1) it] unfolding fst_conv by blast
  have "I \<union> R - {(n, a, i)} = R" using assms(2,3) Some by auto
  then show ?thesis using L Some shrinks_remove [OF L(1)] by (simp add: unlink_def)
qed

lemma del_slots_spec:
  assumes "rrl_ok (slot_items a k sl \<union> R) (rrl \<sigma>) (next_id \<sigma>)" "slot_items a k sl \<inter> R = {}"
  shows "\<exists>\<sigma>'. del_slots sl \<sigma> = Some (slots_size sl, \<sigma>') \<and> rrl_ok R (rrl \<sigma>') (next_id \<sigma>') \<and>
    frame \<sigma> \<sigma>' \<and> mallocs \<sigma>' = mallocs \<sigma>"
  using assms
proof (induction sl arbitrary: k \<sigma>)
  case Nil
  then show ?case by (simp add: slots_size_def)
next
  case (Cons r sl)
  show ?case
  proof (cases r)
    case None
    then obtain \<sigma>' where "del_slots sl \<sigma> = Some (slots_size sl, \<sigma>')" "rrl_ok R (rrl \<sigma>') (next_id \<sigma>')"
      "frame \<sigma> \<sigma>'" "mallocs \<sigma>' = mallocs \<sigma>"
      using Cons.IH [of "Suc k" \<sigma>] Cons.prems by auto
    then show ?thesis using None by (simp add: slots_size_def)
  next
    case (Some rs)
    let ?I = "case rs_lent rs of None \<Rightarrow> {} | Some n \<Rightarrow> {(n, a, Some k)}"
    have d: "?I \<inter> (slot_items a (Suc k) sl \<union> R) = {}"
      using Cons.prems(2) Some by (auto split: option.splits dest: slot_items_ge)
    have "rrl_ok (?I \<union> (slot_items a (Suc k) sl \<union> R)) (rrl \<sigma>) (next_id \<sigma>)"
      using Cons.prems(1) Some by (simp add: Un_assoc)
    from unlink_ok [OF this refl d] obtain \<sigma>1 where 1: "unlink (rs_lent rs) \<sigma> = Some \<sigma>1"
      "rrl_ok (slot_items a (Suc k) sl \<union> R) (rrl \<sigma>1) (next_id \<sigma>1)" "frame \<sigma> \<sigma>1" "mallocs \<sigma>1 = mallocs \<sigma>"
      by (elim exE conjE) (rule that)
    have "slot_items a (Suc k) sl \<inter> R = {}" using Cons.prems(2) by auto
    from Cons.IH [OF 1(2) this] obtain \<sigma>2 where 2: "del_slots sl \<sigma>1 = Some (slots_size sl, \<sigma>2)"
      "rrl_ok R (rrl \<sigma>2) (next_id \<sigma>2)" "frame \<sigma>1 \<sigma>2" "mallocs \<sigma>2 = mallocs \<sigma>1" by (elim exE conjE) (rule that)
    then show ?thesis using 1 Some frame_trans [OF 1(3) 2(3)]
      by (simp add: del_rrset_def slots_size_def)
  qed
qed

lemma slot_items_split:
  assumes "length (slots c) = NRRMU \<or> length (slots c) = NRRTOT"
  shows "slot_items a 0 (slots c) = slot_items a 0 (take NRRMU (slots c)) \<union> slot_items a NRRMU (drop NRRMU (slots c))"
    "slot_items a 0 (take NRRMU (slots c)) \<inter> slot_items a NRRMU (drop NRRMU (slots c)) = {}"
proof -
  have "slots c = take NRRMU (slots c) @ drop NRRMU (slots c)" by simp
  moreover have "length (take NRRMU (slots c)) = NRRMU" using assms by auto
  ultimately show "slot_items a 0 (slots c) =
      slot_items a 0 (take NRRMU (slots c)) \<union> slot_items a NRRMU (drop NRRMU (slots c))"
    using slot_items_append [of a 0 "take NRRMU (slots c)" "drop NRRMU (slots c)"] by simp
  show "slot_items a 0 (take NRRMU (slots c)) \<inter> slot_items a NRRMU (drop NRRMU (slots c)) = {}"
    using assms by (auto dest!: slot_items_ge)
qed

lemma slots_size_take_drop: "slots_size (take n sl) + slots_size (drop n sl) = slots_size sl"
  by (metis append_take_drop_id slots_size_append)

text \<open>The two loops of \<open>free_cent\<close> and \<open>negate_cent\<close> on a positive entry.\<close>

lemma del_both:
  assumes "held a c R \<sigma>" "cent_shape c" "\<not> neg c"
  shows "\<exists>\<sigma>1 \<sigma>2. del_slots (take NRRMU (slots c)) \<sigma> = Some (slots_size (take NRRMU (slots c)), \<sigma>1) \<and>
    del_slots (drop NRRMU (slots c)) \<sigma>1 = Some (slots_size (drop NRRMU (slots c)), \<sigma>2) \<and>
    rrl_ok R (rrl \<sigma>2) (next_id \<sigma>2) \<and> frame \<sigma> \<sigma>2 \<and> mallocs \<sigma>2 = mallocs \<sigma>"
proof -
  have len: "length (slots c) = NRRMU \<or> length (slots c) = NRRTOT" using body_rr [OF assms(2,3)] by simp
  let ?A = "slot_items a 0 (take NRRMU (slots c))" and ?B = "slot_items a NRRMU (drop NRRMU (slots c))"
  note sp = slot_items_split [OF len, of a]
  have R: "(?A \<union> ?B) \<inter> R = {}" using assms(1) by (auto simp: held_def dest!: slot_items_ge)
  have 0: "rrl_ok (?A \<union> (?B \<union> R)) (rrl \<sigma>) (next_id \<sigma>)" "?A \<inter> (?B \<union> R) = {}"
    using assms(1) R sp by (auto simp: held_def cent_items_slots [OF assms(2,3)] Un_assoc)
  from del_slots_spec [OF 0] obtain \<sigma>1 where 1: "del_slots (take NRRMU (slots c)) \<sigma> = Some (slots_size (take NRRMU (slots c)), \<sigma>1)"
    "rrl_ok (?B \<union> R) (rrl \<sigma>1) (next_id \<sigma>1)" "frame \<sigma> \<sigma>1" "mallocs \<sigma>1 = mallocs \<sigma>" by (elim exE conjE) (rule that)
  have "?B \<inter> R = {}" using R by auto
  from del_slots_spec [OF 1(2) this] obtain \<sigma>2 where 2: "del_slots (drop NRRMU (slots c)) \<sigma>1 = Some (slots_size (drop NRRMU (slots c)), \<sigma>2)"
    "rrl_ok R (rrl \<sigma>2) (next_id \<sigma>2)" "frame \<sigma>1 \<sigma>2" "mallocs \<sigma>2 = mallocs \<sigma>1" by (elim exE conjE) (rule that)
  show ?thesis using 1 2 frame_trans [OF 1(3) 2(3)] by (intro exI [of _ \<sigma>1] exI [of _ \<sigma>2]) simp
qed

lemma free_cent_spec:
  assumes "cent_shape c" "held a c R \<sigma>"
  shows "\<exists>\<sigma>'. free_cent c \<sigma> = Some \<sigma>' \<and> rrl_ok R (rrl \<sigma>') (next_id \<sigma>') \<and> frame \<sigma> \<sigma>' \<and> mallocs \<sigma>' = mallocs \<sigma>"
proof (cases "neg c")
  case True
  obtain le ttl ts where b: "ce_body c = NegBody le ttl ts" using assms(1) True by (auto elim: cent_shapeE)
  have i: "cent_items a c = (case le of None \<Rightarrow> {} | Some n \<Rightarrow> {(n, a, None)})" by (rule cent_items_neg [OF b])
  have "cent_items a c \<inter> R = {}" using assms(2) cent_items_addr by (fastforce simp: held_def)
  moreover have "rrl_ok (cent_items a c \<union> R) (rrl \<sigma>) (next_id \<sigma>)" using assms(2) by (simp add: held_def)
  ultimately show ?thesis using True b unlink_ok [OF _ i] by (simp add: free_cent_def)
next
  case False
  note b = body_rr [OF assms(1) False]
  obtain \<sigma>1 \<sigma>2 where d: "del_slots (take NRRMU (slots c)) \<sigma> = Some (slots_size (take NRRMU (slots c)), \<sigma>1)"
    "del_slots (drop NRRMU (slots c)) \<sigma>1 = Some (slots_size (drop NRRMU (slots c)), \<sigma>2)"
    "rrl_ok R (rrl \<sigma>2) (next_id \<sigma>2)" "frame \<sigma> \<sigma>2" "mallocs \<sigma>2 = mallocs \<sigma>"
    using del_both [OF assms(2,1) False] by (elim exE conjE) (rule that)
  have "free_cent c \<sigma> = Some \<sigma>2"
  proof (cases "length (slots c) = NRRMU")
    case True
    then show ?thesis using False b d(1,2) by (simp add: free_cent_def rr_body_def)
  next
    case n: False
    then show ?thesis using False b d(1,2) by (auto simp: free_cent_def rr_body_def)
  qed
  then show ?thesis using d by blast
qed

text \<open>An entry that is not in the cache: no RR set of it is in the list.\<close>

definition loose :: "dns_cent \<Rightarrow> bool" where
  "loose c = (case ce_body c of NegBody le _ _ \<Rightarrow> le = None
     | RRBody _ _ \<Rightarrow> (\<forall>r \<in> set (slots c). Option.bind r rs_lent = None))"

lemma loose_slot: "loose c \<Longrightarrow> slot c i = Some rs \<Longrightarrow> rs_lent rs = None"
proof -
  assume a: "loose c" "slot c i = Some rs"
  then have "Some rs \<in> set (slots c)" by (metis nth_mem slot_SomeD)
  moreover from this have "\<forall>r \<in> set (slots c). Option.bind r rs_lent = None" using a(1)
    by (cases "ce_body c") (simp_all add: loose_def slots_def)
  ultimately show "rs_lent rs = None" by fastforce
qed

lemma loose_items: "loose c \<Longrightarrow> cent_items a c = {}"
proof (cases "ce_body c")
  case (NegBody le ttl ts)
  then show "loose c \<Longrightarrow> cent_items a c = {}" by (simp add: loose_def cent_items_def)
next
  case (RRBody mu ext)
  assume l: "loose c"
  have "Option.bind (slot c i) rs_lent = None" for i
    using loose_slot [OF l] by (cases "slot c i") auto
  then show "cent_items a c = {}" using RRBody by (simp add: cent_items_def)
qed

lemma looseI: "cent_shape c \<Longrightarrow> \<not> neg c \<Longrightarrow> (\<And>i rs. slot c i = Some rs \<Longrightarrow> rs_lent rs = None) \<Longrightarrow> loose c"
proof -
  assume a: "cent_shape c" "\<not> neg c" "\<And>i rs. slot c i = Some rs \<Longrightarrow> rs_lent rs = None"
  have "Option.bind r rs_lent = None" if "r \<in> set (slots c)" for r
  proof (cases r)
    case (Some rs)
    then obtain i where "i < length (slots c)" "slots c ! i = Some rs" using \<open>r \<in> _\<close> by (auto simp: in_set_conv_nth)
    then show ?thesis using a(3) [of i rs] Some by (simp add: slot_def)
  qed simp
  then show ?thesis using body_rr [OF a(1,2)] by (simp add: loose_def rr_body_def)
qed

lemma del_slots_loose: "\<forall>r \<in> set sl. Option.bind r rs_lent = None \<Longrightarrow> del_slots sl \<sigma> = Some (slots_size sl, \<sigma>)"
proof (induction sl)
  case (Cons r sl)
  then show ?case by (cases r) (auto simp: del_rrset_def unlink_def slots_size_def)
qed (simp add: slots_size_def)

lemma free_cent_loose: "cent_shape c \<Longrightarrow> loose c \<Longrightarrow> free_cent c \<sigma> = Some \<sigma>"
proof (erule cent_shapeE)
  fix le ttl ts assume "loose c" "neg c" "ce_body c = NegBody le ttl ts"
  then show "free_cent c \<sigma> = Some \<sigma>" by (simp add: free_cent_def loose_def unlink_def)
next
  assume a: "loose c" "\<not> neg c" "ce_body c = rr_body (slots c)" "length (slots c) = NRRMU \<or> length (slots c) = NRRTOT"
  then have l: "\<forall>r \<in> set (slots c). Option.bind r rs_lent = None" by (simp add: loose_def rr_body_def)
  have "del_slots (take NRRMU (slots c)) \<sigma> = Some (slots_size (take NRRMU (slots c)), \<sigma>)"
    "del_slots (drop NRRMU (slots c)) \<sigma> = Some (slots_size (drop NRRMU (slots c)), \<sigma>)"
    by (rule del_slots_loose, use l in \<open>auto dest: in_set_takeD in_set_dropD\<close>)+
  then show "free_cent c \<sigma> = Some \<sigma>" using a(2,3) by (simp add: free_cent_def rr_body_def)
qed

lemma has_1_1 [simp]: "has 1 1"
  by (simp add: has_def)

text \<open>Negation drops every RR set and keeps the name and the other flags.\<close>

lemma negate_cent_spec:
  assumes "cent_wf c" "held a c R \<sigma>"
  shows "\<exists>c' \<sigma>'. negate_cent c ttl ts \<sigma> = Some (c', \<sigma>') \<and> cent_wf c' \<and> held a c' R \<sigma>' \<and> frame \<sigma> \<sigma>' \<and> mallocs \<sigma>' = mallocs \<sigma> \<and>
    (\<exists>le. ce_body c' = NegBody le ttl ts) \<and> ce_num c' = 0 \<and> ce_cs c' = sz_cent + int (length (ce_qname c)) \<and>
    ce_qname c' = ce_qname c \<and> ce_flags c' = ce_flags c OR DF_NEGATIVE \<and> ce_ns c' = ce_ns c \<and> ce_soa c' = ce_soa c"
proof (cases "neg c")
  case True
  have sh: "cent_shape c" using assms(1) by (simp add: cent_wf_def)
  obtain le t1 t2 where b: "ce_body c = NegBody le t1 t2" "slots c = []" using sh True by (auto elim: cent_shapeE)
  let ?c = "c\<lparr> ce_body := NegBody le ttl ts \<rparr>"
  have wf: "cent_wf ?c" using assms(1) True b by (simp add: cent_wf_def cent_size_def cent_shape_def)
  have "cent_items a ?c = cent_items a c" using b by (simp add: cent_items_def)
  then have "held a ?c R \<sigma>" by (rule held_items [OF assms(2)])
  moreover have "ce_flags c = ce_flags c OR 1"
  proof (rule bit_word_eqI)
    fix n assume "n < LENGTH(16)"
    have "bit (ce_flags c) 0" using True
      by (simp add: has_def and_one_eq odd_iff_mod_2_eq_one bit_0 split: if_splits)
    then show "bit (ce_flags c) n = bit (ce_flags c OR 1) n" by (auto simp: bit_simps)
  qed
  moreover have "ce_num c = 0" "ce_cs c = sz_cent + int (length (ce_qname c))"
    using assms(1) b by (simp_all add: cent_wf_def cent_size_def)
  ultimately show ?thesis using True b wf
    by (intro exI [of _ ?c] exI [of _ \<sigma>]) (simp add: negate_cent_def)
next
  case False
  have sh: "cent_shape c" using assms(1) by (simp add: cent_wf_def)
  note b = body_rr [OF sh False]
  obtain \<sigma>1 \<sigma>2 where d: "del_slots (take NRRMU (slots c)) \<sigma> = Some (slots_size (take NRRMU (slots c)), \<sigma>1)"
    "del_slots (drop NRRMU (slots c)) \<sigma>1 = Some (slots_size (drop NRRMU (slots c)), \<sigma>2)"
    "rrl_ok R (rrl \<sigma>2) (next_id \<sigma>2)" "frame \<sigma> \<sigma>2" "mallocs \<sigma>2 = mallocs \<sigma>"
    using del_both [OF assms(2) sh False] by (elim exE conjE) (rule that)
  let ?c = "c\<lparr> ce_cs := sz_cent + int (length (ce_qname c)), ce_num := 0, ce_flags := ce_flags c OR DF_NEGATIVE,
     ce_body := NegBody None ttl ts \<rparr>"
  have cs: "ce_cs c = sz_cent + int (length (ce_qname c)) + (slots_size (take NRRMU (slots c)) + slots_size (drop NRRMU (slots c))) +
      (if length (slots c) > NRRMU then sz_rrext else 0)"
    using assms(1) unfolding slots_size_take_drop by (simp add: cent_wf_def cent_size_def)
  have run: "negate_cent c ttl ts \<sigma> = Some (?c, \<sigma>2)"
  proof (cases "length (slots c) = NRRMU")
    case True
    then show ?thesis using False b d(1,2) cs by (simp add: negate_cent_def rr_body_def slots_size_def)
  next
    case n: False
    then have "length (slots c) = NRRTOT" using b by simp
    then show ?thesis using False b d(1,2) cs by (simp add: negate_cent_def rr_body_def)
  qed
  have wf: "cent_wf ?c" using assms(1) by (simp add: cent_wf_def cent_size_def cent_shape_def)
  have "held a ?c R \<sigma>2" using d(3) assms(2) by (simp add: held_def cent_items_def)
  then show ?thesis using run wf d by (intro exI [of _ ?c] exI [of _ \<sigma>2]) simp
qed

subsection \<open>Creation\<close>

lemma rhnlen_valid: "valid_name nm \<Longrightarrow> rhnlen nm = Some (length nm)"
  by (auto elim!: valid_nameE simp: name_simps)

lemma rdn_whole [simp]: "n = length xs \<Longrightarrow> rdn xs 0 n = Some xs"
  by (simp add: rdn_def)

definition new_cent :: "name \<Rightarrow> int \<Rightarrow> int \<Rightarrow> u16 \<Rightarrow> dns_cent" where
  "new_cent nm ttl ts fl = \<lparr> ce_qname = nm, ce_cs = sz_cent + int (length nm), ce_num = 0, ce_flags = fl,
     ce_body = (if has fl DF_NEGATIVE then NegBody None ttl ts else RRBody (replicate NRRMU None) None),
     ce_ns = cundef, ce_soa = cundef \<rparr>"

lemma new_cent_props:
  assumes "valid_name nm"
  shows "cent_wf (new_cent nm ttl ts fl)" "loose (new_cent nm ttl ts fl)" "slot (new_cent nm ttl ts fl) i = None"
    "ce_qname (new_cent nm ttl ts fl) = nm" "ce_flags (new_cent nm ttl ts fl) = fl"
proof -
  have s: "slots (new_cent nm ttl ts fl) = (if has fl DF_NEGATIVE then [] else replicate NRRMU None)"
    by (simp add: new_cent_def slots_def)
  have "cent_shape (new_cent nm ttl ts fl)"
    by (simp add: new_cent_def cent_shape_def)
  moreover have "slots_num (slots (new_cent nm ttl ts fl)) = 0" "slots_size (slots (new_cent nm ttl ts fl)) = 0"
    "length (slots (new_cent nm ttl ts fl)) \<le> NRRMU"
    by (simp_all add: s del: replicate.simps)
  ultimately show "cent_wf (new_cent nm ttl ts fl)" using assms
    by (simp add: cent_wf_def cent_size_def new_cent_def)
  show n: "slot (new_cent nm ttl ts fl) i = None" for i
    by (simp add: slot_def s del: replicate.simps)
  have "\<forall>r \<in> set (slots (new_cent nm ttl ts fl)). Option.bind r rs_lent = None" by (simp add: s)
  then show "loose (new_cent nm ttl ts fl)"
    by (cases "has fl DF_NEGATIVE") (simp_all add: loose_def new_cent_def)
  show "ce_qname (new_cent nm ttl ts fl) = nm" "ce_flags (new_cent nm ttl ts fl) = fl"
    by (simp_all add: new_cent_def)
qed

lemma init_cent_spec:
  assumes "valid_name nm"
  shows "\<exists>r \<sigma>'. init_cent (nm @ junk) ttl ts fl \<sigma> = Some (r, \<sigma>') \<and> frame \<sigma> \<sigma>' \<and> rrl \<sigma>' = rrl \<sigma> \<and>
    r \<in> {None, Some (new_cent nm ttl ts fl)} \<and> (no_fail \<sigma> \<longrightarrow> r \<noteq> None \<and> no_fail \<sigma>')"
proof -
  obtain ok \<sigma>1 where m: "malloc \<sigma> = (ok, \<sigma>1)" by (cases "malloc \<sigma>")
  have "rhnlen (nm @ junk) = Some (length nm)"
    using assms by (auto elim!: valid_nameE simp: name_simps)
  moreover have "rdn (nm @ junk) 0 (length nm) = Some nm" by (simp add: rdn_def)
  ultimately have "init_cent (nm @ junk) ttl ts fl \<sigma> = Some (if ok then Some (new_cent nm ttl ts fl) else None, \<sigma>1)"
    using m by (simp add: init_cent_def new_cent_def)
  then show ?thesis using malloc_spec [OF m] by auto
qed

subsection \<open>Copies\<close>

text \<open>An entry without its links into the list.\<close>

abbreviation (input) unlinked_set :: "rr_set \<Rightarrow> rr_set" where
  "unlinked_set rs \<equiv> rs\<lparr> rs_lent := None \<rparr>"

definition unlinked :: "dns_cent \<Rightarrow> dns_cent" where
  "unlinked c = c\<lparr> ce_body := (case ce_body c of NegBody _ ttl ts \<Rightarrow> NegBody None ttl ts
     | RRBody mu ext \<Rightarrow> rr_body (map (map_option unlinked_set) (slots c))) \<rparr>"

lemma rrset_size_unlinked [simp]: "rrset_size (unlinked_set rs) = rrset_size rs"
  by (simp add: rrset_size_def)

lemma slots_map_unlinked:
  "slots_size (map (map_option unlinked_set) sl) = slots_size sl"
  "slots_num (map (map_option unlinked_set) sl) = slots_num sl"
proof -
  show "slots_size (map (map_option unlinked_set) sl) = slots_size sl"
    by (induction sl) (auto simp: slots_size_def slot_size_def split: option.split)
  show "slots_num (map (map_option unlinked_set) sl) = slots_num sl"
    by (induction sl) (auto simp: slots_num_def)
qed

lemma unlinked_eq:
  assumes "cent_shape c"
  shows "\<not> neg c \<Longrightarrow> unlinked c = c\<lparr> ce_body := rr_body (map (map_option unlinked_set) (slots c)) \<rparr>"
    "ce_body c = NegBody le ttl ts \<Longrightarrow> unlinked c = c\<lparr> ce_body := NegBody None ttl ts \<rparr>"
proof -
  show "unlinked c = c\<lparr> ce_body := rr_body (map (map_option unlinked_set) (slots c)) \<rparr>" if "\<not> neg c"
  proof -
    have "ce_body c = rr_body (slots c)" using body_rr [OF assms that] by simp
    then obtain mu ext where "ce_body c = RRBody mu ext" by (simp add: rr_body_def)
    then show ?thesis by (simp add: unlinked_def)
  qed
qed (simp add: unlinked_def)

lemma unlinked_props:
  assumes "cent_wf c"
  shows "cent_wf (unlinked c)" "loose (unlinked c)" "slot (unlinked c) i = map_option unlinked_set (slot c i)"
    "ce_qname (unlinked c) = ce_qname c" "ce_flags (unlinked c) = ce_flags c" "ce_ns (unlinked c) = ce_ns c"
    "ce_soa (unlinked c) = ce_soa c" "ce_num (unlinked c) = ce_num c" "ce_cs (unlinked c) = ce_cs c"
    "length (slots (unlinked c)) = length (slots c)"
proof -
  have sh: "cent_shape c" using assms by (simp add: cent_wf_def)
  have "slots (unlinked c) = map (map_option unlinked_set) (slots c) \<and> cent_shape (unlinked c)"
    using sh
  proof (cases rule: cent_shapeE)
    case (Neg le ttl ts)
    then show ?thesis using unlinked_eq(2) [OF sh Neg(2)] by (simp add: cent_shape_def)
  next
    case RR
    let ?sl = "map (map_option unlinked_set) (slots c)"
    have "length ?sl = NRRMU \<or> length ?sl = NRRTOT" using RR(3) by simp
    then show ?thesis using RR unlinked_eq(1) [OF sh RR(1)] cent_shape_rr [of c ?sl] slots_rr_body [of ?sl c] by auto
  qed
  then have sl: "slots (unlinked c) = map (map_option unlinked_set) (slots c)" and sh': "cent_shape (unlinked c)"
    by simp_all
  show "length (slots (unlinked c)) = length (slots c)" using sl by simp
  show "ce_qname (unlinked c) = ce_qname c" "ce_flags (unlinked c) = ce_flags c" "ce_ns (unlinked c) = ce_ns c"
    "ce_soa (unlinked c) = ce_soa c" "ce_num (unlinked c) = ce_num c" "ce_cs (unlinked c) = ce_cs c"
    by (simp_all add: unlinked_def)
  then show "cent_wf (unlinked c)" using assms sh' sl
    by (simp add: cent_wf_def cent_size_def slots_map_unlinked)
  show s: "slot (unlinked c) i = map_option unlinked_set (slot c i)" for i by (simp add: slot_def sl)
  show "loose (unlinked c)"
  proof (cases "neg c")
    case True
    then show ?thesis using sh by (elim cent_shapeE) (simp_all add: loose_def unlinked_def)
  next
    case False
    then have n: "\<not> neg (unlinked c)" by (simp add: unlinked_def)
    show ?thesis
    proof (rule looseI [OF sh' n])
      fix i rs assume "slot (unlinked c) i = Some rs"
      then show "rs_lent rs = None" using s [of i] by (cases "slot c i") auto
    qed
  qed
qed

lemma copy_rrs_spec:
  "\<exists>ok ds' \<sigma>'. copy_rrs ds \<sigma> = (ok, ds', \<sigma>') \<and> frame \<sigma> \<sigma>' \<and> rrl \<sigma>' = rrl \<sigma> \<and> (ok \<longrightarrow> ds' = ds) \<and>
     (no_fail \<sigma> \<longrightarrow> ok \<and> no_fail \<sigma>')"
proof (induction ds arbitrary: \<sigma>)
  case Nil
  show ?case by (intro exI [of _ True] exI [of _ "[]"] exI [of _ \<sigma>]) simp
next
  case (Cons d ds)
  obtain ok \<sigma>1 where m: "malloc \<sigma> = (ok, \<sigma>1)" by (cases "malloc \<sigma>")
  obtain ok' ds' \<sigma>2 where c: "copy_rrs ds \<sigma>1 = (ok', ds', \<sigma>2)" by (cases "copy_rrs ds \<sigma>1")
  have "frame \<sigma>1 \<sigma>2 \<and> rrl \<sigma>2 = rrl \<sigma>1 \<and> (ok' \<longrightarrow> ds' = ds) \<and> (no_fail \<sigma>1 \<longrightarrow> ok' \<and> no_fail \<sigma>2)"
    using Cons.IH [of \<sigma>1] c by auto
  then show ?case using malloc_spec [OF m] m c frame_trans [of \<sigma> \<sigma>1 \<sigma>2]
    by (cases ok) (auto simp: Let_def)
qed

lemma copy_rrset_spec:
  "\<exists>r \<sigma>'. copy_rrset rs \<sigma> = Some (r, \<sigma>') \<and> frame \<sigma> \<sigma>' \<and> rrl \<sigma>' = rrl \<sigma> \<and> r \<in> {None, Some (unlinked_set rs)} \<and>
     (no_fail \<sigma> \<longrightarrow> r \<noteq> None \<and> no_fail \<sigma>')"
proof -
  obtain ok \<sigma>1 where m: "malloc \<sigma> = (ok, \<sigma>1)" by (cases "malloc \<sigma>")
  obtain ok' ds' \<sigma>2 where c: "copy_rrs (rs_rrs rs) \<sigma>1 = (ok', ds', \<sigma>2)" "frame \<sigma>1 \<sigma>2" "rrl \<sigma>2 = rrl \<sigma>1"
    "ok' \<longrightarrow> ds' = rs_rrs rs" "no_fail \<sigma>1 \<longrightarrow> ok' \<and> no_fail \<sigma>2"
    using copy_rrs_spec [of "rs_rrs rs" \<sigma>1] by (elim exE conjE) (rule that)
  show ?thesis using malloc_spec [OF m] m c frame_trans [of \<sigma> \<sigma>1 \<sigma>2]
    by (cases ok; cases ok') (simp_all add: copy_rrset_def Let_def del_rrset_def unlink_def)
qed

lemma bind_unlinked [simp]: "Option.bind (map_option unlinked_set r) rs_lent = None"
  by (cases r) simp_all

lemma slots_of_body:
  "ce_body c = rr_body sl \<Longrightarrow> length sl = NRRMU \<or> length sl = NRRTOT \<Longrightarrow> slots c = sl"
  by (auto simp: slots_def rr_body_def)

lemma shape_of_body:
  "ce_body c = rr_body sl \<Longrightarrow> length sl = NRRMU \<or> length sl = NRRTOT \<Longrightarrow> \<not> neg c \<Longrightarrow> cent_shape c"
  by (auto simp: cent_shape_def rr_body_def)

text \<open>The partial copies that \<open>copy_slots\<close> leaves.\<close>

definition copying :: "dns_cent \<Rightarrow> nat \<Rightarrow> dns_cent \<Rightarrow> bool" where
  "copying c k cp = (ce_body cp = rr_body (map (map_option unlinked_set) (take k (slots c)) @ replicate (length (slots c) - k) None) \<and>
     \<not> neg cp)"

lemma copying_upd:
  assumes "cent_shape c" "\<not> neg c" "copying c k cp" "k < length (slots c)"
  shows "set_rrarr cp k v = Some (cp\<lparr> ce_body := rr_body (map (map_option unlinked_set) (take k (slots c)) @ v # replicate (length (slots c) - Suc k) None) \<rparr>)"
proof -
  let ?sl = "map (map_option unlinked_set) (take k (slots c)) @ replicate (length (slots c) - k) None"
  have len: "length (slots c) = NRRMU \<or> length (slots c) = NRRTOT" using body_rr [OF assms(1,2)] by simp
  have l: "length ?sl = length (slots c)" using assms(4) by simp
  have b: "ce_body cp = rr_body ?sl" "\<not> neg cp" using assms(3) by (simp_all add: copying_def)
  have sl: "slots cp = ?sl" by (rule slots_of_body [OF b(1)]) (use l len in simp)
  have "cent_shape cp" by (rule shape_of_body [OF b(1) _ b(2)]) (use l len in simp)
  then have "set_rrarr cp k v = Some (cp\<lparr> ce_body := rr_body (?sl[k := v]) \<rparr>)"
    using set_rrarr_eq [of cp k v] l assms(4) sl by simp
  moreover have "replicate (length (slots c) - k) (None :: rr_set option) = None # replicate (length (slots c) - Suc k) None"
    using assms(4) by (metis Suc_diff_Suc replicate_Suc)
  ultimately show ?thesis using assms(4) by (simp add: list_update_append)
qed

lemma copying_id:
  assumes "cent_shape c" "\<not> neg c" "copying c k cp" "k < length (slots c)"
  shows "cp\<lparr> ce_body := rr_body (map (map_option unlinked_set) (take k (slots c)) @ None # replicate (length (slots c) - Suc k) None) \<rparr> = cp"
proof -
  have "replicate (length (slots c) - k) (None :: rr_set option) = None # replicate (length (slots c) - Suc k) None"
    using assms(4) by (metis Suc_diff_Suc replicate_Suc)
  then show ?thesis using assms(3) by (cases cp) (simp add: copying_def)
qed

lemma copying_loose:
  assumes "cent_shape c" "\<not> neg c" "\<not> neg cp" "length sl = length (slots c)" "\<forall>r \<in> set sl. Option.bind r rs_lent = None" "ce_body cp = rr_body sl"
  shows "cent_shape cp \<and> loose cp"
proof -
  have len: "length (slots c) = NRRMU \<or> length (slots c) = NRRTOT" using body_rr [OF assms(1,2)] by simp
  have sl: "slots cp = sl" by (rule slots_of_body [OF assms(6)]) (use assms(4) len in simp)
  have "cent_shape cp" by (rule shape_of_body [OF assms(6) _ assms(3)]) (use assms(4) len in simp)
  moreover have "loose cp" using assms(5,6) unfolding loose_def sl by (simp add: rr_body_def)
  ultimately show ?thesis ..
qed

lemma copy_slots_spec:
  assumes "cent_shape c" "\<not> neg c" "copying c k cp" "k \<le> length (slots c)"
  shows "\<exists>ok cp' \<sigma>'. copy_slots [k..<length (slots c)] c cp \<sigma> = Some (ok, cp', \<sigma>') \<and> frame \<sigma> \<sigma>' \<and> rrl \<sigma>' = rrl \<sigma> \<and>
    (ok \<longrightarrow> cp' = cp\<lparr> ce_body := rr_body (map (map_option unlinked_set) (slots c)) \<rparr>) \<and> cent_shape cp' \<and> loose cp' \<and>
    (no_fail \<sigma> \<longrightarrow> ok \<and> no_fail \<sigma>')"
  using assms(3,4)
proof (induction "length (slots c) - k" arbitrary: k cp \<sigma>)
  case 0
  then have "cp = cp\<lparr> ce_body := rr_body (map (map_option unlinked_set) (slots c)) \<rparr>"
    by (cases cp) (simp add: copying_def)
  moreover have "cent_shape cp \<and> loose cp"
    using 0 by (intro copying_loose [OF assms(1,2), of _ "map (map_option unlinked_set) (slots c)"])
      (auto simp: copying_def)
  ultimately show ?case using 0 by (intro exI [of _ True] exI [of _ cp] exI [of _ \<sigma>]) simp
next
  case (Suc n)
  then have k: "k < length (slots c)" by simp
  have up: "[k..<length (slots c)] = k # [Suc k..<length (slots c)]" using k by (rule upt_conv_Cons)
  have ri: "RRARR_INDEX c k = Some (slot c k)" by (rule RRARR_INDEX_eq [OF assms(1) k])
  note upd = copying_upd [OF assms(1,2) Suc.prems(1) k]
  have step: "copying c (Suc k) (cp\<lparr> ce_body := rr_body (map (map_option unlinked_set) (take k (slots c)) @
      map_option unlinked_set (slot c k) # replicate (length (slots c) - Suc k) None) \<rparr>)"
    using Suc.prems(1) k by (simp add: copying_def take_Suc_conv_app_nth slot_def)
  have IH: "\<exists>ok cp2 \<sigma>'. copy_slots [Suc k..<length (slots c)] c cp' \<sigma>1 = Some (ok, cp2, \<sigma>') \<and> frame \<sigma>1 \<sigma>' \<and> rrl \<sigma>' = rrl \<sigma>1 \<and>
    (ok \<longrightarrow> cp2 = cp'\<lparr> ce_body := rr_body (map (map_option unlinked_set) (slots c)) \<rparr>) \<and> cent_shape cp2 \<and> loose cp2 \<and>
    (no_fail \<sigma>1 \<longrightarrow> ok \<and> no_fail \<sigma>')" if "copying c (Suc k) cp'" for cp' \<sigma>1
    by (rule Suc.hyps(1)) (use that k Suc.hyps(2) in auto)
  show ?case
  proof (cases "slot c k")
    case None
    have "copying c (Suc k) cp" using step None copying_id [OF assms(1,2) Suc.prems(1) k] by simp
    from IH [OF this, of \<sigma>] show ?thesis using up ri None by simp
  next
    case (Some rs)
    obtain ok \<sigma>1 where m: "malloc \<sigma> = (ok, \<sigma>1)" by (cases "malloc \<sigma>")
    obtain ok' ds' \<sigma>2 where cr: "copy_rrs (rs_rrs rs) \<sigma>1 = (ok', ds', \<sigma>2)" "frame \<sigma>1 \<sigma>2" "rrl \<sigma>2 = rrl \<sigma>1"
      "ok' \<longrightarrow> ds' = rs_rrs rs" "no_fail \<sigma>1 \<longrightarrow> ok' \<and> no_fail \<sigma>2"
      using copy_rrs_spec [of "rs_rrs rs" \<sigma>1] by (elim exE conjE) (rule that)
    let ?cp = "\<lambda>v. cp\<lparr> ce_body := rr_body (map (map_option unlinked_set) (take k (slots c)) @ v # replicate (length (slots c) - Suc k) None) \<rparr>"
    have lo: "cent_shape (?cp v) \<and> loose (?cp v)" if "Option.bind v rs_lent = None" for v
      by (rule copying_loose [OF assms(1,2), of _ "map (map_option unlinked_set) (take k (slots c)) @ v # replicate (length (slots c) - Suc k) None"])
        (use Suc.prems(1) that k in \<open>auto simp: copying_def\<close>)
    consider "\<not> ok" | "ok" "\<not> ok'" | "ok" "ok'" by blast
    then show ?thesis
    proof cases
      case 1
      then have "copy_slots [k..<length (slots c)] c cp \<sigma> = Some (False, ?cp None, \<sigma>1)"
        using up ri Some m upd by simp
      then show ?thesis using malloc_spec [OF m] 1 lo [of None]
        by (intro exI [of _ False] exI [of _ "?cp None"] exI [of _ \<sigma>1]) simp
    next
      case 2
      then have "copy_slots [k..<length (slots c)] c cp \<sigma> = Some (False, ?cp (Some (rs\<lparr> rs_lent := None, rs_rrs := ds' \<rparr>)), \<sigma>2)"
        using up ri Some m upd cr(1) by simp
      then show ?thesis using malloc_spec [OF m] cr(2,3,5) 2 lo frame_trans [of \<sigma> \<sigma>1 \<sigma>2]
        by (intro exI [of _ False] exI [of _ "?cp (Some (rs\<lparr> rs_lent := None, rs_rrs := ds' \<rparr>))"] exI [of _ \<sigma>2]) simp
    next
      case 3
      then have ds: "rs\<lparr> rs_lent := None, rs_rrs := ds' \<rparr> = unlinked_set rs" using cr(4) by simp
      have "copy_slots [k..<length (slots c)] c cp \<sigma> = copy_slots [Suc k..<length (slots c)] c (?cp (Some (unlinked_set rs))) \<sigma>2"
        using 3 up ri Some m upd cr(1) ds by simp
      moreover have "copying c (Suc k) (?cp (Some (unlinked_set rs)))" using step Some by simp
      from IH [OF this, of \<sigma>2] obtain ok3 cp2 \<sigma>' where
        "copy_slots [Suc k..<length (slots c)] c (?cp (Some (unlinked_set rs))) \<sigma>2 = Some (ok3, cp2, \<sigma>')" "frame \<sigma>2 \<sigma>'" "rrl \<sigma>' = rrl \<sigma>2"
        "ok3 \<longrightarrow> cp2 = cp\<lparr> ce_body := rr_body (map (map_option unlinked_set) (slots c)) \<rparr>" "cent_shape cp2 \<and> loose cp2"
        "no_fail \<sigma>2 \<longrightarrow> ok3 \<and> no_fail \<sigma>'" by auto
      moreover have "frame \<sigma> \<sigma>'" using malloc_spec [OF m] frame_trans cr(2) \<open>frame \<sigma>2 \<sigma>'\<close> by metis
      ultimately show ?thesis using malloc_spec [OF m] cr 3 by simp
    qed
  qed
qed

lemma copy_cent_spec:
  assumes "cent_wf c"
  shows "\<exists>r \<sigma>'. copy_cent c \<sigma> = Some (r, \<sigma>') \<and> frame \<sigma> \<sigma>' \<and> rrl \<sigma>' = rrl \<sigma> \<and> r \<in> {None, Some (unlinked c)} \<and>
    (no_fail \<sigma> \<longrightarrow> r \<noteq> None \<and> no_fail \<sigma>')"
proof -
  have sh: "cent_shape c" and len: "rhnlen (ce_qname c) = Some (length (ce_qname c))"
    using assms rhnlen_valid by (auto simp: cent_wf_def)
  obtain ok \<sigma>1 where m1: "malloc \<sigma> = (ok, \<sigma>1)" by (cases "malloc \<sigma>")
  obtain ok1 \<sigma>2 where m2: "malloc \<sigma>1 = (ok1, \<sigma>2)" by (cases "malloc \<sigma>1")
  note s1 = malloc_spec [OF m1] and s2 = malloc_spec [OF m2]
  have f2: "frame \<sigma> \<sigma>2" "rrl \<sigma>2 = rrl \<sigma>" "ok \<and> ok1 \<and> no_fail \<sigma>2" if "no_fail \<sigma>"
    using s1 s2 frame_trans [of \<sigma> \<sigma>1 \<sigma>2] that by auto
  have f2': "frame \<sigma> \<sigma>2" "rrl \<sigma>2 = rrl \<sigma>" using s1 s2 frame_trans [of \<sigma> \<sigma>1 \<sigma>2] by auto
  consider "\<not> (ok \<and> ok1)" | "ok" "ok1" "neg c" | "ok" "ok1" "\<not> neg c" by blast
  then show ?thesis
  proof cases
    case 1
    then show ?thesis using m1 m2 s1 f2' f2 len by (cases ok) (auto simp: copy_cent_def)
  next
    case 2
    then obtain le ttl ts where b: "ce_body c = NegBody le ttl ts" using sh by (auto elim: cent_shapeE)
    have "copy_cent c \<sigma> = Some (Some (unlinked c), \<sigma>2)"
      using 2 m1 m2 len b unlinked_eq(2) [OF sh b] by (simp add: copy_cent_def)
    then show ?thesis using f2 f2' by simp
  next
    case 3
    note bl = body_rr [OF sh 3(3)]
    define e where "e = (if length (slots c) = NRRMU then None else Some (drop NRRMU (slots c)))"
    have b: "ce_body c = RRBody (take NRRMU (slots c)) e" using bl by (simp add: rr_body_def e_def)
    obtain ok2 \<sigma>3 where m3: "(if e = None then (True, \<sigma>2) else malloc \<sigma>2) = (ok2, \<sigma>3)" by fastforce
    have s3: "frame \<sigma>2 \<sigma>3 \<and> rrl \<sigma>3 = rrl \<sigma>2 \<and> (no_fail \<sigma>2 \<longrightarrow> ok2 \<and> no_fail \<sigma>3)"
      using m3 malloc_spec [of \<sigma>2 ok2 \<sigma>3] by (auto split: if_splits)
    have f3: "frame \<sigma> \<sigma>3" "rrl \<sigma>3 = rrl \<sigma>" using s3 f2' frame_trans [of \<sigma> \<sigma>2 \<sigma>3] by auto
    let ?cp = "c\<lparr> ce_body := RRBody (replicate NRRMU None) None \<rparr>"
    let ?cp1 = "if e = None then ?cp else c\<lparr> ce_body := RRBody (replicate NRRMU None) (Some (replicate NRREXT None)) \<rparr>"
    show ?thesis
    proof (cases ok2)
      case False
      have "cent_shape ?cp \<and> loose ?cp" using 3(3) by (simp add: cent_shape_def loose_def slots_def)
      then have "copy_cent c \<sigma> = Some (None, \<sigma>3)"
        using False 3 m1 m2 len m3 free_cent_loose [of ?cp \<sigma>3] by (simp add: copy_cent_def b Let_def del: replicate.simps)
      then show ?thesis using f3 s3 f2 False by auto
    next
      case True
      have l: "(if e = None then NRRMU else NRRTOT) = length (slots c)" using bl by (auto simp: e_def)
      have r47: "replicate NRRTOT (None :: rr_set option) = replicate NRRMU None @ replicate NRREXT None"
        by (simp only: replicate_add [symmetric]) simp
      have rb: "rr_body (replicate (length (slots c)) None) = (if e = None then RRBody (replicate NRRMU None) None
          else RRBody (replicate NRRMU None) (Some (replicate NRREXT None)))"
        using bl by (auto simp: e_def rr_body_def r47 simp del: replicate.simps)
      then have "copying c 0 ?cp1" using 3(3) by (auto simp: copying_def simp del: replicate.simps)
      from copy_slots_spec [OF sh 3(3) this, of \<sigma>3] obtain ok3 cp2 \<sigma>4 where
        4: "copy_slots [0..<length (slots c)] c ?cp1 \<sigma>3 = Some (ok3, cp2, \<sigma>4)" "frame \<sigma>3 \<sigma>4" "rrl \<sigma>4 = rrl \<sigma>3"
        "ok3 \<longrightarrow> cp2 = ?cp1\<lparr> ce_body := rr_body (map (map_option unlinked_set) (slots c)) \<rparr>"
        "cent_shape cp2" "loose cp2" "no_fail \<sigma>3 \<longrightarrow> ok3 \<and> no_fail \<sigma>4" by auto
      have cp2: "cp2 = unlinked c" if ok3
        using 4(4) that unlinked_eq(1) [OF sh 3(3)] by (cases "e = None") simp_all
      have f4: "frame \<sigma> \<sigma>4" "rrl \<sigma>4 = rrl \<sigma>" using frame_trans [OF f3(1) 4(2)] 4(3) f3(2) by auto
      have "copy_cent c \<sigma> = Some (if ok3 then Some (unlinked c) else None, \<sigma>4)"
      proof (cases e)
        case None
        then show ?thesis using True 3 m1 m2 len m3 l 4(1) cp2 free_cent_loose [OF 4(5,6)]
          by (simp add: copy_cent_def b Let_def del: replicate.simps)
      next
        case (Some x)
        then show ?thesis using True 3 m1 m2 len m3 l 4(1) cp2 free_cent_loose [OF 4(5,6)]
          by (simp add: copy_cent_def b Let_def del: replicate.simps)
      qed
      then show ?thesis using f4 4(7) s3 f2 by auto
    qed
  qed
qed

subsection \<open>Adding records\<close>

text \<open>The RR set a record is added to: the one at the index, or a new one.\<close>

definition with_rr :: "rr_set \<Rightarrow> nat \<Rightarrow> byte list \<Rightarrow> rr_set" where
  "with_rr rs p d = rs\<lparr> rs_rrs := take p (rs_rrs rs) @ d # drop p (rs_rrs rs) \<rparr>"

lemma rrset_size_with_rr [simp]: "rrset_size (with_rr rs p d) = rrset_size rs + sz_bucket + int (length d)"
proof -
  have "rrs_size (take p ds @ drop p ds) = rrs_size ds" for ds by simp
  then have "rrs_size (take p ds) + rrs_size (drop p ds) = rrs_size ds" for ds
    by (simp add: rrs_size_def del: append_take_drop_id)
  then show ?thesis by (simp add: with_rr_def rrset_size_def rrs_size_def)
qed

lemma with_rr_simps [simp]: "rs_lent (with_rr rs p d) = rs_lent rs" "rs_ttl (with_rr rs p d) = rs_ttl rs"
  "rs_ts (with_rr rs p d) = rs_ts rs" "rs_flags (with_rr rs p d) = rs_flags rs"
  by (simp_all add: with_rr_def)

text \<open>Replacing the RR set of an occupied slot.\<close>

definition set_slot :: "dns_cent \<Rightarrow> nat \<Rightarrow> rr_set \<Rightarrow> dns_cent" where
  "set_slot c i rs = c\<lparr> ce_body := rr_body ((slots c)[i := Some rs]),
     ce_cs := ce_cs c + rrset_size rs - slot_size (slot c i) \<rparr>"

lemma set_slot_props:
  assumes "cent_wf c" "slot c i = Some old"
  shows "cent_wf (set_slot c i rs)" "slot (set_slot c i rs) j = (if j = i then Some rs else slot c j)"
    "ce_qname (set_slot c i rs) = ce_qname c" "ce_ns (set_slot c i rs) = ce_ns c" "ce_soa (set_slot c i rs) = ce_soa c"
    "ce_flags (set_slot c i rs) = ce_flags c" "ce_num (set_slot c i rs) = ce_num c"
    "length (slots (set_slot c i rs)) = length (slots c)"
    "ce_cs (set_slot c i rs) = ce_cs c + rrset_size rs - rrset_size old"
proof -
  have sh: "cent_shape c" using assms(1) by (simp add: cent_wf_def)
  have n: "\<not> neg c" using slot_Some_rr [OF sh assms(2)] by simp
  have i: "i < length (slots c)" "slots c ! i = Some old" using slot_SomeD [OF assms(2)] by simp_all
  note b = body_rr [OF sh n]
  let ?sl = "(slots c)[i := Some rs]"
  have bd: "ce_body (set_slot c i rs) = rr_body ?sl" by (simp add: set_slot_def)
  have len: "length ?sl = NRRMU \<or> length ?sl = NRRTOT" using b by simp
  have sl: "slots (set_slot c i rs) = ?sl" by (rule slots_of_body [OF bd len])
  then show "length (slots (set_slot c i rs)) = length (slots c)" by simp
  show "slot (set_slot c i rs) j = (if j = i then Some rs else slot c j)" using i by (simp add: slot_def sl)
  show "ce_qname (set_slot c i rs) = ce_qname c" "ce_ns (set_slot c i rs) = ce_ns c" "ce_soa (set_slot c i rs) = ce_soa c"
    "ce_flags (set_slot c i rs) = ce_flags c" "ce_num (set_slot c i rs) = ce_num c"
    by (simp_all add: set_slot_def)
  show "ce_cs (set_slot c i rs) = ce_cs c + rrset_size rs - rrset_size old" by (simp add: set_slot_def assms(2))
  have "cent_shape (set_slot c i rs)" by (rule shape_of_body [OF bd len]) (simp add: set_slot_def n)
  then show "cent_wf (set_slot c i rs)" using assms i sl
    by (simp add: cent_wf_def cent_size_def slots_size_update slots_num_update set_slot_def)
qed

lemma set_slot_items:
  assumes "cent_wf c" "slot c i = Some old" "rs_lent rs = rs_lent old"
  shows "cent_items a (set_slot c i rs) = cent_items a c"
proof -
  have sh: "cent_shape c" "cent_shape (set_slot c i rs)"
    using assms(1) set_slot_props(1) [OF assms(1,2)] by (simp_all add: cent_wf_def)
  have n: "\<not> neg c" "\<not> neg (set_slot c i rs)" using slot_Some_rr [OF sh(1) assms(2)] by (simp_all add: set_slot_def)
  have "Option.bind (slot (set_slot c i rs) j) rs_lent = Option.bind (slot c j) rs_lent" for j
    using set_slot_props(2) [OF assms(1,2)] assms(2,3) by simp
  then show ?thesis using cent_items_rr [OF sh(1) n(1)] cent_items_rr [OF sh(2) n(2)] by simp
qed

lemma set_rrarr_slot:
  assumes "cent_wf c" "slot c i = Some old" "rrset_size rs = rrset_size old"
  shows "set_rrarr c i (Some rs) = Some (set_slot c i rs)"
proof -
  have sh: "cent_shape c" using assms(1) by (simp add: cent_wf_def)
  show ?thesis using set_rrarr_eq [OF sh, of i "Some rs"] slot_SomeD [OF assms(2)] assms(2,3)
    by (simp add: set_slot_def)
qed

text \<open>The outcome of adding a record at position \<open>p\<close> of the set \<open>rs\<close>.\<close>

definition add_rr_res :: "nat \<Rightarrow> item set \<Rightarrow> dns_cent \<Rightarrow> nat \<Rightarrow> rr_set \<Rightarrow> cache \<Rightarrow> bool \<Rightarrow> dns_cent \<Rightarrow> cache \<Rightarrow> bool" where
  "add_rr_res a R c i rs \<sigma> ok c' \<sigma>' = (cent_wf c' \<and> held a c' R \<sigma>' \<and> frame \<sigma> \<sigma>' \<and>
     (\<forall>j. slot c' j = (if ok \<and> j = i then Some rs else slot c j)) \<and> (ok \<longrightarrow> \<not> neg c') \<and> (neg c' \<longrightarrow> c' = c) \<and>
     ce_qname c' = ce_qname c \<and> ce_ns c' = ce_ns c \<and> ce_soa c' = ce_soa c \<and>
     ce_flags c' \<in> {ce_flags c, ce_flags (pos_cent c)} \<and> (no_fail \<sigma> \<longrightarrow> ok \<and> no_fail \<sigma>'))"

lemma add_cent_rr_int_old:
  assumes "cent_wf c" "held a c R \<sigma>" "slot c i = Some rs" "i < NRRTOT"
    "q = (case rtail of None \<Rightarrow> 0 | Some p \<Rightarrow> p + 1)" "q \<le> length (rs_rrs rs)"
  shows "\<exists>ok tl c' \<sigma>'. add_cent_rr_int c i ttl ts fl d rtail \<sigma> = Some (ok, tl, c', \<sigma>') \<and>
    add_rr_res a R c i (with_rr rs q d) \<sigma> ok c' \<sigma>' \<and> (ok \<longrightarrow> tl = Some q)"
proof -
  have sh: "cent_shape c" using assms(1) by (simp add: cent_wf_def)
  have i: "i < length (slots c)" using slot_SomeD [OF assms(3)] by simp
  have n: "\<not> neg c" using slot_Some_rr [OF sh assms(3)] by simp
  obtain ok \<sigma>1 where m: "malloc \<sigma> = (ok, \<sigma>1)" by (cases "malloc \<sigma>")
  have h1: "held a c R \<sigma>1" using held_frame [OF assms(2)] malloc_spec [OF m] by blast
  have t: "RRARR_INDEX_TESTEXT c i = Some (Some rs)" using RRARR_TEST_eq [OF sh assms(4)] assms(3) by simp
  have r: "RRARR_INDEX c i = Some (Some rs)" using RRARR_INDEX_eq [OF sh i] assms(3) by simp
  let ?c = "set_slot c i (with_rr rs q d)"
  have st: "c\<lparr> ce_body := rr_body ((slots c)[i := Some (with_rr rs q d)]), ce_cs := ce_cs c + (sz_bucket + int (length d)) \<rparr> = ?c"
    by (simp add: set_slot_def assms(3))
  note p = set_slot_props [OF assms(1,3), of "with_rr rs q d"]
  have run: "add_cent_rr_int c i ttl ts fl d rtail \<sigma> =
      Some (ok, if ok then Some q else rtail, if ok then ?c else c, \<sigma>1)"
    using m t r assms(5,6) set_rrarr_eq [OF sh i] st unfolding with_rr_def [symmetric]
    by (cases ok; cases rtail) (simp_all add: add_cent_rr_int_def Let_def flip: with_rr_def)
  have "held a ?c R \<sigma>1" using held_items [OF h1 set_slot_items [OF assms(1,3)]] by simp
  then have "add_rr_res a R c i (with_rr rs q d) \<sigma> ok (if ok then ?c else c) \<sigma>1"
    using p malloc_spec [OF m] h1 assms(1) n by (simp add: add_rr_res_def)
  then show ?thesis using run by (cases ok) auto
qed

lemma add_cent_rr_int_new:
  assumes "cent_wf c" "held a c R \<sigma>" "slot c i = None" "i < NRRTOT"
  shows "\<exists>ok tl c' \<sigma>'. add_cent_rr_int c i ttl ts fl d None \<sigma> = Some (ok, tl, c', \<sigma>') \<and>
    add_rr_res a R c i \<lparr> rs_lent = None, rs_ttl = ttl, rs_ts = ts, rs_flags = fl, rs_rrs = [d] \<rparr> \<sigma> ok c' \<sigma>'"
proof -
  have sh: "cent_shape c" using assms(1) by (simp add: cent_wf_def)
  let ?e = "\<lparr> rs_lent = None, rs_ttl = ttl, rs_ts = ts, rs_flags = fl, rs_rrs = [] \<rparr>"
  let ?rs = "\<lparr> rs_lent = None, rs_ttl = ttl, rs_ts = ts, rs_flags = fl, rs_rrs = [d] \<rparr>"
  obtain ok \<sigma>1 where m: "malloc \<sigma> = (ok, \<sigma>1)" by (cases "malloc \<sigma>")
  note ms = malloc_spec [OF m]
  have h1: "held a c R \<sigma>1" using held_frame [OF assms(2)] ms by blast
  have t: "RRARR_INDEX_TESTEXT c i = Some None" using RRARR_TEST_eq [OF sh assms(4)] assms(3) by simp
  obtain ok1 c1 \<sigma>2 where 1: "add_cent_rrset_by_index c i ttl ts fl \<sigma>1 = Some (ok1, c1, \<sigma>2)"
    "add_set_res a R c i ?e \<sigma>1 ok1 c1 \<sigma>2" using add_cent_rrset_spec [OF assms(1) h1 assms(4,3)] by blast
  note r = 1(2) [unfolded add_set_res_def]
  have fr: "frame \<sigma> \<sigma>2" using ms frame_trans r by blast
  consider "\<not> ok" | "ok" "\<not> ok1" | "ok" "ok1" by blast
  then show ?thesis
  proof cases
    case 1
    then have "add_cent_rr_int c i ttl ts fl d None \<sigma> = Some (False, None, c, \<sigma>1)"
      using m by (simp add: add_cent_rr_int_def)
    moreover have "add_rr_res a R c i ?rs \<sigma> False c \<sigma>1" using assms(1) h1 ms 1 by (simp add: add_rr_res_def)
    ultimately show ?thesis by blast
  next
    case 2
    then have "add_cent_rr_int c i ttl ts fl d None \<sigma> = Some (False, None, c1, \<sigma>2)"
      using m t 1(1) by (simp add: add_cent_rr_int_def)
    moreover have "\<not> neg c1" using r by blast
    then have "add_rr_res a R c i ?rs \<sigma> False c1 \<sigma>2" using r ms 2 fr unfolding add_rr_res_def by simp
    ultimately show ?thesis by blast
  next
    case 3
    have n1: "\<not> neg c1" using r by blast
    have wf1: "cent_wf c1" and s1: "slot c1 i = Some ?e" and i1: "i < length (slots c1)" using r 3 by simp_all
    have sh1: "cent_shape c1" using wf1 by (simp add: cent_wf_def)
    have ri: "RRARR_INDEX c1 i = Some (Some ?e)" using RRARR_INDEX_eq [OF sh1 i1] s1 by simp
    let ?c = "set_slot c1 i ?rs"
    have "rrset_size ?rs = rrset_size ?e + sz_bucket + int (length d)" by (simp add: rrset_size_def rrs_size_def)
    then have st: "c1\<lparr> ce_body := rr_body ((slots c1)[i := Some ?rs]), ce_cs := ce_cs c1 + (sz_bucket + int (length d)) \<rparr> = ?c"
      by (simp add: set_slot_def s1)
    note p = set_slot_props [OF wf1 s1, of ?rs]
    have run: "add_cent_rr_int c i ttl ts fl d None \<sigma> = Some (True, Some 0, ?c, \<sigma>2)"
      using m t 1(1) 3 ri set_rrarr_eq [OF sh1 i1] st by (simp add: add_cent_rr_int_def)
    have "held a ?c R \<sigma>2"
      by (rule held_items [OF _ set_slot_items [OF wf1 s1]]) (use r in simp_all)
    moreover have "\<not> neg ?c" using p(6) n1 by simp
    ultimately have "add_rr_res a R c i ?rs \<sigma> True ?c \<sigma>2"
      unfolding add_rr_res_def using p r ms fr 3 by auto
    then show ?thesis using run by blast
  qed
qed

text \<open>The RR set that \<open>add_cent_rr\<close> leaves under the index: the record is appended unless it is
  there already, and the smaller time to live is kept.\<close>

definition merged_set :: "rr_set option \<Rightarrow> int \<Rightarrow> int \<Rightarrow> u16 \<Rightarrow> byte list \<Rightarrow> rr_set" where
  "merged_set r ttl ts fl d = (case r of
     None \<Rightarrow> \<lparr> rs_lent = None, rs_ttl = ttl, rs_ts = ts, rs_flags = fl, rs_rrs = [d] \<rparr>
   | Some rs \<Rightarrow> rs\<lparr> rs_ttl := min ttl (rs_ttl rs),
       rs_rrs := if d \<in> set (rs_rrs rs) then rs_rrs rs else rs_rrs rs @ [d] \<rparr>)"

definition add_cent_rr_res :: "nat \<Rightarrow> item set \<Rightarrow> dns_cent \<Rightarrow> nat \<Rightarrow> rr_set \<Rightarrow> cache \<Rightarrow> bool \<Rightarrow> dns_cent \<Rightarrow> cache \<Rightarrow> bool" where
  "add_cent_rr_res a R c i rs \<sigma> ok c' \<sigma>' = (cent_wf c' \<and> held a c' R \<sigma>' \<and> frame \<sigma> \<sigma>' \<and>
     (\<forall>j. j \<noteq> i \<longrightarrow> slot c' j = slot c j) \<and> (ok \<longrightarrow> slot c' i = Some rs) \<and>
     (\<forall>r'. slot c' i = Some r' \<longrightarrow> rs_lent r' = Option.bind (slot c i) rs_lent) \<and>
     ce_qname c' = ce_qname c \<and> ce_ns c' = ce_ns c \<and> ce_soa c' = ce_soa c \<and>
     ce_flags c' \<in> {ce_flags c, ce_flags (pos_cent c)} \<and> (ok \<longrightarrow> \<not> neg c') \<and> (neg c' \<longrightarrow> c' = c) \<and> (no_fail \<sigma> \<longrightarrow> ok \<and> no_fail \<sigma>'))"

lemma add_cent_rr_spec:
  assumes "cent_wf c" "held a c R \<sigma>" "\<not> (has (ce_flags c) DF_LOCAL \<and> \<not> has fl CF_LOCAL)"
    "0 \<le> tp - T_MIN" "tp - T_MIN < int T_NUM" "rrlkup tp = Some i" "i < NRRTOT"
  shows "\<exists>ok c' \<sigma>'. add_cent_rr c tp ttl ts fl d \<sigma> = Some (ok, c', \<sigma>') \<and>
    add_cent_rr_res a R c i (merged_set (slot c i) ttl ts fl d) \<sigma> ok c' \<sigma>'"
proof -
  have sh: "cent_shape c" using assms(1) by (simp add: cent_wf_def)
  have t: "RRARR_INDEX_TESTEXT c i = Some (slot c i)" by (rule RRARR_TEST_eq [OF sh assms(7)])
  show ?thesis
  proof (cases "slot c i")
    case None
    obtain ok tl c' \<sigma>' where r: "add_cent_rr_int c i ttl ts fl d None \<sigma> = Some (ok, tl, c', \<sigma>')"
      "add_rr_res a R c i (merged_set (slot c i) ttl ts fl d) \<sigma> ok c' \<sigma>'"
      using add_cent_rr_int_new [OF assms(1,2) None assms(7), of ttl ts fl d]
      by (elim exE conjE) (rule that, simp_all add: merged_set_def None)
    have "add_cent_rr c tp ttl ts fl d \<sigma> = Some (ok, c', \<sigma>')"
      using assms(3-7) t None r(1) by (auto simp: add_cent_rr_def)
    moreover have "add_cent_rr_res a R c i (merged_set (slot c i) ttl ts fl d) \<sigma> ok c' \<sigma>'"
      using r(2) by (simp add: add_rr_res_def add_cent_rr_res_def merged_set_def None)
    ultimately show ?thesis by blast
  next
    case (Some rs)
    let ?rs = "rs\<lparr> rs_ttl := min ttl (rs_ttl rs) \<rparr>"
    have sz: "rrset_size ?rs = rrset_size rs" by (simp add: rrset_size_def)
    define c1 where "c1 = set_slot c i ?rs"
    have n: "\<not> neg c" using slot_Some_rr [OF sh Some] by simp
    note p = set_slot_props [OF assms(1) Some, of ?rs, folded c1_def]
    have h1: "held a c1 R \<sigma>" unfolding c1_def by (rule held_items [OF assms(2) set_slot_items [OF assms(1) Some]]) simp
    have "(slots c)[i := Some rs] = slots c" using slot_SomeD [OF Some] by (metis list_update_id)
    then have eq: "set_slot c i rs = c" using Some body_rr [OF sh n] by (cases c) (simp add: set_slot_def)
    have c1: "(if ttl < rs_ttl rs then set_rrarr c i (Some (rs\<lparr> rs_ttl := ttl \<rparr>)) else Some c) = Some c1"
    proof (cases "ttl < rs_ttl rs")
      case True
      then have "rs\<lparr> rs_ttl := ttl \<rparr> = ?rs" by simp
      then show ?thesis using True set_rrarr_slot [OF assms(1) Some sz] by (simp add: c1_def)
    next
      case False
      then have "?rs = rs" by simp
      then show ?thesis using False eq by (simp add: c1_def)
    qed
    show ?thesis
    proof (cases "d \<in> set (rs_rrs rs)")
      case True
      then have m: "merged_set (slot c i) ttl ts fl d = ?rs" by (simp add: merged_set_def Some)
      have "add_cent_rr c tp ttl ts fl d \<sigma> = Some (True, c1, \<sigma>)"
        using assms(3-7) t Some c1 True by (auto simp: add_cent_rr_def)
      moreover have "add_cent_rr_res a R c i ?rs \<sigma> True c1 \<sigma>"
        using p h1 n by (simp add: add_cent_rr_res_def Some)
      ultimately show ?thesis unfolding m by blast
    next
      case False
      let ?tl = "if rs_rrs rs = [] then None else Some (length (rs_rrs rs) - 1)"
      have q: "length (rs_rrs rs) = (case ?tl of None \<Rightarrow> 0 | Some p \<Rightarrow> p + 1)" by (cases "rs_rrs rs") simp_all
      have s1: "slot c1 i = Some ?rs" using p(2) by simp
      have q': "length (rs_rrs rs) \<le> length (rs_rrs ?rs)" by simp
      obtain ok tl c' \<sigma>' where r: "add_cent_rr_int c1 i ttl ts fl d ?tl \<sigma> = Some (ok, tl, c', \<sigma>')"
        "add_rr_res a R c1 i (with_rr ?rs (length (rs_rrs rs)) d) \<sigma> ok c' \<sigma>'"
        using add_cent_rr_int_old [OF p(1) h1 s1 assms(7) q q', of ttl ts fl d]
        by (elim exE conjE) (rule that, simp_all)
      have m: "merged_set (slot c i) ttl ts fl d = with_rr ?rs (length (rs_rrs rs)) d"
        using False by (simp add: merged_set_def with_rr_def Some)
      have "add_cent_rr c tp ttl ts fl d \<sigma> = Some (ok, c', \<sigma>')"
        using assms(3-7) t Some c1 False r(1) by (auto simp: add_cent_rr_def Let_def)
      moreover have "add_cent_rr_res a R c i (with_rr ?rs (length (rs_rrs rs)) d) \<sigma> ok c' \<sigma>'"
        using r(2) p n unfolding add_rr_res_def add_cent_rr_res_def by (auto simp: Some pos_cent_def)
      ultimately show ?thesis unfolding m by blast
    qed
  qed
qed

end
