(* ===== verification/Pd_CacheInv.thy ===== *)
theory Pd_CacheInv
  imports Pd_Cache Pd_CentSpec
begin

text \<open>
  The invariant of the cache and what the basic operations do to it: the table and the store hold
  the same entries, every entry is well formed, the list holds exactly the linked RR sets and
  negative entries, and the size and the number of entries are those of the store.
\<close>

subsection \<open>The invariant\<close>

abbreviation (input) tabm :: "cache \<Rightarrow> key \<rightharpoonup> nat" where
  "tabm \<sigma> \<equiv> tab_map (qn \<sigma>) (buckets \<sigma>)"

definition items :: "(nat \<rightharpoonup> dns_cent) \<Rightarrow> item set" where
  "items m = {it. \<exists>b c. m b = Some c \<and> it \<in> cent_items b c}"

definition total :: "nat set \<Rightarrow> (nat \<rightharpoonup> dns_cent) \<Rightarrow> int" where
  "total X m = (\<Sum>b \<in> dom m - X. ce_cs (the (m b)))"

text \<open>Every RR set that may be purged is in the list.\<close>

definition linked :: "dns_cent \<Rightarrow> bool" where
  "linked c = (has (ce_flags c) DF_LOCAL \<or>
     (case ce_body c of NegBody le _ _ \<Rightarrow> le \<noteq> None
      | RRBody _ _ \<Rightarrow> \<forall>i rs. slot c i = Some rs \<longrightarrow> has (rs_flags rs) CF_LOCAL \<or> rs_lent rs \<noteq> None))"

definition entries_ok :: "nat set \<Rightarrow> cache \<Rightarrow> bool" where
  "entries_ok X \<sigma> = (\<forall>a c. cents \<sigma> a = Some c \<longrightarrow> cent_wf c \<and> a < next_id \<sigma> \<and> (a \<notin> X \<longrightarrow> linked c))"

text \<open>\<open>A\<close> are the entries in the table, \<open>X\<close> those that are not counted, being under construction.\<close>

definition cinv :: "nat set \<Rightarrow> nat set \<Rightarrow> cache \<Rightarrow> bool" where
  "cinv A X \<sigma> = (entries_ok X \<sigma> \<and> finite (dom (cents \<sigma>)) \<and>
     rrl_ok (items (cents \<sigma>)) (rrl \<sigma>) (next_id \<sigma>) \<and>
     wf_table (qn \<sigma>) (buckets \<sigma>) \<and> ran (tabm \<sigma>) = A \<and> A \<subseteq> dom (cents \<sigma>) \<and>
     cache_size \<sigma> = total X (cents \<sigma>) \<and> ent_num \<sigma> = int (card A))"

definition cache_inv :: "cache \<Rightarrow> bool" where
  "cache_inv \<sigma> = cinv (dom (cents \<sigma>)) {} \<sigma>"

lemma cinvD:
  assumes "cinv A X \<sigma>"
  shows "entries_ok X \<sigma>" "finite (dom (cents \<sigma>))" "rrl_ok (items (cents \<sigma>)) (rrl \<sigma>) (next_id \<sigma>)"
    "wf_table (qn \<sigma>) (buckets \<sigma>)" "ran (tabm \<sigma>) = A" "A \<subseteq> dom (cents \<sigma>)"
    "cache_size \<sigma> = total X (cents \<sigma>)" "ent_num \<sigma> = int (card A)"
  using assms by (simp_all add: cinv_def)

lemma cinv_ent:
  assumes "cinv A X \<sigma>" "cents \<sigma> a = Some c"
  shows "cent_wf c" "cent_shape c" "valid_name (ce_qname c)" "a < next_id \<sigma>" "a \<notin> X \<Longrightarrow> linked c"
  using assms by (auto simp: cinv_def entries_ok_def cent_wf_def)

lemma cinv_mem: "cinv A X \<sigma> \<Longrightarrow> a \<in> A \<Longrightarrow> \<exists>c. cents \<sigma> a = Some c"
  by (auto simp: cinv_def)

definition rest :: "nat \<Rightarrow> (nat \<rightharpoonup> dns_cent) \<Rightarrow> item set" where
  "rest a m = {it. \<exists>b c. b \<noteq> a \<and> m b = Some c \<and> it \<in> cent_items b c}"

lemma items_rest: "m a = Some c \<Longrightarrow> items m = cent_items a c \<union> rest a m"
  unfolding items_def rest_def by (rule set_eqI) (simp, metis option.inject)

lemma items_upd: "items (m(a \<mapsto> c)) = cent_items a c \<union> rest a m"
  by (auto simp: items_def rest_def split: if_splits)

lemma items_del: "items (m(a := None)) = rest a m"
  by (auto simp: items_def rest_def split: if_splits)

lemma rest_fresh: "m a = None \<Longrightarrow> rest a m = items m"
  unfolding items_def rest_def by (rule set_eqI) (simp, metis option.distinct(1))

lemma rest_upd [simp]: "rest a (m(a := v)) = rest a m"
  by (auto simp: rest_def)

lemma rest_addr: "x \<in> rest a m \<Longrightarrow> fst (snd x) \<noteq> a"
  by (auto simp: rest_def dest: cent_items_addr)

lemma cinv_held: "cinv A X \<sigma> \<Longrightarrow> cents \<sigma> a = Some c \<Longrightarrow> held a c (rest a (cents \<sigma>)) \<sigma>"
  by (auto simp: cinv_def held_def items_rest dest: rest_addr)

lemma held_fresh:
  assumes "cinv A X \<sigma>" "cents \<sigma> a = None" "loose c"
  shows "held a c (rest a (cents \<sigma>)) \<sigma>"
  using assms by (auto simp: cinv_def held_def loose_items rest_fresh dest: rest_addr [where a = a])
    (auto simp: items_def dest: cent_items_addr)

lemma qn_upd: "cents \<sigma> a = Some c \<Longrightarrow> ce_qname c' = ce_qname c \<Longrightarrow> cents \<sigma>' = (cents \<sigma>)(a \<mapsto> c') \<Longrightarrow> qn \<sigma>' = qn \<sigma>"
  by (auto simp: qn_def fun_eq_iff)

lemma total_remove:
  assumes "finite (dom m)" "m a = Some c" "a \<notin> X"
  shows "total X m = ce_cs c + (\<Sum>b \<in> dom m - X - {a}. ce_cs (the (m b)))"
proof -
  have "finite (dom m - X)" "a \<in> dom m - X" using assms by auto
  from sum.remove [OF this, of "\<lambda>b. ce_cs (the (m b))"] show ?thesis using assms(2) by (simp add: total_def)
qed

lemma total_upd:
  assumes "finite (dom m)" "m a = Some c"
  shows "total X (m(a \<mapsto> c')) = total X m + (if a \<in> X then 0 else ce_cs c' - ce_cs c)"
proof (cases "a \<in> X")
  case True
  then have "dom (m(a \<mapsto> c')) - X = dom m - X" "\<And>b. b \<in> dom m - X \<Longrightarrow> (m(a \<mapsto> c')) b = m b" by auto
  then show ?thesis using True unfolding total_def by simp
next
  case False
  have s: "(\<Sum>b \<in> dom (m(a \<mapsto> c')) - X - {a}. ce_cs (the ((m(a \<mapsto> c')) b))) = (\<Sum>b \<in> dom m - X - {a}. ce_cs (the (m b)))"
    by (rule sum.cong) auto
  have "finite (dom (m(a \<mapsto> c')))" using assms(1) by simp
  from total_remove [OF this _ False, of c'] total_remove [OF assms False] show ?thesis using s False by simp
qed

lemma total_del:
  assumes "finite (dom m)" "m a = Some c"
  shows "total X (m(a := None)) = total X m - (if a \<in> X then 0 else ce_cs c)"
proof (cases "a \<in> X")
  case True
  then have "dom (m(a := None)) - X = dom m - X" "\<And>b. b \<in> dom m - X \<Longrightarrow> (m(a := None)) b = m b" by auto
  then show ?thesis using True unfolding total_def by simp
next
  case False
  have "total X (m(a := None)) = (\<Sum>b \<in> dom m - X - {a}. ce_cs (the (m b)))"
    unfolding total_def by (rule sum.cong) auto
  then show ?thesis using total_remove [OF assms False] False by simp
qed

lemma total_cong: "dom m - X = dom m' - X \<Longrightarrow> (\<And>b. b \<notin> X \<Longrightarrow> m b = m' b) \<Longrightarrow> total X m = total X m'"
  by (auto simp: total_def intro!: sum.cong)

text \<open>An entry is changed.\<close>

lemma cinv_change:
  assumes "cinv A X \<sigma>" "cents \<sigma> a = Some c" "frame \<sigma> \<sigma>'" "held a c' (rest a (cents \<sigma>)) \<sigma>'" "cent_wf c'"
    "ce_qname c' = ce_qname c" "a \<notin> X \<Longrightarrow> linked c'" "d = (if a \<in> X then 0 else ce_cs c' - ce_cs c)"
  shows "cinv A X (put a c' (\<sigma>'\<lparr> cache_size := cache_size \<sigma> + d \<rparr>))"
    (is "cinv A X ?s")
proof -
  note f = frameD [OF assms(3)]
  have ce: "cents ?s = (cents \<sigma>)(a \<mapsto> c')" by (simp add: put_def f)
  have q: "qn ?s = qn \<sigma>" by (rule qn_upd [OF assms(2,6) ce])
  have b: "buckets ?s = buckets \<sigma>" by (simp add: put_def f)
  note I = assms(1) [unfolded cinv_def]
  have "entries_ok X ?s"
    using I assms(5,7) cinv_ent(4) [OF assms(1,2)] by (auto simp: entries_ok_def put_def f)
  moreover have "dom (cents ?s) = dom (cents \<sigma>)" using assms(2) ce by auto
  moreover have "rrl_ok (items (cents ?s)) (rrl ?s) (next_id ?s)"
    using assms(4) unfolding ce items_upd held_def by (simp add: put_def)
  moreover have "cache_size ?s = total X (cents ?s)"
    using I assms(2,8) unfolding ce by (simp add: put_def total_upd)
  moreover have "ent_num ?s = ent_num \<sigma>" by (simp add: put_def f)
  ultimately show ?thesis using I unfolding cinv_def q b by simp
qed

lemma cinv_frame: "cinv A X \<sigma> \<Longrightarrow> frame \<sigma> \<sigma>' \<Longrightarrow> rrl \<sigma>' = rrl \<sigma> \<Longrightarrow> cinv A X \<sigma>'"
proof -
  assume a: "cinv A X \<sigma>" "frame \<sigma> \<sigma>'" "rrl \<sigma>' = rrl \<sigma>"
  have "qn \<sigma>' = qn \<sigma>" using frameD(1) [OF a(2)] by (simp add: qn_def fun_eq_iff)
  then show "cinv A X \<sigma>'" using a by (simp add: cinv_def entries_ok_def frameD [OF a(2)])
qed

subsection \<open>Looking up\<close>

lemma tabm_entry:
  assumes "cinv A X \<sigma>" "tabm \<sigma> k = Some a"
  shows "a \<in> A \<and> (\<exists>c. cents \<sigma> a = Some c \<and> valid_name (ce_qname c) \<and> key_of (ce_qname c) = k)"
proof -
  have "wf_table (qn \<sigma>) (buckets \<sigma>)" "ran (tabm \<sigma>) = A" using assms(1) by (simp_all add: cinv_def)
  moreover from this obtain nm where "qn \<sigma> a = Some nm" "valid_name nm" "key_of nm = k"
    using ht.view_valid [OF _ assms(2)] by blast
  moreover have "a \<in> ran (tabm \<sigma>)" using assms(2) unfolding ran_def by blast
  ultimately show ?thesis by (auto simp: qn_def)
qed

lemma tabm_of_entry:
  assumes "cinv A X \<sigma>" "a \<in> A" "cents \<sigma> a = Some c"
  shows "tabm \<sigma> (key_of (ce_qname c)) = Some a"
proof -
  obtain k where k: "tabm \<sigma> k = Some a" using cinvD(5) [OF assms(1)] assms(2) by (auto simp: ran_def)
  then show ?thesis using tabm_entry [OF assms(1) k] assms(3) by auto
qed

lemma dns_lookup_eq:
  "cinv A X \<sigma> \<Longrightarrow> valid_name nm \<Longrightarrow> \<exists>loc. dns_lookup (qn \<sigma>) (buckets \<sigma>) nm = Some (tabm \<sigma> (key_of nm), loc)"
  by (rule ht.look_view) (simp_all add: cinv_def)

lemma lookup_eq: "cinv A X \<sigma> \<Longrightarrow> valid_name nm \<Longrightarrow> lookup \<sigma> nm = Some (tabm \<sigma> (key_of nm))"
  using dns_lookup_eq by (fastforce simp: lookup_def)

subsection \<open>Deleting entries\<close>

text \<open>An entry leaves the store; it has left the table already, \<open>t\<close>, if it was there.\<close>

definition gone :: "nat set \<Rightarrow> nat set \<Rightarrow> nat \<Rightarrow> cache \<Rightarrow> cache \<Rightarrow> bool" where
  "gone A X a \<sigma> \<sigma>' = (cinv (A - {a}) X \<sigma>' \<and> cents \<sigma>' = (cents \<sigma>)(a := None) \<and>
     next_id \<sigma>' = next_id \<sigma> \<and> insert_sort \<sigma>' = insert_sort \<sigma> \<and> mallocs \<sigma>' = mallocs \<sigma> \<and>
     shrinks (rrl \<sigma>) (rrl \<sigma>'))"

lemma tab_frame_del:
  assumes "wf_table q t" "a \<notin> ran (tab_map q t)"
  shows "wf_table (q(a := v)) t" "tab_map (q(a := v)) t = tab_map q t"
proof -
  have "\<And>b. b \<in> ran (tab_map q t) \<Longrightarrow> (q(a := v)) b = q b" using assms(2) by auto
  from ht.frame [OF assms(1) this] show "wf_table (q(a := v)) t" "tab_map (q(a := v)) t = tab_map q t" by blast+
qed

lemma ran_upd_None: "m k = Some a \<Longrightarrow> (\<And>k'. k' \<noteq> k \<Longrightarrow> m k' \<noteq> Some a) \<Longrightarrow> ran (m(k := None)) = ran m - {a}"
proof (rule set_eqI)
  fix x
  assume a: "m k = Some a" "\<And>k'. k' \<noteq> k \<Longrightarrow> m k' \<noteq> Some a"
  have "(\<exists>j. (m(k := None)) j = Some x) = (\<exists>j. m j = Some x \<and> x \<noteq> a)"
    using a by (metis fun_upd_other fun_upd_same option.distinct(1) option.inject)
  then show "(x \<in> ran (m(k := None))) = (x \<in> ran m - {a})" by (simp add: ran_def)
qed

lemma del_cent_spec:
  assumes "cinv A X \<sigma>" "cents \<sigma> a = Some c" "a \<in> A" "a \<notin> X"
    "wf_table (qn \<sigma>) t" "tab_map (qn \<sigma>) t = (tabm \<sigma>)(key_of (ce_qname c) := None)"
  shows "\<exists>\<sigma>'. del_cent a (\<sigma>\<lparr> buckets := t \<rparr>) = Some \<sigma>' \<and> gone A X a \<sigma> \<sigma>' \<and>
    tabm \<sigma>' = (tabm \<sigma>)(key_of (ce_qname c) := None)"
proof -
  let ?k = "key_of (ce_qname c)"
  note I = assms(1) [unfolded cinv_def]
  have sh: "cent_shape c" by (rule cinv_ent [OF assms(1,2)])
  let ?s = "\<sigma>\<lparr> buckets := t, cache_size := cache_size \<sigma> - ce_cs c \<rparr>"
  have "held a c (rest a (cents \<sigma>)) ?s" using cinv_held [OF assms(1,2)] by (simp add: held_def)
  from free_cent_spec [OF sh this] obtain \<sigma>1 where s1: "free_cent c ?s = Some \<sigma>1"
    "rrl_ok (rest a (cents \<sigma>)) (rrl \<sigma>1) (next_id \<sigma>1)" "frame ?s \<sigma>1" "mallocs \<sigma>1 = mallocs ?s" by (elim exE conjE) (rule that)
  note f = frameD [OF s1(3), simplified]
  have sk: "shrinks (rrl \<sigma>) (rrl \<sigma>1)" using frame_shrinks [OF s1(3)] by simp
  let ?f = "\<sigma>1\<lparr> cents := (cents \<sigma>1)(a := None), ent_num := ent_num \<sigma>1 - 1 \<rparr>"
  have run: "del_cent a (\<sigma>\<lparr> buckets := t \<rparr>) = Some ?f"
    using s1(1) assms(2) by (simp add: del_cent_def)
  have ka: "tabm \<sigma> ?k = Some a" by (rule tabm_of_entry [OF assms(1,3,2)])
  have ran: "ran (tab_map (qn \<sigma>) t) = A - {a}"
  proof -
    have "tabm \<sigma> k \<noteq> Some a" if "k \<noteq> ?k" for k
      using that ht.view_inj [of "qn \<sigma>" "buckets \<sigma>"] ka I by blast
    then have "ran ((tabm \<sigma>)(?k := None)) = ran (tabm \<sigma>) - {a}"
      using ran_upd_None [of "tabm \<sigma>" ?k a] ka by blast
    then show ?thesis using I assms(6) by simp
  qed
  have q: "qn ?f = (qn \<sigma>)(a := None)" by (auto simp: qn_def f fun_eq_iff)
  have tf: "wf_table (qn ?f) t" "tab_map (qn ?f) t = tab_map (qn \<sigma>) t"
    unfolding q using tab_frame_del [OF assms(5)] ran by auto
  have "cinv (A - {a}) X ?f"
    unfolding cinv_def
  proof (intro conjI)
    show "entries_ok X ?f" using I by (simp add: entries_ok_def f)
    show "finite (dom (cents ?f))" using I by (simp add: f)
    show "rrl_ok (items (cents ?f)) (rrl ?f) (next_id ?f)" using s1(2) by (simp add: f items_del)
    show "wf_table (qn ?f) (buckets ?f)" using tf f by simp
    show "ran (tabm ?f) = A - {a}" using tf f ran by simp
    show "A - {a} \<subseteq> dom (cents ?f)" using I by (auto simp: f)
    show "cache_size ?f = total X (cents ?f)" using I assms(2,4) by (simp add: f total_del)
    have "finite A" using I finite_subset by blast
    then show "ent_num ?f = int (card (A - {a}))" using I card.remove [OF _ assms(3)] by (simp add: f)
  qed
  moreover have "tabm ?f = (tabm \<sigma>)(?k := None)" using tf(2) assms(6) f by simp
  ultimately show ?thesis using run s1(4) sk by (intro exI [of _ ?f]) (simp add: gone_def f)
qed

lemma del_cache_ent_spec:
  assumes "cinv A X \<sigma>" "cents \<sigma> a = Some c" "a \<in> A" "a \<notin> X"
    "\<And>l. loc = Some l \<Longrightarrow> dns_lookup (qn \<sigma>) (buckets \<sigma>) nm = Some (Some a, l) \<and> valid_name nm"
  shows "\<exists>\<sigma>'. del_cache_ent a loc \<sigma> = Some \<sigma>' \<and> gone A X a \<sigma> \<sigma>' \<and>
    tabm \<sigma>' = (tabm \<sigma>)(key_of (ce_qname c) := None)"
proof -
  note I = assms(1) [unfolded cinv_def]
  have v: "valid_name (ce_qname c)" by (rule cinv_ent [OF assms(1,2)])
  have wf: "wf_table (qn \<sigma>) (buckets \<sigma>)" using I by simp
  have ka: "tabm \<sigma> (key_of (ce_qname c)) = Some a" by (rule tabm_of_entry [OF assms(1,3,2)])
  show ?thesis
  proof (cases loc)
    case None
    obtain t where t: "del_dns_hash (qn \<sigma>) (buckets \<sigma>) (ce_qname c) = Some (Some a, t)" "wf_table (qn \<sigma>) t"
      "tab_map (qn \<sigma>) t = (tabm \<sigma>)(key_of (ce_qname c) := None)"
      using ht.del_view [OF wf v] ka by auto
    have "qn \<sigma> a = Some (ce_qname c)" using assms(2) by (simp add: qn_def)
    then have "del_cache_ent a loc \<sigma> = del_cent a (\<sigma>\<lparr> buckets := t \<rparr>)" using None t(1) by (simp add: del_cache_ent_def)
    then show ?thesis using del_cent_spec [OF assms(1-4) t(2,3)] by simp
  next
    case (Some l)
    note l = assms(5) [OF Some]
    have "tabm \<sigma> (key_of nm) = Some a" using ht.look_view [OF wf] l by fastforce
    then have k: "key_of nm = key_of (ce_qname c)" by (rule ht.view_inj [OF wf _ ka])
    obtain t where t: "del_dns_hash_ent (buckets \<sigma>) l = Some (a, t)" "wf_table (qn \<sigma>) t"
      "tab_map (qn \<sigma>) t = (tabm \<sigma>)(key_of (ce_qname c) := None)"
      using ht.del_at_view [OF wf _ l [THEN conjunct1]] l k by auto
    have "del_cache_ent a loc \<sigma> = del_cent a (\<sigma>\<lparr> buckets := t \<rparr>)" using Some t(1) by (simp add: del_cache_ent_def)
    then show ?thesis using del_cent_spec [OF assms(1-4) t(2,3)] by simp
  qed
qed

lemma del_cache_spec:
  assumes "cache_inv \<sigma>" "valid_name nm"
  shows "\<exists>\<sigma>'. del_cache nm \<sigma> = Some \<sigma>' \<and> cache_inv \<sigma>' \<and> tabm \<sigma>' = (tabm \<sigma>)(key_of nm := None) \<and>
    cents \<sigma>' = (case tabm \<sigma> (key_of nm) of None \<Rightarrow> cents \<sigma> | Some a \<Rightarrow> (cents \<sigma>)(a := None))"
proof -
  let ?A = "dom (cents \<sigma>)"
  have I: "cinv ?A {} \<sigma>" using assms(1) by (simp add: cache_inv_def)
  have wf: "wf_table (qn \<sigma>) (buckets \<sigma>)" using I by (simp add: cinv_def)
  obtain t where t: "del_dns_hash (qn \<sigma>) (buckets \<sigma>) nm = Some (tabm \<sigma> (key_of nm), t)" "wf_table (qn \<sigma>) t"
      "tab_map (qn \<sigma>) t = (tabm \<sigma>)(key_of nm := None)"
    using ht.del_view [OF wf assms(2)] by blast
  show ?thesis
  proof (cases "tabm \<sigma> (key_of nm)")
    case None
    then have "tab_map (qn \<sigma>) t = tabm \<sigma>" using t(3) by (simp add: fun_upd_idem)
    moreover have "qn (\<sigma>\<lparr> buckets := t \<rparr>) = qn \<sigma>" by (simp add: qn_def fun_eq_iff)
    ultimately have "cache_inv (\<sigma>\<lparr> buckets := t \<rparr>)" using I t(2)
      by (simp add: cinv_def cache_inv_def entries_ok_def)
    then show ?thesis using None t \<open>qn (\<sigma>\<lparr> buckets := t \<rparr>) = qn \<sigma>\<close> by (simp add: del_cache_def)
  next
    case (Some a)
    obtain c where c: "a \<in> ?A" "cents \<sigma> a = Some c" "key_of (ce_qname c) = key_of nm"
      using tabm_entry [OF I Some] by blast
    have "tab_map (qn \<sigma>) t = (tabm \<sigma>)(key_of (ce_qname c) := None)" using t(3) c(3) by simp
    from del_cent_spec [OF I c(2,1) _ t(2) this] obtain \<sigma>' where
      "del_cent a (\<sigma>\<lparr> buckets := t \<rparr>) = Some \<sigma>'" "gone ?A {} a \<sigma> \<sigma>'" "tabm \<sigma>' = (tabm \<sigma>)(key_of (ce_qname c) := None)"
      by auto
    moreover from this have "cache_inv \<sigma>'" by (auto simp: gone_def cache_inv_def)
    ultimately show ?thesis using Some t(1) c(3) by (simp add: del_cache_def gone_def)
  qed
qed

end
