(* ===== verification/Pd_Purge.thy ===== *)
theory Pd_Purge
  imports Pd_CacheInv
begin

text \<open>
  Purging: \<open>purge_rrset\<close>, \<open>purge_all_rrsets\<close> and \<open>purge_cent\<close> on one entry, in the test mode that runs
  under the read lock and in the mode that changes the cache, and \<open>purge_cache\<close>, which keeps the
  size of the cache within its bound.
\<close>

subsection \<open>One entry changes\<close>

definition changed :: "nat set \<Rightarrow> nat set \<Rightarrow> nat \<Rightarrow> dns_cent \<Rightarrow> cache \<Rightarrow> cache \<Rightarrow> bool" where
  "changed A X a c' \<sigma> \<sigma>' = (cinv A X \<sigma>' \<and> cents \<sigma>' = (cents \<sigma>)(a \<mapsto> c') \<and> buckets \<sigma>' = buckets \<sigma> \<and>
     qn \<sigma>' = qn \<sigma> \<and> insert_sort \<sigma>' = insert_sort \<sigma> \<and> next_id \<sigma>' = next_id \<sigma> \<and> mallocs \<sigma>' = mallocs \<sigma> \<and>
     shrinks (rrl \<sigma>) (rrl \<sigma>'))"

lemma changed_refl: "cinv A X \<sigma> \<Longrightarrow> cents \<sigma> a = Some c \<Longrightarrow> changed A X a c \<sigma> \<sigma>"
  by (simp add: changed_def fun_upd_idem)

lemma changed_trans: "changed A X a c1 \<sigma> \<sigma>1 \<Longrightarrow> changed A X a c2 \<sigma>1 \<sigma>2 \<Longrightarrow> changed A X a c2 \<sigma> \<sigma>2"
  unfolding changed_def using shrinks_trans by auto

lemma linked_slots:
  assumes "linked c" "cent_shape c" "cent_shape c'" "neg c' = neg c" "has (ce_flags c') DF_LOCAL = has (ce_flags c) DF_LOCAL"
    "neg c \<Longrightarrow> ce_body c' = ce_body c"
    "\<And>i rs. slot c' i = Some rs \<Longrightarrow> \<exists>rs0. slot c i = Some rs0 \<and> rs_lent rs = rs_lent rs0 \<and>
       (has (rs_flags rs0) CF_LOCAL \<longrightarrow> has (rs_flags rs) CF_LOCAL)"
  shows "linked c'"
proof (cases "neg c")
  case True
  then show ?thesis using assms(1,2,5,6) by (auto simp: linked_def cent_shape_def split: cent_body.splits)
next
  case False
  obtain mu ext mu' ext' where b: "ce_body c = RRBody mu ext" "ce_body c' = RRBody mu' ext'"
    using body_rr [OF assms(2) False] body_rr [OF assms(3)] False assms(4) by (auto simp: rr_body_def)
  show ?thesis
  proof (cases "has (ce_flags c) DF_LOCAL")
    case True
    then show ?thesis using assms(5) by (simp add: linked_def)
  next
    case F: False
    have "has (rs_flags rs) CF_LOCAL \<or> rs_lent rs \<noteq> None" if x: "slot c' i = Some rs" for i rs
    proof -
      obtain rs0 where r: "slot c i = Some rs0" "rs_lent rs = rs_lent rs0"
        "has (rs_flags rs0) CF_LOCAL \<longrightarrow> has (rs_flags rs) CF_LOCAL" using assms(7) [OF x] by blast
      have "has (rs_flags rs0) CF_LOCAL \<or> rs_lent rs0 \<noteq> None" using assms(1) F b(1) r(1) by (auto simp: linked_def)
      then show ?thesis using r by auto
    qed
    then show ?thesis using b by (simp add: linked_def)
  qed
qed

lemma del_slot_linked: "cent_wf c \<Longrightarrow> linked c \<Longrightarrow> linked (del_slot c i)"
proof -
  assume a: "cent_wf c" "linked c"
  note p = del_slot_props [OF a(1), of i]
  have f: "has (ce_flags (del_slot c i)) DF_NEGATIVE = neg c" "has (ce_flags (del_slot c i)) DF_LOCAL = has (ce_flags c) DF_LOCAL"
    using p(5) by simp_all
  show "linked (del_slot c i)"
  proof (rule linked_slots [OF a(2)])
    show "cent_shape c" "cent_shape (del_slot c i)" using a(1) p(1) by (simp_all add: cent_wf_def)
    show "ce_body (del_slot c i) = ce_body c" if "neg c"
      using slot_Some_rr [of c i] that a(1) by (cases "slot c i") (auto simp: del_slot_def cent_wf_def)
    show "\<exists>rs0. slot c j = Some rs0 \<and> rs_lent rs = rs_lent rs0 \<and> (has (rs_flags rs0) CF_LOCAL \<longrightarrow> has (rs_flags rs) CF_LOCAL)"
      if "slot (del_slot c i) j = Some rs" for j rs using that p(3) by (auto split: if_splits)
  qed (use f in simp_all)
qed

lemma del_slot_cs: "ce_cs (del_slot c i) = ce_cs c - slot_size (slot c i)"
  by (simp add: del_slot_def slot_size_def split: option.split)

lemma changedI:
  assumes "cinv A X \<sigma>" "cents \<sigma> a = Some c" "frame \<sigma> \<sigma>'" "mallocs \<sigma>' = mallocs \<sigma>" "held a c' (rest a (cents \<sigma>)) \<sigma>'"
    "cent_wf c'" "ce_qname c' = ce_qname c" "a \<notin> X \<Longrightarrow> linked c'" "d = (if a \<in> X then 0 else ce_cs c' - ce_cs c)"
  shows "changed A X a c' \<sigma> (put a c' (\<sigma>'\<lparr> cache_size := cache_size \<sigma> + d \<rparr>))"
proof -
  have "cinv A X (put a c' (\<sigma>'\<lparr> cache_size := cache_size \<sigma> + d \<rparr>))"
    by (rule cinv_change [OF assms(1-3,5-9)])
  moreover have ce: "cents (put a c' (\<sigma>'\<lparr> cache_size := cache_size \<sigma> + d \<rparr>)) = (cents \<sigma>)(a \<mapsto> c')"
    by (simp add: put_def frameD [OF assms(3)])
  moreover have "qn (put a c' (\<sigma>'\<lparr> cache_size := cache_size \<sigma> + d \<rparr>)) = qn \<sigma>"
    by (rule qn_upd [OF assms(2,7) ce])
  ultimately show ?thesis using assms(4) frameD [OF assms(3)] frame_shrinks [OF assms(3)] by (simp add: changed_def put_def)
qed

text \<open>A change of the entry only.\<close>

lemma changed_put:
  assumes "cinv A X \<sigma>" "cents \<sigma> a = Some c" "cent_items a c' = cent_items a c"
    "cent_wf c'" "ce_qname c' = ce_qname c" "a \<notin> X \<Longrightarrow> linked c'" "ce_cs c' = ce_cs c"
  shows "changed A X a c' \<sigma> (put a c' \<sigma>)"
proof -
  have "held a c' (rest a (cents \<sigma>)) \<sigma>" by (rule held_items [OF cinv_held [OF assms(1,2)] assms(3)])
  from changedI [OF assms(1,2) frame_refl refl this assms(4-6), of 0] assms(7) show ?thesis by simp
qed

lemma del_cached_rrset_spec:
  assumes "cinv A X \<sigma>" "cents \<sigma> a = Some c" "a \<notin> X" "i < NRRTOT"
  shows "\<exists>\<sigma>'. del_cached_rrset a i \<sigma> = Some \<sigma>' \<and> changed A X a (del_slot c i) \<sigma> \<sigma>'"
proof -
  have wf: "cent_wf c" and lk: "linked c" using cinv_ent [OF assms(1,2)] assms(3) by simp_all
  obtain \<sigma>1 where d: "del_cent_rrset_by_index c i \<sigma> = Some (slot_size (slot c i), del_slot c i, \<sigma>1)"
    "held a (del_slot c i) (rest a (cents \<sigma>)) \<sigma>1" "frame \<sigma> \<sigma>1" "mallocs \<sigma>1 = mallocs \<sigma>"
    using del_cent_rrset_spec [OF wf cinv_held [OF assms(1,2)] assms(4)] by (elim exE conjE) (rule that)
  have "changed A X a (del_slot c i) \<sigma> (put a (del_slot c i) (\<sigma>1\<lparr> cache_size := cache_size \<sigma> + - slot_size (slot c i) \<rparr>))"
    using assms(3) del_slot_linked [OF wf lk]
    by (intro changedI [OF assms(1,2) d(3,4,2) del_slot_props(1) [OF wf] del_slot_props(4) [OF wf]])
      (simp_all add: del_slot_cs)
  then show ?thesis using d(1) assms(2) frameD [OF d(3)] by (simp add: del_cached_rrset_def)
qed

subsection \<open>Purging one entry\<close>

definition stale_at :: "int \<Rightarrow> dns_cent \<Rightarrow> nat \<Rightarrow> bool" where
  "stale_at now c i = (case slot c i of None \<Rightarrow> False | Some rs \<Rightarrow> stale_set now rs)"

lemma purge_rrset_spec:
  assumes "cinv A X \<sigma>" "cents \<sigma> a = Some c" "a \<notin> X" "i < NRRTOT"
  shows "purge_rrset now a i True \<sigma> = Some (stale_at now c i, \<sigma>)"
    "\<exists>\<sigma>'. purge_rrset now a i False \<sigma> = Some (stale_at now c i, \<sigma>') \<and>
       changed A X a (if stale_at now c i then del_slot c i else c) \<sigma> \<sigma>'"
proof -
  have t: "RRARR_INDEX_TESTEXT c i = Some (slot c i)" by (rule RRARR_TEST_eq [OF cinv_ent(2) [OF assms(1,2)] assms(4)])
  show "purge_rrset now a i True \<sigma> = Some (stale_at now c i, \<sigma>)"
    using assms(2) t by (cases "slot c i") (simp_all add: purge_rrset_def stale_at_def)
  show "\<exists>\<sigma>'. purge_rrset now a i False \<sigma> = Some (stale_at now c i, \<sigma>') \<and>
       changed A X a (if stale_at now c i then del_slot c i else c) \<sigma> \<sigma>'"
  proof (cases "stale_at now c i")
    case True
    obtain \<sigma>' where "del_cached_rrset a i \<sigma> = Some \<sigma>'" "changed A X a (del_slot c i) \<sigma> \<sigma>'"
      using del_cached_rrset_spec [OF assms] by blast
    then show ?thesis using True assms(2) t by (auto simp: purge_rrset_def stale_at_def split: option.splits)
  next
    case False
    then show ?thesis using assms(2) t changed_refl [OF assms(1,2)]
      by (auto simp: purge_rrset_def stale_at_def split: option.splits)
  qed
qed

fun purged :: "int \<Rightarrow> nat list \<Rightarrow> dns_cent \<Rightarrow> dns_cent" where
  "purged now [] c = c"
| "purged now (i # is) c = purged now is (if stale_at now c i then del_slot c i else c)"

lemma purged_props:
  assumes "cent_wf c"
  shows "cent_wf (purged now is c)" "length (slots (purged now is c)) = length (slots c)"
    "slot (purged now is c) j = (if j \<in> set is \<and> stale_at now c j then None else slot c j)"
    "ce_qname (purged now is c) = ce_qname c" "ce_ns (purged now is c) = ce_ns c" "ce_soa (purged now is c) = ce_soa c"
    "has (ce_flags (purged now is c)) DF_NEGATIVE = neg c"
    "has (ce_flags (purged now is c)) DF_LOCAL = has (ce_flags c) DF_LOCAL"
    "linked c \<Longrightarrow> linked (purged now is c)"
proof -
  have "cent_wf (purged now is c) \<and> length (slots (purged now is c)) = length (slots c) \<and>
    (\<forall>j. slot (purged now is c) j = (if j \<in> set is \<and> stale_at now c j then None else slot c j)) \<and>
    ce_qname (purged now is c) = ce_qname c \<and> ce_ns (purged now is c) = ce_ns c \<and> ce_soa (purged now is c) = ce_soa c \<and>
    has (ce_flags (purged now is c)) DF_NEGATIVE = neg c \<and>
    has (ce_flags (purged now is c)) DF_LOCAL = has (ce_flags c) DF_LOCAL \<and>
    (linked c \<longrightarrow> linked (purged now is c))"
    using assms
  proof (induction "is" arbitrary: c)
    case (Cons i "is")
    show ?case
    proof (cases "stale_at now c i")
      case True
      note p = del_slot_props [OF Cons.prems, of i]
      have s: "stale_at now (del_slot c i) j = (j \<noteq> i \<and> stale_at now c j)" for j
        using p(3) [of j] by (simp add: stale_at_def)
      show ?thesis using Cons.IH [OF p(1)] p True s del_slot_linked [OF Cons.prems, of i] by auto
    next
      case False
      then show ?thesis using Cons.IH [OF Cons.prems] by auto
    qed
  qed simp
  then show "cent_wf (purged now is c)" "length (slots (purged now is c)) = length (slots c)"
    "slot (purged now is c) j = (if j \<in> set is \<and> stale_at now c j then None else slot c j)"
    "ce_qname (purged now is c) = ce_qname c" "ce_ns (purged now is c) = ce_ns c" "ce_soa (purged now is c) = ce_soa c"
    "has (ce_flags (purged now is c)) DF_NEGATIVE = neg c"
    "has (ce_flags (purged now is c)) DF_LOCAL = has (ce_flags c) DF_LOCAL"
    "linked c \<Longrightarrow> linked (purged now is c)" by simp_all
qed

text \<open>What the loop counts.\<close>

definition fresh_at :: "int \<Rightarrow> dns_cent \<Rightarrow> nat \<Rightarrow> bool" where
  "fresh_at now c i = (slot c i \<noteq> None \<and> \<not> stale_at now c i)"

definition counts :: "int \<Rightarrow> dns_cent \<Rightarrow> nat list \<Rightarrow> int \<times> int \<times> int \<Rightarrow> int \<times> int \<times> int" where
  "counts now c is n = (case n of (rv, nrr, nxt) \<Rightarrow>
     (rv + int (length (filter (stale_at now c) is)), nrr + int (length (filter (fresh_at now c) is)),
      nxt + int (length (filter (\<lambda>i. fresh_at now c i \<and> i \<ge> NRRMU) is))))"

lemma counts_cong:
  assumes "\<And>i. i \<in> set is \<Longrightarrow> slot c' i = slot c i"
  shows "counts now c' is n = counts now c is n"
proof -
  have "filter (stale_at now c') is = filter (stale_at now c) is" "filter (fresh_at now c') is = filter (fresh_at now c) is"
    "filter (\<lambda>i. fresh_at now c' i \<and> i \<ge> NRRMU) is = filter (\<lambda>i. fresh_at now c i \<and> i \<ge> NRRMU) is"
    using assms by (auto intro!: filter_cong simp: stale_at_def fresh_at_def)
  then show ?thesis by (simp add: counts_def)
qed

lemma counts_Cons:
  "counts now c (i # is) (rv, nrr, nxt) =
     (case slot c i of None \<Rightarrow> counts now c is (rv, nrr, nxt)
      | Some rs \<Rightarrow> if stale_set now rs then counts now c is (rv + 1, nrr, nxt)
          else counts now c is (rv, nrr + 1, if i \<ge> NRRMU then nxt + 1 else nxt))"
  by (auto simp: counts_def stale_at_def fresh_at_def split: option.split)

lemma purge_loop_test:
  assumes "cents \<sigma> a = Some c" "cent_shape c" "\<forall>i \<in> set is. i < length (slots c)"
  shows "purge_loop now a True is n \<sigma> = Some (counts now c is n, \<sigma>)"
  using assms(3)
proof (induction "is" arbitrary: n)
  case Nil
  then show ?case by (cases n) (simp add: counts_def)
next
  case (Cons i "is")
  obtain rv nrr nxt where n: "n = (rv, nrr, nxt)" by (cases n) auto
  have r: "RRARR_INDEX c i = Some (slot c i)" using Cons.prems assms(2) by (intro RRARR_INDEX_eq) simp_all
  show ?case using Cons.IH Cons.prems assms(1) r unfolding n counts_Cons by (simp split: option.split)
qed

lemma purge_loop_real:
  assumes "cinv A X \<sigma>" "cents \<sigma> a = Some c" "a \<notin> X" "\<forall>i \<in> set is. i < length (slots c)" "distinct is"
  shows "\<exists>\<sigma>'. purge_loop now a False is n \<sigma> = Some (counts now c is n, \<sigma>') \<and> changed A X a (purged now is c) \<sigma> \<sigma>'"
  using assms(1,2,4,5)
proof (induction "is" arbitrary: n \<sigma> c)
  case Nil
  then show ?case using changed_refl by (cases n) (simp add: counts_def)
next
  case (Cons i "is")
  obtain rv nrr nxt where n: "n = (rv, nrr, nxt)" by (cases n) auto
  have wf: "cent_wf c" "cent_shape c" using cinv_ent [OF Cons.prems(1,2)] by simp_all
  have i: "i < length (slots c)" using Cons.prems(3) by simp
  have r: "RRARR_INDEX c i = Some (slot c i)" by (rule RRARR_INDEX_eq [OF wf(2) i])
  show ?case
  proof (cases "stale_at now c i")
    case True
    then obtain rs where rs: "slot c i = Some rs" "stale_set now rs" by (auto simp: stale_at_def split: option.splits)
    have "i < NRRTOT" using i slots_len_le [OF wf(2)] by simp
    then obtain \<sigma>1 where 1: "del_cached_rrset a i \<sigma> = Some \<sigma>1" "changed A X a (del_slot c i) \<sigma> \<sigma>1"
      using del_cached_rrset_spec [OF Cons.prems(1,2) assms(3)] by blast
    have c1: "cinv A X \<sigma>1" "cents \<sigma>1 a = Some (del_slot c i)" using 1(2) by (simp_all add: changed_def)
    have len: "\<forall>i' \<in> set is. i' < length (slots (del_slot c i))" using Cons.prems(3) del_slot_props(2) [OF wf(1)] by simp
    have d: "distinct is" using Cons.prems(4) by simp
    obtain \<sigma>2 where 2: "purge_loop now a False is (rv + 1, nrr, nxt) \<sigma>1 = Some (counts now (del_slot c i) is (rv + 1, nrr, nxt), \<sigma>2)"
      "changed A X a (purged now is (del_slot c i)) \<sigma>1 \<sigma>2" using Cons.IH [OF c1 len d] by blast
    have "counts now (del_slot c i) is (rv + 1, nrr, nxt) = counts now c is (rv + 1, nrr, nxt)"
      by (rule counts_cong) (use Cons.prems(4) del_slot_props(3) [OF wf(1)] in auto)
    then show ?thesis using 1 2 r rs Cons.prems(2) True changed_trans [OF 1(2) 2(2)]
      unfolding n counts_Cons by simp
  next
    case False
    have "\<forall>i' \<in> set is. i' < length (slots c)" "distinct is" using Cons.prems(3,4) by simp_all
    from Cons.IH [OF Cons.prems(1,2) this] show ?thesis using r Cons.prems(2) False
      unfolding n counts_Cons by (auto simp: stale_at_def split: option.split)
  qed
qed

text \<open>The array of less frequently used RR sets goes when it is empty.\<close>

definition trim :: "dns_cent \<Rightarrow> dns_cent" where
  "trim c = c\<lparr> ce_body := rr_body (take NRRMU (slots c)), ce_cs := ce_cs c - sz_rrext \<rparr>"

lemma trim_props:
  assumes "cent_wf c" "\<not> neg c" "length (slots c) > NRRMU" "\<And>i. i \<ge> NRRMU \<Longrightarrow> slot c i = None"
  shows "cent_wf (trim c)" "slot (trim c) i = slot c i" "ce_qname (trim c) = ce_qname c" "ce_flags (trim c) = ce_flags c"
    "ce_ns (trim c) = ce_ns c" "ce_soa (trim c) = ce_soa c" "ce_cs (trim c) = ce_cs c - sz_rrext" "ce_num (trim c) = ce_num c"
    "length (slots (trim c)) = NRRMU"
proof -
  have sh: "cent_shape c" using assms(1) by (simp add: cent_wf_def)
  have len: "length (slots c) = NRRTOT" using body_rr [OF sh assms(2)] assms(3) by auto
  show "ce_qname (trim c) = ce_qname c" "ce_flags (trim c) = ce_flags c" "ce_ns (trim c) = ce_ns c" "ce_soa (trim c) = ce_soa c"
    "ce_cs (trim c) = ce_cs c - sz_rrext" "ce_num (trim c) = ce_num c" by (simp_all add: trim_def)
  have b: "ce_body (trim c) = rr_body (take NRRMU (slots c))" by (simp add: trim_def)
  have sl: "slots (trim c) = take NRRMU (slots c)" by (rule slots_of_body [OF b]) (use len in simp)
  then show "length (slots (trim c)) = NRRMU" using len by simp
  show "slot (trim c) i = slot c i"
  proof (cases "i < NRRMU")
    case True
    then show ?thesis using len by (simp add: slot_def sl)
  next
    case False
    then show ?thesis using assms(4) [of i] sl len by simp
  qed
  have "drop NRRMU (slots c) = replicate NRREXT None"
  proof (rule nth_equalityI)
    show "length (drop NRRMU (slots c)) = length (replicate NRREXT (None :: rr_set option))" using len by simp
    fix i assume "i < length (drop NRRMU (slots c))"
    then show "drop NRRMU (slots c) ! i = replicate NRREXT None ! i"
      using assms(4) [of "NRRMU + i"] len by (simp add: slot_def del: replicate.simps)
  qed
  then have "slots_size (slots c) = slots_size (take NRRMU (slots c))" "slots_num (slots c) = slots_num (take NRRMU (slots c))"
    by (metis append_take_drop_id slots_size_append slots_num_append slots_replicate add.right_neutral)+
  moreover have "cent_shape (trim c)" by (rule shape_of_body [OF b]) (use len assms(2) in \<open>simp_all add: trim_def\<close>)
  ultimately show "cent_wf (trim c)" using assms(1) len
    by (simp add: cent_wf_def cent_size_def sl) (simp add: trim_def)
qed

definition trimmed :: "int \<Rightarrow> dns_cent \<Rightarrow> bool" where
  "trimmed now c = (length (slots c) > NRRMU \<and> (\<forall>i \<in> {NRRMU..<length (slots c)}. \<not> fresh_at now c i))"

definition npurge :: "int \<Rightarrow> dns_cent \<Rightarrow> int" where
  "npurge now c = (if neg c then 0 else int (length (filter (stale_at now c) [0..<length (slots c)])) + (if trimmed now c then 1 else 0))"

definition nfresh :: "int \<Rightarrow> dns_cent \<Rightarrow> int" where
  "nfresh now c = (if neg c then 0 else int (length (filter (fresh_at now c) [0..<length (slots c)])))"

definition purged_all :: "int \<Rightarrow> dns_cent \<Rightarrow> dns_cent" where
  "purged_all now c = (if neg c then c else
     let c1 = purged now [0..<length (slots c)] c in if trimmed now c then trim c1 else c1)"

lemma free_rrext_eq:
  assumes "cents \<sigma> a = Some c" "cent_shape c" "\<not> neg c"
  shows "free_rrext a test n rv \<sigma> = Some (if length (slots c) > NRRMU \<and> n = 0 then rv + 1 else rv,
     if length (slots c) > NRRMU \<and> n = 0 \<and> \<not> test then put a (trim c) (\<sigma>\<lparr> cache_size := cache_size \<sigma> - sz_rrext \<rparr>) else \<sigma>)"
proof -
  note b = body_rr [OF assms(2,3)]
  have l: "(length (slots c) = NRRMU) = (\<not> length (slots c) > NRRMU)" using b by auto
  have "trim c = c\<lparr> ce_body := RRBody (take NRRMU (slots c)) None, ce_cs := ce_cs c - sz_rrext \<rparr>"
    using b by (auto simp: trim_def rr_body_def)
  then show ?thesis using assms(1) b l by (simp add: free_rrext_def rr_body_def)
qed

lemma counts_zero: "counts now c [0..<length (slots c)] (0, 0, 0) =
   (int (length (filter (stale_at now c) [0..<length (slots c)])), int (length (filter (fresh_at now c) [0..<length (slots c)])),
    int (length (filter (\<lambda>i. fresh_at now c i \<and> i \<ge> NRRMU) [0..<length (slots c)])))"
  by (simp add: counts_def)

lemma no_fresh_ext: "(int (length (filter (\<lambda>i. fresh_at now c i \<and> i \<ge> NRRMU) [0..<length (slots c)])) = 0) =
   (\<forall>i \<in> {NRRMU..<length (slots c)}. \<not> fresh_at now c i)"
  by (auto simp: filter_empty_conv)

lemma purge_all_test:
  assumes "cents \<sigma> a = Some c" "cent_shape c"
  shows "purge_all_rrsets now a True \<sigma> = Some (npurge now c, nfresh now c, \<sigma>)"
proof (cases "neg c")
  case True
  then show ?thesis using assms(1) by (simp add: purge_all_rrsets_def npurge_def nfresh_def)
next
  case False
  have "purge_loop now a True [0..<length (slots c)] (0, 0, 0) \<sigma> = Some (counts now c [0..<length (slots c)] (0, 0, 0), \<sigma>)"
    by (rule purge_loop_test [OF assms]) simp
  then show ?thesis using False assms free_rrext_eq [OF assms False] RRARR_LEN_eq [OF assms(2)]
    unfolding counts_zero by (simp add: purge_all_rrsets_def npurge_def nfresh_def trimmed_def no_fresh_ext del: of_nat_eq_0_iff length_0_conv)
qed

lemma purge_all_real:
  assumes "cinv A X \<sigma>" "cents \<sigma> a = Some c" "a \<notin> X"
  shows "\<exists>\<sigma>'. purge_all_rrsets now a False \<sigma> = Some (npurge now c, nfresh now c, \<sigma>') \<and> changed A X a (purged_all now c) \<sigma> \<sigma>'"
proof (cases "neg c")
  case True
  then show ?thesis using assms changed_refl [OF assms(1,2)]
    by (simp add: purge_all_rrsets_def npurge_def nfresh_def purged_all_def)
next
  case False
  have wf: "cent_wf c" "cent_shape c" "linked c" using cinv_ent [OF assms(1,2)] assms(3) by simp_all
  let ?is = "[0..<length (slots c)]"
  let ?c = "purged now ?is c"
  obtain \<sigma>1 where 1: "purge_loop now a False ?is (0, 0, 0) \<sigma> = Some (counts now c ?is (0, 0, 0), \<sigma>1)"
    "changed A X a ?c \<sigma> \<sigma>1" using purge_loop_real [OF assms, of ?is now "(0, 0, 0)"] by auto
  have c1: "cinv A X \<sigma>1" "cents \<sigma>1 a = Some ?c" using 1(2) by (simp_all add: changed_def)
  note p = purged_props [OF wf(1), of now ?is]
  have sh: "cent_shape ?c" and n: "\<not> neg ?c" using p(1,7) False by (simp_all add: cent_wf_def)
  let ?n = "int (length (filter (\<lambda>i. fresh_at now c i \<and> i \<ge> NRRMU) ?is))"
  have t: "(length (slots ?c) > NRRMU \<and> ?n = 0) = trimmed now c"
    unfolding no_fresh_ext trimmed_def p(2) by blast
  have run: "purge_all_rrsets now a False \<sigma> = Some (npurge now c, nfresh now c,
      if trimmed now c then put a (trim ?c) (\<sigma>1\<lparr> cache_size := cache_size \<sigma>1 - sz_rrext \<rparr>) else \<sigma>1)"
    using False assms(2) 1(1) RRARR_LEN_eq [OF wf(2)] free_rrext_eq [OF c1(2) sh n, of False ?n] t
    unfolding counts_zero by (simp add: purge_all_rrsets_def npurge_def nfresh_def del: of_nat_eq_0_iff length_0_conv)
  show ?thesis
  proof (cases "trimmed now c")
    case True
    have none: "slot ?c i = None" if "i \<ge> NRRMU" for i
    proof (cases "i < length (slots c)")
      case l: True
      then have "\<not> fresh_at now c i" using True that by (simp add: trimmed_def)
      then show ?thesis using p(3) [of i] l by (auto simp: fresh_at_def)
    qed (use p(2) in simp)
    have lt: "length (slots ?c) > NRRMU" using True p(2) by (simp add: trimmed_def)
    note tr = trim_props [OF p(1) n lt none]
    have sh': "cent_shape (trim ?c)" using tr(1) by (simp add: cent_wf_def)
    have n': "\<not> neg (trim ?c)" using tr(4) n by simp
    have it: "cent_items a (trim ?c) = cent_items a ?c"
      by (rule rr_items_slots [OF sh n sh' n' tr(2)])
    have lk: "linked (trim ?c)"
      by (rule linked_slots [OF p(9) [OF wf(3)] sh sh']) (use tr n in auto)
    have "changed A X a (trim ?c) \<sigma>1 (put a (trim ?c) (\<sigma>1\<lparr> cache_size := cache_size \<sigma>1 + - sz_rrext \<rparr>))"
      by (rule changedI [OF c1 frame_refl refl held_items [OF cinv_held [OF c1] it] tr(1,3)]) (use lk tr(7) assms(3) in simp_all)
    from changed_trans [OF 1(2) this] show ?thesis using run True False by (simp add: purged_all_def)
  next
    case F: False
    then show ?thesis using run 1(2) False by (simp add: purged_all_def)
  qed
qed

lemma purged_all_props:
  assumes "cent_wf c"
  shows "cent_wf (purged_all now c)" "slot (purged_all now c) i = (if stale_at now c i then None else slot c i)"
    "ce_qname (purged_all now c) = ce_qname c" "ce_ns (purged_all now c) = ce_ns c" "ce_soa (purged_all now c) = ce_soa c"
    "has (ce_flags (purged_all now c)) DF_NEGATIVE = neg c"
    "has (ce_flags (purged_all now c)) DF_LOCAL = has (ce_flags c) DF_LOCAL"
    "neg c \<Longrightarrow> purged_all now c = c"
proof -
  let ?c = "purged now [0..<length (slots c)] c"
  have sh: "cent_shape c" using assms by (simp add: cent_wf_def)
  note p = purged_props [OF assms, of now "[0..<length (slots c)]"]
  have sl: "slot ?c i = (if stale_at now c i then None else slot c i)" for i
    using p(3) [of i] by (cases "i < length (slots c)") auto
  have st: "\<not> stale_at now c i" if "neg c" for i
    using slot_Some_rr [OF sh] that by (auto simp: stale_at_def split: option.split)
  have tr: "cent_wf (trim ?c) \<and> (\<forall>i. slot (trim ?c) i = slot ?c i) \<and> ce_qname (trim ?c) = ce_qname ?c \<and>
     ce_ns (trim ?c) = ce_ns ?c \<and> ce_soa (trim ?c) = ce_soa ?c \<and> ce_flags (trim ?c) = ce_flags ?c"
    if "\<not> neg c" "trimmed now c"
  proof -
    have n: "\<not> neg ?c" "length (slots ?c) > NRRMU" using p(2,7) that by (simp_all add: trimmed_def)
    have none: "slot ?c i = None" if "i \<ge> NRRMU" for i
    proof (cases "i < length (slots c)")
      case l: True
      then have "\<not> fresh_at now c i" using \<open>trimmed now c\<close> that by (simp add: trimmed_def)
      then show ?thesis using sl [of i] by (auto simp: fresh_at_def)
    qed (use p(2) in simp)
    show ?thesis using trim_props [OF p(1) n none] by blast
  qed
  show "cent_wf (purged_all now c)" "slot (purged_all now c) i = (if stale_at now c i then None else slot c i)"
    "ce_qname (purged_all now c) = ce_qname c" "ce_ns (purged_all now c) = ce_ns c" "ce_soa (purged_all now c) = ce_soa c"
    "has (ce_flags (purged_all now c)) DF_NEGATIVE = neg c"
    "has (ce_flags (purged_all now c)) DF_LOCAL = has (ce_flags c) DF_LOCAL"
    using p tr sl st assms by (simp_all add: purged_all_def Let_def)
  show "neg c \<Longrightarrow> purged_all now c = c" by (simp add: purged_all_def)
qed

subsection \<open>References to the enclosing zone\<close>

text \<open>The RR set that \<open>c_ns\<close> or \<open>c_soa\<close>, here \<open>cn\<close>, refers to.\<close>

definition ref_set :: "cache \<Rightarrow> dns_cent \<Rightarrow> byte \<Rightarrow> nat \<Rightarrow> rr_set option" where
  "ref_set \<sigma> c cn idx = (let ls = unenc (ce_qname c) in
     if unat cn = length ls then slot c idx
     else if unat cn < length ls then
       (case tabm \<sigma> (canon (drop (length ls - unat cn) ls)) of None \<Rightarrow> None
        | Some b \<Rightarrow> (case cents \<sigma> b of None \<Rightarrow> None | Some c2 \<Rightarrow> slot c2 idx))
     else None)"

definition useless :: "int \<Rightarrow> rr_set option \<Rightarrow> bool" where
  "useless now r = (case r of None \<Rightarrow> True
     | Some rs \<Rightarrow> rs_rrs rs = [] \<or> (\<not> has (rs_flags rs) CF_LOCAL \<and> timedout now rs))"

lemma GET_RRSMU_eq: "cent_shape c \<Longrightarrow> i < NRRMU \<Longrightarrow> GET_RRSMU c i = Some (slot c i)"
  by (erule cent_shapeE) (auto simp: GET_RRSMU_def rr_body_def slot_def rd_def)

lemma enc_drop_le: "length (enc (drop k ls)) \<le> length (enc ls)"
proof (induction ls arbitrary: k)
  case (Cons l ls)
  show ?case
  proof (cases k)
    case (Suc j)
    then show ?thesis using Cons.IH [of j] by simp
  qed simp
qed simp

lemma valid_suffix:
  assumes "valid_name nm"
  shows "\<exists>nm'. skipsegs nm k = Some nm' \<and> valid_name nm' \<and> key_of nm' = canon (drop k (unenc nm))"
proof -
  obtain ls where ls: "wire_name ls" "nm = enc ls" "list_all name_label ls" using assms by (rule valid_nameE)
  have sk: "skipsegs (enc ls @ []) k = Some (enc (drop k ls) @ [])" by (rule skipsegs_enc [OF ls(3)])
  have d: "list_all name_label (drop k ls)" using ls(3) by (auto simp: list_all_iff dest: in_set_dropD)
  have "wire_name (drop k ls)" using ls(1) enc_drop_le [of k ls] by (auto simp: wire_name_def list_all_iff dest: in_set_dropD intro: le_trans)
  then have "valid_name (enc (drop k ls))" by (rule valid_name_enc)
  then show ?thesis using sk ls(2,3) d by (simp add: key_of_def)
qed

lemma stale_ref_eq:
  assumes "cinv A X \<sigma>" "cent_shape c" "valid_name (ce_qname c)" "idx < NRRMU"
  shows "stale_ref now c cn idx \<sigma> = Some (useless now (ref_set \<sigma> c cn idx))"
proof -
  let ?ls = "unenc (ce_qname c)"
  have n: "rhnsegcnt (ce_qname c) = Some (length ?ls)"
    using assms(3) rhnsegcnt_enc [of _ "[]"] by (auto elim!: valid_nameE)
  obtain nm where nm: "skipsegs (ce_qname c) (length ?ls - unat cn) = Some nm" "valid_name nm"
    "key_of nm = canon (drop (length ?ls - unat cn) ?ls)" using valid_suffix [OF assms(3)] by blast
  note l = lookup_eq [OF assms(1) nm(2), unfolded nm(3)]
  have "(if unat cn = length ?ls then GET_RRSMU c idx
      else if unat cn < length ?ls then do {
          nm \<leftarrow> skipsegs (ce_qname c) (length ?ls - unat cn);
          e \<leftarrow> lookup \<sigma> nm;
          case e of None \<Rightarrow> Some None | Some b \<Rightarrow> do { c2 \<leftarrow> cents \<sigma> b; GET_RRSMU c2 idx } }
      else Some None) = Some (ref_set \<sigma> c cn idx)"
  proof (cases "tabm \<sigma> (canon (drop (length ?ls - unat cn) ?ls))")
    case None
    then show ?thesis using GET_RRSMU_eq [OF assms(2,4)] nm(1) l by (simp add: ref_set_def)
  next
    case (Some b)
    then obtain c2 where c2: "cents \<sigma> b = Some c2" using tabm_entry [OF assms(1)] by blast
    have "GET_RRSMU c2 idx = Some (slot c2 idx)" by (rule GET_RRSMU_eq [OF cinv_ent(2) [OF assms(1) c2] assms(4)])
    then show ?thesis using GET_RRSMU_eq [OF assms(2,4)] nm(1) l Some c2 by (simp add: ref_set_def)
  qed
  then show ?thesis unfolding stale_ref_def n by (simp add: useless_def)
qed

lemma stale_useless: "stale_set now rs \<Longrightarrow> useless now (Some rs)"
  by (simp add: stale_set_def useless_def)

text \<open>Purging the RR sets of the entry does not change which references are useless.\<close>

lemma ref_set_changed:
  assumes "cinv A X \<sigma>" "cents \<sigma> a = Some c" "cents \<sigma>' = (cents \<sigma>)(a \<mapsto> c')" "tabm \<sigma>' = tabm \<sigma>"
    "ce_qname c' = ce_qname c" "\<And>i. slot c' i = (if stale_at now c i then None else slot c i)"
  shows "useless now (ref_set \<sigma>' c' cn idx) = useless now (ref_set \<sigma> c cn idx)"
proof -
  let ?ls = "unenc (ce_qname c)"
  have own: "useless now (slot c' idx) = useless now (slot c idx)"
    using assms(6) [of idx] by (auto simp: stale_at_def stale_useless split: option.splits) (simp_all add: useless_def)
  have "cents \<sigma>' b = cents \<sigma> b" if t: "tabm \<sigma> (canon (drop (length ?ls - unat cn) ?ls)) = Some b" "unat cn < length ?ls" for b
  proof -
    have "b \<noteq> a"
    proof
      assume "b = a"
      then have "key_of (ce_qname c) = canon (drop (length ?ls - unat cn) ?ls)" using tabm_entry [OF assms(1) t(1)] assms(2) by auto
      then have "length ?ls = length (drop (length ?ls - unat cn) ?ls)" by (metis canon_def key_of_def length_map)
      then show False using t(2) by simp
    qed
    then show ?thesis using assms(3) by simp
  qed
  then show ?thesis using own assms(4,5) by (auto simp: ref_set_def Let_def split: option.split)
qed

subsection \<open>The whole entry\<close>

definition dead :: "int \<Rightarrow> bool \<Rightarrow> dns_cent \<Rightarrow> bool" where
  "dead now delete c = (delete \<and> nfresh now c = 0 \<and> cent_dead now c = Some True)"

definition ns_gone :: "int \<Rightarrow> cache \<Rightarrow> dns_cent \<Rightarrow> bool" where
  "ns_gone now \<sigma> c = (ce_ns c \<noteq> cundef \<and> useless now (ref_set \<sigma> c (ce_ns c) RRMUINDEX_NS))"

definition soa_gone :: "int \<Rightarrow> cache \<Rightarrow> dns_cent \<Rightarrow> bool" where
  "soa_gone now \<sigma> c = (ce_soa c \<noteq> cundef \<and> useless now (ref_set \<sigma> c (ce_soa c) RRMUINDEX_SOA))"

definition purge_count :: "int \<Rightarrow> bool \<Rightarrow> cache \<Rightarrow> dns_cent \<Rightarrow> int" where
  "purge_count now delete \<sigma> c =
     (if dead now delete c then -1
      else npurge now c + (if has (ce_flags c) DF_LOCAL then 0
        else (if ns_gone now \<sigma> c then 1 else 0) + (if soa_gone now \<sigma> c then 1 else 0)))"

definition purged_cent :: "int \<Rightarrow> cache \<Rightarrow> dns_cent \<Rightarrow> dns_cent" where
  "purged_cent now \<sigma> c = (let c1 = purged_all now c in
     if has (ce_flags c) DF_LOCAL then c1
     else c1\<lparr> ce_ns := if ns_gone now \<sigma> c then cundef else ce_ns c, ce_soa := if soa_gone now \<sigma> c then cundef else ce_soa c \<rparr>)"

lemma cent_dead_eq:
  assumes "cent_shape c"
  shows "\<exists>b. cent_dead now c = Some b" "\<not> neg c \<Longrightarrow> cent_dead now c = Some True"
  using assms by (auto elim!: cent_shapeE simp: cent_dead_def timedout_nxdom_def)

lemma purge_ns_eq:
  assumes "cinv A X \<sigma>" "cents \<sigma> a = Some c"
  shows "purge_ns now a test n \<sigma> = Some (if ns_gone now \<sigma> c then (n + 1, if test then \<sigma> else put a (c\<lparr> ce_ns := cundef \<rparr>) \<sigma>) else (n, \<sigma>))"
    "purge_soa now a test n \<sigma> = Some (if soa_gone now \<sigma> c then (n + 1, if test then \<sigma> else put a (c\<lparr> ce_soa := cundef \<rparr>) \<sigma>) else (n, \<sigma>))"
proof -
  have sh: "cent_shape c" "valid_name (ce_qname c)" using cinv_ent [OF assms] by simp_all
  show "purge_ns now a test n \<sigma> = Some (if ns_gone now \<sigma> c then (n + 1, if test then \<sigma> else put a (c\<lparr> ce_ns := cundef \<rparr>) \<sigma>) else (n, \<sigma>))"
    using assms(2) stale_ref_eq [OF assms(1) sh, of RRMUINDEX_NS] by (simp add: purge_ns_def ns_gone_def)
  show "purge_soa now a test n \<sigma> = Some (if soa_gone now \<sigma> c then (n + 1, if test then \<sigma> else put a (c\<lparr> ce_soa := cundef \<rparr>) \<sigma>) else (n, \<sigma>))"
    using assms(2) stale_ref_eq [OF assms(1) sh, of RRMUINDEX_SOA] by (simp add: purge_soa_def soa_gone_def)
qed

lemma purge_cent_test:
  assumes "cinv A X \<sigma>" "cents \<sigma> a = Some c"
  shows "purge_cent now a delete True \<sigma> = Some (purge_count now delete \<sigma> c, \<sigma>)"
proof -
  have sh: "cent_shape c" by (rule cinv_ent [OF assms])
  obtain b where b: "cent_dead now c = Some b" using cent_dead_eq [OF sh] by blast
  note run = purge_all_test [OF assms(2) sh, of now]
  show ?thesis
  proof (cases "dead now delete c")
    case True
    then show ?thesis using run assms(2) by (simp add: purge_cent_def dead_def purge_count_def)
  next
    case False
    then have "(if delete \<and> nfresh now c = 0 then cent_dead now c else Some False) = Some False"
      using b by (auto simp: dead_def)
    then show ?thesis using run assms(2) False purge_ns_eq [OF assms] by (simp add: purge_cent_def purge_count_def)
  qed
qed

lemma gone_changed: "changed A X a c' \<sigma> \<sigma>1 \<Longrightarrow> gone A X a \<sigma>1 \<sigma>2 \<Longrightarrow> gone A X a \<sigma> \<sigma>2"
  unfolding changed_def gone_def using shrinks_trans by auto

lemma ref_update [simp]: "ref_set \<sigma> (c\<lparr> ce_ns := b \<rparr>) = ref_set \<sigma> c" "ref_set \<sigma> (c\<lparr> ce_soa := b \<rparr>) = ref_set \<sigma> c"
  unfolding ref_set_def by (intro ext, simp add: Let_def)+

lemma cent_wf_update [simp]: "cent_wf (c\<lparr> ce_ns := b \<rparr>) = cent_wf c" "cent_wf (c\<lparr> ce_soa := b \<rparr>) = cent_wf c"
  by (simp_all add: cent_wf_def cent_size_def cent_shape_def split: cent_body.split)

lemma linked_update [simp]: "linked (c\<lparr> ce_ns := b \<rparr>) = linked c" "linked (c\<lparr> ce_soa := b \<rparr>) = linked c"
  by (simp_all add: linked_def split: cent_body.split)

lemma purge_cent_real:
  assumes "cinv A X \<sigma>" "cents \<sigma> a = Some c" "a \<in> A" "a \<notin> X"
  shows "\<exists>\<sigma>'. purge_cent now a delete False \<sigma> = Some (purge_count now delete \<sigma> c, \<sigma>') \<and>
    (if dead now delete c then gone A X a \<sigma> \<sigma>' \<and> tabm \<sigma>' = (tabm \<sigma>)(key_of (ce_qname c) := None)
     else changed A X a (purged_cent now \<sigma> c) \<sigma> \<sigma>')"
proof -
  have sh: "cent_wf c" "cent_shape c" "linked c" using cinv_ent [OF assms(1,2)] assms(4) by simp_all
  obtain \<sigma>1 where 1: "purge_all_rrsets now a False \<sigma> = Some (npurge now c, nfresh now c, \<sigma>1)"
    "changed A X a (purged_all now c) \<sigma> \<sigma>1" using purge_all_real [OF assms(1,2,4)] by blast
  let ?c = "purged_all now c"
  note p = purged_all_props [OF sh(1), of now]
  have c1: "cinv A X \<sigma>1" "cents \<sigma>1 a = Some ?c" "tabm \<sigma>1 = tabm \<sigma>" using 1(2) by (simp_all add: changed_def)
  have sh1: "cent_shape ?c" using p(1) by (simp add: cent_wf_def)
  obtain b where b: "cent_dead now ?c = Some b" using cent_dead_eq [OF sh1] by blast
  have cd: "cent_dead now ?c = cent_dead now c" using p(6,8) by (cases "neg c") (simp_all add: cent_dead_def)
  show ?thesis
  proof (cases "dead now delete c")
    case True
    obtain \<sigma>2 where 2: "del_cache_ent a None \<sigma>1 = Some \<sigma>2" "gone A X a \<sigma>1 \<sigma>2"
      "tabm \<sigma>2 = (tabm \<sigma>1)(key_of (ce_qname ?c) := None)"
      using del_cache_ent_spec [OF c1(1,2) assms(3,4), of None] by auto
    have "purge_cent now a delete False \<sigma> = Some (-1, \<sigma>2)"
      using True 1(1) c1(2) 2(1) cd by (simp add: purge_cent_def dead_def)
    then show ?thesis using True gone_changed [OF 1(2) 2(2)] 2(3) p(3) c1(3) by (simp add: purge_count_def)
  next
    case False
    then have nd: "(if delete \<and> nfresh now c = 0 then cent_dead now ?c else Some False) = Some False"
      using b cd by (auto simp: dead_def)
    have ref: "useless now (ref_set \<sigma>1 ?c cn i) = useless now (ref_set \<sigma> c cn i)" for cn i
      by (rule ref_set_changed [OF assms(1,2)]) (use 1(2) p c1 in \<open>simp_all add: changed_def\<close>)
    have g1: "ns_gone now \<sigma>1 ?c = ns_gone now \<sigma> c" "soa_gone now \<sigma>1 ?c = soa_gone now \<sigma> c"
      using ref p(4,5) by (simp_all add: ns_gone_def soa_gone_def)
    show ?thesis
    proof (cases "has (ce_flags c) DF_LOCAL")
      case True
      then have "purge_cent now a delete False \<sigma> = Some (npurge now c, \<sigma>1)"
        using 1(1) c1(2) nd p(7) by (simp add: purge_cent_def)
      then show ?thesis using True 1(2) False by (simp add: purge_count_def purged_cent_def)
    next
      case nl: False
      let ?c2 = "if ns_gone now \<sigma> c then ?c\<lparr> ce_ns := cundef \<rparr> else ?c"
      let ?s2 = "if ns_gone now \<sigma> c then put a ?c2 \<sigma>1 else \<sigma>1"
      have lk: "linked ?c" using cinv_ent(5) [OF c1(1,2)] assms(4) by simp
      have "changed A X a ?c2 \<sigma>1 ?s2"
        using changed_put [OF c1(1,2), of "?c\<lparr> ce_ns := cundef \<rparr>"] p(1) lk changed_refl [OF c1(1,2)] by simp
      note ch2 = changed_trans [OF 1(2) this]
      have c2: "cinv A X ?s2" "cents ?s2 a = Some ?c2" "tabm ?s2 = tabm \<sigma>" using ch2 unfolding changed_def by simp_all
      have c2c: "cents ?s2 = (cents \<sigma>)(a \<mapsto> ?c2)" using ch2 by (simp add: changed_def)
      have ref2: "useless now (ref_set ?s2 ?c2 cn i) = useless now (ref_set \<sigma> c cn i)" for cn i
        by (rule ref_set_changed [OF assms(1,2) c2c c2(3)]) (use p in simp_all)
      have g2: "soa_gone now ?s2 ?c2 = soa_gone now \<sigma> c" using ref2 p(5) by (simp add: soa_gone_def)
      let ?c3 = "if soa_gone now \<sigma> c then ?c2\<lparr> ce_soa := cundef \<rparr> else ?c2"
      let ?s3 = "if soa_gone now \<sigma> c then put a ?c3 ?s2 else ?s2"
      have wf2: "cent_wf ?c2" "linked ?c2" using p(1) lk by simp_all
      have "changed A X a ?c3 ?s2 ?s3"
        using changed_put [OF c2(1,2), of "?c2\<lparr> ce_soa := cundef \<rparr>"] wf2 changed_refl [OF c2(1,2)] by simp
      note ch3 = changed_trans [OF ch2 this]
      have c3: "?c3 = purged_cent now \<sigma> c" using nl p(4,5) by (simp add: purged_cent_def Let_def)
      have r1: "purge_ns now a False (npurge now c) \<sigma>1 = Some (if ns_gone now \<sigma> c then npurge now c + 1 else npurge now c, ?s2)"
        using purge_ns_eq(1) [OF c1(1,2)] g1 by simp
      have r2: "purge_soa now a False n ?s2 = Some (if soa_gone now \<sigma> c then n + 1 else n, ?s3)" for n
        using purge_ns_eq(2) [OF c2(1,2), of now False n] g2 by (simp only: split: if_split) simp
      obtain s3 where s3: "s3 = ?s3" by blast
      have "purge_cent now a delete False \<sigma> = Some (purge_count now delete \<sigma> c, s3)"
        using 1(1) c1(2) nd nl p(7) r1 r2 [folded s3] False by (simp add: purge_cent_def purge_count_def)
      moreover have "changed A X a (purged_cent now \<sigma> c) \<sigma> s3" using ch3 unfolding s3 c3 .
      ultimately show ?thesis using False by (intro exI [of _ s3]) simp
    qed
  qed
qed

end
