(* ===== verification/Pd_PurgeCache.thy ===== *)
theory Pd_PurgeCache
  imports Pd_Purge
begin

text \<open>
  \<open>purge_cache\<close>: the two walks along the list of RR sets never follow a freed node, end, keep the
  invariant and everything local, and reach the size limit unless only local data is left.
\<close>

subsection \<open>What purging may remove\<close>

definition local_set :: "dns_cent \<Rightarrow> rr_set \<Rightarrow> bool" where
  "local_set c rs = (has (ce_flags c) DF_LOCAL \<or> has (rs_flags rs) CF_LOCAL)"

text \<open>\<open>D c i\<close> says which RR sets may go, \<open>E c\<close> which negative entries.\<close>

definition pruned_cent :: "(dns_cent \<Rightarrow> rr_set \<Rightarrow> bool) \<Rightarrow> (dns_cent \<Rightarrow> bool) \<Rightarrow> dns_cent \<Rightarrow> dns_cent option \<Rightarrow> bool" where
  "pruned_cent D E c r = (case r of
     None \<Rightarrow> (neg c \<longrightarrow> E c) \<and> (\<forall>i rs. slot c i = Some rs \<longrightarrow> D c rs)
   | Some c' \<Rightarrow> ce_qname c' = ce_qname c \<and> has (ce_flags c') DF_LOCAL = has (ce_flags c) DF_LOCAL \<and>
       neg c' = neg c \<and> (neg c \<longrightarrow> c' = c) \<and>
       (\<forall>i. slot c' i = slot c i \<or> (slot c' i = None \<and> (\<forall>rs. slot c i = Some rs \<longrightarrow> D c rs))))"

definition pruned :: "(dns_cent \<Rightarrow> rr_set \<Rightarrow> bool) \<Rightarrow> (dns_cent \<Rightarrow> bool) \<Rightarrow> cache \<Rightarrow> cache \<Rightarrow> bool" where
  "pruned D E \<sigma> \<sigma>' = (dom (cents \<sigma>') \<subseteq> dom (cents \<sigma>) \<and> (\<forall>a c. cents \<sigma> a = Some c \<longrightarrow> pruned_cent D E c (cents \<sigma>' a)))"

text \<open>The conditions depend on what does not change.\<close>

definition stable :: "(dns_cent \<Rightarrow> rr_set \<Rightarrow> bool) \<Rightarrow> bool" where
  "stable D = (\<forall>c c'. has (ce_flags c') DF_LOCAL = has (ce_flags c) DF_LOCAL \<longrightarrow> D c' = D c)"

lemma pruned_refl [simp]: "pruned D E \<sigma> \<sigma>"
  by (simp add: pruned_def pruned_cent_def)

lemma pruned_cent_trans:
  assumes "pruned_cent D E c (Some c1)" "pruned_cent D E c1 r" "stable D"
  shows "pruned_cent D E c r"
proof -
  have 1: "ce_qname c1 = ce_qname c" "has (ce_flags c1) DF_LOCAL = has (ce_flags c) DF_LOCAL" "neg c1 = neg c" "neg c \<Longrightarrow> c1 = c"
    "\<And>i. slot c1 i = slot c i \<or> (slot c1 i = None \<and> (\<forall>rs. slot c i = Some rs \<longrightarrow> D c rs))"
    using assms(1) unfolding pruned_cent_def option.case by blast+
  have D: "D c1 = D c" by (rule assms(3) [unfolded stable_def, rule_format, OF 1(2)])
  show ?thesis
  proof (cases r)
    case None
    then have 2: "neg c1 \<longrightarrow> E c1" "\<forall>i rs. slot c1 i = Some rs \<longrightarrow> D c rs" using assms(2) unfolding None pruned_cent_def option.case D by blast+
    have "D c rs" if "slot c i = Some rs" for i rs
    proof (cases "slot c1 i = slot c i")
      case True
      then show ?thesis using 2(2) that by metis
    next
      case False
      then show ?thesis using 1(5) [of i] that by blast
    qed
    moreover have "neg c \<longrightarrow> E c" using 1(3,4) 2(1) by metis
    ultimately show ?thesis unfolding None pruned_cent_def option.case by blast
  next
    case (Some c2)
    then have 2: "ce_qname c2 = ce_qname c1" "has (ce_flags c2) DF_LOCAL = has (ce_flags c1) DF_LOCAL" "neg c2 = neg c1" "neg c1 \<longrightarrow> c2 = c1"
      "\<forall>i. slot c2 i = slot c1 i \<or> (slot c2 i = None \<and> (\<forall>rs. slot c1 i = Some rs \<longrightarrow> D c rs))"
      using assms(2) unfolding Some pruned_cent_def option.case D by blast+
    have s: "slot c2 i = slot c i \<or> (slot c2 i = None \<and> (\<forall>rs. slot c i = Some rs \<longrightarrow> D c rs))" for i
      using 1(5) [of i] 2(5) [rule_format, of i] by metis
    have n: "neg c \<longrightarrow> c2 = c" using 1(3,4) 2(4) by metis
    show ?thesis unfolding Some pruned_cent_def option.case
      by (intro conjI allI) (rule trans [OF 2(1) 1(1)], rule trans [OF 2(2) 1(2)], rule trans [OF 2(3) 1(3)], rule n, rule s)
  qed
qed

lemma pruned_trans:
  assumes "pruned D E \<sigma> \<sigma>1" "pruned D E \<sigma>1 \<sigma>2" "stable D"
  shows "pruned D E \<sigma> \<sigma>2"
  unfolding pruned_def
proof (intro conjI allI impI)
  show d: "dom (cents \<sigma>2) \<subseteq> dom (cents \<sigma>)" using assms(1,2) unfolding pruned_def by (meson order_trans)
  fix a c assume c: "cents \<sigma> a = Some c"
  then have 1: "pruned_cent D E c (cents \<sigma>1 a)" using assms(1) by (simp add: pruned_def)
  show "pruned_cent D E c (cents \<sigma>2 a)"
  proof (cases "cents \<sigma>1 a")
    case None
    then have "cents \<sigma>2 a = None" using assms(2) by (auto simp: pruned_def)
    then show ?thesis using 1 None by simp
  next
    case (Some c1)
    then have "pruned_cent D E c1 (cents \<sigma>2 a)" using assms(2) by (simp add: pruned_def)
    then show ?thesis using pruned_cent_trans [OF _ _ assms(3)] 1 Some by simp
  qed
qed

lemma pruned_weaken:
  assumes "pruned D E \<sigma> \<sigma>'" "\<And>c rs. D c rs \<Longrightarrow> D' c rs" "\<And>c. E c \<Longrightarrow> E' c"
  shows "pruned D' E' \<sigma> \<sigma>'"
proof -
  have w: "pruned_cent D' E' c r" if "pruned_cent D E c r" for c r
  proof (cases r)
    case None
    then show ?thesis using that assms(2,3) unfolding pruned_cent_def by auto
  next
    case (Some c')
    have "slot c' i = slot c i \<or> (slot c' i = None \<and> (\<forall>rs. slot c i = Some rs \<longrightarrow> D' c rs))" for i
    proof -
      have "slot c' i = slot c i \<or> (slot c' i = None \<and> (\<forall>rs. slot c i = Some rs \<longrightarrow> D c rs))"
        using that Some by (simp add: pruned_cent_def)
      then show ?thesis using assms(2) by blast
    qed
    then show ?thesis using that Some by (simp add: pruned_cent_def)
  qed
  then show ?thesis using assms(1) unfolding pruned_def by blast
qed

subsection \<open>One node of the list\<close>

text \<open>The item a node stands for.\<close>

lemma item_entry:
  assumes "(m, a, idx) \<in> items (cents \<sigma>)" "cache_inv \<sigma>"
  obtains c where "cents \<sigma> a = Some c" "(m, a, idx) \<in> cent_items a c" "cent_wf c" "cent_shape c" "linked c"
    "a \<in> dom (cents \<sigma>)"
proof -
  obtain b c where "cents \<sigma> b = Some c" "(m, a, idx) \<in> cent_items b c" using assms(1) by (auto simp: items_def)
  moreover from cent_items_addr [OF this(2)] have "b = a" by simp
  ultimately show thesis using that cinv_ent [OF assms(2) [unfolded cache_inv_def]] by blast
qed

lemma item_cases:
  assumes "(m, a, idx) \<in> cent_items a c" "cent_shape c"
  obtains (N) ttl ts where "idx = None" "neg c" "ce_body c = NegBody (Some m) ttl ts" "cent_items a c = {(m, a, None)}"
  | (S) i rs where "idx = Some i" "\<not> neg c" "slot c i = Some rs" "rs_lent rs = Some m" "i < length (slots c)" "i < NRRTOT"
proof (cases "neg c")
  case True
  obtain le ttl ts where b: "ce_body c = NegBody le ttl ts" using assms(2) True by (auto elim: cent_shapeE)
  from cent_items_neg [OF b, of a] assms(1) have "idx = None" "le = Some m" by (auto split: option.splits)
  then show ?thesis using N b True cent_items_neg [OF b, of a] by simp
next
  case False
  from assms(1) obtain i where i: "idx = Some i" "Option.bind (slot c i) rs_lent = Some m"
    unfolding cent_items_rr [OF assms(2) False] by blast
  then obtain rs where "slot c i = Some rs" "rs_lent rs = Some m" by (cases "slot c i") auto
  then show ?thesis using S [OF i(1) False] slot_SomeD slots_len_le [OF assms(2)] by (meson order_less_le_trans)
qed

definition local_item :: "dns_cent \<Rightarrow> nat option \<Rightarrow> bool" where
  "local_item c idx = (has (ce_flags c) DF_LOCAL \<or>
     (case idx of None \<Rightarrow> False | Some i \<Rightarrow> (case slot c i of None \<Rightarrow> False | Some rs \<Rightarrow> has (rs_flags rs) CF_LOCAL)))"

lemma local_node_eq:
  assumes "(m, a, idx) \<in> cent_items a c" "cent_shape c"
  shows "local_node c idx = Some (local_item c idx)"
  using assms
proof (cases rule: item_cases)
  case (N ttl ts)
  then show ?thesis by (simp add: local_node_def local_item_def)
next
  case (S i rs)
  then show ?thesis using RRARR_INDEX_eq [OF assms(2) S(5)] by (auto simp: local_node_def local_item_def)
qed

text \<open>What one step of a walk does at the item \<open>it\<close>.\<close>

definition walked :: "(dns_cent \<Rightarrow> rr_set \<Rightarrow> bool) \<Rightarrow> (dns_cent \<Rightarrow> bool) \<Rightarrow> item \<Rightarrow> cache \<Rightarrow> cache \<Rightarrow> bool" where
  "walked D E it \<sigma> \<sigma>' = (cache_inv \<sigma>' \<and> shrinks (rrl \<sigma>) (rrl \<sigma>') \<and>
     items (cents \<sigma>') \<in> {items (cents \<sigma>), items (cents \<sigma>) - {it}} \<and> pruned D E \<sigma> \<sigma>' \<and>
     insert_sort \<sigma>' = insert_sort \<sigma> \<and> mallocs \<sigma>' = mallocs \<sigma> \<and> next_id \<sigma>' = next_id \<sigma> \<and>
     cache_size \<sigma>' \<le> cache_size \<sigma>)"

lemma walked_refl: "cache_inv \<sigma> \<Longrightarrow> walked D E it \<sigma> \<sigma>"
  by (simp add: walked_def)

lemma total_le:
  assumes "finite (dom m)" "m a = Some c" "ce_cs c' \<le> ce_cs c"
  shows "total {} (m(a \<mapsto> c')) \<le> total {} m"
  using assms total_upd [OF assms(1,2), of "{}" c'] by simp

lemma cent_size_pos: "cent_wf c \<Longrightarrow> ce_cs c > 0"
  using slots_size_nonneg [of "slots c"] by (auto simp: cent_wf_def cent_size_def sz_cent_def sz_rrext_def)

lemma gone_size:
  assumes "cinv A X \<sigma>" "cents \<sigma> a = Some c" "a \<notin> X" "gone A X a \<sigma> \<sigma>'"
  shows "cache_size \<sigma>' \<le> cache_size \<sigma>"
proof -
  have "cache_size \<sigma>' = total X (cents \<sigma>')" "cents \<sigma>' = (cents \<sigma>)(a := None)"
    using assms(4) by (simp_all add: gone_def cinv_def)
  then show ?thesis using total_del [OF cinvD(2) [OF assms(1)] assms(2), of X] cinvD(7) [OF assms(1)] assms(3)
      cent_size_pos [OF cinv_ent(1) [OF assms(1,2)]] by simp
qed

lemma walked_del:
  assumes "cache_inv \<sigma>" "cents \<sigma> a = Some c" "gone (dom (cents \<sigma>)) {} a \<sigma> \<sigma>'" "cent_items a c \<subseteq> {it}"
    "neg c \<longrightarrow> E c" "\<And>i rs. slot c i = Some rs \<Longrightarrow> D c rs" "it \<in> items (cents \<sigma>)" "cent_items a c = {it} \<or> it \<notin> rest a (cents \<sigma>) \<or> cent_items a c = {}"
  shows "walked D E it \<sigma> \<sigma>'"
proof -
  have I: "cinv (dom (cents \<sigma>)) {} \<sigma>" using assms(1) by (simp add: cache_inv_def)
  note g = assms(3) [unfolded gone_def]
  have "dom (cents \<sigma>') = dom (cents \<sigma>) - {a}" using g by auto
  then have inv: "cache_inv \<sigma>'" using g by (simp add: cache_inv_def)
  have it: "items (cents \<sigma>') = rest a (cents \<sigma>)" "items (cents \<sigma>) = cent_items a c \<union> rest a (cents \<sigma>)"
    using g items_del items_rest [of "cents \<sigma>" a c, OF assms(2)] by simp_all
  have "cent_items a c \<inter> rest a (cents \<sigma>) = {}" using cent_items_addr rest_addr by fastforce
  then have its: "items (cents \<sigma>') \<in> {items (cents \<sigma>), items (cents \<sigma>) - {it}}"
    using it assms(4) by (cases "cent_items a c = {}") auto
  have "pruned_cent D E c None" using assms(5,6) by (simp add: pruned_cent_def)
  then have "pruned D E \<sigma> \<sigma>'" using g assms(2) unfolding pruned_def by (auto simp: pruned_cent_def)
  moreover have "cache_size \<sigma>' \<le> cache_size \<sigma>" by (rule gone_size [OF I assms(2) _ assms(3)]) simp
  ultimately show ?thesis using inv its g by (simp add: walked_def)
qed

lemma walked_trans:
  assumes "walked D E it \<sigma> \<sigma>1" "walked D E it \<sigma>1 \<sigma>2" "stable D"
  shows "walked D E it \<sigma> \<sigma>2"
proof -
  have "pruned D E \<sigma> \<sigma>2" by (rule pruned_trans [of D E \<sigma> \<sigma>1 \<sigma>2, OF _ _ assms(3)]) (use assms(1,2) in \<open>simp_all add: walked_def\<close>)
  moreover have "shrinks (rrl \<sigma>) (rrl \<sigma>2)" by (rule shrinks_trans [of _ "rrl \<sigma>1"]) (use assms(1,2) in \<open>simp_all add: walked_def\<close>)
  moreover have "items (cents \<sigma>2) \<in> {items (cents \<sigma>), items (cents \<sigma>) - {it}}" using assms(1,2) by (auto simp: walked_def)
  ultimately show ?thesis using assms(1,2) by (simp add: walked_def)
qed

text \<open>One RR set goes.\<close>

lemma walked_slot:
  assumes "cache_inv \<sigma>" "cents \<sigma> a = Some c" "slot c i = Some rs" "rs_lent rs = Some m"
    "changed (dom (cents \<sigma>)) {} a (del_slot c i) \<sigma> \<sigma>'" "D c rs"
  shows "walked D E (m, a, Some i) \<sigma> \<sigma>'"
proof -
  have I: "cinv (dom (cents \<sigma>)) {} \<sigma>" using assms(1) by (simp add: cache_inv_def)
  note g = assms(5) [unfolded changed_def]
  have wf: "cent_wf c" "cent_shape c" using cinv_ent [OF I assms(2)] by simp_all
  note p = del_slot_props [OF wf(1), of i]
  have "dom (cents \<sigma>') = dom (cents \<sigma>)" using g assms(2) by auto
  then have inv: "cache_inv \<sigma>'" using g by (simp add: cache_inv_def)
  have "items (cents \<sigma>') = cent_items a (del_slot c i) \<union> rest a (cents \<sigma>)" using g items_upd by simp
  moreover have "cent_items a (del_slot c i) = cent_items a c - {(m, a, Some i)}"
    using del_slot_items [OF wf(1), of a i] assms(3,4) by simp
  moreover have "(m, a, Some i) \<notin> rest a (cents \<sigma>)" using rest_addr by fastforce
  ultimately have it: "items (cents \<sigma>') = items (cents \<sigma>) - {(m, a, Some i)}"
    using items_rest [of "cents \<sigma>" a c, OF assms(2)] by auto
  have nn: "\<not> neg c" using slot_Some_rr [OF wf(2) assms(3)] by simp
  have "pruned_cent D E c (Some (del_slot c i))"
    using p nn assms(3,6) by (auto simp: pruned_cent_def)
  then have "pruned D E \<sigma> \<sigma>'" using g assms(2) unfolding pruned_def by (auto simp: pruned_cent_def)
  moreover have "ce_cs (del_slot c i) \<le> ce_cs c" using rrset_size_pos [of rs] assms(3) by (simp add: del_slot_cs)
  then have "cache_size \<sigma>' \<le> cache_size \<sigma>"
    using cinvD(7) [OF I] g total_le [OF cinvD(2) [OF I] assms(2)] by (simp add: cinv_def)
  ultimately show ?thesis using inv it g by (simp add: walked_def)
qed

lemma num_0_slots: "cent_wf c \<Longrightarrow> ce_num c = 0 \<Longrightarrow> slot c i = None"
  by (auto simp: cent_wf_def slots_num_0 slot_def)

lemma num_0_items: "cent_wf c \<Longrightarrow> \<not> neg c \<Longrightarrow> ce_num c = 0 \<Longrightarrow> cent_items a c = {}"
  using cent_items_rr [of c a] by (auto simp: num_0_slots cent_wf_def)

lemma neg_num: "cent_wf c \<Longrightarrow> neg c \<Longrightarrow> ce_num c = 0"
  by (auto simp: cent_wf_def elim: cent_shapeE)

text \<open>An entry that has become empty is deleted.\<close>

lemma walked_empty:
  assumes "cache_inv \<sigma>" "cents \<sigma> a = Some c" "\<not> neg c" "ce_num c = 0"
    "it \<in> items (cents \<sigma>) \<or> it \<notin> items (cents \<sigma>)"
  shows "\<exists>\<sigma>'. del_cache_ent a None \<sigma> = Some \<sigma>' \<and> walked D E it \<sigma> \<sigma>'"
proof -
  have I: "cinv (dom (cents \<sigma>)) {} \<sigma>" using assms(1) by (simp add: cache_inv_def)
  have wf: "cent_wf c" using cinv_ent [OF I assms(2)] by simp
  obtain \<sigma>' where d: "del_cache_ent a None \<sigma> = Some \<sigma>'" "gone (dom (cents \<sigma>)) {} a \<sigma> \<sigma>'"
    using del_cache_ent_spec [OF I assms(2), of None] assms(2) by auto
  note g = d(2) [unfolded gone_def]
  have "dom (cents \<sigma>') = dom (cents \<sigma>) - {a}" using g by auto
  then have inv: "cache_inv \<sigma>'" using g by (simp add: cache_inv_def)
  have "items (cents \<sigma>') = items (cents \<sigma>)"
    using g items_del items_rest [of "cents \<sigma>" a c, OF assms(2)] num_0_items [OF wf assms(3,4)] by simp
  moreover have "pruned_cent D E c None" using assms(3) num_0_slots [OF wf assms(4)] by (simp add: pruned_cent_def)
  then have "pruned D E \<sigma> \<sigma>'" using g assms(2) unfolding pruned_def by (auto simp: pruned_cent_def)
  moreover have "cache_size \<sigma>' \<le> cache_size \<sigma>" by (rule gone_size [OF I assms(2) _ d(2)]) simp
  ultimately show ?thesis using d(1) inv g by (simp add: walked_def)
qed

text \<open>The body of the first walk.\<close>

abbreviation (input) stale_ok :: "int \<Rightarrow> dns_cent \<Rightarrow> rr_set \<Rightarrow> bool" where
  "stale_ok now \<equiv> \<lambda>c rs. \<not> local_set c rs \<and> stale_set now rs"

abbreviation (input) neg_ok :: "int \<Rightarrow> dns_cent \<Rightarrow> bool" where
  "neg_ok now \<equiv> \<lambda>c. \<not> has (ce_flags c) DF_LOCAL \<and> timedout_nxdom now c = Some True"

lemma stable_stale [simp]: "stable (stale_ok now)" "stable (\<lambda>c rs. \<not> local_set c rs)"
  by (auto simp: stable_def local_set_def fun_eq_iff)

lemma purge_timedout_spec:
  assumes "cache_inv \<sigma>" "(m, a, idx) \<in> items (cents \<sigma>)" "ln_cent n = a" "ln_idx n = idx"
  shows "\<exists>\<sigma>'. purge_timedout now n \<sigma> = Some \<sigma>' \<and> walked (stale_ok now) (neg_ok now) (m, a, idx) \<sigma> \<sigma>'"
proof -
  have I: "cinv (dom (cents \<sigma>)) {} \<sigma>" using assms(1) by (simp add: cache_inv_def)
  obtain c where c: "cents \<sigma> a = Some c" "(m, a, idx) \<in> cent_items a c" "cent_wf c" "cent_shape c" "linked c" "a \<in> dom (cents \<sigma>)"
    using item_entry [OF assms(2,1)] by blast
  note loc = local_node_eq [OF c(2,4)]
  show ?thesis
  proof (cases "local_item c idx")
    case True
    then show ?thesis using c(1) loc assms(3,4) walked_refl [OF assms(1)] by (simp add: purge_timedout_def)
  next
    case nl: False
    from c(2,4) show ?thesis
    proof (cases rule: item_cases)
      case (N ttl ts)
      have num: "ce_num c = 0" by (rule neg_num [OF c(3) N(2)])
      obtain b where b: "cent_dead now c = Some b" using cent_dead_eq [OF c(4)] by blast
      show ?thesis
      proof (cases b)
        case True
        obtain \<sigma>' where d: "del_cache_ent a None \<sigma> = Some \<sigma>'" "gone (dom (cents \<sigma>)) {} a \<sigma> \<sigma>'"
          using del_cache_ent_spec [OF I c(1,6), of None] by auto
        have nk: "neg_ok now c" using b True N(2) nl by (auto simp: cent_dead_def local_item_def split: if_splits)
        have "slot c i = None" for i by (rule num_0_slots [OF c(3) num])
        then have "walked (stale_ok now) (neg_ok now) (m, a, idx) \<sigma> \<sigma>'"
          using nk N(1,4) assms(2) by (intro walked_del [OF assms(1) c(1) d(2)]) simp_all
        then show ?thesis using c(1) loc nl assms(3,4) N(1) num b True d(1) by (simp add: purge_timedout_def)
      next
        case False
        then show ?thesis using c(1) loc nl assms(3,4) N(1) num b walked_refl [OF assms(1)] by (simp add: purge_timedout_def)
      qed
    next
      case (S i rs)
      have nls: "\<not> local_set c rs" using nl S(1,3) by (simp add: local_item_def local_set_def)
      obtain \<sigma>1 where 1: "purge_rrset now a i False \<sigma> = Some (stale_at now c i, \<sigma>1)"
        "changed (dom (cents \<sigma>)) {} a (if stale_at now c i then del_slot c i else c) \<sigma> \<sigma>1"
        using purge_rrset_spec(2) [OF I c(1) _ S(6)] by auto
      show ?thesis
      proof (cases "stale_at now c i")
        case False
        have "purge_rrset now a i False \<sigma> = Some (False, \<sigma>)"
          using c(1) RRARR_TEST_eq [OF c(4) S(6)] S(3) False by (simp add: purge_rrset_def stale_at_def)
        moreover have "ce_num c \<noteq> 0" using num_0_slots [OF c(3), of i] S(3) by auto
        ultimately show ?thesis using c(1) loc nl assms(3,4) S(1) walked_refl [OF assms(1)]
          by (simp add: purge_timedout_def)
      next
        case True
        have ch: "changed (dom (cents \<sigma>)) {} a (del_slot c i) \<sigma> \<sigma>1" using 1(2) True by simp
        have "stale_set now rs" using True S(3) by (simp add: stale_at_def)
        then have w1: "walked (stale_ok now) (neg_ok now) (m, a, Some i) \<sigma> \<sigma>1"
          using nls by (intro walked_slot [OF assms(1) c(1) S(3,4) ch]) simp
        have inv1: "cache_inv \<sigma>1" and c1: "cents \<sigma>1 a = Some (del_slot c i)"
          using w1 ch by (simp_all add: walked_def changed_def)
        have n1: "\<not> neg (del_slot c i)" using del_slot_props(5) [OF c(3)] S(2) by simp
        have sh1: "cent_shape (del_slot c i)" using del_slot_props(1) [OF c(3)] by (simp add: cent_wf_def)
        show ?thesis
        proof (cases "ce_num (del_slot c i) = 0")
          case z: True
          obtain \<sigma>2 where "del_cache_ent a None \<sigma>1 = Some \<sigma>2" "walked (stale_ok now) (neg_ok now) (m, a, Some i) \<sigma>1 \<sigma>2"
            using walked_empty [OF inv1 c1 n1 z] by blast
          then show ?thesis using c(1) loc nl assms(3,4) S(1) 1(1) c1 z cent_dead_eq(2) [OF sh1 n1] walked_trans [OF w1]
            by (simp add: purge_timedout_def)
        next
          case z: False
          then show ?thesis using c(1) loc nl assms(3,4) S(1) 1(1) c1 w1 by (simp add: purge_timedout_def)
        qed
      qed
    qed
  qed
qed

text \<open>The body of the second walk; it leaves the item only if it is local.\<close>

lemma purge_oldest_spec:
  assumes "cache_inv \<sigma>" "(m, a, idx) \<in> items (cents \<sigma>)" "ln_cent n = a" "ln_idx n = idx"
  shows "\<exists>\<sigma>'. purge_oldest n \<sigma> = Some \<sigma>' \<and> walked (\<lambda>c rs. \<not> local_set c rs) (\<lambda>c. \<not> has (ce_flags c) DF_LOCAL) (m, a, idx) \<sigma> \<sigma>' \<and>
    ((m, a, idx) \<in> items (cents \<sigma>') \<longrightarrow> \<sigma>' = \<sigma> \<and> (\<forall>c. cents \<sigma> a = Some c \<longrightarrow> local_item c idx))"
proof -
  let ?D = "\<lambda>c rs. \<not> local_set c rs" and ?E = "\<lambda>c :: dns_cent. \<not> has (ce_flags c) DF_LOCAL"
  have I: "cinv (dom (cents \<sigma>)) {} \<sigma>" using assms(1) by (simp add: cache_inv_def)
  obtain c where c: "cents \<sigma> a = Some c" "(m, a, idx) \<in> cent_items a c" "cent_wf c" "cent_shape c" "linked c" "a \<in> dom (cents \<sigma>)"
    using item_entry [OF assms(2,1)] by blast
  note loc = local_node_eq [OF c(2,4)]
  show ?thesis
  proof (cases "local_item c idx")
    case True
    then show ?thesis using c(1) loc assms(3,4) walked_refl [OF assms(1)] by (simp add: purge_oldest_def)
  next
    case nl: False
    from c(2,4) show ?thesis
    proof (cases rule: item_cases)
      case (N ttl ts)
      have num: "ce_num c = 0" by (rule neg_num [OF c(3) N(2)])
      obtain \<sigma>' where d: "del_cache_ent a None \<sigma> = Some \<sigma>'" "gone (dom (cents \<sigma>)) {} a \<sigma> \<sigma>'"
        using del_cache_ent_spec [OF I c(1,6), of None] by auto
      have nk: "?E c" using nl by (simp add: local_item_def)
      have "slot c i = None" for i by (rule num_0_slots [OF c(3) num])
      then have w: "walked ?D ?E (m, a, idx) \<sigma> \<sigma>'"
        using nk N(1,4) assms(2) by (intro walked_del [OF assms(1) c(1) d(2)]) simp_all
      have "(m, a, idx) \<notin> items (cents \<sigma>')" using d(2) rest_addr by (fastforce simp: gone_def items_del)
      then show ?thesis using w c(1) loc nl assms(3,4) N(1) num d(1) by (simp add: purge_oldest_def)
    next
      case (S i rs)
      have nls: "?D c rs" using nl S(1,3) by (simp add: local_item_def local_set_def)
      obtain \<sigma>1 where 1: "del_cached_rrset a i \<sigma> = Some \<sigma>1" "changed (dom (cents \<sigma>)) {} a (del_slot c i) \<sigma> \<sigma>1"
        using del_cached_rrset_spec [OF I c(1) _ S(6)] by auto
      have w1: "walked ?D ?E (m, a, Some i) \<sigma> \<sigma>1" by (rule walked_slot [where D = ?D, OF assms(1) c(1) S(3,4) 1(2) nls])
      have inv1: "cache_inv \<sigma>1" and c1: "cents \<sigma>1 a = Some (del_slot c i)"
        using w1 1(2) by (simp_all add: walked_def changed_def)
      have n1: "\<not> neg (del_slot c i)" using del_slot_props(5) [OF c(3)] S(2) by simp
      have out: "(m, a, Some i) \<notin> items (cents \<sigma>1)"
      proof -
        have "(m, a, Some i) \<notin> cent_items a (del_slot c i)" using del_slot_items [OF c(3), of a i] S(3,4) by simp
        moreover have "(m, a, Some i) \<notin> rest a (cents \<sigma>)" using rest_addr by fastforce
        ultimately show ?thesis using 1(2) items_upd by (simp add: changed_def)
      qed
      show ?thesis
      proof (cases "ce_num (del_slot c i) = 0")
        case z: True
        obtain \<sigma>2 where 2: "del_cache_ent a None \<sigma>1 = Some \<sigma>2" "walked ?D ?E (m, a, Some i) \<sigma>1 \<sigma>2"
          using walked_empty [OF inv1 c1 n1 z] by blast
        have "(m, a, Some i) \<notin> items (cents \<sigma>2)" using 2(2) out by (auto simp: walked_def)
        then show ?thesis using c(1) loc nl assms(3,4) S(1) 1(1) c1 z 2 walked_trans [OF w1 2(2)]
          by (simp add: purge_oldest_def)
      next
        case z: False
        then show ?thesis using c(1) loc nl assms(3,4) S(1) 1(1) c1 w1 out by (simp add: purge_oldest_def)
      qed
    qed
  qed
qed

subsection \<open>The walks\<close>

lemma cache_inv_list: "cache_inv \<sigma> \<Longrightarrow> \<exists>its. rrl_rep (rrl \<sigma>) its \<and> set its = items (cents \<sigma>)"
  by (auto simp: cache_inv_def cinv_def rrl_ok_def)

lemma rep_items: "cache_inv \<sigma> \<Longrightarrow> rrl_rep (rrl \<sigma>) its \<Longrightarrow> set its = items (cents \<sigma>)"
  using cache_inv_list rl.rep_inj by blast

lemma rep_node:
  assumes "rrl_rep L (pre @ x # suf)"
  shows "\<exists>n. rl_mem L (fst x) = Some n \<and> ln_cent n = fst (snd x) \<and> ln_idx n = snd (snd x) \<and> ln_next n = hd_or (map fst suf) None"
proof -
  obtain n where n: "rl_mem L (fst x) = Some n" "node_item (fst x) n = x" using rrl_repD(6) [OF assms, of x] by auto
  have "lseg (rl_mem L) (last_or (map fst pre) None) (map fst (x # suf)) None" by (rule rrl_rep_splitD(5) [OF assms])
  then have "ln_next n = hd_or (map fst suf) None" using n(1) by (cases suf) auto
  then show ?thesis using n by (cases x) (simp add: node_item_def)
qed

lemma walked_list:
  assumes "cache_inv \<sigma>" "rrl_rep (rrl \<sigma>) (pre @ x # suf)" "walked D E x \<sigma> \<sigma>'"
  shows "rrl_rep (rrl \<sigma>') ((if x \<in> items (cents \<sigma>') then pre @ [x] else pre) @ suf)"
proof -
  have inv': "cache_inv \<sigma>'" using assms(3) by (simp add: walked_def)
  obtain P where P: "rrl_rep (rrl \<sigma>') (filter P (pre @ x # suf))" using assms(2,3) by (auto simp: walked_def shrinks_def)
  have its: "set (pre @ x # suf) = items (cents \<sigma>)" by (rule rep_items [OF assms(1,2)])
  have its': "set (filter P (pre @ x # suf)) = items (cents \<sigma>')" by (rule rep_items [OF inv' P])
  have w: "items (cents \<sigma>') \<in> {items (cents \<sigma>), items (cents \<sigma>) - {x}}" using assms(3) by (simp add: walked_def)
  have "distinct (map fst (pre @ x # suf))" using rrl_repD(1) [OF assms(2)] .
  then have x: "x \<notin> set pre" "x \<notin> set suf" by auto
  have P1: "P y" if "y \<in> set (pre @ suf)" for y
  proof -
    have "y \<in> items (cents \<sigma>')" using that w x its [symmetric] by auto
    then show ?thesis unfolding its' [symmetric] set_filter by blast
  qed
  have Px: "P x = (x \<in> items (cents \<sigma>'))" unfolding its' [symmetric] set_filter by auto
  have "filter P pre = pre" "filter P suf = suf" using P1 by (auto simp: filter_id_conv)
  then show ?thesis using P Px by (simp split: if_splits)
qed

definition walks :: "(dns_cent \<Rightarrow> rr_set \<Rightarrow> bool) \<Rightarrow> (dns_cent \<Rightarrow> bool) \<Rightarrow> cache \<Rightarrow> cache \<Rightarrow> bool" where
  "walks D E \<sigma> \<sigma>' = (cache_inv \<sigma>' \<and> shrinks (rrl \<sigma>) (rrl \<sigma>') \<and> items (cents \<sigma>') \<subseteq> items (cents \<sigma>) \<and> pruned D E \<sigma> \<sigma>' \<and>
     insert_sort \<sigma>' = insert_sort \<sigma> \<and> mallocs \<sigma>' = mallocs \<sigma> \<and> next_id \<sigma>' = next_id \<sigma> \<and>
     cache_size \<sigma>' \<le> cache_size \<sigma>)"

lemma walks_refl: "cache_inv \<sigma> \<Longrightarrow> walks D E \<sigma> \<sigma>"
  by (simp add: walks_def)

lemma walked_walks: "walked D E it \<sigma> \<sigma>' \<Longrightarrow> walks D E \<sigma> \<sigma>'"
  by (auto simp: walked_def walks_def)

lemma walks_trans:
  assumes "walks D E \<sigma> \<sigma>1" "walks D E \<sigma>1 \<sigma>2" "stable D"
  shows "walks D E \<sigma> \<sigma>2"
proof -
  have "pruned D E \<sigma> \<sigma>2"
    by (rule pruned_trans [of D E \<sigma> \<sigma>1 \<sigma>2, OF _ _ assms(3)]) (use assms(1,2) in \<open>simp_all add: walks_def\<close>)
  moreover have "items (cents \<sigma>2) \<subseteq> items (cents \<sigma>)" using assms(1,2) by (auto simp: walks_def)
  moreover have "shrinks (rrl \<sigma>) (rrl \<sigma>2)" by (rule shrinks_trans [of _ "rrl \<sigma>1"]) (use assms(1,2) in \<open>simp_all add: walks_def\<close>)
  ultimately show ?thesis using assms(1,2) by (simp add: walks_def)
qed

lemma walks_weaken:
  "walks D E \<sigma> \<sigma>' \<Longrightarrow> (\<And>c rs. D c rs \<Longrightarrow> D' c rs) \<Longrightarrow> (\<And>c. E c \<Longrightarrow> E' c) \<Longrightarrow> walks D' E' \<sigma> \<sigma>'"
  using pruned_weaken [of D E \<sigma> \<sigma>' D' E'] by (simp add: walks_def)

lemma purge_walk1_spec:
  assumes "cache_inv \<sigma>" "rrl_rep (rrl \<sigma>) (pre @ suf)"
  shows "\<exists>\<sigma>'. purge_walk1 now sz lazy (hd_or (map fst suf) None) \<sigma> = Some \<sigma>' \<and> walks (stale_ok now) (neg_ok now) \<sigma> \<sigma>'"
  using assms
proof (induction suf arbitrary: pre \<sigma>)
  case Nil
  have "purge_walk1 now sz lazy None \<sigma> = Some \<sigma>" by (subst purge_walk1.simps) simp
  then show ?case using walks_refl [OF Nil(1)] by simp
next
  case (Cons x suf)
  obtain m a idx where x: "x = (m, a, idx)" by (cases x) auto
  obtain n where n: "rl_mem (rrl \<sigma>) m = Some n" "ln_cent n = a" "ln_idx n = idx" "ln_next n = hd_or (map fst suf) None"
    using rep_node [OF Cons.prems(2)] x by auto
  show ?case
  proof (cases "\<not> lazy \<or> cache_size \<sigma> > sz")
    case False
    then have "purge_walk1 now sz lazy (Some m) \<sigma> = Some \<sigma>" by (subst purge_walk1.simps) simp
    then show ?thesis using walks_refl [OF Cons.prems(1)] x by simp
  next
    case True
    have "(m, a, idx) \<in> items (cents \<sigma>)" using rep_items [OF Cons.prems] x by auto
    from purge_timedout_spec [OF Cons.prems(1) this n(2,3)] obtain \<sigma>1 where
      1: "purge_timedout now n \<sigma> = Some \<sigma>1" "walked (stale_ok now) (neg_ok now) x \<sigma> \<sigma>1" unfolding x by blast
    have inv1: "cache_inv \<sigma>1" using 1(2) by (simp add: walked_def)
    obtain \<sigma>' where 2: "purge_walk1 now sz lazy (hd_or (map fst suf) None) \<sigma>1 = Some \<sigma>'" "walks (stale_ok now) (neg_ok now) \<sigma>1 \<sigma>'"
      using Cons.IH [OF inv1 walked_list [OF Cons.prems 1(2)]] by blast
    have "purge_walk1 now sz lazy (Some m) \<sigma> = Some \<sigma>'"
      using True n 1(1) 2(1) by (subst purge_walk1.simps) simp
    then show ?thesis using walks_trans [OF walked_walks [OF 1(2)] 2(2)] x by simp
  qed
qed

definition item_local :: "cache \<Rightarrow> item \<Rightarrow> bool" where
  "item_local \<sigma> it = (\<forall>c. cents \<sigma> (fst (snd it)) = Some c \<longrightarrow> local_item c (snd (snd it)))"

lemma item_local_pruned:
  assumes "cache_inv \<sigma>'" "pruned D E \<sigma> \<sigma>'" "it \<in> items (cents \<sigma>')" "item_local \<sigma> it"
  shows "item_local \<sigma>' it"
  unfolding item_local_def
proof (intro allI impI)
  fix c' assume c': "cents \<sigma>' (fst (snd it)) = Some c'"
  obtain m a idx where it: "it = (m, a, idx)" by (cases it) auto
  obtain c where c: "cents \<sigma> a = Some c" using assms(2) c' it by (auto simp: pruned_def)
  then have "pruned_cent D E c (cents \<sigma>' a)" using assms(2) by (simp add: pruned_def)
  then have p: "pruned_cent D E c (Some c')" using c' it by simp
  have l: "local_item c idx" using assms(4) c it by (simp add: item_local_def)
  obtain c2 where "cents \<sigma>' a = Some c2" "(m, a, idx) \<in> cent_items a c2" "cent_shape c2"
    using item_entry [OF _ assms(1)] assms(3) it by blast
  then have ci: "(m, a, idx) \<in> cent_items a c'" "cent_shape c'" using c' it by simp_all
  from ci have "local_item c' idx"
  proof (cases rule: item_cases)
    case (N ttl ts)
    then show ?thesis using l p by (simp add: local_item_def pruned_cent_def)
  next
    case (S i rs)
    have "slot c' i = slot c i \<or> slot c' i = None" using p by (auto simp: pruned_cent_def)
    then show ?thesis using l p S by (auto simp: local_item_def pruned_cent_def)
  qed
  then show "local_item c' (snd (snd it))" using it by simp
qed

abbreviation (input) not_local :: "dns_cent \<Rightarrow> rr_set \<Rightarrow> bool" where
  "not_local \<equiv> \<lambda>c rs. \<not> local_set c rs"

abbreviation (input) not_local_neg :: "dns_cent \<Rightarrow> bool" where
  "not_local_neg \<equiv> \<lambda>c. \<not> has (ce_flags c) DF_LOCAL"

lemma purge_walk2_spec:
  assumes "cache_inv \<sigma>" "rrl_rep (rrl \<sigma>) (pre @ suf)" "\<forall>it \<in> set pre. item_local \<sigma> it"
  shows "\<exists>\<sigma>' p s. purge_walk2 sz (hd_or (map fst suf) None) \<sigma> = Some \<sigma>' \<and> walks not_local not_local_neg \<sigma> \<sigma>' \<and>
    suf = p @ s \<and> items (cents \<sigma>) - items (cents \<sigma>') \<subseteq> set p \<and> (s = [] \<or> cache_size \<sigma>' \<le> sz) \<and>
    (\<forall>it \<in> items (cents \<sigma>') \<inter> (set pre \<union> set p). item_local \<sigma>' it)"
  using assms
proof (induction suf arbitrary: pre \<sigma>)
  case Nil
  have "purge_walk2 sz None \<sigma> = Some \<sigma>" by (subst purge_walk2.simps) simp
  then show ?case using walks_refl [OF Nil(1)] Nil(3) by (intro exI [of _ \<sigma>] exI [of _ "[]"]) simp
next
  case (Cons x suf)
  obtain m a idx where x: "x = (m, a, idx)" by (cases x) auto
  obtain n where n: "rl_mem (rrl \<sigma>) m = Some n" "ln_cent n = a" "ln_idx n = idx" "ln_next n = hd_or (map fst suf) None"
    using rep_node [OF Cons.prems(2)] x by auto
  show ?case
  proof (cases "cache_size \<sigma> > sz")
    case False
    then have "purge_walk2 sz (Some m) \<sigma> = Some \<sigma>" by (subst purge_walk2.simps) simp
    then show ?thesis using walks_refl [OF Cons.prems(1)] x Cons.prems(3) False
      by (intro exI [of _ \<sigma>] exI [of _ "[]"] exI [of _ "x # suf"]) simp
  next
    case True
    have it: "(m, a, idx) \<in> items (cents \<sigma>)" using rep_items [OF Cons.prems(1,2)] x by auto
    from purge_oldest_spec [OF Cons.prems(1) it n(2,3)] obtain \<sigma>1 where
      1: "purge_oldest n \<sigma> = Some \<sigma>1" "walked not_local not_local_neg x \<sigma> \<sigma>1"
      "x \<in> items (cents \<sigma>1) \<longrightarrow> \<sigma>1 = \<sigma> \<and> (\<forall>c. cents \<sigma> a = Some c \<longrightarrow> local_item c idx)" unfolding x by blast
    have inv1: "cache_inv \<sigma>1" and pr1: "pruned not_local not_local_neg \<sigma> \<sigma>1" using 1(2) by (simp_all add: walked_def)
    let ?pre = "if x \<in> items (cents \<sigma>1) then pre @ [x] else pre"
    note rep1 = walked_list [OF Cons.prems(1,2) 1(2)]
    have loc1: "\<forall>it \<in> set ?pre. item_local \<sigma>1 it"
    proof
      fix it assume i: "it \<in> set ?pre"
      then have "it \<in> items (cents \<sigma>1)" using rep_items [OF inv1 rep1] by auto
      moreover have "item_local \<sigma> it"
        using i Cons.prems(3) 1(3) x by (auto simp: item_local_def split: if_splits)
      ultimately show "item_local \<sigma>1 it" by (rule item_local_pruned [OF inv1 pr1])
    qed
    obtain \<sigma>' p s where 2: "purge_walk2 sz (hd_or (map fst suf) None) \<sigma>1 = Some \<sigma>'" "walks not_local not_local_neg \<sigma>1 \<sigma>'"
      "suf = p @ s" "items (cents \<sigma>1) - items (cents \<sigma>') \<subseteq> set p" "s = [] \<or> cache_size \<sigma>' \<le> sz"
      "\<forall>it \<in> items (cents \<sigma>') \<inter> (set ?pre \<union> set p). item_local \<sigma>' it"
      using Cons.IH [OF inv1 rep1 loc1] by (elim exE conjE) (rule that)
    have "purge_walk2 sz (Some m) \<sigma> = Some \<sigma>'"
      using True n 1(1) 2(1) by (subst purge_walk2.simps) simp
    moreover have "walks not_local not_local_neg \<sigma> \<sigma>'" by (rule walks_trans [OF walked_walks [OF 1(2)] 2(2)]) simp
    moreover have "items (cents \<sigma>) - items (cents \<sigma>') \<subseteq> set (x # p)" using 2(4) 1(2) by (auto simp: walked_def)
    moreover have "\<forall>it \<in> items (cents \<sigma>') \<inter> (set pre \<union> set (x # p)). item_local \<sigma>' it"
    proof
      fix it assume i: "it \<in> items (cents \<sigma>') \<inter> (set pre \<union> set (x # p))"
      then have "it \<in> items (cents \<sigma>1)" using 2(2) by (auto simp: walks_def)
      then show "item_local \<sigma>' it" using i 2(6) by auto
    qed
    ultimately show ?thesis using 2(3,5) x by (intro exI [of _ \<sigma>'] exI [of _ "x # p"] exI [of _ s]) simp
  qed
qed

subsection \<open>The whole\<close>

definition only_local :: "dns_cent \<Rightarrow> bool" where
  "only_local c = (has (ce_flags c) DF_LOCAL \<or> (\<not> neg c \<and> (\<forall>i rs. slot c i = Some rs \<longrightarrow> has (rs_flags rs) CF_LOCAL)))"

lemma all_local:
  assumes "cache_inv \<sigma>" "\<forall>it \<in> items (cents \<sigma>). item_local \<sigma> it" "cents \<sigma> a = Some c"
  shows "only_local c"
proof (rule ccontr)
  assume n: "\<not> only_local c"
  have I: "cinv (dom (cents \<sigma>)) {} \<sigma>" using assms(1) by (simp add: cache_inv_def)
  have c: "cent_shape c" "linked c" using cinv_ent [OF I assms(3)] by simp_all
  have loc: "local_item c idx" if "(m, a, idx) \<in> cent_items a c" for m idx
  proof -
    have "(m, a, idx) \<in> items (cents \<sigma>)" using that items_rest [of "cents \<sigma>" a c] assms(3) by simp
    then have "item_local \<sigma> (m, a, idx)" using assms(2) by blast
    then show ?thesis using assms(3) by (simp add: item_local_def)
  qed
  have df: "\<not> has (ce_flags c) DF_LOCAL" using n by (simp add: only_local_def)
  show False
  proof (cases "neg c")
    case True
    obtain le ttl ts where b: "ce_body c = NegBody le ttl ts" using c(1) True by (auto elim: cent_shapeE)
    obtain m where "le = Some m" using c(2) b df by (auto simp: linked_def)
    then have "(m, a, None) \<in> cent_items a c" using cent_items_neg [OF b, of a] by simp
    then show False using loc df by (fastforce simp: local_item_def)
  next
    case False
    then obtain i rs where rs: "slot c i = Some rs" "\<not> has (rs_flags rs) CF_LOCAL" using n by (auto simp: only_local_def)
    have "rs_lent rs \<noteq> None" using c(2) df rs body_rr [OF c(1) False] by (auto simp: linked_def rr_body_def)
    then obtain m where "(m, a, Some i) \<in> cent_items a c" using rs(1) by (auto simp: cent_items_rr [OF c(1) False])
    then show False using loc df rs by (fastforce simp: local_item_def)
  qed
qed

lemma items_times:
  assumes "cache_inv \<sigma>" "(m, a, idx) \<in> items (cents \<sigma>)"
  shows "\<exists>t. get_rrlent_ts (cents \<sigma>) a idx = Some t"
proof -
  obtain c where c: "cents \<sigma> a = Some c" "(m, a, idx) \<in> cent_items a c" "cent_shape c" using item_entry [OF assms(2,1)] by blast
  from c(2,3) show ?thesis
  proof (cases rule: item_cases)
    case (N ttl ts)
    then show ?thesis using c(1) by (simp add: get_rrlent_ts_def)
  next
    case (S i rs)
    then show ?thesis using c(1) RRARR_INDEX_eq [OF c(3) S(5)] by (simp add: get_rrlent_ts_def)
  qed
qed

text \<open>The list is in the order of the time stamps. What is taken away leaves the order and the times of the rest.\<close>

definition in_order :: "cache \<Rightarrow> bool" where
  "in_order \<sigma> = (\<forall>its. rrl_rep (rrl \<sigma>) its \<longrightarrow> sorted (map (item_time (get_rrlent_ts (cents \<sigma>))) its))"

lemma item_time_pruned:
  assumes "cache_inv \<sigma>" "cache_inv \<sigma>'" "pruned D E \<sigma> \<sigma>'" "it \<in> items (cents \<sigma>')"
  shows "item_time (get_rrlent_ts (cents \<sigma>')) it = item_time (get_rrlent_ts (cents \<sigma>)) it"
proof -
  obtain m a idx where it: "it = (m, a, idx)" by (cases it) auto
  obtain c' where c': "cents \<sigma>' a = Some c'" "(m, a, idx) \<in> cent_items a c'" "cent_shape c'"
    using item_entry [OF _ assms(2)] assms(4) it by blast
  obtain c where c: "cents \<sigma> a = Some c" using assms(3) c'(1) by (auto simp: pruned_def)
  have I: "cinv (dom (cents \<sigma>)) {} \<sigma>" using assms(1) by (simp add: cache_inv_def)
  have sh: "cent_shape c" by (rule cinv_ent [OF I c])
  have "pruned_cent D E c (cents \<sigma>' a)" using assms(3) c by (simp add: pruned_def)
  then have p: "pruned_cent D E c (Some c')" using c'(1) by simp
  from c'(2,3) show ?thesis
  proof (cases rule: item_cases)
    case (N ttl ts)
    then have "c' = c" using p by (simp add: pruned_cent_def)
    then show ?thesis using it N(1,3) c c'(1) by (simp add: item_time_def get_rrlent_ts_def)
  next
    case (S i rs)
    have "slot c' i = slot c i \<or> slot c' i = None" using p by (auto simp: pruned_cent_def)
    then have "slot c i = Some rs" using S(3) by auto
    moreover have "i < length (slots c)" using calculation by (auto dest: slot_SomeD)
    ultimately show ?thesis using it S c c'(1) RRARR_INDEX_eq [OF c'(3) S(5)] RRARR_INDEX_eq [OF sh, of i]
      by (simp add: item_time_def get_rrlent_ts_def)
  qed
qed

lemma in_order_walks:
  assumes "cache_inv \<sigma>" "walks D E \<sigma> \<sigma>'" "in_order \<sigma>"
  shows "in_order \<sigma>'"
  unfolding in_order_def
proof (intro allI impI)
  fix its' assume i: "rrl_rep (rrl \<sigma>') its'"
  obtain its where its: "rrl_rep (rrl \<sigma>) its" using cache_inv_list [OF assms(1)] by blast
  then obtain P where P: "rrl_rep (rrl \<sigma>') (filter P its)" using assms(2) by (auto simp: walks_def shrinks_def)
  have inv': "cache_inv \<sigma>'" and pr: "pruned D E \<sigma> \<sigma>'" using assms(2) by (simp_all add: walks_def)
  have e: "its' = filter P its" by (rule rl.rep_inj [OF i P])
  have m: "map (item_time (get_rrlent_ts (cents \<sigma>'))) its' = map (item_time (get_rrlent_ts (cents \<sigma>))) its'"
    using item_time_pruned [OF assms(1) inv' pr] rep_items [OF inv' i] by (intro map_cong) simp_all
  have "sorted (map (item_time (get_rrlent_ts (cents \<sigma>))) its)" using assms(3) its by (simp add: in_order_def)
  then have "sorted (map (item_time (get_rrlent_ts (cents \<sigma>))) its')" unfolding e by (rule sorted_filter)
  then show "sorted (map (item_time (get_rrlent_ts (cents \<sigma>'))) its')" unfolding m .
qed

lemma sort_list_spec:
  assumes "cache_inv \<sigma>" "card (items (cents \<sigma>)) < 2 ^ 32"
  shows "\<exists>\<sigma>'. sort_list \<sigma> = Some \<sigma>' \<and> cache_inv \<sigma>' \<and> cents \<sigma>' = cents \<sigma> \<and> cache_size \<sigma>' = cache_size \<sigma> \<and>
    mallocs \<sigma>' = mallocs \<sigma> \<and> next_id \<sigma>' = next_id \<sigma> \<and> ((insert_sort \<sigma> \<longrightarrow> in_order \<sigma>) \<longrightarrow> in_order \<sigma>')"
proof (cases "insert_sort \<sigma>")
  case True
  then show ?thesis using assms(1) by (simp add: sort_list_def)
next
  case False
  obtain its where its: "rrl_rep (rrl \<sigma>) its" "set its = items (cents \<sigma>)" using cache_inv_list [OF assms(1)] by blast
  have tm: "times_ok (get_rrlent_ts (cents \<sigma>)) its" using items_times [OF assms(1)] its(2) by (auto simp: times_ok_def)
  have "distinct its" using rrl_repD(1) [OF its(1)] by (simp add: distinct_map)
  then have "length its < 2 ^ 32" using assms(2) its(2) by (metis distinct_card)
  with sort_rrl_rep [OF its(1)] tm obtain L where L: "sort_rrl (get_rrlent_ts (cents \<sigma>)) (rrl \<sigma>) = Some L"
    "rrl_rep L (sort_key (item_time (get_rrlent_ts (cents \<sigma>))) its)" unfolding times_ok_item by blast
  let ?s = "\<sigma>\<lparr> rrl := L, insert_sort := True \<rparr>"
  have I: "cinv (dom (cents \<sigma>)) {} \<sigma>" using assms(1) by (simp add: cache_inv_def)
  have "rrl_ok (items (cents \<sigma>)) L (next_id \<sigma>)"
    using L(2) its(2) cinvD(3) [OF I] unfolding rrl_ok_def by (intro exI [of _ "sort_key (item_time (get_rrlent_ts (cents \<sigma>))) its"]) auto
  moreover have "qn ?s = qn \<sigma>" by (simp add: qn_def fun_eq_iff)
  ultimately have "cache_inv ?s" using I by (simp add: cache_inv_def cinv_def entries_ok_def)
  moreover have "in_order ?s"
    unfolding in_order_def
  proof (intro allI impI)
    fix xs assume "rrl_rep (rrl ?s) xs"
    then have e: "xs = sort_key (item_time (get_rrlent_ts (cents \<sigma>))) its" using rl.rep_inj [OF _ L(2), of xs] by simp
    show "sorted (map (item_time (get_rrlent_ts (cents ?s))) xs)" unfolding e by simp
  qed
  ultimately show ?thesis using False L(1) by (simp add: sort_list_def)
qed

lemma purge_cache_spec:
  assumes "cache_inv \<sigma>" "card (items (cents \<sigma>)) < 2 ^ 32"
  shows "\<exists>\<sigma>'. purge_cache now sz lazy \<sigma> = Some \<sigma>' \<and> cache_inv \<sigma>' \<and> items (cents \<sigma>') \<subseteq> items (cents \<sigma>) \<and>
    pruned not_local not_local_neg \<sigma> \<sigma>' \<and> mallocs \<sigma>' = mallocs \<sigma> \<and> next_id \<sigma>' = next_id \<sigma> \<and>
    (cache_size \<sigma>' \<le> sz \<or> (\<forall>a c. cents \<sigma>' a = Some c \<longrightarrow> only_local c)) \<and> (lazy \<and> cache_size \<sigma> \<le> sz \<longrightarrow> \<sigma>' = \<sigma>)"
proof -
  obtain its where its: "rrl_rep (rrl \<sigma>) its" "set its = items (cents \<sigma>)" using cache_inv_list [OF assms(1)] by blast
  have first: "rl_first (rrl \<sigma>) = hd_or (map fst its) None" by (rule rrl_repD(3) [OF its(1)])
  obtain \<sigma>1 where 1: "purge_walk1 now sz lazy (rl_first (rrl \<sigma>)) \<sigma> = Some \<sigma>1" "walks (stale_ok now) (neg_ok now) \<sigma> \<sigma>1"
    using purge_walk1_spec [OF assms(1), of "[]" its now sz lazy] its(1) first by auto
  have w1: "walks not_local not_local_neg \<sigma> \<sigma>1" by (rule walks_weaken [OF 1(2)]) simp_all
  have inv1: "cache_inv \<sigma>1" using 1(2) by (simp add: walks_def)
  have lz: "lazy \<and> cache_size \<sigma> \<le> sz \<Longrightarrow> \<sigma>1 = \<sigma>"
    using 1(1) by (subst (asm) purge_walk1.simps) simp
  show ?thesis
  proof (cases "cache_size \<sigma>1 \<le> sz")
    case True
    then have "purge_cache now sz lazy \<sigma> = Some \<sigma>1" using 1(1) by (simp add: purge_cache_def)
    then show ?thesis using w1 True lz by (intro exI [of _ \<sigma>1]) (simp add: walks_def)
  next
    case False
    have fin: "finite (items (cents \<sigma>))" using its(2) by (metis List.finite_set)
    have sub: "items (cents \<sigma>1) \<subseteq> items (cents \<sigma>)" using w1 by (simp add: walks_def)
    then have "card (items (cents \<sigma>1)) < 2 ^ 32" using card_mono [OF fin sub] assms(2) by linarith
    from sort_list_spec [OF inv1 this] obtain \<sigma>2 where 2: "sort_list \<sigma>1 = Some \<sigma>2" "cache_inv \<sigma>2" "cents \<sigma>2 = cents \<sigma>1"
      "cache_size \<sigma>2 = cache_size \<sigma>1" "mallocs \<sigma>2 = mallocs \<sigma>1" "next_id \<sigma>2 = next_id \<sigma>1" by blast
    obtain its2 where i2: "rrl_rep (rrl \<sigma>2) its2" "set its2 = items (cents \<sigma>2)" using cache_inv_list [OF 2(2)] by blast
    have first2: "rl_first (rrl \<sigma>2) = hd_or (map fst its2) None" by (rule rrl_repD(3) [OF i2(1)])
    obtain \<sigma>3 p s where 3: "purge_walk2 sz (rl_first (rrl \<sigma>2)) \<sigma>2 = Some \<sigma>3" "walks not_local not_local_neg \<sigma>2 \<sigma>3"
      "its2 = p @ s" "s = [] \<or> cache_size \<sigma>3 \<le> sz" "\<forall>it \<in> items (cents \<sigma>3) \<inter> set p. item_local \<sigma>3 it"
    proof -
      have "rrl_rep (rrl \<sigma>2) ([] @ its2)" "\<forall>it \<in> set []. item_local \<sigma>2 it" using i2(1) by simp_all
      from purge_walk2_spec [OF 2(2) this, of sz] show ?thesis
        by (elim exE conjE) (rule that, simp_all add: first2)
    qed
    have inv3: "cache_inv \<sigma>3" and sub3: "items (cents \<sigma>3) \<subseteq> items (cents \<sigma>2)" using 3(2) by (simp_all add: walks_def)
    have bound: "cache_size \<sigma>3 \<le> sz \<or> (\<forall>a c. cents \<sigma>3 a = Some c \<longrightarrow> only_local c)"
    proof (cases "s = []")
      case True
      then have "items (cents \<sigma>3) \<subseteq> set p" using sub3 i2(2) 3(3) by simp
      then have "\<forall>it \<in> items (cents \<sigma>3). item_local \<sigma>3 it" using 3(5) by blast
      then show ?thesis using all_local [OF inv3] by blast
    qed (use 3(4) in blast)
    have p12: "pruned not_local not_local_neg \<sigma> \<sigma>2" using w1 2(3) by (simp add: walks_def pruned_def)
    have "pruned not_local not_local_neg \<sigma> \<sigma>3"
      by (rule pruned_trans [OF p12]) (use 3(2) in \<open>simp_all add: walks_def\<close>)
    moreover have "purge_cache now sz lazy \<sigma> = Some \<sigma>3" using 1(1) False 2(1) 3(1) by (simp add: purge_cache_def)
    moreover have "items (cents \<sigma>3) \<subseteq> items (cents \<sigma>)" using sub sub3 2(3) by auto
    moreover have "\<not> (lazy \<and> cache_size \<sigma> \<le> sz)" using lz False by auto
    ultimately show ?thesis using inv3 bound w1 3(2) 2(5,6)
      by (intro exI [of _ \<sigma>3]) (simp add: walks_def, blast)
  qed
qed

text \<open>
  What \<open>purge_cache\<close> does in two parts: first what has timed out goes, then, in the order of the time
  stamps, what is not local.
\<close>

lemma purge_cache_order:
  assumes "cache_inv \<sigma>" "card (items (cents \<sigma>)) < 2 ^ 32" "insert_sort \<sigma> \<longrightarrow> in_order \<sigma>"
  shows "\<exists>\<sigma>1 \<sigma>'. purge_walk1 now sz lazy (rl_first (rrl \<sigma>)) \<sigma> = Some \<sigma>1 \<and> walks (stale_ok now) (neg_ok now) \<sigma> \<sigma>1 \<and>
    purge_cache now sz lazy \<sigma> = Some \<sigma>' \<and> cache_inv \<sigma>' \<and>
    (\<forall>x \<in> items (cents \<sigma>1) - items (cents \<sigma>'). \<forall>y \<in> items (cents \<sigma>'). \<not> item_local \<sigma>' y \<longrightarrow>
       item_time (get_rrlent_ts (cents \<sigma>)) x \<le> item_time (get_rrlent_ts (cents \<sigma>)) y)"
proof -
  obtain its where its: "rrl_rep (rrl \<sigma>) its" "set its = items (cents \<sigma>)" using cache_inv_list [OF assms(1)] by blast
  have first: "rl_first (rrl \<sigma>) = hd_or (map fst its) None" by (rule rrl_repD(3) [OF its(1)])
  obtain \<sigma>1 where 1: "purge_walk1 now sz lazy (rl_first (rrl \<sigma>)) \<sigma> = Some \<sigma>1" "walks (stale_ok now) (neg_ok now) \<sigma> \<sigma>1"
    using purge_walk1_spec [OF assms(1), of "[]" its now sz lazy] its(1) first by auto
  have inv1: "cache_inv \<sigma>1" and pr1: "pruned (stale_ok now) (neg_ok now) \<sigma> \<sigma>1" using 1(2) by (simp_all add: walks_def)
  have tm: "item_time (get_rrlent_ts (cents \<sigma>1)) it = item_time (get_rrlent_ts (cents \<sigma>)) it" if "it \<in> items (cents \<sigma>1)" for it
    by (rule item_time_pruned [OF assms(1) inv1 pr1 that])
  show ?thesis
  proof (cases "cache_size \<sigma>1 \<le> sz")
    case True
    then have "purge_cache now sz lazy \<sigma> = Some \<sigma>1" using 1(1) by (simp add: purge_cache_def)
    then show ?thesis using 1 inv1 by (intro exI [of _ \<sigma>1]) simp
  next
    case False
    have fin: "finite (items (cents \<sigma>))" using its(2) by (metis List.finite_set)
    have "items (cents \<sigma>1) \<subseteq> items (cents \<sigma>)" using 1(2) by (simp add: walks_def)
    then have cd: "card (items (cents \<sigma>1)) < 2 ^ 32" using card_mono [OF fin] assms(2) by (meson order_le_less_trans)
    have "insert_sort \<sigma>1 \<longrightarrow> in_order \<sigma>1" using in_order_walks [OF assms(1) 1(2)] assms(3) 1(2) by (simp add: walks_def)
    with sort_list_spec [OF inv1 cd] obtain \<sigma>2 where 2: "sort_list \<sigma>1 = Some \<sigma>2" "cache_inv \<sigma>2" "cents \<sigma>2 = cents \<sigma>1" "in_order \<sigma>2"
      by blast
    obtain its2 where i2: "rrl_rep (rrl \<sigma>2) its2" "set its2 = items (cents \<sigma>2)" using cache_inv_list [OF 2(2)] by blast
    have first2: "rl_first (rrl \<sigma>2) = hd_or (map fst its2) None" by (rule rrl_repD(3) [OF i2(1)])
    have pre: "rrl_rep (rrl \<sigma>2) ([] @ its2)" "\<forall>it \<in> set []. item_local \<sigma>2 it" using i2(1) by simp_all
    obtain \<sigma>3 p s where 3: "purge_walk2 sz (hd_or (map fst its2) None) \<sigma>2 = Some \<sigma>3" "walks not_local not_local_neg \<sigma>2 \<sigma>3"
      "its2 = p @ s" "items (cents \<sigma>2) - items (cents \<sigma>3) \<subseteq> set p" "\<forall>it \<in> items (cents \<sigma>3) \<inter> (set [] \<union> set p). item_local \<sigma>3 it"
      using purge_walk2_spec [OF 2(2) pre, of sz] by (elim exE conjE) (rule that)
    have sorted: "sorted (map (item_time (get_rrlent_ts (cents \<sigma>))) its2)"
    proof -
      have m: "map (item_time (get_rrlent_ts (cents \<sigma>1))) its2 = map (item_time (get_rrlent_ts (cents \<sigma>))) its2"
        using tm i2(2) 2(3) by (intro map_cong) simp_all
      have "sorted (map (item_time (get_rrlent_ts (cents \<sigma>1))) its2)" using 2(3,4) i2(1) by (simp add: in_order_def)
      then show ?thesis unfolding m .
    qed
    have "item_time (get_rrlent_ts (cents \<sigma>)) x \<le> item_time (get_rrlent_ts (cents \<sigma>)) y"
      if x: "x \<in> items (cents \<sigma>1) - items (cents \<sigma>3)" and y: "y \<in> items (cents \<sigma>3)" "\<not> item_local \<sigma>3 y" for x y
    proof -
      have "y \<in> set its2" using 3(2) y(1) i2(2) by (auto simp: walks_def)
      then have "y \<in> set s" using 3(3,5) y by auto
      moreover have "x \<in> set p" using 3(4) x 2(3) by auto
      ultimately show ?thesis using sorted 3(3) by (simp add: sorted_append)
    qed
    moreover have "purge_cache now sz lazy \<sigma> = Some \<sigma>3" using 1(1) False 2(1) 3(1) first2 by (simp add: purge_cache_def)
    moreover have "cache_inv \<sigma>3" using 3(2) by (simp add: walks_def)
    ultimately show ?thesis using 1 by (intro exI [of _ \<sigma>1] exI [of _ \<sigma>3]) simp
  qed
qed

end
