(* ===== verification/Pd_AddCache.thy ===== *)
theory Pd_AddCache
  imports Pd_PurgeCache
begin

text \<open>
  Adding to the cache: entries under construction, linking RR sets into the list, the merge of new RR
  sets into an entry that is in the cache, and \<open>add_cache\<close>.
\<close>

subsection \<open>Entries under construction\<close>

lemma cinv_exclude:
  assumes "cinv A {} \<sigma>" "cents \<sigma> a = Some c"
  shows "cinv A {a} (\<sigma>\<lparr> cache_size := cache_size \<sigma> - ce_cs c \<rparr>)"
proof -
  have "total {} (cents \<sigma>) = ce_cs c + total {a} (cents \<sigma>)"
    using total_remove [OF cinvD(2) [OF assms(1)] assms(2), of "{}"] by (simp add: total_def)
  moreover have "qn (\<sigma>\<lparr> cache_size := n \<rparr>) = qn \<sigma>" for n by (simp add: qn_def fun_eq_iff)
  ultimately show ?thesis using assms(1) by (simp add: cinv_def entries_ok_def)
qed

lemma cinv_include:
  assumes "cinv A {a} \<sigma>" "cents \<sigma> a = Some c" "linked c"
  shows "cinv A {} (\<sigma>\<lparr> cache_size := cache_size \<sigma> + ce_cs c \<rparr>)"
proof -
  have "total {} (cents \<sigma>) = ce_cs c + total {a} (cents \<sigma>)"
    using total_remove [OF cinvD(2) [OF assms(1)] assms(2), of "{}"] by (simp add: total_def)
  moreover have "qn (\<sigma>\<lparr> cache_size := n \<rparr>) = qn \<sigma>" for n by (simp add: qn_def fun_eq_iff)
  moreover have "\<forall>b c'. cents \<sigma> b = Some c' \<longrightarrow> linked c'"
    using assms by (metis (no_types, lifting) cinv_ent(5) option.inject singletonD)
  ultimately show ?thesis using assms(1) by (simp add: cinv_def entries_ok_def)
qed

lemma fresh_addr: "cinv A X \<sigma> \<Longrightarrow> cents \<sigma> (next_id \<sigma>) = None"
  by (cases "cents \<sigma> (next_id \<sigma>)") (auto simp: cinv_def entries_ok_def)

text \<open>Only the entry at \<open>a\<close> changes, nodes may be added for it.\<close>

definition grew :: "nat set \<Rightarrow> nat set \<Rightarrow> nat \<Rightarrow> dns_cent \<Rightarrow> cache \<Rightarrow> cache \<Rightarrow> bool" where
  "grew A X a c' \<sigma> \<sigma>' = (cinv A X \<sigma>' \<and> cents \<sigma>' = (cents \<sigma>)(a \<mapsto> c') \<and> buckets \<sigma>' = buckets \<sigma> \<and>
     qn \<sigma>' = qn \<sigma> \<and> insert_sort \<sigma>' = insert_sort \<sigma> \<and> next_id \<sigma> \<le> next_id \<sigma>' \<and> (no_fail \<sigma> \<longrightarrow> no_fail \<sigma>'))"

lemma grew_refl: "cinv A X \<sigma> \<Longrightarrow> cents \<sigma> a = Some c \<Longrightarrow> grew A X a c \<sigma> \<sigma>"
  by (simp add: grew_def fun_upd_idem)

lemma grew_trans: "grew A X a c1 \<sigma> \<sigma>1 \<Longrightarrow> grew A X a c2 \<sigma>1 \<sigma>2 \<Longrightarrow> grew A X a c2 \<sigma> \<sigma>2"
  by (simp add: grew_def)

lemma grewI:
  assumes "cinv A X \<sigma>" "cents \<sigma> a = Some c" "frame \<sigma> \<sigma>'" "held a c' (rest a (cents \<sigma>)) \<sigma>'" "cent_wf c'"
    "ce_qname c' = ce_qname c" "a \<in> X" "no_fail \<sigma> \<longrightarrow> no_fail \<sigma>'"
  shows "grew A X a c' \<sigma> (put a c' \<sigma>')"
proof -
  note f = frameD [OF assms(3)]
  have "cinv A X (put a c' (\<sigma>'\<lparr> cache_size := cache_size \<sigma> + 0 \<rparr>))"
    by (rule cinv_change [OF assms(1-6)]) (use assms(7) in simp_all)
  moreover have "\<sigma>'\<lparr> cache_size := cache_size \<sigma> + 0 \<rparr> = \<sigma>'" using f(3) by (cases \<sigma>') simp
  ultimately have "cinv A X (put a c' \<sigma>')" by simp
  moreover have ce: "cents (put a c' \<sigma>') = (cents \<sigma>)(a \<mapsto> c')" by (simp add: put_def f)
  moreover have "qn (put a c' \<sigma>') = qn \<sigma>" by (rule qn_upd [OF assms(2,6) ce])
  ultimately show ?thesis using assms(8) f by (simp add: grew_def put_def no_fail_def)
qed

subsection \<open>Linking\<close>

text \<open>The slot an index stands for is there and not linked.\<close>

definition unlinked_at :: "dns_cent \<Rightarrow> nat option \<Rightarrow> bool" where
  "unlinked_at c idx = (case idx of None \<Rightarrow> (\<exists>ttl ts. ce_body c = NegBody None ttl ts)
     | Some i \<Rightarrow> (\<exists>rs. slot c i = Some rs \<and> rs_lent rs = None))"

definition linked_at :: "dns_cent \<Rightarrow> nat option \<Rightarrow> bool" where
  "linked_at c idx = (has (ce_flags c) DF_LOCAL \<or> (case idx of None \<Rightarrow> (\<exists>m ttl ts. ce_body c = NegBody (Some m) ttl ts)
     | Some i \<Rightarrow> (\<forall>rs. slot c i = Some rs \<longrightarrow> has (rs_flags rs) CF_LOCAL \<or> rs_lent rs \<noteq> None)))"

lemma linked_iff:
  assumes "cent_shape c"
  shows "linked c = (if neg c then linked_at c None else (\<forall>i. linked_at c (Some i)))"
proof (cases "neg c")
  case True
  then obtain le ttl ts where "ce_body c = NegBody le ttl ts" using assms by (auto elim: cent_shapeE)
  then show ?thesis using True by (auto simp: linked_def linked_at_def)
next
  case False
  then show ?thesis using body_rr [OF assms False] by (auto simp: linked_def linked_at_def rr_body_def)
qed

lemma cinv_item:
  assumes "cinv A X \<sigma>" "(m, a, idx) \<in> items (cents \<sigma>)"
  shows "\<exists>t. get_rrlent_ts (cents \<sigma>) a idx = Some t"
proof -
  obtain b c where bc: "cents \<sigma> b = Some c" "(m, a, idx) \<in> cent_items b c" using assms(2) by (auto simp: items_def)
  then have c: "cents \<sigma> a = Some c" "(m, a, idx) \<in> cent_items a c" using cent_items_addr [OF bc(2)] by auto
  have sh: "cent_shape c" by (rule cinv_ent [OF assms(1) c(1)])
  from c(2) sh show ?thesis
  proof (cases rule: item_cases)
    case (N ttl ts)
    then show ?thesis using c(1) by (simp add: get_rrlent_ts_def)
  next
    case (S i rs)
    then show ?thesis using c(1) RRARR_INDEX_eq [OF sh S(5)] by (simp add: get_rrlent_ts_def)
  qed
qed

lemma unlinked_at_time:
  assumes "cents \<sigma> a = Some c" "cent_shape c" "unlinked_at c idx"
  shows "\<exists>t. get_rrlent_ts (cents \<sigma>) a idx = Some t"
proof (cases idx)
  case None
  then show ?thesis using assms by (auto simp: unlinked_at_def get_rrlent_ts_def)
next
  case (Some i)
  then obtain rs where rs: "slot c i = Some rs" using assms(3) by (auto simp: unlinked_at_def)
  then have "RRARR_INDEX c i = Some (Some rs)" using RRARR_INDEX_eq [OF assms(2)] slot_SomeD by metis
  then show ?thesis using assms(1) Some by (simp add: get_rrlent_ts_def)
qed

lemma set_lent_spec:
  assumes "cent_wf c" "unlinked_at c idx"
  shows "\<exists>c'. set_lent c idx m = Some c' \<and> cent_wf c' \<and> cent_items a c' = insert (m, a, idx) (cent_items a c) \<and>
    unlinked c' = unlinked c \<and> linked_at c' idx \<and> (\<forall>j. idx \<noteq> Some j \<longrightarrow> slot c' j = slot c j) \<and> length (slots c') = length (slots c)"
proof -
  have sh: "cent_shape c" using assms(1) by (simp add: cent_wf_def)
  show ?thesis
  proof (cases idx)
    case None
    obtain ttl ts where b: "ce_body c = NegBody None ttl ts" using assms(2) None by (auto simp: unlinked_at_def)
    have n: "neg c" "slots c = []" using sh b by (auto simp: cent_shape_def slots_def)
    let ?c = "c\<lparr> ce_body := NegBody (Some m) ttl ts \<rparr>"
    have "cent_wf ?c" using assms(1) n by (simp add: cent_wf_def cent_size_def cent_shape_def)
    moreover have "unlinked ?c = unlinked c" using b by (simp add: unlinked_def)
    moreover have "slot ?c j = slot c j" for j using n by (simp add: slot_def)
    ultimately show ?thesis using None b n
      by (intro exI [of _ ?c]) (simp add: set_lent_def cent_items_def linked_at_def)
  next
    case (Some i)
    obtain rs where rs: "slot c i = Some rs" "rs_lent rs = None" using assms(2) Some by (auto simp: unlinked_at_def)
    have i: "i < length (slots c)" using slot_SomeD [OF rs(1)] by simp
    have n: "\<not> neg c" using slot_Some_rr [OF sh rs(1)] by simp
    let ?rs = "rs\<lparr> rs_lent := Some m \<rparr>"
    have sz: "rrset_size ?rs = rrset_size rs" by (simp add: rrset_size_def)
    let ?c = "set_slot c i ?rs"
    have run: "set_lent c idx m = Some ?c"
      using Some RRARR_INDEX_eq [OF sh i] rs set_rrarr_slot [OF assms(1) rs(1) sz] by (simp add: set_lent_def)
    note p = set_slot_props [OF assms(1) rs(1), of ?rs]
    have sh': "cent_shape ?c" "\<not> neg ?c" using p(1,6) n by (simp_all add: cent_wf_def)
    have it: "cent_items a ?c = insert (m, a, Some i) (cent_items a c)"
    proof -
      have "Option.bind (slot ?c j) rs_lent = (if j = i then Some m else Option.bind (slot c j) rs_lent)" for j
        using p(2) by simp
      moreover have "Option.bind (slot c i) rs_lent = None" using rs by simp
      ultimately show ?thesis unfolding cent_items_rr [OF sh n] cent_items_rr [OF sh'] by (auto split: if_splits) force+
    qed
    have "map (map_option unlinked_set) (slots ?c) = map (map_option unlinked_set) (slots c)"
    proof (rule nth_equalityI)
      fix j assume "j < length (map (map_option unlinked_set) (slots ?c))"
      then have j: "j < length (slots c)" using p(8) by simp
      have "map_option unlinked_set (slot ?c j) = map_option unlinked_set (slot c j)"
        using p(2) rs by simp
      then show "map (map_option unlinked_set) (slots ?c) ! j = map (map_option unlinked_set) (slots c) ! j"
        using j p(8) by (simp add: slot_def)
    qed (use p(8) in simp)
    then have "unlinked ?c = unlinked c"
      using unlinked_eq(1) [OF sh n] unlinked_eq(1) [OF sh'] rs sz by (simp add: set_slot_def)
    then show ?thesis using run p it Some by (intro exI [of _ ?c]) (auto simp: linked_at_def)
  qed
qed

lemma held_add:
  assumes "held a c R \<sigma>" "rrl_ok (insert (m, a, idx) (cent_items a c \<union> R)) L nid" "rrl \<sigma>' = L" "next_id \<sigma>' = nid"
    "cent_items a c' = insert (m, a, idx) (cent_items a c)"
  shows "held a c' R \<sigma>'"
  using assms by (simp add: held_def)

lemma insert_rrl_spec:
  assumes "cinv A X \<sigma>" "cents \<sigma> a = Some c" "unlinked_at c idx" "a \<in> X"
  shows "\<exists>ok c' \<sigma>'. insert_rrl a idx \<sigma> = Some (ok, \<sigma>') \<and> grew A X a c' \<sigma> \<sigma>' \<and> unlinked c' = unlinked c \<and>
    cent_wf c' \<and> (ok \<longrightarrow> linked_at c' idx) \<and> (\<forall>j. idx \<noteq> Some j \<longrightarrow> slot c' j = slot c j) \<and> length (slots c') = length (slots c) \<and>
    (no_fail \<sigma> \<longrightarrow> ok)"
proof -
  have wf: "cent_wf c" "cent_shape c" using cinv_ent [OF assms(1,2)] by simp_all
  define loc where "loc = (case idx of None \<Rightarrow> False | Some i \<Rightarrow> (case slot c i of None \<Rightarrow> False | Some rs \<Rightarrow> has (rs_flags rs) CF_LOCAL))"
  have loc: "(case idx of None \<Rightarrow> Some False
               | Some i \<Rightarrow> do { r \<leftarrow> RRARR_INDEX c i; rs \<leftarrow> r; Some (has (rs_flags rs) CF_LOCAL) }) = Some loc"
  proof (cases idx)
    case (Some i)
    then obtain rs where rs: "slot c i = Some rs" using assms(3) by (auto simp: unlinked_at_def)
    have "RRARR_INDEX c i = Some (Some rs)" using RRARR_INDEX_eq [OF wf(2)] slot_SomeD rs by metis
    then show ?thesis using Some rs by (simp add: loc_def)
  qed (simp add: loc_def)
  show ?thesis
  proof (cases "loc \<or> has (ce_flags c) DF_LOCAL")
    case True
    have "insert_rrl a idx \<sigma> = Some (True, \<sigma>)"
      unfolding insert_rrl_def assms(2) using loc True by simp
    moreover have "linked_at c idx" using True by (auto simp: linked_at_def loc_def split: option.splits)
    ultimately show ?thesis using grew_refl [OF assms(1,2)] wf by blast
  next
    case False
    obtain ok \<sigma>1 where m: "malloc \<sigma> = (ok, \<sigma>1)" by (cases "malloc \<sigma>")
    note ms = malloc_spec [OF m]
    have f: "frame \<sigma> \<sigma>1" "rrl \<sigma>1 = rrl \<sigma>" using ms by simp_all
    note fd = frameD [OF f(1)]
    have I1: "cinv A X \<sigma>1" by (rule cinv_frame [OF assms(1) f])
    have c1: "cents \<sigma>1 a = Some c" using assms(2) fd by simp
    show ?thesis
    proof (cases ok)
      case F: False
      have "insert_rrl a idx \<sigma> = Some (False, \<sigma>1)"
        unfolding insert_rrl_def assms(2) using loc False F m by simp
      moreover have "grew A X a c \<sigma> \<sigma>1" using grew_refl [OF I1 c1] fd ms by (simp add: grew_def qn_def fun_eq_iff fun_upd_idem)
      ultimately show ?thesis using wf ms F by blast
    next
      case True
      let ?m = "next_id \<sigma>1"
      let ?\<sigma>2 = "\<sigma>1\<lparr> next_id := ?m + 1 \<rparr>"
      let ?n = "\<lparr> ln_next = None, ln_prev = None, ln_cent = a, ln_idx = idx \<rparr>"
      have "\<exists>L. link_node (get_rrlent_ts (cents \<sigma>1)) (insert_sort \<sigma>1) ?m ?n (rrl \<sigma>1) = Some L \<and>
          rrl_ok (insert (?m, a, idx) (items (cents \<sigma>1))) L (?m + 1)"
      proof (rule rrl_ok_insert [OF cinvD(3) [OF I1] refl])
        show "\<exists>t. get_rrlent_ts (cents \<sigma>1) b j = Some t" if "(m, b, j) \<in> items (cents \<sigma>1)" for m b j
          by (rule cinv_item [OF I1 that])
      qed (rule unlinked_at_time [OF c1 wf(2) assms(3)])
      then obtain L where L: "link_node (get_rrlent_ts (cents \<sigma>1)) (insert_sort \<sigma>1) ?m ?n (rrl \<sigma>1) = Some L"
        "rrl_ok (insert (?m, a, idx) (items (cents \<sigma>1))) L (?m + 1)" by blast
      obtain c' where c': "set_lent c idx ?m = Some c'" "cent_wf c'" "cent_items a c' = insert (?m, a, idx) (cent_items a c)"
        "unlinked c' = unlinked c" "linked_at c' idx" "\<forall>j. idx \<noteq> Some j \<longrightarrow> slot c' j = slot c j" "length (slots c') = length (slots c)"
        using set_lent_spec [OF wf(1) assms(3), of ?m a] by (elim exE conjE) (rule that)
      let ?\<sigma>3 = "put a c' (?\<sigma>2\<lparr> rrl := L \<rparr>)"
      have run: "insert_rrl a idx \<sigma> = Some (True, ?\<sigma>3)"
        unfolding insert_rrl_def assms(2) using loc False True m L(1) c'(1) by (simp add: new_addr_def)
      have q: "ce_qname c' = ce_qname c" using unlinked_props(4) [OF wf(1)] unlinked_props(4) [OF c'(2)] c'(4) by metis
      have ce: "cents ?\<sigma>3 = (cents \<sigma>1)(a \<mapsto> c')" by (simp add: put_def)
      have qq: "qn ?\<sigma>3 = qn \<sigma>1" by (rule qn_upd [OF c1 q ce])
      have it: "items (cents ?\<sigma>3) = insert (?m, a, idx) (items (cents \<sigma>1))"
        unfolding ce items_upd using c'(3) items_rest [of "cents \<sigma>1" a c, OF c1] by simp
      have "cinv A X ?\<sigma>3"
      proof -
        have "entries_ok X ?\<sigma>3" unfolding entries_ok_def ce using I1 c'(2) assms(4) cinv_ent(4) [OF I1 c1]
          by (auto simp: put_def cinv_def entries_ok_def less_Suc_eq)
        moreover have "dom (cents ?\<sigma>3) = dom (cents \<sigma>1)" using c1 unfolding ce by auto
        moreover have "total X (cents ?\<sigma>3) = total X (cents \<sigma>1)"
          unfolding ce using total_upd [OF cinvD(2) [OF I1] c1] assms(4) by simp
        moreover have "rrl_ok (items (cents ?\<sigma>3)) (rrl ?\<sigma>3) (next_id ?\<sigma>3)" unfolding it using L(2) by (simp add: put_def)
        ultimately show ?thesis using I1 unfolding cinv_def qq by (simp add: put_def)
      qed
      moreover have "qn ?\<sigma>3 = qn \<sigma>" unfolding qq using fd(1) by (simp add: qn_def fun_eq_iff)
      moreover have "cents ?\<sigma>3 = (cents \<sigma>)(a \<mapsto> c')" unfolding ce fd(1) ..
      moreover have "buckets ?\<sigma>3 = buckets \<sigma>" "insert_sort ?\<sigma>3 = insert_sort \<sigma>" "next_id \<sigma> \<le> next_id ?\<sigma>3"
        "mallocs ?\<sigma>3 = mallocs \<sigma>1" by (simp_all add: put_def fd)
      ultimately have "grew A X a c' \<sigma> ?\<sigma>3"
        using ms no_fail_frame [of ?\<sigma>3 \<sigma>1] by (simp add: grew_def)
      then show ?thesis using run c' by blast
    qed
  qed
qed

subsection \<open>A new entry\<close>

definition same_head :: "dns_cent \<Rightarrow> dns_cent \<Rightarrow> bool" where
  "same_head c' c = (ce_qname c' = ce_qname c \<and> ce_flags c' = ce_flags c \<and> ce_ns c' = ce_ns c \<and> ce_soa c' = ce_soa c \<and>
     ce_num c' = ce_num c \<and> ce_cs c' = ce_cs c \<and> length (slots c') = length (slots c))"

lemma same_head_trans: "same_head c2 c1 \<Longrightarrow> same_head c1 c \<Longrightarrow> same_head c2 c"
  by (simp add: same_head_def)

lemma unlinked_eqD:
  assumes "unlinked c' = unlinked c" "cent_wf c" "cent_wf c'"
  shows "same_head c' c" "map_option unlinked_set (slot c' i) = map_option unlinked_set (slot c i)"
proof -
  note p = unlinked_props [OF assms(2)] and q = unlinked_props [OF assms(3)]
  show "same_head c' c" unfolding same_head_def using p(4-10) q(4-10) assms(1) by metis
  show "map_option unlinked_set (slot c' i) = map_option unlinked_set (slot c i)"
    using p(3) [of i] q(3) [of i] assms(1) by metis
qed

lemma adjust_ttl_simps [simp]: "rs_lent (adjust_ttl conf rs) = rs_lent rs" "rs_ts (adjust_ttl conf rs) = rs_ts rs"
  "rs_rrs (adjust_ttl conf rs) = rs_rrs rs" "rrset_size (adjust_ttl conf rs) = rrset_size rs"
  "has (rs_flags (adjust_ttl conf rs)) CF_LOCAL = has (rs_flags rs) CF_LOCAL"
  "unlinked_set (adjust_ttl conf rs) = adjust_ttl conf (unlinked_set rs)"
  by (simp_all add: adjust_ttl_def rrset_size_def)

lemma unlinked_id: "rs_lent rs = None \<Longrightarrow> unlinked_set rs = rs"
  by simp

definition link_res :: "cconf \<Rightarrow> nat set \<Rightarrow> nat set \<Rightarrow> nat \<Rightarrow> nat list \<Rightarrow> dns_cent \<Rightarrow> cache \<Rightarrow> bool \<Rightarrow> dns_cent \<Rightarrow> cache \<Rightarrow> bool" where
  "link_res conf A X a is c \<sigma> ok c' \<sigma>' = (grew A X a c' \<sigma> \<sigma>' \<and> same_head c' c \<and>
    (\<forall>j. j \<notin> set is \<longrightarrow> slot c' j = slot c j) \<and> (ok \<longrightarrow> (\<forall>i \<in> set is. linked_at c' (Some i) \<and>
       map_option unlinked_set (slot c' i) = map_option (adjust_ttl conf) (slot c i))) \<and> (no_fail \<sigma> \<longrightarrow> ok))"

lemma link_new_spec:
  assumes "cinv A X \<sigma>" "a \<in> X" "cents \<sigma> a = Some c" "distinct is"
    "\<forall>i \<in> set is. i < length (slots c)" "\<forall>i \<in> set is. \<forall>rs. slot c i = Some rs \<longrightarrow> rs_lent rs = None"
  shows "\<exists>ok c' \<sigma>'. link_new conf a is \<sigma> = Some (ok, \<sigma>') \<and> link_res conf A X a is c \<sigma> ok c' \<sigma>'"
  using assms(1,3-6)
proof (induction "is" arbitrary: \<sigma> c)
  case Nil
  then have "link_res conf A X a [] c \<sigma> True c \<sigma>" using grew_refl by (simp add: same_head_def link_res_def)
  then show ?case by (intro exI [of _ True] exI [of _ c] exI [of _ \<sigma>]) simp
next
  case (Cons i "is")
  have wf: "cent_wf c" "cent_shape c" using cinv_ent [OF Cons.prems(1,2)] by simp_all
  have i: "i < length (slots c)" "i \<notin> set is" "distinct is" "\<forall>j \<in> set is. j < length (slots c)"
    "\<forall>j \<in> set is. \<forall>rs. slot c j = Some rs \<longrightarrow> rs_lent rs = None" using Cons.prems(3-5) by simp_all
  have ri: "RRARR_INDEX c i = Some (slot c i)" by (rule RRARR_INDEX_eq [OF wf(2) i(1)])
  show ?case
  proof (cases "slot c i")
    case None
    have run: "link_new conf a (i # is) \<sigma> = link_new conf a is \<sigma>" using Cons.prems(2) ri None by simp
    obtain ok c' \<sigma>' where r: "link_new conf a is \<sigma> = Some (ok, \<sigma>')" "link_res conf A X a is c \<sigma> ok c' \<sigma>'"
      using Cons.IH [OF Cons.prems(1,2) i(3-5)] by blast
    have "slot c' i = None" using r(2) i(2) None by (simp add: link_res_def)
    then have "link_res conf A X a (i # is) c \<sigma> ok c' \<sigma>'" using r(2) None by (simp add: link_res_def linked_at_def)
    then show ?thesis using r(1) run by auto
  next
    case (Some rs)
    have lent: "rs_lent rs = None" using Cons.prems(5) Some by simp
    let ?rs = "adjust_ttl conf rs"
    let ?c1 = "set_slot c i ?rs"
    note p = set_slot_props [OF wf(1) Some, of ?rs]
    have it: "cent_items a ?c1 = cent_items a c" by (rule set_slot_items [OF wf(1) Some]) simp
    have st: "set_rrarr c i (Some ?rs) = Some ?c1" by (rule set_rrarr_slot [OF wf(1) Some]) simp
    have g1: "grew A X a ?c1 \<sigma> (put a ?c1 \<sigma>)"
      by (rule grewI [OF Cons.prems(1,2) frame_refl held_items [OF cinv_held [OF Cons.prems(1,2)] it] p(1,3) assms(2)]) simp
    have h1: "same_head ?c1 c" using p by (simp add: same_head_def)
    have I1: "cinv A X (put a ?c1 \<sigma>)" and c1: "cents (put a ?c1 \<sigma>) a = Some ?c1" using g1 by (simp_all add: grew_def)
    have u: "unlinked_at ?c1 (Some i)" using p(2) lent by (simp add: unlinked_at_def)
    obtain ok c2 \<sigma>2 where 2: "insert_rrl a (Some i) (put a ?c1 \<sigma>) = Some (ok, \<sigma>2)" "grew A X a c2 (put a ?c1 \<sigma>) \<sigma>2"
      "unlinked c2 = unlinked ?c1" "cent_wf c2" "ok \<longrightarrow> linked_at c2 (Some i)" "\<forall>j. Some i \<noteq> Some j \<longrightarrow> slot c2 j = slot ?c1 j"
      "length (slots c2) = length (slots ?c1)" "no_fail (put a ?c1 \<sigma>) \<longrightarrow> ok"
      using insert_rrl_spec [OF I1 c1 u assms(2)] by (elim exE conjE) (rule that)
    have nf: "no_fail (put a ?c1 \<sigma>) = no_fail \<sigma>" by (simp add: no_fail_def put_def)
    have g2: "grew A X a c2 \<sigma> \<sigma>2" by (rule grew_trans [OF g1 2(2)])
    note ud = unlinked_eqD [OF 2(3) p(1) 2(4)]
    have h2: "same_head c2 c" by (rule same_head_trans [OF ud(1) h1])
    have s2: "map_option unlinked_set (slot c2 i) = Some ?rs" using ud(2) [of i] p(2) unlinked_id [OF lent] by simp
    have o2: "slot c2 j = slot c j" if "j \<noteq> i" for j using 2(6) p(2) that by simp
    show ?thesis
    proof (cases ok)
      case False
      have "link_new conf a (i # is) \<sigma> = Some (False, \<sigma>2)" using Cons.prems(2) ri Some st 2(1) False by simp
      moreover have "link_res conf A X a (i # is) c \<sigma> False c2 \<sigma>2" using g2 h2 o2 2(8) nf False by (auto simp: link_res_def)
      ultimately show ?thesis by blast
    next
      case True
      have I2: "cinv A X \<sigma>2" and c2: "cents \<sigma>2 a = Some c2" using g2 by (simp_all add: grew_def)
      have o3: "\<forall>j \<in> set is. slot c2 j = slot c j" using o2 i(2) by metis
      have len: "\<forall>j \<in> set is. j < length (slots c2)" using i(4) 2(7) p(8) by simp
      have "\<forall>j \<in> set is. \<forall>rs. slot c2 j = Some rs \<longrightarrow> rs_lent rs = None" using i(5) o3 by simp
      from Cons.IH [OF I2 c2 i(3) len this] obtain ok' c' \<sigma>' where
        r: "link_new conf a is \<sigma>2 = Some (ok', \<sigma>')" "link_res conf A X a is c2 \<sigma>2 ok' c' \<sigma>'" by blast
      note rr = r(2) [unfolded link_res_def]
      have si: "slot c' i = slot c2 i" using rr i(2) by simp
      have "link_new conf a (i # is) \<sigma> = Some (ok', \<sigma>')" using Cons.prems(2) ri Some st 2(1) True r(1) by simp
      moreover have "link_res conf A X a (i # is) c \<sigma> ok' c' \<sigma>'"
        unfolding link_res_def
      proof (intro conjI)
        show "grew A X a c' \<sigma> \<sigma>'" using rr grew_trans [OF g2] by blast
        show "same_head c' c" using rr same_head_trans [OF _ h2] by blast
        show "\<forall>j. j \<notin> set (i # is) \<longrightarrow> slot c' j = slot c j" using rr o2 by simp
        have "linked_at c' (Some i)" using 2(5) True si rr by (simp add: linked_at_def same_head_def)
        then show "ok' \<longrightarrow> (\<forall>i \<in> set (i # is). linked_at c' (Some i) \<and>
           map_option unlinked_set (slot c' i) = map_option (adjust_ttl conf) (slot c i))"
          using rr si s2 Some o3 by simp
        have "no_fail \<sigma> \<longrightarrow> no_fail \<sigma>2" using g2 by (simp add: grew_def)
        then show "no_fail \<sigma> \<longrightarrow> ok'" using rr by blast
      qed
      ultimately show ?thesis by blast
    qed
  qed
qed

text \<open>An entry that is not in the table leaves the store.\<close>

lemma drop_new_spec:
  assumes "cinv A {a} \<sigma>" "cents \<sigma> a = Some c" "a \<notin> A"
  shows "\<exists>\<sigma>'. drop_new a \<sigma> = Some \<sigma>' \<and> cinv A {} \<sigma>' \<and> cents \<sigma>' = (cents \<sigma>)(a := None) \<and> tabm \<sigma>' = tabm \<sigma> \<and>
    next_id \<sigma>' = next_id \<sigma> \<and> mallocs \<sigma>' = mallocs \<sigma> \<and> insert_sort \<sigma>' = insert_sort \<sigma>"
proof -
  note I = assms(1) [unfolded cinv_def]
  have sh: "cent_shape c" by (rule cinv_ent [OF assms(1,2)])
  obtain \<sigma>1 where 1: "free_cent c \<sigma> = Some \<sigma>1" "rrl_ok (rest a (cents \<sigma>)) (rrl \<sigma>1) (next_id \<sigma>1)" "frame \<sigma> \<sigma>1" "mallocs \<sigma>1 = mallocs \<sigma>"
    using free_cent_spec [OF sh cinv_held [OF assms(1,2)]] by (elim exE conjE) (rule that)
  note f = frameD [OF 1(3)]
  let ?f = "\<sigma>1\<lparr> cents := (cents \<sigma>1)(a := None) \<rparr>"
  have q: "qn ?f = (qn \<sigma>)(a := None)" by (auto simp: qn_def f fun_eq_iff)
  have wf: "wf_table (qn \<sigma>) (buckets \<sigma>)" "a \<notin> ran (tabm \<sigma>)" using I assms(3) by simp_all
  note tf = tab_frame_del [OF wf, of None, folded q]
  have "cinv A {} ?f"
    unfolding cinv_def
  proof (intro conjI)
    show "entries_ok {} ?f" using I by (simp add: entries_ok_def f)
    show "finite (dom (cents ?f))" using I by (simp add: f)
    show "rrl_ok (items (cents ?f)) (rrl ?f) (next_id ?f)" using 1(2) by (simp add: f items_del)
    show "wf_table (qn ?f) (buckets ?f)" using tf(1) f by simp
    show "ran (tabm ?f) = A" using tf(2) f I by simp
    show "A \<subseteq> dom (cents ?f)" using I assms(3) by (auto simp: f)
    have "dom (cents ?f) - {} = dom (cents \<sigma>) - {a}" by (auto simp: f)
    then show "cache_size ?f = total {} (cents ?f)" using I by (simp add: f total_def)
    show "ent_num ?f = int (card A)" using I by (simp add: f)
  qed
  moreover have "tabm ?f = tabm \<sigma>" using tf(2) f by simp
  ultimately show ?thesis using 1(1,4) assms(2) f by (simp add: drop_new_def)
qed

text \<open>An allocated copy enters the store.\<close>

lemma cinv_alloc:
  assumes "cinv A {} \<sigma>" "cent_wf ce" "loose ce" "a = next_id \<sigma>"
  shows "cinv A {a} (put a ce (\<sigma>\<lparr> next_id := a + 1 \<rparr>))" "tabm (put a ce (\<sigma>\<lparr> next_id := a + 1 \<rparr>)) = tabm \<sigma>"
    "a \<notin> A" "cents \<sigma> a = None" "qn (put a ce (\<sigma>\<lparr> next_id := a + 1 \<rparr>)) = (qn \<sigma>)(a \<mapsto> ce_qname ce)"
proof -
  let ?f = "put a ce (\<sigma>\<lparr> next_id := a + 1 \<rparr>)"
  note I = assms(1) [unfolded cinv_def]
  show n: "cents \<sigma> a = None" using fresh_addr [OF assms(1)] assms(4) by simp
  then show a: "a \<notin> A" using I by auto
  show q: "qn ?f = (qn \<sigma>)(a \<mapsto> ce_qname ce)" by (auto simp: qn_def put_def fun_eq_iff)
  have wf: "wf_table (qn \<sigma>) (buckets \<sigma>)" "a \<notin> ran (tabm \<sigma>)" using I a by simp_all
  note tf = tab_frame_del [OF wf, of "Some (ce_qname ce)", folded q]
  show t: "tabm ?f = tabm \<sigma>" using tf(2) by (simp add: put_def)
  show "cinv A {a} ?f"
    unfolding cinv_def
  proof (intro conjI)
    show "entries_ok {a} ?f" using I assms(2,4) by (auto simp: entries_ok_def put_def less_SucI)
    show "finite (dom (cents ?f))" using I by (simp add: put_def)
    have "items (cents ?f) = items (cents \<sigma>)"
      using items_upd [of "cents \<sigma>" a ce] loose_items [OF assms(3)] rest_fresh [of "cents \<sigma>" a, OF n] by (simp add: put_def)
    then show "rrl_ok (items (cents ?f)) (rrl ?f) (next_id ?f)" using I assms(4) by (auto simp: rrl_ok_def put_def less_SucI)
    show "wf_table (qn ?f) (buckets ?f)" using tf(1) by (simp add: put_def)
    show "ran (tabm ?f) = A" using t I by simp
    show "A \<subseteq> dom (cents ?f)" using I by (auto simp: put_def)
    have "dom (cents ?f) - {a} = dom (cents \<sigma>) - {}" using n by (auto simp: put_def)
    moreover have "\<And>b. b \<in> dom (cents \<sigma>) \<Longrightarrow> cents ?f b = cents \<sigma> b" using n by (auto simp: put_def)
    ultimately show "cache_size ?f = total {a} (cents ?f)" using I by (simp add: total_def put_def)
    show "ent_num ?f = int (card A)" using I by (simp add: put_def)
  qed
qed

text \<open>The copy of an entry that enters the cache: times to live within the configured bounds, entries
  and RR sets marked not to be cached with none.\<close>

definition stored :: "cconf \<Rightarrow> dns_cent \<Rightarrow> dns_cent" where
  "stored conf c = (let u = unlinked c in case ce_body u of
     NegBody le ttl ts \<Rightarrow> if has (ce_flags u) DF_NOCACHE
        then u\<lparr> ce_flags := ce_flags u AND NOT DF_NOCACHE, ce_body := NegBody le 0 ts \<rparr>
        else u\<lparr> ce_body := NegBody le (adjusted_ttl conf True ttl) ts \<rparr>
   | RRBody _ _ \<Rightarrow> u\<lparr> ce_body := rr_body (map (map_option (adjust_ttl conf)) (slots u)) \<rparr>)"

lemma slots_map_adjust:
  "slots_size (map (map_option (adjust_ttl conf)) sl) = slots_size sl"
  "slots_num (map (map_option (adjust_ttl conf)) sl) = slots_num sl"
proof -
  show "slots_size (map (map_option (adjust_ttl conf)) sl) = slots_size sl"
    by (induction sl) (auto simp: slots_size_def slot_size_def split: option.split)
  show "slots_num (map (map_option (adjust_ttl conf)) sl) = slots_num sl"
    by (induction sl) (auto simp: slots_num_def)
qed

lemma stored_rr:
  assumes "cent_wf c" "cent_wf ce" "\<not> neg c" "same_head ce (unlinked c)"
    "\<And>i. i < length (slots c) \<Longrightarrow> map_option unlinked_set (slot ce i) = map_option (adjust_ttl conf) (slot (unlinked c) i)"
  shows "unlinked ce = stored conf c"
proof -
  note u = unlinked_props [OF assms(1)]
  have shu: "cent_shape (unlinked c)" "\<not> neg (unlinked c)" using u(1,5) assms(3) by (simp_all add: cent_wf_def)
  have she: "cent_shape ce" "\<not> neg ce" using assms(2,4) shu(2) by (simp_all add: cent_wf_def same_head_def)
  have len: "length (slots ce) = length (slots (unlinked c))" "length (slots (unlinked c)) = length (slots c)"
    using assms(4) u(10) by (simp_all add: same_head_def)
  have m: "map (map_option unlinked_set) (slots ce) = map (map_option (adjust_ttl conf)) (slots (unlinked c))"
  proof (rule nth_equalityI)
    fix i assume "i < length (map (map_option unlinked_set) (slots ce))"
    then have i: "i < length (slots c)" using len by simp
    then show "map (map_option unlinked_set) (slots ce) ! i = map (map_option (adjust_ttl conf)) (slots (unlinked c)) ! i"
      using assms(5) [OF i] len by (simp add: slot_def)
  qed (use len in simp)
  have "ce_body (unlinked c) = rr_body (slots (unlinked c))" using body_rr [OF shu] by simp
  then have s: "stored conf c = (unlinked c)\<lparr> ce_body := rr_body (map (map_option (adjust_ttl conf)) (slots (unlinked c))) \<rparr>"
    by (simp add: stored_def Let_def rr_body_def)
  show ?thesis unfolding s unlinked_eq(1) [OF she] m
    by (rule dns_cent.equality) (use assms(4) in \<open>simp_all add: same_head_def\<close>)
qed

lemma stored_neg:
  assumes "cent_wf c" "neg c"
  shows "adjust_dom_ttl conf (unlinked c) = Some (stored conf c)" "cent_wf (stored conf c)" "loose (stored conf c)"
    "unlinked_at (stored conf c) None" "neg (stored conf c)" "ce_qname (stored conf c) = ce_qname c"
    "unlinked (stored conf c) = stored conf c"
proof -
  have sh: "cent_shape c" using assms(1) by (simp add: cent_wf_def)
  obtain le ttl ts where b: "ce_body c = NegBody le ttl ts" using sh assms(2) by (auto elim: cent_shapeE)
  have u: "unlinked c = c\<lparr> ce_body := NegBody None ttl ts \<rparr>" by (rule unlinked_eq(2) [OF sh b])
  note w = unlinked_props(1) [OF assms(1)]
  show "adjust_dom_ttl conf (unlinked c) = Some (stored conf c)"
    by (simp add: adjust_dom_ttl_def stored_def Let_def u)
  obtain t fl where s: "stored conf c = c\<lparr> ce_flags := fl, ce_body := NegBody None t ts \<rparr>" and f: "has fl DF_NEGATIVE"
  proof (cases "has (ce_flags c) DF_NOCACHE")
    case True
    then have "stored conf c = c\<lparr> ce_flags := ce_flags c AND NOT DF_NOCACHE, ce_body := NegBody None 0 ts \<rparr>"
      by (simp add: stored_def u)
    then show ?thesis using that assms(2) by simp
  next
    case False
    then have "stored conf c = c\<lparr> ce_flags := ce_flags c, ce_body := NegBody None (adjusted_ttl conf True ttl) ts \<rparr>"
      by (simp add: stored_def u)
    then show ?thesis using that assms(2) by blast
  qed
  show "neg (stored conf c)" using s f by simp
  have sl: "slots (stored conf c) = []" "slots (unlinked c) = []" by (simp_all add: s u slots_def)
  show "cent_wf (stored conf c)" using w sl f by (simp add: cent_wf_def cent_size_def s u cent_shape_def slots_def)
  show "loose (stored conf c)" by (simp add: s loose_def)
  show "unlinked_at (stored conf c) None" by (simp add: s unlinked_at_def)
  show "ce_qname (stored conf c) = ce_qname c" by (simp add: s)
  show "unlinked (stored conf c) = stored conf c" by (simp add: s unlinked_def)
qed

definition add_new_res :: "cconf \<Rightarrow> dns_cent \<Rightarrow> cache \<Rightarrow> nat option \<Rightarrow> cache \<Rightarrow> bool" where
  "add_new_res conf c \<sigma> r \<sigma>' = (case r of
     None \<Rightarrow> cache_inv \<sigma>' \<and> cents \<sigma>' = cents \<sigma> \<and> tabm \<sigma>' = tabm \<sigma> \<and> \<not> no_fail \<sigma>
   | Some a \<Rightarrow> cents \<sigma> a = None \<and> tabm \<sigma>' = (tabm \<sigma>)(key_of (ce_qname c) \<mapsto> a) \<and> (no_fail \<sigma> \<longrightarrow> no_fail \<sigma>') \<and>
       (\<exists>ce. cents \<sigma>' = (cents \<sigma>)(a \<mapsto> ce) \<and> cinv (insert a (dom (cents \<sigma>))) {a} \<sigma>' \<and> linked ce \<and> cent_wf ce \<and>
         unlinked ce = stored conf c \<and> cache_size \<sigma>' = cache_size \<sigma>))"

text \<open>The part of \<open>add_new\<close> that links the copy \<open>ce\<close> at \<open>a\<close>.\<close>

definition link_all :: "cconf \<Rightarrow> dns_cent \<Rightarrow> nat \<Rightarrow> cache \<Rightarrow> (bool \<times> cache) option" where
  "link_all conf ce a \<sigma> = (if \<not> has (ce_flags ce) DF_NEGATIVE then do {
               ilim \<leftarrow> RRARR_LEN ce;
               link_new conf a [0..<ilim] (put a ce \<sigma>)
             }
             else do { ce1 \<leftarrow> adjust_dom_ttl conf ce; insert_rrl a None (put a ce1 \<sigma>) })"

lemma link_all_spec:
  assumes "cinv A {} \<sigma>" "cent_wf c" "a = next_id \<sigma>"
  shows "\<exists>ok ce \<sigma>'. link_all conf (unlinked c) a (\<sigma>\<lparr> next_id := a + 1 \<rparr>) = Some (ok, \<sigma>') \<and> cinv A {a} \<sigma>' \<and>
    cents \<sigma>' = (cents \<sigma>)(a \<mapsto> ce) \<and> ce_qname ce = ce_qname c \<and> tabm \<sigma>' = tabm \<sigma> \<and> buckets \<sigma>' = buckets \<sigma> \<and>
    qn \<sigma>' = (qn \<sigma>)(a \<mapsto> ce_qname c) \<and> (no_fail \<sigma> \<longrightarrow> ok \<and> no_fail \<sigma>') \<and> (ok \<longrightarrow> linked ce \<and> cent_wf ce \<and> unlinked ce = stored conf c)"
proof (cases "neg c")
  case True
  note sn = stored_neg [OF assms(2) True, of conf]
  note al = cinv_alloc [OF assms(1) sn(2,3) assms(3)]
  let ?s0 = "put a (stored conf c) (\<sigma>\<lparr> next_id := a + 1 \<rparr>)"
  have c0: "cents ?s0 a = Some (stored conf c)" by (simp add: put_def)
  obtain ok ce \<sigma>' where r: "insert_rrl a None ?s0 = Some (ok, \<sigma>')" "grew A {a} a ce ?s0 \<sigma>'" "unlinked ce = unlinked (stored conf c)"
    "cent_wf ce" "ok \<longrightarrow> linked_at ce None" "no_fail ?s0 \<longrightarrow> ok"
    using insert_rrl_spec [OF al(1) c0 sn(4) singletonI] by (elim exE conjE) (rule that)
  note g = r(2) [unfolded grew_def]
  have h: "same_head ce (stored conf c)" by (rule unlinked_eqD(1) [OF r(3) sn(2) r(4)])
  have n: "neg ce" using h sn(5) by (simp add: same_head_def)
  have "link_all conf (unlinked c) a (\<sigma>\<lparr> next_id := a + 1 \<rparr>) = Some (ok, \<sigma>')"
    using True unlinked_props(5) [OF assms(2)] sn(1) r(1) by (simp add: link_all_def)
  moreover have "cents \<sigma>' = (cents \<sigma>)(a \<mapsto> ce)" using g by (simp add: put_def)
  moreover have "tabm \<sigma>' = tabm \<sigma>" using g al(2) by simp
  moreover have "buckets \<sigma>' = buckets \<sigma>" using g by (simp add: put_def)
  moreover have "qn \<sigma>' = (qn \<sigma>)(a \<mapsto> ce_qname c)" using g al(5) sn(6) by simp
  moreover have "no_fail ?s0 = no_fail \<sigma>" by (simp add: no_fail_def put_def)
  moreover have "ok \<longrightarrow> linked ce" using r(4,5) n linked_iff [of ce] by (simp add: cent_wf_def)
  ultimately show ?thesis using g r h sn(6,7)
    by (intro exI [of _ ok] exI [of _ ce] exI [of _ \<sigma>']) (simp add: same_head_def)
next
  case False
  let ?u = "unlinked c"
  note u = unlinked_props [OF assms(2)]
  note al = cinv_alloc [OF assms(1) u(1,2) assms(3)]
  let ?s0 = "put a ?u (\<sigma>\<lparr> next_id := a + 1 \<rparr>)"
  have c0: "cents ?s0 a = Some ?u" by (simp add: put_def)
  have sh: "cent_shape ?u" "\<not> neg ?u" using u(1,5) False by (simp_all add: cent_wf_def)
  have lt: "\<forall>i \<in> set [0..<length (slots ?u)]. i < length (slots ?u)" by simp
  have lo: "\<forall>i \<in> set [0..<length (slots ?u)]. \<forall>rs. slot ?u i = Some rs \<longrightarrow> rs_lent rs = None"
    using loose_slot [OF u(2)] by blast
  have a: "a \<in> {a}" by simp
  obtain ok ce \<sigma>' where r: "link_new conf a [0..<length (slots ?u)] ?s0 = Some (ok, \<sigma>')"
    "link_res conf A {a} a [0..<length (slots ?u)] ?u ?s0 ok ce \<sigma>'"
    using link_new_spec [OF al(1) a c0 distinct_upt lt lo] by blast
  note rr = r(2) [unfolded link_res_def] and g = r(2) [unfolded link_res_def, THEN conjunct1, unfolded grew_def]
  have run: "link_all conf ?u a (\<sigma>\<lparr> next_id := a + 1 \<rparr>) = Some (ok, \<sigma>')"
    using sh(2) RRARR_LEN_eq [OF sh(1)] r(1) by (simp add: link_all_def)
  have wf: "cent_wf ce" using g cinv_ent(1) [of A "{a}" \<sigma>' a ce] by simp
  have n: "\<not> neg ce" using rr sh(2) by (simp add: same_head_def)
  have st: "unlinked ce = stored conf c" if ok
    by (rule stored_rr [OF assms(2) wf False]) (use rr that u(10) in simp_all)
  have lk: "linked ce" if ok
  proof -
    have "linked_at ce (Some i)" for i
    proof (cases "i < length (slots ?u)")
      case True
      then show ?thesis using rr that by simp
    next
      case F: False
      then have "slot ce i = None" using rr by (simp add: same_head_def)
      then show ?thesis by (simp add: linked_at_def)
    qed
    then show ?thesis using n linked_iff [of ce] wf by (simp add: cent_wf_def)
  qed
  have "tabm \<sigma>' = tabm \<sigma>" "buckets \<sigma>' = buckets \<sigma>" "qn \<sigma>' = (qn \<sigma>)(a \<mapsto> ce_qname c)" "cents \<sigma>' = (cents \<sigma>)(a \<mapsto> ce)"
    using g al(2,5) u(4) by (simp_all add: put_def)
  moreover have "no_fail ?s0 = no_fail \<sigma>" by (simp add: no_fail_def put_def)
  ultimately show ?thesis using run g rr wf lk st u(4)
    by (intro exI [of _ ok] exI [of _ ce] exI [of _ \<sigma>']) (simp add: same_head_def)
qed

lemma add_new_alt: "add_new conf c loc \<sigma> =
     do {
       (cp, \<sigma>1) \<leftarrow> copy_cent c \<sigma>;
       case cp of
         None \<Rightarrow> Some (None, \<sigma>1)
       | Some ce \<Rightarrow> do {
           let (a, \<sigma>2) = new_addr \<sigma>1;
           (ok, \<sigma>3) \<leftarrow> link_all conf ce a \<sigma>2;
           if \<not> ok then do { \<sigma>4 \<leftarrow> drop_new a \<sigma>3; Some (None, \<sigma>4) }
           else do {
             let (mok, \<sigma>4) = malloc \<sigma>3;
             (ok', t) \<leftarrow> add_dns_hash (buckets \<sigma>4) a loc mok;
             if \<not> ok' then do { \<sigma>5 \<leftarrow> drop_new a \<sigma>4; Some (None, \<sigma>5) }
             else Some (Some a, \<sigma>4\<lparr> buckets := t, ent_num := ent_num \<sigma>4 + 1 \<rparr>)
           }
         }
     }"
  by (simp only: add_new_def link_all_def)

lemma add_new_spec:
  assumes "cache_inv \<sigma>" "cent_wf c" "dns_lookup (qn \<sigma>) (buckets \<sigma>) (ce_qname c) = Some (None, loc)"
  shows "\<exists>r \<sigma>'. add_new conf c loc \<sigma> = Some (r, \<sigma>') \<and> add_new_res conf c \<sigma> r \<sigma>'"
proof -
  let ?A = "dom (cents \<sigma>)"
  have v: "valid_name (ce_qname c)" using assms(2) by (simp add: cent_wf_def)
  have I: "cinv ?A {} \<sigma>" using assms(1) by (simp add: cache_inv_def)
  obtain cp \<sigma>1 where 1: "copy_cent c \<sigma> = Some (cp, \<sigma>1)" "frame \<sigma> \<sigma>1" "rrl \<sigma>1 = rrl \<sigma>" "cp \<in> {None, Some (unlinked c)}"
    "no_fail \<sigma> \<longrightarrow> cp \<noteq> None \<and> no_fail \<sigma>1" using copy_cent_spec [OF assms(2), of \<sigma>] by (elim exE conjE) (rule that)
  note f = frameD [OF 1(2)]
  have q1: "qn \<sigma>1 = qn \<sigma>" by (simp add: qn_def f fun_eq_iff)
  have I1: "cinv ?A {} \<sigma>1" by (rule cinv_frame [OF I 1(2,3)])
  have inv: "cache_inv \<sigma>'" if "cinv ?A {} \<sigma>'" "cents \<sigma>' = cents \<sigma>" for \<sigma>' using that by (simp add: cache_inv_def)
  show ?thesis
  proof (cases cp)
    case None
    then have "add_new conf c loc \<sigma> = Some (None, \<sigma>1)" using 1(1) by (simp add: add_new_def)
    moreover have "add_new_res conf c \<sigma> None \<sigma>1" using inv [OF I1] f q1 1(5) None by (simp add: add_new_res_def)
    ultimately show ?thesis by blast
  next
    case (Some cp')
    then have cp: "cp = Some (unlinked c)" using 1(4) by simp
    let ?a = "next_id \<sigma>1"
    have an: "cents \<sigma> ?a = None" "?a \<notin> ?A" using fresh_addr [OF I1] f by (simp_all add: domIff)
    obtain ok ce \<sigma>3 where 3: "link_all conf (unlinked c) ?a (\<sigma>1\<lparr> next_id := ?a + 1 \<rparr>) = Some (ok, \<sigma>3)" "cinv ?A {?a} \<sigma>3"
      "cents \<sigma>3 = (cents \<sigma>1)(?a \<mapsto> ce)" "ce_qname ce = ce_qname c" "tabm \<sigma>3 = tabm \<sigma>1" "buckets \<sigma>3 = buckets \<sigma>1"
      "qn \<sigma>3 = (qn \<sigma>1)(?a \<mapsto> ce_qname c)" "no_fail \<sigma>1 \<longrightarrow> ok \<and> no_fail \<sigma>3"
      "ok \<longrightarrow> linked ce \<and> cent_wf ce \<and> unlinked ce = stored conf c"
      using link_all_spec [OF I1 assms(2) refl, of conf] by (elim exE conjE) (rule that)
    have c3: "cents \<sigma>3 ?a = Some ce" using 3(3) by simp
    have drop: "\<exists>\<sigma>'. drop_new ?a \<sigma>4 = Some \<sigma>' \<and> add_new_res conf c \<sigma> None \<sigma>'"
      if x: "cinv ?A {?a} \<sigma>4" "cents \<sigma>4 = cents \<sigma>3" "tabm \<sigma>4 = tabm \<sigma>" "\<not> no_fail \<sigma>" for \<sigma>4
    proof -
      have c4: "cents \<sigma>4 ?a = Some ce" using x(2) c3 by simp
      obtain \<sigma>' where d: "drop_new ?a \<sigma>4 = Some \<sigma>'" "cinv ?A {} \<sigma>'" "cents \<sigma>' = (cents \<sigma>4)(?a := None)" "tabm \<sigma>' = tabm \<sigma>4"
        using drop_new_spec [OF x(1) c4 an(2)] by (elim exE conjE) (rule that)
      have "cents \<sigma>' = cents \<sigma>" using d(3) x(2) 3(3) f an(1) by (simp add: fun_upd_idem)
      then show ?thesis using d inv [OF d(2)] x(3,4) by (simp add: add_new_res_def)
    qed
    have run: "add_new conf c loc \<sigma> = (if \<not> ok then do { \<sigma>4 \<leftarrow> drop_new ?a \<sigma>3; Some (None, \<sigma>4) }
           else do {
             let (mok, \<sigma>4) = malloc \<sigma>3;
             (ok', t) \<leftarrow> add_dns_hash (buckets \<sigma>4) ?a loc mok;
             if \<not> ok' then do { \<sigma>5 \<leftarrow> drop_new ?a \<sigma>4; Some (None, \<sigma>5) }
             else Some (Some ?a, \<sigma>4\<lparr> buckets := t, ent_num := ent_num \<sigma>4 + 1 \<rparr>)
           })"
      using 1(1) cp 3(1) by (simp add: add_new_alt new_addr_def)
    show ?thesis
    proof (cases ok)
      case False
      then have nf: "\<not> no_fail \<sigma>" using 1(5) 3(8) by blast
      have t3: "tabm \<sigma>3 = tabm \<sigma>" using 3(5) q1 f by simp
      obtain \<sigma>' where "drop_new ?a \<sigma>3 = Some \<sigma>'" "add_new_res conf c \<sigma> None \<sigma>'" using drop [OF 3(2) refl t3 nf] by blast
      then show ?thesis using run False by auto
    next
      case True
      obtain mok \<sigma>4 where m: "malloc \<sigma>3 = (mok, \<sigma>4)" by (cases "malloc \<sigma>3")
      note ms = malloc_spec [OF m]
      have fr4: "frame \<sigma>3 \<sigma>4" "rrl \<sigma>4 = rrl \<sigma>3" using ms by simp_all
      note f4 = frameD [OF fr4(1)]
      have q4: "qn \<sigma>4 = qn \<sigma>3" by (simp add: qn_def f4 fun_eq_iff)
      have I4: "cinv ?A {?a} \<sigma>4" by (rule cinv_frame [OF 3(2) fr4])
      show ?thesis
      proof (cases mok)
        case False
        have nf: "\<not> no_fail \<sigma>" using 1(5) 3(8) ms False by blast
        have t4: "tabm \<sigma>4 = tabm \<sigma>" using 3(5) q1 f q4 f4 by simp
        have "add_dns_hash (buckets \<sigma>4) ?a loc mok = Some (False, buckets \<sigma>4)" using False ht.ins_fail by simp
        moreover obtain \<sigma>' where "drop_new ?a \<sigma>4 = Some \<sigma>'" "add_new_res conf c \<sigma> None \<sigma>'" using drop [OF I4 f4(1) t4 nf] by blast
        ultimately show ?thesis using run True m by auto
      next
        case mt: True
        have wf: "wf_table (qn \<sigma>) (buckets \<sigma>)" "ran (tabm \<sigma>) = ?A" using I by (simp_all add: cinv_def)
        have "?a \<notin> ran (tabm \<sigma>)" using wf(2) an(2) by simp
        from ht.look_after_ins [OF wf(1) v assms(3) this] obtain t where
          t: "add_dns_hash (buckets \<sigma>) ?a loc True = Some (True, t)" "wf_table ((qn \<sigma>)(?a \<mapsto> ce_qname c)) t"
          "tab_map ((qn \<sigma>)(?a \<mapsto> ce_qname c)) t = (tabm \<sigma>)(key_of (ce_qname c) \<mapsto> ?a)" by blast
        let ?f = "\<sigma>4\<lparr> buckets := t, ent_num := ent_num \<sigma>4 + 1 \<rparr>"
        have b4: "buckets \<sigma>4 = buckets \<sigma>" using f4 3(6) f by simp
        have qf: "qn ?f = (qn \<sigma>)(?a \<mapsto> ce_qname c)" using 3(7) q1 f4(1) by (simp add: qn_def fun_eq_iff)
        have res: "add_new conf c loc \<sigma> = Some (Some ?a, ?f)" using run True m mt t(1) b4 by simp
        have nk: "tabm \<sigma> (key_of (ce_qname c)) = None" using ht.look_view [OF wf(1) v] assms(3) by auto
        have cf: "cents ?f = (cents \<sigma>)(?a \<mapsto> ce)" using f4(1) 3(3) f(1) by simp
        have "cinv (insert ?a ?A) {?a} ?f"
          unfolding cinv_def
        proof (intro conjI)
          show "entries_ok {?a} ?f" using I4 by (simp add: cinv_def entries_ok_def)
          show "finite (dom (cents ?f))" using I4 by (simp add: cinv_def)
          show "rrl_ok (items (cents ?f)) (rrl ?f) (next_id ?f)" using I4 by (simp add: cinv_def)
          show "wf_table (qn ?f) (buckets ?f)" using t(2) qf by simp
          show "ran (tabm ?f) = insert ?a ?A" using t(3) qf nk wf(2) by simp
          show "insert ?a ?A \<subseteq> dom (cents ?f)" using cf by auto
          show "cache_size ?f = total {?a} (cents ?f)" using I4 by (simp add: cinv_def)
          have "ent_num \<sigma>4 = int (card ?A)" "finite ?A" using I4 I by (simp_all add: cinv_def)
          then show "ent_num ?f = int (card (insert ?a ?A))" using an(2) by simp
        qed
        moreover have "tabm ?f = (tabm \<sigma>)(key_of (ce_qname c) \<mapsto> ?a)" using t(3) qf by simp
        moreover have "no_fail \<sigma> \<longrightarrow> no_fail ?f" using 1(5) 3(8) ms no_fail_frame [of ?f \<sigma>4] by auto
        moreover have "linked ce \<and> cent_wf ce \<and> unlinked ce = stored conf c" using 3(9) True by blast
        moreover have "cache_size ?f = cache_size \<sigma>"
        proof -
          have "cache_size \<sigma>3 = total {?a} ((cents \<sigma>)(?a \<mapsto> ce))" using 3(2,3) f by (simp add: cinv_def)
          also have "\<dots> = total {} (cents \<sigma>)"
          proof -
            have "dom ((cents \<sigma>)(?a \<mapsto> ce)) - {?a} = dom (cents \<sigma>) - {}" using an by auto
            then show ?thesis using an(1) unfolding total_def by (auto intro!: sum.cong)
          qed
          finally show ?thesis using cinvD(7) [OF I] f4 by simp
        qed
        ultimately have "add_new_res conf c \<sigma> (Some ?a) ?f" using cf an(1) by (auto simp: add_new_res_def)
        then show ?thesis using res by blast
      qed
    qed
  qed
qed

end
