(* ===== verification/Pd_Merge.thy ===== *)
theory Pd_Merge
  imports Pd_AddCache
begin

text \<open>
  The merge of new RR sets into an entry that is in the cache: conflicts (\<open>cr_check_add\<close>), the
  replacement of one RR set, all of them, and \<open>add_cache\<close>, which ends, keeps the invariant, leaves
  local data alone and never exceeds the size limit unless only local data is left.
\<close>

subsection \<open>Conflicts\<close>

text \<open>\<open>c'\<close> is \<open>c\<close> without the RR sets that satisfy \<open>P\<close>.\<close>

definition thinned :: "(nat \<Rightarrow> bool) \<Rightarrow> dns_cent \<Rightarrow> dns_cent \<Rightarrow> bool" where
  "thinned P c c' = (cent_wf c' \<and> (\<forall>j. slot c' j = (if P j then None else slot c j)) \<and> ce_qname c' = ce_qname c \<and>
     ce_ns c' = ce_ns c \<and> ce_soa c' = ce_soa c \<and> neg c' = neg c \<and>
     has (ce_flags c') DF_LOCAL = has (ce_flags c) DF_LOCAL \<and> length (slots c') = length (slots c) \<and> (linked c \<longrightarrow> linked c'))"

lemma thinned_refl: "cent_wf c \<Longrightarrow> thinned (\<lambda>_. False) c c"
  by (simp add: thinned_def)

lemma thinned_del: "cent_wf c \<Longrightarrow> thinned (\<lambda>j. j = i) c (del_slot c i)"
  using del_slot_props [of c i] del_slot_linked [of c i] by (simp add: thinned_def)

lemma thinned_trans: "thinned P c c1 \<Longrightarrow> thinned Q c1 c2 \<Longrightarrow> thinned (\<lambda>j. P j \<or> Q j) c c2"
  by (auto simp: thinned_def)

lemma thinned_cong: "thinned P c c' \<Longrightarrow> (\<And>j. slot c j \<noteq> None \<Longrightarrow> P j = Q j) \<Longrightarrow> thinned Q c c'"
proof -
  assume a: "thinned P c c'" "\<And>j. slot c j \<noteq> None \<Longrightarrow> P j = Q j"
  have "slot c' j = (if Q j then None else slot c j)" for j
    using a(1) a(2) [of j] by (cases "slot c j") (simp_all add: thinned_def)
  then show "thinned Q c c'" using a(1) by (simp add: thinned_def)
qed

definition confl_at :: "dns_cent \<Rightarrow> nat \<Rightarrow> nat \<Rightarrow> bool" where
  "confl_at c idx i = (case slot c i of None \<Rightarrow> False | Some rs \<Rightarrow> conflicting idx i rs)"

definition local_confl :: "dns_cent \<Rightarrow> nat \<Rightarrow> nat \<Rightarrow> bool" where
  "local_confl c idx i = (case slot c i of None \<Rightarrow> False | Some rs \<Rightarrow> conflicting idx i rs \<and> has (rs_flags rs) CF_LOCAL)"

text \<open>The remaining time to live of a conflicting RR set.\<close>

definition rest_ttl :: "int \<Rightarrow> dns_cent \<Rightarrow> nat \<Rightarrow> int" where
  "rest_ttl now c i = (case slot c i of None \<Rightarrow> 0 | Some rs \<Rightarrow> max 0 (rs_ttl rs + rs_ts rs - now))"

lemma cr_scan_spec:
  assumes "cent_shape c" "\<forall>i \<in> set is. i < length (slots c)"
  shows "cr_scan now c idx is (n, t) = Some (if \<exists>i \<in> set is. local_confl c idx i then None
     else Some (n + int (length (filter (confl_at c idx) is)), t + sum_list (map (rest_ttl now c) (filter (confl_at c idx) is))))"
  using assms(2)
proof (induction "is" arbitrary: n t)
  case (Cons i "is")
  have r: "RRARR_INDEX c i = Some (slot c i)" using Cons.prems by (intro RRARR_INDEX_eq [OF assms(1)]) simp
  have IH: "cr_scan now c idx is (n, t) = Some (if \<exists>i \<in> set is. local_confl c idx i then None
     else Some (n + int (length (filter (confl_at c idx) is)), t + sum_list (map (rest_ttl now c) (filter (confl_at c idx) is))))" for n t
    by (rule Cons.IH) (use Cons.prems in simp)
  show ?case
  proof (cases "slot c i")
    case None
    then show ?thesis using r IH by (simp add: confl_at_def local_confl_def)
  next
    case (Some rs)
    consider "\<not> conflicting idx i rs" | "conflicting idx i rs" "has (rs_flags rs) CF_LOCAL"
      | "conflicting idx i rs" "\<not> has (rs_flags rs) CF_LOCAL" by blast
    then show ?thesis
    proof cases
      case 1
      then have "confl_at c idx i = False" "local_confl c idx i = False" using Some by (simp_all add: confl_at_def local_confl_def)
      then show ?thesis using r IH Some 1 by simp
    next
      case 2
      then show ?thesis using r Some by (simp add: local_confl_def)
    next
      case 3
      then have "confl_at c idx i = True" "local_confl c idx i = False"
        "rest_ttl now c i = (if rs_ttl rs + rs_ts rs - now > 0 then rs_ttl rs + rs_ts rs - now else 0)"
        using Some by (simp_all add: confl_at_def local_confl_def rest_ttl_def)
      then show ?thesis using r IH Some 3 by (simp add: Let_def)
    qed
  qed
qed simp

lemma cr_delete_spec:
  assumes "cent_wf c" "held a c R \<sigma>" "distinct is" "\<forall>i \<in> set is. i < length (slots c)"
  shows "\<exists>c' \<sigma>'. cr_delete idx is c \<sigma> = Some (c', \<sigma>') \<and> thinned (\<lambda>j. j \<in> set is \<and> confl_at c idx j) c c' \<and>
    held a c' R \<sigma>' \<and> frame \<sigma> \<sigma>' \<and> mallocs \<sigma>' = mallocs \<sigma>"
  using assms
proof (induction "is" arbitrary: c \<sigma>)
  case Nil
  then show ?case using thinned_refl by (intro exI [of _ c] exI [of _ \<sigma>]) simp
next
  case (Cons i "is")
  have sh: "cent_shape c" using Cons.prems(1) by (simp add: cent_wf_def)
  have i: "i < length (slots c)" "i \<notin> set is" "distinct is" "\<forall>j \<in> set is. j < length (slots c)" using Cons.prems(3,4) by simp_all
  have r: "RRARR_INDEX c i = Some (slot c i)" by (rule RRARR_INDEX_eq [OF sh i(1)])
  show ?case
  proof (cases "confl_at c idx i")
    case False
    have run: "cr_delete idx (i # is) c \<sigma> = cr_delete idx is c \<sigma>" using r False by (simp add: confl_at_def)
    obtain c' \<sigma>' where c': "cr_delete idx is c \<sigma> = Some (c', \<sigma>')" "thinned (\<lambda>j. j \<in> set is \<and> confl_at c idx j) c c'"
      "held a c' R \<sigma>'" "frame \<sigma> \<sigma>'" "mallocs \<sigma>' = mallocs \<sigma>"
      using Cons.IH [OF Cons.prems(1,2) i(3,4)] by (elim exE conjE) (rule that)
    have "thinned (\<lambda>j. j \<in> set (i # is) \<and> confl_at c idx j) c c'"
      by (rule thinned_cong [OF c'(2)]) (use False in auto)
    then show ?thesis using c' by (intro exI [of _ c'] exI [of _ \<sigma>'] conjI) (simp only: run)
  next
    case True
    have "i < NRRTOT" using i(1) slots_len_le [OF sh] by simp
    then obtain \<sigma>1 where 1: "del_cent_rrset_by_index c i \<sigma> = Some (slot_size (slot c i), del_slot c i, \<sigma>1)"
      "held a (del_slot c i) R \<sigma>1" "frame \<sigma> \<sigma>1" "mallocs \<sigma>1 = mallocs \<sigma>"
      using del_cent_rrset_spec [OF Cons.prems(1,2)] by blast
    note th = thinned_del [OF Cons.prems(1), of i]
    have wf1: "cent_wf (del_slot c i)" and s1: "\<And>j. slot (del_slot c i) j = (if j = i then None else slot c j)"
      using th by (simp_all add: thinned_def)
    have "\<forall>j \<in> set is. j < length (slots (del_slot c i))" using i(4) th by (simp add: thinned_def)
    from Cons.IH [OF wf1 1(2) i(3) this] obtain c' \<sigma>' where
      2: "cr_delete idx is (del_slot c i) \<sigma>1 = Some (c', \<sigma>')" "thinned (\<lambda>j. j \<in> set is \<and> confl_at (del_slot c i) idx j) (del_slot c i) c'"
      "held a c' R \<sigma>'" "frame \<sigma>1 \<sigma>'" "mallocs \<sigma>' = mallocs \<sigma>1" by (elim exE conjE) (rule that)
    have run: "cr_delete idx (i # is) c \<sigma> = Some (c', \<sigma>')" using r True 1(1) 2(1) by (simp add: confl_at_def)
    have "thinned (\<lambda>j. j \<in> set (i # is) \<and> confl_at c idx j) c c'"
      by (rule thinned_cong [OF thinned_trans [OF th 2(2)]]) (use True s1 in \<open>auto simp: confl_at_def\<close>)
    then show ?thesis using run 2 1 frame_trans [OF 1(3) 2(4)] by (intro exI [of _ c'] exI [of _ \<sigma>'] conjI) simp_all
  qed
qed

text \<open>When the new RR set may be added.\<close>

definition any_confl :: "dns_cent \<Rightarrow> nat \<Rightarrow> bool" where
  "any_confl c idx = (\<exists>i. confl_at c idx i)"

definition mean_ttl :: "int \<Rightarrow> dns_cent \<Rightarrow> nat \<Rightarrow> int" where
  "mean_ttl now c idx = (let is = filter (confl_at c idx) [0..<length (slots c)] in
     sum_list (map (rest_ttl now c) is) div int (length is))"

definition accepts :: "int \<Rightarrow> dns_cent \<Rightarrow> nat \<Rightarrow> int \<Rightarrow> u16 \<Rightarrow> bool" where
  "accepts now c idx ttl fl = (has fl CF_NEGATIVE \<or> has fl CF_LOCAL \<or>
     (\<not> has (ce_flags c) DF_LOCAL \<and> (\<forall>i. \<not> local_confl c idx i) \<and> (any_confl c idx \<longrightarrow> ttl > mean_ttl now c idx)))"

definition cr_clears :: "u16 \<Rightarrow> dns_cent \<Rightarrow> nat \<Rightarrow> nat \<Rightarrow> bool" where
  "cr_clears fl c idx j = (\<not> has fl CF_NEGATIVE \<and> confl_at c idx j)"

lemma confl_range: "confl_at c idx i \<Longrightarrow> i < length (slots c)"
  by (auto simp: confl_at_def split: option.splits dest: slot_SomeD)

lemma local_confl_confl: "local_confl c idx i \<Longrightarrow> confl_at c idx i"
  by (auto simp: local_confl_def confl_at_def split: option.splits)

lemma cr_check_add_spec:
  assumes "cent_wf c" "held a c R \<sigma>" "idx < NRRTOT"
  shows "\<exists>c' \<sigma>'. cr_check_add now c idx ttl ts fl \<sigma> = Some (accepts now c idx ttl fl, c', \<sigma>') \<and>
    thinned (\<lambda>j. accepts now c idx ttl fl \<and> cr_clears fl c idx j) c c' \<and> held a c' R \<sigma>' \<and> frame \<sigma> \<sigma>' \<and> mallocs \<sigma>' = mallocs \<sigma>"
proof -
  have sh: "cent_shape c" using assms(1) by (simp add: cent_wf_def)
  have ll: "RRARR_LEN c = Some (length (slots c))" by (rule RRARR_LEN_eq [OF sh])
  let ?is = "[0..<length (slots c)]"
  have scan: "cr_scan now c idx ?is (0, 0) = Some (if \<exists>i. local_confl c idx i then None
     else Some (int (length (filter (confl_at c idx) ?is)), sum_list (map (rest_ttl now c) (filter (confl_at c idx) ?is))))"
  proof -
    have "(\<exists>i \<in> set ?is. local_confl c idx i) = (\<exists>i. local_confl c idx i)" using confl_range local_confl_confl by fastforce
    then show ?thesis using cr_scan_spec [OF sh, of ?is now idx 0 0] by simp
  qed
  have ncf: "(int (length (filter (confl_at c idx) ?is)) = 0) = (\<not> any_confl c idx)"
    using confl_range by (auto simp: any_confl_def filter_empty_conv)
  have same: "\<exists>c' \<sigma>'. (b, c, \<sigma>) = (b, c', \<sigma>') \<and> thinned P c c' \<and> held a c' R \<sigma>' \<and> frame \<sigma> \<sigma>' \<and> mallocs \<sigma>' = mallocs \<sigma>"
    if "\<And>j. slot c j \<noteq> None \<Longrightarrow> \<not> P j" for b P
    using thinned_cong [OF thinned_refl [OF assms(1)], of P] that assms(2) by auto
  have del: "\<exists>c' \<sigma>'. cr_delete idx ?is c \<sigma> = Some (c', \<sigma>') \<and> thinned (confl_at c idx) c c' \<and>
      held a c' R \<sigma>' \<and> frame \<sigma> \<sigma>' \<and> mallocs \<sigma>' = mallocs \<sigma>"
  proof -
    obtain c' \<sigma>' where d: "cr_delete idx ?is c \<sigma> = Some (c', \<sigma>')" "thinned (\<lambda>j. j \<in> set ?is \<and> confl_at c idx j) c c'"
      "held a c' R \<sigma>'" "frame \<sigma> \<sigma>'" "mallocs \<sigma>' = mallocs \<sigma>"
      using cr_delete_spec [OF assms(1,2) distinct_upt, of 0 "length (slots c)" idx] by auto
    have "thinned (confl_at c idx) c c'" by (rule thinned_cong [OF d(2)]) (use confl_range in auto)
    then show ?thesis using d by blast
  qed
  consider (n) "has fl CF_NEGATIVE" | (l) "\<not> has fl CF_NEGATIVE" "has fl CF_LOCAL"
    | (d) "\<not> has fl CF_NEGATIVE" "\<not> has fl CF_LOCAL" "has (ce_flags c) DF_LOCAL \<or> (\<exists>i. local_confl c idx i)"
    | (z) "\<not> has fl CF_NEGATIVE" "\<not> has fl CF_LOCAL" "\<not> has (ce_flags c) DF_LOCAL" "\<forall>i. \<not> local_confl c idx i" "\<not> any_confl c idx"
    | (c) "\<not> has fl CF_NEGATIVE" "\<not> has fl CF_LOCAL" "\<not> has (ce_flags c) DF_LOCAL" "\<forall>i. \<not> local_confl c idx i" "any_confl c idx"
    by blast
  then show ?thesis
  proof cases
    case n
    then have "cr_check_add now c idx ttl ts fl \<sigma> = Some (True, c, \<sigma>)" by (simp add: cr_check_add_def cr_decide_def)
    then show ?thesis using n same [of "\<lambda>j. accepts now c idx ttl fl \<and> cr_clears fl c idx j" True] by (simp add: accepts_def cr_clears_def)
  next
    case l
    then have "cr_check_add now c idx ttl ts fl \<sigma> = do { (c1, \<sigma>1) \<leftarrow> cr_delete idx ?is c \<sigma>; Some (True, c1, \<sigma>1) }"
      using assms(3) ll by (simp add: cr_check_add_def cr_decide_def)
    moreover have "(\<lambda>j. accepts now c idx ttl fl \<and> cr_clears fl c idx j) = confl_at c idx" "accepts now c idx ttl fl"
      using l by (auto simp: accepts_def cr_clears_def)
    ultimately show ?thesis using del by auto
  next
    case d
    then have "cr_check_add now c idx ttl ts fl \<sigma> = Some (False, c, \<sigma>)"
      using assms(3) ll scan by (auto simp: cr_check_add_def cr_decide_def)
    moreover have "\<not> accepts now c idx ttl fl" using d by (auto simp: accepts_def)
    ultimately show ?thesis using same [of "\<lambda>j. False" False] by simp
  next
    case z
    then have "cr_check_add now c idx ttl ts fl \<sigma> = Some (True, c, \<sigma>)"
      using assms(3) ll scan ncf by (simp add: cr_check_add_def cr_decide_def)
    moreover have "accepts now c idx ttl fl" using z by (auto simp: accepts_def)
    moreover have "\<not> cr_clears fl c idx j" for j using z(5) by (auto simp: cr_clears_def any_confl_def)
    ultimately show ?thesis using same [of "\<lambda>j. False" True] by simp
  next
    case c
    have dec: "cr_decide now c idx fl = Some (Inr (mean_ttl now c idx))"
      using c assms(3) ll scan ncf by (simp add: cr_decide_def mean_ttl_def Let_def)
    have acc: "accepts now c idx ttl fl = (ttl > mean_ttl now c idx)" using c by (auto simp: accepts_def)
    show ?thesis
    proof (cases "ttl > mean_ttl now c idx")
      case True
      then have "cr_check_add now c idx ttl ts fl \<sigma> = do { (c1, \<sigma>1) \<leftarrow> cr_delete idx ?is c \<sigma>; Some (True, c1, \<sigma>1) }"
        using dec ll by (simp add: cr_check_add_def)
      moreover have "(\<lambda>j. accepts now c idx ttl fl \<and> cr_clears fl c idx j) = confl_at c idx" using c(1) acc True by (auto simp: cr_clears_def)
      ultimately show ?thesis using del acc True by auto
    next
      case False
      then have "cr_check_add now c idx ttl ts fl \<sigma> = Some (False, c, \<sigma>)" using dec c(2) by (simp add: cr_check_add_def)
      then show ?thesis using acc False same [of "\<lambda>j. False" False] by simp
    qed
  qed
qed

subsection \<open>Replacing one RR set\<close>

text \<open>The records are appended one after the other; \<open>rtail\<close> points at the last one.\<close>

definition tail_of :: "byte list list \<Rightarrow> nat option" where
  "tail_of rrs = (if rrs = [] then None else Some (length rrs - 1))"

definition add_rrs_res :: "nat \<Rightarrow> item set \<Rightarrow> dns_cent \<Rightarrow> nat \<Rightarrow> rr_set \<Rightarrow> byte list list \<Rightarrow> cache \<Rightarrow> bool \<Rightarrow> dns_cent \<Rightarrow> cache \<Rightarrow> bool" where
  "add_rrs_res a R c i rs ds \<sigma> ok c' \<sigma>' = (cent_wf c' \<and> held a c' R \<sigma>' \<and> frame \<sigma> \<sigma>' \<and>
     (\<forall>j. j \<noteq> i \<longrightarrow> slot c' j = slot c j) \<and> ce_qname c' = ce_qname c \<and> ce_ns c' = ce_ns c \<and> ce_soa c' = ce_soa c \<and>
     ce_flags c' = ce_flags c \<and> (\<exists>ds'. slot c' i = Some (rs\<lparr> rs_rrs := rs_rrs rs @ ds' \<rparr>) \<and> (ok \<longrightarrow> ds' = ds)) \<and>
     (no_fail \<sigma> \<longrightarrow> ok \<and> no_fail \<sigma>'))"

lemma pos_cent_id: "\<not> neg c \<Longrightarrow> pos_cent c = c"
  by (simp add: pos_cent_def)

lemma add_rrs_spec:
  assumes "cent_wf c" "held a c R \<sigma>" "i < NRRTOT" "slot c i = Some rs"
  shows "\<exists>ok c' \<sigma>'. add_rrs i new ds (tail_of (rs_rrs rs)) c \<sigma> = Some (ok, c', \<sigma>') \<and> add_rrs_res a R c i rs ds \<sigma> ok c' \<sigma>'"
  using assms(1,2,4)
proof (induction ds arbitrary: c \<sigma> rs)
  case Nil
  then have "add_rrs_res a R c i rs [] \<sigma> True c \<sigma>" by (simp add: add_rrs_res_def)
  then show ?case by (intro exI [of _ True] exI [of _ c] exI [of _ \<sigma>]) simp
next
  case (Cons d ds)
  let ?q = "length (rs_rrs rs)"
  have sh: "cent_shape c" using Cons.prems(1) by (simp add: cent_wf_def)
  have n: "\<not> neg c" using slot_Some_rr [OF sh Cons.prems(3)] by simp
  have q: "?q = (case tail_of (rs_rrs rs) of None \<Rightarrow> 0 | Some p \<Rightarrow> p + 1)" by (cases "rs_rrs rs") (simp_all add: tail_of_def)
  obtain ok tl c1 \<sigma>1 where 1: "add_cent_rr_int c i (rs_ttl new) (rs_ts new) (rs_flags new) d (tail_of (rs_rrs rs)) \<sigma> = Some (ok, tl, c1, \<sigma>1)"
    "add_rr_res a R c i (with_rr rs ?q d) \<sigma> ok c1 \<sigma>1" "ok \<longrightarrow> tl = Some ?q"
    using add_cent_rr_int_old [OF Cons.prems(1,2,3) assms(3) q order_refl] by blast
  note r1 = 1(2) [unfolded add_rr_res_def pos_cent_id [OF n]]
  have w: "with_rr rs ?q d = rs\<lparr> rs_rrs := rs_rrs rs @ [d] \<rparr>" by (simp add: with_rr_def)
  show ?case
  proof (cases ok)
    case False
    then have run: "add_rrs i new (d # ds) (tail_of (rs_rrs rs)) c \<sigma> = Some (False, c1, \<sigma>1)" using 1(1) by simp
    have "slot c1 i = Some (rs\<lparr> rs_rrs := rs_rrs rs @ [] \<rparr>)" using r1 False Cons.prems(3) by simp
    moreover have "\<forall>j. j \<noteq> i \<longrightarrow> slot c1 j = slot c j" "ce_flags c1 = ce_flags c" "\<not> no_fail \<sigma>" using r1 False by auto
    ultimately have "add_rrs_res a R c i rs (d # ds) \<sigma> False c1 \<sigma>1" using r1 unfolding add_rrs_res_def by blast
    then show ?thesis using run by blast
  next
    case True
    let ?rs = "rs\<lparr> rs_rrs := rs_rrs rs @ [d] \<rparr>"
    have c1: "cent_wf c1" "held a c1 R \<sigma>1" "slot c1 i = Some ?rs" using r1 True w by simp_all
    have tl: "tl = tail_of (rs_rrs ?rs)" using 1(3) True by (simp add: tail_of_def)
    obtain ok' c' \<sigma>' where 2: "add_rrs i new ds (tail_of (rs_rrs ?rs)) c1 \<sigma>1 = Some (ok', c', \<sigma>')" "add_rrs_res a R c1 i ?rs ds \<sigma>1 ok' c' \<sigma>'"
      using Cons.IH [OF c1] by blast
    note r2 = 2(2) [unfolded add_rrs_res_def]
    obtain ds' where ds': "slot c' i = Some (?rs\<lparr> rs_rrs := rs_rrs ?rs @ ds' \<rparr>)" "ok' \<longrightarrow> ds' = ds" using r2 by blast
    have "slot c' i = Some (rs\<lparr> rs_rrs := rs_rrs rs @ (d # ds') \<rparr>)" using ds'(1) by simp
    moreover have "ok' \<longrightarrow> d # ds' = d # ds" using ds'(2) by simp
    moreover have "frame \<sigma> \<sigma>'" using r1 r2 frame_trans by blast
    moreover have "\<forall>j. j \<noteq> i \<longrightarrow> slot c' j = slot c j" using r1 r2 by simp
    ultimately have "add_rrs_res a R c i rs (d # ds) \<sigma> ok' c' \<sigma>'" using r1 r2 unfolding add_rrs_res_def by auto
    moreover have "add_rrs i new (d # ds) (tail_of (rs_rrs rs)) c \<sigma> = Some (ok', c', \<sigma>')" using 1(1) True 2(1) tl by simp
    ultimately show ?thesis by blast
  qed
qed

text \<open>Before and after the replacement of the RR set \<open>i\<close> of \<open>ce\<close>.\<close>

definition rest_kept :: "nat \<Rightarrow> u16 \<Rightarrow> dns_cent \<Rightarrow> dns_cent \<Rightarrow> bool" where
  "rest_kept i fl ce ce' = (ce_qname ce' = ce_qname ce \<and> ce_ns ce' = ce_ns ce \<and> ce_soa ce' = ce_soa ce \<and>
     has (ce_flags ce') DF_LOCAL = has (ce_flags ce) DF_LOCAL \<and>
     (\<forall>j. j \<noteq> i \<longrightarrow> slot ce' j = slot ce j \<or>
        (slot ce' j = None \<and> (\<forall>rs. slot ce j = Some rs \<longrightarrow> conflicting i j rs \<and> (has (rs_flags rs) CF_LOCAL \<longrightarrow> has fl CF_LOCAL)))))"

definition replaced :: "cconf \<Rightarrow> int \<Rightarrow> nat \<Rightarrow> rr_set \<Rightarrow> dns_cent \<Rightarrow> dns_cent \<Rightarrow> bool \<Rightarrow> bool" where
  "replaced conf now i new ce ce' nf = (cent_wf ce' \<and> linked ce' \<and> rest_kept i (rs_flags new) ce ce' \<and>
     (slot ce' i = None \<or> map_option unlinked_set (slot ce' i) = Some (adjust_ttl conf (unlinked_set new))) \<and>
     (nf \<longrightarrow> (slot ce' i = None) = (\<not> accepts now (del_slot ce i) i (rs_ttl new) (rs_flags new))))"

lemma cleanup_set_spec:
  assumes "cinv A X \<sigma>" "cents \<sigma> a = Some c" "a \<in> X" "i < NRRTOT"
  shows "\<exists>\<sigma>'. cleanup_set a i \<sigma> = Some (False, \<sigma>') \<and> grew A X a (del_slot c i) \<sigma> \<sigma>'"
proof -
  have wf: "cent_wf c" using cinv_ent [OF assms(1,2)] by simp
  obtain \<sigma>1 where d: "del_cent_rrset_by_index c i \<sigma> = Some (slot_size (slot c i), del_slot c i, \<sigma>1)"
    "held a (del_slot c i) (rest a (cents \<sigma>)) \<sigma>1" "frame \<sigma> \<sigma>1" "mallocs \<sigma>1 = mallocs \<sigma>"
    using del_cent_rrset_spec [OF wf cinv_held [OF assms(1,2)] assms(4)] by blast
  have "grew A X a (del_slot c i) \<sigma> (put a (del_slot c i) \<sigma>1)"
    by (rule grewI [OF assms(1,2) d(3,2) del_slot_props(1,4) [OF wf] assms(3)]) (use d(4) in \<open>simp add: no_fail_def\<close>)
  then show ?thesis using d(1) assms(2) by (simp add: cleanup_set_def)
qed

text \<open>Entries whose RR sets, the one at \<open>i\<close> apart, are those of a linked entry.\<close>

lemma linked_but:
  assumes "cent_wf c'" "\<not> neg c'" "linked c" "cent_wf c" "has (ce_flags c') DF_LOCAL = has (ce_flags c) DF_LOCAL"
    "\<And>j. j \<noteq> i \<Longrightarrow> slot c' j = slot c j \<or> slot c' j = None" "linked_at c' (Some i)"
  shows "linked c'"
proof -
  have sh: "cent_shape c'" "cent_shape c" using assms(1,4) by (simp_all add: cent_wf_def)
  have old: "linked_at c (Some j)" for j
  proof (cases "neg c")
    case True
    then have "slot c j = None" using slot_Some_rr [OF sh(2), of j] by (meson not_Some_eq)
    then show ?thesis by (simp add: linked_at_def)
  next
    case False
    then show ?thesis using assms(3) linked_iff [OF sh(2)] by simp
  qed
  have "linked_at c' (Some j)" if "j \<noteq> i" for j
    using old [of j] assms(5) assms(6) [OF that] by (auto simp: linked_at_def)
  then have "\<forall>j. linked_at c' (Some j)" using assms(7) by metis
  then show ?thesis using linked_iff [OF sh(1)] assms(2) by simp
qed

lemma accepts_local:
  assumes "accepts now c i ttl fl" "cr_clears fl c i j" "slot c j = Some rs"
  shows "conflicting i j rs \<and> (has (rs_flags rs) CF_LOCAL \<longrightarrow> has fl CF_LOCAL)"
proof -
  have c: "conflicting i j rs" "\<not> has fl CF_NEGATIVE" using assms(2,3) by (simp_all add: cr_clears_def confl_at_def)
  then have "has fl CF_LOCAL \<or> \<not> local_confl c i j" using assms(1) unfolding accepts_def by blast
  then show ?thesis using c assms(3) by (auto simp: local_confl_def)
qed

lemma pos_cent_linked_flags: "cent_wf c \<Longrightarrow> has (ce_flags (pos_cent c)) DF_LOCAL = has (ce_flags c) DF_LOCAL"
  using pos_cent_props(7) [of c DF_LOCAL] by simp

lemma replace_set_spec:
  assumes "cinv A X \<sigma>" "cents \<sigma> a = Some ce" "a \<in> X" "i < NRRTOT" "linked ce"
  shows "\<exists>ok ce' \<sigma>'. replace_set now conf a i new \<sigma> = Some (ok, \<sigma>') \<and> grew A X a ce' \<sigma> \<sigma>' \<and>
    replaced conf now i new ce ce' (no_fail \<sigma>) \<and> (no_fail \<sigma> \<longrightarrow> ok)"
proof -
  let ?R = "rest a (cents \<sigma>)"
  let ?fl = "rs_flags new" and ?ttl = "rs_ttl new" and ?ts = "rs_ts new"
  have wf: "cent_wf ce" using cinv_ent [OF assms(1,2)] by simp
  obtain \<sigma>1 where 1: "del_cent_rrset_by_index ce i \<sigma> = Some (slot_size (slot ce i), del_slot ce i, \<sigma>1)"
    "held a (del_slot ce i) ?R \<sigma>1" "frame \<sigma> \<sigma>1" "mallocs \<sigma>1 = mallocs \<sigma>"
    using del_cent_rrset_spec [OF wf cinv_held [OF assms(1,2)] assms(4)] by blast
  let ?ce1 = "del_slot ce i"
  have t1: "thinned (\<lambda>j. j = i) ce ?ce1" by (rule thinned_del [OF wf])
  have wf1: "cent_wf ?ce1" using t1 by (simp add: thinned_def)
  let ?acc = "accepts now ?ce1 i ?ttl ?fl"
  obtain ce2 \<sigma>2 where 2: "cr_check_add now ?ce1 i ?ttl ?ts ?fl \<sigma>1 = Some (?acc, ce2, \<sigma>2)"
    "thinned (\<lambda>j. ?acc \<and> cr_clears ?fl ?ce1 i j) ?ce1 ce2" "held a ce2 ?R \<sigma>2" "frame \<sigma>1 \<sigma>2" "mallocs \<sigma>2 = mallocs \<sigma>1"
    using cr_check_add_spec [OF wf1 1(2) assms(4), of now ?ttl ?ts ?fl] by (elim exE conjE) (rule that)
  note t2 = thinned_trans [OF t1 2(2)]
  have wf2: "cent_wf ce2" and lk2: "linked ce2" and q2: "ce_qname ce2 = ce_qname ce" and s2: "slot ce2 i = None"
    using t2 assms(5) by (simp_all add: thinned_def)
  have f2: "frame \<sigma> \<sigma>2" by (rule frame_trans [OF 1(3) 2(4)])
  have nf2: "no_fail \<sigma>2 = no_fail \<sigma>" using 1(4) 2(5) by (simp add: no_fail_def)
  have rk2: "rest_kept i ?fl ce ce2"
    unfolding rest_kept_def
  proof (intro conjI allI impI)
    fix j assume j: "j \<noteq> i"
    have sj: "slot ?ce1 j = slot ce j" using t1 j by (simp add: thinned_def)
    show "slot ce2 j = slot ce j \<or> (slot ce2 j = None \<and> (\<forall>rs. slot ce j = Some rs \<longrightarrow> conflicting i j rs \<and> (has (rs_flags rs) CF_LOCAL \<longrightarrow> has ?fl CF_LOCAL)))"
      using t2 j accepts_local [of now ?ce1 i ?ttl ?fl j] sj by (auto simp: thinned_def)
  qed (use t2 in \<open>simp_all add: thinned_def\<close>)
  have rk: "rest_kept i ?fl ce c'" if "ce_qname c' = ce_qname ce2" "ce_ns c' = ce_ns ce2" "ce_soa c' = ce_soa ce2"
    "has (ce_flags c') DF_LOCAL = has (ce_flags ce2) DF_LOCAL" "\<And>j. j \<noteq> i \<Longrightarrow> slot c' j = slot ce2 j" for c'
    using rk2 that by (simp add: rest_kept_def)
  have run2: "replace_set now conf a i new \<sigma> = (if \<not> ?acc then Some (True, put a ce2 \<sigma>2)
       else do {
         (ok1, ce3, \<sigma>3) \<leftarrow> add_cent_rrset_by_index ce2 i ?ttl ?ts ?fl \<sigma>2;
         if \<not> ok1 then Some (False, put a ce3 \<sigma>3)
         else do {
           (ok2, ce4, \<sigma>4) \<leftarrow> add_rrs i new (rs_rrs new) None ce3 \<sigma>3;
           if \<not> ok2 then cleanup_set a i (put a ce4 \<sigma>4)
           else do {
             r \<leftarrow> RRARR_INDEX ce4 i;
             rs \<leftarrow> r;
             ce5 \<leftarrow> set_rrarr ce4 i (Some (adjust_ttl conf rs));
             (ok3, \<sigma>5) \<leftarrow> insert_rrl a (Some i) (put a ce5 \<sigma>4);
             if ok3 then Some (True, \<sigma>5) else cleanup_set a i \<sigma>5
           }
         }
       })" using assms(2) 1(1) 2(1) by (simp add: replace_set_def)
  show ?thesis
  proof (cases ?acc)
    case False
    have "grew A X a ce2 \<sigma> (put a ce2 \<sigma>2)"
      by (rule grewI [OF assms(1,2) f2 2(3) wf2 q2 assms(3)]) (simp add: nf2)
    moreover have "replaced conf now i new ce ce2 (no_fail \<sigma>)" using wf2 lk2 rk2 s2 False by (simp add: replaced_def)
    ultimately show ?thesis using run2 False by (intro exI [of _ True] exI [of _ ce2]) auto
  next
    case True
    let ?e = "\<lparr> rs_lent = None, rs_ttl = ?ttl, rs_ts = ?ts, rs_flags = ?fl, rs_rrs = [] \<rparr>"
    obtain ok1 ce3 \<sigma>3 where 3: "add_cent_rrset_by_index ce2 i ?ttl ?ts ?fl \<sigma>2 = Some (ok1, ce3, \<sigma>3)"
      "add_set_res a ?R ce2 i ?e \<sigma>2 ok1 ce3 \<sigma>3" using add_cent_rrset_spec [OF wf2 2(3) assms(4) s2] by blast
    note r3 = 3(2) [unfolded add_set_res_def]
    have f3: "frame \<sigma> \<sigma>3" using r3 frame_trans [OF f2] by blast
    have q3: "ce_qname ce3 = ce_qname ce" using r3 q2 by simp
    have l3: "has (ce_flags ce3) DF_LOCAL = has (ce_flags ce2) DF_LOCAL" using r3 pos_cent_linked_flags [OF wf2] by simp
    have n3: "\<not> neg ce3" using r3 by blast
    have nf3: "no_fail \<sigma> \<longrightarrow> ok1 \<and> no_fail \<sigma>3" using r3 nf2 by blast
    show ?thesis
    proof (cases ok1)
      case False
      have g: "grew A X a ce3 \<sigma> (put a ce3 \<sigma>3)"
        by (rule grewI [OF assms(1,2) f3 _ _ q3 assms(3)]) (use r3 nf3 False in simp_all)
      have s3: "slot ce3 i = None" using r3 False s2 by simp
      have "linked ce3"
        by (rule linked_but [OF _ n3 lk2 wf2 l3, of i]) (use r3 False s3 in \<open>simp_all add: linked_at_def\<close>)
      moreover have "rest_kept i ?fl ce ce3" by (rule rk) (use r3 l3 False in simp_all)
      ultimately have "replaced conf now i new ce ce3 (no_fail \<sigma>)" using r3 s3 nf3 False by (simp add: replaced_def)
      then show ?thesis using run2 True 3(1) False g nf3 by (intro exI [of _ False] exI [of _ ce3]) auto
    next
      case ok1: True
      have s3: "slot ce3 i = Some ?e" and i3: "i < length (slots ce3)" using r3 ok1 by simp_all
      have wf3: "cent_wf ce3" and h3: "held a ce3 ?R \<sigma>3" using r3 by simp_all
      obtain ok2 ce4 \<sigma>4 where 4: "add_rrs i new (rs_rrs new) None ce3 \<sigma>3 = Some (ok2, ce4, \<sigma>4)"
        "add_rrs_res a ?R ce3 i ?e (rs_rrs new) \<sigma>3 ok2 ce4 \<sigma>4"
        using add_rrs_spec [OF wf3 h3 assms(4) s3, of new "rs_rrs new"] by (auto simp: tail_of_def)
      note r4 = 4(2) [unfolded add_rrs_res_def]
      obtain ds where s4: "slot ce4 i = Some (?e\<lparr> rs_rrs := ds \<rparr>)" "ok2 \<longrightarrow> ds = rs_rrs new" using r4 by auto
      have f4: "frame \<sigma> \<sigma>4" using r4 frame_trans [OF f3] by blast
      have q4: "ce_qname ce4 = ce_qname ce" using r4 q3 by simp
      have wf4: "cent_wf ce4" and h4: "held a ce4 ?R \<sigma>4" using r4 by simp_all
      have fl4: "ce_flags ce4 = ce_flags ce3" using r4 by blast
      have o4: "slot ce4 j = slot ce2 j" if "j \<noteq> i" for j using r4 r3 that by simp
      have nf4: "no_fail \<sigma> \<longrightarrow> ok2 \<and> no_fail \<sigma>4" using r4 nf3 by blast
      have g4: "grew A X a ce4 \<sigma> (put a ce4 \<sigma>4)"
        by (rule grewI [OF assms(1,2) f4 h4 wf4 q4 assms(3)]) (use nf4 in simp)
      have clean: "\<exists>\<sigma>'. cleanup_set a i s = Some (False, \<sigma>') \<and> grew A X a (del_slot c' i) \<sigma> \<sigma>' \<and>
          replaced conf now i new ce (del_slot c' i) (no_fail \<sigma>)"
        if x: "grew A X a c' \<sigma> s" "ce_flags c' = ce_flags ce4" "ce_qname c' = ce_qname ce4" "ce_ns c' = ce_ns ce4" "ce_soa c' = ce_soa ce4"
          "\<And>j. j \<noteq> i \<Longrightarrow> slot c' j = slot ce4 j" "\<not> no_fail \<sigma>" for s c'
      proof -
        have Is: "cinv A X s" "cents s a = Some c'" using x(1) by (simp_all add: grew_def)
        obtain \<sigma>' where d: "cleanup_set a i s = Some (False, \<sigma>')" "grew A X a (del_slot c' i) s \<sigma>'"
          using cleanup_set_spec [OF Is assms(3,4)] by blast
        have wfc: "cent_wf c'" using cinv_ent(1) [OF Is] .
        note p = del_slot_props [OF wfc, of i]
        have nn: "\<not> neg (del_slot c' i)" using p(5) x(2) fl4 n3 by simp
        have ll: "has (ce_flags (del_slot c' i)) DF_LOCAL = has (ce_flags ce2) DF_LOCAL" using p(5) x(2) fl4 l3 by simp
        have oo: "slot (del_slot c' i) j = slot ce2 j" if "j \<noteq> i" for j using p(3) x(6) o4 that by simp
        have "linked (del_slot c' i)"
          by (rule linked_but [OF p(1) nn lk2 wf2 ll, of i]) (use oo p(3) in \<open>simp_all add: linked_at_def\<close>)
        moreover have "rest_kept i ?fl ce (del_slot c' i)" by (rule rk) (use p x ll oo r3 r4 in simp_all)
        ultimately have "replaced conf now i new ce (del_slot c' i) (no_fail \<sigma>)" using p x(7) by (simp add: replaced_def)
        then show ?thesis using d grew_trans [OF x(1) d(2)] by blast
      qed
      show ?thesis
      proof (cases ok2)
        case False
        have "\<not> no_fail \<sigma>" using nf4 False by blast
        then obtain \<sigma>' where c: "cleanup_set a i (put a ce4 \<sigma>4) = Some (False, \<sigma>')" "grew A X a (del_slot ce4 i) \<sigma> \<sigma>'"
          "replaced conf now i new ce (del_slot ce4 i) (no_fail \<sigma>)" using clean [OF g4] by blast
        have "replace_set now conf a i new \<sigma> = Some (False, \<sigma>')" using run2 True 3(1) ok1 4(1) False c(1) by simp
        then show ?thesis using c(2,3) \<open>\<not> no_fail \<sigma>\<close> by blast
      next
        case ok2: True
        let ?rs = "?e\<lparr> rs_rrs := rs_rrs new \<rparr>"
        have s4': "slot ce4 i = Some ?rs" using s4 ok2 by simp
        have rs: "?rs = unlinked_set new" by simp
        have sh4: "cent_shape ce4" using wf4 by (simp add: cent_wf_def)
        have i4: "i < length (slots ce4)" using slot_SomeD [OF s4'] by simp
        let ?ad = "adjust_ttl conf ?rs"
        let ?ce5 = "set_slot ce4 i ?ad"
        have st: "set_rrarr ce4 i (Some ?ad) = Some ?ce5" by (rule set_rrarr_slot [OF wf4 s4']) simp
        note p5 = set_slot_props [OF wf4 s4', of ?ad]
        have it5: "cent_items a ?ce5 = cent_items a ce4" by (rule set_slot_items [OF wf4 s4']) simp
        have q5: "ce_qname ?ce5 = ce_qname ce" using p5(3) q4 by simp
        have g5: "grew A X a ?ce5 \<sigma> (put a ?ce5 \<sigma>4)"
          by (rule grewI [OF assms(1,2) f4 held_items [OF h4 it5] p5(1) q5 assms(3)]) (use nf4 in simp)
        have I5: "cinv A X (put a ?ce5 \<sigma>4)" "cents (put a ?ce5 \<sigma>4) a = Some ?ce5" using g5 by (simp_all add: grew_def)
        have u5: "unlinked_at ?ce5 (Some i)" using p5(2) by (simp add: unlinked_at_def)
        obtain ok3 c6 \<sigma>6 where 6: "insert_rrl a (Some i) (put a ?ce5 \<sigma>4) = Some (ok3, \<sigma>6)" "grew A X a c6 (put a ?ce5 \<sigma>4) \<sigma>6"
          "unlinked c6 = unlinked ?ce5" "cent_wf c6" "ok3 \<longrightarrow> linked_at c6 (Some i)" "\<forall>j. Some i \<noteq> Some j \<longrightarrow> slot c6 j = slot ?ce5 j"
          "length (slots c6) = length (slots ?ce5)" "no_fail (put a ?ce5 \<sigma>4) \<longrightarrow> ok3"
          using insert_rrl_spec [OF I5 u5 assms(3)] by (elim exE conjE) (rule that)
        have g6: "grew A X a c6 \<sigma> \<sigma>6" by (rule grew_trans [OF g5 6(2)])
        note ud = unlinked_eqD [OF 6(3) p5(1) 6(4)]
        have hd: "ce_flags c6 = ce_flags ce4" "ce_qname c6 = ce_qname ce4" "ce_ns c6 = ce_ns ce4" "ce_soa c6 = ce_soa ce4"
          using ud(1) p5 by (simp_all add: same_head_def)
        have o6: "slot c6 j = slot ce4 j" if "j \<noteq> i" for j using 6(6) p5(2) that by simp
        have nf6: "no_fail \<sigma> \<longrightarrow> ok3" using 6(8) nf4 no_fail_frame [of "put a ?ce5 \<sigma>4" \<sigma>4] by (auto simp: put_def)
        have run6: "replace_set now conf a i new \<sigma> = (if ok3 then Some (True, \<sigma>6) else cleanup_set a i \<sigma>6)"
          using run2 True 3(1) ok1 4(1) ok2 RRARR_INDEX_eq [OF sh4 i4] s4' st 6(1) by simp
        show ?thesis
        proof (cases ok3)
          case False
          have "\<not> no_fail \<sigma>" using nf6 False by blast
          then obtain \<sigma>' where c: "cleanup_set a i \<sigma>6 = Some (False, \<sigma>')" "grew A X a (del_slot c6 i) \<sigma> \<sigma>'"
            "replaced conf now i new ce (del_slot c6 i) (no_fail \<sigma>)" using clean [OF g6 hd o6] by blast
          then show ?thesis using run6 False \<open>\<not> no_fail \<sigma>\<close> by auto
        next
          case ok3: True
          have e: "adjust_ttl conf (unlinked_set new) = adjust_ttl conf ?rs" by (rule arg_cong [OF rs [symmetric]])
          have s6: "map_option unlinked_set (slot c6 i) = Some (adjust_ttl conf (unlinked_set new))"
            using ud(2) [of i] p5(2) unfolding e by simp
          have "linked c6"
            by (rule linked_but [OF 6(4) _ lk2 wf2, of i]) (use hd fl4 n3 l3 o6 o4 6(5) ok3 in simp_all)
          moreover have "rest_kept i ?fl ce c6" by (rule rk) (use hd fl4 l3 r3 r4 o6 o4 in simp_all)
          moreover have "slot c6 i \<noteq> None" using s6 by auto
          ultimately have "replaced conf now i new ce c6 (no_fail \<sigma>)" using 6(4) s6 True by (simp add: replaced_def)
          then show ?thesis using run6 ok3 g6 by auto
        qed
      qed
    qed
  qed
qed

end
