(* ===== verification/Pd_AddCacheSpec.thy ===== *)
theory Pd_AddCacheSpec
  imports Pd_Merge
begin

text \<open>
  \<open>add_cache\<close> as a whole: it ends for every entry and every cache, keeps the invariant and the size
  limit, and leaves local RR sets alone unless the new data is local.
\<close>

subsection \<open>All RR sets of an entry\<close>

definition no_local :: "dns_cent \<Rightarrow> bool" where
  "no_local c = (\<forall>i rs. slot c i = Some rs \<longrightarrow> \<not> has (rs_flags rs) CF_LOCAL)"

text \<open>The records of an RR set are those of a set of \<open>c\<close>.\<close>

definition set_from :: "dns_cent \<Rightarrow> nat \<Rightarrow> rr_set \<Rightarrow> bool" where
  "set_from c j rs = (\<exists>rs0. slot c j = Some rs0 \<and> rs_rrs rs = rs_rrs rs0)"

lemma set_from_slot: "slot c j = Some rs \<Longrightarrow> set_from c j rs"
  by (auto simp: set_from_def)

lemma adjust_ttl_rrs [simp]: "rs_rrs (adjust_ttl conf rs) = rs_rrs rs"
  by (simp add: adjust_ttl_def)

definition merged :: "dns_cent \<Rightarrow> dns_cent \<Rightarrow> dns_cent \<Rightarrow> bool" where
  "merged c ce ce' = (ce_qname ce' = ce_qname ce \<and> has (ce_flags ce') DF_LOCAL = has (ce_flags ce) DF_LOCAL \<and>
     (no_local c \<longrightarrow> (\<forall>j rs. slot ce j = Some rs \<longrightarrow> has (rs_flags rs) CF_LOCAL \<longrightarrow> slot ce' j = Some rs)) \<and>
     (\<forall>j rs. slot ce' j = Some rs \<longrightarrow> set_from ce j rs \<or> set_from c j rs))"

lemma merged_refl: "merged c ce ce"
  by (simp add: merged_def set_from_slot)

lemma merged_trans:
  assumes "merged c ce ce1" "merged c ce1 ce2"
  shows "merged c ce ce2"
proof -
  have "set_from ce j rs \<or> set_from c j rs" if s: "slot ce2 j = Some rs" for j rs
  proof (cases "set_from c j rs")
    case False
    then have "set_from ce1 j rs" using assms(2) s unfolding merged_def by blast
    then obtain rs1 where r: "slot ce1 j = Some rs1" "rs_rrs rs = rs_rrs rs1" by (auto simp: set_from_def)
    then have "set_from ce j rs1 \<or> set_from c j rs1" using assms(1) unfolding merged_def by blast
    then show ?thesis using r(2) by (simp add: set_from_def)
  qed simp
  then show ?thesis using assms by (simp add: merged_def)
qed

lemma replaced_merged:
  assumes "replaced conf now i new ce ce' nf" "slot c i = Some new" "\<not> (case slot ce i of None \<Rightarrow> False | Some rs \<Rightarrow> keep_old now new rs)"
  shows "merged c ce ce'"
  unfolding merged_def
proof (intro conjI impI allI)
  have rk: "rest_kept i (rs_flags new) ce ce'" using assms(1) by (simp add: replaced_def)
  then show "ce_qname ce' = ce_qname ce" "has (ce_flags ce') DF_LOCAL = has (ce_flags ce) DF_LOCAL"
    by (simp_all add: rest_kept_def)
  fix j rs assume nl: "no_local c" and rs: "slot ce j = Some rs" "has (rs_flags rs) CF_LOCAL"
  have new: "\<not> has (rs_flags new) CF_LOCAL" using nl assms(2) by (simp add: no_local_def)
  have "j \<noteq> i" using assms(3) rs new by (auto simp: keep_old_def)
  then have "slot ce' j = slot ce j \<or> (slot ce' j = None \<and> (\<forall>rs. slot ce j = Some rs \<longrightarrow> conflicting i j rs \<and>
      (has (rs_flags rs) CF_LOCAL \<longrightarrow> has (rs_flags new) CF_LOCAL)))"
    using rk unfolding rest_kept_def by blast
  then show "slot ce' j = Some rs" using rs new by auto
next
  have rk: "rest_kept i (rs_flags new) ce ce'" using assms(1) by (simp add: replaced_def)
  fix j rs assume s: "slot ce' j = Some rs"
  show "set_from ce j rs \<or> set_from c j rs"
  proof (cases "j = i")
    case True
    then have "unlinked_set rs = adjust_ttl conf (unlinked_set new)" using assms(1) s by (simp add: replaced_def)
    then have "rs_rrs (unlinked_set rs) = rs_rrs (adjust_ttl conf (unlinked_set new))" by (rule arg_cong)
    then show ?thesis using assms(2) True by (simp add: set_from_def)
  next
    case False
    then have "slot ce j = Some rs" using rk s by (auto simp: rest_kept_def)
    then show ?thesis by (simp add: set_from_slot)
  qed
qed

lemma merge_sets_spec:
  assumes "cinv A X \<sigma>" "cents \<sigma> a = Some ce" "a \<in> X" "linked ce" "cent_shape c" "\<forall>i \<in> set is. i < length (slots c)"
  shows "\<exists>ok ce' \<sigma>'. merge_sets now conf a c is \<sigma> = Some (ok, \<sigma>') \<and> grew A X a ce' \<sigma> \<sigma>' \<and> linked ce' \<and> merged c ce ce' \<and>
    (no_fail \<sigma> \<longrightarrow> ok)"
  using assms(1,2,4,6)
proof (induction "is" arbitrary: \<sigma> ce)
  case Nil
  then show ?case using grew_refl merged_refl by (intro exI [of _ True] exI [of _ ce] exI [of _ \<sigma>]) simp
next
  case (Cons i "is")
  have i: "i < length (slots c)" "\<forall>i \<in> set is. i < length (slots c)" using Cons.prems(4) by simp_all
  have lt: "i < NRRTOT" using i(1) slots_len_le [OF assms(5)] by simp
  have r: "RRARR_INDEX c i = Some (slot c i)" by (rule RRARR_INDEX_eq [OF assms(5) i(1)])
  note IH = Cons.IH [OF Cons.prems(1-3) i(2)]
  show ?case
  proof (cases "slot c i")
    case None
    then show ?thesis using IH r by simp
  next
    case (Some new)
    have old: "RRARR_INDEX_TESTEXT ce i = Some (slot ce i)"
      by (rule RRARR_TEST_eq [OF cinv_ent(2) [OF Cons.prems(1,2)] lt])
    let ?keep = "case slot ce i of None \<Rightarrow> False | Some rs \<Rightarrow> keep_old now new rs"
    show ?thesis
    proof (cases ?keep)
      case True
      then have "merge_sets now conf a c (i # is) \<sigma> = merge_sets now conf a c is \<sigma>"
        using r Some Cons.prems(2) old by simp
      then show ?thesis using IH by simp
    next
      case False
      obtain ok ce1 \<sigma>1 where 1: "replace_set now conf a i new \<sigma> = Some (ok, \<sigma>1)" "grew A X a ce1 \<sigma> \<sigma>1"
        "replaced conf now i new ce ce1 (no_fail \<sigma>)" "no_fail \<sigma> \<longrightarrow> ok"
        using replace_set_spec [OF Cons.prems(1,2) assms(3) lt Cons.prems(3)] by blast
      have m1: "merged c ce ce1" by (rule replaced_merged [OF 1(3) Some False])
      have l1: "linked ce1" using 1(3) by (simp add: replaced_def)
      have run: "merge_sets now conf a c (i # is) \<sigma> = (if ok then merge_sets now conf a c is \<sigma>1 else Some (False, \<sigma>1))"
        using r Some Cons.prems(2) old False 1(1) by simp
      show ?thesis
      proof (cases ok)
        case True
        have I1: "cinv A X \<sigma>1" "cents \<sigma>1 a = Some ce1" using 1(2) by (simp_all add: grew_def)
        obtain ok' ce' \<sigma>' where 2: "merge_sets now conf a c is \<sigma>1 = Some (ok', \<sigma>')" "grew A X a ce' \<sigma>1 \<sigma>'" "linked ce'" "merged c ce1 ce'"
          "no_fail \<sigma>1 \<longrightarrow> ok'" using Cons.IH [OF I1 l1 i(2)] by blast
        have "no_fail \<sigma> \<longrightarrow> no_fail \<sigma>1" using 1(2) by (simp add: grew_def)
        then show ?thesis using run True 2 grew_trans [OF 1(2) 2(2)] merged_trans [OF m1 2(4)]
          by (intro exI [of _ ok'] exI [of _ ce'] exI [of _ \<sigma>']) simp
      next
        case False
        then show ?thesis using run 1 l1 m1 by (intro exI [of _ False] exI [of _ ce1] exI [of _ \<sigma>1]) simp
      qed
    qed
  qed
qed

subsection \<open>An entry that is in the cache\<close>

lemma merge_fields_props:
  assumes "cent_wf ce" "linked ce"
  shows "cent_wf (merge_fields ce c)" "linked (merge_fields ce c)" "ce_qname (merge_fields ce c) = ce_qname ce"
    "ce_cs (merge_fields ce c) = ce_cs ce" "slot (merge_fields ce c) i = slot ce i"
    "has (ce_flags (merge_fields ce c)) DF_LOCAL = has (ce_flags ce) DF_LOCAL"
    "cent_items a (merge_fields ce c) = cent_items a ce"
proof -
  have f: "has (ce_flags (merge_fields ce c)) DF_NEGATIVE = neg ce" "has (ce_flags (merge_fields ce c)) DF_LOCAL = has (ce_flags ce) DF_LOCAL"
    by (simp_all add: merge_fields_def)
  then show "has (ce_flags (merge_fields ce c)) DF_LOCAL = has (ce_flags ce) DF_LOCAL" by simp
  have b: "ce_body (merge_fields ce c) = ce_body ce" "slots (merge_fields ce c) = slots ce" "ce_num (merge_fields ce c) = ce_num ce"
    by (simp_all add: merge_fields_def slots_def)
  show q: "ce_qname (merge_fields ce c) = ce_qname ce" "ce_cs (merge_fields ce c) = ce_cs ce" by (simp_all add: merge_fields_def)
  show s: "slot (merge_fields ce c) i = slot ce i" for i by (simp add: slot_def b)
  have "cent_shape (merge_fields ce c) = cent_shape ce" unfolding cent_shape_def b f ..
  then show "cent_wf (merge_fields ce c)" using assms(1) b q by (simp add: cent_wf_def cent_size_def)
  show "linked (merge_fields ce c)" using assms(2) unfolding linked_def b(1) f(2) s .
  show "cent_items a (merge_fields ce c) = cent_items a ce" unfolding cent_items_def b(1) s ..
qed

text \<open>What happens to the RR sets of the other entries, and to local ones.\<close>

definition keeps_local :: "cache \<Rightarrow> cache \<Rightarrow> bool" where
  "keeps_local \<sigma> \<sigma>' = (\<forall>a c i rs. cents \<sigma> a = Some c \<longrightarrow> slot c i = Some rs \<longrightarrow> has (rs_flags rs) CF_LOCAL \<longrightarrow>
     (\<exists>c'. cents \<sigma>' a = Some c' \<and> ce_qname c' = ce_qname c \<and> slot c' i = Some rs))"

lemma keeps_local_refl: "keeps_local \<sigma> \<sigma>"
  by (simp add: keeps_local_def)

lemma keeps_local_trans: "keeps_local \<sigma> \<sigma>1 \<Longrightarrow> keeps_local \<sigma>1 \<sigma>2 \<Longrightarrow> keeps_local \<sigma> \<sigma>2"
  unfolding keeps_local_def by metis

lemma keeps_local_cents: "cents \<sigma>1 = cents \<sigma> \<Longrightarrow> keeps_local \<sigma> \<sigma>1"
  by (simp add: keeps_local_def)

text \<open>Where the data in the cache come from after \<open>c\<close> was added: no other name is new or becomes negative, and the records of
  every RR set are those of a set that was stored under the name, or of one of \<open>c\<close>.\<close>

definition sourced :: "dns_cent \<Rightarrow> cache \<Rightarrow> cache \<Rightarrow> bool" where
  "sourced c \<sigma> \<sigma>' = (\<forall>a d. cents \<sigma>' a = Some d \<longrightarrow>
     (key_of (ce_qname d) = key_of (ce_qname c) \<or> (\<exists>d0. cents \<sigma> a = Some d0 \<and> ce_qname d0 = ce_qname d \<and> neg d0 = neg d)) \<and>
     (\<forall>j rs. slot d j = Some rs \<longrightarrow>
        (\<exists>d0. cents \<sigma> a = Some d0 \<and> key_of (ce_qname d0) = key_of (ce_qname d) \<and> set_from d0 j rs) \<or>
        key_of (ce_qname d) = key_of (ce_qname c) \<and> set_from c j rs))"

lemma sourced_sub:
  assumes "\<And>a d. cents \<sigma>' a = Some d \<Longrightarrow> cents \<sigma> a = Some d"
  shows "sourced c \<sigma> \<sigma>'"
  using assms set_from_slot unfolding sourced_def by blast

lemma sourced_cents: "cents \<sigma>' = cents \<sigma> \<Longrightarrow> sourced c \<sigma> \<sigma>'"
  by (rule sourced_sub) simp

lemma sourced_put:
  assumes "cents \<sigma>' = (cents \<sigma>)(a \<mapsto> d)" "key_of (ce_qname d) = key_of (ce_qname c)"
    "\<And>j rs. slot d j = Some rs \<Longrightarrow> (\<exists>d0. cents \<sigma> a = Some d0 \<and> key_of (ce_qname d0) = key_of (ce_qname d) \<and> set_from d0 j rs) \<or> set_from c j rs"
  shows "sourced c \<sigma> \<sigma>'"
  unfolding sourced_def
proof (intro allI impI)
  fix b e assume b: "cents \<sigma>' b = Some e"
  show "(key_of (ce_qname e) = key_of (ce_qname c) \<or> (\<exists>d0. cents \<sigma> b = Some d0 \<and> ce_qname d0 = ce_qname e \<and> neg d0 = neg e)) \<and>
     (\<forall>j rs. slot e j = Some rs \<longrightarrow>
        (\<exists>d0. cents \<sigma> b = Some d0 \<and> key_of (ce_qname d0) = key_of (ce_qname e) \<and> set_from d0 j rs) \<or>
        key_of (ce_qname e) = key_of (ce_qname c) \<and> set_from c j rs)"
  proof (cases "b = a")
    case True
    then have "e = d" using assms(1) b by simp
    then show ?thesis using assms(2,3) True by simp
  next
    case False
    then have "cents \<sigma> b = Some e" using assms(1) b by simp
    then show ?thesis using set_from_slot by simp
  qed
qed

lemma sourced_pruned:
  assumes "sourced c \<sigma> \<sigma>1" "pruned D E \<sigma>1 \<sigma>2"
  shows "sourced c \<sigma> \<sigma>2"
  unfolding sourced_def
proof (intro allI impI)
  fix a d assume d: "cents \<sigma>2 a = Some d"
  then have "a \<in> dom (cents \<sigma>1)" using assms(2) unfolding pruned_def by blast
  then obtain d1 where d1: "cents \<sigma>1 a = Some d1" by blast
  then have p: "pruned_cent D E d1 (Some d)" using assms(2) d unfolding pruned_def by metis
  then have q: "ce_qname d = ce_qname d1" "neg d = neg d1" by (simp_all add: pruned_cent_def)
  have pd: "slot d j = slot d1 j \<or> slot d j = None" for j using p unfolding pruned_cent_def by auto
  have s: "slot d1 j = Some rs" if "slot d j = Some rs" for j rs using pd [of j] that by simp
  show "(key_of (ce_qname d) = key_of (ce_qname c) \<or> (\<exists>d0. cents \<sigma> a = Some d0 \<and> ce_qname d0 = ce_qname d \<and> neg d0 = neg d)) \<and>
     (\<forall>j rs. slot d j = Some rs \<longrightarrow>
        (\<exists>d0. cents \<sigma> a = Some d0 \<and> key_of (ce_qname d0) = key_of (ce_qname d) \<and> set_from d0 j rs) \<or>
        key_of (ce_qname d) = key_of (ce_qname c) \<and> set_from c j rs)"
    using assms(1) d1 s unfolding sourced_def q by simp
qed

lemma pruned_items:
  assumes "pruned D E \<sigma> \<sigma>'" "cache_inv \<sigma>" "cache_inv \<sigma>'"
  shows "items (cents \<sigma>') \<subseteq> items (cents \<sigma>)"
proof
  fix x assume "x \<in> items (cents \<sigma>')"
  then obtain a d where d: "cents \<sigma>' a = Some d" "x \<in> cent_items a d" by (auto simp: items_def)
  then have "a \<in> dom (cents \<sigma>)" using assms(1) unfolding pruned_def by blast
  then obtain c where c: "cents \<sigma> a = Some c" by blast
  then have p: "pruned_cent D E c (Some d)" using assms(1) d(1) unfolding pruned_def by metis
  have "cent_wf c" "cent_wf d" using cinv_ent(1) assms(2,3) c d(1) unfolding cache_inv_def by blast+
  then have sh: "cent_shape c" "cent_shape d" by (simp_all add: cent_wf_def)
  have "x \<in> cent_items a c"
  proof (cases "neg c")
    case True
    then show ?thesis using p d(2) by (simp add: pruned_cent_def)
  next
    case False
    then have n: "\<not> neg d" using p by (simp add: pruned_cent_def)
    obtain n i where x: "x = (n, a, Some i)" "Option.bind (slot d i) rs_lent = Some n"
      using d(2) unfolding cent_items_rr [OF sh(2) n] by blast
    then have "slot d i \<noteq> None" by (cases "slot d i") simp_all
    moreover have "slot d i = slot c i \<or> slot d i = None" using p unfolding pruned_cent_def by auto
    ultimately have "slot d i = slot c i" by auto
    then show ?thesis using x unfolding cent_items_rr [OF sh(1) False] by auto
  qed
  then show "x \<in> items (cents \<sigma>)" using c by (auto simp: items_def)
qed

lemma pruned_keeps_local:
  assumes "pruned not_local E \<sigma> \<sigma>'"
  shows "keeps_local \<sigma> \<sigma>'"
  unfolding keeps_local_def
proof (intro allI impI)
  fix a c i rs assume a: "cents \<sigma> a = Some c" "slot c i = Some rs" "has (rs_flags rs) CF_LOCAL"
  then have p: "pruned_cent not_local E c (cents \<sigma>' a)" using assms by (simp add: pruned_def)
  have nl: "\<not> not_local c rs" using a(3) by (simp add: local_set_def)
  show "\<exists>c'. cents \<sigma>' a = Some c' \<and> ce_qname c' = ce_qname c \<and> slot c' i = Some rs"
  proof (cases "cents \<sigma>' a")
    case None
    then have "not_local c rs" using p a(2) unfolding pruned_cent_def by auto
    then show ?thesis using nl by blast
  next
    case (Some c')
    then have "ce_qname c' = ce_qname c" "slot c' i = slot c i \<or> (slot c' i = None \<and> (\<forall>rs. slot c i = Some rs \<longrightarrow> not_local c rs))"
      using p unfolding pruned_cent_def by auto
    then show ?thesis using Some a(2) nl by auto
  qed
qed

lemma put_keeps_local:
  assumes "cents \<sigma>' = (cents \<sigma>)(a \<mapsto> c')" "cents \<sigma> a = Some c" "ce_qname c' = ce_qname c"
    "\<And>i rs. slot c i = Some rs \<Longrightarrow> has (rs_flags rs) CF_LOCAL \<Longrightarrow> slot c' i = Some rs"
  shows "keeps_local \<sigma> \<sigma>'"
  unfolding keeps_local_def
proof (intro allI impI)
  fix b d i rs assume b: "cents \<sigma> b = Some d" "slot d i = Some rs" "has (rs_flags rs) CF_LOCAL"
  show "\<exists>c'. cents \<sigma>' b = Some c' \<and> ce_qname c' = ce_qname d \<and> slot c' i = Some rs"
  proof (cases "b = a")
    case True
    then have "d = c" using assms(2) b(1) by simp
    then show ?thesis using assms(4) [of i rs] b True assms(1,3) by simp
  next
    case False
    then show ?thesis using assms(1) b by simp
  qed
qed

lemma items_card:
  assumes "cent_shape c"
  shows "finite (cent_items a c) \<and> card (cent_items a c) \<le> NRRTOT"
proof -
  let ?f = "\<lambda>i. (the (Option.bind (slot c i) rs_lent), a, Some i)"
  show ?thesis
  proof (cases "neg c")
    case True
    then obtain le ttl ts where b: "ce_body c = NegBody le ttl ts" using assms by (auto elim: cent_shapeE)
    then show ?thesis using cent_items_neg [OF b, of a] by (cases le) auto
  next
    case False
    have "cent_items a c \<subseteq> ?f ` {0..<NRRTOT}"
    proof
      fix x assume "x \<in> cent_items a c"
      then obtain n i where x: "x = (n, a, Some i)" "Option.bind (slot c i) rs_lent = Some n"
        unfolding cent_items_rr [OF assms False] by blast
      then obtain rs where "slot c i = Some rs" by (cases "slot c i") simp_all
      then have "i < length (slots c)" using slot_SomeD by blast
      then have "i < NRRTOT" using slots_len_le [OF assms] by simp
      then show "x \<in> ?f ` {0..<NRRTOT}" using x by (intro image_eqI [of _ _ i]) simp_all
    qed
    moreover have "finite (?f ` {0..<NRRTOT})" by simp
    moreover have "card (?f ` {0..<NRRTOT}) \<le> card {0..<NRRTOT}" by (rule card_image_le) simp
    ultimately have "finite (cent_items a c) \<and> card (cent_items a c) \<le> card {0..<NRRTOT}"
      by (intro conjI) (erule finite_subset, assumption, rule order_trans [OF card_mono])
    then show ?thesis by simp
  qed
qed


lemma items_put_card:
  assumes "finite (items m)" "cent_shape c" "m' = m(a \<mapsto> c)"
  shows "card (items m') \<le> card (items m) + NRRTOT"
proof -
  have sub: "items m' \<subseteq> cent_items a c \<union> items m"
    unfolding assms(3) items_upd by (auto simp: rest_def items_def)
  have fin: "finite (cent_items a c \<union> items m)" using assms(1) items_card [OF assms(2), of a] by simp
  have "card (items m') \<le> card (cent_items a c \<union> items m)" by (rule card_mono [OF fin sub])
  also have "\<dots> \<le> card (cent_items a c) + card (items m)" by (rule card_Un_le)
  finally show ?thesis using items_card [OF assms(2), of a] by simp
qed

lemma cache_items_finite: "cache_inv \<sigma> \<Longrightarrow> finite (items (cents \<sigma>))"
  using cache_inv_list by (metis List.finite_set)

definition known_res :: "dns_cent \<Rightarrow> nat \<Rightarrow> cache \<Rightarrow> bool \<Rightarrow> cache \<Rightarrow> bool" where
  "known_res c a \<sigma> ok \<sigma>' = (cache_inv \<sigma>' \<and> (no_local c \<longrightarrow> keeps_local \<sigma> \<sigma>') \<and> (no_fail \<sigma> \<longrightarrow> ok \<and> no_fail \<sigma>') \<and>
     (\<exists>ce'. cents \<sigma>' = (cents \<sigma>)(a \<mapsto> ce') \<and> cent_wf ce') \<and> sourced c \<sigma> \<sigma>')"

lemma purged_cent_props:
  assumes "cent_wf ce"
  shows "slot (purged_cent now \<sigma> ce) i = (if stale_at now ce i then None else slot ce i)"
    "ce_qname (purged_cent now \<sigma> ce) = ce_qname ce" "neg (purged_cent now \<sigma> ce) = neg ce"
proof -
  have s: "slot (c\<lparr> ce_ns := x, ce_soa := y \<rparr>) i = slot c i" for c x y by (simp add: slot_def slots_def)
  show "slot (purged_cent now \<sigma> ce) i = (if stale_at now ce i then None else slot ce i)"
    using purged_all_props(2) [OF assms, of now i] by (simp add: purged_cent_def Let_def s)
  show "ce_qname (purged_cent now \<sigma> ce) = ce_qname ce" "neg (purged_cent now \<sigma> ce) = neg ce"
    using purged_all_props(3,6) [OF assms, of now] by (simp_all add: purged_cent_def Let_def)
qed

lemma purged_cent_local:
  assumes "cent_wf ce" "slot ce i = Some rs" "has (rs_flags rs) CF_LOCAL"
  shows "slot (purged_cent now \<sigma> ce) i = Some rs"
  using assms(2,3) purged_cent_props(1) [OF assms(1)] by (simp add: stale_at_def stale_set_def)

lemma add_known_spec:
  assumes "cache_inv \<sigma>" "cents \<sigma> a = Some ce" "cent_wf c" "\<not> neg c" "key_of (ce_qname ce) = key_of (ce_qname c)"
  shows "\<exists>ok \<sigma>'. add_known now conf c a \<sigma> = Some (ok, \<sigma>') \<and> known_res c a \<sigma> ok \<sigma>'"
proof -
  let ?A = "dom (cents \<sigma>)"
  let ?pc = "purged_cent now \<sigma> ce"
  have I: "cinv ?A {} \<sigma>" using assms(1) by (simp add: cache_inv_def)
  have wf: "cent_wf ce" by (rule cinv_ent [OF I assms(2)])
  have sh: "cent_shape c" using assms(3) by (simp add: cent_wf_def)
  have aA: "a \<in> ?A" using assms(2) by blast
  have nd: "\<not> dead now False ce" by (simp add: dead_def)
  obtain \<sigma>1 where 1: "purge_cent now a False False \<sigma> = Some (purge_count now False \<sigma> ce, \<sigma>1)" "changed ?A {} a ?pc \<sigma> \<sigma>1"
    using purge_cent_real [OF I assms(2) aA, of now False] nd by auto
  have I1: "cinv ?A {} \<sigma>1" "cents \<sigma>1 a = Some ?pc" "cents \<sigma>1 = (cents \<sigma>)(a \<mapsto> ?pc)" "mallocs \<sigma>1 = mallocs \<sigma>"
    using 1(2) by (simp_all add: changed_def)
  let ?s1 = "\<sigma>1\<lparr> cache_size := cache_size \<sigma>1 - ce_cs ?pc \<rparr>"
  have I2: "cinv ?A {a} ?s1" "cents ?s1 a = Some ?pc" using cinv_exclude [OF I1(1,2)] I1(2) by simp_all
  have l: "linked ?pc" using cinv_ent(5) [OF I1(1,2)] by simp
  have ix: "\<forall>i \<in> set [0..<length (slots c)]. i < length (slots c)" by simp
  obtain ok ce' \<sigma>2 where 2: "merge_sets now conf a c [0..<length (slots c)] ?s1 = Some (ok, \<sigma>2)" "grew ?A {a} a ce' ?s1 \<sigma>2"
    "linked ce'" "merged c ?pc ce'" "no_fail ?s1 \<longrightarrow> ok"
    using merge_sets_spec [OF I2 singletonI l sh ix, of now conf] by blast
  have G: "cinv ?A {a} \<sigma>2" "cents \<sigma>2 = (cents \<sigma>)(a \<mapsto> ce')" "no_fail ?s1 \<longrightarrow> no_fail \<sigma>2"
    using 2(2) I1(3) by (simp_all add: grew_def)
  have a2: "cents \<sigma>2 a = Some ce'" using G(2) by simp
  have nf: "no_fail ?s1 = no_fail \<sigma>" using I1(4) by (simp add: no_fail_def)
  have w': "cent_wf ce'" by (rule cinv_ent [OF G(1) a2])
  have RL: "RRARR_LEN c = Some (length (slots c))" by (rule RRARR_LEN_eq [OF sh])
  note q = purged_cent_props [OF wf, of now \<sigma>]
  have dom: "insert a ?A = ?A" using aA by blast
  have kl: "keeps_local \<sigma> \<sigma>'" if "no_local c" "cents \<sigma>' = (cents \<sigma>)(a \<mapsto> d)" "ce_qname d = ce_qname ce'" "\<And>i. slot d i = slot ce' i" for \<sigma>' d
  proof (rule put_keeps_local [OF that(2) assms(2)])
    show "ce_qname d = ce_qname ce" using 2(4) that(3) q(2) by (simp add: merged_def)
    fix i rs assume "slot ce i = Some rs" "has (rs_flags rs) CF_LOCAL"
    then have "slot ?pc i = Some rs" "has (rs_flags rs) CF_LOCAL" using purged_cent_local [OF wf] by simp_all
    then show "slot d i = Some rs" using 2(4) that(1,4) by (simp add: merged_def)
  qed
  have src: "sourced c \<sigma> \<sigma>'" if u: "cents \<sigma>' = (cents \<sigma>)(a \<mapsto> d)" and n: "ce_qname d = ce_qname ce'" and sl: "\<And>i. slot d i = slot ce' i" for \<sigma>' d
  proof (rule sourced_put [OF u])
    have qd: "ce_qname d = ce_qname ce" using 2(4) n q(2) by (simp add: merged_def)
    then show "key_of (ce_qname d) = key_of (ce_qname c)" using assms(5) by simp
    fix j rs assume "slot d j = Some rs"
    then have "set_from ?pc j rs \<or> set_from c j rs" using 2(4) sl by (simp add: merged_def)
    moreover have "set_from ce j rs" if "set_from ?pc j rs" using that q(1) [of j] by (auto simp: set_from_def split: if_splits)
    ultimately show "(\<exists>d0. cents \<sigma> a = Some d0 \<and> key_of (ce_qname d0) = key_of (ce_qname d) \<and> set_from d0 j rs) \<or> set_from c j rs"
      using assms(2) qd by auto
  qed
  show ?thesis
  proof (cases ok)
    case True
    let ?m = "merge_fields ce' c"
    note m = merge_fields_props [OF w' 2(3), where c = c]
    let ?s3 = "put a ?m \<sigma>2"
    have I3: "cinv ?A {a} ?s3"
      using changed_put [OF G(1) a2 m(7) m(1,3,2,4)] by (simp add: changed_def)
    have a3: "cents ?s3 a = Some ?m" by (simp add: put_def)
    let ?s4 = "?s3\<lparr> cache_size := cache_size ?s3 + ce_cs ?m \<rparr>"
    have I4: "cinv ?A {} ?s4" by (rule cinv_include [OF I3 a3 m(2)])
    have c4: "cents ?s4 = (cents \<sigma>)(a \<mapsto> ?m)" using G(2) by (simp add: put_def)
    have "add_known now conf c a \<sigma> = Some (True, ?s4)"
      using 1(1) I1(2) RL 2(1) True a2 m(4) by (simp add: add_known_def Let_def)
    moreover have "known_res c a \<sigma> True ?s4"
      unfolding known_res_def
    proof (intro conjI impI exI [of _ ?m])
      show "cache_inv ?s4" using I4 c4 dom by (simp add: cache_inv_def)
      show "keeps_local \<sigma> ?s4" if "no_local c" by (rule kl [OF that c4 m(3) m(5)])
      have "no_fail ?s4 = no_fail \<sigma>2" by (simp add: no_fail_def put_def)
      then show "no_fail ?s4" if "no_fail \<sigma>" using G(3) nf that by blast
    qed (use c4 m(1) src [OF c4 m(3) m(5)] in simp_all)
    ultimately show ?thesis by blast
  next
    case False
    let ?s4 = "\<sigma>2\<lparr> cache_size := cache_size \<sigma>2 + ce_cs ce' \<rparr>"
    have I4: "cinv ?A {} ?s4" by (rule cinv_include [OF G(1) a2 2(3)])
    have c4: "cents ?s4 = (cents \<sigma>)(a \<mapsto> ce')" using G(2) by simp
    have "add_known now conf c a \<sigma> = Some (False, ?s4)"
      using 1(1) I1(2) RL 2(1) False a2 by (simp add: add_known_def)
    moreover have "known_res c a \<sigma> False ?s4"
      unfolding known_res_def
    proof (intro conjI impI exI [of _ ce'])
      show "cache_inv ?s4" using I4 c4 dom by (simp add: cache_inv_def)
      show "keeps_local \<sigma> ?s4" if "no_local c" by (rule kl [OF that c4]) simp_all
      show "False" if "no_fail \<sigma>" using False 2(5) nf that by simp
      then show "no_fail ?s4" if "no_fail \<sigma>" using that by blast
    qed (use c4 w' src [OF c4] in simp_all)
    ultimately show ?thesis by blast
  qed
qed

subsection \<open>The whole\<close>

lemma any_set_eq:
  assumes "cent_shape c" "\<forall>i \<in> set is. i < length (slots c)"
  shows "any_set m c is = Some (\<exists>i \<in> set is. \<exists>rs. slot c i = Some rs \<and> has (rs_flags rs) m)"
  using assms(2) by (induction "is") (auto simp: RRARR_INDEX_eq [OF assms(1)] split: option.splits)

definition has_local :: "dns_cent \<Rightarrow> bool" where
  "has_local c = (\<exists>i rs. slot c i = Some rs \<and> has (rs_flags rs) CF_LOCAL)"

lemma any_local:
  assumes "cent_shape c"
  shows "any_set CF_LOCAL c [0..<length (slots c)] = Some (has_local c)"
proof -
  have "slot c i = Some rs \<Longrightarrow> i < length (slots c)" for i rs using slot_SomeD by blast
  then show ?thesis using any_set_eq [OF assms, of "[0..<length (slots c)]" CF_LOCAL]
    by (auto simp: has_local_def)
qed

definition limit :: "cconf \<Rightarrow> int" where
  "limit conf = perm_cache conf * 1024 + MCSZ"

definition within :: "cconf \<Rightarrow> cache \<Rightarrow> bool" where
  "within conf \<sigma> = (cache_size \<sigma> \<le> limit conf \<or> (\<forall>a c. cents \<sigma> a = Some c \<longrightarrow> only_local c))"

definition added :: "cconf \<Rightarrow> dns_cent \<Rightarrow> cache \<Rightarrow> cache \<Rightarrow> bool" where
  "added conf c \<sigma> \<sigma>' = (cache_inv \<sigma>' \<and> (no_local c \<longrightarrow> keeps_local \<sigma> \<sigma>') \<and>
     (no_fail \<sigma> \<longrightarrow> no_fail \<sigma>' \<and> (within conf \<sigma> \<longrightarrow> within conf \<sigma>')) \<and>
     sourced c \<sigma> \<sigma>' \<and> card (items (cents \<sigma>')) \<le> card (items (cents \<sigma>)) + NRRTOT)"

lemma no_fail_mallocs: "mallocs \<sigma>' = mallocs \<sigma> \<Longrightarrow> no_fail \<sigma>' = no_fail \<sigma>"
  by (simp add: no_fail_def)

lemma purge_to_limit_spec:
  assumes "cache_inv \<sigma>" "card (items (cents \<sigma>)) < 2 ^ 32"
  shows "\<exists>\<sigma>'. purge_to_limit now conf \<sigma> = Some \<sigma>' \<and> cache_inv \<sigma>' \<and> keeps_local \<sigma> \<sigma>' \<and> within conf \<sigma>' \<and>
    no_fail \<sigma>' = no_fail \<sigma> \<and> (cache_size \<sigma> \<le> limit conf \<longrightarrow> \<sigma>' = \<sigma>) \<and> pruned not_local not_local_neg \<sigma> \<sigma>' \<and>
    card (items (cents \<sigma>')) \<le> card (items (cents \<sigma>))"
proof -
  obtain \<sigma>' where s: "purge_cache now (limit conf) True \<sigma> = Some \<sigma>'" "cache_inv \<sigma>'"
    "pruned not_local not_local_neg \<sigma> \<sigma>'" "mallocs \<sigma>' = mallocs \<sigma>"
    "cache_size \<sigma>' \<le> limit conf \<or> (\<forall>a c. cents \<sigma>' a = Some c \<longrightarrow> only_local c)" "True \<and> cache_size \<sigma> \<le> limit conf \<longrightarrow> \<sigma>' = \<sigma>"
    using purge_cache_spec [OF assms, of now "limit conf" True] by (elim exE conjE) (rule that)
  have "purge_to_limit now conf \<sigma> = Some \<sigma>'" using s(1) by (simp add: purge_to_limit_def limit_def)
  moreover have "within conf \<sigma>'" using s(5) unfolding within_def .
  moreover have "card (items (cents \<sigma>')) \<le> card (items (cents \<sigma>))"
    by (rule card_mono [OF cache_items_finite [OF assms(1)] pruned_items [OF s(3) assms(1) s(2)]])
  ultimately show ?thesis using s(2,3,6) pruned_keeps_local [OF s(3)] no_fail_mallocs [OF s(4)] by blast
qed

lemma stored_head:
  assumes "cent_wf c" "\<not> neg c"
  shows "ce_cs (stored conf c) = ce_cs c" "ce_qname (stored conf c) = ce_qname c" "neg (stored conf c) = neg c"
    "slot (stored conf c) i = map_option (\<lambda>rs. adjust_ttl conf (unlinked_set rs)) (slot c i)"
proof -
  note u = unlinked_props [OF assms(1)]
  have shu: "cent_shape (unlinked c)" "\<not> neg (unlinked c)" using u(1,5) assms(2) by (simp_all add: cent_wf_def)
  have "ce_body (unlinked c) = rr_body (slots (unlinked c))" using body_rr [OF shu] by simp
  then have s: "stored conf c = (unlinked c)\<lparr> ce_body := rr_body (map (map_option (adjust_ttl conf)) (slots (unlinked c))) \<rparr>"
    by (simp add: stored_def Let_def rr_body_def)
  have len: "length (slots (unlinked c)) \<ge> NRRMU" using shu by (auto elim!: cent_shapeE simp: slots_def)
  have sl: "slots (stored conf c) = map (map_option (adjust_ttl conf)) (slots (unlinked c))"
    using len by (simp add: s slots_def rr_body_def)
  show "ce_cs (stored conf c) = ce_cs c" "ce_qname (stored conf c) = ce_qname c" "neg (stored conf c) = neg c"
    using u by (simp_all add: s)
  show "slot (stored conf c) i = map_option (\<lambda>rs. adjust_ttl conf (unlinked_set rs)) (slot c i)"
    using u(3) [of i] sl by (auto simp: slot_def option.map_comp comp_def split: if_splits)
qed

lemma stored_set_from:
  assumes "cent_wf c" "cent_wf ce" "unlinked ce = stored conf c" "slot ce j = Some rs"
  shows "set_from c j rs"
proof -
  have u: "slot (stored conf c) j = Some (unlinked_set rs)"
    using unlinked_props(3) [OF assms(2), of j] assms(3,4) by simp
  show ?thesis
  proof (cases "neg c")
    case True
    have "cent_shape (stored conf c)" using stored_neg(2) [OF assms(1) True, of conf] by (simp add: cent_wf_def)
    then show ?thesis using slot_Some_rr [OF _ u] stored_neg(5) [OF assms(1) True, of conf] by simp
  next
    case False
    then obtain rs0 where r: "slot c j = Some rs0" "unlinked_set rs = adjust_ttl conf (unlinked_set rs0)"
      using stored_head(4) [OF assms(1) False, of conf j] u by (cases "slot c j") auto
    have "rs_rrs (unlinked_set rs) = rs_rrs (adjust_ttl conf (unlinked_set rs0))" by (rule arg_cong [OF r(2)])
    then show ?thesis using r(1) by (simp add: set_from_def)
  qed
qed

text \<open>A name that is not in the cache.\<close>

definition new_kept :: "cconf \<Rightarrow> dns_cent \<Rightarrow> cache \<Rightarrow> cache \<Rightarrow> bool" where
  "new_kept conf c \<sigma> \<sigma>' = (no_fail \<sigma> \<and> (ce_num c \<noteq> 0 \<or> neg c) \<and> cache_size \<sigma> + ce_cs (stored conf c) \<le> limit conf \<longrightarrow>
     (\<exists>a ce. cents \<sigma>' = (cents \<sigma>)(a \<mapsto> ce) \<and> cents \<sigma> a = None \<and> tabm \<sigma>' = (tabm \<sigma>)(key_of (ce_qname c) \<mapsto> a) \<and>
        unlinked ce = stored conf c))"

lemma add_cache_new:
  assumes "cache_inv \<sigma>" "cent_wf c" "tabm \<sigma> (key_of (ce_qname c)) = None" "card (items (cents \<sigma>)) + NRRTOT < 2 ^ 32"
  shows "\<exists>\<sigma>'. add_cache now conf c \<sigma> = Some \<sigma>' \<and> cache_inv \<sigma>' \<and> keeps_local \<sigma> \<sigma>' \<and> new_kept conf c \<sigma> \<sigma>' \<and>
    (no_fail \<sigma> \<longrightarrow> no_fail \<sigma>' \<and> within conf \<sigma>') \<and> sourced c \<sigma> \<sigma>' \<and>
    card (items (cents \<sigma>')) \<le> card (items (cents \<sigma>)) + NRRTOT"
proof -
  let ?A = "dom (cents \<sigma>)"
  have I: "cinv ?A {} \<sigma>" using assms(1) by (simp add: cache_inv_def)
  have v: "valid_name (ce_qname c)" using assms(2) by (simp add: cent_wf_def)
  obtain loc where loc: "dns_lookup (qn \<sigma>) (buckets \<sigma>) (ce_qname c) = Some (None, loc)"
    using dns_lookup_eq [OF I v] assms(3) by auto
  have small: "card (items (cents \<sigma>)) < 2 ^ 32" using assms(4) by linarith
  show ?thesis
  proof (cases "ce_num c = 0 \<and> \<not> neg c")
    case True
    then have "add_cache now conf c \<sigma> = purge_to_limit now conf \<sigma>" by (subst add_cache.simps) (simp add: loc)
    moreover have "new_kept conf c \<sigma> \<sigma>'" for \<sigma>' using True by (simp add: new_kept_def)
    moreover obtain \<sigma>' where p: "purge_to_limit now conf \<sigma> = Some \<sigma>'" "cache_inv \<sigma>'" "keeps_local \<sigma> \<sigma>'" "within conf \<sigma>'"
      "no_fail \<sigma>' = no_fail \<sigma>" "pruned not_local not_local_neg \<sigma> \<sigma>'" "card (items (cents \<sigma>')) \<le> card (items (cents \<sigma>))"
      using purge_to_limit_spec [OF assms(1) small, of now conf] by blast
    moreover have "sourced c \<sigma> \<sigma>'" by (rule sourced_pruned [OF sourced_cents p(6)]) simp
    ultimately show ?thesis by (intro exI [of _ \<sigma>']) simp
  next
    case False
    obtain r \<sigma>1 where 1: "add_new conf c loc \<sigma> = Some (r, \<sigma>1)" "add_new_res conf c \<sigma> r \<sigma>1"
      using add_new_spec [OF assms(1,2) loc] by blast
    show ?thesis
    proof (cases r)
      case None
      then have "add_cache now conf c \<sigma> = Some \<sigma>1" using False 1(1) by (subst add_cache.simps) (auto simp add: loc)
      moreover have "cache_inv \<sigma>1" "cents \<sigma>1 = cents \<sigma>" "\<not> no_fail \<sigma>" using 1(2) None by (simp_all add: add_new_res_def)
      ultimately show ?thesis using keeps_local_cents sourced_cents by (intro exI [of _ \<sigma>1]) (simp add: new_kept_def)
    next
      case (Some a)
      obtain ce where ce: "cents \<sigma> a = None" "tabm \<sigma>1 = (tabm \<sigma>)(key_of (ce_qname c) \<mapsto> a)" "no_fail \<sigma> \<longrightarrow> no_fail \<sigma>1"
        "cents \<sigma>1 = (cents \<sigma>)(a \<mapsto> ce)" "cinv (insert a ?A) {a} \<sigma>1" "linked ce" "cent_wf ce" "unlinked ce = stored conf c"
        "cache_size \<sigma>1 = cache_size \<sigma>"
        using 1(2) unfolding add_new_res_def Some option.case by (elim exE conjE) (rule that)
      let ?s = "\<sigma>1\<lparr> cache_size := cache_size \<sigma>1 + ce_cs ce \<rparr>"
      have a1: "cents \<sigma>1 a = Some ce" using ce(4) by simp
      have inv: "cache_inv ?s" using cinv_include [OF ce(5) a1 ce(6)] ce(4) by (simp add: cache_inv_def)
      have sh: "cent_shape ce" using ce(7) by (simp add: cent_wf_def)
      have card: "card (items (cents ?s)) < 2 ^ 32"
        using items_put_card [OF cache_items_finite [OF assms(1)] sh ce(4)] assms(4) by simp
      obtain \<sigma>' where 2: "purge_to_limit now conf ?s = Some \<sigma>'" "cache_inv \<sigma>'" "keeps_local ?s \<sigma>'" "within conf \<sigma>'"
        "no_fail \<sigma>' = no_fail ?s" "cache_size ?s \<le> limit conf \<longrightarrow> \<sigma>' = ?s" "pruned not_local not_local_neg ?s \<sigma>'"
        "card (items (cents \<sigma>')) \<le> card (items (cents ?s))"
        using purge_to_limit_spec [OF inv card, of now conf] by blast
      have run: "add_cache now conf c \<sigma> = Some \<sigma>'" using False 1(1) Some 2(1) a1
        by (subst add_cache.simps) (auto simp add: loc)
      have kl: "keeps_local \<sigma> ?s" using ce(1,4) by (auto simp: keeps_local_def)
      have cs: "ce_cs ce = ce_cs (stored conf c)" using ce(8) [symmetric] by (simp add: unlinked_def)
      have "new_kept conf c \<sigma> \<sigma>'"
        unfolding new_kept_def
      proof (intro impI)
        assume h: "no_fail \<sigma> \<and> (ce_num c \<noteq> 0 \<or> neg c) \<and> cache_size \<sigma> + ce_cs (stored conf c) \<le> limit conf"
        then have s: "\<sigma>' = ?s" using 2(6) cs ce(9) by simp
        have q: "qn ?s = qn \<sigma>1" by (simp add: qn_def fun_eq_iff)
        show "\<exists>a ce. cents \<sigma>' = (cents \<sigma>)(a \<mapsto> ce) \<and> cents \<sigma> a = None \<and> tabm \<sigma>' = (tabm \<sigma>)(key_of (ce_qname c) \<mapsto> a) \<and>
            unlinked ce = stored conf c"
          by (intro exI [of _ a] exI [of _ ce]) (use ce q s in simp)
      qed
      moreover have "no_fail ?s = no_fail \<sigma>1" by (simp add: no_fail_def)
      moreover have "sourced c \<sigma> \<sigma>'"
      proof (rule sourced_pruned [OF _ 2(7)], rule sourced_put)
        show "cents ?s = (cents \<sigma>)(a \<mapsto> ce)" using ce(4) by simp
        have q: "ce_qname (stored conf c) = ce_qname c"
          using stored_head(2) [OF assms(2)] stored_neg(6) [OF assms(2)] by blast
        show "key_of (ce_qname ce) = key_of (ce_qname c)"
          using ce(8) unlinked_props(4) [OF ce(7)] q by simp
        show "(\<exists>d0. cents \<sigma> a = Some d0 \<and> key_of (ce_qname d0) = key_of (ce_qname ce) \<and> set_from d0 j rs) \<or> set_from c j rs"
          if "slot ce j = Some rs" for j rs
          using stored_set_from [OF assms(2) ce(7,8) that] by blast
      qed
      moreover have "card (items (cents \<sigma>')) \<le> card (items (cents \<sigma>)) + NRRTOT"
        using 2(8) items_put_card [OF cache_items_finite [OF assms(1)] sh ce(4)] by simp
      ultimately show ?thesis using run 2(2,4,5) keeps_local_trans [OF kl 2(3)] ce(3)
        by (intro exI [of _ \<sigma>']) simp
    qed
  qed
qed

text \<open>A name that is in the cache.\<close>

lemma gone_keeps_local:
  assumes "cents \<sigma>' = (cents \<sigma>)(a := None)" "cents \<sigma> a = Some ce" "\<not> has_local ce"
  shows "keeps_local \<sigma> \<sigma>'"
  using assms by (auto simp: keeps_local_def has_local_def)

lemma add_cache_negative:
  assumes "cache_inv \<sigma>" "cent_wf c" "tabm \<sigma> (key_of (ce_qname c)) = Some a" "cents \<sigma> a = Some ce" "neg c"
    "card (items (cents \<sigma>)) + NRRTOT < 2 ^ 32"
  shows "if has_local ce then add_cache now conf c \<sigma> = Some \<sigma>
    else \<exists>\<sigma>1. add_cache now conf c \<sigma> = add_cache now conf c \<sigma>1 \<and> cache_inv \<sigma>1 \<and> tabm \<sigma>1 = (tabm \<sigma>)(key_of (ce_qname c) := None) \<and>
      cents \<sigma>1 = (cents \<sigma>)(a := None) \<and> no_fail \<sigma>1 = no_fail \<sigma> \<and> card (items (cents \<sigma>1)) \<le> card (items (cents \<sigma>))"
proof -
  let ?A = "dom (cents \<sigma>)"
  have I: "cinv ?A {} \<sigma>" using assms(1) by (simp add: cache_inv_def)
  have v: "valid_name (ce_qname c)" using assms(2) by (simp add: cent_wf_def)
  obtain loc where loc: "dns_lookup (qn \<sigma>) (buckets \<sigma>) (ce_qname c) = Some (Some a, loc)"
    using dns_lookup_eq [OF I v] assms(3) by auto
  have sh: "cent_shape ce" by (rule cinv_ent [OF I assms(4)])
  have RL: "RRARR_LEN ce = Some (length (slots ce))" by (rule RRARR_LEN_eq [OF sh])
  note al = any_local [OF sh]
  show ?thesis
  proof (cases "has_local ce")
    case True
    then show ?thesis using loc assms(4,5) RL al by (simp, subst add_cache.simps, simp)
  next
    case False
    have aA: "a \<in> ?A" using assms(4) by blast
    obtain \<sigma>1 where 1: "del_cache_ent a (Some loc) \<sigma> = Some \<sigma>1" "gone ?A {} a \<sigma> \<sigma>1"
      "tabm \<sigma>1 = (tabm \<sigma>)(key_of (ce_qname ce) := None)"
      using del_cache_ent_spec [OF I assms(4) aA, of "Some loc" "ce_qname c"] loc v by auto
    have k: "key_of (ce_qname ce) = key_of (ce_qname c)" using tabm_entry [OF I assms(3)] assms(4) by auto
    have g: "cinv (?A - {a}) {} \<sigma>1" "cents \<sigma>1 = (cents \<sigma>)(a := None)" "mallocs \<sigma>1 = mallocs \<sigma>" using 1(2) by (simp_all add: gone_def)
    have inv: "cache_inv \<sigma>1" using g(1,2) by (simp add: cache_inv_def)
    have sub: "items (cents \<sigma>1) \<subseteq> items (cents \<sigma>)" unfolding g(2) items_del by (auto simp: rest_def items_def)
    have "card (items (cents \<sigma>1)) \<le> card (items (cents \<sigma>))" by (rule card_mono [OF cache_items_finite [OF assms(1)] sub])
    moreover have "add_cache now conf c \<sigma> = add_cache now conf c \<sigma>1"
      using loc assms(4,5) RL al False 1(1) by (subst add_cache.simps) simp
    ultimately show ?thesis using False inv 1(3) k g(2) no_fail_mallocs [OF g(3)] by (intro iffD2 [OF if_not_P] exI [of _ \<sigma>1]) simp_all
  qed
qed

lemma add_cache_positive:
  assumes "cache_inv \<sigma>" "cent_wf c" "tabm \<sigma> (key_of (ce_qname c)) = Some a" "cents \<sigma> a = Some ce" "\<not> neg c"
    "card (items (cents \<sigma>)) + NRRTOT < 2 ^ 32"
  shows "\<exists>\<sigma>'. add_cache now conf c \<sigma> = Some \<sigma>' \<and> cache_inv \<sigma>' \<and> (no_local c \<longrightarrow> keeps_local \<sigma> \<sigma>') \<and>
    (no_fail \<sigma> \<longrightarrow> no_fail \<sigma>' \<and> within conf \<sigma>') \<and> sourced c \<sigma> \<sigma>' \<and>
    card (items (cents \<sigma>')) \<le> card (items (cents \<sigma>)) + NRRTOT"
proof -
  let ?A = "dom (cents \<sigma>)"
  have I: "cinv ?A {} \<sigma>" using assms(1) by (simp add: cache_inv_def)
  have v: "valid_name (ce_qname c)" using assms(2) by (simp add: cent_wf_def)
  obtain loc where loc: "dns_lookup (qn \<sigma>) (buckets \<sigma>) (ce_qname c) = Some (Some a, loc)"
    using dns_lookup_eq [OF I v] assms(3) by auto
  have key: "key_of (ce_qname ce) = key_of (ce_qname c)" using tabm_entry [OF I assms(3)] assms(4) by auto
  obtain ok \<sigma>1 where 1: "add_known now conf c a \<sigma> = Some (ok, \<sigma>1)" "known_res c a \<sigma> ok \<sigma>1"
    using add_known_spec [OF assms(1,4,2,5) key] by blast
  obtain ce' where ce': "cents \<sigma>1 = (cents \<sigma>)(a \<mapsto> ce')" "cent_shape ce'" using 1(2) by (auto simp: known_res_def cent_wf_def)
  have inv: "cache_inv \<sigma>1" and kl: "no_local c \<longrightarrow> keeps_local \<sigma> \<sigma>1" and nf: "no_fail \<sigma> \<longrightarrow> ok \<and> no_fail \<sigma>1"
    using 1(2) by (simp_all add: known_res_def)
  have src: "sourced c \<sigma> \<sigma>1" using 1(2) by (simp add: known_res_def)
  have crd: "card (items (cents \<sigma>1)) \<le> card (items (cents \<sigma>)) + NRRTOT"
    by (rule items_put_card [OF cache_items_finite [OF assms(1)] ce'(2,1)])
  have run: "add_cache now conf c \<sigma> = (if ok then purge_to_limit now conf \<sigma>1 else Some \<sigma>1)"
    using loc assms(4,5) 1(1) by (subst add_cache.simps) simp
  show ?thesis
  proof (cases ok)
    case True
    have "card (items (cents \<sigma>1)) < 2 ^ 32"
      using items_put_card [OF cache_items_finite [OF assms(1)] ce'(2,1)] assms(6) by simp
    from purge_to_limit_spec [OF inv this, of now conf] obtain \<sigma>2 where 2: "purge_to_limit now conf \<sigma>1 = Some \<sigma>2" "cache_inv \<sigma>2"
      "keeps_local \<sigma>1 \<sigma>2" "within conf \<sigma>2" "no_fail \<sigma>2 = no_fail \<sigma>1" "pruned not_local not_local_neg \<sigma>1 \<sigma>2"
      "card (items (cents \<sigma>2)) \<le> card (items (cents \<sigma>1))" by blast
    have "sourced c \<sigma> \<sigma>2" by (rule sourced_pruned [OF src 2(6)])
    then show ?thesis using run True 2 kl nf crd keeps_local_trans [OF _ 2(3)] by (intro exI [of _ \<sigma>2]) auto
  next
    case False
    then show ?thesis using run inv kl nf src crd by (intro exI [of _ \<sigma>1]) auto
  qed
qed

theorem add_cache_spec:
  assumes "cache_inv \<sigma>" "cent_wf c" "card (items (cents \<sigma>)) + NRRTOT < 2 ^ 32"
  shows "\<exists>\<sigma>'. add_cache now conf c \<sigma> = Some \<sigma>' \<and> added conf c \<sigma> \<sigma>'"
proof -
  have I: "cinv (dom (cents \<sigma>)) {} \<sigma>" using assms(1) by (simp add: cache_inv_def)
  show ?thesis
  proof (cases "tabm \<sigma> (key_of (ce_qname c))")
    case None
    then show ?thesis using add_cache_new [OF assms(1,2) None assms(3), of now conf] unfolding added_def by blast
  next
    case (Some a)
    obtain ce where ce: "cents \<sigma> a = Some ce" using tabm_entry [OF I Some] by blast
    show ?thesis
    proof (cases "neg c")
      case True
      note n = add_cache_negative [OF assms(1,2) Some ce True assms(3), of now conf]
      show ?thesis
      proof (cases "has_local ce")
        case l: True
        then show ?thesis using n assms(1) keeps_local_refl sourced_cents by (intro exI [of _ \<sigma>]) (simp add: added_def)
      next
        case l: False
        obtain \<sigma>1 where 1: "add_cache now conf c \<sigma> = add_cache now conf c \<sigma>1" "cache_inv \<sigma>1"
          "tabm \<sigma>1 (key_of (ce_qname c)) = None" "cents \<sigma>1 = (cents \<sigma>)(a := None)" "no_fail \<sigma>1 = no_fail \<sigma>"
          "card (items (cents \<sigma>1)) \<le> card (items (cents \<sigma>))" using n l by auto
        have sm: "card (items (cents \<sigma>1)) + NRRTOT < 2 ^ 32" using 1(6) assms(3) by linarith
        obtain \<sigma>2 where 2: "add_cache now conf c \<sigma>1 = Some \<sigma>2" "cache_inv \<sigma>2" "keeps_local \<sigma>1 \<sigma>2"
          "no_fail \<sigma>1 \<longrightarrow> no_fail \<sigma>2 \<and> within conf \<sigma>2" "sourced c \<sigma>1 \<sigma>2"
          "card (items (cents \<sigma>2)) \<le> card (items (cents \<sigma>1)) + NRRTOT"
          using add_cache_new [OF 1(2) assms(2) 1(3) sm, of now conf] by blast
        have "cents \<sigma>1 b = Some d0 \<Longrightarrow> cents \<sigma> b = Some d0" for b d0 using 1(4) by (simp split: if_splits)
        then have "sourced c \<sigma> \<sigma>2" using 2(5) unfolding sourced_def by meson
        moreover have "card (items (cents \<sigma>2)) \<le> card (items (cents \<sigma>)) + NRRTOT" using 1(6) 2(6) by linarith
        moreover        have "keeps_local \<sigma> \<sigma>2" by (rule keeps_local_trans [OF gone_keeps_local [OF 1(4) ce l] 2(3)])
        ultimately show ?thesis using 1(1,5) 2 by (intro exI [of _ \<sigma>2]) (simp add: added_def)
      qed
    next
      case False
      show ?thesis using add_cache_positive [OF assms(1,2) Some ce False assms(3), of now conf] unfolding added_def by blast
    qed
  qed
qed

end
