(* ===== verification/Pd_Lookup.thy ===== *)
theory Pd_Lookup
  imports Pd_AddCacheSpec
begin

text \<open>
  Looking a name up in the cache: which entry is found, directly or through a wildcard above the
  name, that what is returned is a private copy without anything that has timed out, and that an
  entry just added is found.
\<close>

subsection \<open>Names in larger buffers\<close>

lemma dns_lookup_rest:
  assumes "wf_table q t" "valid_name nm"
  shows "dns_lookup q t (nm @ r) = dns_lookup q t nm"
proof -
  obtain ls where ls: "nm = enc ls" "list_all name_label ls" using assms(2) by (rule valid_nameE)
  obtain idx rh where h: "dns_hash nm = Some (idx, rh)" "rd t idx = Some (t ! idx)" "chain_ok q idx (t ! idx)"
    using wf_tableD [OF assms] by blast
  have h': "dns_hash (nm @ r) = Some (idx, rh)" using h(1) dns_hash_enc [OF ls(2), of r] dns_hash_enc [OF ls(2), of "[]"] ls(1) by simp
  have eq: "chain_find q (nm @ r) rh c n = chain_find q nm rh c n" if "list_all (ent_ok q idx) c" for c n
    using that
  proof (induction c arbitrary: n)
    case (Cons e c)
    then have "ent_ok q idx e" by simp
    then obtain nm' where q: "q (snd e) = Some nm'" "valid_name nm'" by (rule ent_okE)
    obtain ks where ks: "nm' = enc ks" "list_all name_label ks" using q(2) by (rule valid_nameE)
    have "rhnicmp (nm @ r) nm' = rhnicmp nm nm'"
      using rhnicmp_enc [OF ls(2) ks(2), of r "[]"] rhnicmp_enc [OF ls(2) ks(2), of "[]" "[]"] ls(1) ks(1) by simp
    moreover have "chain_find q (nm @ r) rh c (n + 1) = chain_find q nm rh c (n + 1)" using Cons by simp
    ultimately show ?case using q(1) by (cases e) (simp only: chain_find.simps snd_conv Option.bind.bind_lunit)
  qed simp
  have "list_all (ent_ok q idx) (t ! idx)" using h(3) by (simp add: chain_ok_def)
  from eq [OF this] show ?thesis using h h' by (simp add: dns_lookup_def)
qed

lemma lookup_enc:
  assumes "cinv A X \<sigma>" "wire_name ls"
  shows "lookup \<sigma> (enc ls @ r) = Some (tabm \<sigma> (canon ls))"
proof -
  have v: "valid_name (enc ls)" by (rule valid_name_enc [OF assms(2)])
  have "key_of (enc ls) = canon ls" using wire_name_labels [OF assms(2)] by (simp add: key_of_def)
  moreover have "dns_lookup (qn \<sigma>) (buckets \<sigma>) (enc ls @ r) = dns_lookup (qn \<sigma>) (buckets \<sigma>) (enc ls)"
    by (rule dns_lookup_rest [OF cinvD(4) [OF assms(1)] v])
  ultimately show ?thesis using lookup_eq [OF assms(1) v] by (simp add: lookup_def)
qed

subsection \<open>Wildcards\<close>

text \<open>What the nearest name above the one asked for, that is in the cache, gives.\<close>

definition star :: label where "star = [42]"

definition wild_at :: "cache \<Rightarrow> label list \<Rightarrow> nat \<Rightarrow> nat option \<times> int" where
  "wild_at \<sigma> ls a = (let c = the (cents \<sigma> a) in
     if neg c then (Some a, w_neg)
     else if has (ce_flags c) DF_WILD then
       (let r = tabm \<sigma> (canon (star # ls)) in (r, if r \<noteq> None then w_wild else 0))
     else if has (ce_flags c) DF_LOCAL then (Some a, w_locnerr)
     else (None, 0))"

fun wild_spec :: "cache \<Rightarrow> label list \<Rightarrow> nat option \<times> int" where
  "wild_spec \<sigma> [] = (None, 0)"
| "wild_spec \<sigma> [l] = (None, 0)"
| "wild_spec \<sigma> (l # ls) = (case tabm \<sigma> (canon ls) of None \<Rightarrow> wild_spec \<sigma> ls | Some a \<Rightarrow> wild_at \<sigma> ls a)"

lemma wire_name_tl: "wire_name (l # ls) \<Longrightarrow> wire_name ls"
  using enc_drop_le [of 1 "l # ls"] by (auto simp: wire_name_def)

lemma wire_name_star: "wire_name (l # ls) \<Longrightarrow> wire_name (star # ls)"
  by (cases l) (auto simp: wire_name_def star_def wire_label_def)

lemma wild_entry_eq:
  assumes "cinv A X \<sigma>" "wire_name (l # ls)" "cents \<sigma> a = Some c"
  shows "wild_entry \<sigma> (enc ls @ r) a = Some (wild_at \<sigma> ls a)"
proof -
  have w: "wire_name (star # ls)" by (rule wire_name_star [OF assms(2)])
  have lab: "list_all name_label (l # ls)" "list_all name_label ls"
    using wire_name_labels [OF assms(2)] by simp_all
  have "length (enc (l # ls)) \<le> 256" "l \<noteq> []" using assms(2) lab(1) by (auto simp: wire_name_def name_label_def)
  then have len: "length (enc ls) \<le> 254" by (cases l) simp_all
  let ?d = "replicate (DNSNAMEBUFSIZE - 2) (0::byte)"
  have cp: "rhncpy ?d (enc ls @ r) = Some (length (enc ls), enc ls @ drop (length (enc ls)) ?d)"
    by (rule rhncpy_enc [OF lab(2)]) (use len in simp_all)
  have "1 # 42 # enc ls @ x = enc (star # ls) @ x" for x by (simp add: star_def)
  then have "lookup \<sigma> (1 # 42 # enc ls @ x) = Some (tabm \<sigma> (canon (star # ls)))" for x
    using lookup_enc [OF assms(1) w, of x] by (simp only:)
  then show ?thesis using cp assms(3) by (simp add: wild_entry_def wild_at_def Let_def)
qed

lemma wild_up_eq:
  assumes "cinv A X \<sigma>" "wire_name ls"
  shows "wild_up \<sigma> (enc ls @ r) = Some (wild_spec \<sigma> ls)"
  using assms(2)
proof (induction ls)
  case Nil
  then show ?case by (subst wild_up.simps) (simp add: rd_def)
next
  case (Cons l ls)
  have w: "wire_name ls" by (rule wire_name_tl [OF Cons.prems])
  have lb: "unat (of_nat (length l) :: byte) = length l" "(of_nat (length l) :: byte) \<noteq> 0"
    using wire_name_labels [OF Cons.prems] by (auto simp: name_label_def name_label_len)
  have ad: "adv (enc (l # ls) @ r) (length l + 1) = Some (enc ls @ r)" by (simp add: adv_Some_iff)
  have r0: "rd (enc (l # ls) @ r) 0 = Some (of_nat (length l))" by (simp add: rd_def)
  show ?case
  proof (cases ls)
    case Nil
    then show ?thesis using r0 ad lb by (subst wild_up.simps) (simp add: rd_def)
  next
    case (Cons k ks)
    have kb: "rd (enc ls @ r) 0 = Some (of_nat (length k))" "(of_nat (length k) :: byte) \<noteq> 0"
      using Cons wire_name_labels [OF w] by (auto simp: name_label_def name_label_len rd_def)
    have lk: "lookup \<sigma> (enc ls @ r) = Some (tabm \<sigma> (canon ls))" by (rule lookup_enc [OF assms(1) w])
    have run: "wild_up \<sigma> (enc (l # ls) @ r) = (case tabm \<sigma> (canon ls) of None \<Rightarrow> wild_up \<sigma> (enc ls @ r) | Some a \<Rightarrow> wild_entry \<sigma> (enc ls @ r) a)"
      using r0 lb ad kb lk by (subst wild_up.simps) simp
    show ?thesis
    proof (cases "tabm \<sigma> (canon ls)")
      case None
      then show ?thesis using run Cons.IH [OF w] Cons by simp
    next
      case (Some a)
      obtain c where "cents \<sigma> a = Some c" using tabm_entry [OF assms(1) Some] by blast
      then show ?thesis using run Some wild_entry_eq [OF assms(1) Cons.prems] Cons by simp
    qed
  qed
qed

definition found_at :: "cache \<Rightarrow> name \<Rightarrow> bool \<Rightarrow> nat option \<times> int" where
  "found_at \<sigma> nm wild = (case tabm \<sigma> (key_of nm) of
     None \<Rightarrow> if wild then wild_spec \<sigma> (unenc nm) else (None, 0)
   | Some a \<Rightarrow> (Some a, 0))"

lemma find_cent_eq:
  assumes "cinv A X \<sigma>" "valid_name nm"
  shows "find_cent nm wild \<sigma> = Some (found_at \<sigma> nm wild)"
proof -
  obtain ls where ls: "wire_name ls" "nm = enc ls" using assms(2) by (rule valid_nameE)
  have "wild_up \<sigma> nm = Some (wild_spec \<sigma> (unenc nm))"
    using wild_up_eq [OF assms(1) ls(1), of "[]"] wire_name_labels [OF ls(1)] ls(2) by simp
  then show ?thesis using lookup_eq [OF assms]
    by (auto simp: find_cent_def found_at_def split: option.splits)
qed

lemma wild_spec_mem:
  assumes "cinv A X \<sigma>" "fst (wild_spec \<sigma> ls) = Some a"
  shows "a \<in> A"
  using assms
proof (induction \<sigma> ls rule: wild_spec.induct)
  case (3 \<sigma> l v va)
  note t = tabm_entry [OF "3.prems"(1)]
  show ?case
  proof (cases "tabm \<sigma> (canon (v # va))")
    case None
    then show ?thesis using 3 by simp
  next
    case (Some b)
    then have "fst (wild_at \<sigma> (v # va) b) = Some a" using "3.prems"(2) by simp
    then show ?thesis using t [OF Some] t [of "canon (star # v # va)" a] by (auto simp: wild_at_def Let_def split: if_splits)
  qed
qed simp_all

lemma found_at_mem: "cinv A X \<sigma> \<Longrightarrow> fst (found_at \<sigma> nm wild) = Some a \<Longrightarrow> a \<in> A"
  by (auto simp: found_at_def split: option.splits if_splits dest: tabm_entry wild_spec_mem)

subsection \<open>The copy that is returned\<close>

text \<open>What \<open>lookup_cache\<close> returns at time \<open>now\<close>: a complete entry of its own, no part of which may be
  linked into the list of the cache, and nothing in it has timed out.\<close>

definition fresh_copy :: "int \<Rightarrow> dns_cent \<Rightarrow> bool" where
  "fresh_copy now c = (cent_wf c \<and> loose c \<and> (\<forall>i rs. slot c i = Some rs \<longrightarrow> \<not> stale_set now rs) \<and>
     (if neg c then has (ce_flags c) DF_LOCAL \<or> timedout_nxdom now c = Some False else \<exists>i. slot c i \<noteq> None))"

lemma stale_unlinked [simp]: "stale_set now (unlinked_set rs) = stale_set now rs"
  by (simp add: stale_set_def timedout_def)

lemma timedout_unlinked: "cent_shape c \<Longrightarrow> timedout_nxdom now (unlinked c) = timedout_nxdom now c"
  by (auto simp: unlinked_def timedout_nxdom_def rr_body_def Let_def elim!: cent_shapeE split: cent_body.split)

lemma not_dead_kept:
  assumes "cent_wf c" "\<not> dead now True c"
  shows "if neg c then has (ce_flags c) DF_LOCAL \<or> timedout_nxdom now c = Some False else \<exists>i. slot c i \<noteq> None \<and> \<not> stale_at now c i"
proof -
  have sh: "cent_shape c" using assms(1) by (simp add: cent_wf_def)
  show ?thesis
  proof (cases "neg c")
    case True
    then have "nfresh now c = 0" by (simp add: nfresh_def)
    then have "cent_dead now c \<noteq> Some True" using assms(2) by (simp add: dead_def)
    then have "cent_dead now c = Some False" using cent_dead_eq(1) [OF sh, of now] by auto
    then show ?thesis using True by (auto simp: cent_dead_def split: if_splits)
  next
    case False
    then have "nfresh now c \<noteq> 0" using assms(2) cent_dead_eq(2) [OF sh False] by (auto simp: dead_def)
    then have "\<exists>i. fresh_at now c i" using False by (auto simp: nfresh_def filter_empty_conv)
    then show ?thesis using False by (auto simp: fresh_at_def)
  qed
qed

lemma fresh_copyI:
  assumes "cent_wf c" "cent_wf d" "\<not> dead now True c" "\<And>i. slot d i = (if stale_at now c i then None else slot c i)"
    "neg d = neg c" "neg c \<Longrightarrow> ce_body d = ce_body c" "has (ce_flags d) DF_LOCAL = has (ce_flags c) DF_LOCAL"
  shows "fresh_copy now (unlinked d)"
proof -
  note u = unlinked_props [OF assms(2)]
  have sh: "cent_shape d" using assms(2) by (simp add: cent_wf_def)
  have st: "\<not> stale_set now rs" if s: "slot (unlinked d) i = Some rs" for i rs
  proof -
    obtain rs' where "slot d i = Some rs'" "rs = unlinked_set rs'" using s u(3) [of i] by (cases "slot d i") simp_all
    then show ?thesis using assms(4) [of i] by (auto simp: stale_at_def split: if_splits)
  qed
  have k: "if neg c then has (ce_flags c) DF_LOCAL \<or> timedout_nxdom now c = Some False else \<exists>i. slot c i \<noteq> None \<and> \<not> stale_at now c i"
    by (rule not_dead_kept [OF assms(1,3)])
  show ?thesis
  proof (cases "neg c")
    case True
    then have "timedout_nxdom now (unlinked d) = timedout_nxdom now c" using timedout_unlinked [OF sh] assms(6) by (simp add: timedout_nxdom_def)
    then show ?thesis using k True u(1,2,5) st assms(5,7) by (simp add: fresh_copy_def)
  next
    case False
    then obtain i where "slot c i \<noteq> None" "\<not> stale_at now c i" using k by auto
    then have "slot (unlinked d) i \<noteq> None" using assms(4) [of i] u(3) [of i] by auto
    then have "\<exists>i. slot (unlinked d) i \<noteq> None" by blast
    then show ?thesis using False u(1,2,5) st assms(5) by (simp add: fresh_copy_def)
  qed
qed

lemma npurge_nonneg: "npurge now c \<ge> 0"
  by (simp add: npurge_def)

lemma no_purge:
  assumes "purge_count now True \<sigma> c = 0"
  shows "\<not> dead now True c \<and> (\<forall>i. \<not> neg c \<longrightarrow> \<not> stale_at now c i)"
proof -
  have d: "\<not> dead now True c" using assms by (auto simp: purge_count_def)
  then have "npurge now c = 0" using assms npurge_nonneg [of now c] by (auto simp: purge_count_def split: if_splits)
  then have "\<not> neg c \<longrightarrow> (\<forall>i < length (slots c). \<not> stale_at now c i)"
    by (auto simp: npurge_def filter_empty_conv split: if_splits)
  moreover have "stale_at now c i \<Longrightarrow> i < length (slots c)" for i
    using slot_SomeD by (auto simp: stale_at_def split: option.splits)
  ultimately show ?thesis using d by blast
qed

lemma neg_not_stale: "cent_shape c \<Longrightarrow> neg c \<Longrightarrow> \<not> stale_at now c i"
  using slot_Some_rr by (auto simp: stale_at_def split: option.split)

lemma purged_cent_neg:
  assumes "cent_wf c"
  shows "neg c \<Longrightarrow> ce_body (purged_cent now \<sigma> c) = ce_body c" "has (ce_flags (purged_cent now \<sigma> c)) DF_LOCAL = has (ce_flags c) DF_LOCAL"
  using purged_all_props(7,8) [OF assms, of now] by (simp_all add: purged_cent_def Let_def)

text \<open>The answer for the entry found.\<close>

definition answer :: "int \<Rightarrow> cache \<Rightarrow> name \<Rightarrow> bool \<Rightarrow> dns_cent option \<Rightarrow> bool" where
  "answer now \<sigma> nm wild r = (case fst (found_at \<sigma> nm wild) of None \<Rightarrow> r = None
   | Some a \<Rightarrow> (\<exists>c. cents \<sigma> a = Some c \<and> (case r of
       None \<Rightarrow> dead now True c \<or> \<not> no_fail \<sigma>
     | Some cp \<Rightarrow> \<not> dead now True c \<and> fresh_copy now cp \<and> ce_qname cp = ce_qname c \<and> neg cp = neg c \<and>
         (\<forall>i. slot cp i = (if stale_at now c i then None else map_option unlinked_set (slot c i))))))"

lemma answer_copy:
  assumes "fst (found_at \<sigma> nm wild) = Some a" "cents \<sigma> a = Some c" "cent_wf c" "cent_wf d" "\<not> dead now True c"
    "\<And>i. slot d i = (if stale_at now c i then None else slot c i)" "neg d = neg c" "neg c \<Longrightarrow> ce_body d = ce_body c" "has (ce_flags d) DF_LOCAL = has (ce_flags c) DF_LOCAL" "ce_qname d = ce_qname c"
    "r \<in> {None, Some (unlinked d)}" "no_fail \<sigma> \<longrightarrow> r \<noteq> None"
  shows "answer now \<sigma> nm wild r"
proof -
  note u = unlinked_props [OF assms(4)]
  have "fresh_copy now (unlinked d)" by (rule fresh_copyI [OF assms(3-9)])
  moreover have "slot (unlinked d) i = (if stale_at now c i then None else map_option unlinked_set (slot c i))" for i
    using u(3) [of i] assms(6) [of i] by simp
  moreover have "neg (unlinked d) = neg c" using u(5) assms(7) by simp
  ultimately show ?thesis using assms(1,2,5,10,11,12) u(4) by (auto simp: answer_def)
qed

text \<open>What a look-up may do to the cache: entries and RR sets go, nothing else changes.\<close>

definition trimmed :: "cache \<Rightarrow> cache \<Rightarrow> bool" where
  "trimmed \<sigma> \<sigma>' = ((no_fail \<sigma> \<longrightarrow> no_fail \<sigma>') \<and> (\<forall>a d. cents \<sigma>' a = Some d \<longrightarrow>
     (\<exists>c. cents \<sigma> a = Some c \<and> (\<forall>i rs. slot d i = Some rs \<longrightarrow> slot c i = Some rs))))"

lemma trimmed_same: "cents \<sigma>' = cents \<sigma> \<Longrightarrow> no_fail \<sigma> \<longrightarrow> no_fail \<sigma>' \<Longrightarrow> trimmed \<sigma> \<sigma>'"
  by (simp add: trimmed_def)

lemma lookup_read_spec:
  assumes "cache_inv \<sigma>" "valid_name nm"
  shows "\<exists>x \<sigma>'. lookup_read now nm wild \<sigma> = Some (x, snd (found_at \<sigma> nm wild), \<sigma>') \<and> cache_inv \<sigma>' \<and> cents \<sigma>' = cents \<sigma> \<and>
    (no_fail \<sigma> \<longrightarrow> no_fail \<sigma>') \<and> (case x of Inl r \<Rightarrow> answer now \<sigma> nm wild r | Inr _ \<Rightarrow> \<sigma>' = \<sigma>)"
proof -
  have I: "cinv (dom (cents \<sigma>)) {} \<sigma>" using assms(1) by (simp add: cache_inv_def)
  obtain r w where f: "found_at \<sigma> nm wild = (r, w)" by (cases "found_at \<sigma> nm wild")
  have fc: "find_cent nm wild \<sigma> = Some (r, w)" using find_cent_eq [OF I assms(2)] f by simp
  show ?thesis
  proof (cases r)
    case None
    then show ?thesis using fc f assms(1) by (simp add: lookup_read_def answer_def)
  next
    case (Some a)
    then have "a \<in> dom (cents \<sigma>)" using found_at_mem [OF I] f by (metis fst_conv)
    then obtain c where c: "cents \<sigma> a = Some c" by blast
    have wf: "cent_wf c" "cent_shape c" by (rule cinv_ent [OF I c])+
    have p: "purge_cent now a True True \<sigma> = Some (purge_count now True \<sigma> c, \<sigma>)" by (rule purge_cent_test [OF I c])
    show ?thesis
    proof (cases "purge_count now True \<sigma> c = 0")
      case False
      then show ?thesis using fc f p Some assms(1) by (simp add: lookup_read_def)
    next
      case True
      obtain cp \<sigma>1 where 1: "copy_cent c \<sigma> = Some (cp, \<sigma>1)" "frame \<sigma> \<sigma>1" "rrl \<sigma>1 = rrl \<sigma>" "cp \<in> {None, Some (unlinked c)}"
        "no_fail \<sigma> \<longrightarrow> cp \<noteq> None \<and> no_fail \<sigma>1" using copy_cent_spec [OF wf(1), of \<sigma>] by (elim exE conjE) (rule that)
      have c1: "cents \<sigma>1 = cents \<sigma>" by (rule frameD(1) [OF 1(2)])
      have inv: "cache_inv \<sigma>1" using cinv_frame [OF I 1(2,3)] c1 by (simp add: cache_inv_def)
      have nd: "\<not> dead now True c" and ns: "\<And>i. \<not> stale_at now c i"
        using no_purge [OF True] neg_not_stale [OF wf(2)] by blast+
      have "answer now \<sigma> nm wild cp"
        by (rule answer_copy [OF _ c wf(1) wf(1) nd _ refl refl refl refl 1(4)]) (use f Some ns 1(5) in simp_all)
      then show ?thesis using fc f p Some True c 1(1,5) inv c1 by (simp add: lookup_read_def)
    qed
  qed
qed

lemma lookup_write_spec:
  assumes "cache_inv \<sigma>" "valid_name nm"
  shows "\<exists>r \<sigma>'. lookup_write now nm wild \<sigma> = Some (r, snd (found_at \<sigma> nm wild), \<sigma>') \<and> cache_inv \<sigma>' \<and>
    answer now \<sigma> nm wild r \<and> trimmed \<sigma> \<sigma>'"
proof -
  let ?A = "dom (cents \<sigma>)"
  have I: "cinv ?A {} \<sigma>" using assms(1) by (simp add: cache_inv_def)
  obtain r w where f: "found_at \<sigma> nm wild = (r, w)" by (cases "found_at \<sigma> nm wild")
  have fc: "find_cent nm wild \<sigma> = Some (r, w)" using find_cent_eq [OF I assms(2)] f by simp
  show ?thesis
  proof (cases r)
    case None
    then show ?thesis using fc f assms(1) by (simp add: lookup_write_def answer_def trimmed_same)
  next
    case (Some a)
    then have aA: "a \<in> ?A" using found_at_mem [OF I] f by (metis fst_conv)
    then obtain c where c: "cents \<sigma> a = Some c" by blast
    have wf: "cent_wf c" by (rule cinv_ent [OF I c])
    obtain \<sigma>1 where 1: "purge_cent now a True False \<sigma> = Some (purge_count now True \<sigma> c, \<sigma>1)"
      "if dead now True c then gone ?A {} a \<sigma> \<sigma>1 \<and> tabm \<sigma>1 = (tabm \<sigma>)(key_of (ce_qname c) := None)
       else changed ?A {} a (purged_cent now \<sigma> c) \<sigma> \<sigma>1" using purge_cent_real [OF I c aA, of now True] by auto
    show ?thesis
    proof (cases "dead now True c")
      case True
      then have g: "cinv (?A - {a}) {} \<sigma>1" "cents \<sigma>1 = (cents \<sigma>)(a := None)" "mallocs \<sigma>1 = mallocs \<sigma>"
        using 1(2) by (simp_all add: gone_def)
      have "trimmed \<sigma> \<sigma>1" using g(2) no_fail_mallocs [OF g(3)] by (auto simp: trimmed_def split: if_splits)
      moreover have "cache_inv \<sigma>1" using g by (simp add: cache_inv_def)
      moreover have "purge_count now True \<sigma> c < 0" using True by (simp add: purge_count_def)
      moreover have "answer now \<sigma> nm wild None" using f Some c True by (simp add: answer_def)
      ultimately show ?thesis using fc f 1(1) Some by (simp add: lookup_write_def)
    next
      case False
      let ?d = "purged_cent now \<sigma> c"
      have g: "cinv ?A {} \<sigma>1" "cents \<sigma>1 = (cents \<sigma>)(a \<mapsto> ?d)" "mallocs \<sigma>1 = mallocs \<sigma>"
        using 1(2) False by (simp_all add: changed_def)
      have a1: "cents \<sigma>1 a = Some ?d" using g(2) by simp
      have wd: "cent_wf ?d" by (rule cinv_ent [OF g(1) a1])
      have cnt: "\<not> purge_count now True \<sigma> c < 0" using False npurge_nonneg [of now c] by (simp add: purge_count_def)
      obtain cp \<sigma>2 where 2: "copy_cent ?d \<sigma>1 = Some (cp, \<sigma>2)" "frame \<sigma>1 \<sigma>2" "rrl \<sigma>2 = rrl \<sigma>1" "cp \<in> {None, Some (unlinked ?d)}"
        "no_fail \<sigma>1 \<longrightarrow> cp \<noteq> None \<and> no_fail \<sigma>2" using copy_cent_spec [OF wd, of \<sigma>1] by (elim exE conjE) (rule that)
      have "dom (cents \<sigma>2) = ?A" using frameD(1) [OF 2(2)] g(2) aA by auto
      then have inv: "cache_inv \<sigma>2" using cinv_frame [OF g(1) 2(2,3)] by (simp add: cache_inv_def)
      have nf: "no_fail \<sigma>1 = no_fail \<sigma>" by (rule no_fail_mallocs [OF g(3)])
      note pc = purged_cent_props [OF wf, of now \<sigma>]
      have "answer now \<sigma> nm wild cp"
        by (rule answer_copy [OF _ c wf wd False pc(1) pc(3) _ _ pc(2) 2(4)])
          (use f Some 2(5) nf in \<open>simp_all add: purged_cent_neg [OF wf]\<close>)
      moreover have "trimmed \<sigma> \<sigma>2"
        unfolding trimmed_def frameD(1) [OF 2(2)] g(2) using 2(5) nf c pc(1) by (auto split: if_splits)
      ultimately show ?thesis using fc f 1(1) Some cnt a1 2(1) inv by (simp add: lookup_write_def)
    qed
  qed
qed

lemma lookup_cache_spec:
  assumes "cache_inv \<sigma>" "valid_name nm" "\<And>\<tau>. cache_inv \<tau> \<Longrightarrow> cache_inv (others \<tau>)"
  shows "\<exists>r w \<sigma>'. lookup_cache t1 t2 others nm wild \<sigma> = Some (r, w, \<sigma>') \<and> cache_inv \<sigma>' \<and>
    (answer t1 \<sigma> nm wild r \<and> w = snd (found_at \<sigma> nm wild) \<and> trimmed \<sigma> \<sigma>' \<or>
     (\<exists>\<tau>. \<tau> = others \<sigma> \<and> answer t2 \<tau> nm wild r \<and> w = snd (found_at \<tau> nm wild) \<and> trimmed \<tau> \<sigma>'))"
proof -
  obtain x \<sigma>1 where 1: "lookup_read t1 nm wild \<sigma> = Some (x, snd (found_at \<sigma> nm wild), \<sigma>1)" "cache_inv \<sigma>1"
    "cents \<sigma>1 = cents \<sigma>" "no_fail \<sigma> \<longrightarrow> no_fail \<sigma>1"
    "case x of Inl r \<Rightarrow> answer t1 \<sigma> nm wild r | Inr _ \<Rightarrow> \<sigma>1 = \<sigma>" using lookup_read_spec [OF assms(1,2)] by blast
  show ?thesis
  proof (cases x)
    case (Inl r)
    then show ?thesis using 1(1,2,5) trimmed_same [OF 1(3,4)] by (simp add: lookup_cache_def)
  next
    case (Inr u)
    then have "\<sigma>1 = \<sigma>" using 1(5) by simp
    moreover obtain r \<sigma>2 where "lookup_write t2 nm wild (others \<sigma>) = Some (r, snd (found_at (others \<sigma>) nm wild), \<sigma>2)"
      "cache_inv \<sigma>2" "answer t2 (others \<sigma>) nm wild r" "trimmed (others \<sigma>) \<sigma>2" using lookup_write_spec [OF assms(3) [OF assms(1)] assms(2)] by blast
    ultimately show ?thesis using 1(1) Inr by (simp add: lookup_cache_def)
  qed
qed

lemma init_cache_inv: "cache_inv (init_cache ms)"
proof -
  have "items Map.empty = {}" "total {} Map.empty = 0" by (simp_all add: items_def total_def)
  moreover have "qn (init_cache ms) = (\<lambda>_. None)" by (simp add: qn_def init_cache_def fun_eq_iff)
  moreover have "wf_table (\<lambda>_. None) mk_dns_hash" "tab_map (\<lambda>_. None) mk_dns_hash = Map.empty" by (rule mk_dns_hash_ok)+
  moreover have "rrl_ok {} rrl_empty n" for n unfolding rrl_ok_def by (rule exI [of _ "[]"]) (simp add: rrl_empty_rep)
  ultimately show ?thesis
    by (simp add: cache_inv_def cinv_def init_cache_def entries_ok_def)
qed

subsection \<open>An entry just added is found\<close>

lemma add_lookup:
  assumes "cache_inv \<sigma>" "cent_wf c" "\<not> neg c" "tabm \<sigma> (key_of nm) = None" "valid_name nm" "key_of nm = key_of (ce_qname c)"
    "no_fail \<sigma>" "cache_size \<sigma> + ce_cs c \<le> limit conf" "card (items (cents \<sigma>)) + NRRTOT < 2 ^ 32" "slot c i \<noteq> None"
    "\<And>i rs. slot (stored conf c) i = Some rs \<Longrightarrow> \<not> stale_set now rs"
  shows "\<exists>\<sigma>1 cp \<sigma>2. add_cache t conf c \<sigma> = Some \<sigma>1 \<and> lookup_cache now now id nm wild \<sigma>1 = Some (Some cp, 0, \<sigma>2) \<and>
    ce_qname cp = ce_qname c \<and> (\<forall>i. slot cp i = slot (stored conf c) i)"
proof -
  let ?k = "key_of (ce_qname c)"
  have sh: "cent_shape c" using assms(2) by (simp add: cent_wf_def)
  have n0: "ce_num c \<noteq> 0" using num_0_slots [OF assms(2), of i] assms(10) by metis
  have st: "ce_cs (stored conf c) = ce_cs c" "ce_qname (stored conf c) = ce_qname c" "neg (stored conf c) = neg c"
    using stored_head(1-3) [OF assms(2,3)] by simp_all
  have nk: "tabm \<sigma> ?k = None" using assms(4,6) by simp
  obtain \<sigma>1 where 1: "add_cache t conf c \<sigma> = Some \<sigma>1" "cache_inv \<sigma>1" "new_kept conf c \<sigma> \<sigma>1" "no_fail \<sigma>1"
    using add_cache_new [OF assms(1,2) nk assms(9), of t conf] assms(7) by blast
  obtain a ce where a: "cents \<sigma>1 = (cents \<sigma>)(a \<mapsto> ce)" "tabm \<sigma>1 = (tabm \<sigma>)(?k \<mapsto> a)" "unlinked ce = stored conf c"
    using 1(3) assms(7,8) n0 st(1) unfolding new_kept_def by auto
  have I1: "cinv (dom (cents \<sigma>1)) {} \<sigma>1" using 1(2) by (simp add: cache_inv_def)
  have a1: "cents \<sigma>1 a = Some ce" using a(1) by simp
  have wf: "cent_wf ce" by (rule cinv_ent [OF I1 a1])
  note u = unlinked_props [OF wf]
  have sl: "slot (stored conf c) i = map_option unlinked_set (slot ce i)" for i using u(3) a(3) by simp
  have ns: "\<not> stale_at now ce i" for i
  proof (cases "slot ce i")
    case (Some rs)
    then have "\<not> stale_set now (unlinked_set rs)" using assms(11) [of i "unlinked_set rs"] sl [of i] by simp
    then show ?thesis using Some by (simp add: stale_at_def)
  qed (simp add: stale_at_def)
  have "slot ce i \<noteq> None" using sl [of i] assms(10) stored_head(4) [OF assms(2,3), of conf i] by (cases "slot ce i") auto
  then have "fresh_at now ce i" "i < length (slots ce)" using ns slot_SomeD by (auto simp: fresh_at_def)
  moreover have "\<not> neg ce" using a(3) st(3) u(5) assms(3) by simp
  ultimately have "nfresh now ce \<noteq> 0" by (auto simp: nfresh_def filter_empty_conv)
  then have nd: "\<not> dead now True ce" by (simp add: dead_def)
  have f: "found_at \<sigma>1 nm wild = (Some a, 0)" using a(2) assms(6) by (simp add: found_at_def)
  obtain r w \<sigma>2 where 2: "lookup_cache now now id nm wild \<sigma>1 = Some (r, w, \<sigma>2)" "answer now \<sigma>1 nm wild r" "w = 0"
    using lookup_cache_spec [OF 1(2) assms(5), of id now now wild] f by auto
  obtain cp where cp: "r = Some cp" "ce_qname cp = ce_qname ce" "\<forall>i. slot cp i = map_option unlinked_set (slot ce i)"
    using 2(2) f a1 nd 1(4) ns by (cases r) (auto simp: answer_def)
  moreover have "ce_qname ce = ce_qname c" using a(3) u(4) st(2) by simp
  ultimately show ?thesis using 1(1) 2(1,3) sl by auto
qed

end
