(* ===== verification/Pd_ComposeSpec.thy ===== *)
theory Pd_ComposeSpec
  imports Pd_Compose Pd_Layout Pd_Lookup
begin

text \<open>
  Answering is safe: whatever the query, the cache and the memory, \<open>process_query\<close> ends without a
  failing assertion or an access outside its objects, as long as the data in the cache have the
  layout of their types and \<open>dns_cached_resolve\<close> delivers such data.
\<close>

subsection \<open>The data in the cache\<close>

definition cent_data :: "dns_cent \<Rightarrow> bool" where
  "cent_data c = (\<forall>tp i rs. rrlkup tp = Some i \<longrightarrow> slot c i = Some rs \<longrightarrow> list_all (rdata_ok tp) (rs_rrs rs))"

definition store_ok :: "cache \<Rightarrow> bool" where
  "store_ok \<sigma> = (cache_inv \<sigma> \<and> (\<forall>a c. cents \<sigma> a = Some c \<longrightarrow> cent_data c))"

text \<open>A copy handed out by a look-up.\<close>

definition copy_ok :: "dns_cent \<Rightarrow> bool" where
  "copy_ok c = (cent_wf c \<and> loose c \<and> cent_data c)"

text \<open>What is assumed of the rest of the program: other threads and \<open>dns_cached_resolve\<close> keep the
  cache in order, and an entry is returned with \<open>RC_OK\<close>.\<close>

definition env_ok :: "aenv \<Rightarrow> bool" where
  "env_ok E = (
     (\<forall>\<sigma>. cache_inv \<sigma> \<longrightarrow> cache_inv (ev_others E \<sigma>)) \<and>
     (\<forall>\<sigma>. store_ok \<sigma> \<longrightarrow> store_ok (ev_others E \<sigma>) \<and> (no_fail \<sigma> \<longrightarrow> no_fail (ev_others E \<sigma>))) \<and>
     (\<forall>ks r tp hops t \<sigma> rc c so \<sigma>'. store_ok \<sigma> \<longrightarrow> wire_name ks \<longrightarrow>
        ev_resolve E (enc ks @ r) tp hops t \<sigma> = (rc, c, so, \<sigma>') \<longrightarrow>
        store_ok \<sigma>' \<and> (no_fail \<sigma> \<longrightarrow> no_fail \<sigma>') \<and> (rc = RC_OK \<longrightarrow> (\<exists>d. c = Some d \<and> copy_ok d))))"

lemma store_mallocs:
  assumes "store_ok \<sigma>"
  shows "store_ok (\<sigma>\<lparr> mallocs := ms \<rparr>)"
proof -
  let ?\<sigma> = "\<sigma>\<lparr> mallocs := ms \<rparr>"
  have "frame \<sigma> ?\<sigma>" by (simp add: frame_def shrinks_refl)
  moreover have "cinv (dom (cents \<sigma>)) {} \<sigma>" using assms by (simp add: store_ok_def cache_inv_def)
  ultimately have "cinv (dom (cents \<sigma>)) {} ?\<sigma>" using cinv_frame by simp
  then show ?thesis using assms by (simp add: store_ok_def cache_inv_def)
qed

lemma keeps_store: "keeps s s' \<Longrightarrow> store_ok (an_cache s) \<Longrightarrow> store_ok (an_cache s')"
  by (auto simp: keeps_def store_mallocs)

lemma getrrset_eq:
  assumes "cent_shape c"
  shows "getrrset c tp = Some (case rrlkup tp of None \<Rightarrow> None | Some i \<Rightarrow> slot c i)"
proof (cases "T_MIN \<le> tp \<and> tp \<le> T_MAX")
  case False
  then have "rrlkup tp = None" using rrlkup_range [of tp] by (cases "rrlkup tp") auto
  then show ?thesis using False by (auto simp: getrrset_def)
next
  case True
  then obtain i where i: "rrlkup tp = Some i" using rrlkup_Some by blast
  from assms show ?thesis
  proof (cases rule: cent_shapeE)
    case Neg
    then show ?thesis using i by (simp add: getrrset_def slot_def)
  next
    case RR
    then show ?thesis using i True
      by (auto simp: getrrset_def getrrset_eff_def rr_body_def slot_def rd_def)
  qed
qed

lemma have_rr_eq:
  assumes "cent_shape c" "T_MIN \<le> tp" "tp \<le> T_MAX"
  shows "\<exists>b. have_rr c tp = Some b"
proof (cases "neg c")
  case False
  have "getrrset_eff c tp = getrrset c tp" using False assms(2,3) by (simp add: getrrset_def)
  then show ?thesis using False getrrset_eq [OF assms(1), of tp] by (simp add: have_rr_def)
next
  case True
  then have "have_rr c tp = Some False" by (simp add: have_rr_def)
  then show ?thesis by blast
qed

lemma have_qtype_eq: "cent_shape c \<Longrightarrow> \<exists>b. have_qtype c tp = Some b"
  using have_rr_eq [of c tp] by (auto simp: have_qtype_def)

subsection \<open>The invariant of \<open>compose_answer\<close>\<close>

definition sva_ok :: "sva_t \<Rightarrow> bool" where
  "sva_ok st = (\<exists>ks d. wire_name ks \<and> sv_nm st = enc ks @ d \<and> length d = sv_dlen st)"

definition re_ok :: "rr_ext \<Rightarrow> bool" where
  "re_ok re = ((re_tp re \<in> {T_NS, T_SOA} \<and> (\<exists>d ks. re_tnm re = d @ enc ks \<and> length d = re_tsz re \<and> wire_name ks \<and>
       rdata_ok (re_tp re) d)) \<or>
     (re_tp re = RRETP_ADD \<and> (\<exists>ks r. wire_name ks \<and> re_tnm re = enc ks @ r)))"

text \<open>What is kept while the message grows: the identifier, the bytes written after the header so far, and,
  as long as no record is dropped, the layout of the message as its header announces it.\<close>

record aim =
  aim_id :: "byte list"
  aim_pre :: "byte list"
  aim_full :: bool

definition ans_inv :: "aim \<Rightarrow> ans \<Rightarrow> bool" where
  "ans_inv h s = (msg_wf s \<and> store_ok (an_cache s) \<and> list_all sva_ok (an_sva s) \<and> list_all re_ok (an_ar s) \<and>
     take 2 (used s) = aim_id h \<and> bit (used s ! 2) 7 \<and>
     take (length (aim_pre h)) (drop 12 (used s)) = aim_pre h \<and> (aim_full h \<longrightarrow> body_ok s))"

text \<open>What every operation guarantees: it returns, keeps the cache in order, and either succeeds with
  the invariant or fails.\<close>

definition step_ok :: "aim \<Rightarrow> ans \<Rightarrow> (bool \<times> ans) option \<Rightarrow> bool" where
  "step_ok h s res = (case res of None \<Rightarrow> False | Some (ok, s') \<Rightarrow> store_ok (an_cache s') \<and>
     (no_fail (an_cache s) \<longrightarrow> no_fail (an_cache s')) \<and> (ok \<longrightarrow> ans_inv h s'))"

lemma step_okE:
  assumes "step_ok h s res"
  obtains ok s' where "res = Some (ok, s')" "store_ok (an_cache s')"
    "no_fail (an_cache s) \<longrightarrow> no_fail (an_cache s')" "ok \<longrightarrow> ans_inv h s'"
  using assms by (auto simp: step_ok_def split: option.splits)

lemma step_ret [simp]: "ans_inv h s \<Longrightarrow> step_ok h s (Some (ok, s))"
  by (auto simp: step_ok_def ans_inv_def)

lemma step_then:
  assumes "step_ok h s r"
    "\<And>s1. ans_inv h s1 \<Longrightarrow> step_ok h s1 (k s1)"
  shows "step_ok h s (and_then r k)"
proof -
  obtain ok s1 where 1: "r = Some (ok, s1)" "store_ok (an_cache s1)" "no_fail (an_cache s) \<longrightarrow> no_fail (an_cache s1)"
    "ok \<longrightarrow> ans_inv h s1" using assms(1) by (rule step_okE)
  show ?thesis
  proof (cases ok)
    case False
    then show ?thesis using 1 by (simp add: and_then_def step_ok_def)
  next
    case True
    obtain ok2 s2 where "k s1 = Some (ok2, s2)" "store_ok (an_cache s2)"
      "no_fail (an_cache s1) \<longrightarrow> no_fail (an_cache s2)" "ok2 \<longrightarrow> ans_inv h s2"
      using assms(2) 1(4) True by (blast elim: step_okE)
    then show ?thesis using 1(1,3) True by (simp add: and_then_def step_ok_def)
  qed
qed

lemma step_from:
  assumes "step_ok h s1 r" "no_fail (an_cache s) \<longrightarrow> no_fail (an_cache s1)"
  shows "step_ok h s r"
  using assms by (auto simp: step_ok_def split: option.splits)

lemma ans_inv_wf: "ans_inv h s \<Longrightarrow> msg_wf s"
  by (simp add: ans_inv_def)

lemma ans_inv_store: "ans_inv h s \<Longrightarrow> store_ok (an_cache s)"
  by (simp add: ans_inv_def)

lemma used_upd [simp]:
  "used (s\<lparr> an_cache := c \<rparr>) = used s" "used (s\<lparr> an_sva := v \<rparr>) = used s" "used (s\<lparr> an_ar := l \<rparr>) = used s"
  "used (s\<lparr> an_aa := b \<rparr>) = used s" "used (s\<lparr> an_random := n \<rparr>) = used s" "used (s\<lparr> an_clock := t \<rparr>) = used s"
  "used (s\<lparr> an_rcode := i \<rparr>) = used s" "used (s\<lparr> an_alloc := k \<rparr>) = used s" "used (s\<lparr> an_cb := m \<rparr>) = used s"
  by (simp_all add: used_def)

lemma msg_wf_upd [simp]:
  "msg_wf (s\<lparr> an_cache := c \<rparr>) = msg_wf s" "msg_wf (s\<lparr> an_sva := v \<rparr>) = msg_wf s" "msg_wf (s\<lparr> an_ar := l \<rparr>) = msg_wf s"
  "msg_wf (s\<lparr> an_aa := b \<rparr>) = msg_wf s" "msg_wf (s\<lparr> an_random := n \<rparr>) = msg_wf s"
  "msg_wf (s\<lparr> an_clock := t \<rparr>) = msg_wf s" "msg_wf (s\<lparr> an_rcode := i \<rparr>) = msg_wf s"
  by (simp_all add: msg_wf_def)

lemma body_ok_upd [simp]:
  "body_ok (s\<lparr> an_cache := c \<rparr>) = body_ok s" "body_ok (s\<lparr> an_sva := v \<rparr>) = body_ok s" "body_ok (s\<lparr> an_ar := l \<rparr>) = body_ok s"
  "body_ok (s\<lparr> an_aa := b \<rparr>) = body_ok s" "body_ok (s\<lparr> an_random := n \<rparr>) = body_ok s"
  "body_ok (s\<lparr> an_clock := t \<rparr>) = body_ok s" "body_ok (s\<lparr> an_rcode := i \<rparr>) = body_ok s"
  by (simp_all add: body_ok_def hdrs_def cb_for_def)

lemma ans_inv_upd [simp]:
  "ans_inv h s \<Longrightarrow> ans_inv h (s\<lparr> an_aa := b \<rparr>)" "ans_inv h s \<Longrightarrow> ans_inv h (s\<lparr> an_random := n \<rparr>)"
  "ans_inv h s \<Longrightarrow> ans_inv h (s\<lparr> an_clock := t \<rparr>)" "ans_inv h s \<Longrightarrow> ans_inv h (s\<lparr> an_rcode := i \<rparr>)"
  "ans_inv h s \<Longrightarrow> store_ok c \<Longrightarrow> ans_inv h (s\<lparr> an_cache := c \<rparr>)"
  by (simp_all add: ans_inv_def)

text \<open>The identifier and the first flags stay when the message is extended.\<close>

lemma head_same:
  assumes "take 12 m' = bump k (take 12 m)" "4 \<le> k" "k + 2 \<le> 12" "12 \<le> length m"
  shows "take 2 m' = take 2 m" "m' ! 2 = m ! 2"
proof -
  let ?h = "take 12 m"
  have "take 4 (bump k ?h) = take 4 ?h"
    using assms(2,4) by (auto simp: bump_def splice_def min_def split: option.split)
  then have t: "take 4 m' = take 4 m" unfolding assms(1) [symmetric] by (simp add: min_def)
  show "take 2 m' = take 2 m" using arg_cong [OF t, of "take 2"] by (simp add: min_def)
  show "m' ! 2 = m ! 2" using arg_cong [OF t, of "\<lambda>l. l ! 2"] by simp
qed

lemma ans_inv_used: "ans_inv h s \<Longrightarrow> length (used s) = an_sz s \<and> 12 \<le> length (used s)"
  using used_length [of s] by (simp add: ans_inv_def msg_wf_def)

lemma ans_inv_head:
  assumes "ans_inv h s" "keeps s s'" "msg_wf s'" "take 2 (used s') = take 2 (used s)" "used s' ! 2 = used s ! 2"
    "drop 12 (used s') = drop 12 (used s) @ x" "aim_full h \<longrightarrow> body_ok s'"
  shows "ans_inv h s'"
proof -
  have "length (aim_pre h) \<le> length (drop 12 (used s))"
    using assms(1) by (metis ans_inv_def length_take min.cobounded1)
  then have "take (length (aim_pre h)) (drop 12 (used s')) = aim_pre h"
    unfolding assms(6) using assms(1) by (simp add: ans_inv_def)
  then show ?thesis using assms keeps_store [OF assms(2)] by (auto simp: ans_inv_def keeps_def)
qed

lemma ans_inv_body: "ans_inv h s \<Longrightarrow> aim_full h \<Longrightarrow> body_ok s"
  by (simp add: ans_inv_def)

lemma ans_inv_grown:
  assumes "ans_inv h s" "extends s [] s'" "an_cb s' = an_cb s"
  shows "ans_inv h s'"
proof -
  have u: "used s' = used s" "an_sz s' = an_sz s" using assms(2) by (simp_all add: extends_def)
  note l = ans_inv_used [OF assms(1)]
  have "body_ok s'" if "aim_full h"
    by (rule body_ok_same [OF ans_inv_body [OF assms(1) that]]) (use u l assms(3) in simp_all)
  then show ?thesis
    by (intro ans_inv_head [OF assms(1), of s' "[]"]) (use assms(2) u in \<open>auto simp: extends_def\<close>)
qed

text \<open>A record appended by \<open>add_rr\<close> is dropped only when it is additional and the size is limited.\<close>

definition calm :: "aim \<Rightarrow> sect_t \<Rightarrow> nat option \<Rightarrow> bool" where
  "calm h sect udp = (aim_full h \<longrightarrow> sect = S_ADDITIONAL \<longrightarrow> udp = None)"

lemma calm_simps [simp]: "calm h S_ANSWER udp" "calm h S_AUTHORITY udp"
  by (simp_all add: calm_def)

subsection \<open>Records\<close>

lemma add_rr_ok:
  assumes "ans_inv h s" "wire_name ks" "rdata_ok tp d" "calm h sect udp"
  shows "step_ok h s (add_rr E (enc ks @ r) tp ttl d sect udp s)"
proof -
  obtain ps where ps: "layout tp ps" "list_all part_wf ps" "d = enc_parts ps" "length d < 65536"
    using assms(3) by (auto simp: rdata_ok_def)
  obtain ok s' where a: "add_rr E (enc ks @ r) tp ttl d sect udp s = Some (ok, s')" "keeps s s'" and
    b: "ok \<longrightarrow> msg_wf s' \<and>
      (used s' = used s \<and> an_sz s' = an_sz s \<and> sect = S_ADDITIONAL \<and> udp \<noteq> None \<or>
       rr_added ks tp ttl ps sect s s' \<and> (sect = S_ADDITIONAL \<longrightarrow> (\<forall>u. udp = Some u \<longrightarrow> an_sz s' \<le> u)))"
    using add_rr_spec [OF ans_inv_wf [OF assms(1)] assms(2) ps(1,2), of E r ttl sect udp] ps(3) by blast
  have "ans_inv h s'" if ok
  proof -
    consider (dropped) "used s' = used s" "sect = S_ADDITIONAL" "udp \<noteq> None" | (added) "rr_added ks tp ttl ps sect s s'"
      using b \<open>ok\<close> by blast
    then show ?thesis
    proof cases
      case dropped
      then have "\<not> aim_full h" using assms(4) unfolding calm_def by blast
      then show ?thesis using dropped(1) b \<open>ok\<close> by (intro ans_inv_head [OF assms(1) a(2), of "[]"]) simp_all
    next
      case added
      obtain x where x: "take 12 (used s') = bump (count_offs sect) (take 12 (used s))" "drop 12 (used s') = drop 12 (used s) @ x"
        using added unfolding rr_added_def by blast
      have c: "4 \<le> count_offs sect" by (cases sect) (simp_all add: count_offs_def)
      have "body_ok s'" if "aim_full h"
        by (rule body_ok_rr [OF ans_inv_body [OF assms(1) that] ans_inv_wf [OF assms(1)] added assms(2)]) (use ps(3,4) in simp)
      then show ?thesis using head_same [OF x(1) c count_offs_le] ans_inv_used [OF assms(1)] b \<open>ok\<close> x(2)
        by (intro ans_inv_head [OF assms(1) a(2) _ _ _ x(2)]) simp_all
    qed
  qed
  then show ?thesis using a keeps_store [OF a(2)] keepsD [OF a(2)] ans_inv_store [OF assms(1)]
    by (simp add: step_ok_def)
qed

lemma malloc_ok:
  assumes "an_malloc s = (ok, s1)" "ans_inv h s"
  shows "ans_inv h s1" "no_fail (an_cache s) \<longrightarrow> no_fail (an_cache s1)"
proof -
  note m = an_malloc_spec [OF assms(1)]
  show "no_fail (an_cache s) \<longrightarrow> no_fail (an_cache s1)" using keepsD [OF m(1)] by blast
  obtain ms where "s1 = s\<lparr> an_cache := (an_cache s)\<lparr> mallocs := ms \<rparr> \<rparr>" using m(7) by blast
  then show "ans_inv h s1" using assms(2) store_mallocs [OF ans_inv_store [OF assms(2)]] by simp
qed

lemma sva_add_ok:
  assumes "ans_inv h s" "wire_name ks"
  shows "step_ok h s (sva_add (enc ks @ r) tp d s)"
proof -
  obtain ok s1 where m: "an_malloc s = (ok, s1)" by (cases "an_malloc s")
  note 1 = malloc_ok [OF m assms(1)]
  have l: "rhnlen (enc ks @ r) = Some (length (enc ks))" by (rule rhnlen_enc [OF wire_name_labels [OF assms(2)]])
  have sv: "an_sva s1 = an_sva s" using an_malloc_spec(7) [OF m] by auto
  let ?st = "\<lparr> sv_tp = tp, sv_dlen = length d, sv_nm = enc ks @ d \<rparr>"
  have "sva_ok ?st" using assms(2) by (auto simp: sva_ok_def)
  then have "ans_inv h (s1\<lparr> an_sva := an_sva s @ [?st] \<rparr>)" using 1(1) sv by (simp add: ans_inv_def)
  then show ?thesis using m l 1 ans_inv_store [OF 1(1)]
    by (auto simp: sva_add_def step_ok_def rdn_def)
qed

lemma add_ar_ok:
  assumes "ans_inv h s" "wire_name ks" "tp = T_NS \<or> tp = T_SOA \<Longrightarrow> rdata_ok tp d"
    "tp \<noteq> T_NS \<and> tp \<noteq> T_SOA \<Longrightarrow> tp = RRETP_ADD \<and> (\<exists>ls r. wire_name ls \<and> d = enc ls @ r)"
  shows "step_ok h s (add_ar tp d (enc ks) ttl s)"
proof -
  obtain ok s1 where m: "an_malloc s = (ok, s1)" by (cases "an_malloc s")
  note 1 = malloc_ok [OF m assms(1)]
  have l: "rhnlen (enc ks) = Some (length (enc ks))" by (rule rhnlen_enc0 [OF wire_name_labels [OF assms(2)]])
  have ar: "an_ar s1 = an_ar s" using an_malloc_spec(7) [OF m] by auto
  let ?n = "if tp = T_NS \<or> tp = T_SOA then length (enc ks) else 0"
  let ?re = "\<lparr> re_tp = tp, re_tsz = length d, re_ttl = ttl, re_tnm = d @ take ?n (enc ks) \<rparr>"
  have "re_ok ?re"
  proof (cases "tp = T_NS \<or> tp = T_SOA")
    case True
    then have "tp \<in> {T_NS, T_SOA}" "rdata_ok tp d" "take ?n (enc ks) = enc ks" using assms(3) by auto
    then show ?thesis using assms(2) unfolding re_ok_def by fastforce
  next
    case False
    then show ?thesis using assms(4) by (auto simp: re_ok_def)
  qed
  then have "ans_inv h (s1\<lparr> an_ar := an_ar s @ [?re] \<rparr>)" using 1(1) ar by (simp add: ans_inv_def)
  moreover have "(if tp = T_NS \<or> tp = T_SOA then rhnlen (enc ks) else Some 0) = Some ?n" using l by simp
  moreover have "rdn (enc ks) 0 ?n = Some (take ?n (enc ks))" by (simp add: rdn_def)
  ultimately show ?thesis using m 1 ans_inv_store [OF 1(1)]
    by (cases ok) (simp_all add: add_ar_def step_ok_def del: if_split)
qed

lemma mark_ar_ok:
  assumes "ans_inv h s" "rdata_ok tp d"
  shows "step_ok h s (mark_ar tp d s)"
proof (cases "map_of (zip ar_recs ar_offs) tp")
  case None
  then show ?thesis using assms(1) by (simp add: mark_ar_def)
next
  case (Some off)
  obtain ps where ps: "layout tp ps" "list_all part_wf ps" "d = enc_parts ps" using assms(2) by (auto simp: rdata_ok_def)
  have "(tp, off) \<in> {(T_NS, 0), (T_MD, 0), (T_MF, 0), (T_MB, 0), (T_MX, 2), (T_SRV, 6)}"
    using map_of_SomeD [OF Some] by (auto simp: ar_recs_def ar_offs_def)
  then obtain ks where ks: "off \<le> length d" "drop off d = enc ks" "wire_name ks"
    using ps by (auto simp: layout_def)
  have "step_ok h s (add_ar RRETP_ADD (enc ks) (enc []) 0 s)"
  proof (rule add_ar_ok [OF assms(1)])
    show "wire_name []" by (simp add: wire_name_def)
    show "RRETP_ADD = RRETP_ADD \<and> (\<exists>ls r. wire_name ls \<and> enc ks = enc ls @ r)" using ks(3) by (metis append_Nil2)
  qed simp
  then show ?thesis using Some ks by (simp add: mark_ar_def)
qed

text \<open>The walk over the records of an RR set: each once, from the chosen one on.\<close>

fun each_rr :: "(byte list \<Rightarrow> ans \<Rightarrow> (bool \<times> ans) option) \<Rightarrow> byte list list \<Rightarrow> ans \<Rightarrow> (bool \<times> ans) option" where
  "each_rr f [] s = Some (True, s)"
| "each_rr f (d # ds) s = and_then (f d s) (each_rr f ds)"

lemma each_rr_ok:
  "\<lbrakk>\<And>d s. d \<in> set ds \<Longrightarrow> ans_inv h s \<Longrightarrow> step_ok h s (f d s); ans_inv h s\<rbrakk> \<Longrightarrow> step_ok h s (each_rr f ds s)"
proof (induction ds arbitrary: s)
  case (Cons d ds)
  then show ?case by (auto intro!: step_then)
qed simp

lemma rr_walk_plain: "rr_walk f rrs False first i s = each_rr f (drop i rrs) s"
proof (induction "length rrs - i" arbitrary: i s)
  case 0
  then show ?case by (simp add: rr_walk.simps [of f rrs False first i])
next
  case (Suc n)
  then have i: "i < length rrs" by simp
  have "rr_walk f rrs False first (i + 1) = each_rr f (drop (i + 1) rrs)"
    by (rule ext) (use Suc.hyps in simp)
  then show ?case using i Cons_nth_drop_Suc [OF i, symmetric] by (simp add: rr_walk.simps [of f rrs False first i])
qed

lemma rr_walk_before:
  assumes "first < length rrs"
  shows "i < first \<Longrightarrow> rr_walk f rrs True first i s = each_rr f (drop i (take first rrs)) s"
proof (induction "first - i" arbitrary: i s)
  case (Suc n)
  then have i: "i < length (take first rrs)" "take first rrs ! i = rrs ! i" using assms by simp_all
  note d = Cons_nth_drop_Suc [OF i(1), symmetric]
  have st: "rr_walk f rrs True first i s = and_then (f (rrs ! i) s)
      (\<lambda>s1. if Suc i = first then Some (True, s1) else rr_walk f rrs True first (Suc i) s1)"
    using Suc.prems assms by (simp add: rr_walk.simps [of f rrs True first i])
  show ?case
  proof (cases "i + 1 = first")
    case True
    then have "drop (Suc i) (take first rrs) = []" by simp
    moreover have "each_rr f [] = (\<lambda>s1. Some (True, s1))" by (rule ext) simp
    ultimately show ?thesis using st True i(2) d by simp
  next
    case False
    then have "rr_walk f rrs True first (i + 1) = each_rr f (drop (i + 1) (take first rrs))"
      by (intro ext) (use Suc in simp)
    then show ?thesis using st False i(2) d by simp
  qed
qed simp

lemma rr_walk_from:
  assumes "first < length rrs"
  shows "first \<le> i \<Longrightarrow> i < length rrs \<Longrightarrow> rr_walk f rrs True first i s = each_rr f (drop i rrs @ take first rrs) s"
proof (induction "length rrs - i" arbitrary: i s)
  case (Suc n)
  note d = Cons_nth_drop_Suc [OF Suc.prems(2), symmetric]
  have st: "rr_walk f rrs True first i s = and_then (f (rrs ! i) s)
      (\<lambda>s1. let i2 = (if i + 1 \<ge> length rrs then 0 else i + 1) in
        if i2 = first then Some (True, s1) else rr_walk f rrs True first i2 s1)"
    using Suc.prems assms by (simp add: rr_walk.simps [of f rrs True first i])
  show ?case
  proof (cases "i + 1 \<ge> length rrs")
    case True
    then have e: "drop (Suc i) rrs = []" by simp
    have "(\<lambda>s1. let i2 = (if i + 1 \<ge> length rrs then 0 else i + 1) in
        if i2 = first then Some (True, s1) else rr_walk f rrs True first i2 s1) = each_rr f (take first rrs)"
      by (rule ext) (use True rr_walk_before [OF assms, of 0] in auto)
    then show ?thesis using st d e by simp
  next
    case False
    have "(\<lambda>s1. let i2 = (if i + 1 \<ge> length rrs then 0 else i + 1) in
        if i2 = first then Some (True, s1) else rr_walk f rrs True first i2 s1) =
        each_rr f (drop (i + 1) rrs @ take first rrs)"
      by (rule ext) (use False Suc in simp)
    then show ?thesis using st d by simp
  qed
qed simp

lemma rr_walk_eq:
  assumes "rnd \<longrightarrow> first < length rrs" "\<not> rnd \<longrightarrow> first = 0"
  shows "rr_walk f rrs rnd first first s = each_rr f (rotate first rrs) s"
proof (cases rnd)
  case True
  then show ?thesis using rr_walk_from [of first rrs first f s] assms(1) by (simp add: rotate_drop_take)
next
  case False
  then show ?thesis using rr_walk_plain [of f rrs first 0 s] assms(2) by simp
qed

lemma randrr_ok:
  assumes "(if ev_rnd_recs E then randrr rrs s else (0, s)) = (first, s1)" "rrs \<noteq> []"
  shows "ev_rnd_recs E \<longrightarrow> first < length rrs" "\<not> ev_rnd_recs E \<longrightarrow> first = 0" "\<exists>n. s1 = s\<lparr> an_random := n \<rparr>"
  using assms by (auto simp: randrr_def an_rand_def split: if_splits list.splits prod.splits
    intro: exI [of _ "an_random s"])

lemma rr_walk_ok:
  assumes "(if ev_rnd_recs E then randrr rrs s else (0, s)) = (first, s1)" "rrs \<noteq> []" "ans_inv h s"
    "\<And>d s. d \<in> set rrs \<Longrightarrow> ans_inv h s \<Longrightarrow> step_ok h s (f d s)"
  shows "step_ok h s (rr_walk f rrs (ev_rnd_recs E) first first s1)"
proof -
  obtain n where n: "s1 = s\<lparr> an_random := n \<rparr>" using randrr_ok(3) [OF assms(1,2)] by blast
  then have "ans_inv h s1" using assms(3) by simp
  then have "step_ok h s1 (each_rr f (rotate first rrs) s1)" by (intro each_rr_ok assms(4)) auto
  then have "step_ok h s1 (rr_walk f rrs (ev_rnd_recs E) first first s1)"
    unfolding rr_walk_eq [OF randrr_ok(1,2) [OF assms(1,2)]] .
  then show ?thesis by (rule step_from) (simp add: n)
qed

lemma rrset_record_ok:
  assumes "ans_inv h s" "wire_name ks" "rdata_ok tp d"
  shows "step_ok h s (rrset_record E (enc ks @ r) tp t rs udp d s)"
  unfolding rrset_record_def
  by (intro step_then add_rr_ok assms calm_simps) (auto intro!: sva_add_ok mark_ar_ok assms)

lemma cent_data_rdata: "cent_data c \<Longrightarrow> rrlkup tp = Some i \<Longrightarrow> slot c i = Some rs \<Longrightarrow> d \<in> set (rs_rrs rs) \<Longrightarrow> rdata_ok tp d"
  by (auto simp: cent_data_def list_all_iff)

lemma copy_shape: "copy_ok c \<Longrightarrow> cent_shape c"
  by (simp add: copy_ok_def cent_wf_def)

lemma add_rrset_ok:
  assumes "ans_inv h s" "wire_name ks" "copy_ok c"
  shows "step_ok h s (add_rrset E (enc ks @ r) tp t c udp s)"
proof -
  note g = getrrset_eq [OF copy_shape [OF assms(3)], of tp]
  show ?thesis
  proof (cases "\<exists>i rs. rrlkup tp = Some i \<and> slot c i = Some rs \<and> rs_rrs rs \<noteq> []")
    case False
    then show ?thesis using g assms(1) by (auto simp: add_rrset_def split: option.splits)
  next
    case True
    then obtain i rs where i: "rrlkup tp = Some i" "slot c i = Some rs" "rs_rrs rs \<noteq> []" by blast
    obtain first s1 where f: "(if ev_rnd_recs E then randrr (rs_rrs rs) s else (0, s)) = (first, s1)"
      by (cases "if ev_rnd_recs E then randrr (rs_rrs rs) s else (0, s)")
    have "cent_data c" using assms(3) by (simp add: copy_ok_def)
    then have "rdata_ok tp d" if "d \<in> set (rs_rrs rs)" for d by (rule cent_data_rdata [OF _ i(1,2) that])
    then have "step_ok h s (rr_walk (rrset_record E (enc ks @ r) tp t rs udp) (rs_rrs rs) (ev_rnd_recs E) first first s1)"
      by (intro rr_walk_ok [OF f i(3) assms(1)] rrset_record_ok assms(2))
    then show ?thesis using g i f by (simp add: add_rrset_def)
  qed
qed

lemma add_rrsets_ok:
  "ans_inv h s \<Longrightarrow> wire_name ks \<Longrightarrow> copy_ok c \<Longrightarrow> step_ok h s (add_rrsets E (enc ks @ r) tps t c udp s)"
  by (induction tps arbitrary: s) (auto intro!: step_then add_rrset_ok)

lemma RRITERLIST_eq: "cent_shape c \<Longrightarrow> \<exists>l. RRITERLIST c = Some l"
  by (erule cent_shapeE) (auto simp: RRITERLIST_def rr_body_def)

lemma add_to_response_ok:
  assumes "ans_inv h s" "wire_name ks" "copy_ok c"
  shows "step_ok h s (add_to_response E (enc ks @ r) qtype t c udp s)"
proof -
  obtain b where b: "have_qtype c qtype = Some b" using have_qtype_eq copy_shape [OF assms(3)] by blast
  obtain l where l: "RRITERLIST c = Some l" using RRITERLIST_eq copy_shape [OF assms(3)] by blast
  show ?thesis unfolding add_to_response_def
    using b l step_ret [OF assms(1), of True] by (auto intro!: step_then add_rrset_ok add_rrsets_ok assms)
qed

subsection \<open>Looking up and additional records\<close>

lemma sva_member_ok:
  assumes "list_all sva_ok sva" "wire_name ks"
  shows "\<exists>b. sva_member sva (enc ks @ r) tp d = Some b"
  using assms(1)
proof (induction sva)
  case (Cons st sva)
  obtain ls e where st: "wire_name ls" "sv_nm st = enc ls @ e" "length e = sv_dlen st" using Cons.prems by (auto simp: sva_ok_def)
  note n = wire_name_labels [OF st(1)] wire_name_labels [OF assms(2)]
  have "rhnicmp (sv_nm st) (enc ks @ r) = Some (ci_eq ls ks)" unfolding st(2) by (rule rhnicmp_enc [OF n])
  moreover have "skiprhn (sv_nm st) = Some e" unfolding st(2) by (rule skiprhn_enc [OF n(1)])
  moreover have "rdn e 0 (length d) = Some (take (length d) e)" if "sv_dlen st = length d" using st(3) that by (simp add: rdn_def)
  moreover obtain b where "sva_member sva (enc ks @ r) tp d = Some b" using Cons by auto
  ultimately have "sva_member (st # sva) (enc ks @ r) tp d \<in> {Some True, Some b}" by auto
  then show ?case by blast
next
  case Nil
  have "sva_member [] (enc ks @ r) tp d = Some False" by simp
  then show ?case by blast
qed

lemma add_additional_rr_ok:
  assumes "ans_inv h s" "wire_name ks" "rdata_ok tp d" "calm h sect udp"
  shows "step_ok h s (add_additional_rr E (enc ks @ r) tp ttl d sect udp s)"
proof -
  obtain b where "sva_member (an_sva s) (enc ks @ r) tp d = Some b"
    using sva_member_ok [OF _ assms(2), of "an_sva s" r tp d] assms(1) unfolding ans_inv_def by blast
  then show ?thesis unfolding add_additional_rr_def
    using step_ret [OF assms(1), of True] by (auto intro!: step_then add_rr_ok sva_add_ok assms)
qed

lemma lookup_cache_rest:
  assumes "cache_inv \<sigma>" "wire_name ks" "\<And>\<tau>. cache_inv \<tau> \<Longrightarrow> cache_inv (others \<tau>)"
  shows "lookup_cache t1 t2 others (enc ks @ r) False \<sigma> = lookup_cache t1 t2 others (enc ks) False \<sigma>"
proof -
  have f: "find_cent (enc ks @ r) False \<tau> = find_cent (enc ks) False \<tau>" if "cache_inv \<tau>" for \<tau>
    using lookup_enc [of _ _ \<tau>, OF _ assms(2)] lookup_enc [of _ _ \<tau> _ "[]", OF _ assms(2)] that
    by (auto simp: find_cent_def cache_inv_def)
  have r: "lookup_read t1 (enc ks @ r) False \<sigma> = lookup_read t1 (enc ks) False \<sigma>"
    by (simp add: lookup_read_def f [OF assms(1)])
  have w: "lookup_write t2 (enc ks @ r) False \<tau> = lookup_write t2 (enc ks) False \<tau>" if "cache_inv \<tau>" for \<tau>
    by (simp add: lookup_write_def f [OF that])
  obtain x v \<sigma>1 where x: "lookup_read t1 (enc ks) False \<sigma> = Some (x, v, \<sigma>1)" "cache_inv \<sigma>1"
    using lookup_read_spec [OF assms(1) valid_name_enc [OF assms(2)], of t1 False] by blast
  show ?thesis unfolding lookup_cache_def r x(1) using w [OF assms(3) [OF x(2)]]
    by (auto split: sum.split)
qed

lemma trimmed_store:
  assumes "trimmed \<sigma> \<sigma>'" "store_ok \<sigma>" "cache_inv \<sigma>'"
  shows "store_ok \<sigma>'"
  using assms unfolding store_ok_def trimmed_def cent_data_def by blast

lemma answer_data:
  assumes "answer t \<sigma> nm False (Some c)" "store_ok \<sigma>"
  shows "copy_ok c"
proof -
  obtain a d where a: "cents \<sigma> a = Some d" "fresh_copy t c"
    "\<And>i. slot c i = (if stale_at t d i then None else map_option unlinked_set (slot d i))"
    using assms(1) by (auto simp: answer_def split: option.splits)
  have "cent_data d" using assms(2) a(1) by (simp add: store_ok_def)
  have "list_all (rdata_ok tp) (rs_rrs rs)" if k: "rrlkup tp = Some i" and s: "slot c i = Some rs" for tp i rs
  proof -
    obtain rs' where "slot d i = Some rs'" "rs = unlinked_set rs'" using s a(3) [of i] by (auto split: if_splits)
    then show ?thesis using \<open>cent_data d\<close> k by (auto simp: cent_data_def)
  qed
  then show ?thesis using a(2) by (simp add: copy_ok_def fresh_copy_def cent_data_def)
qed

lemma an_time_spec: "\<exists>t s1. an_time s = (t, s1) \<and> (\<exists>l. s1 = s\<lparr> an_clock := l \<rparr>)"
proof (cases "an_clock s")
  case Nil
  then have "an_time s = (0, s)" "s = s\<lparr> an_clock := an_clock s \<rparr>" by (simp_all add: an_time_def)
  then show ?thesis by blast
next
  case (Cons t ts)
  then have "an_time s = (t, s\<lparr> an_clock := ts \<rparr>)" by (simp add: an_time_def)
  then show ?thesis by blast
qed

lemma ans_lookup_ok:
  assumes "env_ok E" "ans_inv h s" "wire_name ks"
  shows "\<exists>c s'. ans_lookup E (enc ks @ r) s = Some (c, s') \<and> ans_inv h s' \<and> an_ar s' = an_ar s \<and>
    (no_fail (an_cache s) \<longrightarrow> no_fail (an_cache s')) \<and> (\<forall>d. c = Some d \<longrightarrow> copy_ok d)"
proof -
  obtain t1 s1 where 1: "an_time s = (t1, s1)" "\<exists>l. s1 = s\<lparr> an_clock := l \<rparr>"
    using an_time_spec by blast
  obtain t2 s2 where 2: "an_time s1 = (t2, s2)" "\<exists>l. s2 = s1\<lparr> an_clock := l \<rparr>"
    using an_time_spec by blast
  obtain l where s2: "s2 = s\<lparr> an_clock := l \<rparr>" using 1(2) 2(2) by auto
  let ?\<sigma> = "an_cache s"
  have st: "store_ok ?\<sigma>" by (rule ans_inv_store [OF assms(2)])
  have ci: "cache_inv ?\<sigma>" using st by (simp add: store_ok_def)
  have ot: "\<And>\<tau>. cache_inv \<tau> \<Longrightarrow> cache_inv (ev_others E \<tau>)" "store_ok (ev_others E ?\<sigma>)"
    "no_fail ?\<sigma> \<longrightarrow> no_fail (ev_others E ?\<sigma>)"
    using assms(1) st by (simp_all add: env_ok_def)
  obtain c w \<sigma>' where c: "lookup_cache t1 t2 (ev_others E) (enc ks) False ?\<sigma> = Some (c, w, \<sigma>')" "cache_inv \<sigma>'"
    "answer t1 ?\<sigma> (enc ks) False c \<and> trimmed ?\<sigma> \<sigma>' \<or> answer t2 (ev_others E ?\<sigma>) (enc ks) False c \<and> trimmed (ev_others E ?\<sigma>) \<sigma>'"
    using lookup_cache_spec [OF ci valid_name_enc [OF assms(3)], of "ev_others E" t1 t2 False] ot(1) by blast
  have s': "store_ok \<sigma>'" using c(2,3) trimmed_store st ot(2) by blast
  have nf: "no_fail ?\<sigma> \<longrightarrow> no_fail \<sigma>'" using c(3) ot(3) by (auto simp: trimmed_def)
  have cp: "copy_ok d" if "c = Some d" for d using c(3) answer_data st ot(2) unfolding that by blast
  have "lookup_cache t1 t2 (ev_others E) (enc ks @ r) False ?\<sigma> = Some (c, w, \<sigma>')"
    using lookup_cache_rest [OF ci assms(3), of "ev_others E" t1 t2 r] ot(1) c(1) by simp
  then have "ans_lookup E (enc ks @ r) s = Some (c, s2\<lparr> an_cache := \<sigma>' \<rparr>)"
    using 1(1) 2(1) s2 by (simp add: ans_lookup_def)
  then show ?thesis using s' nf cp assms(2) s2 by simp
qed

lemma ans_free_ok: "copy_ok c \<Longrightarrow> ans_free c s = Some s"
  by (simp add: ans_free_def copy_ok_def cent_wf_def free_cent_loose)

lemma GET_RRSMU_ok: "copy_ok c \<Longrightarrow> i < NRRMU \<Longrightarrow> GET_RRSMU c i = Some (slot c i)"
  by (rule GET_RRSMU_eq [OF copy_shape])

lemma slot_rdata:
  assumes "copy_ok c" "rrlkup tp = Some i" "slot c i = Some rs"
  shows "\<And>d. d \<in> set (rs_rrs rs) \<Longrightarrow> rdata_ok tp d"
  using assms cent_data_rdata by (auto simp: copy_ok_def)

lemma address_rrs_ok:
  assumes "ans_inv h s" "wire_name ks" "\<And>rs d. q = Some rs \<Longrightarrow> d \<in> set (rs_rrs rs) \<Longrightarrow> rdata_ok tp d"
    "calm h S_ADDITIONAL udp"
  shows "step_ok h s (address_rrs E (enc ks @ r) tp t q udp s)"
proof (cases q)
  case None
  then show ?thesis using assms(1) by (simp add: address_rrs_def)
next
  case (Some rs)
  show ?thesis
  proof (cases "rs_rrs rs = []")
    case True
    then show ?thesis using assms(1) Some by (simp add: address_rrs_def)
  next
    case False
    obtain first s1 where f: "(if ev_rnd_recs E then randrr (rs_rrs rs) s else (0, s)) = (first, s1)"
      by (cases "if ev_rnd_recs E then randrr (rs_rrs rs) s else (0, s)")
    let ?ttl = "word_of_int (ans_ttl rs t)"
    have "step_ok h s (rr_walk (\<lambda>d. add_additional_rr E (enc ks @ r) tp ?ttl d S_ADDITIONAL udp) (rs_rrs rs)
        (ev_rnd_recs E) first first s1)"
      by (intro rr_walk_ok [OF f False assms(1)] add_additional_rr_ok assms(2,4) assms(3) [OF Some])
    then show ?thesis using Some False f by (simp add: address_rrs_def add_additional_rrs_def)
  qed
qed

lemma step_free:
  assumes "step_ok h s r" "copy_ok c"
  shows "step_ok h s (do { (ok, s2) \<leftarrow> r; s3 \<leftarrow> ans_free c s2; Some (ok, s3) })"
  using assms(1) by (rule step_okE) (simp add: ans_free_ok [OF assms(2)] step_ok_def)

lemma add_additional_a_ok:
  assumes "env_ok E" "ans_inv h s" "wire_name ks" "calm h S_ADDITIONAL udp"
  shows "step_ok h s (add_additional_a E (enc ks @ r) t udp s)"
proof -
  obtain c s1 where 1: "ans_lookup E (enc ks @ r) s = Some (c, s1)" "ans_inv h s1"
    "no_fail (an_cache s) \<longrightarrow> no_fail (an_cache s1)" "\<forall>d. c = Some d \<longrightarrow> copy_ok d"
    using ans_lookup_ok [OF assms(1-3), of r] by blast
  show ?thesis
  proof (cases c)
    case None
    then have "step_ok h s1 (add_additional_a E (enc ks @ r) t udp s)" using 1 by (simp add: add_additional_a_def)
    then show ?thesis by (rule step_from [OF _ 1(3)])
  next
    case (Some d)
    then have d: "copy_ok d" using 1(4) by blast
    have g: "GET_RRSMU d 0 = Some (slot d 0)" "GET_RRSMU d 7 = Some (slot d 7)" using GET_RRSMU_ok [OF d] by simp_all
    have k: "rrlkup T_A = Some 0" "rrlkup T_AAAA = Some 7" by (simp_all add: rrlkup_def rrlkuptab_def rd_def)
    let ?r = "and_then (address_rrs E (enc ks @ r) T_A t (slot d 0) udp s1)
        (\<lambda>s. do { q \<leftarrow> Some (slot d 7); address_rrs E (enc ks @ r) T_AAAA t q udp s })"
    have "step_ok h s1 ?r"
      using 1(2) by (auto intro!: step_then address_rrs_ok assms(3,4) slot_rdata [OF d k(1)] slot_rdata [OF d k(2)])
    from step_free [OF this d] have "step_ok h s1 (add_additional_a E (enc ks @ r) t udp s)"
      using 1(1) Some g by (simp add: add_additional_a_def)
    then show ?thesis by (rule step_from [OF _ 1(3)])
  qed
qed

subsection \<open>Referring to name servers\<close>

lemma wire_name_drop: "wire_name ks \<Longrightarrow> wire_name (drop n ks)"
  using enc_drop_le [of n ks] by (auto simp: wire_name_def list_all_iff dest: in_set_dropD)

lemma copy_name:
  assumes "copy_ok c"
  obtains ks where "wire_name ks" "ce_qname c = enc ks"
  using assms by (auto simp: copy_ok_def cent_wf_def elim: valid_nameE)

lemma local_up_ok:
  assumes "cache_inv \<sigma>" "T_MIN \<le> tp" "tp \<le> T_MAX"
  shows "wire_name ls \<Longrightarrow> \<exists>r. local_up tp \<sigma> (enc ls) = Some r \<and> (\<forall>nm. r = Some nm \<longrightarrow> (\<exists>ks. wire_name ks \<and> nm = enc ks))"
proof (induction ls)
  case Nil
  then show ?case by (subst local_up.simps) (simp add: rd_def)
next
  case (Cons l ls)
  have I: "cinv (dom (cents \<sigma>)) {} \<sigma>" using assms(1) by (simp add: cache_inv_def)
  have w: "wire_name ls" using wire_name_drop [OF Cons.prems, of 1] by simp
  have lb: "unat (of_nat (length l) :: byte) = length l" "(of_nat (length l) :: byte) \<noteq> 0"
    using wire_name_labels [OF Cons.prems] by (auto simp: name_label_def name_label_len)
  have ad: "adv (enc (l # ls)) (length l + 1) = Some (enc ls)" by (simp add: adv_Some_iff)
  have r0: "rd (enc (l # ls)) 0 = Some (of_nat (length l))" by (simp add: rd_def)
  obtain lb1 where l1: "rd (enc ls) 0 = Some lb1" by (cases ls) (auto simp: rd_def)
  have lk: "lookup \<sigma> (enc ls) = Some (tabm \<sigma> (canon ls))" using lookup_enc [OF I w, of "[]"] by simp
  obtain r where r: "local_up tp \<sigma> (enc ls) = Some r" "\<forall>nm. r = Some nm \<longrightarrow> (\<exists>ks. wire_name ks \<and> nm = enc ks)"
    using Cons.IH w by blast
  note un = local_up.simps [of tp \<sigma> "enc (l # ls)"]
  show ?case
  proof (cases "lb1 = 0")
    case True
    then have "local_up tp \<sigma> (enc (l # ls)) = Some None" using un r0 ad lb l1 by simp
    then show ?thesis by blast
  next
    case nz: False
    show ?thesis
    proof (cases "tabm \<sigma> (canon ls)")
      case None
      then have "local_up tp \<sigma> (enc (l # ls)) = Some r" using un r0 ad lb l1 nz lk r(1) by simp
      then show ?thesis using r(2) by blast
    next
      case (Some a)
      then obtain c where c: "cents \<sigma> a = Some c" "cent_shape c" using tabm_entry [OF I] cinv_ent [OF I] by blast
      obtain h where h: "have_rr c tp = Some h" using have_rr_eq [OF c(2) assms(2,3)] by blast
      have "local_up tp \<sigma> (enc (l # ls)) \<in> {Some None, Some (Some (enc ls)), Some r}"
        using un r0 ad lb l1 nz lk Some c(1) h r(1) by simp
      then show ?thesis using r(2) w by blast
    qed
  qed
qed

lemma ref_type_ok:
  assumes "cent_shape c"
  shows "\<exists>tp. ref_type c qt = Some tp \<and> tp \<in> {T_NS, T_SOA}"
proof -
  obtain h where h: "have_qtype c qt = Some h" using have_qtype_eq [OF assms] by blast
  have r: "\<exists>b. have_rr c tp = Some b" if "T_MIN \<le> tp" "tp \<le> T_MAX" for tp by (rule have_rr_eq [OF assms that])
  obtain b1 b2 b3 b4 b5 where "have_rr c T_MB = Some b1" "have_rr c T_MG = Some b2" "have_rr c T_MR = Some b3"
    "have_rr c T_MD = Some b4" "have_rr c T_MF = Some b5"
    using r [of T_MB] r [of T_MG] r [of T_MR] r [of T_MD] r [of T_MF] by auto
  then show ?thesis using h by (simp add: ref_type_def)
qed

text \<open>An RR set of type \<open>tp\<close> of an entry, where there is one.\<close>

definition set_of :: "int \<Rightarrow> rr_set option \<Rightarrow> dns_cent option \<Rightarrow> bool" where
  "set_of tp r c = (\<forall>rs. r = Some rs \<longrightarrow> (\<exists>d. c = Some d \<and> copy_ok d \<and> list_all (rdata_ok tp) (rs_rrs rs)))"

lemma getrrset_set:
  assumes "copy_ok c"
  shows "\<exists>r. getrrset c tp = Some r \<and> set_of tp r (Some c)"
proof -
  have "cent_data c" using assms by (simp add: copy_ok_def)
  then show ?thesis using getrrset_eq [OF copy_shape [OF assms], of tp] assms
    by (auto simp: set_of_def cent_data_def split: option.split)
qed

lemma set_of_positive: "set_of tp r c \<Longrightarrow> set_of tp (positive_set r) c"
  by (auto simp: set_of_def positive_set_def split: option.splits)

lemma set_of_None [simp]: "set_of tp None c"
  by (simp add: set_of_def)

lemma found_set:
  assumes "\<forall>d. c = Some d \<longrightarrow> copy_ok d"
  shows "\<exists>r. (case c of None \<Rightarrow> Some None | Some d \<Rightarrow> getrrset d tp) = Some r \<and> set_of tp r c"
  using assms getrrset_set [of _ tp] by (cases c) auto

lemma find_reference_ok:
  assumes "env_ok E" "ans_inv h s" "copy_ok c" "tp \<in> {T_NS, T_SOA}"
  shows "\<exists>r cc s'. find_reference E tp c s = Some (r, cc, s') \<and> ans_inv h s' \<and>
    (no_fail (an_cache s) \<longrightarrow> no_fail (an_cache s')) \<and> set_of tp r cc \<and> (\<forall>d. cc = Some d \<longrightarrow> copy_ok d)"
proof -
  obtain r where r: "getrrset c tp = Some r" "set_of tp r (Some c)" using getrrset_set [OF assms(3)] by blast
  show ?thesis
  proof (cases "positive_set r")
    case (Some rs)
    then show ?thesis using r assms(2,3) set_of_positive [OF r(2)] by (simp add: find_reference_def)
  next
    case None
    obtain ks where ks: "wire_name ks" "ce_qname c = enc ks" using assms(3) by (rule copy_name)
    note nl = wire_name_labels [OF ks(1)]
    have seg: "rhnsegcnt (ce_qname c) = Some (length ks)" using rhnsegcnt_enc [OF nl, of "[]"] ks(2) by simp
    let ?t = "if tp = T_NS then ce_ns c else ce_soa c"
    let ?up = "?t \<noteq> cundef \<and> unat ?t < length ks"
    let ?ls = "if ?up then drop (length ks - unat ?t) ks else ks"
    have nm: "(if ?up then skipsegs (ce_qname c) (length ks - unat ?t) else Some (ce_qname c)) = Some (enc ?ls)"
      using skipsegs_enc [OF nl, of "[]"] ks(2) by simp
    have wl: "wire_name ?ls" using ks(1) wire_name_drop by simp
    obtain c1 s1 where 1: "ans_lookup E (enc ?ls) s = Some (c1, s1)" "ans_inv h s1"
      "no_fail (an_cache s) \<longrightarrow> no_fail (an_cache s1)" "\<forall>d. c1 = Some d \<longrightarrow> copy_ok d"
      using ans_lookup_ok [OF assms(1,2) wl, of "[]"] by auto
    obtain r0 where r0: "(case c1 of None \<Rightarrow> Some None | Some d \<Rightarrow> getrrset d tp) = Some r0" "set_of tp r0 c1"
      using found_set [OF 1(4)] by blast
    let ?r1 = "case c1 of None \<Rightarrow> None | Some d \<Rightarrow> positive_set r0"
    have r1: "(case c1 of None \<Rightarrow> Some None | Some d \<Rightarrow> do { r \<leftarrow> getrrset d tp; Some (positive_set r) }) = Some ?r1"
      using r0(1) by (cases c1) simp_all
    have so1: "set_of tp ?r1 c1" using r0(2) by (cases c1) (auto intro: set_of_positive)
    have ci: "cache_inv (an_cache s1)" using 1(2) by (simp add: ans_inv_def store_ok_def)
    have tp: "T_MIN \<le> tp" "tp \<le> T_MAX" using assms(4) by auto
    obtain own where own: "getlocalowner (ce_qname c) tp (an_cache s1) = Some own"
      "\<forall>nm. own = Some nm \<longrightarrow> (\<exists>ks. wire_name ks \<and> nm = enc ks)"
      using local_up_ok [OF ci tp ks(1)] unfolding getlocalowner_def ks(2) by blast
    note run = find_reference_def [of E tp c s]
    show ?thesis
    proof (cases "?r1 = None \<and> has (ce_flags c) DF_LOCAL \<and> own \<noteq> None")
      case False
      have "find_reference E tp c s = Some (?r1, c1, s1)"
        unfolding run using r(1) None seg nm 1(1) r1 own(1) False ans_free_ok [OF assms(3)]
        by (auto simp: Let_def)
      then show ?thesis using 1(2-4) so1 by blast
    next
      case True
      then obtain nm' ls where ls: "own = Some nm'" "wire_name ls" "nm' = enc ls" using own(2) by blast
      have fr: "(case c1 of None \<Rightarrow> Some s1 | Some d \<Rightarrow> ans_free d s1) = Some s1"
        using 1(4) ans_free_ok by (cases c1) auto
      obtain c2 s2 where 2: "ans_lookup E (enc ls) s1 = Some (c2, s2)" "ans_inv h s2"
        "no_fail (an_cache s1) \<longrightarrow> no_fail (an_cache s2)" "\<forall>d. c2 = Some d \<longrightarrow> copy_ok d"
        using ans_lookup_ok [OF assms(1) 1(2) ls(2), of "[]"] by auto
      obtain r2 where r2: "(case c2 of None \<Rightarrow> Some None | Some d \<Rightarrow> getrrset d tp) = Some r2" "set_of tp r2 c2"
        using found_set [OF 2(4)] by blast
      have "find_reference E tp c s = Some (r2, c2, s2)"
        unfolding run using r(1) None seg nm 1(1) r1 own(1) True ls fr 2(1) r2(1) ans_free_ok [OF assms(3)]
        by (auto simp: Let_def)
      then show ?thesis using 1(3) 2(2-4) r2(2) by blast
    qed
  qed
qed

lemma add_refs_ok:
  assumes "wire_name ks" "tp \<in> {T_NS, T_SOA}"
  shows "\<lbrakk>ans_inv h s; list_all (rdata_ok tp) ds\<rbrakk> \<Longrightarrow> step_ok h s (add_refs tp (enc ks) ttl ds s)"
proof (induction ds arbitrary: s)
  case (Cons d ds)
  then have "step_ok h s (add_ar tp d (enc ks) ttl s)" using assms by (intro add_ar_ok) auto
  then show ?case using Cons by (auto intro!: step_then)
qed simp

lemma authority_refs_ok:
  assumes "env_ok E" "ans_inv h s" "copy_ok c"
  shows "step_ok h s (authority_refs E qt t c s)"
proof -
  obtain tp where tp: "ref_type c qt = Some tp" "tp \<in> {T_NS, T_SOA}" using ref_type_ok [OF copy_shape [OF assms(3)]] by blast
  obtain r cc s1 where 1: "find_reference E tp c s = Some (r, cc, s1)" "ans_inv h s1"
    "no_fail (an_cache s) \<longrightarrow> no_fail (an_cache s1)" "set_of tp r cc" "\<forall>d. cc = Some d \<longrightarrow> copy_ok d"
    using find_reference_ok [OF assms tp(2)] by blast
  have fr: "(case cc of None \<Rightarrow> Some s2 | Some d \<Rightarrow> ans_free d s2) = Some s2" for s2
    using 1(5) ans_free_ok by (cases cc) auto
  have "step_ok h s1 (case r of None \<Rightarrow> Some (True, s1)
     | Some rs \<Rightarrow> do { d \<leftarrow> cc; add_refs tp (ce_qname d) (word_of_int (ans_ttl rs t)) (rs_rrs rs) s1 })"
  proof (cases r)
    case (Some rs)
    then obtain d where d: "cc = Some d" "copy_ok d" "list_all (rdata_ok tp) (rs_rrs rs)" using 1(4) by (auto simp: set_of_def)
    obtain ks where "wire_name ks" "ce_qname d = enc ks" using d(2) by (rule copy_name)
    then show ?thesis using Some d add_refs_ok [OF _ tp(2) 1(2) d(3)] by simp
  qed (simp add: 1(2))
  then show ?thesis using tp(1) 1(1,3) fr
    by (elim step_okE) (simp add: authority_refs_def step_ok_def)
qed

subsection \<open>The parts of \<open>compose_answer\<close>\<close>

text \<open>The flags, apart from the bit that tells queries from responses, can be changed at any time.\<close>

lemma ans_inv_flags:
  assumes "ans_inv h s" "s' = s\<lparr> an_buf := buf, an_rcode := c \<rparr>" "used s' = (used s)[i := b]" "length buf = length (an_buf s)"
    "i = 2 \<or> i = 3" "i = 2 \<longrightarrow> bit b 7"
  shows "ans_inv h s'"
proof -
  note u = ans_inv_used [OF assms(1)]
  have d: "drop 12 (used s') = drop 12 (used s)" using assms(3,5) by auto
  have t: "take 2 (used s') = take 2 (used s)" using assms(3,5) by auto
  have q: "bit (used s' ! 2) 7" using assms(1,3,5,6) u by (auto simp: ans_inv_def nth_list_update)
  have w: "msg_wf s'" using ans_inv_wf [OF assms(1)] assms(2,4) by (simp add: msg_wf_def)
  have "body_ok s'" if "body_ok s"
    by (rule body_ok_same [OF that]) (use u d assms(2,3,5) in auto)
  then show ?thesis using assms(1,2) t q w d by (simp add: ans_inv_def)
qed

lemma set_rcode_ok:
  assumes "ans_inv h s"
  shows "\<exists>s'. set_rcode rc s = Some s' \<and> ans_inv h s' \<and> an_cache s' = an_cache s"
proof -
  note u = ans_inv_used [OF assms]
  have l: "3 < length (an_buf s)" "3 < an_sz s" using u ans_inv_wf [OF assms] by (auto simp: msg_wf_def)
  let ?b = "(an_buf s ! 3 AND 0xf0) OR (word_of_int rc AND 0xf)"
  let ?s = "s\<lparr> an_buf := (an_buf s)[3 := ?b], an_rcode := rc \<rparr>"
  have "set_rcode rc s = Some ?s" using l by (simp add: set_rcode_def rd_nth wr_nth)
  moreover have us: "used ?s = (used s)[3 := ?b]" by (simp add: used_def take_update_swap)
  moreover have "ans_inv h ?s"
    by (rule ans_inv_flags [OF assms refl us]) simp_all
  ultimately show ?thesis by auto
qed

lemma set_aa_ok:
  assumes "ans_inv h s"
  shows "\<exists>s'. set_aa s = Some s' \<and> ans_inv h s' \<and> an_cache s' = an_cache s"
proof -
  note u = ans_inv_used [OF assms]
  have l: "2 < length (an_buf s)" "2 < an_sz s" using u ans_inv_wf [OF assms] by (auto simp: msg_wf_def)
  let ?b = "an_buf s ! 2 OR 4"
  let ?s = "s\<lparr> an_buf := (an_buf s)[2 := ?b] \<rparr>"
  have s: "?s = s\<lparr> an_buf := (an_buf s)[2 := ?b], an_rcode := an_rcode s \<rparr>" by simp
  have "set_aa s = Some ?s" using l by (simp add: set_aa_def rd_nth wr_nth)
  moreover have us: "used ?s = (used s)[2 := ?b]" by (simp add: used_def take_update_swap)
  moreover have "used s ! 2 = an_buf s ! 2" using l by (simp add: used_def)
  moreover have "ans_inv h ?s"
    by (rule ans_inv_flags [OF assms s us]) (use assms calculation(3) in \<open>auto simp: ans_inv_def bit_simps\<close>)
  ultimately show ?thesis by auto
qed

lemma add_opt_ok:
  assumes "ans_inv h s"
  shows "step_ok h s (add_opt_pseudo_rr E n rc v z s)"
proof -
  obtain ok s1 where 1: "grow_ans E (2 + an_sz s + 11) s = (ok, s1)" "keeps s s1"
    "ok \<longrightarrow> extends s [] s1 \<and> an_cb s1 = an_cb s \<and> 2 + an_sz s + 11 \<le> length (an_buf s1) + 2"
    using grow_ans_spec [OF ans_inv_wf [OF assms], of E "2 + an_sz s + 11"] by blast
  have k1: "store_ok (an_cache s1)" "no_fail (an_cache s) \<longrightarrow> no_fail (an_cache s1)"
    using keeps_store [OF 1(2) ans_inv_store [OF assms]] keepsD [OF 1(2)] by blast+
  show ?thesis
  proof (cases ok)
    case False
    then show ?thesis using 1(1) k1 by (simp add: add_opt_pseudo_rr_def step_ok_def)
  next
    case True
    then have e: "extends s [] s1" "an_cb s1 = an_cb s" "2 + an_sz s + 11 \<le> length (an_buf s1) + 2" using 1(3) by simp_all
    have i1: "ans_inv h s1" by (rule ans_inv_grown [OF assms e(1,2)])
    let ?f = "be16 (word_of_int T_OPT) @ be16 (word_of_nat n) @ [word_of_int (rc div 16), v] @ be16 z"
    let ?o = "[0] @ be16 (word_of_int T_OPT) @ be16 (word_of_nat n) @ [word_of_int (rc div 16), v] @ be16 z @ be16 0"
    have "an_sz s1 + length ?o \<le> length (an_buf s1)" using e by (simp add: extends_def)
    then obtain s2 where 2: "put_bytes ?o s1 = Some s2" "extends s1 ?o s2" "an_cb s2 = an_cb s1"
      using put_bytes_spec [OF ans_inv_wf [OF i1]] by blast
    have w2: "msg_wf s2" "used s2 = used s1 @ ?o" "an_sz s2 = an_sz s1 + 11" using 2(2) by (simp_all add: extends_def)
    have lm: "12 \<le> length (an_buf s2)" "an_sz s2 \<le> length (an_buf s2)" "12 \<le> an_sz s2"
      using w2(1) by (simp_all add: msg_wf_def)
    note b = inc16_bump [of 10, OF _ lm(1)]
    let ?s = "s2\<lparr> an_buf := bump 10 (an_buf s2) \<rparr>"
    note u1 = ans_inv_used [OF i1]
    have "take 12 (used ?s) = bump 10 (take 12 (used s2))" using lm b(3) by (simp add: used_def min_def)
    then have hd: "take 12 (used ?s) = bump 10 (take 12 (used s1))" using w2(2) u1 by simp
    have "drop 12 (used ?s) = drop 12 (used s2)" using b(4) by (simp add: used_def drop_take)
    then have bd: "drop 12 (used ?s) = drop 12 (used s1) @ ?o" using w2(2) u1 by simp
    have ks: "keeps s1 ?s" using 2(2) by (simp add: extends_def)
    have "body_ok ?s" if full: "aim_full h"
    proof (rule body_ok_rec [OF ans_inv_body [OF i1 full] _ hd _ bd])
      show "12 \<le> length (used s1)" "(10 :: nat) \<in> {6, 8, 10}" using u1 by simp_all
      have "cb_for (hdrs s1) s1" using ans_inv_body [OF i1 full] by (simp add: body_ok_def)
      moreover have "hdrs ?s = app ?o (hdrs s1)" unfolding hdrs_def bd app_def by auto
      ultimately show "cb_for (hdrs ?s) ?s" using cb_for_app [of "hdrs s1" s1 ?s ?o] 2(3) w2(3) by simp
      fix m' assume "m' \<in> hdrs ?s"
      then obtain m where m: "m \<in> hdrs s1" "m' = m @ ?o" using hdrs_extend [OF bd] by blast
      have lm: "length m = length (used s1)" using hdrs_length [OF m(1)] u1 by blast
      have "name_at m' (length (used s1)) [] 0 1" by (rule name_end) (use m(2) lm in \<open>simp_all add: nth_append\<close>)
      moreover have "m' ! (length (used s1) + 9) = 0" "m' ! (length (used s1) + 10) = 0"
        using m(2) lm by (simp_all add: nth_append be16_def)
      then have "be_at m' (length (used s1) + 1 + 8) = 0" by (simp add: be_at_def add.commute)
      moreover have "length m' = length (used s1) + 11" using m(2) lm by simp
      ultimately show "\<exists>ls h n. name_at m' (length (used s1)) ls h n \<and> h \<le> 255 \<and> length (enc ls) \<le> DNSNAMEBUFSIZE \<and>
        length m' = length (used s1) + n + 10 + be_at m' (length (used s1) + n + 8)"
        by (intro exI [of _ "[]"] exI [of _ 0] exI [of _ 1]) simp
    qed
    then have i: "ans_inv h ?s"
      using head_same [OF hd] u1 w2(1) b(2) ks
      by (intro ans_inv_head [OF i1 ks _ _ _ bd]) (simp_all add: msg_wf_def)
    then have "step_ok h s1 (Some (True, ?s))" using i1 keepsD [OF ks] by (simp add: step_ok_def ans_inv_def)
    from step_from [OF this k1(2)] show ?thesis using 1(1) True 2(1) b(1) by (simp add: add_opt_pseudo_rr_def)
  qed
qed

definition flow_ok :: "aim \<Rightarrow> ans \<Rightarrow> (flow \<times> ans) option \<Rightarrow> bool" where
  "flow_ok h s res = (case res of None \<Rightarrow> False | Some (fl, s') \<Rightarrow> store_ok (an_cache s') \<and>
     (no_fail (an_cache s) \<longrightarrow> no_fail (an_cache s')) \<and> (fl \<noteq> ErrorAns \<longrightarrow> ans_inv h s'))"

lemma flow_okE:
  assumes "flow_ok h s res"
  obtains fl s' where "res = Some (fl, s')" "store_ok (an_cache s')"
    "no_fail (an_cache s) \<longrightarrow> no_fail (an_cache s')" "fl \<noteq> ErrorAns \<longrightarrow> ans_inv h s'"
  using assms by (auto simp: flow_ok_def split: option.splits)

lemma flow_from: "flow_ok h s1 r \<Longrightarrow> no_fail (an_cache s) \<longrightarrow> no_fail (an_cache s1) \<Longrightarrow> flow_ok h s r"
  by (auto simp: flow_ok_def split: option.splits)

lemma flow_ret: "ans_inv h s \<Longrightarrow> flow_ok h s (Some (fl, s))"
  by (simp add: flow_ok_def ans_inv_def)

text \<open>The step after a step that did not fail.\<close>

lemma flow_step:
  assumes "step_ok h s r" "\<And>s1. ans_inv h s1 \<Longrightarrow> flow_ok h s1 (k True s1)"
    "\<And>s1 :: ans. store_ok (an_cache s1) \<Longrightarrow> flow_ok h s1 (k False s1)"
  shows "flow_ok h s (do { (ok, s1) \<leftarrow> r; k ok s1 })"
proof -
  obtain ok s1 where 1: "r = Some (ok, s1)" "store_ok (an_cache s1)" "no_fail (an_cache s) \<longrightarrow> no_fail (an_cache s1)"
    "ok \<longrightarrow> ans_inv h s1" using assms(1) by (rule step_okE)
  have "flow_ok h s1 (k ok s1)" using assms(2,3) 1(2,4) by (cases ok) simp_all
  from flow_from [OF this 1(3)] show ?thesis using 1(1) by simp
qed

lemma flow_error: "store_ok (an_cache s) \<Longrightarrow> flow_ok h s (Some (ErrorAns, s))"
  by (simp add: flow_ok_def)

lemma soa_records_ok:
  assumes "wire_name ks"
  shows "\<lbrakk>ans_inv h s; list_all (rdata_ok T_SOA) ds\<rbrakk> \<Longrightarrow> step_ok h s (soa_records E (enc ks) ttl ds udp s)"
proof (induction ds arbitrary: s)
  case (Cons d ds)
  then have "step_ok h s (add_rr E (enc ks @ []) T_SOA ttl d S_AUTHORITY udp s)" using assms by (intro add_rr_ok) auto
  then show ?case using Cons by (auto intro!: step_then)
qed simp

lemma nameerr_soa_ok:
  assumes "env_ok E" "ans_inv h s" "wire_name ks"
  shows "step_ok h s (nameerr_soa E (enc ks @ r) so t udp s)"
proof (cases "so = cundef \<or> \<not> unat so < length ks")
  case True
  then show ?thesis using assms(2) rhnsegcnt_enc [OF wire_name_labels [OF assms(3)], of r]
    by (auto simp: nameerr_soa_def)
next
  case False
  note nl = wire_name_labels [OF assms(3)]
  let ?ls = "drop (length ks - unat so) ks"
  obtain c s1 where 1: "ans_lookup E (enc ?ls @ r) s = Some (c, s1)" "ans_inv h s1"
    "no_fail (an_cache s) \<longrightarrow> no_fail (an_cache s1)" "\<forall>d. c = Some d \<longrightarrow> copy_ok d"
    using ans_lookup_ok [OF assms(1,2) wire_name_drop [OF assms(3)], of "length ks - unat so" r] by blast
  have run: "nameerr_soa E (enc ks @ r) so t udp s = (case c of
            None \<Rightarrow> Some (True, s1)
          | Some c \<Rightarrow> do {
              rs \<leftarrow> GET_RRSMU c 3;
              (ok, s2) \<leftarrow> (case rs of
                 None \<Rightarrow> Some (True, s1)
               | Some rs \<Rightarrow> if has (rs_flags rs) CF_NEGATIVE then Some (True, s1)
                   else soa_records E (ce_qname c) (word_of_int (ans_ttl rs t)) (rs_rrs rs) udp s1);
              s3 \<leftarrow> ans_free c s2;
              Some (ok, s3)
            })"
    using False 1(1) rhnsegcnt_enc [OF nl, of r] skipsegs_enc [OF nl, of r "length ks - unat so"]
    by (simp add: nameerr_soa_def)
  show ?thesis
  proof (cases c)
    case None
    then show ?thesis using run 1(2,3) by (simp add: step_ok_def ans_inv_def)
  next
    case (Some d)
    then have d: "copy_ok d" using 1(4) by blast
    obtain ls where ls: "wire_name ls" "ce_qname d = enc ls" using d by (rule copy_name)
    have k: "rrlkup T_SOA = Some 3" by (simp add: rrlkup_def rrlkuptab_def rd_def)
    have "step_ok h s1 (case slot d 3 of
                 None \<Rightarrow> Some (True, s1)
               | Some rs \<Rightarrow> if has (rs_flags rs) CF_NEGATIVE then Some (True, s1)
                   else soa_records E (ce_qname d) (word_of_int (ans_ttl rs t)) (rs_rrs rs) udp s1)"
      using 1(2) soa_records_ok [OF ls(1) 1(2)] slot_rdata [OF d k] ls(2)
      by (auto simp: list_all_iff split: option.split)
    from step_from [OF step_free [OF this d] 1(3)] show ?thesis using run Some GET_RRSMU_ok [OF d, of 3] by simp
  qed
qed

lemma query_failed_ok:
  assumes "env_ok E" "ans_inv h s" "wire_name ks"
  shows "flow_ok h s (query_failed E (enc ks @ r) rc so edns t udp s)"
proof -
  obtain s1 where 1: "set_rcode rc s = Some s1" "ans_inv h s1" "an_cache s1 = an_cache s"
    using set_rcode_ok [OF assms(2)] by blast
  have fin: "flow_ok h s2 (if edns then do { (ok, s3) \<leftarrow> add_opt_pseudo_rr E (ev_udpbufsize E) rc 0 0 s2;
       Some (if ok then CleanupReturn else ErrorAns, s3) } else Some (CleanupReturn, s2))" if i: "ans_inv h s2" for s2
  proof (cases edns)
    case True
    have "flow_ok h s2 (do { (ok, s3) \<leftarrow> add_opt_pseudo_rr E (ev_udpbufsize E) rc 0 0 s2;
       Some (if ok then CleanupReturn else ErrorAns, s3) })"
      by (rule flow_step [OF add_opt_ok [OF i]]) (simp_all add: flow_ret flow_error)
    then show ?thesis using True by simp
  qed (simp add: flow_ret [OF i])
  have "flow_ok h s1 (if rc \<noteq> RC_NAMEERR then Some (CleanupReturn, s1)
       else do {
         (ok, s2) \<leftarrow> nameerr_soa E (enc ks @ r) so t udp s1;
         if \<not> ok then Some (ErrorAns, s2)
         else if edns then do {
           (ok, s3) \<leftarrow> add_opt_pseudo_rr E (ev_udpbufsize E) rc 0 0 s2;
           Some (if ok then CleanupReturn else ErrorAns, s3)
         }
         else Some (CleanupReturn, s2)
       })"
    using flow_step [OF nameerr_soa_ok [OF assms(1) 1(2) assms(3), of r so t udp]] fin
    by (auto simp: flow_ret [OF 1(2)] flow_error)
  from flow_from [OF this] show ?thesis using 1(1,3) by (simp add: query_failed_def)
qed

lemma follow_ok:
  assumes "copy_ok c" "length nm = DNSNAMEBUFSIZE"
  shows "\<exists>b nm'. follow_cname_chain c nm = Some (b, nm') \<and> (b \<longrightarrow> (\<exists>ls r. wire_name ls \<and> nm' = enc ls @ r \<and>
    length nm' = DNSNAMEBUFSIZE))"
proof (cases "\<exists>rs d ds. slot c 2 = Some rs \<and> rs_rrs rs = d # ds")
  case False
  have g: "GET_RRSMU c 2 = Some (slot c 2)" using GET_RRSMU_ok [OF assms(1)] by simp
  have "follow_cname_chain c nm = Some (False, nm)" using g False
    by (auto simp: follow_cname_chain_def split: option.split list.split)
  then show ?thesis by blast
next
  case True
  then obtain rs d ds where rs: "slot c 2 = Some rs" "rs_rrs rs = d # ds" by blast
  have g: "GET_RRSMU c 2 = Some (slot c 2)" using GET_RRSMU_ok [OF assms(1)] by simp
  have k: "rrlkup T_CNAME = Some 2" by (simp add: rrlkup_def rrlkuptab_def rd_def)
  have "rdata_ok T_CNAME d" using slot_rdata [OF assms(1) k rs(1), of d] rs(2) by simp
  then obtain ls where ls: "wire_name ls" "d = enc ls" by (auto simp: rdata_ok_def layout_def)
  have l: "length d \<le> DNSNAMEBUFSIZE" using ls by (simp add: wire_name_def)
  have "follow_cname_chain c nm = Some (True, splice nm 0 d)"
    using g rs l assms(2) by (simp add: follow_cname_chain_def wrn_splice)
  then show ?thesis using ls l assms(2) by (auto simp: splice_def)
qed

text \<open>One iteration of the loop, given the ones that follow.\<close>

lemma answer_query_once:
  assumes "env_ok E" "ans_inv h s" "wire_name ks" "length (enc ks @ r) = DNSNAMEBUFSIZE"
    "\<And>n s ks r. hops = Suc n \<Longrightarrow> ans_inv h s \<Longrightarrow> wire_name ks \<Longrightarrow> length (enc ks @ r) = DNSNAMEBUFSIZE \<Longrightarrow>
      flow_ok h s (answer_query E qt rdes edns t udp n (enc ks @ r) s)"
  shows "flow_ok h s (answer_query E qt rdes edns t udp hops (enc ks @ r) s)"
proof -
  let ?q = "enc ks @ r"
  obtain rc c so \<sigma> where rv: "ev_resolve E ?q qt MAX_HOPS t (an_cache s) = (rc, c, so, \<sigma>)"
    by (cases "ev_resolve E ?q qt MAX_HOPS t (an_cache s)") auto
  have st: "store_ok \<sigma>" "no_fail (an_cache s) \<longrightarrow> no_fail \<sigma>" "rc = RC_OK \<longrightarrow> (\<exists>d. c = Some d \<and> copy_ok d)"
    using assms(1) ans_inv_store [OF assms(2)] assms(3) rv unfolding env_ok_def by blast+
  let ?s = "s\<lparr> an_cache := \<sigma> \<rparr>"
  have i0: "ans_inv h ?s" using assms(2) st(1) by simp
  show ?thesis
  proof (cases "rc = RC_OK")
    case False
    have "flow_ok h ?s (query_failed E ?q rc so edns t udp ?s)" by (rule query_failed_ok [OF assms(1) i0 assms(3)])
    from flow_from [OF this] show ?thesis using rv False st(2) by (simp add: answer_query.simps [of E qt rdes edns t udp hops])
  next
    case True
    then obtain d where d: "c = Some d" "copy_ok d" using st(3) by blast
    let ?s1 = "if has (ce_flags d) DF_LOCAL then ?s else ?s\<lparr> an_aa := False \<rparr>"
    have i1: "ans_inv h ?s1" using i0 by simp
    obtain b where b: "have_qtype d qt = Some b" using have_qtype_eq [OF copy_shape [OF d(2)]] by blast
    let ?fol = "rdes \<and> qt \<noteq> T_CNAME \<and> qt \<noteq> QT_ALL \<and> \<not> b"
    obtain fol nm where f: "(if ?fol then follow_cname_chain d ?q else Some (False, ?q)) = Some (fol, nm)"
      "fol \<longrightarrow> (\<exists>ls r. wire_name ls \<and> nm = enc ls @ r \<and> length nm = DNSNAMEBUFSIZE)"
      using follow_ok [OF d(2) assms(4)] by (cases ?fol) auto
    let ?k = "\<lambda>ok s. if \<not> ok then do { s \<leftarrow> ans_free d s; Some (ErrorAns, s) }
        else do {
          h \<leftarrow> have_qtype d qt;
          (fol, qname) \<leftarrow> (if rdes \<and> qt \<noteq> T_CNAME \<and> qt \<noteq> QT_ALL \<and> \<not> h
                            then follow_cname_chain d ?q else Some (False, ?q));
          if fol then do {
            s \<leftarrow> ans_free d s;
            case hops of
              0 \<Rightarrow> Some (GoOn, s)
            | Suc n \<Rightarrow> answer_query E qt rdes edns t udp n qname s
          }
          else do {
            (ok, s) \<leftarrow> authority_refs E qt t d s;
            Some (if ok then GoOn else ErrorAns, s)
          }
        }"
    have run: "answer_query E qt rdes edns t udp hops ?q s =
        do { (ok, s) \<leftarrow> add_to_response E ?q qt t d udp ?s1; ?k ok s }"
      using rv True d(1) by (simp add: answer_query.simps [of E qt rdes edns t udp hops])
    have "flow_ok h ?s1 (do { (ok, s) \<leftarrow> add_to_response E ?q qt t d udp ?s1; ?k ok s })"
    proof (rule flow_step [OF add_to_response_ok [OF i1 assms(3) d(2)]])
      fix s2 :: ans assume i2: "ans_inv h s2"
      show "flow_ok h s2 (?k True s2)"
      proof (cases fol)
        case True
        then obtain ls r' where nm: "wire_name ls" "nm = enc ls @ r'" "length (enc ls @ r') = DNSNAMEBUFSIZE" using f(2) by blast
        have "flow_ok h s2 (case hops of 0 \<Rightarrow> Some (GoOn, s2) | Suc n \<Rightarrow> answer_query E qt rdes edns t udp n nm s2)"
          using assms(5) [OF _ i2 nm(1,3)] i2 nm(2) by (cases hops) (simp_all add: flow_ret)
        then show ?thesis using b f(1) True ans_free_ok [OF d(2)] by simp
      next
        case False
        have "flow_ok h s2 (do { (ok, s) \<leftarrow> authority_refs E qt t d s2; Some (if ok then GoOn else ErrorAns, s) })"
          by (rule flow_step [OF authority_refs_ok [OF assms(1) i2 d(2)]]) (simp_all add: flow_ret flow_error)
        then show ?thesis using b f(1) False by simp
      qed
    next
      fix s2 :: ans assume "store_ok (an_cache s2)"
      then show "flow_ok h s2 (?k False s2)" using ans_free_ok [OF d(2)] by (simp add: flow_error)
    qed
    from flow_from [OF this] show ?thesis using run st(2) by simp
  qed
qed

lemma answer_query_ok:
  assumes "env_ok E"
  shows "\<lbrakk>ans_inv h s; wire_name ks; length (enc ks @ r) = DNSNAMEBUFSIZE\<rbrakk> \<Longrightarrow>
    flow_ok h s (answer_query E qt rdes edns t udp hops (enc ks @ r) s)"
proof (induction hops arbitrary: ks r s)
  case 0
  show ?case by (rule answer_query_once [OF assms 0]) simp
next
  case (Suc n)
  show ?case by (rule answer_query_once [OF assms Suc.prems]) (use Suc.IH in auto)
qed

definition qe_ok :: "queryel \<Rightarrow> bool" where
  "qe_ok qe = (\<exists>ks. wire_name ks \<and> q_name qe = enc ks)"

lemma answer_queries_ok:
  assumes "env_ok E"
  shows "\<lbrakk>ans_inv h s; list_all qe_ok ql\<rbrakk> \<Longrightarrow> flow_ok h s (answer_queries E rdes edns t udp ql s)"
proof (induction ql arbitrary: s)
  case Nil
  then show ?case by (simp add: flow_ret)
next
  case (Cons qe ql)
  then obtain ks where ks: "wire_name ks" "q_name qe = enc ks" by (auto simp: qe_ok_def)
  let ?b = "fresh E 0 DNSNAMEBUFSIZE"
  let ?r = "drop (length (enc ks)) ?b"
  have len: "length (enc ks) \<le> DNSNAMEBUFSIZE" using ks(1) by (simp add: wire_name_def)
  have cp: "rhncpy ?b (q_name qe) = Some (length (enc ks), enc ks @ ?r)"
    using rhncpy_enc [OF wire_name_labels [OF ks(1)] len, of ?b "[]"] len ks(2) by simp
  have l: "length (enc ks @ ?r) = DNSNAMEBUFSIZE" using len by simp
  obtain fl s1 where 1: "answer_query E (q_type qe) rdes edns t udp MAX_HOPS (enc ks @ ?r) s = Some (fl, s1)"
    "store_ok (an_cache s1)" "no_fail (an_cache s) \<longrightarrow> no_fail (an_cache s1)" "fl \<noteq> ErrorAns \<longrightarrow> ans_inv h s1"
    using answer_query_ok [OF assms Cons.prems(1) ks(1) l] by (blast elim: flow_okE)
  show ?case
  proof (cases "fl = GoOn")
    case True
    then have "flow_ok h s1 (answer_queries E rdes edns t udp ql s1)" using Cons 1(4) by simp
    from flow_from [OF this 1(3)] show ?thesis using cp 1(1) True by simp
  next
    case False
    then show ?thesis using cp 1 by (simp add: flow_ok_def)
  qed
qed

lemma add_authority_ok:
  "\<lbrakk>ans_inv h s; list_all re_ok ar\<rbrakk> \<Longrightarrow> step_ok h s (add_authority E udp ar s)"
proof (induction ar arbitrary: s)
  case (Cons re ar)
  have "step_ok h s (if re_tp re = T_NS \<or> re_tp re = T_SOA then do {
          nm \<leftarrow> adv (re_tnm re) (re_tsz re);
          data \<leftarrow> rdn (re_tnm re) 0 (re_tsz re);
          add_additional_rr E nm (re_tp re) (re_ttl re) data S_AUTHORITY udp s
        } else Some (True, s))"
  proof (cases "re_tp re = T_NS \<or> re_tp re = T_SOA")
    case True
    then obtain d ks where d: "re_tnm re = d @ enc ks" "length d = re_tsz re" "wire_name ks" "rdata_ok (re_tp re) d"
      using Cons.prems(2) by (auto simp: re_ok_def)
    have "adv (re_tnm re) (re_tsz re) = Some (enc ks)" using d(1,2) by (simp add: adv_Some_iff)
    moreover have "rdn (re_tnm re) 0 (re_tsz re) = Some d" using d(1,2) by (simp add: rdn_def)
    ultimately show ?thesis
      using True add_additional_rr_ok [OF Cons.prems(1) d(3,4), of S_AUTHORITY udp E "[]" "re_ttl re"] by simp
  qed (simp add: Cons.prems(1))
  then show ?case using Cons by (auto intro!: step_then)
qed simp

lemma add_addresses_ok:
  assumes "env_ok E" "calm h S_ADDITIONAL udp"
  shows "\<lbrakk>ans_inv h s; list_all re_ok ar\<rbrakk> \<Longrightarrow> step_ok h s (add_addresses E t udp ar s)"
proof (induction ar arbitrary: s)
  case (Cons re ar)
  have "step_ok h s (if re_tp re = T_NS \<or> re_tp re = RRETP_ADD then add_additional_a E (re_tnm re) t udp s else Some (True, s))"
  proof (cases "re_tp re = T_NS \<or> re_tp re = RRETP_ADD")
    case True
    have "\<exists>ls r. wire_name ls \<and> re_tnm re = enc ls @ r"
    proof (cases "re_tp re = T_NS")
      case ns: True
      then obtain d ks where d: "re_tnm re = d @ enc ks" "rdata_ok T_NS d"
        using Cons.prems(2) by (auto simp: re_ok_def)
      then show ?thesis by (auto simp: rdata_ok_def layout_def)
    next
      case False
      then show ?thesis using True Cons.prems(2) by (auto simp: re_ok_def)
    qed
    then show ?thesis using True add_additional_a_ok [OF assms(1) Cons.prems(1) _ assms(2)] by auto
  qed (simp add: Cons.prems(1))
  then show ?case using Cons by (auto intro!: step_then)
qed simp

lemma add_sections_ok:
  assumes "env_ok E" "ans_inv h s" "calm h S_ADDITIONAL udp"
  shows "step_ok h s (add_sections E edns t udp s)"
proof -
  have ar: "list_all re_ok (an_ar s)" using assms(2) by (simp add: ans_inv_def)
  show ?thesis unfolding add_sections_def
    by (intro step_then add_authority_ok assms(2) ar)
      (auto intro!: step_then add_opt_ok add_addresses_ok [OF assms(1,3)] ar)
qed

text \<open>The phases of an answer, each with what it establishes when it succeeds.\<close>

definition does :: "(ans \<Rightarrow> bool) \<Rightarrow> ans \<Rightarrow> (bool \<times> ans) option \<Rightarrow> bool" where
  "does P s res = (case res of None \<Rightarrow> False | Some (ok, s') \<Rightarrow> store_ok (an_cache s') \<and>
     (no_fail (an_cache s) \<longrightarrow> no_fail (an_cache s')) \<and> (ok \<longrightarrow> P s'))"

lemma does_simps [simp]:
  "does P s (Some (ok, s')) = (store_ok (an_cache s') \<and> (no_fail (an_cache s) \<longrightarrow> no_fail (an_cache s')) \<and> (ok \<longrightarrow> P s'))"
  by (simp add: does_def)

lemma does_step: "step_ok h s r = does (ans_inv h) s r"
  by (simp add: step_ok_def does_def)

lemma doesE:
  assumes "does P s res"
  obtains ok s' where "res = Some (ok, s')" "store_ok (an_cache s')"
    "no_fail (an_cache s) \<longrightarrow> no_fail (an_cache s')" "ok \<longrightarrow> P s'"
  using assms by (auto simp: does_def split: option.splits)

lemma does_then:
  assumes "does P s r" "\<And>s1. P s1 \<Longrightarrow> does Q s1 (k s1)"
  shows "does Q s (and_then r k)"
proof -
  obtain ok s1 where 1: "r = Some (ok, s1)" "store_ok (an_cache s1)" "no_fail (an_cache s) \<longrightarrow> no_fail (an_cache s1)"
    "ok \<longrightarrow> P s1" using assms(1) by (rule doesE)
  show ?thesis
  proof (cases ok)
    case False
    then show ?thesis using 1 by (simp add: and_then_def)
  next
    case True
    obtain ok2 s2 where "k s1 = Some (ok2, s2)" "store_ok (an_cache s2)"
      "no_fail (an_cache s1) \<longrightarrow> no_fail (an_cache s2)" "ok2 \<longrightarrow> Q s2"
      using assms(2) 1(4) True by (blast elim: doesE)
    then show ?thesis using 1(1,3) True by (simp add: and_then_def)
  qed
qed

text \<open>The question section repeats the questions.\<close>

fun asked :: "byte list \<Rightarrow> nat \<Rightarrow> queryel list \<Rightarrow> nat \<Rightarrow> bool" where
  "asked m i [] e = (i = e)"
| "asked m i (qe # ql) e = (\<exists>ks n. wire_name ks \<and> q_name qe = enc ks \<and> nm_at m i ks n \<and> i + n + 4 \<le> length m \<and>
     int (be_at m (i + n)) = q_type qe mod 65536 \<and> int (be_at m (i + n + 2)) = q_class qe mod 65536 \<and>
     asked m (i + n + 4) ql e)"

lemma asked_append: "asked m i ql e \<Longrightarrow> asked (m @ x) i ql e"
  by (induction m i ql e rule: asked.induct) (fastforce intro: nm_at_append simp: be_at_def nth_append)+

lemma asked_snoc: "asked m i ql e \<Longrightarrow> asked m e ql' e' \<Longrightarrow> asked m i (ql @ ql') e'"
  by (induction m i ql e rule: asked.induct) auto

lemma asked_quest: "asked m i ql e \<Longrightarrow> \<exists>qs. length qs = length ql \<and> quest_at m i qs e"
proof (induction m i ql e rule: asked.induct)
  case (1 m i e)
  then show ?case by (simp add: quest_at_Nil)
next
  case (2 m i qe ql e)
  then obtain ks n where k: "wire_name ks" "nm_at m i ks n" "i + n + 4 \<le> length m" "asked m (i + n + 4) ql e" by auto
  obtain qs where q: "length qs = length ql" "quest_at m (i + n + 4) qs e" using 2(1) [OF k(4)] by blast
  obtain ls h where "name_at m i ls h n" "h \<le> 255" "length (enc ls) \<le> DNSNAMEBUFSIZE"
    using nm_at_name [OF k(2,1)] by blast
  from quest_cons [OF this k(3) q(2)] q(1) show ?case by (intro exI [of _ "quest m (i + n) ls # qs"]) simp
qed

definition qbody :: "ans \<Rightarrow> queryel list \<Rightarrow> bool" where
  "qbody s ql = (cb_for (hdrs s) s \<and> hdr_counts (used s) (length ql) 0 0 0 \<and> (\<forall>m \<in> hdrs s. asked m 12 ql (length m)))"

lemma qbody_body: "qbody s ql \<Longrightarrow> body_ok s"
  unfolding qbody_def body_ok_def laid_def
  by (intro conjI exI [of _ "length ql"] exI [of _ 0]) (auto dest!: asked_quest simp: recs_at_Nil)

lemma be_int: "int (unat (be16 (word_of_int i) ! 0) * 256 + unat (be16 (word_of_int i) ! 1)) = i mod 65536"
  unfolding be16_unat by (simp add: unsigned_of_int take_bit_eq_mod)

lemma add_query_ok:
  assumes "ans_inv h s" "qe_ok qe" "qbody s done"
  shows "does (\<lambda>s'. ans_inv h s' \<and> qbody s' (done @ [qe])) s (add_query E qe s)"
proof -
  obtain ks where ks: "wire_name ks" "q_name qe = enc ks" using assms(2) by (auto simp: qe_ok_def)
  have l: "rhnlen (q_name qe) = Some (length (enc ks))" using rhnlen_enc0 [OF wire_name_labels [OF ks(1)]] ks(2) by simp
  let ?n = "2 + an_sz s + length (enc ks) + 4"
  obtain ok s1 where 1: "grow_ans E ?n s = (ok, s1)" "keeps s s1"
    "ok \<longrightarrow> extends s [] s1 \<and> an_cb s1 = an_cb s \<and> ?n \<le> length (an_buf s1) + 2"
    using grow_ans_spec [OF ans_inv_wf [OF assms(1)], of E ?n] by blast
  have k1: "store_ok (an_cache s1)" "no_fail (an_cache s) \<longrightarrow> no_fail (an_cache s1)"
    using keeps_store [OF 1(2) ans_inv_store [OF assms(1)]] keepsD [OF 1(2)] by blast+
  show ?thesis
  proof (cases ok)
    case False
    then show ?thesis using l 1(1) k1 by (simp add: add_query_def)
  next
    case True
    then have e: "extends s [] s1" "an_cb s1 = an_cb s" "?n \<le> length (an_buf s1) + 2" using 1(3) by simp_all
    have i1: "ans_inv h s1" by (rule ans_inv_grown [OF assms(1) e(1,2)])
    have rm: "an_sz s1 + length (enc ks) \<le> length (an_buf s1)" using e by (simp add: extends_def)
    obtain n s2 where 2: "put_name (enc ks @ []) s1 = Some (n, s2)" "keeps s1 s2"
      "n \<noteq> 0 \<longrightarrow> (\<exists>x. length x = n \<and> n \<le> length (enc ks) \<and> extends s1 x s2 \<and>
        (\<forall>M. cb_for M s1 \<longrightarrow> cb_for (app x M) s2 \<and> (\<forall>m \<in> M. nm_at (m @ x) (an_sz s1) ks n)))"
      using put_name_spec [OF ans_inv_wf [OF i1] ks(1) rm, of "[]"] by blast
    have k2: "store_ok (an_cache s2)" "no_fail (an_cache s) \<longrightarrow> no_fail (an_cache s2)"
      using keeps_store [OF 2(2) ans_inv_store [OF i1]] keepsD [OF 2(2)] k1(2) by blast+
    show ?thesis
    proof (cases "n = 0")
      case True
      then show ?thesis using l 1(1) \<open>ok\<close> 2(1) ks(2) k2 by (simp add: add_query_def)
    next
      case False
      then obtain x where x: "length x = n" "n \<le> length (enc ks)" "extends s1 x s2"
        and M: "\<And>M. cb_for M s1 \<Longrightarrow> cb_for (app x M) s2 \<and> (\<forall>m \<in> M. nm_at (m @ x) (an_sz s1) ks n)" using 2(3) by blast
      have w2: "msg_wf s2" "used s2 = used s1 @ x" "an_sz s2 = an_sz s1 + n" using x by (simp_all add: extends_def)
      let ?t = "be16 (word_of_int (q_type qe)) @ be16 (word_of_int (q_class qe))"
      have "an_sz s2 + length ?t \<le> length (an_buf s2)" using e x by (simp add: extends_def)
      then obtain s3 where 3: "put_bytes ?t s2 = Some s3" "extends s2 ?t s3" "an_cb s3 = an_cb s2"
        using put_bytes_spec [OF w2(1)] by blast
      have w3: "msg_wf s3" "used s3 = used s1 @ x @ ?t" "an_sz s3 = an_sz s1 + n + 4"
        using 3(2) w2 by (simp_all add: extends_def)
      have lm: "12 \<le> length (an_buf s3)" "an_sz s3 \<le> length (an_buf s3)" "12 \<le> an_sz s3"
        using w3(1) by (simp_all add: msg_wf_def)
      note b = inc16_bump [of 4, OF _ lm(1)]
      let ?s = "s3\<lparr> an_buf := bump 4 (an_buf s3) \<rparr>"
      note u1 = ans_inv_used [OF i1]
      have "take 12 (used ?s) = bump 4 (take 12 (used s3))" using lm b(3) by (simp add: used_def min_def)
      then have hd: "take 12 (used ?s) = bump 4 (take 12 (used s1))" using w3(2) u1 by simp
      have "drop 12 (used ?s) = drop 12 (used s3)" using b(4) by (simp add: used_def drop_take)
      then have bd: "drop 12 (used ?s) = drop 12 (used s1) @ x @ ?t" using w3(2) u1 by simp
      have ks3: "keeps s1 ?s" using keeps_trans [OF 2(2)] 3(2) by (simp add: extends_def)
      have eq1: "used s1 = used s" "hdrs s1 = hdrs s" "an_sz s1 = an_sz s" using e(1) by (simp_all add: extends_def hdrs_def)
      have cb1: "cb_for (hdrs s1) s1" using assms(3) e(2) eq1 by (simp add: qbody_def cb_for_def)
      note X = M [OF cb1]
      have hs: "hdrs ?s = app ?t (app x (hdrs s1))" unfolding hdrs_def bd app_def by (auto simp: image_iff)
      have qb: "qbody ?s (done @ [qe])" unfolding qbody_def
      proof (intro conjI ballI)
        show "cb_for (hdrs ?s) ?s" unfolding hs
          by (rule cb_for_app [OF conjunct1 [OF X]]) (use 3(3) w2(3) w3(3) in simp_all)
        have l12: "12 \<le> length (used ?s)" using w3(1) lm b(2) by (simp add: used_def)
        have "hdr_counts (used s1) (length done) 0 0 0" using assms(3) eq1 by (simp add: qbody_def)
        from hdr_counts_bump [OF hd _ l12 this] u1 show "hdr_counts (used ?s) (length (done @ [qe])) 0 0 0" by simp
        fix m' assume "m' \<in> hdrs ?s"
        then obtain m where m: "m \<in> hdrs s1" "m' = (m @ x) @ ?t" unfolding hs by (auto simp: app_def)
        have ml: "length m = an_sz s1" using hdrs_length [OF m(1)] u1 by simp
        have "asked m 12 done (length m)" using assms(3) m(1) eq1 by (simp add: qbody_def)
        then have a: "asked m' 12 done (length m)" using asked_append [of m 12 "done" "length m" "x @ ?t"] m(2) by simp
        have "nm_at (m @ x) (an_sz s1) ks n" using X m(1) by blast
        then have nm: "nm_at m' (length m) ks n" using m(2) ml nm_at_append [of "m @ x" "an_sz s1" ks n ?t] by simp
        have "be_at m' (length m + n) = unat (be16 (word_of_int (q_type qe)) ! 0) * 256 + unat (be16 (word_of_int (q_type qe)) ! 1)"
          "be_at m' (length m + n + 2) = unat (be16 (word_of_int (q_class qe)) ! 0) * 256 + unat (be16 (word_of_int (q_class qe)) ! 1)"
          using m(2) x(1) by (simp_all add: be_at_def nth_append be16_def)
        then have "asked m' (length m) [qe] (length m')"
          using ks nm m(2) x(1) be_int [of "q_type qe"] be_int [of "q_class qe"] by auto
        then show "asked m' 12 (done @ [qe]) (length m')" by (rule asked_snoc [OF a])
      qed
      have "ans_inv h ?s" using head_same [OF hd] u1 w3(1) b(2) qbody_body [OF qb]
        by (intro ans_inv_head [OF i1 ks3 _ _ _ bd]) (simp_all add: msg_wf_def)
      moreover have "no_fail (an_cache s) \<longrightarrow> no_fail (an_cache ?s)" using k1(2) keepsD [OF ks3] by blast
      ultimately show ?thesis using l 1(1) \<open>ok\<close> 2(1) ks(2) False 3(1) b(1) qb ans_inv_store [of h ?s] by (simp add: add_query_def)
    qed
  qed
qed

lemma add_queries_ok:
  "\<lbrakk>ans_inv h s; list_all qe_ok ql; qbody s done\<rbrakk> \<Longrightarrow> does (\<lambda>s'. ans_inv h s' \<and> qbody s' (done @ ql)) s (add_queries E ql s)"
proof (induction ql arbitrary: s "done")
  case Nil
  then show ?case using ans_inv_store [OF Nil(1)] by simp
next
  case (Cons qe ql)
  have "does (\<lambda>s'. ans_inv h s' \<and> qbody s' ((done @ [qe]) @ ql)) s (and_then (add_query E qe s) (add_queries E ql))"
  proof (rule does_then [OF add_query_ok [OF Cons.prems(1) _ Cons.prems(3)]])
    show "qe_ok qe" using Cons.prems(2) by simp
    fix s1 assume "ans_inv h s1 \<and> qbody s1 (done @ [qe])"
    then show "does (\<lambda>s'. ans_inv h s' \<and> qbody s' ((done @ [qe]) @ ql)) s1 (add_queries E ql s1)"
      using Cons.IH Cons.prems(2) by (simp del: append_assoc)
  qed
  then show ?case by simp
qed

lemma hdr_byte2_qr: "bit (hdr_byte2 True op aa tc rdes) 7"
  by (simp add: hdr_byte2_def bit_simps)

lemma hdr_zeros:
  assumes "length i = 2" "4 \<le> j" "j < 12"
  shows "(i @ a # b # replicate 8 (0 :: byte)) ! j = 0"
proof -
  have "(i @ a # b # replicate 8 (0 :: byte)) ! j = replicate 8 0 ! (j - 4)"
    using assms by (simp add: nth_append nth_Cons' del: replicate.simps)
  also have "\<dots> = 0" using assms by (intro nth_replicate) simp
  finally show ?thesis .
qed

lemma reply_header_props:
  assumes "length i = 2"
  shows "length (reply_header i op rdes rc) = 12" "take 2 (reply_header i op rdes rc) = i"
    "bit (reply_header i op rdes rc ! 2) 7" "hdr_counts (reply_header i op rdes rc) 0 0 0 0"
  using assms hdr_byte2_qr
  by (simp_all add: reply_header_def hdr_counts_def be_at_def hdr_zeros nth_append del: replicate.simps)

text \<open>A header alone is a message.\<close>

lemma fresh_inv:
  assumes "store_ok (an_cache s)" "length i = 2" "12 \<le> length f" "a = length f + 2"
    "s' = s\<lparr> an_buf := splice f 0 (reply_header i op rdes rc), an_sz := 12, an_alloc := a \<rparr>"
    "an_cb s = []" "an_sva s = []" "an_ar s = []"
  shows "ans_inv \<lparr> aim_id = i, aim_pre = [], aim_full = b \<rparr> s'" "qbody s' []"
proof -
  note rp = reply_header_props [OF assms(2), of op rdes rc]
  have u: "used s' = reply_header i op rdes rc" using rp(1) by (simp add: used_def splice_def assms(5))
  have lb: "length (splice f 0 (reply_header i op rdes rc)) = length f" using rp(1) assms(3) by (simp add: splice_def)
  have "names_ok []" by (auto simp: names_ok_def cb_mem_def)
  then have w: "msg_wf s'" using lb assms(3-6) by (simp add: msg_wf_def)
  have hs: "hdrs s' = {h. length h = 12}" unfolding hdrs_def u using rp(1) by simp
  have "an_cb s' = []" "an_sz s' = 12" using assms(5,6) by simp_all
  then have "cb_for (hdrs s') s'" unfolding hs cb_for_def
    by (intro exI [of _ "[]"]) (simp add: cb_mem_def cb_ok_def)
  then show q: "qbody s' []" using rp(4) u hs by (simp add: qbody_def)
  show "ans_inv \<lparr> aim_id = i, aim_pre = [], aim_full = b \<rparr> s'"
    using w u rp(2,3) assms(1,7,8) qbody_body [OF q] by (simp add: ans_inv_def assms(5))
qed

lemma start_answer_ok:
  assumes "store_ok (an_cache s)" "12 \<le> length q" "an_cb s = []" "an_sva s = []" "an_ar s = []"
  shows "does (\<lambda>s'. ans_inv \<lparr> aim_id = take 2 q, aim_pre = [], aim_full = b \<rparr> s' \<and> qbody s' []) s (start_answer E q s)"
proof -
  obtain ok s1 where m: "an_malloc s = (ok, s1)" by (cases "an_malloc s")
  note ms = an_malloc_spec [OF m]
  have k1: "store_ok (an_cache s1)" "no_fail (an_cache s) \<longrightarrow> no_fail (an_cache s1)"
    using keeps_store [OF ms(1) assms(1)] keepsD [OF ms(1)] by blast+
  have sl: "an_cb s1 = []" "an_sva s1 = []" "an_ar s1 = []" using ms(7) assms(3-5) by auto
  let ?h = "reply_header (take 2 q) 0 (bit (q ! 2) 0) RC_OK"
  let ?f = "fresh E 0 254"
  have l2: "length (take 2 q) = 2" using assms(2) by simp
  note rp = reply_header_props [OF l2, of 0 "bit (q ! 2) 0" RC_OK]
  let ?s = "s1\<lparr> an_buf := splice ?f 0 ?h, an_sz := 12, an_alloc := 256 \<rparr>"
  have lf: "length ?f = 254" by (simp add: fresh_def)
  have w: "wrn ?f 0 ?h = Some (splice ?f 0 ?h)" using rp(1) lf by (simp add: wrn_splice)
  have f: "ans_inv \<lparr> aim_id = take 2 q, aim_pre = [], aim_full = b \<rparr> ?s" "qbody ?s []"
    by (rule fresh_inv [OF k1(1) l2 _ _ refl sl]; simp add: lf)+
  have "start_answer E q s = (if ok then Some (True, ?s) else Some (False, s1))"
    using m w assms(2) by (simp add: start_answer_def hdr_rd_def rd_nth rdn_def)
  then show ?thesis using k1 f by (cases ok) simp_all
qed

text \<open>A finished answer: every record is in it unless the size is limited, and it starts with the questions.\<close>

definition answered :: "byte list \<Rightarrow> queryel list \<Rightarrow> nat option \<Rightarrow> ans \<Rightarrow> bool" where
  "answered q ql udp s = (ans_inv \<lparr> aim_id = take 2 q, aim_pre = [], aim_full = (udp = None) \<rparr> s \<and>
     (\<exists>e. asked (used s) 12 ql e))"

lemma compose_answer_ok:
  assumes "env_ok E" "store_ok (an_cache s0)" "12 \<le> length q" "list_all qe_ok ql"
  shows "does (answered q ql udp) s0 (compose_answer E ql q edns udp s0)"
proof -
  obtain t s1 l where 1: "an_time s0 = (t, s1)" "s1 = s0\<lparr> an_clock := l \<rparr>" using an_time_spec by blast
  let ?full = "udp = None"
  let ?h = "\<lambda>pre. \<lparr> aim_id = take 2 q, aim_pre = pre, aim_full = ?full \<rparr>"
  let ?s = "s1\<lparr> an_cb := [], an_sva := [], an_ar := [], an_aa := True, an_rcode := RC_OK \<rparr>"
  have rd: "hdr_rd q = Some (bit (q ! 2) 0)" using assms(3) by (simp add: hdr_rd_def rd_nth)
  let ?fin = "\<lambda>s. if list_ex unsupported ql then do { s \<leftarrow> set_rcode RC_NOTSUPP s; Some (True, s) }
         else do {
           rdes \<leftarrow> hdr_rd q;
           (fl, s) \<leftarrow> answer_queries E rdes edns t udp ql s;
           case fl of
             CleanupReturn \<Rightarrow> Some (True, s)
           | ErrorAns \<Rightarrow> Some (False, s)
           | GoOn \<Rightarrow> and_then (add_sections E edns t udp s) (\<lambda>s.
               if an_aa s then do { s \<leftarrow> set_aa s; Some (True, s) } else Some (True, s))
         }"
  have fin: "step_ok h s (?fin s)" if i: "ans_inv h s" and c: "calm h S_ADDITIONAL udp" for s h
  proof (cases "list_ex unsupported ql")
    case True
    obtain s' where "set_rcode RC_NOTSUPP s = Some s'" "ans_inv h s'" "an_cache s' = an_cache s"
      using set_rcode_ok [OF i] by blast
    then show ?thesis using True ans_inv_store [OF i] by (simp add: step_ok_def)
  next
    case False
    obtain fl s2 where 2: "answer_queries E (bit (q ! 2) 0) edns t udp ql s = Some (fl, s2)"
      "store_ok (an_cache s2)" "no_fail (an_cache s) \<longrightarrow> no_fail (an_cache s2)" "fl \<noteq> ErrorAns \<longrightarrow> ans_inv h s2"
      using answer_queries_ok [OF assms(1) i assms(4)] by (blast elim: flow_okE)
    have aa: "step_ok h s (if an_aa s then do { s \<leftarrow> set_aa s; Some (True, s) } else Some (True, s))" if i: "ans_inv h s" for s
    proof -
      obtain s' where "set_aa s = Some s'" "ans_inv h s'" "an_cache s' = an_cache s" using set_aa_ok [OF i] by blast
      then show ?thesis using i ans_inv_store [OF i] by (simp add: step_ok_def)
    qed
    show ?thesis
    proof (cases fl)
      case GoOn
      then have "ans_inv h s2" using 2(4) by simp
      from step_then [OF add_sections_ok [OF assms(1) this c] aa] have
        "step_ok h s2 (and_then (add_sections E edns t udp s2) (\<lambda>s.
               if an_aa s then do { s \<leftarrow> set_aa s; Some (True, s) } else Some (True, s)))" .
      from step_from [OF this 2(3)] show ?thesis using False rd 2(1) GoOn by simp
    next
      case CleanupReturn
      then show ?thesis using False rd 2 by (simp add: step_ok_def)
    next
      case ErrorAns
      then show ?thesis using False rd 2 by (simp add: step_ok_def)
    qed
  qed
  have run: "compose_answer E ql q edns udp s0 = and_then (start_answer E q ?s) (\<lambda>s. and_then (add_queries E ql s) ?fin)"
    unfolding compose_answer_def 1(1) Let_def prod.case by (rule refl)
  have last: "does (answered q ql udp) s3 (?fin s3)" if i3: "ans_inv (?h []) s3" "qbody s3 ql" for s3
  proof -
    let ?pre = "drop 12 (used s3)"
    have i4: "ans_inv (?h ?pre) s3" using i3(1) by (simp add: ans_inv_def)
    have "calm (?h ?pre) S_ADDITIONAL udp" by (simp add: calm_def)
    from fin [OF i4 this] obtain ok4 s4 where 4: "?fin s3 = Some (ok4, s4)" "store_ok (an_cache s4)"
      "no_fail (an_cache s3) \<longrightarrow> no_fail (an_cache s4)" "ok4 \<longrightarrow> ans_inv (?h ?pre) s4" by (rule step_okE)
    have "answered q ql udp s4" if i: "ans_inv (?h ?pre) s4"
    proof -
      have p: "take (length ?pre) (drop 12 (used s4)) = ?pre" using i by (simp add: ans_inv_def)
      let ?m = "take 12 (used s4) @ ?pre"
      have m: "?m \<in> hdrs s3" using ans_inv_used [OF i] by (auto simp: hdrs_def)
      have "used s4 = take 12 (used s4) @ take (length ?pre) (drop 12 (used s4)) @ drop (length ?pre) (drop 12 (used s4))"
        by (simp only: append_take_drop_id)
      then have u: "used s4 = ?m @ drop (length ?pre) (drop 12 (used s4))" unfolding p by simp
      have "asked ?m 12 ql (length ?m)" using i3(2) m unfolding qbody_def by blast
      from asked_append [OF this, of "drop (length ?pre) (drop 12 (used s4))"] have "asked (used s4) 12 ql (length ?m)"
        using u by metis
      then show ?thesis using i unfolding answered_def by (auto simp: ans_inv_def)
    qed
    then show ?thesis unfolding 4(1) using 4(2-4) by simp
  qed
  have "does (answered q ql udp) ?s (compose_answer E ql q edns udp s0)"
    unfolding run
  proof (rule does_then [OF start_answer_ok [of ?s q ?full E]])
    fix s2 assume "ans_inv (?h []) s2 \<and> qbody s2 []"
    then have "does (\<lambda>s'. ans_inv (?h []) s' \<and> qbody s' ([] @ ql)) s2 (add_queries E ql s2)"
      using add_queries_ok [OF _ assms(4)] by blast
    then show "does (answered q ql udp) s2 (and_then (add_queries E ql s2) ?fin)"
      by (rule does_then) (use last in simp)
  qed (use assms(2,3) 1(2) in simp_all)
  then show ?thesis using 1(2) by (auto simp: does_def split: option.splits)
qed

end
