(* ===== verification/Pd_CacheOps.thy ===== *)
theory Pd_CacheOps
  imports Pd_Lookup
begin

text \<open>
  The remaining operations of the cache: invalidating a record, setting flags, emptying and
  destroying the cache; and all operations together as a transition relation whose reachable states
  satisfy the invariant.
\<close>

subsection \<open>Invalidation\<close>

abbreviation (input) outdated :: "rr_set \<Rightarrow> rr_set" where
  "outdated rs \<equiv> rs\<lparr> rs_ts := 0, rs_flags := rs_flags rs AND NOT CF_AUTH \<rparr>"

definition outdate :: "dns_cent \<Rightarrow> nat \<Rightarrow> dns_cent" where
  "outdate c i = (case slot c i of None \<Rightarrow> c | Some rs \<Rightarrow> set_slot c i (outdated rs))"

lemma outdate_props:
  assumes "cent_wf c"
  shows "cent_wf (outdate c i)" "slot (outdate c i) j = (if j = i then map_option outdated (slot c i) else slot c j)"
    "ce_qname (outdate c i) = ce_qname c" "ce_flags (outdate c i) = ce_flags c" "ce_cs (outdate c i) = ce_cs c"
    "length (slots (outdate c i)) = length (slots c)" "cent_items a (outdate c i) = cent_items a c"
proof -
  have s: "rrset_size (outdated rs) = rrset_size rs" for rs by (simp add: rrset_size_def)
  show "cent_wf (outdate c i)" "slot (outdate c i) j = (if j = i then map_option outdated (slot c i) else slot c j)"
    "ce_qname (outdate c i) = ce_qname c" "ce_flags (outdate c i) = ce_flags c" "ce_cs (outdate c i) = ce_cs c"
    "length (slots (outdate c i)) = length (slots c)" "cent_items a (outdate c i) = cent_items a c"
    using set_slot_props [OF assms, of i] set_slot_items [OF assms, of i] assms s
    by (auto simp: outdate_def split: option.split)
qed

lemma outdate_run:
  assumes "cent_wf c" "\<not> neg c" "i < length (slots c)"
  shows "invalidate_slots (i # is) c = invalidate_slots is (outdate c i)"
proof -
  have sh: "cent_shape c" using assms(1) by (simp add: cent_wf_def)
  have r: "RRARR_INDEX c i = Some (slot c i)" by (rule RRARR_INDEX_eq [OF sh assms(3)])
  show ?thesis
  proof (cases "slot c i")
    case None
    then show ?thesis using r by (simp add: outdate_def)
  next
    case (Some rs)
    have "set_rrarr c i (Some (outdated rs)) = Some (set_slot c i (outdated rs))"
      by (rule set_rrarr_slot [OF assms(1) Some]) (simp add: rrset_size_def)
    then show ?thesis using r Some by (simp add: outdate_def)
  qed
qed

lemma invalidate_slots_spec:
  assumes "cent_wf c" "\<not> neg c" "\<forall>i \<in> set is. i < length (slots c)" "distinct is"
  shows "\<exists>c'. invalidate_slots is c = Some c' \<and> cent_wf c' \<and> ce_flags c' = ce_flags c \<and> ce_qname c' = ce_qname c \<and>
    ce_cs c' = ce_cs c \<and> (\<forall>a. cent_items a c' = cent_items a c) \<and>
    (\<forall>j. slot c' j = (if j \<in> set is then map_option outdated (slot c j) else slot c j))"
  using assms
proof (induction "is" arbitrary: c)
  case (Cons i "is")
  have i: "i < length (slots c)" using Cons.prems(3) by simp
  note o = outdate_props [OF Cons.prems(1), of i]
  note run = outdate_run [OF Cons.prems(1,2) i, of "is"]
  have h: "\<not> neg (outdate c i)" "\<forall>j \<in> set is. j < length (slots (outdate c i))" "distinct is" "i \<notin> set is"
    using Cons.prems o by simp_all
  obtain c' where c': "invalidate_slots is (outdate c i) = Some c'" "cent_wf c'" "ce_flags c' = ce_flags c" "ce_qname c' = ce_qname c"
    "ce_cs c' = ce_cs c" "\<forall>a. cent_items a c' = cent_items a (outdate c i)"
    "\<forall>j. slot c' j = (if j \<in> set is then map_option outdated (slot (outdate c i) j) else slot (outdate c i) j)"
    using Cons.IH [OF o(1) h(1-3)] o(3-5) by auto
  have "slot c' j = (if j \<in> set (i # is) then map_option outdated (slot c j) else slot c j)" for j
    using c'(7) o(2) [of j] h(4) by auto
  then show ?case using run c' outdate_props(7) [OF Cons.prems(1)] by (intro exI [of _ c']) simp
qed simp

lemma set_rrarr_body: "set_rrarr c i v = Some c' \<Longrightarrow> c' = c\<lparr> ce_body := ce_body c' \<rparr>"
  by (auto simp: set_rrarr_def bind_eq_Some_conv split: cent_body.splits if_splits option.splits)

lemma invalidate_slots_body: "invalidate_slots is c = Some c' \<Longrightarrow> c' = c\<lparr> ce_body := ce_body c' \<rparr>"
proof (induction "is" arbitrary: c)
  case (Cons i "is")
  obtain r where r: "RRARR_INDEX c i = Some r" using Cons.prems by (auto simp: bind_eq_Some_conv)
  show ?case
  proof (cases r)
    case None
    then show ?thesis using Cons r by simp
  next
    case (Some rs)
    then obtain c1 where c1: "set_rrarr c i (Some (outdated rs)) = Some c1" "invalidate_slots is c1 = Some c'"
      using Cons.prems r by (auto simp: bind_eq_Some_conv)
    obtain b b' where "c1 = c\<lparr> ce_body := b \<rparr>" "c' = c1\<lparr> ce_body := b' \<rparr>"
      using set_rrarr_body [OF c1(1)] Cons.IH [OF c1(2)] by blast
    then show ?thesis by simp
  qed
qed simp

text \<open>The entry \<open>c\<close> with every RR set, or the negative entry, received at time 0; all else is as it was.\<close>

definition outdated_cent :: "dns_cent \<Rightarrow> dns_cent \<Rightarrow> bool" where
  "outdated_cent c c' = (cent_wf c' \<and> ce_qname c' = ce_qname c \<and> ce_flags c' = ce_flags c AND NOT DF_AUTH \<and>
     c' = c\<lparr> ce_flags := ce_flags c AND NOT DF_AUTH, ce_body := ce_body c' \<rparr> \<and>
     (\<forall>j. slot c' j = map_option outdated (slot c j)) \<and>
     (neg c \<longrightarrow> (\<exists>le ttl ts. ce_body c = NegBody le ttl ts \<and> ce_body c' = NegBody le ttl 0)))"

lemma clear_auth_props:
  assumes "cent_wf c"
  shows "cent_wf (c\<lparr> ce_flags := ce_flags c AND NOT DF_AUTH \<rparr>)"
    "slot (c\<lparr> ce_flags := ce_flags c AND NOT DF_AUTH \<rparr>) j = slot c j"
    "cent_items a (c\<lparr> ce_flags := ce_flags c AND NOT DF_AUTH \<rparr>) = cent_items a c"
proof -
  let ?c = "c\<lparr> ce_flags := ce_flags c AND NOT DF_AUTH \<rparr>"
  show sl: "slot ?c j = slot c j" for j by (simp add: slot_def slots_def)
  show "cent_items a ?c = cent_items a c" unfolding cent_items_def sl by simp
  have "cent_shape ?c = cent_shape c" by (simp add: cent_shape_def split: cent_body.split)
  then show "cent_wf ?c" using assms by (simp add: cent_wf_def cent_size_def slots_def)
qed

lemma outdated_linked:
  assumes "outdated_cent c c'" "cent_shape c" "linked c"
  shows "linked c'"
proof -
  have f: "has (ce_flags c') m = has (ce_flags c AND NOT DF_AUTH) m" for m using assms(1) by (simp add: outdated_cent_def)
  have sh: "cent_shape c'" using assms(1) by (simp add: outdated_cent_def cent_wf_def)
  have n: "neg c' = neg c" "has (ce_flags c') DF_LOCAL = has (ce_flags c) DF_LOCAL" using f by simp_all
  show ?thesis
  proof (cases "neg c")
    case True
    then obtain le ttl ts where "ce_body c = NegBody le ttl ts" "ce_body c' = NegBody le ttl 0"
      using assms(1) by (auto simp: outdated_cent_def)
    then show ?thesis using assms(3) n by (simp add: linked_def)
  next
    case False
    have sl: "slot c' j = map_option outdated (slot c j)" for j using assms(1) by (simp add: outdated_cent_def)
    have "has (rs_flags rs) CF_LOCAL \<or> rs_lent rs \<noteq> None"
      if s: "slot c' i = Some rs" "\<not> has (ce_flags c) DF_LOCAL" for i rs
    proof -
      obtain rs' where r: "slot c i = Some rs'" "rs = outdated rs'" using s(1) sl [of i] by (cases "slot c i") auto
      then have "has (rs_flags rs') CF_LOCAL \<or> rs_lent rs' \<noteq> None"
        using assms(3) s(2) body_rr [OF assms(2) False] by (auto simp: linked_def rr_body_def)
      then show ?thesis using r(2) by simp
    qed
    then show ?thesis using n body_rr [OF sh] False by (auto simp: linked_def rr_body_def)
  qed
qed

theorem invalidate_record_spec:
  assumes "cache_inv \<sigma>" "valid_name nm"
  shows "\<exists>\<sigma>'. invalidate_record nm \<sigma> = Some \<sigma>' \<and> cache_inv \<sigma>' \<and> tabm \<sigma>' = tabm \<sigma> \<and>
    (case tabm \<sigma> (key_of nm) of None \<Rightarrow> \<sigma>' = \<sigma>
     | Some a \<Rightarrow> \<exists>c c'. cents \<sigma> a = Some c \<and> outdated_cent c c' \<and> \<sigma>' = put a c' \<sigma>)"
proof -
  let ?A = "dom (cents \<sigma>)"
  have I: "cinv ?A {} \<sigma>" using assms(1) by (simp add: cache_inv_def)
  have lk: "lookup \<sigma> nm = Some (tabm \<sigma> (key_of nm))" by (rule lookup_eq [OF I assms(2)])
  show ?thesis
  proof (cases "tabm \<sigma> (key_of nm)")
    case None
    then show ?thesis using lk assms(1) by (simp add: invalidate_record_def)
  next
    case (Some a)
    obtain c where c: "cents \<sigma> a = Some c" "a \<in> ?A" using tabm_entry [OF I Some] by blast
    note wf = cinv_ent [OF I c(1)]
    let ?clr = "\<lambda>d. d\<lparr> ce_flags := ce_flags d AND NOT DF_AUTH \<rparr>"
    obtain d where d: "(if \<not> neg c then do { ilim \<leftarrow> RRARR_LEN c; invalidate_slots [0..<ilim] c }
                  else (case ce_body c of NegBody le ttl _ \<Rightarrow> Some (c\<lparr> ce_body := NegBody le ttl 0 \<rparr>)
                        | RRBody _ _ \<Rightarrow> None)) = Some d" "outdated_cent c (?clr d)"
      "\<forall>a. cent_items a (?clr d) = cent_items a c" "ce_cs (?clr d) = ce_cs c"
    proof (cases "neg c")
      case True
      then obtain le ttl ts where b: "ce_body c = NegBody le ttl ts" using wf(2) by (auto elim: cent_shapeE)
      let ?d = "c\<lparr> ce_body := NegBody le ttl 0 \<rparr>"
      have "cent_wf ?d" using wf(1) b by (simp add: cent_wf_def cent_size_def slots_def cent_shape_def)
      note k = clear_auth_props [OF this]
      have sl: "slot ?d j = None" "slot c j = None" for j using b by (simp_all add: slot_def slots_def)
      have "outdated_cent c (?clr ?d)" using k(1,2) b sl by (simp add: outdated_cent_def)
      moreover have "cent_items a (?clr ?d) = cent_items a c" for a using k(3) [of a] b by (simp add: cent_items_def)
      ultimately show ?thesis using that [of ?d] True b by simp
    next
      case False
      have ix: "\<forall>i \<in> set [0..<length (slots c)]. i < length (slots c)" "distinct [0..<length (slots c)]" by simp_all
      obtain d where d: "invalidate_slots [0..<length (slots c)] c = Some d" "cent_wf d" "ce_flags d = ce_flags c" "ce_qname d = ce_qname c"
        "ce_cs d = ce_cs c" "\<forall>a. cent_items a d = cent_items a c"
        "\<forall>j. slot d j = (if j \<in> set [0..<length (slots c)] then map_option outdated (slot c j) else slot c j)"
        using invalidate_slots_spec [OF wf(1) False ix] by blast
      note k = clear_auth_props [OF d(2)]
      have sl: "slot d j = map_option outdated (slot c j)" for j
        using d(7) by (cases "j < length (slots c)") (auto simp: slot_def)
      have "?clr d = c\<lparr> ce_flags := ce_flags c AND NOT DF_AUTH, ce_body := ce_body (?clr d) \<rparr>"
        using invalidate_slots_body [OF d(1)] by (cases c; cases d) simp
      then have "outdated_cent c (?clr d)" using k(1,2) d sl False by (simp add: outdated_cent_def)
      moreover have "cent_items a (?clr d) = cent_items a c" for a using k(3) [of a] d(6) by simp
      ultimately show ?thesis using that [of d] False d(1,5) RRARR_LEN_eq [OF wf(2)] by simp
    qed
    have l: "linked (?clr d)" by (rule outdated_linked [OF d(2) wf(2) wf(5)]) simp
    have o: "cent_wf (?clr d)" "ce_qname (?clr d) = ce_qname c" using d(2) unfolding outdated_cent_def by blast+
    have ch: "changed ?A {} a (?clr d) \<sigma> (put a (?clr d) \<sigma>)"
      by (rule changed_put [OF I c(1) _ o l d(4)]) (use d(3) in blast)
    have "invalidate_record nm \<sigma> = Some (put a (?clr d) \<sigma>)"
      using lk Some c(1) d(1) by (simp add: invalidate_record_def)
    moreover have "cache_inv (put a (?clr d) \<sigma>)" using ch c(2) by (simp add: changed_def cache_inv_def insert_absorb)
    ultimately show ?thesis using Some c(1) d(2) ch unfolding changed_def
      by (intro exI [of _ "put a (?clr d) \<sigma>"]) auto
  qed
qed

subsection \<open>Setting flags\<close>

lemma set_flags_props:
  assumes "cent_wf c" "\<not> has fl DF_NEGATIVE" "linked c"
  shows "cent_wf (c\<lparr> ce_flags := ce_flags c OR fl \<rparr>)" "linked (c\<lparr> ce_flags := ce_flags c OR fl \<rparr>)"
    "cent_items a (c\<lparr> ce_flags := ce_flags c OR fl \<rparr>) = cent_items a c"
proof -
  let ?c = "c\<lparr> ce_flags := ce_flags c OR fl \<rparr>"
  have sl: "slot ?c j = slot c j" for j by (simp add: slot_def slots_def)
  show "cent_items a ?c = cent_items a c" unfolding cent_items_def sl by simp
  have "cent_shape ?c = cent_shape c" using assms(2) by (simp add: cent_shape_def split: cent_body.split)
  then show "cent_wf ?c" using assms(1) by (simp add: cent_wf_def cent_size_def slots_def)
  show "linked ?c" using assms(3) unfolding linked_def sl by (auto split: cent_body.splits)
qed

theorem set_cent_flags_spec:
  assumes "cache_inv \<sigma>" "valid_name nm" "\<not> has fl DF_NEGATIVE"
  shows "\<exists>\<sigma>'. set_cent_flags nm fl \<sigma> = Some (tabm \<sigma> (key_of nm) \<noteq> None, \<sigma>') \<and> cache_inv \<sigma>' \<and> tabm \<sigma>' = tabm \<sigma> \<and>
    (case tabm \<sigma> (key_of nm) of None \<Rightarrow> \<sigma>' = \<sigma>
     | Some a \<Rightarrow> \<exists>c. cents \<sigma> a = Some c \<and> cents \<sigma>' = (cents \<sigma>)(a \<mapsto> c\<lparr> ce_flags := ce_flags c OR fl \<rparr>))"
proof -
  let ?A = "dom (cents \<sigma>)"
  have I: "cinv ?A {} \<sigma>" using assms(1) by (simp add: cache_inv_def)
  have lk: "lookup \<sigma> nm = Some (tabm \<sigma> (key_of nm))" by (rule lookup_eq [OF I assms(2)])
  show ?thesis
  proof (cases "tabm \<sigma> (key_of nm)")
    case None
    then show ?thesis using lk assms(1) by (simp add: set_cent_flags_def)
  next
    case (Some a)
    obtain c where c: "cents \<sigma> a = Some c" "a \<in> ?A" using tabm_entry [OF I Some] by blast
    have l: "linked c" using cinv_ent(5) [OF I c(1)] by simp
    note p = set_flags_props [OF cinv_ent(1) [OF I c(1)] assms(3) l]
    let ?d = "c\<lparr> ce_flags := ce_flags c OR fl \<rparr>"
    have ch: "changed ?A {} a ?d \<sigma> (put a ?d \<sigma>)" by (rule changed_put [OF I c(1) p(3,1) _ p(2)]) simp_all
    have "set_cent_flags nm fl \<sigma> = Some (True, put a ?d \<sigma>)" using lk Some c(1) by (simp add: set_cent_flags_def)
    moreover have "cache_inv (put a ?d \<sigma>)" using ch c(2) by (simp add: changed_def cache_inv_def insert_absorb)
    ultimately show ?thesis using Some c(1) ch unfolding changed_def by (intro exI [of _ "put a ?d \<sigma>"]) auto
  qed
qed

subsection \<open>Entries that are being built\<close>

lemma add_cent_rr_loose:
  assumes "add_cent_rr_res a R c i rs \<sigma> ok c' \<sigma>'" "loose c" "cent_wf c'"
  shows "loose c'"
proof (cases "neg c'")
  case True
  then show ?thesis using assms(1,2) unfolding add_cent_rr_res_def by blast
next
  case False
  have "rs_lent r' = None" if r: "slot c' j = Some r'" for j r'
  proof (cases "j = i")
    case True
    then have "rs_lent r' = Option.bind (slot c i) rs_lent" using assms(1) r unfolding add_cent_rr_res_def by blast
    then show ?thesis using loose_slot [OF assms(2)] by (cases "slot c i") simp_all
  next
    case False
    then have "slot c j = Some r'" using assms(1) r unfolding add_cent_rr_res_def by simp
    then show ?thesis by (rule loose_slot [OF assms(2)])
  qed
  then show ?thesis using looseI False assms(3) by (simp add: cent_wf_def)
qed

text \<open>Adding a record to an entry that is not in the cache leaves the cache as it is.\<close>

lemma add_cent_rr_ok:
  assumes "cache_inv \<sigma>" "cent_wf c" "loose c" "has (ce_flags c) DF_LOCAL \<longrightarrow> has fl CF_LOCAL"
    "0 \<le> tp - T_MIN" "tp - T_MIN < int T_NUM" "rrlkup tp = Some i" "i < NRRTOT"
  shows "\<exists>ok c' \<sigma>'. add_cent_rr c tp ttl ts fl d \<sigma> = Some (ok, c', \<sigma>') \<and> cent_wf c' \<and> loose c' \<and> ce_qname c' = ce_qname c \<and>
    (\<forall>j. j \<noteq> i \<longrightarrow> slot c' j = slot c j) \<and> (ok \<longrightarrow> slot c' i = Some (merged_set (slot c i) ttl ts fl d)) \<and>
    (no_fail \<sigma> \<longrightarrow> ok \<and> no_fail \<sigma>') \<and> cache_inv \<sigma>' \<and> cents \<sigma>' = cents \<sigma> \<and>
    frame \<sigma> \<sigma>' \<and> ce_flags c' \<in> {ce_flags c, ce_flags (pos_cent c)}"
proof -
  have I: "cinv (dom (cents \<sigma>)) {} \<sigma>" using assms(1) by (simp add: cache_inv_def)
  have h: "held (next_id \<sigma>) c (rest (next_id \<sigma>) (cents \<sigma>)) \<sigma>" by (rule held_fresh [OF I fresh_addr [OF I] assms(3)])
  have loc: "\<not> (has (ce_flags c) DF_LOCAL \<and> \<not> has fl CF_LOCAL)" using assms(4) by blast
  obtain ok c' \<sigma>' where r: "add_cent_rr c tp ttl ts fl d \<sigma> = Some (ok, c', \<sigma>')"
    "add_cent_rr_res (next_id \<sigma>) (rest (next_id \<sigma>) (cents \<sigma>)) c i (merged_set (slot c i) ttl ts fl d) \<sigma> ok c' \<sigma>'"
    using add_cent_rr_spec [OF assms(2) h loc assms(5-8), of ttl ts d] by blast
  have wf: "cent_wf c'" and fr: "frame \<sigma> \<sigma>'" and hd: "held (next_id \<sigma>) c' (rest (next_id \<sigma>) (cents \<sigma>)) \<sigma>'"
    using r(2) by (simp_all add: add_cent_rr_res_def)
  have lo: "loose c'" by (rule add_cent_rr_loose [OF r(2) assms(3) wf])
  have "rrl_ok (items (cents \<sigma>)) (rrl \<sigma>') (next_id \<sigma>')"
    using hd loose_items [OF lo, of "next_id \<sigma>"] rest_fresh [of "cents \<sigma>" "next_id \<sigma>", OF fresh_addr [OF I]] by (simp add: held_def)
  moreover note f = frameD [OF fr]
  moreover have "qn \<sigma>' = qn \<sigma>" using f(1) by (simp add: qn_def fun_eq_iff)
  ultimately have "cache_inv \<sigma>'" using I by (simp add: cache_inv_def cinv_def entries_ok_def)
  then show ?thesis using r f(1) lo fr unfolding add_cent_rr_res_def
    by (intro exI [of _ ok] exI [of _ c'] exI [of _ \<sigma>'] conjI) simp_all
qed

subsection \<open>Reverse records\<close>

text \<open>
  The PTR records \<open>add_reverse_cache\<close> adds for the addresses of an entry. The NS and SOA sets of the
  entry, which the code shares with each of the new entries while it is added, are assumed away: the
  number of RR sets of an entry would then not count them.
\<close>

definition reversible :: "dns_cent \<Rightarrow> bool" where
  "reversible c = (cent_wf c \<and> slot c RRMUINDEX_NS = None \<and> slot c RRMUINDEX_SOA = None \<and>
     (\<forall>i rs. slot c i = Some rs \<and> i \<in> {0, 7} \<longrightarrow> (has (ce_flags c) DF_LOCAL \<longrightarrow> has (rs_flags rs) CF_LOCAL) \<and>
        (\<forall>d \<in> set (rs_rrs rs). length d = (if i = 0 then 4 else 16))))"

definition addresses :: "dns_cent \<Rightarrow> nat" where
  "addresses c = (\<Sum>i \<leftarrow> [0, 7]. case slot c i of None \<Rightarrow> 0 | Some rs \<Rightarrow> length (rs_rrs rs))"

lemma ptr_slot: "0 \<le> T_PTR - T_MIN" "T_PTR - T_MIN < int T_NUM" "rrlkup T_PTR = Some 4" "(4::nat) < NRRTOT"
  by code_simp+

lemma share_none:
  assumes "cent_shape ce" "cent_shape c" "\<not> neg ce" "\<not> neg c" "slot c 1 = None" "slot c 3 = None" "slot ce 1 = None" "slot ce 3 = None"
  shows "share_ns_soa ce c = Some ce"
proof -
  obtain mu ext where e: "ce_body ce = RRBody mu ext" "length mu = NRRMU"
    using assms(1,3) by (auto simp: cent_shape_def split: cent_body.splits)
  obtain cmu cext where c: "ce_body c = RRBody cmu cext" "length cmu = NRRMU"
    using assms(2,4) by (auto simp: cent_shape_def split: cent_body.splits)
  have m: "mu ! i = slot ce i" "cmu ! i = slot c i" if "i < NRRMU" for i
    using that e c assms(3,4) by (auto simp: slot_def slots_def nth_append split: option.splits)
  have "mu ! 1 = None" "mu ! 3 = None" "cmu ! 1 = None" "cmu ! 3 = None" using m [of 1] m [of 3] assms(5-8) by simp_all
  then have "mu[1 := cmu ! 1, 3 := cmu ! 3] = mu" by (metis list_update_id)
  then show ?thesis using e(1) c(1) by (simp add: share_ns_soa_def)
qed

lemma add_ptr_ok:
  assumes "cache_inv \<sigma>" "cent_wf c" "\<not> neg c" "slot c 1 = None" "slot c 3 = None" "has (ce_flags c) DF_LOCAL \<longrightarrow> has (rs_flags rs) CF_LOCAL"
    "tp = T_A \<and> length d = 4 \<or> tp = T_AAAA \<and> length d = 16" "card (items (cents \<sigma>)) + NRRTOT < 2 ^ 32"
  shows "\<exists>ok \<sigma>'. add_ptr now conf c rs tp d \<sigma> = Some (ok, \<sigma>') \<and> cache_inv \<sigma>' \<and>
    card (items (cents \<sigma>')) \<le> card (items (cents \<sigma>)) + NRRTOT"
proof -
  have buf: "DNSNAMEBUFSIZE \<le> length (replicate DNSNAMEBUFSIZE (0::byte))" by simp
  obtain ls r where ls: "text_name ls" "a2ptrstr d tp (replicate DNSNAMEBUFSIZE 0) = Some (True, name_text ls @ 0 # r)"
    using a2ptrstr_spec [OF _ buf, of tp d "if tp = T_A then ptr_labels4 d else ptr_labels6 d"] assms(7) by auto
  have "0 \<notin> set (dotted ks)" if "list_all text_label ks" for ks using that by (induction ks) (auto simp: text_label_def)
  then have z: "0 \<notin> set (name_text ls)" using ls(1) by (auto simp: name_text_def text_name_def)
  define rhn where "rhn = enc ls @ drop (length (enc ls)) (replicate DNSNAMEBUFSIZE (0::byte))"
  have s: "str2rhn (name_text ls @ 0 # r) (replicate DNSNAMEBUFSIZE 0) = Some (True, rhn)"
    using str2rhn_spec [OF z buf, of r] ls(1) by (auto simp: rhn_def)
  have v: "valid_name (enc ls)" by (rule valid_name_enc [OF text_name_wire [OF ls(1)]])
  obtain r1 \<sigma>1 where i: "init_cent rhn 0 0 (ce_flags c) \<sigma> = Some (r1, \<sigma>1)" "frame \<sigma> \<sigma>1" "rrl \<sigma>1 = rrl \<sigma>"
    "r1 \<in> {None, Some (new_cent (enc ls) 0 0 (ce_flags c))}"
    using init_cent_spec [OF v, of "drop (length (enc ls)) (replicate DNSNAMEBUFSIZE 0)" 0 0 "ce_flags c" \<sigma>] unfolding rhn_def by blast
  have \<sigma>1: "cache_inv \<sigma>1" "cents \<sigma>1 = cents \<sigma>"
    using assms(1) i(2,3) cinv_frame unfolding cache_inv_def by (auto simp: frameD)
  note pre = ls(2) s i(1)
  show ?thesis
  proof (cases r1)
    case None
    then show ?thesis using pre \<sigma>1 by (auto simp: add_ptr_def)
  next
    case (Some ce0)
    then have ce0: "ce0 = new_cent (enc ls) 0 0 (ce_flags c)" using i(4) by simp
    note np = new_cent_props [OF v, of 0 0 "ce_flags c", folded ce0]
    have vq: "valid_name (ce_qname c)" "cent_shape c" using assms(2) by (simp_all add: cent_wf_def)
    have nm: "rhnlen (ce_qname c) = Some (length (ce_qname c))" "rdn (ce_qname c) 0 (length (ce_qname c)) = Some (ce_qname c)"
      using vq(1) by (auto elim!: valid_nameE simp: name_simps rdn_def)
    obtain ok ce \<sigma>2 where a: "add_cent_rr ce0 T_PTR (rs_ttl rs) (rs_ts rs) (rs_flags rs) (ce_qname c) \<sigma>1 = Some (ok, ce, \<sigma>2)"
      "cent_wf ce" "loose ce" "\<forall>j. j \<noteq> 4 \<longrightarrow> slot ce j = slot ce0 j" "cache_inv \<sigma>2" "cents \<sigma>2 = cents \<sigma>1"
      "ce_flags ce \<in> {ce_flags ce0, ce_flags (pos_cent ce0)}"
      using add_cent_rr_ok [OF \<sigma>1(1) np(1,2) _ ptr_slot, of "rs_flags rs" "rs_ttl rs" "rs_ts rs" "ce_qname c"] assms(6) np(5) by auto
    have sh: "cent_shape ce" using a(2) by (simp add: cent_wf_def)
    note fr = free_cent_loose [OF sh a(3)]
    note run = pre Some nm a(1) fr
    show ?thesis
    proof (cases ok)
      case False
      then show ?thesis using run a(5,6) \<sigma>1(2) by (auto simp: add_ptr_def)
    next
      case True
      have "\<not> neg ce" using a(7) np(5) assms(3) by (auto simp: pos_cent_def)
      then have sn: "share_ns_soa ce c = Some ce"
        by (rule share_none [OF sh vq(2) _ assms(3-5)]) (use a(4) np(3) in simp_all)
      obtain \<sigma>3 where "add_cache now conf ce \<sigma>2 = Some \<sigma>3" "cache_inv \<sigma>3" "card (items (cents \<sigma>3)) \<le> card (items (cents \<sigma>2)) + NRRTOT"
        using add_cache_spec [OF a(5,2), of now conf] assms(8) a(6) \<sigma>1(2) by (auto simp: added_def)
      moreover have "free_cent ce \<sigma>3 = Some \<sigma>3" by (rule free_cent_loose [OF sh a(3)])
      ultimately show ?thesis using run True sn a(6) \<sigma>1(2) by (auto simp: add_ptr_def)
    qed
  qed
qed

lemma add_ptrs_ok:
  assumes "cent_wf c" "\<not> neg c" "slot c 1 = None" "slot c 3 = None" "has (ce_flags c) DF_LOCAL \<longrightarrow> has (rs_flags rs) CF_LOCAL"
    "tp = T_A \<and> (\<forall>d \<in> set ds. length d = 4) \<or> tp = T_AAAA \<and> (\<forall>d \<in> set ds. length d = 16)"
  shows "cache_inv \<sigma> \<Longrightarrow> card (items (cents \<sigma>)) + length ds * NRRTOT < 2 ^ 32 \<Longrightarrow>
    \<exists>ok \<sigma>'. add_ptrs now conf c rs tp ds \<sigma> = Some (ok, \<sigma>') \<and> cache_inv \<sigma>' \<and>
      card (items (cents \<sigma>')) \<le> card (items (cents \<sigma>)) + length ds * NRRTOT"
  using assms(6)
proof (induction ds arbitrary: \<sigma>)
  case (Cons d ds)
  have "tp = T_A \<and> length d = 4 \<or> tp = T_AAAA \<and> length d = 16" using Cons.prems(3) by auto
  then obtain ok \<sigma>1 where a: "add_ptr now conf c rs tp d \<sigma> = Some (ok, \<sigma>1)" "cache_inv \<sigma>1"
    "card (items (cents \<sigma>1)) \<le> card (items (cents \<sigma>)) + NRRTOT"
    using add_ptr_ok [OF Cons.prems(1) assms(1-5), of tp d now conf] Cons.prems(2) by auto
  show ?case
  proof (cases ok)
    case True
    have "card (items (cents \<sigma>1)) + length ds * NRRTOT < 2 ^ 32" using a(3) Cons.prems(2) by simp
    then obtain ok2 \<sigma>2 where "add_ptrs now conf c rs tp ds \<sigma>1 = Some (ok2, \<sigma>2)" "cache_inv \<sigma>2"
      "card (items (cents \<sigma>2)) \<le> card (items (cents \<sigma>1)) + length ds * NRRTOT"
      using Cons.IH [OF a(2)] Cons.prems(3) by auto
    then show ?thesis using a True by simp
  qed (use a in auto)
qed auto

lemma add_reverse_cache_ok:
  assumes "cache_inv \<sigma>" "reversible c" "card (items (cents \<sigma>)) + addresses c * NRRTOT < 2 ^ 32"
  shows "\<exists>ok \<sigma>'. add_reverse_cache now conf c \<sigma> = Some (ok, \<sigma>') \<and> cache_inv \<sigma>' \<and>
    card (items (cents \<sigma>')) \<le> card (items (cents \<sigma>)) + addresses c * NRRTOT"
proof -
  have wf: "cent_wf c" "cent_shape c" "slot c 1 = None" "slot c 3 = None" using assms(2) by (simp_all add: reversible_def cent_wf_def)
  have g: "GET_RRSMU c 0 = Some (slot c 0)" "GET_RRSMU c 7 = Some (slot c 7)" by (rule GET_RRSMU_eq [OF wf(2)]; simp)+
  define n where "n j = (case slot c j of None \<Rightarrow> 0 | Some rs \<Rightarrow> length (rs_rrs rs))" for j
  have ad: "addresses c = n 0 + n 7" by (simp add: addresses_def n_def)
  have one: "\<exists>ok \<sigma>'. (case slot c j of None \<Rightarrow> Some (True, \<tau>) | Some rs \<Rightarrow> add_ptrs now conf c rs tp (rs_rrs rs) \<tau>) = Some (ok, \<sigma>') \<and>
      cache_inv \<sigma>' \<and> card (items (cents \<sigma>')) \<le> card (items (cents \<tau>)) + n j * NRRTOT"
    if j: "j = 0 \<and> tp = T_A \<or> j = 7 \<and> tp = T_AAAA" and t: "cache_inv \<tau>" "card (items (cents \<tau>)) + n j * NRRTOT < 2 ^ 32" for j tp \<tau>
  proof (cases "slot c j")
    case (Some rs)
    have l: "has (ce_flags c) DF_LOCAL \<longrightarrow> has (rs_flags rs) CF_LOCAL" "\<forall>d \<in> set (rs_rrs rs). length d = (if j = 0 then 4 else 16)"
      using assms(2) Some j unfolding reversible_def by blast+
    have "tp = T_A \<and> (\<forall>d \<in> set (rs_rrs rs). length d = 4) \<or> tp = T_AAAA \<and> (\<forall>d \<in> set (rs_rrs rs). length d = 16)"
      using l(2) j by auto
    from add_ptrs_ok [OF wf(1) _ wf(3,4) l(1) this t(1), of now conf] show ?thesis
      using t(2) Some slot_Some_rr [OF wf(2) Some] by (simp add: n_def)
  qed (use t in auto)
  obtain ok \<sigma>1 where 1: "(case slot c 0 of None \<Rightarrow> Some (True, \<sigma>) | Some rs \<Rightarrow> add_ptrs now conf c rs T_A (rs_rrs rs) \<sigma>) = Some (ok, \<sigma>1)"
    "cache_inv \<sigma>1" "card (items (cents \<sigma>1)) \<le> card (items (cents \<sigma>)) + n 0 * NRRTOT"
    using one [of 0 T_A \<sigma>] assms(1,3) ad by (auto simp: algebra_simps)
  have "card (items (cents \<sigma>1)) + n 7 * NRRTOT < 2 ^ 32" using 1(3) assms(3) ad by (simp add: algebra_simps)
  then obtain ok2 \<sigma>2 where 2: "(case slot c 7 of None \<Rightarrow> Some (True, \<sigma>1) | Some rs \<Rightarrow> add_ptrs now conf c rs T_AAAA (rs_rrs rs) \<sigma>1) = Some (ok2, \<sigma>2)"
    "cache_inv \<sigma>2" "card (items (cents \<sigma>2)) \<le> card (items (cents \<sigma>1)) + n 7 * NRRTOT"
    using one [of 7 T_AAAA \<sigma>1] 1(2) by auto
  have "card (items (cents \<sigma>2)) \<le> card (items (cents \<sigma>)) + addresses c * NRRTOT"
    "card (items (cents \<sigma>1)) \<le> card (items (cents \<sigma>)) + addresses c * NRRTOT"
    using 1(3) 2(3) ad by (simp_all add: algebra_simps)
  then show ?thesis using 1(1,2) 2 g by (cases ok) (auto simp: add_reverse_cache_def)
qed
end
