(* ===== verification/Pd_RecvSpec.thy ===== *)
theory Pd_RecvSpec
  imports Pd_Recv Pd_ComposeSpec Pd_CacheOps
begin

text \<open>
  Reading replies: a decoder accepts the data of a record exactly if they consist of the parts the
  type asks for, and \<open>rrs2cent\<close> handles every message without an access outside its objects, building
  entries whose data have the layout of their types.
\<close>

subsection \<open>Data in a message\<close>

text \<open>The parts of the data from \<open>i\<close> to \<open>j\<close>, names possibly compressed.\<close>

fun wire_at :: "byte list \<Rightarrow> nat \<Rightarrow> rpart list \<Rightarrow> nat \<Rightarrow> bool" where
  "wire_at m i [] j = (i = j)"
| "wire_at m i (Raw b # ps) j =
     (i + length b \<le> length m \<and> take (length b) (drop i m) = b \<and> wire_at m (i + length b) ps j)"
| "wire_at m i (Dom ks # ps) j =
     (\<exists>h n. name_at m i ks h n \<and> h \<le> 255 \<and> wire_name ks \<and> wire_at m (i + n) ps j)"

lemma wire_at_le: "wire_at m i ps j \<Longrightarrow> i \<le> j"
  by (induction m i ps j rule: wire_at.induct) (auto dest: add_leD1)

lemma wire_at_wf: "wire_at m i ps j \<Longrightarrow> list_all part_wf ps"
  by (induction m i ps j rule: wire_at.induct) auto

text \<open>The layout, with the lengths \<open>rrs2cent\<close> checks.\<close>

definition wire_layout :: "int \<Rightarrow> rpart list \<Rightarrow> bool" where
  "wire_layout tp ps = (layout tp ps \<and> (tp = T_A \<longrightarrow> length (enc_parts ps) = 4) \<and>
     (tp = T_AAAA \<longrightarrow> length (enc_parts ps) = 16) \<and> (tp = T_NXT \<longrightarrow> length (enc_parts ps) \<le> 1040))"

text \<open>The outcome of a decoder that has the bytes \<open>pre\<close> already, for the layout \<open>L\<close> of the rest.\<close>

definition dec_post :: "byte list \<Rightarrow> nat \<Rightarrow> nat \<Rightarrow> byte list \<Rightarrow> (rpart list \<Rightarrow> bool) \<Rightarrow> dec_res \<Rightarrow> bool" where
  "dec_post m p cnt pre L r = (\<exists>x. r = Some x \<and> (case x of
       Inl e \<Rightarrow> e = RC_FORMAT \<and> \<not> (\<exists>ps. L ps \<and> wire_at m p ps (p + cnt))
     | Inr d \<Rightarrow> \<exists>ps. L ps \<and> wire_at m p ps (p + cnt) \<and> d = pre @ enc_parts ps))"

lemma dec_post_fail: "\<not> (\<exists>ps. L ps \<and> wire_at m p ps (p + cnt)) \<Longrightarrow> dec_post m p cnt pre L (Some (Inl RC_FORMAT))"
  by (simp add: dec_post_def)

lemma dec_post_end:
  assumes "slen \<le> length db" "take slen db = pre" "\<And>ps. L ps = (ps = [])"
  shows "dec_post m p cnt pre L (data_end cnt db slen)"
  using assms by (auto simp: dec_post_def data_end_def rdn_def)

lemma dec_post_raw:
  assumes "p + cnt \<le> length m" "n \<le> cnt" "\<And>ps. L ps \<Longrightarrow> \<exists>b r. ps = Raw b # r \<and> length b = n"
    "dec_post m (p + n) (cnt - n) (pre @ take n (drop p m)) (\<lambda>ps. L (Raw (take n (drop p m)) # ps)) r"
  shows "dec_post m p cnt pre L r"
proof -
  let ?b = "take n (drop p m)"
  have l: "length ?b = n" "p + n \<le> length m" using assms(1,2) by auto
  have e: "p + n + (cnt - n) = p + cnt" using assms(2) by simp
  obtain x where x: "r = Some x" "case x of Inl e \<Rightarrow> e = RC_FORMAT \<and> \<not> (\<exists>ps. L (Raw ?b # ps) \<and> wire_at m (p + n) ps (p + cnt))
     | Inr d \<Rightarrow> \<exists>ps. L (Raw ?b # ps) \<and> wire_at m (p + n) ps (p + cnt) \<and> d = (pre @ ?b) @ enc_parts ps"
    using assms(4) unfolding dec_post_def e by blast
  show ?thesis
  proof (cases x)
    case (Inl e)
    have "\<not> (L ps \<and> wire_at m p ps (p + cnt))" for ps
      using assms(3) [of ps] x(2) Inl by auto
    then show ?thesis using x Inl by (simp add: dec_post_def)
  next
    case (Inr d)
    then obtain ps where "L (Raw ?b # ps)" "wire_at m (p + n) ps (p + cnt)" "d = (pre @ ?b) @ enc_parts ps" using x(2) by auto
    then show ?thesis using x(1) Inr l unfolding dec_post_def
      by (intro exI [of _ x]) (auto intro!: exI [of _ "Raw ?b # ps"])
  qed
qed

text \<open>A name the code can decompress, with the number of bytes it takes.\<close>

definition readable :: "byte list \<Rightarrow> nat \<Rightarrow> label list \<Rightarrow> nat \<Rightarrow> bool" where
  "readable m p ls n = (\<exists>h. name_at m p ls h n \<and> h \<le> 255 \<and> wire_name ls)"

lemma readable_len: "readable m p ls n \<Longrightarrow> length (enc ls) \<le> DNSNAMEBUFSIZE"
  by (auto simp: readable_def wire_name_def)

lemma readable_unique: "readable m p ls n \<Longrightarrow> readable m p ls' n' \<Longrightarrow> ls' = ls \<and> n' = n"
  unfolding readable_def using name_at_unique by blast

lemma decompress_readable:
  assumes "DNSNAMEBUFSIZE \<le> length tgt"
  obtains (ok) ls n where "readable m p ls n" "n \<le> cnt"
      "decompress_name m p cnt tgt = Some (RC_OK, p + n, cnt - n, enc ls @ drop (length (enc ls)) tgt, Some (length (enc ls)))"
    | (err) rc tgt' where "rc \<in> {RC_FORMAT, RC_TRUNC}" "length tgt' = length tgt"
      "decompress_name m p cnt tgt = Some (rc, p, cnt, tgt', None)" "\<And>ls n. readable m p ls n \<Longrightarrow> \<not> n \<le> cnt"
proof -
  let ?ok = "\<exists>ls h n. name_at m p ls h n \<and> h \<le> 255 \<and> n \<le> cnt \<and> length (enc ls) \<le> DNSNAMEBUFSIZE"
  obtain rc src' sz' tgt' len where d: "decompress_name m p cnt tgt = Some (rc, src', sz', tgt', len)" "length tgt' = length tgt"
    "if ?ok then rc = RC_OK \<and> (\<exists>ls h n. name_at m p ls h n \<and> wire_name ls \<and> n \<le> cnt \<and>
            src' = p + n \<and> sz' = cnt - n \<and> len = Some (length (enc ls)) \<and> tgt' = enc ls @ drop (length (enc ls)) tgt)
       else rc \<in> {RC_FORMAT, RC_TRUNC} \<and> src' = p \<and> sz' = cnt \<and> len = None"
    using decompress_name_spec [OF assms, of m p cnt] by (elim exE conjE) (rule that)
  show ?thesis
  proof (cases ?ok)
    case True
    obtain ls0 h0 n0 where n0: "name_at m p ls0 h0 n0" "h0 \<le> 255" using True by blast
    obtain ls h n where n: "name_at m p ls h n" "wire_name ls" "n \<le> cnt" "rc = RC_OK" "src' = p + n" "sz' = cnt - n"
      "len = Some (length (enc ls))" "tgt' = enc ls @ drop (length (enc ls)) tgt"
      using d(3) True by (simp only: if_True) blast
    have "h = h0" using name_at_unique [OF n0(1) n(1)] by simp
    then have "readable m p ls n" using n n0 by (auto simp: readable_def)
    then show ?thesis using ok n d(1) by simp
  next
    case False
    then have "\<not> n \<le> cnt" if "readable m p ls n" for ls n using that by (auto simp: readable_def wire_name_def)
    then show ?thesis using err [of rc tgt'] d False by simp
  qed
qed

lemma wire_at_Dom: "wire_at m i (Dom ks # ps) j = (\<exists>n. readable m i ks n \<and> wire_at m (i + n) ps j)"
  by (auto simp: readable_def)

lemma dec_post_name:
  assumes "off + DNSNAMEBUFSIZE \<le> length db" "take off db = pre" "\<And>ps. L ps \<Longrightarrow> \<exists>ls r. ps = Dom ls # r"
    "\<And>ls n db'. readable m p ls n \<Longrightarrow> n \<le> cnt \<Longrightarrow> length db' = length db \<Longrightarrow>
       take (off + length (enc ls)) db' = pre @ enc ls \<Longrightarrow>
       dec_post m (p + n) (cnt - n) (pre @ enc ls) (\<lambda>ps. L (Dom ls # ps)) (k (p + n) (cnt - n) db' (length (enc ls)))"
  shows "dec_post m p cnt pre L (name_into m p cnt db off k)"
proof -
  have r: "DNSNAMEBUFSIZE \<le> length (drop off db)" and off: "off \<le> length db" using assms(1) by auto
  from r show ?thesis
  proof (cases rule: decompress_readable [where m = m and p = p and cnt = cnt])
    case (ok ls n)
    let ?db = "take off db @ enc ls @ drop (length (enc ls)) (drop off db)"
    have le: "length (enc ls) \<le> DNSNAMEBUFSIZE" using ok(1) by (auto simp: readable_def wire_name_def)
    have run: "name_into m p cnt db off k = k (p + n) (cnt - n) ?db (length (enc ls))"
      using ok(3) off by (simp add: name_into_def)
    have "take (off + length (enc ls)) ?db = pre @ enc ls" "length ?db = length db"
      using assms(1,2) off le by auto
    from assms(4) [OF ok(1,2) this(2,1)]
    have D: "dec_post m (p + n) (cnt - n) (pre @ enc ls) (\<lambda>ps. L (Dom ls # ps)) (name_into m p cnt db off k)" by (simp only: run)
    have e: "p + n + (cnt - n) = p + cnt" using ok(2) by simp
    obtain x where x: "name_into m p cnt db off k = Some x"
      "case x of Inl e \<Rightarrow> e = RC_FORMAT \<and> \<not> (\<exists>ps. L (Dom ls # ps) \<and> wire_at m (p + n) ps (p + cnt))
         | Inr d \<Rightarrow> \<exists>ps. L (Dom ls # ps) \<and> wire_at m (p + n) ps (p + cnt) \<and> d = (pre @ enc ls) @ enc_parts ps"
      using D unfolding dec_post_def e by blast
    show ?thesis
    proof (cases x)
      case (Inl e)
      have "\<not> (L ps \<and> wire_at m p ps (p + cnt))" for ps
      proof
        assume a: "L ps \<and> wire_at m p ps (p + cnt)"
        then obtain ls' r where ps: "ps = Dom ls' # r" using assms(3) by blast
        then obtain n' where "readable m p ls' n'" "wire_at m (p + n') r (p + cnt)" using a unfolding ps wire_at_Dom by blast
        then show False using readable_unique [OF ok(1), of ls' n'] x(2) Inl a ps by auto
      qed
      then show ?thesis using x Inl by (simp add: dec_post_def)
    next
      case (Inr d)
      then obtain ps where "L (Dom ls # ps)" "wire_at m (p + n) ps (p + cnt)" "d = (pre @ enc ls) @ enc_parts ps" using x(2) by auto
      then show ?thesis using x(1) Inr ok(1) unfolding dec_post_def
        by (intro exI [of _ x]) (auto simp del: wire_at.simps simp: wire_at_Dom intro!: exI [of _ "Dom ls # ps"])
    qed
  next
    case (err rc tgt')
    have "\<not> (L ps \<and> wire_at m p ps (p + cnt))" for ps
    proof
      assume a: "L ps \<and> wire_at m p ps (p + cnt)"
      then obtain ls' r where ps: "ps = Dom ls' # r" using assms(3) by blast
      then obtain n' where n: "readable m p ls' n'" "wire_at m (p + n') r (p + cnt)" using a unfolding ps wire_at_Dom by blast
      then show False using err(4) [OF n(1)] wire_at_le [OF n(2)] by simp
    qed
    moreover have "name_into m p cnt db off k = Some (Inl RC_FORMAT)" using err(1,3) off by (auto simp: name_into_def)
    ultimately show ?thesis by (simp add: dec_post_def)
  qed
qed

text \<open>The decoders of the types with names.\<close>

lemma dec_name_post:
  "p + cnt \<le> length m \<Longrightarrow> dec_post m p cnt [] (\<lambda>ps. \<exists>a. ps = [Dom a]) (dec_name E m p cnt)"
  unfolding dec_name_def by (intro dec_post_name dec_post_end) (auto dest!: readable_len)

lemma dec_two_names_post:
  "p + cnt \<le> length m \<Longrightarrow> dec_post m p cnt [] (\<lambda>ps. \<exists>a b. ps = [Dom a, Dom b]) (dec_two_names E m p cnt)"
  unfolding dec_two_names_def
  by (intro dec_post_name dec_post_end) (auto dest!: readable_len)

lemma dec_pref_name_post:
  assumes "p + cnt \<le> length m"
  shows "dec_post m p cnt [] (\<lambda>ps. \<exists>b a. ps = [Raw b, Dom a] \<and> length b = n) (dec_pref_name E n m p cnt)"
proof (cases "cnt < n")
  case True
  then show ?thesis by (auto simp: dec_pref_name_def dest: wire_at_le intro!: dec_post_fail)
next
  case False
  let ?b = "take n (drop p m)"
  have b: "rdn m p n = Some ?b" "length ?b = n" using assms False by (simp_all add: rdn_def)
  have w: "wrn (fresh E 0 (n + DNSNAMEBUFSIZE)) 0 ?b = Some (splice (fresh E 0 (n + DNSNAMEBUFSIZE)) 0 ?b)"
    using b(2) by (intro wrn_splice) simp
  have t: "take n (splice (fresh E 0 (n + DNSNAMEBUFSIZE)) 0 ?b) = ?b"
    "length (splice (fresh E 0 (n + DNSNAMEBUFSIZE)) 0 ?b) = n + DNSNAMEBUFSIZE" using b(2) by (simp_all add: splice_def)
  have "dec_pref_name E n m p cnt = name_into m (p + n) (cnt - n) (splice (fresh E 0 (n + DNSNAMEBUFSIZE)) 0 ?b) n
      (\<lambda>bptr blcnt db len. data_end blcnt db (n + len))"
    using False b w by (simp add: dec_pref_name_def)
  moreover have "dec_post m (p + n) (cnt - n) ?b (\<lambda>ps. \<exists>a. ps = [Dom a]) (name_into m (p + n) (cnt - n)
      (splice (fresh E 0 (n + DNSNAMEBUFSIZE)) 0 ?b) n (\<lambda>bptr blcnt db len. data_end blcnt db (n + len)))"
    by (intro dec_post_name dec_post_end) (use t in \<open>auto dest!: readable_len\<close>)
  ultimately show ?thesis using assms False b(2)
    by (intro dec_post_raw [of p cnt m n]) auto
qed

lemma dec_soa_post:
  assumes "p + cnt \<le> length m"
  shows "dec_post m p cnt [] (\<lambda>ps. \<exists>a b n. ps = [Dom a, Dom b, Raw n] \<and> length n = 20) (dec_soa E m p cnt)"
proof -
  have fin: "dec_post m q c pre L
      (if c < 20 then Some (Inl RC_FORMAT)
       else do { rest \<leftarrow> rdn m q 20; db \<leftarrow> wrn db k rest; data_end (c - 20) db (k + 20) })"
    if a: "q + c \<le> length m" "k + 20 \<le> length db" "take k db = pre"
      "\<And>ps. L ps = (\<exists>n. ps = [Raw n] \<and> length n = 20)" for q c pre db k L
  proof (cases "c < 20")
    case True
    then show ?thesis using a(4) by (auto dest: wire_at_le intro!: dec_post_fail)
  next
    case False
    let ?b = "take 20 (drop q m)"
    have b: "rdn m q 20 = Some ?b" "length ?b = 20" using a(1) False by (simp_all add: rdn_def)
    have w: "wrn db k ?b = Some (splice db k ?b)" using b(2) a(2) by (intro wrn_splice) simp
    have "take (k + 20) (splice db k ?b) = pre @ ?b" "length (splice db k ?b) = length db" using a b(2) by (auto simp: splice_def)
    then have "dec_post m (q + 20) (c - 20) (pre @ ?b) (\<lambda>ps. ps = []) (data_end (c - 20) (splice db k ?b) (k + 20))"
      using a(2) by (intro dec_post_end) simp_all
    then have "dec_post m (q + 20) (c - 20) (pre @ ?b) (\<lambda>ps. L (Raw ?b # ps))
        (data_end (c - 20) (splice db k ?b) (k + 20))" using b(2) a(4) by simp
    then show ?thesis using dec_post_raw [OF a(1), of 20 L pre] a(4) False b w by auto
  qed
  show ?thesis unfolding dec_soa_def
    by (intro dec_post_name fin) (use assms in \<open>auto dest!: readable_len\<close>)
qed

lemma dec_px_post:
  assumes "p + cnt \<le> length m"
  shows "dec_post m p cnt [] (\<lambda>ps. \<exists>b a c. ps = [Raw b, Dom a, Dom c] \<and> length b = 2) (dec_px E m p cnt)"
proof (cases "cnt < 2")
  case True
  then show ?thesis by (auto simp: dec_px_def dest: wire_at_le intro!: dec_post_fail)
next
  case False
  let ?b = "take 2 (drop p m)" and ?f = "fresh E 0 (2 + DNSNAMEBUFSIZE + DNSNAMEBUFSIZE)"
  have b: "rdn m p 2 = Some ?b" "length ?b = 2" using assms False by (simp_all add: rdn_def)
  have w: "wrn ?f 0 ?b = Some (splice ?f 0 ?b)" using b(2) by (intro wrn_splice) simp
  have t: "take 2 (splice ?f 0 ?b) = ?b" "length (splice ?f 0 ?b) = 2 + DNSNAMEBUFSIZE + DNSNAMEBUFSIZE"
    using b(2) by (simp_all add: splice_def)
  let ?k = "\<lambda>bptr blcnt db len1. name_into m bptr blcnt db (2 + len1) (\<lambda>bptr blcnt db len. data_end blcnt db (2 + len1 + len))"
  have "dec_px E m p cnt = name_into m (p + 2) (cnt - 2) (splice ?f 0 ?b) 2 ?k"
    using False b w by (simp add: dec_px_def)
  moreover have "dec_post m (p + 2) (cnt - 2) ?b (\<lambda>ps. \<exists>a c. ps = [Dom a, Dom c]) (name_into m (p + 2) (cnt - 2) (splice ?f 0 ?b) 2 ?k)"
    by (intro dec_post_name dec_post_end) (use t in \<open>auto dest!: readable_len simp: add.assoc\<close>)
  ultimately show ?thesis using assms False b(2)
    by (intro dec_post_raw [of p cnt m 2]) auto
qed

lemma dec_nxt_post:
  assumes "p + cnt \<le> length m"
  shows "dec_post m p cnt [] (\<lambda>ps. \<exists>a b. ps = [Dom a, Raw b] \<and> length (enc_parts ps) \<le> 1040) (dec_nxt E m p cnt)"
  unfolding dec_nxt_def
proof (rule dec_post_name)
  fix ls n db' assume a: "readable m p ls n" "n \<le> cnt" "length db' = length (fresh E 0 1040)"
    "take (0 + length (enc ls)) db' = [] @ enc ls"
  let ?L = "\<lambda>ps. \<exists>a b. Dom ls # ps = [Dom a, Raw b] \<and> length (enc_parts (Dom ls # ps)) \<le> 1040"
  let ?c = "cnt - n" and ?q = "p + n" and ?k = "length (enc ls)"
  let ?b = "take ?c (drop ?q m)"
  have b: "rdn m ?q ?c = Some ?b" "length ?b = ?c" "?q + ?c \<le> length m" using assms a(2) by (auto simp: rdn_def)
  show "dec_post m ?q ?c ([] @ enc ls) ?L
      (if ?k + ?c > 1040 then Some (Inl RC_FORMAT)
       else do { rest \<leftarrow> rdn m ?q ?c; db \<leftarrow> wrn db' ?k rest; data_end 0 db (?k + ?c) })"
  proof (cases "?k + ?c > 1040")
    case True
    have "\<not> (?L ps \<and> wire_at m ?q ps (?q + ?c))" for ps using True by auto
    then show ?thesis using True dec_post_fail [of ?L m ?q ?c] by auto
  next
    case False
    have l: "length db' = 1040" using a(3) by simp
    have w: "wrn db' ?k ?b = Some (splice db' ?k ?b)" using b(2) False l by (intro wrn_splice) simp
    have "take (?k + ?c) (splice db' ?k ?b) = enc ls @ ?b" "length (splice db' ?k ?b) = 1040"
      using a(4) b(2) l False by (auto simp: splice_def)
    then have "data_end 0 (splice db' ?k ?b) (?k + ?c) = Some (Inr (enc ls @ ?b))"
      using False by (simp add: data_end_def rdn_def)
    moreover have "?L [Raw ?b]" using False b(2) by simp
    moreover have "wire_at m ?q [Raw ?b] (?q + ?c)" using b by simp
    ultimately show ?thesis using False b(1) w unfolding dec_post_def
      by (intro exI [of _ "Inr (enc ls @ ?b)"]) (auto intro!: exI [of _ "[Raw ?b]"])
  qed
qed auto

text \<open>The strings of a \<open>T_NAPTR\<close> record: their end is found exactly if there is one.\<close>

lemma naptr_len_spec:
  "p + cnt \<le> length m \<Longrightarrow> \<exists>r. naptr_len j m p cnt len = Some r \<and>
     (\<forall>n. (len \<le> n \<and> n \<le> cnt \<and> naptr_strings j (take (n - len) (drop (p + len) m))) = (r = Some n))"
proof (induction j arbitrary: len)
  case 0
  then show ?case by auto
next
  case (Suc j)
  show ?case
  proof (cases "len \<ge> cnt")
    case True
    then show ?thesis by (auto split: list.split)
  next
    case False
    then have i: "p + len < length m" using Suc.prems by simp
    let ?l = "m ! (p + len)"
    obtain r where r: "naptr_len j m p cnt (len + unat ?l + 1) = Some r"
      "\<forall>n. (len + unat ?l + 1 \<le> n \<and> n \<le> cnt \<and> naptr_strings j (take (n - (len + unat ?l + 1)) (drop (p + (len + unat ?l + 1)) m))) = (r = Some n)"
      using Suc by blast
    have "(len \<le> n \<and> n \<le> cnt \<and> naptr_strings (Suc j) (take (n - len) (drop (p + len) m))) =
        (len + unat ?l + 1 \<le> n \<and> n \<le> cnt \<and> naptr_strings j (take (n - (len + unat ?l + 1)) (drop (p + (len + unat ?l + 1)) m)))" for n
    proof (cases "len < n \<and> n \<le> cnt")
      case True
      then have "take (n - len) (drop (p + len) m) = ?l # take (n - len - 1) (drop (p + len + 1) m)"
        using i by (simp add: Cons_nth_drop_Suc [symmetric] take_Cons')
      moreover have "length (take (n - len - 1) (drop (p + len + 1) m)) = n - len - 1"
        using True Suc.prems by (auto simp: min_def)
      moreover have "drop (unat ?l) (take (n - len - 1) (drop (p + len + 1) m)) =
          take (n - (len + unat ?l + 1)) (drop (p + (len + unat ?l + 1)) m)"
        by (simp add: drop_take add_ac)
      ultimately show ?thesis using True by auto
    next
      case False
      then show ?thesis by (cases "n = len") auto
    qed
    then show ?thesis using r False i by (intro exI [of _ r]) (simp add: rd_nth)
  qed
qed

lemma naptr_strings_length: "naptr_strings j b \<Longrightarrow> length b \<le> 256 * j"
proof (induction j arbitrary: b)
  case (Suc j)
  then obtain l r where b: "b = l # r" "unat l \<le> length r" "naptr_strings j (drop (unat l) r)" by (auto split: list.splits)
  have "unat l < 256" by (rule less_le_trans [OF unsigned_less]) simp
  moreover have "length r \<le> 256 * j + unat l" using Suc.IH [OF b(3)] b(2) by simp
  ultimately have "length r < 256 * j + 256" by linarith
  then show ?case by (simp add: b(1))
qed simp

lemma dec_naptr_post:
  assumes "p + cnt \<le> length m"
  shows "dec_post m p cnt [] (\<lambda>ps. \<exists>b a. ps = [Raw b, Dom a] \<and> 4 \<le> length b \<and> naptr_strings 3 (drop 4 b)) (dec_naptr E m p cnt)"
    (is "dec_post m p cnt [] ?L _")
proof -
  obtain r where r: "naptr_len 3 m p cnt 4 = Some r"
    "\<And>n. (4 \<le> n \<and> n \<le> cnt \<and> naptr_strings 3 (take (n - 4) (drop (p + 4) m))) = (r = Some n)"
    using naptr_len_spec [OF assms, of 3 4] by blast
  have str: "r = Some (length b)" if "?L (Raw b # q)" "wire_at m p (Raw b # q) (p + cnt)" for b q
  proof -
    have w: "take (length b) (drop p m) = b" "length b \<le> cnt" using that(2) wire_at_le [of m "p + length b" q "p + cnt"] by auto
    have "take (length b - 4) (drop (p + 4) m) = drop 4 b"
      by (subst (2) w(1) [symmetric]) (simp add: drop_take add.commute)
    then show ?thesis using r(2) [of "length b"] that(1) w(2) by auto
  qed
  show ?thesis
  proof (cases r)
    case None
    have "\<not> (?L ps \<and> wire_at m p ps (p + cnt))" for ps
    proof
      assume a: "?L ps \<and> wire_at m p ps (p + cnt)"
      then obtain b q where "ps = Raw b # q" by blast
      then show False using a str [of b q] None by simp
    qed
    then have "\<not> (\<exists>ps. ?L ps \<and> wire_at m p ps (p + cnt))" by blast
    then show ?thesis using r(1) None dec_post_fail [of ?L m p cnt] by (simp add: dec_naptr_def)
  next
    case (Some n)
    then have n: "4 \<le> n" "n \<le> cnt" "naptr_strings 3 (take (n - 4) (drop (p + 4) m))" using r(2) by auto
    let ?b = "take n (drop p m)" and ?f = "fresh E 0 (4 + 3 * 256 + DNSNAMEBUFSIZE)"
    have b: "rdn m p n = Some ?b" "length ?b = n" using assms n by (simp_all add: rdn_def)
    have d4: "drop 4 ?b = take (n - 4) (drop (p + 4) m)" by (simp add: drop_take add.commute)
    have "length (take (n - 4) (drop (p + 4) m)) = n - 4" using n assms by (auto simp: min_def)
    then have sm: "n \<le> 4 + 3 * 256" using naptr_strings_length [OF n(3)] by simp
    have w: "wrn ?f 0 ?b = Some (splice ?f 0 ?b)" using b(2) sm by (intro wrn_splice) simp
    have t: "take n (splice ?f 0 ?b) = ?b" "length (splice ?f 0 ?b) = 4 + 3 * 256 + DNSNAMEBUFSIZE"
      using b(2) sm by (simp_all add: splice_def)
    let ?k = "\<lambda>bptr blcnt db len. data_end blcnt db (n + len)"
    let ?r = "name_into m (p + n) (cnt - n) (splice ?f 0 ?b) n ?k"
    have run: "dec_naptr E m p cnt = ?r"
      using r(1) Some b w by (simp add: dec_naptr_def)
    have D: "dec_post m (p + n) (cnt - n) ?b (\<lambda>ps. \<exists>a. ps = [Dom a]) ?r"
      by (intro dec_post_name dec_post_end) (use t sm in \<open>auto dest!: readable_len\<close>)
    have e: "p + n + (cnt - n) = p + cnt" using n by simp
    obtain x where x: "?r = Some x"
      "case x of Inl e \<Rightarrow> e = RC_FORMAT \<and> \<not> (\<exists>ps. (\<exists>a. ps = [Dom a]) \<and> wire_at m (p + n) ps (p + cnt))
         | Inr d \<Rightarrow> \<exists>ps. (\<exists>a. ps = [Dom a]) \<and> wire_at m (p + n) ps (p + cnt) \<and> d = ?b @ enc_parts ps"
      using D unfolding dec_post_def e by blast
    show ?thesis unfolding run
    proof (cases x)
      case (Inl e)
      have "\<not> (?L ps \<and> wire_at m p ps (p + cnt))" for ps
      proof
        assume a: "?L ps \<and> wire_at m p ps (p + cnt)"
        then obtain b' c where ps: "ps = [Raw b', Dom c]" by blast
        then have "n = length b'" using a str [of b' "[Dom c]"] Some by simp
        then have "wire_at m (p + n) [Dom c] (p + cnt)" using a ps by simp
        then show False using x(2) Inl by (simp del: wire_at.simps) blast
      qed
      then show "dec_post m p cnt [] ?L ?r" using x Inl by (simp add: dec_post_def)
    next
      case (Inr d)
      then obtain c where c: "wire_at m (p + n) [Dom c] (p + cnt)" "d = ?b @ enc_parts [Dom c]" using x(2) by auto
      have "?L [Raw ?b, Dom c]" using n b(2) d4 by simp
      moreover have "wire_at m p [Raw ?b, Dom c] (p + cnt)" using c(1) b(2) n assms by auto
      ultimately show "dec_post m p cnt [] ?L ?r" using x(1) Inr c(2) unfolding dec_post_def
        by (intro exI [of _ x]) (auto intro!: exI [of _ "[Raw ?b, Dom c]"])
    qed
  qed
qed

lemma dec_plain_post:
  assumes "p + cnt \<le> length m"
  shows "dec_post m p cnt [] (\<lambda>ps. \<exists>b. ps = [Raw b]) (dec_plain m p cnt)"
proof -
  let ?b = "take cnt (drop p m)"
  have "dec_plain m p cnt = Some (Inr ?b)" using assms by (simp add: dec_plain_def rdn_def)
  moreover have "wire_at m p [Raw ?b] (p + cnt)" using assms by simp
  ultimately show ?thesis unfolding dec_post_def
    by (intro exI [of _ "Inr ?b"]) (auto intro!: exI [of _ "[Raw ?b]"])
qed

subsection \<open>The data of a record\<close>

text \<open>The types whose data may hold a name that is decompressed only if need be.\<close>

abbreviation (input) opaque :: "int set" where
  "opaque \<equiv> {T_IPSECKEY, T_RRSIG, T_NSEC}"

lemma dec_post_mono: "dec_post m p cnt pre L r \<Longrightarrow> (\<And>ps. L ps = L' ps) \<Longrightarrow> dec_post m p cnt pre L' r"
  by (subgoal_tac "L = L'") auto

lemma wire_plain:
  assumes "tp \<notin> {T_CNAME, T_MB, T_MD, T_MF, T_MG, T_MR, T_NS, T_PTR, T_MINFO, T_RP, T_MX, T_AFSDB, T_RT, T_KX, T_SOA, T_PX, T_SRV, T_NXT, T_NAPTR}"
  shows "wire_layout tp ps = (\<exists>b. ps = [Raw b] \<and> (tp = T_A \<longrightarrow> length b = 4) \<and> (tp = T_AAAA \<longrightarrow> length b = 16))"
  using assms by (auto simp: wire_layout_def layout_def)

lemma rr_data_eq:
  assumes "p + cnt \<le> length m" "tp \<notin> opaque"
  shows "\<exists>x. rr_data E tp m p cnt \<sigma> = Some (x, \<sigma>) \<and> dec_post m p cnt [] (wire_layout tp) (Some x)"
proof -
  have P: ?thesis if d: "dec_post m p cnt [] L r" and L: "\<And>ps. L ps = wire_layout tp ps"
    and run: "rr_data E tp m p cnt \<sigma> = Option.bind r (\<lambda>x. Some (x, \<sigma>))" for r L
  proof -
    obtain x where "r = Some x" using d by (cases r) (auto simp: dec_post_def)
    then show ?thesis using dec_post_mono [OF d L] run by auto
  qed
  consider "tp \<in> {T_A, T_AAAA}" | "tp \<in> {T_CNAME, T_MB, T_MD, T_MF, T_MG, T_MR, T_NS, T_PTR}" | "tp \<in> {T_MINFO, T_RP}"
    | "tp \<in> {T_MX, T_AFSDB, T_RT, T_KX}" | "tp = T_SOA" | "tp = T_PX" | "tp = T_SRV" | "tp = T_NXT" | "tp = T_NAPTR"
    | "tp \<notin> {T_CNAME, T_MB, T_MD, T_MF, T_MG, T_MR, T_NS, T_PTR, T_MINFO, T_RP, T_MX, T_AFSDB, T_RT, T_KX, T_SOA, T_PX, T_SRV, T_NXT, T_NAPTR, T_A, T_AAAA}"
    by blast
  then show ?thesis
  proof cases
    case 1
    define k where "k = (if tp = T_A then 4 else 16 :: nat)"
    have L: "wire_layout tp ps = (\<exists>b. ps = [Raw b] \<and> length b = k)" for ps using 1 by (subst wire_plain) (auto simp: k_def)
    show ?thesis
    proof (cases "cnt = k")
      case True
      have "dec_post m p cnt [] (\<lambda>ps. \<exists>b. ps = [Raw b] \<and> length b = k) (dec_plain m p cnt)"
        using assms(1) True by (auto simp: dec_plain_def rdn_def dec_post_def intro!: exI [of _ "[Raw (take k (drop p m))]"])
      then show ?thesis by (rule P) (use 1 True L in \<open>auto simp: rr_data_def k_def\<close>)
    next
      case False
      have "\<not> (wire_layout tp ps \<and> wire_at m p ps (p + cnt))" for ps using False by (auto simp: L)
      then have "dec_post m p cnt [] (wire_layout tp) (Some (Inl RC_FORMAT))" by (simp add: dec_post_def)
      moreover have "rr_data E tp m p cnt \<sigma> = Some (Inl RC_FORMAT, \<sigma>)" using 1 False by (auto simp: rr_data_def k_def)
      ultimately show ?thesis by blast
    qed
  next
    case 2
    then show ?thesis by (intro P [OF dec_name_post [OF assms(1), of E]]) (auto simp: rr_data_def wire_layout_def layout_def)
  next
    case 3
    then show ?thesis by (intro P [OF dec_two_names_post [OF assms(1), of E]]) (auto simp: rr_data_def wire_layout_def layout_def)
  next
    case 4
    then show ?thesis by (intro P [OF dec_pref_name_post [OF assms(1), of 2 E]]) (auto simp: rr_data_def wire_layout_def layout_def)
  next
    case 5
    then show ?thesis by (intro P [OF dec_soa_post [OF assms(1), of E]]) (auto simp: rr_data_def wire_layout_def layout_def)
  next
    case 6
    then show ?thesis by (intro P [OF dec_px_post [OF assms(1), of E]]) (auto simp: rr_data_def wire_layout_def layout_def)
  next
    case 7
    then show ?thesis by (intro P [OF dec_pref_name_post [OF assms(1), of 6 E]]) (auto simp: rr_data_def wire_layout_def layout_def)
  next
    case 8
    then show ?thesis by (intro P [OF dec_nxt_post [OF assms(1), of E]]) (auto simp: rr_data_def wire_layout_def layout_def)
  next
    case 9
    then show ?thesis by (intro P [OF dec_naptr_post [OF assms(1), of E]]) (auto simp: rr_data_def wire_layout_def layout_def)
  next
    case 10
    then show ?thesis using assms(2)
      by (intro P [OF dec_plain_post [OF assms(1)]]) (simp_all add: rr_data_def wire_plain)
  qed
qed

lemma malloc_plain: "malloc \<sigma> = (ok, \<sigma>1) \<Longrightarrow> (\<exists>ms. \<sigma>1 = \<sigma>\<lparr> mallocs := ms \<rparr>) \<and> (no_fail \<sigma> \<longrightarrow> ok \<and> no_fail \<sigma>1)"
    (is "_ \<Longrightarrow> ?thesis")
proof (cases "mallocs \<sigma>")
  case Nil
  then have "\<sigma> = \<sigma>\<lparr> mallocs := [] \<rparr>" by (cases \<sigma>) simp
  then have "\<exists>ms. \<sigma> = \<sigma>\<lparr> mallocs := ms \<rparr>" by blast
  then show "malloc \<sigma> = (ok, \<sigma>1) \<Longrightarrow> ?thesis" using Nil unfolding malloc_def by auto
next
  case (Cons b bs)
  then show "malloc \<sigma> = (ok, \<sigma>1) \<Longrightarrow> ?thesis" by (auto simp: malloc_def no_fail_def)
qed

text \<open>For the other types: the data after \<open>n\<close> bytes begin with an uncompressed name, and then stay as they
  are, or with a name that has to be decompressed.\<close>

definition plain_name_at :: "byte list \<Rightarrow> nat \<Rightarrow> nat \<Rightarrow> nat \<Rightarrow> byte list \<Rightarrow> bool" where
  "plain_name_at m n p cnt d =
     (if \<exists>ls r. drop (p + n) m = enc ls @ r \<and> wire_name ls \<and> length (enc ls) \<le> cnt - n
      then d = take cnt (drop p m)
      else (\<exists>ls k. readable m (p + n) ls k \<and> k \<le> cnt - n \<and>
              d = take n (drop p m) @ enc ls @ take (cnt - n - k) (drop (p + n + k) m)))"

definition opaque_post :: "cache \<Rightarrow> nat \<Rightarrow> (byte list \<Rightarrow> bool) \<Rightarrow> ((int + byte list) \<times> cache) option \<Rightarrow> bool" where
  "opaque_post \<sigma> cnt D r = (\<exists>x ms. r = Some (x, \<sigma>\<lparr> mallocs := ms \<rparr>) \<and> (no_fail \<sigma> \<longrightarrow> no_fail (\<sigma>\<lparr> mallocs := ms \<rparr>)) \<and>
     (case x of Inl e \<Rightarrow> e = RC_FORMAT \<and> (\<forall>d. \<not> D d) \<or> e = RC_FATALERR \<and> \<not> no_fail \<sigma>
      | Inr d \<Rightarrow> D d \<and> length d \<le> cnt + DNSNAMEBUFSIZE))"

lemma opaque_post_fail: "(\<And>d. \<not> D d) \<Longrightarrow> opaque_post \<sigma> cnt D (Some (Inl RC_FORMAT, \<sigma>))"
  unfolding opaque_post_def by (intro exI [of _ "Inl RC_FORMAT"] exI [of _ "mallocs \<sigma>"]) simp

lemma opaque_post_plain:
  assumes "p + cnt \<le> length m" "D (take cnt (drop p m))"
  shows "opaque_post \<sigma> cnt D (do { r \<leftarrow> dec_plain m p cnt; Some (r, \<sigma>) })"
proof -
  have "dec_plain m p cnt = Some (Inr (take cnt (drop p m)))" using assms(1) by (simp add: dec_plain_def rdn_def)
  then show ?thesis unfolding opaque_post_def using assms(2)
    by (intro exI [of _ "Inr (take cnt (drop p m))"] exI [of _ "mallocs \<sigma>"]) simp
qed

lemma dec_plain_name_post:
  assumes "p + cnt \<le> length m" "n \<le> cnt"
  shows "opaque_post \<sigma> cnt (plain_name_at m n p cnt) (dec_plain_name E n m p cnt \<sigma>)"
proof -
  let ?N = "\<exists>ls r. drop (p + n) m = enc ls @ r \<and> wire_name ls \<and> length (enc ls) \<le> cnt - n"
  have "cnt - n \<le> length (drop (p + n) m)" using assms by simp
  then obtain normal where nrm: "isnormalencdomname (drop (p + n) m) (cnt - n) = Some normal"
    using isnormalencdomname_bounded by blast
  then have N: "normal = ?N" using isnormalencdomname_True [of "drop (p + n) m" "cnt - n"] by simp
  show ?thesis
  proof (cases normal)
    case True
    have "plain_name_at m n p cnt (take cnt (drop p m))" using True N unfolding plain_name_at_def by simp
    from opaque_post_plain [where D = "plain_name_at m n p cnt", OF assms(1) this] show ?thesis
      using nrm True by (simp add: dec_plain_name_def)
  next
    case False
    then have nN: "\<not> ?N" using N by blast
    have P: "plain_name_at m n p cnt d = (\<exists>ls k. readable m (p + n) ls k \<and> k \<le> cnt - n \<and>
              d = take n (drop p m) @ enc ls @ take (cnt - n - k) (drop (p + n + k) m))" for d
      unfolding plain_name_at_def if_not_P [OF nN] by (rule refl)
    have f: "DNSNAMEBUFSIZE \<le> length (fresh E 0 DNSNAMEBUFSIZE)" by simp
    then show ?thesis
    proof (cases rule: decompress_readable [where m = m and p = "p + n" and cnt = "cnt - n"])
      case (err rc tgt')
      have "\<not> plain_name_at m n p cnt d" for d unfolding P using err(4) by blast
      moreover have "dec_plain_name E n m p cnt \<sigma> = Some (Inl RC_FORMAT, \<sigma>)"
        using nrm False err(1,3) by (auto simp: dec_plain_name_def)
      ultimately show ?thesis using opaque_post_fail by simp
    next
      case (ok ls k)
      obtain a \<sigma>1 where ml: "malloc \<sigma> = (a, \<sigma>1)" by (cases "malloc \<sigma>")
      then obtain ms where ms: "\<sigma>1 = \<sigma>\<lparr> mallocs := ms \<rparr>" "no_fail \<sigma> \<longrightarrow> a \<and> no_fail \<sigma>1" using malloc_plain [OF ml] by blast
      let ?d = "take n (drop p m) @ enc ls @ take (cnt - n - k) (drop (p + n + k) m)"
      have len: "length (enc ls) \<le> DNSNAMEBUFSIZE" by (rule readable_len [OF ok(1)])
      have "dec_plain_name E n m p cnt \<sigma> = Some (if a then Inr ?d else Inl RC_FATALERR, \<sigma>1)"
        using nrm False ok(2,3) ml assms len by (simp add: dec_plain_name_def rdn_def)
      moreover have "length ?d \<le> cnt + DNSNAMEBUFSIZE" using len assms(2) by simp
      moreover have "plain_name_at m n p cnt ?d" unfolding P using ok(1,2) by blast
      ultimately show ?thesis using ms unfolding opaque_post_def
        by (intro exI [of _ "if a then Inr ?d else Inl RC_FATALERR"] exI [of _ ms]) auto
    qed
  qed
qed

lemma layout_shape:
  assumes "layout tp ps"
  shows "(\<exists>a. ps = [Dom a]) \<or> (\<exists>a b. ps = [Dom a, Dom b]) \<or> (\<exists>p a. ps = [Raw p, Dom a] \<and> length p \<le> 772) \<or>
    (\<exists>a b n. ps = [Dom a, Dom b, Raw n] \<and> length n = 20) \<or> (\<exists>p a b. ps = [Raw p, Dom a, Dom b] \<and> length p = 2) \<or>
    tp = T_NXT \<or> (\<exists>b. ps = [Raw b])"
proof -
  have "(\<exists>a. ps = [Dom a]) \<or> (\<exists>a b. ps = [Dom a, Dom b]) \<or> (\<exists>p a. ps = [Raw p, Dom a] \<and> length p = 2) \<or>
    (\<exists>a b n. ps = [Dom a, Dom b, Raw n] \<and> length n = 20) \<or> (\<exists>p a b. ps = [Raw p, Dom a, Dom b] \<and> length p = 2) \<or>
    (\<exists>p a. ps = [Raw p, Dom a] \<and> length p = 6) \<or> tp = T_NXT \<or>
    (\<exists>p a. ps = [Raw p, Dom a] \<and> 4 \<le> length p \<and> naptr_strings 3 (drop 4 p)) \<or> (\<exists>b. ps = [Raw b])"
    using assms by (simp only: layout_def split: if_split_asm; blast)
  moreover have "length p \<le> 772" if "naptr_strings 3 (drop 4 p)" for p using naptr_strings_length [OF that] by simp
  ultimately show ?thesis by fastforce
qed

lemma enc_parts_length:
  assumes "wire_at m p ps (p + cnt)" "wire_layout tp ps" "p + cnt \<le> length m"
  shows "length (enc_parts ps) \<le> max cnt 1040"
proof -
  have dom: "length (enc ks) \<le> DNSNAMEBUFSIZE" if "Dom ks \<in> set ps" for ks
    using wire_at_wf [OF assms(1)] that by (auto simp: list_all_iff wire_name_def)
  have raw: "length b \<le> cnt" if "ps = [Raw b]" for b using assms(1) that by simp
  have L: "layout tp ps" and nxt: "tp = T_NXT \<longrightarrow> length (enc_parts ps) \<le> 1040" using assms(2) by (simp_all add: wire_layout_def)
  from layout_shape [OF L] show ?thesis
  proof (elim disjE exE conjE)
    fix a b assume "ps = [Dom a, Dom b]"
    then show ?thesis using dom [of a] dom [of b] by simp
  next
    fix a b n assume "ps = [Dom a, Dom b, Raw n]" "length n = 20"
    then show ?thesis using dom [of a] dom [of b] by simp
  next
    fix q a b assume "ps = [Raw q, Dom a, Dom b]" "length q = 2"
    then show ?thesis using dom [of a] dom [of b] by simp
  next
    fix q a assume "ps = [Raw q, Dom a]" "length q \<le> 772"
    then show ?thesis using dom [of a] by simp
  next
    fix a assume "ps = [Dom a]"
    then show ?thesis using dom [of a] by simp
  next
    fix b assume "ps = [Raw b]"
    then show ?thesis using raw by simp
  qed (use nxt in simp)
qed

text \<open>The data a record of a reply has in the cache.\<close>

definition recv_ok :: "int \<Rightarrow> byte list \<Rightarrow> bool" where
  "recv_ok tp d = (rdata_ok tp d \<and> (tp = T_A \<longrightarrow> length d = 4) \<and> (tp = T_AAAA \<longrightarrow> length d = 16))"

lemma opaque_rdata_ok: "tp \<in> opaque \<Longrightarrow> length d < 65536 \<Longrightarrow> recv_ok tp d"
  by (auto simp: recv_ok_def rdata_ok_def layout_def intro: exI [of _ "[Raw d]"])

abbreviation (input) rdlength_max :: nat where "rdlength_max \<equiv> 65279"

text \<open>What the data of a record are, given the bytes in the message.\<close>

definition data_at :: "byte list \<Rightarrow> int \<Rightarrow> nat \<Rightarrow> nat \<Rightarrow> byte list \<Rightarrow> bool" where
  "data_at m tp p cnt d =
     (if tp = T_IPSECKEY then 3 \<le> cnt \<and> m ! (p + 1) \<le> 3 \<and> (m ! (p + 1) = 1 \<longrightarrow> 7 \<le> cnt) \<and> (m ! (p + 1) = 2 \<longrightarrow> 19 \<le> cnt) \<and>
        (if m ! (p + 1) = 3 then plain_name_at m 3 p cnt d else d = take cnt (drop p m))
      else if tp = T_RRSIG then 18 \<le> cnt \<and> plain_name_at m 18 p cnt d
      else if tp = T_NSEC then plain_name_at m 0 p cnt d
      else (\<exists>ps. wire_layout tp ps \<and> wire_at m p ps (p + cnt) \<and> d = enc_parts ps))"

lemma rr_data_opaque:
  assumes "p + cnt \<le> length m" "tp \<in> opaque"
  shows "opaque_post \<sigma> cnt (data_at m tp p cnt) (rr_data E tp m p cnt \<sigma>)"
proof -
  consider "tp = T_IPSECKEY" | "tp = T_RRSIG" | "tp = T_NSEC" using assms(2) by blast
  then show ?thesis
  proof cases
    case 1
    have eq: "rr_data E tp m p cnt \<sigma> = dec_ipseckey E m p cnt \<sigma>" using 1 by (simp add: rr_data_def)
    have D: "data_at m tp p cnt = (\<lambda>d. 3 \<le> cnt \<and> m ! (p + 1) \<le> 3 \<and> (m ! (p + 1) = 1 \<longrightarrow> 7 \<le> cnt) \<and> (m ! (p + 1) = 2 \<longrightarrow> 19 \<le> cnt) \<and>
        (if m ! (p + 1) = 3 then plain_name_at m 3 p cnt d else d = take cnt (drop p m)))"
      using 1 by (simp add: data_at_def fun_eq_iff)
    show ?thesis
    proof (cases "cnt < 3")
      case True
      then show ?thesis unfolding eq using opaque_post_fail [of "data_at m tp p cnt"] by (simp add: dec_ipseckey_def D)
    next
      case False
      let ?g = "m ! (p + 1)"
      have g: "rd m (p + 1) = Some ?g" using False assms(1) by (simp add: rd_nth)
      have le: "(?g > 3) = (\<not> ?g \<le> 3)" by auto
      consider (name) "?g = 3" | (bad) "?g > 3 \<or> (?g = 1 \<and> cnt - 3 < 4) \<or> (?g = 2 \<and> cnt - 3 < 16)" "?g \<noteq> 3"
        | (good) "\<not> (?g > 3 \<or> (?g = 1 \<and> cnt - 3 < 4) \<or> (?g = 2 \<and> cnt - 3 < 16))" "?g \<noteq> 3" by blast
      then show ?thesis
      proof cases
        case name
        then have "data_at m tp p cnt = plain_name_at m 3 p cnt" using False by (simp add: D)
        moreover have "rr_data E tp m p cnt \<sigma> = dec_plain_name E 3 m p cnt \<sigma>" unfolding eq dec_ipseckey_def using g name False by simp
        ultimately show ?thesis using dec_plain_name_post [OF assms(1), of 3] False by simp
      next
        case bad
        have "rr_data E tp m p cnt \<sigma> = Some (Inl RC_FORMAT, \<sigma>)" unfolding eq dec_ipseckey_def using g bad False by auto
        moreover have "\<not> data_at m tp p cnt d" for d using bad False le by (auto simp: D)
        ultimately show ?thesis using opaque_post_fail by simp
      next
        case good
        have "rr_data E tp m p cnt \<sigma> = do { r \<leftarrow> dec_plain m p cnt; Some (r, \<sigma>) }" unfolding eq dec_ipseckey_def using g good False by auto
        moreover have "data_at m tp p cnt (take cnt (drop p m))" using good False le by (auto simp: D)
        ultimately show ?thesis using opaque_post_plain [where D = "data_at m tp p cnt", OF assms(1)] by simp
      qed
    qed
  next
    case 2
    have D: "data_at m tp p cnt = (\<lambda>d. 18 \<le> cnt \<and> plain_name_at m 18 p cnt d)" using 2 by (simp add: data_at_def fun_eq_iff)
    show ?thesis
    proof (cases "cnt < 18")
      case True
      then have "\<not> data_at m tp p cnt d" for d by (simp add: D)
      then show ?thesis using 2 True opaque_post_fail [of "data_at m tp p cnt" \<sigma> cnt] by (simp add: rr_data_def)
    next
      case False
      then have "data_at m tp p cnt = plain_name_at m 18 p cnt" by (simp add: D)
      then show ?thesis using 2 False dec_plain_name_post [OF assms(1), of 18] by (simp add: rr_data_def)
    qed
  next
    case 3
    have "data_at m tp p cnt = plain_name_at m 0 p cnt" using 3 by (simp add: data_at_def fun_eq_iff)
    then show ?thesis using 3 dec_plain_name_post [OF assms(1), of 0] by (simp add: rr_data_def)
  qed
qed

lemma rr_data_ok:
  assumes "p + cnt \<le> length m"
  shows "\<exists>x ms. rr_data E tp m p cnt \<sigma> = Some (x, \<sigma>\<lparr> mallocs := ms \<rparr>) \<and>
    (no_fail \<sigma> \<longrightarrow> no_fail (\<sigma>\<lparr> mallocs := ms \<rparr>)) \<and>
    (case x of Inl e \<Rightarrow> e = RC_FORMAT \<and> (\<forall>d. \<not> data_at m tp p cnt d) \<or> e = RC_FATALERR \<and> \<not> no_fail \<sigma>
     | Inr d \<Rightarrow> data_at m tp p cnt d \<and> (cnt \<le> rdlength_max \<longrightarrow> recv_ok tp d))"
proof (cases "tp \<in> opaque")
  case False
  have D: "data_at m tp p cnt d = (\<exists>ps. wire_layout tp ps \<and> wire_at m p ps (p + cnt) \<and> d = enc_parts ps)" for d
    using False by (simp add: data_at_def)
  obtain x where x: "rr_data E tp m p cnt \<sigma> = Some (x, \<sigma>)" "dec_post m p cnt [] (wire_layout tp) (Some x)"
    using rr_data_eq [OF assms False] by blast
  have "case x of Inl e \<Rightarrow> e = RC_FORMAT \<and> (\<forall>d. \<not> data_at m tp p cnt d) \<or> e = RC_FATALERR \<and> \<not> no_fail \<sigma>
     | Inr d \<Rightarrow> data_at m tp p cnt d \<and> (cnt \<le> rdlength_max \<longrightarrow> recv_ok tp d)"
  proof (cases x)
    case (Inl e)
    then show ?thesis using x(2) by (auto simp: dec_post_def D)
  next
    case (Inr d)
    then obtain ps where ps: "wire_layout tp ps" "wire_at m p ps (p + cnt)" "d = enc_parts ps" using x(2) by (auto simp: dec_post_def)
    have "length d < 65536" if "cnt \<le> rdlength_max" using enc_parts_length [OF ps(2,1) assms] that ps(3) by simp
    then show ?thesis using ps wire_at_wf [OF ps(2)] Inr by (auto simp: recv_ok_def rdata_ok_def wire_layout_def D)
  qed
  then show ?thesis using x(1) by (intro exI [of _ x] exI [of _ "mallocs \<sigma>"]) simp
next
  case True
  obtain x ms where x: "rr_data E tp m p cnt \<sigma> = Some (x, \<sigma>\<lparr> mallocs := ms \<rparr>)" "no_fail \<sigma> \<longrightarrow> no_fail (\<sigma>\<lparr> mallocs := ms \<rparr>)"
    "case x of Inl e \<Rightarrow> e = RC_FORMAT \<and> (\<forall>d. \<not> data_at m tp p cnt d) \<or> e = RC_FATALERR \<and> \<not> no_fail \<sigma>
      | Inr d \<Rightarrow> data_at m tp p cnt d \<and> length d \<le> cnt + DNSNAMEBUFSIZE"
    using rr_data_opaque [OF assms True, of \<sigma> E] unfolding opaque_post_def by blast
  have "recv_ok tp d" if "x = Inr d" "cnt \<le> rdlength_max" for d
    using x(3) that by (intro opaque_rdata_ok [OF True]) simp
  then show ?thesis using x by (intro exI [of _ x] exI [of _ ms]) (cases x; simp)
qed

subsection \<open>The array of entries\<close>

text \<open>Entries that are being built, and their data.\<close>

definition built :: "dns_cent \<Rightarrow> bool" where
  "built c = (cent_wf c \<and> loose c \<and> ce_flags c \<in> {0, DF_AUTH})"

definition cent_recv :: "dns_cent \<Rightarrow> bool" where
  "cent_recv c = (\<forall>tp i rs. rrlkup tp = Some i \<longrightarrow> slot c i = Some rs \<longrightarrow> list_all (recv_ok tp) (rs_rrs rs))"

lemma cent_recv_data: "cent_recv c \<Longrightarrow> cent_data c"
  unfolding cent_recv_def cent_data_def recv_ok_def list_all_iff by blast

lemma built_neg: "built c \<Longrightarrow> \<not> neg c \<and> \<not> has (ce_flags c) DF_LOCAL"
  by (auto simp: built_def has_def)

text \<open>Everything about the cache stays as it is but the coming allocations.\<close>

definition quiet :: "cache \<Rightarrow> cache \<Rightarrow> bool" where
  "quiet \<sigma> \<sigma>' = (cache_inv \<sigma>' \<and> frame \<sigma> \<sigma>' \<and> (no_fail \<sigma> \<longrightarrow> no_fail \<sigma>'))"

lemma quiet_trans: "quiet \<sigma> \<sigma>1 \<Longrightarrow> quiet \<sigma>1 \<sigma>2 \<Longrightarrow> quiet \<sigma> \<sigma>2"
  unfolding quiet_def using frame_trans by blast

lemma quiet_mallocs:
  assumes "cache_inv \<sigma>" "no_fail \<sigma> \<longrightarrow> no_fail (\<sigma>\<lparr> mallocs := ms \<rparr>)"
  shows "quiet \<sigma> (\<sigma>\<lparr> mallocs := ms \<rparr>)"
proof -
  have "frame \<sigma> (\<sigma>\<lparr> mallocs := ms \<rparr>)" by simp
  moreover from this have "cache_inv (\<sigma>\<lparr> mallocs := ms \<rparr>)" using assms(1) cinv_frame unfolding cache_inv_def by simp
  ultimately show ?thesis using assms(2) by (simp add: quiet_def)
qed

lemma quiet_malloc: "cache_inv \<sigma> \<Longrightarrow> malloc \<sigma> = (ok, \<sigma>1) \<Longrightarrow> quiet \<sigma> \<sigma>1 \<and> (no_fail \<sigma> \<longrightarrow> ok)"
  using malloc_plain [of \<sigma> ok \<sigma>1] quiet_mallocs by blast

lemma quiet_store: "quiet \<sigma> \<sigma>' \<Longrightarrow> store_ok \<sigma> \<Longrightarrow> store_ok \<sigma>'"
  by (auto simp: quiet_def store_ok_def frameD)

lemma free_cents_loose: "\<forall>c \<in> set cs. built c \<Longrightarrow> free_cents cs \<sigma> = Some \<sigma>"
  by (induction cs) (simp_all add: built_def cent_wf_def free_cent_loose)

lemma lookup_cent_array_spec:
  assumes "\<forall>c \<in> set cs. valid_name (ce_qname c)" "valid_name nm"
  shows "\<exists>r. lookup_cent_array cs nm = Some r \<and> (case r of
      None \<Rightarrow> \<forall>c \<in> set cs. key_of (ce_qname c) \<noteq> key_of nm
    | Some i \<Rightarrow> i < length cs \<and> key_of (ce_qname (cs ! i)) = key_of nm \<and> (\<forall>j < i. key_of (ce_qname (cs ! j)) \<noteq> key_of nm))"
  using assms(1)
proof (induction cs)
  case (Cons c cs)
  obtain r where r: "lookup_cent_array cs nm = Some r" "case r of
      None \<Rightarrow> \<forall>c \<in> set cs. key_of (ce_qname c) \<noteq> key_of nm
    | Some i \<Rightarrow> i < length cs \<and> key_of (ce_qname (cs ! i)) = key_of nm \<and> (\<forall>j < i. key_of (ce_qname (cs ! j)) \<noteq> key_of nm)"
    using Cons by auto
  have e: "rhnicmp (ce_qname c) nm = Some (key_of (ce_qname c) = key_of nm)" using Cons.prems assms(2) by (intro rhnicmp_valid) simp_all
  show ?case
  proof (cases "key_of (ce_qname c) = key_of nm")
    case True
    then show ?thesis using e by (intro exI [of _ "Some 0"]) simp
  next
    case False
    then show ?thesis using e r by (intro exI [of _ "map_option Suc r"]) (auto simp: nth_Cons' less_Suc_eq_0_disj split: option.splits)
  qed
qed simp

lemma ca_grow_spec:
  assumes "cache_inv \<sigma>" "\<forall>c \<in> set (ca_list a). built c"
  shows "\<exists>r \<sigma>'. ca_grow a \<sigma> = Some (r, \<sigma>') \<and> quiet \<sigma> \<sigma>' \<and> (r = Some (ca_list a) \<or> r = None \<and> \<not> no_fail \<sigma>)"
proof -
  obtain ok \<sigma>1 where m: "malloc \<sigma> = (ok, \<sigma>1)" by (cases "malloc \<sigma>")
  note q = quiet_malloc [OF assms(1) m]
  have f: "free_cents (ca_list a) \<sigma>1 = Some \<sigma>1" by (rule free_cents_loose [OF assms(2)])
  have r: "quiet \<sigma> \<sigma>" using assms(1) by (simp add: quiet_def)
  show ?thesis
  proof (cases "a = None \<or> (ca_list a \<noteq> [] \<and> length (ca_list a) mod 8 = 0)")
    case True
    then show ?thesis using m q f
      by (intro exI [of _ "if ok then Some (ca_list a) else None"] exI [of _ \<sigma>1]) (auto simp: ca_grow_def)
  next
    case False
    then show ?thesis using r by (intro exI [of _ a] exI [of _ \<sigma>]) (auto simp: ca_grow_def ca_list_def)
  qed
qed

text \<open>The array as a map from names to RR sets, and what a record does to it.\<close>

type_synonym rview = "key \<rightharpoonup> (nat \<Rightarrow> rr_set option)"

definition view :: "cent_array \<Rightarrow> rview" where
  "view a k = map_option slot (find (\<lambda>c. key_of (ce_qname c) = k) (ca_list a))"

definition absorb :: "rview \<Rightarrow> key \<Rightarrow> nat \<Rightarrow> int \<Rightarrow> int \<Rightarrow> u16 \<Rightarrow> byte list \<Rightarrow> rview" where
  "absorb v k i ttl ts fl d =
     (let f = (case v k of None \<Rightarrow> (\<lambda>_. None) | Some f \<Rightarrow> f) in v(k \<mapsto> f(i := Some (merged_set (f i) ttl ts fl d))))"

text \<open>Name and flags of the old entries stay.\<close>

definition heads :: "cent_array \<Rightarrow> (name \<times> u16) list" where
  "heads a = map (\<lambda>c. (ce_qname c, ce_flags c)) (ca_list a)"

definition carr_ok :: "cent_array \<Rightarrow> bool" where
  "carr_ok a = (\<forall>c \<in> set (ca_list a). built c)"

definition carr_typed :: "cent_array \<Rightarrow> bool" where
  "carr_typed a = (\<forall>c \<in> set (ca_list a). cent_recv c)"

lemma find_append_new:
  "\<forall>c \<in> set cs. \<not> P c \<Longrightarrow> find P (cs @ [c]) = (if P c then Some c else None)"
  by (induction cs) auto

lemma find_append_other: "\<not> P c \<Longrightarrow> find P (cs @ [c]) = find P cs"
  by (induction cs) auto

lemma find_at:
  "i < length cs \<Longrightarrow> P (cs ! i) \<Longrightarrow> \<forall>j < i. \<not> P (cs ! j) \<Longrightarrow> find P cs = Some (cs ! i)"
  by (auto simp: find_Some_iff)

lemma find_update_other:
  "i < length cs \<Longrightarrow> \<not> P (cs ! i) \<Longrightarrow> \<not> P c \<Longrightarrow> find P (cs[i := c]) = find P cs"
  by (induction cs arbitrary: i) (auto split: nat.splits)

lemma cent_recv_put:
  assumes "cent_recv c" "recv_ok tp d" "rrlkup tp = Some i" "\<And>j. j \<noteq> i \<Longrightarrow> slot c' j = slot c j"
    "slot c' i = Some (merged_set (slot c i) ttl ts fl d)"
  shows "cent_recv c'"
  unfolding cent_recv_def
proof (intro allI impI)
  fix tp' i' rs assume a: "rrlkup tp' = Some i'" "slot c' i' = Some rs"
  show "list_all (recv_ok tp') (rs_rrs rs)"
  proof (cases "i' = i")
    case True
    then have t: "tp' = tp" using rrlkup_inj assms(3) a(1) by blast
    have "rs = merged_set (slot c i) ttl ts fl d" using a(2) assms(5) True by simp
    moreover have "list_all (recv_ok tp) (rs_rrs r)" if "slot c i = Some r" for r using assms(1,3) that by (simp add: cent_recv_def)
    ultimately show ?thesis using assms(2) t by (cases "slot c i") (auto simp: merged_set_def)
  next
    case False
    then show ?thesis using assms(1,4) a unfolding cent_recv_def by metis
  qed
qed

definition rtc_res :: "cent_array \<Rightarrow> name \<Rightarrow> nat \<Rightarrow> int \<Rightarrow> byte list \<Rightarrow> u16 \<Rightarrow> int \<Rightarrow> cache \<Rightarrow> int \<Rightarrow> cent_array \<Rightarrow> cache \<Rightarrow> bool" where
  "rtc_res a nm i ttl d fl ts \<sigma> rc a' \<sigma>' = (quiet \<sigma> \<sigma>' \<and> carr_ok a' \<and>
     (rc = RC_OK \<and> view a' = absorb (view a) (key_of nm) i ttl ts fl d \<and> (\<exists>e. heads a' = heads a @ e \<and> length e \<le> 1) \<or>
      rc = RC_FATALERR \<and> \<not> no_fail \<sigma>))"

lemma cached_type:
  assumes "\<not> PDNSD_NOT_CACHED_TYPE tp"
  obtains i where "0 \<le> tp - T_MIN" "tp - T_MIN < int T_NUM" "rrlkup tp = Some i" "i < NRRTOT"
proof -
  from assms obtain i where i: "rrlkup tp = Some i" "i < NRRTOT"
    unfolding PDNSD_NOT_CACHED_TYPE_def by (cases "rrlkup tp") auto
  then show ?thesis using that rrlkup_range [OF i(1)] by simp
qed

lemma rr_to_cache_ok:
  assumes "cache_inv \<sigma>" "carr_ok a" "valid_name nm" "\<not> PDNSD_NOT_CACHED_TYPE tp" "rrlkup tp = Some i"
  shows "\<exists>rc a' \<sigma>'. rr_to_cache a nm tp ttl d fl ts \<sigma> = Some (rc, a', \<sigma>') \<and> rtc_res a nm i ttl d fl ts \<sigma> rc a' \<sigma>' \<and>
    (rc = RC_OK \<longrightarrow> carr_typed a \<longrightarrow> recv_ok tp d \<longrightarrow> carr_typed a')"
proof -
  let ?cs = "ca_list a" and ?k = "key_of nm"
  obtain i' where t: "0 \<le> tp - T_MIN" "tp - T_MIN < int T_NUM" "rrlkup tp = Some i'" "i' < NRRTOT"
    using cached_type [OF assms(4)] by blast
  then have i: "i < NRRTOT" using assms(5) by simp
  have bu: "\<forall>c \<in> set ?cs. built c" using assms(2) by (simp add: carr_ok_def)
  then have vn: "\<forall>c \<in> set ?cs. valid_name (ce_qname c)" by (simp add: built_def cent_wf_def)
  obtain r where r: "lookup_cent_array ?cs nm = Some r" "case r of
      None \<Rightarrow> \<forall>c \<in> set ?cs. key_of (ce_qname c) \<noteq> ?k
    | Some n \<Rightarrow> n < length ?cs \<and> key_of (ce_qname (?cs ! n)) = ?k \<and> (\<forall>j < n. key_of (ce_qname (?cs ! j)) \<noteq> ?k)"
    using lookup_cent_array_spec [OF vn assms(3)] by blast
  have add: "\<exists>ok c' \<sigma>'. add_cent_rr c tp ttl ts fl d \<tau> = Some (ok, c', \<sigma>') \<and> built c' \<and> ce_qname c' = ce_qname c \<and>
      ce_flags c' = ce_flags c \<and> quiet \<tau> \<sigma>' \<and> (no_fail \<tau> \<longrightarrow> ok) \<and>
      (ok \<longrightarrow> slot c' = (slot c)(i := Some (merged_set (slot c i) ttl ts fl d))) \<and>
      (ok \<longrightarrow> cent_recv c \<longrightarrow> recv_ok tp d \<longrightarrow> cent_recv c')" if b: "built c" and iv: "cache_inv \<tau>" for c \<tau>
  proof -
    have n: "\<not> neg c" "\<not> has (ce_flags c) DF_LOCAL" using built_neg [OF b] by simp_all
    have w: "cent_wf c" "loose c" using b by (simp_all add: built_def)
    obtain ok c' \<sigma>' where x: "add_cent_rr c tp ttl ts fl d \<tau> = Some (ok, c', \<sigma>')" "cent_wf c'" "loose c'" "ce_qname c' = ce_qname c"
      "\<forall>j. j \<noteq> i \<longrightarrow> slot c' j = slot c j" "ok \<longrightarrow> slot c' i = Some (merged_set (slot c i) ttl ts fl d)"
      "no_fail \<tau> \<longrightarrow> ok \<and> no_fail \<sigma>'" "cache_inv \<sigma>'" "frame \<tau> \<sigma>'" "ce_flags c' \<in> {ce_flags c, ce_flags (pos_cent c)}"
      using add_cent_rr_ok [OF iv w _ t(1,2) assms(5) i, of fl ttl ts d] n(2) by blast
    have fl: "ce_flags c' = ce_flags c" using x(10) pos_cent_id [OF n(1)] by simp
    have "slot c' = (slot c)(i := Some (merged_set (slot c i) ttl ts fl d))" if "ok" using x(5,6) that by auto
    moreover have "cent_recv c'" if "ok" "cent_recv c" "recv_ok tp d"
      using cent_recv_put [OF that(2,3) assms(5), of c' ttl ts fl] x(5,6) that(1) by blast
    ultimately show ?thesis using x fl b by (intro exI [of _ ok] exI [of _ c'] exI [of _ \<sigma>']) (simp add: built_def quiet_def)
  qed
  show ?thesis
  proof (cases r)
    case (Some n)
    let ?c = "?cs ! n"
    have n: "n < length ?cs" "key_of (ce_qname ?c) = ?k" "\<forall>j < n. key_of (ce_qname (?cs ! j)) \<noteq> ?k" using r(2) Some by simp_all
    have b: "built ?c" using bu n(1) by simp
    obtain ok c' \<sigma>' where x: "add_cent_rr ?c tp ttl ts fl d \<sigma> = Some (ok, c', \<sigma>')" "built c'" "ce_qname c' = ce_qname ?c"
      "ce_flags c' = ce_flags ?c" "quiet \<sigma> \<sigma>'" "no_fail \<sigma> \<longrightarrow> ok"
      "ok \<longrightarrow> slot c' = (slot ?c)(i := Some (merged_set (slot ?c i) ttl ts fl d))"
      "ok \<longrightarrow> cent_recv ?c \<longrightarrow> recv_ok tp d \<longrightarrow> cent_recv c'" using add [OF b assms(1)] by blast
    let ?a = "Some (?cs[n := c'])"
    have run: "rr_to_cache a nm tp ttl d fl ts \<sigma> = Some (if ok then RC_OK else RC_FATALERR, ?a, \<sigma>')"
      using r(1) Some n(1) x(1) by (simp add: rr_to_cache_def rd_nth)
    have in_set: "c \<in> set (?cs[n := c']) \<Longrightarrow> c \<in> set ?cs \<or> c = c'" for c using set_update_subset_insert [of ?cs n c'] by auto
    have ok': "carr_ok ?a" unfolding carr_ok_def ca_list_def [of ?a] option.case using bu x(2) in_set by blast
    have ty: "carr_typed ?a" if "ok" "carr_typed a" "recv_ok tp d"
      unfolding carr_typed_def ca_list_def [of ?a] option.case
    proof
      fix c assume "c \<in> set (?cs[n := c'])"
      moreover have "cent_recv ?c" using that(2) n(1) by (simp add: carr_typed_def)
      ultimately show "cent_recv c" using that x(8) in_set [of c] unfolding carr_typed_def by blast
    qed
    have hd: "heads ?a = heads a" using x(3,4) n(1) by (simp add: heads_def ca_list_def [of ?a] map_update list_update_same_conv)
    have fa: "find (\<lambda>c. key_of (ce_qname c) = ?k) ?cs = Some ?c" by (rule find_at) (use n in auto)
    have fb: "find (\<lambda>c. key_of (ce_qname c) = ?k) (?cs[n := c']) = Some c'"
      using find_at [of n "?cs[n := c']" "\<lambda>c. key_of (ce_qname c) = ?k"] n x(3) by simp
    have fo: "find (\<lambda>c. key_of (ce_qname c) = k) (?cs[n := c']) = find (\<lambda>c. key_of (ce_qname c) = k) ?cs" if "k \<noteq> ?k" for k
      by (rule find_update_other) (use n x(3) that in auto)
    have "view ?a = absorb (view a) ?k i ttl ts fl d" if "ok"
    proof
      fix k show "view ?a k = absorb (view a) ?k i ttl ts fl d k"
        using fa fb fo [of k] x(7) that by (cases "k = ?k") (simp_all add: view_def ca_list_def [of ?a] absorb_def Let_def)
    qed
    then have "rtc_res a nm i ttl d fl ts \<sigma> (if ok then RC_OK else RC_FATALERR) ?a \<sigma>'"
      using x(5,6) ok' hd by (auto simp: rtc_res_def)
    then show ?thesis using run ty by (intro exI [of _ "if ok then RC_OK else RC_FATALERR"] exI [of _ ?a] exI [of _ \<sigma>']) auto
  next
    case None
    have new: "\<forall>c \<in> set ?cs. key_of (ce_qname c) \<noteq> ?k" using r(2) None by simp
    obtain g \<sigma>1 where g: "ca_grow a \<sigma> = Some (g, \<sigma>1)" "quiet \<sigma> \<sigma>1" "g = Some ?cs \<or> g = None \<and> \<not> no_fail \<sigma>"
      using ca_grow_spec [OF assms(1) bu] by blast
    show ?thesis
    proof (cases g)
      case gN: None
      then have "rr_to_cache a nm tp ttl d fl ts \<sigma> = Some (RC_FATALERR, None, \<sigma>1)" using r(1) None g(1) by (simp add: rr_to_cache_def)
      moreover have "rtc_res a nm i ttl d fl ts \<sigma> RC_FATALERR None \<sigma>1"
        using g gN by (simp add: rtc_res_def carr_ok_def ca_list_def)
      ultimately show ?thesis by (intro exI [of _ RC_FATALERR] exI [of _ None] exI [of _ \<sigma>1]) simp
    next
      case gS: (Some cs)
      then have cs: "cs = ?cs" using g(3) by simp
      have i1: "cache_inv \<sigma>1" using g(2) by (simp add: quiet_def)
      obtain x \<sigma>2 where x: "init_cent nm 0 0 0 \<sigma>1 = Some (x, \<sigma>2)" "frame \<sigma>1 \<sigma>2" "rrl \<sigma>2 = rrl \<sigma>1"
        "x \<in> {None, Some (new_cent nm 0 0 0)}" "no_fail \<sigma>1 \<longrightarrow> x \<noteq> None \<and> no_fail \<sigma>2"
        using init_cent_spec [OF assms(3), of "[]" 0 0 0 \<sigma>1] by auto
      have q2: "quiet \<sigma>1 \<sigma>2" using i1 x(2,3,5) cinv_frame unfolding quiet_def cache_inv_def by (auto simp: frameD)
      have q02: "quiet \<sigma> \<sigma>2" by (rule quiet_trans [OF g(2) q2])
      show ?thesis
      proof (cases x)
        case xN: None
        obtain a2 \<sigma>3 where sh: "ca_shrink ?cs \<sigma>2 = (a2, \<sigma>3)" by (cases "ca_shrink ?cs \<sigma>2")
        have "a2 \<in> {None, Some ?cs} \<and> quiet \<sigma>2 \<sigma>3"
        proof -
          obtain ok \<tau> where m: "malloc \<sigma>2 = (ok, \<tau>)" by (cases "malloc \<sigma>2")
          have "cache_inv \<sigma>2" using q2 by (simp add: quiet_def)
          then show ?thesis using sh m quiet_malloc [OF _ m] by (auto simp: ca_shrink_def quiet_def split: if_splits)
        qed
        then have "rtc_res a nm i ttl d fl ts \<sigma> RC_FATALERR a2 \<sigma>3"
          using quiet_trans [OF q02] g(2) x(5) xN bu by (auto simp: rtc_res_def carr_ok_def ca_list_def quiet_def)
        moreover have "rr_to_cache a nm tp ttl d fl ts \<sigma> = Some (RC_FATALERR, a2, \<sigma>3)"
          using r(1) None g(1) gS cs x(1) xN sh by (simp add: rr_to_cache_def)
        ultimately show ?thesis by (intro exI [of _ RC_FATALERR] exI [of _ a2] exI [of _ \<sigma>3]) simp
      next
        case xS: (Some c)
        then have c: "c = new_cent nm 0 0 0" using x(4) by simp
        note np = new_cent_props [OF assms(3), of 0 0 0, folded c]
        have b: "built c" using np by (simp add: built_def)
        have rc0: "cent_recv c" using np(3) by (simp add: cent_recv_def)
        have i2: "cache_inv \<sigma>2" using q2 by (simp add: quiet_def)
        obtain ok c' \<sigma>' where y: "add_cent_rr c tp ttl ts fl d \<sigma>2 = Some (ok, c', \<sigma>')" "built c'" "ce_qname c' = ce_qname c"
          "ce_flags c' = ce_flags c" "quiet \<sigma>2 \<sigma>'" "no_fail \<sigma>2 \<longrightarrow> ok"
          "ok \<longrightarrow> slot c' = (slot c)(i := Some (merged_set (slot c i) ttl ts fl d))"
          "ok \<longrightarrow> cent_recv c \<longrightarrow> recv_ok tp d \<longrightarrow> cent_recv c'" using add [OF b i2] by blast
        let ?a = "Some (?cs @ [c'])"
        have run: "rr_to_cache a nm tp ttl d fl ts \<sigma> = Some (if ok then RC_OK else RC_FATALERR, ?a, \<sigma>')"
          using r(1) None g(1) gS cs x(1) xS y(1) by (simp add: rr_to_cache_def)
        have ok': "carr_ok ?a" using bu y(2) by (auto simp: carr_ok_def ca_list_def)
        have ty: "carr_typed ?a" if "ok" "carr_typed a" "recv_ok tp d" using that y(8) rc0 by (auto simp: carr_typed_def ca_list_def)
        have hd: "heads ?a = heads a @ [(ce_qname c', ce_flags c')]" by (simp add: heads_def ca_list_def)
        have kc: "key_of (ce_qname c') = ?k" using y(3) np(4) by simp
        have sl: "slot c' = (\<lambda>_. None)(i := Some (merged_set None ttl ts fl d))" if "ok" using y(7) that np(3) by (auto simp: fun_eq_iff)
        have fn: "find (\<lambda>c. key_of (ce_qname c) = ?k) ?cs = None" using new by (simp add: find_None_iff)
        have fa: "find (\<lambda>c. key_of (ce_qname c) = ?k) (?cs @ [c']) = Some c'"
          using find_append_new [of ?cs "\<lambda>c. key_of (ce_qname c) = ?k" c'] new kc by simp
        have fo: "find (\<lambda>c. key_of (ce_qname c) = k) (?cs @ [c']) = find (\<lambda>c. key_of (ce_qname c) = k) ?cs" if "k \<noteq> ?k" for k
          by (rule find_append_other) (use kc that in auto)
        have "view ?a = absorb (view a) ?k i ttl ts fl d" if "ok"
        proof
          fix k show "view ?a k = absorb (view a) ?k i ttl ts fl d k"
            using fa fn fo [of k] sl that by (cases "k = ?k") (simp_all add: view_def ca_list_def [of ?a] absorb_def Let_def)
        qed
        then have "rtc_res a nm i ttl d fl ts \<sigma> (if ok then RC_OK else RC_FATALERR) ?a \<sigma>'"
          using quiet_trans [OF q02 y(5)] y(6) q02 ok' hd by (auto simp: rtc_res_def quiet_def)
        then show ?thesis using run ty by (intro exI [of _ "if ok then RC_OK else RC_FATALERR"] exI [of _ ?a] exI [of _ \<sigma>']) auto
      qed
    qed
  qed
qed

subsection \<open>The records of a section\<close>

definition ignored :: "nat \<Rightarrow> nat \<Rightarrow> bool" where
  "ignored tp cl = (int tp = T_OPT \<or> PDNSD_NOT_CACHED_TYPE (int tp) \<or> int cl \<noteq> C_IN)"

text \<open>\<open>k\<close> records from \<open>p\<close> to \<open>e\<close>, and what they make of the map of RR sets.\<close>

inductive records_at :: "byte list \<Rightarrow> u16 \<Rightarrow> int \<Rightarrow> nat \<Rightarrow> rview \<Rightarrow> nat \<Rightarrow> nat \<Rightarrow> rview \<Rightarrow> bool" for m fl ts where
  rec_end: "records_at m fl ts p v 0 p v"
| rec_skip: "\<lbrakk>readable m p ls l; q = p + l; q + 10 + be_at m (q + 8) \<le> length m; ignored (be_at m q) (be_at m (q + 2));
    records_at m fl ts (q + 10 + be_at m (q + 8)) v k e v'\<rbrakk> \<Longrightarrow> records_at m fl ts p v (Suc k) e v'"
| rec_data: "\<lbrakk>readable m p ls l; q = p + l; q + 10 + be_at m (q + 8) \<le> length m; \<not> ignored (be_at m q) (be_at m (q + 2));
    data_at m (int (be_at m q)) (q + 10) (be_at m (q + 8)) d;
    w = absorb v (key_of (enc ls)) (the (rrlkup (int (be_at m q)))) (as_time (be_at m (q + 4) * 65536 + be_at m (q + 6))) ts fl d;
    records_at m fl ts (q + 10 + be_at m (q + 8)) w k e v'\<rbrakk> \<Longrightarrow> records_at m fl ts p v (Suc k) e v'"

lemma records_at_Suc:
  assumes "records_at m fl ts p v (Suc k) e v'"
  obtains ls l q v1 where "readable m p ls l" "q = p + l" "q + 10 + be_at m (q + 8) \<le> length m"
    "ignored (be_at m q) (be_at m (q + 2)) \<or> (\<exists>d. data_at m (int (be_at m q)) (q + 10) (be_at m (q + 8)) d)"
    "records_at m fl ts (q + 10 + be_at m (q + 8)) v1 k e v'"
  using assms by cases blast+

definition rrs_res :: "byte list \<Rightarrow> nat \<Rightarrow> u16 \<Rightarrow> int \<Rightarrow> recv \<Rightarrow> int \<Rightarrow> recv \<Rightarrow> bool" where
  "rrs_res m n fl ts r rc r' = (quiet (rv_cache r) (rv_cache r') \<and> carr_ok (rv_centa r') \<and> rv_ptr r' + rv_cnt r' = length m \<and>
     (rc = RC_FATALERR \<and> \<not> no_fail (rv_cache r) \<or>
      (\<exists>x. heads (rv_centa r') = heads (rv_centa r) @ x \<and> length x \<le> n) \<and>
      (length m \<le> rdlength_max \<longrightarrow> carr_typed (rv_centa r) \<longrightarrow> carr_typed (rv_centa r')) \<and>
      (\<exists>k e. records_at m fl ts (rv_ptr r) (view (rv_centa r)) k e (view (rv_centa r')) \<and>
         (rc = RC_OK \<and> k = n \<and> e = rv_ptr r' \<or>
          rc \<in> {RC_FORMAT, RC_TRUNC} \<and> k < n \<and> \<not> (\<exists>v e v'. records_at m fl ts (rv_ptr r) v n e v')))))"

lemma rrs_res_stop:
  assumes "cache_inv (rv_cache r)" "quiet (rv_cache r) (rv_cache r')" "carr_ok (rv_centa r)" "rv_centa r' = rv_centa r"
    "rv_ptr r' + rv_cnt r' = length m" "rc \<in> {RC_FORMAT, RC_TRUNC}" "\<not> (\<exists>v e v'. records_at m fl ts (rv_ptr r) v (Suc n) e v')"
  shows "rrs_res m (Suc n) fl ts r rc r'"
  unfolding rrs_res_def using assms rec_end [of m fl ts "rv_ptr r" "view (rv_centa r)"] by auto

lemma rrs_res_step:
  assumes "rrs_res m n fl ts r1 rc r'" "quiet (rv_cache r) (rv_cache r1)"
    "readable m (rv_ptr r) ls l" "q = rv_ptr r + l" "q + 10 + be_at m (q + 8) \<le> length m" "rv_ptr r1 = q + 10 + be_at m (q + 8)"
    "heads (rv_centa r1) = heads (rv_centa r) @ x \<and> length x \<le> 1"
    "length m \<le> rdlength_max \<longrightarrow> carr_typed (rv_centa r) \<longrightarrow> carr_typed (rv_centa r1)"
    "ignored (be_at m q) (be_at m (q + 2)) \<and> view (rv_centa r1) = view (rv_centa r) \<or>
     \<not> ignored (be_at m q) (be_at m (q + 2)) \<and> (\<exists>d. data_at m (int (be_at m q)) (q + 10) (be_at m (q + 8)) d \<and>
       view (rv_centa r1) = absorb (view (rv_centa r)) (key_of (enc ls)) (the (rrlkup (int (be_at m q))))
         (as_time (be_at m (q + 4) * 65536 + be_at m (q + 6))) ts fl d)"
  shows "rrs_res m (Suc n) fl ts r rc r'"
proof -
  have q: "quiet (rv_cache r) (rv_cache r')" using assms(1,2) quiet_trans unfolding rrs_res_def by blast
  have co: "carr_ok (rv_centa r')" "rv_ptr r' + rv_cnt r' = length m" using assms(1) by (simp_all add: rrs_res_def)
  show ?thesis
  proof (cases "rc = RC_FATALERR \<and> \<not> no_fail (rv_cache r1)")
    case True
    then have "\<not> no_fail (rv_cache r)" using assms(2) by (auto simp: quiet_def)
    then show ?thesis using True q co by (simp add: rrs_res_def)
  next
    case False
    then obtain y k e where y: "heads (rv_centa r') = heads (rv_centa r1) @ y \<and> length y \<le> n"
      "length m \<le> rdlength_max \<longrightarrow> carr_typed (rv_centa r1) \<longrightarrow> carr_typed (rv_centa r')"
      "records_at m fl ts (rv_ptr r1) (view (rv_centa r1)) k e (view (rv_centa r'))"
      "rc = RC_OK \<and> k = n \<and> e = rv_ptr r' \<or>
          rc \<in> {RC_FORMAT, RC_TRUNC} \<and> k < n \<and> \<not> (\<exists>v e v'. records_at m fl ts (rv_ptr r1) v n e v')"
      using assms(1) unfolding rrs_res_def by blast
    have R: "records_at m fl ts (rv_ptr r) (view (rv_centa r)) (Suc k) e (view (rv_centa r'))"
      using assms(9)
    proof (elim disjE conjE exE)
      assume "ignored (be_at m q) (be_at m (q + 2))" "view (rv_centa r1) = view (rv_centa r)"
      then show ?thesis using rec_skip [OF assms(3-5)] y(3) assms(6) by simp
    next
      fix d assume "\<not> ignored (be_at m q) (be_at m (q + 2))" "data_at m (int (be_at m q)) (q + 10) (be_at m (q + 8)) d"
        "view (rv_centa r1) = absorb (view (rv_centa r)) (key_of (enc ls)) (the (rrlkup (int (be_at m q))))
         (as_time (be_at m (q + 4) * 65536 + be_at m (q + 6))) ts fl d"
      then show ?thesis using rec_data [OF assms(3-5)] y(3) assms(6) by simp
    qed
    have N: "\<not> (\<exists>v e v'. records_at m fl ts (rv_ptr r) v (Suc n) e v')" if no: "\<not> (\<exists>v e v'. records_at m fl ts (rv_ptr r1) v n e v')"
    proof
      assume "\<exists>v e v'. records_at m fl ts (rv_ptr r) v (Suc n) e v'"
      then obtain v e v' where "records_at m fl ts (rv_ptr r) v (Suc n) e v'" by blast
      then obtain ls' l' q' v1 where z: "readable m (rv_ptr r) ls' l'" "q' = rv_ptr r + l'"
        "records_at m fl ts (q' + 10 + be_at m (q' + 8)) v1 n e v'" by (rule records_at_Suc) blast
      have "q' = q" using readable_unique [OF assms(3) z(1)] z(2) assms(4) by simp
      then show False using z(3) no assms(6) by auto
    qed
    have "\<exists>z. heads (rv_centa r') = heads (rv_centa r) @ z \<and> length z \<le> Suc n"
      using y(1) assms(7) by (intro exI [of _ "x @ y"]) simp
    moreover have "length m \<le> rdlength_max \<longrightarrow> carr_typed (rv_centa r) \<longrightarrow> carr_typed (rv_centa r')" using y(2) assms(8) by blast
    moreover have "\<exists>k e. records_at m fl ts (rv_ptr r) (view (rv_centa r)) k e (view (rv_centa r')) \<and>
         (rc = RC_OK \<and> k = Suc n \<and> e = rv_ptr r' \<or>
          rc \<in> {RC_FORMAT, RC_TRUNC} \<and> k < Suc n \<and> \<not> (\<exists>v e v'. records_at m fl ts (rv_ptr r) v (Suc n) e v'))"
      using R y(4) N by (intro exI [of _ "Suc k"] exI [of _ e]) auto
    ultimately show ?thesis using q co unfolding rrs_res_def by blast
  qed
qed

lemma get32_at: "i + 3 < length m \<Longrightarrow> get32 m i = Some (be_at m i * 65536 + be_at m (i + 2))"
  by (simp add: get32_def get16_at)

lemma opt_data_at: "ttlp + 2 < length m \<Longrightarrow> 12 \<le> length m \<Longrightarrow> \<exists>ep. opt_data m ttlp cl = Some ep"
  by (simp add: opt_data_def rd_nth hdr_rcode_def)

theorem rrs2cent_spec:
  assumes "12 \<le> length m"
  shows "cache_inv (rv_cache r) \<Longrightarrow> carr_ok (rv_centa r) \<Longrightarrow> rv_ptr r + rv_cnt r = length m \<Longrightarrow>
    \<exists>rc r'. rrs2cent E m n fl ts r = Some (rc, r') \<and> rrs_res m n fl ts r rc r'"
proof (induction n arbitrary: r)
  case 0
  then show ?case using rec_end by (auto simp: rrs_res_def quiet_def)
next
  case (Suc n)
  let ?p = "rv_ptr r" and ?f = "fresh E 0 DNSNAMEBUFSIZE"
  have q0: "quiet (rv_cache r) (rv_cache r)" using Suc.prems(1) by (simp add: quiet_def)
  note stop = rrs_res_stop [where m = m and n = n and fl = fl and ts = ts, OF Suc.prems(1) _ Suc.prems(2)]
  have f: "DNSNAMEBUFSIZE \<le> length ?f" by simp
  then show ?case
  proof (cases rule: decompress_readable [where m = m and p = ?p and cnt = "rv_cnt r"])
    case (err rc tgt')
    have "\<not> (\<exists>v e v'. records_at m fl ts ?p v (Suc n) e v')"
    proof
      assume "\<exists>v e v'. records_at m fl ts ?p v (Suc n) e v'"
      then obtain v e v' where "records_at m fl ts ?p v (Suc n) e v'" by blast
      then obtain ls l q v1 where z: "readable m ?p ls l" "q = ?p + l" "q + 10 + be_at m (q + 8) \<le> length m" by (rule records_at_Suc) blast
      then show False using err(4) [OF z(1)] Suc.prems(3) by simp
    qed
    then have "rrs_res m (Suc n) fl ts r rc r" using err(1) Suc.prems(3) by (intro stop q0) auto
    moreover have "rrs2cent E m (Suc n) fl ts r = Some (rc, r)" using err(1,3) by auto
    ultimately show ?thesis by blast
  next
    case (ok ls l)
    let ?q = "?p + l" and ?c = "rv_cnt r - l"
    have e1: "?q + ?c = length m" using ok(2) Suc.prems(3) by simp
    note uq = readable_unique [OF ok(1)]
    have no: "\<not> (\<exists>v e v'. records_at m fl ts ?p v (Suc n) e v')" if a: "\<not> ?q + 10 + be_at m (?q + 8) \<le> length m \<or>
        (\<not> ignored (be_at m ?q) (be_at m (?q + 2)) \<and> (\<forall>d. \<not> data_at m (int (be_at m ?q)) (?q + 10) (be_at m (?q + 8)) d))"
    proof
      assume "\<exists>v e v'. records_at m fl ts ?p v (Suc n) e v'"
      then obtain v e v' where "records_at m fl ts ?p v (Suc n) e v'" by blast
      then obtain ls' l' q v1 where z: "readable m ?p ls' l'" "q = ?p + l'" "q + 10 + be_at m (q + 8) \<le> length m"
        "ignored (be_at m q) (be_at m (q + 2)) \<or> (\<exists>d. data_at m (int (be_at m q)) (q + 10) (be_at m (q + 8)) d)"
        by (rule records_at_Suc)
      then have "q = ?q" using uq by simp
      then show False using z(3,4) a by blast
    qed
    show ?thesis
    proof (cases "?c < 10")
      case True
      let ?r = "r\<lparr> rv_ptr := ?q, rv_cnt := ?c \<rparr>"
      have "rrs_res m (Suc n) fl ts r RC_TRUNC ?r"
        by (rule stop) (use q0 e1 no True in simp_all)
      moreover have "rrs2cent E m (Suc n) fl ts r = Some (RC_TRUNC, ?r)" using ok(3) True by simp
      ultimately show ?thesis by blast
    next
      case False
      let ?tp = "be_at m ?q" and ?cl = "be_at m (?q + 2)" and ?len = "be_at m (?q + 8)"
      let ?ttl = "be_at m (?q + 4) * 65536 + be_at m (?q + 6)"
      have g: "get16 m ?q = Some ?tp" "get16 m (?q + 2) = Some ?cl" "get32 m (?q + 4) = Some ?ttl" "get16 m (?q + 8) = Some ?len"
        using False e1 get32_at [of "?q + 4" m] by (simp_all add: get16_at ac_simps)
      have on: "rdn (enc ls @ drop (length (enc ls)) ?f) 0 (length (enc ls)) = Some (enc ls)" by (simp add: rdn_def)
      let ?r1 = "r\<lparr> rv_ptr := ?q + 10, rv_cnt := ?c - 10 \<rparr>"
      have e2: "?q + 10 + (?c - 10) = length m" using False e1 by simp
      show ?thesis
      proof (cases "?c - 10 < ?len")
        case True
        have "rrs_res m (Suc n) fl ts r RC_TRUNC ?r1"
          by (rule stop) (use q0 e2 no True in simp_all)
        moreover have "rrs2cent E m (Suc n) fl ts r = Some (RC_TRUNC, ?r1)"
          using ok(3) False True g on by simp
        ultimately show ?thesis by blast
      next
        case len: False
        let ?r2 = "?r1\<lparr> rv_ptr := ?q + 10 + ?len, rv_cnt := ?c - 10 - ?len \<rparr>"
        have e3: "?q + 10 + ?len + (?c - 10 - ?len) = length m" using len e2 by simp
        have in_m: "?q + 10 + ?len \<le> length m" using e3 by simp
        note step = rrs_res_step [where r = r and m = m and n = n and fl = fl and ts = ts, OF _ _ ok(1) refl in_m]
        show ?thesis
        proof (cases "int ?tp = T_OPT")
          case True
          obtain ep0 where ep0: "opt_data m (?q + 4) ?cl = Some ep0" using opt_data_at [of "?q + 4" m ?cl] False e1 assms by auto
          let ?ep = "if rv_numopt r = 0 then ep0 else rv_ep r"
          let ?r3 = "?r2\<lparr> rv_numopt := rv_numopt r + 1, rv_ep := ?ep \<rparr>"
          obtain rc r' where R: "rrs2cent E m n fl ts ?r3 = Some (rc, r')" "rrs_res m n fl ts ?r3 rc r'"
            using Suc.IH [of ?r3] Suc.prems e3 by auto
          have "rrs2cent E m (Suc n) fl ts r = Some (rc, r')"
            using ok(3) False len g on True R(1) ep0 by (cases "rv_numopt r = 0") simp_all
          moreover have "rrs_res m (Suc n) fl ts r rc r'"
            by (rule step [OF R(2), where x = "[]"]) (use q0 True in \<open>simp_all add: ignored_def\<close>)
          ultimately show ?thesis by blast
        next
          case opt: False
          show ?thesis
          proof (cases "PDNSD_NOT_CACHED_TYPE (int ?tp) \<or> int ?cl \<noteq> C_IN")
            case True
            obtain rc r' where R: "rrs2cent E m n fl ts ?r2 = Some (rc, r')" "rrs_res m n fl ts ?r2 rc r'"
              using Suc.IH [of ?r2] Suc.prems e3 by auto
            have "rrs2cent E m (Suc n) fl ts r = Some (rc, r')"
              using ok(3) False len g on opt True R(1) by simp
            moreover have "rrs_res m (Suc n) fl ts r rc r'"
              by (rule step [OF R(2), where x = "[]"]) (use q0 True in \<open>simp_all add: ignored_def\<close>)
            ultimately show ?thesis by blast
          next
            case nc: False
            have ni: "\<not> ignored ?tp ?cl" using opt nc by (simp add: ignored_def)
            obtain x ms where x: "rr_data E (int ?tp) m (?q + 10) ?len (rv_cache r) = Some (x, (rv_cache r)\<lparr> mallocs := ms \<rparr>)"
              "no_fail (rv_cache r) \<longrightarrow> no_fail ((rv_cache r)\<lparr> mallocs := ms \<rparr>)"
              "case x of Inl e \<Rightarrow> e = RC_FORMAT \<and> (\<forall>d. \<not> data_at m (int ?tp) (?q + 10) ?len d) \<or> e = RC_FATALERR \<and> \<not> no_fail (rv_cache r)
               | Inr d \<Rightarrow> data_at m (int ?tp) (?q + 10) ?len d \<and> (?len \<le> rdlength_max \<longrightarrow> recv_ok (int ?tp) d)"
              using rr_data_ok [OF in_m, of E "int ?tp" "rv_cache r"] by blast
            let ?\<sigma> = "(rv_cache r)\<lparr> mallocs := ms \<rparr>"
            have q1: "quiet (rv_cache r) ?\<sigma>" by (rule quiet_mallocs [OF Suc.prems(1) x(2)])
            show ?thesis
            proof (cases x)
              case (Inl e)
              let ?r3 = "?r1\<lparr> rv_cache := ?\<sigma> \<rparr>"
              have run: "rrs2cent E m (Suc n) fl ts r = Some (e, ?r3)" using ok(3) False len g on opt nc x(1) Inl by simp
              have "rrs_res m (Suc n) fl ts r e ?r3"
              proof (cases "e = RC_FORMAT")
                case True
                then show ?thesis using x(3) Inl ni e2 q1 by (intro stop no) simp_all
              next
                case False
                then show ?thesis using x(3) Inl e2 q1 Suc.prems(2) by (simp add: rrs_res_def)
              qed
              then show ?thesis using run by blast
            next
              case (Inr d)
              obtain i where i: "rrlkup (int ?tp) = Some i" using cached_type nc by blast
              have ci: "cache_inv ?\<sigma>" using q1 by (simp add: quiet_def)
              have vn: "valid_name (enc ls)" using ok(1) valid_name_enc by (auto simp: readable_def)
              have nct: "\<not> PDNSD_NOT_CACHED_TYPE (int ?tp)" using nc by blast
              obtain e a' \<sigma>' where y: "rr_to_cache (rv_centa r) (enc ls) (int ?tp) (as_time ?ttl) d fl ts ?\<sigma> = Some (e, a', \<sigma>')"
                "rtc_res (rv_centa r) (enc ls) i (as_time ?ttl) d fl ts ?\<sigma> e a' \<sigma>'"
                "e = RC_OK \<longrightarrow> carr_typed (rv_centa r) \<longrightarrow> recv_ok (int ?tp) d \<longrightarrow> carr_typed a'"
                using rr_to_cache_ok [OF ci Suc.prems(2) vn nct i, of "as_time ?ttl" d fl ts] by blast
              have q2: "quiet (rv_cache r) \<sigma>'" and co: "carr_ok a'" using quiet_trans [OF q1] y(2) by (auto simp: rtc_res_def)
              show ?thesis
              proof (cases "e = RC_FATALERR")
                case True
                let ?r3 = "?r1\<lparr> rv_centa := a', rv_cache := \<sigma>' \<rparr>"
                have "\<not> no_fail (rv_cache r)" using y(2) True q1 by (auto simp: rtc_res_def quiet_def)
                then have "rrs_res m (Suc n) fl ts r e ?r3" using True q2 co e2 by (simp add: rrs_res_def)
                moreover have "rrs2cent E m (Suc n) fl ts r = Some (e, ?r3)"
                  using ok(3) False len g on opt nc x(1) Inr y(1) True by simp
                ultimately show ?thesis by blast
              next
                case fatal: False
                then obtain h where h: "e = RC_OK" "view a' = absorb (view (rv_centa r)) (key_of (enc ls)) i (as_time ?ttl) ts fl d"
                  "heads a' = heads (rv_centa r) @ h" "length h \<le> 1" using y(2) by (auto simp: rtc_res_def)
                let ?r3 = "?r2\<lparr> rv_centa := a', rv_cache := \<sigma>' \<rparr>"
                have "cache_inv \<sigma>'" using q2 by (simp add: quiet_def)
                then obtain rc r' where R: "rrs2cent E m n fl ts ?r3 = Some (rc, r')" "rrs_res m n fl ts ?r3 rc r'"
                  using Suc.IH [of ?r3] co e3 by auto
                have "rrs2cent E m (Suc n) fl ts r = Some (rc, r')"
                  using ok(3) False len g on opt nc x(1) Inr y(1) h(1) R(1) by simp
                moreover have "rrs_res m (Suc n) fl ts r rc r'"
                proof (rule step [OF R(2), where x = h])
                  show "quiet (rv_cache r) (rv_cache ?r3)" using q2 by simp
                  have "?len \<le> length m" using in_m by simp
                  then show "length m \<le> rdlength_max \<longrightarrow> carr_typed (rv_centa r) \<longrightarrow> carr_typed (rv_centa ?r3)"
                    using y(3) h(1) x(3) Inr by simp
                  have "the (rrlkup (int ?tp)) = i" using i by simp
                  then show "ignored ?tp ?cl \<and> view (rv_centa ?r3) = view (rv_centa r) \<or>
                     \<not> ignored ?tp ?cl \<and> (\<exists>d. data_at m (int ?tp) (?q + 10) ?len d \<and>
                       view (rv_centa ?r3) = absorb (view (rv_centa r)) (key_of (enc ls)) (the (rrlkup (int ?tp)))
                         (as_time (be_at m (?q + 4) * 65536 + be_at m (?q + 6))) ts fl d)"
                    using ni h(2) x(3) Inr by auto
                qed (use h(3,4) in simp_all)
                ultimately show ?thesis by blast
              qed
            qed
          qed
        qed
      qed
    qed
  qed
qed

end
