(* ===== verification/Pd_ReplySpec.thy ===== *)
theory Pd_ReplySpec
  imports Pd_Reply Pd_RecvSpec
begin

text \<open>
  Handling a reply is safe whatever a server sends: it ends without a failing assertion or an access
  outside an object, keeps the cache in order and its data typed, and puts nothing into the cache for
  names the server is not responsible for.
\<close>

lemma some_bool [simp]: "Ex Not" "\<exists>b. b"
  by (rule exI [of _ False], simp) (rule exI [of _ True], simp)

subsection \<open>The entries of the sections\<close>

definition sound :: "dns_cent \<Rightarrow> bool" where
  "sound c = (cent_wf c \<and> loose c \<and> cent_recv c)"

definition sounds :: "dns_cent list \<Rightarrow> bool" where
  "sounds cs = (\<forall>c \<in> set cs. sound c)"

lemma sounds_simps [simp]:
  "sounds []" "sounds (c # cs) = (sound c \<and> sounds cs)" "sounds (cs @ ds) = (sounds cs \<and> sounds ds)"
  by (auto simp: sounds_def)

lemma sound_shape: "sound c \<Longrightarrow> cent_shape c"
  by (simp add: sound_def cent_wf_def)

lemma sound_name:
  assumes "sound c"
  obtains ls where "wire_name ls" "ce_qname c = enc ls" "key_of (ce_qname c) = canon ls" "list_all name_label ls"
  using assms by (auto simp: sound_def cent_wf_def elim: valid_nameE)

lemma sound_RRSMU: "sound c \<Longrightarrow> i < NRRMU \<Longrightarrow> GET_RRSMU c i = Some (slot c i)"
  by (rule GET_RRSMU_eq [OF sound_shape])

lemma sound_getrrset: "sound c \<Longrightarrow> \<exists>r. getrrset c tp = Some r"
  using getrrset_eq [OF sound_shape] by blast

lemma sound_data: "sound c \<Longrightarrow> rrlkup tp = Some i \<Longrightarrow> slot c i = Some rs \<Longrightarrow> d \<in> set (rs_rrs rs) \<Longrightarrow> recv_ok tp d"
  by (auto simp: sound_def cent_recv_def list_all_iff)

lemma type_index: "rrlkup T_A = Some 0" "rrlkup T_NS = Some 1" "rrlkup T_SOA = Some 3" "rrlkup T_AAAA = Some 7"
  by code_simp+

abbreviation (input) refs :: "dns_cent \<Rightarrow> byte \<Rightarrow> byte \<Rightarrow> dns_cent" where
  "refs c x y \<equiv> c\<lparr> ce_ns := x, ce_soa := y \<rparr>"

lemma refs_props:
  "cent_wf (refs c x y) = cent_wf c" "loose (refs c x y) = loose c" "slot (refs c x y) = slot c" "neg (refs c x y) = neg c"
  "cent_recv (refs c x y) = cent_recv c" "sound (refs c x y) = sound c"
proof -
  have s: "slots (refs c x y) = slots c" "slot (refs c x y) = slot c" by (simp_all add: slot_def slots_def fun_eq_iff)
  have f: "ce_flags (refs c x y) = ce_flags c" "ce_qname (refs c x y) = ce_qname c" "ce_cs (refs c x y) = ce_cs c"
    "ce_num (refs c x y) = ce_num c" "ce_body (refs c x y) = ce_body c" by (cases c, simp)+
  show w: "cent_wf (refs c x y) = cent_wf c" by (simp only: cent_wf_def cent_shape_def cent_size_def s f)
  show l: "loose (refs c x y) = loose c" by (simp only: loose_def s f)
  show r: "cent_recv (refs c x y) = cent_recv c" by (simp add: cent_recv_def s)
  show "sound (refs c x y) = sound c" by (simp add: sound_def w l r)
qed (simp_all add: slot_def slots_def fun_eq_iff)

lemma free_cents_sound: "sounds cs \<Longrightarrow> free_cents cs \<sigma> = Some \<sigma>"
  by (induction cs) (simp_all add: sound_def cent_wf_def free_cent_loose)

subsection \<open>References\<close>

lemma domain_match_total: "sound c \<Longrightarrow> sound d \<Longrightarrow> \<exists>k a b. domain_match (ce_qname c) (ce_qname d) = Some (k, a, b)"
  using domain_match_enc [where r = "[]" and s = "[]"] wire_name_labels wire_name_count by (elim sound_name) fastforce

lemma match_auth_ok:
  "sounds cs \<Longrightarrow> sound c \<Longrightarrow> \<exists>x y. match_auth st cs c = Some (refs c x y)"
proof (induction cs arbitrary: c)
  case Nil
  have "c = refs c (ce_ns c) (ce_soa c)" by simp
  then show ?case by (metis match_auth.simps(1))
next
  case (Cons a cs)
  then have a: "sound a" "sounds cs" by simp_all
  obtain k r q where d: "domain_match (ce_qname a) (ce_qname c) = Some (k, r, q)" using domain_match_total a Cons.prems by blast
  have g: "GET_RRSMU a 1 = Some (slot a 1)" "GET_RRSMU a 3 = Some (slot a 3)" using sound_RRSMU [OF a(1)] by simp_all
  show ?case
  proof (cases "r = 0 \<and> (k \<noteq> 0 \<or> qs_auth_serv st \<noteq> 2)")
    case True
    let ?c = "refs c (if slot a 1 \<noteq> None then closer (ce_ns c) k else ce_ns c) (if slot a 3 \<noteq> None then closer (ce_soa c) k else ce_soa c)"
    have "sound ?c" using Cons.prems(2) by (simp only: refs_props)
    from Cons.IH [OF a(2) this] obtain x y where "match_auth st cs ?c = Some (refs ?c x y)" by blast
    then show ?thesis using d g True by auto
  next
    case False
    then show ?thesis using Cons.IH [OF a(2) Cons.prems(2)] d by auto
  qed
qed

lemma mark_cent_ok:
  assumes "sounds auth" "sound c"
  shows "\<exists>x y. mark_cent st qtype n auth c = Some (refs c x y)"
proof -
  obtain ls where ls: "ce_qname c = enc ls" "list_all name_label ls" using sound_name [OF assms(2)] by blast
  have n: "rhnsegcnt (ce_qname c) = Some (length ls)" using rhnsegcnt_enc [OF ls(2), of "[]"] ls(1) by simp
  have g: "GET_RRSMU c 1 = Some (slot c 1)" "GET_RRSMU c 3 = Some (slot c 3)" using sound_RRSMU [OF assms(2)] by simp_all
  let ?c = "refs c (if slot c 1 \<noteq> None then word_of_nat (length ls) else ce_ns c) (if slot c 3 \<noteq> None then word_of_nat (length ls) else ce_soa c)"
  have s: "sound ?c" using assms(2) by (simp only: refs_props)
  obtain r where r: "getrrset ?c qtype = Some r" using sound_getrrset [OF s] by blast
  obtain x y where m: "match_auth st auth ?c = Some (refs ?c x y)" using match_auth_ok [OF assms(1) s] by blast
  have "mark_cent st qtype n auth c \<in> {Some ?c, Some (refs ?c x y)}"
    unfolding mark_cent_def n g bind_simps(2) using m r by (auto simp: Let_def)
  then show ?thesis by auto
qed

lemma mark_cents_ok:
  assumes "sounds auth" "sounds cs"
  shows "\<exists>cs'. mark_cents st qtype n auth cs = Some cs' \<and> list_all2 (\<lambda>c c'. \<exists>x y. c' = refs c x y) cs cs'"
  using assms(2)
proof (induction cs)
  case (Cons c cs)
  then obtain x y where c: "mark_cent st qtype n auth c = Some (refs c x y)" using mark_cent_ok [OF assms(1), of c st qtype n] by auto
  obtain cs' where "mark_cents st qtype n auth cs = Some cs'" "list_all2 (\<lambda>c c'. \<exists>x y. c' = refs c x y) cs cs'" using Cons by auto
  then show ?case using c by (intro exI [of _ "refs c x y # cs'"]) (simp, blast)
qed simp

lemma marked_sounds: "list_all2 (\<lambda>c c'. \<exists>x y. c' = refs c x y) cs cs' \<Longrightarrow> sounds cs \<Longrightarrow> sounds cs'"
  by (induction rule: list_all2_induct) (auto simp: refs_props)

subsection \<open>Rejected addresses\<close>

lemma any_data_ok:
  assumes "\<forall>d \<in> set ds. length d = n"
  shows "\<exists>b. any_data n ams ds = Some b"
proof -
  have e: "\<exists>b. any_equiv n d ams = Some b" if len: "length d = n" for d
  proof (induction ams)
    case (Cons am ams)
    have "\<exists>x. addr_equiv n d am = Some x" using len by (simp add: addr_equiv_def rdn_def)
    then obtain x where x: "addr_equiv n d am = Some x" by blast
    show ?case using Cons x by (cases x) simp_all
  qed simp
  show ?thesis using assms
  proof (induction ds)
    case (Cons d ds)
    obtain x where x: "any_equiv n d ams = Some x" using e [of d] Cons.prems by auto
    show ?case using Cons x by (cases x) simp_all
  qed simp
qed

lemma cents_rejected_ok: "sounds cs \<Longrightarrow> \<exists>b. cents_rejected rl cs = Some b"
proof (induction cs)
  case (Cons c cs)
  then have c: "sound c" by simp
  have g: "GET_RRSMU c 0 = Some (slot c 0)" "GET_RRSMU c 7 = Some (slot c 7)" using sound_RRSMU [OF c] by simp_all
  have "\<exists>b. set_rejected 4 ams (slot c 0) = Some b" "\<exists>b. set_rejected 16 ams (slot c 7) = Some b" for ams
  proof -
    have "\<exists>b. any_data 4 ams (rs_rrs rs) = Some b" if "slot c 0 = Some rs" for rs
      using sound_data [OF c type_index(1) that] by (intro any_data_ok) (simp add: recv_ok_def)
    then show "\<exists>b. set_rejected 4 ams (slot c 0) = Some b" by (cases "slot c 0") (auto simp: set_rejected_def)
    have "\<exists>b. any_data 16 ams (rs_rrs rs) = Some b" if "slot c 7 = Some rs" for rs
      using sound_data [OF c type_index(4) that] by (intro any_data_ok) (simp add: recv_ok_def)
    then show "\<exists>b. set_rejected 16 ams (slot c 7) = Some b" by (cases "slot c 7") (auto simp: set_rejected_def)
  qed
  then obtain e4 e6 where "set_rejected 4 (rj_a4 rl) (slot c 0) = Some e4" "set_rejected 16 (rj_a6 rl) (slot c 7) = Some e6" by metis
  then show ?case using Cons g by auto
qed simp

subsection \<open>SOA records\<close>

lemma recv_names:
  assumes "recv_ok tp d"
  shows "tp = T_NS \<Longrightarrow> \<exists>a. wire_name a \<and> d = enc a"
    and "tp = T_SOA \<Longrightarrow> \<exists>a b n. wire_name a \<and> wire_name b \<and> length n = 20 \<and> d = enc a @ enc b @ n"
  using assms by (auto simp: recv_ok_def rdata_ok_def layout_def) blast

lemma soa_minimum_ok:
  assumes "recv_ok T_SOA d"
  shows "\<exists>t. soa_minimum d = Some t"
proof -
  obtain a b n where d: "wire_name a" "wire_name b" "length n = 20" "d = enc a @ enc b @ n" using recv_names(2) [OF assms] by blast
  have "skiprhn d = Some (enc b @ n)" "skiprhn (enc b @ n) = Some n"
    using skiprhn_enc [OF wire_name_labels [OF d(1)], of "enc b @ n"] skiprhn_enc [OF wire_name_labels [OF d(2)], of n] d(4) by simp_all
  moreover have "\<exists>x. get32 n 16 = Some x" using get32_at [of 16 n] d(3) by auto
  ultimately show ?thesis by (auto simp: soa_minimum_def)
qed

lemma soa_ttl_ok:
  assumes "\<And>rs. r = Some rs \<Longrightarrow> list_all (recv_ok T_SOA) (rs_rrs rs)"
  shows "\<exists>t. soa_ttl r ttl = Some t"
proof (cases r)
  case (Some rs)
  show ?thesis
  proof (cases "rs_rrs rs")
    case (Cons d ds)
    then obtain t where "soa_minimum d = Some t" using soa_minimum_ok assms Some by fastforce
    then show ?thesis using Some Cons by (auto simp: soa_ttl_def)
  qed (simp add: soa_ttl_def Some)
qed (simp add: soa_ttl_def)

lemma sound_soa:
  assumes "sound c"
  shows "\<exists>r. GET_RRSMU c 3 = Some r \<and> (\<forall>rs. r = Some rs \<longrightarrow> list_all (recv_ok T_SOA) (rs_rrs rs))"
  using sound_RRSMU [OF assms, of 3] sound_data [OF assms type_index(3)] by (auto simp: list_all_iff)

lemma sounds_valid: "sounds cs \<Longrightarrow> \<forall>c \<in> set cs. valid_name (ce_qname c)"
  by (simp add: sounds_def sound_def cent_wf_def)

lemma auth_soa_ok:
  assumes "sounds (ca_list (rp_auth s))" "valid_name nm"
  shows "\<exists>r. auth_soa s nm = Some r \<and> (\<forall>rs. r = Some rs \<longrightarrow> list_all (recv_ok T_SOA) (rs_rrs rs))"
proof -
  let ?cs = "ca_list (rp_auth s)"
  obtain i where i: "lookup_cent_array ?cs nm = Some i" "\<And>k. i = Some k \<Longrightarrow> k < length ?cs"
    using lookup_cent_array_spec [OF sounds_valid [OF assms(1)] assms(2)] by (auto split: option.splits)
  show ?thesis
  proof (cases i)
    case (Some k)
    then have k: "k < length ?cs" using i(2) by simp
    then have "sound (?cs ! k)" using assms(1) by (simp add: sounds_def)
    then show ?thesis using sound_soa Some i(1) k by (simp add: auth_soa_def rd_nth)
  qed (use i in \<open>simp add: auth_soa_def\<close>)
qed

text \<open>The TTL of a negative answer.\<close>

lemma up_name:
  assumes "valid_name nm"
  obtains n where "rhnsegcnt nm = Some n" "\<And>k. \<exists>up. skipsegs nm k = Some up \<and> valid_name up"
proof -
  obtain ls where ls: "wire_name ls" "nm = enc ls" "list_all name_label ls" using assms by (auto elim: valid_nameE)
  have "rhnsegcnt nm = Some (length ls)" using rhnsegcnt_enc [OF ls(3), of "[]"] ls(2) by simp
  moreover have "\<exists>up. skipsegs nm k = Some up \<and> valid_name up" for k
    using skipsegs_enc [OF ls(3), of "[]" k] ls(2) valid_name_enc [OF wire_name_drop [OF ls(1)]] by simp
  ultimately show ?thesis by (rule that)
qed

subsection \<open>Changes of the answer\<close>

lemma entries_kept: "cache_inv \<sigma> \<Longrightarrow> cinv (dom (cents \<sigma>)) {} \<sigma>"
  by (simp add: cache_inv_def)

text \<open>From an entry that is not in the cache to another one.\<close>

lemma held_quiet:
  assumes "cache_inv \<sigma>" "frame \<sigma> \<sigma>'" "held (next_id \<sigma>) c' (rest (next_id \<sigma>) (cents \<sigma>)) \<sigma>'" "loose c'" "no_fail \<sigma> \<longrightarrow> no_fail \<sigma>'"
  shows "quiet \<sigma> \<sigma>'"
proof -
  note I = entries_kept [OF assms(1)]
  have "rrl_ok (items (cents \<sigma>)) (rrl \<sigma>') (next_id \<sigma>')"
    using assms(3) loose_items [OF assms(4), of "next_id \<sigma>"] rest_fresh [of "cents \<sigma>" "next_id \<sigma>", OF fresh_addr [OF I]]
    by (simp add: held_def)
  moreover note f = frameD [OF assms(2)]
  moreover have "qn \<sigma>' = qn \<sigma>" using f(1) by (simp add: qn_def fun_eq_iff)
  ultimately show ?thesis using I assms(2,5) by (simp add: quiet_def cache_inv_def cinv_def entries_ok_def)
qed

lemma negate_sound:
  assumes "cache_inv \<sigma>" "sound c" "\<not> neg c"
  shows "\<exists>c' \<sigma>'. negate_cent c ttl ts \<sigma> = Some (c', \<sigma>') \<and> sound c' \<and> quiet \<sigma> \<sigma>' \<and> ce_qname c' = ce_qname c \<and>
    ce_flags c' = ce_flags c OR DF_NEGATIVE \<and> ce_body c' = NegBody None ttl ts"
proof -
  note I = entries_kept [OF assms(1)]
  have c: "cent_wf c" "loose c" using assms(2) by (simp_all add: sound_def)
  have h: "held (next_id \<sigma>) c (rest (next_id \<sigma>) (cents \<sigma>)) \<sigma>" by (rule held_fresh [OF I fresh_addr [OF I] c(2)])
  obtain c' \<sigma>' where r: "negate_cent c ttl ts \<sigma> = Some (c', \<sigma>')" "cent_wf c'" "held (next_id \<sigma>) c' (rest (next_id \<sigma>) (cents \<sigma>)) \<sigma>'"
    "frame \<sigma> \<sigma>'" "mallocs \<sigma>' = mallocs \<sigma>" "ce_qname c' = ce_qname c" "ce_flags c' = ce_flags c OR DF_NEGATIVE"
    using negate_cent_spec [OF c(1) h] by blast
  have b: "ce_body c' = NegBody None ttl ts" using r(1) assms(3)
    by (auto simp: negate_cent_def split: cent_body.splits option.splits prod.splits Option.bind_splits)
  have lo: "loose c'" using b by (simp add: loose_def)
  have "slot c' i = None" for i using b by (simp add: slot_def slots_def)
  then have "sound c'" using r(2) lo by (simp add: sound_def cent_recv_def)
  moreover have "quiet \<sigma> \<sigma>'" by (rule held_quiet [OF assms(1) r(4,3) lo]) (use r(5) in \<open>simp add: no_fail_def\<close>)
  ultimately show ?thesis using r b by blast
qed

lemma nocache_sound:
  assumes "sound c" "neg c"
  shows "sound (c\<lparr> ce_flags := ce_flags c OR x \<rparr>)"
proof -
  let ?c = "c\<lparr> ce_flags := ce_flags c OR x \<rparr>"
  have s: "slots ?c = slots c" "slot ?c = slot c" by (simp_all add: slot_def slots_def fun_eq_iff)
  have sh: "cent_shape ?c" using sound_shape [OF assms(1)] assms(2) by (auto simp: cent_shape_def split: cent_body.splits)
  then have "cent_wf ?c" using assms(1) s by (simp add: sound_def cent_wf_def cent_size_def)
  moreover have "loose ?c" using assms(1) s by (simp add: sound_def loose_def split: cent_body.splits)
  ultimately show ?thesis using assms(1) s by (simp add: sound_def cent_recv_def)
qed

lemma add_set_sound:
  assumes "cache_inv \<sigma>" "sound c" "rrlkup tp = Some i" "i < NRRTOT" "slot c i = None"
  shows "\<exists>ok c' \<sigma>'. add_cent_rrset_by_type c tp ttl ts fl \<sigma> = Some (ok, c', \<sigma>') \<and> sound c' \<and> quiet \<sigma> \<sigma>' \<and>
    ce_qname c' = ce_qname c \<and> (no_fail \<sigma> \<longrightarrow> ok) \<and>
    (ok \<longrightarrow> slot c' = (slot c)(i := Some \<lparr> rs_lent = None, rs_ttl = ttl, rs_ts = ts, rs_flags = fl, rs_rrs = [] \<rparr>))"
proof -
  note I = entries_kept [OF assms(1)]
  let ?rs = "\<lparr> rs_lent = None, rs_ttl = ttl, rs_ts = ts, rs_flags = fl, rs_rrs = [] \<rparr>"
  have c: "cent_wf c" "loose c" "cent_recv c" using assms(2) by (simp_all add: sound_def)
  have h: "held (next_id \<sigma>) c (rest (next_id \<sigma>) (cents \<sigma>)) \<sigma>" by (rule held_fresh [OF I fresh_addr [OF I] c(2)])
  obtain ok c' \<sigma>' where r: "add_cent_rrset_by_index c i ttl ts fl \<sigma> = Some (ok, c', \<sigma>')"
    "add_set_res (next_id \<sigma>) (rest (next_id \<sigma>) (cents \<sigma>)) c i ?rs \<sigma> ok c' \<sigma>'"
    using add_cent_rrset_spec [OF c(1) h assms(4,5)] by blast
  have a: "cent_wf c'" "\<not> neg c'" "held (next_id \<sigma>) c' (rest (next_id \<sigma>) (cents \<sigma>)) \<sigma>'" "frame \<sigma> \<sigma>'"
    "\<forall>j. slot c' j = (if ok \<and> j = i then Some ?rs else slot c j)" "ce_qname c' = ce_qname c" "no_fail \<sigma> \<longrightarrow> ok \<and> no_fail \<sigma>'"
    using r(2) unfolding add_set_res_def by blast+
  have lo: "loose c'"
  proof (rule looseI)
    show "cent_shape c'" "\<not> neg c'" using a(1,2) by (simp_all add: cent_wf_def)
    fix j rs assume j: "slot c' j = Some rs"
    show "rs_lent rs = None"
    proof (cases "ok \<and> j = i")
      case True
      then show ?thesis using a(5) j by auto
    next
      case False
      then have "slot c j = Some rs" using a(5) j by auto
      then show ?thesis by (rule loose_slot [OF c(2)])
    qed
  qed
  have "cent_recv c'" using a(5) c(3) by (auto simp: cent_recv_def split: if_splits)
  then have so: "sound c'" using a(1) lo by (simp add: sound_def)
  have q: "quiet \<sigma> \<sigma>'" by (rule held_quiet [OF assms(1) a(4,3) lo]) (use a(7) in blast)
  have "0 \<le> tp - T_MIN" "tp - T_MIN < int T_NUM" using rrlkup_range [OF assms(3)] by simp_all
  then have "add_cent_rrset_by_type c tp ttl ts fl \<sigma> = Some (ok, c', \<sigma>')" using assms(3) r(1) by (simp add: add_cent_rrset_by_type_def)
  moreover have "slot c' = (slot c)(i := Some ?rs)" if "ok" using a(5) that by (auto simp: fun_eq_iff)
  ultimately show ?thesis using so q a(6,7) by blast
qed

subsection \<open>Name errors\<close>

lemma negative_ttl_ok:
  assumes "sounds (ca_list (rp_auth s))" "valid_name nm"
  shows "\<exists>t. do { up \<leftarrow> skipsegs nm k; r \<leftarrow> auth_soa s up; soa_ttl r ttl } = Some t"
proof -
  obtain n where n: "rhnsegcnt nm = Some n" "\<And>k. \<exists>up. skipsegs nm k = Some up \<and> valid_name up" by (rule up_name [OF assms(2)]) (rule that)
  obtain up where up: "skipsegs nm k = Some up" "valid_name up" using n(2) by blast
  obtain r where r: "auth_soa s up = Some r" "\<forall>rs. r = Some rs \<longrightarrow> list_all (recv_ok T_SOA) (rs_rrs rs)"
    using auth_soa_ok [OF assms(1) up(2)] by blast
  obtain t where "soa_ttl r ttl = Some t" using soa_ttl_ok [of r ttl] r(2) by blast
  then show ?thesis using up r(1) by simp
qed

text \<open>The entry of the answer, its other entries and the two other sections.\<close>

definition qreply_ok :: "name \<Rightarrow> qreply \<Rightarrow> bool" where
  "qreply_ok nm s = (cache_inv (rp_cache s) \<and> sounds (ca_list (rp_ans s) @ ca_list (rp_auth s) @ ca_list (rp_add s)) \<and>
     ca_list (rp_ans s) \<noteq> [] \<and> ce_qname (hd (ca_list (rp_ans s))) = nm)"

lemma qreply_okE:
  assumes "qreply_ok nm s"
  obtains c cs where "rp_ans s = Some (c # cs)" "sound c" "sounds cs" "ce_qname c = nm" "cache_inv (rp_cache s)"
    "sounds (ca_list (rp_auth s))" "sounds (ca_list (rp_add s))" "valid_name nm"
proof -
  obtain c cs where a: "ca_list (rp_ans s) = c # cs" using assms by (cases "ca_list (rp_ans s)") (auto simp: qreply_ok_def)
  then have "rp_ans s = Some (c # cs)" by (cases "rp_ans s") (simp_all add: ca_list_def)
  moreover have "sound c" "sounds cs" "ce_qname c = nm" "cache_inv (rp_cache s)" "sounds (ca_list (rp_auth s))" "sounds (ca_list (rp_add s))"
    using assms a by (simp_all add: qreply_ok_def)
  moreover from this have "valid_name nm" by (simp add: sound_def cent_wf_def)
  ultimately show ?thesis by (rule that)
qed

text \<open>Only the answer, the list of servers, \<open>*c_soa\<close> and the allocations may differ.\<close>

definition same_but :: "qreply \<Rightarrow> qreply \<Rightarrow> bool" where
  "same_but s s' = (quiet (rp_cache s) (rp_cache s') \<and> rp_auth s' = rp_auth s \<and> rp_add s' = rp_add s \<and>
     tl (ca_list (rp_ans s')) = tl (ca_list (rp_ans s)) \<and> rp_st s' = rp_st s \<and> rp_clock s' = rp_clock s)"

lemma same_but_trans: "same_but s s1 \<Longrightarrow> same_but s1 s2 \<Longrightarrow> same_but s s2"
  unfolding same_but_def using quiet_trans by fastforce

lemma quiet_refl: "cache_inv \<sigma> \<Longrightarrow> quiet \<sigma> \<sigma>"
  by (simp add: quiet_def)

lemma qreply_ok_set:
  assumes "qreply_ok nm s" "sound c'" "ce_qname c' = nm" "quiet (rp_cache s) \<sigma>'"
  shows "qreply_ok nm (set_ent c' (s\<lparr> rp_cache := \<sigma>' \<rparr>)) \<and> same_but s (set_ent c' (s\<lparr> rp_cache := \<sigma>' \<rparr>))"
proof -
  obtain c cs where a: "rp_ans s = Some (c # cs)" "sounds cs" "sounds (ca_list (rp_auth s))" "sounds (ca_list (rp_add s))"
    using assms(1) by (rule qreply_okE) blast
  then show ?thesis using assms(2-4) by (simp add: qreply_ok_def same_but_def set_ent_def ca_list_def quiet_def)
qed

lemma name_error_ok:
  assumes "qreply_ok nm s" "\<not> neg (hd (ca_list (rp_ans s)))"
  shows "\<exists>b s'. name_error R nm ts s = Some (b, s') \<and> same_but s s' \<and> qreply_ok nm s' \<and> rp_ns s' = rp_ns s \<and>
    (b \<longleftrightarrow> rc_neg_domain_pol R = C_ON \<or> rc_neg_domain_pol R = C_AUTH \<and> qs_aa (rp_st s)) \<and>
    (b \<longrightarrow> neg (hd (ca_list (rp_ans s'))) \<and> (\<exists>ttl. ce_body (hd (ca_list (rp_ans s'))) = NegBody None ttl ts)) \<and>
    (\<not> b \<longrightarrow> ca_list (rp_ans s') = ca_list (rp_ans s))"
proof -
  obtain c cs where a: "rp_ans s = Some (c # cs)" "sound c" "sounds cs" "ce_qname c = nm" "cache_inv (rp_cache s)"
    "sounds (ca_list (rp_auth s))" "sounds (ca_list (rp_add s))" "valid_name nm" using assms(1) by (rule qreply_okE)
  have ent: "rd (ca_list (rp_ans s)) 0 = Some c" using a(1) by (simp add: ca_list_def rd_nth)
  show ?thesis
  proof (cases "rc_neg_domain_pol R = C_ON \<or> rc_neg_domain_pol R = C_AUTH \<and> qs_aa (rp_st s)")
    case True
    obtain n where n: "rhnsegcnt nm = Some n" by (rule up_name [OF a(8)])
    obtain t where t: "(if ce_soa c \<noteq> cundef \<and> unat (ce_soa c) < n then do {
             up \<leftarrow> skipsegs nm (n - unat (ce_soa c)); r \<leftarrow> auth_soa s up; soa_ttl r (rc_neg_ttl R) } else Some (rc_neg_ttl R)) = Some t"
      using negative_ttl_ok [OF a(6,8), of "n - unat (ce_soa c)" "rc_neg_ttl R"] by (cases "ce_soa c \<noteq> cundef \<and> unat (ce_soa c) < n") auto
    have nn: "\<not> neg c" using assms(2) a(1) by (simp add: ca_list_def)
    obtain c1 \<sigma>' where c1: "negate_cent c t ts (rp_cache s) = Some (c1, \<sigma>')" "sound c1" "quiet (rp_cache s) \<sigma>'" "ce_qname c1 = ce_qname c"
      "ce_flags c1 = ce_flags c OR DF_NEGATIVE" "ce_body c1 = NegBody None t ts" using negate_sound [OF a(5,2) nn] by blast
    let ?c = "if qs_nocache (rp_st s) then c1\<lparr> ce_flags := ce_flags c1 OR DF_NOCACHE \<rparr> else c1"
    let ?s = "set_ent ?c (s\<lparr> rp_cache := \<sigma>' \<rparr>)"
    have ng: "neg c1" using c1(5) by simp
    have c: "sound ?c" "ce_qname ?c = nm" "neg ?c" "ce_body ?c = NegBody None t ts"
      using nocache_sound [OF c1(2) ng, of DF_NOCACHE] c1 a(4) by auto
    have run: "name_error R nm ts s = Some (True, ?s)"
      using ent n t c1(1) True by (auto simp: name_error_def Let_def)
    have hd: "hd (ca_list (rp_ans ?s)) = ?c" using a(1) by (simp add: set_ent_def ca_list_def)
    show ?thesis using run qreply_ok_set [OF assms(1) c(1,2) c1(3)] True c(3,4) hd by (intro exI [of _ True] exI [of _ ?s]) (simp add: set_ent_def)
  next
    case False
    have "free_cent c (rp_cache s) = Some (rp_cache s)" using a(2) by (simp add: sound_def cent_wf_def free_cent_loose)
    then have run: "name_error R nm ts s = Some (False, s\<lparr> rp_csoa := Some (ce_soa c), rp_cache := rp_cache s \<rparr>)"
      using ent False by (auto simp: name_error_def Let_def)
    show ?thesis using run assms(1) False quiet_refl [OF a(5)]
      by (intro exI [of _ False] exI [of _ "s\<lparr> rp_csoa := Some (ce_soa c), rp_cache := rp_cache s \<rparr>"]) (simp add: qreply_ok_def same_but_def)
  qed
qed

subsection \<open>Zones that only delegate\<close>

lemma valid_match:
  assumes "valid_name a" "valid_name b"
  shows "\<exists>k x y. domain_match a b = Some (k, x, y)"
  using assms domain_match_enc [where r = "[]" and s = "[]"] wire_name_labels wire_name_count by (elim valid_nameE) fastforce

lemma zone_above_ok: "valid_name nm \<Longrightarrow> list_all valid_name zs \<Longrightarrow> \<exists>z. zone_above nm zs = Some z"
proof (induction zs)
  case (Cons z zs)
  then obtain k x y where "domain_match nm z = Some (k, x, y)" using valid_match by fastforce
  then show ?case using Cons by (cases "k \<noteq> 0 \<and> y = 0") auto
qed simp

lemma find_deleg_ok: "sounds cs \<Longrightarrow> list_all valid_name zs \<Longrightarrow> \<exists>f n. find_deleg zs cs cnt = Some (f, n)"
proof (induction cs arbitrary: cnt)
  case (Cons c cs)
  then have c: "sound c" by simp
  have g: "GET_RRSMU c 1 = Some (slot c 1)" "GET_RRSMU c 3 = Some (slot c 3)" using sound_RRSMU [OF c] by simp_all
  obtain z where z: "zone_above (ce_qname c) zs = Some z" using zone_above_ok [of "ce_qname c" zs] Cons.prems sounds_valid [of "[c]"] c by auto
  show ?case using Cons g z by (cases "slot c 1 \<noteq> None \<or> slot c 3 \<noteq> None"; cases "z = Some 0") auto
qed simp

lemma missing_delegation_ok:
  assumes "qreply_ok nm s" "list_all valid_name (rc_deleg_only R)"
  shows "\<exists>b n. missing_delegation R nm s = Some (b, n)"
proof -
  obtain c cs where a: "rp_ans s = Some (c # cs)" "sounds (c # cs)" "sounds (ca_list (rp_auth s))" "valid_name nm"
    using assms(1) by (rule qreply_okE) simp
  obtain z where z: "zone_above nm (rc_deleg_only R) = Some z" using zone_above_ok [OF a(4) assms(2)] by blast
  have "sounds (ca_list (rp_ans s) @ ca_list (rp_auth s))" using a by (simp add: ca_list_def)
  from find_deleg_ok [OF this assms(2)] obtain f n where "find_deleg (rc_deleg_only R) (ca_list (rp_ans s) @ ca_list (rp_auth s)) 0 = Some (f, n)"
    by blast
  then show ?thesis using z by (auto simp: missing_delegation_def split: option.splits)
qed

subsection \<open>Negative RR sets\<close>

definition wanted_ok :: "int \<Rightarrow> bool" where
  "wanted_ok tp = (T_MIN \<le> tp \<and> tp \<le> T_MAX \<longrightarrow> \<not> PDNSD_NOT_CACHED_TYPE tp)"

lemma negative_set_ok:
  assumes "qreply_ok nm s" "wanted_ok thint"
  shows "\<exists>ok s'. negative_set R nm thint fl aa ts s = Some (ok, s') \<and> same_but s s' \<and> qreply_ok nm s' \<and> rp_ns s' = rp_ns s \<and>
    (no_fail (rp_cache s) \<longrightarrow> ok)"
proof -
  obtain c cs where a: "rp_ans s = Some (c # cs)" "sound c" "sounds cs" "ce_qname c = nm" "cache_inv (rp_cache s)"
    "sounds (ca_list (rp_auth s))" "sounds (ca_list (rp_add s))" "valid_name nm" using assms(1) by (rule qreply_okE)
  have ent: "rd (ca_list (rp_ans s)) 0 = Some c" using a(1) by (simp add: ca_list_def rd_nth)
  have triv: "same_but s s" using quiet_refl [OF a(5)] by (simp add: same_but_def)
  show ?thesis
  proof (cases "T_MIN \<le> thint \<and> thint \<le> T_MAX")
    case False
    then have "negative_set R nm thint fl aa ts s = Some (True, s)" using ent unfolding negative_set_def by (simp add: Let_def)
    then show ?thesis using assms(1) triv by blast
  next
    case rng: True
    then have "\<not> PDNSD_NOT_CACHED_TYPE thint" using assms(2) by (simp add: wanted_ok_def)
    then obtain i where i: "rrlkup thint = Some i" "i < NRRTOT" using cached_type by blast
    have g: "getrrset c thint = Some (slot c i)" using getrrset_eq [OF sound_shape [OF a(2)], of thint] i(1) by simp
    let ?skip = "slot c i \<noteq> None \<or> qs_tc (rp_st s) \<or> qs_failed (rp_st s) > 1 \<or>
            \<not> (rc_neg_rrs_pol R = C_ON \<or> (rc_neg_rrs_pol R = C_AUTH \<and> aa) \<or> (rc_neg_rrs_pol R = C_DEFAULT \<and> (aa \<or> qs_ra (rp_st s))))"
    show ?thesis
    proof (cases ?skip)
      case True
      then have "negative_set R nm thint fl aa ts s = Some (True, s)" using ent g rng unfolding negative_set_def by (simp add: Let_def)
      then show ?thesis using assms(1) triv by blast
    next
      case False
      obtain r where r: "GET_RRSMU c 3 = Some r" "\<forall>rs. r = Some rs \<longrightarrow> list_all (recv_ok T_SOA) (rs_rrs rs)" using sound_soa [OF a(2)] by blast
      obtain n where n: "rhnsegcnt nm = Some n" by (rule up_name [OF a(8)])
      let ?up = "do {
               scnt \<leftarrow> rhnsegcnt nm;
               up \<leftarrow> (if ce_soa c \<noteq> cundef \<and> unat (ce_soa c) < scnt then skipsegs nm (scnt - unat (ce_soa c)) else Some nm);
               r \<leftarrow> auth_soa s up;
               soa_ttl r (rc_neg_ttl R)
             }"
      obtain t1 where t1: "?up = Some t1"
        using negative_ttl_ok [OF a(6,8), of "n - unat (ce_soa c)" "rc_neg_ttl R"] negative_ttl_ok [OF a(6,8), of 0 "rc_neg_ttl R"] n
        by (cases "ce_soa c \<noteq> cundef \<and> unat (ce_soa c) < n") auto
      obtain t2 where t2: "soa_ttl r (rc_neg_ttl R) = Some t2" using soa_ttl_ok [of r] r(2) by blast
      obtain t where t: "(if (case r of None \<Rightarrow> False | Some rs \<Rightarrow> rs_rrs rs \<noteq> []) then soa_ttl r (rc_neg_ttl R) else ?up) = Some t"
        unfolding t1 t2 by (cases "case r of None \<Rightarrow> False | Some rs \<Rightarrow> rs_rrs rs \<noteq> []") simp_all
      have none: "slot c i = None" using False by blast
      obtain ok c' \<sigma>' where x: "add_cent_rrset_by_type c thint t ts (CF_NEGATIVE OR fl) (rp_cache s) = Some (ok, c', \<sigma>')" "sound c'"
        "quiet (rp_cache s) \<sigma>'" "ce_qname c' = ce_qname c" "no_fail (rp_cache s) \<longrightarrow> ok"
        using add_set_sound [OF a(5,2) i none] by blast
      have "negative_set R nm thint fl aa ts s = Some (ok, set_ent c' (s\<lparr> rp_cache := \<sigma>' \<rparr>))"
        using ent g rng False r(1) x(1) t unfolding negative_set_def by (simp add: Let_def) blast
      then show ?thesis using qreply_ok_set [OF assms(1) x(2) _ x(3)] x(4,5) a(4)
        by (intro exI [of _ ok] exI [of _ "set_ent c' (s\<lparr> rp_cache := \<sigma>' \<rparr>)"]) (simp add: set_ent_def)
    qed
  qed
qed

subsection \<open>The list of name servers\<close>

text \<open>An item of the list, and the name of its server.\<close>

definition ns_item :: "byte list \<Rightarrow> bool" where
  "ns_item p = (\<exists>a b. wire_name b \<and> (p = 0xff # enc b \<or> wire_name a \<and> p = enc a @ enc b))"

definition ns_server :: "byte list \<Rightarrow> key" where
  "ns_server p = key_of (if p \<noteq> [] \<and> hd p = 0xff then tl p else the (skiprhn p))"

definition ns_ok :: "byte list list \<Rightarrow> bool" where
  "ns_ok ps = (list_all ns_item ps \<and> distinct (map ns_server ps))"

definition starts_name :: "byte list \<Rightarrow> bool" where
  "starts_name d = (\<exists>b r. wire_name b \<and> d = enc b @ r)"

lemma enc_first:
  assumes "wire_name a"
  shows "\<exists>x xs. enc a = x # xs \<and> x \<noteq> 0xff"
proof (cases a)
  case (Cons l ls)
  then have "length l < 64" using assms by (simp add: wire_name_def wire_label_def)
  then have "(word_of_nat (length l) :: byte) < 64" by (simp add: word_less_nat_alt unat_of_nat take_bit_nat_eq_self)
  then have "(word_of_nat (length l) :: byte) \<noteq> 0xff" by auto
  then show ?thesis using Cons by simp
qed simp

lemma ns_item_server:
  assumes "ns_item p"
  obtains x xs b where "p = x # xs" "wire_name b" "ns_server p = canon b" "(if x = 0xff then Some (drop 1 p) else skiprhn p) = Some (enc b)"
proof -
  obtain a b where b: "wire_name b" "p = 0xff # enc b \<or> wire_name a \<and> p = enc a @ enc b" using assms by (auto simp: ns_item_def)
  have k: "key_of (enc b) = canon b" using wire_name_labels [OF b(1)] by (simp add: key_of_def)
  from b(2) show ?thesis
  proof
    assume p: "p = 0xff # enc b"
    then show ?thesis using k b(1) by (intro that [of "0xff" "enc b" b]) (simp_all add: ns_server_def)
  next
    assume p: "wire_name a \<and> p = enc a @ enc b"
    then obtain x xs where x: "enc a = x # xs" "x \<noteq> 0xff" using enc_first by blast
    have s: "skiprhn p = Some (enc b)" using skiprhn_enc [of a "enc b"] p wire_name_labels by simp
    have f: "p = x # (xs @ enc b)" using p x(1) by simp
    then have "ns_server p = canon b" using x(2) s k by (simp add: ns_server_def)
    then show ?thesis using that [OF f b(1)] s x(2) by simp
  qed
qed

lemma has_server_ok:
  assumes "wire_name b"
  shows "list_all ns_item ps \<Longrightarrow> has_server ps (enc b @ r) = Some (canon b \<in> ns_server ` set ps)"
proof (induction ps)
  case (Cons p ps)
  then obtain x xs c where p: "p = x # xs" "wire_name c" "ns_server p = canon c" "(if x = 0xff then Some (drop 1 p) else skiprhn p) = Some (enc c)"
    by (auto elim: ns_item_server)
  have e: "rhnicmp (enc c) (enc b @ r) = Some (canon c = canon b)"
    using rhnicmp_enc [of c b "[]" r] wire_name_labels p(2) assms ci_eq_canon by simp
  have r: "rd p 0 = Some x" using p(1) by (simp add: rd_nth)
  show ?case using Cons p(3,4) e r by auto
qed simp

lemma rp_malloc_ok:
  assumes "cache_inv (rp_cache s)" "rp_malloc s = (ok, s1)"
  shows "\<exists>\<sigma>. s1 = s\<lparr> rp_cache := \<sigma> \<rparr> \<and> quiet (rp_cache s) \<sigma> \<and> (no_fail (rp_cache s) \<longrightarrow> ok)"
proof -
  obtain o1 \<sigma> where m: "malloc (rp_cache s) = (o1, \<sigma>)" by (cases "malloc (rp_cache s)")
  then have "s1 = s\<lparr> rp_cache := \<sigma> \<rparr>" "ok = o1" using assms(2) by (simp_all add: rp_malloc_def)
  then show ?thesis using quiet_malloc [OF assms(1) m] by blast
qed

text \<open>Only the allocations and the list of servers change.\<close>

definition ns_step :: "qreply \<Rightarrow> bool \<times> nat \<times> qreply \<Rightarrow> bool" where
  "ns_step s = (\<lambda>(ok, n, s'). (\<exists>\<sigma> ps. s' = s\<lparr> rp_cache := \<sigma>, rp_ns := ps \<rparr> \<and> quiet (rp_cache s) \<sigma> \<and> ns_ok ps \<and>
     (no_fail (rp_cache s) \<longrightarrow> ok)))"

lemma ns_stepI:
  "quiet (rp_cache s) \<sigma> \<Longrightarrow> ns_ok ps \<Longrightarrow> (no_fail (rp_cache s) \<Longrightarrow> ok) \<Longrightarrow> ns_step s (ok, n, s\<lparr> rp_cache := \<sigma>, rp_ns := ps \<rparr>)"
  unfolding ns_step_def by blast

lemma ns_step_trans:
  assumes "ns_step s (True, n, s1)" "ns_step s1 r"
  shows "ns_step s r"
proof -
  obtain ok k s' where r: "r = (ok, k, s')" by (cases r)
  obtain \<sigma> ps where 1: "s1 = s\<lparr> rp_cache := \<sigma>, rp_ns := ps \<rparr>" "quiet (rp_cache s) \<sigma>" using assms(1) by (auto simp: ns_step_def)
  obtain \<sigma>' ps' where 2: "s' = s1\<lparr> rp_cache := \<sigma>', rp_ns := ps' \<rparr>" "quiet (rp_cache s1) \<sigma>'" "ns_ok ps'" "no_fail (rp_cache s1) \<longrightarrow> ok"
    using assms(2) r by (auto simp: ns_step_def)
  have "s' = s\<lparr> rp_cache := \<sigma>', rp_ns := ps' \<rparr>" using 1(1) 2(1) by simp
  moreover have "quiet (rp_cache s) \<sigma>'" using quiet_trans [OF 1(2)] 1(1) 2(2) by simp
  moreover have "no_fail (rp_cache s) \<longrightarrow> ok" using 1 2(4) by (simp add: quiet_def)
  ultimately show ?thesis using r 2(3) by (auto simp: ns_step_def)
qed

lemma ns_records_ok:
  assumes "wire_name a"
  shows "list_all starts_name ds \<Longrightarrow> cache_inv (rp_cache s) \<Longrightarrow> ns_ok (rp_ns s) \<Longrightarrow>
    \<exists>r. ns_records (enc a) ds first num s = Some r \<and> ns_step s r"
proof (induction ds arbitrary: first num s)
  case Nil
  have "ns_step s (True, num, s)" unfolding ns_step_def
    using Nil quiet_refl by (auto intro!: exI [of _ "rp_cache s"] exI [of _ "rp_ns s"])
  then show ?case by simp
next
  case (Cons d ds)
  obtain b r where d: "wire_name b" "d = enc b @ r" using Cons.prems(1) by (auto simp: starts_name_def)
  have it: "list_all ns_item (rp_ns s)" using Cons.prems(3) by (simp add: ns_ok_def)
  have h: "has_server (rp_ns s) d = Some (canon b \<in> ns_server ` set (rp_ns s))" using has_server_ok [OF d(1) it] d(2) by simp
  show ?case
  proof (cases "canon b \<in> ns_server ` set (rp_ns s)")
    case True
    have "\<exists>r. ns_records (enc a) ds first num s = Some r \<and> ns_step s r" by (rule Cons.IH) (use Cons.prems in simp_all)
    then show ?thesis using h True by simp
  next
    case False
    have l: "rhnlen (enc a) = Some (length (enc a))" "rhnlen d = Some (length (enc b))"
      using rhnlen_enc0 [OF wire_name_labels [OF assms]] rhnlen_enc [OF wire_name_labels [OF d(1)], of r] d(2) by simp_all
    have rn: "rdn (enc a) 0 (length (enc a)) = Some (enc a)" "rdn d 0 (length (enc b)) = Some (enc b)" using d(2) by (simp_all add: rdn_def)
    obtain ok s1 where m: "rp_malloc s = (ok, s1)" by (cases "rp_malloc s")
    obtain \<sigma> where s1: "s1 = s\<lparr> rp_cache := \<sigma> \<rparr>" "quiet (rp_cache s) \<sigma>" "no_fail (rp_cache s) \<longrightarrow> ok"
      using rp_malloc_ok [OF Cons.prems(2) m] by blast
    show ?thesis
    proof (cases ok)
      case okF: False
      then have "ns_records (enc a) (d # ds) first num s = Some (False, num, s1\<lparr> rp_ns := [] \<rparr>)" using h False l m by simp
      moreover have "ns_step s (False, num, s1\<lparr> rp_ns := [] \<rparr>)" using ns_stepI [of s \<sigma> "[]"] s1 okF by (simp add: ns_ok_def)
      ultimately show ?thesis by blast
    next
      case True
      let ?p = "(if first then enc a else [0xff]) @ enc b"
      let ?s = "s1\<lparr> rp_ns := rp_ns s1 @ [?p] \<rparr>"
      have p: "ns_item ?p" using d(1) assms by (auto simp: ns_item_def)
      have sv: "ns_server ?p = canon b"
      proof -
        have k: "key_of (enc b) = canon b" using wire_name_labels [OF d(1)] by (simp add: key_of_def)
        obtain x xs where x: "enc a = x # xs" "x \<noteq> 0xff" using enc_first [OF assms] by blast
        have "skiprhn (enc a @ enc b) = Some (enc b)" by (rule skiprhn_enc [OF wire_name_labels [OF assms]])
        then show ?thesis using k x by (simp add: ns_server_def)
      qed
      have nk: "ns_ok (rp_ns ?s)" using Cons.prems(3) p sv False s1(1) by (auto simp: ns_ok_def)
      have "ns_step s (True, num + 1, ?s)" using ns_stepI [OF s1(2) nk] s1(1) by simp
      moreover have "cache_inv (rp_cache ?s)" using s1(1,2) by (simp add: quiet_def)
      then obtain r where "ns_records (enc a) ds False (num + 1) ?s = Some r" "ns_step ?s r"
        using Cons.IH [OF _ _ nk, of False "num + 1"] Cons.prems(1) by auto
      moreover have "ns_records (enc a) (d # ds) first num s = ns_records (enc a) ds False (num + 1) ?s"
        using h False l m True rn by (cases first) simp_all
      ultimately show ?thesis using ns_step_trans by auto
    qed
  qed
qed

subsection \<open>Names a server is responsible for\<close>

definition under :: "key \<Rightarrow> key \<Rightarrow> bool" where
  "under z k = (length z \<le> length k \<and> drop (length k - length z) k = z)"

definition responsible :: "query_stat \<Rightarrow> key \<Rightarrow> bool" where
  "responsible st k = (case qs_nsdomain st of None \<Rightarrow> True | Some d \<Rightarrow> qs_trusted st \<or> under (key_of d) k)"

text \<open>Nothing is accepted for the root from a server that was not listed in the configuration file but learned
  from the reply of another server (\<open>auth_serv\<close> is 2; it is 3 for a root server).\<close>

definition admitted :: "query_stat \<Rightarrow> key \<Rightarrow> bool" where
  "admitted st k = (responsible st k \<and> (k = [] \<longrightarrow> qs_auth_serv st \<noteq> 2))"

definition st_ok :: "query_stat \<Rightarrow> bool" where
  "st_ok st = (case qs_nsdomain st of None \<Rightarrow> True | Some d \<Rightarrow> valid_name d)"

lemma match_under:
  assumes "wire_name ks" "wire_name ls"
  shows "\<exists>k x y. domain_match (enc ks) (enc ls) = Some (k, x, y) \<and> (x = 0) = under (canon ks) (canon ls)"
proof -
  have d: "domain_match (enc ks) (enc ls) = Some (csuf ks ls, length (enc_labels (take (length ks - csuf ks ls) ks)),
      length (enc_labels (take (length ls - csuf ks ls) ls)))"
    using domain_match_enc [of ks ls "[]" "[]"] assms wire_name_labels wire_name_count by simp
  have z: "length (enc_labels (take (length ks - csuf ks ls) ks)) = 0 \<longleftrightarrow> csuf ks ls = length ks"
    using csuf_le(1) [of ks ls] by (cases ks) (auto simp: enc_labels_def)
  have u: "csuf ks ls = length ks \<longleftrightarrow> under (canon ks) (canon ls)"
  proof
    assume c: "csuf ks ls = length ks"
    then have "ci_eq ks (drop (length ls - length ks) ls)" using csuf_eq [of ks ls] by simp
    then show "under (canon ks) (canon ls)" using csuf_le(2) [of ks ls] c by (simp add: under_def ci_eq_canon canon_def drop_map)
  next
    assume "under (canon ks) (canon ls)"
    then have n: "length ks \<le> length ls" "ci_eq (drop 0 ks) (drop (length ls - length ks) ls)" by (simp_all add: under_def ci_eq_canon canon_def drop_map)
    show "csuf ks ls = length ks" using csuf_max [OF n(2)] csuf_le(1) [of ks ls] n(1) by simp
  qed
  show ?thesis using d z u by auto
qed

lemma in_nsdomain_ok:
  assumes "st_ok st" "valid_name (ce_qname c)"
  shows "in_nsdomain st c = Some (responsible st (key_of (ce_qname c)))"
proof (cases "qs_nsdomain st")
  case (Some d)
  then have "valid_name d" using assms(1) by (simp add: st_ok_def)
  then obtain ks where ks: "wire_name ks" "d = enc ks" "key_of d = canon ks" by (auto elim: valid_nameE)
  obtain ls where ls: "wire_name ls" "ce_qname c = enc ls" "key_of (ce_qname c) = canon ls" using assms(2) by (auto elim: valid_nameE)
  obtain k x y where "domain_match (enc ks) (enc ls) = Some (k, x, y)" "(x = 0) = under (canon ks) (canon ls)"
    using match_under [OF ks(1) ls(1)] by blast
  then show ?thesis using Some ks ls by (simp add: in_nsdomain_def responsible_def)
qed (simp add: in_nsdomain_def responsible_def)

lemma root_first:
  assumes "valid_name nm"
  shows "\<exists>b. rd nm 0 = Some b \<and> (b = 0 \<longleftrightarrow> key_of nm = []) \<and> b \<noteq> 0xff"
proof -
  obtain ls where ls: "wire_name ls" "nm = enc ls" "key_of nm = canon ls" "list_all name_label ls" using assms by (rule valid_nameE)
  obtain x xs where x: "enc ls = x # xs" "x \<noteq> 0xff" using enc_first [OF ls(1)] by blast
  have "x = 0 \<longleftrightarrow> ls = []" using x(1) ls(4) by (cases ls) auto
  then show ?thesis using x ls(2,3) by (simp add: rd_nth canon_def)
qed

lemma acceptance:
  assumes "st_ok st" "valid_name (ce_qname c)"
  obtains b where "rd (ce_qname c) 0 = Some b" "b \<noteq> 0xff"
    "(if b \<noteq> 0 \<or> qs_auth_serv st \<noteq> 2 then in_nsdomain st c else Some False) = Some (admitted st (key_of (ce_qname c)))"
  using root_first [OF assms(2)] in_nsdomain_ok [OF assms] that by (auto simp: admitted_def)

lemma ns_cents_ok:
  "sounds cs \<Longrightarrow> st_ok (rp_st s) \<Longrightarrow> cache_inv (rp_cache s) \<Longrightarrow> ns_ok (rp_ns s) \<Longrightarrow> \<exists>r. ns_cents cs num s = Some r \<and> ns_step s r"
proof (induction cs arbitrary: num s)
  case Nil
  have "ns_step s (True, num, s)" unfolding ns_step_def
    using Nil quiet_refl by (auto intro!: exI [of _ "rp_cache s"] exI [of _ "rp_ns s"])
  then show ?case by simp
next
  case (Cons c cs)
  have c: "sound c" "sounds cs" using Cons.prems(1) by simp_all
  then have v: "valid_name (ce_qname c)" by (simp add: sound_def cent_wf_def)
  obtain a where a: "wire_name a" "ce_qname c = enc a" by (rule valid_nameE [OF v])
  obtain b where b: "rd (ce_qname c) 0 = Some b" "b \<noteq> 0xff"
    "(if b \<noteq> 0 \<or> qs_auth_serv (rp_st s) \<noteq> 2 then in_nsdomain (rp_st s) c else Some False) = Some (admitted (rp_st s) (key_of (ce_qname c)))"
    by (rule acceptance [OF Cons.prems(2) v])
  show ?case
  proof (cases "admitted (rp_st s) (key_of (ce_qname c))")
    case False
    then show ?thesis using Cons.IH [OF c(2) Cons.prems(2-4)] b by simp
  next
    case True
    have g: "getrrset c T_NS = Some (slot c 1)" "getrrset c T_SOA = Some (slot c 3)"
      using getrrset_eq [OF sound_shape [OF c(1)]] type_index by simp_all
    let ?ds = "\<lambda>r. case r of None \<Rightarrow> [] | Some rs \<Rightarrow> rs_rrs rs"
    have "starts_name d" if "recv_ok T_NS d \<or> recv_ok T_SOA d" for d
      using that recv_names [of _ d] unfolding starts_name_def by (metis append_Nil2)
    then have sn: "list_all starts_name (?ds (slot c 1))" "list_all starts_name (?ds (slot c 3))"
      using sound_data [OF c(1) type_index(2)] sound_data [OF c(1) type_index(3)]
      by (cases "slot c 1", simp, simp add: list_all_iff, cases "slot c 3", simp, simp add: list_all_iff)
    obtain ok1 n1 s1 where 1: "ns_records (enc a) (?ds (slot c 1)) True num s = Some (ok1, n1, s1)" "ns_step s (ok1, n1, s1)"
      using ns_records_ok [OF a(1) sn(1) Cons.prems(3,4), of True num] by auto
    show ?thesis
    proof (cases ok1)
      case False
      then show ?thesis using b True g 1 a(2) by simp
    next
      case ok1: True
      have i1: "cache_inv (rp_cache s1)" "ns_ok (rp_ns s1)" "st_ok (rp_st s1)" using 1(2) Cons.prems(2) by (auto simp: ns_step_def quiet_def)
      obtain ok2 n2 s2 where 2: "ns_records (enc a) (?ds (slot c 3)) True n1 s1 = Some (ok2, n2, s2)" "ns_step s1 (ok2, n2, s2)"
        using ns_records_ok [OF a(1) sn(2) i1(1,2), of True n1] by auto
      have 12: "ns_step s (ok2, n2, s2)" using ns_step_trans [of s n1 s1] 1(2) 2(2) ok1 by simp
      show ?thesis
      proof (cases ok2)
        case False
        then show ?thesis using b True g 1(1) 2(1) 12 a(2) ok1 by simp
      next
        case ok2: True
        have i2: "cache_inv (rp_cache s2)" "ns_ok (rp_ns s2)" "st_ok (rp_st s2)" using 2(2) i1(3) by (auto simp: ns_step_def quiet_def)
        obtain r where "ns_cents cs n2 s2 = Some r" "ns_step s2 r" using Cons.IH [OF c(2) i2(3,1,2)] by blast
        moreover from this have "ns_step s r" using ns_step_trans [of s n2 s2] 12 ok2 by simp
        ultimately show ?thesis using b True g 1(1) 2(1) a(2) ok1 ok2 by simp
      qed
    qed
  qed
qed

end
