(* ===== verification/Pd_Empty.thy ===== *)
theory Pd_Empty
  imports Pd_CacheOps
begin

text \<open>
  Emptying the cache bucket by bucket, wholly (\<open>free_dns_hash\<close>, when the program ends) or by an
  include/exclude list of names (\<open>empty_cache\<close>).
\<close>

subsection \<open>One entry of a chain\<close>

lemma chain_drop:
  assumes "wf_table q t" "i < length t" "t ! i = pre @ e # hs"
  shows "wf_table q (t[i := pre @ hs])" "tab_map q (t[i := pre @ hs]) = (tab_map q t)(ent_key q e := None)"
    "tab_map q t (ent_key q e) = Some (snd e)"
proof -
  have ok: "chain_ok q i (t ! i)" using assms(1,2) by (simp add: wf_table_def)
  have d: "take (length pre) (t ! i) @ drop (length pre + 1) (t ! i) = pre @ hs" "(t ! i) ! length pre = e" "length pre < length (t ! i)"
    by (simp_all add: assms(3))
  note c = chain_ok_delete [OF ok d(3), unfolded d]
  have "ent_ok q i e" using ok assms(3) by (simp add: chain_ok_def)
  then have h: "fst (name_hash (ent_key q e)) = i" by (elim ent_okE) simp
  show "wf_table q (t[i := pre @ hs])" by (rule wf_table_update [OF assms(1,2) c(1)])
  show "tab_map q (t[i := pre @ hs]) = (tab_map q t)(ent_key q e := None)"
    using c(2) h assms(2) by (auto simp: tab_map_update fun_eq_iff) (auto simp: tab_map_def)
  have "distinct (map (ent_key q) (pre @ e # hs))" using ok assms(3) by (simp add: chain_ok_def)
  then have "chain_map q pre (ent_key q e) = None" by (auto simp: chain_map_None)
  then have "chain_map q (t ! i) (ent_key q e) = Some (snd e)" using assms(3) by (simp add: chain_map_append map_add_def)
  then show "tab_map q t (ent_key q e) = Some (snd e)" using h by (simp add: tab_map_def)
qed

text \<open>The buckets are not looked at when an entry is freed.\<close>

abbreviation (input) with_buckets :: "htable \<Rightarrow> cache \<Rightarrow> cache" where
  "with_buckets t \<sigma> \<equiv> \<sigma>\<lparr> buckets := t \<rparr>"

lemma unlink_buckets: "unlink le (with_buckets t \<sigma>) = map_option (with_buckets t) (unlink le \<sigma>)"
  by (cases le) (simp_all add: unlink_def split: bind_split)

lemma del_slots_buckets: "del_slots xs (with_buckets t \<sigma>) = map_option (map_prod id (with_buckets t)) (del_slots xs \<sigma>)"
proof (induction xs arbitrary: \<sigma>)
  case (Cons x xs)
  show ?case
  proof (cases x)
    case None
    then show ?thesis using Cons by simp
  next
    case (Some rs)
    show ?thesis
    proof (cases "unlink (rs_lent rs) \<sigma>")
      case None
      then show ?thesis using Some by (simp add: del_rrset_def unlink_buckets)
    next
      case u: (Some \<sigma>1)
      then show ?thesis using Some Cons.IH [of \<sigma>1] by (cases "del_slots xs \<sigma>1") (auto simp: del_rrset_def unlink_buckets)
    qed
  qed
qed simp

lemma free_cent_buckets: "free_cent c (with_buckets t \<sigma>) = map_option (with_buckets t) (free_cent c \<sigma>)"
proof (cases "ce_body c")
  case (NegBody le ttl ts)
  then show ?thesis by (simp add: free_cent_def unlink_buckets)
next
  case (RRBody mu ext)
  show ?thesis
  proof (cases "del_slots mu \<sigma>")
    case None
    then show ?thesis using RRBody by (simp add: free_cent_def del_slots_buckets)
  next
    case (Some r)
    obtain n \<sigma>1 where r: "r = (n, \<sigma>1)" by (cases r)
    show ?thesis
    proof (cases ext)
      case None
      then show ?thesis using RRBody Some r by (simp add: free_cent_def del_slots_buckets)
    next
      case e: (Some ex)
      then show ?thesis using RRBody Some r
        by (cases "del_slots ex \<sigma>1") (auto simp: free_cent_def del_slots_buckets)
    qed
  qed
qed

lemma del_cent_buckets: "del_cent a (with_buckets t \<sigma>) = map_option (with_buckets t) (del_cent a \<sigma>)"
proof (cases "cents \<sigma> a")
  case None
  then show ?thesis by (simp add: del_cent_def)
next
  case (Some c)
  let ?s = "\<sigma>\<lparr> cache_size := cache_size \<sigma> - ce_cs c \<rparr>"
  have "(with_buckets t \<sigma>)\<lparr> cache_size := cache_size \<sigma> - ce_cs c \<rparr> = with_buckets t ?s" by simp
  then have "free_cent c ((with_buckets t \<sigma>)\<lparr> cache_size := cache_size \<sigma> - ce_cs c \<rparr>) = map_option (with_buckets t) (free_cent c ?s)"
    using free_cent_buckets by metis
  then show ?thesis using Some by (cases "free_cent c ?s") (simp_all add: del_cent_def)
qed

lemma del_cent_same: "del_cent a \<sigma> = Some \<sigma>' \<Longrightarrow> buckets \<sigma>' = buckets \<sigma>"
  using del_cent_buckets [of a "buckets \<sigma>" \<sigma>] by (metis cache.surjective cache.update_convs(3) option.map_sel option.sel cache.select_convs(3) option.simps(3))

text \<open>An entry of bucket \<open>i\<close> is taken out of its chain and freed.\<close>

lemma drop_entry:
  assumes "cache_inv \<sigma>" "i < HASH_NUM_BUCKETS" "buckets \<sigma> ! i = pre @ he # hs"
  shows "\<exists>c \<sigma>'. cents \<sigma> (snd he) = Some c \<and> del_cent (snd he) (with_buckets ((buckets \<sigma>)[i := pre @ hs]) \<sigma>) = Some \<sigma>' \<and>
    cache_inv \<sigma>' \<and> cents \<sigma>' = (cents \<sigma>)(snd he := None) \<and> buckets \<sigma>' = (buckets \<sigma>)[i := pre @ hs]"
proof -
  let ?A = "dom (cents \<sigma>)" and ?t = "(buckets \<sigma>)[i := pre @ hs]" and ?a = "snd he"
  have I: "cinv ?A {} \<sigma>" using assms(1) by (simp add: cache_inv_def)
  have wf: "wf_table (qn \<sigma>) (buckets \<sigma>)" using I by (simp add: cinv_def)
  have i: "i < length (buckets \<sigma>)" using wf assms(2) by (simp add: wf_table_def)
  note d = chain_drop [OF wf i assms(3)]
  obtain c where c: "?a \<in> ?A" "cents \<sigma> ?a = Some c" "key_of (ce_qname c) = ent_key (qn \<sigma>) he"
    using tabm_entry [OF I d(3)] by blast
  have tm: "tab_map (qn \<sigma>) ?t = (tabm \<sigma>)(key_of (ce_qname c) := None)" using d(2) c(3) by simp
  obtain \<sigma>' where s: "del_cent ?a (with_buckets ?t \<sigma>) = Some \<sigma>'" "gone ?A {} ?a \<sigma> \<sigma>'"
    using del_cent_spec [OF I c(2,1) _ d(1) tm] by auto
  have "buckets \<sigma>' = ?t" using del_cent_same [OF s(1)] by simp
  moreover have "cache_inv \<sigma>'" "cents \<sigma>' = (cents \<sigma>)(?a := None)" using s(2) by (simp_all add: gone_def cache_inv_def)
  ultimately show ?thesis using s(1) c(2) by blast
qed

subsection \<open>Which names a list selects\<close>

text \<open>An element applies to the names in its domain, an exact one to its domain only; the first that
  applies decides.\<close>

definition applies :: "label list \<Rightarrow> slist \<Rightarrow> bool" where
  "applies ls sl = (csuf ls (unenc (sl_domain sl)) = length (unenc (sl_domain sl)) \<and>
     (sl_exact sl \<longrightarrow> length ls = length (unenc (sl_domain sl))))"

definition selected :: "slist list \<Rightarrow> name \<Rightarrow> bool" where
  "selected sla nm = (case find (applies (unenc nm)) sla of None \<Rightarrow> False | Some sl \<Rightarrow> sl_rule sl = C_INCLUDED)"

lemma enc_labels_take0:
  assumes "list_all name_label ls" "n \<le> length ls"
  shows "(length (enc_labels (take (length ls - n) ls)) = 0) = (n = length ls)"
proof (cases "n = length ls")
  case False
  then obtain k where "length ls - n = Suc k" using assms(2) by (cases "length ls - n") auto
  then show ?thesis using False assms by (cases ls) auto
qed simp

lemma slist_selects_eq:
  assumes "valid_name nm" "\<forall>sl \<in> set sla. valid_name (sl_domain sl)"
  shows "slist_selects nm sla = Some (selected sla nm)"
  using assms(2)
proof (induction sla)
  case Nil
  then show ?case by (simp add: selected_def)
next
  case (Cons sl sla)
  obtain ks where ks: "nm = enc ks" "wire_name ks" using assms(1) by (rule valid_nameE)
  have "valid_name (sl_domain sl)" using Cons.prems by simp
  then obtain ds where ds: "sl_domain sl = enc ds" "wire_name ds" by (rule valid_nameE)
  note lab = wire_name_labels [OF ks(2)] wire_name_labels [OF ds(2)]
  let ?n = "csuf ks ds"
  have dm: "domain_match nm (sl_domain sl) = Some (?n, length (enc_labels (take (length ks - ?n) ks)),
      length (enc_labels (take (length ds - ?n) ds)))"
    using domain_match_enc [OF lab wire_name_count [OF ks(2)] wire_name_count [OF ds(2)], of "[]" "[]"] ks ds by simp
  have z: "(length (enc_labels (take (length ks - ?n) ks)) = 0) = (?n = length ks)"
    "(length (enc_labels (take (length ds - ?n) ds)) = 0) = (?n = length ds)"
    using enc_labels_take0 [OF lab(1) csuf_le(1)] enc_labels_take0 [OF lab(2) csuf_le(2)] by blast+
  have "slist_selects nm (sl # sla) = (if applies ks sl then Some (sl_rule sl = C_INCLUDED) else slist_selects nm sla)"
  proof -
    obtain nr lr where o: "nr = length (enc_labels (take (length ks - ?n) ks))" "lr = length (enc_labels (take (length ds - ?n) ds))" by blast
    have "slist_selects nm (sl # sla) = (if lr = 0 \<and> (\<not> sl_exact sl \<or> nr = 0) then Some (sl_rule sl = C_INCLUDED) else slist_selects nm sla)"
      using dm [folded o] by simp
    moreover have "(lr = 0 \<and> (\<not> sl_exact sl \<or> nr = 0)) = applies ks sl"
      using z [folded o] ds lab by (auto simp: applies_def)
    ultimately show ?thesis by simp
  qed
  moreover have "unenc nm = ks" using ks lab by simp
  ultimately show ?case using Cons by (simp add: selected_def)
qed

subsection \<open>One bucket\<close>

definition cut :: "(name \<Rightarrow> bool) \<Rightarrow> nat set \<Rightarrow> cache \<Rightarrow> cache \<Rightarrow> bool" where
  "cut P B \<sigma> \<sigma>' = (cache_inv \<sigma>' \<and>
     cents \<sigma>' = (\<lambda>a. case cents \<sigma> a of None \<Rightarrow> None | Some c \<Rightarrow> if a \<in> B \<and> P (ce_qname c) then None else Some c))"

lemma cut_step:
  assumes "cents \<sigma>1 = (cents \<sigma>)(a := None)" "cut P B \<sigma>1 \<sigma>'" "\<And>c. cents \<sigma> a = Some c \<Longrightarrow> P (ce_qname c)"
  shows "cut P (insert a B) \<sigma> \<sigma>'"
proof -
  have "cents \<sigma>' b = (case cents \<sigma> b of None \<Rightarrow> None | Some c \<Rightarrow> if b \<in> insert a B \<and> P (ce_qname c) then None else Some c)" for b
  proof (cases "b = a")
    case True
    then show ?thesis using assms by (cases "cents \<sigma> a") (simp_all add: cut_def)
  next
    case False
    then show ?thesis using assms(1,2) by (simp add: cut_def split: option.split)
  qed
  then show ?thesis using assms(2) by (auto simp: cut_def)
qed

lemma cut_skip:
  assumes "cut P B \<sigma> \<sigma>'" "cents \<sigma> a = Some c" "\<not> P (ce_qname c)"
  shows "cut P (insert a B) \<sigma> \<sigma>'"
proof -
  have "cents \<sigma>' b = (case cents \<sigma> b of None \<Rightarrow> None | Some c \<Rightarrow> if b \<in> insert a B \<and> P (ce_qname c) then None else Some c)" for b
    using assms by (cases "b = a") (simp_all add: cut_def split: option.split)
  then show ?thesis using assms(1) by (auto simp: cut_def)
qed

lemma cut_none: "cache_inv \<sigma> \<Longrightarrow> cut P {} \<sigma> \<sigma>"
  by (auto simp: cut_def split: option.split)

lemma free_chain_spec:
  assumes "cache_inv \<sigma>" "i < HASH_NUM_BUCKETS" "buckets \<sigma> ! i = hs"
  shows "\<exists>\<sigma>'. free_chain hs (with_buckets ((buckets \<sigma>)[i := []]) \<sigma>) = Some \<sigma>' \<and> cut (\<lambda>_. True) (snd ` set hs) \<sigma> \<sigma>' \<and>
    buckets \<sigma>' = (buckets \<sigma>)[i := []]"
  using assms(1,3)
proof (induction hs arbitrary: \<sigma>)
  case Nil
  then have "(buckets \<sigma>)[i := []] = buckets \<sigma>" by (metis list_update_id)
  then show ?case using cut_none [OF Nil(1)] by simp
next
  case (Cons he hs)
  let ?t1 = "(buckets \<sigma>)[i := hs]" and ?t0 = "(buckets \<sigma>)[i := []]"
  obtain \<sigma>1 where 1: "del_cent (snd he) (with_buckets ?t1 \<sigma>) = Some \<sigma>1" "cache_inv \<sigma>1" "cents \<sigma>1 = (cents \<sigma>)(snd he := None)" "buckets \<sigma>1 = ?t1"
    using drop_entry [OF Cons.prems(1) assms(2), of "[]" he hs] Cons.prems(2) by auto
  have len: "length (buckets \<sigma>) = HASH_NUM_BUCKETS"
    using Cons.prems(1) by (simp add: cache_inv_def cinv_def wf_table_def)
  have b1: "buckets \<sigma>1 ! i = hs" using 1(4) len assms(2) by simp
  have "del_cent (snd he) (with_buckets ?t0 \<sigma>) = Some (with_buckets ?t0 \<sigma>1)"
    using del_cent_buckets [of "snd he" ?t0 "with_buckets ?t1 \<sigma>"] 1(1) by simp
  moreover have "?t0 = (buckets \<sigma>1)[i := []]" using 1(4) by simp
  ultimately have run: "free_chain (he # hs) (with_buckets ?t0 \<sigma>) = free_chain hs (with_buckets ((buckets \<sigma>1)[i := []]) \<sigma>1)" by simp
  obtain \<sigma>' where 2: "free_chain hs (with_buckets ((buckets \<sigma>1)[i := []]) \<sigma>1) = Some \<sigma>'" "cut (\<lambda>_. True) (snd ` set hs) \<sigma>1 \<sigma>'"
    "buckets \<sigma>' = (buckets \<sigma>1)[i := []]" using Cons.IH [OF 1(2) b1] by blast
  have "cut (\<lambda>_. True) (snd ` set (he # hs)) \<sigma> \<sigma>'" using cut_step [OF 1(3) 2(2)] by simp
  then show ?case using run 2(1,3) 1(4) by simp
qed

lemma free_selected_spec:
  assumes "cache_inv \<sigma>" "i < HASH_NUM_BUCKETS" "buckets \<sigma> ! i = pre @ hs" "\<forall>sl \<in> set sla. valid_name (sl_domain sl)"
  shows "\<exists>\<sigma>'. free_selected i sla pre hs \<sigma> = Some \<sigma>' \<and> cut (selected sla) (snd ` set hs) \<sigma> \<sigma>' \<and>
    (\<exists>ch. buckets \<sigma>' = (buckets \<sigma>)[i := ch])"
  using assms(1,3)
proof (induction hs arbitrary: \<sigma> pre)
  case Nil
  then show ?case using cut_none [OF Nil(1)] list_update_id [of "buckets \<sigma>" i] by (intro exI [of _ \<sigma>]) (auto intro!: exI [of _ pre])
next
  case (Cons he hs)
  obtain c \<sigma>1 where 1: "cents \<sigma> (snd he) = Some c" "del_cent (snd he) (with_buckets ((buckets \<sigma>)[i := pre @ hs]) \<sigma>) = Some \<sigma>1"
    "cache_inv \<sigma>1" "cents \<sigma>1 = (cents \<sigma>)(snd he := None)" "buckets \<sigma>1 = (buckets \<sigma>)[i := pre @ hs]"
    using drop_entry [OF Cons.prems(1) assms(2) Cons.prems(2)] by (elim exE conjE) (rule that)
  have I: "cinv (dom (cents \<sigma>)) {} \<sigma>" using Cons.prems(1) by (simp add: cache_inv_def)
  have len: "length (buckets \<sigma>) = HASH_NUM_BUCKETS" using I by (simp add: cinv_def wf_table_def)
  have sel: "slist_selects (ce_qname c) sla = Some (selected sla (ce_qname c))"
    by (rule slist_selects_eq [OF cinv_ent(3) [OF I 1(1)] assms(4)])
  have q: "qn \<sigma> (snd he) = Some (ce_qname c)" using 1(1) by (simp add: qn_def)
  show ?case
  proof (cases "selected sla (ce_qname c)")
    case True
    have b1: "buckets \<sigma>1 ! i = pre @ hs" using 1(5) len assms(2) by simp
    have w: "wr (buckets \<sigma>) i (pre @ hs) = Some ((buckets \<sigma>)[i := pre @ hs])" using len assms(2) by (simp add: wr_def)
    have run: "free_selected i sla pre (he # hs) \<sigma> = free_selected i sla pre hs \<sigma>1" using q sel True w 1(2) by simp
    obtain \<sigma>' ch where 2: "free_selected i sla pre hs \<sigma>1 = Some \<sigma>'" "cut (selected sla) (snd ` set hs) \<sigma>1 \<sigma>'" "buckets \<sigma>' = (buckets \<sigma>1)[i := ch]"
      using Cons.IH [OF 1(3) b1] by blast
    have "cut (selected sla) (snd ` set (he # hs)) \<sigma> \<sigma>'" using cut_step [OF 1(4) 2(2)] 1(1) True by simp
    then show ?thesis using run 2(1,3) 1(5) by auto
  next
    case False
    have run: "free_selected i sla pre (he # hs) \<sigma> = free_selected i sla (pre @ [he]) hs \<sigma>" using q sel False by simp
    have b: "buckets \<sigma> ! i = (pre @ [he]) @ hs" using Cons.prems(2) by simp
    obtain \<sigma>' ch where 2: "free_selected i sla (pre @ [he]) hs \<sigma> = Some \<sigma>'" "cut (selected sla) (snd ` set hs) \<sigma> \<sigma>'" "buckets \<sigma>' = (buckets \<sigma>)[i := ch]"
      using Cons.IH [OF Cons.prems(1) b] by blast
    have "cut (selected sla) (snd ` set (he # hs)) \<sigma> \<sigma>'" using cut_skip [OF 2(2) 1(1) False] by simp
    then show ?thesis using run 2(1,3) by auto
  qed
qed

subsection \<open>All buckets\<close>

definition chosen :: "slist list option \<Rightarrow> name \<Rightarrow> bool" where
  "chosen sla nm = (case sla of None \<Rightarrow> True | Some l \<Rightarrow> selected l nm)"

definition slist_ok :: "slist list option \<Rightarrow> bool" where
  "slist_ok sla = (case sla of None \<Rightarrow> True | Some l \<Rightarrow> \<forall>sl \<in> set l. valid_name (sl_domain sl))"

abbreviation (input) bucket_op :: "slist list option \<Rightarrow> nat \<Rightarrow> cache \<Rightarrow> cache option" where
  "bucket_op sla i \<sigma> \<equiv> (case sla of Some l \<Rightarrow> free_dns_hash_selected i l \<sigma> | None \<Rightarrow> free_dns_hash_bucket i \<sigma>)"

lemma bucket_op_spec:
  assumes "cache_inv \<sigma>" "i < HASH_NUM_BUCKETS" "slist_ok sla"
  shows "\<exists>\<sigma>'. bucket_op sla i \<sigma> = Some \<sigma>' \<and> cut (chosen sla) (snd ` set (buckets \<sigma> ! i)) \<sigma> \<sigma>' \<and>
    (\<exists>ch. buckets \<sigma>' = (buckets \<sigma>)[i := ch])"
proof -
  have len: "length (buckets \<sigma>) = HASH_NUM_BUCKETS"
    using assms(1) by (simp add: cache_inv_def cinv_def wf_table_def)
  have r: "rd (buckets \<sigma>) i = Some (buckets \<sigma> ! i)" using len assms(2) by (simp add: rd_def)
  show ?thesis
  proof (cases sla)
    case None
    then have P: "chosen sla = (\<lambda>_. True)" by (simp add: chosen_def fun_eq_iff)
    have "wr (buckets \<sigma>) i [] = Some ((buckets \<sigma>)[i := []])" using len assms(2) by (simp add: wr_def)
    then show ?thesis using free_chain_spec [OF assms(1,2) refl] r None unfolding P
      by (simp add: free_dns_hash_bucket_def) blast
  next
    case (Some l)
    then have P: "chosen sla = selected l" by (simp add: chosen_def fun_eq_iff)
    have b: "buckets \<sigma> ! i = [] @ buckets \<sigma> ! i" by simp
    have ok: "\<forall>sl \<in> set l. valid_name (sl_domain sl)" using assms(3) Some by (simp add: slist_ok_def)
    show ?thesis using free_selected_spec [OF assms(1,2) b ok] r Some unfolding P
      by (simp add: free_dns_hash_selected_def)
  qed
qed

lemma cut_trans:
  assumes "cut P B \<sigma> \<sigma>1" "cut P C \<sigma>1 \<sigma>2"
  shows "cut P (B \<union> C) \<sigma> \<sigma>2"
  using assms by (auto simp: cut_def split: option.split)

lemma empty_loop_inv:
  assumes "cache_inv \<sigma>" "\<forall>i \<in> set is. i < HASH_NUM_BUCKETS" "slist_ok sla" "\<And>\<tau>. cache_inv \<tau> \<Longrightarrow> cache_inv (others \<tau>)"
  shows "\<exists>\<sigma>'. empty_loop sla others is \<sigma> = Some \<sigma>' \<and> cache_inv \<sigma>'"
  using assms(1,2)
proof (induction "is" arbitrary: \<sigma>)
  case (Cons i "is")
  obtain \<sigma>1 where 1: "bucket_op sla i \<sigma> = Some \<sigma>1" "cut (chosen sla) (snd ` set (buckets \<sigma> ! i)) \<sigma> \<sigma>1"
    using bucket_op_spec [OF Cons.prems(1) _ assms(3), of i] Cons.prems(2) by auto
  have inv: "cache_inv \<sigma>1" using 1(2) by (simp add: cut_def)
  show ?case
  proof (cases "is = []")
    case True
    then show ?thesis using 1(1) inv by simp
  next
    case False
    then show ?thesis using 1(1) Cons.IH [OF assms(4) [OF inv]] Cons.prems(2) by simp
  qed
qed simp

lemma empty_loop_id:
  assumes "cache_inv \<sigma>" "\<forall>i \<in> set is. i < HASH_NUM_BUCKETS" "distinct is" "slist_ok sla"
  shows "\<exists>\<sigma>'. empty_loop sla id is \<sigma> = Some \<sigma>' \<and> cut (chosen sla) (\<Union>i \<in> set is. snd ` set (buckets \<sigma> ! i)) \<sigma> \<sigma>'"
  using assms(1-3)
proof (induction "is" arbitrary: \<sigma>)
  case Nil
  then show ?case using cut_none by simp
next
  case (Cons i "is")
  obtain \<sigma>1 ch where 1: "bucket_op sla i \<sigma> = Some \<sigma>1" "cut (chosen sla) (snd ` set (buckets \<sigma> ! i)) \<sigma> \<sigma>1" "buckets \<sigma>1 = (buckets \<sigma>)[i := ch]"
    using bucket_op_spec [OF Cons.prems(1) _ assms(4), of i] Cons.prems(2) by auto
  have inv: "cache_inv \<sigma>1" using 1(2) by (simp add: cut_def)
  have same: "buckets \<sigma>1 ! j = buckets \<sigma> ! j" if j: "j \<in> set is" for j
  proof -
    have "i \<noteq> j" using j Cons.prems(3) by auto
    then show ?thesis using 1(3) by simp
  qed
  obtain \<sigma>2 where 2: "empty_loop sla id is \<sigma>1 = Some \<sigma>2" "cut (chosen sla) (\<Union>j \<in> set is. snd ` set (buckets \<sigma>1 ! j)) \<sigma>1 \<sigma>2"
  proof -
    have d: "\<forall>i \<in> set is. i < HASH_NUM_BUCKETS" "distinct is" using Cons.prems(2,3) by simp_all
    show ?thesis using Cons.IH [OF inv d] that by blast
  qed
  have "(\<Union>j \<in> set is. snd ` set (buckets \<sigma>1 ! j)) = (\<Union>j \<in> set is. snd ` set (buckets \<sigma> ! j))" using same by simp
  then have "cut (chosen sla) (\<Union>j \<in> set (i # is). snd ` set (buckets \<sigma> ! j)) \<sigma> \<sigma>2"
    using cut_trans [OF 1(2) 2(2)] by simp
  moreover have "empty_loop sla id (i # is) \<sigma> = Some \<sigma>2" using 1(1) 2(1) by (cases "is") simp_all
  ultimately show ?case by blast
qed

lemma all_buckets:
  assumes "cache_inv \<sigma>"
  shows "(\<Union>i \<in> set [0..<HASH_NUM_BUCKETS]. snd ` set (buckets \<sigma> ! i)) = dom (cents \<sigma>)"
proof -
  have I: "cinv (dom (cents \<sigma>)) {} \<sigma>" using assms by (simp add: cache_inv_def)
  have "length (buckets \<sigma>) = HASH_NUM_BUCKETS" using I by (simp add: cinv_def wf_table_def)
  then have "set (buckets \<sigma>) = (\<lambda>i. buckets \<sigma> ! i) ` set [0..<HASH_NUM_BUCKETS]"
    using set_conv_nth [of "buckets \<sigma>"] by (auto simp only: set_upt atLeastLessThan_iff image_iff)
  then have "(\<Union>i \<in> set [0..<HASH_NUM_BUCKETS]. snd ` set (buckets \<sigma> ! i)) = tab_addrs (buckets \<sigma>)"
    unfolding tab_addrs_def by (simp only: image_image)
  then show ?thesis using tab_addrs_map [OF cinvD(4) [OF I]] cinvD(5) [OF I] by simp
qed

lemma empty_cache_spec:
  assumes "cache_inv \<sigma>" "slist_ok sla"
  shows "\<exists>\<sigma>'. empty_cache sla True id \<sigma> = Some (True, \<sigma>') \<and> cache_inv \<sigma>' \<and>
    cents \<sigma>' = (\<lambda>a. case cents \<sigma> a of None \<Rightarrow> None | Some c \<Rightarrow> if chosen sla (ce_qname c) then None else Some c)"
proof -
  have h: "\<forall>i \<in> set [0..<HASH_NUM_BUCKETS]. i < HASH_NUM_BUCKETS" "distinct [0..<HASH_NUM_BUCKETS]" by simp_all
  obtain \<sigma>' where 1: "empty_loop sla id [0..<HASH_NUM_BUCKETS] \<sigma> = Some \<sigma>'" "cut (chosen sla) (dom (cents \<sigma>)) \<sigma> \<sigma>'"
    using empty_loop_id [OF assms(1) h assms(2)] unfolding all_buckets [OF assms(1)] by blast
  have run: "empty_cache sla True id \<sigma> = Some (True, \<sigma>')" unfolding empty_cache_def using 1(1) by (simp only: not_True_eq_False if_False Option.bind.bind_lunit)
  have "cents \<sigma>' = (\<lambda>a. case cents \<sigma> a of None \<Rightarrow> None | Some c \<Rightarrow> if chosen sla (ce_qname c) then None else Some c)"
    using 1(2) by (auto simp: cut_def fun_eq_iff split: option.split)
  then show ?thesis using run 1(2) by (simp add: cut_def)
qed

lemma free_buckets_eq: "free_buckets free_dns_hash_bucket is \<sigma> = empty_loop None id is \<sigma>"
proof (induction "is" arbitrary: \<sigma>)
  case (Cons i "is")
  then show ?case by (cases "is"; cases "free_dns_hash_bucket i \<sigma>") simp_all
qed simp

lemma empty_state:
  assumes "cache_inv \<sigma>" "cents \<sigma> = Map.empty"
  shows "cache_size \<sigma> = 0 \<and> ent_num \<sigma> = 0 \<and> rl_first (rrl \<sigma>) = None \<and> rl_last (rrl \<sigma>) = None"
proof -
  have "items Map.empty = {}" "total {} Map.empty = 0" by (simp_all add: items_def total_def)
  moreover obtain its where "rrl_rep (rrl \<sigma>) its" "set its = items (cents \<sigma>)" using cache_inv_list [OF assms(1)] by blast
  ultimately have "rrl_rep (rrl \<sigma>) []" "total {} (cents \<sigma>) = 0" using assms(2) by simp_all
  then show ?thesis using assms by (auto simp: cache_inv_def cinv_def dest: rrl_repD)
qed

lemma destroy_cache_spec:
  assumes "cache_inv \<sigma>"
  shows "\<exists>\<sigma>'. destroy_cache True \<sigma> = Some \<sigma>' \<and> cents \<sigma>' = Map.empty \<and> cache_size \<sigma>' = 0 \<and> ent_num \<sigma>' = 0 \<and>
    rl_first (rrl \<sigma>') = None \<and> rl_last (rrl \<sigma>') = None"
proof -
  obtain \<sigma>' where 1: "empty_cache None True id \<sigma> = Some (True, \<sigma>')" "cache_inv \<sigma>'"
    "cents \<sigma>' = (\<lambda>a. case cents \<sigma> a of None \<Rightarrow> None | Some c \<Rightarrow> if chosen None (ce_qname c) then None else Some c)"
    using empty_cache_spec [OF assms, of None] by (auto simp: slist_ok_def)
  have e: "cents \<sigma>' = Map.empty" using 1(3) by (auto simp: chosen_def fun_eq_iff split: option.split)
  have "destroy_cache True \<sigma> = empty_loop None id [0..<HASH_NUM_BUCKETS] \<sigma>"
    by (simp only: destroy_cache_def free_dns_hash_def free_buckets_eq not_True_eq_False if_False)
  moreover have "empty_loop None id [0..<HASH_NUM_BUCKETS] \<sigma> = Some \<sigma>'"
    using 1(1) unfolding empty_cache_def by (simp only: not_True_eq_False if_False bind_eq_Some_conv) blast
  ultimately show ?thesis using e empty_state [OF 1(2) e] by simp
qed

end
