(* ===== verification/Pd_CacheProps.thy ===== *)
theory Pd_CacheProps
  imports Pd_Empty
begin

text \<open>
  The properties of the cache: the operations as a service whose invariant every sequence of
  operations keeps, whatever allocations fail, and what each operation promises.
\<close>

subsection \<open>Operations as a service\<close>

text \<open>A service has operations that are defined, and keep its invariant, wherever they may be used.\<close>

fun run_all :: "('o \<Rightarrow> 's \<Rightarrow> 's option) \<Rightarrow> 'o list \<Rightarrow> 's \<Rightarrow> 's option" where
  "run_all run [] s = Some s"
| "run_all run (x # xs) s = do { s' \<leftarrow> run x s; run_all run xs s' }"

text \<open>Every operation may be used in the state in which its turn comes.\<close>

fun all_ok :: "('o \<Rightarrow> 's \<Rightarrow> bool) \<Rightarrow> ('o \<Rightarrow> 's \<Rightarrow> 's option) \<Rightarrow> 'o list \<Rightarrow> 's \<Rightarrow> bool" where
  "all_ok ok run [] s = True"
| "all_ok ok run (x # xs) s = (ok x s \<and> (case run x s of None \<Rightarrow> True | Some s' \<Rightarrow> all_ok ok run xs s'))"

locale service =
  fixes inv :: "'s \<Rightarrow> bool"
    and ok :: "'o \<Rightarrow> 's \<Rightarrow> bool"
    and run :: "'o \<Rightarrow> 's \<Rightarrow> 's option"
  assumes step: "inv s \<Longrightarrow> ok x s \<Longrightarrow> \<exists>s'. run x s = Some s' \<and> inv s'"
begin

inductive reach :: "'s \<Rightarrow> 's \<Rightarrow> bool" where
  start: "reach s s"
| go: "reach s s' \<Longrightarrow> ok x s' \<Longrightarrow> run x s' = Some s'' \<Longrightarrow> reach s s''"

lemma reach_inv: "reach s s' \<Longrightarrow> inv s \<Longrightarrow> inv s'"
proof (induction rule: reach.induct)
  case (go s s' x s'')
  then show ?case using step [of s' x] by auto
qed

lemma run_all_inv: "inv s \<Longrightarrow> all_ok ok run xs s \<Longrightarrow> \<exists>s'. run_all run xs s = Some s' \<and> inv s'"
proof (induction xs arbitrary: s)
  case (Cons x xs)
  then show ?case using step [OF Cons.prems(1), of x] by auto
qed simp

lemma run_all_reach: "run_all run xs s' = Some s'' \<Longrightarrow> all_ok ok run xs s' \<Longrightarrow> reach s s' \<Longrightarrow> reach s s''"
proof (induction xs arbitrary: s')
  case (Cons x xs)
  then obtain t where t: "run x s' = Some t" "run_all run xs t = Some s''" by (auto simp: bind_eq_Some_conv)
  then show ?case using Cons.IH [OF t(2)] Cons.prems(2) reach.go [OF Cons.prems(3) _ t(1)] by simp
qed simp

end

text \<open>The operations other parts of the program use.\<close>

datatype cache_op =
    OpAdd int cconf dns_cent
  | OpLookup int name bool
  | OpInvalidate name
  | OpSetFlags name u16
  | OpDelete name
  | OpPurge int int bool
  | OpEmpty "slist list option"
  | OpReverse int cconf dns_cent

definition fits :: "cache \<Rightarrow> bool" where
  "fits \<sigma> = (card (items (cents \<sigma>)) + NRRTOT < 2 ^ 32)"

fun op_ok :: "cache_op \<Rightarrow> cache \<Rightarrow> bool" where
  "op_ok (OpAdd now conf c) \<sigma> = (cent_wf c \<and> fits \<sigma>)"
| "op_ok (OpLookup now nm wild) \<sigma> = valid_name nm"
| "op_ok (OpInvalidate nm) \<sigma> = valid_name nm"
| "op_ok (OpSetFlags nm fl) \<sigma> = (valid_name nm \<and> \<not> has fl DF_NEGATIVE)"
| "op_ok (OpDelete nm) \<sigma> = valid_name nm"
| "op_ok (OpPurge now sz lazy) \<sigma> = fits \<sigma>"
| "op_ok (OpEmpty sla) \<sigma> = slist_ok sla"
| "op_ok (OpReverse now conf c) \<sigma> = (reversible c \<and> card (items (cents \<sigma>)) + addresses c * NRRTOT < 2 ^ 32)"

fun op_run :: "cache_op \<Rightarrow> cache \<Rightarrow> cache option" where
  "op_run (OpAdd now conf c) \<sigma> = add_cache now conf c \<sigma>"
| "op_run (OpLookup now nm wild) \<sigma> = do { (_, _, \<sigma>') \<leftarrow> lookup_cache now now id nm wild \<sigma>; Some \<sigma>' }"
| "op_run (OpInvalidate nm) \<sigma> = invalidate_record nm \<sigma>"
| "op_run (OpSetFlags nm fl) \<sigma> = do { (_, \<sigma>') \<leftarrow> set_cent_flags nm fl \<sigma>; Some \<sigma>' }"
| "op_run (OpDelete nm) \<sigma> = del_cache nm \<sigma>"
| "op_run (OpPurge now sz lazy) \<sigma> = purge_cache now sz lazy \<sigma>"
| "op_run (OpEmpty sla) \<sigma> = do { (_, \<sigma>') \<leftarrow> empty_cache sla True id \<sigma>; Some \<sigma>' }"
| "op_run (OpReverse now conf c) \<sigma> = do { (_, \<sigma>') \<leftarrow> add_reverse_cache now conf c \<sigma>; Some \<sigma>' }"

lemma fits_small: "fits \<sigma> \<Longrightarrow> card (items (cents \<sigma>)) < 2 ^ 32"
  by (simp add: fits_def)

lemma op_step:
  assumes "cache_inv \<sigma>" "op_ok x \<sigma>"
  shows "\<exists>\<sigma>'. op_run x \<sigma> = Some \<sigma>' \<and> cache_inv \<sigma>'"
proof (cases x)
  case (OpAdd now conf c)
  then show ?thesis using add_cache_spec [OF assms(1), of c now conf] assms(2) by (auto simp: fits_def added_def)
next
  case (OpLookup now nm wild)
  then have v: "valid_name nm" using assms(2) by simp
  show ?thesis using lookup_cache_spec [OF assms(1) v, of id now now wild] OpLookup by auto
next
  case (OpInvalidate nm)
  then show ?thesis using invalidate_record_spec [OF assms(1), of nm] assms(2) by auto
next
  case (OpSetFlags nm fl)
  then show ?thesis using set_cent_flags_spec [OF assms(1), of nm fl] assms(2) by auto
next
  case (OpDelete nm)
  then show ?thesis using del_cache_spec [OF assms(1), of nm] assms(2) by auto
next
  case (OpPurge now sz lazy)
  then show ?thesis using purge_cache_spec [OF assms(1) fits_small, of now sz lazy] assms(2) by auto
next
  case (OpEmpty sla)
  then show ?thesis using empty_cache_spec [OF assms(1), of sla] assms(2) by auto
next
  case (OpReverse now conf c)
  then obtain ok \<sigma>' where "add_reverse_cache now conf c \<sigma> = Some (ok, \<sigma>')" "cache_inv \<sigma>'"
    using add_reverse_cache_ok [OF assms(1), of c now conf] assms(2) by auto
  then show ?thesis using OpReverse by simp
qed

interpretation cs: service cache_inv op_ok op_run
  by unfold_locales (rule op_step)

subsection \<open>An example entry\<close>

text \<open>The name \<open>a.\<close> with one address, received at time 1000 with a time to live of one hour.\<close>

definition ex_name :: name where "ex_name = [1, 97, 0]"

definition ex_set :: rr_set where
  "ex_set = \<lparr> rs_lent = None, rs_ttl = 3600, rs_ts = 1000, rs_flags = 0, rs_rrs = [[192, 0, 2, 1]] \<rparr>"

definition ex_cent :: dns_cent where
  "ex_cent = \<lparr> ce_qname = ex_name, ce_cs = 87, ce_num = 1, ce_flags = 0,
     ce_body = RRBody [Some ex_set, None, None, None, None, None, None, None] None, ce_ns = cundef, ce_soa = cundef \<rparr>"

definition ex_conf :: cconf where
  "ex_conf = \<lparr> min_ttl = 120, max_ttl = 604800, neg_ttl = 900, perm_cache = 2048 \<rparr>"

lemma ex_name_valid: "valid_name ex_name"
  using valid_name_enc [of "[[97]]"] by (simp add: ex_name_def wire_name_def wire_label_def)

lemma ex_key: "key_of ex_name = [[97]]"
  using unenc_enc0 [of "[[97]]"] by (simp add: key_of_def ex_name_def name_label_def canon_def tolower_c_def)

lemma ex_slots: "slots ex_cent = [Some ex_set, None, None, None, None, None, None, None]" "\<not> neg ex_cent"
  by (simp_all add: slots_def ex_cent_def)

lemma ex_slot: "slot ex_cent i = (if i = 0 then Some ex_set else None)"
proof (cases "i < 8")
  case True
  then have "i \<in> set [0..<8]" by simp
  then show ?thesis unfolding slot_def ex_slots by (auto simp: upt_rec)
qed (simp add: slot_def ex_slots)

lemma ex_cent_wf: "cent_wf ex_cent"
proof -
  have "cent_shape ex_cent" by (simp add: cent_shape_def ex_cent_def)
  moreover have "slots_num (slots ex_cent) = 1" "slots_size (slots ex_cent) = 32"
    by (simp_all add: ex_slots slots_num_def slots_size_def slot_size_def ex_set_def rrset_size_def rrs_size_def sz_rrset_def sz_bucket_def)
  moreover have "ce_qname ex_cent = ex_name" "ce_cs ex_cent = 87" "ce_num ex_cent = 1" by (simp_all add: ex_cent_def)
  ultimately show ?thesis using ex_name_valid
    by (simp add: cent_wf_def cent_size_def ex_slots(1)) (simp add: ex_name_def sz_cent_def)
qed

lemma init_facts: "no_fail (init_cache [])" "fits (init_cache ms)" "tabm (init_cache ms) = Map.empty"
  "cents (init_cache ms) = Map.empty" "cache_size (init_cache ms) = 0"
proof -
  show c: "cents (init_cache ms) = Map.empty" by (simp add: init_cache_def)
  show "no_fail (init_cache [])" by (simp add: no_fail_def init_cache_def)
  have "items Map.empty = {}" by (simp add: items_def)
  then show "fits (init_cache ms)" by (simp add: fits_def c)
  have "qn (init_cache ms) = (\<lambda>_. None)" by (simp add: qn_def c fun_eq_iff)
  then show "tabm (init_cache ms) = Map.empty" using mk_dns_hash_ok(2) by (simp add: init_cache_def)
  show "cache_size (init_cache ms) = 0" by (simp add: init_cache_def)
qed

text \<open>The cache with this entry.\<close>

definition ex_cache :: "cache \<Rightarrow> bool" where
  "ex_cache \<sigma> = (cache_inv \<sigma> \<and> no_fail \<sigma> \<and> fits \<sigma> \<and> within ex_conf \<sigma> \<and>
     (\<exists>a ce. cents \<sigma> = [a \<mapsto> ce] \<and> tabm \<sigma> = [[[97]] \<mapsto> a] \<and> unlinked ce = stored ex_conf ex_cent))"

lemma ex_cache_exists: "\<exists>\<sigma>. ex_cache \<sigma>"
proof -
  have st: "ce_cs (stored ex_conf ex_cent) = 87" "ce_qname ex_cent = ex_name" "ce_num ex_cent \<noteq> 0"
    using stored_head(1) [OF ex_cent_wf ex_slots(2), of ex_conf] by (simp_all add: ex_cent_def)
  have lim: "limit ex_conf = 2107392" by (simp add: limit_def ex_conf_def)
  have h: "tabm (init_cache []) (key_of (ce_qname ex_cent)) = None" "card (items (cents (init_cache []))) + NRRTOT < 2 ^ 32"
    using init_facts(2) [of "[]"] by (simp_all add: init_facts(3) fits_def)
  obtain \<sigma> where s: "cache_inv \<sigma>" "new_kept ex_conf ex_cent (init_cache []) \<sigma>" "no_fail \<sigma>" "within ex_conf \<sigma>"
    using add_cache_new [OF init_cache_inv ex_cent_wf h, of 0 ex_conf] init_facts(1) by blast
  obtain a ce where a: "cents \<sigma> = [a \<mapsto> ce]" "tabm \<sigma> = [[[97]] \<mapsto> a]" "unlinked ce = stored ex_conf ex_cent"
    using s(2) init_facts st lim ex_key unfolding new_kept_def by auto
  have I: "cinv (dom (cents \<sigma>)) {} \<sigma>" using s(1) by (simp add: cache_inv_def)
  have "cents \<sigma> a = Some ce" using a(1) by simp
  then have sh: "cent_shape ce" by (rule cinv_ent [OF I])
  have "card (items (cents \<sigma>)) \<le> card (items (cents (init_cache []))) + NRRTOT"
    by (rule items_put_card [OF cache_items_finite [OF init_cache_inv] sh]) (simp add: a(1) init_facts(4))
  moreover have "items Map.empty = {}" by (simp add: items_def)
  ultimately have "fits \<sigma>" by (simp add: fits_def init_facts(4))
  then show ?thesis using s a unfolding ex_cache_def by blast
qed

lemma ex_cacheD:
  assumes "ex_cache \<sigma>"
  obtains a ce where "cache_inv \<sigma>" "no_fail \<sigma>" "fits \<sigma>" "within ex_conf \<sigma>" "cents \<sigma> = [a \<mapsto> ce]" "tabm \<sigma> = [[[97]] \<mapsto> a]"
    "unlinked ce = stored ex_conf ex_cent" "cent_wf ce" "cents \<sigma> a = Some ce"
proof -
  obtain a ce where a: "cache_inv \<sigma>" "no_fail \<sigma>" "fits \<sigma>" "within ex_conf \<sigma>" "cents \<sigma> = [a \<mapsto> ce]" "tabm \<sigma> = [[[97]] \<mapsto> a]"
    "unlinked ce = stored ex_conf ex_cent" using assms unfolding ex_cache_def by blast
  have I: "cinv (dom (cents \<sigma>)) {} \<sigma>" using a(1) by (simp add: cache_inv_def)
  have c: "cents \<sigma> a = Some ce" using a(5) by simp
  show ?thesis by (rule that [OF a cinv_ent(1) [OF I c] c])
qed

subsection \<open>What each operation promises\<close>

text \<open>
  C4. Starting from the empty cache, every sequence of additions, look-ups, invalidations, changes of
  flags, deletions, purges, emptyings and additions of reverse records runs to its end, whatever
  allocations fail, if every operation is used as its callers use it: on well-formed names and
  entries, with a cache of fewer than 2^32 RR sets (less those the operation may add), and reverse
  records only of entries that have addresses of the right length and neither an NS nor an SOA
  set (\<open>add_reverse_cache\<close> does not count the sets it shares). No assertion of the code
  fails and no freed node or entry is used. The state it leaves satisfies the invariant
  of the cache: the hash table holds exactly the entries there are, each under its own name, the
  list of RR sets exactly those that may be purged, and the size and the number of entries are those
  of the entries.
\<close>

theorem cache_ops_safe:
  assumes "all_ok op_ok op_run ops (init_cache ms)"
  shows "\<exists>\<sigma>. run_all op_run ops (init_cache ms) = Some \<sigma> \<and> cache_inv \<sigma>"
  by (rule cs.run_all_inv [OF init_cache_inv assms])

theorem cache_ops_safe_witness:
  "\<exists>\<sigma>. run_all op_run [OpAdd 1000 ex_conf ex_cent, OpReverse 1000 ex_conf ex_cent, OpInvalidate ex_name, OpDelete ex_name] (init_cache []) =
    Some \<sigma> \<and> cache_inv \<sigma>"
proof -
  have r: "reversible ex_cent" "addresses ex_cent = 1"
    using ex_cent_wf by (simp_all add: reversible_def addresses_def ex_slot ex_set_def) (simp_all add: ex_cent_def)
  have z: "items (cents (init_cache [])) = {}" by (simp add: items_def init_facts(4))
  obtain \<sigma>1 where 1: "add_cache 1000 ex_conf ex_cent (init_cache []) = Some \<sigma>1" "card (items (cents \<sigma>1)) \<le> NRRTOT"
    using add_cache_spec [OF init_cache_inv ex_cent_wf, of "[]" 1000 ex_conf] z by (auto simp: added_def)
  have "all_ok op_ok op_run [OpAdd 1000 ex_conf ex_cent, OpReverse 1000 ex_conf ex_cent, OpInvalidate ex_name, OpDelete ex_name] (init_cache [])"
    using 1 r ex_cent_wf init_facts(2) [of "[]"] ex_name_valid by (simp split: option.split)
  then show ?thesis by (rule cache_ops_safe)
qed

text \<open>
  C15. An entry with RR sets that is added under a new name, when memory and the size limit allow it, is
  found by a following look-up under any spelling of the name that differs in case only, with all
  its RR sets, their times to live adjusted as configured, if none has timed out meanwhile.
\<close>

theorem add_lookup_roundtrip:
  assumes "cache_inv \<sigma>" "cent_wf c" "\<not> neg c" "tabm \<sigma> (key_of nm) = None" "valid_name nm" "key_of nm = key_of (ce_qname c)"
    "no_fail \<sigma>" "fits \<sigma>" "cache_size \<sigma> + ce_cs c \<le> perm_cache conf * 1024 + MCSZ" "slot c j \<noteq> None"
    "\<And>i rs. slot c i = Some rs \<Longrightarrow> \<not> stale_set now (adjust_ttl conf rs)"
  shows "\<exists>\<sigma>1 cp \<sigma>2. add_cache t conf c \<sigma> = Some \<sigma>1 \<and> lookup_cache now now id nm wild \<sigma>1 = Some (Some cp, 0, \<sigma>2) \<and>
    ce_qname cp = ce_qname c \<and> (\<forall>i. slot cp i = map_option (\<lambda>rs. adjust_ttl conf (rs\<lparr> rs_lent := None \<rparr>)) (slot c i))"
proof -
  have st: "slot (stored conf c) i = map_option (\<lambda>rs. adjust_ttl conf (rs\<lparr> rs_lent := None \<rparr>)) (slot c i)" for i
    by (rule stored_head(4) [OF assms(2,3)])
  have lent: "stale_set now (adjust_ttl conf (rs\<lparr> rs_lent := None \<rparr>)) = stale_set now (adjust_ttl conf rs)" for rs
    by (simp add: stale_set_def adjust_ttl_def timedout_def)
  have ns: "\<not> stale_set now rs" if s: "slot (stored conf c) i = Some rs" for i rs
  proof -
    obtain rs' where "slot c i = Some rs'" "rs = adjust_ttl conf (rs'\<lparr> rs_lent := None \<rparr>)" using s st [of i] by auto
    then show ?thesis using assms(11) lent by simp
  qed
  have "\<exists>\<sigma>1 cp \<sigma>2. add_cache t conf c \<sigma> = Some \<sigma>1 \<and> lookup_cache now now id nm wild \<sigma>1 = Some (Some cp, 0, \<sigma>2) \<and>
    ce_qname cp = ce_qname c \<and> (\<forall>i. slot cp i = slot (stored conf c) i)"
    by (rule add_lookup [OF assms(1-7) _ _ assms(10)]) (use assms(8,9) ns in \<open>simp_all add: limit_def fits_def\<close>)
  then show ?thesis unfolding st .
qed

theorem add_lookup_roundtrip_witness:
  "\<exists>\<sigma>1 cp \<sigma>2. add_cache 1000 ex_conf ex_cent (init_cache []) = Some \<sigma>1 \<and>
    lookup_cache 1500 1500 id [1, 65, 0] False \<sigma>1 = Some (Some cp, 0, \<sigma>2) \<and> slot cp 0 = Some ex_set"
proof -
  have k: "key_of [1, 65, 0] = [[97]]" "valid_name [1, 65, 0]"
    using unenc_enc0 [of "[[65]]"] valid_name_enc [of "[[65]]"]
    by (simp_all add: key_of_def name_label_def canon_def tolower_c_def wire_name_def wire_label_def)
  have ns: "\<not> stale_set 1500 (adjust_ttl ex_conf rs)" if "slot ex_cent i = Some rs" for i rs
    using that by (auto simp: ex_slot ex_set_def stale_set_def adjust_ttl_def adjusted_ttl_def ex_conf_def timedout_def CLAT_ADJ_def split: if_splits)
  have a: "adjust_ttl ex_conf (ex_set\<lparr> rs_lent := None \<rparr>) = ex_set"
    by (simp add: ex_set_def adjust_ttl_def adjusted_ttl_def ex_conf_def)
  have "ce_qname ex_cent = ex_name" "ce_cs ex_cent = 87" by (simp_all add: ex_cent_def)
  moreover have "perm_cache ex_conf = 2048" by (simp add: ex_conf_def)
  ultimately have "\<exists>\<sigma>1 cp \<sigma>2. add_cache 1000 ex_conf ex_cent (init_cache []) = Some \<sigma>1 \<and>
    lookup_cache 1500 1500 id [1, 65, 0] False \<sigma>1 = Some (Some cp, 0, \<sigma>2) \<and> ce_qname cp = ce_qname ex_cent \<and>
    (\<forall>i. slot cp i = map_option (\<lambda>rs. adjust_ttl ex_conf (rs\<lparr> rs_lent := None \<rparr>)) (slot ex_cent i))"
    by (intro add_lookup_roundtrip [OF init_cache_inv ex_cent_wf ex_slots(2) _ k(2) _ init_facts(1,2), where j = 0])
      (use ns in \<open>simp_all add: init_facts k ex_key ex_slot\<close>)
  then show ?thesis using a ex_slot [of 0] by (metis option.simps(9))
qed

text \<open>
  C5. \<open>add_cache\<close> ends for every well-formed entry and every cache, also when it replaces a negative
  entry and starts again, and when allocations fail, and keeps the invariant. RR sets that are
  defined locally are untouched, unless the added entry itself is local or has local sets; nothing is
  promised for a local negative entry, which the code replaces. When no allocation fails, a cache
  within its size limit is within the limit afterwards.
\<close>

theorem add_cache_correct:
  assumes "cache_inv \<sigma>" "cent_wf c" "fits \<sigma>"
  shows "\<exists>\<sigma>'. add_cache now conf c \<sigma> = Some \<sigma>' \<and> cache_inv \<sigma>' \<and> (no_local c \<longrightarrow> keeps_local \<sigma> \<sigma>') \<and>
    (no_fail \<sigma> \<and> within conf \<sigma> \<longrightarrow> within conf \<sigma>')"
  using add_cache_spec [OF assms(1,2), of now conf] assms(3) by (auto simp: fits_def added_def)

theorem add_cache_correct_witness:
  "\<exists>\<sigma> \<sigma>'. ex_cache \<sigma> \<and> add_cache 2000 ex_conf ex_cent \<sigma> = Some \<sigma>' \<and> cache_inv \<sigma>' \<and> within ex_conf \<sigma>'"
proof -
  obtain \<sigma> where s: "ex_cache \<sigma>" using ex_cache_exists by blast
  then have "cache_inv \<sigma>" "fits \<sigma>" "no_fail \<sigma> \<and> within ex_conf \<sigma>" by (auto elim: ex_cacheD)
  with add_cache_correct [OF this(1) ex_cent_wf this(2), of 2000 ex_conf] s show ?thesis by blast
qed

text \<open>
  C16. \<open>lookup_cache\<close> always returns, keeps the invariant, and what it returns is a private copy (none of
  its RR sets is in the list of the cache) without stale RR sets: sets that have timed out and are
  to be purged, that is neither local nor added while purging was off (\<open>CF_NOPURGE\<close>). Stale means
  at the time of the part under the read lock, or of the part under the write lock, when something had
  to be purged first; other threads may have changed the cache between the two. Of the cache itself it
  only takes entries and RR sets away.
\<close>

theorem lookup_cache_correct:
  assumes "cache_inv \<sigma>" "valid_name nm" "\<And>\<tau>. cache_inv \<tau> \<Longrightarrow> cache_inv (others \<tau>)"
  shows "\<exists>r w \<sigma>'. lookup_cache t1 t2 others nm wild \<sigma> = Some (r, w, \<sigma>') \<and> cache_inv \<sigma>' \<and>
    (answer t1 \<sigma> nm wild r \<and> w = snd (found_at \<sigma> nm wild) \<and> trimmed \<sigma> \<sigma>' \<or>
     (\<exists>\<tau>. \<tau> = others \<sigma> \<and> answer t2 \<tau> nm wild r \<and> w = snd (found_at \<tau> nm wild) \<and> trimmed \<tau> \<sigma>'))"
  by (rule lookup_cache_spec [OF assms])

theorem lookup_cache_correct_witness:
  "\<exists>\<sigma> w \<sigma>'. ex_cache \<sigma> \<and> lookup_cache 9000 9000 id ex_name False \<sigma> = Some (None, w, \<sigma>') \<and> cache_inv \<sigma>'"
proof -
  obtain \<sigma> where s: "ex_cache \<sigma>" using ex_cache_exists by blast
  then obtain a ce where a: "cache_inv \<sigma>" "tabm \<sigma> = [[[97]] \<mapsto> a]" "unlinked ce = stored ex_conf ex_cent" "cent_wf ce" "cents \<sigma> a = Some ce"
    by (rule ex_cacheD) blast
  have f: "found_at \<sigma> ex_name False = (Some a, 0)" by (simp add: found_at_def a(2) ex_key)
  note u = unlinked_props [OF a(4)]
  have "map_option (\<lambda>rs. rs\<lparr> rs_lent := None \<rparr>) (slot ce i) = map_option (\<lambda>rs. adjust_ttl ex_conf (rs\<lparr> rs_lent := None \<rparr>)) (slot ex_cent i)" for i
    using u(3) [of i] a(3) stored_head(4) [OF ex_cent_wf ex_slots(2), of ex_conf i] by simp
  moreover have "adjust_ttl ex_conf (ex_set\<lparr> rs_lent := None \<rparr>) = ex_set"
    by (simp add: ex_set_def adjust_ttl_def adjusted_ttl_def ex_conf_def)
  ultimately have sl: "map_option (\<lambda>rs. rs\<lparr> rs_lent := None \<rparr>) (slot ce i) = (if i = 0 then Some ex_set else None)" for i
    by (simp add: ex_slot)
  have st: "stale_at 9000 ce i = (i = 0)" for i
  proof (cases "slot ce i")
    case (Some rs)
    then have r: "i = 0" "rs\<lparr> rs_lent := None \<rparr> = ex_set" using sl [of i] by (simp_all split: if_splits)
    have "stale_set 9000 rs = stale_set 9000 ex_set" using stale_unlinked [of 9000 rs] unfolding r(2) by (rule sym)
    with r(1) have "i = 0" "stale_set 9000 rs = stale_set 9000 ex_set" by blast+
    then show ?thesis using Some by (simp add: stale_at_def ex_set_def stale_set_def timedout_def CLAT_ADJ_def)
  qed (use sl [of i] in \<open>auto simp: stale_at_def split: if_splits\<close>)
  have "\<not> fresh_at 9000 ce i" for i
  proof (cases "i = 0")
    case True
    then show ?thesis using st [of i] by (simp add: fresh_at_def)
  next
    case False
    then have "slot ce i = None" using sl [of i] by simp
    then show ?thesis by (simp add: fresh_at_def)
  qed
  then have "dead 9000 True ce"
    using cent_dead_eq(2) [of ce 9000] a(3,4) u(5) stored_head(3) [OF ex_cent_wf ex_slots(2), of ex_conf] ex_slots(2)
    by (simp add: dead_def nfresh_def cent_wf_def)
  then have "r = None" if "answer 9000 \<sigma> ex_name False r" for r using that f a(5) by (auto simp: answer_def split: option.splits)
  moreover obtain r w \<sigma>' where "lookup_cache 9000 9000 id ex_name False \<sigma> = Some (r, w, \<sigma>')" "cache_inv \<sigma>'"
    "answer 9000 \<sigma> ex_name False r" using lookup_cache_correct [OF a(1) ex_name_valid, of id 9000 9000 False] by auto
  ultimately show ?thesis using s by blast
qed

text \<open>
  C17. \<open>purge_cache\<close> ends for every size and every cache, and leaves the cache at most that large or with
  nothing but local data in it; local data is never removed, what is kept is not changed, and lazily
  called on a cache that is small enough it does nothing.
\<close>

theorem purge_cache_bounded:
  assumes "cache_inv \<sigma>" "fits \<sigma>"
  shows "\<exists>\<sigma>'. purge_cache now sz lazy \<sigma> = Some \<sigma>' \<and> cache_inv \<sigma>' \<and>
    (cache_size \<sigma>' \<le> sz \<or> (\<forall>a c. cents \<sigma>' a = Some c \<longrightarrow> only_local c)) \<and>
    pruned (\<lambda>c rs. \<not> local_set c rs) (\<lambda>c. \<not> has (ce_flags c) DF_LOCAL) \<sigma> \<sigma>' \<and>
    (lazy \<and> cache_size \<sigma> \<le> sz \<longrightarrow> \<sigma>' = \<sigma>)"
proof -
  obtain \<sigma>' where "purge_cache now sz lazy \<sigma> = Some \<sigma>'" "cache_inv \<sigma>'" "pruned not_local not_local_neg \<sigma> \<sigma>'"
    "cache_size \<sigma>' \<le> sz \<or> (\<forall>a c. cents \<sigma>' a = Some c \<longrightarrow> only_local c)" "lazy \<and> cache_size \<sigma> \<le> sz \<longrightarrow> \<sigma>' = \<sigma>"
    using purge_cache_spec [OF assms(1) fits_small [OF assms(2)], of now sz lazy] by (elim exE conjE) (rule that)
  then show ?thesis by (intro exI [of _ \<sigma>'] conjI)
qed

theorem purge_cache_bounded_witness:
  "\<exists>\<sigma> \<sigma>'. ex_cache \<sigma> \<and> purge_cache 1500 0 False \<sigma> = Some \<sigma>' \<and> cache_inv \<sigma>' \<and>
    (cache_size \<sigma>' \<le> 0 \<or> (\<forall>a c. cents \<sigma>' a = Some c \<longrightarrow> only_local c))"
proof -
  obtain \<sigma> where s: "ex_cache \<sigma>" using ex_cache_exists by blast
  then have "cache_inv \<sigma>" "fits \<sigma>" by (auto elim: ex_cacheD)
  from purge_cache_bounded [OF this, of 1500 0 False] s show ?thesis by blast
qed

text \<open>
  C27. \<open>del_cache\<close> refines the removal of a name from a map: the entry of that name goes, with the memory
  it used, and every other name keeps its entry.
\<close>

theorem del_cache_correct:
  assumes "cache_inv \<sigma>" "valid_name nm"
  shows "\<exists>\<sigma>'. del_cache nm \<sigma> = Some \<sigma>' \<and> cache_inv \<sigma>' \<and> tabm \<sigma>' = (tabm \<sigma>)(key_of nm := None) \<and>
    cents \<sigma>' = (case tabm \<sigma> (key_of nm) of None \<Rightarrow> cents \<sigma> | Some a \<Rightarrow> (cents \<sigma>)(a := None))"
  by (rule del_cache_spec [OF assms])

theorem del_cache_correct_witness:
  "\<exists>\<sigma> \<sigma>'. ex_cache \<sigma> \<and> del_cache ex_name \<sigma> = Some \<sigma>' \<and> cents \<sigma>' = Map.empty"
proof -
  obtain \<sigma> where s: "ex_cache \<sigma>" using ex_cache_exists by blast
  then obtain a ce where a: "cache_inv \<sigma>" "cents \<sigma> = [a \<mapsto> ce]" "tabm \<sigma> = [[[97]] \<mapsto> a]" by (rule ex_cacheD) blast
  have "tabm \<sigma> (key_of ex_name) = Some a" by (simp add: a(3) ex_key)
  with del_cache_correct [OF a(1) ex_name_valid] a(2) have "\<exists>\<sigma>'. del_cache ex_name \<sigma> = Some \<sigma>' \<and> cents \<sigma>' = Map.empty" by auto
  then show ?thesis using s by blast
qed

text \<open>
  C24. The test mode of \<open>purge_cent\<close>, which \<open>lookup_cache\<close> uses under the read lock, changes nothing and
  returns the number the real mode returns; the real mode deletes the entry exactly when the number
  is negative, and otherwise leaves the entry without what has timed out and touches no other entry.
\<close>

theorem purge_cent_test_agrees:
  assumes "cache_inv \<sigma>" "cents \<sigma> a = Some c"
  shows "\<exists>n \<sigma>'. purge_cent now a delete True \<sigma> = Some (n, \<sigma>) \<and> purge_cent now a delete False \<sigma> = Some (n, \<sigma>') \<and> cache_inv \<sigma>' \<and>
    (if n < 0 then cents \<sigma>' = (cents \<sigma>)(a := None)
     else \<exists>c'. cents \<sigma>' = (cents \<sigma>)(a \<mapsto> c') \<and> (\<forall>i. slot c' i = (if stale_at now c i then None else slot c i)) \<and>
       (n = 0 \<longrightarrow> (\<forall>i. slot c' i = slot c i)))"
proof -
  let ?A = "dom (cents \<sigma>)" and ?n = "purge_count now delete \<sigma> c"
  have I: "cinv ?A {} \<sigma>" using assms(1) by (simp add: cache_inv_def)
  have wf: "cent_wf c" "cent_shape c" by (rule cinv_ent [OF I assms(2)])+
  have aA: "a \<in> ?A" using assms(2) by blast
  have n: "(?n < 0) = dead now delete c" using npurge_nonneg [of now c] by (simp add: purge_count_def)
  have t: "purge_cent now a delete True \<sigma> = Some (?n, \<sigma>)" by (rule purge_cent_test [OF I assms(2)])
  obtain \<sigma>' where r: "purge_cent now a delete False \<sigma> = Some (?n, \<sigma>')"
    "if dead now delete c then gone ?A {} a \<sigma> \<sigma>' \<and> tabm \<sigma>' = (tabm \<sigma>)(key_of (ce_qname c) := None)
     else changed ?A {} a (purged_cent now \<sigma> c) \<sigma> \<sigma>'" using purge_cent_real [OF I assms(2) aA, of now delete] by auto
  show ?thesis
  proof (cases "?n < 0")
    case True
    then have g: "gone ?A {} a \<sigma> \<sigma>'" using r(2) n by simp
    then have "cache_inv \<sigma>'" "cents \<sigma>' = (cents \<sigma>)(a := None)" by (simp_all add: gone_def cache_inv_def)
    then show ?thesis using t r(1) True by (intro exI [of _ ?n] exI [of _ \<sigma>']) simp
  next
    case False
    let ?c = "purged_cent now \<sigma> c"
    have g: "changed ?A {} a ?c \<sigma> \<sigma>'" using r(2) n False by simp
    then have inv: "cache_inv \<sigma>'" "cents \<sigma>' = (cents \<sigma>)(a \<mapsto> ?c)" using aA by (simp_all add: changed_def cache_inv_def insert_absorb)
    have sl: "slot ?c i = (if stale_at now c i then None else slot c i)" for i by (rule purged_cent_props(1) [OF wf(1)])
    have "\<not> stale_at now c i" if z: "?n = 0" for i
    proof -
      have "npurge now c = 0" using z npurge_nonneg [of now c] n by (auto simp: purge_count_def split: if_splits)
      then show ?thesis using neg_not_stale [OF wf(2), of now i] slot_SomeD [of c i]
        by (auto simp: npurge_def filter_empty_conv stale_at_def split: if_splits option.splits)
    qed
    then show ?thesis using t r(1) False inv sl by (intro exI [of _ ?n] exI [of _ \<sigma>'] conjI) auto
  qed
qed

theorem purge_cent_test_agrees_witness:
  "\<exists>\<sigma> a n \<sigma>'. ex_cache \<sigma> \<and> purge_cent 1500 a True True \<sigma> = Some (n, \<sigma>) \<and> purge_cent 1500 a True False \<sigma> = Some (n, \<sigma>')"
proof -
  obtain \<sigma> where s: "ex_cache \<sigma>" using ex_cache_exists by blast
  then obtain a ce where "cache_inv \<sigma>" "cents \<sigma> a = Some ce" by (rule ex_cacheD) blast
  from purge_cent_test_agrees [OF this, of 1500 True] s show ?thesis by blast
qed

text \<open>
  C29. \<open>invalidate_record\<close> marks every RR set of the name as received at time 0 and not authoritative, or
  the negative entry as received at time 0, takes the mark of an authoritative answer from the entry,
  and changes nothing else: neither the other fields of the entry (its name, its sizes, its references
  to NS and SOA records) or of its RR sets, nor any other entry, nor the rest of the cache.
\<close>

theorem invalidate_record_correct:
  assumes "cache_inv \<sigma>" "valid_name nm"
  shows "\<exists>\<sigma>'. invalidate_record nm \<sigma> = Some \<sigma>' \<and> cache_inv \<sigma>' \<and> tabm \<sigma>' = tabm \<sigma> \<and>
    (case tabm \<sigma> (key_of nm) of None \<Rightarrow> \<sigma>' = \<sigma>
     | Some a \<Rightarrow> \<exists>c c'. cents \<sigma> a = Some c \<and> \<sigma>' = \<sigma>\<lparr> cents := (cents \<sigma>)(a \<mapsto> c') \<rparr> \<and>
         c' = c\<lparr> ce_flags := ce_flags c AND NOT DF_AUTH, ce_body := ce_body c' \<rparr> \<and>
         (\<forall>j. slot c' j = map_option (\<lambda>rs. rs\<lparr> rs_ts := 0, rs_flags := rs_flags rs AND NOT CF_AUTH \<rparr>) (slot c j)) \<and>
         (neg c \<longrightarrow> (\<exists>le ttl ts. ce_body c = NegBody le ttl ts \<and> ce_body c' = NegBody le ttl 0)))"
proof -
  obtain \<sigma>' where s: "invalidate_record nm \<sigma> = Some \<sigma>'" "cache_inv \<sigma>'" "tabm \<sigma>' = tabm \<sigma>"
    "case tabm \<sigma> (key_of nm) of None \<Rightarrow> \<sigma>' = \<sigma>
     | Some a \<Rightarrow> \<exists>c c'. cents \<sigma> a = Some c \<and> outdated_cent c c' \<and> \<sigma>' = put a c' \<sigma>"
    using invalidate_record_spec [OF assms] by (elim exE conjE) (rule that)
  show ?thesis
  proof (cases "tabm \<sigma> (key_of nm)")
    case None
    then show ?thesis using s by (intro exI [of _ \<sigma>']) simp
  next
    case (Some a)
    then show ?thesis using s unfolding outdated_cent_def put_def by (intro exI [of _ \<sigma>']) (simp only: option.case, blast)
  qed
qed

theorem invalidate_record_correct_witness:
  "\<exists>\<sigma> \<sigma>'. ex_cache \<sigma> \<and> invalidate_record ex_name \<sigma> = Some \<sigma>' \<and> cache_inv \<sigma>'"
proof -
  obtain \<sigma> where s: "ex_cache \<sigma>" using ex_cache_exists by blast
  then have "cache_inv \<sigma>" by (auto elim: ex_cacheD)
  from invalidate_record_correct [OF this ex_name_valid] s show ?thesis by blast
qed

text \<open>
  Destroying the cache frees every entry and every node of the list: afterwards there is no entry, the
  list is empty and size and number of entries are 0.
\<close>

theorem destroy_cache_complete:
  assumes "cache_inv \<sigma>"
  shows "\<exists>\<sigma>'. destroy_cache True \<sigma> = Some \<sigma>' \<and> cents \<sigma>' = Map.empty \<and> cache_size \<sigma>' = 0 \<and> ent_num \<sigma>' = 0 \<and>
    rl_first (rrl \<sigma>') = None \<and> rl_last (rrl \<sigma>') = None"
  by (rule destroy_cache_spec [OF assms])

theorem destroy_cache_complete_witness:
  "\<exists>\<sigma> \<sigma>'. ex_cache \<sigma> \<and> destroy_cache True \<sigma> = Some \<sigma>' \<and> cents \<sigma>' = Map.empty"
proof -
  obtain \<sigma> where s: "ex_cache \<sigma>" using ex_cache_exists by blast
  then have "cache_inv \<sigma>" by (auto elim: ex_cacheD)
  from destroy_cache_complete [OF this] s show ?thesis by blast
qed

text \<open>
  C28. \<open>empty_cache\<close> with an include/exclude list, when no other thread interferes, removes exactly the
  entries whose names the list selects; without a list, all of them.
\<close>

theorem empty_cache_correct:
  assumes "cache_inv \<sigma>" "slist_ok sla"
  shows "\<exists>\<sigma>'. empty_cache sla True id \<sigma> = Some (True, \<sigma>') \<and> cache_inv \<sigma>' \<and>
    cents \<sigma>' = (\<lambda>a. case cents \<sigma> a of None \<Rightarrow> None | Some c \<Rightarrow> if chosen sla (ce_qname c) then None else Some c)"
  by (rule empty_cache_spec [OF assms])

theorem empty_cache_correct_witness:
  "\<exists>\<sigma> \<sigma>'. ex_cache \<sigma> \<and>
    empty_cache (Some [\<lparr> sl_domain = [0], sl_exact = True, sl_rule = C_INCLUDED \<rparr>]) True id \<sigma> = Some (True, \<sigma>') \<and> cents \<sigma>' = cents \<sigma>"
proof -
  let ?sla = "Some [\<lparr> sl_domain = [0], sl_exact = True, sl_rule = C_INCLUDED \<rparr>]"
  obtain \<sigma> where s: "ex_cache \<sigma>" using ex_cache_exists by blast
  then obtain a ce where a: "cache_inv \<sigma>" "cents \<sigma> = [a \<mapsto> ce]" "unlinked ce = stored ex_conf ex_cent" "cent_wf ce" by (rule ex_cacheD) blast
  have "ce_qname ex_cent = ex_name" by (simp add: ex_cent_def)
  then have q: "ce_qname ce = ex_name"
    using unlinked_props(4) [OF a(4)] stored_head(2) [OF ex_cent_wf ex_slots(2), of ex_conf] a(3) by simp
  have u: "unenc [0] = []" "unenc ex_name = [[97]]"
    using unenc_enc0 [of "[]"] unenc_enc0 [of "[[97]]"] by (simp_all add: ex_name_def name_label_def)
  have ok: "slist_ok ?sla" using valid_name_enc [of "[]"] by (simp add: slist_ok_def wire_name_def)
  have ch: "\<not> chosen ?sla ex_name" by (simp add: chosen_def selected_def applies_def u)
  obtain \<sigma>' where "empty_cache ?sla True id \<sigma> = Some (True, \<sigma>')"
    "cents \<sigma>' = (\<lambda>b. case cents \<sigma> b of None \<Rightarrow> None | Some c \<Rightarrow> if chosen ?sla (ce_qname c) then None else Some c)"
    using empty_cache_correct [OF a(1) ok] by blast
  moreover from this(2) have "cents \<sigma>' = cents \<sigma>" using q ch unfolding a(2) by (auto simp: fun_eq_iff)
  ultimately show ?thesis using s by blast
qed

text \<open>
  C18. When \<open>purge_cache\<close> has to make room, it removes the oldest RR sets first: of what is still there
  when everything that has timed out is gone, whatever it removes is not younger than any RR set it
  keeps that is not local. This holds when the list was not yet sorted, because it is sorted then, and
  when it was and is in the order of the time stamps (\<open>in_order\<close>); \<open>invalidate_record\<close> sets time stamps to
  0 without moving the RR sets and breaks that order.
\<close>

theorem purge_oldest_first:
  assumes "cache_inv \<sigma>" "fits \<sigma>" "insert_sort \<sigma> \<Longrightarrow> in_order \<sigma>"
  shows "\<exists>\<sigma>1 \<sigma>'. purge_walk1 now sz lazy (rl_first (rrl \<sigma>)) \<sigma> = Some \<sigma>1 \<and>
    pruned (\<lambda>c rs. \<not> local_set c rs \<and> stale_set now rs) (\<lambda>c. \<not> has (ce_flags c) DF_LOCAL \<and> timedout_nxdom now c = Some True) \<sigma> \<sigma>1 \<and>
    purge_cache now sz lazy \<sigma> = Some \<sigma>' \<and> cache_inv \<sigma>' \<and>
    (\<forall>x \<in> items (cents \<sigma>1) - items (cents \<sigma>'). \<forall>y \<in> items (cents \<sigma>'). \<not> item_local \<sigma>' y \<longrightarrow>
       item_time (get_rrlent_ts (cents \<sigma>)) x \<le> item_time (get_rrlent_ts (cents \<sigma>)) y)"
proof -
  obtain \<sigma>1 \<sigma>' where 1: "purge_walk1 now sz lazy (rl_first (rrl \<sigma>)) \<sigma> = Some \<sigma>1"
    "walks (\<lambda>c rs. \<not> local_set c rs \<and> stale_set now rs) (\<lambda>c. \<not> has (ce_flags c) DF_LOCAL \<and> timedout_nxdom now c = Some True) \<sigma> \<sigma>1"
    "purge_cache now sz lazy \<sigma> = Some \<sigma>'" "cache_inv \<sigma>'"
    "\<forall>x \<in> items (cents \<sigma>1) - items (cents \<sigma>'). \<forall>y \<in> items (cents \<sigma>'). \<not> item_local \<sigma>' y \<longrightarrow>
       item_time (get_rrlent_ts (cents \<sigma>)) x \<le> item_time (get_rrlent_ts (cents \<sigma>)) y"
    using purge_cache_order [OF assms(1) fits_small [OF assms(2)], of now sz lazy] assms(3) by blast
  then show ?thesis by (intro exI [of _ \<sigma>1] exI [of _ \<sigma>'] conjI) (simp_all only: walks_def)
qed

theorem purge_oldest_first_witness:
  "\<exists>\<sigma> \<sigma>1 \<sigma>'. ex_cache \<sigma> \<and> purge_cache 1500 0 False \<sigma> = Some \<sigma>' \<and>
    purge_walk1 1500 0 False (rl_first (rrl \<sigma>)) \<sigma> = Some \<sigma>1 \<and> (\<forall>x \<in> items (cents \<sigma>1) - items (cents \<sigma>'). \<forall>y \<in> items (cents \<sigma>').
      \<not> item_local \<sigma>' y \<longrightarrow> item_time (get_rrlent_ts (cents \<sigma>)) x \<le> item_time (get_rrlent_ts (cents \<sigma>)) y)"
proof -
  obtain \<sigma> where s: "ex_cache \<sigma>" using ex_cache_exists by blast
  then obtain a ce where a: "cache_inv \<sigma>" "fits \<sigma>" "cents \<sigma> = [a \<mapsto> ce]" "unlinked ce = stored ex_conf ex_cent" "cent_wf ce" by (rule ex_cacheD) blast
  have sl: "slot ce i = None" if "i \<noteq> 0" for i
    using unlinked_props(3) [OF a(5), of i] a(4) stored_head(4) [OF ex_cent_wf ex_slots(2), of ex_conf i] that by (simp add: ex_slot)
  have n: "cent_shape ce" "\<not> neg ce"
    using a(4,5) unlinked_props(5) [OF a(5)] stored_head(3) [OF ex_cent_wf ex_slots(2), of ex_conf] ex_slots(2) by (simp_all add: cent_wf_def)
  have one: "x = y" if x: "x \<in> items (cents \<sigma>)" "y \<in> items (cents \<sigma>)" for x y
  proof -
    have it: "\<exists>k. z = (k, a, Some 0) \<and> Option.bind (slot ce 0) rs_lent = Some k" if z: "z \<in> items (cents \<sigma>)" for z
    proof -
      obtain k i where k: "z = (k, a, Some i)" "Option.bind (slot ce i) rs_lent = Some k"
        using z cent_items_rr [OF n, of a] by (auto simp: items_def a(3) split: if_splits)
      then have "i = 0" using sl [of i] by (cases "i = 0") simp_all
      then show ?thesis using k by simp
    qed
    show ?thesis using it [OF x(1)] it [OF x(2)] by auto
  qed
  have "sorted (map f its)" if its: "rrl_rep (rrl \<sigma>) its" for its and f :: "item \<Rightarrow> int"
  proof (cases its)
    case (Cons x xs)
    have "xs = []"
    proof (cases xs)
      case c: (Cons y ys)
      then have "x = y" using one [of x y] rep_items [OF a(1) its] Cons by auto
      then show ?thesis using rrl_repD(1) [OF its] Cons c by simp
    qed
    then show ?thesis using Cons by simp
  qed simp
  then have "in_order \<sigma>" by (simp add: in_order_def)
  from purge_oldest_first [OF a(1,2) this, of 1500 0 False] s show ?thesis by blast
qed

text \<open>
  C25. Conflict resolution: new data of a type is taken if it is negative or local, or if the entry and the
  RR sets it conflicts with are not local and it lives longer than those do on average; then exactly
  the conflicting RR sets are removed (none for negative data), otherwise nothing changes.
\<close>

theorem cr_check_add_correct:
  assumes "cache_inv \<sigma>" "cents \<sigma> a = Some c" "idx < NRRTOT"
  shows "\<exists>c' \<sigma>'. cr_check_add now c idx ttl ts fl \<sigma> = Some (accepts now c idx ttl fl, c', \<sigma>') \<and> cent_wf c' \<and>
    (\<forall>j. slot c' j = (if accepts now c idx ttl fl \<and> cr_clears fl c idx j then None else slot c j))"
proof -
  have I: "cinv (dom (cents \<sigma>)) {} \<sigma>" using assms(1) by (simp add: cache_inv_def)
  from cr_check_add_spec [OF cinv_ent(1) [OF I assms(2)] cinv_held [OF I assms(2)] assms(3), of now ttl ts fl]
  show ?thesis by (auto simp: thinned_def)
qed

theorem cr_check_add_correct_witness:
  "\<exists>\<sigma> a c c' \<sigma>'. ex_cache \<sigma> \<and> cents \<sigma> a = Some c \<and> cr_check_add 1500 c 2 10 1500 0 \<sigma> = Some (accepts 1500 c 2 10 0, c', \<sigma>')"
proof -
  obtain \<sigma> where s: "ex_cache \<sigma>" using ex_cache_exists by blast
  then obtain a ce where "cache_inv \<sigma>" "cents \<sigma> a = Some ce" by (rule ex_cacheD) blast
  moreover from cr_check_add_correct [OF this, of 2 1500 10 1500 0] obtain c' \<sigma>' where
    "cr_check_add 1500 ce 2 10 1500 0 \<sigma> = Some (accepts 1500 ce 2 10 0, c', \<sigma>')" by auto
  ultimately show ?thesis using s by blast
qed

text \<open>
  C26. Adding a record to an entry that is being built: with or without memory the entry stays well formed
  and unlinked, its other RR sets and the cache stay as they are; when it succeeds, the RR set has the
  record, once, at the end, and the smaller time to live; without failed allocations it succeeds.
\<close>

theorem add_cent_rr_correct:
  assumes "cache_inv \<sigma>" "cent_wf c" "loose c" "has (ce_flags c) DF_LOCAL \<longrightarrow> has fl CF_LOCAL"
    "0 \<le> tp - T_MIN" "tp - T_MIN < int T_NUM" "rrlkup tp = Some i" "i < NRRTOT"
  shows "\<exists>ok c' \<sigma>'. add_cent_rr c tp ttl ts fl d \<sigma> = Some (ok, c', \<sigma>') \<and> cent_wf c' \<and> loose c' \<and> ce_qname c' = ce_qname c \<and>
    (\<forall>j. j \<noteq> i \<longrightarrow> slot c' j = slot c j) \<and> (ok \<longrightarrow> slot c' i = Some (merged_set (slot c i) ttl ts fl d)) \<and>
    (no_fail \<sigma> \<longrightarrow> ok \<and> no_fail \<sigma>') \<and> cache_inv \<sigma>' \<and> cents \<sigma>' = cents \<sigma>"
  using add_cent_rr_ok [OF assms, where ttl = ttl and ts = ts and d = d] by blast

theorem add_cent_rr_correct_witness:
  "\<exists>ok c' \<sigma>'. add_cent_rr ex_cent T_A 60 2000 0 [192, 0, 2, 2] (init_cache []) = Some (ok, c', \<sigma>') \<and>
    slot c' 0 = Some (ex_set\<lparr> rs_ttl := 60, rs_rrs := [[192, 0, 2, 1], [192, 0, 2, 2]] \<rparr>)"
proof -
  have "ce_body ex_cent = RRBody (slots ex_cent) None" unfolding ex_slots by (simp add: ex_cent_def)
  then have "loose ex_cent" by (simp add: loose_def ex_slots ex_set_def)
  moreover have "has (ce_flags ex_cent) DF_LOCAL \<longrightarrow> has 0 CF_LOCAL" by (simp add: ex_cent_def)
  moreover have "rrlkup T_A = Some 0" "0 \<le> T_A - T_MIN" "T_A - T_MIN < int T_NUM" by code_simp+
  ultimately obtain ok c' \<sigma>' where "add_cent_rr ex_cent T_A 60 2000 0 [192, 0, 2, 2] (init_cache []) = Some (ok, c', \<sigma>')"
    "ok \<longrightarrow> slot c' 0 = Some (merged_set (slot ex_cent 0) 60 2000 0 [192, 0, 2, 2])" "no_fail (init_cache []) \<longrightarrow> ok"
    using add_cent_rr_correct [OF init_cache_inv [of "[]"] ex_cent_wf, where tp = T_A and fl = 0 and i = 0 and ttl = 60 and ts = 2000
        and d = "[192, 0, 2, 2]"] by auto
  then show ?thesis using init_facts(1) by (intro exI [of _ ok] exI [of _ c'] exI [of _ \<sigma>']) (simp add: ex_slot merged_set_def ex_set_def)
qed

end
