(* ===== verification/Pd_DiskSpec.thy ===== *)
theory Pd_DiskSpec
  imports Pd_Disk Pd_ReplySpec Pd_CacheProps
begin

text \<open>
  Reading the file image of the cache: whatever the file holds, reading ends without a failing
  assertion or an access outside an object and leaves the cache in order; and what was written is
  read back.
\<close>

subsection \<open>Names\<close>



subsection \<open>Entries under construction\<close>

text \<open>The references are kept, and the flags of an entry that is not negative.\<close>

definition same_refs :: "dns_cent \<Rightarrow> dns_cent \<Rightarrow> bool" where
  "same_refs c c' = (ce_ns c' = ce_ns c \<and> ce_soa c' = ce_soa c \<and> (\<not> neg c \<longrightarrow> ce_flags c' = ce_flags c))"

lemma same_refs_refl: "same_refs c c"
  by (simp add: same_refs_def)

lemma same_refs_trans: "same_refs c c1 \<Longrightarrow> same_refs c1 c2 \<Longrightarrow> same_refs c c2"
  by (auto simp: same_refs_def)

lemma add_set_loose:
  assumes "cache_inv \<sigma>" "cent_wf c" "loose c" "rrlkup tp = Some i" "i < NRRTOT" "slot c i = None"
  shows "\<exists>ok c' \<sigma>'. add_cent_rrset_by_type c tp ttl ts fl \<sigma> = Some (ok, c', \<sigma>') \<and> cent_wf c' \<and> loose c' \<and> quiet \<sigma> \<sigma>' \<and>
    ce_qname c' = ce_qname c \<and> (no_fail \<sigma> \<longrightarrow> ok) \<and> same_refs c c' \<and>
    (\<forall>j. slot c' j = (if ok \<and> j = i then Some \<lparr> rs_lent = None, rs_ttl = ttl, rs_ts = ts, rs_flags = fl, rs_rrs = [] \<rparr> else slot c j))"
proof -
  note I = entries_kept [OF assms(1)]
  let ?rs = "\<lparr> rs_lent = None, rs_ttl = ttl, rs_ts = ts, rs_flags = fl, rs_rrs = [] \<rparr>"
  have h: "held (next_id \<sigma>) c (rest (next_id \<sigma>) (cents \<sigma>)) \<sigma>" by (rule held_fresh [OF I fresh_addr [OF I] assms(3)])
  obtain ok c' \<sigma>' where r: "add_cent_rrset_by_index c i ttl ts fl \<sigma> = Some (ok, c', \<sigma>')"
    "add_set_res (next_id \<sigma>) (rest (next_id \<sigma>) (cents \<sigma>)) c i ?rs \<sigma> ok c' \<sigma>'"
    using add_cent_rrset_spec [OF assms(2) h assms(5,6)] by blast
  have a: "cent_wf c'" "\<not> neg c'" "held (next_id \<sigma>) c' (rest (next_id \<sigma>) (cents \<sigma>)) \<sigma>'" "frame \<sigma> \<sigma>'"
    "\<forall>j. slot c' j = (if ok \<and> j = i then Some ?rs else slot c j)" "ce_qname c' = ce_qname c" "no_fail \<sigma> \<longrightarrow> ok \<and> no_fail \<sigma>'"
    "same_refs c c'"
    using r(2) pos_cent_id [of c] unfolding add_set_res_def same_refs_def by auto
  have lo: "loose c'"
  proof (rule looseI)
    show "cent_shape c'" "\<not> neg c'" using a(1,2) by (simp_all add: cent_wf_def)
    fix j rs assume j: "slot c' j = Some rs"
    show "rs_lent rs = None" using a(5) j loose_slot [OF assms(3), of j rs] by (cases "ok \<and> j = i") auto
  qed
  have q: "quiet \<sigma> \<sigma>'" by (rule held_quiet [OF assms(1) a(4,3) lo]) (use a(7) in blast)
  have "0 \<le> tp - T_MIN" "tp - T_MIN < int T_NUM" using rrlkup_range [OF assms(4)] by simp_all
  then have "add_cent_rrset_by_type c tp ttl ts fl \<sigma> = Some (ok, c', \<sigma>')" using assms(4) r(1) by (simp add: add_cent_rrset_by_type_def)
  then show ?thesis using a lo q by blast
qed





lemma add_rr_loose:
  assumes "cache_inv \<sigma>" "cent_wf c" "loose c" "rrlkup tp = Some i" "i < NRRTOT"
  shows "\<exists>ok c' \<sigma>'. add_cent_rr c tp ttl ts fl d \<sigma> = Some (ok, c', \<sigma>') \<and> cent_wf c' \<and> loose c' \<and> quiet \<sigma> \<sigma>' \<and>
    ce_qname c' = ce_qname c \<and> same_refs c c' \<and> (no_fail \<sigma> \<longrightarrow> ok) \<and> (\<forall>j. j \<noteq> i \<longrightarrow> slot c' j = slot c j) \<and>
    (ok \<longrightarrow> \<not> (has (ce_flags c) DF_LOCAL \<and> \<not> has fl CF_LOCAL) \<longrightarrow> slot c' i = Some (merged_set (slot c i) ttl ts fl d))"
proof (cases "has (ce_flags c) DF_LOCAL \<and> \<not> has fl CF_LOCAL")
  case True
  then have "add_cent_rr c tp ttl ts fl d \<sigma> = Some (True, c, \<sigma>)" by (simp add: add_cent_rr_def)
  then show ?thesis using True assms(1-3) quiet_refl [OF assms(1)] same_refs_refl by blast
next
  case False
  note I = entries_kept [OF assms(1)]
  have t: "0 \<le> tp - T_MIN" "tp - T_MIN < int T_NUM" using rrlkup_range [OF assms(4)] by simp_all
  have h: "held (next_id \<sigma>) c (rest (next_id \<sigma>) (cents \<sigma>)) \<sigma>" by (rule held_fresh [OF I fresh_addr [OF I] assms(3)])
  obtain ok c' \<sigma>' where r: "add_cent_rr c tp ttl ts fl d \<sigma> = Some (ok, c', \<sigma>')"
    "add_cent_rr_res (next_id \<sigma>) (rest (next_id \<sigma>) (cents \<sigma>)) c i (merged_set (slot c i) ttl ts fl d) \<sigma> ok c' \<sigma>'"
    using add_cent_rr_spec [OF assms(2) h False t assms(4,5), of ttl ts d] by blast
  have a: "cent_wf c'" "held (next_id \<sigma>) c' (rest (next_id \<sigma>) (cents \<sigma>)) \<sigma>'" "frame \<sigma> \<sigma>'" "no_fail \<sigma> \<longrightarrow> ok \<and> no_fail \<sigma>'"
    "ce_qname c' = ce_qname c" "\<forall>j. j \<noteq> i \<longrightarrow> slot c' j = slot c j" "ok \<longrightarrow> slot c' i = Some (merged_set (slot c i) ttl ts fl d)"
    "same_refs c c'"
    using r(2) pos_cent_id [of c] unfolding add_cent_rr_res_def same_refs_def by auto
  have lo: "loose c'" by (rule add_cent_rr_loose [OF r(2) assms(3) a(1)])
  have "quiet \<sigma> \<sigma>'" by (rule held_quiet [OF assms(1) a(3,2) lo]) (use a(4) in blast)
  then show ?thesis using r(1) a lo by blast
qed


subsection \<open>The RR sets of an entry\<close>

text \<open>No set of a type above \<open>p\<close> is there.\<close>

definition above_free :: "int \<Rightarrow> dns_cent \<Rightarrow> bool" where
  "above_free p c = (\<forall>tp i. p < tp \<longrightarrow> rrlkup tp = Some i \<longrightarrow> slot c i = None)"

lemma above_free_step:
  assumes "above_free p c" "p < tp" "rrlkup tp = Some i" "\<forall>j. j \<noteq> i \<longrightarrow> slot c' j = slot c j"
  shows "above_free tp c'"
  unfolding above_free_def
proof (intro allI impI)
  fix tp' i' assume t: "tp < tp'" "rrlkup tp' = Some i'"
  then have "i' \<noteq> i" using rrlkup_inj [OF assms(3)] by force
  moreover have "slot c i' = None" using assms(1,2) t unfolding above_free_def by (meson less_trans)
  ultimately show "slot c' i' = None" using assms(4) by simp
qed


subsection \<open>The whole file\<close>

lemma set_refs:
  assumes "cent_wf c" "loose c"
  shows "cent_wf (c\<lparr> ce_ns := x, ce_soa := y \<rparr>)" "loose (c\<lparr> ce_ns := x, ce_soa := y \<rparr>)" "slot (c\<lparr> ce_ns := x, ce_soa := y \<rparr>) = slot c"
proof -
  let ?c = "c\<lparr> ce_ns := x, ce_soa := y \<rparr>"
  have s: "slots ?c = slots c" by (simp add: slots_def)
  then show "slot ?c = slot c" by (simp add: slot_def fun_eq_iff)
  have "cent_shape ?c" using assms(1) by (cases "ce_body c") (simp_all add: cent_wf_def cent_shape_def)
  then show "cent_wf ?c" using assms(1) s by (simp add: cent_wf_def cent_size_def)
  show "loose ?c" using assms(2) s by (cases "ce_body c") (simp_all add: loose_def)
qed













subsection \<open>What is written\<close>

definition rrs_img :: "byte list list \<Rightarrow> byte list" where
  "rrs_img ds = concat (map (\<lambda>d. le16 (word_of_nat (length d)) @ d) ds)"

definition set_img :: "int \<Rightarrow> rr_set \<Rightarrow> byte list" where
  "set_img tp rs = rrset_header tp rs @ rrs_img (rs_rrs rs)"

lemma rrs_img_simps [simp]: "rrs_img [] = []" "rrs_img (d # ds) = le16 (word_of_nat (length d)) @ d @ rrs_img ds"
  by (simp_all add: rrs_img_def)

lemma fwrite_all: "wf_oks f = [] \<Longrightarrow> fwrite bs f = (True, f\<lparr> wf_out := wf_out f @ bs \<rparr>)"
  by (simp add: fwrite_def)

text \<open>What fits into the fields of the file: times of 32 bits, at most 255 records without repetition, shorter
  than 65536 bytes.\<close>

definition fits32 :: "int \<Rightarrow> bool" where
  "fits32 t = (- 2147483648 \<le> t \<and> t < 2147483648)"

definition set_fits :: "rr_set \<Rightarrow> bool" where
  "set_fits rs = (fits32 (rs_ttl rs) \<and> fits32 (rs_ts rs) \<and> length (rs_rrs rs) < 256 \<and> distinct (rs_rrs rs) \<and>
     list_all (\<lambda>d. length d < 65536) (rs_rrs rs))"

lemma time_roundtrip [simp]: "fits32 t \<Longrightarrow> bytes_time (time_bytes t) = t"
  unfolding fits32_def bytes_time_def time_bytes_def un_le32_le32 sint_sbintrunc' by (rule signed_take_bit_int_eq_self) simp_all

lemma time_length [simp]: "length (time_bytes t) = 4"
  by (simp add: time_bytes_def)

lemma u16_length: "length d < 65536 \<Longrightarrow> unat (word_of_nat (length d) :: u16) = length d"
  by (simp add: unsigned_of_nat take_bit_nat_eq_self)

lemma write_rrs_img:
  "wf_oks f = [] \<Longrightarrow> list_all (\<lambda>d. length d < 65536) ds \<Longrightarrow> write_rrs ds f = Some (True, f\<lparr> wf_out := wf_out f @ rrs_img ds \<rparr>)"
proof (induction ds arbitrary: f)
  case (Cons d ds)
  have u: "unat (word_of_nat (length d) :: u16) = length d" using Cons.prems(2) by (simp add: u16_length)
  have z: "(word_of_nat (length d) :: u16) = 0 \<longleftrightarrow> d = []" using u by (metis length_0_conv unat_0_iff)
  show ?case
  proof (cases "d = []")
    case True
    then show ?thesis using Cons by (simp add: fwrite_all)
  next
    case False
    then show ?thesis using Cons z u by (simp add: fwrite_all Let_def)
  qed
qed simp

lemma write_rrset_img: "wf_oks f = [] \<Longrightarrow> set_fits rs \<Longrightarrow> write_rrset tp rs f = Some (True, f\<lparr> wf_out := wf_out f @ set_img tp rs \<rparr>)"
  by (simp add: write_rrset_def fwrite_all set_fits_def write_rrs_img set_img_def)

lemma fread_append [simp]: "length b = n \<Longrightarrow> fread n (b @ r) = Some (b, r)"
  by (auto simp: fread_def)

subsection \<open>Reading it back\<close>

text \<open>An entry under construction, with allocations that do not fail.\<close>

definition building :: "dns_cent \<Rightarrow> cache \<Rightarrow> bool" where
  "building c \<sigma> = (cache_inv \<sigma> \<and> no_fail \<sigma> \<and> cent_wf c \<and> loose c \<and> \<not> neg c \<and> \<not> has (ce_flags c) DF_LOCAL)"

text \<open>It goes on as the same entry.\<close>

definition goes_on :: "dns_cent \<Rightarrow> cache \<Rightarrow> dns_cent \<Rightarrow> cache \<Rightarrow> bool" where
  "goes_on c \<sigma> c' \<sigma>' = (building c' \<sigma>' \<and> ce_qname c' = ce_qname c \<and> ce_flags c' = ce_flags c \<and> ce_ns c' = ce_ns c \<and> ce_soa c' = ce_soa c \<and>
     quiet \<sigma> \<sigma>')"

lemma goes_on_refl: "building c \<sigma> \<Longrightarrow> goes_on c \<sigma> c \<sigma>"
  by (simp add: goes_on_def building_def quiet_refl)

lemma goes_on_trans: "goes_on c \<sigma> c1 \<sigma>1 \<Longrightarrow> goes_on c1 \<sigma>1 c2 \<sigma>2 \<Longrightarrow> goes_on c \<sigma> c2 \<sigma>2"
  using quiet_trans [of \<sigma> \<sigma>1 \<sigma>2] by (simp add: goes_on_def)

lemma goes_onI:
  assumes "building c \<sigma>" "cent_wf c'" "loose c'" "quiet \<sigma> \<sigma>'" "ce_qname c' = ce_qname c" "same_refs c c'"
  shows "goes_on c \<sigma> c' \<sigma>'"
  using assms by (simp add: goes_on_def building_def same_refs_def quiet_def frameD)

lemma read_rrs_img:
  assumes "building c \<sigma>" "rrlkup tp = Some i" "i < NRRTOT" "slot c i = Some rs" "rs_ttl rs = ttl"
    "distinct (rs_rrs rs @ ds)" "list_all (\<lambda>d. length d < 65536) ds"
  shows "\<exists>dt c' \<sigma>'. read_rrs (length ds) tp ttl ts fl dtsz (rrs_img ds @ r) c \<sigma> = Some (RdOk, dt, r, c', \<sigma>') \<and> goes_on c \<sigma> c' \<sigma>' \<and>
    slot c' = (slot c)(i := Some (rs\<lparr> rs_rrs := rs_rrs rs @ ds \<rparr>))"
  using assms
proof (induction ds arbitrary: c \<sigma> rs dtsz)
  case Nil
  then have "slot c = (slot c)(i := Some (rs\<lparr> rs_rrs := rs_rrs rs @ [] \<rparr>))" by (simp add: fun_eq_iff)
  then show ?case using goes_on_refl [OF Nil.prems(1)] by simp
next
  case (Cons d ds)
  have u: "unat (word_of_nat (length d) :: u16) = length d" using Cons.prems(7) by (simp add: u16_length)
  have b: "cache_inv \<sigma>" "no_fail \<sigma>" "cent_wf c" "loose c" "\<not> neg c" "\<not> has (ce_flags c) DF_LOCAL"
    using Cons.prems(1) by (simp_all add: building_def)
  obtain ok \<sigma>1 where m: "(if length d > dtsz then malloc \<sigma> else (True, \<sigma>)) = (ok, \<sigma>1)" by (cases "if length d > dtsz then malloc \<sigma> else (True, \<sigma>)")
  have q: "quiet \<sigma> \<sigma>1" "ok"
    using m quiet_refl [OF b(1)] quiet_malloc [OF b(1)] b(2) by (auto split: if_split_asm)
  have q1: "cache_inv \<sigma>1" "no_fail \<sigma>1" using q(1) b(2) by (simp_all add: quiet_def)
  have z: "(if length d = 0 then Some ([], d @ rrs_img ds @ r) else fread (length d) (d @ rrs_img ds @ r)) = Some (d, rrs_img ds @ r)"
    by simp
  let ?rs = "merged_set (slot c i) ttl ts fl d"
  obtain c1 \<sigma>2 where a: "add_cent_rr c tp ttl ts fl d \<sigma>1 = Some (True, c1, \<sigma>2)" "cent_wf c1" "loose c1" "quiet \<sigma>1 \<sigma>2"
    "ce_qname c1 = ce_qname c" "same_refs c c1" "\<forall>j. j \<noteq> i \<longrightarrow> slot c1 j = slot c j" "slot c1 i = Some ?rs"
    using add_rr_loose [OF q1(1) b(3,4) Cons.prems(2,3), of ttl ts fl d] q1(2) b(6) by auto
  have rs: "?rs = rs\<lparr> rs_rrs := rs_rrs rs @ [d] \<rparr>" using Cons.prems(4-6) by (simp add: merged_set_def)
  have g: "goes_on c \<sigma> c1 \<sigma>2" by (rule goes_onI [OF Cons.prems(1) a(2,3) quiet_trans [OF q(1) a(4)] a(5,6)])
  then have g1: "building c1 \<sigma>2" by (simp add: goes_on_def)
  have s1: "slot c1 = (slot c)(i := Some ?rs)" using a(7,8) by (auto simp: fun_eq_iff)
  have p: "slot c1 i = Some ?rs" "rs_ttl ?rs = ttl" "distinct (rs_rrs ?rs @ ds)" "list_all (\<lambda>d. length d < 65536) ds"
    using a(8) Cons.prems(5-7) rs by simp_all
  obtain dt c' \<sigma>' where n: "read_rrs (length ds) tp ttl ts fl (max dtsz (length d)) (rrs_img ds @ r) c1 \<sigma>2 = Some (RdOk, dt, r, c', \<sigma>')"
    "goes_on c1 \<sigma>2 c' \<sigma>'" "slot c' = (slot c1)(i := Some (?rs\<lparr> rs_rrs := rs_rrs ?rs @ ds \<rparr>))"
    using Cons.IH [OF g1 Cons.prems(2,3) p] by blast
  have "read_rrs (length (d # ds)) tp ttl ts fl dtsz (rrs_img (d # ds) @ r) c \<sigma> =
      read_rrs (length ds) tp ttl ts fl (max dtsz (length d)) (rrs_img ds @ r) c1 \<sigma>2"
    unfolding list.size(4) add_Suc_right add_0_right read_rrs.simps(2) rrs_img_simps append_assoc fread_append [OF le_lengths(1)] option.case prod.case
      un_le16_le16 u Let_def m z using q(2) a(1) by simp
  moreover have "slot c' = (slot c)(i := Some (rs\<lparr> rs_rrs := rs_rrs rs @ d # ds \<rparr>))" using n(3) s1 rs by (simp add: fun_eq_iff)
  ultimately show ?case using n(1) goes_on_trans [OF g n(2)] by auto
qed

lemma header_fields:
  assumes "set_fits rs" "0 \<le> tp" "tp < 256"
  shows "length (rrset_header tp rs) = 12" "uint (rrset_header tp rs ! 0) = tp" "unat (rrset_header tp rs ! Suc 0) = length (rs_rrs rs)"
    "un_le16 (take 2 (drop 2 (rrset_header tp rs))) = rs_flags rs" "bytes_time (take 4 (drop 4 (rrset_header tp rs))) = rs_ttl rs"
    "bytes_time (take 4 (drop 8 (rrset_header tp rs))) = rs_ts rs"
proof -
  have h: "rrset_header tp rs = [word_of_int tp, word_of_nat (length (rs_rrs rs))] @ le16 (rs_flags rs) @ time_bytes (rs_ttl rs) @ time_bytes (rs_ts rs)"
    using assms(1) by (simp add: rrset_header_def set_fits_def)
  show "length (rrset_header tp rs) = 12" by (simp add: h)
  show "uint (rrset_header tp rs ! 0) = tp" using assms(2,3) by (simp add: h unsigned_of_int take_bit_int_eq_self)
  show "unat (rrset_header tp rs ! Suc 0) = length (rs_rrs rs)"
    using assms(1) by (simp add: h set_fits_def unsigned_of_nat take_bit_nat_eq_self)
  show "un_le16 (take 2 (drop 2 (rrset_header tp rs))) = rs_flags rs" by (simp add: h)
  show "bytes_time (take 4 (drop 4 (rrset_header tp rs))) = rs_ttl rs" using assms(1) by (simp add: h set_fits_def drop_Cons')
  show "bytes_time (take 4 (drop 8 (rrset_header tp rs))) = rs_ts rs" using assms(1) by (simp add: h set_fits_def drop_Cons')
qed

text \<open>The RR sets of the types \<open>tps\<close> of an entry that are written, and what they become.\<close>

definition kept_set :: "rr_set option \<Rightarrow> rr_set option" where
  "kept_set r = (case r of None \<Rightarrow> None | Some rs \<Rightarrow> if has (rs_flags rs) CF_LOCAL then None else Some (rs\<lparr> rs_lent := None \<rparr>))"

definition type_slot :: "dns_cent \<Rightarrow> int \<Rightarrow> rr_set option" where
  "type_slot c tp = (case rrlkup tp of None \<Rightarrow> None | Some i \<Rightarrow> slot c i)"

definition sets_img :: "dns_cent \<Rightarrow> int list \<Rightarrow> byte list" where
  "sets_img c tps = concat (map (\<lambda>tp. case kept_set (type_slot c tp) of None \<Rightarrow> [] | Some rs \<Rightarrow> set_img tp rs) tps)"

definition num_kept :: "dns_cent \<Rightarrow> int list \<Rightarrow> nat" where
  "num_kept c tps = length (filter (\<lambda>tp. kept_set (type_slot c tp) \<noteq> None) tps)"

lemma sets_img_simps:
  "sets_img c [] = []" "num_kept c [] = 0"
  "sets_img c (tp # tps) = (case kept_set (type_slot c tp) of None \<Rightarrow> [] | Some rs \<Rightarrow> set_img tp rs) @ sets_img c tps"
  "num_kept c (tp # tps) = (case kept_set (type_slot c tp) of None \<Rightarrow> 0 | Some rs \<Rightarrow> 1) + num_kept c tps"
  by (auto simp: sets_img_def num_kept_def split: option.splits)

definition all_fit :: "dns_cent \<Rightarrow> bool" where
  "all_fit c = (\<forall>i rs. slot c i = Some rs \<longrightarrow> \<not> has (rs_flags rs) CF_LOCAL \<longrightarrow> set_fits rs)"

lemma kept_fits: "all_fit c \<Longrightarrow> kept_set (type_slot c tp) = Some rs \<Longrightarrow> set_fits rs \<and> rs_lent rs = None"
  by (auto simp: kept_set_def type_slot_def all_fit_def set_fits_def split: option.splits if_split_asm)

lemma read_sets_img:
  assumes "all_fit c" "building c0 \<sigma>" "above_free p c0" "sorted_wrt (<) (p # tps)" "\<forall>tp \<in> set tps. \<not> PDNSD_NOT_CACHED_TYPE tp" "0 \<le> p"
  shows "\<exists>dt c' \<sigma>'. read_sets (num_kept c tps) p dtsz (sets_img c tps @ r) c0 \<sigma> = Some (RdOk, dt, r, c', \<sigma>') \<and> goes_on c0 \<sigma> c' \<sigma>' \<and>
    (\<forall>tp i. rrlkup tp = Some i \<longrightarrow> slot c' i = (if tp \<in> set tps then kept_set (slot c i) else slot c0 i)) \<and>
    (\<forall>j. (\<forall>tp. rrlkup tp \<noteq> Some j) \<longrightarrow> slot c' j = slot c0 j)"
  using assms(2-)
proof (induction tps arbitrary: p c0 \<sigma> dtsz)
  case Nil
  then show ?case using goes_on_refl by (simp add: sets_img_simps)
next
  case (Cons tp tps)
  have ord: "p < tp" "sorted_wrt (<) (p # tps)" "sorted_wrt (<) (tp # tps)" "tp \<notin> set tps" using Cons.prems(3) by auto
  have cached: "\<not> PDNSD_NOT_CACHED_TYPE tp" "\<forall>tp \<in> set tps. \<not> PDNSD_NOT_CACHED_TYPE tp" using Cons.prems(4) by simp_all
  obtain i where i: "rrlkup tp = Some i" "i < NRRTOT" by (rule cached_type [OF cached(1)])
  have ts: "type_slot c tp = slot c i" by (simp add: type_slot_def i)
  have free: "slot c0 i = None" using Cons.prems(2) ord(1) i(1) unfolding above_free_def by blast
  show ?case
  proof (cases "kept_set (slot c i)")
    case None
    from Cons.IH [OF Cons.prems(1,2) ord(2) cached(2) Cons.prems(5), of dtsz] obtain dt c' \<sigma>' where
      n: "read_sets (num_kept c tps) p dtsz (sets_img c tps @ r) c0 \<sigma> = Some (RdOk, dt, r, c', \<sigma>')" "goes_on c0 \<sigma> c' \<sigma>'"
        "\<forall>tp i. rrlkup tp = Some i \<longrightarrow> slot c' i = (if tp \<in> set tps then kept_set (slot c i) else slot c0 i)"
        "\<forall>j. (\<forall>tp. rrlkup tp \<noteq> Some j) \<longrightarrow> slot c' j = slot c0 j" by blast
    have "slot c' i' = (if tp' \<in> set (tp # tps) then kept_set (slot c i') else slot c0 i')" if t: "rrlkup tp' = Some i'" for tp' i'
    proof (cases "tp' = tp")
      case True
      then have "i' = i" using i(1) t by simp
      then show ?thesis using n(3) t ord(4) True None free by simp
    next
      case False
      then show ?thesis using n(3) t by simp
    qed
    moreover have "sets_img c (tp # tps) = sets_img c tps" "num_kept c (tp # tps) = num_kept c tps"
      using None ts by (simp_all add: sets_img_simps)
    ultimately show ?thesis using n(1,2,4) by (intro exI [of _ dt] exI [of _ c'] exI [of _ \<sigma>']) simp
  next
    case (Some rs)
    have f: "set_fits rs" "rs_lent rs = None" using kept_fits [OF assms(1), of tp rs] ts Some by simp_all
    have im: "sets_img c (tp # tps) @ r = rrset_header tp rs @ rrs_img (rs_rrs rs) @ sets_img c tps @ r"
      "num_kept c (tp # tps) = Suc (num_kept c tps)" using Some ts by (simp_all add: sets_img_simps set_img_def)
    have "T_MIN \<le> tp" "tp \<le> T_MAX" using rrlkup_range [OF i(1)] by simp_all
    then have h: "length (rrset_header tp rs) = 12" "uint (rrset_header tp rs ! 0) = tp" "unat (rrset_header tp rs ! Suc 0) = length (rs_rrs rs)"
      "un_le16 (take 2 (drop 2 (rrset_header tp rs))) = rs_flags rs" "bytes_time (take 4 (drop 4 (rrset_header tp rs))) = rs_ttl rs"
      "bytes_time (take 4 (drop 8 (rrset_header tp rs))) = rs_ts rs" using header_fields [OF f(1), of tp] by simp_all
    let ?e = "\<lparr> rs_lent = None, rs_ttl = rs_ttl rs, rs_ts = rs_ts rs, rs_flags = rs_flags rs, rs_rrs = [] \<rparr>"
    have b: "cache_inv \<sigma>" "no_fail \<sigma>" "cent_wf c0" "loose c0" using Cons.prems(1) by (simp_all add: building_def)
    obtain c1 \<sigma>1 where a: "add_cent_rrset_by_type c0 tp (rs_ttl rs) (rs_ts rs) (rs_flags rs) \<sigma> = Some (True, c1, \<sigma>1)" "cent_wf c1" "loose c1"
      "quiet \<sigma> \<sigma>1" "ce_qname c1 = ce_qname c0" "same_refs c0 c1" "\<forall>j. slot c1 j = (if j = i then Some ?e else slot c0 j)"
      using add_set_loose [OF b(1,3,4) i free, of "rs_ttl rs" "rs_ts rs" "rs_flags rs"] b(2) by auto
    have g: "goes_on c0 \<sigma> c1 \<sigma>1" by (rule goes_onI [OF Cons.prems(1) a(2-6)])
    then have g1: "building c1 \<sigma>1" by (simp add: goes_on_def)
    have p: "slot c1 i = Some ?e" "rs_ttl ?e = rs_ttl rs" "distinct (rs_rrs ?e @ rs_rrs rs)" "list_all (\<lambda>d. length d < 65536) (rs_rrs rs)"
      using a(7) f(1) by (simp_all add: set_fits_def)
    obtain dt c2 \<sigma>2 where m: "read_rrs (length (rs_rrs rs)) tp (rs_ttl rs) (rs_ts rs) (rs_flags rs) dtsz (rrs_img (rs_rrs rs) @ sets_img c tps @ r) c1 \<sigma>1 =
        Some (RdOk, dt, sets_img c tps @ r, c2, \<sigma>2)" "goes_on c1 \<sigma>1 c2 \<sigma>2" "slot c2 = (slot c1)(i := Some (?e\<lparr> rs_rrs := rs_rrs ?e @ rs_rrs rs \<rparr>))"
      using read_rrs_img [OF g1 i p, of "rs_ts rs" "rs_flags rs" dtsz "sets_img c tps @ r"] by blast
    have e: "?e\<lparr> rs_rrs := rs_rrs ?e @ rs_rrs rs \<rparr> = rs" using f(2) by (cases rs) simp
    have g2: "goes_on c0 \<sigma> c2 \<sigma>2" "building c2 \<sigma>2" using goes_on_trans [OF g m(2)] m(2) by (simp_all add: goes_on_def)
    have s2: "slot c2 = (slot c0)(i := Some rs)" using m(3) a(7) unfolding e by (auto simp: fun_eq_iff)
    have "above_free tp c2" by (rule above_free_step [OF Cons.prems(2) ord(1) i(1)]) (use s2 in simp)
    from Cons.IH [OF g2(2) this ord(3) cached(2), of dt] \<open>T_MIN \<le> tp\<close> obtain dt' c' \<sigma>' where
      n: "read_sets (num_kept c tps) tp dt (sets_img c tps @ r) c2 \<sigma>2 = Some (RdOk, dt', r, c', \<sigma>')" "goes_on c2 \<sigma>2 c' \<sigma>'"
        "\<forall>tp i. rrlkup tp = Some i \<longrightarrow> slot c' i = (if tp \<in> set tps then kept_set (slot c i) else slot c2 i)"
        "\<forall>j. (\<forall>tp. rrlkup tp \<noteq> Some j) \<longrightarrow> slot c' j = slot c2 j" by auto
    have c: "\<not> (PDNSD_NOT_CACHED_TYPE tp \<or> tp \<le> p)" using cached(1) ord(1) by simp
    have run: "read_sets (num_kept c (tp # tps)) p dtsz (sets_img c (tp # tps) @ r) c0 \<sigma> = Some (RdOk, dt', r, c', \<sigma>')"
      unfolding im read_sets.simps(2) fread_append [OF h(1)] option.case prod.case Let_def One_nat_def h(2-6) if_not_P [OF c]
      using a(1) m(1) n(1) by simp
    have sl: "slot c' i' = (if tp' \<in> set (tp # tps) then kept_set (slot c i') else slot c0 i')" if t: "rrlkup tp' = Some i'" for tp' i'
    proof (cases "tp' = tp")
      case True
      then have "i' = i" using i(1) t by simp
      then show ?thesis using n(3) t ord(4) True Some s2 by simp
    next
      case False
      then have "i' \<noteq> i" using rrlkup_inj [OF i(1)] t by blast
      then show ?thesis using n(3) t False s2 by simp
    qed
    have "slot c' j = slot c0 j" if j: "\<forall>tp. rrlkup tp \<noteq> Some j" for j using n(4) j i(1) s2 by auto
    then show ?thesis using run sl goes_on_trans [OF g2(1) n(2)] by blast
  qed
qed

subsection \<open>One entry\<close>

lemma getrrset_eff_slot:
  assumes "cent_shape c" "\<not> neg c" "rrlkup tp = Some i" "i < NRRTOT"
  shows "getrrset_eff c tp = Some (slot c i)"
proof -
  obtain mu ext where b: "ce_body c = RRBody mu ext" "length mu = NRRMU" "\<And>ex. ext = Some ex \<Longrightarrow> length ex = NRREXT"
    using assms(1,2) by (cases "ce_body c") (auto simp: cent_shape_def split: option.splits)
  show ?thesis
  proof (cases ext)
    case None
    then show ?thesis using b assms(3,4) by (simp add: getrrset_eff_def slot_def slots_def rd_def)
  next
    case (Some ex)
    then show ?thesis using b assms(3,4) by (auto simp: getrrset_eff_def slot_def slots_def rd_def nth_append)
  qed
qed

lemma set_img_lent: "set_img tp (rs\<lparr> rs_lent := x \<rparr>) = set_img tp rs"
  by (simp add: set_img_def rrset_header_def)

lemma write_sets_img:
  assumes "cent_shape c" "\<not> neg c" "all_fit c"
  shows "wf_oks f = [] \<Longrightarrow> \<forall>tp \<in> set tps. \<not> PDNSD_NOT_CACHED_TYPE tp \<Longrightarrow>
    write_sets c tps f = Some (True, f\<lparr> wf_out := wf_out f @ sets_img c tps \<rparr>)"
proof (induction tps arbitrary: f)
  case (Cons tp tps)
  obtain i where i: "rrlkup tp = Some i" "i < NRRTOT" using Cons.prems(2) by (auto elim: cached_type)
  have g: "getrrset_eff c tp = Some (slot c i)" by (rule getrrset_eff_slot [OF assms(1,2) i])
  have t: "type_slot c tp = slot c i" by (simp add: type_slot_def i)
  note IH = Cons.IH [of f] Cons.prems
  show ?case
  proof (cases "kept_set (slot c i)")
    case None
    then show ?thesis using g t IH by (auto simp: sets_img_simps kept_set_def split: option.splits if_split_asm)
  next
    case (Some rs')
    then obtain rs where rs: "slot c i = Some rs" "\<not> has (rs_flags rs) CF_LOCAL" "rs' = rs\<lparr> rs_lent := None \<rparr>"
      by (auto simp: kept_set_def split: option.splits if_split_asm)
    have "set_fits rs" using assms(3) rs(1,2) unfolding all_fit_def by blast
    from write_rrset_img [OF Cons.prems(1) this, of tp]
    have w: "write_rrset tp rs f = Some (True, f\<lparr> wf_out := wf_out f @ set_img tp rs \<rparr>)" .
    have "write_sets c tps (f\<lparr> wf_out := wf_out f @ set_img tp rs \<rparr>) = Some (True, f\<lparr> wf_out := wf_out f @ set_img tp rs @ sets_img c tps \<rparr>)"
      using Cons.IH [of "f\<lparr> wf_out := wf_out f @ set_img tp rs \<rparr>"] Cons.prems by simp
    then show ?thesis using g t Some rs w by (simp add: sets_img_simps set_img_lent)
  qed
qed (simp add: sets_img_simps)

lemma count_nonlocal_eq:
  "cent_shape c \<Longrightarrow> \<forall>i \<in> set is. i < length (slots c) \<Longrightarrow> count_nonlocal c is = Some (length (filter (\<lambda>i. kept_set (slot c i) \<noteq> None) is))"
  by (induction "is") (auto simp: RRARR_INDEX_eq kept_set_def split: option.splits)

text \<open>The types of an entry: every slot has one.\<close>

lemma cached_lookup: "\<not> PDNSD_NOT_CACHED_TYPE tp \<Longrightarrow> rrlkup tp = Some (the (rrlkup tp))"
  by (metis cached_type option.sel)

lemma iter_types:
  assumes "cent_shape c" "\<not> neg c"
  obtains tps where "NRRITERLIST c = Some tps" "sorted_wrt (<) (0 # tps)" "\<forall>tp \<in> set tps. \<not> PDNSD_NOT_CACHED_TYPE tp"
    "sort (map (\<lambda>tp. the (rrlkup tp)) tps) = [0..<length (slots c)]"
proof -
  note it = iterlists_cover_slots
  have m: "sorted_wrt (<) (0 # rrmuiterlist)" "\<forall>tp \<in> set rrmuiterlist. \<not> PDNSD_NOT_CACHED_TYPE tp"
    "sorted_wrt (<) (0 # rrcachiterlist)" by code_simp+
  have "list_all (\<lambda>tp. \<not> PDNSD_NOT_CACHED_TYPE tp) rrcachiterlist" by code_simp
  then have e: "\<forall>tp \<in> set rrcachiterlist. \<not> PDNSD_NOT_CACHED_TYPE tp" by (simp only: list_all_iff)
  obtain mu ext where b: "ce_body c = RRBody mu ext" "length mu = NRRMU" "\<And>ex. ext = Some ex \<Longrightarrow> length ex = NRREXT"
    using assms by (cases "ce_body c") (auto simp: cent_shape_def split: option.splits)
  show ?thesis
  proof (cases ext)
    case None
    have "length (slots c) = NRRMU" using b None by (simp add: slots_def)
    moreover have "sort (map (\<lambda>tp. the (rrlkup tp)) rrmuiterlist) = [0..<NRRMU]" using it sort_upt by metis
    ultimately show ?thesis using m b None assms(2) by (intro that [of rrmuiterlist]) (simp_all add: NRRITERLIST_def)
  next
    case (Some ex)
    have "length (slots c) = NRRTOT" using b Some by (simp add: slots_def)
    then show ?thesis using m e it b Some assms(2) by (intro that [of rrcachiterlist]) (simp_all add: NRRITERLIST_def)
  qed
qed

lemma num_kept_slots:
  assumes "sort (map (\<lambda>tp. the (rrlkup tp)) tps) = [0..<n]" "\<forall>tp \<in> set tps. \<not> PDNSD_NOT_CACHED_TYPE tp"
  shows "num_kept c tps = length (filter (\<lambda>i. kept_set (slot c i) \<noteq> None) [0..<n])"
proof -
  let ?P = "\<lambda>i. kept_set (slot c i) \<noteq> None" and ?g = "\<lambda>tp. the (rrlkup tp)"
  have "type_slot c tp = slot c (?g tp)" if "tp \<in> set tps" for tp
    using cached_lookup [of tp] assms(2) that by (auto simp: type_slot_def split: option.splits)
  then have "filter (\<lambda>tp. kept_set (type_slot c tp) \<noteq> None) tps = filter (?P \<circ> ?g) tps" by (intro filter_cong) simp_all
  then have "num_kept c tps = length (filter ?P (map ?g tps))" by (simp add: num_kept_def filter_map)
  also have "\<dots> = length (filter ?P (sort (map ?g tps)))" by (simp add: filter_sort)
  finally show ?thesis using assms(1) by simp
qed

lemma slots_types:
  assumes "sort (map (\<lambda>tp. the (rrlkup tp)) tps) = [0..<n]" "\<forall>tp \<in> set tps. \<not> PDNSD_NOT_CACHED_TYPE tp" "rrlkup tp = Some i"
  shows "tp \<in> set tps \<longleftrightarrow> i < n"
proof -
  have s: "(\<lambda>tp. the (rrlkup tp)) ` set tps = {0..<n}" using arg_cong [OF assms(1), of set] by simp
  show ?thesis
  proof
    assume "tp \<in> set tps"
    then have "the (rrlkup tp) \<in> {0..<n}" using s by blast
    then show "i < n" using assms(3) by simp
  next
    assume "i < n"
    then obtain tp' where t: "tp' \<in> set tps" "the (rrlkup tp') = i" using s by (metis (lifting) atLeastLessThan_iff imageE zero_le)
    then have "rrlkup tp' = Some i" using assms(2) cached_lookup [of tp'] by simp
    then show "tp \<in> set tps" using rrlkup_inj [OF assms(3)] t(1) by simp
  qed
qed

lemma check_dom_enc: "list_all wire_label ls \<Longrightarrow> check_dom (pre @ butlast (enc ls)) (length pre)"
proof (induction ls arbitrary: pre)
  case Nil
  then show ?case by (simp add: check_dom.simps)
next
  case (Cons l ls)
  have l: "unat (word_of_nat (length l) :: byte) = length l" using Cons.prems by (simp add: wire_label_def unsigned_of_nat take_bit_nat_eq_self)
  have "enc ls \<noteq> []" by (cases ls) simp_all
  then have b: "butlast (enc (l # ls)) = word_of_nat (length l) # l @ butlast (enc ls)" by (simp add: butlast_append)
  have "check_dom ((pre @ word_of_nat (length l) # l) @ butlast (enc ls)) (length (pre @ word_of_nat (length l) # l))"
    by (rule Cons.IH) (use Cons.prems in simp)
  then show ?case unfolding b using Cons.prems l
    by (subst check_dom.simps) (simp add: wire_label_def Let_def nth_append)
qed

text \<open>An entry the file can hold, its bytes, and what is read from them.\<close>

definition storable :: "dns_cent \<Rightarrow> bool" where
  "storable c = (cent_wf c \<and> \<not> has (ce_flags c) DF_LOCAL \<and> all_fit c \<and>
     (case ce_body c of NegBody _ ttl ts \<Rightarrow> fits32 ttl \<and> fits32 ts | RRBody _ _ \<Rightarrow> True))"

definition restored :: "dns_cent \<Rightarrow> dns_cent \<Rightarrow> bool" where
  "restored c ce = (ce_qname ce = ce_qname c \<and> ce_flags ce = ce_flags c \<and> ce_ns ce = ce_ns c \<and> ce_soa ce = ce_soa c \<and>
     cent_wf ce \<and> loose ce \<and>
     (case ce_body c of NegBody _ ttl ts \<Rightarrow> ce_body ce = NegBody None ttl ts
      | RRBody _ _ \<Rightarrow> \<forall>i. slot ce i = kept_set (slot c i)))"

definition cent_img :: "dns_cent \<Rightarrow> byte list" where
  "cent_img c = (let n = length (ce_qname c) - 1; k = length (filter (\<lambda>i. kept_set (slot c i) \<noteq> None) [0..<length (slots c)]) in
     cent_header c n k @ (case ce_body c of NegBody _ ttl ts \<Rightarrow> time_bytes ttl @ time_bytes ts | RRBody _ _ \<Rightarrow> []) @
     take n (ce_qname c) @ sets_img c (case NRRITERLIST c of None \<Rightarrow> [] | Some tps \<Rightarrow> tps))"

lemma write_cent_img:
  assumes "storable c" "wf_oks f = []"
  shows "write_cent c f = Some (True, f\<lparr> wf_out := wf_out f @ cent_img c \<rparr>)"
proof -
  have c: "cent_wf c" "cent_shape c" "valid_name (ce_qname c)" "all_fit c" using assms(1) by (simp_all add: storable_def cent_wf_def)
  let ?n = "length (ce_qname c) - 1" and ?k = "length (filter (\<lambda>i. kept_set (slot c i) \<noteq> None) [0..<length (slots c)])"
  have l: "rhnlen (ce_qname c) = Some (length (ce_qname c))" by (rule rhnlen_valid [OF c(3)])
  have k: "count_nonlocal c [0..<length (slots c)] = Some ?k" by (rule count_nonlocal_eq [OF c(2)]) simp
  have r: "rdn (ce_qname c) 0 ?n = Some (take ?n (ce_qname c))" by (simp add: rdn_def)
  have nm: "(if ?n = 0 then (True, g) else fwrite (take ?n (ce_qname c)) g) = (True, g\<lparr> wf_out := wf_out g @ take ?n (ce_qname c) \<rparr>)"
    if "wf_oks g = []" for g using that by (simp add: fwrite_all)
  show ?thesis
  proof (cases "ce_body c")
    case (NegBody le ttl ts)
    then have "neg c" using c(2) by (simp add: cent_shape_def)
    then show ?thesis unfolding write_cent_def l RRARR_LEN_eq [OF c(2)] Option.bind.bind_lunit k
      using NegBody r nm assms(2) by (simp add: fwrite_all Let_def NRRITERLIST_def cent_img_def sets_img_simps)
  next
    case (RRBody mu ext)
    then have n: "\<not> neg c" using c(2) by (simp add: cent_shape_def)
    obtain tps where t: "NRRITERLIST c = Some tps" "sorted_wrt (<) (0 # tps)" "\<forall>tp \<in> set tps. \<not> PDNSD_NOT_CACHED_TYPE tp"
      by (rule iter_types [OF c(2) n])
    have w: "write_sets c tps g = Some (True, g\<lparr> wf_out := wf_out g @ sets_img c tps \<rparr>)" if "wf_oks g = []" for g
      by (rule write_sets_img [OF c(2) n c(4) that t(3)])
    show ?thesis unfolding write_cent_def l RRARR_LEN_eq [OF c(2)] Option.bind.bind_lunit k
      using RRBody n t(1) r nm w assms(2) by (simp add: fwrite_all Let_def cent_img_def)
  qed
qed

lemma cent_header_fields:
  assumes "n < 256" "k < 256"
  shows "length (cent_header c n k) = 6" "unat (cent_header c n k ! 0) = n" "unat (cent_header c n k ! 1) = k"
    "un_le16 (take 2 (drop 2 (cent_header c n k))) = ce_flags c" "cent_header c n k ! 4 = ce_ns c" "cent_header c n k ! 5 = ce_soa c"
  using assms by (simp_all add: cent_header_def unsigned_of_nat take_bit_nat_eq_self nth_append)

lemma init_quiet:
  assumes "valid_name nm" "cache_inv \<sigma>" "no_fail \<sigma>"
  shows "\<exists>\<sigma>1. init_cent nm ttl ts fl \<sigma> = Some (Some (new_cent nm ttl ts fl), \<sigma>1) \<and> quiet \<sigma> \<sigma>1"
proof -
  obtain r \<sigma>1 where i: "init_cent nm ttl ts fl \<sigma> = Some (r, \<sigma>1)" "frame \<sigma> \<sigma>1" "rrl \<sigma>1 = rrl \<sigma>"
    "r \<in> {None, Some (new_cent nm ttl ts fl)}" "r \<noteq> None" "no_fail \<sigma>1"
    using init_cent_spec [OF assms(1), of "[]" ttl ts fl \<sigma>] assms(3) by auto
  have w: "loose (new_cent nm ttl ts fl)" by (rule new_cent_props [OF assms(1)])
  note I = entries_kept [OF assms(2)]
  have "held (next_id \<sigma>) (new_cent nm ttl ts fl) (rest (next_id \<sigma>) (cents \<sigma>)) \<sigma>1"
    by (rule held_frame [OF held_fresh [OF I fresh_addr [OF I] w] i(2,3)])
  then have "quiet \<sigma> \<sigma>1" by (rule held_quiet [OF assms(2) i(2) _ w]) (use i(6) in blast)
  then show ?thesis using i by auto
qed

lemma read_body_eq:
  assumes "un_le16 (take 2 (drop 2 fe)) = fl" "unat (fe ! 1) = k" "fe ! 4 = ns" "fe ! 5 = soa"
    "init_cent (nb @ [0]) ttl ts fl \<sigma> = Some (Some c, \<sigma>1)"
    "read_sets k 0 dtsz bs (c\<lparr> ce_ns := ns, ce_soa := soa \<rparr>) \<sigma>1 = Some (RdOk, dt, bs', ce, \<sigma>2)" "\<And>\<tau>. free_cent ce \<tau> = Some \<tau>"
  shows "read_body now conf fe ttl ts nb dtsz bs \<sigma> = do { \<sigma>3 \<leftarrow> add_cache now conf ce \<sigma>2; Some (RdOk, dt, bs', \<sigma>3) }"
  unfolding read_body_def assms(1,5) Option.bind.bind_lunit prod.case option.sel Let_def assms(2-4,6) using assms(7) by simp

lemma read_entry_eq:
  assumes "length fe = 6" "unat (fe ! 0) = n" "un_le16 (take 2 (drop 2 fe)) = fl"
    "(if has fl DF_NEGATIVE then fread 8 bs1 else Some (replicate 8 0, bs1)) = Some (tt, bs2)"
    "(if n > 0 then fread n bs2 else Some ([], bs2)) = Some (nb, bs3)" "check_dom nb 0"
  shows "read_entry now conf dtsz (fe @ bs1) \<sigma> = read_body now conf fe (bytes_time (take 4 tt)) (bytes_time (drop 4 tt)) nb dtsz bs3 \<sigma>"
  unfolding read_entry_def fread_append [OF assms(1)] option.case prod.case Let_def assms(2,3,4,5) using assms(6) by simp

lemma read_entry_img:
  assumes "storable c" "cache_inv \<sigma>" "no_fail \<sigma>"
  shows "\<exists>ce dt \<sigma>1. restored c ce \<and> quiet \<sigma> \<sigma>1 \<and>
    read_entry now conf dtsz (cent_img c @ r) \<sigma> = do { \<sigma>2 \<leftarrow> add_cache now conf ce \<sigma>1; Some (RdOk, dt, r, \<sigma>2) }"
proof -
  have c: "cent_wf c" "cent_shape c" "valid_name (ce_qname c)" "all_fit c" "\<not> has (ce_flags c) DF_LOCAL"
    using assms(1) by (simp_all add: storable_def cent_wf_def)
  let ?n = "length (ce_qname c) - 1" and ?k = "length (filter (\<lambda>i. kept_set (slot c i) \<noteq> None) [0..<length (slots c)])"
  let ?h = "cent_header c ?n ?k" and ?nb = "take (length (ce_qname c) - 1) (ce_qname c)"
  obtain ls where ls: "wire_name ls" "ce_qname c = enc ls" using c(3) by (auto elim: valid_nameE)
  have ne: "enc ls \<noteq> []" "last (enc ls) = 0" by (induction ls) auto
  have nb: "?nb = butlast (enc ls)" "?nb @ [0] = ce_qname c" "length ?nb = ?n"
    using ls(2) ne append_butlast_last_id [OF ne(1)] by (simp_all add: butlast_conv_take)
  have "?k \<le> length [0..<length (slots c)]" by (rule length_filter_le)
  then have "?k \<le> NRRTOT" using slots_len_le [OF c(2)] by simp
  moreover have "length (ce_qname c) \<le> 256" using ls by (simp add: wire_name_def)
  ultimately have lim: "?n < 256" "?k < 256" by linarith+
  note h = cent_header_fields [OF lim, of c]
  have cd: "check_dom ?nb 0" using check_dom_enc [of ls "[]"] ls(1) nb(1) by (simp add: wire_name_def)
  have q: "(if ?n > 0 then fread ?n (?nb @ x) else Some ([], ?nb @ x)) = Some (?nb, x)" for x using nb(3) by auto
  show ?thesis
  proof (cases "ce_body c")
    case (NegBody le ttl ts)
    then have n: "neg c" using c(2) by (simp add: cent_shape_def)
    have k: "?k = 0" "sets_img c (case NRRITERLIST c of None \<Rightarrow> [] | Some tps \<Rightarrow> tps) = []"
      using NegBody n by (simp_all add: slots_def NRRITERLIST_def sets_img_simps)
    have ft: "fits32 ttl" "fits32 ts" using assms(1) NegBody by (simp_all add: storable_def)
    have im: "cent_img c @ r = ?h @ (time_bytes ttl @ time_bytes ts) @ ?nb @ r"
      using NegBody k(2) by (simp add: cent_img_def Let_def)
    obtain \<sigma>1 where i: "init_cent (?nb @ [0]) ttl ts (ce_flags c) \<sigma> = Some (Some (new_cent (ce_qname c) ttl ts (ce_flags c)), \<sigma>1)"
      "quiet \<sigma> \<sigma>1" using init_quiet [OF c(3) assms(2,3), of ttl ts "ce_flags c"] unfolding nb(2) by blast
    let ?c = "new_cent (ce_qname c) ttl ts (ce_flags c)"
    let ?ce = "?c\<lparr> ce_ns := ce_ns c, ce_soa := ce_soa c \<rparr>"
    note np = new_cent_props [OF c(3), of ttl ts "ce_flags c"]
    note w = set_refs [OF np(1,2), of "ce_soa c" "ce_ns c"]
    have fr: "free_cent ?ce \<tau> = Some \<tau>" for \<tau> using w(1,2) by (simp add: free_cent_loose cent_wf_def)
    have b: "ce_body ?ce = NegBody None ttl ts" using n by (simp add: new_cent_def)
    have "restored c ?ce" using w(1,2) NegBody b by (simp add: restored_def new_cent_def)
    moreover have "read_body now conf ?h ttl ts ?nb dtsz r \<sigma> = do { \<sigma>2 \<leftarrow> add_cache now conf ?ce \<sigma>1; Some (RdOk, dtsz, r, \<sigma>2) }"
      by (rule read_body_eq [OF h(4,3,5,6) i(1) _ fr]) (simp only: k(1) read_sets.simps)
    moreover have "read_entry now conf dtsz (cent_img c @ r) \<sigma> = read_body now conf ?h ttl ts ?nb dtsz r \<sigma>"
      using read_entry_eq [OF h(1,2,4) _ q [of r] cd, of "(time_bytes ttl @ time_bytes ts) @ ?nb @ r" "time_bytes ttl @ time_bytes ts" now conf dtsz \<sigma>]
        n ft fread_append [of "time_bytes ttl @ time_bytes ts" 8 "?nb @ r"] unfolding im by simp
    ultimately show ?thesis using i(2) by auto
  next
    case (RRBody mu ext)
    then have n: "\<not> neg c" using c(2) by (simp add: cent_shape_def)
    obtain tps where t: "NRRITERLIST c = Some tps" "sorted_wrt (<) (0 # tps)" "\<forall>tp \<in> set tps. \<not> PDNSD_NOT_CACHED_TYPE tp"
      "sort (map (\<lambda>tp. the (rrlkup tp)) tps) = [0..<length (slots c)]" by (rule iter_types [OF c(2) n])
    have k: "?k = num_kept c tps" using num_kept_slots [OF t(4,3), of c] by simp
    have im: "cent_img c @ r = ?h @ ?nb @ sets_img c tps @ r" using RRBody t(1) by (simp add: cent_img_def Let_def)
    let ?z = "bytes_time (take 4 (replicate 8 0))" and ?z' = "bytes_time (drop 4 (replicate 8 0))"
    let ?c = "new_cent (ce_qname c) ?z ?z' (ce_flags c)"
    let ?d = "?c\<lparr> ce_ns := ce_ns c, ce_soa := ce_soa c \<rparr>"
    obtain \<sigma>1 where i: "init_cent (?nb @ [0]) ?z ?z' (ce_flags c) \<sigma> = Some (Some ?c, \<sigma>1)" "quiet \<sigma> \<sigma>1"
      using init_quiet [OF c(3) assms(2,3), of ?z ?z' "ce_flags c"] unfolding nb(2) by blast
    note np = new_cent_props [OF c(3), of ?z ?z' "ce_flags c"]
    note w = set_refs [OF np(1,2), of "ce_soa c" "ce_ns c"]
    have f: "above_free 0 ?d" using np(3) w(3) by (simp add: above_free_def)
    have d: "ce_flags ?d = ce_flags c" "ce_qname ?d = ce_qname c" "ce_ns ?d = ce_ns c" "ce_soa ?d = ce_soa c" by (simp_all add: new_cent_def)
    have g0: "building ?d \<sigma>1" using w(1,2) i(2) n c(5) assms(3) unfolding building_def d(1) quiet_def by blast
    obtain dt ce \<sigma>2 where s: "read_sets (num_kept c tps) 0 dtsz (sets_img c tps @ r) ?d \<sigma>1 = Some (RdOk, dt, r, ce, \<sigma>2)"
      "goes_on ?d \<sigma>1 ce \<sigma>2" "\<forall>tp i. rrlkup tp = Some i \<longrightarrow> slot ce i = (if tp \<in> set tps then kept_set (slot c i) else slot ?d i)"
      "\<forall>j. (\<forall>tp. rrlkup tp \<noteq> Some j) \<longrightarrow> slot ce j = slot ?d j"
      using read_sets_img [OF c(4) g0 f t(2,3) order_refl, of dtsz r] by blast
    have sl: "slot ce j = kept_set (slot c j)" for j
    proof (cases "\<exists>tp. rrlkup tp = Some j")
      case True
      then obtain tp where tp: "rrlkup tp = Some j" by blast
      have "kept_set (slot c j) = None" if "\<not> j < length (slots c)" using that by (simp add: slot_def kept_set_def)
      then show ?thesis using s(3) tp slots_types [OF t(4,3) tp] np(3) w(3) by auto
    next
      case False
      then have "slot ce j = None" using s(4) np(3) w(3) by auto
      moreover have "\<not> j < length (slots c)"
      proof
        assume "j < length (slots c)"
        then have "j \<in> set (sort (map (\<lambda>tp. the (rrlkup tp)) tps))" unfolding t(4) by simp
        then obtain tp where "tp \<in> set tps" "j = the (rrlkup tp)" by auto
        then have "rrlkup tp = Some j" using t(3) cached_lookup [of tp] by simp
        then show False using False by blast
      qed
      ultimately show ?thesis by (simp add: slot_def kept_set_def)
    qed
    have ce: "cent_wf ce" "loose ce" "ce_qname ce = ce_qname c" "ce_flags ce = ce_flags c" "ce_ns ce = ce_ns c" "ce_soa ce = ce_soa c"
      using s(2) unfolding goes_on_def building_def d by blast+
    have fr: "free_cent ce \<tau> = Some \<tau>" for \<tau> using ce(1,2) by (simp add: free_cent_loose cent_wf_def)
    have "restored c ce" using ce RRBody sl by (simp add: restored_def)
    moreover have "quiet \<sigma> \<sigma>2" using quiet_trans [OF i(2)] s(2) by (simp add: goes_on_def)
    moreover have "read_body now conf ?h ?z ?z' ?nb dtsz (sets_img c tps @ r) \<sigma> = do { \<sigma>3 \<leftarrow> add_cache now conf ce \<sigma>2; Some (RdOk, dt, r, \<sigma>3) }"
      by (rule read_body_eq [OF h(4,3,5,6) i(1) _ fr]) (simp only: k s(1))
    moreover have "read_entry now conf dtsz (cent_img c @ r) \<sigma> = read_body now conf ?h ?z ?z' ?nb dtsz (sets_img c tps @ r) \<sigma>"
      unfolding im by (rule read_entry_eq [OF h(1,2,4) _ q cd]) (use n in simp)
    ultimately show ?thesis by (intro exI [of _ ce] exI [of _ dt] exI [of _ \<sigma>2] conjI) (simp_all only:)
  qed
qed


end
