(* ===== verification/Pd_Lists.thy ===== *)
theory Pd_Lists
  imports Pd_Prelude
begin

text \<open>
  The containers of \<open>list.c\<close> and \<open>list.h\<close>: dynamic arrays that grow in steps of eight elements, the
  \<open>dlist\<close>, whose items of different sizes lie in one block of memory with the distance to the next
  item in front of each, and the linked list \<open>llist\<close>. A \<open>size_t\<close> has four bytes. \<open>ok\<close> is the outcome
  of an allocation and \<open>junk\<close> the bytes a new block happens to hold.
\<close>

subsection \<open>Dynamic arrays\<close>

text \<open>The number of elements and the allocated slots; \<open>None\<close> for a slot that was never written.\<close>

record 'a darray =
  da_nelf :: nat
  da_mem :: "'a option list"

definition alloc_nel :: "nat \<Rightarrow> nat" where
  "alloc_nel n = (if n = 0 then 8 else (n + 7) div 8 * 8)"

definition da_nel :: "'a darray option \<Rightarrow> nat" where
  "da_nel a = (case a of None \<Rightarrow> 0 | Some d \<Rightarrow> da_nelf d)"

text \<open>\<open>realloc\<close> of the block to \<open>n\<close> slots keeps the slots that are in both.\<close>

definition da_realloc :: "'a darray option \<Rightarrow> nat \<Rightarrow> 'a darray" where
  "da_realloc a n = (case a of None \<Rightarrow> \<lparr> da_nelf = 0, da_mem = replicate n None \<rparr>
     | Some d \<Rightarrow> d\<lparr> da_mem := take n (da_mem d) @ replicate (n - length (da_mem d)) None \<rparr>)"

text \<open>The elements the clean-up routine is called for when the allocation fails.\<close>

definition da_cleanup :: "'a darray option \<Rightarrow> 'a option list option" where
  "da_cleanup a = (case a of None \<Rightarrow> Some [] | Some d \<Rightarrow> rdn (da_mem d) 0 (da_nelf d))"

text \<open>The result: the new array, and the elements that were cleaned up.\<close>

definition da_grow1 :: "'a darray option \<Rightarrow> bool \<Rightarrow> ('a darray option \<times> 'a option list) option" where
  "da_grow1 a ok =
     do {
       let k = da_nel a;
       if a = None \<or> (k \<noteq> 0 \<and> k mod 8 = 0) then
         (if ok then Some (Some ((da_realloc a (k + 8))\<lparr> da_nelf := k + 1 \<rparr>), [])
          else do { cl \<leftarrow> da_cleanup a; Some (None, cl) })
       else Some (map_option (\<lambda>d. d\<lparr> da_nelf := k + 1 \<rparr>) a, [])
     }"

definition da_resize :: "'a darray option \<Rightarrow> nat \<Rightarrow> bool \<Rightarrow> ('a darray option \<times> 'a option list) option" where
  "da_resize a n ok =
     do {
       let ael = (case a of None \<Rightarrow> 0 | Some d \<Rightarrow> alloc_nel (da_nelf d));
       let new_ael = alloc_nel n;
       if new_ael \<noteq> ael then
         (if ok then Some (Some ((da_realloc a new_ael)\<lparr> da_nelf := n \<rparr>), [])
          else do { cl \<leftarrow> da_cleanup a; Some (None, cl) })
       else Some (map_option (\<lambda>d. d\<lparr> da_nelf := n \<rparr>) a, [])
     }"

text \<open>\<open>DA_INDEX\<close> for reading and writing: an access outside the allocated block is undefined.\<close>

definition da_get :: "'a darray \<Rightarrow> nat \<Rightarrow> 'a option" where
  "da_get d i = do { x \<leftarrow> rd (da_mem d) i; x }"

definition da_put :: "'a darray \<Rightarrow> nat \<Rightarrow> 'a \<Rightarrow> 'a darray option" where
  "da_put d i v = do { m \<leftarrow> wr (da_mem d) i (Some v); Some (d\<lparr> da_mem := m \<rparr>) }"

text \<open>The invariant: the block has the size \<open>alloc_nel\<close> tells.\<close>

definition da_wf :: "'a darray option \<Rightarrow> bool" where
  "da_wf a = (case a of None \<Rightarrow> True | Some d \<Rightarrow> length (da_mem d) = alloc_nel (da_nelf d))"

lemma alloc_nel_step: "k mod 8 = 0 \<Longrightarrow> k \<noteq> 0 \<Longrightarrow> alloc_nel k = k \<and> alloc_nel (k + 1) = k + 8"
  by (auto simp: alloc_nel_def mod_eq_0_iff_dvd elim!: dvdE)

lemma alloc_nel_same: "k mod 8 \<noteq> 0 \<or> k = 0 \<Longrightarrow> alloc_nel (k + 1) = alloc_nel k"
proof -
  assume "k mod 8 \<noteq> 0 \<or> k = 0"
  then have "k = 0 \<or> (k + 8) div 8 = (k + 7) div 8" by presburger
  then show ?thesis by (auto simp: alloc_nel_def)
qed

lemma alloc_nel_ge: "n \<le> alloc_nel n"
proof -
  have "n \<le> (n + 7) div 8 * 8" by presburger
  then show ?thesis by (simp add: alloc_nel_def)
qed

text \<open>Growing a dynamic array by one element: no slot outside the block is used, the elements keep
  their values, the new element is inside the block, and when memory runs out exactly the elements
  of the array are handed to the clean-up routine.\<close>

theorem da_grow1_correct:
  assumes "da_wf a"
  shows "\<exists>r cl. da_grow1 a ok = Some (r, cl) \<and> da_wf r \<and>
    (case r of
       Some d \<Rightarrow> da_nelf d = da_nel a + 1 \<and> da_nelf d \<le> length (da_mem d) \<and> cl = [] \<and>
         (\<forall>b i. a = Some b \<and> i < da_nelf b \<longrightarrow> da_get d i = da_get b i)
     | None \<Rightarrow> \<not> ok \<and> length cl = da_nel a \<and> (\<forall>b i. a = Some b \<and> i < da_nelf b \<longrightarrow> cl ! i = da_mem b ! i))"
proof (cases a)
  case None
  then show ?thesis
    by (cases ok) (simp_all add: da_grow1_def da_nel_def da_realloc_def da_wf_def alloc_nel_def da_cleanup_def)
next
  case (Some b)
  let ?k = "da_nelf b"
  have len: "length (da_mem b) = alloc_nel ?k" using assms Some by (simp add: da_wf_def)
  show ?thesis
  proof (cases "?k \<noteq> 0 \<and> ?k mod 8 = 0")
    case True
    then have al: "alloc_nel ?k = ?k" "alloc_nel (?k + 1) = ?k + 8" using alloc_nel_step by auto
    show ?thesis
    proof (cases ok)
      case True
      then show ?thesis using Some \<open>?k \<noteq> 0 \<and> ?k mod 8 = 0\<close> al len
        by (auto simp: da_grow1_def da_nel_def da_realloc_def da_wf_def da_get_def rd_def nth_append)
    next
      case False
      then show ?thesis using Some \<open>?k \<noteq> 0 \<and> ?k mod 8 = 0\<close> al len
        by (auto simp: da_grow1_def da_nel_def da_cleanup_def rdn_def da_wf_def)
    qed
  next
    case False
    then have "alloc_nel (?k + 1) = alloc_nel ?k" by (intro alloc_nel_same) auto
    then show ?thesis using Some False len alloc_nel_ge [of "?k + 1"]
      by (auto simp: da_grow1_def da_nel_def da_wf_def da_get_def)
  qed
qed

theorem da_grow1_correct_witness:
  "\<exists>d. da_grow1 (Some \<lparr> da_nelf = 8, da_mem = map Some [0 ..< 8 :: nat] \<rparr>) True = Some (Some d, []) \<and> da_nelf d = 9 \<and> da_get d 5 = Some 5"
proof -
  let ?a = "\<lparr> da_nelf = 8, da_mem = map Some [0 ..< 8 :: nat] \<rparr>"
  have "da_wf (Some ?a)" by (simp add: da_wf_def alloc_nel_def)
  from da_grow1_correct [OF this, of True] obtain r cl where
    r: "da_grow1 (Some ?a) True = Some (r, cl)"
      "case r of Some d \<Rightarrow> da_nelf d = da_nel (Some ?a) + 1 \<and> da_nelf d \<le> length (da_mem d) \<and> cl = [] \<and>
         (\<forall>b i. Some ?a = Some b \<and> i < da_nelf b \<longrightarrow> da_get d i = da_get b i)
       | None \<Rightarrow> False" by (fastforce split: option.splits)
  then obtain d where "r = Some d" by (cases r) auto
  then show ?thesis using r by (auto simp: da_nel_def da_get_def rd_def)
qed

subsection \<open>\<open>dlist\<close>\<close>

record dlist =
  dl_last :: nat
  dl_lastsz :: nat
  dl_data :: "byte list"

definition ld32 :: "byte list \<Rightarrow> nat \<Rightarrow> nat option" where
  "ld32 xs i = do { bs \<leftarrow> rdn xs i 4; Some (unat (un_le32 bs)) }"

definition st32 :: "byte list \<Rightarrow> nat \<Rightarrow> nat \<Rightarrow> byte list option" where
  "st32 xs i n = wrn xs i (le32 (word_of_nat n))"

definition DLISTALIGN :: "nat \<Rightarrow> nat" where
  "DLISTALIGN len = (len + 3) div 4 * 4"

definition dl_chunk :: "nat \<Rightarrow> nat" where
  "dl_chunk n = (n + 1023) div 1024 * 1024"

definition dlist_grow :: "dlist option \<Rightarrow> nat \<Rightarrow> bool \<Rightarrow> byte list \<Rightarrow> dlist option option" where
  "dlist_grow a len ok junk =
     do {
       (sz, data) \<leftarrow> (case a of None \<Rightarrow> Some (0, [])
          | Some d \<Rightarrow> do { m \<leftarrow> st32 (dl_data d) (dl_last d) (dl_lastsz d); Some (dl_last d + dl_lastsz d, m) });
       let allocsz = (if a = None then 0 else dl_chunk sz);
       let szincr = DLISTALIGN (len + 4);
       let newsz = sz + szincr;
       let grow = (newsz > allocsz);
       if grow \<and> \<not> ok then Some None
       else if a = None \<and> \<not> grow then Some None
       else do {
         let block = (if grow then take (dl_chunk newsz) data @ take (dl_chunk newsz - length data) junk else data);
         m \<leftarrow> st32 block sz 0;
         Some (Some \<lparr> dl_last = sz, dl_lastsz = szincr, dl_data = m \<rparr>)
       }
     }"

text \<open>References to items are offsets into the data.\<close>

definition dlist_first :: "dlist option \<Rightarrow> nat option" where
  "dlist_first a = map_option (\<lambda>_. 4) a"

definition dlist_next :: "dlist \<Rightarrow> nat \<Rightarrow> nat option option" where
  "dlist_next d ref =
     do {
       must (4 \<le> ref);
       incr \<leftarrow> ld32 (dl_data d) (ref - 4);
       Some (if incr \<noteq> 0 then Some (ref + incr) else None)
     }"

definition dlist_last :: "dlist option \<Rightarrow> nat option" where
  "dlist_last a = map_option (\<lambda>d. dl_last d + 4) a"

text \<open>The references a loop over the list visits.\<close>

partial_function (option) dlist_walk :: "dlist \<Rightarrow> nat option \<Rightarrow> nat list option" where
  "dlist_walk d ref =
     (if ref = None then Some []
      else do { nx \<leftarrow> dlist_next d (the ref); rs \<leftarrow> dlist_walk d nx; Some (the ref # rs) })"

declare dlist_walk.simps [code]

subsection \<open>\<open>llist\<close>\<close>

text \<open>A node is its successor and the size of its data; nodes are allocated at the address \<open>new\<close>.\<close>

record llist =
  ll_mem :: "nat \<rightharpoonup> nat option \<times> nat"
  ll_first :: "nat option"
  ll_last :: "nat option"

definition llist_init :: "llist \<Rightarrow> llist" where
  "llist_init a = a\<lparr> ll_first := None, ll_last := None \<rparr>"

definition llist_isempty :: "llist \<Rightarrow> bool" where
  "llist_isempty a = (ll_first a = None)"

partial_function (option) llist_free_from :: "nat option \<Rightarrow> (nat \<rightharpoonup> nat option \<times> nat) \<Rightarrow> (nat \<rightharpoonup> nat option \<times> nat) option" where
  "llist_free_from p m =
     (if p = None then Some m
      else do { n \<leftarrow> m (the p); llist_free_from (fst n) (m(the p := None)) })"

declare llist_free_from.simps [code]

definition llist_free :: "llist \<Rightarrow> llist option" where
  "llist_free a = do { m \<leftarrow> llist_free_from (ll_first a) (ll_mem a); Some \<lparr> ll_mem = m, ll_first = None, ll_last = None \<rparr> }"

definition llist_grow :: "llist \<Rightarrow> nat \<Rightarrow> nat \<Rightarrow> bool \<Rightarrow> (bool \<times> llist) option" where
  "llist_grow a len new ok =
     (if \<not> ok then do { b \<leftarrow> llist_free a; Some (False, b) }
      else do {
        let m = (ll_mem a)(new \<mapsto> (None, len));
        if ll_first a = None then Some (True, a\<lparr> ll_mem := m, ll_first := Some new, ll_last := Some new \<rparr>)
        else do {
          l \<leftarrow> ll_last a;
          n \<leftarrow> m l;
          Some (True, a\<lparr> ll_mem := m(l \<mapsto> (Some new, snd n)), ll_last := Some new \<rparr>)
        }
      })"

definition llist_next :: "llist \<Rightarrow> nat \<Rightarrow> nat option option" where
  "llist_next a ref = do { n \<leftarrow> ll_mem a ref; Some (fst n) }"

partial_function (option) llist_walk :: "llist \<Rightarrow> nat option \<Rightarrow> nat list option" where
  "llist_walk a ref =
     (if ref = None then Some []
      else do { nx \<leftarrow> llist_next a (the ref); rs \<leftarrow> llist_walk a nx; Some (the ref # rs) })"

declare llist_walk.simps [code]


subsection \<open>The items of a \<open>dlist\<close>\<close>

lemma ld32_st32:
  assumes "st32 xs i n = Some ys"
  shows "length ys = length xs" "n < 2 ^ 32 \<Longrightarrow> ld32 ys i = Some n"
    "j + 4 \<le> i \<or> i + 4 \<le> j \<Longrightarrow> ld32 ys j = ld32 xs j"
    "k < i \<or> i + 4 \<le> k \<Longrightarrow> ys ! k = xs ! k"
proof -
  have len: "i + 4 \<le> length xs" and ys: "ys = take i xs @ le32 (word_of_nat n) @ drop (i + 4) xs"
    using assms by (auto simp: st32_def wrn_def split: if_splits)
  show "length ys = length xs" using len ys by simp
  show "n < 2 ^ 32 \<Longrightarrow> ld32 ys i = Some n"
    using len ys by (simp add: ld32_def rdn_def unat_of_nat)
  show nth: "ys ! k = xs ! k" if "k < i \<or> i + 4 \<le> k" for k
    using that len ys by (auto simp: nth_append)
  show "ld32 ys j = ld32 xs j" if "j + 4 \<le> i \<or> i + 4 \<le> j"
  proof -
    have "take 4 (drop j ys) = take 4 (drop j xs)"
      by (rule nth_equalityI) (use len ys that nth in auto)
    then show ?thesis using len ys by (simp add: ld32_def rdn_def)
  qed
qed

lemma st32_Some: "i + 4 \<le> length xs \<Longrightarrow> \<exists>ys. st32 xs i n = Some ys"
  by (simp add: st32_def wrn_def)

lemma ld32_append: "j + 4 \<le> length xs \<Longrightarrow> ld32 (xs @ ys) j = ld32 xs j"
  by (simp add: ld32_def rdn_def)

lemma dl_chunk_ge: "n \<le> dl_chunk n"
  unfolding dl_chunk_def
  using div_mult_mod_eq [of "n + 1023" 1024] mod_less_divisor [of 1024 "n + 1023"] by linarith

lemma dl_chunk_mono: "m \<le> n \<Longrightarrow> dl_chunk m \<le> dl_chunk n"
  by (simp add: dl_chunk_def div_le_mono)

lemma DLISTALIGN_ge: "len + 4 \<le> DLISTALIGN (len + 4)"
  unfolding DLISTALIGN_def by presburger

text \<open>The items have the distances \<open>pre\<close>, the last one takes \<open>z\<close> bytes; in front of each item but the
  last is its distance to the next, in front of the last is zero.\<close>

definition dl_ok :: "dlist \<Rightarrow> nat list \<Rightarrow> nat \<Rightarrow> bool" where
  "dl_ok d pre z = ((\<forall>x \<in> set pre. 4 \<le> x) \<and> 4 \<le> z \<and> dl_last d = sum_list pre \<and> dl_lastsz d = z \<and>
     length (dl_data d) = dl_chunk (sum_list pre + z) \<and> sum_list pre + z < 2 ^ 32 \<and>
     (\<forall>k < length pre. ld32 (dl_data d) (sum_list (take k pre)) = Some (pre ! k)) \<and>
     ld32 (dl_data d) (sum_list pre) = Some 0)"

definition dl_refs :: "nat list \<Rightarrow> nat list" where
  "dl_refs pre = map (\<lambda>k. sum_list (take k pre) + 4) [0..<length pre + 1]"

lemma sum_take_le: "k \<le> m \<Longrightarrow> sum_list (take k pre) \<le> sum_list (take m (pre :: nat list))"
  by (metis append_take_drop_id le_add1 min.absorb1 sum_list_append take_take)

lemma dlist_walk_from:
  assumes "dl_ok d pre z" "k \<le> length pre"
  shows "dlist_walk d (Some (sum_list (take k pre) + 4)) = Some (map (\<lambda>j. sum_list (take j pre) + 4) [k..<length pre + 1])"
  using assms(2)
proof (induction rule: inc_induct)
  case base
  have "ld32 (dl_data d) (sum_list pre) = Some 0" using assms(1) by (simp add: dl_ok_def)
  then have "dlist_next d (sum_list pre + 4) = Some None" by (simp add: dlist_next_def)
  moreover have "dlist_walk d None = Some []" by (subst dlist_walk.simps) simp
  ultimately show ?case by (subst dlist_walk.simps) simp
next
  case (step k)
  have h: "ld32 (dl_data d) (sum_list (take k pre)) = Some (pre ! k)" "pre ! k \<noteq> 0"
    using assms(1) step(2) by (auto simp: dl_ok_def dest!: nth_mem)
  have "sum_list (take (Suc k) pre) = sum_list (take k pre) + pre ! k"
    using step(2) by (simp add: take_Suc_conv_app_nth)
  then have nx: "dlist_next d (sum_list (take k pre) + 4) = Some (Some (sum_list (take (Suc k) pre) + 4))"
    using h by (simp add: dlist_next_def)
  have "[k..<length pre + 1] = k # [Suc k..<length pre + 1]" using step(2) by (simp add: upt_conv_Cons)
  then show ?case using nx step.IH by (subst dlist_walk.simps) simp
qed

lemma dlist_walk_ok:
  assumes "dl_ok d pre z"
  shows "dlist_walk d (dlist_first (Some d)) = Some (dl_refs pre)" "dlist_last (Some d) = Some (last (dl_refs pre))"
proof -
  show "dlist_walk d (dlist_first (Some d)) = Some (dl_refs pre)"
    using dlist_walk_from [OF assms, of 0] by (simp add: dlist_first_def dl_refs_def)
  show "dlist_last (Some d) = Some (last (dl_refs pre))"
    using assms by (simp add: dlist_last_def dl_refs_def dl_ok_def)
qed

lemma dlist_grow_first:
  assumes "dl_chunk (DLISTALIGN (len + 4)) \<le> length junk" "DLISTALIGN (len + 4) < 2 ^ 32"
  shows "\<exists>d. dlist_grow None len True junk = Some (Some d) \<and> dl_ok d [] (DLISTALIGN (len + 4))"
proof -
  let ?n = "DLISTALIGN (len + 4)" and ?b = "take (dl_chunk (DLISTALIGN (len + 4))) junk"
  have len: "length ?b = dl_chunk ?n" "?n > 0" using assms(1) DLISTALIGN_ge [of len] by auto
  then have "0 + 4 \<le> length ?b" using dl_chunk_ge [of ?n] DLISTALIGN_ge [of len] by linarith
  then obtain m where m: "st32 ?b 0 0 = Some m" using st32_Some [of 0 ?b] by blast
  have "dlist_grow None len True junk = Some (Some \<lparr> dl_last = 0, dl_lastsz = ?n, dl_data = m \<rparr>)"
    using m len(2) by (simp add: dlist_grow_def Let_def)
  moreover have "dl_ok \<lparr> dl_last = 0, dl_lastsz = ?n, dl_data = m \<rparr> [] ?n"
    using ld32_st32(1,2) [OF m] len assms DLISTALIGN_ge [of len] by (simp add: dl_ok_def)
  ultimately show ?thesis by blast
qed

lemma dlist_grow_more:
  assumes "dl_ok d pre z" "sum_list pre + z + DLISTALIGN (len + 4) < 2 ^ 32"
    "dl_chunk (sum_list pre + z + DLISTALIGN (len + 4)) \<le> length junk"
  shows "\<exists>d'. dlist_grow (Some d) len True junk = Some (Some d') \<and> dl_ok d' (pre @ [z]) (DLISTALIGN (len + 4)) \<and>
    (\<forall>i < sum_list pre + z. i < sum_list pre \<or> sum_list pre + 4 \<le> i \<longrightarrow> dl_data d' ! i = dl_data d ! i)"
proof -
  let ?n = "DLISTALIGN (len + 4)" and ?l = "sum_list pre" and ?sz = "sum_list pre + z"
  have d: "\<forall>x \<in> set pre. 4 \<le> x" "4 \<le> z" "dl_last d = ?l" "dl_lastsz d = z" "length (dl_data d) = dl_chunk ?sz"
    "\<And>k. k < length pre \<Longrightarrow> ld32 (dl_data d) (sum_list (take k pre)) = Some (pre ! k)" "?sz < 2 ^ 32"
    using assms(1) by (auto simp: dl_ok_def)
  have szle: "?sz \<le> dl_chunk ?sz" by (rule dl_chunk_ge)
  have "?l + 4 \<le> length (dl_data d)" using d(2,5) szle by linarith
  then obtain m where m: "st32 (dl_data d) ?l z = Some m" using st32_Some [of ?l "dl_data d" z] by blast
  note M = ld32_st32 [OF m]
  define block where "block = (if ?sz + ?n > dl_chunk ?sz
    then take (dl_chunk (?sz + ?n)) m @ take (dl_chunk (?sz + ?n) - length m) junk else m)"
  have mono: "dl_chunk ?sz \<le> dl_chunk (?sz + ?n)" by (rule dl_chunk_mono) simp
  have lb: "length block = dl_chunk (?sz + ?n) \<and> (\<exists>x. block = m @ x)"
  proof (cases "?sz + ?n > dl_chunk ?sz")
    case True
    then show ?thesis using assms(3) mono M(1) d(5) unfolding block_def by simp
  next
    case False
    have "dl_chunk (?sz + ?n) \<le> dl_chunk (dl_chunk ?sz)" using False by (intro dl_chunk_mono) simp
    moreover have "dl_chunk (dl_chunk ?sz) = dl_chunk ?sz" by (simp add: dl_chunk_def)
    ultimately show ?thesis using False mono M(1) d(5) unfolding block_def by simp
  qed
  then obtain x where x: "block = m @ x" by blast
  have "?sz + 4 \<le> length block" using lb dl_chunk_ge [of "?sz + ?n"] DLISTALIGN_ge [of len] by linarith
  then obtain b where b: "st32 block ?sz 0 = Some b" using st32_Some [of ?sz block 0] by blast
  note B = ld32_st32 [OF b]
  let ?d = "\<lparr> dl_last = ?sz, dl_lastsz = ?n, dl_data = b \<rparr>"
  have run: "dlist_grow (Some d) len True junk = Some (Some ?d)"
    unfolding dlist_grow_def using d(3,4) m b unfolding block_def
    by (simp add: Let_def split: if_splits)
  have hd: "ld32 b j = ld32 m j" if "j + 4 \<le> ?sz" for j
  proof -
    have "ld32 block j = ld32 m j" unfolding x by (rule ld32_append) (use that M(1) d(5) szle in linarith)
    then show ?thesis using B(3) [of j] that by simp
  qed
  have hdr: "ld32 b (sum_list (take k (pre @ [z]))) = Some ((pre @ [z]) ! k)" if "k < length (pre @ [z])" for k
  proof (cases "k < length pre")
    case True
    have s4: "sum_list (take k pre) + 4 \<le> ?l"
    proof -
      have "sum_list (take k pre) + pre ! k = sum_list (take (Suc k) pre)" using True by (simp add: take_Suc_conv_app_nth)
      also have "\<dots> \<le> ?l" using sum_take_le [of "Suc k" "length pre" pre] True by simp
      finally show ?thesis using d(1) True by (metis add_le_mono1 nat_add_left_cancel_le nth_mem order_trans)
    qed
    then have "ld32 b (sum_list (take k pre)) = ld32 m (sum_list (take k pre))" by (intro hd) simp
    also have "\<dots> = ld32 (dl_data d) (sum_list (take k pre))" using s4 by (intro M(3)) simp
    finally show ?thesis using True d(6) by (simp add: nth_append)
  next
    case False
    then have "k = length pre" using that by simp
    moreover have "ld32 b ?l = Some z" using hd [of ?l] M(2) d(2,7) by simp
    ultimately show ?thesis by simp
  qed
  have ok: "dl_ok ?d (pre @ [z]) ?n"
    unfolding dl_ok_def using d(1,2) B(1,2) lb hdr assms(2) DLISTALIGN_ge [of len] by (simp add: add.assoc)
  have "b ! i = dl_data d ! i" if "i < ?sz" "i < ?l \<or> ?l + 4 \<le> i" for i
  proof -
    have "b ! i = block ! i" using B(4) that(1) by simp
    also have "\<dots> = m ! i" unfolding x using that(1) M(1) d(5) szle by (simp add: nth_append)
    also have "\<dots> = dl_data d ! i" using M(4) that(2) by simp
    finally show ?thesis .
  qed
  then show ?thesis using run ok by (intro exI [of _ ?d]) simp
qed


subsection \<open>The nodes of an \<open>llist\<close>\<close>

fun ll_seg :: "(nat \<rightharpoonup> nat option \<times> nat) \<Rightarrow> nat list \<Rightarrow> nat option \<Rightarrow> bool" where
  "ll_seg m [] nx = True"
| "ll_seg m (r # rs) nx = ((\<exists>l. m r = Some (case rs of [] \<Rightarrow> nx | r' # _ \<Rightarrow> Some r', l)) \<and> ll_seg m rs nx)"

definition ll_ok :: "llist \<Rightarrow> nat list \<Rightarrow> bool" where
  "ll_ok a rs = (distinct rs \<and> dom (ll_mem a) = set rs \<and> ll_seg (ll_mem a) rs None \<and>
     ll_first a = (case rs of [] \<Rightarrow> None | r # _ \<Rightarrow> Some r) \<and> ll_last a = (if rs = [] then None else Some (last rs)))"

lemma ll_seg_frame: "(\<And>r. r \<in> set rs \<Longrightarrow> m' r = m r) \<Longrightarrow> ll_seg m' rs nx = ll_seg m rs nx"
  by (induction rs) auto

lemma ll_seg_append:
  "ll_seg m (xs @ y # ys) nx = (ll_seg m xs (Some y) \<and> ll_seg m (y # ys) nx)"
  by (induction xs) (auto split: list.splits)

lemma ll_walk_seg: "ll_seg (ll_mem a) rs None \<Longrightarrow> llist_walk a (case rs of [] \<Rightarrow> None | r # _ \<Rightarrow> Some r) = Some rs"
proof (induction rs)
  case Nil
  show ?case by (subst llist_walk.simps) simp
next
  case (Cons r rs)
  then obtain l where "ll_mem a r = Some (case rs of [] \<Rightarrow> None | r' # _ \<Rightarrow> Some r', l)" by auto
  then have "llist_next a r = Some (case rs of [] \<Rightarrow> None | r' # _ \<Rightarrow> Some r')" by (simp add: llist_next_def)
  then show ?case using Cons by (subst llist_walk.simps) simp
qed

lemma llist_free_ok:
  assumes "ll_ok a rs"
  shows "\<exists>b. llist_free a = Some b \<and> ll_ok b []"
proof -
  have "llist_free_from (case rs of [] \<Rightarrow> None | r # _ \<Rightarrow> Some r) m = Some Map.empty"
    if "ll_seg m rs None" "dom m = set rs" "distinct rs" for m
    using that
  proof (induction rs arbitrary: m)
    case Nil
    then show ?case by (subst llist_free_from.simps) simp
  next
    case (Cons r rs)
    then obtain l where n: "m r = Some (case rs of [] \<Rightarrow> None | r' # _ \<Rightarrow> Some r', l)" by auto
    have sg: "ll_seg (m(r := None)) rs None"
      using ll_seg_frame [of rs "m(r := None)" m None] Cons.prems(1,3) by fastforce
    then have "llist_free_from (case rs of [] \<Rightarrow> None | r # _ \<Rightarrow> Some r) (m(r := None)) = Some Map.empty"
    proof (intro Cons.IH)
      show "dom (m(r := None)) = set rs" using Cons.prems by auto
      show "ll_seg (m(r := None)) rs None" by (rule sg)
    qed (use Cons.prems in simp)
    then show ?case using n by (subst llist_free_from.simps) simp
  qed
  from this [of "ll_mem a"] assms show ?thesis by (simp add: llist_free_def ll_ok_def)
qed

lemma llist_grow_ok:
  assumes "ll_ok a rs" "new \<notin> set rs"
  shows "\<exists>a'. llist_grow a len new True = Some (True, a') \<and> ll_ok a' (rs @ [new])"
proof (cases rs rule: rev_cases)
  case Nil
  then show ?thesis using assms by (auto simp: ll_ok_def llist_grow_def Let_def)
next
  case (snoc xs y)
  let ?m = "(ll_mem a)(new \<mapsto> (None, len))"
  have ok: "distinct (xs @ [y])" "dom (ll_mem a) = set (xs @ [y])" "ll_seg (ll_mem a) xs (Some y)"
    "\<exists>l. ll_mem a y = Some (None, l)" "ll_first a \<noteq> None" "ll_last a = Some y"
    "ll_first a = (case xs @ [y] of [] \<Rightarrow> None | r # _ \<Rightarrow> Some r)"
    using assms(1) snoc by (auto simp: ll_ok_def ll_seg_append split: list.splits)
  then obtain l where l: "ll_mem a y = Some (None, l)" by blast
  have ny: "new \<noteq> y" "new \<notin> set xs" using assms(2) snoc by auto
  let ?a = "a\<lparr> ll_mem := ?m(y \<mapsto> (Some new, l)), ll_last := Some new \<rparr>"
  have "llist_grow a len new True = Some (True, ?a)"
    using ok(5,6) l ny by (auto simp: llist_grow_def Let_def)
  moreover have fr: "ll_seg (?m(y \<mapsto> (Some new, l))) xs (Some y) = ll_seg (ll_mem a) xs (Some y)"
    by (rule ll_seg_frame) (use ok(1) ny in auto)
  have "ll_ok ?a (rs @ [new])"
  proof -
    have e: "rs @ [new] = xs @ y # [new]" using snoc by simp
    have "ll_first a = (case rs @ [new] of [] \<Rightarrow> None | r # _ \<Rightarrow> Some r)"
      using ok(7) snoc by (cases xs) simp_all
    moreover have "ll_seg (?m(y \<mapsto> (Some new, l))) (rs @ [new]) None"
      unfolding e ll_seg_append using fr ok(3) ny by simp
    moreover have "dom (?m(y \<mapsto> (Some new, l))) = set (rs @ [new])" using ok(2) snoc by auto
    ultimately show ?thesis using ok(1) ny snoc by (simp add: ll_ok_def)
  qed
  ultimately show ?thesis by blast
qed

subsection \<open>The interface of a list that grows at its end\<close>

locale grow_list =
  fixes rep :: "'l \<Rightarrow> nat list \<Rightarrow> bool"
    and walk :: "'l \<Rightarrow> nat list option"
    and lst :: "'l \<Rightarrow> nat option"
    and grow :: "'l \<Rightarrow> 'l \<Rightarrow> bool"
  assumes walk_rep: "rep a rs \<Longrightarrow> walk a = Some rs"
    and last_rep: "rep a rs \<Longrightarrow> lst a = (if rs = [] then None else Some (last rs))"
    and grow_rep: "rep a rs \<Longrightarrow> grow a b \<Longrightarrow> \<exists>r. rep b (rs @ [r])"
begin

text \<open>After one growth the items of before are still visited, in their order and at their places, and the
  new item is the last one.\<close>

lemma grow_walk:
  assumes "rep a rs" "grow a b"
  shows "\<exists>r. walk b = Some (rs @ [r]) \<and> lst b = Some r"
proof -
  obtain r where "rep b (rs @ [r])" using grow_rep [OF assms] by blast
  then show ?thesis using walk_rep last_rep by fastforce
qed

lemma grow_many:
  assumes "rep a rs" "grow\<^sup>*\<^sup>* a b"
  shows "\<exists>ss. walk b = Some (rs @ ss) \<and> rep b (rs @ ss)"
  using assms(2)
proof (induction rule: rtranclp_induct)
  case base
  then show ?case using assms(1) walk_rep by (intro exI [of _ "[]"]) simp
next
  case (step b c)
  then obtain ss where "rep b (rs @ ss)" by blast
  then obtain r where "rep c ((rs @ ss) @ [r])" using grow_rep step.hyps(2) by blast
  then show ?case using walk_rep by (intro exI [of _ "ss @ [r]"]) simp
qed

end

definition dl_rep :: "dlist option \<Rightarrow> nat list \<Rightarrow> bool" where
  "dl_rep a rs = (case a of None \<Rightarrow> rs = [] | Some d \<Rightarrow> (\<exists>pre z. dl_ok d pre z \<and> rs = dl_refs pre))"

text \<open>A growth that succeeds, the block not reaching 4 GB.\<close>

definition dl_grows :: "dlist option \<Rightarrow> dlist option \<Rightarrow> bool" where
  "dl_grows a b = (\<exists>len junk sz. sz = (case a of None \<Rightarrow> 0 | Some d \<Rightarrow> dl_last d + dl_lastsz d) \<and>
     sz + DLISTALIGN (len + 4) < 2 ^ 32 \<and> dl_chunk (sz + DLISTALIGN (len + 4)) \<le> length junk \<and>
     dlist_grow a len True junk = Some b)"

lemma dl_refs_snoc: "dl_refs (pre @ [z]) = dl_refs pre @ [sum_list pre + z + 4]"
  by (auto simp: dl_refs_def)

lemma dl_rep_grow: "dl_rep a rs \<Longrightarrow> dl_grows a b \<Longrightarrow> \<exists>r. dl_rep b (rs @ [r])"
proof -
  assume r: "dl_rep a rs" and g: "dl_grows a b"
  show ?thesis
  proof (cases a)
    case None
    then obtain len junk where "DLISTALIGN (len + 4) < 2 ^ 32" "dl_chunk (DLISTALIGN (len + 4)) \<le> length junk"
      "dlist_grow None len True junk = Some b" using g by (auto simp: dl_grows_def)
    then obtain d where "b = Some d" "dl_ok d [] (DLISTALIGN (len + 4))"
      using dlist_grow_first [of len junk] by auto
    then show ?thesis using None r by (auto simp: dl_rep_def dl_refs_def)
  next
    case (Some d)
    then obtain pre z where pz: "dl_ok d pre z" "rs = dl_refs pre" using r by (auto simp: dl_rep_def)
    have "dl_last d + dl_lastsz d = sum_list pre + z" using pz(1) by (simp add: dl_ok_def)
    then obtain len junk where "sum_list pre + z + DLISTALIGN (len + 4) < 2 ^ 32"
      "dl_chunk (sum_list pre + z + DLISTALIGN (len + 4)) \<le> length junk" "dlist_grow (Some d) len True junk = Some b"
      using g Some by (auto simp: dl_grows_def)
    then obtain d' where "b = Some d'" "dl_ok d' (pre @ [z]) (DLISTALIGN (len + 4))"
      using dlist_grow_more [OF pz(1), of len junk] by auto
    then show ?thesis unfolding pz(2) dl_rep_def
      by (intro exI [of _ "sum_list pre + z + 4"]) (auto simp: dl_refs_snoc [symmetric])
  qed
qed

definition dl_walk :: "dlist option \<Rightarrow> nat list option" where
  "dl_walk a = (case a of None \<Rightarrow> Some [] | Some d \<Rightarrow> dlist_walk d (dlist_first a))"

interpretation dl: grow_list dl_rep dl_walk dlist_last dl_grows
proof unfold_locales
  show "dl_walk a = Some rs" if "dl_rep a rs" for a rs
    using that dlist_walk_ok(1) by (auto simp: dl_rep_def dl_walk_def split: option.splits)
  show "dlist_last a = (if rs = [] then None else Some (last rs))" if "dl_rep a rs" for a rs
  proof (cases a)
    case None
    then show ?thesis using that by (simp add: dl_rep_def dlist_last_def)
  next
    case (Some d)
    with that have "\<exists>pre z. dl_ok d pre z \<and> rs = dl_refs pre" by (simp add: dl_rep_def)
    then obtain pre z where pz: "dl_ok d pre z" "rs = dl_refs pre" by blast
    moreover have "dl_refs pre \<noteq> []" by (simp add: dl_refs_def)
    ultimately show ?thesis using dlist_walk_ok(2) [OF pz(1)] Some by simp
  qed
qed (rule dl_rep_grow)

definition ll_grows :: "llist \<Rightarrow> llist \<Rightarrow> bool" where
  "ll_grows a b = (\<exists>len new. ll_mem a new = None \<and> llist_grow a len new True = Some (True, b))"

interpretation ll: grow_list ll_ok "\<lambda>a. llist_walk a (ll_first a)" ll_last ll_grows
proof unfold_locales
  show "llist_walk a (ll_first a) = Some rs" if "ll_ok a rs" for a rs
    using that ll_walk_seg [of a rs] by (simp add: ll_ok_def)
  show "ll_last a = (if rs = [] then None else Some (last rs))" if "ll_ok a rs" for a rs
    using that by (simp add: ll_ok_def)
  show "\<exists>r. ll_ok b (rs @ [r])" if ok: "ll_ok a rs" and gr: "ll_grows a b" for a rs b
  proof -
    obtain len new where n: "ll_mem a new = None" "llist_grow a len new True = Some (True, b)"
      using gr by (auto simp: ll_grows_def)
    then have "new \<notin> set rs" using ok by (auto simp: ll_ok_def)
    then show ?thesis using llist_grow_ok [OF ok, of new len] n(2) by auto
  qed
qed

subsection \<open>Properties of the lists\<close>

text \<open>C32. Growing a \<open>dlist\<close>: the header words are written inside the block, a walk visits the items of
  before at the same offsets and then the new one, the new item has room for its data, and no byte of
  an item that was there changes.\<close>

theorem dlist_grow_correct:
  assumes "dl_ok d pre z" "sum_list pre + z + DLISTALIGN (len + 4) < 2 ^ 32"
    "dl_chunk (sum_list pre + z + DLISTALIGN (len + 4)) \<le> length junk"
  shows "\<exists>d'. dlist_grow (Some d) len True junk = Some (Some d') \<and>
    dlist_walk d' (dlist_first (Some d')) = Some (dl_refs pre @ [sum_list pre + z + 4]) \<and>
    dlist_last (Some d') = Some (sum_list pre + z + 4) \<and> sum_list pre + z + 4 + len \<le> length (dl_data d') \<and>
    (\<forall>i < sum_list pre + z. i < sum_list pre \<or> sum_list pre + 4 \<le> i \<longrightarrow> dl_data d' ! i = dl_data d ! i)"
proof -
  obtain d' where d': "dlist_grow (Some d) len True junk = Some (Some d')"
    "dl_ok d' (pre @ [z]) (DLISTALIGN (len + 4))"
    "\<forall>i < sum_list pre + z. i < sum_list pre \<or> sum_list pre + 4 \<le> i \<longrightarrow> dl_data d' ! i = dl_data d ! i"
    using dlist_grow_more [OF assms] by blast
  have "sum_list pre + z + 4 + len \<le> length (dl_data d')"
    using d'(2) dl_chunk_ge [of "sum_list pre + z + DLISTALIGN (len + 4)"] DLISTALIGN_ge [of len]
    by (simp add: dl_ok_def)
  then show ?thesis using d' dlist_walk_ok [OF d'(2)] by (intro exI [of _ d']) (simp add: dl_refs_snoc)
qed

theorem dlist_grow_correct_witness:
  "\<exists>d'. dlist_grow (Some \<lparr> dl_last = 0, dl_lastsz = 8, dl_data = replicate 1024 0 \<rparr>) 6 True (replicate 1024 1) = Some (Some d') \<and>
     dlist_last (Some d') = Some 12"
proof -
  let ?d = "\<lparr> dl_last = 0, dl_lastsz = 8, dl_data = replicate 1024 0 \<rparr>"
  have z: "un_le32 [0, 0, 0, 0] = 0" by (simp add: un_le32_def)
  have "take 4 (replicate 1024 (0 :: byte)) = [0, 0, 0, 0]" by (simp add: take_replicate eval_nat_numeral)
  then have "ld32 (replicate 1024 0) 0 = Some 0" using z by (simp add: ld32_def rdn_def)
  then have "dl_ok ?d [] 8" by (simp add: dl_ok_def dl_chunk_def)
  from dlist_grow_correct [OF this, of 6 "replicate 1024 1"] show ?thesis
    by (simp add: DLISTALIGN_def dl_chunk_def) blast
qed

text \<open>Growing an \<open>llist\<close> any number of times keeps the nodes in the order in which they were added,
  all of them reachable from the first; freeing the list frees every node once.\<close>

theorem llist_grow_correct:
  assumes "ll_ok a rs" "ll_grows\<^sup>*\<^sup>* a b"
  shows "\<exists>ss c. llist_walk b (ll_first b) = Some (rs @ ss) \<and> llist_free b = Some c \<and>
    ll_mem c = Map.empty \<and> llist_isempty c"
proof -
  obtain ss where ss: "llist_walk b (ll_first b) = Some (rs @ ss)" "ll_ok b (rs @ ss)"
    using ll.grow_many [OF assms] by blast
  obtain c where "llist_free b = Some c" "ll_ok c []" using llist_free_ok [OF ss(2)] by blast
  then show ?thesis using ss by (intro exI [of _ ss] exI [of _ c]) (simp add: ll_ok_def llist_isempty_def)
qed

theorem llist_grow_correct_witness:
  "\<exists>ss c. llist_walk \<lparr> ll_mem = [5 \<mapsto> (None, 3)], ll_first = Some 5, ll_last = Some 5 \<rparr> (Some 5) = Some ([5] @ ss) \<and>
     llist_free \<lparr> ll_mem = [5 \<mapsto> (None, 3)], ll_first = Some 5, ll_last = Some 5 \<rparr> = Some c \<and> ll_mem c = Map.empty"
proof -
  let ?a = "\<lparr> ll_mem = [5 \<mapsto> (None, 3)], ll_first = Some 5, ll_last = Some 5 \<rparr>"
  have "ll_ok ?a [5]" by (simp add: ll_ok_def)
  from llist_grow_correct [OF this rtranclp.rtrancl_refl] show ?thesis by auto
qed

end
