(* ===== verification/Pd_QuerySpec.thy ===== *)
theory Pd_QuerySpec
  imports Pd_ComposeSpec
begin

text \<open>
  Decoding a query and \<open>process_query\<close> as a whole: the decoder accepts exactly the messages whose
  question section has the layout of RFC 1035, and every query is processed without failing.
\<close>

subsection \<open>The question section\<close>

lemma quest_at_names: "quest_at m p qs e \<Longrightarrow> list_all qe_ok qs"
proof (induction rule: quest_at.induct)
  case (quest_cons p ls h n qs e)
  then have "wire_name ls" using name_at_labels [of m p ls h n] by (simp add: wire_name_def)
  then show ?case using quest_cons.IH by (auto simp: qe_ok_def)
qed simp

text \<open>What the loop returns; \<open>n\<close> is the number of questions still to read.\<close>

definition decoded :: "byte list \<Rightarrow> nat \<Rightarrow> nat \<Rightarrow> queryel list \<Rightarrow> int \<times> nat \<times> nat \<times> queryel list \<times> ans \<Rightarrow> bool" where
  "decoded m n p q = (\<lambda>(rc, p', sz', q', s').
     (rc = RC_OK \<and> (\<exists>qs. length qs = n \<and> quest_at m p qs p' \<and> q' = q @ qs) \<and> sz' = length m - p' \<or>
      rc = RC_TRUNC \<and> (\<exists>qs e. length qs < n \<and> quest_at m p qs e \<and> q' = q @ qs) \<or>
      rc \<in> {RC_FORMAT, RC_SERVFAIL} \<and> q' = []) \<and>
     (rc \<in> {RC_TRUNC, RC_FORMAT} \<longrightarrow> \<not> (\<exists>qs e. length qs = n \<and> quest_at m p qs e)))"

lemma decoded_more:
  assumes "decoded m n e (q @ [x]) r" "quest_at m p [x] e"
  shows "decoded m (Suc n) p q r"
proof -
  obtain rc p' sz' q' s' where r: "r = (rc, p', sz', q', s')" by (cases r)
  have ok: "\<exists>ys. length ys = Suc (length qs) \<and> quest_at m p ys e' \<and> q @ ys = q @ x # qs"
    if "quest_at m e qs e'" for qs e'
    using quest_at_snoc [OF assms(2) that] by (intro exI [of _ "x # qs"]) simp
  have no: "\<exists>qs e'. length qs = n \<and> quest_at m e qs e'" if q: "length ys = Suc n" "quest_at m p ys e'" for ys e'
  proof -
    obtain y zs where y: "ys = y # zs" using q(1) by (cases ys) auto
    obtain f where f: "quest_at m p [y] f" "quest_at m f zs e'"
      using q(2) unfolding y by (elim quest_at_ConsE) (blast intro: quest_cons quest_end)
    have "f = e" using quest_at_unique [OF f(1) assms(2)] by simp
    then show ?thesis using f(2) q(1) y by auto
  qed
  have no: "(\<exists>ys e. length ys = Suc n \<and> quest_at m p ys e) \<longrightarrow> (\<exists>qs e'. length qs = n \<and> quest_at m e qs e')"
    using no by blast
  consider (Ok) qs where "rc = RC_OK" "length qs = n" "quest_at m e qs p'" "q' = q @ x # qs" "sz' = length m - p'"
    | (Trunc) qs e' where "rc = RC_TRUNC" "length qs < n" "quest_at m e qs e'" "q' = q @ x # qs"
        "\<not> (\<exists>qs e'. length qs = n \<and> quest_at m e qs e')"
    | (Err) "rc \<in> {RC_FORMAT, RC_SERVFAIL}" "q' = []"
        "rc = RC_FORMAT \<longrightarrow> \<not> (\<exists>qs e'. length qs = n \<and> quest_at m e qs e')"
    using assms(1) unfolding r decoded_def by auto
  then show ?thesis
  proof cases
    case Ok
    then show ?thesis using ok [OF Ok(3)] by (auto simp: r decoded_def)
  next
    case Trunc
    obtain ys where "length ys = Suc (length qs)" "quest_at m p ys e'" "q @ ys = q @ x # qs" using ok [OF Trunc(3)] by blast
    then have "\<exists>qs e. length qs < Suc n \<and> quest_at m p qs e \<and> q' = q @ qs" using Trunc(2,4) by (metis Suc_less_eq)
    then show ?thesis using Trunc(1,5) no by (auto simp: r decoded_def)
  next
    case Err
    then show ?thesis using no by (auto simp: r decoded_def)
  qed
qed

lemma decode_query_loop_spec:
  "p + sz = length m \<Longrightarrow> \<exists>rc p' sz' q' s'. decode_query_loop E m n p sz q s = Some (rc, p', sz', q', s') \<and>
     decoded m n p q (rc, p', sz', q', s') \<and> keeps s s' \<and> p' + sz' = length m \<and>
     (no_fail (an_cache s) \<longrightarrow> rc \<noteq> RC_SERVFAIL)"
proof (induction n arbitrary: p sz q s)
  case 0
  then show ?case by (auto simp: decoded_def quest_at_Nil keeps_def intro!: exI [of _ "mallocs (an_cache s)"])
next
  case (Suc n)
  let ?f = "fresh E 0 DNSNAMEBUFSIZE"
  have fl: "DNSNAMEBUFSIZE \<le> length ?f" by (simp add: fresh_def)
  have kr: "keeps s s" by (auto simp: keeps_def intro!: exI [of _ "mallocs (an_cache s)"])
  let ?ok = "\<exists>ls h n. name_at m p ls h n \<and> h \<le> 255 \<and> n \<le> sz \<and> length (enc ls) \<le> DNSNAMEBUFSIZE"
  obtain rc p1 sz1 b len where d: "decompress_name m p sz ?f = Some (rc, p1, sz1, b, len)" and
    c: "if ?ok
     then rc = RC_OK \<and> (\<exists>ls h n. name_at m p ls h n \<and> wire_name ls \<and> n \<le> sz \<and>
            p1 = p + n \<and> sz1 = sz - n \<and> len = Some (length (enc ls)) \<and>
            b = enc ls @ drop (length (enc ls)) ?f)
     else rc \<in> {RC_FORMAT, RC_TRUNC} \<and> p1 = p \<and> sz1 = sz \<and> len = None"
    using decompress_name_spec [OF fl, of m p sz] by blast
  have notin: "\<not> quest_at m p qs e" if len: "length qs = Suc n"
      and none: "\<And>ls h k. name_at m p ls h k \<Longrightarrow> h \<le> 255 \<Longrightarrow> length (enc ls) \<le> DNSNAMEBUFSIZE \<Longrightarrow> k + 4 \<le> sz \<Longrightarrow> False" for qs e
  proof
    assume q: "quest_at m p qs e"
    obtain y ys where y: "qs = y # ys" using len by (cases qs) auto
    from q [unfolded y] Suc.prems show False by (elim quest_at_ConsE) (rule none, auto)
  qed
  show ?case
  proof (cases ?ok)
    case False
    have r: "rc \<in> {RC_FORMAT, RC_TRUNC}" "p1 = p" "sz1 = sz" using c unfolding if_not_P [OF False] by blast+
    have no: "\<not> quest_at m p qs e" if "length qs = Suc n" for qs e
      by (rule notin [OF that]) (use False in \<open>meson add_leD1\<close>)
    show ?thesis
    proof (cases "rc = RC_TRUNC")
      case True
      have "decoded m (Suc n) p q (rc, p, sz, q, s)" using True no
        by (auto simp: decoded_def quest_at_Nil intro!: exI [of _ "[]"])
      then show ?thesis using d True r kr Suc.prems by simp
    next
      case False
      then have "rc = RC_FORMAT" using r by simp
      then have "decoded m (Suc n) p q (rc, p, sz, [], s)" using no by (auto simp: decoded_def)
      then show ?thesis using d \<open>rc = RC_FORMAT\<close> r kr Suc.prems by simp
    qed
  next
    case True
    then obtain ls h k where k: "rc = RC_OK" "name_at m p ls h k" "wire_name ls" "k \<le> sz" "p1 = p + k" "sz1 = sz - k"
      "len = Some (length (enc ls))" "b = enc ls @ drop (length (enc ls)) ?f" using c unfolding if_P [OF True] by blast
    obtain ls' h' k' where k': "name_at m p ls' h' k'" "h' \<le> 255" using True by blast
    have h: "h \<le> 255" using name_at_unique [OF k(2) k'(1)] k'(2) by simp
    show ?thesis
    proof (cases "sz1 < 4")
      case True
      have "\<not> quest_at m p qs e" if "length qs = Suc n" for qs e
        by (rule notin [OF that]) (use name_at_unique [OF k(2)] True k(4,6) in force)
      then have "decoded m (Suc n) p q (RC_TRUNC, p1, sz1, q, s)"
        by (auto simp: decoded_def quest_at_Nil intro!: exI [of _ "[]"])
      then show ?thesis using d True k kr Suc.prems by simp
    next
      case False
      let ?x = "quest m p1 ls"
      have x: "quest_at m p [?x] (p1 + 4)"
        using quest_cons [OF k(2) h _ _ quest_end] k(3,5,6) False Suc.prems k(4) by (simp add: wire_name_def)
      have g: "get16 m p1 = Some (be_at m p1)" "get16 m (p1 + 2) = Some (be_at m (p1 + 2))"
        using get16_Some [of p1 m] get16_Some [of "p1 + 2" m] False k(4,5,6) Suc.prems by (simp_all add: be_at_def)
      obtain ok s1 where m: "an_malloc s = (ok, s1)" by (cases "an_malloc s")
      note ms = an_malloc_spec [OF m]
      have "p1 + sz1 = length m" using k(4-6) Suc.prems by simp
      have nm: "rdn b 0 (length (enc ls)) = Some (enc ls)" by (simp add: k(8) rdn_def)
      show ?thesis
      proof (cases ok)
        case False
        have "decoded m (Suc n) p q (RC_SERVFAIL, p1, sz1, [], s1)" by (simp add: decoded_def)
        then show ?thesis using d k False \<open>\<not> sz1 < 4\<close> m ms(1,2) \<open>p1 + sz1 = length m\<close> by simp
      next
        case True
        have "p1 + 4 + (sz1 - 4) = length m" using False \<open>p1 + sz1 = length m\<close> by simp
        from Suc.IH [OF this, of "q @ [?x]" s1] obtain rc p' sz' q' s'
          where l: "decode_query_loop E m n (p1 + 4) (sz1 - 4) (q @ [?x]) s1 = Some (rc, p', sz', q', s')"
            "decoded m n (p1 + 4) (q @ [?x]) (rc, p', sz', q', s')" "keeps s1 s'" "p' + sz' = length m"
            "no_fail (an_cache s1) \<longrightarrow> rc \<noteq> RC_SERVFAIL" by blast
        have "decode_query_loop E m (Suc n) p sz q s = Some (rc, p', sz', q', s')"
          using d k False True m g nm l(1) by (simp add: quest_def)
        moreover have "decoded m (Suc n) p q (rc, p', sz', q', s')" by (rule decoded_more [OF l(2) x])
        moreover have "keeps s s'" using keeps_trans [OF ms(1) l(3)] .
        ultimately show ?thesis using l(4,5) keepsD [OF ms(1)] by blast
      qed
    qed
  qed
qed

text \<open>The header, then the loop.\<close>

lemma decode_query_spec:
  assumes "12 \<le> length m"
  shows "\<exists>rc p' sz' q' s'. decode_query E m s = Some (rc, p', sz', q', s') \<and>
     decoded m (be_at m 4) 12 [] (rc, p', sz', q', s') \<and> keeps s s' \<and> p' + sz' = length m \<and>
     (no_fail (an_cache s) \<longrightarrow> rc \<noteq> RC_SERVFAIL)"
proof -
  have "12 + (length m - 12) = length m" using assms by simp
  from decode_query_loop_spec [OF this, of E "be_at m 4" "[]" s] show ?thesis
    using assms by (simp add: decode_query_def get16_at)
qed

lemma decoded_names:
  assumes "decoded m n p [] (rc, p', sz', q', s')"
  shows "list_all qe_ok q'" "rc \<in> {RC_OK, RC_TRUNC, RC_FORMAT, RC_SERVFAIL}"
  using assms quest_at_names by (auto simp: decoded_def)

subsection \<open>The additional section\<close>

definition opts :: "byte list \<Rightarrow> nat list \<Rightarrow> nat list" where
  "opts m os = filter (\<lambda>i. be_at m i = 41) os"

definition opt_info :: "byte list \<Rightarrow> nat \<Rightarrow> edns_info" where
  "opt_info m i = \<lparr> ed_udpsize = be_at m (i + 2), ed_rcode = unat (m ! (i + 4)) * 16 + unat (m ! 3 AND 0xf),
     ed_version = unat (m ! (i + 5)), ed_do = bit (m ! (i + 6)) 7 \<rparr>"

definition found_opt :: "byte list \<Rightarrow> nat list \<Rightarrow> nat \<Rightarrow> edns_info \<Rightarrow> edns_info" where
  "found_opt m os k ep = (if k = 0 \<and> opts m os \<noteq> [] then opt_info m (hd (opts m os)) else ep)"

text \<open>All \<open>n\<close> records are read, or those before the first that is damaged.\<close>

definition scanned :: "byte list \<Rightarrow> nat \<Rightarrow> nat \<Rightarrow> nat \<Rightarrow> edns_info \<Rightarrow> int \<times> nat \<times> edns_info \<Rightarrow> bool" where
  "scanned m n p k ep = (\<lambda>(rc, k', ep'). \<exists>os e. recs_at m p os e \<and>
     (rc = RC_OK \<and> length os = n \<or> rc \<in> {RC_TRUNC, RC_FORMAT} \<and> length os < n \<and>
        \<not> (\<exists>os e. length os = n \<and> recs_at m p os e)) \<and>
     k' = k + length (opts m os) \<and> ep' = found_opt m os k ep)"

lemma scanned_more:
  assumes "scanned m n (i + 10 + be_at m (i + 8)) k1 ep1 r" "name_at m p ls h l" "h \<le> 255" "length (enc ls) \<le> DNSNAMEBUFSIZE"
    "i = p + l" "i + 10 + be_at m (i + 8) \<le> length m"
    "k1 = (if be_at m i = 41 then k + 1 else k)" "ep1 = (if be_at m i = 41 \<and> k = 0 then opt_info m i else ep)"
  shows "scanned m (Suc n) p k ep r"
proof -
  obtain rc k' ep' where r: "r = (rc, k', ep')" by (cases r)
  obtain os e where o: "recs_at m (i + 10 + be_at m (i + 8)) os e"
    "rc = RC_OK \<and> length os = n \<or> rc \<in> {RC_TRUNC, RC_FORMAT} \<and> length os < n \<and>
        \<not> (\<exists>os e. length os = n \<and> recs_at m (i + 10 + be_at m (i + 8)) os e)"
    "k' = k1 + length (opts m os)" "ep' = found_opt m os k1 ep1"
    using assms(1) unfolding r scanned_def by blast
  have c: "recs_at m p (i # os) e" using recs_cons [OF assms(2-4)] o(1) assms(5,6) by simp
  have no: "\<exists>os e. length os = n \<and> recs_at m (i + 10 + be_at m (i + 8)) os e" if zs: "length zs = Suc n" "recs_at m p zs f" for zs f
  proof -
    obtain z ys where z: "zs = z # ys" using zs(1) by (cases zs) auto
    have "recs_at m (i + 10 + be_at m (i + 8)) ys f" using zs(2) unfolding z
      by (elim recs_at_ConsE) (use name_at_unique [OF assms(2)] assms(5) in force)
    then show ?thesis using zs(1) z by auto
  qed
  have "k' = k + length (opts m (i # os))" using o(3) assms(7) by (simp add: opts_def)
  moreover have "ep' = found_opt m (i # os) k ep" using o(4) assms(7,8) by (auto simp: found_opt_def opts_def)
  moreover have "rc = RC_OK \<and> length (i # os) = Suc n \<or> rc \<in> {RC_TRUNC, RC_FORMAT} \<and> length (i # os) < Suc n \<and>
        \<not> (\<exists>os e. length os = Suc n \<and> recs_at m p os e)" using o(2) no by auto
  ultimately show ?thesis using c unfolding r scanned_def by blast
qed

lemma scanned_stop:
  assumes "rc \<in> {RC_TRUNC, RC_FORMAT}"
    "\<And>ls h l. name_at m p ls h l \<Longrightarrow> h \<le> 255 \<Longrightarrow> length (enc ls) \<le> DNSNAMEBUFSIZE \<Longrightarrow>
      p + l + 10 + be_at m (p + l + 8) \<le> length m \<Longrightarrow> False"
  shows "scanned m (Suc n) p k ep (rc, k, ep)"
proof -
  have "\<not> recs_at m p os e" if len: "length os = Suc n" for os e
  proof
    assume r: "recs_at m p os e"
    obtain y ys where y: "os = y # ys" using len by (cases os) auto
    from r [unfolded y] show False by (elim recs_at_ConsE) (rule assms(2), auto)
  qed
  then show ?thesis using assms(1)
    by (auto simp: scanned_def found_opt_def opts_def recs_at_Nil intro!: exI [of _ "[]"])
qed

lemma decode_query_additional_spec:
  assumes "12 \<le> length m"
  shows "p + sz = length m \<Longrightarrow> \<exists>r. decode_query_additional E m p sz n k ep = Some r \<and> scanned m n p k ep r"
proof (induction n arbitrary: p sz k ep)
  case 0
  then show ?case by (auto simp: scanned_def opts_def found_opt_def intro: recs_end)
next
  case (Suc n)
  let ?f = "fresh E 0 DNSNAMEBUFSIZE"
  have fl: "DNSNAMEBUFSIZE \<le> length ?f" by (simp add: fresh_def)
  let ?ok = "\<exists>ls h n. name_at m p ls h n \<and> h \<le> 255 \<and> n \<le> sz \<and> length (enc ls) \<le> DNSNAMEBUFSIZE"
  obtain rc p1 sz1 b len where d: "decompress_name m p sz ?f = Some (rc, p1, sz1, b, len)" and
    c: "if ?ok
     then rc = RC_OK \<and> (\<exists>ls h n. name_at m p ls h n \<and> wire_name ls \<and> n \<le> sz \<and>
            p1 = p + n \<and> sz1 = sz - n \<and> len = Some (length (enc ls)) \<and>
            b = enc ls @ drop (length (enc ls)) ?f)
     else rc \<in> {RC_FORMAT, RC_TRUNC} \<and> p1 = p \<and> sz1 = sz \<and> len = None"
    using decompress_name_spec [OF fl, of m p sz] by blast
  show ?case
  proof (cases ?ok)
    case False
    have rc: "rc \<in> {RC_TRUNC, RC_FORMAT}" using c unfolding if_not_P [OF False] by blast
    have "scanned m (Suc n) p k ep (rc, k, ep)"
    proof (rule scanned_stop [OF rc])
      fix ls h l
      assume "name_at m p ls h l" "h \<le> 255" "length (enc ls) \<le> DNSNAMEBUFSIZE" "p + l + 10 + be_at m (p + l + 8) \<le> length m"
      moreover from this(4) have "l \<le> sz" using Suc.prems by simp
      ultimately show False using False by blast
    qed
    then show ?thesis using d rc by auto
  next
    case True
    then obtain ls h l where k: "rc = RC_OK" "name_at m p ls h l" "wire_name ls" "l \<le> sz" "p1 = p + l" "sz1 = sz - l"
      using c unfolding if_P [OF True] by blast
    obtain ls' h' l' where k': "name_at m p ls' h' l'" "h' \<le> 255" using True by blast
    have h: "h \<le> 255" using name_at_unique [OF k(2) k'(1)] k'(2) by simp
    have len: "length (enc ls) \<le> DNSNAMEBUFSIZE" using k(3) by (simp add: wire_name_def)
    have e1: "p1 + sz1 = length m" using k(4-6) Suc.prems by simp
    note uniq = name_at_unique [OF k(2)]
    show ?thesis
    proof (cases "sz1 < 10")
      case True
      have "scanned m (Suc n) p k ep (RC_TRUNC, k, ep)"
        by (rule scanned_stop) (use uniq True e1 k(5) in \<open>force\<close>)+
      then show ?thesis using d True k(1) by simp
    next
      case False
      have g: "get16 m p1 = Some (be_at m p1)" "get16 m (p1 + 2) = Some (be_at m (p1 + 2))"
        "get16 m (p1 + 8) = Some (be_at m (p1 + 8))" "rd m (p1 + 4) = Some (m ! (p1 + 4))"
        "rd m (p1 + 5) = Some (m ! (p1 + 5))" "rd m (p1 + 6) = Some (m ! (p1 + 6))"
        "hdr_rcode m = Some (m ! 3 AND 0xf)"
        using False e1 assms by (simp_all add: get16_at rd_nth hdr_rcode_def)
      show ?thesis
      proof (cases "sz1 - 10 < be_at m (p1 + 8)")
        case True
        have "scanned m (Suc n) p k ep (RC_TRUNC, k, ep)"
          by (rule scanned_stop) (use uniq True e1 k(5) in \<open>force\<close>)+
        then show ?thesis using d True False k(1) g by simp
      next
        case False
        let ?k = "if be_at m p1 = 41 then k + 1 else k"
        let ?ep = "if be_at m p1 = 41 \<and> k = 0 then opt_info m p1 else ep"
        let ?q = "p1 + 10 + be_at m (p1 + 8)"
        have "?q + (sz1 - 10 - be_at m (p1 + 8)) = length m" using False e1 \<open>\<not> sz1 < 10\<close> by simp
        from Suc.IH [OF this, of ?k ?ep] obtain r where r:
          "decode_query_additional E m ?q (sz1 - 10 - be_at m (p1 + 8)) n ?k ?ep = Some r" "scanned m n ?q ?k ?ep r" by blast
        have "decode_query_additional E m p sz (Suc n) k ep = Some r"
          using d k(1) \<open>\<not> sz1 < 10\<close> g False r(1)
          by (cases "be_at m p1 = 41"; cases "k = 0") (simp_all add: opt_info_def)
        moreover have "scanned m (Suc n) p k ep r"
          by (rule scanned_more [OF r(2) k(2) h len k(5)]) (use False e1 \<open>\<not> sz1 < 10\<close> in simp_all)
        ultimately show ?thesis by blast
      qed
    qed
  qed
qed

subsection \<open>Replies\<close>

lemma hdr_at:
  assumes "12 \<le> length m"
  shows "hdr_qr m = Some (bit (m ! 2) 7)" "hdr_opcode m = Some (drop_bit 3 (m ! 2) AND 0xf)"
    "hdr_tc m = Some (bit (m ! 2) 1)" "hdr_z m = Some (bit (m ! 3) 6)" "hdr_rcode m = Some (m ! 3 AND 0xf)"
  using assms by (simp_all add: hdr_qr_def hdr_opcode_def hdr_tc_def hdr_z_def hdr_rcode_def rd_nth)

lemma check_header_eq:
  "check_header m =
     Some (if length m < 2 then Inl None
       else if length m < 12 then Inl (Some RC_FORMAT)
       else if bit (m ! 2) 7 then Inl None
       else if drop_bit 3 (m ! 2) AND 0xf \<noteq> 0 then Inl (Some RC_NOTSUPP)
       else if bit (m ! 3) 6 then Inl (Some RC_FORMAT)
       else if m ! 3 AND 0xf \<noteq> 0 then Inl None
       else if be_at m 6 \<noteq> 0 \<or> be_at m 8 \<noteq> 0 then Inl (Some RC_FORMAT)
       else Inr ())"
  by (simp add: check_header_def hdr_at get16_at)

lemma decode_message_ok:
  assumes "12 \<le> length m"
  shows "\<exists>r s'. decode_message E m s = Some (r, s') \<and> keeps s s' \<and>
    (\<forall>ql ed. r = Inr (ql, ed) \<longrightarrow> list_all qe_ok ql) \<and>
    (no_fail (an_cache s) \<longrightarrow> r \<noteq> Inl RC_SERVFAIL)"
proof -
  obtain rc p sz ql s' where d: "decode_query E m s = Some (rc, p, sz, ql, s')"
    "decoded m (be_at m 4) 12 [] (rc, p, sz, ql, s')" "keeps s s'" "p + sz = length m"
    "no_fail (an_cache s) \<longrightarrow> rc \<noteq> RC_SERVFAIL"
    using decode_query_spec [OF assms] by blast
  obtain rc2 k ep where a: "decode_query_additional E m p sz (be_at m 10) 0 no_edns = Some (rc2, k, ep)"
    using decode_query_additional_spec [OF assms d(4)] by (metis prod_cases3)
  note q = decoded_names [OF d(2)]
  have run: "decode_message E m s =
     (if rc \<noteq> RC_OK \<and> \<not> (rc = RC_TRUNC \<and> bit (m ! 2) 1 \<and> ql \<noteq> [])
       then Some (Inl (if rc = RC_TRUNC then RC_FORMAT else rc), s')
       else if be_at m 10 = 0 then Some (Inr (ql, None), s')
       else if rc = RC_TRUNC then Some (Inl RC_FORMAT, s')
       else Some (if \<not> (rc2 = RC_OK \<or> (rc2 = RC_TRUNC \<and> bit (m ! 2) 1)) then Inl RC_FORMAT
           else if k = 0 then Inr (ql, None)
           else if ed_version ep \<noteq> 0 then Inl RC_BADVERS
           else if ed_rcode ep \<noteq> 0 then Inl RC_FORMAT
           else Inr (ql, Some ep), s'))"
    using d(1) a hdr_at [OF assms] assms by (simp add: decode_message_def get16_at)
  show ?thesis unfolding run using q d(3,5) by auto
qed

text \<open>A reply goes to the asker and is a response; unless its size is limited, it is laid out as its
  header announces.\<close>

definition reply_bytes :: "reply \<Rightarrow> byte list option" where
  "reply_bytes rp = map_option (take (rp_len rp)) (rp_msg rp)"

definition well_laid :: "byte list \<Rightarrow> bool" where
  "well_laid m = (\<exists>q a n r. hdr_counts m q a n r \<and> laid m q (a + n + r))"

definition reply_ok :: "byte list \<Rightarrow> reply \<Rightarrow> bool" where
  "reply_ok m rp = (\<forall>b. rp_msg rp = Some b \<longrightarrow> 12 \<le> rp_len rp \<and> rp_len rp \<le> length b \<and>
     take 2 b = take 2 m \<and> bit (b ! 2) 7 \<and> (rp_udp rp = None \<longrightarrow> well_laid (take (rp_len rp) b)))"

lemma body_ok_laid: "body_ok s \<Longrightarrow> 12 \<le> length (used s) \<Longrightarrow> well_laid (used s)"
  unfolding body_ok_def well_laid_def using hdrs_used [of s] by blast

lemma inv_reply:
  assumes "ans_inv h s" "aim_id h = take 2 m" "u = None \<longrightarrow> aim_full h"
  shows "reply_ok m \<lparr> rp_msg = Some (an_buf s), rp_len = an_sz s, rp_udp = u, rp_rcode = rc \<rparr>"
proof -
  have w: "12 \<le> an_sz s" "an_sz s \<le> length (an_buf s)" using ans_inv_wf [OF assms(1)] by (simp_all add: msg_wf_def)
  have "take 2 (an_buf s) = take 2 (used s)" "an_buf s ! 2 = used s ! 2" using w by (simp_all add: used_def min_def)
  moreover have "well_laid (take (an_sz s) (an_buf s))" if "u = None"
    using body_ok_laid ans_inv_body [OF assms(1)] assms(3) that ans_inv_used [OF assms(1)]
    unfolding used_def [symmetric] by blast
  ultimately show ?thesis using assms(1,2) w by (simp add: reply_ok_def ans_inv_def)
qed

lemma add_opt_room:
  assumes "add_opt_pseudo_rr E n rc v z s = Some (ok, s')" "2 + an_sz s + 11 \<le> an_alloc s"
  shows ok
proof -
  have "grow_ans E (2 + an_sz s + 11) s = (True, s)" using assms(2) by (simp add: grow_ans_def)
  then show ?thesis using assms(1) by (auto simp: add_opt_pseudo_rr_def split: bind_splits)
qed

lemma error_reply_ok:
  assumes "store_ok (an_cache s)" "2 \<le> length m"
  shows "\<exists>rp s'. error_reply E m res udp s = Some (rp, s') \<and> store_ok (an_cache s') \<and>
    (no_fail (an_cache s) \<longrightarrow> no_fail (an_cache s') \<and> rp_msg rp \<noteq> None) \<and> reply_ok m rp \<and>
    rp_udp rp = udp \<and> rp_rcode rp = Some res"
proof -
  obtain ok s1 where mk: "an_malloc s = (ok, s1)" by (cases "an_malloc s")
  note ms = an_malloc_spec [OF mk]
  have k1: "store_ok (an_cache s1)" "no_fail (an_cache s) \<longrightarrow> no_fail (an_cache s1)"
    using keeps_store [OF ms(1) assms(1)] keepsD [OF ms(1)] by blast+
  show ?thesis
  proof (cases ok)
    case False
    then show ?thesis using mk k1 ms(2) by (auto simp: error_reply_def reply_ok_def)
  next
    case True
    obtain op where op: "(if 3 \<le> length m then hdr_opcode m else Some 0) = Some op"
      using that by (cases "3 \<le> length m") (simp_all add: hdr_opcode_def rd_nth)
    let ?a = "14 + (if res \<ge> 16 then 11 else 0) :: nat"
    let ?h = "reply_header (take 2 m) op False res"
    let ?f = "fresh E 0 (?a - 2)"
    let ?s0 = "s1\<lparr> an_cb := [], an_sva := [], an_ar := [] \<rparr>"
    let ?s = "s1\<lparr> an_buf := splice ?f 0 ?h, an_sz := 12, an_alloc := ?a, an_cb := [], an_sva := [], an_ar := [] \<rparr>"
    let ?aim = "\<lparr> aim_id = take 2 m, aim_pre = [], aim_full = True \<rparr>"
    have l2: "length (take 2 m) = 2" using assms(2) by simp
    note rp = reply_header_props [OF l2, of op False res]
    have fl: "length ?f = ?a - 2" by (simp add: fresh_def)
    have w: "wrn ?f 0 ?h = Some (splice ?f 0 ?h)" using rp(1) fl by (simp add: wrn_splice)
    have i: "ans_inv ?aim ?s"
      by (rule fresh_inv [where s = ?s0 and f = ?f and a = ?a and op = op and rdes = False and rc = res])
        (use k1(1) l2 fl in simp_all)
    obtain s2 where 2: "res \<ge> 16 \<longrightarrow> (\<exists>ok2. add_opt_pseudo_rr E (ev_udpbufsize E) res 0 0 ?s = Some (ok2, s2))" "\<not> res \<ge> 16 \<longrightarrow> s2 = ?s"
      "no_fail (an_cache ?s) \<longrightarrow> no_fail (an_cache s2)" "ans_inv ?aim s2"
    proof (cases "res \<ge> 16")
      case True
      then have rm: "2 + an_sz ?s + 11 \<le> an_alloc ?s" by simp
      obtain ok2 s2 where o: "add_opt_pseudo_rr E (ev_udpbufsize E) res 0 0 ?s = Some (ok2, s2)" "store_ok (an_cache s2)"
        "no_fail (an_cache ?s) \<longrightarrow> no_fail (an_cache s2)" "ok2 \<longrightarrow> ans_inv ?aim s2"
        using add_opt_ok [OF i] by (rule step_okE)
      have ok2 by (rule add_opt_room [OF o(1) rm])
      then show thesis using o True by (intro that) auto
    next
      case False
      then show thesis using i by (intro that) simp_all
    qed
    have "error_reply E m res udp s = Some (\<lparr> rp_msg = Some (an_buf s2), rp_len = an_sz s2, rp_udp = udp, rp_rcode = Some res \<rparr>, s2)"
      using mk True assms(2) op w 2(1,2)
      by (cases "res \<ge> 16") (auto simp: error_reply_def mk_error_reply_def rdn_def Let_def)
    moreover have "reply_ok m \<lparr> rp_msg = Some (an_buf s2), rp_len = an_sz s2, rp_udp = udp, rp_rcode = Some res \<rparr>"
      by (rule inv_reply [OF 2(4)]) simp_all
    ultimately show ?thesis using ans_inv_store [OF 2(4)] 2(3) k1(2) by simp
  qed
qed

text \<open>Every query is processed; only messages that are to be discarded get no reply, as long as there is
  memory. A reply that is not an error starts with the questions of the query.\<close>

definition accepted :: "aenv \<Rightarrow> byte list \<Rightarrow> ans \<Rightarrow> queryel list \<Rightarrow> bool" where
  "accepted E m s ql = (check_header m = Some (Inr ()) \<and> ql \<noteq> [] \<and>
     (\<exists>ed s1. decode_message E m s = Some (Inr (ql, ed), s1)))"

lemma process_query_ok:
  assumes "env_ok E" "store_ok (an_cache s)"
  shows "\<exists>rp s'. process_query E m udp s = Some (rp, s') \<and> store_ok (an_cache s') \<and> reply_ok m rp \<and>
    (no_fail (an_cache s) \<longrightarrow> no_fail (an_cache s') \<and>
       (rp_msg rp = None \<longleftrightarrow> check_header m = Some (Inl None))) \<and>
    (\<forall>ql b. accepted E m s ql \<longrightarrow> rp_rcode rp \<noteq> Some RC_SERVFAIL \<longrightarrow> reply_bytes rp = Some b \<longrightarrow>
       (\<exists>e. asked b 12 ql e))"
proof -
  let ?goal = "\<lambda>r. \<exists>rp s'. r = Some (rp, s') \<and> store_ok (an_cache s') \<and> reply_ok m rp \<and>
    (no_fail (an_cache s) \<longrightarrow> no_fail (an_cache s') \<and> rp_msg rp \<noteq> None) \<and>
    (\<forall>ql b. accepted E m s ql \<longrightarrow> rp_rcode rp \<noteq> Some RC_SERVFAIL \<longrightarrow> reply_bytes rp = Some b \<longrightarrow>
       (\<exists>e. asked b 12 ql e))"
  have err: "?goal (error_reply E m res udp' s1)"
    if st: "store_ok (an_cache s1)" "2 \<le> length m" "no_fail (an_cache s) \<longrightarrow> no_fail (an_cache s1)"
      "res = RC_SERVFAIL \<or> (\<forall>ql. \<not> accepted E m s ql)" for res udp' s1
    using error_reply_ok [OF st(1,2), of E res udp'] st(3,4) by (metis (no_types, lifting))
  show ?thesis
  proof (cases "the (check_header m)")
    case (Inl x)
    then have c: "check_header m = Some (Inl x)" by (simp add: check_header_eq)
    have na: "\<forall>ql. \<not> accepted E m s ql" using c by (simp add: accepted_def)
    show ?thesis
    proof (cases x)
      case None
      then show ?thesis using c assms(2) by (simp add: process_query_def reply_ok_def reply_bytes_def)
    next
      case (Some res)
      then have "2 \<le> length m" using c by (auto simp: check_header_eq split: if_splits)
      from err [OF assms(2) this, of res udp] na show ?thesis using c Some by (auto simp: process_query_def)
    qed
  next
    case (Inr x)
    then have c: "check_header m = Some (Inr x)" by (simp add: check_header_eq)
    then have l: "12 \<le> length m" by (auto simp: check_header_eq split: if_splits)
    then have l2: "2 \<le> length m" by simp
    obtain r s1 where 1: "decode_message E m s = Some (r, s1)" "keeps s s1"
      "\<forall>ql ed. r = Inr (ql, ed) \<longrightarrow> list_all qe_ok ql" using decode_message_ok [OF l] by blast
    have k1: "store_ok (an_cache s1)" "no_fail (an_cache s) \<longrightarrow> no_fail (an_cache s1)"
      using keeps_store [OF 1(2) assms(2)] keepsD [OF 1(2)] by blast+
    have "?goal (process_query E m udp s)"
    proof (cases r)
      case (Inl res)
      then have "\<forall>ql. \<not> accepted E m s ql" using 1(1) by (simp add: accepted_def)
      from err [OF k1(1) l2 k1(2), of res udp] this show ?thesis using c 1(1) Inl by (simp add: process_query_def)
    next
      case (Inr p)
      obtain ql ed where p: "p = (ql, ed)" by (cases p)
      let ?u = "udp_limit E ed udp"
      have un: "accepted E m s ql' \<longrightarrow> ql' = ql \<and> ql \<noteq> []" for ql' using 1(1) Inr p by (auto simp: accepted_def)
      show ?thesis
      proof (cases "ql = []")
        case True
        then have "\<forall>ql. \<not> accepted E m s ql" using un by blast
        from err [OF k1(1) l2 k1(2), of RC_FORMAT ?u] this show ?thesis using c 1(1) Inr p True by (simp add: process_query_def)
      next
        case False
        have "list_all qe_ok ql" using 1(3) Inr p by blast
        then obtain ok s2 where 2: "compose_answer E ql m (ed \<noteq> None) ?u s1 = Some (ok, s2)" "store_ok (an_cache s2)"
          "no_fail (an_cache s1) \<longrightarrow> no_fail (an_cache s2)" "ok \<longrightarrow> answered m ql ?u s2"
          using compose_answer_ok [OF assms(1) k1(1) l, of ql ?u "ed \<noteq> None"] by (metis doesE)
        show ?thesis
        proof (cases ok)
          case True
          let ?rp = "\<lparr> rp_msg = Some (an_buf s2), rp_len = an_sz s2, rp_udp = ?u, rp_rcode = Some (an_rcode s2) \<rparr>"
          have i: "ans_inv \<lparr> aim_id = take 2 m, aim_pre = [], aim_full = (?u = None) \<rparr> s2" "\<exists>e. asked (used s2) 12 ql e"
            using 2(4) True by (simp_all add: answered_def)
          have "reply_ok m ?rp" by (rule inv_reply [OF i(1)]) simp_all
          moreover have "reply_bytes ?rp = Some (used s2)" by (simp add: reply_bytes_def used_def)
          moreover have "process_query E m udp s = Some (?rp, s2)" using c 1(1) Inr p False 2(1) True by (simp add: process_query_def)
          ultimately show ?thesis using 2(2,3) k1(2) i(2) un by auto
        next
          case fail: False
          have "no_fail (an_cache s) \<longrightarrow> no_fail (an_cache s2)" using k1(2) 2(3) by blast
          from err [OF 2(2) l2 this, of RC_SERVFAIL ?u] show ?thesis using c 1(1) Inr p False 2(1) fail
            by (simp add: process_query_def)
        qed
      qed
    qed
    then show ?thesis using c by auto
  qed
qed

end
