(* ===== verification/Pd_AnswerProps.thy ===== *)
theory Pd_AnswerProps
  imports Pd_QuerySpec Pd_CacheProps
begin

text \<open>
  The properties of answering queries, with the environment and state on which the witnesses evaluate
  them: a resolver that always fails, an empty cache and memory that is never exhausted.
\<close>

subsection \<open>A concrete environment\<close>

definition dead_env :: aenv where
  "dead_env = \<lparr> ev_fill = \<lambda>_. 0, ev_rnd_recs = False, ev_udpbufsize = 1024, ev_others = id,
     ev_resolve = \<lambda>_ _ _ _ \<sigma>. (RC_SERVFAIL, None, cundef, \<sigma>) \<rparr>"

definition idle :: ans where
  "idle = \<lparr> an_buf = [], an_sz = 0, an_alloc = 2, an_cb = [], an_sva = [], an_ar = [], an_aa = False,
     an_rcode = 0, an_cache = init_cache [], an_random = [], an_clock = [] \<rparr>"

lemma dead_env_ok: "env_ok dead_env"
  unfolding env_ok_def by (simp add: dead_env_def)

lemma idle_ok: "store_ok (an_cache idle)" "no_fail (an_cache idle)"
  using init_cache_inv init_facts(1,4) by (simp_all add: idle_def store_ok_def)

text \<open>The query for the address of \<open>a.bc\<close>, which the witnesses use.\<close>

definition query_abc :: "byte list" where
  "query_abc = [0xab, 0xcd, 1, 0, 0, 1, 0, 0, 0, 0, 0, 0, 1, 97, 2, 98, 99, 0, 0, 1, 0, 1]"

text \<open>A message of a header only.\<close>

definition header_msg :: ans where
  "header_msg = idle\<lparr> an_buf := replicate 254 0, an_sz := 12, an_alloc := 256 \<rparr>"

lemma header_msg_ok: "msg_wf header_msg" "no_fail (an_cache header_msg)" "cb_for (hdrs header_msg) header_msg"
proof -
  have "names_ok []" by (auto simp: names_ok_def cb_mem_def)
  then show "msg_wf header_msg" by (simp add: msg_wf_def header_msg_def idle_def del: replicate.simps)
  show "no_fail (an_cache header_msg)" using idle_ok(2) by (simp add: header_msg_def)
  have "hdrs header_msg = {h. length h = 12}"
    by (simp add: hdrs_def used_def header_msg_def)
  then show "cb_for (hdrs header_msg) header_msg"
    by (auto simp: cb_for_def cb_mem_def cb_ok_def header_msg_def idle_def intro!: exI [of _ "[]"])
qed

subsection \<open>Whole queries\<close>

text \<open>
  C1. \<open>process_query\<close> handles every message, whatever it contains and whatever allocations fail, as
  long as the data in the cache have the layout of their types and the resolver keeps it so: it never
  fails an assertion, leaves its buffers or loops. The cache stays in order. A reply carries the
  identifier of the query and the response bit, and has at least a header; when its size is not
  limited, the header counts exactly the questions and records it is laid out in, every name of which
  can be decompressed. An accepted query is repeated in the question section of the answer. With memory,
  only the messages that must be discarded get no reply.
\<close>
theorem process_query_safe:
  assumes "env_ok E" "store_ok (an_cache s)"
  shows "\<exists>rp s'. process_query E m udp s = Some (rp, s') \<and> store_ok (an_cache s') \<and> reply_ok m rp \<and>
    (no_fail (an_cache s) \<longrightarrow> no_fail (an_cache s') \<and>
       (rp_msg rp = None \<longleftrightarrow> check_header m = Some (Inl None))) \<and>
    (\<forall>ql b. accepted E m s ql \<longrightarrow> rp_rcode rp \<noteq> Some RC_SERVFAIL \<longrightarrow> reply_bytes rp = Some b \<longrightarrow>
       (\<exists>e. asked b 12 ql e))"
  using assms by (rule process_query_ok)

theorem process_query_safe_witness:
  "\<exists>rp s' b. process_query dead_env query_abc None idle = Some (rp, s') \<and> rp_msg rp = Some b \<and>
     take 2 b = [0xab, 0xcd] \<and> bit (b ! 2) 7 \<and> (rp_udp rp = None \<longrightarrow> well_laid (take (rp_len rp) b))"
proof -
  have c: "check_header query_abc \<noteq> Some (Inl None)"
    by (simp add: check_header_eq query_abc_def be_at_def)
  obtain rp s' where p: "process_query dead_env query_abc None idle = Some (rp, s')" "reply_ok query_abc rp"
    "rp_msg rp \<noteq> None"
    using process_query_safe [OF dead_env_ok idle_ok(1), of query_abc None] idle_ok(2) c by blast
  then show ?thesis by (auto simp: reply_ok_def query_abc_def numeral_2_eq_2)
qed

text \<open>
  C19. \<open>compose_answer\<close> preserves the typing of its state: from questions with well-formed names and
  a cache with well-typed data it ends with \<open>NULL\<close>, or with a message block of the allocated size whose
  list of compressed names, list of added records and list of references are all of the form the
  functions that read them expect, and whose question section repeats the questions.
\<close>
theorem compose_answer_typed:
  assumes "env_ok E" "store_ok (an_cache s)" "12 \<le> length q" "list_all qe_ok ql"
  shows "does (answered q ql udp) s (compose_answer E ql q edns udp s)"
  using assms by (rule compose_answer_ok)

theorem compose_answer_typed_witness:
  "\<exists>ok s'. compose_answer dead_env [\<lparr> q_type = T_A, q_class = C_IN, q_name = [1, 97, 0] \<rparr>] query_abc False None idle = Some (ok, s') \<and>
     (ok \<longrightarrow> msg_wf s')"
proof -
  let ?ql = "[\<lparr> q_type = T_A, q_class = C_IN, q_name = [1, 97, 0] \<rparr>]"
  have "wire_name [[97]]" "enc [[97]] = [1, 97, 0]" by (simp_all add: wire_name_def wire_label_def)
  then have "list_all qe_ok ?ql" unfolding qe_ok_def by (auto intro!: exI [of _ "[[97]]"])
  from compose_answer_typed [OF dead_env_ok idle_ok(1) _ this, of query_abc None False] show ?thesis
    by (auto simp: query_abc_def answered_def ans_inv_def elim!: doesE)
qed

text \<open>Which messages are refused because of their header, by its bytes: the opcode, the bits QR and Z, the
  return code and the counts of answer and authority records.\<close>

definition opcode_of :: "byte list \<Rightarrow> byte" where
  "opcode_of m = drop_bit 3 (m ! 2) AND 0xf"

definition unwanted :: "byte list \<Rightarrow> bool" where
  "unwanted m = (length m < 2 \<or>
     12 \<le> length m \<and> (bit (m ! 2) 7 \<or> opcode_of m = 0 \<and> \<not> bit (m ! 3) 6 \<and> m ! 3 AND 0xf \<noteq> 0))"

definition malformed :: "byte list \<Rightarrow> bool" where
  "malformed m = (2 \<le> length m \<and> length m < 12 \<or>
     12 \<le> length m \<and> \<not> bit (m ! 2) 7 \<and> opcode_of m = 0 \<and>
       (bit (m ! 3) 6 \<or> m ! 3 AND 0xf = 0 \<and> (be_at m 6 \<noteq> 0 \<or> be_at m 8 \<noteq> 0)))"

definition unsupported_op :: "byte list \<Rightarrow> bool" where
  "unsupported_op m = (12 \<le> length m \<and> \<not> bit (m ! 2) 7 \<and> opcode_of m \<noteq> 0)"

lemma check_header_refused:
  "check_header m = Some (Inl r) \<longleftrightarrow>
    r = None \<and> unwanted m \<or> r = Some RC_FORMAT \<and> malformed m \<or> r = Some RC_NOTSUPP \<and> unsupported_op m"
  by (auto simp: check_header_eq unwanted_def malformed_def unsupported_op_def opcode_of_def split: if_splits)

lemma process_query_refused:
  assumes "no_fail (an_cache s)" "check_header m = Some (Inl (Some res))"
  shows "\<exists>rp s'. process_query E m udp s = Some (rp, s') \<and> rp_udp rp = udp \<and> rp_rcode rp = Some res \<and>
    reply_bytes rp = Some (reply_header (take 2 m) (if length m < 3 then 0 else opcode_of m) False res)"
proof -
  have l: "2 \<le> length m" "res \<in> {RC_FORMAT, RC_NOTSUPP}" using assms(2) by (auto simp: check_header_eq split: if_splits)
  obtain ok s1 where mk: "an_malloc s = (ok, s1)" by (cases "an_malloc s")
  have ok: ok using an_malloc_spec(2) [OF mk] assms(1) by blast
  let ?op = "if length m < 3 then 0 else opcode_of m"
  let ?h = "reply_header (take 2 m) ?op False res"
  have op: "(if length m \<ge> 3 then hdr_opcode m else Some 0) = Some ?op" by (simp add: hdr_opcode_def rd_nth opcode_of_def)
  have lh: "length ?h = 12" using reply_header_props(1) l(1) by simp
  have w: "wrn (fresh E 0 12) 0 ?h = Some ?h" using lh by (simp add: wrn_splice splice_def fresh_def)
  have "\<not> 16 \<le> res" using l(2) by auto
  moreover have "rdn m 0 2 = Some (take 2 m)" using l(1) by (simp add: rdn_def)
  ultimately have "\<exists>s'. error_reply E m res udp s =
      Some (\<lparr> rp_msg = Some ?h, rp_len = 12, rp_udp = udp, rp_rcode = Some res \<rparr>, s')"
    using mk ok op w by (simp add: error_reply_def mk_error_reply_def)
  then show ?thesis using assms(2) lh by (auto simp: process_query_def reply_bytes_def)
qed

text \<open>
  C21. With memory, \<open>process_query\<close> sends no reply exactly to the messages shorter than an identifier, to
  responses, and to ordinary queries with a return code; nothing changes then. A message shorter
  than a header, and an ordinary query with the reserved bit or with answer or authority records, gets
  the reply FORMAT; a query with another opcode gets NOTSUPP. These replies have exactly twelve bytes: the
  identifier, the response bit and the opcode of the query as far as it has one, recursion
  available, the return code, and no sections.
\<close>
theorem process_query_errors:
  assumes "env_ok E" "store_ok (an_cache s)" "no_fail (an_cache s)"
  shows "\<exists>rp s'. process_query E m udp s = Some (rp, s') \<and> (reply_bytes rp = None \<longleftrightarrow> unwanted m) \<and> (unwanted m \<longrightarrow> s' = s) \<and>
    (malformed m \<longrightarrow> rp_rcode rp = Some RC_FORMAT \<and> rp_udp rp = udp \<and>
       reply_bytes rp = Some (reply_header (take 2 m) (if length m < 3 then 0 else opcode_of m) False RC_FORMAT)) \<and>
    (unsupported_op m \<longrightarrow> rp_rcode rp = Some RC_NOTSUPP \<and> rp_udp rp = udp \<and>
       reply_bytes rp = Some (reply_header (take 2 m) (opcode_of m) False RC_NOTSUPP))"
proof -
  obtain rp s' where p: "process_query E m udp s = Some (rp, s')" "no_fail (an_cache s) \<longrightarrow> no_fail (an_cache s') \<and>
      (rp_msg rp = None \<longleftrightarrow> check_header m = Some (Inl None))"
    using process_query_ok [OF assms(1,2), of m udp] by (elim exE conjE) (rule that)
  have "reply_bytes rp = None \<longleftrightarrow> unwanted m" using p(2) assms(3) check_header_refused [of m None] by (simp add: reply_bytes_def)
  moreover have "s' = s" if "unwanted m"
  proof -
    have "check_header m = Some (Inl None)" using that check_header_refused [of m None] by simp
    then show ?thesis using p(1) by (simp add: process_query_def)
  qed
  moreover have "rp_rcode rp = Some res \<and> rp_udp rp = udp \<and>
      reply_bytes rp = Some (reply_header (take 2 m) (if length m < 3 then 0 else opcode_of m) False res)"
    if "check_header m = Some (Inl (Some res))" for res
    using process_query_refused [OF assms(3) that, of E udp] p(1) by auto
  then have "malformed m \<longrightarrow> rp_rcode rp = Some RC_FORMAT \<and> rp_udp rp = udp \<and>
       reply_bytes rp = Some (reply_header (take 2 m) (if length m < 3 then 0 else opcode_of m) False RC_FORMAT)"
    and "unsupported_op m \<longrightarrow> rp_rcode rp = Some RC_NOTSUPP \<and> rp_udp rp = udp \<and>
       reply_bytes rp = Some (reply_header (take 2 m) (opcode_of m) False RC_NOTSUPP)"
    using check_header_refused [of m] by (auto simp: unsupported_op_def)
  ultimately show ?thesis using p(1) by (intro exI [of _ rp] exI [of _ s'] conjI) simp_all
qed

theorem process_query_errors_witness:
  "\<exists>rp s'. process_query dead_env [0xab, 0xcd, 0x10] (Some 512) idle = Some (rp, s') \<and>
     reply_bytes rp = Some [0xab, 0xcd, 0x90, 0x81, 0, 0, 0, 0, 0, 0, 0, 0]"
proof -
  have "malformed [0xab, 0xcd, 0x10]" by (simp add: malformed_def)
  moreover have "reply_header (take 2 [0xab, 0xcd, 0x10])
      (if length [0xab, 0xcd, 0x10 :: byte] < 3 then 0 else opcode_of [0xab, 0xcd, 0x10]) False RC_FORMAT =
      [0xab, 0xcd, 0x90, 0x81, 0, 0, 0, 0, 0, 0, 0, 0]" by code_simp
  ultimately show ?thesis using process_query_errors [OF dead_env_ok idle_ok, of "[0xab, 0xcd, 0x10]" "Some 512"]
    by (metis (no_types, lifting))
qed

subsection \<open>Parts of a message\<close>

lemma add_rr_bytes:
  assumes "msg_wf s" "no_fail (an_cache s)" "cb_for (hdrs s) s" "wire_name ks" "layout tp ps" "list_all part_wf ps"
    "sect \<noteq> S_ADDITIONAL \<or> udp = None"
  shows "\<exists>s' n k. add_rr E (enc ks @ r) tp ttl (enc_parts ps) sect udp s = Some (True, s') \<and>
    msg_wf s' \<and> cb_for (hdrs s') s' \<and> an_sz s' = an_sz s + n + 10 + k \<and> k \<le> length (enc_parts ps) \<and>
    take 12 (used s') = bump (count_offs sect) (take 12 (used s)) \<and>
    take (an_sz s - 12) (drop 12 (used s')) = drop 12 (used s) \<and>
    nm_at (used s') (an_sz s) ks n \<and> take 10 (drop (an_sz s + n) (used s')) = rr_header tp ttl k \<and>
    parts_at (used s') (an_sz s + n + 10) ps (an_sz s')"
proof -
  obtain s' where a: "add_rr E (enc ks @ r) tp ttl (enc_parts ps) sect udp s = Some (True, s')" "msg_wf s'"
    "rr_added ks tp ttl ps sect s s'"
    using add_rr_spec [OF assms(1,4,5,6), of E r ttl sect udp] assms(2,7) by auto
  from a(3) obtain x y where r: "length y \<le> length (enc_parts ps)" "an_sz s' = an_sz s + length x + 10 + length y"
     "take 12 (used s') = bump (count_offs sect) (take 12 (used s))"
     "drop 12 (used s') = drop 12 (used s) @ x @ rr_header tp ttl (length y) @ y" and
     c: "cb_for (hdrs s') s'" "\<And>m. m \<in> hdrs s' \<Longrightarrow> nm_at m (an_sz s) ks (length x) \<and> parts_at m (an_sz s + length x + 10) ps (an_sz s')"
    using assms(3) unfolding rr_added_def by blast
  have l: "length (used s) = an_sz s" "12 \<le> an_sz s" "length (used s') = an_sz s'"
    using used_length [OF assms(1)] used_length [OF a(2)] assms(1) by (simp_all add: msg_wf_def)
  have u: "used s' \<in> hdrs s'" by (rule hdrs_used) (use l r(2) in simp)
  have "take (an_sz s - 12) (drop 12 (used s')) = drop 12 (used s)" unfolding r(4) using l(1) by simp
  moreover have "drop (an_sz s + length x) (used s') = drop (an_sz s + length x - 12) (drop 12 (used s'))" using l(2) by simp
  then have "take 10 (drop (an_sz s + length x) (used s')) = rr_header tp ttl (length y)" unfolding r(4) using l(1,2) by simp
  ultimately show ?thesis using a(1,2) r(1-3) c(1) c(2) [OF u] by blast
qed

text \<open>
  C6. \<open>add_rr\<close> appends one record: the bytes already there stay, the owner name can be decompressed
  at the old end of the message (up to case, whatever it was compressed against), type, class, TTL and
  length follow, every name inside the data can be decompressed at its place too, the message ends
  where the length says, and the counter of the section goes up by one. The list of names
  stays valid for the records to come.
\<close>
theorem add_rr_correct:
  assumes "msg_wf s" "no_fail (an_cache s)" "cb_for (hdrs s) s" "wire_name ks" "layout tp ps" "list_all part_wf ps"
    "sect \<noteq> S_ADDITIONAL \<or> udp = None"
  shows "\<exists>s' n k. add_rr E (enc ks @ r) tp ttl (enc_parts ps) sect udp s = Some (True, s') \<and>
    msg_wf s' \<and> cb_for (hdrs s') s' \<and> an_sz s' = an_sz s + n + 10 + k \<and> k \<le> length (enc_parts ps) \<and>
    take 12 (used s') = bump (count_offs sect) (take 12 (used s)) \<and>
    take (an_sz s - 12) (drop 12 (used s')) = drop 12 (used s) \<and>
    nm_at (used s') (an_sz s) ks n \<and> take 10 (drop (an_sz s + n) (used s')) = rr_header tp ttl k \<and>
    parts_at (used s') (an_sz s + n + 10) ps (an_sz s')"
  by (rule add_rr_bytes [OF assms])

theorem add_rr_correct_witness:
  "\<exists>s' n k. add_rr dead_env [1, 97, 0] T_MX 60 [0, 10, 1, 98, 1, 97, 0] S_ANSWER None header_msg = Some (True, s') \<and>
     nm_at (used s') 12 [[97]] n \<and> parts_at (used s') (12 + n + 10) [Raw [0, 10], Dom [[98], [97]]] (an_sz s')"
proof -
  have w: "wire_name [[97]]" "wire_name [[98], [97]]" by (simp_all add: wire_name_def wire_label_def)
  have "layout T_MX [Raw [0, 10], Dom [[98], [97]]]" by (simp add: layout_def)
  from add_rr_correct [OF header_msg_ok w(1) this, of S_ANSWER None dead_env "[]" 60] w(2) show ?thesis
    by (auto simp: header_msg_def)
qed

text \<open>
  C14. \<open>decode_query\<close> accepts a message exactly when its question section holds as many questions as
  the header says, each a name that can be decompressed to at most 256 bytes followed by type and class,
  and returns them in order with the place behind them. Any other message is reported as truncated or
  malformed; a partial list comes with the former only.
\<close>
theorem decode_query_correct:
  assumes "12 \<le> length m" "no_fail (an_cache s)"
  shows "\<exists>rc p sz q s'. decode_query E m s = Some (rc, p, sz, q, s') \<and>
    (rc = RC_OK \<longleftrightarrow> (\<exists>qs e. length qs = be_at m 4 \<and> quest_at m 12 qs e)) \<and>
    (rc = RC_OK \<longrightarrow> length q = be_at m 4 \<and> quest_at m 12 q p \<and> p + sz = length m) \<and>
    (rc \<noteq> RC_OK \<longrightarrow> rc = RC_FORMAT \<and> q = [] \<or> rc = RC_TRUNC \<and> length q < be_at m 4 \<and> (\<exists>e. quest_at m 12 q e))"
proof -
  obtain rc p sz q s' where d: "decode_query E m s = Some (rc, p, sz, q, s')"
     "decoded m (be_at m 4) 12 [] (rc, p, sz, q, s')" "p + sz = length m" "rc \<noteq> RC_SERVFAIL"
    using decode_query_spec [OF assms(1), of E s] assms(2) by blast
  from d(2-4) show ?thesis unfolding d(1) decoded_def by auto
qed

theorem decode_query_correct_witness:
  "\<exists>rc p sz q s'. decode_query dead_env query_abc idle = Some (rc, p, sz, q, s') \<and> rc = RC_OK \<and>
     length q = 1 \<and> quest_at query_abc 12 q p"
proof -
  let ?m = query_abc
  have 0: "name_at ?m 17 [] 0 1" by (rule name_end) (simp_all add: query_abc_def)
  have 1: "name_at ?m 14 [[98, 99]] 0 4"
    using name_lab [of "[98, 99]" 14 ?m "[]" 0 1] 0 by (simp add: wire_label_def query_abc_def numeral_eq_Suc)
  have "name_at ?m 12 [[97], [98, 99]] 0 6"
    using name_lab [of "[97]" 12 ?m "[[98, 99]]" 0 4] 1 by (simp add: wire_label_def query_abc_def numeral_eq_Suc)
  from quest_cons [OF this _ _ _ quest_end] have
    "quest_at ?m 12 [quest ?m 18 [[97], [98, 99]]] 22" by (simp add: query_abc_def)
  moreover have "be_at ?m 4 = 1" by (simp add: be_at_def query_abc_def)
  ultimately have "\<exists>qs e. length qs = be_at ?m 4 \<and> quest_at ?m 12 qs e" by (metis length_Cons list.size(3) One_nat_def)
  moreover have "12 \<le> length ?m" by (simp add: query_abc_def)
  ultimately show ?thesis using decode_query_correct [OF _ idle_ok(2), of ?m dead_env] \<open>be_at ?m 4 = 1\<close> by metis
qed

text \<open>
  \<open>decode_query_additional\<close> reads the records one after the other, skipping their data, and
  succeeds exactly when all of them are inside the message. It counts the OPT records and delivers the
  size, extended return code, version and DO bit of the first.
\<close>
theorem decode_query_additional_correct:
  assumes "12 \<le> length m" "p + sz = length m"
  shows "\<exists>rc k ep. decode_query_additional E m p sz n 0 no_edns = Some (rc, k, ep) \<and>
    (rc = RC_OK \<longleftrightarrow> (\<exists>os e. length os = n \<and> recs_at m p os e)) \<and> (rc \<noteq> RC_OK \<longrightarrow> rc \<in> {RC_TRUNC, RC_FORMAT}) \<and>
    (\<exists>os e. recs_at m p os e \<and> (rc = RC_OK \<longrightarrow> length os = n) \<and> k = length (opts m os) \<and>
       ep = (if opts m os = [] then no_edns else opt_info m (hd (opts m os))))"
proof -
  obtain rc k ep where d: "decode_query_additional E m p sz n 0 no_edns = Some (rc, k, ep)"
    "scanned m n p 0 no_edns (rc, k, ep)"
    using decode_query_additional_spec [OF assms] by (metis prod_cases3)
  then show ?thesis by (auto simp: scanned_def found_opt_def)
qed

theorem decode_query_additional_correct_witness:
  "\<exists>rc k ep. decode_query_additional dead_env (query_abc @ [0, 0, 41, 4, 0, 0, 0, 0x80, 0, 0, 0]) 22 11 1 0 no_edns = Some (rc, k, ep) \<and>
     rc = RC_OK"
proof -
  let ?m = "query_abc @ [0, 0, 41, 4, 0, 0, 0, 0x80, 0, 0, 0]"
  have "name_at ?m 22 [] 0 1" by (rule name_end) (simp_all add: query_abc_def)
  from recs_cons [OF this _ _ _ recs_end] have "recs_at ?m 22 [23] 33" by (simp add: query_abc_def be_at_def)
  then have "\<exists>os e. length os = 1 \<and> recs_at ?m 22 os e" by (metis length_Cons list.size(3) One_nat_def)
  moreover have "12 \<le> length ?m" "22 + 11 = length ?m" by (simp_all add: query_abc_def)
  ultimately show ?thesis using decode_query_additional_correct [of ?m 22 11 dead_env 1] by blast
qed

subsection \<open>Adding RR sets\<close>

text \<open>
  \<open>add_rrset\<close> adds every record of the set once, in the order they are stored: from the first
  on, or, with \<open>rnd_recs\<close>, from a random one on and wrapping over at the end, which is a rotation. The
  walk stops at the first record that cannot be added.
\<close>
theorem add_rrset_rotates:
  assumes "getrrset c tp = Some (Some rs)" "rs_rrs rs \<noteq> []"
  shows "add_rrset E rrn tp t c udp s =
    (if ev_rnd_recs E
     then each_rr (rrset_record E rrn tp t rs udp) (rotate (fst (an_rand s) mod length (rs_rrs rs)) (rs_rrs rs)) (snd (an_rand s))
     else each_rr (rrset_record E rrn tp t rs udp) (rs_rrs rs) s)"
proof (cases "ev_rnd_recs E")
  case True
  obtain k s1 where k: "an_rand s = (k, s1)" by (cases "an_rand s")
  have "rr_walk (rrset_record E rrn tp t rs udp) (rs_rrs rs) True (k mod length (rs_rrs rs)) (k mod length (rs_rrs rs)) s1 =
      each_rr (rrset_record E rrn tp t rs udp) (rotate (k mod length (rs_rrs rs)) (rs_rrs rs)) s1"
    by (rule rr_walk_eq) (use assms(2) in simp_all)
  then show ?thesis using assms True k by (simp add: add_rrset_def randrr_def)
next
  case False
  then show ?thesis using assms rr_walk_eq [of False 0 "rs_rrs rs"] by (simp add: add_rrset_def)
qed

definition two_addresses :: dns_cent where
  "two_addresses = \<lparr> ce_qname = [1, 97, 0], ce_cs = 0, ce_num = 1, ce_flags = 0,
     ce_body = RRBody (Some \<lparr> rs_lent = None, rs_ttl = 60, rs_ts = 0, rs_flags = 0,
       rs_rrs = [[1, 2, 3, 4], [5, 6, 7, 8]] \<rparr> # replicate 7 None) None, ce_ns = cundef, ce_soa = cundef \<rparr>"

theorem add_rrset_rotates_witness:
  "\<exists>rs. getrrset two_addresses T_A = Some (Some rs) \<and>
     add_rrset (dead_env\<lparr> ev_rnd_recs := True \<rparr>) [1, 97, 0] T_A 0 two_addresses None (idle\<lparr> an_random := [7] \<rparr>) =
     each_rr (rrset_record (dead_env\<lparr> ev_rnd_recs := True \<rparr>) [1, 97, 0] T_A 0 rs None) [[5, 6, 7, 8], [1, 2, 3, 4]] idle"
proof -
  let ?rs = "\<lparr> rs_lent = None, rs_ttl = 60, rs_ts = 0, rs_flags = 0, rs_rrs = [[1, 2, 3, 4], [5, 6, 7, 8]] \<rparr>"
  have g: "getrrset two_addresses T_A = Some (Some ?rs)"
    by (simp add: getrrset_def getrrset_eff_def two_addresses_def rr_body_def rd_def rrlkup_def rrlkuptab_def)
  have r: "an_rand (idle\<lparr> an_random := [7] \<rparr>) = (7, idle)" by (simp add: an_rand_def idle_def)
  note eq = add_rrset_rotates [OF g, of "dead_env\<lparr> ev_rnd_recs := True \<rparr>" "[1, 97, 0]" 0 None "idle\<lparr> an_random := [7] \<rparr>"]
  have "7 mod Suc (Suc 0) = Suc 0" by presburger
  then show ?thesis using g r eq by (intro exI [of _ ?rs]) simp
qed

text \<open>
  The TTL given out is never negative and never above the one stored. Except for local data it
  only falls as time goes by, by exactly the time since the set was stored, and does not fall below zero;
  a clock that was set back does not raise it.
\<close>
theorem ans_ttl_correct:
  assumes "0 \<le> rs_ttl rs"
  shows "0 \<le> ans_ttl rs t \<and> ans_ttl rs t \<le> rs_ttl rs \<and> (t \<le> t' \<longrightarrow> ans_ttl rs t' \<le> ans_ttl rs t) \<and>
    (if has (rs_flags rs) CF_LOCAL then ans_ttl rs t = rs_ttl rs
     else rs_ts rs \<le> t \<longrightarrow> ans_ttl rs t = max 0 (rs_ts rs + rs_ttl rs - t))"
  using assms by (simp add: ans_ttl_def Let_def max_def)

theorem ans_ttl_correct_witness:
  "ans_ttl \<lparr> rs_lent = None, rs_ttl = 60, rs_ts = 100, rs_flags = 0, rs_rrs = [] \<rparr> 130 = 30"
  using ans_ttl_correct [of "\<lparr> rs_lent = None, rs_ttl = 60, rs_ts = 100, rs_flags = 0, rs_rrs = [] \<rparr>" 130 130]
  by (simp add: has_def)

subsection \<open>Additional records and the size of a UDP reply\<close>

text \<open>A successful step leaves the message within the limit, or as long as it was.\<close>

definition fits_in :: "nat \<Rightarrow> nat \<Rightarrow> (bool \<times> ans) option \<Rightarrow> bool" where
  "fits_in u n r = (\<forall>s'. r = Some (True, s') \<longrightarrow> an_sz s' \<le> max n u)"

lemma fits_in_ret [simp]: "an_sz s \<le> max n u \<Longrightarrow> fits_in u n (Some (b, s))"
  by (simp add: fits_in_def)

lemma fits_in_then:
  assumes "fits_in u n r" "\<And>s. an_sz s \<le> max n u \<Longrightarrow> fits_in u n (k s)"
  shows "fits_in u n (and_then r k)"
  using assms by (auto simp: fits_in_def and_then_def bind_eq_Some_conv split: if_splits)

lemma add_rr_fits: "an_sz s \<le> max n u \<Longrightarrow> fits_in u n (add_rr E nm tp ttl d S_ADDITIONAL (Some u) s)"
  by (auto simp: fits_in_def add_rr_def and_then_def bind_eq_Some_conv split: if_splits option.splits)

lemma sva_add_sz: "sva_add nm tp d s = Some (b, s') \<Longrightarrow> an_sz s' = an_sz s"
  by (auto simp: sva_add_def an_malloc_def bind_eq_Some_conv split: if_splits prod.splits)

lemma sva_add_fits: "an_sz s \<le> max n u \<Longrightarrow> fits_in u n (sva_add nm tp d s)"
  by (auto simp: fits_in_def dest: sva_add_sz)

lemma add_additional_rr_fits:
  "an_sz s \<le> max n u \<Longrightarrow> fits_in u n (add_additional_rr E nm tp ttl d S_ADDITIONAL (Some u) s)"
  unfolding add_additional_rr_def
  by (cases "sva_member (an_sva s) nm tp d") (auto simp: fits_in_def [of _ _ None] intro!: fits_in_then add_rr_fits sva_add_fits)

lemma each_rr_fits:
  "\<lbrakk>\<And>d s. an_sz s \<le> max n u \<Longrightarrow> fits_in u n (f d s); an_sz s \<le> max n u\<rbrakk> \<Longrightarrow> fits_in u n (each_rr f ds s)"
  by (induction ds arbitrary: s) (auto intro!: fits_in_then)

lemma address_rrs_fits:
  assumes "an_sz s \<le> max n u"
  shows "fits_in u n (address_rrs E nm tp t q (Some u) s)"
proof (cases "\<exists>rs. q = Some rs \<and> rs_rrs rs \<noteq> []")
  case True
  then obtain rs where rs: "q = Some rs" "rs_rrs rs \<noteq> []" by blast
  obtain first s1 where f: "(if ev_rnd_recs E then randrr (rs_rrs rs) s else (0, s)) = (first, s1)"
    by (cases "if ev_rnd_recs E then randrr (rs_rrs rs) s else (0, s)")
  have "an_sz s1 = an_sz s" using randrr_ok(3) [OF f rs(2)] by auto
  then have "fits_in u n (each_rr (\<lambda>d. add_additional_rr E nm tp (word_of_int (ans_ttl rs t)) d S_ADDITIONAL (Some u))
      (rotate first (rs_rrs rs)) s1)"
    using assms by (intro each_rr_fits add_additional_rr_fits) simp_all
  then show ?thesis using rs f rr_walk_eq [OF randrr_ok(1,2) [OF f rs(2)]]
    by (simp add: address_rrs_def add_additional_rrs_def)
qed (use assms in \<open>auto simp: address_rrs_def split: option.split\<close>)

lemma ans_lookup_sz: "ans_lookup E nm s = Some (r, s') \<Longrightarrow> an_sz s' = an_sz s"
  by (auto simp: ans_lookup_def an_time_def bind_eq_Some_conv Let_def split: list.splits prod.splits)

lemma ans_free_sz: "ans_free c s = Some s' \<Longrightarrow> an_sz s' = an_sz s"
  by (auto simp: ans_free_def bind_eq_Some_conv)

lemma add_additional_a_fits:
  assumes "an_sz s \<le> max n u"
  shows "fits_in u n (add_additional_a E nm t (Some u) s)"
proof (cases "ans_lookup E nm s")
  case (Some p)
  obtain ae s1 where p: "p = (ae, s1)" by (cases p)
  have s1: "an_sz s1 \<le> max n u" using assms ans_lookup_sz Some p by simp
  have two: "fits_in u n (and_then (address_rrs E nm T_A t a (Some u) s1)
      (\<lambda>s. do { q \<leftarrow> GET_RRSMU c 7; address_rrs E nm T_AAAA t q (Some u) s }))" for a c
    by (cases "GET_RRSMU c 7") (auto simp: fits_in_def [of _ _ None] intro!: fits_in_then address_rrs_fits s1)
  show ?thesis
  proof (cases ae)
    case None
    then show ?thesis using Some p s1 by (simp add: add_additional_a_def)
  next
    case (Some c)
    then show ?thesis using \<open>ans_lookup E nm s = Some p\<close> p two [of _ c]
      by (auto simp: add_additional_a_def fits_in_def bind_eq_Some_conv dest!: ans_free_sz)
  qed
qed (simp add: add_additional_a_def fits_in_def)

lemma add_addresses_fits: "an_sz s \<le> max n u \<Longrightarrow> fits_in u n (add_addresses E t (Some u) ar s)"
proof (induction ar arbitrary: s)
  case (Cons re ar)
  then show ?case by (auto intro!: fits_in_then add_additional_a_fits)
qed simp

lemma put_bytes_sz: "put_bytes b s = Some s' \<Longrightarrow> an_sz s' = an_sz s + length b"
  by (auto simp: put_bytes_def bind_eq_Some_conv)

lemma grow_ans_sz: "grow_ans E n s = (ok, s') \<Longrightarrow> an_sz s' = an_sz s"
  by (auto simp: grow_ans_def an_malloc_def Let_def split: if_splits prod.splits)

lemma add_opt_sz: "add_opt_pseudo_rr E n rc v z s = Some (True, s') \<Longrightarrow> an_sz s' = an_sz s + sizeof_opt_pseudo_rr"
  by (auto simp: add_opt_pseudo_rr_def bind_eq_Some_conv Let_def split: if_splits prod.splits dest!: put_bytes_sz grow_ans_sz)

text \<open>
  C20. In a reply over UDP what \<open>add_sections\<close> puts into the additional section, the OPT record and the
  addresses, never makes the message longer than the limit (512 bytes, or what EDNS negotiated): if the
  sections before, to the end of the authority section, are longer or leave no room for an OPT record, nothing
  is added, and an address that would cross the limit is taken back. The OPT record that
  \<open>compose_answer\<close> adds after a name error does not come from here and is not checked against the limit.
\<close>
theorem add_sections_limit:
  assumes "add_sections E edns t (Some u) s = Some (True, s')"
  shows "\<exists>s1. add_authority E (Some u) (an_ar s) s = Some (True, s1) \<and> an_sz s' \<le> max (an_sz s1) u"
proof -
  obtain s1 where a: "add_authority E (Some u) (an_ar s) s = Some (True, s1)"
    "(if an_sz s1 + sizeof_opt_pseudo_rr > u then Some (True, s1)
      else and_then (if edns then add_opt_pseudo_rr E (ev_udpbufsize E) (an_rcode s1) 0 0 s1 else Some (True, s1))
         (add_addresses E t (Some u) (an_ar s))) = Some (True, s')"
    using assms by (auto simp: add_sections_def and_then_def bind_eq_Some_conv split: if_splits)
  have "fits_in u (an_sz s1) (if an_sz s1 + sizeof_opt_pseudo_rr > u then Some (True, s1)
      else and_then (if edns then add_opt_pseudo_rr E (ev_udpbufsize E) (an_rcode s1) 0 0 s1 else Some (True, s1))
         (add_addresses E t (Some u) (an_ar s)))"
    by (auto simp: fits_in_def [of _ _ "add_opt_pseudo_rr _ _ _ _ _ _"] dest!: add_opt_sz intro!: fits_in_then add_addresses_fits)
  then show ?thesis using a by (auto simp: fits_in_def)
qed

theorem add_sections_limit_witness:
  "\<exists>s'. add_sections dead_env True 0 (Some 512) (header_msg\<lparr> an_ar := [\<lparr> re_tp = RRETP_ADD, re_tsz = 0, re_ttl = 0, re_tnm = [1, 97, 0] \<rparr>] \<rparr>) =
     Some (True, s') \<and> an_sz s' \<le> 512"
proof -
  let ?s = "header_msg\<lparr> an_ar := [\<lparr> re_tp = RRETP_ADD, re_tsz = 0, re_ttl = 0, re_tnm = [1, 97, 0] \<rparr>] \<rparr>"
  let ?r = "add_sections dead_env True 0 (Some 512) ?s"
  have "map_option fst ?r = Some True" by code_simp
  then obtain s' where r: "?r = Some (True, s')" by auto
  obtain s1 where a: "add_authority dead_env (Some 512) (an_ar ?s) ?s = Some (True, s1)" "an_sz s' \<le> max (an_sz s1) 512"
    using add_sections_limit [OF r] by (elim exE conjE)
  have "map_option (\<lambda>(ok, s). an_sz s) (add_authority dead_env (Some 512) (an_ar ?s) ?s) = Some 12" by code_simp
  then have "an_sz s1 = 12" unfolding a(1) by simp
  then show ?thesis using a(2) r by auto
qed

lemma add_opt_bytes:
  assumes "msg_wf s" "add_opt_pseudo_rr E n rc v z s = Some (True, s')"
  shows "\<exists>s2. msg_wf s2 \<and> used s2 = used s @ [0] @ be16 (word_of_int T_OPT) @ be16 (word_of_nat n) @
      [word_of_int (rc div 16), v] @ be16 z @ be16 0 \<and> an_sz s2 = an_sz s + 11 \<and> s' = s2\<lparr> an_buf := bump 10 (an_buf s2) \<rparr>"
proof -
  let ?o = "[0] @ be16 (word_of_int T_OPT) @ be16 (word_of_nat n) @ [word_of_int (rc div 16), v] @ be16 z @ be16 0"
  obtain ok s1 where 1: "grow_ans E (2 + an_sz s + 11) s = (ok, s1)"
    "ok \<longrightarrow> extends s [] s1 \<and> 2 + an_sz s + 11 \<le> length (an_buf s1) + 2"
    using grow_ans_spec [OF assms(1), of E "2 + an_sz s + 11"] by blast
  have ok using assms(2) 1(1) by (cases ok) (simp_all add: add_opt_pseudo_rr_def)
  then have e: "msg_wf s1" "used s1 = used s" "an_sz s1 = an_sz s" "an_sz s1 + length ?o \<le> length (an_buf s1)"
    using 1(2) by (simp_all add: extends_def)
  obtain s2 where 2: "put_bytes ?o s1 = Some s2" "extends s1 ?o s2" using put_bytes_spec [OF e(1,4)] by blast
  then have w: "msg_wf s2" "used s2 = used s @ ?o" "an_sz s2 = an_sz s + 11" using e by (simp_all add: extends_def)
  have "inc16 (an_buf s2) 10 = Some (bump 10 (an_buf s2))" by (rule inc16_bump) (use w(1) in \<open>simp_all add: msg_wf_def\<close>)
  then have "s' = s2\<lparr> an_buf := bump 10 (an_buf s2) \<rparr>" using assms(2) 1(1) \<open>ok\<close> 2(1) by (simp add: add_opt_pseudo_rr_def)
  then show ?thesis using w by blast
qed

lemma be16_bytes: "be16 (word_of_nat (unat a * 256 + unat b)) = [a, b]"
proof -
  let ?x = "word_of_nat (unat a * 256 + unat b) :: u16"
  have l: "unat a < 256" "unat b < 256" using unsigned_less [of a, where 'a = nat] unsigned_less [of b, where 'a = nat] by simp_all
  have "unat (word_of_nat n :: u16) = n" if "n < 65536" for n
    using that by (simp add: unsigned_of_nat take_bit_eq_mod)
  from this [of "unat a * 256 + unat b"] l have "unat ?x = unat a * 256 + unat b" by linarith
  then have e: "unat (be16 ?x ! 0) * 256 + unat (be16 ?x ! 1) = unat a * 256 + unat b" by (simp only: be16_unat)
  have m: "unat (be16 ?x ! 0) < 256" "unat (be16 ?x ! 1) < 256"
    using unsigned_less [of "be16 ?x ! 0", where 'a = nat] unsigned_less [of "be16 ?x ! 1", where 'a = nat] by simp_all
  have "unat (be16 ?x ! 1) = unat b" using arg_cong [OF e, of "\<lambda>n. n mod 256"] m l by simp
  moreover from this e have "unat (be16 ?x ! 0) = unat a" by simp
  ultimately have "be16 ?x ! 0 = a" "be16 ?x ! 1 = b" by (simp_all add: unsigned_word_eqI)
  moreover have "be16 ?x = [be16 ?x ! 0, be16 ?x ! 1]" by (simp add: be16_def)
  ultimately show ?thesis by metis
qed

lemma splice_bump:
  assumes "length h = 12" "be_at h 10 < 65535"
  shows "splice (bump 10 h) 10 (be16 (word_of_nat (be_at h 10))) = h"
proof -
  have "get16 h 10 = Some (be_at h 10)" using assms(1) by (simp add: get16_at)
  then have 1: "splice (bump 10 h) 10 x = take 10 h @ x" if "length x = 2" for x
    using assms(1) that by (simp add: bump_def splice_def)
  have 2: "be16 (word_of_nat (be_at h 10)) = [h ! 10, h ! 11]" by (simp only: be_at_def be16_bytes) simp
  have "h = take 10 h @ [h ! 10, h ! 11]" using assms(1) by (simp add: list_eq_iff_nth_eq nth_append less_Suc_eq numeral_eq_Suc)
  then show ?thesis unfolding 2 using 1 [of "[h ! 10, h ! 11]"] by simp
qed

text \<open>
  C22. \<open>remove_opt_pseudo_rr\<close> undoes \<open>add_opt_pseudo_rr\<close>: it finds the record at the end of the
  message and gives back the old size, the old counter and the old bytes.
\<close>
theorem opt_roundtrip:
  assumes "msg_wf s" "be_at (used s) 10 < 65535" "add_opt_pseudo_rr E n rc v z s = Some (True, s')"
  shows "\<exists>m. remove_opt_pseudo_rr (an_buf s') (an_sz s') = Some (an_sz s, m) \<and> take (an_sz s) m = used s"
proof -
  let ?o = "[0] @ be16 (word_of_int T_OPT) @ be16 (word_of_nat n) @ [word_of_int (rc div 16), v] @ be16 z @ be16 0"
  obtain s2 where s': "msg_wf s2" "used s2 = used s @ ?o" "an_sz s2 = an_sz s + 11" "s' = s2\<lparr> an_buf := bump 10 (an_buf s2) \<rparr>"
    using add_opt_bytes [OF assms(1,3)] by blast
  let ?b = "an_buf s2" and ?c = "be_at (used s) 10"
  have u: "length (used s) = an_sz s" "12 \<le> an_sz s" using used_length [OF assms(1)] assms(1) by (simp_all add: msg_wf_def)
  have lb: "12 \<le> length ?b" "an_sz s + 11 \<le> length ?b" using s'(1,3) u(2) by (simp_all add: msg_wf_def)
  have ub: "take (an_sz s + 11) ?b = used s @ ?o" using s'(2,3) by (simp add: used_def)
  have "take 12 ?b = take 12 (take (an_sz s + 11) ?b)" using u by (simp add: min_def)
  then have t12: "take 12 ?b = take 12 (used s)" unfolding ub using u by simp
  note b = inc16_bump [of 10, OF _ lb(1)]
  let ?h = "take 12 (used s)"
  have lh: "length ?h = 12" using u by simp
  have ch: "be_at ?h 10 = ?c" by (simp add: be_at_def)
  have tb: "take 12 (bump 10 ?b) = bump 10 ?h" using b(3) t12 by simp
  have c1: "be_at (bump 10 ?b) 10 = ?c + 1"
  proof -
    have "be_at (bump 10 ?b) 10 = be_at (take 12 (bump 10 ?b)) 10" by (simp add: be_at_def)
    then show ?thesis unfolding tb using bump_be_at [OF lh, of 10 10] ch assms(2) by simp
  qed
  have ob: "take 11 (drop (an_sz s) (bump 10 ?b)) = ?o"
  proof -
    have "drop (an_sz s) (bump 10 ?b) = drop (an_sz s - 12) (drop 12 (bump 10 ?b))" using u(2) by simp
    also have "\<dots> = drop (an_sz s) ?b" unfolding b(4)[simplified] using u(2) by simp
    finally have "take 11 (drop (an_sz s) (bump 10 ?b)) = drop (an_sz s) (take (an_sz s + 11) ?b)" by (simp add: drop_take)
    then show ?thesis unfolding ub using u(1) by simp
  qed
  have at: "bump 10 ?b ! (an_sz s + i) = ?o ! i" if "i < 11" for i
    using that lb(2) b(2) ob [symmetric] by simp
  have o: "?o ! 0 = 0" "?o ! 1 = 0" "?o ! 2 = 41" by (simp_all add: be16_def)
  let ?m = "splice (bump 10 ?b) 10 (be16 (word_of_nat ?c))"
  have "remove_opt_pseudo_rr (an_buf s') (an_sz s') = Some (an_sz s, ?m)"
    using c1 at [of 0] at [of 1] at [of 2] o lb b(2) u(2)
    by (simp add: remove_opt_pseudo_rr_def s'(3,4) get16_at rd_nth be_at_def wrn_splice)
  moreover have "take (an_sz s) ?m = used s"
  proof -
    have "?m = splice (take 12 (bump 10 ?b)) 10 (be16 (word_of_nat ?c)) @ drop 12 (bump 10 ?b)"
      using lb b(2) by (simp add: splice_def)
    also have "\<dots> = ?h @ drop 12 ?b" unfolding tb b(4)[simplified] using splice_bump [OF lh] ch assms(2) by simp
    finally have "take (an_sz s) ?m = ?h @ take (an_sz s - 12) (drop 12 ?b)" using u lh by simp
    also have "take (an_sz s - 12) (drop 12 ?b) = drop 12 (take (an_sz s) (take (an_sz s + 11) ?b))" by (simp add: drop_take min_def)
    also have "\<dots> = drop 12 (used s)" unfolding ub using u(1) by simp
    finally show ?thesis by simp
  qed
  ultimately show ?thesis by blast
qed

theorem opt_roundtrip_witness:
  "\<exists>s' m. add_opt_pseudo_rr dead_env 1024 0 0 0 header_msg = Some (True, s') \<and>
     remove_opt_pseudo_rr (an_buf s') (an_sz s') = Some (12, m) \<and> take 12 m = used header_msg"
proof -
  let ?r = "add_opt_pseudo_rr dead_env 1024 0 0 0 header_msg"
  have "map_option fst ?r = Some True" by code_simp
  then obtain s' where r: "?r = Some (True, s')" by auto
  have "be_at (used header_msg) 10 < 65535" by (simp add: be_at_def used_def header_msg_def)
  from opt_roundtrip [OF header_msg_ok(1) this r] r show ?thesis by (auto simp: header_msg_def)
qed

end
