(* ===== verification/Pd_ReplyRun.thy ===== *)
theory Pd_ReplyRun
  imports Pd_ReplySpec Pd_QuerySpec
begin

text \<open>
  The whole way of a reply from its bytes to the entry that is returned and the records that go into
  the cache.
\<close>

subsection \<open>What a reply may change\<close>

text \<open>Entries of names that \<open>P\<close> does not hold for get no other data and do not become negative, and none is new.\<close>

definition confined :: "(key \<Rightarrow> bool) \<Rightarrow> cache \<Rightarrow> cache \<Rightarrow> bool" where
  "confined P \<sigma> \<sigma>' = (\<forall>a d. cents \<sigma>' a = Some d \<longrightarrow> P (key_of (ce_qname d)) \<or>
     (\<exists>d0. cents \<sigma> a = Some d0 \<and> ce_qname d0 = ce_qname d \<and> neg d0 = neg d \<and>
        (\<forall>j rs. slot d j = Some rs \<longrightarrow> set_from d0 j rs)))"

lemma confined_cents: "cents \<sigma>' = cents \<sigma> \<Longrightarrow> confined P \<sigma> \<sigma>'"
  unfolding confined_def by (metis set_from_slot)

lemma confined_trans:
  assumes "confined P \<sigma> \<sigma>1" "confined P \<sigma>1 \<sigma>2"
  shows "confined P \<sigma> \<sigma>2"
  unfolding confined_def
proof (intro allI impI)
  fix a d assume d: "cents \<sigma>2 a = Some d"
  show "P (key_of (ce_qname d)) \<or> (\<exists>d0. cents \<sigma> a = Some d0 \<and> ce_qname d0 = ce_qname d \<and> neg d0 = neg d \<and>
        (\<forall>j rs. slot d j = Some rs \<longrightarrow> set_from d0 j rs))"
  proof (cases "P (key_of (ce_qname d))")
    case False
    then obtain d1 where d1: "cents \<sigma>1 a = Some d1" "ce_qname d1 = ce_qname d" "neg d1 = neg d"
      "\<And>j rs. slot d j = Some rs \<Longrightarrow> set_from d1 j rs" using assms(2) d unfolding confined_def by blast
    then obtain d0 where d0: "cents \<sigma> a = Some d0" "ce_qname d0 = ce_qname d1" "neg d0 = neg d1"
      "\<And>j rs. slot d1 j = Some rs \<Longrightarrow> set_from d0 j rs" using assms(1) False unfolding confined_def by metis
    have "set_from d0 j rs" if rs: "slot d j = Some rs" for j rs
    proof -
      obtain rs1 where r1: "slot d1 j = Some rs1" "rs_rrs rs = rs_rrs rs1" using d1(4) [OF rs] by (auto simp: set_from_def)
      obtain rs0 where "slot d0 j = Some rs0" "rs_rrs rs1 = rs_rrs rs0" using d0(4) [OF r1(1)] by (auto simp: set_from_def)
      then show ?thesis using r1(2) by (simp add: set_from_def)
    qed
    then show ?thesis using d0(1-3) d1(2,3) by auto
  qed simp
qed

lemma sourced_confined:
  assumes "sourced c \<sigma> \<sigma>'" "P (key_of (ce_qname c))"
  shows "confined P \<sigma> \<sigma>'"
  unfolding confined_def
proof (intro allI impI)
  fix a d assume d: "cents \<sigma>' a = Some d"
  show "P (key_of (ce_qname d)) \<or> (\<exists>d0. cents \<sigma> a = Some d0 \<and> ce_qname d0 = ce_qname d \<and> neg d0 = neg d \<and>
        (\<forall>j rs. slot d j = Some rs \<longrightarrow> set_from d0 j rs))"
  proof (cases "key_of (ce_qname d) = key_of (ce_qname c)")
    case False
    note s = assms(1) [unfolded sourced_def, rule_format, OF d]
    obtain d0 where d0: "cents \<sigma> a = Some d0" "ce_qname d0 = ce_qname d" "neg d0 = neg d" using s False by blast
    have "set_from d0 j rs" if "slot d j = Some rs" for j rs using s that False d0(1) by auto
    then show ?thesis using d0 by blast
  qed (use assms(2) in simp)
qed

lemma sourced_store:
  assumes "store_ok \<sigma>" "cent_data c" "sourced c \<sigma> \<sigma>'" "cache_inv \<sigma>'"
  shows "store_ok \<sigma>'"
proof -
  have "cent_data d" if d: "cents \<sigma>' a = Some d" for a d
    unfolding cent_data_def
  proof (intro allI impI)
    fix tp i rs assume t: "rrlkup tp = Some i" "slot d i = Some rs"
    have "\<exists>e. cent_data e \<and> set_from e i rs" using assms(1,2,3) d t(2) unfolding sourced_def store_ok_def by meson
    then obtain e rs0 where "cent_data e" "slot e i = Some rs0" "rs_rrs rs = rs_rrs rs0" unfolding set_from_def by blast
    then show "list_all (rdata_ok tp) (rs_rrs rs)" using t(1) unfolding cent_data_def by metis
  qed
  then show ?thesis using assms(4) by (simp add: store_ok_def)
qed

subsection \<open>Adding records to the cache\<close>

definition stored_ok :: "qreply \<Rightarrow> cache \<Rightarrow> bool" where
  "stored_ok s \<sigma>' = (store_ok \<sigma>' \<and> confined (admitted (rp_st s)) (rp_cache s) \<sigma>' \<and> (no_fail (rp_cache s) \<longrightarrow> no_fail \<sigma>'))"

lemma stored_refl: "store_ok (rp_cache s) \<Longrightarrow> stored_ok s (rp_cache s)"
  by (simp add: stored_ok_def confined_cents)

lemma rp_time_ok:
  obtains now cl where "rp_time s = (now, s\<lparr> rp_clock := cl \<rparr>)"
proof (cases "rp_clock s")
  case Nil
  have "s = s\<lparr> rp_clock := rp_clock s \<rparr>" by simp
  then show ?thesis using that [of 0 "rp_clock s"] Nil by (simp add: rp_time_def)
next
  case (Cons t ts)
  then show ?thesis using that [of t ts] by (simp add: rp_time_def)
qed

lemma add_cents_ok:
  "sounds cs \<Longrightarrow> st_ok (rp_st s) \<Longrightarrow> store_ok (rp_cache s) \<Longrightarrow> card (items (cents (rp_cache s))) + length cs * NRRTOT < 2 ^ 32 \<Longrightarrow>
    \<exists>cl \<sigma>'. add_cents R cs s = Some (s\<lparr> rp_clock := cl, rp_cache := \<sigma>' \<rparr>) \<and> stored_ok s \<sigma>'"
proof (induction cs arbitrary: s)
  case Nil
  have "s = s\<lparr> rp_clock := rp_clock s, rp_cache := rp_cache s \<rparr>" by simp
  then show ?case using stored_refl [OF Nil(3)] by (metis add_cents.simps(1))
next
  case (Cons c cs)
  have c: "sound c" "sounds cs" using Cons.prems(1) by simp_all
  then have v: "valid_name (ce_qname c)" and w: "cent_wf c" and dt: "cent_data c"
    by (simp_all add: sound_def cent_wf_def cent_recv_data)
  obtain b where b: "rd (ce_qname c) 0 = Some b"
    "(if b \<noteq> 0 \<or> qs_auth_serv (rp_st s) \<noteq> 2 then in_nsdomain (rp_st s) c else Some False) = Some (admitted (rp_st s) (key_of (ce_qname c)))"
    by (rule acceptance [OF Cons.prems(2) v])
  show ?case
  proof (cases "admitted (rp_st s) (key_of (ce_qname c))")
    case False
    then show ?thesis using Cons.IH [OF c(2) Cons.prems(2,3)] Cons.prems(4) b by simp
  next
    case True
    obtain now cl where t: "rp_time s = (now, s\<lparr> rp_clock := cl \<rparr>)" by (rule rp_time_ok)
    have inv: "cache_inv (rp_cache s)" using Cons.prems(3) by (simp add: store_ok_def)
    have "card (items (cents (rp_cache s))) + NRRTOT < 2 ^ 32" using Cons.prems(4) by simp
    from add_cache_spec [OF inv w this, of now "rc_cache R"] obtain \<sigma>1 where
      1: "add_cache now (rc_cache R) c (rp_cache s) = Some \<sigma>1" "added (rc_cache R) c (rp_cache s) \<sigma>1" by blast
    then have a: "cache_inv \<sigma>1" "no_fail (rp_cache s) \<longrightarrow> no_fail \<sigma>1" "sourced c (rp_cache s) \<sigma>1"
      "card (items (cents \<sigma>1)) \<le> card (items (cents (rp_cache s))) + NRRTOT" unfolding added_def by blast+
    have st: "store_ok \<sigma>1" by (rule sourced_store [OF Cons.prems(3) dt a(3,1)])
    have cf: "confined (admitted (rp_st s)) (rp_cache s) \<sigma>1" by (rule sourced_confined [OF a(3)]) (rule True)
    let ?s = "s\<lparr> rp_clock := cl, rp_cache := \<sigma>1 \<rparr>"
    have "card (items (cents (rp_cache ?s))) + length cs * NRRTOT < 2 ^ 32" using a(4) Cons.prems(4) by simp
    then obtain cl2 \<sigma>2 where 2: "add_cents R cs ?s = Some (?s\<lparr> rp_clock := cl2, rp_cache := \<sigma>2 \<rparr>)" "stored_ok ?s \<sigma>2"
      using Cons.IH [OF c(2), of ?s] Cons.prems(2) st by auto
    have "add_cents R (c # cs) s = Some (s\<lparr> rp_clock := cl2, rp_cache := \<sigma>2 \<rparr>)" using b True t 1(1) 2(1) by simp
    moreover have "stored_ok s \<sigma>2" using 2(2) a(2) confined_trans [OF cf] by (simp add: stored_ok_def)
    ultimately show ?thesis by blast
  qed
qed

subsection \<open>The ends\<close>

definition tidy :: "dns_cent list \<Rightarrow> bool" where
  "tidy cs = (\<forall>c \<in> set cs. cent_shape c \<and> loose c)"

lemma free_cents_tidy: "tidy cs \<Longrightarrow> free_cents cs \<sigma> = Some \<sigma>"
  by (induction cs) (simp_all add: tidy_def free_cent_loose)

abbreviation (input) all_cents :: "qreply \<Rightarrow> dns_cent list" where
  "all_cents s \<equiv> ca_list (rp_ans s) @ ca_list (rp_auth s) @ ca_list (rp_add s)"

lemma free_arrays_ok:
  assumes "tidy (all_cents s)"
  shows "free_arrays b s = Some s"
proof -
  have "tidy (if b then take 1 (ca_list (rp_ans s)) else [])" "tidy (drop 1 (ca_list (rp_ans s)) @ ca_list (rp_auth s) @ ca_list (rp_add s))"
    using assms by (auto simp: tidy_def dest: in_set_takeD in_set_dropD)
  then show ?thesis by (simp add: free_arrays_def free_cents_tidy)
qed

lemma sounds_tidy: "sounds cs \<Longrightarrow> tidy cs"
  by (simp add: sounds_def tidy_def sound_def cent_wf_def)

lemma qreply_ok_tidy: "qreply_ok nm s \<Longrightarrow> tidy (all_cents s)"
  by (simp add: qreply_ok_def sounds_tidy)

text \<open>What is said of a result, compared with the state \<open>s\<close>.\<close>

definition reply_safe :: "name \<Rightarrow> qreply \<Rightarrow> int \<Rightarrow> dns_cent option \<Rightarrow> qreply \<Rightarrow> bool" where
  "reply_safe nm s rc ent s' = (stored_ok s (rp_cache s') \<and> ns_ok (rp_ns s') \<and>
     (case ent of None \<Rightarrow> rc \<noteq> RC_OK | Some c \<Rightarrow> rc = RC_OK \<and> sound c \<and> ce_qname c = nm) \<and>
     (no_fail (rp_cache s) \<longrightarrow> rc \<noteq> RC_FATALERR))"

definition roomy :: "qreply \<Rightarrow> bool" where
  "roomy s = (card (items (cents (rp_cache s))) + length (all_cents s) * NRRTOT < 2 ^ 32)"

text \<open>What holds from the end of the sections on.\<close>

definition ready :: "name \<Rightarrow> qreply \<Rightarrow> bool" where
  "ready nm s = (qreply_ok nm s \<and> store_ok (rp_cache s) \<and> roomy s \<and> st_ok (rp_st s) \<and> ns_ok (rp_ns s))"

lemma same_but_ready:
  assumes "ready nm s" "same_but s s'" "qreply_ok nm s'" "ns_ok (rp_ns s')"
  shows "ready nm s'"
proof -
  have q: "quiet (rp_cache s) (rp_cache s')" using assms(2) by (simp add: same_but_def)
  have c: "cents (rp_cache s') = cents (rp_cache s)" using q by (simp add: quiet_def frameD)
  have "ca_list (rp_ans s) \<noteq> []" "ca_list (rp_ans s') \<noteq> []" using assms(1,3) by (simp_all add: ready_def qreply_ok_def)
  moreover have "tl (ca_list (rp_ans s')) = tl (ca_list (rp_ans s))" using assms(2) by (simp add: same_but_def)
  ultimately have "length (ca_list (rp_ans s')) = length (ca_list (rp_ans s))"
    by (cases "ca_list (rp_ans s)"; cases "ca_list (rp_ans s')") simp_all
  then have "roomy s'" using assms(1,2) c by (simp add: ready_def roomy_def same_but_def)
  then show ?thesis using assms quiet_store [OF q] by (simp add: ready_def same_but_def)
qed

lemma reply_safe_quiet:
  assumes "reply_safe nm s rc ent s'" "quiet (rp_cache s0) (rp_cache s)" "admitted (rp_st s) = admitted (rp_st s0)"
  shows "reply_safe nm s0 rc ent s'"
proof -
  have "cents (rp_cache s) = cents (rp_cache s0)" using assms(2) by (simp add: quiet_def frameD)
  then have "confined (admitted (rp_st s0)) (rp_cache s0) (rp_cache s)" by (rule confined_cents)
  then have "stored_ok s0 (rp_cache s')" using assms confined_trans unfolding reply_safe_def stored_ok_def quiet_def by metis
  then show ?thesis using assms unfolding reply_safe_def quiet_def by blast
qed

lemma same_but_accepted: "same_but s s' \<Longrightarrow> quiet (rp_cache s) (rp_cache s') \<and> admitted (rp_st s') = admitted (rp_st s)"
  by (simp add: same_but_def)

lemma fail_ent_ok:
  assumes "tidy (all_cents s)" "store_ok (rp_cache s)" "ns_ok (rp_ns s)" "rv \<noteq> RC_OK" "rv = RC_FATALERR \<longrightarrow> \<not> no_fail (rp_cache s)"
  shows "fail_ent rv s = Some (rv, None, s) \<and> reply_safe nm s rv None s"
  using assms stored_refl by (simp add: fail_ent_def free_arrays_ok reply_safe_def) blast

lemma add_additional_ok:
  assumes "ready nm s"
  shows "\<exists>cl \<sigma>'. add_additional R ng rej s = Some (s\<lparr> rp_clock := cl, rp_cache := \<sigma>' \<rparr>) \<and> stored_ok s \<sigma>'"
proof (cases "qs_failed (rp_st s) \<noteq> 0 \<or> rej")
  case True
  have "s = s\<lparr> rp_clock := rp_clock s, rp_cache := rp_cache s \<rparr>" by simp
  moreover have "stored_ok s (rp_cache s)" by (rule stored_refl) (use assms in \<open>simp add: ready_def\<close>)
  moreover have "add_additional R ng rej s = Some s" using True by (auto simp: add_additional_def)
  ultimately show ?thesis by metis
next
  case False
  let ?cs = "(if ng then [] else drop 1 (ca_list (rp_ans s))) @ ca_list (rp_auth s) @ ca_list (rp_add s)"
  have s: "sounds ?cs" using assms by (auto simp: ready_def qreply_ok_def sounds_def dest: in_set_dropD)
  have "length ?cs \<le> length (all_cents s)" by simp
  then have r: "card (items (cents (rp_cache s))) + length ?cs * NRRTOT < 2 ^ 32" using assms unfolding ready_def roomy_def by linarith
  have "st_ok (rp_st s)" "store_ok (rp_cache s)" using assms by (simp_all add: ready_def)
  from add_cents_ok [OF s this r, of R] show ?thesis using False by (auto simp: add_additional_def)
qed

lemma cleanup_ok_safe:
  assumes "ready nm s"
  shows "\<exists>rc ent s'. cleanup_ok R neg_ans rej num s = Some (rc, ent, s') \<and> reply_safe nm s rc ent s' \<and>
    (rc = RC_OK \<longrightarrow> ent = Some (hd (ca_list (rp_ans s))))"
proof -
  have rd: "qreply_ok nm s" "store_ok (rp_cache s)" "cache_inv (rp_cache s)" "ns_ok (rp_ns s)" using assms by (simp_all add: ready_def store_ok_def)
  have e: "ns_ok []" by (simp add: ns_ok_def)
  show ?thesis
  proof (cases "qs_failed (rp_st s) \<noteq> 0 \<and> neg_ans \<and> num = 0")
    case True
    then have "cleanup_ok R neg_ans rej num s = fail_ent RC_SERVFAIL (s\<lparr> rp_ns := [] \<rparr>)" by (simp add: cleanup_ok_def)
    moreover have "reply_safe nm s RC_SERVFAIL None (s\<lparr> rp_ns := [] \<rparr>)" using stored_refl [OF rd(2)] e by (simp add: reply_safe_def)
    ultimately show ?thesis using fail_ent_ok [of "s\<lparr> rp_ns := [] \<rparr>" RC_SERVFAIL nm] qreply_ok_tidy [OF rd(1)] rd(2) e by auto
  next
    case False
    obtain ok s1 where m: "rp_malloc s = (ok, s1)" by (cases "rp_malloc s")
    obtain \<sigma> where s1: "s1 = s\<lparr> rp_cache := \<sigma> \<rparr>" "quiet (rp_cache s) \<sigma>" "no_fail (rp_cache s) \<longrightarrow> ok" using rp_malloc_ok [OF rd(3) m] by blast
    have rk: "qreply_ok nm s1" using rd(1) s1 by (simp add: qreply_ok_def quiet_def)
    have "same_but s s1" using s1 by (simp add: same_but_def)
    then have rd1: "ready nm s1" using same_but_ready [OF assms _ rk] s1(1) rd(4) by simp
    show ?thesis
    proof (cases ok)
      case okF: False
      let ?s = "s1\<lparr> rp_ns := [] \<rparr>"
      have "fail_ent RC_FATALERR ?s = Some (RC_FATALERR, None, ?s)"
        using qreply_ok_tidy [OF rk] by (simp add: fail_ent_def free_arrays_ok)
      moreover have "reply_safe nm s RC_FATALERR None ?s"
        using s1 okF e quiet_store [OF s1(2) rd(2)] confined_cents [of \<sigma> "rp_cache s"] by (simp add: reply_safe_def stored_ok_def quiet_def frameD)
      ultimately show ?thesis using False m okF by (auto simp: cleanup_ok_def)
    next
      case True
      obtain c cs where c: "rp_ans s = Some (c # cs)" "sound c" "ce_qname c = nm" using rd(1) by (rule qreply_okE)
      obtain cl \<sigma>2 where 2: "add_additional R neg_ans rej s1 = Some (s1\<lparr> rp_clock := cl, rp_cache := \<sigma>2 \<rparr>)" "stored_ok s1 \<sigma>2"
        using add_additional_ok [OF rd1, of R neg_ans rej] by blast
      let ?s = "s1\<lparr> rp_clock := cl, rp_cache := \<sigma>2 \<rparr>"
      have f: "free_arrays False ?s = Some ?s" by (rule free_arrays_ok) (use qreply_ok_tidy [OF rk] in simp)
      have "rd (ca_list (rp_ans s1)) 0 = Some c" using c(1) s1(1) by (simp add: ca_list_def rd_nth)
      then have run: "cleanup_ok R neg_ans rej num s = Some (RC_OK, Some c, ?s)"
        using False m True 2(1) f unfolding cleanup_ok_def by (simp add: Let_def del: de_Morgan_conj) 
      have "reply_safe nm s1 RC_OK (Some c) ?s" using 2(2) c(2,3) s1(1) rd(4) by (simp add: reply_safe_def)
      then have "reply_safe nm s RC_OK (Some c) ?s" by (rule reply_safe_quiet) (use s1 in simp_all)
      then show ?thesis using run c(1) by (auto simp: ca_list_def)
    qed
  qed
qed

lemma end_name_error_ok:
  assumes "ready nm s" "\<not> neg (hd (ca_list (rp_ans s)))"
  shows "\<exists>rc ent s'. end_name_error R nm ts rej s = Some (rc, ent, s') \<and> reply_safe nm s rc ent s' \<and>
    (rc = RC_OK \<longrightarrow> (\<exists>c ttl. ent = Some c \<and> ce_body c = NegBody None ttl ts))"
proof -
  have rd: "qreply_ok nm s" "ns_ok (rp_ns s)" using assms by (simp_all add: ready_def)
  obtain b s1 where 1: "name_error R nm ts s = Some (b, s1)" "same_but s s1" "qreply_ok nm s1" "rp_ns s1 = rp_ns s"
    "b \<longrightarrow> (\<exists>ttl. ce_body (hd (ca_list (rp_ans s1))) = NegBody None ttl ts)"
    using name_error_ok [OF rd(1) assms(2), of R ts] by blast
  have r1: "ready nm s1" by (rule same_but_ready [OF assms(1) 1(2,3)]) (use 1(4) rd(2) in simp)
  note sb = same_but_accepted [OF 1(2)]
  show ?thesis
  proof (cases b)
    case True
    obtain rc ent s' where x: "cleanup_ok R True rej 0 s1 = Some (rc, ent, s')" "reply_safe nm s1 rc ent s'"
      "rc = RC_OK \<longrightarrow> ent = Some (hd (ca_list (rp_ans s1)))" using cleanup_ok_safe [OF r1] by blast
    have "reply_safe nm s rc ent s'" by (rule reply_safe_quiet [OF x(2)]) (use sb in simp_all)
    moreover have "end_name_error R nm ts rej s = Some (rc, ent, s')" using 1(1) True x(1) by (simp add: end_name_error_def)
    ultimately show ?thesis using x(3) 1(5) True by blast
  next
    case False
    obtain cl \<sigma>2 where 2: "add_additional R True rej s1 = Some (s1\<lparr> rp_clock := cl, rp_cache := \<sigma>2 \<rparr>)" "stored_ok s1 \<sigma>2"
      using add_additional_ok [OF r1, of R True rej] by blast
    let ?s = "s1\<lparr> rp_clock := cl, rp_cache := \<sigma>2 \<rparr>"
    have f: "free_arrays False ?s = Some ?s" by (rule free_arrays_ok) (use qreply_ok_tidy [OF 1(3)] in simp)
    have run: "end_name_error R nm ts rej s = Some (RC_NAMEERR, None, ?s)" using 1(1) False 2(1) f by (simp add: end_name_error_def)
    have "reply_safe nm s1 RC_NAMEERR None ?s" using 2(2) 1(4) rd(2) by (simp add: reply_safe_def)
    then have "reply_safe nm s RC_NAMEERR None ?s" by (rule reply_safe_quiet) (use sb in simp_all)
    then show ?thesis using run by (intro exI [of _ RC_NAMEERR] exI [of _ None] exI [of _ ?s]) simp
  qed
qed

lemma reject_answer_ok:
  assumes "sounds (all_cents s)"
  shows "\<exists>b. reject_answer s = Some b"
  using cents_rejected_ok [OF assms] by (cases "qs_rejectlist (rp_st s)") (simp_all add: reject_answer_def)

lemma marked_ready:
  assumes "ready nm s" "list_all2 (\<lambda>c c'. \<exists>x y. c' = refs c x y) (ca_list (rp_ans s)) cs"
  shows "ready nm (s\<lparr> rp_ans := map_option (\<lambda>_. cs) (rp_ans s) \<rparr>)"
    and "neg (hd cs) = neg (hd (ca_list (rp_ans s)))" "cs \<noteq> []"
proof -
  obtain c ds where a: "rp_ans s = Some (c # ds)" "ce_qname c = nm" "sounds (c # ds)"
    using assms(1) unfolding ready_def by (auto elim: qreply_okE)
  then obtain x y es where e: "cs = refs c x y # es" "list_all2 (\<lambda>c c'. \<exists>x y. c' = refs c x y) ds es"
    using assms(2) by (auto simp: ca_list_def list_all2_Cons1)
  have so: "sounds cs" using marked_sounds [OF assms(2)] a by (simp add: ca_list_def)
  have l: "length es = length ds" using e(2) by (simp add: list_all2_lengthD)
  have f: "ce_flags (refs c x y) = ce_flags c" "ce_qname (refs c x y) = ce_qname c" by (cases c, simp)+
  show "ready nm (s\<lparr> rp_ans := map_option (\<lambda>_. cs) (rp_ans s) \<rparr>)"
    using assms(1) a(1,2) e(1) so l f unfolding ready_def qreply_ok_def roomy_def by (simp add: ca_list_def)
  show "neg (hd cs) = neg (hd (ca_list (rp_ans s)))" "cs \<noteq> []" using a(1) e(1) f by (simp_all add: ca_list_def)
qed

lemma finish_reply_ok:
  assumes "ready nm s" "\<not> neg (hd (ca_list (rp_ans s)))" "list_all valid_name (rc_deleg_only R)" "wanted_ok thint"
  shows "\<exists>rc ent s'. finish_reply R nm thint fl aa ts rcode s = Some (rc, ent, s') \<and> reply_safe nm s rc ent s' \<and>
    (rcode = RC_NAMEERR \<longrightarrow> rc = RC_OK \<longrightarrow> (\<exists>c ttl. ent = Some c \<and> ce_body c = NegBody None ttl ts))"
proof -
  have rk: "qreply_ok nm s" using assms(1) by (simp add: ready_def)
  have so: "sounds (ca_list (rp_auth s))" "sounds (ca_list (rp_ans s))" using rk by (simp_all add: qreply_ok_def)
  obtain cs where m: "mark_cents (rp_st s) (qtype_of (rp_st s) thint) (length (ca_list (rp_ans s))) (ca_list (rp_auth s)) (ca_list (rp_ans s)) = Some cs"
    "list_all2 (\<lambda>c c'. \<exists>x y. c' = refs c x y) (ca_list (rp_ans s)) cs" using mark_cents_ok [OF so] by blast
  define t where "t = s\<lparr> rp_ans := map_option (\<lambda>_. cs) (rp_ans s) \<rparr>"
  have rt: "ready nm t" unfolding t_def by (rule marked_ready(1) [OF assms(1) m(2)])
  obtain c ds where an: "rp_ans s = Some (c # ds)" using rk by (rule qreply_okE)
  have at: "ca_list (rp_ans t) = cs" using an by (simp add: t_def ca_list_def)
  have nt: "\<not> neg (hd (ca_list (rp_ans t)))" using marked_ready(2) [OF assms(1) m(2)] assms(2) at by simp
  have kt: "qreply_ok nm t" "store_ok (rp_cache t)" "ns_ok (rp_ns t)" "st_ok (rp_st t)" using rt by (simp_all add: ready_def)
  have tt: "tidy (all_cents t)" by (rule qreply_ok_tidy [OF kt(1)])
  have to_s: "reply_safe nm s rc ent s'" if "reply_safe nm t rc ent s'" for rc ent s'
    using that by (simp add: reply_safe_def stored_ok_def t_def)
  obtain rej where rej: "reject_answer t = Some rej" using reject_answer_ok kt(1) unfolding qreply_ok_def by blast
  have start: "finish_reply R nm thint fl aa ts rcode s =
      (if rcode = RC_NAMEERR then end_name_error R nm ts rej t
      else if rej then
         (if map_option rj_policy (qs_rejectlist (rp_st t)) = Some C_NEGATE \<and> qs_failed (rp_st t) \<le> 1
          then end_name_error R nm ts rej t
          else fail_ent RC_SERVFAIL t)
       else do {
         (missing, authcnt) \<leftarrow> missing_delegation R nm t;
         if missing \<and> authcnt \<noteq> 0 \<and> qs_failed (rp_st t) \<le> 1 then end_name_error R nm ts rej t
         else if missing \<and> qs_auth_serv (rp_st t) < 2 then fail_ent RC_SERVFAIL t
         else do {
           ent \<leftarrow> rd (ca_list (rp_ans t)) 0;
           let neg_ans = (ce_num ent = 0);
           (ok, t) \<leftarrow> negative_set R nm thint fl aa ts t;
           if \<not> ok then fail_ent RC_FATALERR t
           else if qs_failed (rp_st t) \<le> 1 then do {
             (ok, num_ns, t) \<leftarrow> ns_cents (ca_list (rp_ans t) @ ca_list (rp_auth t)) 0 t;
             if \<not> ok then fail_ent RC_FATALERR t else cleanup_ok R neg_ans rej num_ns t
           }
           else cleanup_ok R neg_ans rej 0 t
         }
       })"
    unfolding finish_reply_def Let_def m(1) Option.bind.bind_lunit t_def [symmetric] rej ..
  obtain rc1 ent1 s1 where e1: "end_name_error R nm ts rej t = Some (rc1, ent1, s1)" "reply_safe nm t rc1 ent1 s1"
    "rc1 = RC_OK \<longrightarrow> (\<exists>c ttl. ent1 = Some c \<and> ce_body c = NegBody None ttl ts)" 
    using end_name_error_ok [OF rt nt, of R ts rej] by (elim exE conjE) (rule that)
  have e2: "fail_ent RC_SERVFAIL t = Some (RC_SERVFAIL, None, t)" "reply_safe nm t RC_SERVFAIL None t"
    using fail_ent_ok [OF tt kt(2,3), of RC_SERVFAIL nm] by simp_all
  let ?good = "\<lambda>rc ent s'. reply_safe nm s rc ent s' \<and>
    (rcode = RC_NAMEERR \<longrightarrow> rc = RC_OK \<longrightarrow> (\<exists>c ttl. ent = Some c \<and> ce_body c = NegBody None ttl ts))"
  have E1: "\<exists>rc ent s'. end_name_error R nm ts rej t = Some (rc, ent, s') \<and> ?good rc ent s'"
    using e1(1,3) to_s [OF e1(2)] by blast
  have E2: "\<exists>rc ent s'. fail_ent RC_SERVFAIL t = Some (rc, ent, s') \<and> ?good rc ent s'"
    using e2(1) to_s [OF e2(2)] by (intro exI [of _ RC_SERVFAIL] exI [of _ None] exI [of _ t]) simp
  show ?thesis
  proof (cases "rcode = RC_NAMEERR")
    case True
    then have "finish_reply R nm thint fl aa ts rcode s = end_name_error R nm ts rej t"
      unfolding start by (simp only: if_True simp_thms)
    then show ?thesis using E1 by (simp only:)
  next
    case nn: False
    show ?thesis
    proof (cases rej)
      case True
      then have "finish_reply R nm thint fl aa ts rcode s \<in> {end_name_error R nm ts rej t, fail_ent RC_SERVFAIL t}"
        unfolding start using nn by (simp only: if_True if_False split: if_split) blast
      then show ?thesis using E1 E2 by (elim insertE emptyE) (simp_all only:)
    next
      case nr: False
      obtain ms k where md: "missing_delegation R nm t = Some (ms, k)" using missing_delegation_ok [OF kt(1) assms(3)] by blast
      consider (ne) "ms \<and> k \<noteq> 0 \<and> qs_failed (rp_st t) \<le> 1" | (sf) "\<not> (ms \<and> k \<noteq> 0 \<and> qs_failed (rp_st t) \<le> 1)" "ms \<and> qs_auth_serv (rp_st t) < 2"
        | (go) "\<not> (ms \<and> k \<noteq> 0 \<and> qs_failed (rp_st t) \<le> 1)" "\<not> (ms \<and> qs_auth_serv (rp_st t) < 2)" by blast
      then show ?thesis
      proof cases
        case ne
        then have "finish_reply R nm thint fl aa ts rcode s = end_name_error R nm ts rej t"
          unfolding start md Option.bind.bind_lunit prod.case using nn nr by (simp only: if_False if_True simp_thms)
        then show ?thesis using E1 by (simp only:)
      next
        case sf
        then have "finish_reply R nm thint fl aa ts rcode s = fail_ent RC_SERVFAIL t"
          unfolding start md Option.bind.bind_lunit prod.case using nn nr by (simp only: if_False if_True simp_thms)
        then show ?thesis using E2 by (simp only:)
      next
        case go
        obtain c2 ds2 where a2: "rp_ans t = Some (c2 # ds2)" using kt(1) by (rule qreply_okE)
        have r0: "rd (ca_list (rp_ans t)) 0 = Some c2" using a2 by (simp add: ca_list_def rd_nth)
        obtain ok t1 where ng: "negative_set R nm thint fl aa ts t = Some (ok, t1)" "same_but t t1" "qreply_ok nm t1" "rp_ns t1 = rp_ns t"
          "no_fail (rp_cache t) \<longrightarrow> ok" using negative_set_ok [OF kt(1) assms(4)] by blast
        have r1: "ready nm t1" using same_but_ready [OF rt ng(2,3)] ng(4) kt(3) by simp
        have run: "finish_reply R nm thint fl aa ts rcode s = (if \<not> ok then fail_ent RC_FATALERR t1
           else if qs_failed (rp_st t1) \<le> 1 then do {
             (ok, num_ns, t) \<leftarrow> ns_cents (ca_list (rp_ans t1) @ ca_list (rp_auth t1)) 0 t1;
             if \<not> ok then fail_ent RC_FATALERR t else cleanup_ok R (ce_num c2 = 0) rej num_ns t
           }
           else cleanup_ok R (ce_num c2 = 0) rej 0 t1)"
          unfolding start md r0 ng(1) Option.bind.bind_lunit prod.case Let_def using nn nr go by (simp only: if_False if_True)
        have to_s1: "reply_safe nm s rc ent s'" if "reply_safe nm t1 rc ent s'" for rc ent s'
          by (rule to_s, rule reply_safe_quiet [OF that]) (use same_but_accepted [OF ng(2)] in simp_all)
        have fatal: "\<exists>rc ent s'. fail_ent RC_FATALERR u = Some (rc, ent, s') \<and> reply_safe nm t1 rc ent s'"
          if "ready nm u" "quiet (rp_cache t1) (rp_cache u)" "admitted (rp_st u) = admitted (rp_st t1)" "ns_ok (rp_ns u)" "\<not> no_fail (rp_cache t1)" for u
        proof -
          have k: "qreply_ok nm u" "store_ok (rp_cache u)" using that(1) by (simp_all add: ready_def)
          have f: "fail_ent RC_FATALERR u = Some (RC_FATALERR, None, u)"
            using qreply_ok_tidy [OF k(1)] by (simp add: fail_ent_def free_arrays_ok)
          have "cents (rp_cache u) = cents (rp_cache t1)" using that(2) by (simp add: quiet_def frameD)
          then have "reply_safe nm t1 RC_FATALERR None u"
            using that k(2) confined_cents [of "rp_cache u" "rp_cache t1"] by (simp add: reply_safe_def stored_ok_def)
          then show ?thesis using f by blast
        qed
        have i1: "sounds (ca_list (rp_ans t1) @ ca_list (rp_auth t1))" "st_ok (rp_st t1)" "cache_inv (rp_cache t1)" "ns_ok (rp_ns t1)"
          using r1 by (simp_all add: ready_def qreply_ok_def)
        have fine: "\<exists>rc ent s'. finish_reply R nm thint fl aa ts rcode s = Some (rc, ent, s') \<and> reply_safe nm s rc ent s'"
        proof (cases ok)
          case False
          have "\<not> no_fail (rp_cache t)" using False ng(5) by blast
          show ?thesis
          proof (cases "no_fail (rp_cache t1)")
            case False
            then obtain rc ent s' where "fail_ent RC_FATALERR t1 = Some (rc, ent, s')" "reply_safe nm t1 rc ent s'"
              using fatal [OF r1 quiet_refl [OF i1(3)]] i1(4) by blast
            then show ?thesis using run \<open>\<not> ok\<close> to_s1 by auto
          next
            case True
            have k: "tidy (all_cents t1)" by (rule qreply_ok_tidy [OF ng(3)])
            have f: "fail_ent RC_FATALERR t1 = Some (RC_FATALERR, None, t1)" using k by (simp add: fail_ent_def free_arrays_ok)
            have q: "quiet (rp_cache t) (rp_cache t1)" using ng(2) by (simp add: same_but_def)
            have cc: "cents (rp_cache t1) = cents (rp_cache t)" using q by (simp add: quiet_def frameD)
            have "reply_safe nm t RC_FATALERR None t1"
              using \<open>\<not> no_fail (rp_cache t)\<close> i1(4) r1 confined_cents [OF cc] by (simp add: reply_safe_def stored_ok_def ready_def)
            then show ?thesis using run \<open>\<not> ok\<close> f to_s by auto
          qed
        next
          case okT: True
          show ?thesis
          proof (cases "qs_failed (rp_st t1) \<le> 1")
            case False
            obtain rc ent s' where "cleanup_ok R (ce_num c2 = 0) rej 0 t1 = Some (rc, ent, s')" "reply_safe nm t1 rc ent s'"
              using cleanup_ok_safe [OF r1] by blast
            then show ?thesis using run okT False to_s1 by auto
          next
            case True
            obtain ok2 n u where nc: "ns_cents (ca_list (rp_ans t1) @ ca_list (rp_auth t1)) 0 t1 = Some (ok2, n, u)" "ns_step t1 (ok2, n, u)"
              using ns_cents_ok [OF i1, of 0] by auto
            obtain \<sigma> ps where u: "u = t1\<lparr> rp_cache := \<sigma>, rp_ns := ps \<rparr>" "quiet (rp_cache t1) \<sigma>" "ns_ok ps" "no_fail (rp_cache t1) \<longrightarrow> ok2"
              using nc(2) by (auto simp: ns_step_def)
            have ku: "qreply_ok nm u" using ng(3) u(1,2) by (simp add: qreply_ok_def quiet_def)
            have ru: "ready nm u" by (rule same_but_ready [OF r1 _ ku]) (use u in \<open>simp_all add: same_but_def\<close>)
            show ?thesis
            proof (cases ok2)
              case False
              then obtain rc ent s' where "fail_ent RC_FATALERR u = Some (rc, ent, s')" "reply_safe nm t1 rc ent s'"
                using fatal [OF ru] u by auto
              then show ?thesis using run okT True nc(1) False to_s1 by auto
            next
              case ok2: True
              obtain rc ent s' where x: "cleanup_ok R (ce_num c2 = 0) rej n u = Some (rc, ent, s')" "reply_safe nm u rc ent s'"
                using cleanup_ok_safe [OF ru] by blast
              have "reply_safe nm t1 rc ent s'" by (rule reply_safe_quiet [OF x(2)]) (use u in simp_all)
              then show ?thesis using run okT True nc(1) ok2 x(1) to_s1 by auto
            qed
          qed
        qed
        then show ?thesis using nn by blast
      qed
    qed
  qed
qed

subsection \<open>OPT records\<close>

text \<open>\<open>k\<close> records, whatever their data are, from \<open>p\<close> to \<open>e\<close>; one of \<open>n\<close> records is an OPT record with
  the extended code \<open>c\<close>.\<close>

inductive skips :: "byte list \<Rightarrow> nat \<Rightarrow> nat \<Rightarrow> nat \<Rightarrow> bool" for m where
  skip_none: "skips m p 0 p"
| skip_one: "\<lbrakk>readable m p ls l; q = p + l; q + 10 + be_at m (q + 8) \<le> length m; skips m (q + 10 + be_at m (q + 8)) k e\<rbrakk> \<Longrightarrow>
    skips m p (Suc k) e"

definition opt_code :: "byte list \<Rightarrow> nat \<Rightarrow> nat \<Rightarrow> nat \<Rightarrow> bool" where
  "opt_code m p n c = (\<exists>k e ls l. k < n \<and> skips m p k e \<and> readable m e ls l \<and> e + l + 10 \<le> length m \<and>
     int (be_at m (e + l)) = T_OPT \<and> c = unat (m ! (e + l + 4)))"

lemma records_skips: "records_at m fl ts p v k e v' \<Longrightarrow> skips m p k e"
proof (induction rule: records_at.induct)
  case (rec_end p v)
  then show ?case by (rule skip_none)
next
  case (rec_skip p ls l q v k e v')
  then show ?case by (intro skip_one)
next
  case (rec_data p ls l q d w v k e v')
  then show ?case by (intro skip_one)
qed

lemma skips_append: "skips m p j q \<Longrightarrow> skips m q k e \<Longrightarrow> skips m p (j + k) e"
  by (induction rule: skips.induct) (auto intro: skip_one)

lemma opt_code_here:
  assumes "readable m p ls l" "p + l + 10 \<le> length m" "int (be_at m (p + l)) = T_OPT"
  shows "opt_code m p (Suc n) (unat (m ! (p + l + 4)))"
  unfolding opt_code_def using assms skip_none [of m p] by blast

lemma opt_code_next:
  assumes "readable m p ls l" "p + l + 10 + be_at m (p + l + 8) \<le> length m" "opt_code m (p + l + 10 + be_at m (p + l + 8)) n c"
  shows "opt_code m p (Suc n) c"
proof -
  obtain k e ks j where k: "k < n" "skips m (p + l + 10 + be_at m (p + l + 8)) k e" "readable m e ks j" "e + j + 10 \<le> length m"
    "int (be_at m (e + j)) = T_OPT" "c = unat (m ! (e + j + 4))" using assms(3) unfolding opt_code_def by blast
  have "skips m p (Suc k) e" by (rule skip_one [OF assms(1) refl assms(2) k(2)])
  then show ?thesis using k unfolding opt_code_def by (intro exI [of _ "Suc k"] exI [of _ e] exI [of _ ks] exI [of _ j]) simp
qed

text \<open>The response code that is kept is that of the first OPT record.\<close>

lemma rrs2cent_opt:
  assumes "12 \<le> length m"
  shows "rrs2cent E m n fl ts r = Some (rc, r') \<Longrightarrow> rv_ptr r + rv_cnt r = length m \<Longrightarrow>
    rv_numopt r' = 0 \<or> (rv_numopt r \<noteq> 0 \<and> rv_ep r' = rv_ep r) \<or>
    (\<exists>c. opt_code m (rv_ptr r) n c \<and> ed_rcode (rv_ep r') = c * 16 + unat (m ! 3 AND 0xf))"
proof (induction n arbitrary: r rc r')
  case (Suc n)
  let ?p = "rv_ptr r" and ?f = "fresh E 0 DNSNAMEBUFSIZE"
  let ?P = "\<lambda>r'. rv_numopt r' = 0 \<or> (rv_numopt r \<noteq> 0 \<and> rv_ep r' = rv_ep r) \<or>
    (\<exists>c. opt_code m ?p (Suc n) c \<and> ed_rcode (rv_ep r') = c * 16 + unat (m ! 3 AND 0xf))"
  have same: "?P x" if "rv_numopt x = rv_numopt r" "rv_ep x = rv_ep r" for x using that by (cases "rv_numopt r = 0") simp_all
  have f: "DNSNAMEBUFSIZE \<le> length ?f" by simp
  then show ?case
  proof (cases rule: decompress_readable [where m = m and p = ?p and cnt = "rv_cnt r"])
    case (err rc0 tgt')
    then have "r' = r" using Suc.prems(1) by auto
    then show ?thesis using same by blast
  next
    case (ok ls l)
    let ?q = "?p + l" and ?c = "rv_cnt r - l"
    have e1: "?q + ?c = length m" using ok(2) Suc.prems(2) by simp
    show ?thesis
    proof (cases "?c < 10")
      case True
      then have "r' = r\<lparr> rv_ptr := ?q, rv_cnt := ?c \<rparr>" using Suc.prems(1) ok(3) by simp
      then show ?thesis by (intro same) simp_all
    next
      case False
      let ?tp = "be_at m ?q" and ?cl = "be_at m (?q + 2)" and ?len = "be_at m (?q + 8)"
      let ?ttl = "be_at m (?q + 4) * 65536 + be_at m (?q + 6)"
      have g: "get16 m ?q = Some ?tp" "get16 m (?q + 2) = Some ?cl" "get32 m (?q + 4) = Some ?ttl" "get16 m (?q + 8) = Some ?len"
        using False e1 get32_at [of "?q + 4" m] by (simp_all add: get16_at ac_simps)
      have on: "rdn (enc ls @ drop (length (enc ls)) ?f) 0 (length (enc ls)) = Some (enc ls)" by (simp add: rdn_def)
      let ?r1 = "r\<lparr> rv_ptr := ?q + 10, rv_cnt := ?c - 10 \<rparr>"
      show ?thesis
      proof (cases "?c - 10 < ?len")
        case True
        then have "r' = ?r1" using Suc.prems(1) ok(3) False g on by simp
        then show ?thesis by (intro same) simp_all
      next
        case len: False
        let ?r2 = "?r1\<lparr> rv_ptr := ?q + 10 + ?len, rv_cnt := ?c - 10 - ?len \<rparr>"
        have e3: "?q + 10 + ?len + (?c - 10 - ?len) = length m" using len e1 False by simp
        have in_m: "?q + 10 + ?len \<le> length m" using e3 by simp
        have rec: "?P r'" if x: "rrs2cent E m n fl ts x = Some (rc', r')" "rv_ptr x = ?q + 10 + ?len" "rv_cnt x = ?c - 10 - ?len"
          "rv_numopt x = rv_numopt r" "rv_ep x = rv_ep r" for x rc'
          using Suc.IH [OF x(1)] x(2-5) e3 opt_code_next [OF ok(1) in_m, of n] by auto
        show ?thesis
        proof (cases "int ?tp = T_OPT")
          case True
          obtain ep0 where ep0: "opt_data m (?q + 4) ?cl = Some ep0" using opt_data_at [of "?q + 4" m ?cl] False e1 assms by auto
          let ?r3 = "?r2\<lparr> rv_numopt := rv_numopt r + 1, rv_ep := if rv_numopt r = 0 then ep0 else rv_ep r \<rparr>"
          have run: "rrs2cent E m n fl ts ?r3 = Some (rc, r')"
            using Suc.prems(1) ok(3) False len g on True ep0 by (cases "rv_numopt r = 0") simp_all
          have ec: "ed_rcode ep0 = unat (m ! (?q + 4)) * 16 + unat (m ! 3 AND 0xf)"
            using ep0 False e1 assms by (auto simp: opt_data_def rd_nth hdr_rcode_def)
          have "opt_code m ?p (Suc n) (unat (m ! (?q + 4)))" by (rule opt_code_here [OF ok(1)]) (use in_m True in simp_all)
          then show ?thesis using Suc.IH [OF run] e3 ec opt_code_next [OF ok(1) in_m, of n] by (cases "rv_numopt r = 0") auto
        next
          case opt: False
          show ?thesis
          proof (cases "PDNSD_NOT_CACHED_TYPE (int ?tp) \<or> int ?cl \<noteq> C_IN")
            case True
            have "rrs2cent E m n fl ts ?r2 = Some (rc, r')" using Suc.prems(1) ok(3) False len g on opt True by simp
            then show ?thesis by (rule rec) simp_all
          next
            case nc: False
            obtain d \<sigma> where d: "rr_data E (int ?tp) m (?q + 10) ?len (rv_cache r) = Some (d, \<sigma>)"
              using Suc.prems(1) ok(3) False len g on opt nc by (auto simp: Let_def bind_eq_Some_conv)
            show ?thesis
            proof (cases d)
              case (Inl e)
              then have "r' = ?r1\<lparr> rv_cache := \<sigma> \<rparr>" using Suc.prems(1) ok(3) False len g on opt nc d by simp
              then show ?thesis by (intro same) simp_all
            next
              case (Inr x)
              obtain e a \<sigma>1 where y: "rr_to_cache (rv_centa r) (enc ls) (int ?tp) (as_time ?ttl) x fl ts \<sigma> = Some (e, a, \<sigma>1)"
                using Suc.prems(1) ok(3) False len g on opt nc d Inr by (auto simp: Let_def bind_eq_Some_conv)
              show ?thesis
              proof (cases "e = RC_FATALERR")
                case True
                then have "r' = ?r1\<lparr> rv_centa := a, rv_cache := \<sigma>1 \<rparr>" using Suc.prems(1) ok(3) False len g on opt nc d Inr y by simp
                then show ?thesis by (intro same) simp_all
              next
                case False
                then obtain e2 where "rrs2cent E m n fl ts (?r2\<lparr> rv_centa := a, rv_cache := \<sigma>1 \<rparr>) = Some (e2, r')"
                  using Suc.prems(1) ok(3) \<open>\<not> ?c < 10\<close> len g on opt nc d Inr y by (auto simp: Let_def bind_eq_Some_conv)
                then show ?thesis by (rule rec) simp_all
              qed
            qed
          qed
        qed
      qed
    qed
  qed
qed auto

text \<open>An OPT record among the additional records of a message whose records begin at \<open>p\<close> changes the response code.\<close>

definition extended :: "byte list \<Rightarrow> nat \<Rightarrow> bool" where
  "extended m p = (\<exists>q c. skips m p (be_at m 6 + be_at m 8) q \<and> opt_code m q (be_at m 10) c \<and> c \<noteq> 0)"

subsection \<open>The sections\<close>

lemma admitted_update [simp]:
  "admitted (st\<lparr> qs_failed := f \<rparr>) = admitted st" "admitted (st\<lparr> qs_aa := a, qs_tc := t, qs_ra := r \<rparr>) = admitted st"
  by (rule ext, simp add: admitted_def responsible_def split: option.split)+

definition sec_res :: "nat \<Rightarrow> cent_array \<Rightarrow> cache \<Rightarrow> int \<Rightarrow> cent_array \<Rightarrow> cache \<Rightarrow> bool" where
  "sec_res n a \<sigma> rv a' \<sigma>' = (quiet \<sigma> \<sigma>' \<and> carr_ok a' \<and>
     (rv = RC_FATALERR \<and> \<not> no_fail \<sigma> \<or>
      rv \<in> {RC_OK, RC_FORMAT, RC_TRUNC} \<and> (\<exists>x. heads a' = heads a @ x \<and> length x \<le> n) \<and> (carr_typed a \<longrightarrow> carr_typed a')))"

lemma be_at_bound: "be_at m i < 65536"
proof -
  have "unat (m ! i) < 256" "unat (m ! (i + 1)) < 256"
    using unsigned_less [of "m ! i", where 'a = nat] unsigned_less [of "m ! (i + 1)", where 'a = nat] by simp_all
  then show ?thesis unfolding be_at_def by linarith
qed

lemma read_section_ok:
  assumes "12 \<le> length m" "length m \<le> rdlength_max" "cache_inv \<sigma>" "carr_ok a" "p + l = length m"
  obtains rv k a' p' l' ep' \<sigma>' where "read_section E m n fl ts a (p, l, ep) \<sigma> = Some (rv, k, a', (p', l', ep'), \<sigma>')"
    "p' + l' = length m" "sec_res n a \<sigma> rv a' \<sigma>'" "rv = RC_OK \<longrightarrow> skips m p n p'"
    "k \<noteq> 0 \<longrightarrow> (\<exists>c. opt_code m p n c \<and> ed_rcode ep' = c * 16 + unat (m ! 3 AND 0xf))"
proof -
  let ?r = "\<lparr> rv_ptr = p, rv_cnt = l, rv_centa = a, rv_numopt = 0, rv_ep = ep, rv_cache = \<sigma> \<rparr>"
  obtain rc r' where r: "rrs2cent E m n fl ts ?r = Some (rc, r')" "rrs_res m n fl ts ?r rc r'"
    using rrs2cent_spec [OF assms(1), of ?r E n fl ts] assms(3-5) by auto
  have "read_section E m n fl ts a (p, l, ep) \<sigma> = Some (rc, rv_numopt r', rv_centa r', (rv_ptr r', rv_cnt r', rv_ep r'), rv_cache r')"
    using r(1) by (simp add: read_section_def)
  moreover have "rv_ptr r' + rv_cnt r' = length m" using r(2) by (simp add: rrs_res_def)
  moreover have "sec_res n a \<sigma> rc (rv_centa r') (rv_cache r')" using r(2) assms(2) by (auto simp: rrs_res_def sec_res_def)
  moreover have "rc = RC_OK \<longrightarrow> skips m p n (rv_ptr r')" using r(2) by (auto simp: rrs_res_def dest: records_skips)
  moreover have "rv_numopt r' \<noteq> 0 \<longrightarrow> (\<exists>c. opt_code m p n c \<and> ed_rcode (rv_ep r') = c * 16 + unat (m ! 3 AND 0xf))"
    using rrs2cent_opt [OF assms(1) r(1)] assms(5) by auto
  ultimately show ?thesis by (rule that)
qed

definition secs_res :: "byte list \<Rightarrow> nat \<Rightarrow> dns_cent \<Rightarrow> int \<Rightarrow> qreply \<Rightarrow> int \<Rightarrow> int \<Rightarrow> qreply \<Rightarrow> bool" where
  "secs_res m p c rcode s rv rcode' s' = (quiet (rp_cache s) (rp_cache s') \<and> rp_ns s' = rp_ns s \<and>
     (\<exists>f. rp_st s' = (rp_st s)\<lparr> qs_failed := f \<rparr>) \<and> (\<not> extended m p \<longrightarrow> rcode = uint (m ! 3 AND 0xf) \<longrightarrow> rcode' = rcode) \<and>
     carr_ok (rp_ans s') \<and> carr_ok (rp_auth s') \<and> carr_ok (rp_add s') \<and>
     (rv = RC_FATALERR \<and> \<not> no_fail (rp_cache s) \<or>
      rv \<in> {RC_OK, RC_FORMAT, RC_TRUNC} \<and> carr_typed (rp_ans s') \<and> carr_typed (rp_auth s') \<and> carr_typed (rp_add s') \<and>
      (\<exists>x. heads (rp_ans s') = (ce_qname c, ce_flags c) # x \<and> length x < 65536) \<and>
      length (heads (rp_auth s')) < 65536 \<and> length (heads (rp_add s')) < 65536))"

lemma secs_resI:
  assumes "quiet (rp_cache s) (rp_cache s')" "rp_ns s' = rp_ns s" "rp_st s' = (rp_st s)\<lparr> qs_failed := f \<rparr>" "\<not> extended m p \<Longrightarrow> rcode = uint (m ! 3 AND 0xf) \<Longrightarrow> rcode' = rcode"
    "carr_ok (rp_ans s')" "carr_ok (rp_auth s')" "carr_ok (rp_add s')" "rv = RC_FATALERR \<Longrightarrow> \<not> no_fail (rp_cache s)"
    "rv \<noteq> RC_FATALERR \<Longrightarrow> rv \<in> {RC_OK, RC_FORMAT, RC_TRUNC} \<and> carr_typed (rp_ans s') \<and> carr_typed (rp_auth s') \<and> carr_typed (rp_add s') \<and>
      (\<exists>x. heads (rp_ans s') = (ce_qname c, ce_flags c) # x \<and> length x < 65536) \<and>
      length (heads (rp_auth s')) < 65536 \<and> length (heads (rp_add s')) < 65536"
  shows "secs_res m p c rcode s rv rcode' s'"
proof -
  have "\<exists>f. rp_st s' = (rp_st s)\<lparr> qs_failed := f \<rparr>" using assms(3) by (rule exI)
  then show ?thesis unfolding secs_res_def using assms(1,2,4-) by blast
qed

text \<open>One section as it is used: what a failure means, and what the entries are like otherwise.\<close>

lemma sec_resD:
  assumes "sec_res n a \<sigma> rv a' \<sigma>'"
  shows "quiet \<sigma> \<sigma>'" "cache_inv \<sigma>'" "no_fail \<sigma> \<Longrightarrow> no_fail \<sigma>'" "carr_ok a'" "rv = RC_FATALERR \<Longrightarrow> \<not> no_fail \<sigma>"
    "rv \<noteq> RC_FATALERR \<Longrightarrow> rv \<in> {RC_OK, RC_FORMAT, RC_TRUNC}"
    "rv \<noteq> RC_FATALERR \<Longrightarrow> carr_typed a \<Longrightarrow> carr_typed a'"
    "rv \<noteq> RC_FATALERR \<Longrightarrow> \<exists>x. heads a' = heads a @ x \<and> length x \<le> n"
  using assms by (auto simp: sec_res_def quiet_def)

lemma read_sections_ok:
  assumes m: "12 \<le> length m" "length m \<le> rdlength_max" and "fst pos + snd pos = length m"
    "cache_inv (rp_cache s)" "built c" "cent_recv c" "rp_ans s = Some [c]" "rp_auth s = None" "rp_add s = None"
  shows "\<exists>rv rcode' s'. read_sections E m fl ts rcode pos s = Some (rv, rcode', s') \<and> secs_res m (fst pos) c rcode s rv rcode' s'"
proof -
  have g: "get16 m 6 = Some (be_at m 6)" "get16 m 8 = Some (be_at m 8)" "get16 m 10 = Some (be_at m 10)" using m(1) by (simp_all add: get16_at)
  have b: "be_at m i < 65536" for i by (rule be_at_bound)
  have e: "carr_ok None" "carr_typed None" "heads None = []" by (simp_all add: carr_ok_def carr_typed_def heads_def ca_list_def)
  have h0: "heads (rp_ans s) = [(ce_qname c, ce_flags c)]" "carr_ok (rp_ans s)" "carr_typed (rp_ans s)"
    using assms(5-7) by (simp_all add: heads_def ca_list_def carr_ok_def carr_typed_def)
  have st: "rp_st s = (rp_st s)\<lparr> qs_failed := qs_failed (rp_st s) \<rparr>" by simp
  obtain rv1 k1 a1 p1 l1 ep1 \<sigma>1 where 1: "read_section E m (be_at m 6) fl ts (rp_ans s) (fst pos, snd pos, no_edns) (rp_cache s) =
      Some (rv1, k1, a1, (p1, l1, ep1), \<sigma>1)" "p1 + l1 = length m" "sec_res (be_at m 6) (rp_ans s) (rp_cache s) rv1 a1 \<sigma>1"
    "rv1 = RC_OK \<longrightarrow> skips m (fst pos) (be_at m 6) p1"
    by (rule read_section_ok [OF m assms(4) h0(2) assms(3)])
  note d1 = sec_resD [OF 1(3)]
  have h1: "\<exists>x. heads a1 = (ce_qname c, ce_flags c) # x \<and> length x < 65536" if "rv1 \<noteq> RC_FATALERR"
    using d1(8) [OF that] h0(1) b [of 6] le_less_trans by fastforce
  define s1 where "s1 = s\<lparr> rp_ans := a1, rp_cache := \<sigma>1 \<rparr>"
  have s1: "rp_auth s1 = None" "rp_add s1 = None" "rp_cache s1 = \<sigma>1" "rp_ans s1 = a1" "rp_st s1 = rp_st s" "rp_ns s1 = rp_ns s"
    using assms(8,9) by (simp_all add: s1_def)
  note run1 = read_sections_def g Option.bind.bind_lunit 1(1) prod.case Let_def s1_def [symmetric]
  show ?thesis
  proof (cases "rv1 = RC_OK")
    case False
    have "read_sections E m fl ts rcode pos s = Some (rv1, rcode, s1)" unfolding run1 using False by (simp only: if_True simp_thms)
    moreover have "secs_res m (fst pos) c rcode s rv1 rcode s1"
      by (rule secs_resI [where f = "qs_failed (rp_st s)"]) (use d1 h1 h0(3) e in \<open>simp_all add: s1\<close>)
    ultimately show ?thesis by blast
  next
    case ok1: True
    then have nf1: "rv1 \<noteq> RC_FATALERR" by simp
    let ?two = "if be_at m 8 = 0 then Some (RC_OK, 0, rp_auth s1, (p1, l1, ep1), rp_cache s1)
           else read_section E m (be_at m 8) (fl OR CF_ADDITIONAL) ts (rp_auth s1) (p1, l1, ep1) (rp_cache s1)"
    obtain rv2 k2 a2 p2 l2 ep2 \<sigma>2 where 2: "?two = Some (rv2, k2, a2, (p2, l2, ep2), \<sigma>2)" "p2 + l2 = length m" "sec_res (be_at m 8) None \<sigma>1 rv2 a2 \<sigma>2"
      "rv2 = RC_OK \<longrightarrow> skips m p1 (be_at m 8) p2"
    proof (cases "be_at m 8 = 0")
      case True
      have "sec_res (be_at m 8) None \<sigma>1 RC_OK None \<sigma>1" using d1(2) e by (simp add: sec_res_def quiet_refl)
      then show ?thesis using that [of RC_OK 0 None p1 l1 ep1 \<sigma>1] True 1(2) s1 skip_none [of m p1] by simp
    next
      case False
      obtain rv2 k2 a2 p2 l2 ep2 \<sigma>2 where x: "read_section E m (be_at m 8) (fl OR CF_ADDITIONAL) ts None (p1, l1, ep1) \<sigma>1 =
          Some (rv2, k2, a2, (p2, l2, ep2), \<sigma>2)" "p2 + l2 = length m" "sec_res (be_at m 8) None \<sigma>1 rv2 a2 \<sigma>2"
        "rv2 = RC_OK \<longrightarrow> skips m p1 (be_at m 8) p2"
        by (rule read_section_ok [OF m d1(2) e(1) 1(2)])
      then show ?thesis using that False s1 by simp
    qed
    note d2 = sec_resD [OF 2(3)]
    have q2: "quiet (rp_cache s) \<sigma>2" by (rule quiet_trans [OF d1(1) d2(1)])
    have h2: "length (heads a2) < 65536" if "rv2 \<noteq> RC_FATALERR" using d2(8) [OF that] e(3) b [of 8] by auto
    define s2 where "s2 = s1\<lparr> rp_auth := a2, rp_cache := \<sigma>2 \<rparr>"
    have s2: "rp_auth s2 = a2" "rp_add s2 = None" "rp_cache s2 = \<sigma>2" "rp_ans s2 = a1" "rp_st s2 = rp_st s" "rp_ns s2 = rp_ns s"
      by (simp_all add: s2_def s1)
    note run2 = run1 2(1) s2_def [symmetric]
    have nn: "\<not> rv1 \<noteq> RC_OK" using ok1 by simp
    show ?thesis
    proof (cases "rv2 \<noteq> RC_OK \<or> be_at m 10 = 0")
      case True
      have "read_sections E m fl ts rcode pos s = Some (rv2, rcode, s2)"
        unfolding run2 if_not_P [OF nn] if_P [OF True] by (rule refl)
      moreover have "secs_res m (fst pos) c rcode s rv2 rcode s2"
        by (rule secs_resI [where f = "qs_failed (rp_st s)"]) (use q2 d1(3,4) d1(7) [OF nf1] d2(4-7) h1 [OF nf1] h2 h0(3) e in \<open>auto simp: s2\<close>)
      ultimately show ?thesis by blast
    next
      case False
      then have nf2: "rv2 \<noteq> RC_FATALERR" by simp
      obtain rv3 k3 a3 p3 l3 ep3 \<sigma>3 where 3: "read_section E m (be_at m 10) (fl OR CF_ADDITIONAL) ts (rp_add s2) (p2, l2, ep2) (rp_cache s2) =
          Some (rv3, k3, a3, (p3, l3, ep3), \<sigma>3)" "p3 + l3 = length m" "sec_res (be_at m 10) None \<sigma>2 rv3 a3 \<sigma>3"
        "k3 \<noteq> 0 \<longrightarrow> (\<exists>c. opt_code m p2 (be_at m 10) c \<and> ed_rcode ep3 = c * 16 + unat (m ! 3 AND 0xf))"
        using read_section_ok [OF m d2(2) e(1) 2(2)] s2 by metis
      note d3 = sec_resD [OF 3(3)]
      have q3: "quiet (rp_cache s) \<sigma>3" by (rule quiet_trans [OF q2 d3(1)])
      have h3: "length (heads a3) < 65536" if "rv3 \<noteq> RC_FATALERR" using d3(8) [OF that] e(3) b [of 10] by auto
      define s3 where "s3 = s2\<lparr> rp_add := a3, rp_cache := \<sigma>3 \<rparr>"
      have s3: "rp_auth s3 = a2" "rp_add s3 = a3" "rp_cache s3 = \<sigma>3" "rp_ans s3 = a1" "rp_st s3 = rp_st s" "rp_ns s3 = rp_ns s"
        by (simp_all add: s3_def s2)
      let ?s4 = "s3\<lparr> rp_st := (rp_st s3)\<lparr> qs_failed := if qs_failed (rp_st s3) = 0 then 1 else qs_failed (rp_st s3) \<rparr> \<rparr>"
      have run: "read_sections E m fl ts rcode pos s = (if k3 \<noteq> 0 \<and> rcode \<noteq> int (ed_rcode ep3) then Some (rv3, int (ed_rcode ep3), ?s4) else Some (rv3, rcode, s3))"
        unfolding run2 if_not_P [OF nn] if_not_P [OF False] 3(1) s3_def [symmetric] by (rule refl)
      have fin: "secs_res m (fst pos) c rcode s rv3 rc x"
        if "x = s3 \<or> x = ?s4" "\<not> extended m (fst pos) \<longrightarrow> rcode = uint (m ! 3 AND 0xf) \<longrightarrow> rc = rcode" for rc x
      proof (rule secs_resI)
        show "quiet (rp_cache s) (rp_cache x)" "rp_ns x = rp_ns s" "carr_ok (rp_ans x)" "carr_ok (rp_auth x)" "carr_ok (rp_add x)"
          using that(1) q3 d1(4) d2(4) d3(4) by (auto simp: s3)
        show "rp_st x = (rp_st s)\<lparr> qs_failed := qs_failed (rp_st x) \<rparr>" using that(1) by (auto simp: s3)
        show "\<not> extended m (fst pos) \<Longrightarrow> rcode = uint (m ! 3 AND 0xf) \<Longrightarrow> rc = rcode" using that(2) by blast
        show "rv3 = RC_FATALERR \<Longrightarrow> \<not> no_fail (rp_cache s)" using d1(3) d2(3) d3(5) by blast
        assume n3: "rv3 \<noteq> RC_FATALERR"
        have "rp_ans x = a1" "rp_auth x = a2" "rp_add x = a3" using that(1) by (auto simp: s3)
        then show "rv3 \<in> {RC_OK, RC_FORMAT, RC_TRUNC} \<and> carr_typed (rp_ans x) \<and> carr_typed (rp_auth x) \<and> carr_typed (rp_add x) \<and>
            (\<exists>y. heads (rp_ans x) = (ce_qname c, ce_flags c) # y \<and> length y < 65536) \<and>
            length (heads (rp_auth x)) < 65536 \<and> length (heads (rp_add x)) < 65536"
          using d1(7) [OF nf1 h0(3)] d2(7) [OF nf2 e(2)] d3(6,7) [OF n3] e(2) h1 [OF nf1] h2 [OF nf2] h3 [OF n3] by simp
      qed
      show ?thesis
      proof (cases "k3 \<noteq> 0 \<and> rcode \<noteq> int (ed_rcode ep3)")
        case True
        have "int (ed_rcode ep3) = rcode" if "\<not> extended m (fst pos)" "rcode = uint (m ! 3 AND 0xf)"
        proof -
          have "skips m (fst pos) (be_at m 6 + be_at m 8) p2" using skips_append [of m "fst pos" "be_at m 6" p1] 1(4) 2(4) ok1 False by simp
          moreover obtain c where c: "opt_code m p2 (be_at m 10) c" "ed_rcode ep3 = c * 16 + unat (m ! 3 AND 0xf)" using 3(4) True by blast
          ultimately have "c = 0" using that(1) unfolding extended_def by blast
          then show ?thesis using c(2) that(2) by simp
        qed
        then have "secs_res m (fst pos) c rcode s rv3 (int (ed_rcode ep3)) ?s4" by (intro fin) simp_all
        then show ?thesis unfolding run if_P [OF True] by blast
      next
        case n: False
        have "secs_res m (fst pos) c rcode s rv3 rcode s3" by (rule fin) simp_all
        then show ?thesis unfolding run if_not_P [OF n] by blast
      qed
    qed
  qed
qed

subsection \<open>The question\<close>

text \<open>The message repeats one question, for \<open>nm\<close> and the type; the place where it ends.\<close>

definition repeats :: "byte list \<Rightarrow> name \<Rightarrow> int \<Rightarrow> nat \<Rightarrow> bool" where
  "repeats m nm tp p = (be_at m 4 = 1 \<and> (\<exists>ls l. readable m 12 ls l \<and> canon ls = key_of nm \<and>
     int (be_at m (12 + l)) = tp \<and> p = 16 + l \<and> p \<le> length m))"

lemma reply_question_ok:
  assumes "12 \<le> length m" "valid_name nm"
  shows "\<exists>q. reply_question E m nm tp = Some q \<and> (\<forall>p n. q = Some (p, n) \<longleftrightarrow> repeats m nm tp p \<and> p + n = length m)"
proof -
  obtain ks where ks: "wire_name ks" "nm = enc ks" "key_of nm = canon ks" "list_all name_label ks" using assms(2) by (rule valid_nameE)
  have q: "get16 m 4 = Some (be_at m 4)" using assms(1) by (simp add: get16_at)
  show ?thesis
  proof (cases "be_at m 4 = 1")
    case False
    then have "reply_question E m nm tp = Some None" using q by (simp add: reply_question_def)
    then show ?thesis using False by (simp add: repeats_def)
  next
    case one: True
    let ?f = "fresh E 0 DNSNAMEBUFSIZE"
    have f: "DNSNAMEBUFSIZE \<le> length ?f" by simp
    then show ?thesis
    proof (cases rule: decompress_readable [where m = m and p = 12 and cnt = "length m - 12"])
      case (err rc tgt')
      have "reply_question E m nm tp = Some None" using q one err(1,3) by (auto simp: reply_question_def)
      moreover have "\<not> repeats m nm tp p" for p unfolding repeats_def by (auto dest!: err(4))
      ultimately show ?thesis by simp
    next
      case (ok ls l)
      have n: "rhnicmp (enc ls @ drop (length (enc ls)) ?f) nm = Some (canon ls = key_of nm)"
        using rhnicmp_enc [of ls ks "drop (length (enc ls)) ?f" "[]"] ok(1) ks wire_name_labels by (auto simp: readable_def ci_eq_canon)
      have un: "repeats m nm tp p \<longleftrightarrow> canon ls = key_of nm \<and> int (be_at m (12 + l)) = tp \<and> p = 16 + l \<and> p \<le> length m" for p
        unfolding repeats_def using one ok(1) readable_unique [OF ok(1)] by blast
      let ?c = "canon ls = key_of nm" and ?l = "length m - 12 - l"
      show ?thesis
      proof (cases "\<not> ?c \<or> ?l < 4")
        case True
        have "reply_question E m nm tp = Some None" using q one ok(3) n True by (auto simp: reply_question_def)
        moreover have "\<not> repeats m nm tp p" for p using True ok(2) by (auto simp: un)
        ultimately show ?thesis by simp
      next
        case False
        then have "12 + l + 1 < length m" by linarith
        then have "get16 m (12 + l) = Some (be_at m (12 + l))" by (rule get16_at)
        then have r: "reply_question E m nm tp = Some (if int (be_at m (12 + l)) \<noteq> tp then None else Some (16 + l, ?l - 4))"
          using q one ok(3) n False by (simp add: reply_question_def)
        show ?thesis using r False by (intro exI [of _ "if int (be_at m (12 + l)) \<noteq> tp then None else Some (16 + l, ?l - 4)"]) (auto simp: un)
      qed
    qed
  qed
qed

subsection \<open>The whole function\<close>

definition query_ok :: "rconf \<Rightarrow> name \<Rightarrow> int \<Rightarrow> qreply \<Rightarrow> bool" where
  "query_ok R nm thint s = (valid_name nm \<and> wanted_ok thint \<and> list_all valid_name (rc_deleg_only R) \<and> st_ok (rp_st s) \<and>
     12 \<le> length (qs_msg (rp_st s)) \<and> store_ok (rp_cache s) \<and> ns_ok (rp_ns s) \<and>
     card (items (cents (rp_cache s))) + 3 * 65536 * NRRTOT < 2 ^ 32)"

lemma heads_length: "length (heads a) = length (ca_list a)"
  by (simp add: heads_def)

lemma carr_sounds: "carr_ok a \<Longrightarrow> carr_typed a \<Longrightarrow> sounds (ca_list a)"
  by (simp add: carr_ok_def carr_typed_def sounds_def sound_def built_def)

lemma carr_tidy: "carr_ok a \<Longrightarrow> tidy (ca_list a)"
  by (simp add: carr_ok_def tidy_def built_def cent_wf_def)

lemma secs_ready:
  assumes "secs_res m p c rcode s rv rcode' s'" "rv \<noteq> RC_FATALERR" "store_ok (rp_cache s)" "st_ok (rp_st s)" "ns_ok (rp_ns s)"
    "card (items (cents (rp_cache s))) + 3 * 65536 * NRRTOT < 2 ^ 32" "built c"
  shows "ready (ce_qname c) s'" "\<not> neg (hd (ca_list (rp_ans s')))"
proof -
  have r: "quiet (rp_cache s) (rp_cache s')" "rp_ns s' = rp_ns s" "sounds (all_cents s')"
    "\<exists>x. heads (rp_ans s') = (ce_qname c, ce_flags c) # x \<and> length x < 65536"
    "length (heads (rp_auth s')) < 65536" "length (heads (rp_add s')) < 65536"
    using assms(1,2) carr_sounds by (auto simp: secs_res_def)
  obtain f where f: "rp_st s' = (rp_st s)\<lparr> qs_failed := f \<rparr>" using assms(1) by (auto simp: secs_res_def)
  obtain x where x: "heads (rp_ans s') = (ce_qname c, ce_flags c) # x" "length x < 65536" using r(4) by blast
  then obtain d ds where d: "ca_list (rp_ans s') = d # ds" "ce_qname d = ce_qname c" "ce_flags d = ce_flags c" "length ds < 65536"
    by (auto simp: heads_def)
  have inv: "store_ok (rp_cache s')" "cache_inv (rp_cache s')" using quiet_store [OF r(1) assms(3)] r(1) by (simp_all add: quiet_def)
  have rk: "qreply_ok (ce_qname c) s'" using inv(2) r(3) d by (simp add: qreply_ok_def)
  have cc: "cents (rp_cache s') = cents (rp_cache s)" using r(1) by (simp add: quiet_def frameD)
  have "length (all_cents s') \<le> 3 * 65536" using d r(5,6) by (simp add: heads_length)
  then have "length (all_cents s') * NRRTOT \<le> 3 * 65536 * NRRTOT" by (rule mult_le_mono1)
  then have ro: "roomy s'" using assms(6) unfolding roomy_def cc by linarith
  have "st_ok (rp_st s')" using assms(4) f by (simp add: st_ok_def)
  then show "ready (ce_qname c) s'" using rk inv(1) ro r(2) assms(5) by (simp add: ready_def)
  show "\<not> neg (hd (ca_list (rp_ans s')))" using d(1,3) built_neg [OF assms(7)] by simp
qed

theorem process_reply_ok:
  assumes "query_ok R nm thint s" "12 \<le> length m" "length m \<le> rdlength_max"
  shows "\<exists>rc ent s'. process_reply E R nm thint ts m s = Some (rc, ent, s') \<and> reply_safe nm s rc ent s' \<and>
    ((\<forall>p. \<not> repeats m nm (qtype_of (rp_st s) thint) p) \<longrightarrow> rc = RC_SERVFAIL \<and> s' = s) \<and>
    (m ! 3 AND 0xf = 3 \<longrightarrow> (\<forall>p. repeats m nm (qtype_of (rp_st s) thint) p \<longrightarrow> \<not> extended m p) \<longrightarrow> rc = RC_OK \<longrightarrow> (\<exists>c ttl. ent = Some c \<and> ce_body c = NegBody None ttl ts))"
proof -
  let ?qt = "qtype_of (rp_st s) thint"
  have vn: "valid_name nm" and wk: "wanted_ok thint" and zo: "list_all valid_name (rc_deleg_only R)" and so: "st_ok (rp_st s)"
    and ql: "12 \<le> length (qs_msg (rp_st s))" and sk: "store_ok (rp_cache s)" and nk: "ns_ok (rp_ns s)"
    and room: "card (items (cents (rp_cache s))) + 3 * 65536 * NRRTOT < 2 ^ 32"
    using assms(1) by (simp_all add: query_ok_def)
  have inv: "cache_inv (rp_cache s)" using sk by (simp add: store_ok_def)
  obtain q where q: "reply_question E m nm ?qt = Some q" "\<And>p n. q = Some (p, n) \<longleftrightarrow> repeats m nm ?qt p \<and> p + n = length m"
    using reply_question_ok [OF assms(2) vn] by blast
  show ?thesis
  proof (cases q)
    case None
    then have na: "\<not> repeats m nm ?qt p" for p using q(2) [of p "length m - p"] by (auto simp: repeats_def)
    have "process_reply E R nm thint ts m s = Some (RC_SERVFAIL, None, s)" using q(1) None by (simp add: process_reply_def Let_def)
    moreover have "reply_safe nm s RC_SERVFAIL None s" using stored_refl [OF sk] nk by (simp add: reply_safe_def)
    ultimately show ?thesis by (intro exI [of _ RC_SERVFAIL] exI [of _ None] exI [of _ s]) simp
  next
    case (Some pos)
    then have as: "repeats m nm ?qt (fst pos)" and pl: "fst pos + snd pos = length m" using q(2) [of "fst pos" "snd pos"] by simp_all
    let ?ok = "\<lambda>rc ent s'. reply_safe nm s rc ent s' \<and>
      (m ! 3 AND 0xf = 3 \<longrightarrow> (\<forall>p. repeats m nm ?qt p \<longrightarrow> \<not> extended m p) \<longrightarrow> rc = RC_OK \<longrightarrow> (\<exists>c ttl. ent = Some c \<and> ce_body c = NegBody None ttl ts))"
    have goal: ?thesis if run: "process_reply E R nm thint ts m s = Some (rc, ent, s')" and ok: "?ok rc ent s'" for rc ent s'
    proof -
      have nr: "(\<forall>p. \<not> repeats m nm ?qt p) \<longrightarrow> rc = RC_SERVFAIL \<and> s' = s" using as by blast
      show ?thesis
        by (rule exI [of _ rc], rule exI [of _ ent], rule exI [of _ s'])
          (rule conjI [OF run conjI [OF conjunct1 [OF ok] conjI [OF nr conjunct2 [OF ok]]]])
    qed
    obtain aa0 tc0 ra0 rd0 where h: "hdr_aa m = Some aa0" "hdr_tc m = Some tc0" "hdr_ra m = Some ra0" "hdr_rd (qs_msg (rp_st s)) = Some rd0"
      using assms(2) ql by (simp add: hdr_aa_def hdr_tc_def hdr_ra_def hdr_rd_def rd_nth)
    have hr: "hdr_rcode m = Some (m ! 3 AND 0xf)" using assms(2) by (rule hdr_at)
    define st where "st = (rp_st s)\<lparr> qs_aa := aa0 \<and> qs_failed (rp_st s) = 0, qs_tc := tc0, qs_ra := rd0 \<and> ra0 \<rparr>"
    define u where "u = s\<lparr> rp_st := st, rp_ans := None, rp_auth := None, rp_add := None \<rparr>"
    define aa where "aa = (qs_aa st \<and> \<not> qs_tc st)"
    define fl where "fl = (if aa then qs_flags st OR CF_AUTH else qs_flags st)"
    have ad: "admitted st = admitted (rp_st s)" "st_ok st" using so by (simp_all add: st_def st_ok_def)
    have uu: "rp_cache u = rp_cache s" "rp_st u = st" "rp_ans u = None" "rp_ns u = rp_ns s" "rp_auth u = None" "rp_add u = None"
      by (simp_all add: u_def)
    have fatal: "?ok RC_FATALERR None (u\<lparr> rp_cache := \<sigma> \<rparr>)"
      if "quiet (rp_cache s) \<sigma>" "\<not> no_fail (rp_cache s)" for \<sigma>
    proof -
      have "cents \<sigma> = cents (rp_cache s)" using that(1) by (simp add: quiet_def frameD)
      then have "reply_safe nm s RC_FATALERR None (u\<lparr> rp_cache := \<sigma> \<rparr>)"
        using that nk quiet_store [OF that(1) sk] confined_cents uu by (simp add: reply_safe_def stored_ok_def)
      then show ?thesis by simp
    qed
    obtain a \<sigma>1 where g: "ca_grow None (rp_cache s) = Some (a, \<sigma>1)" "quiet (rp_cache s) \<sigma>1" "a = Some [] \<or> a = None \<and> \<not> no_fail (rp_cache s)"
      using ca_grow_spec [OF inv, of None] by (auto simp: ca_list_def)
    let ?cf = "if aa \<and> ?qt = QT_ALL then DF_AUTH else 0 :: u16"
    have st_q: "qtype_of st thint = ?qt" by (simp add: st_def qtype_of_def)
    note run0 = process_reply_def Let_def q(1) Some Option.bind.bind_lunit option.case h hr
        st_def [symmetric] u_def [symmetric] aa_def [symmetric] fl_def [symmetric] uu(3) uu(1) g(1) prod.case
    show ?thesis
    proof (cases a)
      case None
      have "process_reply E R nm thint ts m s = Some (RC_FATALERR, None, u\<lparr> rp_cache := \<sigma>1 \<rparr>)" unfolding run0 using None by (simp only: if_True simp_thms)
      then show ?thesis by (rule goal) (rule fatal [OF g(2)], use g(3) None in blast)
    next
      case aS: (Some x)
      obtain new \<sigma>2 where n: "init_cent nm 0 0 ?cf \<sigma>1 = Some (new, \<sigma>2)" "frame \<sigma>1 \<sigma>2" "rrl \<sigma>2 = rrl \<sigma>1"
        "new \<in> {None, Some (new_cent nm 0 0 ?cf)}" "no_fail \<sigma>1 \<longrightarrow> new \<noteq> None \<and> no_fail \<sigma>2"
        using init_cent_spec [OF vn, of "[]" 0 0 ?cf \<sigma>1] by auto
      have n': "init_cent nm 0 0 ?cf (rp_cache (u\<lparr> rp_cache := \<sigma>1 \<rparr>)) = Some (new, \<sigma>2)" using n(1) by simp
      have i1: "cache_inv \<sigma>1" using g(2) by (simp add: quiet_def)
      have "quiet \<sigma>1 \<sigma>2" using i1 n(2,3,5) cinv_frame unfolding quiet_def cache_inv_def by (auto simp: frameD)
      then have q2: "quiet (rp_cache s) \<sigma>2" by (rule quiet_trans [OF g(2)])
      show ?thesis
      proof (cases new)
        case None
        have "process_reply E R nm thint ts m s = Some (RC_FATALERR, None, u\<lparr> rp_cache := \<sigma>2 \<rparr>)"
          unfolding run0 n' using aS None by simp
        moreover have "\<not> no_fail (rp_cache s)" using n(5) None g(2) by (auto simp: quiet_def)
        ultimately show ?thesis using goal [OF _ fatal [OF q2]] by blast
      next
        case nS: (Some c)
        then have c: "c = new_cent nm 0 0 ?cf" using n(4) by simp
        note np = new_cent_props [OF vn, of 0 0 ?cf, folded c]
        have bc: "built c" "cent_recv c" "ce_qname c = nm" using np by (simp_all add: built_def cent_recv_def)
        define w where "w = u\<lparr> rp_cache := \<sigma>1, rp_cache := \<sigma>2, rp_ans := Some [c] \<rparr>"
        have ww: "rp_cache w = \<sigma>2" "rp_ans w = Some [c]" "rp_auth w = None" "rp_add w = None" "rp_ns w = rp_ns s" "rp_st w = st"
          using uu by (simp_all add: w_def)
        have iw: "cache_inv (rp_cache w)" using q2 ww(1) by (simp add: quiet_def)
        obtain rv rcode v where r: "read_sections E m fl ts (uint (m ! 3 AND 0xf)) pos w = Some (rv, rcode, v)"
          "secs_res m (fst pos) c (uint (m ! 3 AND 0xf)) w rv rcode v"
          using read_sections_ok [OF assms(2,3) pl iw bc(1,2) ww(2-4)] by blast
        have run: "process_reply E R nm thint ts m s = (if \<not> (rv = RC_OK \<or> (rv = RC_TRUNC \<and> tc0))
                 then fail_ent (if rv = RC_FATALERR then rv else RC_SERVFAIL) v
                 else finish_reply R nm thint fl aa ts rcode v)"
          unfolding run0 n' nS w_def [symmetric] r(1) aS by (simp only: option.distinct if_False)
        obtain f where f: "rp_st v = (rp_st w)\<lparr> qs_failed := f \<rparr>" using r(2) unfolding secs_res_def by blast
        have vs: "quiet \<sigma>2 (rp_cache v)" "rp_ns v = rp_ns s" "rp_st v = st\<lparr> qs_failed := f \<rparr>"
          "carr_ok (rp_ans v)" "carr_ok (rp_auth v)" "carr_ok (rp_add v)"
          "rv = RC_FATALERR \<longrightarrow> \<not> no_fail \<sigma>2"
          using f r(2) ww unfolding secs_res_def by auto
        have ext: "\<not> extended m (fst pos) \<longrightarrow> rcode = uint (m ! 3 AND 0xf)" using r(2) by (simp add: secs_res_def)
        have av: "admitted (rp_st v) = admitted (rp_st s)" using ad(1) vs(3) by simp
        have qv: "quiet (rp_cache s) (rp_cache v)" by (rule quiet_trans [OF q2 vs(1)])
        have sv: "store_ok (rp_cache v)" by (rule quiet_store [OF qv sk])
        note lift = reply_safe_quiet [OF _ qv av]
        show ?thesis
        proof (cases "rv = RC_OK \<or> (rv = RC_TRUNC \<and> tc0)")
          case False
          let ?rv = "if rv = RC_FATALERR then rv else RC_SERVFAIL"
          have td: "tidy (all_cents v)" using carr_tidy vs(4-6) by (simp add: tidy_def ball_Un)
          have fe: "fail_ent ?rv v = Some (?rv, None, v)" using td by (simp add: fail_ent_def free_arrays_ok)
          have "cents (rp_cache v) = cents (rp_cache s)" using qv by (simp add: quiet_def frameD)
          moreover have "rv = RC_FATALERR \<longrightarrow> \<not> no_fail (rp_cache s)" using vs(7) q2 by (auto simp: quiet_def)
          ultimately have "reply_safe nm s ?rv None v"
            using qv sv vs(2) nk confined_cents by (auto simp: reply_safe_def stored_ok_def quiet_def)
          then have "?ok ?rv None v" by simp
          moreover have "process_reply E R nm thint ts m s = Some (?rv, None, v)" unfolding run fe using False by simp
          ultimately show ?thesis by (rule goal [rotated])
        next
          case True
          have cc: "cents (rp_cache w) = cents (rp_cache s)" using q2 ww(1) by (simp add: quiet_def frameD)
          have "rv \<noteq> RC_FATALERR" using True by auto
          have sw: "store_ok \<sigma>2" by (rule quiet_store [OF q2 sk])
          have cw: "cents \<sigma>2 = cents (rp_cache s)" using cc ww(1) by simp
          have rv': "ready nm v" "\<not> neg (hd (ca_list (rp_ans v)))"
            using secs_ready [OF r(2) \<open>rv \<noteq> RC_FATALERR\<close>] ww cw sw ad(2) nk room bc(1,3) by simp_all
          obtain rc ent s' where x: "finish_reply R nm thint fl aa ts rcode v = Some (rc, ent, s')" "reply_safe nm v rc ent s'"
            "rcode = RC_NAMEERR \<longrightarrow> rc = RC_OK \<longrightarrow> (\<exists>c ttl. ent = Some c \<and> ce_body c = NegBody None ttl ts)"
            using finish_reply_ok [OF rv' zo wk, of fl aa ts rcode] by (elim exE conjE) (rule that)
          have "process_reply E R nm thint ts m s = Some (rc, ent, s')" unfolding run x(1) [symmetric] using True by simp
          then show ?thesis
          proof (rule goal)
            have "rcode = RC_NAMEERR" if "m ! 3 AND 0xf = 3" "\<forall>p. repeats m nm ?qt p \<longrightarrow> \<not> extended m p"
              using ext that as by auto
            then show "?ok rc ent s'" using x(3) by (intro conjI impI lift [OF x(2)]) simp
          qed
        qed
      qed
    qed
  qed
qed

end
