(* ===== verification/Pd_ReplyProps.thy ===== *)
theory Pd_ReplyProps
  imports Pd_ReplyRun Pd_AnswerProps
begin

text \<open>
  The properties of the replies of other servers: which messages are used, what is read from them, and
  what they can do to the cache.
\<close>

subsection \<open>An example\<close>

text \<open>A query for the address of \<open>a\<close> to a server for \<open>a\<close>, its answer with one record, and a name error.\<close>

definition ex_stat :: query_stat where
  "ex_stat = \<lparr> qs_flags = 0, qs_nocache = False, qs_auth_serv = 0, qs_lean_query = True, qs_edns_query = False, qs_trusted = False,
     qs_aa = False, qs_tc = False, qs_ra = False, qs_failed = 0, qs_nsdomain = Some [1, 97, 0], qs_rejectlist = None, qs_transl = 12,
     qs_msg = [0x12, 0x34, 1, 0, 0, 1, 0, 0, 0, 0, 0, 0], qs_myrid = 0x1234 \<rparr>"

definition rep_conf :: rconf where
  "rep_conf = \<lparr> rc_neg_ttl = 900, rc_neg_domain_pol = C_ON, rc_neg_rrs_pol = C_DEFAULT, rc_deleg_only = [],
     rc_cache = ex_conf \<rparr>"

definition ex_reply :: qreply where
  "ex_reply = \<lparr> rp_ans = None, rp_auth = None, rp_add = None, rp_ns = [], rp_csoa = None, rp_st = ex_stat,
     rp_cache = init_cache [], rp_clock = [1000] \<rparr>"

definition ex_answer :: "byte list" where
  "ex_answer = [0x12, 0x34, 0x84, 0, 0, 1, 0, 1, 0, 0, 0, 0, 1, 97, 0, 0, 1, 0, 1,
     0xc0, 0x0c, 0, 1, 0, 1, 0, 0, 0x0e, 0x10, 0, 4, 192, 0, 2, 1]"

definition ex_nxdomain :: "byte list" where
  "ex_nxdomain = [0x12, 0x34, 0x84, 3, 0, 1, 0, 0, 0, 0, 0, 0, 1, 97, 0, 0, 1, 0, 1]"

lemma rep_name: "valid_name [1, 97, 0]"
  using valid_name_enc [of "[[97]]"] by (simp add: wire_name_def wire_label_def)

lemma ex_store: "store_ok (init_cache [])"
  using init_cache_inv init_facts(4) by (simp add: store_ok_def)

lemma ex_query: "query_ok rep_conf [1, 97, 0] T_A ex_reply"
proof -
  have "\<not> PDNSD_NOT_CACHED_TYPE T_A" by code_simp
  then have "wanted_ok T_A" by (simp add: wanted_ok_def)
  moreover have "card (items (cents (init_cache []))) = 0" using init_facts(4) by (simp add: items_def)
  ultimately show ?thesis using rep_name ex_store
    by (simp add: query_ok_def rep_conf_def ex_reply_def ex_stat_def st_ok_def ns_ok_def)
qed

lemma ex_lengths: "12 \<le> length ex_answer" "length ex_answer \<le> rdlength_max" "12 \<le> length ex_nxdomain" "length ex_nxdomain \<le> rdlength_max"
  by (simp_all add: ex_answer_def ex_nxdomain_def)

subsection \<open>Safety\<close>

text \<open>
  C2. Handling a reply ends for every message of 12 (a header) to 65279 bytes, whatever is in it and whatever
  allocations fail, without a failing assertion or an access outside an object. The cache stays in order
  and its data typed; an entry comes back exactly with \<open>RC_OK\<close>, is in order, and has the name asked for; a
  fatal error means that memory ran out. The code also takes replies of up to 65535 bytes over TCP;
  a record of more than 65279 bytes of them may grow beyond 65535 bytes when names in it are expanded,
  and nothing is claimed about such messages.
\<close>
theorem process_reply_safe:
  assumes "query_ok R nm thint s" "12 \<le> length m" "length m \<le> rdlength_max"
  shows "\<exists>rc ent s'. process_reply E R nm thint ts m s = Some (rc, ent, s') \<and> store_ok (rp_cache s') \<and>
    (case ent of None \<Rightarrow> rc \<noteq> RC_OK | Some c \<Rightarrow> rc = RC_OK \<and> copy_ok c \<and> ce_qname c = nm) \<and>
    (no_fail (rp_cache s) \<longrightarrow> no_fail (rp_cache s') \<and> rc \<noteq> RC_FATALERR)"
proof -
  obtain rc ent s' where r: "process_reply E R nm thint ts m s = Some (rc, ent, s')" "reply_safe nm s rc ent s'"
    using process_reply_ok [OF assms, of E ts] by blast
  have "copy_ok c" if "ent = Some c" for c
    using r(2) that cent_recv_data by (simp add: reply_safe_def sound_def copy_ok_def)
  then show ?thesis using r by (cases ent) (simp_all add: reply_safe_def stored_ok_def)
qed

theorem process_reply_safe_witness:
  "\<exists>rc ent s'. process_reply dead_env rep_conf [1, 97, 0] T_A 1000 ex_answer ex_reply = Some (rc, ent, s') \<and> store_ok (rp_cache s')"
  using process_reply_safe [OF ex_query ex_lengths(1,2), of dead_env 1000] by blast

text \<open>
  C3. When the server that was asked is not trusted and has a domain (the server sets of a \<open>paranoid\<close>
  configuration), its reply cannot poison the cache: it adds no entry, no record and no negative entry for a
  name outside that domain. Nothing is ever added for the root by a server that the configuration file does
  not list. From a server that is trusted or has no domain every other name is admitted. Entries of names
  that are not admitted hold only what they held.
\<close>
theorem process_reply_confined:
  assumes "query_ok R nm thint s" "12 \<le> length m" "length m \<le> rdlength_max"
    "process_reply E R nm thint ts m s = Some (rc, ent, s')"
  shows "confined (admitted (rp_st s)) (rp_cache s) (rp_cache s')"
  using process_reply_ok [OF assms(1-3), of E ts] assms(4) unfolding reply_safe_def stored_ok_def by auto

theorem process_reply_confined_witness:
  "\<exists>rc ent s'. process_reply dead_env rep_conf [1, 97, 0] T_A 1000 ex_answer ex_reply = Some (rc, ent, s') \<and>
     confined (admitted ex_stat) (init_cache []) (rp_cache s')"
proof -
  obtain rc ent s' where "process_reply dead_env rep_conf [1, 97, 0] T_A 1000 ex_answer ex_reply = Some (rc, ent, s')"
    using process_reply_ok [OF ex_query ex_lengths(1,2), of dead_env 1000] by blast
  moreover from process_reply_confined [OF ex_query ex_lengths(1,2) this]
  have "confined (admitted ex_stat) (init_cache []) (rp_cache s')" by (simp add: ex_reply_def)
  ultimately show ?thesis by blast
qed

text \<open>
  C10. A message that does not repeat the question it should answer, one question with the name (up to
  case) and the type asked for, is not used: the result is \<open>RC_SERVFAIL\<close> and nothing at all changes.
\<close>
theorem process_reply_mismatch:
  assumes "query_ok R nm thint s" "12 \<le> length m" "length m \<le> rdlength_max"
    "\<And>p. \<not> repeats m nm (qtype_of (rp_st s) thint) p"
  shows "process_reply E R nm thint ts m s = Some (RC_SERVFAIL, None, s)"
proof -
  obtain rc ent s' where r: "process_reply E R nm thint ts m s = Some (rc, ent, s')" "reply_safe nm s rc ent s'"
    "rc = RC_SERVFAIL \<and> s' = s" using process_reply_ok [OF assms(1-3), of E ts] assms(4) by blast
  then show ?thesis by (cases ent) (simp_all add: reply_safe_def)
qed

theorem process_reply_mismatch_witness:
  "process_reply dead_env rep_conf [1, 97, 0] T_AAAA 1000 ex_answer ex_reply = Some (RC_SERVFAIL, None, ex_reply)"
proof (rule process_reply_mismatch)
  have "\<not> PDNSD_NOT_CACHED_TYPE T_AAAA" by code_simp
  then have "wanted_ok T_AAAA" by (simp add: wanted_ok_def)
  then show "query_ok rep_conf [1, 97, 0] T_AAAA ex_reply" using ex_query by (simp add: query_ok_def)
  show "12 \<le> length ex_answer" "length ex_answer \<le> rdlength_max" by (rule ex_lengths)+
  fix p
  have n: "name_at ex_answer 12 [[97]] 0 3" by (simp add: name_at_label name_at_zero ex_answer_def)
  show "\<not> repeats ex_answer [1, 97, 0] (qtype_of (rp_st ex_reply) T_AAAA) p"
  proof
    assume "repeats ex_answer [1, 97, 0] (qtype_of (rp_st ex_reply) T_AAAA) p"
    then obtain ls l where l: "readable ex_answer 12 ls l" "int (be_at ex_answer (12 + l)) = T_AAAA"
      by (auto simp: repeats_def qtype_of_def ex_reply_def ex_stat_def)
    then have "l = 3" using name_at_unique [OF n] by (auto simp: readable_def)
    then show False using l(2) by (simp add: be_at_def ex_answer_def)
  qed
qed

text \<open>
  C11. When the header of a reply says that the name does not exist, every successful outcome is a negative
  entry with the time of the query, unless the additional section has an OPT record with bits of an extended
  response code, which then count instead.
\<close>
theorem process_reply_nxdomain:
  assumes "query_ok R nm thint s" "12 \<le> length m" "length m \<le> rdlength_max" "m ! 3 AND 0xf = 3"
    "\<And>p. repeats m nm (qtype_of (rp_st s) thint) p \<Longrightarrow> \<not> extended m p"
    "process_reply E R nm thint ts m s = Some (RC_OK, ent, s')"
  shows "\<exists>c ttl. ent = Some c \<and> ce_body c = NegBody None ttl ts"
proof -
  obtain rc e t where "process_reply E R nm thint ts m s = Some (rc, e, t)"
    "rc = RC_OK \<longrightarrow> (\<exists>c ttl. e = Some c \<and> ce_body c = NegBody None ttl ts)"
    using process_reply_ok [OF assms(1-3), of E ts] assms(4,5) by blast
  then show ?thesis using assms(6) by simp
qed

theorem process_reply_nxdomain_witness:
  "\<exists>ent s' c ttl. process_reply dead_env rep_conf [1, 97, 0] T_A 1000 ex_nxdomain ex_reply = Some (RC_OK, ent, s') \<and>
     ent = Some c \<and> ce_body c = NegBody None ttl 1000"
proof -
  let ?r = "process_reply dead_env rep_conf [1, 97, 0] T_A 1000 ex_nxdomain ex_reply"
  have "map_option fst ?r = Some RC_OK" by code_simp
  then obtain ent s' where r: "?r = Some (RC_OK, ent, s')" by auto
  have rc: "ex_nxdomain ! 3 AND 0xf = 3" by (simp add: ex_nxdomain_def)
  have "be_at ex_nxdomain 10 = 0" by (simp add: ex_nxdomain_def be_at_def)
  then have "\<not> extended ex_nxdomain p" for p by (simp add: extended_def opt_code_def)
  then show ?thesis using process_reply_nxdomain [OF ex_query ex_lengths(3,4) rc _ r] r by blast
qed

text \<open>
  C12. The list of name servers collected from a reply is well formed, each item a domain (or the mark that
  it is that of the item before) and a server, and lists no server twice, not even in different case.
\<close>
theorem process_reply_servers:
  assumes "query_ok R nm thint s" "12 \<le> length m" "length m \<le> rdlength_max"
    "process_reply E R nm thint ts m s = Some (rc, ent, s')"
  shows "list_all ns_item (rp_ns s') \<and> distinct (map ns_server (rp_ns s'))"
  using process_reply_ok [OF assms(1-3), of E ts] assms(4) unfolding reply_safe_def ns_ok_def by auto

theorem process_reply_servers_witness:
  "\<exists>rc ent s'. process_reply dead_env rep_conf [1, 97, 0] T_A 1000 ex_answer ex_reply = Some (rc, ent, s') \<and>
     distinct (map ns_server (rp_ns s'))"
proof -
  obtain rc ent s' where "process_reply dead_env rep_conf [1, 97, 0] T_A 1000 ex_answer ex_reply = Some (rc, ent, s')"
    using process_reply_ok [OF ex_query ex_lengths(1,2), of dead_env 1000] by blast
  moreover from process_reply_servers [OF ex_query ex_lengths(1,2) this] have "distinct (map ns_server (rp_ns s'))" by simp
  ultimately show ?thesis by blast
qed

subsection \<open>The query that is sent again\<close>

text \<open>Each new attempt has given up one thing: the wish for recursion, or EDNS.\<close>

definition wishes :: "query_stat \<Rightarrow> nat" where
  "wishes st = (if hdr_rd (qs_msg st) = Some True then 1 else 0) + (if qs_edns_query st then 1 else 0)"

lemma wrn_at: "i + length b \<le> length m \<Longrightarrow> wrn m i b = Some (splice m i b)"
  by (simp add: wrn_splice)

lemma be16_len: "length (be16 x) = 2"
  by (simp add: be16_def)

lemma new_id_ok:
  assumes "12 \<le> length (qs_msg st)"
  shows "\<exists>m. new_id rid st = Some (st\<lparr> qs_msg := m, qs_myrid := rid \<rparr>) \<and> length m = length (qs_msg st) \<and> drop 2 m = drop 2 (qs_msg st)"
proof -
  let ?q = "splice (qs_msg st) 0 (be16 (word_of_nat rid))"
  have "wrn (qs_msg st) 0 (be16 (word_of_nat rid)) = Some ?q" by (rule wrn_at) (use assms be16_len in simp)
  then have "new_id rid st = Some (st\<lparr> qs_msg := ?q, qs_myrid := rid \<rparr>)" unfolding new_id_def by (simp only: Option.bind.bind_lunit)
  moreover have "length ?q = length (qs_msg st)" "drop 2 ?q = drop 2 (qs_msg st)" using assms be16_len by (simp_all add: splice_def numeral_2_eq_2)
  ultimately show ?thesis by (intro exI [of _ ?q] conjI)
qed

lemma hdr_rd_drop:
  assumes "12 \<le> length m" "length m' = length m" "drop 2 m' = drop 2 m"
  shows "hdr_rd m' = hdr_rd m"
proof -
  have "m' ! 2 = m ! 2" using assms nth_drop [of 2 m' 0] nth_drop [of 2 m 0] by simp
  then show ?thesis using assms by (simp add: hdr_rd_def rd_nth)
qed

lemma clear_rd_ok:
  assumes "12 \<le> length m"
  shows "\<exists>q. clear_rd m = Some q \<and> length q = length m \<and> hdr_rd q = Some False"
proof -
  have "clear_rd m = Some (m[2 := m ! 2 AND NOT 1])" using assms by (simp add: clear_rd_def rd_nth wr_def)
  moreover have "\<not> bit ((m ! 2) AND NOT 1) 0" by (simp add: bit_simps)
  ultimately show ?thesis using assms by (simp add: hdr_rd_def rd_nth)
qed

lemma remove_opt_ok:
  assumes "12 \<le> length m" "k \<le> length m"
  shows "\<exists>t q. remove_opt_pseudo_rr m k = Some (t, q) \<and> length q = length m \<and> hdr_rd q = hdr_rd m"
proof -
  have g: "get16 m 10 = Some (be_at m 10)" using assms(1) by (simp add: get16_at)
  show ?thesis
  proof (cases "be_at m 10 > 0 \<and> k \<ge> 12 + 11")
    case False
    then have "remove_opt_pseudo_rr m k = Some (0, m)" unfolding remove_opt_pseudo_rr_def g by (simp only: Option.bind.bind_lunit) auto
    then show ?thesis by simp
  next
    case True
    have e: "k - 11 + 1 = k - 10" "k - 10 + 1 < length m" "k - 11 < length m" using True assms(2) by linarith+
    have r: "rd m (k - 11) = Some (m ! (k - 11))" by (rule rd_nth [OF e(3)])
    have r2: "get16 m (k - 11 + 1) = Some (be_at m (k - 10))" unfolding e(1) by (rule get16_at [OF e(2)])
    define x :: u16 where "x = word_of_nat (be_at m 10 - 1)"
    let ?q = "splice m 10 (be16 x)"
    have w: "wrn m 10 (be16 x) = Some ?q" by (rule wrn_at) (use assms be16_len in simp)
    have "remove_opt_pseudo_rr m k \<in> {Some (0, m), Some (k - 11, ?q)}"
      unfolding remove_opt_pseudo_rr_def g r r2 x_def [symmetric] w Option.bind.bind_lunit using True by simp
    moreover have "?q ! 2 = m ! 2" "length ?q = length m" using assms(1) be16_len by (simp_all add: splice_def nth_append)
    moreover from this have "hdr_rd ?q = hdr_rd m" using assms(1) by (simp add: hdr_rd_def rd_nth)
    ultimately show ?thesis by auto
  qed
qed

text \<open>
  C13. Judging the header of a message never fails. A message is used only if it is a response with the
  identifier of the query, an ordinary opcode and no reserved bit, and tells success, that the name does
  not exist, or a failure in a reply with answers, when the server was not listed in the configuration file
  (\<open>auth_serv\<close> is 2); and whenever the query is sent
  again, under the new identifier, it asks for less than before, so that it is sent at most three times.
\<close>
theorem judge_reply_correct:
  assumes "12 \<le> length (qs_msg st)" "qs_transl st \<le> length (qs_msg st)"
  shows "\<exists>v st'. judge_reply m full rid st = Some (v, st') \<and> length (qs_msg st') = length (qs_msg st) \<and>
    (v = Use \<longrightarrow> 12 \<le> length m \<and> be_at m 0 = qs_myrid st \<and> bit (m ! 2) 7 \<and> drop_bit 3 (m ! 2) AND 0xf = 0 \<and> \<not> bit (m ! 3) 6 \<and>
       (uint (m ! 3 AND 0xf) \<in> {RC_OK, RC_NAMEERR} \<and> st' = st \<or> qs_auth_serv st = 2 \<and> be_at m 6 \<noteq> 0 \<and> st' = st\<lparr> qs_failed := 3 \<rparr>)) \<and>
    (v = Again \<longrightarrow> qs_myrid st' = rid \<and> wishes st' < wishes st)"
proof (cases "length m < 12")
  case True
  then have "judge_reply m full rid st = Some (Discard RC_SERVFAIL, st)" by (simp add: judge_reply_def)
  then show ?thesis by simp
next
  case len: False
  then have h: "get16 m 0 = Some (be_at m 0)" "hdr_ra m = Some (bit (m ! 3) 7)" "get16 m 6 = Some (be_at m 6)"
    by (simp_all add: get16_at hdr_ra_def rd_nth)
  have g: "hdr_qr m = Some (bit (m ! 2) 7)" "hdr_opcode m = Some (drop_bit 3 (m ! 2) AND 0xf)" "hdr_z m = Some (bit (m ! 3) 6)"
    "hdr_rcode m = Some (m ! 3 AND 0xf)" using hdr_at [of m] len by simp_all
  let ?rc = "uint (m ! 3 AND 0xf)"
  obtain rdes where rdes: "hdr_rd (qs_msg st) = Some rdes" using assms(1) by (simp add: hdr_rd_def rd_nth)
  have ac: "get16 (qs_msg st) 10 = Some (be_at (qs_msg st) 10)" using assms(1) by (simp add: get16_at)
  have wo: "\<exists>v st'. try_withoutedns rid c st = Some (v, st') \<and> length (qs_msg st') = length (qs_msg st) \<and> v \<noteq> Use \<and>
      (v = Again \<longrightarrow> qs_myrid st' = rid \<and> wishes st' < wishes st)" if e: "qs_edns_query st" for c
  proof -
    obtain t q where q: "remove_opt_pseudo_rr (qs_msg st) (qs_transl st) = Some (t, q)" "length q = length (qs_msg st)"
      "hdr_rd q = hdr_rd (qs_msg st)" using remove_opt_ok [OF assms] by blast
    have a: "get16 q 10 = Some (be_at q 10)" using assms(1) q(2) by (simp add: get16_at)
    let ?s = "st\<lparr> qs_msg := q, qs_transl := t, qs_edns_query := False \<rparr>"
    have l: "12 \<le> length (qs_msg ?s)" using assms(1) q(2) by simp
    obtain n where n: "new_id rid ?s = Some (?s\<lparr> qs_msg := n, qs_myrid := rid \<rparr>)" "length n = length (qs_msg ?s)" "drop 2 n = drop 2 (qs_msg ?s)"
      using new_id_ok [OF l] by blast
    have r: "hdr_rd n = hdr_rd (qs_msg st)" using hdr_rd_drop [OF l n(2,3)] q(3) by simp
    show ?thesis
    proof (cases "t \<noteq> 0 \<and> be_at q 10 = 0")
      case True
      have "try_withoutedns rid c st = Some (Again, ?s\<lparr> qs_msg := n, qs_myrid := rid \<rparr>)" using q(1) a n(1) True by (simp add: try_withoutedns_def)
      moreover have "wishes (?s\<lparr> qs_msg := n, qs_myrid := rid \<rparr>) < wishes st" using r e by (simp add: wishes_def)
      ultimately show ?thesis using n(2) q(2) by simp
    next
      case False
      have "try_withoutedns rid c st = Some (Discard c, st\<lparr> qs_msg := q \<rparr>)" using q(1) a False by (auto simp: try_withoutedns_def)
      then show ?thesis using q(2) by simp
    qed
  qed
  have again: "\<exists>st'. (do { q \<leftarrow> clear_rd (qs_msg st); st \<leftarrow> new_id rid (st\<lparr> qs_msg := q \<rparr>); Some (Again, st) }) = Some (Again, st') \<and>
      length (qs_msg st') = length (qs_msg st) \<and> qs_myrid st' = rid \<and> wishes st' < wishes st" if r: "rdes"
  proof -
    obtain q where q: "clear_rd (qs_msg st) = Some q" "length q = length (qs_msg st)" "hdr_rd q = Some False" using clear_rd_ok [OF assms(1)] by blast
    have l: "12 \<le> length (qs_msg (st\<lparr> qs_msg := q \<rparr>))" using assms(1) q(2) by simp
    obtain n where n: "new_id rid (st\<lparr> qs_msg := q \<rparr>) = Some (st\<lparr> qs_msg := n, qs_myrid := rid \<rparr>)" "length n = length q" "drop 2 n = drop 2 q"
      using new_id_ok [OF l, of rid] by auto
    have "hdr_rd n = Some False" using hdr_rd_drop [of q n] n(2,3) q(2,3) assms(1) by simp
    then show ?thesis using q n rdes r by (simp add: wishes_def)
  qed
  note steps = judge_reply_def h g Option.bind.bind_lunit Let_def rdes ac
  let ?bad = "be_at m 0 \<noteq> qs_myrid st \<or> \<not> bit (m ! 2) 7 \<or> drop_bit 3 (m ! 2) AND 0xf \<noteq> 0 \<or> bit (m ! 3) 6"
  show ?thesis
  proof (cases "?bad \<or> \<not> (?rc = RC_OK \<or> ?rc = RC_NAMEERR) \<and> \<not> full")
    case True
    then have "\<exists>c. judge_reply m full rid st = Some (Discard c, st)" unfolding steps using len by (auto split: if_splits)
    then show ?thesis by auto
  next
    case ok: False
    show ?thesis
    proof (cases "?rc = RC_OK \<or> ?rc = RC_NAMEERR")
      case True
      then have "judge_reply m full rid st = Some (Use, st)" unfolding steps using len ok by simp
      then show ?thesis using True ok len by (intro exI [of _ Use] exI [of _ st]) auto
    next
      case nok: False
      then have fl: "full" using ok by blast
      have run: "judge_reply m full rid st =
          (if ?rc \<in> {RC_SERVFAIL, RC_NOTSUPP, RC_REFUSED} then
            (if rdes \<and> \<not> bit (m ! 3) 7 then do {
               q \<leftarrow> clear_rd (qs_msg st);
               st \<leftarrow> new_id rid (st\<lparr> qs_msg := q \<rparr>);
               Some (Again, st)
             }
             else if ?rc \<noteq> RC_SERVFAIL \<and> qs_edns_query st \<and> be_at (qs_msg st) 10 \<noteq> 0 then try_withoutedns rid ?rc st
             else if be_at m 6 \<noteq> 0 \<and> qs_auth_serv st = 2 then Some (Use, st\<lparr> qs_failed := 3 \<rparr>)
             else Some (Discard ?rc, st))
          else if ?rc = RC_FORMAT \<and> qs_edns_query st \<and> be_at (qs_msg st) 10 \<noteq> 0 then try_withoutedns rid ?rc st
          else Some (Discard ?rc, st))"
        unfolding steps using len ok nok fl by auto
      let ?A = "?rc \<in> {RC_SERVFAIL, RC_NOTSUPP, RC_REFUSED}" and ?B = "rdes \<and> \<not> bit (m ! 3) 7"
        and ?C = "?rc \<noteq> RC_SERVFAIL \<and> qs_edns_query st \<and> be_at (qs_msg st) 10 \<noteq> 0" and ?D = "be_at m 6 \<noteq> 0 \<and> qs_auth_serv st = 2"
        and ?F = "?rc = RC_FORMAT \<and> qs_edns_query st \<and> be_at (qs_msg st) 10 \<noteq> 0"
      consider "?A" "?B" | "?A" "\<not> ?B" "?C" | "?A" "\<not> ?B" "\<not> ?C" "?D" | "?A" "\<not> ?B" "\<not> ?C" "\<not> ?D" | "\<not> ?A" "?F" | "\<not> ?A" "\<not> ?F"
        by blast
      then show ?thesis
      proof cases
        case 1
        obtain st' where a: "(do { q \<leftarrow> clear_rd (qs_msg st); st \<leftarrow> new_id rid (st\<lparr> qs_msg := q \<rparr>); Some (Again, st) }) = Some (Again, st')"
          "length (qs_msg st') = length (qs_msg st)" "qs_myrid st' = rid" "wishes st' < wishes st" using again 1(2) by blast
        have "judge_reply m full rid st = Some (Again, st')" unfolding run if_P [OF 1(1)] if_P [OF 1(2)] by (rule a(1))
        then show ?thesis using a by (intro exI [of _ Again] exI [of _ st']) simp
      next
        case 2
        have "judge_reply m full rid st = try_withoutedns rid ?rc st" unfolding run if_P [OF 2(1)] if_not_P [OF 2(2)] if_P [OF 2(3)] ..
        then show ?thesis using wo [of ?rc] 2(3) by auto
      next
        case 3
        have "judge_reply m full rid st = Some (Use, st\<lparr> qs_failed := 3 \<rparr>)"
          unfolding run if_P [OF 3(1)] if_not_P [OF 3(2)] if_not_P [OF 3(3)] if_P [OF 3(4)] ..
        then show ?thesis using 3(4) ok len by (intro exI [of _ Use] exI [of _ "st\<lparr> qs_failed := 3 \<rparr>"]) auto
      next
        case 4
        have "judge_reply m full rid st = Some (Discard ?rc, st)"
          unfolding run if_P [OF 4(1)] if_not_P [OF 4(2)] if_not_P [OF 4(3)] if_not_P [OF 4(4)] ..
        then show ?thesis by simp
      next
        case 5
        have "judge_reply m full rid st = try_withoutedns rid ?rc st" unfolding run if_not_P [OF 5(1)] if_P [OF 5(2)] ..
        then show ?thesis using wo [of ?rc] 5(2) by auto
      next
        case 6
        have "judge_reply m full rid st = Some (Discard ?rc, st)" unfolding run if_not_P [OF 6(1)] if_not_P [OF 6(2)] ..
        then show ?thesis by simp
      qed
    qed
  qed
qed

theorem judge_reply_correct_witness:
  "\<exists>v st'. judge_reply ex_answer True 7 ex_stat = Some (v, st') \<and> (v = Use \<longrightarrow> be_at ex_answer 0 = 0x1234)"
  using judge_reply_correct [of ex_stat ex_answer True 7] by (auto simp: ex_stat_def)

subsection \<open>What is read from a message\<close>

text \<open>
  C7. \<open>rrs2cent\<close> reads the records of a section: it succeeds exactly when as many records as the header
  says follow each other in the message, each with a name that can be decompressed and with data that
  fit its type, and then the entries, seen as a map from names to RR sets, are the old ones with the
  records added in order, records of other classes and of types that are not cached left out. A record
  that is wrong ends the section with the records before it. Data are typed, the entries in order.
\<close>
theorem rrs2cent_correct:
  assumes "12 \<le> length m" "cache_inv (rv_cache r)" "carr_ok (rv_centa r)" "rv_ptr r + rv_cnt r = length m" "no_fail (rv_cache r)"
  shows "\<exists>rc r' k e. rrs2cent E m n fl ts r = Some (rc, r') \<and>
    records_at m fl ts (rv_ptr r) (view (rv_centa r)) k e (view (rv_centa r')) \<and>
    (rc = RC_OK \<and> k = n \<and> e = rv_ptr r' \<or>
     rc \<in> {RC_FORMAT, RC_TRUNC} \<and> k < n \<and> \<not> (\<exists>v e v'. records_at m fl ts (rv_ptr r) v n e v')) \<and>
    cents (rv_cache r') = cents (rv_cache r) \<and> carr_ok (rv_centa r') \<and>
    (length m \<le> rdlength_max \<longrightarrow> carr_typed (rv_centa r) \<longrightarrow> carr_typed (rv_centa r'))"
proof -
  obtain rc r' where r: "rrs2cent E m n fl ts r = Some (rc, r')" "rrs_res m n fl ts r rc r'"
    using rrs2cent_spec [OF assms(1-4), of E n fl ts] by blast
  have "cents (rv_cache r') = cents (rv_cache r)" using r(2) by (simp add: rrs_res_def quiet_def frameD)
  then show ?thesis using r assms(5) unfolding rrs_res_def by blast
qed

theorem rrs2cent_correct_witness:
  "\<exists>rc r' k e. rrs2cent dead_env ex_answer 1 0 1000
       \<lparr> rv_ptr = 19, rv_cnt = 16, rv_centa = None, rv_numopt = 0, rv_ep = no_edns, rv_cache = init_cache [] \<rparr> = Some (rc, r') \<and>
     records_at ex_answer 0 1000 19 (view None) k e (view (rv_centa r')) \<and> carr_ok (rv_centa r')"
proof -
  let ?r = "\<lparr> rv_ptr = 19, rv_cnt = 16, rv_centa = None, rv_numopt = 0, rv_ep = no_edns, rv_cache = init_cache [] \<rparr>"
  have "carr_ok None" by (simp add: carr_ok_def ca_list_def)
  then show ?thesis
    using rrs2cent_correct [of ex_answer ?r dead_env 1 0 1000] init_cache_inv [of "[]"] init_facts(1) by (auto simp: ex_answer_def)
qed

text \<open>
  C8. The data of a record are accepted exactly when they fit the type (names that can be decompressed,
  fixed fields, strings and lengths where the type has them, and not a byte more), and what is stored is
  their uncompressed form; anything else is a format error. What comes from at most 65279 bytes has the
  form the answers of the server rely on.
\<close>
theorem rr_data_correct:
  assumes "p + cnt \<le> length m" "no_fail \<sigma>"
  shows "\<exists>x \<sigma>'. rr_data E tp m p cnt \<sigma> = Some (x, \<sigma>') \<and> cents \<sigma>' = cents \<sigma> \<and>
    (case x of Inl e \<Rightarrow> e = RC_FORMAT \<and> (\<forall>d. \<not> data_at m tp p cnt d)
     | Inr d \<Rightarrow> data_at m tp p cnt d \<and> (cnt \<le> rdlength_max \<longrightarrow> rdata_ok tp d))"
proof -
  obtain x ms where x: "rr_data E tp m p cnt \<sigma> = Some (x, \<sigma>\<lparr> mallocs := ms \<rparr>)"
    "case x of Inl e \<Rightarrow> e = RC_FORMAT \<and> (\<forall>d. \<not> data_at m tp p cnt d) \<or> e = RC_FATALERR \<and> \<not> no_fail \<sigma>
     | Inr d \<Rightarrow> data_at m tp p cnt d \<and> (cnt \<le> rdlength_max \<longrightarrow> recv_ok tp d)"
    using rr_data_ok [OF assms(1), of E tp \<sigma>] by blast
  then show ?thesis using assms(2)
    by (intro exI [of _ x] exI [of _ "\<sigma>\<lparr> mallocs := ms \<rparr>"]) (cases x; simp add: recv_ok_def)
qed

theorem rr_data_correct_witness:
  "\<exists>x \<sigma>'. rr_data dead_env T_A ex_answer 31 4 (init_cache []) = Some (x, \<sigma>') \<and> cents \<sigma>' = Map.empty"
  using rr_data_correct [of 31 4 ex_answer "init_cache []" dead_env T_A] init_facts(1,4) by (auto simp: ex_answer_def)

subsection \<open>Reading back an answer\<close>

text \<open>The same data up to the case of the names in it.\<close>

fun part_like :: "rpart \<Rightarrow> rpart \<Rightarrow> bool" where
  "part_like (Raw a) (Raw b) = (a = b)"
| "part_like (Dom ks) (Dom ls) = ci_eq ls ks"
| "part_like _ _ = False"

lemma part_like_Raw: "part_like (Raw a) q = (q = Raw a)"
  by (cases q) auto

lemma part_like_Dom: "part_like (Dom ks) q = (\<exists>ls. q = Dom ls \<and> ci_eq ls ks)"
  by (cases q) auto

lemma part_like_length: "part_like p q \<Longrightarrow> length (enc_part q) = length (enc_part p)"
  by (cases p; cases q) (auto dest: ci_eq_enc_len)

lemma parts_like_length: "list_all2 part_like ps qs \<Longrightarrow> length (enc_parts qs) = length (enc_parts ps)"
  by (induction rule: list_all2_induct) (auto dest: part_like_length)

lemma parts_wire:
  "parts_at m i ps j \<Longrightarrow> list_all part_wf ps \<Longrightarrow> \<exists>qs. wire_at m i qs j \<and> list_all2 part_like ps qs"
proof (induction m i ps j rule: parts_at.induct)
  case (2 m i b ps j)
  then obtain qs where "wire_at m (i + length b) qs j" "list_all2 part_like ps qs" by auto
  then show ?case using 2(2) by (intro exI [of _ "Raw b # qs"]) simp
next
  case (3 m i ks ps j)
  then obtain n ls h where n: "name_at m i ls h n" "ci_eq ls ks" "h \<le> 255" "parts_at m (i + n) ps j" "wire_name ks" by (auto simp: nm_at_def)
  then have "wire_name ls" using name_at_labels [OF n(1)] ci_eq_enc_len [OF n(2)] by (simp add: wire_name_def)
  moreover obtain qs where "wire_at m (i + n) qs j" "list_all2 part_like ps qs" using 3 n(4) by auto
  ultimately show ?case using n by (intro exI [of _ "Dom ls # qs"]) auto
qed simp

lemma layout_like:
  assumes "layout tp ps" "list_all2 part_like ps qs"
  shows "layout tp qs"
  using assms unfolding layout_def
  by (auto simp: list_all2_Cons1 part_like_Raw part_like_Dom split: if_split_asm)

text \<open>The layout and the bytes determine the parts.\<close>

lemma naptr_prefix:
  "naptr_strings j a \<Longrightarrow> naptr_strings j b \<Longrightarrow> a @ r = b @ s \<Longrightarrow> a = b"
proof (induction j arbitrary: a b)
  case (Suc j)
  obtain l x where a: "a = l # x" "unat l \<le> length x" "naptr_strings j (drop (unat l) x)" using Suc.prems(1) by (cases a) auto
  obtain k y where b: "b = k # y" "unat k \<le> length y" "naptr_strings j (drop (unat k) y)" using Suc.prems(2) by (cases b) auto
  have e: "k = l" "x @ r = y @ s" using Suc.prems(3) a(1) b(1) by simp_all
  have t: "take (unat l) x = take (unat l) y" using arg_cong [OF e(2), of "take (unat l)"] a(2) b(2) e(1) by simp
  have "drop (unat l) x @ r = drop (unat l) y @ s" using arg_cong [OF e(2), of "drop (unat l)"] a(2) b(2) e(1) by simp
  then have "drop (unat l) x = drop (unat l) y" using Suc.IH [OF a(3)] b(3) e(1) by simp
  then show ?case using t a(1) b(1) e(1) by (metis append_take_drop_id)
qed simp

lemma wire_unique_Dom:
  assumes "wire_at m i (Dom a # ps) j" "wire_at m i (Dom b # qs) j"
  shows "a = b \<and> (\<exists>k. wire_at m k ps j \<and> wire_at m k qs j)"
proof -
  obtain h n where x: "name_at m i a h n" "wire_at m (i + n) ps j" using assms(1) by auto
  obtain h' n' where y: "name_at m i b h' n'" "wire_at m (i + n') qs j" using assms(2) by auto
  have "b = a" "n' = n" using name_at_unique [OF x(1) y(1)] by simp_all
  then show ?thesis using x(2) y(2) by blast
qed

lemma wire_unique_Raw:
  "wire_at m i (Raw a # ps) j \<Longrightarrow> wire_at m i (Raw b # qs) j \<Longrightarrow> length a = length b \<Longrightarrow> a = b \<and> (\<exists>k. wire_at m k ps j \<and> wire_at m k qs j)"
  by auto

lemma wire_last_Raw: "wire_at m i [Raw a] j \<Longrightarrow> wire_at m i [Raw b] j \<Longrightarrow> a = b"
  by auto

lemma layout_unique:
  assumes "layout tp ps" "layout tp qs" "wire_at m i ps j" "wire_at m i qs j"
  shows "ps = qs"
proof -
  have d1: "[Dom a] = [Dom b]" if "wire_at m k [Dom a] j" "wire_at m k [Dom b] j" for a b k using wire_unique_Dom [OF that] by simp
  have d2: "[Dom a, Dom c] = [Dom b, Dom d]" if "wire_at m k [Dom a, Dom c] j" "wire_at m k [Dom b, Dom d] j" for a b c d k
    using wire_unique_Dom [OF that] d1 by blast
  have r1: "[Raw x, Dom a] = [Raw y, Dom b]" if "wire_at m k [Raw x, Dom a] j" "wire_at m k [Raw y, Dom b] j" "length x = length y" for x y a b k
    using wire_unique_Raw [OF that] d1 by blast
  consider "\<exists>a b. ps = [Dom a] \<and> qs = [Dom b]" | "\<exists>a b c d. ps = [Dom a, Dom b] \<and> qs = [Dom c, Dom d]"
    | "\<exists>x y a b. ps = [Raw x, Dom a] \<and> qs = [Raw y, Dom b] \<and> length x = length y"
    | "\<exists>a b c d x y. ps = [Dom a, Dom b, Raw x] \<and> qs = [Dom c, Dom d, Raw y]"
    | "\<exists>x y a b c d. ps = [Raw x, Dom a, Dom b] \<and> qs = [Raw y, Dom c, Dom d] \<and> length x = length y"
    | "\<exists>a b x y. ps = [Dom a, Raw x] \<and> qs = [Dom b, Raw y]"
    | "\<exists>x y a b. ps = [Raw x, Dom a] \<and> qs = [Raw y, Dom b] \<and> 4 \<le> length x \<and> 4 \<le> length y \<and> naptr_strings 3 (drop 4 x) \<and> naptr_strings 3 (drop 4 y)"
    | "\<exists>x y. ps = [Raw x] \<and> qs = [Raw y]"
    using assms(1,2) unfolding layout_def by (simp only: split: if_split_asm) metis+
  then show ?thesis
  proof cases
    case 1 then show ?thesis using assms(3,4) d1 by blast
  next
    case 2 then show ?thesis using assms(3,4) d2 by blast
  next
    case 3 then show ?thesis using assms(3,4) r1 by blast
  next
    case 4
    then obtain a b c d x y where e: "ps = [Dom a, Dom b, Raw x]" "qs = [Dom c, Dom d, Raw y]" by blast
    then obtain k where k: "a = c" "wire_at m k [Dom b, Raw x] j" "wire_at m k [Dom d, Raw y] j" using wire_unique_Dom assms(3,4) by blast
    then show ?thesis using wire_unique_Dom [OF k(2,3)] wire_last_Raw e by blast
  next
    case 5
    then obtain x y a b c d where e: "ps = [Raw x, Dom a, Dom b]" "qs = [Raw y, Dom c, Dom d]" "length x = length y" by blast
    then show ?thesis using wire_unique_Raw [of m i x "[Dom a, Dom b]" j y "[Dom c, Dom d]"] assms(3,4) d2 by blast
  next
    case 6
    then obtain a b x y where e: "ps = [Dom a, Raw x]" "qs = [Dom b, Raw y]" by blast
    then show ?thesis using wire_unique_Dom [of m i a "[Raw x]" j b "[Raw y]"] assms(3,4) wire_last_Raw by blast
  next
    case 7
    then obtain x y a b where e: "ps = [Raw x, Dom a]" "qs = [Raw y, Dom b]" "4 \<le> length x" "4 \<le> length y"
      "naptr_strings 3 (drop 4 x)" "naptr_strings 3 (drop 4 y)" by blast
    have t: "take (length x) (drop i m) = x" "take (length y) (drop i m) = y" using assms(3,4) e(1,2) by simp_all
    let ?d = "drop i m"
    have "drop 4 x @ drop (length x) ?d = drop 4 ?d" "drop 4 y @ drop (length y) ?d = drop 4 ?d"
      using t e(3,4) by (metis append_take_drop_id drop_append diff_is_0_eq' drop0)+
    then have "drop 4 x = drop 4 y" using naptr_prefix [OF e(5,6)] by metis
    then have "length x = length y" using e(3,4) by (metis eq_diff_iff length_drop)
    then show ?thesis using r1 assms(3,4) e(1,2) by blast
  next
    case 8 then show ?thesis using assms(3,4) wire_last_Raw by blast
  qed
qed

text \<open>The fields of the header of a record, as they are read.\<close>

lemma be16_at: "unat (ucast (drop_bit 8 x) :: byte) * 256 + unat (ucast x :: byte) = unat (x :: u16)"
  using be16_unat [of x] by (simp add: be16_def)

lemma split_16: "(n :: nat) mod 65536 = n div 256 mod 256 * 256 + n mod 256"
  using mod_mult2_eq [of n 256 256] by simp

lemma be32_at:
  "(unat (ucast (drop_bit 24 x) :: byte) * 256 + unat (ucast (drop_bit 16 x) :: byte)) * 65536 +
    (unat (ucast (drop_bit 8 x) :: byte) * 256 + unat (ucast x :: byte)) = unat (x :: u32)"
proof -
  let ?n = "unat x"
  have b: "unat (ucast (drop_bit k x) :: byte) = ?n div 2 ^ k mod 256" for k
    by (simp add: unsigned_ucast_eq take_bit_eq_mod unat_drop_bit_eq drop_bit_eq_div [of k "unat x"])
  have l: "unat (ucast x :: byte) = ?n mod 256" using b [of 0] by simp
  have "?n < 2 ^ 32" using unsigned_less [of x, where 'a = nat] by simp
  then have "?n div 65536 = ?n div 65536 mod 65536" by (intro mod_less [symmetric]) (simp add: less_mult_imp_div_less)
  also have "\<dots> = ?n div 65536 div 256 mod 256 * 256 + ?n div 65536 mod 256" by (rule split_16)
  also have "?n div 65536 div 256 = ?n div 16777216" by (simp add: div_mult2_eq [symmetric])
  finally have "(?n div 16777216 mod 256 * 256 + ?n div 65536 mod 256) * 65536 + (?n div 256 mod 256 * 256 + ?n mod 256) = ?n"
    using split_16 [of ?n] div_mult_mod_eq [of ?n 65536] by simp
  then show ?thesis using b [of 24] b [of 16] b [of 8] l by simp
qed

lemma rr_header_fields:
  assumes "take 10 (drop q m) = rr_header tp ttl k" "0 \<le> tp" "tp < 65536" "k < 65536"
  shows "int (be_at m q) = tp" "be_at m (q + 2) = 1" "as_time (be_at m (q + 4) * 65536 + be_at m (q + 6)) = sint ttl" "be_at m (q + 8) = k"
proof -
  have "length (take 10 (drop q m)) = 10" using assms(1) by simp
  then have "q \<le> length m" by simp
  then have n: "m ! (q + j) = rr_header tp ttl k ! j" if "j < 10" for j
    using that arg_cong [OF assms(1), of "\<lambda>l. l ! j"] by simp
  then have at: "be_at m (q + i) = be_at (rr_header tp ttl k) i" if "i < 9" for i
    using that n [of i] n [of "i + 1"] by (simp add: be_at_def)
  have h: "be_at (rr_header tp ttl k) 0 = unat (word_of_int tp :: u16)" "be_at (rr_header tp ttl k) 2 = unat (word_of_int C_IN :: u16)"
    "be_at (rr_header tp ttl k) 8 = unat (word_of_nat k :: u16)"
    "be_at (rr_header tp ttl k) 4 * 65536 + be_at (rr_header tp ttl k) 6 = unat ttl"
    using be16_at [of "word_of_int tp"] be16_at [of "word_of_nat k"] be32_at [of ttl]
    by (simp_all add: be_at_def rr_header_def be16_def be32_def)
  show "int (be_at m q) = tp" using at [of 0] h(1) assms(2,3) by (simp add: unsigned_of_int take_bit_eq_mod)
  show "be_at m (q + 2) = 1" using at [of 2] h(2) by simp
  show "as_time (be_at m (q + 4) * 65536 + be_at m (q + 6)) = sint ttl" using at [of 4] at [of 6] h(4) by (simp add: as_time_def)
  show "be_at m (q + 8) = k" using at [of 8] h(3) assms(4) by (simp add: unsigned_of_nat take_bit_eq_mod)
qed

text \<open>
  C9. What the server writes, the resolver reads: a record that \<open>add_rr\<close> has put into a message,
  compressed against whatever is there already, is accepted by \<open>rrs2cent\<close> at the place where it was
  put, fills the message to its new end, and what is read has the same name up to case, the same
  type and time to live, and the same data, names in them equal up to case. The types are those of the
  cache but IPSECKEY, RRSIG and NSEC, and the data have the length \<open>wire_layout\<close> asks for (4 and 16
  bytes of an address, at most 1040 bytes of NXT); the record is not one that a limit on UDP
  replies may keep out.
\<close>
theorem answer_read_back:
  assumes "msg_wf s" "no_fail (an_cache s)" "cb_for (hdrs s) s" "wire_name ks" "wire_layout tp ps" "list_all part_wf ps"
    "length (enc_parts ps) < 65536" "sect \<noteq> S_ADDITIONAL \<or> udp = None" "tp \<notin> opaque" "\<not> PDNSD_NOT_CACHED_TYPE tp"
    "cache_inv \<sigma>" "no_fail \<sigma>" "carr_ok a"
  shows "\<exists>s' r' qs. add_rr E (enc ks @ r) tp ttl (enc_parts ps) sect udp s = Some (True, s') \<and>
    rrs2cent E (used s') 1 fl ts \<lparr> rv_ptr = an_sz s, rv_cnt = an_sz s' - an_sz s, rv_centa = a, rv_numopt = 0, rv_ep = no_edns,
      rv_cache = \<sigma> \<rparr> = Some (RC_OK, r') \<and> rv_ptr r' = an_sz s' \<and> list_all2 part_like ps qs \<and>
    view (rv_centa r') = absorb (view a) (key_of (enc ks)) (the (rrlkup tp)) (sint ttl) ts fl (enc_parts qs)"
proof -
  have L: "layout tp ps" using assms(5) by (simp add: wire_layout_def)
  obtain s' n k where a: "add_rr E (enc ks @ r) tp ttl (enc_parts ps) sect udp s = Some (True, s')" "msg_wf s'"
    "an_sz s' = an_sz s + n + 10 + k" "k \<le> length (enc_parts ps)" "nm_at (used s') (an_sz s) ks n"
    "take 10 (drop (an_sz s + n) (used s')) = rr_header tp ttl k" "parts_at (used s') (an_sz s + n + 10) ps (an_sz s')"
    using add_rr_bytes [OF assms(1-4) L assms(6,8), of E r ttl] by blast
  let ?m = "used s'" and ?p = "an_sz s" and ?q = "an_sz s + n"
  let ?r = "\<lparr> rv_ptr = an_sz s, rv_cnt = an_sz s' - an_sz s, rv_centa = a, rv_numopt = 0, rv_ep = no_edns, rv_cache = \<sigma> \<rparr>"
  have l: "length ?m = an_sz s'" "12 \<le> length ?m" using used_length [OF a(2)] assms(1) a(3) by (simp_all add: msg_wf_def)
  have "PDNSD_NOT_CACHED_TYPE T_OPT" by code_simp
  then have "tp \<noteq> T_OPT" using assms(10) by metis
  then have tp: "0 \<le> tp" "tp < 65536" "\<not> ignored (nat tp) 1"
    using assms(10) by (auto simp: PDNSD_NOT_CACHED_TYPE_def ignored_def)
  have f: "int (be_at ?m ?q) = tp" "be_at ?m (?q + 2) = 1" "as_time (be_at ?m (?q + 4) * 65536 + be_at ?m (?q + 6)) = sint ttl" "be_at ?m (?q + 8) = k"
    using rr_header_fields [OF a(6) tp(1,2)] a(4) assms(7) by simp_all
  obtain ls where ls: "readable ?m ?p ls n" "canon ls = canon ks"
  proof -
    obtain ls h where x: "name_at ?m ?p ls h n" "ci_eq ls ks" "h \<le> 255" using a(5) by (auto simp: nm_at_def)
    then have "wire_name ls" using name_at_labels [OF x(1)] ci_eq_enc_len [OF x(2)] assms(4) by (simp add: wire_name_def)
    then show ?thesis using that x by (auto simp: readable_def ci_eq_canon)
  qed
  have "wire_name ls" using ls(1) by (auto simp: readable_def)
  then have key: "key_of (enc ls) = key_of (enc ks)"
    using wire_name_labels [OF assms(4)] wire_name_labels [of ls] ls(2) by (simp add: key_of_def)
  obtain qs where qs: "wire_at ?m (?q + 10) qs (an_sz s')" "list_all2 part_like ps qs" using parts_wire [OF a(7) assms(6)] by blast
  have W: "wire_layout tp qs" using layout_like [OF L qs(2)] parts_like_length [OF qs(2)] assms(5) by (simp add: wire_layout_def)
  have e: "?q + 10 + k = an_sz s'" using a(3) by simp
  have D: "data_at ?m tp (?q + 10) k d = (d = enc_parts qs)" for d
  proof -
    have "data_at ?m tp (?q + 10) k d = (\<exists>ps. wire_layout tp ps \<and> wire_at ?m (?q + 10) ps (an_sz s') \<and> d = enc_parts ps)"
      using assms(9) e by (simp add: data_at_def)
    also have "\<dots> = (d = enc_parts qs)"
      using W qs(1) layout_unique [OF _ _ _ qs(1), of tp] unfolding wire_layout_def by blast
    finally show ?thesis .
  qed
  have ig: "\<not> ignored (be_at ?m ?q) (be_at ?m (?q + 2))" using tp(3) f(1,2) by (metis nat_int)
  let ?v = "\<lambda>v. absorb v (key_of (enc ks)) (the (rrlkup tp)) (sint ttl) ts fl (enc_parts qs)"
  have fit: "?q + 10 + be_at ?m (?q + 8) \<le> length ?m" "?q + 10 + be_at ?m (?q + 8) = an_sz s'" using e l f(4) by simp_all
  have yes: "records_at ?m fl ts ?p v (Suc 0) (an_sz s') (?v v)" for v
  proof (rule rec_data [OF ls(1) refl fit(1) ig])
    show "data_at ?m (int (be_at ?m ?q)) (?q + 10) (be_at ?m (?q + 8)) (enc_parts qs)" using D f by simp
    show "?v v = absorb v (key_of (enc ls)) (the (rrlkup (int (be_at ?m ?q)))) (as_time (be_at ?m (?q + 4) * 65536 + be_at ?m (?q + 6))) ts fl (enc_parts qs)"
      unfolding f key by (rule refl)
    show "records_at ?m fl ts (?q + 10 + be_at ?m (?q + 8)) (?v v) 0 (an_sz s') (?v v)" unfolding fit(2) by (rule rec_end)
  qed
  have only: "e' = an_sz s' \<and> w = ?v v" if R: "records_at ?m fl ts ?p v (Suc 0) e' w" for v e' w
    using R
  proof cases
    case (rec_skip ls' l' q')
    then have "q' = ?q" using readable_unique [OF ls(1)] by simp
    then show ?thesis using rec_skip ig by simp
  next
    case (rec_data ls' l' q' d w')
    then have u: "ls' = ls" "q' = ?q" using readable_unique [OF ls(1)] by simp_all
    then have d: "d = enc_parts qs" using rec_data(5) D f by simp
    have "e' = an_sz s' \<and> w = w'" using rec_data(7) fit(2) u by (auto elim: records_at.cases)
    then show ?thesis using rec_data(6) u d f key by simp
  qed
  obtain rc r' where r: "rrs2cent E ?m 1 fl ts ?r = Some (rc, r')" "rrs_res ?m 1 fl ts ?r rc r'"
    using rrs2cent_spec [OF l(2), of ?r E 1 fl ts] assms(11,13) a(3) l(1) by auto
  have "rc = RC_OK \<and> records_at ?m fl ts ?p (view a) (Suc 0) (rv_ptr r') (view (rv_centa r'))"
    using r(2) assms(12) yes [of "view a"] unfolding rrs_res_def by auto
  then have rc: "rc = RC_OK" and "records_at ?m fl ts ?p (view a) (Suc 0) (rv_ptr r') (view (rv_centa r'))" by simp_all
  from only [OF this(2)] have "rv_ptr r' = an_sz s'" "view (rv_centa r') = ?v (view a)" by simp_all
  with a(1) r(1) qs(2) show ?thesis unfolding rc by (intro exI [of _ s'] exI [of _ r'] exI [of _ qs] conjI)
qed

theorem answer_read_back_witness:
  "\<exists>s' r' d. add_rr dead_env [1, 97, 0] T_MX 60 [0, 10, 1, 98, 1, 97, 0] S_ANSWER None header_msg = Some (True, s') \<and>
     rrs2cent dead_env (used s') 1 0 1000 \<lparr> rv_ptr = 12, rv_cnt = an_sz s' - 12, rv_centa = None, rv_numopt = 0, rv_ep = no_edns,
       rv_cache = init_cache [] \<rparr> = Some (RC_OK, r') \<and>
     view (rv_centa r') = absorb (view None) [[97]] (the (rrlkup T_MX)) 60 1000 0 d"
proof -
  have w: "wire_name [[97]]" "wire_name [[98], [97]]" by (simp_all add: wire_name_def wire_label_def)
  have y: "wire_layout T_MX [Raw [0, 10], Dom [[98], [97]]]" by (simp add: wire_layout_def layout_def)
  have c: "carr_ok None" by (simp add: carr_ok_def ca_list_def)
  have t: "\<not> PDNSD_NOT_CACHED_TYPE T_MX" by code_simp
  from answer_read_back [OF header_msg_ok w(1) y _ _ _ _ t init_cache_inv init_facts(1) c, of S_ANSWER None dead_env "[]" 60 0 1000] w(2) ex_key
  show ?thesis by (simp add: header_msg_def ex_name_def) blast
qed

end
