(* ===== verification/Spec2Isabelle.thy ===== *)
theory Spec2Isabelle
  imports Pd_Types Pd_Consts Pd_Text Pd_Dns Pd_Hash Pd_RrList Pd_Cent Pd_Cache Pd_Lock Pd_DiskSpec Pd_Lists Pd_CacheProps Pd_AnswerProps Pd_ReplyProps
begin

text \<open>
  A verification library for pdnsd, the caching DNS proxy under \<open>src/ndk/src/main/jni/pdnsd/src\<close> (all
  file names below are relative to this directory).

  \<^bold>\<open>The program.\<close> Clients send DNS queries. \<open>dns_answer.c\<close> decodes a query, asks for each name the entry of
  the cache that answers it, and composes the reply. The entry comes from \<open>dns_cached_resolve\<close> of
  \<open>dns_query.c\<close>, which looks into the cache and, when this does not have the data or they are too old,
  sends queries to other servers; the replies are taken apart into cache entries, one of which is the
  answer while the others are offered to the cache. \<open>cache.c\<close> keeps the entries in a hash table
  (\<open>hash.c\<close>) and their RR sets in one list by age, from which it purges when the cache is too large; it
  writes the cache to a file and reads it back. Several threads share the cache under a lock for many
  readers or one writer.

  \<^bold>\<open>How C is modelled.\<close> An object of bytes is a list, a pointer into it is an index or the suffix of the
  list; every access is checked (\<open>rd\<close>, \<open>wr\<close>, \<open>rdn\<close>, \<open>wrn\<close> of \<open>Pd_Prelude\<close>), and the value \<open>None\<close> of the option
  type stands for an access outside an object, a pointer to a freed object, a failing assertion, or a
  loop that does not end. So a theorem that a function returns \<open>Some\<close> says that none of this happens.
  Errors the program handles are values: its own return codes, or \<open>Inl\<close> of a sum. Each state holds the
  outcomes of the allocations to come (\<open>mallocs\<close>), so that every \<open>malloc\<close> may fail; \<open>no_fail\<close> says that
  none does. Structures are records, integers have their width where it matters (\<open>byte\<close>, \<open>u16\<close>, \<open>u32\<close>;
  the sizes and lengths of a message are natural numbers, kept below 65536 by the theorems), \<open>time_t\<close> is
  a signed 32-bit integer. Loops without an obvious end are \<open>partial_function\<close>, and the theorems about
  them say that they end.

  \<^bold>\<open>The theories\<close>, from the bottom:

  \<^item> \<open>Pd_Prelude\<close>: memory accesses, lists, options and bytes.
  \<^item> \<open>Pd_Types\<close> (\<open>rr_types.h\<close>, \<open>rr_types.c\<close>, the tables of \<open>dns.c\<close>): RR types, their properties and names.
    \<open>Pd_Consts\<close> (\<open>consts.c\<close>): the keywords of the configuration and their binary search.
  \<^item> \<open>Pd_Lists\<close> (\<open>list.c\<close>, \<open>list.h\<close>): the containers \<open>darray\<close>, \<open>dlist\<close> and \<open>llist\<close>. \<open>dlist\<close> and \<open>llist\<close> are instances
    of one interface (\<open>grow_list\<close>): what was in the list stays, and the new item is the last.
  \<^item> \<open>Pd_Names\<close>, \<open>Pd_Text\<close> (\<open>helpers.h\<close>, \<open>helpers.c\<close>): names as a sequence of length-prefixed labels
    (\<open>enc\<close> of a list of labels, at most 256 bytes with the zero) and their conversion from and to text.
  \<^item> \<open>Pd_Dns\<close> (\<open>dns.c\<close>): compressed names in messages and the names of reverse look-ups. \<open>name_at m i ls h n\<close>
    says, without reference to the code, that the message \<open>m\<close> has the name \<open>ls\<close> at \<open>i\<close>, behind \<open>h\<close>
    compression pointers; \<open>decompress_name\<close> follows at most 255 of them.
  \<^item> \<open>Pd_Hash\<close> (\<open>hash.c\<close>, \<open>hash.h\<close>): the hash table, refining a map from names to entries (\<open>tab_map\<close>, interface
    \<open>name_table\<close>).
  \<^item> \<open>Pd_RrList\<close> (\<open>cache.c\<close>): the list of RR sets by age with its pointers, insertion and merge sort (interface
    \<open>node_list\<close>). The array of fragments of the merge sort has enough places because the number of nodes
    is below \<open>2^32\<close>.
  \<^item> \<open>Pd_Cent\<close>, \<open>Pd_CentSpec\<close> (\<open>cache.h\<close>, \<open>cache.c\<close>): cache entries and RR sets that are not shared.
  \<^item> \<open>Pd_Cache\<close> (\<open>cache.c\<close>): the cache, a record of the entries by address, the hash table, the list, the
    sizes and the outcomes of allocations; every operation the rest of the program calls is a function
    on it. \<open>Pd_CacheInv\<close> has the invariant \<open>cache_inv\<close>: table, store and list hold the same things, the
    counters are true. \<open>Pd_Purge\<close> and \<open>Pd_PurgeCache\<close>, \<open>Pd_Merge\<close>, \<open>Pd_AddCache\<close> and \<open>Pd_AddCacheSpec\<close>,
    \<open>Pd_Lookup\<close>, \<open>Pd_Empty\<close> and \<open>Pd_CacheOps\<close> show what the operations do to it. \<open>Pd_CacheProps\<close> has all
    operations as one service (interface \<open>service\<close>) and the properties of the cache.
  \<^item> \<open>Pd_Lock\<close> (\<open>cache.c\<close>): the lock. The sections under its mutex are functions, and a step relation
    interleaves them for any number of threads.
  \<^item> \<open>Pd_Disk\<close> (\<open>cache.c\<close>): the file image of the cache, written and read entry by entry, with the failure of
    each read and write. \<open>Pd_DiskSpec\<close> shows that any file can be read, and for one entry that what is
    written (\<open>write_cent_img\<close>) is read back as the entry without its local sets (\<open>read_entry_img\<close>).
  \<^item> \<open>Pd_Answer\<close>, \<open>Pd_Compose\<close> (\<open>dns_answer.c\<close>): \<open>process_query\<close> from the bytes of a query to those of the
    reply. \<open>Pd_Layout\<close> says what a message is (\<open>quest_at\<close>, \<open>recs_at\<close>: questions and records at their places),
    \<open>Pd_AnswerSpec\<close>, \<open>Pd_ComposeSpec\<close> and \<open>Pd_QuerySpec\<close> show that one is written and read,
    \<open>Pd_AnswerProps\<close> has the properties.
  \<^item> \<open>Pd_Recv\<close> (\<open>rrs2cent\<close>, \<open>rr_to_cache\<close> of \<open>dns_query.c\<close>): the records of a reply. \<open>Pd_RecvSpec\<close> says what data
    a record of each type has (\<open>data_at\<close>) and what a section says (\<open>records_at\<close>, a map from names and types
    to data), and that this is what is read.
  \<^item> \<open>Pd_Reply\<close> (\<open>p_exec_query\<close> of \<open>dns_query.c\<close>, from the arrival of a reply on): \<open>judge_reply\<close> are the checks of the header
    with the repetitions of the query, \<open>process_reply\<close> all the rest, its labels and \<open>goto\<close>s being
    functions of the same names. \<open>Pd_ReplySpec\<close>, \<open>Pd_ReplyRun\<close> and \<open>Pd_ReplyProps\<close> show that it is safe and
    what it can do to the cache.

  \<^bold>\<open>What is shown.\<close>

  \<^item> Safety against the network: \<open>process_query\<close> handles every message, \<open>process_reply\<close> every message of 12 to
    65279 bytes, whatever they contain and whatever allocations fail, without leaving an object, and end. Names
    cannot overflow the buffers of 256 bytes (\<open>decompress_name_correct\<close>, \<open>rhn2str_safe\<close>). A reply from a server
    that is not trusted and has a domain adds nothing to the cache outside this domain, and no server that the
    configuration does not list can add data for the root (\<open>process_reply_confined\<close>); when \<open>paranoid\<close> is off, the
    default, servers have no such domain and all other names are admitted. A reply that does not
    repeat the question does nothing.
  \<^item> The messages are right: queries and records are accepted exactly when they are laid out as RFC 1035
    has it, what is written is counted by the header, can be read at its place, and is read back by the
    resolver as the same record. The header decides by its bytes which queries are dropped or refused.
    The limit of UDP replies holds for the additional section, but for the OPT record after a name error.
  \<^item> The cache: every sequence of operations, each used as its callers do (\<open>op_ok\<close>), keeps the invariant; an
    entry just added is found; what is returned has no RR set that has timed out and is to be purged (sets that
    are local, or added while \<open>purge_cache\<close> was off, are kept and served); purging ends within the size and,
    when the list is in order, removes the oldest sets first; purging never removes local data (adding
    can replace a negative local entry); and deletion refines removal from a map. Reverse records of an
    entry that has NS or SOA sets are outside the invariant, because \<open>add_reverse_cache\<close> does not count them.
  \<^item> The file of the cache: reading ends for every content, and keeps the invariant. The data of records are
    not checked by the code, so only \<open>cache_inv\<close> is kept, not the typing of the data (\<open>store_ok\<close>) that
    \<open>process_query_safe\<close> starts from: a file is trusted to have been written by the program.
  \<^item> The lock: mutual exclusion for every interleaving, and no lost wake-up among the threads that wait without
    a time limit.
  \<^item> The containers, the table, the sort, and the conversions of names refine maps, lists, sorting and
    the grammar of names.

  \<^bold>\<open>Parameters and bounds.\<close> What \<open>dns_answer.c\<close> sees of \<open>dns_cached_resolve\<close> and of the other threads is the
  record \<open>aenv\<close>; the contract \<open>env_ok\<close> asks only that the cache stays in order and that an entry comes
  with \<open>RC_OK\<close>, which is what \<open>process_reply_safe\<close> shows of every single reply. Other threads change the
  cache between the sections under the lock only; \<open>lookup_cache\<close> takes such a change as an argument. The
  buffers on the stack start with arbitrary bytes (\<open>ev_fill\<close>); random numbers and the results of \<open>time()\<close>
  are lists in the state. The recursion along CNAME records has the bound \<open>MAX_HOPS\<close> = 20 of the code. The
  theorems about replies assume at most \<open>rdlength_max\<close> = 65279 bytes: decompressing a name in the data
  of one record adds at most 256 bytes, so that the data stay below the 65536 bytes the length field of
  a record can tell; a reply beyond this can make the data of an IPSECKEY, RRSIG or NSEC record too
  long. They also assume (\<open>roomy\<close>) that the list of RR sets has room for those of the reply, fewer than
  \<open>2^32\<close> in all, which the array of the merge sort relies on.

  \<^bold>\<open>What is not modelled.\<close> The sockets, threads and queues around \<open>process_query\<close> (\<open>dns_answer.c\<close> from line
  1344 on); sending queries and waiting for replies, choosing servers and following delegations
  (\<open>p_query_sm\<close>, \<open>p_recursive_query\<close>, \<open>p_dns_resolve\<close> and the rest of \<open>dns_query.c\<close>), because their behaviour is that
  of the operating system and of time; the tests of servers (\<open>servers.c\<close>, \<open>icmp.c\<close>, \<open>netdev.c\<close>); the parser
  of the configuration (\<open>conf-parser.c\<close>, \<open>conff.c\<close>), whose results are parameters here; the control
  interface (\<open>status.c\<close>), whose commands are operations of the cache; start-up, signals and messages
  (\<open>main.c\<close>, \<open>thread.c\<close>, \<open>error.c\<close>); reading the lines of hosts files (\<open>add_host\<close> for one host is modelled);
  the texts of reports (\<open>dump_cache\<close>, \<open>report_cache_stat\<close>, \<open>loc2str\<close>, \<open>hexdump\<close>). The round trip of the file
  image is shown for single entries, not for the whole file. The event library under \<open>libev\<close> is third-party code.
\<close>

end
